(* ===== verification/HatnPrelude.thy ===== *)
theory HatnPrelude
  imports Main "HOL-Library.Word" "HOL-Library.Signed_Division"
begin

unbundle bit_operations_syntax

section \<open>Prelude: machine integers, byte words, digits\<close>

text \<open>
  What every component shares: the names of the fixed-width types of the sources, the
  conversions C++ applies implicitly (reduction modulo a power of two, reading a register as
  two's complement), the bit-level lemmas that turn shifts and masks into arithmetic, and the
  numerals the program prints and reads. Fields whose arithmetic matters are \<open>int\<close> with the
  conversion written out where the source has a \<open>static_cast\<close> or stores a wider value; raw
  bit manipulation uses \<^typ>\<open>'a word\<close>.
\<close>

named_theorems cint_defs \<open>conversions between C++ integer types\<close>
named_theorems word_nat \<open>words read as natural numbers\<close>

type_synonym byte = "8 word"
type_synonym u32 = "32 word"
type_synonym u64 = "64 word"

subsection \<open>Conversions to a fixed width\<close>

definition u8 :: "int \<Rightarrow> int" where
  "u8 x = x mod 256"

definition u16 :: "int \<Rightarrow> int" where
  "u16 x = x mod 65536"

definition u32 :: "int \<Rightarrow> int" where
  "u32 x = x mod 4294967296"

definition u64 :: "int \<Rightarrow> int" where
  "u64 x = x mod 18446744073709551616"

text \<open>The value of a register read as a signed 32-bit or 64-bit integer.\<close>

definition s32 :: "int \<Rightarrow> int" where
  "s32 x = (x + 2147483648) mod 4294967296 - 2147483648"

definition s64 :: "int \<Rightarrow> int" where
  "s64 x = (x + 9223372036854775808) mod 18446744073709551616 - 9223372036854775808"

lemmas cint_def_list [cint_defs] = u8_def u16_def u32_def u64_def s32_def s64_def

lemma u8_id [simp]: "0 \<le> x \<Longrightarrow> x < 256 \<Longrightarrow> u8 x = x"
  by (simp add: u8_def)

lemma u16_id [simp]: "0 \<le> x \<Longrightarrow> x < 65536 \<Longrightarrow> u16 x = x"
  by (simp add: u16_def)

lemma u32_id [simp]: "0 \<le> x \<Longrightarrow> x < 4294967296 \<Longrightarrow> u32 x = x"
  by (simp add: u32_def)

lemma u64_id [simp]: "0 \<le> x \<Longrightarrow> x < 18446744073709551616 \<Longrightarrow> u64 x = x"
  by (simp add: u64_def)

lemma s32_id [simp]: "-2147483648 \<le> x \<Longrightarrow> x < 2147483648 \<Longrightarrow> s32 x = x"
  by (simp add: s32_def)

lemma u64_neg:
  assumes "x < 0" and "- 18446744073709551616 \<le> x"
  shows "u64 x = x + 18446744073709551616"
proof -
  have "u64 x = (x + 18446744073709551616) mod 18446744073709551616" by (simp add: u64_def)
  also have "\<dots> = x + 18446744073709551616" by (rule mod_pos_pos_trivial) (use assms in simp_all)
  finally show ?thesis .
qed

lemma u8_range: "0 \<le> u8 x \<and> u8 x < 256"
  by (simp add: u8_def)

lemma u16_range: "0 \<le> u16 x \<and> u16 x < 65536"
  by (simp add: u16_def)

text \<open>The same for \<open>size_t\<close> kept as \<^typ>\<open>nat\<close>: stores and differences.\<close>

definition w64 :: "nat \<Rightarrow> nat" where "w64 n = n mod 2 ^ 64"

definition sub64 :: "nat \<Rightarrow> nat \<Rightarrow> nat" where "sub64 a b = (a + 2 ^ 64 - b) mod 2 ^ 64"

lemma w64_id [simp]: "n < 18446744073709551616 \<Longrightarrow> w64 n = n"
  by (simp add: w64_def)

lemma sub64_le [simp]: "b \<le> a \<Longrightarrow> a < 18446744073709551616 \<Longrightarrow> sub64 a b = a - b"
proof -
  assume *: "b \<le> a" "a < 18446744073709551616"
  then have "a + 2 ^ 64 - b = (a - b) + 2 ^ 64" by simp
  then show ?thesis using * unfolding sub64_def by (simp only: mod_add_self2) simp
qed

subsection \<open>Lists updated in place\<close>

lemma nth_append_at [simp]: "(xs @ y # ys) ! length xs = y"
  by simp

lemma drop_append_exact [simp]: "length xs = n \<Longrightarrow> drop n (xs @ ys) = ys"
  by simp

lemma take_append_exact [simp]: "length xs = n \<Longrightarrow> take n (xs @ ys) = xs"
  by simp

subsection \<open>Writing over a part of a list\<close>

definition overlay :: "nat \<Rightarrow> 'a list \<Rightarrow> 'a list \<Rightarrow> 'a list" where
  "overlay k bs t = take k t @ bs @ drop (k + length bs) t"

lemma length_overlay [simp]: "k + length bs \<le> length t \<Longrightarrow> length (overlay k bs t) = length t"
  by (simp add: overlay_def)

lemma overlay_nil [simp]: "overlay k [] t = t"
  by (simp add: overlay_def)

lemma overlay_0: "overlay 0 bs t = bs @ drop (length bs) t"
  by (simp add: overlay_def)

lemma overlay_Suc [simp]: "overlay (Suc k) bs (x # t) = x # overlay k bs t"
  by (simp add: overlay_def)

lemma overlay_numeral [simp]: "overlay (numeral k) bs (x # t) = x # overlay (pred_numeral k) bs t"
  by (simp add: numeral_eq_Suc)

lemma take_numeral_add [simp]: "take (numeral k + n) (x # t) = x # take (pred_numeral k + n) t"
  by (simp add: numeral_eq_Suc)

lemma overlay_numeral_add [simp]:
  "overlay (numeral k + n) bs (x # t) = x # overlay (pred_numeral k + n) bs t"
  by (simp add: numeral_eq_Suc)

lemma overlay_two:
  "k + 1 + length bs \<le> length u \<Longrightarrow> overlay (Suc k) bs (overlay k [x] u) = take k u @ [x] @ bs @ drop (k + 1 + length bs) u"
  by (simp add: overlay_def ac_simps)

text \<open>Numbers as bytes, the least significant first.\<close>

fun le_bytes :: "nat \<Rightarrow> nat \<Rightarrow> byte list" where
  "le_bytes 0 n = []"
| "le_bytes (Suc w) n = of_nat n # le_bytes w (n div 256)"

fun le_nat :: "byte list \<Rightarrow> nat" where
  "le_nat [] = 0"
| "le_nat (b # bs) = unat b + 256 * le_nat bs"

lemma length_le_bytes [simp]: "length (le_bytes w n) = w"
  by (induction w arbitrary: n) auto

lemma le_bytes_Nil [simp]: "le_bytes w n = [] \<longleftrightarrow> w = 0"
  by (cases w) auto

lemma unat_of_nat_byte: "unat (of_nat n :: byte) = n mod 256"
  by (simp add: unat_of_nat take_bit_eq_mod)

lemma le_nat_bytes: "le_nat (le_bytes w n) = n mod 256 ^ w"
  by (induction w arbitrary: n) (simp_all add: unat_of_nat_byte mod_mult2_eq)

lemma le_nat_bytes_less: "n < 256 ^ w \<Longrightarrow> le_nat (le_bytes w n) = n"
  by (simp add: le_nat_bytes)

subsection \<open>Computations that may fail\<close>

text \<open>\<open>yields m P\<close>: the computation succeeds with a result of which \<open>P\<close> holds. The rules follow the
  structure of the program, one per construct.\<close>

definition yields :: "'a option \<Rightarrow> ('a \<Rightarrow> bool) \<Rightarrow> bool" where
  "yields m P \<longleftrightarrow> (\<exists>x. m = Some x \<and> P x)"

named_theorems wp \<open>rules for \<open>yields\<close>\<close>

lemma yields_Some [simp]: "yields (Some x) P \<longleftrightarrow> P x"
  by (simp add: yields_def)

lemma yields_None [simp]: "\<not> yields None P"
  by (simp add: yields_def)

lemma yields_bind: "yields m P \<Longrightarrow> (\<And>x. P x \<Longrightarrow> yields (f x) Q) \<Longrightarrow> yields (Option.bind m f) Q"
  by (auto simp: yields_def)

lemma yields_map [simp]: "yields (map_option f m) P \<longleftrightarrow> yields m (\<lambda>x. P (f x))"
  by (auto simp: yields_def)

lemma yields_mono: "yields m P \<Longrightarrow> (\<And>x. P x \<Longrightarrow> Q x) \<Longrightarrow> yields m Q"
  by (auto simp: yields_def)

lemma yields_conj: "yields m P \<Longrightarrow> yields m Q \<Longrightarrow> yields m (\<lambda>x. P x \<and> Q x)"
  by (auto simp: yields_def)

subsection \<open>Words as numbers\<close>

lemma unat_byte_lt [simp]: "unat (b :: byte) < 256"
  using unsigned_less [of b, where 'a = nat] by simp

lemma unat_ucast_byte [word_nat]: "unat (ucast (w :: 'a::len word) :: byte) = unat w mod 256"
  by (simp add: unsigned_ucast_eq take_bit_eq_mod)

lemma unat_drop_bit_div [word_nat]: "unat (drop_bit k (w :: 'a::len word)) = unat w div 2 ^ k"
  unfolding unsigned_drop_bit_eq using unsigned_less [of w, where 'a = nat]
  by (simp add: drop_bit_eq_div take_bit_nat_eq_self)

lemma unat_and_7F [word_nat]: "unat (b AND 0x7F :: byte) = unat b mod 128"
proof -
  have "(0x7F :: byte) = mask 7" by (simp add: mask_eq_exp_minus_1)
  then have "b AND 0x7F = take_bit 7 b" by (simp add: take_bit_eq_mask)
  then show ?thesis by (simp add: take_bit_eq_mod unat_mod)
qed

text \<open>Disjoint bits: \<open>OR\<close> with a shifted value is addition.\<close>

lemma nat_or_disjoint:
  fixes a b :: nat
  assumes a: "a < 2 ^ k"
  shows "a OR push_bit k b = a + b * 2 ^ k"
proof -
  have "a + push_bit k b = a OR push_bit k b"
  proof (rule disjunctive_add)
    fix n
    have "take_bit k a = a" using a by (simp add: take_bit_nat_eq_self)
    then have "k \<le> n \<Longrightarrow> \<not> bit a n" by (metis bit_take_bit_iff not_le)
    then show "\<not> bit a n \<or> \<not> bit (push_bit k b) n"
      by (cases "n < k") (auto simp: bit_push_bit_iff)
  qed
  then show ?thesis by (simp add: push_bit_eq_mult)
qed

lemma or_shift_unat:
  fixes r b :: "'a::len word"
  assumes "unat r < 2 ^ s" and "unat r + unat b * 2 ^ s < 2 ^ LENGTH('a)"
  shows "unat (r OR push_bit s b) = unat r + unat b * 2 ^ s"
proof -
  have "unat b * 2 ^ s < 2 ^ LENGTH('a)" using assms(2) by linarith
  then have "unat (push_bit s b) = push_bit s (unat b)"
    unfolding unsigned_push_bit_eq by (simp add: take_bit_nat_eq_self push_bit_eq_mult)
  then have "unat (r OR push_bit s b) = unat r OR push_bit s (unat b)"
    by (simp add: unsigned_or_eq)
  then show ?thesis using nat_or_disjoint [OF assms(1)] by simp
qed

lemma bit_128: "bit (128 :: nat) n \<longleftrightarrow> n = 7" "bit (128 :: int) n \<longleftrightarrow> n = 7"
  using bit_exp_iff [where 'a = nat, of 7 n] bit_exp_iff [where 'a = int, of 7 n] by auto

lemma unat_or_80 [word_nat]: "unat (b OR 0x80 :: byte) = unat b mod 128 + 128"
proof -
  have "b OR 0x80 = take_bit 7 b OR 0x80"
    by (rule bit_word_eqI) (auto simp: bit_or_iff bit_take_bit_iff bit_128)
  also have "unat \<dots> = take_bit 7 (unat b) OR push_bit 7 1"
    by (simp add: unsigned_or_eq unsigned_take_bit_eq)
  also have "\<dots> = take_bit 7 (unat b) + 1 * 2 ^ 7"
    by (rule nat_or_disjoint) (simp add: take_bit_eq_mod)
  finally show ?thesis by (simp add: take_bit_eq_mod)
qed

lemma ucast_or_80 [word_nat]:
  assumes "7 < LENGTH('a::len)"
  shows "(ucast (w OR 0x80 :: 'a word) :: byte) = ucast w OR 0x80"
  by (rule bit_word_eqI) (use assms in \<open>auto simp: bit_or_iff bit_ucast_iff bit_128\<close>)

lemma odd_div_128:
  assumes "n < 256"
  shows "even (n div 128) \<longleftrightarrow> n < (128::nat)"
proof -
  have "n div 128 < 2" using assms by (simp add: less_mult_imp_div_less)
  moreover have "n div 128 = 0 \<longleftrightarrow> n < 128" by (simp add: div_eq_0_iff)
  ultimately show ?thesis by (auto simp: less_2_cases_iff)
qed

lemma and_80_eq_0 [word_nat]: "(b AND 0x80 = (0::byte)) \<longleftrightarrow> unat b < 128"
proof -
  have "(b AND 0x80 = 0) \<longleftrightarrow> \<not> bit b 7"
    using and_exp_eq_0_iff_not_bit [of b 7] by simp
  also have "\<dots> \<longleftrightarrow> \<not> bit (unat b) 7" by (simp add: bit_unsigned_iff)
  also have "\<dots> \<longleftrightarrow> even (unat b div 128)" by (simp add: bit_iff_odd)
  also have "\<dots> \<longleftrightarrow> unat b < 128" by (rule odd_div_128) simp
  finally show ?thesis .
qed

subsection \<open>Numerals as text\<close>

text \<open>
  \<open>fmt\<close> is a library of its own: the components that print take its formatting function as an
  argument and rely on the documented meaning of \<open>{:0Nx}\<close> and \<open>{:0Nd}\<close>, the digits in the given
  base, most significant first, filled with zeros on the left to at least \<open>N\<close> characters.
  The numeral itself and the padding are defined here.
\<close>

definition digit_char :: "nat \<Rightarrow> char" where
  "digit_char d = (if d < 10 then char_of (48 + d) else char_of (87 + d))"

fun numeral_str :: "nat \<Rightarrow> nat \<Rightarrow> string" where
  "numeral_str base n =
     (if n < base \<or> base < 2 then [digit_char n]
      else numeral_str base (n div base) @ [digit_char (n mod base)])"

declare numeral_str.simps [simp del]

definition pad0 :: "nat \<Rightarrow> string \<Rightarrow> string" where
  "pad0 w s = replicate (w - length s) (CHR ''0'') @ s"

definition fmt_hex_ok :: "(nat \<Rightarrow> nat \<Rightarrow> string) \<Rightarrow> bool" where
  "fmt_hex_ok F \<longleftrightarrow> (\<forall>w n. F w n = pad0 w (numeral_str 16 n))"

definition fmt_dec_ok :: "(nat \<Rightarrow> nat \<Rightarrow> string) \<Rightarrow> bool" where
  "fmt_dec_ok F \<longleftrightarrow> (\<forall>w n. F w n = pad0 w (numeral_str 10 n))"

text \<open>The digits of \<open>n\<close> at a fixed width, the form the proofs use.\<close>

fun digits_at :: "nat \<Rightarrow> nat \<Rightarrow> nat \<Rightarrow> string" where
  "digits_at base 0 n = []"
| "digits_at base (Suc w) n = digits_at base w (n div base) @ [digit_char (n mod base)]"

lemma length_digits_at [simp]: "length (digits_at base w n) = w"
  by (induction w arbitrary: n) auto

lemma digits_at_0: "digits_at base w 0 = replicate w (CHR ''0'')"
proof (induction w)
  case (Suc w)
  have "digit_char 0 = CHR ''0''" by code_simp
  then show ?case using Suc by (simp add: replicate_append_same)
qed simp

lemma pad0_numeral:
  assumes "2 \<le> base" and "n < base ^ w" and "0 < w"
  shows "pad0 w (numeral_str base n) = digits_at base w n"
  using assms
proof (induction w arbitrary: n)
  case (Suc w)
  show ?case
  proof (cases "n < base")
    case True
    then show ?thesis
      using Suc.prems by (simp add: pad0_def numeral_str.simps [of base n] digits_at_0)
  next
    case False
    then have w: "0 < w" using Suc.prems by (cases w) auto
    have "n div base < base ^ w"
      using Suc.prems by (simp add: less_mult_imp_div_less mult.commute)
    then have "pad0 w (numeral_str base (n div base)) = digits_at base w (n div base)"
      using Suc.IH Suc.prems(1) w by blast
    then show ?thesis
      using False Suc.prems(1) by (simp add: pad0_def numeral_str.simps [of base n])
  qed
qed simp

lemma fmt_hex_digits: "fmt_hex_ok F \<Longrightarrow> n < 16 ^ w \<Longrightarrow> 0 < w \<Longrightarrow> F w n = digits_at 16 w n"
  by (simp add: fmt_hex_ok_def pad0_numeral)

lemma fmt_dec_digits: "fmt_dec_ok F \<Longrightarrow> n < 10 ^ w \<Longrightarrow> 0 < w \<Longrightarrow> F w n = digits_at 10 w n"
  by (simp add: fmt_dec_ok_def pad0_numeral)

lemma fmt_hex_ok_pad: "fmt_hex_ok (\<lambda>w n. pad0 w (numeral_str 16 n))"
  by (simp add: fmt_hex_ok_def)

lemma fmt_dec_ok_pad: "fmt_dec_ok (\<lambda>w n. pad0 w (numeral_str 10 n))"
  by (simp add: fmt_dec_ok_def)

subsection \<open>Reading numerals: std::from_chars and std::stoi\<close>

text \<open>The value of a digit in bases up to 16, both cases accepted as \<open>std::from_chars\<close> does.\<close>

definition digit_val :: "nat \<Rightarrow> char \<Rightarrow> nat option" where
  "digit_val base c =
     (let k = (of_char c :: nat);
          v = (if 48 \<le> k \<and> k \<le> 57 then Some (k - 48)
               else if 97 \<le> k \<and> k \<le> 102 then Some (k - 87)
               else if 65 \<le> k \<and> k \<le> 70 then Some (k - 55)
               else None)
      in case v of Some d \<Rightarrow> (if d < base then Some d else None) | None \<Rightarrow> None)"

text \<open>The longest prefix of digits: its value and the characters after it.\<close>

fun digit_prefix :: "nat \<Rightarrow> nat \<Rightarrow> string \<Rightarrow> nat \<times> string" where
  "digit_prefix base acc [] = (acc, [])"
| "digit_prefix base acc (c # cs) =
     (case digit_val base c of
        Some d \<Rightarrow> digit_prefix base (acc * base + d) cs
      | None \<Rightarrow> (acc, c # cs))"

text \<open>
  \<open>std::from_chars(first, last, value, base)\<close> for an unsigned type of the given maximum: the
  value and the number of characters read, or \<open>None\<close> when \<open>ec\<close> is set (no digit at all, or the
  value does not fit).
\<close>

definition from_chars :: "nat \<Rightarrow> nat \<Rightarrow> string \<Rightarrow> (nat \<times> nat) option" where
  "from_chars base maxv s =
     (let (v, rest) = digit_prefix base 0 s
      in if length rest = length s then None
         else if maxv < v then None
         else Some (v, length s - length rest))"

lemma digit_val_digit_char: "d < base \<Longrightarrow> base \<le> 16 \<Longrightarrow> digit_val base (digit_char d) = Some d"
  by (simp add: digit_val_def digit_char_def Let_def of_char_of)

lemma digit_prefix_digits_at:
  "2 \<le> base \<Longrightarrow> base \<le> 16 \<Longrightarrow> digit_prefix base acc (digits_at base w n @ rest) =
     digit_prefix base (acc * base ^ w + n mod base ^ w) rest"
proof (induction w arbitrary: n rest)
  case (Suc w)
  have "digit_prefix base acc (digits_at base (Suc w) n @ rest) =
      digit_prefix base (acc * base ^ w + n div base mod base ^ w) (digit_char (n mod base) # rest)"
    using Suc by simp
  also have "\<dots> = digit_prefix base ((acc * base ^ w + n div base mod base ^ w) * base + n mod base) rest"
    using Suc.prems digit_val_digit_char [of "n mod base" base] by simp
  also have "(acc * base ^ w + n div base mod base ^ w) * base + n mod base =
      acc * base ^ Suc w + n mod base ^ Suc w"
    by (simp add: mod_mult2_eq distrib_right algebra_simps)
  finally show ?case .
qed simp

lemma from_chars_digits_at:
  assumes "2 \<le> base" and "base \<le> 16" and "n < base ^ w" and "0 < w" and "n \<le> maxv"
  shows "from_chars base maxv (digits_at base w n) = Some (n, w)"
  using digit_prefix_digits_at [of base 0 w n "[]"] assms by (simp add: from_chars_def)

text \<open>What a successful read consumes: at least one character, all of them digits.\<close>

lemma digit_prefix_span:
  "digit_prefix base acc s = (v, rest) \<Longrightarrow>
     rest = dropWhile (\<lambda>c. digit_val base c \<noteq> None) s"
  by (induction s arbitrary: acc) (auto split: option.splits)

lemma digit_prefix_less:
  "digit_prefix base acc s = (v, rest) \<Longrightarrow> acc < base ^ k \<Longrightarrow>
     v < base ^ (k + (length s - length rest))"
proof (induction s arbitrary: acc k)
  case (Cons c s)
  show ?case
  proof (cases "digit_val base c")
    case None
    then show ?thesis using Cons.prems by simp
  next
    case (Some d)
    then have d: "d < base" by (auto simp: digit_val_def Let_def split: option.splits if_splits)
    have "acc * base + d < (acc + 1) * base" using d by (simp add: add_mult_distrib)
    also have "\<dots> \<le> base ^ k * base" using Cons.prems(2) by (intro mult_right_mono) simp_all
    finally have acc: "acc * base + d < base ^ Suc k" by (simp add: mult.commute)
    have pre: "digit_prefix base (acc * base + d) s = (v, rest)" using Cons.prems Some by simp
    then have "length rest \<le> length s"
      using digit_prefix_span [OF pre] by (simp add: length_dropWhile_le)
    then show ?thesis using Cons.IH [OF pre acc] by (simp add: Suc_diff_le)
  qed
qed simp

subsection \<open>The order of strings\<close>

text \<open>The order of \<open>std::string\<close>: lexicographic on the bytes as unsigned numbers.\<close>

fun str_less :: "string \<Rightarrow> string \<Rightarrow> bool" where
  "str_less [] [] = False"
| "str_less [] (c # cs) = True"
| "str_less (c # cs) [] = False"
| "str_less (c # cs) (d # ds) =
     ((of_char c :: nat) < of_char d \<or> c = d \<and> str_less cs ds)"

lemma digit_char_less:
  "d < 16 \<Longrightarrow> e < 16 \<Longrightarrow> (of_char (digit_char d) :: nat) < of_char (digit_char e) \<longleftrightarrow> d < e"
  by (simp add: digit_char_def of_char_of)

lemma digit_char_eq: "d < 16 \<Longrightarrow> e < 16 \<Longrightarrow> digit_char d = digit_char e \<longleftrightarrow> d = e"
  using digit_char_less [of d e] digit_char_less [of e d] by (metis linorder_cases less_irrefl)

lemma str_less_digits_at:
  "2 \<le> base \<Longrightarrow> base \<le> 16 \<Longrightarrow> n < base ^ w \<Longrightarrow> m < base ^ w \<Longrightarrow>
   str_less (digits_at base w n @ s) (digits_at base w m @ t) \<longleftrightarrow> n < m \<or> n = m \<and> str_less s t"
proof (induction w arbitrary: n m s t)
  case (Suc w)
  have b: "n div base < base ^ w" "m div base < base ^ w"
    using Suc.prems by (simp_all add: less_mult_imp_div_less mult.commute)
  have m16: "n mod base < 16" "m mod base < 16"
    using Suc.prems(1,2) by (metis mod_less_divisor less_le_trans not_numeral_le_zero neq0_conv)+
  have lt: "n < m \<longleftrightarrow> n div base < m div base \<or> n div base = m div base \<and> n mod base < m mod base"
    by (metis div_le_mono div_mult_mod_eq le_less linorder_not_le nat_add_left_cancel_less)
  have eq: "n = m \<longleftrightarrow> n div base = m div base \<and> n mod base = m mod base"
    by (metis div_mult_mod_eq)
  show ?case
    unfolding lt eq using Suc.IH [OF Suc.prems(1,2) b] m16
    by (auto simp: digit_char_less digit_char_eq)
qed simp

end
