(* ===== verification/VarInt.thy ===== *)
theory VarInt
  imports HatnPrelude
begin

section \<open>Variable-length integers: dataunit/stream.h and dataunit/src/stream.cpp\<close>

text \<open>
  \<open>StreamBase\<close> packs unsigned integers in base 128, least significant group first, with the top
  bit of a byte saying that more bytes follow, and maps signed integers to unsigned ones by
  zigzag. A buffer is a byte list: \<open>buf->resize\<close> followed by writes at its end is appending.
  A read outside the buffer and a shift by at least the width of the type are undefined in
  C++ and are the value \<open>None\<close> here; the out parameters of the source are fields of the result.
\<close>

subsection \<open>Unpacking\<close>

text \<open>The variables of \<open>unpackVarInt32\<close> and \<open>unpackVarInt64\<close>, passed by reference to the byte step.\<close>

record 'r unpack_state =
  ust_result :: 'r
  ust_processed :: nat
  ust_overflow :: bool
  ust_more :: bool
  ust_shift :: nat

datatype raw_error = REQUIRED_FIELD_MISSING | FIELD_TYPE_MISMATCH | END_OF_STREAM | INVALID_TAG
  | FIELD_PARSING_FAILED | UNTERMINATED_VARINT | INVALID_BLOCK_LENGTH | UNKNOWN_FIELD_TYPE
  | FIELD_SERIALIZING_FAILED | SUSPECT_OVERFLOW | SUBUNIT_SERIALIZE

definition unpackVarIntByteImpl ::
    "byte list \<Rightarrow> nat \<Rightarrow> nat \<Rightarrow> 'a::len word unpack_state \<Rightarrow> (bool \<times> 'a word unpack_state) option" where
  "unpackVarIntByteImpl buf availableSize maxShift st =
     (if s32 (int availableSize) \<le> int (ust_processed st)
      then Some (False, st\<lparr>ust_overflow := True\<rparr>)
      else if length buf \<le> ust_processed st then None
      else
        let b = buf ! ust_processed st;
            more = (b AND 0x80 \<noteq> 0)
        in if LENGTH('a) \<le> ust_shift st then None
           else
             let st' = st\<lparr>ust_more := more,
                          ust_result := ust_result st OR push_bit (ust_shift st) (ucast (b AND 0x7F)),
                          ust_processed := Suc (ust_processed st)\<rparr>
             in if \<not> more then Some (False, st')
                else if ust_shift st > maxShift then Some (False, st')
                else Some (True, st'\<lparr>ust_shift := ust_shift st + 7\<rparr>))"

lemma unpack_byte_continues:
  "unpackVarIntByteImpl buf n m st = Some (True, st') \<Longrightarrow>
     ust_shift st' = ust_shift st + 7 \<and> ust_shift st \<le> m"
  by (auto simp: unpackVarIntByteImpl_def Let_def split: if_splits)

text \<open>The empty-bodied \<open>while\<close> of both functions; the shift grows until it passes \<open>maxShift\<close>.\<close>

function unpack_loop :: "byte list \<Rightarrow> nat \<Rightarrow> nat \<Rightarrow> 'a::len word unpack_state \<Rightarrow> 'a word unpack_state option" where
  "unpack_loop buf availableSize maxShift st =
     (case unpackVarIntByteImpl buf availableSize maxShift st of
        None \<Rightarrow> None
      | Some (True, st') \<Rightarrow> unpack_loop buf availableSize maxShift st'
      | Some (False, st') \<Rightarrow> Some st')"
  by pat_completeness auto
termination
  by (relation "measure (\<lambda>(buf, n, m, st). Suc m - ust_shift st)")
     (auto dest!: unpack_byte_continues)

declare unpack_loop.simps [simp del]

text \<open>What the caller sees: the returned count or \<open>-1\<close>, the out parameters, the raised error.\<close>

record 'r unpack_out =
  out_ret :: int
  out_value :: 'r
  out_more :: bool
  out_error :: "raw_error option"

definition unpack_verdict :: "'a::len word unpack_state \<Rightarrow> 'a word unpack_out" where
  "unpack_verdict st =
     (let out = \<lparr>out_ret = int (ust_processed st), out_value = ust_result st,
                 out_more = ust_more st, out_error = None\<rparr>
      in if ust_overflow st then out\<lparr>out_ret := -1, out_error := Some END_OF_STREAM\<rparr>
         else if ust_more st then out\<lparr>out_ret := -1, out_error := Some UNTERMINATED_VARINT\<rparr>
         else out)"

definition unpack_init :: "'a::len word unpack_state" where
  "unpack_init = \<lparr>ust_result = 0, ust_processed = 0, ust_overflow = False, ust_more = False,
                  ust_shift = 0\<rparr>"

definition unpackVarInt32 :: "byte list \<Rightarrow> nat \<Rightarrow> u32 unpack_out option" where
  "unpackVarInt32 buf availableSize =
     map_option unpack_verdict (unpack_loop buf availableSize 28 unpack_init)"

definition unpackVarInt64 :: "byte list \<Rightarrow> nat \<Rightarrow> u64 unpack_out option" where
  "unpackVarInt64 buf availableSize =
     map_option unpack_verdict (unpack_loop buf availableSize 56 unpack_init)"

subsection \<open>Packing\<close>

text \<open>\<open>packVarInt32\<close>: the nested conditions of the source, each branch listing the bytes written.\<close>

definition packVarInt32_bytes :: "u32 \<Rightarrow> byte list" where
  "packVarInt32_bytes value =
     (let t0 = ucast (value OR 0x80);
          t1 = ucast (drop_bit 7 value OR 0x80);
          t2 = ucast (drop_bit 14 value OR 0x80);
          t3 = ucast (drop_bit 21 value OR 0x80)
      in if value \<ge> 2 ^ 7 then
           if value \<ge> 2 ^ 14 then
             if value \<ge> 2 ^ 21 then
               if value \<ge> 2 ^ 28 then [t0, t1, t2, t3, ucast (drop_bit 28 value)]
               else [t0, t1, t2, t3 AND 0x7F]
             else [t0, t1, t2 AND 0x7F]
           else [t0, t1 AND 0x7F]
         else [t0 AND 0x7F])"

definition packVarInt32 :: "byte list \<Rightarrow> u32 \<Rightarrow> byte list \<times> int" where
  "packVarInt32 buf value =
     (let t = packVarInt32_bytes value in (buf @ t, int (length t)))"

text \<open>The overload that writes into a prepared buffer of five bytes and leaves the rest of it.\<close>

definition packVarInt32_raw :: "byte list \<Rightarrow> u32 \<Rightarrow> byte list" where
  "packVarInt32_raw buf value =
     (let t = packVarInt32_bytes value in t @ drop (length t) buf)"

text \<open>
  \<open>packVarInt64\<close>: the three parts, the size found by comparisons, then the labels
  \<open>size10\<close> down to \<open>size1\<close> fall through, so that all bytes below the size are written.
\<close>

definition packVarInt64_size :: "u64 \<Rightarrow> nat" where
  "packVarInt64_size value =
     (let part0 = (ucast value :: u32);
          part1 = (ucast (drop_bit 28 value) :: u32);
          part2 = (ucast (drop_bit 56 value) :: u32)
      in if part2 = 0 then
           if part1 = 0 then
             if part0 < 2 ^ 14 then (if part0 < 2 ^ 7 then 1 else 2)
             else (if part0 < 2 ^ 21 then 3 else 4)
           else
             if part1 < 2 ^ 14 then (if part1 < 2 ^ 7 then 5 else 6)
             else (if part1 < 2 ^ 21 then 7 else 8)
         else if part2 < 2 ^ 7 then 9 else 10)"

definition packVarInt64_target :: "u64 \<Rightarrow> byte list" where
  "packVarInt64_target value =
     (let part0 = (ucast value :: u32);
          part1 = (ucast (drop_bit 28 value) :: u32);
          part2 = (ucast (drop_bit 56 value) :: u32)
      in [ucast (part0 OR 0x80), ucast (drop_bit 7 part0 OR 0x80),
          ucast (drop_bit 14 part0 OR 0x80), ucast (drop_bit 21 part0 OR 0x80),
          ucast (part1 OR 0x80), ucast (drop_bit 7 part1 OR 0x80),
          ucast (drop_bit 14 part1 OR 0x80), ucast (drop_bit 21 part1 OR 0x80),
          ucast (part2 OR 0x80), ucast (drop_bit 7 part2 OR 0x80)])"

definition packVarInt64 :: "byte list \<Rightarrow> u64 \<Rightarrow> byte list \<times> int" where
  "packVarInt64 buf value =
     (let size = packVarInt64_size value;
          target = take size (packVarInt64_target value)
      in (buf @ target[size - 1 := target ! (size - 1) AND 0x7F], int size))"

subsection \<open>The reference encoding\<close>

fun leb128 :: "nat \<Rightarrow> byte list" where
  "leb128 n = (if n < 128 then [word_of_nat n]
               else word_of_nat (n mod 128 + 128) # leb128 (n div 128))"

declare leb128.simps [simp del]

lemma leb128_last: "n < 128 \<Longrightarrow> leb128 n = [word_of_nat n]"
  by (simp add: leb128.simps)

lemma leb128_step: "128 \<le> n \<Longrightarrow> leb128 n = word_of_nat (n mod 128 + 128) # leb128 (n div 128)"
  by (simp add: leb128.simps)

lemma leb128_length_pos: "0 < length (leb128 n)"
  by (simp add: leb128.simps)

text \<open>The same bytes by position: group \<open>i\<close> of \<open>n\<close>, with the continuation bit.\<close>

definition leb_group :: "nat \<Rightarrow> nat \<Rightarrow> byte" where
  "leb_group n i = word_of_nat (n div 2 ^ (7 * i) mod 128 + 128)"

definition leb_size_ok :: "nat \<Rightarrow> nat \<Rightarrow> bool" where
  "leb_size_ok k n \<longleftrightarrow> 0 < k \<and> n < 2 ^ (7 * k) \<and> (k = 1 \<or> 2 ^ (7 * (k - 1)) \<le> n)"

lemma leb_group_div: "leb_group (n div 128) i = leb_group n (Suc i)"
  by (simp add: leb_group_def power_add flip: div_mult2_eq)

lemma leb128_groups:
  "leb_size_ok k n \<Longrightarrow>
     leb128 n = map (leb_group n) [0..<k - 1] @ [word_of_nat (n div 2 ^ (7 * (k - 1)))]"
proof (induction k arbitrary: n)
  case 0
  then show ?case by (simp add: leb_size_ok_def)
next
  case (Suc k)
  show ?case
  proof (cases "k = 0")
    case True
    then show ?thesis using Suc.prems by (simp add: leb_size_ok_def leb128_last)
  next
    case False
    then obtain j where j: "k = Suc j" by (cases k) auto
    have big: "2 ^ (7 * k) \<le> n" and small: "n < 2 ^ (7 * k) * 128"
      using Suc.prems False by (auto simp: leb_size_ok_def power_add)
    have "(128::nat) \<le> 2 ^ (7 * k)" using power_increasing [of 7 "7 * k" "2::nat"] False by simp
    then have ge: "128 \<le> n" using big by linarith
    have ok: "leb_size_ok k (n div 128)"
      using big small False
      by (auto simp: leb_size_ok_def less_mult_imp_div_less j power_add less_eq_div_iff_mult_less_eq)
    have sh: "map (leb_group (n div 128)) [0..<j] = map (leb_group n) [Suc 0..<Suc j]"
      by (simp add: leb_group_div map_Suc_upt [symmetric] del: upt_Suc)
    have "leb128 n = leb_group n 0 # leb128 (n div 128)"
      using ge by (simp add: leb128_step leb_group_def)
    also have "leb128 (n div 128) =
        map (leb_group n) [Suc 0..<k] @ [word_of_nat (n div 2 ^ (7 * k))]"
      using Suc.IH [OF ok] sh by (simp add: j power_add div_mult2_eq [symmetric] del: upt_Suc)
    also have "leb_group n 0 # map (leb_group n) [Suc 0..<k] @ [word_of_nat (n div 2 ^ (7 * k))] =
        map (leb_group n) [0..<k] @ [word_of_nat (n div 2 ^ (7 * k))]"
      using False by (simp add: upt_conv_Cons)
    finally show ?thesis by simp
  qed
qed

lemma leb128_length: "leb_size_ok k n \<Longrightarrow> length (leb128 n) = k"
  using leb128_groups [of k n] by (simp add: leb_size_ok_def)

subsection \<open>The packers write the reference encoding\<close>

lemma byte_eqI: "unat a = unat b \<Longrightarrow> a = (b :: byte)"
  by (simp add: word_unat_eq_iff)

lemma unat_of_byte: "unat (word_of_nat m :: byte) = m mod 256"
  by (simp add: unat_of_nat)

lemma unat_leb_group [word_nat]: "unat (leb_group n i) = n div 2 ^ (7 * i) mod 128 + 128"
  unfolding leb_group_def unat_of_byte by simp

lemma packed_group:
  fixes v :: "'a::len word"
  assumes "7 < LENGTH('a)"
  shows "ucast (drop_bit (7 * i) v OR 0x80) = leb_group (unat v) i"
proof (rule byte_eqI)
  have "unat (ucast (drop_bit (7 * i) v OR 0x80) :: byte) =
      (unat v div 2 ^ (7 * i)) mod 256 mod 128 + 128"
    by (simp add: word_nat assms del: unsigned_ucast_eq)
  also have "\<dots> = unat v div 2 ^ (7 * i) mod 128 + 128"
    by (simp add: mod_mod_cancel)
  finally show "unat (ucast (drop_bit (7 * i) v OR 0x80) :: byte) = unat (leb_group (unat v) i)"
    by (simp add: unat_leb_group)
qed

lemma packed_last:
  assumes "n div 2 ^ (7 * i) < 128"
  shows "leb_group n i AND 0x7F = word_of_nat (n div 2 ^ (7 * i))"
  by (rule byte_eqI) (use assms in \<open>simp add: unat_of_byte word_nat\<close>)


lemma packVarInt32_bytes_leb128: "packVarInt32_bytes v = leb128 (unat v)"
proof -
  let ?n = "unat v"
  have g: "ucast (v OR 0x80) = leb_group ?n 0" "ucast (drop_bit 7 v OR 0x80) = leb_group ?n 1"
    "ucast (drop_bit 14 v OR 0x80) = leb_group ?n 2" "ucast (drop_bit 21 v OR 0x80) = leb_group ?n 3"
    using packed_group [of 0 v] packed_group [of 1 v] packed_group [of 2 v] packed_group [of 3 v]
    by simp_all
  have n32: "?n < 2 ^ 32" using unsigned_less [of v, where 'a = nat] by simp
  have last: "ucast (drop_bit 28 v) = (word_of_nat (?n div 2 ^ 28) :: byte)"
    by (rule byte_eqI) (simp add: unat_of_byte word_nat del: unsigned_ucast_eq)
  have le: "128 \<le> v \<longleftrightarrow> 128 \<le> ?n" "16384 \<le> v \<longleftrightarrow> 16384 \<le> ?n"
    "2097152 \<le> v \<longleftrightarrow> 2097152 \<le> ?n" "268435456 \<le> v \<longleftrightarrow> 268435456 \<le> ?n"
    by (simp_all add: word_le_nat_alt)
  have upt: "[0..<2] = [0, 1::nat]" "[0..<3] = [0, 1, 2::nat]" "[0..<4] = [0, 1, 2, 3::nat]"
    by (simp_all add: upt_rec)
  consider "leb_size_ok 1 ?n" | "leb_size_ok 2 ?n" | "leb_size_ok 3 ?n" | "leb_size_ok 4 ?n"
    | "leb_size_ok 5 ?n"
    using n32 by (simp add: leb_size_ok_def) linarith
  then show ?thesis
  proof cases
    case 1
    then show ?thesis
      using packed_last [of ?n 0] leb128_groups [OF 1]
      by (simp add: packVarInt32_bytes_def Let_def g le leb_size_ok_def)
  next
    case 2
    then show ?thesis
      using packed_last [of ?n 1] leb128_groups [OF 2]
      by (simp add: packVarInt32_bytes_def Let_def g le leb_size_ok_def less_mult_imp_div_less)
  next
    case 3
    then show ?thesis
      using packed_last [of ?n 2] leb128_groups [OF 3]
      by (simp add: packVarInt32_bytes_def Let_def g le upt leb_size_ok_def less_mult_imp_div_less)
  next
    case 4
    then show ?thesis
      using packed_last [of ?n 3] leb128_groups [OF 4]
      by (simp add: packVarInt32_bytes_def Let_def g le upt leb_size_ok_def less_mult_imp_div_less)
  next
    case 5
    then show ?thesis
      using leb128_groups [OF 5]
      by (simp add: packVarInt32_bytes_def Let_def g le upt last leb_size_ok_def)
  qed
qed

lemma div_mod_group:
  assumes "j + 7 \<le> 32"
  shows "(m mod 2 ^ 32) div 2 ^ j mod 128 = m div 2 ^ j mod (128::nat)"
proof -
  have "(m mod 2 ^ 32) div 2 ^ j = (m div 2 ^ j) mod 2 ^ (32 - j)"
    using assms div_exp_mod_exp_eq [of m j "32 - j"] by simp
  moreover have "(128::nat) dvd 2 ^ (32 - j)"
    using assms le_imp_power_dvd [of 7 "32 - j" "2::nat"] by simp
  ultimately show ?thesis by (simp add: mod_mod_cancel)
qed


lemma part_group:
  assumes "unat p = m mod 2 ^ 32" and "7 * i + 7 \<le> 32" and "m = n div 2 ^ (7 * j)"
  shows "ucast (drop_bit (7 * i) (p :: u32) OR 0x80) = leb_group n (i + j)"
proof (rule byte_eqI)
  have "unat p div 2 ^ (7 * i) mod 128 = n div 2 ^ (7 * (i + j)) mod 128"
    using div_mod_group [OF assms(2), of m]
    by (simp add: assms(1,3) div_mult2_eq [symmetric] power_add [symmetric] algebra_simps)
  then show "unat (ucast (drop_bit (7 * i) p OR 0x80) :: byte) = unat (leb_group n (i + j))"
    by (simp add: packed_group unat_leb_group del: unsigned_ucast_eq)
qed

lemma upt_10: "[0..<10] = [0, 1, 2, 3, 4, 5, 6, 7, 8, 9::nat]"
  by (simp add: upt_rec)

lemma packVarInt64_target_groups:
  "packVarInt64_target v = map (leb_group (unat v)) [0..<10]"
proof -
  let ?n = "unat v"
  let ?p0 = "ucast v :: u32" and ?p1 = "ucast (drop_bit 28 v) :: u32"
    and ?p2 = "ucast (drop_bit 56 v) :: u32"
  have p: "unat ?p0 = ?n mod 2 ^ 32" "unat ?p1 = (?n div 2 ^ 28) mod 2 ^ 32"
    "unat ?p2 = (?n div 2 ^ 56) mod 2 ^ 32"
    using unat_drop_bit_div [of 28 v] unat_drop_bit_div [of 56 v]
    by (simp_all add: unsigned_ucast_eq take_bit_eq_mod)
  show ?thesis
    using part_group [OF p(1), of 0 ?n 0] part_group [OF p(1), of 1 ?n 0]
      part_group [OF p(1), of 2 ?n 0] part_group [OF p(1), of 3 ?n 0]
      part_group [OF p(2), of 0 ?n 4] part_group [OF p(2), of 1 ?n 4]
      part_group [OF p(2), of 2 ?n 4] part_group [OF p(2), of 3 ?n 4]
      part_group [OF p(3), of 0 ?n 8] part_group [OF p(3), of 1 ?n 8]
    by (simp add: packVarInt64_target_def Let_def upt_10)
qed


lemma packVarInt64_size_ok: "leb_size_ok (packVarInt64_size v) (unat v)"
proof -
  let ?n = "unat v"
  have n: "?n < 2 ^ 64" using unsigned_less [of v, where 'a = nat] by simp
  have p0: "unat (ucast v :: u32) = ?n mod 2 ^ 32"
    and p1: "unat (ucast (drop_bit 28 v) :: u32) = (?n div 2 ^ 28) mod 2 ^ 32"
    and p2: "unat (ucast (drop_bit 56 v) :: u32) = (?n div 2 ^ 56) mod 2 ^ 32"
    using unat_drop_bit_div [of 28 v] unat_drop_bit_div [of 56 v]
    by (simp_all add: unsigned_ucast_eq take_bit_eq_mod)
  have p2': "unat (ucast (drop_bit 56 v) :: u32) = ?n div 2 ^ 56"
    using n by (simp add: p2 less_mult_imp_div_less)
  show ?thesis
  proof (cases "?n < 2 ^ 56")
    case True
    then have z2: "(ucast (drop_bit 56 v) :: u32) = 0"
      using p2' by (simp add: word_unat_eq_iff del: unsigned_ucast_eq)
    have p1': "unat (ucast (drop_bit 28 v) :: u32) = ?n div 2 ^ 28"
      using True by (simp add: p1 less_mult_imp_div_less)
    show ?thesis
    proof (cases "?n < 2 ^ 28")
      case True
      then have z1: "(ucast (drop_bit 28 v) :: u32) = 0"
        using p1' by (simp add: word_unat_eq_iff del: unsigned_ucast_eq)
      have "unat (ucast v :: u32) = ?n" using True by (simp add: p0)
      then show ?thesis using z1 z2 True
        by (simp add: packVarInt64_size_def Let_def leb_size_ok_def word_less_nat_alt)
    next
      case ge: False
      have z1: "(ucast (drop_bit 28 v) :: u32) \<noteq> 0"
        using ge p1' by (auto simp: word_unat_eq_iff div_eq_0_iff simp del: unsigned_ucast_eq)
      show ?thesis using z1 z2 True ge p1'
        by (simp add: packVarInt64_size_def Let_def leb_size_ok_def word_less_nat_alt
            div_less_iff_less_mult)
    qed
  next
    case False
    then have z2: "(ucast (drop_bit 56 v) :: u32) \<noteq> 0"
      using p2' by (auto simp: word_unat_eq_iff div_eq_0_iff simp del: unsigned_ucast_eq)
    show ?thesis using z2 False n p2'
      by (simp add: packVarInt64_size_def Let_def leb_size_ok_def word_less_nat_alt
          div_less_iff_less_mult)
  qed
qed

lemma packVarInt64_size_le: "packVarInt64_size v \<le> 10"
  by (simp add: packVarInt64_size_def Let_def)

lemma packVarInt64_leb128:
  "packVarInt64 buf v = (buf @ leb128 (unat v), int (length (leb128 (unat v))))"
proof -
  let ?n = "unat v" and ?k = "packVarInt64_size v"
  obtain j where k: "?k = Suc j"
    using packVarInt64_size_ok [of v] by (cases ?k) (auto simp: leb_size_ok_def)
  have "take ?k (packVarInt64_target v) = map (leb_group ?n) [0..<j] @ [leb_group ?n j]"
    using packVarInt64_size_le [of v] k
    by (simp add: packVarInt64_target_groups take_map min_def)
  moreover have "leb_group ?n j AND 0x7F = word_of_nat (?n div 2 ^ (7 * j))"
    using packVarInt64_size_ok [of v] k
    by (intro packed_last) (simp add: leb_size_ok_def less_mult_imp_div_less power_add)
  ultimately show ?thesis
    using leb128_groups [OF packVarInt64_size_ok [of v]] leb128_length [OF packVarInt64_size_ok [of v]] k
    by (simp add: packVarInt64_def Let_def nth_append list_update_append)
qed

lemma packVarInt32_leb128:
  "packVarInt32 buf v = (buf @ leb128 (unat v), int (length (leb128 (unat v))))"
  by (simp add: packVarInt32_def Let_def packVarInt32_bytes_leb128)

subsection \<open>The unpackers read the reference encoding back\<close>

lemma mask_group_ucast:
  assumes "7 < LENGTH('a::len)"
  shows "unat (ucast (b AND 0x7F :: byte) :: 'a word) = unat b mod 128"
proof -
  have "(2::nat) ^ 7 < 2 ^ LENGTH('a)" using assms by (intro power_strict_increasing) auto
  then have "unat b mod 128 < 2 ^ LENGTH('a)"
    using mod_less_divisor [of 128 "unat b"] by simp
  then show ?thesis
    by (simp add: unsigned_ucast_eq unat_and_7F take_bit_nat_eq_self del: unsigned_and_eq)
qed

lemma group_split: "n * 2 ^ s = n mod 128 * 2 ^ s + n div 128 * 2 ^ (s + 7)" for n :: nat
proof -
  have "(n mod 128 + 128 * (n div 128)) * 2 ^ s = n mod 128 * 2 ^ s + n div 128 * 2 ^ (s + 7)"
    by (simp only: power_add distrib_right) simp
  then show ?thesis by simp
qed

text \<open>
  Any sequence of groups, the minimal one of the packers or a longer one padded with empty groups
  as the sizes of subunits are: all bytes but the last ask for more.
\<close>

fun groups_ok :: "byte list \<Rightarrow> bool" where
  "groups_ok [] = False"
| "groups_ok (b # bs) = (if bs = [] then unat b < 128 else 128 \<le> unat b \<and> groups_ok bs)"

fun groups_nat :: "byte list \<Rightarrow> nat" where
  "groups_nat [] = 0"
| "groups_nat (b # bs) = unat b mod 128 + 128 * groups_nat bs"

lemma groups_scaled:
  "groups_nat (b # bs) * 2 ^ s = unat b mod 128 * 2 ^ s + groups_nat bs * 2 ^ (s + 7)"
  using group_split [of "groups_nat (b # bs)" s] by simp

lemma group_bound:
  fixes r :: nat
  assumes "r < 2 ^ s"
  shows "r + (n mod 128) * 2 ^ s < 2 ^ (s + 7)"
proof -
  have "(n mod 128) * 2 ^ s + 2 ^ s \<le> 128 * 2 ^ s"
    using mult_le_mono1 [of "Suc (n mod 128)" 128 "2 ^ s"] by simp
  then have "(n mod 128) * 2 ^ s + 2 ^ s \<le> 2 ^ (s + 7)"
    by (simp only: power_add) simp
  then show ?thesis using assms by linarith
qed

lemma unpack_byte_step:
  fixes st :: "'a::len word unpack_state"
  assumes "ust_processed st < avail" and "ust_processed st < length buf" and "avail < 2147483648"
    and "ust_shift st < LENGTH('a)"
  defines "b \<equiv> buf ! ust_processed st"
  defines "st1 \<equiv> st\<lparr>ust_more := (128 \<le> unat b),
      ust_result := ust_result st OR push_bit (ust_shift st) (ucast (b AND 0x7F)),
      ust_processed := Suc (ust_processed st)\<rparr>"
  shows "unpackVarIntByteImpl buf avail maxShift st =
    (if 128 \<le> unat b \<and> ust_shift st \<le> maxShift
     then Some (True, st1\<lparr>ust_shift := ust_shift st + 7\<rparr>) else Some (False, st1))"
  using assms(1-4) and_80_eq_0 [of b]
  by (simp add: unpackVarIntByteImpl_def Let_def b_def st1_def not_less)

lemma unpack_result_step:
  fixes r :: "'a::len word" and b :: byte
  assumes "unat r < 2 ^ s" and "unat r + unat b mod 128 * 2 ^ s < 2 ^ LENGTH('a)" and "7 < LENGTH('a)"
  shows "unat (r OR push_bit s (ucast (b AND 0x7F))) = unat r + unat b mod 128 * 2 ^ s"
  using or_shift_unat [OF assms(1), of "ucast (b AND 0x7F)"] assms(2) mask_group_ucast [OF assms(3), of b]
  by (simp only:)

lemma unpack_loop_groups:
  fixes st :: "'a::len word unpack_state"
  assumes "groups_ok bs" and "buf = pre @ bs @ suf"
    and "ust_processed st = length pre"
    and "length pre + length bs \<le> avail" and "avail \<le> length buf" and "avail < 2147483648"
    and "ust_shift st + 7 * (length bs - 1) < LENGTH('a)"
    and "ust_shift st + 7 * (length bs - 1) \<le> maxShift + 7" and "7 < LENGTH('a)"
    and "\<not> ust_overflow st"
  shows "\<exists>st'. unpack_loop buf avail maxShift st = Some st'
    \<and> ust_processed st' = length pre + length bs
    \<and> ust_shift st' = ust_shift st + 7 * (length bs - 1)
    \<and> \<not> ust_overflow st' \<and> \<not> ust_more st'
    \<and> (unat (ust_result st) < 2 ^ ust_shift st \<longrightarrow>
       unat (ust_result st) + groups_nat bs * 2 ^ ust_shift st < 2 ^ LENGTH('a) \<longrightarrow>
       unat (ust_result st') = unat (ust_result st) + groups_nat bs * 2 ^ ust_shift st)"
  using assms
proof (induction bs arbitrary: pre st)
  case Nil
  then show ?case by simp
next
  case (Cons b bs)
  let ?s = "ust_shift st" and ?r = "ust_result st"
  have idx: "ust_processed st < avail" "ust_processed st < length buf" and s: "?s < LENGTH('a)"
    using Cons.prems by auto
  have at: "buf ! ust_processed st = b" using Cons.prems(2,3) by simp
  note step = unpack_byte_step [OF idx Cons.prems(6) s, of maxShift, unfolded at]
  note res = unpack_result_step [of ?r ?s b, OF _ _ Cons.prems(9)]
  show ?case
  proof (cases "bs = []")
    case True
    then have "unat b < 128" using Cons.prems(1) by simp
    then show ?thesis using step True Cons.prems(3,10) res
      by (subst unpack_loop.simps) (simp del: unsigned_or_eq)
  next
    case False
    then obtain k where k: "length bs = Suc k" by (cases bs) auto
    define st1 where "st1 = st\<lparr>ust_more := True, ust_result := ?r OR push_bit ?s (ucast (b AND 0x7F)),
        ust_processed := Suc (ust_processed st), ust_shift := ?s + 7\<rparr>"
    have r_st1: "ust_result st1 = ?r OR push_bit ?s (ucast (b AND 0x7F))" by (simp add: st1_def)
    have go: "128 \<le> unat b" "?s \<le> maxShift" using Cons.prems(1,8) False k by auto
    have "\<exists>st'. unpack_loop buf avail maxShift st1 = Some st'
      \<and> ust_processed st' = length (pre @ [b]) + length bs
      \<and> ust_shift st' = ust_shift st1 + 7 * (length bs - 1)
      \<and> \<not> ust_overflow st' \<and> \<not> ust_more st'
      \<and> (unat (ust_result st1) < 2 ^ ust_shift st1 \<longrightarrow>
         unat (ust_result st1) + groups_nat bs * 2 ^ ust_shift st1 < 2 ^ LENGTH('a) \<longrightarrow>
         unat (ust_result st') = unat (ust_result st1) + groups_nat bs * 2 ^ ust_shift st1)"
      by (rule Cons.IH) (use Cons.prems False k in \<open>simp_all add: st1_def\<close>)
    then obtain st' where st': "unpack_loop buf avail maxShift st1 = Some st'"
      "ust_processed st' = length pre + Suc (length bs)" "ust_shift st' = ?s + 7 * length bs"
      "\<not> ust_overflow st'" "\<not> ust_more st'"
      and val: "unat (ust_result st1) < 2 ^ (?s + 7) \<Longrightarrow>
         unat (ust_result st1) + groups_nat bs * 2 ^ (?s + 7) < 2 ^ LENGTH('a) \<Longrightarrow>
         unat (ust_result st') = unat (ust_result st1) + groups_nat bs * 2 ^ (?s + 7)"
      by (auto simp: st1_def k)
    have r1: "unat (ust_result st') = unat ?r + groups_nat (b # bs) * 2 ^ ?s"
      if "unat ?r < 2 ^ ?s" "unat ?r + groups_nat (b # bs) * 2 ^ ?s < 2 ^ LENGTH('a)"
    proof -
      have "unat ?r + unat b mod 128 * 2 ^ ?s < 2 ^ LENGTH('a)"
        using that(2) groups_scaled [of b bs ?s] by linarith
      then have e: "unat (ust_result st1) = unat ?r + unat b mod 128 * 2 ^ ?s"
        using res [OF that(1)] r_st1 by (simp only:)
      show ?thesis
        using val that group_bound [OF that(1), of "unat b"]
        by (simp only: e groups_scaled add.assoc)
    qed
    show ?thesis using step go st' r1 False
      by (subst unpack_loop.simps) (simp add: st1_def del: groups_nat.simps)
  qed
qed

lemma leb128_groups_ok: "groups_ok (leb128 n) \<and> groups_nat (leb128 n) = n"
proof (induction n rule: leb128.induct)
  case (1 n)
  show ?case
  proof (cases "n < 128")
    case True
    then show ?thesis by (simp add: leb128_last unat_of_byte)
  next
    case False
    have "unat (word_of_nat (n mod 128 + 128) :: byte) = n mod 128 + 128" unfolding unat_of_byte by simp
    then show ?thesis using 1 False leb128_length_pos [of "n div 128"]
      by (simp add: leb128_step del: unsigned_of_nat)
  qed
qed

lemma leb128_length_ge: "0 < m \<Longrightarrow> n < 2 ^ m \<Longrightarrow> 7 * (length (leb128 n) - 1) < m"
proof (induction n arbitrary: m rule: leb128.induct)
  case (1 n)
  show ?case
  proof (cases "n < 128")
    case True
    then show ?thesis using 1 by (simp add: leb128_last)
  next
    case False
    have "(2::nat) ^ 7 < 2 ^ m" using False "1.prems" by simp
    then have m: "7 < m" by (simp only: power_strict_increasing_iff)
    have "(2::nat) ^ m = 2 ^ (m - 7) * 128" using m power_add [of "2::nat" "m - 7" 7] by simp
    then have "n div 128 < 2 ^ (m - 7)" using "1.prems"(2) by (simp add: less_mult_imp_div_less)
    then have "7 * (length (leb128 (n div 128)) - 1) < m - 7" using "1.IH" False m by simp
    then show ?thesis using False leb128_length_pos [of "n div 128"] by (simp add: leb128_step)
  qed
qed

lemma unpack_verdict_ok:
  "\<not> ust_overflow st \<Longrightarrow> \<not> ust_more st \<Longrightarrow>
     unpack_verdict st = \<lparr>out_ret = int (ust_processed st), out_value = ust_result st,
                         out_more = False, out_error = None\<rparr>"
  by (simp add: unpack_verdict_def)

lemma unpack_init_simps [simp]:
  "ust_result unpack_init = 0" "ust_processed unpack_init = 0" "\<not> ust_overflow unpack_init"
  "\<not> ust_more unpack_init" "ust_shift unpack_init = 0"
  by (simp_all add: unpack_init_def)

lemma unpackVarInt64_groups:
  assumes "groups_ok bs" and "length bs \<le> avail" and "avail \<le> length (bs @ suf)"
    and "avail < 2147483648" and "length bs \<le> 10" and "groups_nat bs < 2 ^ 64"
  shows "unpackVarInt64 (bs @ suf) avail =
    Some \<lparr>out_ret = int (length bs), out_value = word_of_nat (groups_nat bs), out_more = False,
          out_error = None\<rparr>"
proof -
  have "7 * (length bs - 1) \<le> 63" using assms(5) by simp
  then obtain st' where st': "unpack_loop (bs @ suf) avail 56 (unpack_init :: u64 unpack_state) = Some st'"
      "unat (ust_result st') = groups_nat bs" "ust_processed st' = length bs"
      "\<not> ust_overflow st'" "\<not> ust_more st'"
    using unpack_loop_groups [of bs "bs @ suf" "[]" suf "unpack_init :: u64 unpack_state" avail 56]
      assms by auto
  have "ust_result st' = word_of_nat (groups_nat bs)" using st'(2) assms(6)
    by (auto simp: word_unat_eq_iff unat_of_nat)
  then show ?thesis using st' by (simp add: unpackVarInt64_def unpack_verdict_ok)
qed

lemma unpackVarInt64_leb128:
  assumes "n < 2 ^ 64" and "length (leb128 n) \<le> avail" and "avail \<le> length (leb128 n @ suf)"
    and "avail < 2147483648"
  shows "unpackVarInt64 (leb128 n @ suf) avail =
    Some \<lparr>out_ret = int (length (leb128 n)), out_value = word_of_nat n, out_more = False,
          out_error = None\<rparr>"
  using unpackVarInt64_groups [of "leb128 n" avail suf] leb128_groups_ok [of n]
    leb128_length_ge [of 64 n] assms by simp

lemma unpackVarInt32_leb128:
  assumes "n < 2 ^ 32" and "length (leb128 n) \<le> avail" and "avail \<le> length (leb128 n @ suf)"
    and "avail < 2147483648"
  shows "unpackVarInt32 (leb128 n @ suf) avail =
    Some \<lparr>out_ret = int (length (leb128 n)), out_value = word_of_nat n, out_more = False,
          out_error = None\<rparr>"
proof -
  obtain st' where st': "unpack_loop (leb128 n @ suf) avail 28 (unpack_init :: u32 unpack_state) = Some st'"
      "unat (ust_result st') = n" "ust_processed st' = length (leb128 n)"
      "\<not> ust_overflow st'" "\<not> ust_more st'"
    using unpack_loop_groups [of "leb128 n" "leb128 n @ suf" "[]" suf "unpack_init :: u32 unpack_state" avail 28]
      leb128_groups_ok [of n] leb128_length_ge [of 32 n] assms by auto
  have "ust_result st' = word_of_nat n" using st'(2) assms(1)
    by (auto simp: word_unat_eq_iff unat_of_nat)
  then show ?thesis using st' by (simp add: unpackVarInt32_def unpack_verdict_ok)
qed

subsection \<open>Zigzag\<close>

definition zigZagEncode32 :: "u32 \<Rightarrow> u32" where
  "zigZagEncode32 n = push_bit 1 n XOR signed_drop_bit 31 n"

definition zigZagDecode32 :: "u32 \<Rightarrow> u32" where
  "zigZagDecode32 n = drop_bit 1 n XOR - (n AND 1)"

definition zigZagEncode64 :: "u64 \<Rightarrow> u64" where
  "zigZagEncode64 n = push_bit 1 n XOR signed_drop_bit 63 n"

definition zigZagDecode64 :: "u64 \<Rightarrow> u64" where
  "zigZagDecode64 n = drop_bit 1 n XOR - (n AND 1)"

lemma signed_drop_all:
  fixes n :: "'a::len word"
  shows "signed_drop_bit (LENGTH('a) - 1) n = (if bit n (LENGTH('a) - 1) then -1 else 0)"
  by (rule bit_word_eqI) (auto simp: bit_signed_drop_bit_iff Suc_le_eq)

lemma minus_and_1: "- (n AND 1) = (if bit n 0 then -1 else 0 :: 'a::len word)"
  by (auto simp: and_one_eq bit_0 odd_iff_mod_2_eq_one)

lemma zigzag_word_roundtrip:
  fixes n :: "'a::len word"
  assumes "1 < LENGTH('a)"
  defines "e \<equiv> push_bit 1 n XOR signed_drop_bit (LENGTH('a) - 1) n"
  shows "drop_bit 1 e XOR - (e AND 1) = n"
proof (rule bit_word_eqI)
  fix i assume i: "i < LENGTH('a)"
  let ?s = "bit n (LENGTH('a) - 1)"
  have e: "bit e k \<longleftrightarrow> k < LENGTH('a) \<and> ((0 < k \<and> bit n (k - 1)) \<noteq> ?s)" for k
    unfolding e_def bit_xor_iff bit_push_bit_iff signed_drop_all by (auto simp: Suc_le_eq)
  have e0: "bit e 0 \<longleftrightarrow> ?s" using e [of 0] assms(1) by simp
  have "bit (drop_bit 1 e) i \<longleftrightarrow> Suc i < LENGTH('a) \<and> (bit n i \<noteq> ?s)"
    using e [of "Suc i"] by (simp add: bit_drop_bit_eq)
  moreover have "Suc i < LENGTH('a) \<or> i = LENGTH('a) - 1" using i by linarith
  ultimately show "bit (drop_bit 1 e XOR - (e AND 1)) i = bit n i"
    using i e0 by (auto simp: bit_xor_iff minus_and_1)
qed

lemma zigzag32_roundtrip: "zigZagDecode32 (zigZagEncode32 n) = n"
  using zigzag_word_roundtrip [of n] by (simp add: zigZagDecode32_def zigZagEncode32_def)

lemma zigzag64_roundtrip: "zigZagDecode64 (zigZagEncode64 n) = n"
  using zigzag_word_roundtrip [of n] by (simp add: zigZagDecode64_def zigZagEncode64_def)

lemma zigzag_arith:
  fixes n :: "'a::len word"
  assumes "1 < LENGTH('a)"
  shows "uint (push_bit 1 n XOR signed_drop_bit (LENGTH('a) - 1) n) =
    (if 0 \<le> sint n then 2 * sint n else - 2 * sint n - 1)"
proof -
  have w: "(2::int) ^ LENGTH('a) = 2 * 2 ^ (LENGTH('a) - 1)"
    using assms by (metis One_nat_def Suc_diff_1 less_trans power_Suc zero_less_one)
  have r: "- (2 ^ (LENGTH('a) - 1)) \<le> sint n" "sint n < 2 ^ (LENGTH('a) - 1)"
    by (rule sint_ge, rule sint_lt)
  have neg: "bit n (LENGTH('a) - 1) \<longleftrightarrow> sint n < 0" using bit_last_iff [of n] by simp
  have p: "push_bit 1 n = word_of_int (2 * sint n)" by (simp add: mult.commute)
  have uw: "uint (word_of_int k :: 'a word) = k" if "0 \<le> k" "k < 2 ^ LENGTH('a)" for k
    using that by (simp add: uint_word_of_int_eq take_bit_int_eq_self)
  show ?thesis
  proof (cases "0 \<le> sint n")
    case True
    then have "push_bit 1 n XOR signed_drop_bit (LENGTH('a) - 1) n = word_of_int (2 * sint n)"
      unfolding signed_drop_all p using neg by simp
    then show ?thesis using True r w uw [of "2 * sint n"] by (simp only:) simp
  next
    case False
    then have "push_bit 1 n XOR signed_drop_bit (LENGTH('a) - 1) n = NOT (word_of_int (2 * sint n))"
      unfolding signed_drop_all p using neg by (simp del: of_int_mult)
    also have "\<dots> = word_of_int (- 2 * sint n - 1)"
      by (simp add: not_eq_complement)
    finally show ?thesis using False r w uw [of "- 2 * sint n - 1"] by (simp only:) simp
  qed
qed

subsection \<open>Safety of the byte loop on arbitrary input\<close>

lemma leb128_length_le: "n < 2 ^ (7 * k) \<Longrightarrow> 0 < k \<Longrightarrow> length (leb128 n) \<le> k"
proof (induction k arbitrary: n)
  case (Suc k)
  show ?case
  proof (cases "n < 128")
    case True
    then show ?thesis by (simp add: leb128_last)
  next
    case False
    then have "0 < k" using Suc.prems by (cases k) auto
    moreover have "n div 128 < 2 ^ (7 * k)"
      using Suc.prems by (simp add: less_mult_imp_div_less power_add)
    ultimately show ?thesis using Suc.IH [of "n div 128"] False by (simp add: leb128_step)
  qed
qed simp

lemma unpack_loop_safe:
  fixes st :: "u64 unpack_state"
  assumes "ust_shift st = 7 * ust_processed st" and "ust_processed st < 10"
    and "avail \<le> length buf" and "avail < 2147483648" and "\<not> ust_overflow st"
  shows "\<exists>st'. unpack_loop buf avail 56 st = Some st' \<and> ust_processed st' \<le> 10
     \<and> (\<not> ust_overflow st' \<longrightarrow> 0 < ust_processed st' \<and> ust_processed st' \<le> avail)"
  using assms
proof (induction buf avail "56::nat" st rule: unpack_loop.induct)
  case (1 buf avail st)
  let ?st1 = "st\<lparr>ust_more := True,
     ust_result := ust_result st OR push_bit (ust_shift st) (ucast ((buf ! ust_processed st) AND 0x7F)),
     ust_processed := Suc (ust_processed st), ust_shift := ust_shift st + 7\<rparr>"
  have av: "s32 (int avail) = int avail" using "1.prems"(4) by simp
  show ?case
  proof (cases "unpackVarIntByteImpl buf avail 56 st = Some (True, ?st1)
      \<and> ust_shift st \<le> 56 \<and> ust_processed st < avail")
    case True
    then have "\<exists>st'. unpack_loop buf avail 56 ?st1 = Some st' \<and> ust_processed st' \<le> 10
       \<and> (\<not> ust_overflow st' \<longrightarrow> 0 < ust_processed st' \<and> ust_processed st' \<le> avail)"
      using "1.prems" by (intro "1.hyps" [of "(True, ?st1)"]) auto
    then show ?thesis using True by (subst unpack_loop.simps) simp
  next
    case False
    then show ?thesis using "1.prems" av
      by (subst unpack_loop.simps)
         (auto simp: unpackVarIntByteImpl_def Let_def split: if_splits option.splits bool.splits)
  qed
qed


text \<open>A 32-bit value whose first five bytes all ask for more makes the loop shift by 35.\<close>

lemma unpackVarInt32_undefined:
  assumes "length buf \<ge> 6" and "\<forall>i < 5. 128 \<le> unat (buf ! i)"
    and "6 \<le> avail" and "avail < 2147483648"
  shows "unpackVarInt32 buf avail = None"
proof -
  have b: "buf ! i AND 0x80 \<noteq> 0" if "i < 5" for i
    using assms(2) that by (simp only: and_80_eq_0 not_less)
  have av: "s32 (int avail) = int avail" using assms(4) by simp
  have step: "unpack_loop buf avail 28 (st :: u32 unpack_state) =
      unpack_loop buf avail 28 (st\<lparr>ust_more := True,
        ust_result := ust_result st OR push_bit (ust_shift st) (ucast ((buf ! ust_processed st) AND 0x7F)),
        ust_processed := Suc (ust_processed st), ust_shift := ust_shift st + 7\<rparr>)"
    if "ust_processed st < 5" "ust_shift st \<le> 28" for st
    using that b [of "ust_processed st"] av assms(1,3)
    by (subst unpack_loop.simps) (simp add: unpackVarIntByteImpl_def Let_def)
  have stop: "unpack_loop buf avail 28 (st :: u32 unpack_state) = None"
    if "ust_processed st = 5" "ust_shift st = 35" for st
    using that av assms(1,3)
    by (subst unpack_loop.simps) (simp add: unpackVarIntByteImpl_def Let_def)
  have "unpack_loop buf avail 28 (unpack_init :: u32 unpack_state) = None"
    apply (subst step, simp, simp)
    apply (subst step, simp, simp)
    apply (subst step, simp, simp)
    apply (subst step, simp, simp)
    apply (subst step, simp, simp)
    apply (rule stop, simp, simp)
    done
  then show ?thesis by (simp add: unpackVarInt32_def)
qed

subsection \<open>Streams of the field types\<close>

text \<open>
  \<open>StreamUnsigned<Type>\<close>: every unsigned type, \<open>bool\<close> and the enumerations go through 64 bits;
  the casts of the type are the arguments \<open>to64\<close> and \<open>from64\<close>. On failure the field keeps
  its value.
\<close>

definition StreamUnsigned_unpackVarInt ::
    "(u64 \<Rightarrow> 'v) \<Rightarrow> byte list \<Rightarrow> nat \<Rightarrow> 'v \<Rightarrow> (int \<times> 'v) option" where
  "StreamUnsigned_unpackVarInt from64 buf availableSize field =
     map_option (\<lambda>r. if out_ret r < 0 \<or> out_more r then (-1, field)
                     else (out_ret r, from64 (out_value r)))
       (unpackVarInt64 buf availableSize)"

definition StreamUnsigned_packVarInt ::
    "('v \<Rightarrow> u64) \<Rightarrow> byte list \<Rightarrow> 'v \<Rightarrow> byte list \<times> int" where
  "StreamUnsigned_packVarInt to64 buf field = packVarInt64 buf (to64 field)"

text \<open>\<open>StreamSigned<Type>\<close> for \<open>int8_t\<close>, \<open>int16_t\<close>, \<open>int32_t\<close>: through zigzag on 32 bits.\<close>

definition StreamSigned_unpackVarInt ::
    "byte list \<Rightarrow> nat \<Rightarrow> 'a::len word \<Rightarrow> (int \<times> 'a word) option" where
  "StreamSigned_unpackVarInt buf availableSize field =
     map_option (\<lambda>r. if out_ret r < 0 \<or> out_more r then (-1, field)
                     else (out_ret r, scast (zigZagDecode32 (out_value r))))
       (unpackVarInt32 buf availableSize)"

definition StreamSigned_packVarInt :: "byte list \<Rightarrow> 'a::len word \<Rightarrow> byte list \<times> int" where
  "StreamSigned_packVarInt buf field =
     (let (buf', processed) = packVarInt32 buf (zigZagEncode32 (scast field))
      in if processed < 0 then (buf', -1) else (buf', processed))"

text \<open>
  \<open>Stream<uint64_t>\<close> unpacks into the field itself, which therefore changes even when the call
  fails.
\<close>

definition StreamU64_unpackVarInt :: "byte list \<Rightarrow> nat \<Rightarrow> u64 \<Rightarrow> (int \<times> u64) option" where
  "StreamU64_unpackVarInt buf availableSize field =
     map_option (\<lambda>r. if out_ret r < 0 \<or> out_more r then (-1, out_value r)
                     else (out_ret r, out_value r))
       (unpackVarInt64 buf availableSize)"

definition StreamU64_packVarInt :: "byte list \<Rightarrow> u64 \<Rightarrow> byte list \<times> int" where
  "StreamU64_packVarInt buf field =
     (let (buf', processed) = packVarInt64 buf field
      in if processed < 0 then (buf', -1) else (buf', processed))"

definition StreamS64_unpackVarInt :: "byte list \<Rightarrow> nat \<Rightarrow> u64 \<Rightarrow> (int \<times> u64) option" where
  "StreamS64_unpackVarInt buf availableSize field =
     map_option (\<lambda>r. if out_ret r < 0 \<or> out_more r then (-1, field)
                     else (out_ret r, zigZagDecode64 (out_value r)))
       (unpackVarInt64 buf availableSize)"

definition StreamS64_packVarInt :: "byte list \<Rightarrow> u64 \<Rightarrow> byte list \<times> int" where
  "StreamS64_packVarInt buf field =
     (let (buf', processed) = packVarInt64 buf (zigZagEncode64 field)
      in if processed < 0 then (buf', -1) else (buf', processed))"

subsection \<open>The contract of a stream\<close>

text \<open>
  What field serialization relies on, whichever the type: packing appends the code of the value,
  at most ten bytes, and unpacking reads it back whatever follows it in the buffer.
\<close>

locale varint_codec =
  fixes pack :: "byte list \<Rightarrow> 'v \<Rightarrow> byte list \<times> int"
    and unpack :: "byte list \<Rightarrow> nat \<Rightarrow> 'v \<Rightarrow> (int \<times> 'v) option"
    and enc :: "'v \<Rightarrow> byte list"
  assumes pack_enc: "pack buf v = (buf @ enc v, int (length (enc v)))"
    and enc_size: "0 < length (enc v) \<and> length (enc v) \<le> 10"
    and unpack_enc: "length (enc v) \<le> avail \<Longrightarrow> avail \<le> length (enc v @ suf) \<Longrightarrow>
      avail < 2147483648 \<Longrightarrow> unpack (enc v @ suf) avail f = Some (int (length (enc v)), v)"
begin

lemma enc_prefix_free:
  assumes "enc v @ xs = enc w @ ys" and "length (enc v @ xs) < 2147483648"
  shows "v = w \<and> xs = ys"
proof -
  let ?buf = "enc v @ xs"
  have "unpack ?buf (length ?buf) v = Some (int (length (enc v)), v)"
    by (rule unpack_enc) (use assms(2) in auto)
  moreover have "unpack ?buf (length ?buf) v = Some (int (length (enc w)), w)"
    unfolding assms(1) by (rule unpack_enc) (use assms in auto)
  ultimately show ?thesis using assms(1) by auto
qed

lemma unpack_packed:
  assumes "length (fst (pack buf v)) < 2147483648"
  shows "unpack (drop (length buf) (fst (pack buf v))) (length (enc v)) f
    = Some (snd (pack buf v), v)"
  using unpack_enc [of v "length (enc v)" "[]" f] assms by (simp add: pack_enc)

end

lemma leb128_size_64: "n < 2 ^ 64 \<Longrightarrow> 0 < length (leb128 n) \<and> length (leb128 n) \<le> 10"
  using leb128_length_le [of n 10] leb128_length_pos [of n] by simp

lemma leb128_size_32: "n < 2 ^ 32 \<Longrightarrow> 0 < length (leb128 n) \<and> length (leb128 n) \<le> 5"
  using leb128_length_le [of n 5] leb128_length_pos [of n] by simp

lemma unat_u64: "unat (v :: u64) < 2 ^ 64"
  using unsigned_less [of v, where 'a = nat] by simp

lemma unat_u32: "unat (v :: u32) < 2 ^ 32"
  using unsigned_less [of v, where 'a = nat] by simp

lemmas stream_defs = StreamUnsigned_unpackVarInt_def StreamUnsigned_packVarInt_def
  StreamSigned_unpackVarInt_def StreamSigned_packVarInt_def StreamU64_unpackVarInt_def
  StreamU64_packVarInt_def StreamS64_unpackVarInt_def StreamS64_packVarInt_def

lemma unsigned_codec:
  assumes "\<And>v. from64 (to64 v) = v"
  shows "varint_codec (StreamUnsigned_packVarInt to64) (StreamUnsigned_unpackVarInt from64)
    (\<lambda>v. leb128 (unat (to64 v)))"
proof
  show "StreamUnsigned_packVarInt to64 buf v =
      (buf @ leb128 (unat (to64 v)), int (length (leb128 (unat (to64 v)))))" for buf v
    by (simp add: stream_defs packVarInt64_leb128)
  show "0 < length (leb128 (unat (to64 v))) \<and> length (leb128 (unat (to64 v))) \<le> 10" for v
    by (rule leb128_size_64) (rule unat_u64)
  show "StreamUnsigned_unpackVarInt from64 (leb128 (unat (to64 v)) @ suf) avail f =
      Some (int (length (leb128 (unat (to64 v)))), v)"
    if "length (leb128 (unat (to64 v))) \<le> avail"
      "avail \<le> length (leb128 (unat (to64 v)) @ suf)" "avail < 2147483648" for v suf avail f
    using unpackVarInt64_leb128 [OF unat_u64 that] assms by (simp add: stream_defs)
qed

lemma signed_codec:
  assumes "LENGTH('a::len) \<le> 32"
  shows "varint_codec (StreamSigned_packVarInt :: byte list \<Rightarrow> 'a word \<Rightarrow> _)
    StreamSigned_unpackVarInt (\<lambda>v. leb128 (unat (zigZagEncode32 (scast v))))"
proof
  let ?z = "\<lambda>v :: 'a word. unat (zigZagEncode32 (scast v))"
  show "StreamSigned_packVarInt buf v = (buf @ leb128 (?z v), int (length (leb128 (?z v))))"
    for buf and v :: "'a word"
    by (simp add: stream_defs packVarInt32_leb128)
  show "0 < length (leb128 (?z v)) \<and> length (leb128 (?z v)) \<le> 10" for v
    using leb128_size_32 [OF unat_u32, of "zigZagEncode32 (scast v)"] by simp
  have "scast (scast v :: u32) = v" for v :: "'a word"
    by (rule bit_word_eqI) (use assms in \<open>simp add: bit_signed_iff\<close>)
  then show "StreamSigned_unpackVarInt (leb128 (?z v) @ suf) avail f =
      Some (int (length (leb128 (?z v))), v)"
    if "length (leb128 (?z v)) \<le> avail" "avail \<le> length (leb128 (?z v) @ suf)"
      "avail < 2147483648" for v :: "'a word" and suf avail f
    using unpackVarInt32_leb128 [OF unat_u32 that] by (simp add: stream_defs zigzag32_roundtrip)
qed

lemma ucast_ucast_up:
  "LENGTH('a) \<le> LENGTH('b) \<Longrightarrow> ucast (ucast v :: 'b::len word) = (v :: 'a::len word)"
  by (rule bit_word_eqI) (simp add: bit_ucast_iff)

interpretation sbool: varint_codec
  "StreamUnsigned_packVarInt (\<lambda>b. if b then 1 else 0)" "StreamUnsigned_unpackVarInt (\<lambda>w. w \<noteq> 0)"
  "\<lambda>b. leb128 (unat (if b then 1 else 0 :: u64))"
  by (rule unsigned_codec) simp

interpretation su8: varint_codec
  "StreamUnsigned_packVarInt ucast" "StreamUnsigned_unpackVarInt ucast"
  "\<lambda>v :: 8 word. leb128 (unat (ucast v :: u64))"
  by (rule unsigned_codec) (rule ucast_ucast_up, simp)

interpretation su16: varint_codec
  "StreamUnsigned_packVarInt ucast" "StreamUnsigned_unpackVarInt ucast"
  "\<lambda>v :: 16 word. leb128 (unat (ucast v :: u64))"
  by (rule unsigned_codec) (rule ucast_ucast_up, simp)

interpretation su32: varint_codec
  "StreamUnsigned_packVarInt ucast" "StreamUnsigned_unpackVarInt ucast"
  "\<lambda>v :: u32. leb128 (unat (ucast v :: u64))"
  by (rule unsigned_codec) (rule ucast_ucast_up, simp)

interpretation ss8: varint_codec
  StreamSigned_packVarInt StreamSigned_unpackVarInt
  "\<lambda>v :: 8 word. leb128 (unat (zigZagEncode32 (scast v)))"
  by (rule signed_codec) simp

interpretation ss16: varint_codec
  StreamSigned_packVarInt StreamSigned_unpackVarInt
  "\<lambda>v :: 16 word. leb128 (unat (zigZagEncode32 (scast v)))"
  by (rule signed_codec) simp

interpretation ss32: varint_codec
  StreamSigned_packVarInt StreamSigned_unpackVarInt
  "\<lambda>v :: u32. leb128 (unat (zigZagEncode32 (scast v)))"
  by (rule signed_codec) simp

interpretation su64: varint_codec
  StreamU64_packVarInt StreamU64_unpackVarInt "\<lambda>v. leb128 (unat v)"
proof
  show "StreamU64_packVarInt buf v = (buf @ leb128 (unat v), int (length (leb128 (unat v))))"
    for buf v by (simp add: stream_defs packVarInt64_leb128)
  show "0 < length (leb128 (unat v)) \<and> length (leb128 (unat v)) \<le> 10" for v :: u64
    by (rule leb128_size_64) (rule unat_u64)
  show "StreamU64_unpackVarInt (leb128 (unat v) @ suf) avail f =
      Some (int (length (leb128 (unat v))), v)"
    if "length (leb128 (unat v)) \<le> avail" "avail \<le> length (leb128 (unat v) @ suf)"
      "avail < 2147483648" for v suf avail f
    using unpackVarInt64_leb128 [OF unat_u64 that] by (simp add: stream_defs)
qed

interpretation ss64: varint_codec
  StreamS64_packVarInt StreamS64_unpackVarInt "\<lambda>v. leb128 (unat (zigZagEncode64 v))"
proof
  let ?z = "\<lambda>v. unat (zigZagEncode64 v)"
  show "StreamS64_packVarInt buf v = (buf @ leb128 (?z v), int (length (leb128 (?z v))))"
    for buf v by (simp add: stream_defs packVarInt64_leb128)
  show "0 < length (leb128 (?z v)) \<and> length (leb128 (?z v)) \<le> 10" for v
    by (rule leb128_size_64) (rule unat_u64)
  show "StreamS64_unpackVarInt (leb128 (?z v) @ suf) avail f =
      Some (int (length (leb128 (?z v))), v)"
    if "length (leb128 (?z v)) \<le> avail" "avail \<le> length (leb128 (?z v) @ suf)"
      "avail < 2147483648" for v suf avail f
    using unpackVarInt64_leb128 [OF unat_u64 that] by (simp add: stream_defs zigzag64_roundtrip)
qed

subsection \<open>Properties\<close>

text \<open>C16: whatever is already in the buffer and whatever follows, a 64-bit value packed by
  \<open>packVarInt64\<close> is read back by \<open>unpackVarInt64\<close>, which reports the number of bytes the packer
  reported and raises no error.\<close>

theorem varint64_roundtrip:
  assumes "length suf < 2147483600"
  shows "let (buf', n) = packVarInt64 buf v;
             tail = drop (length buf) buf' @ suf
         in unpackVarInt64 tail (length tail) =
              Some \<lparr>out_ret = n, out_value = v, out_more = False, out_error = None\<rparr>"
proof -
  have "length (leb128 (unat v)) \<le> 10" using leb128_size_64 [OF unat_u64 [of v]] by simp
  then show ?thesis
    using unpackVarInt64_leb128 [OF unat_u64 [of v], of "length (leb128 (unat v) @ suf)" suf] assms
    by (simp add: packVarInt64_leb128 Let_def)
qed

theorem varint64_roundtrip_witness:
  "length [7 :: byte] < 2147483600 \<and>
   (let (buf', n) = packVarInt64 [1, 2] 300; tail = drop (length [1 :: byte, 2]) buf' @ [7]
    in unpackVarInt64 tail (length tail) =
         Some \<lparr>out_ret = n, out_value = 300, out_more = False, out_error = None\<rparr>)"
  using varint64_roundtrip [of "[7]" "[1, 2]" 300] by simp

text \<open>The same for \<open>packVarInt32\<close> and \<open>unpackVarInt32\<close>; the byte-wise reader of 32 bits never
  reaches an undefined shift on what the packer wrote.\<close>

theorem varint32_roundtrip:
  assumes "length suf < 2147483600"
  shows "let (buf', n) = packVarInt32 buf v;
             tail = drop (length buf) buf' @ suf
         in unpackVarInt32 tail (length tail) =
              Some \<lparr>out_ret = n, out_value = v, out_more = False, out_error = None\<rparr>"
proof -
  have "length (leb128 (unat v)) \<le> 5" using leb128_size_32 [OF unat_u32 [of v]] by simp
  then show ?thesis
    using unpackVarInt32_leb128 [OF unat_u32 [of v], of "length (leb128 (unat v) @ suf)" suf] assms
    by (simp add: packVarInt32_leb128 Let_def)
qed

theorem varint32_roundtrip_witness:
  "length [0x80 :: byte] < 2147483600 \<and>
   (let (buf', n) = packVarInt32 [] 4294967295; tail = drop 0 buf' @ [0x80]
    in unpackVarInt32 tail (length tail) =
         Some \<lparr>out_ret = n, out_value = 4294967295, out_more = False, out_error = None\<rparr>)"
  using varint32_roundtrip [of "[0x80]" "[]" 4294967295] by simp

text \<open>C17: the unrolled 64-bit packer with its three parts and jump table, and the nested conditions
  of the 32-bit one, append exactly the base-128 encoding of the value: one to ten bytes, and one
  to five for 32 bits.\<close>

theorem pack_is_leb128:
  "packVarInt64 buf v = (buf @ leb128 (unat v), int (length (leb128 (unat v))))
   \<and> packVarInt32 buf w = (buf @ leb128 (unat w), int (length (leb128 (unat w))))
   \<and> length (leb128 (unat v)) \<in> {1..10} \<and> length (leb128 (unat w)) \<in> {1..5}"
  using leb128_size_64 [OF unat_u64 [of v]] leb128_size_32 [OF unat_u32 [of w]]
  by (simp add: packVarInt64_leb128 packVarInt32_leb128 Suc_le_eq)

text \<open>C31: on arbitrary bytes \<open>unpackVarInt64\<close> never reads outside the available bytes and never
  shifts out of range: it returns \<open>-1\<close> with the error raised, or a count between one and ten
  that does not exceed what is available.\<close>

theorem unpackVarInt64_safe:
  assumes "avail \<le> length buf" and "avail < 2147483648"
  shows "\<exists>r. unpackVarInt64 buf avail = Some r \<and>
     (out_ret r = -1 \<and> out_error r \<noteq> None \<or>
      1 \<le> out_ret r \<and> out_ret r \<le> 10 \<and> out_ret r \<le> int avail \<and> \<not> out_more r \<and> out_error r = None)"
proof -
  obtain st where st: "unpack_loop buf avail 56 (unpack_init :: u64 unpack_state) = Some st"
      "ust_processed st \<le> 10"
      "\<not> ust_overflow st \<Longrightarrow> 0 < ust_processed st \<and> ust_processed st \<le> avail"
    using unpack_loop_safe [of "unpack_init :: u64 unpack_state" avail buf] assms by auto
  then show ?thesis
    by (intro exI [of _ "unpack_verdict st"]) (auto simp: unpackVarInt64_def unpack_verdict_def Let_def)
qed

theorem unpackVarInt64_safe_witness:
  "(1::nat) \<le> length [0xFF :: byte, 0] \<and> (1::nat) < 2147483648 \<and>
   (\<exists>r. unpackVarInt64 [0xFF, 0] 1 = Some r \<and>
     (out_ret r = -1 \<and> out_error r \<noteq> None \<or>
      1 \<le> out_ret r \<and> out_ret r \<le> 10 \<and> out_ret r \<le> int 1 \<and> \<not> out_more r \<and> out_error r = None))"
  using unpackVarInt64_safe [of 1 "[0xFF, 0]"] by simp

text \<open>\<open>unpackVarInt32\<close> is not safe on arbitrary bytes: five continuation bytes make it read a
  sixth one and shift a 32-bit value by 35, which is undefined; the bound of 28 on the shift lets
  a sixth byte through.\<close>

theorem unpackVarInt32_shift_undefined:
  assumes "6 \<le> length buf" and "\<forall>i < 5. 128 \<le> unat (buf ! i)"
    and "6 \<le> avail" and "avail < 2147483648"
  shows "unpackVarInt32 buf avail = None"
  using assms by (rule unpackVarInt32_undefined)

theorem unpackVarInt32_shift_undefined_witness:
  "unpackVarInt32 (replicate 6 0x80) 6 = None"
  by (rule unpackVarInt32_shift_undefined) (simp_all add: nth_replicate)

text \<open>The zigzag transforms are inverse to each other on every register value, and encode a
  signed number \<open>n\<close> as \<open>2n\<close> when it is not negative and as \<open>-2n-1\<close> when it is, as the table in
  the source says.\<close>

theorem zigzag_correct:
  "zigZagDecode32 (zigZagEncode32 m) = m \<and> zigZagDecode64 (zigZagEncode64 n) = n
   \<and> uint (zigZagEncode32 m) = (if 0 \<le> sint m then 2 * sint m else - 2 * sint m - 1)
   \<and> uint (zigZagEncode64 n) = (if 0 \<le> sint n then 2 * sint n else - 2 * sint n - 1)"
  using zigzag_arith [of m] zigzag_arith [of n] zigzag32_roundtrip [of m] zigzag64_roundtrip [of n]
  by (simp add: zigZagEncode32_def [of m] zigZagEncode64_def [of n])

end
