(* ===== verification/ObjectId.thy ===== *)
theory ObjectId
  imports HatnPrelude
begin

section \<open>Object identifiers: dataunit/objectid.h and dataunit/src/objectid.cpp\<close>

text \<open>
  An object identifier is a timepoint in milliseconds, a sequence number and a random number,
  written as 25 hexadecimal characters. The theory holds the class with its comparison
  operators, the text form and its parser (the branch for C++17, the standard the build selects),
  and the generator: first as one uninterrupted call, then as the steps that concurrent calls
  interleave on the two atomic variables they share.
\<close>

subsection \<open>The class\<close>

datatype ObjectId = ObjectId (m_timepoint: u64) (m_seq: u32) (m_rand: u32)

definition OidLength :: nat where "OidLength = 11 + 6 + 8"

definition oid_new :: ObjectId where "oid_new = ObjectId 0 0 0"

definition oid_reset :: "ObjectId \<Rightarrow> ObjectId" where "oid_reset oid = ObjectId 0 0 0"

definition oid_isNull :: "ObjectId \<Rightarrow> bool" where "oid_isNull oid \<longleftrightarrow> m_timepoint oid = 0"

definition oid_eq :: "ObjectId \<Rightarrow> ObjectId \<Rightarrow> bool" where
  "oid_eq a b \<longleftrightarrow> m_timepoint a = m_timepoint b \<and> m_seq a = m_seq b \<and> m_rand a = m_rand b"

definition oid_ne :: "ObjectId \<Rightarrow> ObjectId \<Rightarrow> bool" where
  "oid_ne a b \<longleftrightarrow> \<not> oid_eq a b"

definition oid_less :: "ObjectId \<Rightarrow> ObjectId \<Rightarrow> bool" where
  "oid_less a b \<longleftrightarrow>
     (if m_timepoint a < m_timepoint b then True
      else if m_timepoint a > m_timepoint b then False
      else if m_seq a < m_seq b then True
      else if m_seq a > m_seq b then False
      else if m_rand a < m_rand b then True
      else if m_rand a > m_rand b then False
      else False)"

definition oid_le :: "ObjectId \<Rightarrow> ObjectId \<Rightarrow> bool" where
  "oid_le a b \<longleftrightarrow> oid_eq a b \<or> oid_less a b"

definition oid_gt :: "ObjectId \<Rightarrow> ObjectId \<Rightarrow> bool" where
  "oid_gt a b \<longleftrightarrow> \<not> oid_le a b"

definition oid_ge :: "ObjectId \<Rightarrow> ObjectId \<Rightarrow> bool" where
  "oid_ge a b \<longleftrightarrow> \<not> oid_less a b"

definition oid_toEpoch :: "ObjectId \<Rightarrow> u32" where
  "oid_toEpoch oid = ucast (m_timepoint oid div 1000)"

text \<open>The operators of the class make it a linear order.\<close>

instantiation ObjectId :: linorder
begin

definition less_eq_ObjectId :: "ObjectId \<Rightarrow> ObjectId \<Rightarrow> bool" where
  "less_eq_ObjectId a b = oid_le a b"

definition less_ObjectId :: "ObjectId \<Rightarrow> ObjectId \<Rightarrow> bool" where
  "less_ObjectId a b = oid_less a b"

instance
proof
  fix x y z :: ObjectId
  show "x < y \<longleftrightarrow> x \<le> y \<and> \<not> y \<le> x"
    by (cases x; cases y)
       (auto simp: less_eq_ObjectId_def less_ObjectId_def oid_le_def oid_less_def oid_eq_def)
  show "x \<le> x" by (simp add: less_eq_ObjectId_def oid_le_def oid_eq_def)
  show "x \<le> y \<Longrightarrow> y \<le> z \<Longrightarrow> x \<le> z"
    by (cases x; cases y; cases z)
       (auto simp: less_eq_ObjectId_def oid_le_def oid_less_def oid_eq_def split: if_splits)
  show "x \<le> y \<Longrightarrow> y \<le> x \<Longrightarrow> x = y"
    by (cases x; cases y)
       (auto simp: less_eq_ObjectId_def oid_le_def oid_less_def oid_eq_def split: if_splits)
  show "x \<le> y \<or> y \<le> x"
    by (cases x; cases y) (auto simp: less_eq_ObjectId_def oid_le_def oid_less_def oid_eq_def)
qed

end

subsection \<open>The text form\<close>

text \<open>
  \<open>serialize\<close> formats into the buffer at an offset, at most 25 characters; \<open>F w n\<close> stands for
  what \<open>fmt\<close> prints for \<open>{:0wx}\<close>. \<open>None\<close>: the assertion on the room fails.
\<close>

definition oid_text :: "(nat \<Rightarrow> nat \<Rightarrow> string) \<Rightarrow> ObjectId \<Rightarrow> string" where
  "oid_text F oid =
     take OidLength (F 11 (unat (m_timepoint oid)) @ F 6 (unat (m_seq oid AND 0xFFFFFF))
                     @ F 8 (unat (m_rand oid)))"

definition oid_serialize ::
    "(nat \<Rightarrow> nat \<Rightarrow> string) \<Rightarrow> ObjectId \<Rightarrow> string \<Rightarrow> nat \<Rightarrow> string option" where
  "oid_serialize F oid buf offset =
     (if length buf < offset + OidLength then None
      else Some (take offset buf @ oid_text F oid @ drop (offset + length (oid_text F oid)) buf))"

definition oid_toArray :: "(nat \<Rightarrow> nat \<Rightarrow> string) \<Rightarrow> ObjectId \<Rightarrow> string option" where
  "oid_toArray F oid =
     (if oid_isNull oid then Some (replicate OidLength (CHR 0x00))
      else oid_serialize F oid (replicate OidLength (CHR 0x00)) 0)"

definition oid_toString :: "(nat \<Rightarrow> nat \<Rightarrow> string) \<Rightarrow> ObjectId \<Rightarrow> string option" where
  "oid_toString F oid =
     (if oid_isNull oid then Some []
      else oid_serialize F oid (replicate OidLength (CHR 0x00)) 0)"

text \<open>
  \<open>parse\<close>: three calls of \<open>std::from_chars\<close>, each starting where the previous one stopped; every
  failure resets the object. The boolean is the returned value.
\<close>

definition oid_parse :: "ObjectId \<Rightarrow> string \<Rightarrow> bool \<times> ObjectId" where
  "oid_parse oid buf =
     (if length buf \<noteq> OidLength then (False, oid_reset oid)
      else case from_chars 16 (2 ^ 64 - 1) (take 11 buf) of
        None \<Rightarrow> (False, oid_reset oid)
      | Some (t, k1) \<Rightarrow>
          (case from_chars 16 (2 ^ 32 - 1) (take 6 (drop k1 buf)) of
             None \<Rightarrow> (False, oid_reset oid)
           | Some (s, k2) \<Rightarrow>
               (case from_chars 16 (2 ^ 32 - 1) (take 8 (drop (k1 + k2) buf)) of
                  None \<Rightarrow> (False, oid_reset oid)
                | Some (r, k3) \<Rightarrow> (True, ObjectId (word_of_nat t) (word_of_nat s) (word_of_nat r)))))"

datatype oid_error = INVALID_FORMAT

definition oid_fromString :: "string \<Rightarrow> oid_error + ObjectId" where
  "oid_fromString buf =
     (let (ok, oid) = oid_parse oid_new buf in if ok then Inr oid else Inl INVALID_FORMAT)"

definition oid_fromStringUnsafe :: "string \<Rightarrow> ObjectId" where
  "oid_fromStringUnsafe buf = (let (ok, oid) = oid_parse oid_new buf in if ok then oid else oid_new)"

text \<open>\<open>set\<close> throws \<open>std::runtime_error\<close> (\<open>None\<close>) when the text does not parse.\<close>

definition oid_set :: "ObjectId \<Rightarrow> string \<Rightarrow> ObjectId option" where
  "oid_set oid buf = (let (ok, oid') = oid_parse oid buf in if ok then Some oid' else None)"

subsection \<open>Lemmas on the text form\<close>

lemma unat_seq_mask: "unat (s AND 0xFFFFFF :: u32) = unat s mod 2 ^ 24"
proof -
  have "s AND 0xFFFFFF = take_bit 24 s"
    using take_bit_eq_mask [of 24 s] by (simp add: mask_eq_exp_minus_1)
  then show ?thesis by (simp only: unsigned_take_bit_eq) (simp add: take_bit_eq_mod)
qed

lemma oid_text_digits:
  assumes "fmt_hex_ok F" and "unat (m_timepoint oid) < 2 ^ 44"
  shows "oid_text F oid = digits_at 16 11 (unat (m_timepoint oid))
           @ digits_at 16 6 (unat (m_seq oid) mod 2 ^ 24) @ digits_at 16 8 (unat (m_rand oid))"
proof -
  have "F 11 (unat (m_timepoint oid)) = digits_at 16 11 (unat (m_timepoint oid))"
    by (rule fmt_hex_digits) (use assms in simp_all)
  moreover have "F 6 (unat (m_seq oid) mod 2 ^ 24) = digits_at 16 6 (unat (m_seq oid) mod 2 ^ 24)"
    by (rule fmt_hex_digits) (use assms in simp_all)
  moreover have "F 8 (unat (m_rand oid)) = digits_at 16 8 (unat (m_rand oid))"
    by (rule fmt_hex_digits) (use assms unsigned_less [of "m_rand oid", where 'a = nat] in simp_all)
  ultimately show ?thesis by (simp add: oid_text_def unat_seq_mask OidLength_def)
qed

lemma length_oid_text:
  "fmt_hex_ok F \<Longrightarrow> unat (m_timepoint oid) < 2 ^ 44 \<Longrightarrow> length (oid_text F oid) = OidLength"
  by (simp add: oid_text_digits OidLength_def)

lemma oid_toString_text:
  "fmt_hex_ok F \<Longrightarrow> unat (m_timepoint oid) < 2 ^ 44 \<Longrightarrow> \<not> oid_isNull oid \<Longrightarrow>
     oid_toString F oid = Some (oid_text F oid)"
  by (simp add: oid_toString_def oid_serialize_def length_oid_text)

lemma oid_parse_digits:
  assumes "t < 2 ^ 44" "s < 2 ^ 24" "r < 2 ^ 32"
  shows "oid_parse oid (digits_at 16 11 t @ digits_at 16 6 s @ digits_at 16 8 r) =
           (True, ObjectId (word_of_nat t) (word_of_nat s) (word_of_nat r))"
proof -
  have "from_chars 16 (2 ^ 64 - 1) (digits_at 16 11 t) = Some (t, 11)"
    by (rule from_chars_digits_at) (use assms in simp_all)
  moreover have "from_chars 16 (2 ^ 32 - 1) (digits_at 16 6 s) = Some (s, 6)"
    by (rule from_chars_digits_at) (use assms in simp_all)
  moreover have "from_chars 16 (2 ^ 32 - 1) (digits_at 16 8 r) = Some (r, 8)"
    by (rule from_chars_digits_at) (use assms in simp_all)
  ultimately show ?thesis by (simp add: oid_parse_def OidLength_def)
qed

lemma oid_parse_text:
  assumes "fmt_hex_ok F" and "unat (m_timepoint oid) < 2 ^ 44" and "unat (m_seq oid) < 2 ^ 24"
  shows "oid_parse o' (oid_text F oid) = (True, oid)"
proof -
  have "unat (m_rand oid) < 2 ^ 32"
    using unsigned_less [of "m_rand oid", where 'a = nat] by simp
  then show ?thesis
    using oid_parse_digits [of "unat (m_timepoint oid)" "unat (m_seq oid)" "unat (m_rand oid)"] assms
    by (simp add: oid_text_digits)
qed

text \<open>What one call of \<open>std::from_chars\<close> does where the value cannot overflow.\<close>

lemma from_chars_span:
  assumes "0 < base" and "base ^ length s \<le> Suc maxv"
  shows "from_chars base maxv s =
    (let pre = takeWhile (\<lambda>c. digit_val base c \<noteq> None) s
     in if pre = [] then None else Some (fst (digit_prefix base 0 s), length pre))"
proof -
  obtain v rest where d: "digit_prefix base 0 s = (v, rest)" by force
  let ?pre = "takeWhile (\<lambda>c. digit_val base c \<noteq> None) s"
  have rest: "rest = dropWhile (\<lambda>c. digit_val base c \<noteq> None) s" by (rule digit_prefix_span [OF d])
  then have len: "length s = length ?pre + length rest"
    by (metis length_append takeWhile_dropWhile_id)
  have "v < base ^ (length s - length rest)" using digit_prefix_less [OF d, of 0] by simp
  also have "\<dots> \<le> base ^ length s" by (rule power_increasing) (use assms in simp_all)
  finally have "v \<le> maxv" using assms(2) by simp
  then show ?thesis using d len by (auto simp: from_chars_def Let_def)
qed

definition hex_digit :: "char \<Rightarrow> bool" where "hex_digit c \<longleftrightarrow> digit_val 16 c \<noteq> None"

lemma from_chars_after_stop:
  assumes "takeWhile hex_digit (take m s) \<noteq> take m s"
  shows "from_chars 16 maxv (take n (drop (length (takeWhile hex_digit (take m s))) s)) = None"
proof -
  let ?P = hex_digit
  let ?w = "takeWhile ?P (take m s)"
  have dw: "dropWhile ?P (take m s) \<noteq> []"
    using assms by (metis append_Nil2 takeWhile_dropWhile_id)
  then obtain c cs where c: "dropWhile ?P (take m s) = c # cs" by (meson neq_Nil_conv)
  then have "digit_val 16 c = None" using hd_dropWhile [OF dw] by (simp add: hex_digit_def)
  moreover have "drop (length ?w) s = (c # cs) @ drop m s"
  proof -
    have "s = ?w @ dropWhile ?P (take m s) @ drop m s"
      by (metis append.assoc append_take_drop_id takeWhile_dropWhile_id)
    then show ?thesis using c by (metis append_eq_conv_conj)
  qed
  ultimately show ?thesis by (cases n) (simp_all add: from_chars_def)
qed

lemma list_all_take_18:
  assumes "length s = 25"
  shows "list_all P (take 18 s) \<longleftrightarrow>
    list_all P (take 11 s) \<and> list_all P (take 6 (drop 11 s)) \<and> takeWhile P (take 8 (drop 17 s)) \<noteq> []"
proof -
  have "take 18 s = take 11 s @ take 6 (drop 11 s) @ take 1 (drop 17 s)"
    using take_add [of 11 7 s] take_add [of 6 1 "drop 11 s"] by simp
  moreover obtain c cs where "drop 17 s = c # cs" using assms by (cases "drop 17 s") auto
  ultimately show ?thesis by simp
qed

lemma oid_parse_accepts_25:
  assumes len: "length s = 25"
  shows "fst (oid_parse oid s) \<longleftrightarrow> list_all hex_digit (take 18 s)"
proof -
  let ?P = hex_digit
  have f1: "from_chars 16 (2 ^ 64 - 1) (take 11 s) =
      (let pre = takeWhile ?P (take 11 s)
       in if pre = [] then None else Some (fst (digit_prefix 16 0 (take 11 s)), length pre))"
    using from_chars_span [of 16 "take 11 s" "2 ^ 64 - 1"] len by (simp add: hex_digit_def [abs_def])
  have f2: "from_chars 16 (2 ^ 32 - 1) (take 6 (drop k s)) =
      (let pre = takeWhile ?P (take 6 (drop k s))
       in if pre = [] then None else Some (fst (digit_prefix 16 0 (take 6 (drop k s))), length pre))" for k
    using from_chars_span [of 16 "take 6 (drop k s)" "2 ^ 32 - 1"] power_increasing [of "length (take 6 (drop k s))" 6 "16 :: nat"]
    by (simp add: hex_digit_def [abs_def])
  have f3: "from_chars 16 (2 ^ 32 - 1) (take 8 (drop k s)) =
      (let pre = takeWhile ?P (take 8 (drop k s))
       in if pre = [] then None else Some (fst (digit_prefix 16 0 (take 8 (drop k s))), length pre))" for k
    using from_chars_span [of 16 "take 8 (drop k s)" "2 ^ 32 - 1"] power_increasing [of "length (take 8 (drop k s))" 8 "16 :: nat"]
    by (simp add: hex_digit_def [abs_def])
  show ?thesis
  proof (cases "list_all ?P (take 11 s)")
    case False
    then have w: "takeWhile ?P (take 11 s) \<noteq> take 11 s" by (simp add: list_all_iff)
    show ?thesis
      using False from_chars_after_stop [OF w] f1 len
      by (auto simp: oid_parse_def OidLength_def list_all_take_18 Let_def)
  next
    case True
    then have tw: "takeWhile ?P (take 11 s) = take 11 s" by (simp add: list_all_iff)
    have one: "\<exists>v. from_chars 16 (2 ^ 64 - 1) (take 11 s) = Some (v, 11)"
      using f1 [unfolded tw] len by (auto simp: Let_def)
    show ?thesis
    proof (cases "list_all ?P (take 6 (drop 11 s))")
      case False
      then have w: "takeWhile ?P (take 6 (drop 11 s)) \<noteq> take 6 (drop 11 s)"
        by (simp add: list_all_iff)
      show ?thesis
        using False True one from_chars_after_stop [OF w] f2 [of 11] len
        by (auto simp: oid_parse_def OidLength_def list_all_take_18 Let_def add.commute split: if_splits)
    next
      case True2: True
      then have tw: "takeWhile ?P (take 6 (drop 11 s)) = take 6 (drop 11 s)"
        by (simp add: list_all_iff)
      have two: "\<exists>v. from_chars 16 (2 ^ 32 - 1) (take 6 (drop 11 s)) = Some (v, 6)"
        using f2 [of 11, unfolded tw] len by (auto simp: Let_def)
      show ?thesis
        using True True2 one two f3 [of 17] len
        by (auto simp: oid_parse_def OidLength_def list_all_take_18 Let_def)
    qed
  qed
qed

lemma oid_parse_fails: "\<not> fst (oid_parse oid s) \<Longrightarrow> oid_parse oid s = (False, ObjectId 0 0 0)"
  by (auto simp: oid_parse_def oid_reset_def split: option.splits if_splits)

lemma oid_parse_length: "fst (oid_parse oid s) \<Longrightarrow> length s = 25"
  by (auto simp: oid_parse_def OidLength_def split: if_splits)

lemma oid_text_order:
  assumes "fmt_hex_ok F"
    and "unat (m_timepoint a) < 2 ^ 44" "unat (m_seq a) < 2 ^ 24"
    and "unat (m_timepoint b) < 2 ^ 44" "unat (m_seq b) < 2 ^ 24"
  shows "str_less (oid_text F a) (oid_text F b) \<longleftrightarrow> oid_less a b"
proof -
  have r: "unat (m_rand a) < 16 ^ 8" "unat (m_rand b) < 16 ^ 8"
    using unsigned_less [of "m_rand a", where 'a = nat] unsigned_less [of "m_rand b", where 'a = nat]
    by simp_all
  have eq: "str_less (digits_at 16 8 x) (digits_at 16 8 y) \<longleftrightarrow> x < y"
    if "x < 16 ^ 8" "y < 16 ^ 8" for x y
    using str_less_digits_at [of 16 x 8 y "[]" "[]"] that by simp
  show ?thesis
    using assms
    by (auto simp: oid_text_digits str_less_digits_at eq [OF r] oid_less_def
        word_less_nat_alt unsigned_word_eqI)
qed

subsection \<open>The generator: one uninterrupted call\<close>

text \<open>
  The two atomics of \<open>generate\<close>; \<open>now\<close> is the start-up time plus the elapsed milliseconds, \<open>rnd\<close>
  what \<open>Random::uniform(1,0xFFFFFFFF)\<close> returns.
\<close>

record gen_globals =
  g_lastMs :: u64
  g_seq :: u32

definition gen_globals_init :: gen_globals where
  "gen_globals_init = \<lparr>g_lastMs = 0, g_seq = 1\<rparr>"

definition oid_generate :: "u64 \<Rightarrow> u32 \<Rightarrow> gen_globals \<Rightarrow> ObjectId \<times> gen_globals" where
  "oid_generate now rnd g =
     (let prevMs = g_lastMs g;
          prevSeq = g_seq g;
          (restartSeq, g1) =
            (if now > prevMs then
               if g_lastMs g = prevMs then
                 let g' = g\<lparr>g_lastMs := now\<rparr>
                 in if g_seq g' = prevSeq then (True, g'\<lparr>g_seq := 1\<rparr>) else (False, g')
               else (False, g)
             else (False, g));
          (s, g2) = (if \<not> restartSeq then (g_seq g1 + 1, g1\<lparr>g_seq := g_seq g1 + 1\<rparr>) else (1, g1))
      in (ObjectId now s rnd, g2))"

text \<open>Calls one after the other, each with its clock reading and random number.\<close>

fun oid_generates :: "(u64 \<times> u32) list \<Rightarrow> gen_globals \<Rightarrow> ObjectId list" where
  "oid_generates [] g = []"
| "oid_generates ((now, rnd) # cs) g =
     (let (oid, g') = oid_generate now rnd g in oid # oid_generates cs g')"

text \<open>The identifiers of one process follow \<open>lastMs\<close> and \<open>seq\<close>, the last pair given out.\<close>

lemma oid_generate_alt:
  "oid_generate now rnd g =
     (if g_lastMs g < now then (ObjectId now 1 rnd, \<lparr>g_lastMs = now, g_seq = 1\<rparr>)
      else (ObjectId now (g_seq g + 1) rnd, g\<lparr>g_seq := g_seq g + 1\<rparr>))"
  by (cases g) (simp add: oid_generate_def)

definition clock_ok :: "u64 \<Rightarrow> (u64 \<times> u32) list \<Rightarrow> bool" where
  "clock_ok start cs \<longleftrightarrow> sorted_wrt (\<le>) (start # List.map fst cs)"

lemma oid_less_before:
  "m_timepoint a \<le> m_timepoint b \<Longrightarrow> (m_timepoint a = m_timepoint b \<Longrightarrow> m_seq a < m_seq b) \<Longrightarrow> a < b"
  by (auto simp: less_ObjectId_def oid_less_def)

lemma oid_generates_sorted_aux:
  "clock_ok (g_lastMs g) cs \<Longrightarrow> unat (g_seq g) + length cs < 2 ^ 32 \<Longrightarrow> 0 < g_seq g \<Longrightarrow>
     sorted_wrt (<) (oid_generates cs g) \<and>
     list_all (\<lambda>oid. g_lastMs g \<le> m_timepoint oid \<and>
       (m_timepoint oid = g_lastMs g \<longrightarrow> g_seq g < m_seq oid)) (oid_generates cs g)"
proof (induction cs arbitrary: g)
  case (Cons c cs)
  obtain now rnd where c: "c = (now, rnd)" by force
  obtain oid g' where gen: "oid_generate now rnd g = (oid, g')" by force
  have now: "g_lastMs g \<le> now" and cl: "clock_ok now cs"
    using Cons.prems(1) by (auto simp: clock_ok_def c)
  have bump: "unat (g_seq g + 1) = Suc (unat (g_seq g))"
    using Cons.prems(2) by (simp add: unat_word_ariths)
  have g': "g_lastMs g' = now" "m_timepoint oid = now" "m_seq oid = g_seq g'"
      "unat (g_seq g') + length cs < 2 ^ 32" "0 < g_seq g'"
      "g_lastMs g = now \<longrightarrow> g_seq g < m_seq oid"
    using gen now Cons.prems(2) bump
    by (auto simp: oid_generate_alt word_less_nat_alt word_le_nat_alt intro: unsigned_word_eqI
        split: if_splits)
  have IH: "sorted_wrt (<) (oid_generates cs g') \<and>
      list_all (\<lambda>oid. g_lastMs g' \<le> m_timepoint oid \<and>
        (m_timepoint oid = g_lastMs g' \<longrightarrow> g_seq g' < m_seq oid)) (oid_generates cs g')"
    by (rule Cons.IH) (use cl g' in simp_all)
  have "\<forall>o' \<in> set (oid_generates cs g'). oid < o'"
    using IH g' by (auto simp: list_all_iff intro!: oid_less_before)
  then show ?case
    using IH g' now gen c by (auto simp: list_all_iff)
qed simp

subsection \<open>The generator: interleaved calls\<close>

text \<open>
  A call runs through the atomic operations of \<open>generate\<close>: read the clock, load \<open>lastMs\<close>, load
  \<open>seq\<close>, compare-and-exchange \<open>lastMs\<close>, compare-and-exchange \<open>seq\<close>, or fetch-and-add; its local
  variables are a record. Other calls may step between any two of them.
\<close>

datatype gen_pc = ReadClock | LoadMs | LoadSeq | CasMs | CasSeq | FetchAdd | Returned

record gen_call =
  gc_pc :: gen_pc
  gc_timepoint :: u64
  gc_prevMs :: u64
  gc_prevSeq :: u32
  gc_restartSeq :: bool
  gc_result :: "ObjectId"

definition gen_call_init :: gen_call where
  "gen_call_init = \<lparr>gc_pc = ReadClock, gc_timepoint = 0, gc_prevMs = 0, gc_prevSeq = 0,
                    gc_restartSeq = False, gc_result = oid_new\<rparr>"

record gen_state =
  gs_clock :: u64
  gs_atomics :: gen_globals
  gs_calls :: "nat \<Rightarrow> gen_call"

definition gen_state_init :: gen_state where
  "gen_state_init = \<lparr>gs_clock = 0, gs_atomics = gen_globals_init, gs_calls = (\<lambda>i. gen_call_init)\<rparr>"

definition gen_call_step :: "u64 \<Rightarrow> u32 \<Rightarrow> gen_globals \<Rightarrow> gen_call \<Rightarrow> gen_globals \<times> gen_call" where
  "gen_call_step now rnd g c =
     (case gc_pc c of
        ReadClock \<Rightarrow> (g, c\<lparr>gc_timepoint := now, gc_pc := LoadMs\<rparr>)
      | LoadMs \<Rightarrow> (g, c\<lparr>gc_prevMs := g_lastMs g, gc_pc := LoadSeq\<rparr>)
      | LoadSeq \<Rightarrow>
          (g, c\<lparr>gc_prevSeq := g_seq g,
                gc_pc := if gc_timepoint c > gc_prevMs c then CasMs else FetchAdd\<rparr>)
      | CasMs \<Rightarrow>
          (if g_lastMs g = gc_prevMs c
           then (g\<lparr>g_lastMs := gc_timepoint c\<rparr>, c\<lparr>gc_pc := CasSeq\<rparr>)
           else (g, c\<lparr>gc_prevMs := g_lastMs g, gc_pc := FetchAdd\<rparr>))
      | CasSeq \<Rightarrow>
          (if g_seq g = gc_prevSeq c
           then (g\<lparr>g_seq := 1\<rparr>,
                 c\<lparr>gc_restartSeq := True, gc_result := ObjectId (gc_timepoint c) 1 rnd,
                   gc_pc := Returned\<rparr>)
           else (g, c\<lparr>gc_prevSeq := g_seq g, gc_pc := FetchAdd\<rparr>))
      | FetchAdd \<Rightarrow>
          (g\<lparr>g_seq := g_seq g + 1\<rparr>,
           c\<lparr>gc_result := ObjectId (gc_timepoint c) (g_seq g + 1) rnd, gc_pc := Returned\<rparr>)
      | Returned \<Rightarrow> (g, c))"

text \<open>The clock ticks, or one call makes its next step (drawing \<open>rnd\<close> if it is its last one).\<close>

datatype gen_event = Tick | Step nat u32

fun gen_exec :: "gen_event \<Rightarrow> gen_state \<Rightarrow> gen_state" where
  "gen_exec Tick s = s\<lparr>gs_clock := gs_clock s + 1\<rparr>"
| "gen_exec (Step i rnd) s =
     (let (g, c) = gen_call_step (gs_clock s) rnd (gs_atomics s) (gs_calls s i)
      in s\<lparr>gs_atomics := g, gs_calls := (gs_calls s)(i := c)\<rparr>)"

inductive gen_reachable :: "gen_state \<Rightarrow> bool" where
  start: "gen_reachable gen_state_init"
| step: "gen_reachable s \<Longrightarrow> gen_reachable (gen_exec e s)"

fun gen_run :: "gen_event list \<Rightarrow> gen_state \<Rightarrow> gen_state" where
  "gen_run [] s = s"
| "gen_run (e # es) s = gen_run es (gen_exec e s)"

lemma gen_run_reachable: "gen_reachable s \<Longrightarrow> gen_reachable (gen_run es s)"
  by (induction es arbitrary: s) (auto intro: gen_reachable.step)

text \<open>A call that has moved \<open>lastMs\<close> to its own timepoint.\<close>

definition won_ms :: "gen_call \<Rightarrow> bool" where
  "won_ms c \<longleftrightarrow> gc_pc c = CasSeq \<or> gc_restartSeq c"

definition gen_inv :: "gen_state \<Rightarrow> bool" where
  "gen_inv s \<longleftrightarrow>
     (\<forall>i. (gc_pc (gs_calls s i) = CasMs \<longrightarrow> gc_prevMs (gs_calls s i) < gc_timepoint (gs_calls s i))
        \<and> (gc_restartSeq (gs_calls s i) \<longrightarrow> gc_pc (gs_calls s i) = Returned)
        \<and> (won_ms (gs_calls s i) \<longrightarrow> gc_timepoint (gs_calls s i) \<le> g_lastMs (gs_atomics s)))
     \<and> (\<forall>i j. i \<noteq> j \<longrightarrow> won_ms (gs_calls s i) \<longrightarrow> won_ms (gs_calls s j) \<longrightarrow>
          gc_timepoint (gs_calls s i) \<noteq> gc_timepoint (gs_calls s j))"

lemma gen_inv_update:
  assumes "gen_inv s"
    and "gc_pc c = CasMs \<Longrightarrow> gc_prevMs c < gc_timepoint c"
    and "gc_restartSeq c \<Longrightarrow> gc_pc c = Returned"
    and "won_ms c \<Longrightarrow> gc_timepoint c \<le> g_lastMs g"
    and "g_lastMs (gs_atomics s) \<le> g_lastMs g"
    and "\<And>j. won_ms c \<Longrightarrow> j \<noteq> k \<Longrightarrow> won_ms (gs_calls s j) \<Longrightarrow>
           gc_timepoint c \<noteq> gc_timepoint (gs_calls s j)"
  shows "gen_inv (s\<lparr>gs_atomics := g, gs_calls := (gs_calls s)(k := c)\<rparr>)"
proof -
  have "gc_timepoint (gs_calls s i) \<le> g_lastMs g" if "won_ms (gs_calls s i)" for i
    using assms(1,5) that by (auto simp: gen_inv_def intro: order_trans)
  then show ?thesis
    using assms unfolding gen_inv_def by (auto simp del: not_less) metis+
qed

lemma gen_inv_step: "gen_inv s \<Longrightarrow> gen_inv (gen_exec e s)"
proof (cases e)
  case Tick
  assume "gen_inv s"
  then show ?thesis using Tick by (simp add: gen_inv_def)
next
  case (Step k rnd)
  assume inv: "gen_inv s"
  let ?c = "gs_calls s k"
  have k: "gc_pc ?c = CasMs \<Longrightarrow> gc_prevMs ?c < gc_timepoint ?c"
      "gc_restartSeq ?c \<Longrightarrow> gc_pc ?c = Returned"
      "won_ms ?c \<Longrightarrow> gc_timepoint ?c \<le> g_lastMs (gs_atomics s)"
    and others: "\<And>j. won_ms ?c \<Longrightarrow> j \<noteq> k \<Longrightarrow> won_ms (gs_calls s j) \<Longrightarrow>
        gc_timepoint ?c \<noteq> gc_timepoint (gs_calls s j)"
      "\<And>j. won_ms (gs_calls s j) \<Longrightarrow> gc_timepoint (gs_calls s j) \<le> g_lastMs (gs_atomics s)"
    using inv unfolding gen_inv_def by metis+
  obtain g c where gc: "gen_call_step (gs_clock s) rnd (gs_atomics s) ?c = (g, c)" by force
  have "gen_inv (s\<lparr>gs_atomics := g, gs_calls := (gs_calls s)(k := c)\<rparr>)"
  proof (rule gen_inv_update [OF inv])
    show "gc_pc c = CasMs \<Longrightarrow> gc_prevMs c < gc_timepoint c"
      using gc k by (auto simp: gen_call_step_def split: gen_pc.splits if_splits)
    show "gc_restartSeq c \<Longrightarrow> gc_pc c = Returned"
      using gc k by (auto simp: gen_call_step_def split: gen_pc.splits if_splits)
    show "won_ms c \<Longrightarrow> gc_timepoint c \<le> g_lastMs g"
      using gc k by (auto simp: gen_call_step_def won_ms_def split: gen_pc.splits if_splits)
    show "g_lastMs (gs_atomics s) \<le> g_lastMs g"
      using gc k by (auto simp: gen_call_step_def intro: less_imp_le split: gen_pc.splits if_splits)
    show "gc_timepoint c \<noteq> gc_timepoint (gs_calls s j)"
      if "won_ms c" "j \<noteq> k" "won_ms (gs_calls s j)" for j
    proof (cases "gc_pc ?c = CasMs")
      case True
      then have "g_lastMs (gs_atomics s) < gc_timepoint c"
        using gc k that(1) by (auto simp: gen_call_step_def won_ms_def split: if_splits)
      then show ?thesis using others(2) [OF that(3)] by auto
    next
      case False
      then have "won_ms ?c \<and> gc_timepoint c = gc_timepoint ?c"
        using gc k that(1) by (auto simp: gen_call_step_def won_ms_def split: gen_pc.splits if_splits)
      then show ?thesis using others(1) that by simp
    qed
  qed
  then show ?thesis using Step gc by simp
qed

lemma gen_reachable_inv: "gen_reachable s \<Longrightarrow> gen_inv s"
proof (induction rule: gen_reachable.induct)
  case start
  show ?case
    by (simp add: gen_inv_def gen_state_init_def gen_call_init_def won_ms_def)
qed (rule gen_inv_step)

text \<open>All steps of one call in a row are the uninterrupted \<open>generate\<close>.\<close>

lemma gen_run_six: "gen_run (replicate 6 e) s = gen_exec e (gen_exec e (gen_exec e (gen_exec e (gen_exec e (gen_exec e s)))))"
  by (simp add: eval_nat_numeral)

lemma gen_call_uninterrupted:
  assumes init: "gs_calls s i = gen_call_init"
  shows "let s' = gen_run (replicate 6 (Step i rnd)) s
    in gc_pc (gs_calls s' i) = Returned
     \<and> (gc_result (gs_calls s' i), gs_atomics s') = oid_generate (gs_clock s) rnd (gs_atomics s)"
proof (cases "g_lastMs (gs_atomics s) < gs_clock s")
  case True
  then show ?thesis
    unfolding gen_run_six Let_def
    by (simp add: init gen_call_step_def gen_call_init_def oid_generate_alt)
next
  case False
  then show ?thesis
    unfolding gen_run_six Let_def
    by (simp add: init gen_call_step_def gen_call_init_def oid_generate_alt)
qed

subsection \<open>Properties\<close>

text \<open>C32: an identifier that is not null, whose timepoint fits 44 bits and whose sequence number fits 24, is parsed
  back from the text it prints, whatever the object parsed into held. A null identifier, one whose timepoint is zero,
  prints the empty text, which does not parse.\<close>

theorem oid_text_roundtrip:
  assumes "fmt_hex_ok F" and "unat (m_timepoint oid) < 2 ^ 44" and "unat (m_seq oid) < 2 ^ 24"
    and "\<not> oid_isNull oid"
  shows "\<exists>s. oid_toString F oid = Some s \<and> length s = OidLength \<and> oid_parse o' s = (True, oid)
    \<and> oid_fromString s = Inr oid"
  using assms oid_toString_text [OF assms(1,2,4)]
  by (simp add: oid_parse_text length_oid_text oid_fromString_def)

theorem oid_text_roundtrip_witness:
  "\<exists>s. oid_toString (\<lambda>w n. pad0 w (numeral_str 16 n)) (ObjectId 1700000000000 7 0xFFFFFFFF) = Some s
    \<and> length s = OidLength \<and> oid_parse oid_new s = (True, ObjectId 1700000000000 7 0xFFFFFFFF)
    \<and> oid_fromString s = Inr (ObjectId 1700000000000 7 0xFFFFFFFF)"
  by (rule oid_text_roundtrip) (simp_all add: fmt_hex_ok_pad oid_isNull_def)

text \<open>The texts of identifiers, compared as strings (as a database key is), are ordered as
  the identifiers themselves by \<open>operator <\<close>.\<close>

theorem oid_text_order_agrees:
  assumes "fmt_hex_ok F" and "\<not> oid_isNull a" and "\<not> oid_isNull b"
    and "unat (m_timepoint a) < 2 ^ 44" and "unat (m_seq a) < 2 ^ 24"
    and "unat (m_timepoint b) < 2 ^ 44" and "unat (m_seq b) < 2 ^ 24"
  shows "str_less (the (oid_toString F a)) (the (oid_toString F b)) \<longleftrightarrow> oid_less a b"
  using assms by (simp add: oid_toString_text oid_text_order)

theorem oid_text_order_agrees_witness:
  "str_less (the (oid_toString (\<lambda>w n. pad0 w (numeral_str 16 n)) (ObjectId 15 9 1)))
     (the (oid_toString (\<lambda>w n. pad0 w (numeral_str 16 n)) (ObjectId 16 1 0)))
   \<longleftrightarrow> oid_less (ObjectId 15 9 1) (ObjectId 16 1 0)"
  by (rule oid_text_order_agrees) (simp_all add: fmt_hex_ok_pad oid_isNull_def)

text \<open>\<open>parse\<close> accepts a text exactly when it has 25 characters of which the first 18 are
  hexadecimal digits: the last seven are never required to be digits, because a partly read random
  number is accepted. A rejected text leaves the object reset.\<close>

theorem oid_parse_accepts:
  "(fst (oid_parse oid s) \<longleftrightarrow>
      length s = 25 \<and> list_all hex_digit (take 18 s))
   \<and> (fst (oid_parse oid s) \<or> snd (oid_parse oid s) = ObjectId 0 0 0)"
  using oid_parse_accepts_25 [of s oid] oid_parse_length [of oid s] oid_parse_fails [of oid s]
  by (cases "fst (oid_parse oid s)") auto

text \<open>C23: as long as the clock does not go back and fewer than \<open>2^32\<close> calls are made, the
  identifiers generated one after the other are strictly increasing, hence distinct, whatever
  random numbers are drawn.\<close>

theorem oid_generates_increasing:
  assumes "clock_ok 0 cs" and "length cs < 2 ^ 32 - 1"
  shows "sorted_wrt (<) (oid_generates cs gen_globals_init)"
  using oid_generates_sorted_aux [of gen_globals_init cs] assms
  by (simp add: gen_globals_init_def)

theorem oid_generates_increasing_witness:
  "sorted_wrt (<) (oid_generates [(5, 3), (5, 2), (6, 1), (6, 1)] gen_globals_init)"
  by (rule oid_generates_increasing) (simp_all add: clock_ok_def)

text \<open>C22: under any interleaving of concurrent calls, no two calls restart the sequence at the
  same millisecond, and a call that restarts it never has a timepoint beyond \<open>lastMs\<close>.\<close>

theorem gen_restart_unique:
  assumes "gen_reachable s" and "i \<noteq> j"
    and "gc_restartSeq (gs_calls s i)" and "gc_restartSeq (gs_calls s j)"
  shows "gc_timepoint (gs_calls s i) \<noteq> gc_timepoint (gs_calls s j)
    \<and> gc_timepoint (gs_calls s i) \<le> g_lastMs (gs_atomics s)"
  using gen_reachable_inv [OF assms(1)] assms(2-4) by (auto simp: gen_inv_def won_ms_def)

text \<open>Call 0 restarts at millisecond 1, call 1 at millisecond 2.\<close>

definition restart_run :: "gen_event list" where
  "restart_run = Tick # replicate 5 (Step 0 1) @ Tick # replicate 5 (Step 1 1)"

theorem gen_restart_unique_witness:
  "gc_timepoint (gs_calls (gen_run restart_run gen_state_init) 0)
     \<noteq> gc_timepoint (gs_calls (gen_run restart_run gen_state_init) 1)
   \<and> gc_timepoint (gs_calls (gen_run restart_run gen_state_init) 0)
       \<le> g_lastMs (gs_atomics (gen_run restart_run gen_state_init))"
proof (rule gen_restart_unique)
  show "gen_reachable (gen_run restart_run gen_state_init)"
    by (intro gen_run_reachable gen_reachable.start)
qed (simp_all add: restart_run_def eval_nat_numeral gen_state_init_def gen_globals_init_def
      gen_call_init_def gen_call_step_def)

text \<open>With concurrent calls the pair of timepoint and sequence number is not unique: a call
  that read its clock in one millisecond and is overtaken by the restart of the next one gets a
  number already given out in the first, so only the random part tells the two apart.\<close>

theorem gen_duplicate_reachable:
  "\<exists>s. gen_reachable s
     \<and> gc_pc (gs_calls s 1) = Returned \<and> gc_pc (gs_calls s 2) = Returned
     \<and> m_timepoint (gc_result (gs_calls s 1)) = m_timepoint (gc_result (gs_calls s 2))
     \<and> m_seq (gc_result (gs_calls s 1)) = m_seq (gc_result (gs_calls s 2))"
proof -
  let ?run = "Tick # replicate 5 (Step 0 9) @ replicate 4 (Step 1 9) @ replicate 3 (Step 2 9)
                @ Tick # replicate 5 (Step 3 9) @ [Step 2 9]"
  have "gen_reachable (gen_run ?run gen_state_init)"
    by (intro gen_run_reachable gen_reachable.start)
  then show ?thesis
    by (intro exI [of _ "gen_run ?run gen_state_init"])
       (simp add: eval_nat_numeral gen_state_init_def gen_globals_init_def
          gen_call_init_def gen_call_step_def)
qed

text \<open>The steps of a call run without interference are the sequential \<open>generate\<close>: same
  identifier, same final value of both atomics.\<close>

theorem gen_call_refines:
  assumes "gs_calls s i = gen_call_init"
  shows "let s' = gen_run (replicate 6 (Step i rnd)) s
         in gc_pc (gs_calls s' i) = Returned
          \<and> (gc_result (gs_calls s' i), gs_atomics s') = oid_generate (gs_clock s) rnd (gs_atomics s)"
  using assms by (rule gen_call_uninterrupted)

theorem gen_call_refines_witness:
  "let s' = gen_run (replicate 6 (Step 0 5)) gen_state_init
   in gc_pc (gs_calls s' 0) = Returned
    \<and> (gc_result (gs_calls s' 0), gs_atomics s')
        = oid_generate (gs_clock gen_state_init) 5 (gs_atomics gen_state_init)"
  by (rule gen_call_refines) (simp add: gen_state_init_def)

end
