(* ===== verification/Lru.thy ===== *)
theory Lru
  imports HatnPrelude
begin

section \<open>The LRU policy: common/lru.h\<close>

text \<open>
  \<open>Lru\<close> keeps an intrusive queue through the items of a storage, least recently used first. The
  storage is a template parameter of the class; here it is a record of operations, the argument
  \<open>S\<close>. An \<open>Item&\<close> is a reference into the storage and is named by its key, an item is linked
  when its key is in the queue. The calls of displace handlers are recorded in \<open>lru_displaced\<close>.
  \<open>None\<close> is undefined behaviour or a failed assertion of the code or of the intrusive list
  (popping an empty queue, linking a linked item).
\<close>

record ('k, 'v) lru_item =
  li_key :: 'k
  li_value :: 'v
  li_onDisplace :: bool

text \<open>The constructor \<open>LruItem(key, args)\<close>: no displace handler is set.\<close>

definition LruItem :: "'k \<Rightarrow> 'v \<Rightarrow> ('k, 'v) lru_item" where
  "LruItem k v = \<lparr>li_key = k, li_value = v, li_onDisplace = False\<rparr>"

definition setDisplaceHandler :: "('k, 'v) lru_item \<Rightarrow> ('k, 'v) lru_item" where
  "setDisplaceHandler i = i\<lparr>li_onDisplace := True\<rparr>"

text \<open>
  What \<open>Lru\<close> calls on its storage. \<open>st_modify\<close> is a write through the pointer \<open>item\<close> returned.
\<close>

record ('s, 'k, 'v) storage_ops =
  st_size :: "'s \<Rightarrow> nat"
  st_empty :: "'s \<Rightarrow> bool"
  st_item :: "'s \<Rightarrow> 'k \<Rightarrow> ('k, 'v) lru_item option"
  st_insert :: "'s \<Rightarrow> ('k, 'v) lru_item \<Rightarrow> 's"
  st_emplace :: "'s \<Rightarrow> 'k \<Rightarrow> ('k, 'v) lru_item \<Rightarrow> 's"
  st_modify :: "'s \<Rightarrow> 'k \<Rightarrow> ('v \<Rightarrow> 'v) \<Rightarrow> 's"
  st_remove :: "'s \<Rightarrow> 'k \<Rightarrow> 's"
  st_clear :: "'s \<Rightarrow> 's"

record ('s, 'k, 'v) lru =
  lru_storage :: 's
  lru_capacity :: nat
  lru_queue :: "'k list"
  lru_displaced :: "('k, 'v) lru_item list"

definition lru_new :: "'s \<Rightarrow> nat \<Rightarrow> ('s, 'k, 'v) lru" where
  "lru_new s capacity = \<lparr>lru_storage = s, lru_capacity = capacity, lru_queue = [], lru_displaced = []\<rparr>"

definition is_linked :: "('s, 'k, 'v) lru \<Rightarrow> 'k \<Rightarrow> bool" where
  "is_linked l k \<longleftrightarrow> k \<in> set (lru_queue l)"

definition lru_isFull :: "('s, 'k, 'v) storage_ops \<Rightarrow> ('s, 'k, 'v) lru \<Rightarrow> bool" where
  "lru_isFull S l \<longleftrightarrow>
     (if lru_capacity l = 0 then False
      else if \<not> st_empty S (lru_storage l) \<and> st_size S (lru_storage l) = lru_capacity l then True
      else False)"

text \<open>\<open>if (displaceHandler()) displaceHandler()(item)\<close>\<close>

definition displace_calls :: "('k, 'v) lru_item \<Rightarrow> ('k, 'v) lru_item list" where
  "displace_calls i = (if li_onDisplace i then [i] else [])"

definition lru_checkFull ::
    "('s, 'k, 'v) storage_ops \<Rightarrow> ('s, 'k, 'v) lru \<Rightarrow> ('s, 'k, 'v) lru option" where
  "lru_checkFull S l =
     (if \<not> lru_isFull S l then Some l
      else case lru_queue l of
        [] \<Rightarrow> None
      | k # q \<Rightarrow>
          (case st_item S (lru_storage l) k of
             None \<Rightarrow> None
           | Some i \<Rightarrow>
               Some (l\<lparr>lru_queue := q, lru_displaced := lru_displaced l @ displace_calls i,
                       lru_storage := st_remove S (lru_storage l) (li_key i)\<rparr>)))"

definition lru_touchItem :: "('s, 'k, 'v) lru \<Rightarrow> 'k \<Rightarrow> ('s, 'k, 'v) lru" where
  "lru_touchItem l k =
     (if is_linked l k then
        if k \<noteq> last (lru_queue l) then l\<lparr>lru_queue := remove1 k (lru_queue l) @ [k]\<rparr> else l
      else l\<lparr>lru_queue := lru_queue l @ [k]\<rparr>)"

text \<open>\<open>pushItem(Item)\<close>: the item is linked without asking whether it is linked already.\<close>

definition lru_pushItem ::
    "('s, 'k, 'v) storage_ops \<Rightarrow> ('s, 'k, 'v) lru \<Rightarrow> ('k, 'v) lru_item \<Rightarrow> ('s, 'k, 'v) lru option" where
  "lru_pushItem S l i =
     (case lru_checkFull S l of
        None \<Rightarrow> None
      | Some l1 \<Rightarrow>
          let l2 = l1\<lparr>lru_storage := st_insert S (lru_storage l1) i\<rparr>
          in if is_linked l2 (li_key i) then None
             else Some (l2\<lparr>lru_queue := lru_queue l2 @ [li_key i]\<rparr>))"

definition lru_emplaceItem ::
    "('s, 'k, 'v) storage_ops \<Rightarrow> ('s, 'k, 'v) lru \<Rightarrow> 'k \<Rightarrow> 'v \<Rightarrow> ('s, 'k, 'v) lru option" where
  "lru_emplaceItem S l k v =
     (case lru_checkFull S l of
        None \<Rightarrow> None
      | Some l1 \<Rightarrow>
          let l2 = l1\<lparr>lru_storage := st_emplace S (lru_storage l1) k (LruItem k v)\<rparr>;
              l3 = (if is_linked l2 k then l2\<lparr>lru_queue := remove1 k (lru_queue l2)\<rparr> else l2)
          in Some (l3\<lparr>lru_queue := lru_queue l3 @ [k]\<rparr>))"

text \<open>\<open>pushItem(key, item)\<close> forwards to \<open>emplaceItem\<close>.\<close>

definition lru_pushKeyItem ::
    "('s, 'k, 'v) storage_ops \<Rightarrow> ('s, 'k, 'v) lru \<Rightarrow> 'k \<Rightarrow> 'v \<Rightarrow> ('s, 'k, 'v) lru option" where
  "lru_pushKeyItem S l k v = lru_emplaceItem S l k v"

text \<open>
  The accessors of the ends: the overload for a mutable cache throws \<open>std::out_of_range\<close> in
  \<open>mruItem\<close>; the others return a null pointer, \<open>Inr None\<close>. The end of an empty queue of a
  non-empty storage would be undefined and is an error here as well.
\<close>

datatype lru_error = OutOfRange | UndefinedEnd

definition lru_mruItem :: "('s, 'k, 'v) storage_ops \<Rightarrow> ('s, 'k, 'v) lru \<Rightarrow> lru_error + 'k option" where
  "lru_mruItem S l =
     (if st_empty S (lru_storage l) then Inl OutOfRange
      else if lru_queue l = [] then Inl UndefinedEnd else Inr (Some (last (lru_queue l))))"

definition lru_mruItem_const :: "('s, 'k, 'v) storage_ops \<Rightarrow> ('s, 'k, 'v) lru \<Rightarrow> lru_error + 'k option" where
  "lru_mruItem_const S l =
     (if st_empty S (lru_storage l) then Inr None
      else if lru_queue l = [] then Inl UndefinedEnd else Inr (Some (last (lru_queue l))))"

definition lru_lruItem :: "('s, 'k, 'v) storage_ops \<Rightarrow> ('s, 'k, 'v) lru \<Rightarrow> lru_error + 'k option" where
  "lru_lruItem S l =
     (if st_empty S (lru_storage l) then Inr None
      else if lru_queue l = [] then Inl UndefinedEnd else Inr (Some (hd (lru_queue l))))"

text \<open>\<open>removeItem(key, item)\<close>, where \<open>i\<close> is the item the reference names.\<close>

definition lru_removeKeyItem ::
    "('s, 'k, 'v) storage_ops \<Rightarrow> ('s, 'k, 'v) lru \<Rightarrow> 'k \<Rightarrow> ('k, 'v) lru_item \<Rightarrow> ('s, 'k, 'v) lru" where
  "lru_removeKeyItem S l k i =
     (let l1 = (if is_linked l (li_key i)
                then l\<lparr>lru_queue := remove1 (li_key i) (lru_queue l),
                       lru_displaced := lru_displaced l @ displace_calls i\<rparr>
                else l)
      in l1\<lparr>lru_storage := st_remove S (lru_storage l1) k\<rparr>)"

definition lru_removeItem ::
    "('s, 'k, 'v) storage_ops \<Rightarrow> ('s, 'k, 'v) lru \<Rightarrow> ('k, 'v) lru_item \<Rightarrow> ('s, 'k, 'v) lru" where
  "lru_removeItem S l i = (let key = li_key i in lru_removeKeyItem S l key i)"

definition lru_removeKey ::
    "('s, 'k, 'v) storage_ops \<Rightarrow> ('s, 'k, 'v) lru \<Rightarrow> 'k \<Rightarrow> ('s, 'k, 'v) lru" where
  "lru_removeKey S l k =
     (case st_item S (lru_storage l) k of
        Some i \<Rightarrow> lru_removeKeyItem S l k i
      | None \<Rightarrow> l)"

definition lru_clear :: "('s, 'k, 'v) storage_ops \<Rightarrow> ('s, 'k, 'v) lru \<Rightarrow> ('s, 'k, 'v) lru" where
  "lru_clear S l = l\<lparr>lru_queue := [], lru_storage := st_clear S (lru_storage l)\<rparr>"

definition lru_setCapacity ::
    "('s, 'k, 'v) storage_ops \<Rightarrow> ('s, 'k, 'v) lru \<Rightarrow> nat \<Rightarrow> ('s, 'k, 'v) lru option" where
  "lru_setCapacity S l capacity =
     (if st_empty S (lru_storage l) \<or> capacity \<ge> st_size S (lru_storage l)
      then Some (l\<lparr>lru_capacity := capacity\<rparr>) else None)"

text \<open>The recency list: what the queue and the storage together mean.\<close>

definition lru_recency :: "('s, 'k, 'v) storage_ops \<Rightarrow> ('s, 'k, 'v) lru \<Rightarrow> ('k \<times> 'v) list" where
  "lru_recency S l =
     List.map (\<lambda>k. (k, li_value (the (st_item S (lru_storage l) k)))) (lru_queue l)"

text \<open>The specification of the operations on it.\<close>

definition spec_evict :: "nat \<Rightarrow> ('k \<times> 'v) list \<Rightarrow> ('k \<times> 'v) list" where
  "spec_evict cap xs = (if cap \<noteq> 0 \<and> length xs = cap then tl xs else xs)"

definition spec_drop :: "'k \<Rightarrow> ('k \<times> 'v) list \<Rightarrow> ('k \<times> 'v) list" where
  "spec_drop k xs = List.filter (\<lambda>p. fst p \<noteq> k) xs"

definition spec_emplace :: "nat \<Rightarrow> ('k \<times> 'v) list \<Rightarrow> 'k \<Rightarrow> 'v \<Rightarrow> ('k \<times> 'v) list" where
  "spec_emplace cap xs k v =
     (let ys = spec_evict cap xs
      in spec_drop k ys @ [(k, case map_of ys k of Some old \<Rightarrow> old | None \<Rightarrow> v)])"

definition spec_touch :: "('k \<times> 'v) list \<Rightarrow> 'k \<Rightarrow> ('k \<times> 'v) list" where
  "spec_touch xs k =
     (case map_of xs k of Some v \<Rightarrow> spec_drop k xs @ [(k, v)] | None \<Rightarrow> xs)"

subsection \<open>The contract of a storage\<close>

lemma distinct_remove1_filter: "distinct q \<Longrightarrow> remove1 k q = List.filter (\<lambda>x. x \<noteq> k) q"
  by (induction q) (auto intro: filter_True [symmetric])

locale storage_contract =
  fixes S :: "('s, 'k, 'v) storage_ops" and sinv :: "'s \<Rightarrow> bool"
  assumes finite_items: "sinv s \<Longrightarrow> finite (dom (st_item S s))"
    and size_items: "sinv s \<Longrightarrow> st_size S s = card (dom (st_item S s))"
    and empty_items: "sinv s \<Longrightarrow> st_empty S s \<longleftrightarrow> dom (st_item S s) = {}"
    and item_key: "sinv s \<Longrightarrow> st_item S s k = Some i \<Longrightarrow> li_key i = k"
    and item_insert: "sinv s \<Longrightarrow> st_item S (st_insert S s i) = (st_item S s)(li_key i \<mapsto> i)"
    and item_emplace: "sinv s \<Longrightarrow> li_key i = k \<Longrightarrow> st_item S (st_emplace S s k i) =
          (if st_item S s k = None then (st_item S s)(k \<mapsto> i) else st_item S s)"
    and item_modify: "sinv s \<Longrightarrow> st_item S (st_modify S s k f) =
          (\<lambda>k'. if k' = k then map_option (\<lambda>i. i\<lparr>li_value := f (li_value i)\<rparr>) (st_item S s k)
                else st_item S s k')"
    and item_remove: "sinv s \<Longrightarrow> st_item S (st_remove S s k) = (st_item S s)(k := None)"
    and item_clear: "sinv s \<Longrightarrow> st_item S (st_clear S s) = Map.empty"
    and inv_insert: "sinv s \<Longrightarrow> sinv (st_insert S s i)"
    and inv_emplace: "sinv s \<Longrightarrow> li_key i = k \<Longrightarrow> sinv (st_emplace S s k i)"
    and inv_modify: "sinv s \<Longrightarrow> sinv (st_modify S s k f)"
    and inv_remove: "sinv s \<Longrightarrow> sinv (st_remove S s k)"
    and inv_clear: "sinv s \<Longrightarrow> sinv (st_clear S s)"
begin

definition lru_inv :: "('s, 'k, 'v) lru \<Rightarrow> bool" where
  "lru_inv l \<longleftrightarrow> sinv (lru_storage l) \<and> distinct (lru_queue l)
     \<and> set (lru_queue l) = dom (st_item S (lru_storage l))
     \<and> (lru_capacity l = 0 \<or> length (lru_queue l) \<le> lru_capacity l)"

lemma inv_size: "lru_inv l \<Longrightarrow> st_size S (lru_storage l) = length (lru_queue l)"
  by (metis distinct_card lru_inv_def size_items)

lemma inv_empty: "lru_inv l \<Longrightarrow> st_empty S (lru_storage l) \<longleftrightarrow> lru_queue l = []"
  by (metis empty_items lru_inv_def set_empty)

lemma isFull_iff:
  "lru_inv l \<Longrightarrow> lru_isFull S l \<longleftrightarrow> lru_capacity l \<noteq> 0 \<and> length (lru_queue l) = lru_capacity l"
  by (auto simp: lru_isFull_def inv_size inv_empty)

lemma inv_new: "sinv s \<Longrightarrow> st_empty S s \<Longrightarrow> lru_inv (lru_new s cap)"
  by (simp add: lru_inv_def lru_new_def empty_items)

lemma inv_item: "lru_inv l \<Longrightarrow> k \<in> set (lru_queue l) \<Longrightarrow>
    \<exists>i. st_item S (lru_storage l) k = Some i \<and> li_key i = k"
  using item_key by (auto simp: lru_inv_def)

lemma recency_keys [simp]: "List.map fst (lru_recency S l) = lru_queue l"
  by (simp add: lru_recency_def comp_def)

lemma recency_map_of:
  assumes "lru_inv l"
  shows "map_of (lru_recency S l) k = map_option li_value (st_item S (lru_storage l) k)"
proof (cases "st_item S (lru_storage l) k")
  case None
  then have "k \<notin> set (lru_queue l)" using assms by (auto simp: lru_inv_def)
  then show ?thesis using None by (simp add: lru_recency_def map_of_map_restrict)
next
  case (Some i)
  then have "k \<in> set (lru_queue l)" using assms by (auto simp: lru_inv_def)
  then show ?thesis using Some by (simp add: lru_recency_def map_of_map_restrict)
qed

text \<open>Room is made by displacing the least recently used item, and only in a full cache.\<close>

lemma checkFull_cases:
  assumes "lru_inv l"
  obtains (room) "lru_checkFull S l = Some l" "lru_capacity l = 0 \<or> length (lru_queue l) < lru_capacity l"
  | (full) k q i where "lru_queue l = k # q" "length (lru_queue l) = lru_capacity l"
      "st_item S (lru_storage l) k = Some i" "li_key i = k"
      "lru_checkFull S l = Some (l\<lparr>lru_queue := q, lru_displaced := lru_displaced l @ displace_calls i,
                                  lru_storage := st_remove S (lru_storage l) k\<rparr>)"
proof (cases "lru_isFull S l")
  case False
  then show ?thesis
    using room assms by (auto simp: isFull_iff lru_checkFull_def lru_inv_def)
next
  case True
  then obtain k q where q: "lru_queue l = k # q"
    using assms by (cases "lru_queue l") (auto simp: isFull_iff)
  then obtain i where i: "st_item S (lru_storage l) k = Some i" "li_key i = k"
    using inv_item [OF assms, of k] by auto
  show ?thesis
    by (rule full [OF q _ i]) (use True assms q i in \<open>simp_all add: isFull_iff lru_checkFull_def\<close>)
qed

lemma recency_remove_front:
  assumes "lru_inv l" and "lru_queue l = k # q"
  shows "lru_recency S (l\<lparr>lru_queue := q, lru_displaced := d, lru_storage := st_remove S (lru_storage l) k\<rparr>)
    = tl (lru_recency S l)"
  using assms by (auto simp: lru_recency_def lru_inv_def item_remove)

lemma checkFull_ok:
  assumes "lru_inv l"
  shows "\<exists>l1. lru_checkFull S l = Some l1 \<and> lru_inv l1 \<and> lru_capacity l1 = lru_capacity l
    \<and> (lru_capacity l = 0 \<or> length (lru_queue l1) < lru_capacity l)
    \<and> lru_recency S l1 = spec_evict (lru_capacity l) (lru_recency S l)
    \<and> lru_queue l1 = (if lru_isFull S l then tl (lru_queue l) else lru_queue l)"
  using assms
proof (cases rule: checkFull_cases)
  case room
  then show ?thesis
    using assms by (auto simp: spec_evict_def lru_recency_def isFull_iff)
next
  case (full k q i)
  have "lru_inv (l\<lparr>lru_queue := q, lru_displaced := lru_displaced l @ displace_calls i,
                   lru_storage := st_remove S (lru_storage l) k\<rparr>)"
    using assms full(1) by (auto simp: lru_inv_def item_remove inv_remove)
  moreover have "length (lru_recency S l) = lru_capacity l" "lru_capacity l \<noteq> 0"
    using full(1,2) by (auto simp: lru_recency_def)
  ultimately show ?thesis
    using full recency_remove_front [OF assms full(1)] isFull_iff [OF assms]
    by (auto simp: spec_evict_def)
qed

lemma recency_drop:
  "distinct (lru_queue l) \<Longrightarrow> spec_drop k (lru_recency S l) =
     List.map (\<lambda>x. (x, li_value (the (st_item S (lru_storage l) x)))) (remove1 k (lru_queue l))"
  by (simp add: spec_drop_def lru_recency_def filter_map comp_def distinct_remove1_filter)

lemma emplaceItem_ok:
  assumes "lru_inv l"
  shows "\<exists>l'. lru_emplaceItem S l k v = Some l' \<and> lru_inv l' \<and> lru_capacity l' = lru_capacity l
    \<and> lru_recency S l' = spec_emplace (lru_capacity l) (lru_recency S l) k v"
proof -
  obtain l1 where l1: "lru_checkFull S l = Some l1" "lru_inv l1" "lru_capacity l1 = lru_capacity l"
      "lru_capacity l = 0 \<or> length (lru_queue l1) < lru_capacity l"
      "lru_recency S l1 = spec_evict (lru_capacity l) (lru_recency S l)"
    using checkFull_ok [OF assms] by blast
  let ?s = "st_emplace S (lru_storage l1) k (LruItem k v)"
  let ?l' = "l1\<lparr>lru_storage := ?s, lru_queue := remove1 k (lru_queue l1) @ [k]\<rparr>"
  have sinv: "sinv (lru_storage l1)" and dist: "distinct (lru_queue l1)"
      and keys: "set (lru_queue l1) = dom (st_item S (lru_storage l1))"
    using l1(2) by (auto simp: lru_inv_def)
  have it: "st_item S ?s = (if st_item S (lru_storage l1) k = None
      then (st_item S (lru_storage l1))(k \<mapsto> LruItem k v) else st_item S (lru_storage l1))"
    by (rule item_emplace [OF sinv]) (simp add: LruItem_def)
  have run: "lru_emplaceItem S l k v = Some ?l'"
    by (simp add: lru_emplaceItem_def l1(1) is_linked_def Let_def remove1_idem)
  have inv: "lru_inv ?l'"
    using l1(2-4) dist keys sinv it
    by (auto simp: lru_inv_def inv_emplace LruItem_def length_remove1 split: if_splits)
  have rest: "List.map (\<lambda>x. (x, li_value (the (st_item S ?s x)))) (remove1 k (lru_queue l1)) =
      spec_drop k (lru_recency S l1)"
    unfolding recency_drop [OF dist] using it dist by auto
  have sp: "spec_emplace (lru_capacity l) (lru_recency S l) k v = spec_drop k (lru_recency S l1)
      @ [(k, case st_item S (lru_storage l1) k of Some i \<Rightarrow> li_value i | None \<Rightarrow> v)]"
    by (cases "st_item S (lru_storage l1) k")
       (simp_all add: spec_emplace_def Let_def recency_map_of [OF l1(2)] flip: l1(5))
  have "lru_recency S ?l' = spec_drop k (lru_recency S l1) @ [(k, li_value (the (st_item S ?s k)))]"
    unfolding rest [symmetric] by (simp add: lru_recency_def)
  also have "\<dots> = spec_emplace (lru_capacity l) (lru_recency S l) k v"
    unfolding sp using it by (auto simp: LruItem_def split: option.splits)
  finally show ?thesis using run inv l1(3) by auto
qed

lemma pushItem_room:
  assumes "lru_inv l"
    and "li_key i \<notin> set (if lru_isFull S l then tl (lru_queue l) else lru_queue l)"
  shows "\<exists>l'. lru_pushItem S l i = Some l' \<and> lru_inv l' \<and> lru_capacity l' = lru_capacity l
    \<and> lru_recency S l' = spec_emplace (lru_capacity l) (lru_recency S l) (li_key i) (li_value i)"
proof -
  let ?k = "li_key i"
  obtain l1 where l1: "lru_checkFull S l = Some l1" "lru_inv l1" "lru_capacity l1 = lru_capacity l"
      "lru_capacity l = 0 \<or> length (lru_queue l1) < lru_capacity l"
      "lru_recency S l1 = spec_evict (lru_capacity l) (lru_recency S l)"
      "lru_queue l1 = (if lru_isFull S l then tl (lru_queue l) else lru_queue l)"
    using checkFull_ok [OF assms(1)] by blast
  then have new: "?k \<notin> set (lru_queue l1)" using assms(2) by simp
  let ?s = "st_insert S (lru_storage l1) i"
  let ?l' = "l1\<lparr>lru_storage := ?s, lru_queue := lru_queue l1 @ [?k]\<rparr>"
  have sinv: "sinv (lru_storage l1)" and dist: "distinct (lru_queue l1)"
      and keys: "set (lru_queue l1) = dom (st_item S (lru_storage l1))"
    using l1(2) by (auto simp: lru_inv_def)
  have run: "lru_pushItem S l i = Some ?l'"
    by (simp add: lru_pushItem_def l1(1) is_linked_def Let_def new)
  have inv: "lru_inv ?l'"
    using l1(2-4) new dist keys sinv item_insert [OF sinv, of i]
    by (auto simp: lru_inv_def inv_insert)
  have none: "st_item S (lru_storage l1) ?k = None" using keys new by auto
  have "spec_drop ?k (lru_recency S l1) = lru_recency S l1"
    unfolding recency_drop [OF dist] using new by (simp add: remove1_idem lru_recency_def)
  moreover have "lru_recency S ?l' = lru_recency S l1 @ [(?k, li_value i)]"
    using item_insert [OF sinv, of i] new by (auto simp: lru_recency_def)
  ultimately have "lru_recency S ?l' = spec_emplace (lru_capacity l) (lru_recency S l) ?k (li_value i)"
    by (simp add: spec_emplace_def Let_def l1(5)[symmetric] recency_map_of [OF l1(2)] none)
  then show ?thesis using run inv l1(3) by auto
qed

text \<open>An item whose key is in the cache and is not displaced by this very call is linked twice.\<close>

lemma pushItem_linked:
  assumes "lru_inv l" and "li_key i \<in> set (lru_queue l)"
    and "li_key i = hd (lru_queue l) \<Longrightarrow> \<not> lru_isFull S l"
  shows "lru_pushItem S l i = None"
  using assms(1)
proof (cases rule: checkFull_cases)
  case room
  then show ?thesis using assms(2) by (simp add: lru_pushItem_def is_linked_def)
next
  case (full k q j)
  moreover have "lru_isFull S l" using full assms(1) by (auto simp: isFull_iff)
  ultimately show ?thesis using assms(2,3) by (auto simp: lru_pushItem_def is_linked_def)
qed

lemma touchItem_ok:
  assumes "lru_inv l" and "k \<in> set (lru_queue l)"
  shows "lru_inv (lru_touchItem l k) \<and> lru_queue (lru_touchItem l k) = remove1 k (lru_queue l) @ [k]
    \<and> lru_recency S (lru_touchItem l k) = spec_touch (lru_recency S l) k
    \<and> lru_storage (lru_touchItem l k) = lru_storage l"
proof -
  have dist: "distinct (lru_queue l)" using assms(1) by (simp add: lru_inv_def)
  have q: "lru_queue (lru_touchItem l k) = remove1 k (lru_queue l) @ [k]"
  proof (cases "k = last (lru_queue l)")
    case True
    obtain q0 x where q0: "lru_queue l = q0 @ [x]"
      using assms(2) by (cases "lru_queue l" rule: rev_cases) auto
    then show ?thesis
      using True assms(2) dist by (auto simp: lru_touchItem_def is_linked_def remove1_append)
  qed (simp add: lru_touchItem_def is_linked_def assms(2))
  have st: "lru_storage (lru_touchItem l k) = lru_storage l" "lru_capacity (lru_touchItem l k) = lru_capacity l"
    by (simp_all add: lru_touchItem_def)
  have inv: "lru_inv (lru_touchItem l k)"
    using assms dist by (auto simp: lru_inv_def q st length_remove1 card_gt_0_iff)
  obtain i where i: "st_item S (lru_storage l) k = Some i" using inv_item [OF assms] by auto
  have "lru_recency S (lru_touchItem l k) = spec_touch (lru_recency S l) k"
    by (simp add: spec_touch_def recency_map_of [OF assms(1)] i recency_drop [OF dist])
       (simp add: lru_recency_def q st i)
  then show ?thesis using inv q st by simp
qed

lemma removeItem_ok:
  assumes "lru_inv l" and "st_item S (lru_storage l) k = Some i"
  shows "lru_inv (lru_removeItem S l i)
    \<and> lru_recency S (lru_removeItem S l i) = spec_drop k (lru_recency S l)
    \<and> lru_queue (lru_removeItem S l i) = remove1 k (lru_queue l)
    \<and> lru_storage (lru_removeItem S l i) = st_remove S (lru_storage l) k
    \<and> lru_displaced (lru_removeItem S l i) = lru_displaced l @ displace_calls i"
proof -
  have dist: "distinct (lru_queue l)" and sinv: "sinv (lru_storage l)" and k: "k \<in> set (lru_queue l)"
    using assms by (auto simp: lru_inv_def)
  have key: "li_key i = k" using item_key [OF sinv assms(2)] .
  have r: "lru_removeItem S l i = l\<lparr>lru_queue := remove1 k (lru_queue l),
      lru_displaced := lru_displaced l @ displace_calls i, lru_storage := st_remove S (lru_storage l) k\<rparr>"
    using k by (simp add: lru_removeItem_def lru_removeKeyItem_def key is_linked_def)
  have "length (remove1 k (lru_queue l)) \<le> length (lru_queue l)" by (simp add: length_remove1)
  then have "lru_inv (lru_removeItem S l i)"
    using assms dist unfolding r by (auto simp: lru_inv_def item_remove inv_remove)
  moreover have "lru_recency S (lru_removeItem S l i) = spec_drop k (lru_recency S l)"
    unfolding recency_drop [OF dist] unfolding r using sinv dist by (auto simp: lru_recency_def item_remove)
  ultimately show ?thesis using r by simp
qed

lemma removeKey_ok:
  assumes "lru_inv l"
  shows "lru_inv (lru_removeKey S l k) \<and> lru_recency S (lru_removeKey S l k) = spec_drop k (lru_recency S l)"
proof (cases "st_item S (lru_storage l) k")
  case None
  then have "k \<notin> set (lru_queue l)" using assms by (auto simp: lru_inv_def)
  then have "spec_drop k (lru_recency S l) = lru_recency S l"
    using recency_drop assms by (simp add: lru_inv_def remove1_idem lru_recency_def)
  then show ?thesis using None assms by (simp add: lru_removeKey_def)
next
  case (Some i)
  then have "li_key i = k" using item_key assms by (auto simp: lru_inv_def)
  then show ?thesis
    using removeItem_ok [OF assms Some] Some by (simp add: lru_removeKey_def lru_removeItem_def Let_def)
qed

lemma clear_ok: "lru_inv l \<Longrightarrow> lru_inv (lru_clear S l) \<and> lru_recency S (lru_clear S l) = []"
  by (simp add: lru_inv_def lru_clear_def lru_recency_def item_clear inv_clear)

lemma setCapacity_ok:
  assumes "lru_inv l" and "lru_setCapacity S l cap = Some l'"
  shows "lru_inv l' \<and> lru_recency S l' = lru_recency S l"
proof -
  have l': "l' = l\<lparr>lru_capacity := cap\<rparr>" "lru_queue l = [] \<or> length (lru_queue l) \<le> cap"
    using assms by (auto simp: lru_setCapacity_def inv_empty inv_size split: if_splits)
  then show ?thesis using assms(1) by (auto simp: lru_inv_def lru_recency_def)
qed

end

end
