(* ===== verification/CacheLru.thy ===== *)
theory CacheLru
  imports Lru
begin

section \<open>The LRU cache over a map: common/cachelru.h\<close>

text \<open>
  \<open>MapStorage\<close> is a \<open>std::map\<close> of items, \<open>CacheLru\<close> the storage and the policy in one object. The
  map is an association list in increasing order of the keys, as the iteration of a \<open>std::map\<close>
  with \<open>std::less\<close> visits it.
\<close>

subsection \<open>std::map\<close>

fun map_find :: "('k::linorder \<times> 'i) list \<Rightarrow> 'k \<Rightarrow> 'i option" where
  "map_find [] k = None"
| "map_find ((k', i) # m) k =
     (if k < k' then None else if k' < k then map_find m k else Some i)"

fun map_insert_or_assign :: "('k::linorder \<times> 'i) list \<Rightarrow> 'k \<Rightarrow> 'i \<Rightarrow> ('k \<times> 'i) list" where
  "map_insert_or_assign [] k i = [(k, i)]"
| "map_insert_or_assign ((k', i') # m) k i =
     (if k < k' then (k, i) # (k', i') # m
      else if k' < k then (k', i') # map_insert_or_assign m k i
      else (k', i) # m)"

fun map_emplace :: "('k::linorder \<times> 'i) list \<Rightarrow> 'k \<Rightarrow> 'i \<Rightarrow> ('k \<times> 'i) list" where
  "map_emplace [] k i = [(k, i)]"
| "map_emplace ((k', i') # m) k i =
     (if k < k' then (k, i) # (k', i') # m
      else if k' < k then (k', i') # map_emplace m k i
      else (k', i') # m)"

fun map_erase :: "('k::linorder \<times> 'i) list \<Rightarrow> 'k \<Rightarrow> ('k \<times> 'i) list" where
  "map_erase [] k = []"
| "map_erase ((k', i') # m) k =
     (if k < k' then (k', i') # m
      else if k' < k then (k', i') # map_erase m k
      else m)"

definition map_ok :: "('k::linorder \<times> 'i) list \<Rightarrow> bool" where
  "map_ok m \<longleftrightarrow> sorted_wrt (<) (List.map fst m)"

lemma map_ok_Nil [simp]: "map_ok []" by (simp add: map_ok_def)

lemma map_ok_Cons [simp]:
  "map_ok (p # m) \<longleftrightarrow> (\<forall>q \<in> set m. fst p < fst q) \<and> map_ok m"
  by (simp add: map_ok_def)

lemma map_find_below: "\<forall>q \<in> set m. k < fst q \<Longrightarrow> map_find m k = None"
  by (cases m) auto

lemma map_find_in: "map_find m k = Some i \<Longrightarrow> (k, i) \<in> set m"
  by (induction m) (auto split: if_splits)

lemma set_map_insert_or_assign:
  "set (map_insert_or_assign m k i) \<subseteq> insert (k, i) (set m)"
  "set (map_emplace m k i) \<subseteq> insert (k, i) (set m)"
  "set (map_erase m k) \<subseteq> set m"
  by (induction m) (auto split: if_splits)

lemma map_find_less: "\<forall>q \<in> set m. k' < fst q \<Longrightarrow> \<not> k' < k \<Longrightarrow> map_find m k = None"
  by (rule map_find_below) (auto intro: le_less_trans)

lemma map_find_insert_or_assign:
  "map_ok m \<Longrightarrow> map_find (map_insert_or_assign m k i) = (map_find m)(k \<mapsto> i)"
  by (induction m) (auto simp: fun_eq_iff)

lemma map_ok_insert_or_assign: "map_ok m \<Longrightarrow> map_ok (map_insert_or_assign m k i)"
proof (induction m)
  case (Cons p m)
  then show ?case
    using set_map_insert_or_assign(1) [of m k i] by (cases p) (fastforce dest: subsetD)
qed simp

lemma map_find_emplace:
  "map_ok m \<Longrightarrow> map_find (map_emplace m k i) =
     (if map_find m k = None then (map_find m)(k \<mapsto> i) else map_find m)"
  by (induction m) (auto simp: fun_eq_iff split: if_splits)

lemma map_ok_emplace: "map_ok m \<Longrightarrow> map_ok (map_emplace m k i)"
proof (induction m)
  case (Cons p m)
  then show ?case
    using set_map_insert_or_assign(2) [of m k i] by (cases p) (fastforce dest: subsetD)
qed simp

lemma map_find_erase: "map_ok m \<Longrightarrow> map_find (map_erase m k) = (map_find m)(k := None)"
proof (induction m)
  case (Cons p m)
  then show ?case
    by (cases p) (auto simp: fun_eq_iff map_find_less split: if_splits)
qed (simp add: fun_eq_iff)

lemma map_ok_erase: "map_ok m \<Longrightarrow> map_ok (map_erase m k)"
proof (induction m)
  case (Cons p m)
  then show ?case using set_map_insert_or_assign(3) [of m k] by (cases p) auto
qed simp

lemma dom_map_find: "map_ok m \<Longrightarrow> dom (map_find m) = fst ` set m"
proof (induction m)
  case (Cons p m)
  obtain k' i' where p: "p = (k', i')" by force
  have eq: "map_find (p # m) = (map_find m)(k' \<mapsto> i')"
    using Cons.prems p by (auto simp: fun_eq_iff map_find_less)
  show ?case unfolding eq using Cons p by (simp only: dom_fun_upd map_ok_Cons) simp
qed (simp add: dom_def)

lemma map_size: "map_ok m \<Longrightarrow> length m = card (dom (map_find m))"
proof -
  assume ok: "map_ok m"
  then have "distinct (List.map fst m)" by (auto simp: map_ok_def strict_sorted_iff)
  then show ?thesis using dom_map_find [OF ok] by (metis distinct_card length_map set_map)
qed

subsection \<open>MapStorage\<close>

type_synonym ('k, 'v) map_storage = "('k \<times> ('k, 'v) lru_item) list"

definition ms_size :: "('k, 'v) map_storage \<Rightarrow> nat" where "ms_size m = length m"

definition ms_empty :: "('k, 'v) map_storage \<Rightarrow> bool" where "ms_empty m \<longleftrightarrow> m = []"

definition ms_hasItem :: "('k::linorder, 'v) map_storage \<Rightarrow> 'k \<Rightarrow> bool" where
  "ms_hasItem m k \<longleftrightarrow> map_find m k \<noteq> None"

definition ms_item :: "('k::linorder, 'v) map_storage \<Rightarrow> 'k \<Rightarrow> ('k, 'v) lru_item option" where
  "ms_item m k = map_find m k"

text \<open>
  The overload of \<open>item\<close> for a constant storage calls, through its own constant pointer, itself.
\<close>

partial_function (option) ms_item_const ::
    "('k::linorder, 'v) map_storage \<Rightarrow> 'k \<Rightarrow> ('k, 'v) lru_item option option" where
  "ms_item_const m k = Option.bind (ms_item_const m k) Some"

text \<open>
  \<open>each\<close>: the handler is told each item in the order of the keys, with its own state threaded
  through, until it answers \<open>false\<close>; the result is the count. Handlers that write to the items
  are left out.
\<close>

fun ms_each_from ::
    "('i \<Rightarrow> 'a \<Rightarrow> bool \<times> 'a) \<Rightarrow> ('k \<times> 'i) list \<Rightarrow> nat \<Rightarrow> 'a \<Rightarrow> nat \<times> 'a" where
  "ms_each_from handler [] count a = (count, a)"
| "ms_each_from handler ((k, i) # m) count a =
     (let (go, a') = handler i a
      in if \<not> go then (count, a') else ms_each_from handler m (Suc count) a')"

definition ms_each ::
    "(('k, 'v) lru_item \<Rightarrow> 'a \<Rightarrow> bool \<times> 'a) \<Rightarrow> ('k, 'v) map_storage \<Rightarrow> 'a \<Rightarrow> nat \<times> 'a" where
  "ms_each handler m a = ms_each_from handler m 0 a"

definition ms_doInsert :: "('k::linorder, 'v) map_storage \<Rightarrow> ('k, 'v) lru_item \<Rightarrow> ('k, 'v) map_storage" where
  "ms_doInsert m i = map_insert_or_assign m (li_key i) i"

definition ms_doEmplace ::
    "('k::linorder, 'v) map_storage \<Rightarrow> 'k \<Rightarrow> ('k, 'v) lru_item \<Rightarrow> ('k, 'v) map_storage" where
  "ms_doEmplace m k i = map_emplace m k i"

definition ms_doRemove :: "('k::linorder, 'v) map_storage \<Rightarrow> 'k \<Rightarrow> ('k, 'v) map_storage" where
  "ms_doRemove m k = map_erase m k"

definition ms_doClear :: "('k, 'v) map_storage \<Rightarrow> ('k, 'v) map_storage" where
  "ms_doClear m = []"

text \<open>A write to the value of a stored item through a pointer to it.\<close>

definition ms_modify ::
    "('k::linorder, 'v) map_storage \<Rightarrow> 'k \<Rightarrow> ('v \<Rightarrow> 'v) \<Rightarrow> ('k, 'v) map_storage" where
  "ms_modify m k f =
     List.map (\<lambda>(k', i). (k', if k' = k then i\<lparr>li_value := f (li_value i)\<rparr> else i)) m"

definition map_storage_ops :: "(('k::linorder, 'v) map_storage, 'k, 'v) storage_ops" where
  "map_storage_ops = \<lparr>st_size = ms_size, st_empty = ms_empty, st_item = ms_item,
     st_insert = ms_doInsert, st_emplace = ms_doEmplace, st_modify = ms_modify,
     st_remove = ms_doRemove, st_clear = ms_doClear\<rparr>"

definition ms_inv :: "('k::linorder, 'v) map_storage \<Rightarrow> bool" where
  "ms_inv m \<longleftrightarrow> map_ok m \<and> (\<forall>(k, i) \<in> set m. li_key i = k)"

lemmas ms_defs = ms_size_def ms_empty_def ms_item_def ms_doInsert_def ms_doEmplace_def
  ms_modify_def ms_doRemove_def ms_doClear_def map_storage_ops_def

lemma map_find_modify: "map_find (ms_modify m k f) k' =
    (if k' = k then map_option (\<lambda>i. i\<lparr>li_value := f (li_value i)\<rparr>) (map_find m k) else map_find m k')"
  by (induction m) (auto simp: ms_modify_def)

lemma ms_inv_modify:
  assumes "ms_inv m"
  shows "ms_inv (ms_modify m k f)"
proof -
  have "List.map fst (ms_modify m k f) = List.map fst m"
    by (induction m) (auto simp: ms_modify_def)
  then have "map_ok (ms_modify m k f)" using assms by (simp add: ms_inv_def map_ok_def)
  then show ?thesis using assms by (auto simp: ms_inv_def ms_modify_def)
qed

lemma ms_inv_insert: "ms_inv m \<Longrightarrow> ms_inv (map_insert_or_assign m (li_key i) i)"
  using set_map_insert_or_assign(1) [of m "li_key i" i]
  by (auto simp: ms_inv_def map_ok_insert_or_assign)

lemma ms_inv_emplace: "ms_inv m \<Longrightarrow> li_key i = k \<Longrightarrow> ms_inv (map_emplace m k i)"
  using set_map_insert_or_assign(2) [of m k i] by (auto simp: ms_inv_def map_ok_emplace)

lemma ms_inv_erase: "ms_inv m \<Longrightarrow> ms_inv (map_erase m k)"
  using set_map_insert_or_assign(3) [of m k] by (auto simp: ms_inv_def map_ok_erase)

text \<open>The storage meets the contract, so all that is proved of \<open>Lru\<close> holds of \<open>CacheLru\<close>.\<close>

interpretation cache: storage_contract "map_storage_ops :: (('k::linorder, 'v) map_storage, 'k, 'v) storage_ops" ms_inv
proof
  fix s :: "('k, 'v) map_storage" and k and i :: "('k, 'v) lru_item" and f :: "'v \<Rightarrow> 'v"
  assume inv: "ms_inv s"
  then have ok: "map_ok s" by (simp add: ms_inv_def)
  show "finite (dom (st_item map_storage_ops s))"
    using dom_map_find [OF ok] by (simp add: ms_defs ms_item_def [abs_def])
  show "st_size map_storage_ops s = card (dom (st_item map_storage_ops s))"
    using map_size [OF ok] by (simp add: ms_defs ms_item_def [abs_def])
  show "st_empty map_storage_ops s \<longleftrightarrow> dom (st_item map_storage_ops s) = {}"
    using dom_map_find [OF ok] by (simp add: ms_defs ms_item_def [abs_def])
  show "st_item map_storage_ops s k = Some i \<Longrightarrow> li_key i = k"
    using inv by (auto simp: ms_defs ms_inv_def dest: map_find_in)
  show "st_item map_storage_ops (st_insert map_storage_ops s i) =
      (st_item map_storage_ops s)(li_key i \<mapsto> i)"
    using map_find_insert_or_assign [OF ok] by (simp add: ms_defs ms_item_def [abs_def])
  show "st_item map_storage_ops (st_modify map_storage_ops s k f) =
      (\<lambda>k'. if k' = k then map_option (\<lambda>i. i\<lparr>li_value := f (li_value i)\<rparr>) (st_item map_storage_ops s k)
            else st_item map_storage_ops s k')"
    using map_find_modify [of s k f] by (simp add: map_storage_ops_def ms_item_def fun_eq_iff)
  show "st_item map_storage_ops (st_remove map_storage_ops s k) = (st_item map_storage_ops s)(k := None)"
    using map_find_erase [OF ok] by (simp add: ms_defs ms_item_def [abs_def])
  show "st_item map_storage_ops (st_clear map_storage_ops s) = Map.empty"
    by (simp add: ms_defs fun_eq_iff)
  show "ms_inv (st_insert map_storage_ops s i)" using inv by (simp add: ms_defs ms_inv_insert)
  show "ms_inv (st_modify map_storage_ops s k f)"
    using inv by (simp add: map_storage_ops_def ms_inv_modify)
  show "ms_inv (st_remove map_storage_ops s k)" using inv by (simp add: ms_defs ms_inv_erase)
  show "ms_inv (st_clear map_storage_ops s)" by (simp add: ms_defs ms_inv_def)
next
  fix s :: "('k, 'v) map_storage" and k and i :: "('k, 'v) lru_item"
  assume inv: "ms_inv s" and k: "li_key i = k"
  then have ok: "map_ok s" by (simp add: ms_inv_def)
  show "st_item map_storage_ops (st_emplace map_storage_ops s k i) =
      (if st_item map_storage_ops s k = None then (st_item map_storage_ops s)(k \<mapsto> i)
       else st_item map_storage_ops s)"
    using map_find_emplace [OF ok] by (simp add: ms_defs ms_item_def [abs_def])
  show "ms_inv (st_emplace map_storage_ops s k i)" using inv k by (simp add: ms_defs ms_inv_emplace)
qed

subsection \<open>The cache against its specification\<close>

text \<open>
  \<open>CacheLru\<close> constructs an empty map and the policy over it. The calls of a client, as data; a
  call that takes an \<open>Item&\<close> names a stored item, and there is no such call for another key.
\<close>

type_synonym ('k, 'v) cache_lru = "(('k, 'v) map_storage, 'k, 'v) lru"

definition cache_new :: "nat \<Rightarrow> ('k::linorder, 'v) cache_lru" where
  "cache_new capacity = lru_new [] capacity"

datatype ('k, 'v) cache_call =
    EmplaceItem 'k 'v
  | PushItem 'k 'v
  | TouchItem 'k
  | RemoveKey 'k
  | RemoveItem 'k
  | ClearAll
  | SetCapacity nat

fun cache_exec :: "('k::linorder, 'v) cache_call \<Rightarrow> ('k, 'v) cache_lru \<Rightarrow> ('k, 'v) cache_lru option" where
  "cache_exec (EmplaceItem k v) l = lru_emplaceItem map_storage_ops l k v"
| "cache_exec (PushItem k v) l = lru_pushItem map_storage_ops l (LruItem k v)"
| "cache_exec (TouchItem k) l =
     (if ms_hasItem (lru_storage l) k then Some (lru_touchItem l k) else None)"
| "cache_exec (RemoveKey k) l = Some (lru_removeKey map_storage_ops l k)"
| "cache_exec (RemoveItem k) l =
     map_option (lru_removeItem map_storage_ops l) (ms_item (lru_storage l) k)"
| "cache_exec ClearAll l = Some (lru_clear map_storage_ops l)"
| "cache_exec (SetCapacity n) l = lru_setCapacity map_storage_ops l n"

fun cache_run :: "('k::linorder, 'v) cache_call list \<Rightarrow> ('k, 'v) cache_lru \<Rightarrow> ('k, 'v) cache_lru option" where
  "cache_run [] l = Some l"
| "cache_run (c # cs) l = Option.bind (cache_exec c l) (cache_run cs)"

text \<open>
  The specification: a capacity and the list of keys with their values, least recently used
  first. \<open>None\<close>: the call is not allowed.
\<close>

fun spec_exec :: "('k, 'v) cache_call \<Rightarrow> nat \<times> ('k \<times> 'v) list \<Rightarrow> (nat \<times> ('k \<times> 'v) list) option" where
  "spec_exec (EmplaceItem k v) (cap, xs) = Some (cap, spec_emplace cap xs k v)"
| "spec_exec (PushItem k v) (cap, xs) =
     (if k \<in> fst ` set (spec_evict cap xs) then None else Some (cap, spec_emplace cap xs k v))"
| "spec_exec (TouchItem k) (cap, xs) =
     (if k \<in> fst ` set xs then Some (cap, spec_touch xs k) else None)"
| "spec_exec (RemoveKey k) (cap, xs) = Some (cap, spec_drop k xs)"
| "spec_exec (RemoveItem k) (cap, xs) =
     (if k \<in> fst ` set xs then Some (cap, spec_drop k xs) else None)"
| "spec_exec ClearAll (cap, xs) = Some (cap, [])"
| "spec_exec (SetCapacity n) (cap, xs) = (if xs = [] \<or> length xs \<le> n then Some (n, xs) else None)"

fun spec_run :: "('k, 'v) cache_call list \<Rightarrow> nat \<times> ('k \<times> 'v) list \<Rightarrow> (nat \<times> ('k \<times> 'v) list) option" where
  "spec_run [] st = Some st"
| "spec_run (c # cs) st = Option.bind (spec_exec c st) (spec_run cs)"

definition cache_abs :: "('k::linorder, 'v) cache_lru \<Rightarrow> nat \<times> ('k \<times> 'v) list" where
  "cache_abs l = (lru_capacity l, lru_recency map_storage_ops l)"

lemma fst_recency: "fst ` set (lru_recency map_storage_ops l) = set (lru_queue l)"
  by (simp flip: set_map)

lemma map_storage_sel:
  "st_item map_storage_ops = map_find" "st_empty map_storage_ops = ms_empty"
  "st_size map_storage_ops = ms_size"
  by (simp_all add: map_storage_ops_def ms_item_def [abs_def])

lemma cache_inv_alt:
  "cache.lru_inv l \<longleftrightarrow> ms_inv (lru_storage l) \<and> distinct (lru_queue l)
     \<and> set (lru_queue l) = fst ` set (lru_storage l)
     \<and> (lru_capacity l = 0 \<or> length (lru_queue l) \<le> lru_capacity l)"
proof -
  have "ms_inv (lru_storage l) \<Longrightarrow> dom (map_find (lru_storage l)) = fst ` set (lru_storage l)"
    by (simp add: ms_inv_def dom_map_find)
  then show ?thesis unfolding cache.lru_inv_def map_storage_sel by (metis (no_types))
qed

lemma cache_item_iff:
  "cache.lru_inv l \<Longrightarrow> (\<exists>i. map_find (lru_storage l) k = Some i) \<longleftrightarrow> k \<in> set (lru_queue l)"
  unfolding cache.lru_inv_def map_storage_sel by auto

lemma capacity_remove:
  "lru_capacity (lru_removeKeyItem S l k i) = lru_capacity l"
  "lru_capacity (lru_removeItem S l i) = lru_capacity l"
  "lru_capacity (lru_removeKey S l k) = lru_capacity l"
  by (auto simp: lru_removeKeyItem_def lru_removeItem_def lru_removeKey_def Let_def split: option.split)

lemma pushItem_spec:
  assumes inv: "cache.lru_inv l"
  shows "map_option cache_abs (cache_exec (PushItem k v) l) = spec_exec (PushItem k v) (cache_abs l)
    \<and> (\<forall>l'. cache_exec (PushItem k v) l = Some l' \<longrightarrow> cache.lru_inv l')"
proof (cases "lru_isFull map_storage_ops l")
  case full: True
  then obtain k0 q where q: "lru_queue l = k0 # q" and cap: "lru_capacity l \<noteq> 0"
      "length (lru_queue l) = lru_capacity l"
    using cache.isFull_iff [OF inv] by (cases "lru_queue l") auto
  have ev: "fst ` set (spec_evict (lru_capacity l) (lru_recency map_storage_ops l)) = set q"
    using q cap by (simp add: spec_evict_def lru_recency_def image_image)
  have dist: "k0 \<notin> set q" using inv q by (simp add: cache.lru_inv_def)
  show ?thesis
  proof (cases "k \<in> set q")
    case True
    then have "lru_pushItem map_storage_ops l (LruItem k v) = None"
      by (intro cache.pushItem_linked [OF inv]) (use q dist in \<open>auto simp: LruItem_def\<close>)
    then show ?thesis using True ev by (simp add: cache_abs_def)
  next
    case False
    have "\<exists>l'. lru_pushItem map_storage_ops l (LruItem k v) = Some l' \<and> cache.lru_inv l' \<and>
        lru_capacity l' = lru_capacity l \<and> lru_recency map_storage_ops l' =
        spec_emplace (lru_capacity l) (lru_recency map_storage_ops l) k v"
      using cache.pushItem_room [OF inv, of "LruItem k v"] False q full by (simp add: LruItem_def)
    then show ?thesis using False ev by (auto simp: cache_abs_def)
  qed
next
  case room: False
  then have ev: "spec_evict (lru_capacity l) (lru_recency map_storage_ops l) = lru_recency map_storage_ops l"
    using cache.isFull_iff [OF inv] by (auto simp: spec_evict_def lru_recency_def)
  show ?thesis
  proof (cases "k \<in> set (lru_queue l)")
    case True
    then have "lru_pushItem map_storage_ops l (LruItem k v) = None"
      by (intro cache.pushItem_linked [OF inv]) (use room in \<open>auto simp: LruItem_def\<close>)
    then show ?thesis using True ev by (simp add: cache_abs_def fst_recency)
  next
    case False
    have "\<exists>l'. lru_pushItem map_storage_ops l (LruItem k v) = Some l' \<and> cache.lru_inv l' \<and>
        lru_capacity l' = lru_capacity l \<and> lru_recency map_storage_ops l' =
        spec_emplace (lru_capacity l) (lru_recency map_storage_ops l) k v"
      using cache.pushItem_room [OF inv, of "LruItem k v"] False room by (simp add: LruItem_def)
    then show ?thesis using False ev by (auto simp: cache_abs_def fst_recency)
  qed
qed

lemma cache_exec_spec:
  assumes inv: "cache.lru_inv l"
  shows "map_option cache_abs (cache_exec c l) = spec_exec c (cache_abs l)
    \<and> (\<forall>l'. cache_exec c l = Some l' \<longrightarrow> cache.lru_inv l')"
proof (cases c)
  case (EmplaceItem k v)
  then show ?thesis
    using cache.emplaceItem_ok [OF inv, of k v] by (auto simp: cache_abs_def)
next
  case (PushItem k v)
  then show ?thesis using pushItem_spec [OF inv] by simp
next
  case (TouchItem k)
  have cap: "lru_capacity (lru_touchItem l k) = lru_capacity l" by (simp add: lru_touchItem_def)
  show ?thesis
    using TouchItem cache_item_iff [OF inv, of k] cache.touchItem_ok [OF inv, of k] cap
    by (auto simp: cache_abs_def fst_recency ms_hasItem_def)
next
  case (RemoveKey k)
  then show ?thesis
    using cache.removeKey_ok [OF inv, of k] by (simp add: cache_abs_def capacity_remove)
next
  case (RemoveItem k)
  show ?thesis
  proof (cases "map_find (lru_storage l) k")
    case None
    then have "k \<notin> set (lru_queue l)" using cache_item_iff [OF inv, of k] by simp
    then show ?thesis using RemoveItem None by (simp add: cache_abs_def fst_recency ms_item_def)
  next
    case (Some i)
    then have "k \<in> set (lru_queue l)" "st_item map_storage_ops (lru_storage l) k = Some i"
      using cache_item_iff [OF inv, of k] by (auto simp: ms_defs)
    then show ?thesis
      using RemoveItem Some cache.removeItem_ok [OF inv, of k i]
      by (simp add: cache_abs_def fst_recency ms_item_def capacity_remove)
  qed
next
  case ClearAll
  then show ?thesis
    using cache.clear_ok [OF inv] by (simp add: cache_abs_def lru_clear_def)
next
  case (SetCapacity n)
  have len: "length (lru_recency map_storage_ops l) = length (lru_queue l)"
    "lru_recency map_storage_ops l = [] \<longleftrightarrow> lru_queue l = []"
    by (simp_all add: lru_recency_def)
  show ?thesis
  proof (cases "lru_setCapacity map_storage_ops l n")
    case None
    then show ?thesis
      using SetCapacity len cache.inv_size [OF inv] cache.inv_empty [OF inv]
      by (auto simp: lru_setCapacity_def cache_abs_def split: if_splits)
  next
    case (Some l')
    then show ?thesis
      using SetCapacity len cache.inv_size [OF inv] cache.inv_empty [OF inv]
        cache.setCapacity_ok [OF inv Some]
      by (auto simp: lru_setCapacity_def cache_abs_def split: if_splits)
  qed
qed

lemma cache_run_spec:
  "cache.lru_inv l \<Longrightarrow> map_option cache_abs (cache_run cs l) = spec_run cs (cache_abs l)
    \<and> (\<forall>l'. cache_run cs l = Some l' \<longrightarrow> cache.lru_inv l')"
proof (induction cs arbitrary: l)
  case (Cons c cs)
  show ?case
  proof (cases "cache_exec c l")
    case None
    then show ?thesis using cache_exec_spec [OF Cons.prems, of c] by (simp flip: None) (metis None bind.bind_lzero option.map_disc_iff option.simps(3) option.simps(8))
  next
    case (Some l1)
    then have "cache.lru_inv l1" "spec_exec c (cache_abs l) = Some (cache_abs l1)"
      using cache_exec_spec [OF Cons.prems, of c] by auto
    then show ?thesis using Cons.IH [of l1] Some by simp
  qed
qed simp

lemma cache_new_ok: "cache.lru_inv (cache_new cap)" "cache_abs (cache_new cap) = (cap, [])"
  unfolding cache_inv_alt by (simp_all add: cache_new_def lru_new_def ms_inv_def cache_abs_def lru_recency_def)

lemma cache_emplace_existing_aux:
  assumes inv: "cache.lru_inv l" and q: "lru_queue l = k0 # q" and k: "k \<in> set q"
    and i: "ms_item (lru_storage l) k = Some i"
  shows "\<exists>l'. lru_emplaceItem map_storage_ops l k v = Some l'
    \<and> map_option li_value (ms_item (lru_storage l') k) = Some (li_value i)
    \<and> last (lru_queue l') = k
    \<and> (if lru_isFull map_storage_ops l
       then ms_item (lru_storage l') k0 = None \<and> Suc (ms_size (lru_storage l')) = ms_size (lru_storage l)
       else ms_size (lru_storage l') = ms_size (lru_storage l))"
proof -
  let ?S = map_storage_ops
  obtain l' where l': "lru_emplaceItem ?S l k v = Some l'" "cache.lru_inv l'"
      "lru_recency ?S l' = spec_emplace (lru_capacity l) (lru_recency ?S l) k v"
    using cache.emplaceItem_ok [OF inv] by blast
  define ys where "ys = spec_evict (lru_capacity l) (lru_recency ?S l)"
  have dist: "distinct (k0 # q)" using inv q by (simp add: cache_inv_alt)
  have ys: "List.map fst ys = (if lru_isFull ?S l then q else k0 # q)"
    using cache.isFull_iff [OF inv] q
    by (auto simp: ys_def spec_evict_def lru_recency_def comp_def)
  have "map_of (lru_recency ?S l) k = Some (li_value i)"
    using i by (simp add: cache.recency_map_of [OF inv] map_storage_sel ms_item_def)
  moreover have "k \<noteq> k0" using dist k by auto
  ultimately have "map_of ys k = Some (li_value i)"
    using q by (auto simp: ys_def spec_evict_def lru_recency_def)
  then have rec: "lru_recency ?S l' = spec_drop k ys @ [(k, li_value i)]"
    by (simp add: l'(3) spec_emplace_def flip: ys_def)
  have "map_of (spec_drop k ys) k = None"
    by (induction ys) (auto simp: spec_drop_def)
  then have "map_of (lru_recency ?S l') k = Some (li_value i)"
    unfolding rec by (simp add: map_add_def)
  then have val: "map_option li_value (ms_item (lru_storage l') k) = Some (li_value i)"
    using cache.recency_map_of [OF l'(2), of k] by (simp add: map_storage_sel ms_item_def)
  have que: "lru_queue l' = remove1 k (List.map fst ys) @ [k]"
  proof -
    have "distinct (List.map fst ys)" using ys dist by auto
    then have "List.map fst (spec_drop k ys) = remove1 k (List.map fst ys)"
      by (simp add: spec_drop_def filter_map comp_def distinct_remove1_filter)
    then show ?thesis using cache.recency_keys [of l'] by (simp add: rec)
  qed
  have len: "ms_size (lru_storage l') = length (lru_queue l')" "ms_size (lru_storage l) = length (lru_queue l)"
    using cache.inv_size [OF l'(2)] cache.inv_size [OF inv] by (simp_all add: map_storage_sel)
  have "k0 \<notin> set (lru_queue l')" if "lru_isFull ?S l"
    using that que ys dist k by (auto dest: notin_set_remove1)
  then have "ms_item (lru_storage l') k0 = None" if "lru_isFull ?S l"
    using that cache_item_iff [OF l'(2), of k0] by (auto simp: ms_item_def)
  moreover have "length (lru_queue l') = length ys"
    using que ys k by (auto simp: length_remove1) (metis Suc_pred length_map length_pos_if_in_set list.size(4))
  ultimately show ?thesis
    using l'(1) val que len ys q by (auto dest: arg_cong [of _ _ length])
qed

subsection \<open>Properties\<close>

text \<open>C13: every sequence of calls on a new cache does to the recency list what the specification
  says, call by call, values, order, evictions, and also which calls are not allowed (pushing an
  item that stays linked, lowering the capacity below the size).\<close>

theorem cache_refines_spec:
  "map_option cache_abs (cache_run cs (cache_new cap)) = spec_run cs (cap, [])"
  using cache_run_spec [OF cache_new_ok(1), of cs cap] by (simp add: cache_new_ok(2))

text \<open>After any sequence of calls the queue links exactly the stored items, each once, and the
  cache never holds more items than its capacity, unless that is zero, which means unlimited.\<close>

theorem cache_bounded:
  assumes "cache_run cs (cache_new cap) = Some l"
  shows "distinct (lru_queue l) \<and> set (lru_queue l) = List.set (List.map fst (lru_storage l))
    \<and> ms_size (lru_storage l) = length (lru_queue l)
    \<and> (lru_capacity l = 0 \<or> ms_size (lru_storage l) \<le> lru_capacity l)"
proof -
  have inv: "cache.lru_inv l" using cache_run_spec [OF cache_new_ok(1), of cs cap] assms by simp
  then show ?thesis
    using cache.inv_size [OF inv] by (auto simp: cache_inv_alt map_storage_sel)
qed

theorem cache_bounded_witness:
  "\<exists>l. cache_run [EmplaceItem (1::nat) (10::nat), EmplaceItem 2 20, EmplaceItem 3 30] (cache_new 2) = Some l
     \<and> distinct (lru_queue l) \<and> set (lru_queue l) = List.set (List.map fst (lru_storage l))
     \<and> ms_size (lru_storage l) = length (lru_queue l)
     \<and> (lru_capacity l = 0 \<or> ms_size (lru_storage l) \<le> lru_capacity l)"
proof -
  have "cache_run [EmplaceItem (1::nat) (10::nat), EmplaceItem 2 20, EmplaceItem 3 30] (cache_new 2) \<noteq> None"
    by code_simp
  then show ?thesis using cache_bounded by fastforce
qed

text \<open>Emplacing or pushing a key the cache already holds keeps the OLD value: the new one is
  discarded and the item only moves to the most recently used end; and when the cache is full the
  least recently used item is displaced first although nothing is added.\<close>

theorem cache_emplace_existing:
  assumes "cache_run cs (cache_new cap) = Some l" and "lru_queue l = k0 # q" and "k \<in> set q"
    and "ms_item (lru_storage l) k = Some i"
  shows "\<exists>l'. lru_pushKeyItem map_storage_ops l k v = Some l'
    \<and> map_option li_value (ms_item (lru_storage l') k) = Some (li_value i)
    \<and> last (lru_queue l') = k
    \<and> (if lru_isFull map_storage_ops l
       then ms_item (lru_storage l') k0 = None \<and> Suc (ms_size (lru_storage l')) = ms_size (lru_storage l)
       else ms_size (lru_storage l') = ms_size (lru_storage l))"
proof -
  have "cache.lru_inv l" using cache_run_spec [OF cache_new_ok(1), of cs cap] assms(1) by simp
  then show ?thesis
    using assms(2-4) unfolding lru_pushKeyItem_def by (rule cache_emplace_existing_aux)
qed

definition full_cache :: "(nat, nat) cache_lru" where
  "full_cache = the (cache_run [EmplaceItem 1 10, EmplaceItem 2 20] (cache_new 2))"

theorem cache_emplace_existing_witness:
  "\<exists>l'. lru_pushKeyItem map_storage_ops full_cache 2 99 = Some l'
    \<and> map_option li_value (ms_item (lru_storage l') 2) = Some (li_value (LruItem (2::nat) (20::nat)))
    \<and> last (lru_queue l') = 2
    \<and> (if lru_isFull map_storage_ops full_cache
       then ms_item (lru_storage l') 1 = None
         \<and> Suc (ms_size (lru_storage l')) = ms_size (lru_storage full_cache)
       else ms_size (lru_storage l') = ms_size (lru_storage full_cache))"
proof (rule cache_emplace_existing)
  show "cache_run [EmplaceItem 1 10, EmplaceItem 2 20] (cache_new 2) = Some full_cache" by code_simp
  show "lru_queue full_cache = 1 # [2]" by code_simp
  show "ms_item (lru_storage full_cache) 2 = Some (LruItem 2 20)" by code_simp
qed simp

text \<open>The overload of \<open>item\<close> for a constant storage never returns, whatever the storage and
  the key.\<close>

theorem ms_item_const_diverges: "ms_item_const m k = None"
proof -
  have "ms_item_const m k = Some r \<Longrightarrow> False" for r
    using ms_item_const.raw_induct [of "\<lambda>_ _ _. False" m k r]
    by (auto simp: bind_eq_Some_conv)
  then show ?thesis by (cases "ms_item_const m k") auto
qed

end
