(* ===== verification/LruTtl.thy ===== *)
theory LruTtl
  imports CacheLru
begin

section \<open>The LRU cache with expiration: common/lruttl.h, elapsedtimer.h\<close>

text \<open>
  Each item carries a timer; an item whose timer has run longer than the time to live is hidden
  from lookups and removed by a periodic task. The clock is the argument \<open>now\<close> in nanoseconds
  (the ticks of \<open>std::chrono::high_resolution_clock\<close>), as is the start \<open>ti_since\<close> of an item's
  timer. A reference to an item is its key, as in \<open>Lru\<close>. The mutex is not modelled: the
  operations are those of one thread.
\<close>

record 'v ttl_item =
  ti_item :: 'v
  ti_since :: int

record ('s, 'k, 'v) lru_ttl =
  lt_lru :: "('s, 'k, 'v ttl_item) lru"
  lt_ttlMs :: int
  lt_timerPeriodMs :: int
  lt_timerPeriodUs :: int

text \<open>\<open>ElapsedTimer::elapsed().totalMilliseconds\<close>\<close>

definition elapsedTotalMs :: "int \<Rightarrow> int \<Rightarrow> int" where
  "elapsedTotalMs now since = u64 ((now - since) sdiv 1000000)"

definition lt_new :: "'s \<Rightarrow> int \<Rightarrow> nat \<Rightarrow> ('s, 'k, 'v) lru_ttl" where
  "lt_new storage ttl capacity =
     \<lparr>lt_lru = lru_new storage capacity, lt_ttlMs = ttl, lt_timerPeriodMs = 1000, lt_timerPeriodUs = 0\<rparr>"

definition lt_isExpired :: "int \<Rightarrow> ('s, 'k, 'v) lru_ttl \<Rightarrow> ('k, 'v ttl_item) lru_item \<Rightarrow> bool" where
  "lt_isExpired now t i \<longleftrightarrow> elapsedTotalMs now (ti_since (li_value i)) > lt_ttlMs t"

text \<open>Dereferencing the pointer of an end of the queue; a key that is not stored would dangle.\<close>

definition lt_end ::
    "('s, 'k, 'v ttl_item) storage_ops \<Rightarrow> int \<Rightarrow> ('s, 'k, 'v) lru_ttl \<Rightarrow> bool
     \<Rightarrow> lru_error + 'k option \<Rightarrow> lru_error + ('k, 'v ttl_item) lru_item option" where
  "lt_end S now t returnExpired r =
     (case r of
        Inl e \<Rightarrow> Inl e
      | Inr None \<Rightarrow> Inr None
      | Inr (Some k) \<Rightarrow>
          (case st_item S (lru_storage (lt_lru t)) k of
             None \<Rightarrow> Inl UndefinedEnd
           | Some i \<Rightarrow> if lt_isExpired now t i \<and> \<not> returnExpired then Inr None else Inr (Some i)))"

definition lt_lruItem ::
    "('s, 'k, 'v ttl_item) storage_ops \<Rightarrow> int \<Rightarrow> ('s, 'k, 'v) lru_ttl \<Rightarrow> bool
     \<Rightarrow> lru_error + ('k, 'v ttl_item) lru_item option" where
  "lt_lruItem S now t returnExpired = lt_end S now t returnExpired (lru_lruItem S (lt_lru t))"

definition lt_mruItem ::
    "('s, 'k, 'v ttl_item) storage_ops \<Rightarrow> int \<Rightarrow> ('s, 'k, 'v) lru_ttl \<Rightarrow> bool
     \<Rightarrow> lru_error + ('k, 'v ttl_item) lru_item option" where
  "lt_mruItem S now t returnExpired = lt_end S now t returnExpired (lru_mruItem S (lt_lru t))"

definition lt_mruItem_const ::
    "('s, 'k, 'v ttl_item) storage_ops \<Rightarrow> int \<Rightarrow> ('s, 'k, 'v) lru_ttl \<Rightarrow> bool
     \<Rightarrow> lru_error + ('k, 'v ttl_item) lru_item option" where
  "lt_mruItem_const S now t returnExpired = lt_end S now t returnExpired (lru_mruItem_const S (lt_lru t))"

definition lt_removeItem ::
    "('s, 'k, 'v ttl_item) storage_ops \<Rightarrow> ('s, 'k, 'v) lru_ttl \<Rightarrow> ('k, 'v ttl_item) lru_item
     \<Rightarrow> ('s, 'k, 'v) lru_ttl" where
  "lt_removeItem S t i = t\<lparr>lt_lru := lru_removeItem S (lt_lru t) i\<rparr>"

definition lt_clear ::
    "('s, 'k, 'v ttl_item) storage_ops \<Rightarrow> ('s, 'k, 'v) lru_ttl \<Rightarrow> ('s, 'k, 'v) lru_ttl" where
  "lt_clear S t = t\<lparr>lt_lru := lru_clear S (lt_lru t)\<rparr>"

definition lt_empty :: "('s, 'k, 'v ttl_item) storage_ops \<Rightarrow> ('s, 'k, 'v) lru_ttl \<Rightarrow> bool" where
  "lt_empty S t \<longleftrightarrow> st_empty S (lru_storage (lt_lru t))"

text \<open>
  \<open>start\<close> stores the period and arms the timer; the product of the 32-bit period and \<open>1000\<close> is
  computed in 32 bits before it becomes the 64-bit argument of \<open>setPeriodUs\<close>.
\<close>

definition lt_start :: "('s, 'k, 'v) lru_ttl \<Rightarrow> int \<Rightarrow> ('s, 'k, 'v) lru_ttl" where
  "lt_start t timerPeriodMs =
     (let t1 = (if timerPeriodMs \<noteq> 0 then t\<lparr>lt_timerPeriodMs := timerPeriodMs\<rparr> else t)
      in t1\<lparr>lt_timerPeriodUs := u32 (lt_timerPeriodMs t1 * 1000)\<rparr>)"

text \<open>The loop of the timer's handler: while the oldest item is expired, remove it.\<close>

partial_function (option) lt_purge_loop ::
    "('s, 'k, 'v ttl_item) storage_ops \<Rightarrow> int \<Rightarrow> ('s, 'k, 'v) lru_ttl \<Rightarrow> ('s, 'k, 'v) lru_ttl option" where
  "lt_purge_loop S now t =
     (if lt_empty S t then Some t
      else case lt_lruItem S now t True of
        Inl e \<Rightarrow> None
      | Inr None \<Rightarrow> Some t
      | Inr (Some i) \<Rightarrow>
          if \<not> lt_isExpired now t i then Some t
          else lt_purge_loop S now (lt_removeItem S t i))"

definition lt_timerHandler ::
    "('s, 'k, 'v ttl_item) storage_ops \<Rightarrow> int \<Rightarrow> bool \<Rightarrow> ('s, 'k, 'v) lru_ttl \<Rightarrow> ('s, 'k, 'v) lru_ttl option" where
  "lt_timerHandler S now timeout t =
     (if \<not> timeout then Some (lt_clear S t) else lt_purge_loop S now t)"

definition lt_setTtl :: "('s, 'k, 'v) lru_ttl \<Rightarrow> int \<Rightarrow> ('s, 'k, 'v) lru_ttl" where
  "lt_setTtl t ttl = t\<lparr>lt_ttlMs := ttl\<rparr>"

definition lt_touchItem ::
    "('s, 'k, 'v ttl_item) storage_ops \<Rightarrow> int \<Rightarrow> ('s, 'k, 'v) lru_ttl \<Rightarrow> 'k \<Rightarrow> ('s, 'k, 'v) lru_ttl" where
  "lt_touchItem S now t k =
     (let l = lru_touchItem (lt_lru t) k
      in t\<lparr>lt_lru := l\<lparr>lru_storage := st_modify S (lru_storage l) k (\<lambda>v. v\<lparr>ti_since := now\<rparr>)\<rparr>\<rparr>)"

definition lt_pushItem ::
    "('s, 'k, 'v ttl_item) storage_ops \<Rightarrow> ('s, 'k, 'v) lru_ttl \<Rightarrow> ('k, 'v ttl_item) lru_item
     \<Rightarrow> ('s, 'k, 'v) lru_ttl option" where
  "lt_pushItem S t i = map_option (\<lambda>l. t\<lparr>lt_lru := l\<rparr>) (lru_pushItem S (lt_lru t) i)"

text \<open>The new item's timer starts when the item is constructed.\<close>

definition lt_emplaceItem ::
    "('s, 'k, 'v ttl_item) storage_ops \<Rightarrow> int \<Rightarrow> ('s, 'k, 'v) lru_ttl \<Rightarrow> 'k \<Rightarrow> 'v
     \<Rightarrow> ('s, 'k, 'v) lru_ttl option" where
  "lt_emplaceItem S now t k v =
     map_option (\<lambda>l. t\<lparr>lt_lru := l\<rparr>)
       (lru_emplaceItem S (lt_lru t) k \<lparr>ti_item = v, ti_since = now\<rparr>)"

definition lt_pushKeyItem ::
    "('s, 'k, 'v ttl_item) storage_ops \<Rightarrow> int \<Rightarrow> ('s, 'k, 'v) lru_ttl \<Rightarrow> 'k \<Rightarrow> 'v
     \<Rightarrow> ('s, 'k, 'v) lru_ttl option" where
  "lt_pushKeyItem S now t k v =
     map_option (\<lambda>l. t\<lparr>lt_lru := l\<rparr>)
       (lru_pushKeyItem S (lt_lru t) k \<lparr>ti_item = v, ti_since = now\<rparr>)"

definition lt_get ::
    "('s, 'k, 'v ttl_item) storage_ops \<Rightarrow> int \<Rightarrow> ('s, 'k, 'v) lru_ttl \<Rightarrow> 'k
     \<Rightarrow> ('k, 'v ttl_item) lru_item option" where
  "lt_get S now t k =
     (case st_item S (lru_storage (lt_lru t)) k of
        None \<Rightarrow> None
      | Some i \<Rightarrow> if lt_isExpired now t i then None else Some i)"

definition lt_hasItem ::
    "('s, 'k, 'v ttl_item) storage_ops \<Rightarrow> int \<Rightarrow> ('s, 'k, 'v) lru_ttl \<Rightarrow> 'k \<Rightarrow> bool" where
  "lt_hasItem S now t k \<longleftrightarrow> lt_get S now t k \<noteq> None"

definition lt_getAndTouch ::
    "('s, 'k, 'v ttl_item) storage_ops \<Rightarrow> int \<Rightarrow> ('s, 'k, 'v) lru_ttl \<Rightarrow> 'k
     \<Rightarrow> 'k option \<times> ('s, 'k, 'v) lru_ttl" where
  "lt_getAndTouch S now t k =
     (case st_item S (lru_storage (lt_lru t)) k of
        None \<Rightarrow> (None, t)
      | Some i \<Rightarrow> if lt_isExpired now t i then (None, t) else (Some k, lt_touchItem S now t k))"

definition lt_touch ::
    "('s, 'k, 'v ttl_item) storage_ops \<Rightarrow> int \<Rightarrow> ('s, 'k, 'v) lru_ttl \<Rightarrow> 'k \<Rightarrow> ('s, 'k, 'v) lru_ttl" where
  "lt_touch S now t k = snd (lt_getAndTouch S now t k)"

definition lt_remove ::
    "('s, 'k, 'v ttl_item) storage_ops \<Rightarrow> int \<Rightarrow> ('s, 'k, 'v) lru_ttl \<Rightarrow> 'k \<Rightarrow> ('s, 'k, 'v) lru_ttl" where
  "lt_remove S now t k =
     (case lt_get S now t k of Some i \<Rightarrow> lt_removeItem S t i | None \<Rightarrow> t)"

definition lt_setCapacity ::
    "('s, 'k, 'v ttl_item) storage_ops \<Rightarrow> ('s, 'k, 'v) lru_ttl \<Rightarrow> nat \<Rightarrow> ('s, 'k, 'v) lru_ttl option" where
  "lt_setCapacity S t capacity =
     map_option (\<lambda>l. t\<lparr>lt_lru := l\<rparr>) (lru_setCapacity S (lt_lru t) capacity)"

text \<open>\<open>each\<close>, over the map storage: expired items are skipped, the wrapper answers \<open>true\<close> for them.\<close>

definition lt_each ::
    "int \<Rightarrow> (('k, 'v ttl_item) lru_item \<Rightarrow> 'a \<Rightarrow> bool \<times> 'a)
     \<Rightarrow> (('k, 'v ttl_item) map_storage, 'k, 'v) lru_ttl \<Rightarrow> 'a \<Rightarrow> nat \<times> 'a" where
  "lt_each now handler t a =
     ms_each (\<lambda>i a. if \<not> lt_isExpired now t i then handler i a else (True, a))
       (lru_storage (lt_lru t)) a"

subsection \<open>Lemmas for any storage\<close>

text \<open>The contract of the storage is the one of \<open>Lru\<close>, for items that carry a timer.\<close>

locale ttl_contract = storage_contract S sinv
  for S :: "('s, 'k, 'v ttl_item) storage_ops" and sinv :: "'s \<Rightarrow> bool"
begin

definition expired_at :: "int \<Rightarrow> ('s, 'k, 'v) lru_ttl \<Rightarrow> 'k \<times> 'v ttl_item \<Rightarrow> bool" where
  "expired_at now t p \<longleftrightarrow> elapsedTotalMs now (ti_since (snd p)) > lt_ttlMs t"

lemma removeItem_front:
  assumes "lru_inv (lt_lru t)" and "lru_queue (lt_lru t) = k # q"
    and "st_item S (lru_storage (lt_lru t)) k = Some i"
  shows "lru_inv (lt_lru (lt_removeItem S t i)) \<and> lru_queue (lt_lru (lt_removeItem S t i)) = q
    \<and> lru_recency S (lt_lru (lt_removeItem S t i)) = tl (lru_recency S (lt_lru t))
    \<and> lt_ttlMs (lt_removeItem S t i) = lt_ttlMs t"
proof -
  have r: "lru_inv (lru_removeItem S (lt_lru t) i)"
      "lru_recency S (lru_removeItem S (lt_lru t) i) = spec_drop k (lru_recency S (lt_lru t))"
      "lru_queue (lru_removeItem S (lt_lru t) i) = q"
    using removeItem_ok [OF assms(1,3)] assms(2) by simp_all
  have "distinct (lru_queue (lt_lru t))" using assms(1) by (simp add: lru_inv_def)
  then have "spec_drop k (lru_recency S (lt_lru t)) = tl (lru_recency S (lt_lru t))"
    using assms(2) by (subst recency_drop) (simp_all add: lru_recency_def)
  then show ?thesis using r by (simp add: lt_removeItem_def)
qed

text \<open>The purge loop returns, and removes the leading expired items, no others.\<close>

lemma purge_loop_ok:
  "lru_inv (lt_lru t) \<Longrightarrow> \<exists>t'. lt_purge_loop S now t = Some t' \<and> lru_inv (lt_lru t') \<and> lt_ttlMs t' = lt_ttlMs t
     \<and> lru_recency S (lt_lru t') = dropWhile (expired_at now t) (lru_recency S (lt_lru t))"
proof (induction "length (lru_queue (lt_lru t))" arbitrary: t)
  case 0
  then have "lt_empty S t" using inv_empty by (simp add: lt_empty_def)
  then show ?case
    using 0 by (subst lt_purge_loop.simps) (simp add: lru_recency_def)
next
  case (Suc n)
  then obtain k q where q: "lru_queue (lt_lru t) = k # q" by (cases "lru_queue (lt_lru t)") auto
  then obtain i where i: "st_item S (lru_storage (lt_lru t)) k = Some i" "li_key i = k"
    using inv_item [OF Suc.prems, of k] by auto
  have ne: "\<not> lt_empty S t" using inv_empty [OF Suc.prems] q by (simp add: lt_empty_def)
  then have item: "lt_lruItem S now t True = Inr (Some i)"
    using q i by (simp add: lt_lruItem_def lt_end_def lru_lruItem_def lt_empty_def)
  have rec: "lru_recency S (lt_lru t) = (k, li_value i) # tl (lru_recency S (lt_lru t))"
    using q i by (simp add: lru_recency_def)
  show ?case
  proof (cases "lt_isExpired now t i")
    case False
    then have "dropWhile (expired_at now t) (lru_recency S (lt_lru t)) = lru_recency S (lt_lru t)"
      by (subst (1 2) rec) (simp add: expired_at_def lt_isExpired_def)
    then show ?thesis
      using Suc.prems ne item False by (subst lt_purge_loop.simps) simp
  next
    case True
    let ?t = "lt_removeItem S t i"
    have front: "lru_inv (lt_lru ?t)" "lru_queue (lt_lru ?t) = q" "lt_ttlMs ?t = lt_ttlMs t"
        "lru_recency S (lt_lru ?t) = tl (lru_recency S (lt_lru t))"
      using removeItem_front [OF Suc.prems q i(1)] by simp_all
    have ex: "expired_at now ?t = expired_at now t"
      using front(3) by (simp add: expired_at_def fun_eq_iff)
    have "n = length (lru_queue (lt_lru ?t))" using Suc.hyps(2) q front(2) by simp
    then obtain t' where t': "lt_purge_loop S now ?t = Some t'" "lru_inv (lt_lru t')"
        "lt_ttlMs t' = lt_ttlMs t"
        "lru_recency S (lt_lru t') = dropWhile (expired_at now t) (tl (lru_recency S (lt_lru t)))"
      using Suc.hyps(1) [OF _ front(1)] front ex by auto
    have "dropWhile (expired_at now t) (lru_recency S (lt_lru t)) =
        dropWhile (expired_at now t) (tl (lru_recency S (lt_lru t)))"
      using True by (subst rec) (simp add: expired_at_def lt_isExpired_def)
    moreover have "lt_purge_loop S now t = Some t'"
      using ne item True t'(1) by (subst lt_purge_loop.simps) simp
    ultimately show ?thesis using t' by auto
  qed
qed

text \<open>The order that makes the purge complete: the longer unused, the earlier the timer started.\<close>

definition timers_ordered :: "('s, 'k, 'v) lru_ttl \<Rightarrow> bool" where
  "timers_ordered t \<longleftrightarrow> sorted_wrt (\<le>) (List.map (\<lambda>p. ti_since (snd p)) (lru_recency S (lt_lru t)))"

definition timers_past :: "int \<Rightarrow> ('s, 'k, 'v) lru_ttl \<Rightarrow> bool" where
  "timers_past now t \<longleftrightarrow>
     (\<forall>p \<in> set (lru_recency S (lt_lru t)). ti_since (snd p) \<le> now \<and> now - ti_since (snd p) < 2 ^ 63)"

lemma elapsed_mono:
  assumes "a \<le> b" and "b \<le> now" and "now - a < 2 ^ 63"
  shows "elapsedTotalMs now b \<le> elapsedTotalMs now a"
proof -
  have e: "elapsedTotalMs now x = (now - x) div 1000000" if "a \<le> x" "x \<le> now" for x
  proof -
    have "0 \<le> d \<Longrightarrow> d div 1000000 \<le> d" for d :: int
      using zdiv_mono2 [of d 1 1000000] by simp
    then have "(now - x) div 1000000 \<le> now - x" using that by simp
    then show ?thesis
      using that assms by (simp add: elapsedTotalMs_def signed_divide_int_def sgn_if zsgn_def)
  qed
  show ?thesis using e [of a] e [of b] assms by (simp add: zdiv_mono1)
qed

lemma dropWhile_sorted_filter:
  "sorted_wrt (\<lambda>x y. P y \<longrightarrow> P x) xs \<Longrightarrow> dropWhile P xs = List.filter (\<lambda>x. \<not> P x) xs"
  by (induction xs) (auto intro!: filter_True [symmetric] filter_id_conv [THEN iffD2, symmetric])

lemma purge_exact:
  assumes "lru_inv (lt_lru t)" and "timers_ordered t" and "timers_past now t"
  shows "\<exists>t'. lt_purge_loop S now t = Some t' \<and> lru_inv (lt_lru t')
    \<and> lru_recency S (lt_lru t') = List.filter (\<lambda>p. \<not> expired_at now t p) (lru_recency S (lt_lru t))"
proof -
  have "sorted_wrt (\<lambda>x y. expired_at now t y \<longrightarrow> expired_at now t x) (lru_recency S (lt_lru t))"
  proof (rule sorted_wrt_mono_rel)
    show "sorted_wrt (\<lambda>x y. ti_since (snd x) \<le> ti_since (snd y)) (lru_recency S (lt_lru t))"
      using assms(2) by (simp add: timers_ordered_def sorted_wrt_map)
    show "expired_at now t y \<longrightarrow> expired_at now t x"
      if "x \<in> set (lru_recency S (lt_lru t))" "y \<in> set (lru_recency S (lt_lru t))"
        "ti_since (snd x) \<le> ti_since (snd y)" for x y
      using elapsed_mono [OF that(3), of now] that assms(3)
      by (force simp: expired_at_def timers_past_def)
  qed
  then show ?thesis using purge_loop_ok [OF assms(1), of now] by (auto simp: dropWhile_sorted_filter)
qed

text \<open>What the operations do to the order of the timers.\<close>

definition timers_inv :: "int \<Rightarrow> ('s, 'k, 'v) lru_ttl \<Rightarrow> bool" where
  "timers_inv now t \<longleftrightarrow> lru_inv (lt_lru t) \<and> timers_ordered t
     \<and> (\<forall>p \<in> set (lru_recency S (lt_lru t)). ti_since (snd p) \<le> now)"

lemma timers_inv_filter:
  assumes "timers_inv now t" and "lru_inv (lt_lru t')"
    and "lru_recency S (lt_lru t') = List.filter P (lru_recency S (lt_lru t))"
  shows "timers_inv now t'"
  using assms by (auto simp: timers_inv_def timers_ordered_def sorted_wrt_map sorted_wrt_filter)

lemma timers_inv_later: "timers_inv now t \<Longrightarrow> now \<le> now' \<Longrightarrow> timers_inv now' t"
  by (force simp: timers_inv_def)

lemma timers_inv_snoc:
  assumes "timers_inv now t" and "lru_inv (lt_lru t')"
    and "set ys \<subseteq> set (lru_recency S (lt_lru t))"
    and "sorted_wrt (\<lambda>x y. ti_since (snd x) \<le> ti_since (snd y)) ys"
    and "lru_recency S (lt_lru t') = ys @ [(k, v)]" and "ti_since v = now"
  shows "timers_inv now t'"
  using assms by (auto simp: timers_inv_def timers_ordered_def sorted_wrt_map sorted_wrt_append)

lemma emplace_timers:
  assumes "timers_inv now t" and "k \<notin> set (lru_queue (lt_lru t))"
    and "lt_emplaceItem S now t k v = Some t'"
  shows "timers_inv now t'"
proof -
  let ?rec = "lru_recency S (lt_lru t)" and ?v = "\<lparr>ti_item = v, ti_since = now\<rparr>"
  have inv: "lru_inv (lt_lru t)" using assms(1) by (simp add: timers_inv_def)
  have t': "lru_inv (lt_lru t')"
      "lru_recency S (lt_lru t') = spec_emplace (lru_capacity (lt_lru t)) ?rec k ?v"
    using emplaceItem_ok [OF inv, of k ?v] assms(3) by (auto simp: lt_emplaceItem_def)
  let ?ys = "spec_evict (lru_capacity (lt_lru t)) ?rec"
  have sub: "set ?ys \<subseteq> set ?rec"
    by (cases ?rec) (auto simp: spec_evict_def)
  moreover have "k \<notin> fst ` set ?rec" using assms(2) by (simp flip: set_map)
  ultimately have "k \<notin> fst ` set ?ys" by auto
  then have "spec_drop k ?ys = ?ys" "map_of ?ys k = None"
    by (auto simp: spec_drop_def map_of_eq_None_iff intro!: filter_True)
  then have rec: "lru_recency S (lt_lru t') = ?ys @ [(k, ?v)]"
    by (simp add: t'(2) spec_emplace_def)
  have "sorted_wrt (\<lambda>x y. ti_since (snd x) \<le> ti_since (snd y)) ?rec"
    using assms(1) by (simp add: timers_inv_def timers_ordered_def sorted_wrt_map)
  then have "sorted_wrt (\<lambda>x y. ti_since (snd x) \<le> ti_since (snd y)) ?ys"
    by (cases ?rec) (auto simp: spec_evict_def)
  then show ?thesis by (rule timers_inv_snoc [OF assms(1) t'(1) sub _ rec]) simp
qed

lemma touch_ok:
  assumes "lru_inv (lt_lru t)" and "st_item S (lru_storage (lt_lru t)) k = Some i"
  shows "lru_inv (lt_lru (lt_touchItem S now t k))
    \<and> lru_recency S (lt_lru (lt_touchItem S now t k)) =
        spec_drop k (lru_recency S (lt_lru t)) @ [(k, (li_value i)\<lparr>ti_since := now\<rparr>)]
    \<and> st_item S (lru_storage (lt_lru (lt_touchItem S now t k))) k =
        Some (i\<lparr>li_value := (li_value i)\<lparr>ti_since := now\<rparr>\<rparr>)"
proof -
  let ?l = "lru_touchItem (lt_lru t) k" and ?f = "\<lambda>v. v\<lparr>ti_since := now\<rparr>"
  have k: "k \<in> set (lru_queue (lt_lru t))" using assms by (auto simp: lru_inv_def)
  have l: "lru_inv ?l" "lru_queue ?l = remove1 k (lru_queue (lt_lru t)) @ [k]"
      "lru_storage ?l = lru_storage (lt_lru t)"
    using touchItem_ok [OF assms(1) k] by simp_all
  have sinv: "sinv (lru_storage (lt_lru t))" and dist: "distinct (lru_queue (lt_lru t))"
    using assms(1) by (simp_all add: lru_inv_def)
  note mod = item_modify [OF sinv, of k ?f]
  have "dom (st_item S (st_modify S (lru_storage (lt_lru t)) k ?f)) = dom (st_item S (lru_storage (lt_lru t)))"
    using mod assms(2) by (auto simp: dom_def split: if_splits)
  then have "lru_inv (lt_lru (lt_touchItem S now t k))"
    using l sinv by (simp add: lru_inv_def lt_touchItem_def inv_modify)
  moreover have "lru_recency S (lt_lru (lt_touchItem S now t k)) =
      spec_drop k (lru_recency S (lt_lru t)) @ [(k, (li_value i)\<lparr>ti_since := now\<rparr>)]"
    unfolding recency_drop [OF dist]
    using mod l assms(2) dist by (auto simp: lt_touchItem_def lru_recency_def)
  ultimately show ?thesis using mod l assms(2) by (simp add: lt_touchItem_def)
qed

lemma touch_timers:
  assumes "timers_inv now t" and "st_item S (lru_storage (lt_lru t)) k = Some i"
  shows "timers_inv now (lt_touchItem S now t k)"
proof -
  let ?rec = "lru_recency S (lt_lru t)"
  have t': "lru_inv (lt_lru (lt_touchItem S now t k))"
      "lru_recency S (lt_lru (lt_touchItem S now t k)) = spec_drop k ?rec @ [(k, (li_value i)\<lparr>ti_since := now\<rparr>)]"
    using touch_ok [OF _ assms(2), of now] assms(1) by (auto simp: timers_inv_def)
  have "sorted_wrt (\<lambda>x y. ti_since (snd x) \<le> ti_since (snd y)) (spec_drop k ?rec)"
    using assms(1) by (simp add: timers_inv_def timers_ordered_def sorted_wrt_map spec_drop_def sorted_wrt_filter)
  then show ?thesis
    by (intro timers_inv_snoc [OF assms(1) t'(1) _ _ t'(2)]) (auto simp: spec_drop_def)
qed

lemma remove_timers:
  assumes "timers_inv now t"
  shows "timers_inv now (lt_remove S now t k)"
proof (cases "lt_get S now t k")
  case (Some i)
  then have i: "st_item S (lru_storage (lt_lru t)) k = Some i"
    by (auto simp: lt_get_def split: option.splits if_splits)
  have "lru_inv (lt_lru (lt_removeItem S t i)) \<and>
      lru_recency S (lt_lru (lt_removeItem S t i)) = spec_drop k (lru_recency S (lt_lru t))"
    using removeItem_ok [OF _ i] assms by (simp add: lt_removeItem_def timers_inv_def)
  then show ?thesis
    using Some timers_inv_filter [OF assms] by (auto simp: lt_remove_def spec_drop_def)
qed (simp add: lt_remove_def assms)

lemma purge_timers:
  assumes "timers_inv now t" and "lt_purge_loop S now t = Some t'"
  shows "timers_inv now t'"
proof -
  have inv: "lru_inv (lt_lru t)" using assms(1) by (simp add: timers_inv_def)
  have t': "lru_inv (lt_lru t')"
      "lru_recency S (lt_lru t') = dropWhile (expired_at now t) (lru_recency S (lt_lru t))"
    using purge_loop_ok [OF inv, of now] assms(2) by auto
  have "sorted_wrt P (dropWhile Q xs)" if "sorted_wrt P xs" for P Q and xs :: "('k \<times> 'v ttl_item) list"
    using that by (induction xs) auto
  then show ?thesis
    using assms(1) t' by (auto simp: timers_inv_def timers_ordered_def sorted_wrt_map dest: set_dropWhileD)
qed

end

interpretation ttl: ttl_contract "map_storage_ops :: (('k::linorder, 'v ttl_item) map_storage, 'k, 'v ttl_item) storage_ops" ms_inv
  by unfold_locales

subsection \<open>The cache over the map storage\<close>

text \<open>
  Timed calls of a client. A key is emplaced only while the cache does not hold it; the last
  property below shows what happens otherwise.
\<close>

type_synonym ('k, 'v) ttl_cache = "(('k, 'v ttl_item) map_storage, 'k, 'v) lru_ttl"

datatype ('k, 'v) ttl_call = TEmplace 'k 'v | TTouch 'k | TRemove 'k | TTimer | TClear

fun ttl_exec :: "int \<Rightarrow> ('k::linorder, 'v) ttl_call \<Rightarrow> ('k, 'v) ttl_cache \<Rightarrow> ('k, 'v) ttl_cache option" where
  "ttl_exec now (TEmplace k v) t =
     (if ms_hasItem (lru_storage (lt_lru t)) k then None else lt_emplaceItem map_storage_ops now t k v)"
| "ttl_exec now (TTouch k) t = Some (lt_touch map_storage_ops now t k)"
| "ttl_exec now (TRemove k) t = Some (lt_remove map_storage_ops now t k)"
| "ttl_exec now TTimer t = lt_timerHandler map_storage_ops now True t"
| "ttl_exec now TClear t = Some (lt_clear map_storage_ops t)"

fun ttl_run :: "int \<Rightarrow> (nat \<times> ('k::linorder, 'v) ttl_call) list \<Rightarrow> ('k, 'v) ttl_cache
    \<Rightarrow> (int \<times> ('k, 'v) ttl_cache) option" where
  "ttl_run now [] t = Some (now, t)"
| "ttl_run now ((dt, c) # cs) t =
     Option.bind (ttl_exec (now + int dt) c t) (ttl_run (now + int dt) cs)"

lemma ttl_inv_cache: "ttl.timers_inv now t \<Longrightarrow> cache.lru_inv (lt_lru t)"
  by (simp add: ttl.timers_inv_def)

lemma ttl_exec_inv:
  assumes "ttl.timers_inv now t" and "ttl_exec now c t = Some t'"
  shows "ttl.timers_inv now t'"
proof (cases c)
  case (TEmplace k v)
  then have "\<not> ms_hasItem (lru_storage (lt_lru t)) k" using assms(2) by (auto split: if_splits)
  then have "k \<notin> set (lru_queue (lt_lru t))"
    using cache_item_iff [OF ttl_inv_cache [OF assms(1)], of k] by (auto simp: ms_hasItem_def)
  then show ?thesis
    using ttl.emplace_timers [OF assms(1)] assms(2) TEmplace by (auto split: if_splits)
next
  case (TTouch k)
  then show ?thesis
    using assms ttl.touch_timers [OF assms(1), of k]
    by (auto simp: lt_touch_def lt_getAndTouch_def split: option.splits if_splits)
next
  case (TRemove k)
  then show ?thesis using assms ttl.remove_timers [OF assms(1), of k] by auto
next
  case TTimer
  then show ?thesis using assms ttl.purge_timers [OF assms(1)] by (auto simp: lt_timerHandler_def)
next
  case TClear
  then show ?thesis
    using assms cache.clear_ok [OF ttl_inv_cache [OF assms(1)]]
    by (auto simp: lt_clear_def ttl.timers_inv_def ttl.timers_ordered_def)
qed

lemma ttl_run_inv:
  "ttl.timers_inv now t \<Longrightarrow> ttl_run now cs t = Some (now', t') \<Longrightarrow> ttl.timers_inv now' t'"
proof (induction cs arbitrary: now t)
  case (Cons p cs)
  obtain dt c where p: "p = (dt, c)" by force
  have "ttl.timers_inv (now + int dt) t" using Cons.prems(1) by (rule ttl.timers_inv_later) simp
  moreover obtain t1 where "ttl_exec (now + int dt) c t = Some t1" "ttl_run (now + int dt) cs t1 = Some (now', t')"
    using Cons.prems(2) p by (auto simp: bind_eq_Some_conv)
  ultimately show ?thesis using ttl_exec_inv Cons.IH by blast
qed simp

lemma ttl_new_inv: "ttl.timers_inv now (lt_new [] ttl cap :: ('k::linorder, 'v) ttl_cache)"
proof -
  have "cache.lru_inv (lt_lru (lt_new [] ttl cap :: ('k, 'v) ttl_cache))"
    using cache_new_ok(1) [of cap] by (simp add: lt_new_def cache_new_def)
  then show ?thesis
    by (simp add: ttl.timers_inv_def ttl.timers_ordered_def lt_new_def lru_new_def lru_recency_def)
qed

subsection \<open>Properties\<close>

text \<open>C35: a new cache is used, at times that do not go back, through any sequence of touches, removals, runs of the
  timer, clearings, and emplacements of keys that it does not hold at that moment. Then one run of the timer's handler
  returns and leaves exactly the items that are not expired, in their order, as long as no item is older than 2^63
  nanoseconds. Emplacing a key that is held is left out: it keeps the old item and its timer, as
  \<open>ttl_push_over_expired_lost\<close> shows.\<close>

theorem ttl_timer_purges_exactly:
  assumes "ttl_run now0 cs (lt_new [] ttlMs cap) = Some (now, t)" and "now \<le> now'"
    and "\<forall>p \<in> set (lru_recency map_storage_ops (lt_lru t)). now' - ti_since (snd p) < 2 ^ 63"
  shows "\<exists>t'. lt_timerHandler map_storage_ops now' True t = Some t'
    \<and> lru_recency map_storage_ops (lt_lru t') =
        List.filter (\<lambda>p. \<not> elapsedTotalMs now' (ti_since (snd p)) > lt_ttlMs t)
          (lru_recency map_storage_ops (lt_lru t))"
proof -
  have inv: "ttl.timers_inv now' t"
    using ttl_run_inv [OF ttl_new_inv assms(1)] assms(2) by (rule ttl.timers_inv_later)
  then have "ttl.timers_past now' t" using assms(3) by (auto simp: ttl.timers_inv_def ttl.timers_past_def)
  then show ?thesis
    using ttl.purge_exact [of t now'] inv
    by (auto simp: ttl.timers_inv_def lt_timerHandler_def ttl.expired_at_def)
qed

text \<open>Two items, one of which expires.\<close>

definition ttl_calls :: "(nat \<times> (nat, nat) ttl_call) list" where
  "ttl_calls = [(0, TEmplace 1 10), (5000000, TEmplace 2 20), (0, TTouch 1)]"

definition ttl_state :: "(nat, nat) ttl_cache" where
  "ttl_state =
     \<lparr>lt_lru = \<lparr>lru_storage = [(1, LruItem 1 \<lparr>ti_item = 10, ti_since = 5000000\<rparr>),
                               (2, LruItem 2 \<lparr>ti_item = 20, ti_since = 5000000\<rparr>)],
               lru_capacity = 4, lru_queue = [2, 1], lru_displaced = []\<rparr>,
      lt_ttlMs = 7, lt_timerPeriodMs = 1000, lt_timerPeriodUs = 0\<rparr>"

lemma elapsed_numeral:
  "elapsedTotalMs now since = u64 (sgn (now - since) * (\<bar>now - since\<bar> div 1000000))"
  by (simp add: elapsedTotalMs_def signed_divide_int_def)

lemmas lru_eval = lru_emplaceItem_def lru_pushKeyItem_def lru_checkFull_def lru_isFull_def
  lru_touchItem_def is_linked_def LruItem_def map_storage_ops_def ms_size_def ms_empty_def
  ms_item_def ms_doEmplace_def ms_modify_def ms_hasItem_def lru_new_def

lemmas ttl_eval = lru_eval lt_new_def lt_emplaceItem_def lt_touch_def lt_getAndTouch_def
  lt_touchItem_def lt_isExpired_def elapsed_numeral u64_def

lemma ttl_state_run: "ttl_run 0 ttl_calls (lt_new [] 7 4) = Some (5000000, ttl_state)"
  by (simp add: ttl_calls_def ttl_state_def ttl_eval)

theorem ttl_timer_purges_exactly_witness:
  "\<exists>t'. lt_timerHandler map_storage_ops 20000000 True ttl_state = Some t'
    \<and> lru_recency map_storage_ops (lt_lru t') =
        List.filter (\<lambda>p. \<not> elapsedTotalMs 20000000 (ti_since (snd p)) > lt_ttlMs ttl_state)
          (lru_recency map_storage_ops (lt_lru ttl_state))"
proof (rule ttl_timer_purges_exactly)
  show "ttl_run 0 ttl_calls (lt_new [] 7 4) = Some (5000000, ttl_state)" by (rule ttl_state_run)
  show "\<forall>p \<in> set (lru_recency map_storage_ops (lt_lru ttl_state)). 20000000 - ti_since (snd p) < 2 ^ 63"
    by (simp add: ttl_state_def lru_recency_def ttl_eval)
qed simp

text \<open>An item found and touched stays visible, with the same value, for the whole time to live
  from then on.\<close>

theorem ttl_touch_extends:
  assumes "ttl_run now0 cs (lt_new [] ttlMs cap) = Some (now, t)"
    and "lt_getAndTouch map_storage_ops now t k = (Some k, t')"
    and "elapsedTotalMs now' now \<le> lt_ttlMs t"
  shows "\<exists>i. lt_get map_storage_ops now' t' k = Some i
    \<and> map_option (ti_item \<circ> li_value) (lt_get map_storage_ops now t k) = Some (ti_item (li_value i))
    \<and> last (lru_queue (lt_lru t')) = k"
proof -
  have inv: "cache.lru_inv (lt_lru t)" using ttl_inv_cache ttl_run_inv [OF ttl_new_inv assms(1)] by blast
  obtain i where i: "st_item map_storage_ops (lru_storage (lt_lru t)) k = Some i"
      "\<not> lt_isExpired now t i" "t' = lt_touchItem map_storage_ops now t k"
    using assms(2) by (auto simp: lt_getAndTouch_def split: option.splits if_splits)
  have "k \<in> set (lru_queue (lt_lru t))" using i(1) inv by (auto simp: cache.lru_inv_def)
  then have "last (lru_queue (lt_lru t')) = k"
    using cache.touchItem_ok [OF inv] by (simp add: i(3) lt_touchItem_def Let_def)
  moreover have "lt_ttlMs t' = lt_ttlMs t" by (simp add: i(3) lt_touchItem_def Let_def)
  ultimately show ?thesis
    using ttl.touch_ok [OF inv i(1), of now] i assms(3) by (simp add: lt_get_def lt_isExpired_def)
qed

text \<open>A value pushed for a key whose expired item has not been purged yet is lost: the old item
  stays, with its old timer, and the key is still not found right after the push.\<close>

theorem ttl_push_over_expired_lost:
  assumes "ttl_run now0 cs (lt_new [] ttlMs cap) = Some (now, t)"
    and "ms_item (lru_storage (lt_lru t)) k = Some i" and "lt_isExpired now t i"
    and "lru_queue (lt_lru t) = k0 # q" and "k \<in> set q"
  shows "\<exists>t'. lt_pushKeyItem map_storage_ops now t k v = Some t' \<and> lt_get map_storage_ops now t' k = None"
proof -
  have inv: "cache.lru_inv (lt_lru t)" using ttl_inv_cache ttl_run_inv [OF ttl_new_inv assms(1)] by blast
  let ?v = "\<lparr>ti_item = v, ti_since = now\<rparr>"
  obtain l' where l': "lru_emplaceItem map_storage_ops (lt_lru t) k ?v = Some l'"
      "map_option li_value (ms_item (lru_storage l') k) = Some (li_value i)"
    using cache_emplace_existing_aux [OF inv assms(4,5,2), of ?v] by blast
  have "lt_pushKeyItem map_storage_ops now t k v = Some (t\<lparr>lt_lru := l'\<rparr>)"
    by (simp add: lt_pushKeyItem_def lru_pushKeyItem_def l'(1))
  moreover have "lt_get map_storage_ops now (t\<lparr>lt_lru := l'\<rparr>) k = None"
    using l'(2) assms(3)
    by (auto simp: lt_get_def map_storage_sel ms_item_def lt_isExpired_def split: option.splits)
  ultimately show ?thesis by blast
qed

theorem ttl_push_over_expired_lost_witness:
  "\<exists>t'. lt_pushKeyItem map_storage_ops 20000000 ttl_state 1 99 = Some t'
    \<and> lt_get map_storage_ops 20000000 t' 1 = None"
proof (rule ttl_push_over_expired_lost)
  show "ttl_run 0 (ttl_calls @ [(15000000, TRemove 3)]) (lt_new [] 7 4) = Some (20000000, ttl_state)"
    by (simp add: ttl_calls_def ttl_state_def ttl_eval lt_remove_def lt_get_def)
  show "ms_item (lru_storage (lt_lru ttl_state)) 1 = Some (LruItem 1 \<lparr>ti_item = 10, ti_since = 5000000\<rparr>)"
    by (simp add: ttl_state_def ttl_eval)
  show "lt_isExpired 20000000 ttl_state (LruItem 1 \<lparr>ti_item = 10, ti_since = 5000000\<rparr>)"
    by (simp add: ttl_state_def ttl_eval)
  show "lru_queue (lt_lru ttl_state) = 2 # [1]" by (simp add: ttl_state_def)
qed simp

text \<open>\<open>setTtl\<close> applies at once to the items already stored, which an item that was visible may
  not survive, although it is documented to concern only items inserted or touched afterwards.\<close>

theorem ttl_set_applies_to_stored:
  "(\<exists>i. ms_item (lru_storage (lt_lru t)) k = Some i
       \<and> elapsedTotalMs now (ti_since (li_value i)) > ttl) \<Longrightarrow>
   lt_get map_storage_ops now (lt_setTtl t ttl) k = None"
  by (auto simp: lt_get_def lt_setTtl_def lt_isExpired_def map_storage_sel ms_item_def)

text \<open>\<open>each\<close> counts the expired items it skips: with a handler that always answers \<open>true\<close> the
  result is the number of stored items, not the number of calls of the handler.\<close>

theorem ttl_each_counts_skipped:
  fixes t :: "('a::linorder, 'b) ttl_cache"
  shows "lt_each now (\<lambda>i a. (True, a @ [li_key i])) t [] =
     (ms_size (lru_storage (lt_lru t)),
      List.map (li_key \<circ> snd) (List.filter (\<lambda>p. \<not> lt_isExpired now t (snd p)) (lru_storage (lt_lru t))))"
proof -
  let ?h = "\<lambda>i a. if \<not> lt_isExpired now t i then (True, a @ [li_key i]) else (True, a)"
  have "ms_each_from ?h m n a =
      (n + length m, a @ List.map (li_key \<circ> snd) (List.filter (\<lambda>p. \<not> lt_isExpired now t (snd p)) m))"
    for m :: "('a \<times> ('a, 'b ttl_item) lru_item) list" and n a
    by (induction m arbitrary: n a) auto
  then show ?thesis by (simp add: lt_each_def ms_each_def ms_size_def)
qed

text \<open>The period of the timer in microseconds is right up to 4294967 milliseconds; one
  millisecond more and the 32-bit product wraps to a period of 704 microseconds.\<close>

theorem ttl_timer_period:
  "lt_timerPeriodUs (lt_start t 4294968) = 704
   \<and> (p \<in> {1..4294967} \<longrightarrow> lt_timerPeriodUs (lt_start t p) = p * 1000)"
  by (auto simp: lt_start_def u32_def)

end
