(* ===== verification/FlatMap.thy ===== *)
theory FlatMap
  imports HatnPrelude "HOL-Library.Multiset"
begin

section \<open>Flat containers: common/flatmap.h\<close>

text \<open>
  \<open>FlatContainer\<close> keeps its items in one sorted \<open>std::vector\<close>; \<open>FlatMap\<close> and \<open>FlatSet\<close> differ in
  what is compared, the first component of a pair or the item itself. A container is the list of
  its items; the comparator \<open>lt\<close> on keys and the function \<open>key\<close> are arguments, as
  \<open>CompareItemT\<close> is. Iterators are indices, as in the source. \<open>std::sort\<close>, whose order of
  equivalent items is unspecified, is an argument with its specification; \<open>std::upper_bound\<close> is
  defined by its specification.
\<close>

subsection \<open>Searching\<close>

text \<open>The loop of \<open>lowerBound\<close>; it stops early at a key equivalent to the one searched.\<close>

function lowerBound_loop ::
    "('k \<Rightarrow> 'k \<Rightarrow> bool) \<Rightarrow> ('i \<Rightarrow> 'k) \<Rightarrow> 'i list \<Rightarrow> 'k \<Rightarrow> nat \<Rightarrow> nat \<Rightarrow> nat" where
  "lowerBound_loop lt key v k first len =
     (if len > 0 then
        let half = len div 2; middle = first + half
        in if lt (key (v ! middle)) k then lowerBound_loop lt key v k (middle + 1) (len - half - 1)
           else if lt k (key (v ! middle)) then lowerBound_loop lt key v k first half
           else middle
      else first)"
  by pat_completeness auto
termination by (relation "measure (\<lambda>(lt, key, v, k, first, len). len)") auto

declare lowerBound_loop.simps [simp del]

definition lowerBound :: "('k \<Rightarrow> 'k \<Rightarrow> bool) \<Rightarrow> ('i \<Rightarrow> 'k) \<Rightarrow> 'i list \<Rightarrow> 'k \<Rightarrow> nat" where
  "lowerBound lt key v k = lowerBound_loop lt key v k 0 (length v)"

definition binary_find :: "('k \<Rightarrow> 'k \<Rightarrow> bool) \<Rightarrow> ('i \<Rightarrow> 'k) \<Rightarrow> 'i list \<Rightarrow> 'k \<Rightarrow> nat" where
  "binary_find lt key v k =
     (let first = lowerBound lt key v k
      in if first \<noteq> length v \<and> \<not> lt k (key (v ! first)) then first else length v)"

definition upperBound :: "('k \<Rightarrow> 'k \<Rightarrow> bool) \<Rightarrow> ('i \<Rightarrow> 'k) \<Rightarrow> 'i list \<Rightarrow> 'k \<Rightarrow> nat" where
  "upperBound lt key v k = length (takeWhile (\<lambda>i. \<not> lt k (key i)) v)"

subsection \<open>Iterators\<close>

text \<open>
  An iterator has the index and the vector it belongs to, of which only the size matters here.
  The arithmetic is that of \<open>size_t\<close>. The operators \<open>+\<close> and \<open>-\<close> are \<open>noexcept\<close>, so what the
  compound operators throw ends the program.
\<close>

datatype flat_error = OutOfRange | Terminates

definition fci_new :: "int \<Rightarrow> int \<Rightarrow> flat_error + int" where
  "fci_new sz idx = (if idx > sz then Inl OutOfRange else Inr idx)"

definition fci_add_assign :: "int \<Rightarrow> int \<Rightarrow> int \<Rightarrow> flat_error + int" where
  "fci_add_assign sz idx diff =
     (let idx' = u64 (idx + diff) in if idx' > sz then Inl OutOfRange else Inr idx')"

definition fci_sub_assign :: "int \<Rightarrow> int \<Rightarrow> int \<Rightarrow> flat_error + int" where
  "fci_sub_assign sz idx diff =
     (if idx < u64 diff then Inl OutOfRange else Inr (u64 (idx - diff)))"

definition fci_inc :: "int \<Rightarrow> int \<Rightarrow> flat_error + int" where
  "fci_inc sz idx = (let idx' = u64 (idx + 1) in if idx' > sz then Inl OutOfRange else Inr idx')"

definition fci_dec :: "int \<Rightarrow> int \<Rightarrow> flat_error + int" where
  "fci_dec sz idx = (if idx = 0 then Inl OutOfRange else Inr (idx - 1))"

definition fci_add :: "int \<Rightarrow> int \<Rightarrow> int \<Rightarrow> flat_error + int" where
  "fci_add sz idx diff =
     (case fci_add_assign sz idx diff of Inl e \<Rightarrow> Inl Terminates | Inr i \<Rightarrow> Inr i)"

definition fci_sub :: "int \<Rightarrow> int \<Rightarrow> int \<Rightarrow> flat_error + int" where
  "fci_sub sz idx diff =
     (case fci_sub_assign sz idx diff of Inl e \<Rightarrow> Inl Terminates | Inr i \<Rightarrow> Inr i)"

definition fci_distance :: "int \<Rightarrow> int \<Rightarrow> int" where
  "fci_distance idx other = s64 (idx - other)"

definition fci_deref :: "'i list \<Rightarrow> nat \<Rightarrow> flat_error + 'i" where
  "fci_deref v idx = (if idx = length v then Inl OutOfRange else Inr (v ! idx))"

subsection \<open>FlatContainer\<close>

definition fc_find :: "('k \<Rightarrow> 'k \<Rightarrow> bool) \<Rightarrow> ('i \<Rightarrow> 'k) \<Rightarrow> 'i list \<Rightarrow> 'k \<Rightarrow> nat" where
  "fc_find lt key v k = binary_find lt key v k"

definition fc_at :: "'i list \<Rightarrow> nat \<Rightarrow> flat_error + 'i" where
  "fc_at v i = (if i < length v then Inr (v ! i) else Inl OutOfRange)"

text \<open>Erasing at the end iterator is undefined.\<close>

definition fc_erase :: "'i list \<Rightarrow> nat \<Rightarrow> ('i list \<times> nat) option" where
  "fc_erase v position =
     (if position < length v then Some (take position v @ drop (Suc position) v, position) else None)"

definition fc_eraseKey ::
    "('k \<Rightarrow> 'k \<Rightarrow> bool) \<Rightarrow> ('i \<Rightarrow> 'k) \<Rightarrow> 'i list \<Rightarrow> 'k \<Rightarrow> ('i list \<times> nat) option" where
  "fc_eraseKey lt key v k =
     (let it = fc_find lt key v k
      in if it \<noteq> length v then fc_erase v it else Some (v, length v))"

definition fc_eraseRange :: "'i list \<Rightarrow> nat \<Rightarrow> nat \<Rightarrow> ('i list \<times> nat) option" where
  "fc_eraseRange v b e =
     (if b \<le> e \<and> e \<le> length v then Some (take b v @ drop e v, b) else None)"

definition fc_insert ::
    "('k \<Rightarrow> 'k \<Rightarrow> bool) \<Rightarrow> ('i \<Rightarrow> 'k) \<Rightarrow> 'i list \<Rightarrow> 'i \<Rightarrow> bool \<Rightarrow> 'i list \<times> nat \<times> bool" where
  "fc_insert lt key v val orAssign =
     (let it = lowerBound lt key v (key val)
      in if it \<noteq> length v \<and> \<not> lt (key val) (key (v ! it)) \<and> \<not> lt (key (v ! it)) (key val)
         then ((if orAssign then v[it := val] else v), it, False)
         else (take it v @ val # drop it v, it, True))"

definition fc_rawInsert :: "'i list \<Rightarrow> 'i \<Rightarrow> 'i list" where
  "fc_rawInsert v val = v @ [val]"

definition fc_rawSet :: "'i list \<Rightarrow> 'i \<Rightarrow> nat \<Rightarrow> 'i list option" where
  "fc_rawSet v val idx = (if idx < length v then Some (v[idx := val]) else None)"

type_synonym 'i sorter = "('i \<Rightarrow> 'i \<Rightarrow> bool) \<Rightarrow> 'i list \<Rightarrow> 'i list"

definition fc_sort :: "'i sorter \<Rightarrow> ('k \<Rightarrow> 'k \<Rightarrow> bool) \<Rightarrow> ('i \<Rightarrow> 'k) \<Rightarrow> 'i list \<Rightarrow> 'i list" where
  "fc_sort srt lt key v = srt (\<lambda>a b. lt (key a) (key b)) v"

definition fc_endRawInsert ::
    "'i sorter \<Rightarrow> ('k \<Rightarrow> 'k \<Rightarrow> bool) \<Rightarrow> ('i \<Rightarrow> 'k) \<Rightarrow> 'i list \<Rightarrow> bool \<Rightarrow> 'i list" where
  "fc_endRawInsert srt lt key v enableSorting = (if enableSorting then fc_sort srt lt key v else v)"

text \<open>\<open>loadRange\<close>: append all of the range, then sort.\<close>

definition fc_loadRange ::
    "'i sorter \<Rightarrow> ('k \<Rightarrow> 'k \<Rightarrow> bool) \<Rightarrow> ('i \<Rightarrow> 'k) \<Rightarrow> 'i list \<Rightarrow> 'i list \<Rightarrow> 'i list" where
  "fc_loadRange srt lt key v items = fc_endRawInsert srt lt key (foldl fc_rawInsert v items) True"

text \<open>The constructors from an initializer list or a vector.\<close>

definition fc_fromList ::
    "'i sorter \<Rightarrow> ('k \<Rightarrow> 'k \<Rightarrow> bool) \<Rightarrow> ('i \<Rightarrow> 'k) \<Rightarrow> 'i list \<Rightarrow> 'i list" where
  "fc_fromList srt lt key vec = fc_sort srt lt key vec"

subsection \<open>FlatMap\<close>

type_synonym ('k, 'v) flat_map = "('k \<times> 'v) list"

definition fm_insert_or_assign ::
    "('k \<Rightarrow> 'k \<Rightarrow> bool) \<Rightarrow> ('k, 'v) flat_map \<Rightarrow> 'k \<Rightarrow> 'v \<Rightarrow> ('k, 'v) flat_map \<times> nat \<times> bool" where
  "fm_insert_or_assign lt v k x = fc_insert lt fst v (k, x) True"

text \<open>\<open>operator[]\<close>: the map and the index of the item; \<open>d\<close> is the value-initialized \<open>ValueT()\<close>.\<close>

definition fm_index ::
    "('k \<Rightarrow> 'k \<Rightarrow> bool) \<Rightarrow> 'v \<Rightarrow> ('k, 'v) flat_map \<Rightarrow> 'k \<Rightarrow> ('k, 'v) flat_map \<times> nat" where
  "fm_index lt d v k =
     (let it = fc_find lt fst v k
      in if it = length v
         then (let (v', it', created) = fc_insert lt fst v (k, d) False in (v', it'))
         else (v, it))"

definition fm_doEmplace ::
    "('k \<Rightarrow> 'k \<Rightarrow> bool) \<Rightarrow> bool \<Rightarrow> ('k, 'v) flat_map \<Rightarrow> 'k \<Rightarrow> 'v \<Rightarrow> ('k, 'v) flat_map \<times> nat \<times> bool" where
  "fm_doEmplace lt assign v k x =
     (let it = lowerBound lt fst v k;
          found = (it \<noteq> length v \<and> \<not> lt k (fst (v ! it)) \<and> \<not> lt (fst (v ! it)) k);
          v1 = (if found \<and> assign then v[it := (k, x)] else v);
          v2 = (if \<not> found then take it v1 @ (k, x) # drop it v1 else v1)
      in (v2, it, \<not> found))"

definition fm_emplace ::
    "('k \<Rightarrow> 'k \<Rightarrow> bool) \<Rightarrow> ('k, 'v) flat_map \<Rightarrow> 'k \<Rightarrow> 'v \<Rightarrow> ('k, 'v) flat_map \<times> nat \<times> bool" where
  "fm_emplace lt v k x = fm_doEmplace lt False v k x"

definition fm_emplace_or_assign ::
    "('k \<Rightarrow> 'k \<Rightarrow> bool) \<Rightarrow> ('k, 'v) flat_map \<Rightarrow> 'k \<Rightarrow> 'v \<Rightarrow> ('k, 'v) flat_map \<times> nat \<times> bool" where
  "fm_emplace_or_assign lt v k x = fm_doEmplace lt True v k x"

definition fm_lower_bound :: "('k \<Rightarrow> 'k \<Rightarrow> bool) \<Rightarrow> ('k, 'v) flat_map \<Rightarrow> 'k \<Rightarrow> nat" where
  "fm_lower_bound lt v k = lowerBound lt fst v k"

definition fm_upper_bound :: "('k \<Rightarrow> 'k \<Rightarrow> bool) \<Rightarrow> ('k, 'v) flat_map \<Rightarrow> 'k \<Rightarrow> nat" where
  "fm_upper_bound lt v k = upperBound lt fst v k"

text \<open>\<open>FlatSet\<close> compares the items themselves.\<close>

definition fs_lower_bound :: "('i \<Rightarrow> 'i \<Rightarrow> bool) \<Rightarrow> 'i list \<Rightarrow> 'i \<Rightarrow> nat" where
  "fs_lower_bound lt v x = lowerBound lt id v x"

definition fs_upper_bound :: "('i \<Rightarrow> 'i \<Rightarrow> bool) \<Rightarrow> 'i list \<Rightarrow> 'i \<Rightarrow> nat" where
  "fs_upper_bound lt v x = upperBound lt id v x"

subsection \<open>The contract of a comparator\<close>

text \<open>\<open>CompareKeyT\<close> must be a strict weak order, as the standard's \<open>Compare\<close> requirement says.\<close>

locale key_order =
  fixes lt :: "'k \<Rightarrow> 'k \<Rightarrow> bool"
  assumes lt_irrefl: "\<not> lt a a"
    and lt_trans: "lt a b \<Longrightarrow> lt b c \<Longrightarrow> lt a c"
    and lt_negtrans: "\<not> lt a b \<Longrightarrow> \<not> lt b c \<Longrightarrow> \<not> lt a c"
begin

definition equiv :: "'k \<Rightarrow> 'k \<Rightarrow> bool" where
  "equiv a b \<longleftrightarrow> \<not> lt a b \<and> \<not> lt b a"

definition fc_ok :: "('i \<Rightarrow> 'k) \<Rightarrow> 'i list \<Rightarrow> bool" where
  "fc_ok key v \<longleftrightarrow> sorted_wrt (\<lambda>a b. lt (key a) (key b)) v"

lemma equiv_refl [simp]: "equiv a a" by (simp add: equiv_def lt_irrefl)

lemma equiv_sym: "equiv a b \<Longrightarrow> equiv b a" by (simp add: equiv_def)

lemma lt_equiv_right: "lt a b \<Longrightarrow> equiv b c \<Longrightarrow> lt a c"
  using lt_negtrans [of a c b] by (auto simp: equiv_def)

lemma lt_equiv_left: "equiv a b \<Longrightarrow> lt b c \<Longrightarrow> lt a c"
  using lt_negtrans [of b a c] by (auto simp: equiv_def)

lemma equiv_trans: "equiv a b \<Longrightarrow> equiv b c \<Longrightarrow> equiv a c"
  using lt_negtrans by (auto simp: equiv_def)

lemma fc_ok_nth: "fc_ok key v \<Longrightarrow> i < j \<Longrightarrow> j < length v \<Longrightarrow> lt (key (v ! i)) (key (v ! j))"
  by (auto simp: fc_ok_def sorted_wrt_iff_nth_less)

lemma lowerBound_loop_ok:
  "fc_ok key v \<Longrightarrow> first + len \<le> length v \<Longrightarrow>
   \<forall>i < first. lt (key (v ! i)) k \<Longrightarrow> \<forall>i. first + len \<le> i \<longrightarrow> i < length v \<longrightarrow> lt k (key (v ! i)) \<Longrightarrow>
   (let r = lowerBound_loop lt key v k first len
    in r \<le> length v \<and> (\<forall>i < r. lt (key (v ! i)) k) \<and>
       (\<forall>i. r \<le> i \<longrightarrow> i < length v \<longrightarrow> \<not> lt (key (v ! i)) k))"
proof (induction len arbitrary: first rule: less_induct)
  case (less len)
  show ?case
  proof (cases "len = 0")
    case True
    have "\<not> lt (key (v ! i)) k" if "first \<le> i" "i < length v" for i
      using less.prems(4) True that lt_trans lt_irrefl by (metis add.right_neutral)
    moreover have "lowerBound_loop lt key v k first len = first"
      using True by (simp add: lowerBound_loop.simps)
    ultimately show ?thesis using less.prems(2,3) by (simp add: Let_def)
  next
    case False
    define half where "half = len div 2"
    define m where "m = first + half"
    have h: "half < len" "len - half - 1 < len" using False by (auto simp: half_def)
    have m: "m < length v" "m < first + len" using h less.prems(2) by (auto simp: m_def)
    note unf = lowerBound_loop.simps [of lt key v k first len]
    show ?thesis
    proof (cases "lt (key (v ! m)) k")
      case True
      have "\<forall>i < m + 1. lt (key (v ! i)) k"
        using True fc_ok_nth [OF less.prems(1) _ m(1)] lt_trans by (metis less_SucE Suc_eq_plus1)
      then show ?thesis
        using less.IH [OF h(2), of "m + 1"] less.prems True False m
        by (simp add: unf Let_def flip: half_def m_def) (simp add: m_def)
    next
      case ge: False
      show ?thesis
      proof (cases "lt k (key (v ! m))")
        case True
        have "lt k (key (v ! i))" if "first + half \<le> i" "i < length v" for i
          using that True fc_ok_nth [OF less.prems(1), of m i] lt_trans
          by (cases "i = m") (auto simp: m_def)
        then show ?thesis
          using less.IH [OF h(1), of first] less.prems True False ge m h
          by (simp add: unf Let_def flip: half_def m_def)
      next
        case le: False
        then have e: "equiv (key (v ! m)) k" using ge by (simp add: equiv_def)
        have "lt (key (v ! i)) k" if "i < m" for i
          using lt_equiv_right [OF fc_ok_nth [OF less.prems(1) that m(1)] e] .
        moreover have "\<not> lt (key (v ! i)) k" if "m \<le> i" "i < length v" for i
        proof (cases "i = m")
          case False
          then have "lt k (key (v ! i))"
            using lt_equiv_left [OF equiv_sym [OF e] fc_ok_nth [OF less.prems(1), of m i]] that by simp
          then show ?thesis using lt_trans lt_irrefl by blast
        qed (use ge in simp)
        ultimately show ?thesis
          using False ge le m by (simp add: unf Let_def flip: half_def m_def)
      qed
    qed
  qed
qed

lemma lowerBound_ok:
  assumes "fc_ok key v"
  shows "lowerBound lt key v k \<le> length v"
    and "i < lowerBound lt key v k \<Longrightarrow> lt (key (v ! i)) k"
    and "lowerBound lt key v k \<le> i \<Longrightarrow> i < length v \<Longrightarrow> \<not> lt (key (v ! i)) k"
  using lowerBound_loop_ok [OF assms, of 0 "length v" k] by (simp_all add: lowerBound_def Let_def)

text \<open>The position found is the unique one that splits the container at the key.\<close>

lemma split_at_lowerBound:
  assumes "fc_ok key v"
  obtains l r where "v = l @ r" "lowerBound lt key v k = length l"
    "\<forall>x \<in> set l. lt (key x) k" "\<forall>x \<in> set r. \<not> lt (key x) k"
proof
  let ?n = "lowerBound lt key v k"
  show "v = take ?n v @ drop ?n v" by simp
  show "?n = length (take ?n v)" using lowerBound_ok(1) [OF assms, of k] by simp
  show "\<forall>x \<in> set (take ?n v). lt (key x) k"
    using lowerBound_ok(2) [OF assms, of _ k] by (auto simp: in_set_conv_nth)
  show "\<forall>x \<in> set (drop ?n v). \<not> lt (key x) k"
    using lowerBound_ok(3) [OF assms, of k] by (auto simp: in_set_conv_nth)
qed

lemma fc_ok_append:
  "fc_ok key (xs @ ys) \<longleftrightarrow> fc_ok key xs \<and> fc_ok key ys \<and> (\<forall>x \<in> set xs. \<forall>y \<in> set ys. lt (key x) (key y))"
  by (simp add: fc_ok_def sorted_wrt_append)

lemma fc_ok_Cons:
  "fc_ok key (x # ys) \<longleftrightarrow> fc_ok key ys \<and> (\<forall>y \<in> set ys. lt (key x) (key y))"
  by (auto simp: fc_ok_def)

lemma fc_ok_Nil [simp]: "fc_ok key []" by (simp add: fc_ok_def)

text \<open>The two cases of every operation: the key is there, or its place is known.\<close>

lemma lowerBound_cases:
  assumes ok: "fc_ok key v"
  obtains (found) l x r where "v = l @ x # r" "lowerBound lt key v k = length l" "equiv (key x) k"
      "\<forall>y \<in> set l. lt (key y) k" "\<forall>y \<in> set r. lt k (key y)"
  | (absent) l r where "v = l @ r" "lowerBound lt key v k = length l"
      "\<forall>y \<in> set l. lt (key y) k" "\<forall>y \<in> set r. lt k (key y)"
proof -
  obtain l r where lr: "v = l @ r" "lowerBound lt key v k = length l"
      "\<forall>x \<in> set l. lt (key x) k" "\<forall>x \<in> set r. \<not> lt (key x) k"
    using split_at_lowerBound [OF ok] by blast
  show thesis
  proof (cases r)
    case Nil
    then show thesis using absent [of l "[]"] lr by simp
  next
    case (Cons x r')
    then have tail: "\<forall>y \<in> set r'. lt (key x) (key y)" using ok lr(1) by (simp add: fc_ok_append fc_ok_Cons)
    show thesis
    proof (cases "lt k (key x)")
      case True
      then have "\<forall>y \<in> set r. lt k (key y)" using Cons tail lt_trans by auto
      then show thesis using absent lr by blast
    next
      case False
      then have "equiv (key x) k" using lr(4) Cons by (simp add: equiv_def)
      moreover from this have "\<forall>y \<in> set r'. lt k (key y)"
        using tail lt_equiv_left equiv_sym by blast
      ultimately show thesis using found lr Cons by blast
    qed
  qed
qed

lemma find_ok:
  assumes "fc_ok key v"
  shows "fc_find lt key v k = length v \<longleftrightarrow> (\<forall>x \<in> set v. \<not> equiv (key x) k)"
    and "fc_find lt key v k \<noteq> length v \<Longrightarrow>
      fc_find lt key v k < length v \<and> equiv (key (v ! fc_find lt key v k)) k"
  using assms
  by (cases rule: lowerBound_cases [of key v k];
      force simp: fc_find_def binary_find_def Let_def equiv_def nth_append lt_irrefl dest: lt_trans)+

end

interpretation std_less: key_order "(<) :: 'k::linorder \<Rightarrow> 'k \<Rightarrow> bool"
  by unfold_locales auto

subsection \<open>A flat map with std::less is a finite map\<close>

abbreviation fm_ok :: "('k::linorder, 'v) flat_map \<Rightarrow> bool" where
  "fm_ok v \<equiv> std_less.fc_ok fst v"

lemma std_equiv [simp]: "std_less.equiv a b \<longleftrightarrow> a = (b :: 'k::linorder)"
  by (auto simp: std_less.equiv_def)

lemmas fm_splits = std_less.fc_ok_append std_less.fc_ok_Cons

lemma map_of_none:
  "\<forall>y \<in> set l. fst y < k \<Longrightarrow> map_of l (k :: 'k::linorder) = None"
  "\<forall>y \<in> set r. k < fst y \<Longrightarrow> map_of r (k :: 'k::linorder) = None"
  by (auto simp: map_of_eq_None_iff)

text \<open>Where a key stands in a sorted map, in the form the operations need.\<close>

lemma fm_cases:
  assumes "fm_ok v"
  obtains (found) l x r where "v = l @ (k, x) # r" "lowerBound (<) fst v k = length l" "map_of v k = Some x"
      "\<forall>y \<in> set l. fst y < k" "\<forall>y \<in> set r. k < fst y"
  | (absent) l r where "v = l @ r" "lowerBound (<) fst v k = length l" "map_of v k = None"
      "\<forall>y \<in> set l. fst y < k" "\<forall>y \<in> set r. k < fst y"
  using assms
proof (cases rule: std_less.lowerBound_cases [of fst v k])
  case (found l p r)
  obtain x where "p = (k, x)" using found(3) by (cases p) simp
  moreover have "map_of l k = None" using found(4) by (rule map_of_none)
  ultimately show thesis using found that(1) [of l x r] by (simp add: map_add_def)
next
  case (absent l r)
  then have "map_of v k = None" by (simp add: map_add_def map_of_none)
  then show thesis using absent that(2) [of l r] by simp
qed

lemma fm_insert_spec:
  assumes "fm_ok v"
  shows "let (v', it, created) = fc_insert (<) fst v (k, x) orAssign
    in fm_ok v' \<and> created = (map_of v k = None) \<and> it < length v' \<and> fst (v' ! it) = k
     \<and> map_of v' = (if map_of v k = None \<or> orAssign then (map_of v)(k \<mapsto> x) else map_of v)"
  using assms
proof (cases rule: fm_cases [of v k])
  case (found l y r)
  then show ?thesis
    using assms
    by (auto simp: fc_insert_def Let_def list_update_append fm_splits fun_eq_iff map_add_def map_of_none
        split: option.splits)
next
  case (absent l r)
  have "\<not> (length l \<noteq> length v \<and> \<not> k < fst (v ! length l) \<and> \<not> fst (v ! length l) < k)"
    using absent by (cases r) auto
  then have "fc_insert (<) fst v (k, x) orAssign = (l @ (k, x) # r, length l, True)"
    using absent by (simp add: fc_insert_def Let_def)
  then show ?thesis
    using assms absent
    by (auto simp: fm_splits fun_eq_iff map_add_def map_of_none intro: less_trans split: option.splits)
qed

lemma fm_doEmplace_insert: "fm_doEmplace (<) assign v k x = fc_insert (<) fst v (k, x) assign"
  for v :: "('k::linorder, 'v) flat_map"
  by (auto simp: fm_doEmplace_def fc_insert_def Let_def)

lemma fm_find_spec:
  assumes "fm_ok v"
  shows "let it = fc_find (<) fst v k
    in (it = length v \<longleftrightarrow> map_of v k = None) \<and>
       (it \<noteq> length v \<longrightarrow> it < length v \<and> (\<exists>x. v ! it = (k, x) \<and> map_of v k = Some x))"
  using assms
proof (cases rule: fm_cases [of v k])
  case (found l y r)
  then show ?thesis by (simp add: fc_find_def binary_find_def)
next
  case (absent l r)
  then show ?thesis by (cases r) (simp_all add: fc_find_def binary_find_def)
qed

lemma fm_index_spec:
  assumes "fm_ok v"
  shows "let (v', it) = fm_index (<) d v k
    in fm_ok v' \<and> it < length v' \<and> fst (v' ! it) = k
     \<and> map_of v' = (if map_of v k = None then (map_of v)(k \<mapsto> d) else map_of v)"
proof (cases "map_of v k")
  case None
  then have "fc_find (<) fst v k = length v" using fm_find_spec [OF assms, of k] by (simp add: Let_def)
  then show ?thesis
    using fm_insert_spec [OF assms, of k d False] None
    by (simp add: fm_index_def Let_def split: prod.splits)
next
  case (Some x)
  then show ?thesis
    using fm_find_spec [OF assms, of k] assms by (auto simp: fm_index_def Let_def)
qed

lemma fm_erase_spec:
  assumes "fm_ok v"
  shows "\<exists>v' it. fc_eraseKey (<) fst v k = Some (v', it) \<and> fm_ok v' \<and> map_of v' = (map_of v)(k := None)"
  using assms
proof (cases rule: fm_cases [of v k])
  case (found l y r)
  then have "fc_find (<) fst v k = length l" by (simp add: fc_find_def binary_find_def)
  then have "fc_eraseKey (<) fst v k = Some (l @ r, length l)"
    using found by (simp add: fc_eraseKey_def fc_erase_def)
  moreover have "fm_ok (l @ r)" using assms found(1) by (auto simp: fm_splits)
  ultimately show ?thesis
    using found by (auto simp: fun_eq_iff map_add_def map_of_none split: option.splits)
next
  case (absent l r)
  then have "fc_find (<) fst v k = length v" using fm_find_spec [OF assms, of k] by (simp add: Let_def)
  then show ?thesis using absent assms by (auto simp: fc_eraseKey_def fun_eq_iff)
qed

text \<open>The calls of a client and the map they describe.\<close>

datatype ('k, 'v) fm_call =
    Insert 'k 'v | InsertOrAssign 'k 'v | Emplace 'k 'v | EmplaceOrAssign 'k 'v
  | Index 'k 'v | EraseKey 'k | Clear

fun fm_exec :: "('k::linorder, 'v) fm_call \<Rightarrow> ('k, 'v) flat_map \<Rightarrow> ('k, 'v) flat_map option" where
  "fm_exec (Insert k x) v = Some (fst (fc_insert (<) fst v (k, x) False))"
| "fm_exec (InsertOrAssign k x) v = Some (fst (fm_insert_or_assign (<) v k x))"
| "fm_exec (Emplace k x) v = Some (fst (fm_emplace (<) v k x))"
| "fm_exec (EmplaceOrAssign k x) v = Some (fst (fm_emplace_or_assign (<) v k x))"
| "fm_exec (Index k d) v = Some (fst (fm_index (<) d v k))"
| "fm_exec (EraseKey k) v = map_option fst (fc_eraseKey (<) fst v k)"
| "fm_exec Clear v = Some []"

fun map_exec :: "('k, 'v) fm_call \<Rightarrow> ('k \<rightharpoonup> 'v) \<Rightarrow> ('k \<rightharpoonup> 'v)" where
  "map_exec (Insert k x) m = (if m k = None then m(k \<mapsto> x) else m)"
| "map_exec (InsertOrAssign k x) m = m(k \<mapsto> x)"
| "map_exec (Emplace k x) m = (if m k = None then m(k \<mapsto> x) else m)"
| "map_exec (EmplaceOrAssign k x) m = m(k \<mapsto> x)"
| "map_exec (Index k d) m = (if m k = None then m(k \<mapsto> d) else m)"
| "map_exec (EraseKey k) m = m(k := None)"
| "map_exec Clear m = Map.empty"

fun fm_run :: "('k::linorder, 'v) fm_call list \<Rightarrow> ('k, 'v) flat_map \<Rightarrow> ('k, 'v) flat_map option" where
  "fm_run [] v = Some v"
| "fm_run (c # cs) v = Option.bind (fm_exec c v) (fm_run cs)"

lemma fm_exec_spec:
  assumes "fm_ok v"
  shows "\<exists>v'. fm_exec c v = Some v' \<and> fm_ok v' \<and> map_of v' = map_exec c (map_of v)"
proof (cases c)
  case (Insert k x)
  then show ?thesis using fm_insert_spec [OF assms, of k x False] by (auto simp: Let_def split: prod.splits)
next
  case (InsertOrAssign k x)
  then show ?thesis
    using fm_insert_spec [OF assms, of k x True]
    by (auto simp: fm_insert_or_assign_def Let_def split: prod.splits)
next
  case (Emplace k x)
  then show ?thesis
    using fm_insert_spec [OF assms, of k x False]
    by (auto simp: fm_emplace_def fm_doEmplace_insert Let_def split: prod.splits)
next
  case (EmplaceOrAssign k x)
  then show ?thesis
    using fm_insert_spec [OF assms, of k x True]
    by (auto simp: fm_emplace_or_assign_def fm_doEmplace_insert Let_def split: prod.splits)
next
  case (Index k d)
  then show ?thesis using fm_index_spec [OF assms, of d k] by (auto simp: Let_def split: prod.splits)
next
  case (EraseKey k)
  then show ?thesis using fm_erase_spec [OF assms, of k] by force
next
  case Clear
  then show ?thesis by simp
qed

lemma fm_run_spec:
  "fm_ok v \<Longrightarrow> \<exists>v'. fm_run cs v = Some v' \<and> fm_ok v' \<and> map_of v' = foldl (\<lambda>m c. map_exec c m) (map_of v) cs"
proof (induction cs arbitrary: v)
  case (Cons c cs)
  obtain v1 where "fm_exec c v = Some v1" "fm_ok v1" "map_of v1 = map_exec c (map_of v)"
    using fm_exec_spec [OF Cons.prems, of c] by blast
  then show ?case using Cons.IH [of v1] by simp
qed simp

text \<open>What \<open>std::sort\<close> promises.\<close>

definition sort_ok :: "'i sorter \<Rightarrow> bool" where
  "sort_ok srt \<longleftrightarrow> (\<forall>lt xs. key_order lt \<longrightarrow>
     mset (srt lt xs) = mset xs \<and> sorted_wrt (\<lambda>a b. \<not> lt b a) (srt lt xs))"

fun insert_by :: "('i \<Rightarrow> 'i \<Rightarrow> bool) \<Rightarrow> 'i \<Rightarrow> 'i list \<Rightarrow> 'i list" where
  "insert_by lt x [] = [x]"
| "insert_by lt x (y # ys) = (if lt y x then y # insert_by lt x ys else x # y # ys)"

definition insertion_sort :: "'i sorter" where
  "insertion_sort lt xs = foldr (insert_by lt) xs []"

lemma mset_insert_by: "mset (insert_by lt x ys) = add_mset x (mset ys)"
  by (induction ys) auto

lemma insertion_sort_ok: "sort_ok insertion_sort"
proof -
  have "sorted_wrt (\<lambda>a b. \<not> lt b a) (insert_by lt x ys)"
    if ord: "key_order lt" and "sorted_wrt (\<lambda>a b. \<not> lt b a) ys" for lt :: "'a \<Rightarrow> 'a \<Rightarrow> bool" and x ys
    using that(2)
  proof (induction ys)
    case (Cons y ys)
    have set: "set (insert_by lt x ys) = insert x (set ys)"
      by (metis mset_insert_by set_mset_add_mset_insert set_mset_mset)
    show ?case
    proof (cases "lt y x")
      case True
      then have "\<not> lt x y" using ord by (metis key_order.lt_irrefl key_order.lt_trans)
      then show ?thesis using True Cons set by auto
    next
      case False
      then show ?thesis using Cons.prems ord by (auto dest: key_order.lt_negtrans)
    qed
  qed simp
  then have "key_order lt \<Longrightarrow> sorted_wrt (\<lambda>a b. \<not> lt b a) (insertion_sort lt xs)"
    for lt :: "'a \<Rightarrow> 'a \<Rightarrow> bool" and xs
    by (induction xs) (simp_all add: insertion_sort_def)
  moreover have "mset (insertion_sort lt xs) = mset xs" for lt :: "'a \<Rightarrow> 'a \<Rightarrow> bool" and xs
    by (induction xs) (simp_all add: insertion_sort_def mset_insert_by)
  ultimately show ?thesis by (simp add: sort_ok_def)
qed

lemma key_order_fst: "key_order (\<lambda>a b. fst a < (fst b :: 'k::linorder))"
  by unfold_locales auto

lemma foldl_rawInsert: "foldl fc_rawInsert v xs = v @ xs"
  by (induction xs arbitrary: v) (simp_all add: fc_rawInsert_def)

lemma loadRange_spec:
  assumes "sort_ok srt"
  shows "mset (fc_loadRange srt (<) fst v xs) = mset v + mset xs"
    and "sorted_wrt (\<lambda>a b. \<not> fst b < fst a) (fc_loadRange srt (<) fst (v :: ('k::linorder, 'v) flat_map) xs)"
  using assms key_order_fst
  by (auto simp: fc_loadRange_def fc_endRawInsert_def fc_sort_def sort_ok_def foldl_rawInsert)

lemma loadRange_distinct:
  fixes v :: "('k::linorder, 'v) flat_map"
  assumes "sort_ok srt" and "distinct (List.map fst (v @ xs))"
  shows "fm_ok (fc_loadRange srt (<) fst v xs) \<and> map_of (fc_loadRange srt (<) fst v xs) = map_of (v @ xs)"
proof -
  let ?w = "fc_loadRange srt (<) fst v xs"
  have m: "mset ?w = mset (v @ xs)" using loadRange_spec(1) [OF assms(1)] by simp
  then have d: "distinct (List.map fst ?w)"
    using assms(2) by (metis mset_eq_imp_distinct_iff mset_map)
  have "map_of ?w = map_of (v @ xs)"
    using m d assms(2) by (metis map_of_inject_set mset_eq_setD)
  moreover have "sorted (List.map fst ?w)"
    using loadRange_spec(2) [OF assms(1), of v xs] by (simp add: not_less sorted_wrt_map)
  then have "sorted_wrt (<) (List.map fst ?w)" using d by (simp add: strict_sorted_iff)
  then have "fm_ok ?w" by (simp add: std_less.fc_ok_def sorted_wrt_map)
  ultimately show ?thesis by simp
qed

subsection \<open>Properties\<close>


text \<open>In a sorted flat map \<open>find\<close> returns the position of the key when the map has it and the
  end otherwise; insertion says whether it created the item and returns its position.\<close>

theorem flat_map_lookup:
  fixes v :: "('k::linorder, 'v) flat_map"
  assumes "sorted_wrt (<) (List.map fst v)"
  shows "(map_of v k = None \<longrightarrow> fc_find (<) fst v k = length v)
    \<and> (\<forall>x. map_of v k = Some x \<longrightarrow> fci_deref v (fc_find (<) fst v k) = Inr (k, x))
    \<and> (let (v', it, created) = fm_insert_or_assign (<) v k y
       in created = (map_of v k = None) \<and> fci_deref v' it = Inr (k, y))
    \<and> (let (v', it, created) = fm_emplace (<) v k y
       in created = (map_of v k = None) \<and> (\<not> created \<longrightarrow> v' = v) \<and> fst (v' ! it) = k)"
proof -
  have ok: "fm_ok v" using assms by (simp add: std_less.fc_ok_def sorted_wrt_map)
  have emplace: "snd (snd (fm_emplace (<) v k y)) \<or> fst (fm_emplace (<) v k y) = v"
    by (auto simp: fm_emplace_def fm_doEmplace_def Let_def)
  obtain v' it c where ins: "fc_insert (<) fst v (k, y) True = (v', it, c)" by (metis prod_cases3)
  then have i: "fm_ok v'" "c = (map_of v k = None)" "it < length v'" "fst (v' ! it) = k"
      "map_of v' k = Some y"
    using fm_insert_spec [OF ok, of k y True] by auto
  have "sorted_wrt (<) (List.map fst v')"
    using i(1) by (simp add: std_less.fc_ok_def sorted_wrt_map)
  then have "distinct (List.map fst v')" by (simp add: strict_sorted_iff)
  then have at: "v' ! it = (k, y)"
    using i(3-5) by (metis map_of_is_SomeI nth_mem option.inject prod.collapse)
  have "fci_deref v (fc_find (<) fst v k) = Inr (k, x)" if "map_of v k = Some x" for x
    using fm_find_spec [OF ok, of k] that by (auto simp: fci_deref_def Let_def)
  moreover have "map_of v k = None \<longrightarrow> fc_find (<) fst v k = length v"
    using fm_find_spec [OF ok, of k] by (auto simp: Let_def)
  moreover have "let (v', it, created) = fm_insert_or_assign (<) v k y
      in created = (map_of v k = None) \<and> fci_deref v' it = Inr (k, y)"
    using ins i at by (simp add: fm_insert_or_assign_def fci_deref_def)
  moreover have "let (v', it, created) = fm_emplace (<) v k y
      in created = (map_of v k = None) \<and> (\<not> created \<longrightarrow> v' = v) \<and> fst (v' ! it) = k"
    using fm_insert_spec [OF ok, of k y False] emplace
    by (auto simp: fm_emplace_def fm_doEmplace_insert Let_def split: prod.splits)
  ultimately show ?thesis by blast
qed

theorem flat_map_lookup_witness:
  "fci_deref [(2::nat, ''b''), (5, ''e'')] (fc_find (<) fst [(2::nat, ''b''), (5, ''e'')] 5) = Inr (5, ''e'')"
  using flat_map_lookup [of "[(2::nat, ''b''), (5, ''e'')]" 5] by simp

text \<open>Loading a range sorts the container whatever order \<open>std::sort\<close> gives equivalent items;
  with pairwise distinct keys the result is the union of both maps.\<close>

theorem flat_map_load_range:
  fixes v :: "('k::linorder, 'v) flat_map"
  assumes "sort_ok srt" and "distinct (List.map fst (v @ xs))"
  shows "sorted_wrt (<) (List.map fst (fc_loadRange srt (<) fst v xs))
    \<and> map_of (fc_loadRange srt (<) fst v xs) = map_of (v @ xs)"
  using loadRange_distinct [OF assms] by (simp add: std_less.fc_ok_def sorted_wrt_map)

theorem flat_map_load_range_witness:
  "sorted_wrt (<) (List.map fst (fc_loadRange insertion_sort (<) fst [] [(3::nat, True), (1, False)]))
   \<and> map_of (fc_loadRange insertion_sort (<) fst [] [(3::nat, True), (1, False)]) = map_of ([] @ [(3, True), (1, False)])"
  by (rule flat_map_load_range) (simp_all add: insertion_sort_ok)

text \<open>A flat map built from a list that names a key twice keeps both items: erasing the key
  removes one of them and the key is still found.\<close>

theorem flat_map_duplicate_survives:
  fixes k :: "'k::linorder"
  assumes "sort_ok srt"
  shows "\<exists>v it. fc_eraseKey (<) fst (fc_fromList srt (<) fst [(k, a), (k, b)]) k = Some (v, it)
    \<and> length v = 1 \<and> fc_find (<) fst v k = 0"
proof -
  have "mset (fc_fromList srt (<) fst [(k, a), (k, b)]) = mset [(k, a), (k, b)]"
    using assms key_order_fst by (auto simp: fc_fromList_def fc_sort_def sort_ok_def)
  then have len: "length (fc_fromList srt (<) fst [(k, a), (k, b)]) = length [(k, a), (k, b)]"
    and set: "set (fc_fromList srt (<) fst [(k, a), (k, b)]) = set [(k, a), (k, b)]"
    by (rule mset_eq_length, rule mset_eq_setD)
  obtain p q where pq: "fc_fromList srt (<) fst [(k, a), (k, b)] = [p, q]"
    using len by (auto simp: length_Suc_conv numeral_2_eq_2)
  then obtain x y where w: "fc_fromList srt (<) fst [(k, a), (k, b)] = [(k, x), (k, y)]"
    using set by (cases p; cases q) auto
  show ?thesis
    unfolding w
    by (simp add: fc_eraseKey_def fc_find_def binary_find_def lowerBound_def lowerBound_loop.simps fc_erase_def)
qed

theorem flat_map_duplicate_survives_witness:
  "\<exists>v it. fc_eraseKey (<) fst (fc_fromList insertion_sort (<) fst [(7::nat, ''a''), (7, ''b'')]) 7 = Some (v, it)
    \<and> length v = 1 \<and> fc_find (<) fst v 7 = 0"
  by (rule flat_map_duplicate_survives) (rule insertion_sort_ok)

text \<open>Moving an iterator by \<open>+=\<close> is exact when the target lies between begin and end and throws
  otherwise; \<open>-=\<close> is too for differences that are not negative, but always throws for a negative
  one, so that \<open>it - (-1)\<close>, whose operator is \<open>noexcept\<close>, ends the program where \<open>it + 1\<close> is fine.\<close>

theorem flat_iterator_arithmetic:
  assumes "0 \<le> idx" and "idx \<le> sz" and "sz < 2 ^ 63" and "- (2 ^ 63) \<le> d" and "d < 2 ^ 63"
  shows "fci_add_assign sz idx d = (if 0 \<le> idx + d \<and> idx + d \<le> sz then Inr (idx + d) else Inl OutOfRange)
    \<and> fci_sub_assign sz idx d = (if 0 \<le> d \<and> d \<le> idx then Inr (idx - d) else Inl OutOfRange)
    \<and> (d < 0 \<longrightarrow> fci_sub sz idx d = Inl Terminates)"
proof -
  have neg: "u64 x = x + 2 ^ 64" if "x < 0" "- (2 ^ 64) \<le> x" for x
    using u64_neg [of x] that by simp
  have "fci_add_assign sz idx d = (if 0 \<le> idx + d \<and> idx + d \<le> sz then Inr (idx + d) else Inl OutOfRange)"
  proof (cases "0 \<le> idx + d")
    case True
    then show ?thesis using assms by (simp add: fci_add_assign_def)
  next
    case False
    then have "u64 (idx + d) = idx + d + 2 ^ 64" using assms by (intro neg) simp_all
    then show ?thesis using False assms by (simp add: fci_add_assign_def)
  qed
  moreover have "fci_sub_assign sz idx d = (if 0 \<le> d \<and> d \<le> idx then Inr (idx - d) else Inl OutOfRange)"
  proof (cases "0 \<le> d")
    case True
    then show ?thesis using assms by (simp add: fci_sub_assign_def)
  next
    case False
    then have "u64 d = d + 2 ^ 64" using assms by (intro neg) simp_all
    then show ?thesis using False assms by (simp add: fci_sub_assign_def)
  qed
  ultimately show ?thesis by (simp add: fci_sub_def)
qed

end
