(* ===== verification/TimeOfDay.thy ===== *)
theory TimeOfDay
  imports HatnPrelude
begin

section \<open>Time of day: common/time.h and Time::parse of common/src/datetime.cpp\<close>

text \<open>
  The class \<open>Time\<close>: its constructors and setters with the conversions to the width of the
  fields, the number form, the arithmetic, the order, printing and parsing. \<open>F w n\<close> stands for
  what \<open>fmt\<close> prints for \<open>{:0wd}\<close>, \<open>F 0 n\<close> for \<open>{}\<close>; \<open>split\<close> stands for \<open>boost::split\<close> with
  \<open>is_any_of\<close>. An overflow of \<open>int\<close> and an access past the end of a vector are \<open>None\<close>.
\<close>

record time =
  m_hour :: int
  m_minute :: int
  m_second :: int
  m_millisecond :: int

datatype common_error = INVALID_TIME_FORMAT

datatype FormatPrecision = Minute | Second | Millisecond | Number

definition time_default :: time where
  "time_default = \<lparr>m_hour = 0, m_minute = 0, m_second = 0, m_millisecond = 0\<rparr>"

subsection \<open>Validation and setters\<close>

definition time_validate4 :: "int \<Rightarrow> int \<Rightarrow> int \<Rightarrow> int \<Rightarrow> common_error option" where
  "time_validate4 hour minute second ms =
     (if hour \<ge> 24 \<or> minute \<ge> 60 \<or> second \<ge> 60 \<or> ms \<ge> 1000 then Some INVALID_TIME_FORMAT
      else if hour = 0 \<and> minute = 0 \<and> second = 0 \<and> ms = 0 then Some INVALID_TIME_FORMAT
      else None)"

definition time_reset :: "time \<Rightarrow> time" where
  "time_reset t = t\<lparr>m_hour := 0, m_minute := 0, m_second := 0, m_millisecond := 0\<rparr>"

text \<open>\<open>validate(resetInvalid)\<close>: the error and the object, which a failure resets.\<close>

definition time_validate :: "bool \<Rightarrow> time \<Rightarrow> common_error option \<times> time" where
  "time_validate resetInvalid t =
     (let ec = time_validate4 (m_hour t) (m_minute t) (m_second t) (m_millisecond t)
      in (ec, if ec \<noteq> None \<and> resetInvalid then time_reset t else t))"

text \<open>The constructor converts first and validates what is left; it throws the error.\<close>

definition Time4 :: "int \<Rightarrow> int \<Rightarrow> int \<Rightarrow> int \<Rightarrow> common_error + time" where
  "Time4 hour minute second ms =
     (let t = \<lparr>m_hour = u8 hour, m_minute = u8 minute, m_second = u8 second, m_millisecond = u16 ms\<rparr>
      in case time_validate True t of (Some e, _) \<Rightarrow> Inl e | (None, t') \<Rightarrow> Inr t')"

text \<open>The setters: the error and the object. The argument may be of any integral type.\<close>

definition setHour :: "int \<Rightarrow> time \<Rightarrow> common_error option \<times> time" where
  "setHour v t = (if v \<ge> 24 then (Some INVALID_TIME_FORMAT, t) else (None, t\<lparr>m_hour := u8 v\<rparr>))"

definition setMinute :: "int \<Rightarrow> time \<Rightarrow> common_error option \<times> time" where
  "setMinute v t = (if v \<ge> 60 then (Some INVALID_TIME_FORMAT, t) else (None, t\<lparr>m_minute := u8 v\<rparr>))"

definition setSecond :: "int \<Rightarrow> time \<Rightarrow> common_error option \<times> time" where
  "setSecond v t = (if v \<ge> 60 then (Some INVALID_TIME_FORMAT, t) else (None, t\<lparr>m_second := u8 v\<rparr>))"

definition setMillisecond :: "int \<Rightarrow> time \<Rightarrow> common_error option \<times> time" where
  "setMillisecond v t =
     (if v \<ge> 1000 then (Some INVALID_TIME_FORMAT, t) else (None, t\<lparr>m_millisecond := u16 v\<rparr>))"

definition time_toNumber :: "time \<Rightarrow> int" where
  "time_toNumber t = m_hour t * 10000000 + m_minute t * 100000 + m_second t * 1000 + m_millisecond t"

text \<open>
  \<open>set(uint64_t)\<close>: the fields before the first invalid one stay changed. \<open>/\<close> and \<open>%\<close> on
  unsigned numbers are \<open>div\<close> and \<open>mod\<close>.
\<close>

definition time_set :: "int \<Rightarrow> time \<Rightarrow> common_error option \<times> time" where
  "time_set v t =
     (let hour = v div 10000000;
          minute = (v - hour * 10000000) div 100000;
          second = (v - hour * 10000000 - minute * 100000) div 1000;
          millisecond = v mod 1000
      in case setHour hour t of (Some e, t1) \<Rightarrow> (Some e, t1) | (None, t1) \<Rightarrow>
         (case setMinute minute t1 of (Some e, t2) \<Rightarrow> (Some e, t2) | (None, t2) \<Rightarrow>
          (case setSecond second t2 of (Some e, t3) \<Rightarrow> (Some e, t3) | (None, t3) \<Rightarrow>
           (case setMillisecond millisecond t3 of (Some e, t4) \<Rightarrow> (Some e, t4) | (None, t4) \<Rightarrow> (None, t4)))))"

definition Time1 :: "int \<Rightarrow> common_error + time" where
  "Time1 v = (case time_set v time_default of (Some e, _) \<Rightarrow> Inl e | (None, t) \<Rightarrow> Inr t)"

definition time_isValid :: "time \<Rightarrow> bool" where
  "time_isValid t \<longleftrightarrow> m_hour t > 0 \<or> m_minute t > 0 \<or> m_second t > 0 \<or> m_millisecond t > 0"

definition time_isNull :: "time \<Rightarrow> bool" where "time_isNull t \<longleftrightarrow> \<not> time_isValid t"

subsection \<open>Arithmetic\<close>

text \<open>\<open>int\<close> arithmetic of the source: division and remainder truncate toward zero.\<close>

definition int_ok :: "int \<Rightarrow> bool" where
  "int_ok x \<longleftrightarrow> - 2147483648 \<le> x \<and> x < 2147483648"

definition addHours :: "int \<Rightarrow> time \<Rightarrow> time option" where
  "addHours v t =
     (if \<not> int_ok (m_hour t + v) then None
      else let hour = (m_hour t + v) smod 24;
               hour' = (if hour < 0 then hour + 24 else hour)
           in Some (t\<lparr>m_hour := u8 hour'\<rparr>))"

text \<open>\<open>abs(INT_MIN)\<close> is undefined.\<close>

definition addMinutes :: "int \<Rightarrow> time \<Rightarrow> time option" where
  "addMinutes v t =
     (if v = - 2147483648 then None
      else Option.bind (if \<bar>v\<bar> \<ge> 60 then addHours (v sdiv 60) t else Some t) (\<lambda>t1.
        let minute = m_minute t1 + v smod 60
        in Option.bind
             (if minute < 0 then map_option (\<lambda>t2. (t2, minute + 60)) (addHours (-1) t1)
              else if minute \<ge> 60 then map_option (\<lambda>t2. (t2, minute - 60)) (addHours 1 t1)
              else Some (t1, minute))
             (\<lambda>(t2, minute'). Some (t2\<lparr>m_minute := u8 minute'\<rparr>))))"

definition addSeconds :: "int \<Rightarrow> time \<Rightarrow> time option" where
  "addSeconds v t =
     (if v = - 2147483648 then None
      else Option.bind (if \<bar>v\<bar> \<ge> 60 then addMinutes (v sdiv 60) t else Some t) (\<lambda>t1.
        let second = m_second t1 + v smod 60
        in Option.bind
             (if second < 0 then map_option (\<lambda>t2. (t2, second + 60)) (addMinutes (-1) t1)
              else if second \<ge> 60 then map_option (\<lambda>t2. (t2, second - 60)) (addMinutes 1 t1)
              else Some (t1, second))
             (\<lambda>(t2, second'). Some (t2\<lparr>m_second := u8 second'\<rparr>))))"

definition addMilliseconds :: "int \<Rightarrow> time \<Rightarrow> time option" where
  "addMilliseconds v t =
     (let s = v sdiv 1000
      in Option.bind (if \<bar>s\<bar> > 0 then addSeconds s t else Some t) (\<lambda>t1.
        let millisecond = m_millisecond t1 + v smod 1000
        in Option.bind
             (if millisecond < 0 then map_option (\<lambda>t2. (t2, millisecond + 1000)) (addSeconds (-1) t1)
              else if millisecond \<ge> 1000 then map_option (\<lambda>t2. (t2, millisecond - 1000)) (addSeconds 1 t1)
              else Some (t1, millisecond))
             (\<lambda>(t2, millisecond'). Some (t2\<lparr>m_millisecond := u16 millisecond'\<rparr>))))"

definition time_eq :: "time \<Rightarrow> time \<Rightarrow> bool" where
  "time_eq a b \<longleftrightarrow> m_hour a = m_hour b \<and> m_minute a = m_minute b \<and> m_second a = m_second b
     \<and> m_millisecond a = m_millisecond b"

definition time_less :: "time \<Rightarrow> time \<Rightarrow> bool" where
  "time_less a b \<longleftrightarrow> time_toNumber a < time_toNumber b"

definition time_le :: "time \<Rightarrow> time \<Rightarrow> bool" where
  "time_le a b \<longleftrightarrow> time_toNumber a \<le> time_toNumber b"

subsection \<open>Printing\<close>

definition time_serialize ::
    "(nat \<Rightarrow> nat \<Rightarrow> string) \<Rightarrow> time \<Rightarrow> FormatPrecision \<Rightarrow> bool \<Rightarrow> string" where
  "time_serialize F t precision ampm =
     (let h = nat (m_hour t); m = nat (m_minute t); s = nat (m_second t); ms = nat (m_millisecond t)
      in if \<not> time_isValid t then ''invalid''
         else if ampm then
           let ampmStr = (if h \<ge> 12 then ''p.m.'' else ''a.m.'');
               hour = (if h \<ge> 12 then h - 12 else h);
               hour = (if hour = 0 then 12 else hour)
           in case precision of
                Second \<Rightarrow> F 0 hour @ '':'' @ F 2 m @ '':'' @ F 2 s @ '' '' @ ampmStr
              | Minute \<Rightarrow> F 0 hour @ '':'' @ F 2 m @ '' '' @ ampmStr
              | Millisecond \<Rightarrow>
                  F 0 hour @ '':'' @ F 2 m @ '':'' @ F 2 s @ ''.'' @ F 3 ms @ '' '' @ ampmStr
              | Number \<Rightarrow> F 0 hour @ F 2 m @ F 2 s @ ''.'' @ F 3 ms @ '' '' @ ampmStr
         else
           case precision of
             Second \<Rightarrow> F 2 h @ '':'' @ F 2 m @ '':'' @ F 2 s
           | Minute \<Rightarrow> F 2 h @ '':'' @ F 2 m
           | Millisecond \<Rightarrow>
               if ms > 0 then F 2 h @ '':'' @ F 2 m @ '':'' @ F 2 s @ ''.'' @ F 3 ms
               else F 2 h @ '':'' @ F 2 m @ '':'' @ F 2 s
           | Number \<Rightarrow>
               if ms > 0 then F 2 h @ F 2 m @ F 2 s @ ''.'' @ F 3 ms
               else F 2 h @ F 2 m @ F 2 s)"

subsection \<open>Parsing\<close>

text \<open>
  \<open>std::stoi\<close>: white space, a sign, decimal digits, the rest ignored; \<open>None\<close> is an exception.
\<close>

definition isspace :: "char \<Rightarrow> bool" where
  "isspace c \<longleftrightarrow> c \<in> {CHR '' '', CHR 0x09, CHR 0x0A, CHR 0x0B, CHR 0x0C, CHR 0x0D}"

definition stoi :: "string \<Rightarrow> int option" where
  "stoi str =
     (let s = dropWhile isspace str;
          (neg, ds) = (case s of
              c # cs \<Rightarrow> if c = CHR ''-'' then (True, cs) else if c = CHR ''+'' then (False, cs) else (False, s)
            | [] \<Rightarrow> (False, s));
          (v, rest) = digit_prefix 10 0 ds;
          n = (if neg then - int v else int v)
      in if length rest = length ds then None else if int_ok n then Some n else None)"

text \<open>\<open>boost::split\<close> with \<open>is_any_of\<close> and no token compression.\<close>

fun split_on :: "(char \<Rightarrow> bool) \<Rightarrow> string \<Rightarrow> string list" where
  "split_on P [] = [[]]"
| "split_on P (c # cs) =
     (if P c then [] # split_on P cs
      else case split_on P cs of [] \<Rightarrow> [[c]] | w # ws \<Rightarrow> (c # w) # ws)"

definition split_ok :: "((char \<Rightarrow> bool) \<Rightarrow> string \<Rightarrow> string list) \<Rightarrow> bool" where
  "split_ok split \<longleftrightarrow> (\<forall>P s. split P s = split_on P s)"

text \<open>The lambda \<open>extractMs\<close>; \<open>None\<close> is the invalid format or an exception, which ends the same way.\<close>

definition extractMs :: "string \<Rightarrow> int option" where
  "extractMs msStr =
     (if length msStr = 1 then map_option (\<lambda>n. n * 100) (stoi msStr)
      else if length msStr = 2 then map_option (\<lambda>n. n * 10) (stoi msStr)
      else if length msStr = 3 then stoi msStr
      else if length msStr = 4 then map_option (\<lambda>n. n sdiv 10) (stoi msStr)
      else if length msStr = 5 then map_option (\<lambda>n. n sdiv 100) (stoi msStr)
      else if length msStr = 6 then map_option (\<lambda>n. n sdiv 1000) (stoi msStr)
      else None)"

text \<open>
  The fields read from the parts in each format; \<open>None\<close> is an error. The hour, minute, second,
  millisecond and the text of the half of the day.
\<close>

definition parse_parts ::
    "string list \<Rightarrow> FormatPrecision \<Rightarrow> bool \<Rightarrow> (int \<times> int \<times> int \<times> int \<times> string) option" where
  "parse_parts parts precision ampm =
     (case precision of
        Second \<Rightarrow>
          if length parts \<noteq> (if ampm then 4 else 3) then None
          else Option.bind (stoi (parts ! 0)) (\<lambda>h. Option.bind (stoi (parts ! 1)) (\<lambda>m.
            Option.bind (stoi (parts ! 2)) (\<lambda>s. Some (h, m, s, 0, if ampm then parts ! 3 else []))))
      | Minute \<Rightarrow>
          if length parts \<noteq> (if ampm then 3 else 2) then None
          else Option.bind (stoi (parts ! 0)) (\<lambda>h. Option.bind (stoi (parts ! 1)) (\<lambda>m.
            Some (h, m, 0, 0, if ampm then parts ! 2 else [])))
      | Millisecond \<Rightarrow>
          if ampm \<or> length parts < 3 then None
          else Option.bind (stoi (parts ! 0)) (\<lambda>h. Option.bind (stoi (parts ! 1)) (\<lambda>m.
            Option.bind (stoi (parts ! 2)) (\<lambda>s.
              if length parts = 4 then Option.bind (extractMs (parts ! 3)) (\<lambda>ms. Some (h, m, s, ms, []))
              else Some (h, m, s, 0, []))))
      | Number \<Rightarrow> None)"

definition apply_ampm :: "bool \<Rightarrow> string \<Rightarrow> int \<Rightarrow> int option" where
  "apply_ampm ampm ampmStr hour =
     (if \<not> ampm then Some hour
      else if ampmStr = ''p.m.'' \<or> ampmStr = ''pm'' then Some (if hour \<noteq> 12 then hour + 12 else hour)
      else if ampmStr = ''a.m.'' \<or> ampmStr = ''am'' then Some (if hour = 12 then 0 else hour)
      else None)"

text \<open>
  \<open>parse\<close>. Everything thrown inside is caught and is the invalid format, the failed assertion of
  the unsupported combinations included (as in a build without \<open>assert\<close>). In the number format
  the part after the point is read with the index past the end of the two parts, the outcome
  \<open>None\<close>.
\<close>

definition time_parse ::
    "((char \<Rightarrow> bool) \<Rightarrow> string \<Rightarrow> string list) \<Rightarrow> string \<Rightarrow> FormatPrecision \<Rightarrow> bool
     \<Rightarrow> (common_error + time) option" where
  "time_parse split str precision ampm =
     (if str = [] then Some (Inr time_default)
      else
        let parts = (if ampm then split (\<lambda>c. c = CHR '':'' \<or> c = CHR '' '') str
                     else split (\<lambda>c. c = CHR '':'' \<or> c = CHR ''.'') str)
        in if precision = Number then
             if ampm then Some (Inl INVALID_TIME_FORMAT)
             else case stoi (parts ! 0) of
               None \<Rightarrow> Some (Inl INVALID_TIME_FORMAT)
             | Some num \<Rightarrow>
                 if num < 0 then Some (Inl INVALID_TIME_FORMAT)
                 else case Time1 (num * 1000) of
                   Inl e \<Rightarrow> Some (Inl INVALID_TIME_FORMAT)
                 | Inr t \<Rightarrow> if length parts = 2 then None else Some (Inr t)
           else
             case parse_parts parts precision ampm of
               None \<Rightarrow> Some (Inl INVALID_TIME_FORMAT)
             | Some (h, m, s, ms, ampmStr) \<Rightarrow>
                 (case apply_ampm ampm ampmStr h of
                    None \<Rightarrow> Some (Inl INVALID_TIME_FORMAT)
                  | Some hour \<Rightarrow>
                      (case time_validate4 hour m s ms of
                         Some e \<Rightarrow> Some (Inl e)
                       | None \<Rightarrow> Some (Time4 hour m s ms))))"

subsection \<open>Lemmas on the arithmetic\<close>

definition time_wf :: "time \<Rightarrow> bool" where
  "time_wf t \<longleftrightarrow> 0 \<le> m_hour t \<and> m_hour t < 24 \<and> 0 \<le> m_minute t \<and> m_minute t < 60
     \<and> 0 \<le> m_second t \<and> m_second t < 60 \<and> 0 \<le> m_millisecond t \<and> m_millisecond t < 1000"

definition minute_of_day :: "time \<Rightarrow> int" where
  "minute_of_day t = m_hour t * 60 + m_minute t"

definition second_of_day :: "time \<Rightarrow> int" where
  "second_of_day t = minute_of_day t * 60 + m_second t"

definition ms_of_day :: "time \<Rightarrow> int" where
  "ms_of_day t = second_of_day t * 1000 + m_millisecond t"

lemma sdiv_smod:
  assumes "0 < (k :: int)"
  shows "v sdiv k * k + v smod k = v"
proof -
  have "v sdiv k * k + v smod k = sgn v * (\<bar>v\<bar> div k) * k + sgn v * (\<bar>v\<bar> mod k)"
    using assms by (simp add: signed_divide_int_def signed_modulo_int_def)
  also have "\<dots> = sgn v * (\<bar>v\<bar> div k * k + \<bar>v\<bar> mod k)" by (simp only: distrib_left mult.assoc)
  also have "\<dots> = v" by (simp only: div_mult_mod_eq sgn_mult_abs)
  finally show ?thesis .
qed

lemma sdiv_small: "\<not> \<bar>v\<bar> \<ge> k \<Longrightarrow> v sdiv k = (0 :: int)"
  by (simp add: signed_divide_int_def div_pos_pos_trivial)

lemma smod_bounds:
  assumes "0 < (k :: int)"
  shows "- k < v smod k \<and> v smod k < k"
proof -
  define m where "m = \<bar>v\<bar> mod k"
  have "0 \<le> m" "m < k" using assms by (simp_all add: m_def)
  moreover have "v smod k = sgn v * m" using assms by (simp add: signed_modulo_int_def m_def)
  ultimately show ?thesis using assms by (auto simp: sgn_if)
qed

lemma smod_wrap:
  assumes "0 < (k :: int)"
  shows "(if v smod k < 0 then v smod k + k else v smod k) = v mod k"
proof -
  have "v mod k = (v sdiv k * k + v smod k) mod k" by (simp add: sdiv_smod assms)
  also have "\<dots> = (v smod k) mod k" by simp
  also have "\<dots> = (v smod k + k) mod k" by simp
  finally have m: "v mod k = (v smod k + k) mod k" .
  show ?thesis
  proof (cases "v smod k < 0")
    case True
    then show ?thesis
      using m smod_bounds [OF assms, of v] mod_pos_pos_trivial [of "v smod k + k" k] by simp
  next
    case False
    then have "(v smod k) mod k = v smod k"
      using smod_bounds [OF assms, of v] by (simp add: mod_pos_pos_trivial)
    then show ?thesis using m False by simp
  qed
qed

text \<open>A position in a larger unit, kept modulo \<open>n\<close>, and an offset inside the unit.\<close>

lemma mod_mix:
  assumes "0 \<le> b" and "b < k" and "0 < (n :: int)"
  shows "(a mod n) * k + b = (a * k + b) mod (n * k)"
proof -
  have k: "0 < k" using assms by simp
  have "a mod n \<le> n - 1" using assms by simp
  then have "(a mod n) * k \<le> (n - 1) * k" using k by (intro mult_right_mono) simp_all
  then have "(a mod n) * k + b < n * k" using assms by (simp add: algebra_simps)
  moreover have "0 \<le> (a mod n) * k + b" using assms k by simp
  ultimately have "((a mod n) * k + b) mod (n * k) = (a mod n) * k + b"
    by (simp add: mod_pos_pos_trivial)
  moreover have "((a mod n) * k + b) mod (n * k) = (a * k + b) mod (n * k)"
    by (metis mod_add_left_eq mod_mult_mult2)
  ultimately show ?thesis by simp
qed

lemma addHours_defined:
  assumes "time_wf t" and "- 2147483648 \<le> v" and "m_hour t + v < 2147483648"
  shows "\<exists>t'. addHours v t = Some t' \<and> time_wf t' \<and> m_hour t' = (m_hour t + v) mod 24
    \<and> m_minute t' = m_minute t \<and> m_second t' = m_second t \<and> m_millisecond t' = m_millisecond t"
proof -
  have h: "0 \<le> m_hour t" "m_hour t < 24" using assms(1) by (simp_all add: time_wf_def)
  have "addHours v t = Some (t\<lparr>m_hour := u8 ((m_hour t + v) mod 24)\<rparr>)"
    using assms h smod_wrap [of 24 "m_hour t + v"] by (auto simp: addHours_def int_ok_def Let_def)
  moreover have "u8 ((m_hour t + v) mod 24) = (m_hour t + v) mod 24"
    using pos_mod_sign [of 24 "m_hour t + v"] pos_mod_bound [of 24 "m_hour t + v"] by simp
  ultimately show ?thesis using assms(1) by (simp add: time_wf_def)
qed

lemma addHours_ok:
  assumes "time_wf t" and "- 2147483648 \<le> v" and "v < 2147483648 - 24"
  shows "\<exists>t'. addHours v t = Some t' \<and> time_wf t' \<and> m_hour t' = (m_hour t + v) mod 24
    \<and> m_minute t' = m_minute t \<and> m_second t' = m_second t \<and> m_millisecond t' = m_millisecond t"
  by (rule addHours_defined [OF assms(1,2)]) (use assms in \<open>simp add: time_wf_def\<close>)

text \<open>
  One carry step, shared by minutes, seconds and milliseconds: after the whole part \<open>q\<close> of
  \<open>v = q * k + r\<close> is added to the larger unit, \<open>a' = (a + q) mod n\<close>, the offset \<open>b + r\<close> is brought
  into range by at most one more carry.
\<close>

lemma carry_step:
  assumes "0 < k" and "0 < n" and "0 \<le> b" and "b < k"
    and "a' = (a + v sdiv k) mod n"
    and "b + v smod k < 0 \<Longrightarrow> a'' = (a' + - 1) mod n \<and> b' = b + v smod k + k"
    and "k \<le> b + v smod k \<Longrightarrow> a'' = (a' + 1) mod n \<and> b' = b + v smod k - k"
    and "0 \<le> b + v smod k \<Longrightarrow> b + v smod k < k \<Longrightarrow> a'' = a' \<and> b' = b + v smod k"
  shows "a'' * k + b' = (a * k + b + v) mod (n * k) \<and> 0 \<le> b' \<and> b' < (k :: int)"
proof -
  have v: "v sdiv k * k + v smod k = v" and r: "- k < v smod k" "v smod k < k"
    using sdiv_smod [OF assms(1)] smod_bounds [OF assms(1)] by auto
  consider "b + v smod k < 0" | "k \<le> b + v smod k" | "0 \<le> b + v smod k" "b + v smod k < k" by linarith
  then obtain c where c: "a'' = (a + v sdiv k + c) mod n" "b' = b + v smod k - c * k" "0 \<le> b'" "b' < k"
  proof cases
    case 1
    then show thesis using assms r by (intro that [of "- 1"]) (simp_all add: mod_add_left_eq mod_diff_left_eq)
  next
    case 2
    then show thesis using assms r by (intro that [of 1]) (simp_all add: mod_add_left_eq)
  next
    case 3
    then show thesis using assms r by (intro that [of 0]) simp_all
  qed
  have "a'' * k + b' = ((a + v sdiv k + c) * k + b') mod (n * k)"
    unfolding c(1) by (rule mod_mix) (use c assms in simp_all)
  also have "(a + v sdiv k + c) * k + b' = a * k + b + v"
    using v by (simp add: c(2) algebra_simps)
  finally show ?thesis using c by simp
qed

lemma addMinutes_ok:
  assumes "time_wf t" and "- 2147483648 < v" and "v < 2147483648"
  shows "\<exists>t'. addMinutes v t = Some t' \<and> time_wf t' \<and> minute_of_day t' = (minute_of_day t + v) mod 1440
    \<and> m_second t' = m_second t \<and> m_millisecond t' = m_millisecond t"
proof -
  have m: "0 \<le> m_minute t" "m_minute t < 60" using assms(1) by (simp_all add: time_wf_def)
  have q: "v sdiv 60 * 60 + v smod 60 = v" "- 60 < v smod 60" "v smod 60 < 60"
    using sdiv_smod [of 60 v] smod_bounds [of 60 v] by simp_all
  obtain t1 where t1: "(if \<bar>v\<bar> \<ge> 60 then addHours (v sdiv 60) t else Some t) = Some t1" "time_wf t1"
      "m_hour t1 = (m_hour t + v sdiv 60) mod 24" "m_minute t1 = m_minute t" "m_second t1 = m_second t"
      "m_millisecond t1 = m_millisecond t"
  proof (cases "\<bar>v\<bar> \<ge> 60")
    case True
    have "- 2147483648 \<le> v sdiv 60" "v sdiv 60 < 2147483648 - 24" using q assms by linarith+
    then show thesis using that addHours_ok [OF assms(1)] True by auto
  next
    case False
    then have "v sdiv 60 = 0" by (rule sdiv_small)
    then show thesis using that [of t] False assms(1) by (simp add: time_wf_def)
  qed
  have up: "\<exists>t2. addHours 1 t1 = Some t2 \<and> time_wf t2 \<and> m_hour t2 = (m_hour t1 + 1) mod 24
      \<and> m_minute t2 = m_minute t1 \<and> m_second t2 = m_second t1 \<and> m_millisecond t2 = m_millisecond t1"
    by (rule addHours_ok [OF t1(2)]) simp_all
  have down: "\<exists>t2. addHours (- 1) t1 = Some t2 \<and> time_wf t2 \<and> m_hour t2 = (m_hour t1 + - 1) mod 24
      \<and> m_minute t2 = m_minute t1 \<and> m_second t2 = m_second t1 \<and> m_millisecond t2 = m_millisecond t1"
    by (rule addHours_ok [OF t1(2)]) simp_all
  consider (low) "m_minute t + v smod 60 < 0" | (high) "60 \<le> m_minute t + v smod 60"
    | (mid) "0 \<le> m_minute t + v smod 60" "m_minute t + v smod 60 < 60" by linarith
  then obtain t2 b where t2: "addMinutes v t = Some (t2\<lparr>m_minute := u8 b\<rparr>)" "time_wf t2"
      "m_second t2 = m_second t" "m_millisecond t2 = m_millisecond t"
      "m_minute t + v smod 60 < 0 \<Longrightarrow> m_hour t2 = (m_hour t1 + - 1) mod 24 \<and> b = m_minute t + v smod 60 + 60"
      "60 \<le> m_minute t + v smod 60 \<Longrightarrow> m_hour t2 = (m_hour t1 + 1) mod 24 \<and> b = m_minute t + v smod 60 - 60"
      "0 \<le> m_minute t + v smod 60 \<Longrightarrow> m_minute t + v smod 60 < 60 \<Longrightarrow> m_hour t2 = m_hour t1 \<and> b = m_minute t + v smod 60"
  proof cases
    case low
    then show thesis
      using down that [of "m_minute t + v smod 60 + 60"] assms(2) t1 by (auto simp: addMinutes_def)
  next
    case high
    then show thesis
      using up that [of "m_minute t + v smod 60 - 60"] assms(2) t1 by (auto simp: addMinutes_def)
  next
    case mid
    then show thesis
      using that [of "m_minute t + v smod 60" t1] assms(2) t1 by (auto simp: addMinutes_def)
  qed
  have "m_hour t2 * 60 + b = (m_hour t * 60 + m_minute t + v) mod (24 * 60) \<and> 0 \<le> b \<and> b < 60"
    by (rule carry_step [of 60 24 "m_minute t" "m_hour t1" "m_hour t" v "m_hour t2" b])
       (use m t1(3) t2(5-7) in simp_all)
  then show ?thesis using t2 by (simp add: time_wf_def minute_of_day_def)
qed

lemma minute_of_day_bounds: "time_wf t \<Longrightarrow> minute_of_day t mod 1440 = minute_of_day t"
  by (simp add: time_wf_def minute_of_day_def mod_pos_pos_trivial)

lemma second_of_day_bounds: "time_wf t \<Longrightarrow> second_of_day t mod 86400 = second_of_day t"
  by (simp add: time_wf_def second_of_day_def minute_of_day_def mod_pos_pos_trivial)

lemma addSeconds_ok:
  assumes "time_wf t" and "- 2147483648 < v" and "v < 2147483648"
  shows "\<exists>t'. addSeconds v t = Some t' \<and> time_wf t' \<and> second_of_day t' = (second_of_day t + v) mod 86400
    \<and> m_millisecond t' = m_millisecond t"
proof -
  let ?s = "m_second t + v smod 60"
  have m: "0 \<le> m_second t" "m_second t < 60" using assms(1) by (simp_all add: time_wf_def)
  have q: "v sdiv 60 * 60 + v smod 60 = v" "- 60 < v smod 60" "v smod 60 < 60"
    using sdiv_smod [of 60 v] smod_bounds [of 60 v] by simp_all
  obtain t1 where t1: "(if \<bar>v\<bar> \<ge> 60 then addMinutes (v sdiv 60) t else Some t) = Some t1" "time_wf t1"
      "minute_of_day t1 = (minute_of_day t + v sdiv 60) mod 1440" "m_second t1 = m_second t"
      "m_millisecond t1 = m_millisecond t"
  proof (cases "\<bar>v\<bar> \<ge> 60")
    case True
    have "- 2147483648 < v sdiv 60" "v sdiv 60 < 2147483648" using q assms by linarith+
    then show thesis using that addMinutes_ok [OF assms(1)] True by auto
  next
    case False
    then have "v sdiv 60 = 0" by (rule sdiv_small)
    then show thesis using that [of t] False assms(1) minute_of_day_bounds [of t] by simp
  qed
  have up: "\<exists>t2. addMinutes 1 t1 = Some t2 \<and> time_wf t2 \<and> minute_of_day t2 = (minute_of_day t1 + 1) mod 1440
      \<and> m_second t2 = m_second t1 \<and> m_millisecond t2 = m_millisecond t1"
    by (rule addMinutes_ok [OF t1(2)]) simp_all
  have down: "\<exists>t2. addMinutes (- 1) t1 = Some t2 \<and> time_wf t2 \<and> minute_of_day t2 = (minute_of_day t1 + - 1) mod 1440
      \<and> m_second t2 = m_second t1 \<and> m_millisecond t2 = m_millisecond t1"
    by (rule addMinutes_ok [OF t1(2)]) simp_all
  consider (low) "?s < 0" | (high) "60 \<le> ?s" | (mid) "0 \<le> ?s" "?s < 60" by linarith
  then obtain t2 b where t2: "addSeconds v t = Some (t2\<lparr>m_second := u8 b\<rparr>)" "time_wf t2"
      "m_millisecond t2 = m_millisecond t"
      "?s < 0 \<Longrightarrow> minute_of_day t2 = (minute_of_day t1 + - 1) mod 1440 \<and> b = ?s + 60"
      "60 \<le> ?s \<Longrightarrow> minute_of_day t2 = (minute_of_day t1 + 1) mod 1440 \<and> b = ?s - 60"
      "0 \<le> ?s \<Longrightarrow> ?s < 60 \<Longrightarrow> minute_of_day t2 = minute_of_day t1 \<and> b = ?s"
  proof cases
    case low
    then show thesis using down that [of "?s + 60"] assms(2) t1 by (auto simp: addSeconds_def)
  next
    case high
    then show thesis using up that [of "?s - 60"] assms(2) t1 by (auto simp: addSeconds_def)
  next
    case mid
    then show thesis using that [of ?s t1] assms(2) t1 by (auto simp: addSeconds_def)
  qed
  have "minute_of_day t2 * 60 + b = (minute_of_day t * 60 + m_second t + v) mod (1440 * 60) \<and> 0 \<le> b \<and> b < 60"
    by (rule carry_step [of 60 1440 "m_second t" "minute_of_day t1" "minute_of_day t" v "minute_of_day t2" b])
       (use m t1(3) t2(4-6) in simp_all)
  then show ?thesis using t2 by (simp add: time_wf_def second_of_day_def minute_of_day_def)
qed

lemma addMilliseconds_ok:
  assumes "time_wf t" and "- 2147483648 \<le> v" and "v < 2147483648"
  shows "\<exists>t'. addMilliseconds v t = Some t' \<and> time_wf t' \<and> ms_of_day t' = (ms_of_day t + v) mod 86400000"
proof -
  let ?s = "m_millisecond t + v smod 1000"
  have m: "0 \<le> m_millisecond t" "m_millisecond t < 1000" using assms(1) by (simp_all add: time_wf_def)
  have q: "v sdiv 1000 * 1000 + v smod 1000 = v" "- 1000 < v smod 1000" "v smod 1000 < 1000"
    using sdiv_smod [of 1000 v] smod_bounds [of 1000 v] by simp_all
  obtain t1 where t1: "(if \<bar>v sdiv 1000\<bar> > 0 then addSeconds (v sdiv 1000) t else Some t) = Some t1" "time_wf t1"
      "second_of_day t1 = (second_of_day t + v sdiv 1000) mod 86400" "m_millisecond t1 = m_millisecond t"
  proof (cases "\<bar>v sdiv 1000\<bar> > 0")
    case True
    have "- 2147483648 < v sdiv 1000" "v sdiv 1000 < 2147483648" using q assms by linarith+
    then show thesis using that addSeconds_ok [OF assms(1)] True by auto
  next
    case False
    then show thesis using that [of t] assms(1) second_of_day_bounds [of t] by simp
  qed
  have up: "\<exists>t2. addSeconds 1 t1 = Some t2 \<and> time_wf t2 \<and> second_of_day t2 = (second_of_day t1 + 1) mod 86400
      \<and> m_millisecond t2 = m_millisecond t1"
    by (rule addSeconds_ok [OF t1(2)]) simp_all
  have down: "\<exists>t2. addSeconds (- 1) t1 = Some t2 \<and> time_wf t2 \<and> second_of_day t2 = (second_of_day t1 + - 1) mod 86400
      \<and> m_millisecond t2 = m_millisecond t1"
    by (rule addSeconds_ok [OF t1(2)]) simp_all
  consider (low) "?s < 0" | (high) "1000 \<le> ?s" | (mid) "0 \<le> ?s" "?s < 1000" by linarith
  then obtain t2 b where t2: "addMilliseconds v t = Some (t2\<lparr>m_millisecond := u16 b\<rparr>)" "time_wf t2"
      "?s < 0 \<Longrightarrow> second_of_day t2 = (second_of_day t1 + - 1) mod 86400 \<and> b = ?s + 1000"
      "1000 \<le> ?s \<Longrightarrow> second_of_day t2 = (second_of_day t1 + 1) mod 86400 \<and> b = ?s - 1000"
      "0 \<le> ?s \<Longrightarrow> ?s < 1000 \<Longrightarrow> second_of_day t2 = second_of_day t1 \<and> b = ?s"
  proof cases
    case low
    then show thesis using down that [of "?s + 1000"] t1 by (auto simp: addMilliseconds_def)
  next
    case high
    then show thesis using up that [of "?s - 1000"] t1 by (auto simp: addMilliseconds_def)
  next
    case mid
    then show thesis using that [of ?s t1] t1 by (auto simp: addMilliseconds_def)
  qed
  have "second_of_day t2 * 1000 + b = (second_of_day t * 1000 + m_millisecond t + v) mod (86400 * 1000)
      \<and> 0 \<le> b \<and> b < 1000"
    by (rule carry_step [of 1000 86400 "m_millisecond t" "second_of_day t1" "second_of_day t" v "second_of_day t2" b])
       (use m t1(3) t2(3-5) in simp_all)
  then show ?thesis using t2 by (simp add: time_wf_def ms_of_day_def second_of_day_def minute_of_day_def)
qed

subsection \<open>Lemmas on the number form and the order\<close>

lemma time_set_number:
  assumes "time_wf t"
  shows "time_set (time_toNumber t) t0 = (None, t)"
proof -
  obtain h m s ms where t: "t = \<lparr>m_hour = h, m_minute = m, m_second = s, m_millisecond = ms\<rparr>"
    by (cases t)
  have b: "0 \<le> h" "h < 24" "0 \<le> m" "m < 60" "0 \<le> s" "s < 60" "0 \<le> ms" "ms < 1000"
    using assms by (simp_all add: time_wf_def t)
  have "(h * 10000000 + (m * 100000 + s * 1000 + ms)) div 10000000 = h"
    using b by (simp add: div_pos_pos_trivial)
  moreover have "(m * 100000 + (s * 1000 + ms)) div 100000 = m"
    using b by (simp add: div_pos_pos_trivial)
  moreover have "(s * 1000 + ms) div 1000 = s"
    using b by (simp add: div_pos_pos_trivial)
  moreover have "(10000000 * h + 100000 * m + s * 1000 + ms) mod 1000 = ms"
  proof -
    have e: "10000000 * h + 100000 * m + s * 1000 + ms = ms + (h * 10000 + m * 100 + s) * 1000" by simp
    show ?thesis unfolding e mod_mult_self1 using b by (simp add: mod_pos_pos_trivial)
  qed
  ultimately show ?thesis
    using b by (cases t0) (simp add: t time_set_def time_toNumber_def setHour_def setMinute_def
        setSecond_def setMillisecond_def Let_def algebra_simps)
qed

lemma time_less_ms:
  assumes "time_wf a" and "time_wf b"
  shows "time_less a b \<longleftrightarrow> ms_of_day a < ms_of_day b"
proof -
  have b: "0 \<le> m_minute a" "m_minute a < 60" "0 \<le> m_second a" "m_second a < 60"
    "0 \<le> m_millisecond a" "m_millisecond a < 1000" "0 \<le> m_minute b" "m_minute b < 60"
    "0 \<le> m_second b" "m_second b < 60" "0 \<le> m_millisecond b" "m_millisecond b < 1000"
    using assms by (simp_all add: time_wf_def)
  note defs = time_less_def time_toNumber_def ms_of_day_def second_of_day_def minute_of_day_def
  show ?thesis
  proof (cases "m_hour a = m_hour b")
    case h: True
    show ?thesis
    proof (cases "m_minute a = m_minute b")
      case m: True
      show ?thesis
        using b h m by (cases "m_second a" "m_second b" rule: linorder_cases) (auto simp: defs)
    next
      case False
      then show ?thesis
        using b h by (cases "m_minute a" "m_minute b" rule: linorder_cases) (auto simp: defs)
    qed
  next
    case False
    then show ?thesis
      using b by (cases "m_hour a" "m_hour b" rule: linorder_cases) (auto simp: defs)
  qed
qed

subsection \<open>Lemmas on printing and parsing\<close>

lemma set_digits_at: "c \<in> set (digits_at 10 w n) \<Longrightarrow> \<exists>d < 10. c = digit_char d"
  by (induction w arbitrary: n) (auto intro: exI [of _ "_ mod 10"])

lemma digit_char_plain:
  assumes "d < 10"
  shows "digit_char d \<noteq> CHR '':''" "digit_char d \<noteq> CHR ''.''" "digit_char d \<noteq> CHR '' ''"
    "digit_char d \<noteq> CHR ''-''" "digit_char d \<noteq> CHR ''+''" "digit_char d \<noteq> CHR ''/''" "\<not> isspace (digit_char d)"
proof -
  have code: "(of_char (digit_char d) :: nat) = 48 + d"
    using assms by (simp add: digit_char_def of_char_of)
  have ne: "digit_char d \<noteq> c" if "(of_char c :: nat) < 48 \<or> 57 < (of_char c :: nat)" for c
    using that code assms by auto
  show "digit_char d \<noteq> CHR '':''" "digit_char d \<noteq> CHR ''.''" "digit_char d \<noteq> CHR '' ''"
    "digit_char d \<noteq> CHR ''-''" "digit_char d \<noteq> CHR ''+''" "digit_char d \<noteq> CHR ''/''"
    by (rule ne; simp)+
  have "\<And>c. isspace c \<Longrightarrow> (of_char c :: nat) < 48" by (auto simp: isspace_def)
  then show "\<not> isspace (digit_char d)" using code by force
qed

lemma split_on_sep: "\<forall>c \<in> set w. \<not> P c \<Longrightarrow> P c \<Longrightarrow> split_on P (w @ c # rest) = w # split_on P rest"
  by (induction w) auto

lemma split_on_word: "\<forall>c \<in> set w. \<not> P c \<Longrightarrow> split_on P w = [w]"
  by (induction w) auto

lemma stoi_digits:
  assumes "n < 10 ^ w" and "0 < w" and "n < 2147483648"
  shows "stoi (digits_at 10 w n) = Some (int n)"
proof -
  obtain c cs where s: "digits_at 10 w n = c # cs"
    using assms(2) by (metis length_digits_at length_greater_0_conv neq_Nil_conv)
  then obtain d where "d < 10" "c = digit_char d" using set_digits_at [of c w n] by auto
  then have c: "\<not> isspace c" "c \<noteq> CHR ''-''" "c \<noteq> CHR ''+''" using digit_char_plain by auto
  have "digit_prefix 10 0 (digits_at 10 w n) = (n, [])"
    using digit_prefix_digits_at [of 10 0 w n "[]"] assms by simp
  then have "digit_prefix 10 0 (c # cs) = (n, [])" by (simp only: s)
  then show ?thesis
    using c assms(3) by (simp only: s stoi_def Let_def) (simp add: int_ok_def)
qed

lemma extractMs_digits: "n < 1000 \<Longrightarrow> extractMs (digits_at 10 3 n) = Some (int n)"
  by (simp only: extractMs_def length_digits_at) (simp add: stoi_digits)

lemma fmt_plain:
  assumes "fmt_dec_ok F" and "n < 100"
  shows "\<exists>w. 0 < w \<and> n < 10 ^ w \<and> F 0 n = digits_at 10 w n"
proof (cases "n < 10")
  case True
  then show ?thesis
    using assms(1) by (intro exI [of _ 1]) (simp add: fmt_dec_ok_def pad0_def numeral_str.simps [of 10 n])
next
  case False
  have "n div 10 < 10" using assms(2) by (simp add: less_mult_imp_div_less)
  then have "numeral_str 10 n = [digit_char (n div 10), digit_char (n mod 10)]"
    using False by (simp add: numeral_str.simps [of 10 n] numeral_str.simps [of 10 "n div 10"])
  then show ?thesis
    using assms False by (intro exI [of _ 2]) (simp add: fmt_dec_ok_def pad0_def numeral_2_eq_2)
qed

text \<open>Values the constructor takes as they are.\<close>

lemma Time4_wf:
  assumes "time_wf \<lparr>m_hour = h, m_minute = m, m_second = s, m_millisecond = ms\<rparr>"
    and "h > 0 \<or> m > 0 \<or> s > 0 \<or> ms > 0"
  shows "time_validate4 h m s ms = None"
    and "Time4 h m s ms = Inr \<lparr>m_hour = h, m_minute = m, m_second = s, m_millisecond = ms\<rparr>"
  using assms by (auto simp: time_wf_def time_validate4_def Time4_def time_validate_def)

text \<open>What a format keeps of a time.\<close>

definition time_kept :: "FormatPrecision \<Rightarrow> bool \<Rightarrow> time \<Rightarrow> time" where
  "time_kept precision ampm t =
     (case precision of
        Second \<Rightarrow> t\<lparr>m_millisecond := 0\<rparr>
      | Minute \<Rightarrow> t\<lparr>m_second := 0, m_millisecond := 0\<rparr>
      | _ \<Rightarrow> t)"

lemma parse_24h:
  assumes F: "fmt_dec_ok F" and sp: "split_ok split"
    and wf: "time_wf t" and "time_isValid t" and "time_isValid (time_kept precision False t)"
    and "precision \<noteq> Number"
  shows "time_parse split (time_serialize F t precision False) precision False =
    Some (Inr (time_kept precision False t))"
proof -
  obtain h m s ms where t: "t = \<lparr>m_hour = int h, m_minute = int m, m_second = int s, m_millisecond = int ms\<rparr>"
    using wf by (cases t) (metis time_wf_def nonneg_int_cases time.select_convs)
  have b: "h < 24" "m < 60" "s < 60" "ms < 1000" using wf by (simp_all add: t time_wf_def)
  let ?P = "\<lambda>c. c = CHR '':'' \<or> c = CHR ''.''"
  have f2: "F 2 n = digits_at 10 2 n" if "n < 60" for n
    by (rule fmt_dec_digits [OF F]) (use that in simp_all)
  have f3: "F 3 ms = digits_at 10 3 ms" by (rule fmt_dec_digits [OF F]) (use b in simp_all)
  have plain: "\<forall>c \<in> set (digits_at 10 w n). \<not> ?P c" for w n
    by (auto dest!: set_digits_at simp: digit_char_plain)
  have sep: "split_on ?P (digits_at 10 w n @ CHR '':'' # rest) = digits_at 10 w n # split_on ?P rest"
    "split_on ?P (digits_at 10 w n @ CHR ''.'' # rest) = digits_at 10 w n # split_on ?P rest" for w n rest
    using split_on_sep [OF plain, of _ w n rest] by simp_all
  have st: "stoi (digits_at 10 2 n) = Some (int n)" if "n < 60" for n
    by (rule stoi_digits) (use that in simp_all)
  have ne: "digits_at 10 2 n \<noteq> []" for n
    by (metis length_digits_at list.size(3) zero_neq_numeral)
  have sp': "split = split_on" using sp by (simp add: split_ok_def fun_eq_iff)
  have h60: "h < 60" using b by simp
  note eval = time_parse_def sp' sep split_on_word [OF plain] parse_parts_def apply_ampm_def
    st [OF h60] st [OF b(2)] st [OF b(3)] extractMs_digits ne
  show ?thesis
  proof (cases precision)
    case Minute
    then have v: "time_wf \<lparr>m_hour = int h, m_minute = int m, m_second = 0, m_millisecond = 0\<rparr>"
        "int h > 0 \<or> int m > 0 \<or> (0::int) > 0 \<or> (0::int) > 0"
      using b assms(5) by (simp_all add: time_wf_def time_kept_def time_isValid_def t)
    have "time_serialize F t Minute False = digits_at 10 2 h @ CHR '':'' # digits_at 10 2 m"
      using assms(4) by (simp add: time_serialize_def t f2 [OF h60] f2 [OF b(2)])
    then show ?thesis using Minute Time4_wf [OF v] by (simp add: eval) (simp add: time_kept_def t)
  next
    case Second
    then have v: "time_wf \<lparr>m_hour = int h, m_minute = int m, m_second = int s, m_millisecond = 0\<rparr>"
        "int h > 0 \<or> int m > 0 \<or> int s > 0 \<or> (0::int) > 0"
      using b assms(5) by (simp_all add: time_wf_def time_kept_def time_isValid_def t)
    have "time_serialize F t Second False =
        digits_at 10 2 h @ CHR '':'' # digits_at 10 2 m @ CHR '':'' # digits_at 10 2 s"
      using assms(4) by (simp add: time_serialize_def t f2 [OF h60] f2 [OF b(2)] f2 [OF b(3)])
    then show ?thesis using Second Time4_wf [OF v] by (simp add: eval) (simp add: time_kept_def t)
  next
    case Millisecond
    then have v: "time_wf \<lparr>m_hour = int h, m_minute = int m, m_second = int s, m_millisecond = int ms\<rparr>"
        "int h > 0 \<or> int m > 0 \<or> int s > 0 \<or> int ms > 0"
      using b assms(5) by (simp_all add: time_wf_def time_kept_def time_isValid_def t)
    have ser: "time_serialize F t Millisecond False =
        digits_at 10 2 h @ CHR '':'' # digits_at 10 2 m @ CHR '':'' # digits_at 10 2 s @
        (if ms > 0 then CHR ''.'' # digits_at 10 3 ms else [])"
      using assms(4) by (simp add: time_serialize_def t f2 [OF h60] f2 [OF b(2)] f2 [OF b(3)] f3)
    show ?thesis
    proof (cases "ms > 0")
      case True
      then show ?thesis using Millisecond Time4_wf [OF v] ser b by (simp add: eval) (simp add: time_kept_def t)
    next
      case False
      then show ?thesis using Millisecond Time4_wf [OF v] ser by (simp add: eval) (simp add: time_kept_def t)
    qed
  qed (use assms(6) in simp)
qed

lemma parse_12h:
  assumes F: "fmt_dec_ok F" and sp: "split_ok split"
    and wf: "time_wf t" and "time_isValid t" and "time_isValid (time_kept precision True t)"
    and "precision = Second \<or> precision = Minute"
  shows "time_parse split (time_serialize F t precision True) precision True =
    Some (Inr (time_kept precision True t))"
proof -
  obtain h m s ms where t: "t = \<lparr>m_hour = int h, m_minute = int m, m_second = int s, m_millisecond = int ms\<rparr>"
    using wf by (cases t) (metis time_wf_def nonneg_int_cases time.select_convs)
  have b: "h < 24" "m < 60" "s < 60" using wf by (simp_all add: t time_wf_def)
  let ?P = "\<lambda>c. c = CHR '':'' \<or> c = CHR '' ''"
  define h1 where "h1 = (if h \<ge> 12 then h - 12 else h)"
  define h12 where "h12 = (if h1 = 0 then 12 else h1)"
  define half where "half = (if h \<ge> 12 then ''p.m.'' else ''a.m.'')"
  have h12: "h12 < 100" using b by (auto simp: h12_def h1_def)
  obtain w where w: "0 < w" "h12 < 10 ^ w" "F 0 h12 = digits_at 10 w h12"
    using fmt_plain [OF F h12] by blast
  have hour: "apply_ampm True half (int h12) = Some (int h)"
    using b by (auto simp: apply_ampm_def half_def h12_def h1_def)
  have f2: "F 2 n = digits_at 10 2 n" if "n < 60" for n
    by (rule fmt_dec_digits [OF F]) (use that in simp_all)
  have plain: "\<forall>c \<in> set (digits_at 10 k n). \<not> ?P c" for k n
    by (auto dest!: set_digits_at simp: digit_char_plain)
  have sep: "split_on ?P (digits_at 10 k n @ CHR '':'' # rest) = digits_at 10 k n # split_on ?P rest"
    "split_on ?P (digits_at 10 k n @ CHR '' '' # rest) = digits_at 10 k n # split_on ?P rest" for k n rest
    using split_on_sep [OF plain, of _ k n rest] by simp_all
  have half_word: "split_on ?P half = [half]" by (rule split_on_word) (simp add: half_def)
  have st: "stoi (digits_at 10 2 n) = Some (int n)" if "n < 60" for n
    by (rule stoi_digits) (use that in simp_all)
  have sth: "stoi (digits_at 10 w h12) = Some (int h12)"
    by (rule stoi_digits) (use w h12 in simp_all)
  have sp': "split = split_on" using sp by (simp add: split_ok_def fun_eq_iff)
  note eval = time_parse_def sp' sep half_word parse_parts_def hour st [OF b(2)] st [OF b(3)] sth
  show ?thesis
  proof (cases "precision = Second")
    case True
    then have v: "time_wf \<lparr>m_hour = int h, m_minute = int m, m_second = int s, m_millisecond = 0\<rparr>"
        "int h > 0 \<or> int m > 0 \<or> int s > 0 \<or> (0::int) > 0"
      using b assms(5) by (simp_all add: time_wf_def time_kept_def time_isValid_def t)
    have "time_serialize F t Second True = F 0 h12 @ CHR '':'' # digits_at 10 2 m
        @ CHR '':'' # digits_at 10 2 s @ CHR '' '' # half"
      using assms(4)
      by (auto simp: time_serialize_def t f2 [OF b(2)] f2 [OF b(3)] half_def h12_def h1_def Let_def)
    then have "time_serialize F t Second True = digits_at 10 w h12 @ CHR '':'' # digits_at 10 2 m
        @ CHR '':'' # digits_at 10 2 s @ CHR '' '' # half"
      unfolding w(3) .
    then show ?thesis using True Time4_wf [OF v] by (simp add: eval) (simp add: time_kept_def t)
  next
    case False
    then have p: "precision = Minute" using assms(6) by simp
    then have v: "time_wf \<lparr>m_hour = int h, m_minute = int m, m_second = 0, m_millisecond = 0\<rparr>"
        "int h > 0 \<or> int m > 0 \<or> (0::int) > 0 \<or> (0::int) > 0"
      using b assms(5) by (simp_all add: time_wf_def time_kept_def time_isValid_def t)
    have "time_serialize F t Minute True = F 0 h12 @ CHR '':'' # digits_at 10 2 m @ CHR '' '' # half"
      using assms(4)
      by (auto simp: time_serialize_def t f2 [OF b(2)] half_def h12_def h1_def Let_def)
    then have "time_serialize F t Minute True = digits_at 10 w h12 @ CHR '':'' # digits_at 10 2 m
        @ CHR '' '' # half"
      unfolding w(3) .
    then show ?thesis using p Time4_wf [OF v] by (simp add: eval) (simp add: time_kept_def t)
  qed
qed

subsection \<open>Properties\<close>

text \<open>C33: for every \<open>int\<close> of either sign, adding it as milliseconds, seconds, minutes or hours to a time with its
  fields in range is addition modulo a day: the carries through the fields and the truncating division and remainder
  of C++ come out right. No \<open>int\<close> overflows on the way, but for the least \<open>int\<close> as seconds or minutes, of which
  \<open>abs\<close> is taken, and for hours whose sum with those of the time is more than the greatest \<open>int\<close>.\<close>

theorem time_arithmetic_mod_day:
  assumes "time_wf t" and "int_ok v"
  shows "(\<exists>a. addMilliseconds v t = Some a \<and> time_wf a \<and> ms_of_day a = (ms_of_day t + v) mod 86400000)
    \<and> (if v = - 2147483648 then addSeconds v t = None \<and> addMinutes v t = None
       else \<exists>b c. addSeconds v t = Some b \<and> addMinutes v t = Some c \<and> time_wf b \<and> time_wf c
         \<and> second_of_day b = (second_of_day t + v) mod 86400 \<and> m_millisecond b = m_millisecond t
         \<and> minute_of_day c = (minute_of_day t + v) mod 1440
         \<and> m_second c = m_second t \<and> m_millisecond c = m_millisecond t)
    \<and> (if m_hour t + v > 2147483647 then addHours v t = None
       else \<exists>d. addHours v t = Some d \<and> time_wf d \<and> m_hour d = (m_hour t + v) mod 24
         \<and> m_minute d = m_minute t \<and> m_second d = m_second t \<and> m_millisecond d = m_millisecond t)"
proof -
  have v: "- 2147483648 \<le> v" "v < 2147483648" using assms(2) by (simp_all add: int_ok_def)
  have "if v = - 2147483648 then addSeconds v t = None \<and> addMinutes v t = None
       else \<exists>b c. addSeconds v t = Some b \<and> addMinutes v t = Some c \<and> time_wf b \<and> time_wf c
         \<and> second_of_day b = (second_of_day t + v) mod 86400 \<and> m_millisecond b = m_millisecond t
         \<and> minute_of_day c = (minute_of_day t + v) mod 1440
         \<and> m_second c = m_second t \<and> m_millisecond c = m_millisecond t"
    using addSeconds_ok [OF assms(1), of v] addMinutes_ok [OF assms(1), of v] v
    by (cases "v = - 2147483648") (simp add: addSeconds_def addMinutes_def, fastforce)
  moreover have "if m_hour t + v > 2147483647 then addHours v t = None
       else \<exists>d. addHours v t = Some d \<and> time_wf d \<and> m_hour d = (m_hour t + v) mod 24
         \<and> m_minute d = m_minute t \<and> m_second d = m_second t \<and> m_millisecond d = m_millisecond t"
    using addHours_defined [OF assms(1) v(1)] by (simp add: addHours_def int_ok_def)
  ultimately show ?thesis using addMilliseconds_ok [OF assms(1) v] by blast
qed

theorem time_arithmetic_mod_day_witness:
  "\<exists>a. addMilliseconds (-90061001) \<lparr>m_hour = 1, m_minute = 1, m_second = 1, m_millisecond = 0\<rparr> = Some a
     \<and> ms_of_day a = (3661000 + -90061001) mod 86400000"
proof -
  have "time_wf \<lparr>m_hour = 1, m_minute = 1, m_second = 1, m_millisecond = 0\<rparr>" by (simp add: time_wf_def)
  moreover have "ms_of_day \<lparr>m_hour = 1, m_minute = 1, m_second = 1, m_millisecond = 0\<rparr> = 3661000"
    by (simp add: ms_of_day_def second_of_day_def minute_of_day_def)
  moreover have "int_ok (-90061001)" by (simp add: int_ok_def)
  ultimately show ?thesis
    using time_arithmetic_mod_day [of "\<lparr>m_hour = 1, m_minute = 1, m_second = 1, m_millisecond = 0\<rparr>" "-90061001"]
    by metis
qed

text \<open>C25: a time in range printed with minutes or seconds, in the 24-hour or the 12-hour form, or with
  milliseconds in the 24-hour form, parses back to itself with the fields the format leaves out set to zero, provided
  what is left is not midnight, which the class takes for an invalid time. The number format is left out, whose texts
  with milliseconds are undefined behaviour to parse, and the 12-hour form with milliseconds.\<close>

theorem time_text_roundtrip:
  assumes "fmt_dec_ok F" and "split_ok split" and "time_wf t"
    and "time_isValid t" and "time_isValid (time_kept precision ampm t)"
    and "precision = Second \<or> precision = Minute \<or> precision = Millisecond \<and> \<not> ampm"
  shows "time_parse split (time_serialize F t precision ampm) precision ampm =
    Some (Inr (time_kept precision ampm t))"
proof (cases ampm)
  case True
  then show ?thesis using parse_12h [OF assms(1-4), of precision] assms(5,6) by auto
next
  case False
  then show ?thesis using parse_24h [OF assms(1-4), of precision] assms(5,6) by auto
qed

theorem time_text_roundtrip_witness:
  "time_parse split_on
     (time_serialize (\<lambda>w n. pad0 w (numeral_str 10 n))
        \<lparr>m_hour = 0, m_minute = 5, m_second = 59, m_millisecond = 7\<rparr> Second True) Second True =
   Some (Inr (time_kept Second True \<lparr>m_hour = 0, m_minute = 5, m_second = 59, m_millisecond = 7\<rparr>))"
  by (rule time_text_roundtrip)
     (simp_all add: fmt_dec_ok_pad split_ok_def time_wf_def time_isValid_def time_kept_def)

text \<open>In the number format a time with milliseconds prints a point and three digits, and parsing
  any such text whose number is a time reads the third of two parts: undefined behaviour.\<close>

theorem time_number_format_undefined:
  assumes "split_ok split" and "stoi num = Some n" and "0 \<le> n" and "Time1 (n * 1000) = Inr t"
    and "list_all (\<lambda>c. c \<noteq> CHR '':'' \<and> c \<noteq> CHR ''.'') num"
    and "list_all (\<lambda>c. c \<noteq> CHR '':'' \<and> c \<noteq> CHR ''.'') frac"
  shows "time_parse split (num @ ''.'' @ frac) Number False = None"
proof -
  let ?P = "\<lambda>c. c = CHR '':'' \<or> c = CHR ''.''"
  have "split_on ?P (num @ CHR ''.'' # frac) = [num, frac]"
    using split_on_sep [of num ?P "CHR ''.''" frac] split_on_word [of frac ?P] assms(5,6)
    by (simp add: list_all_iff)
  then show ?thesis using assms by (simp add: time_parse_def split_ok_def)
qed

theorem time_number_format_undefined_witness:
  "time_parse split_on (''101500'' @ ''.'' @ ''250'') Number False = None"
proof (rule time_number_format_undefined)
  show "stoi ''101500'' = Some 101500" by (simp add: stoi_def isspace_def digit_val_def int_ok_def)
  show "Time1 (101500 * 1000) = Inr \<lparr>m_hour = 10, m_minute = 15, m_second = 0, m_millisecond = 0\<rparr>"
    by (simp add: Time1_def time_set_def time_default_def setHour_def setMinute_def setSecond_def
        setMillisecond_def)
qed (simp_all add: split_ok_def)

text \<open>\<open>set\<close> reads back the number form of every time in range, whatever the object held, and
  accepts no other numbers: what it accepts is the number form of the time it sets.\<close>

theorem time_number_roundtrip:
  assumes "0 \<le> v"
  shows "(time_wf t \<longrightarrow> time_set (time_toNumber t) t0 = (None, t))
    \<and> (time_set v t0 = (None, t') \<longrightarrow> time_wf t' \<and> time_toNumber t' = v)"
proof -
  have "time_wf t' \<and> time_toNumber t' = v" if set: "time_set v t0 = (None, t')"
  proof -
    define h m s ms where "h = v div 10000000" and "m = (v - h * 10000000) div 100000"
      and "s = (v - h * 10000000 - m * 100000) div 1000" and "ms = v mod 1000"
    note defs = h_def m_def s_def ms_def
    have parts: "v = h * 10000000 + (v - h * 10000000)" "0 \<le> v - h * 10000000"
        "v - h * 10000000 = m * 100000 + (v - h * 10000000 - m * 100000)"
        "0 \<le> v - h * 10000000 - m * 100000"
      using div_mult_mod_eq [of v 10000000] div_mult_mod_eq [of "v - h * 10000000" 100000]
        pos_mod_sign [of 10000000 v] pos_mod_sign [of 100000 "v - h * 10000000"]
      by (simp_all add: h_def m_def)
    have s: "v - h * 10000000 - m * 100000 = s * 1000 + ms"
    proof -
      have "(v - h * 10000000 - m * 100000) mod 1000 = (v + (- h * 10000 - m * 100) * 1000) mod 1000"
        by (simp add: algebra_simps)
      also have "\<dots> = ms" by (simp only: mod_mult_self1 ms_def)
      finally show ?thesis
        using div_mult_mod_eq [of "v - h * 10000000 - m * 100000" 1000] by (simp add: s_def)
    qed
    have nn: "0 \<le> h" "0 \<le> m" "0 \<le> s" "0 \<le> ms" "ms < 1000"
      using assms parts by (simp_all add: h_def m_def s_def ms_def pos_imp_zdiv_nonneg_iff)
    have "h < 24 \<and> m < 60 \<and> s < 60 \<and> t' = \<lparr>m_hour = u8 h, m_minute = u8 m, m_second = u8 s, m_millisecond = u16 ms\<rparr>"
      using set unfolding time_set_def Let_def h_def [symmetric] m_def [symmetric] s_def [symmetric] ms_def [symmetric]
      by (cases t0) (auto simp: setHour_def setMinute_def setSecond_def setMillisecond_def split: if_splits)
    then show ?thesis
      using nn s parts by (simp add: time_wf_def time_toNumber_def)
  qed
  then show ?thesis using time_set_number by blast
qed

theorem time_number_roundtrip_witness:
  "time_set (time_toNumber \<lparr>m_hour = 23, m_minute = 59, m_second = 1, m_millisecond = 999\<rparr>) time_default =
     (None, \<lparr>m_hour = 23, m_minute = 59, m_second = 1, m_millisecond = 999\<rparr>)"
  using time_number_roundtrip [of 0 "\<lparr>m_hour = 23, m_minute = 59, m_second = 1, m_millisecond = 999\<rparr>" time_default]
  by (simp add: time_wf_def)

text \<open>The comparison by number form orders times in range as their position in the day does.\<close>

theorem time_order_is_position:
  assumes "time_wf a" and "time_wf b"
  shows "(time_less a b \<longleftrightarrow> ms_of_day a < ms_of_day b) \<and> (time_eq a b \<longleftrightarrow> ms_of_day a = ms_of_day b)
    \<and> (time_le a b \<longleftrightarrow> time_less a b \<or> time_eq a b)"
proof -
  have eq: "a = b" if "ms_of_day a = ms_of_day b"
  proof -
    have "\<not> time_less a b" "\<not> time_less b a"
      unfolding time_less_ms [OF assms] time_less_ms [OF assms(2,1)] that by simp_all
    then have n: "time_toNumber a = time_toNumber b" by (simp add: time_less_def)
    have "time_set (time_toNumber a) time_default = (None, b)"
      unfolding n by (rule time_set_number [OF assms(2)])
    then show ?thesis using time_set_number [OF assms(1), of time_default] by (metis prod.inject)
  qed
  have same: "time_eq a b \<longleftrightarrow> ms_of_day a = ms_of_day b"
  proof
    assume "time_eq a b"
    then have "a = b" by (cases a; cases b) (simp add: time_eq_def)
    then show "ms_of_day a = ms_of_day b" by simp
  next
    assume "ms_of_day a = ms_of_day b"
    then show "time_eq a b" using eq by (simp add: time_eq_def)
  qed
  have "time_le a b \<longleftrightarrow> \<not> time_less b a" by (auto simp: time_le_def time_less_def)
  then show ?thesis
    using time_less_ms [OF assms] time_less_ms [OF assms(2,1)] unfolding same by linarith
qed

text \<open>Negative numbers pass the checks and are cut to the width of the field: \<open>setHour(-1)\<close>
  reports success and leaves the hour 255, and the text \<open>-256:30:00\<close> parses as half past midnight.\<close>

theorem time_negative_accepted:
  "setHour (-1) t = (None, t\<lparr>m_hour := 255\<rparr>)
   \<and> (split_ok split \<longrightarrow>
       time_parse split ''-256:30:00'' Second False =
         Some (Inr \<lparr>m_hour = 0, m_minute = 30, m_second = 0, m_millisecond = 0\<rparr>))"
proof -
  have "time_parse split_on ''-256:30:00'' Second False =
      Some (Inr \<lparr>m_hour = 0, m_minute = 30, m_second = 0, m_millisecond = 0\<rparr>)"
    by code_simp
  then show ?thesis by (simp add: setHour_def u8_def split_ok_def time_parse_def)
qed

theorem time_negative_accepted_witness:
  "time_parse split_on ''-256:30:00'' Second False =
     Some (Inr \<lparr>m_hour = 0, m_minute = 30, m_second = 0, m_millisecond = 0\<rparr>)"
  using time_negative_accepted [of time_default split_on] by (simp add: split_ok_def)

end
