(* ===== verification/CalDate.thy ===== *)
theory CalDate
  imports TimeOfDay
begin

section \<open>Dates and date ranges: common/date.h, daterange.h, common/src/datetime.cpp\<close>

text \<open>
  The classes \<open>Date\<close> and \<open>DateRange\<close>. The calendar is \<open>boost::gregorian\<close>: a record \<open>G\<close> of the
  functions the code calls, each with the outcome \<open>None\<close> where the library throws. What the
  library documents about them is \<open>greg_ok\<close>, stated with a calendar of its own below; the
  formatting function \<open>F\<close> and \<open>split\<close> are as in \<open>TimeOfDay\<close>.
\<close>

record date =
  d_year :: int
  d_month :: int
  d_day :: int

datatype DateFormat =
    Iso | IsoSlash | DateNumber | EuropeDot | UsDot | EuropeSlash | UsSlash
  | EuropeShortDot | UsShortDot | EuropeShortSlash | UsShortSlash

datatype date_error = INVALID_DATE_FORMAT | INVALID_DATERANGE_FORMAT

text \<open>
  How a call ends: with a value, with an error returned, with an exception, or, when an exception
  leaves a \<open>noexcept\<close> function, with the end of the program. A signed overflow is \<open>Undefined\<close>.
\<close>

datatype 'a outcome = Value 'a | Error date_error | Exception | Terminated | Undefined

text \<open>
  The functions of \<open>boost::gregorian\<close>, on year, month and day; \<open>g_valid\<close> says whether the
  constructor of a date accepts them, \<open>None\<close> is an exception of the constructor or the function.
\<close>

record greg =
  g_valid :: "int \<times> int \<times> int \<Rightarrow> bool"
  g_end_of_month :: "int \<Rightarrow> int \<Rightarrow> int option"
  g_is_leap :: "int \<Rightarrow> bool option"
  g_add_days :: "int \<times> int \<times> int \<Rightarrow> int \<Rightarrow> (int \<times> int \<times> int) option"
  g_add_months :: "int \<times> int \<times> int \<Rightarrow> int \<Rightarrow> (int \<times> int \<times> int) option"
  g_add_years :: "int \<times> int \<times> int \<Rightarrow> int \<Rightarrow> (int \<times> int \<times> int) option"
  g_day_of_week :: "int \<times> int \<times> int \<Rightarrow> int option"
  g_day_of_year :: "int \<times> int \<times> int \<Rightarrow> int option"
  g_week_number :: "int \<times> int \<times> int \<Rightarrow> int option"

subsection \<open>Date\<close>

definition date_default :: date where
  "date_default = \<lparr>d_year = 0, d_month = 0, d_day = 0\<rparr>"

definition date_ymd :: "date \<Rightarrow> int \<times> int \<times> int" where
  "date_ymd dt = (d_year dt, d_month dt, d_day dt)"

definition daysInMonth :: "greg \<Rightarrow> int \<Rightarrow> int \<Rightarrow> int outcome" where
  "daysInMonth G year month =
     (case g_end_of_month G year month of Some n \<Rightarrow> Value n | None \<Rightarrow> Exception)"

definition isLeapYear :: "greg \<Rightarrow> int \<Rightarrow> bool outcome" where
  "isLeapYear G year = (case g_is_leap G year of Some b \<Rightarrow> Value b | None \<Rightarrow> Exception)"

text \<open>\<open>validate(year, month, day)\<close> is \<open>noexcept\<close> and calls \<open>daysInMonth\<close>, which is not.\<close>

definition date_validate3 :: "greg \<Rightarrow> int \<Rightarrow> int \<Rightarrow> int \<Rightarrow> unit outcome" where
  "date_validate3 G year month day =
     (if month > 12 \<or> day > 31 \<or> month = 0 \<or> day = 0 \<or> year = 0 then Error INVALID_DATE_FORMAT
      else case daysInMonth G (u16 year) (u8 month) of
        Value n \<Rightarrow> if day > n then Error INVALID_DATE_FORMAT else Value ()
      | _ \<Rightarrow> Terminated)"

definition date_reset :: "date \<Rightarrow> date" where
  "date_reset dt = dt\<lparr>d_year := 0, d_month := 0, d_day := 0\<rparr>"

text \<open>The member \<open>validate\<close>: the outcome and the object, reset when invalid if so asked.\<close>

definition date_validate :: "greg \<Rightarrow> bool \<Rightarrow> date \<Rightarrow> unit outcome \<times> date" where
  "date_validate G resetInvalid dt =
     (let ec = date_validate3 G (d_year dt) (d_month dt) (d_day dt)
      in (ec, if ec = Error INVALID_DATE_FORMAT \<and> resetInvalid then date_reset dt else dt))"

definition Date3 :: "greg \<Rightarrow> int \<Rightarrow> int \<Rightarrow> int \<Rightarrow> date outcome" where
  "Date3 G year month day =
     (let dt = \<lparr>d_year = u16 year, d_month = u8 month, d_day = u8 day\<rparr>
      in case date_validate G True dt of
           (Value _, dt') \<Rightarrow> Value dt'
         | (Error e, dt') \<Rightarrow> Exception
         | (Exception, dt') \<Rightarrow> Exception
         | (Terminated, dt') \<Rightarrow> Terminated
         | (Undefined, dt') \<Rightarrow> Undefined)"

definition date_set :: "greg \<Rightarrow> int \<Rightarrow> date \<Rightarrow> unit outcome \<times> date" where
  "date_set G v dt =
     (let year = v div 10000; month = (v - year * 10000) div 100; day = v mod 100
      in case date_validate3 G year month day of
           Value _ \<Rightarrow> (Value (), dt\<lparr>d_year := u16 year, d_month := u8 month, d_day := u8 day\<rparr>)
         | ec \<Rightarrow> (ec, dt))"

definition Date1 :: "greg \<Rightarrow> int \<Rightarrow> date outcome" where
  "Date1 G v =
     (case date_set G v date_default of
        (Value _, dt) \<Rightarrow> Value dt
      | (Error e, dt) \<Rightarrow> Exception
      | (Exception, dt) \<Rightarrow> Exception
      | (Terminated, dt) \<Rightarrow> Terminated
      | (Undefined, dt) \<Rightarrow> Undefined)"

definition date_toNumber :: "date \<Rightarrow> int" where
  "date_toNumber dt = d_year dt * 10000 + d_month dt * 100 + d_day dt"

definition setYear :: "int \<Rightarrow> date \<Rightarrow> date_error option \<times> date" where
  "setYear v dt =
     (if v = 0 then (Some INVALID_DATE_FORMAT, dt) else (None, dt\<lparr>d_year := u16 v\<rparr>))"

definition setMonth :: "int \<Rightarrow> date \<Rightarrow> date_error option \<times> date" where
  "setMonth v dt =
     (if v > 12 \<or> v = 0 then (Some INVALID_DATE_FORMAT, dt) else (None, dt\<lparr>d_month := u8 v\<rparr>))"

definition setDay :: "int \<Rightarrow> date \<Rightarrow> date_error option \<times> date" where
  "setDay v dt =
     (if v > 31 \<or> v = 0 then (Some INVALID_DATE_FORMAT, dt) else (None, dt\<lparr>d_day := u8 v\<rparr>))"

definition date_isValid :: "date \<Rightarrow> bool" where
  "date_isValid dt \<longleftrightarrow> d_year dt \<ge> 1970 \<or> d_month dt \<ge> 1 \<or> d_day dt \<ge> 1"

definition date_isNull :: "date \<Rightarrow> bool" where "date_isNull dt \<longleftrightarrow> \<not> date_isValid dt"

definition date_eq :: "date \<Rightarrow> date \<Rightarrow> bool" where
  "date_eq a b \<longleftrightarrow> d_year a = d_year b \<and> d_month a = d_month b \<and> d_day a = d_day b"

definition date_less :: "date \<Rightarrow> date \<Rightarrow> bool" where
  "date_less a b \<longleftrightarrow> date_toNumber a < date_toNumber b"

definition date_le :: "date \<Rightarrow> date \<Rightarrow> bool" where
  "date_le a b \<longleftrightarrow> date_toNumber a \<le> date_toNumber b"

definition date_ge :: "date \<Rightarrow> date \<Rightarrow> bool" where
  "date_ge a b \<longleftrightarrow> date_toNumber a \<ge> date_toNumber b"

text \<open>The fields taken back from the library's date after an addition.\<close>

definition from_boost :: "(int \<times> int \<times> int) option \<Rightarrow> date outcome" where
  "from_boost r =
     (case r of
        None \<Rightarrow> Exception
      | Some (y, m, d) \<Rightarrow> Value \<lparr>d_year = u16 y, d_month = u8 m, d_day = u8 d\<rparr>)"

definition date_addDays :: "greg \<Rightarrow> int \<Rightarrow> date \<Rightarrow> date outcome" where
  "date_addDays G v dt = (if date_isNull dt then Exception else from_boost (g_add_days G (date_ymd dt) v))"

definition date_addMonths :: "greg \<Rightarrow> int \<Rightarrow> date \<Rightarrow> date outcome" where
  "date_addMonths G v dt = (if date_isNull dt then Exception else from_boost (g_add_months G (date_ymd dt) v))"

definition date_addYears :: "greg \<Rightarrow> int \<Rightarrow> date \<Rightarrow> date outcome" where
  "date_addYears G v dt = (if date_isNull dt then Exception else from_boost (g_add_years G (date_ymd dt) v))"

definition dayOfWeek :: "greg \<Rightarrow> date \<Rightarrow> int outcome" where
  "dayOfWeek G dt =
     (if date_isNull dt then Value 0
      else case g_day_of_week G (date_ymd dt) of Some n \<Rightarrow> Value (u8 n) | None \<Rightarrow> Exception)"

definition dayOfYear :: "greg \<Rightarrow> date \<Rightarrow> int outcome" where
  "dayOfYear G dt =
     (if date_isNull dt then Value 0
      else case g_day_of_year G (date_ymd dt) of Some n \<Rightarrow> Value (u16 n) | None \<Rightarrow> Exception)"

definition weekNumber :: "greg \<Rightarrow> date \<Rightarrow> int outcome" where
  "weekNumber G dt =
     (if date_isNull dt then Value 0
      else case g_week_number G (date_ymd dt) of Some n \<Rightarrow> Value (u16 n) | None \<Rightarrow> Exception)"

subsection \<open>Printing and parsing\<close>

definition date_serialize :: "(nat \<Rightarrow> nat \<Rightarrow> string) \<Rightarrow> date \<Rightarrow> DateFormat \<Rightarrow> string" where
  "date_serialize F dt format =
     (let y = nat (d_year dt); m = nat (d_month dt); d = nat (d_day dt); shortYear = y mod 100
      in if \<not> date_isValid dt then ''invalid''
         else case format of
           DateNumber \<Rightarrow> F 4 y @ F 2 m @ F 2 d
         | Iso \<Rightarrow> F 4 y @ ''-'' @ F 2 m @ ''-'' @ F 2 d
         | IsoSlash \<Rightarrow> F 4 y @ ''/'' @ F 2 m @ ''/'' @ F 2 d
         | EuropeDot \<Rightarrow> F 2 d @ ''.'' @ F 2 m @ ''.'' @ F 4 y
         | UsDot \<Rightarrow> F 2 m @ ''.'' @ F 2 d @ ''.'' @ F 4 y
         | EuropeShortDot \<Rightarrow> F 2 d @ ''.'' @ F 2 m @ ''.'' @ F 2 shortYear
         | UsShortDot \<Rightarrow> F 2 m @ ''.'' @ F 2 d @ ''.'' @ F 2 shortYear
         | EuropeSlash \<Rightarrow> F 2 d @ ''/'' @ F 2 m @ ''/'' @ F 4 y
         | UsSlash \<Rightarrow> F 2 m @ ''/'' @ F 2 d @ ''/'' @ F 4 y
         | EuropeShortSlash \<Rightarrow> F 2 d @ ''/'' @ F 2 m @ ''/'' @ F 2 shortYear
         | UsShortSlash \<Rightarrow> F 2 m @ ''/'' @ F 2 d @ ''/'' @ F 2 shortYear)"

text \<open>The positions of year, month and day, the delimiter and whether the year is short.\<close>

definition parse_layout :: "DateFormat \<Rightarrow> nat \<times> nat \<times> nat \<times> char \<times> bool" where
  "parse_layout format =
     (case format of
        IsoSlash \<Rightarrow> (0, 1, 2, CHR ''/'', False)
      | EuropeShortDot \<Rightarrow> (2, 1, 0, CHR ''.'', True)
      | EuropeDot \<Rightarrow> (2, 1, 0, CHR ''.'', False)
      | UsShortDot \<Rightarrow> (2, 0, 1, CHR ''.'', True)
      | UsDot \<Rightarrow> (2, 0, 1, CHR ''.'', False)
      | EuropeShortSlash \<Rightarrow> (2, 1, 0, CHR ''/'', True)
      | EuropeSlash \<Rightarrow> (2, 1, 0, CHR ''/'', False)
      | UsShortSlash \<Rightarrow> (2, 0, 1, CHR ''/'', True)
      | UsSlash \<Rightarrow> (2, 0, 1, CHR ''/'', False)
      | _ \<Rightarrow> (0, 1, 2, CHR ''-'', False))"

text \<open>
  The loop over the three parts; an exception of \<open>stoi\<close> is caught and is the invalid format.
\<close>

fun parse_fields ::
    "nat \<Rightarrow> nat \<Rightarrow> nat \<Rightarrow> bool \<Rightarrow> int \<Rightarrow> nat \<Rightarrow> string list \<Rightarrow> date \<Rightarrow> date outcome" where
  "parse_fields yearPos monthPos dayPos shortYear baseShortYear i [] dt = Value dt"
| "parse_fields yearPos monthPos dayPos shortYear baseShortYear i (p # ps) dt =
     (case stoi p of
        None \<Rightarrow> Error INVALID_DATE_FORMAT
      | Some val \<Rightarrow>
          if val < 0 then Error INVALID_DATE_FORMAT
          else if i = yearPos \<and> shortYear \<and> \<not> int_ok (baseShortYear + val) then Undefined
          else
            let dt' = (if i = yearPos then
                         dt\<lparr>d_year := u16 (if shortYear then baseShortYear + val else val)\<rparr>
                       else if i = monthPos then dt\<lparr>d_month := u8 val\<rparr>
                       else if i = dayPos then dt\<lparr>d_day := u8 val\<rparr>
                       else dt)
            in parse_fields yearPos monthPos dayPos shortYear baseShortYear (Suc i) ps dt')"

definition date_parse ::
    "greg \<Rightarrow> ((char \<Rightarrow> bool) \<Rightarrow> string \<Rightarrow> string list) \<Rightarrow> string \<Rightarrow> DateFormat \<Rightarrow> int \<Rightarrow> date outcome" where
  "date_parse G split str format baseShortYear =
     (if str = [] then Value date_default
      else if format = DateNumber then
        case stoi str of
          None \<Rightarrow> Error INVALID_DATE_FORMAT
        | Some num \<Rightarrow>
            if num < 0 then Error INVALID_DATE_FORMAT
            else (case date_set G num date_default of
                    (Value _, dt) \<Rightarrow> Value dt
                  | (Error e, _) \<Rightarrow> Error e
                  | (Exception, _) \<Rightarrow> Error INVALID_DATE_FORMAT
                  | (Terminated, _) \<Rightarrow> Terminated
                  | (Undefined, _) \<Rightarrow> Undefined)
      else
        let (yearPos, monthPos, dayPos, delimiter, shortYear) = parse_layout format;
            parts = split (\<lambda>c. c = delimiter) str
        in if length parts \<noteq> 3 then Error INVALID_DATE_FORMAT
           else case parse_fields yearPos monthPos dayPos shortYear baseShortYear 0 parts date_default of
             Value dt \<Rightarrow>
               (case date_validate G True dt of
                  (Value _, dt') \<Rightarrow> Value dt'
                | (Error e, _) \<Rightarrow> Error e
                | (Exception, _) \<Rightarrow> Error INVALID_DATE_FORMAT
                | (Terminated, _) \<Rightarrow> Terminated
                | (Undefined, _) \<Rightarrow> Undefined)
           | r \<Rightarrow> r)"

subsection \<open>DateRange\<close>

text \<open>A range is one number: the type, the year and the number of the range in the year.\<close>

type_synonym date_range = int

definition dr_isValid :: "date_range \<Rightarrow> bool" where "dr_isValid r \<longleftrightarrow> r \<noteq> 0"

definition dr_type :: "date_range \<Rightarrow> int" where "dr_type r = r div (1000 * 10000)"

definition dr_range :: "date_range \<Rightarrow> int" where "dr_range r = r mod 1000"

definition dr_year :: "date_range \<Rightarrow> int" where "dr_year r = u16 ((r div 1000) mod 10000)"

text \<open>The types of ranges: 0 year, 1 half year, 2 quarter, 3 month, 4 week, 5 day.\<close>

definition dateToRangeNumber :: "greg \<Rightarrow> date \<Rightarrow> int \<Rightarrow> date_range outcome" where
  "dateToRangeNumber G dt ty =
     (if date_isNull dt then Value 0
      else if \<not> g_valid G (date_ymd dt) then Exception
      else
        let m = d_month dt;
            (ty', rng) =
              (if ty = 0 then (ty, 1)
               else if ty = 1 then (ty, (if m > 6 then 1 else 0) + 1)
               else if ty = 2 then (ty, m div 3 + (if m mod 3 \<noteq> 0 then 1 else 0))
               else if ty = 3 then (ty, m)
               else if ty = 4 then (ty, case g_week_number G (date_ymd dt) of Some n \<Rightarrow> n | None \<Rightarrow> 0)
               else if ty = 5 then (ty, case g_day_of_year G (date_ymd dt) of Some n \<Rightarrow> n | None \<Rightarrow> 0)
               else (0, 0))
        in Value (u32 (rng + d_year dt * 1000 + ty' * 1000 * 10000)))"

text \<open>The first of January of the year plus some days, with the year kept.\<close>

definition dr_plus_days :: "greg \<Rightarrow> int \<Rightarrow> int \<Rightarrow> date outcome" where
  "dr_plus_days G year days =
     (case g_add_days G (year, 1, 1) days of
        None \<Rightarrow> Exception
      | Some (y, m, d) \<Rightarrow> Date3 G year m d)"

definition dr_begin :: "greg \<Rightarrow> date_range \<Rightarrow> date outcome" where
  "dr_begin G r =
     (let ty = dr_type r; rng = dr_range r; year = dr_year r
      in if ty = 0 then Date3 G year 1 1
         else if ty = 1 then (if rng = 2 then Date3 G year 7 1 else Date3 G year 1 1)
         else if ty = 2 then
           (if rng = 2 then Date3 G year 4 1
            else if rng = 3 then Date3 G year 7 1
            else if rng = 4 then Date3 G year 10 1
            else Date3 G year 1 1)
         else if ty = 3 then Date3 G year rng 1
         else if ty = 4 then
           (if rng > 1 then dr_plus_days G year ((rng - 1) * 7) else Date3 G year 1 1)
         else if ty = 5 then
           (if rng > 1 then dr_plus_days G year (rng - 1) else Date3 G year 1 1)
         else Value date_default)"

definition dr_end :: "greg \<Rightarrow> date_range \<Rightarrow> date outcome" where
  "dr_end G r =
     (let ty = dr_type r; rng = dr_range r; year = dr_year r
      in if ty = 0 then Date3 G year 12 31
         else if ty = 1 then (if rng = 2 then Date3 G year 12 31 else Date3 G year 6 30)
         else if ty = 2 then
           (if rng = 2 then Date3 G year 6 30
            else if rng = 3 then Date3 G year 9 30
            else if rng = 4 then Date3 G year 12 31
            else Date3 G year 3 31)
         else if ty = 3 then
           (let nextYear = (if rng = 12 then u16 (year + 1) else year);
                nextMonth = (if rng = 12 then 1 else rng + 1)
            in case g_add_days G (nextYear, nextMonth, 1) (- 1) of
                 None \<Rightarrow> Exception
               | Some (y, m, d) \<Rightarrow> Date3 G year m d)
         else if ty = 4 then
           (if rng > 1 then dr_plus_days G year ((rng - 1) * 7 + 6) else Date3 G year 7 1)
         else if ty = 5 then
           (if rng > 1 then dr_plus_days G year (rng - 1) else Date3 G year 1 1)
         else Value date_default)"

text \<open>\<open>contains\<close>: the end is computed only when the date is not before the begin.\<close>

definition dr_contains :: "greg \<Rightarrow> date_range \<Rightarrow> date \<Rightarrow> bool outcome" where
  "dr_contains G r dt =
     (case dr_begin G r of
        Value b \<Rightarrow>
          if \<not> date_ge dt b then Value False
          else (case dr_end G r of
                  Value e \<Rightarrow> Value (date_le dt e)
                | Error x \<Rightarrow> Error x | Exception \<Rightarrow> Exception
                | Terminated \<Rightarrow> Terminated | Undefined \<Rightarrow> Undefined)
      | Error x \<Rightarrow> Error x | Exception \<Rightarrow> Exception
      | Terminated \<Rightarrow> Terminated | Undefined \<Rightarrow> Undefined)"

text \<open>
  \<open>datesToRanges\<close>: the loop over the days, \<open>None\<close> would be a loop that never ends. The set is ordered
  by the number of the range.
\<close>

partial_function (option) dates_loop ::
    "greg \<Rightarrow> date \<Rightarrow> int \<Rightarrow> date \<Rightarrow> date_range set \<Rightarrow> date_range set outcome option" where
  "dates_loop G to ty dateFrom ranges =
     (if date_le dateFrom to then
        (case dateToRangeNumber G dateFrom ty of
           Value r \<Rightarrow>
             (case date_addDays G 1 dateFrom of
                Value dateFrom' \<Rightarrow> dates_loop G to ty dateFrom' (insert r ranges)
              | _ \<Rightarrow> Some Exception)
         | _ \<Rightarrow> Some Exception)
      else Some (Value ranges))"

definition datesToRanges :: "greg \<Rightarrow> date \<Rightarrow> date \<Rightarrow> int \<Rightarrow> date_range set outcome option" where
  "datesToRanges G to from ty =
     (let dateFrom = (if date_isNull from then to else from) in dates_loop G to ty dateFrom {})"

definition dr_toString :: "(nat \<Rightarrow> nat \<Rightarrow> string) \<Rightarrow> date_range \<Rightarrow> string" where
  "dr_toString F r = F 8 (nat r)"

definition dr_fromString :: "string \<Rightarrow> date_range outcome" where
  "dr_fromString str =
     (case from_chars 10 (2 ^ 32 - 1) str of
        None \<Rightarrow> Error INVALID_DATERANGE_FORMAT
      | Some (v, k) \<Rightarrow> Value (int v))"

subsection \<open>A calendar of reference\<close>

definition leap :: "int \<Rightarrow> bool" where
  "leap y \<longleftrightarrow> 4 dvd y \<and> (\<not> 100 dvd y \<or> 400 dvd y)"

definition dim :: "int \<Rightarrow> int \<Rightarrow> int" where
  "dim y m = (if m = 2 then (if leap y then 29 else 28)
              else if m = 4 \<or> m = 6 \<or> m = 9 \<or> m = 11 then 30 else 31)"

fun year_start :: "nat \<Rightarrow> int" where
  "year_start 0 = 0"
| "year_start (Suc y) = year_start y + (if leap (int y) then 366 else 365)"

fun month_start :: "int \<Rightarrow> nat \<Rightarrow> int" where
  "month_start y 0 = 0"
| "month_start y (Suc m) = month_start y m + (if m = 0 then 0 else dim y (int m))"

fun day_number :: "int \<times> int \<times> int \<Rightarrow> int" where
  "day_number (y, m, d) = year_start (nat y) + month_start y (nat m) + d"

fun ymd_ok :: "int \<times> int \<times> int \<Rightarrow> bool" where
  "ymd_ok (y, m, d) \<longleftrightarrow> 1400 \<le> y \<and> y \<le> 9999 \<and> 1 \<le> m \<and> m \<le> 12 \<and> 1 \<le> d \<and> d \<le> dim y m"

text \<open>
  What \<open>boost::gregorian\<close> documents: years 1400 to 9999, the Gregorian calendar, dates as counts of
  days, an exception for what is outside. The addition of days is Boost's: \<open>date_addDays\<close> takes it over, so its law
  here is a hypothesis of what is proved about ranges and no property of its own.
\<close>

definition greg_ok :: "greg \<Rightarrow> bool" where
  "greg_ok G \<longleftrightarrow>
     (\<forall>x. g_valid G x = ymd_ok x)
     \<and> (\<forall>y m. g_end_of_month G y m =
           (if 1400 \<le> y \<and> y \<le> 9999 \<and> 1 \<le> m \<and> m \<le> 12 then Some (dim y m) else None))
     \<and> (\<forall>y. g_is_leap G y = (if 1400 \<le> y \<and> y \<le> 9999 then Some (leap y) else None))
     \<and> (\<forall>x n x'. g_add_days G x n = Some x' \<longrightarrow> ymd_ok x \<and> ymd_ok x' \<and> day_number x' = day_number x + n)
     \<and> (\<forall>x n x'. ymd_ok x \<longrightarrow> ymd_ok x' \<longrightarrow> day_number x' = day_number x + n \<longrightarrow> g_add_days G x n \<noteq> None)
     \<and> (\<forall>y m d. g_day_of_year G (y, m, d) =
           (if ymd_ok (y, m, d) then Some (day_number (y, m, d) - day_number (y, 1, 1) + 1) else None))"

lemma dim_bounds: "28 \<le> dim y m \<and> dim y m \<le> 31" by (simp add: dim_def)

lemma month_start_eval:
  "month_start y 1 = 0" "month_start y 2 = 31" "month_start y 3 = 31 + dim y 2"
  "month_start y 4 = 62 + dim y 2" "month_start y 5 = 92 + dim y 2" "month_start y 6 = 123 + dim y 2"
  "month_start y 7 = 153 + dim y 2" "month_start y 8 = 184 + dim y 2" "month_start y 9 = 215 + dim y 2"
  "month_start y 10 = 245 + dim y 2" "month_start y 11 = 276 + dim y 2" "month_start y 12 = 306 + dim y 2"
  "month_start y 13 = 337 + dim y 2"
  by (simp_all add: eval_nat_numeral dim_def)

lemma month_start_mono: "m \<le> m' \<Longrightarrow> month_start y m \<le> month_start y m'"
proof (induction m' rule: nat_induct)
  case (Suc k)
  then show ?case using dim_bounds [of y "int k"] by (cases "m = Suc k") auto
qed simp

lemma year_start_mono: "y \<le> y' \<Longrightarrow> year_start y \<le> year_start y'"
proof (induction y' rule: nat_induct)
  case (Suc k)
  then show ?case by (cases "y = Suc k") auto
qed simp

text \<open>The day number orders the dates as year, month and day do.\<close>

lemma day_number_month_less:
  assumes "ymd_ok (y, m, d)" and "ymd_ok (y, m', d')" and "m < m'"
  shows "day_number (y, m, d) < day_number (y, m', d')"
proof -
  obtain k where k: "m = int k" "0 < k" using assms(1) by (metis ymd_ok.simps nonneg_int_cases of_nat_0_less_iff
      less_le_trans zero_less_one less_imp_le)
  have "month_start y k + d \<le> month_start y (Suc k)" using assms(1) k by simp
  also have "\<dots> \<le> month_start y (nat m')" by (rule month_start_mono) (use assms(3) k in simp)
  finally show ?thesis using assms(2) k by simp
qed

lemma day_number_year_less:
  assumes "ymd_ok (y, m, d)" and "ymd_ok (y', m', d')" and "y < y'"
  shows "day_number (y, m, d) < day_number (y', m', d')"
proof -
  obtain k where k: "y = int k" using assms(1) by (metis ymd_ok.simps nonneg_int_cases order_trans zero_le_numeral)
  have "day_number (y, m, d) \<le> day_number (y, 12, 31)"
  proof (cases "m = 12")
    case True
    then show ?thesis using assms(1) by (simp add: dim_def)
  next
    case False
    then have "ymd_ok (y, 12, 31)" "m < 12" using assms(1) by (simp_all add: dim_def)
    then show ?thesis using day_number_month_less [OF assms(1)] by (meson less_imp_le)
  qed
  also have "day_number (y, 12, 31) = year_start (Suc k)"
    by (simp add: k month_start_eval dim_def)
  also have "\<dots> \<le> year_start (nat y')" by (rule year_start_mono) (use assms(3) k in simp)
  also have "\<dots> < day_number (y', m', d')"
    using assms(2) month_start_mono [of 0 "nat m'" y'] by simp
  finally show ?thesis .
qed

lemma day_number_inj:
  assumes "ymd_ok a" and "ymd_ok b" and "day_number a = day_number b"
  shows "a = b"
proof -
  obtain y m d y' m' d' where ab: "a = (y, m, d)" "b = (y', m', d')" by (cases a; cases b) auto
  have "y = y'"
    using assms day_number_year_less [of y m d y' m' d'] day_number_year_less [of y' m' d' y m d]
    unfolding ab by (metis linorder_neqE_linordered_idom less_irrefl)
  moreover from this have "m = m'"
    using assms day_number_month_less [of y m d m' d'] day_number_month_less [of y m' d' m d]
    unfolding ab by (metis linorder_neqE_linordered_idom less_irrefl)
  ultimately show ?thesis using assms(3) by (simp add: ab)
qed

text \<open>A library that keeps the contract: it looks the day number up in the list of all dates.\<close>

definition dates_between :: "int \<Rightarrow> int \<Rightarrow> int \<Rightarrow> (int \<times> int \<times> int) list" where
  "dates_between y0 y1 months = List.concat (List.map (\<lambda>y. List.concat (List.map (\<lambda>m.
     List.map (\<lambda>d. (y, m, d)) [1..dim y m]) [1..months])) [y0..y1])"

definition all_dates :: "(int \<times> int \<times> int) list" where
  "all_dates = dates_between 1400 9999 12"

lemma set_dates_between:
  "(y, m, d) \<in> set (dates_between y0 y1 months) \<longleftrightarrow>
     y0 \<le> y \<and> y \<le> y1 \<and> 1 \<le> m \<and> m \<le> months \<and> 1 \<le> d \<and> d \<le> dim y m"
  by (simp add: dates_between_def image_iff)

lemma set_all_dates: "x \<in> set all_dates \<longleftrightarrow> ymd_ok x"
  by (cases x) (simp only: all_dates_def set_dates_between ymd_ok.simps)

lemma find_SomeD: "List.find P xs = Some x \<Longrightarrow> x \<in> set xs \<and> P x"
  by (induction xs) (auto split: if_splits)

definition ref_greg :: "(int \<times> int \<times> int \<Rightarrow> int option) \<Rightarrow> greg" where
  "ref_greg week =
     \<lparr>g_valid = ymd_ok,
      g_end_of_month = (\<lambda>y m. if 1400 \<le> y \<and> y \<le> 9999 \<and> 1 \<le> m \<and> m \<le> 12 then Some (dim y m) else None),
      g_is_leap = (\<lambda>y. if 1400 \<le> y \<and> y \<le> 9999 then Some (leap y) else None),
      g_add_days = (\<lambda>x n. if ymd_ok x then List.find (\<lambda>x'. day_number x' = day_number x + n) all_dates else None),
      g_add_months = (\<lambda>x n. None), g_add_years = (\<lambda>x n. None),
      g_day_of_week = (\<lambda>x. if ymd_ok x then Some ((day_number x + 5) mod 7) else None),
      g_day_of_year = (\<lambda>x. if ymd_ok x then Some (day_number x - day_number (fst x, 1, 1) + 1) else None),
      g_week_number = week\<rparr>"

lemma find_NoneD: "List.find P xs = None \<Longrightarrow> x \<in> set xs \<Longrightarrow> \<not> P x"
  by (induction xs) (auto split: if_splits)

lemma ref_greg_ok: "greg_ok (ref_greg week)"
proof -
  let ?find = "\<lambda>x n. List.find (\<lambda>x'. day_number x' = day_number x + n) all_dates"
  have some: "ymd_ok x' \<and> day_number x' = day_number x + n" if "?find x n = Some x'" for x n x'
    using find_SomeD [OF that] set_all_dates by blast
  have none: "?find x n \<noteq> None" if "ymd_ok x'" "day_number x' = day_number x + n" for x n x'
    using that set_all_dates [of x'] find_NoneD [of "\<lambda>x'. day_number x' = day_number x + n" all_dates x'] by blast
  have add: "g_add_days (ref_greg week) = (\<lambda>x n. if ymd_ok x then ?find x n else None)"
    by (simp add: ref_greg_def)
  show ?thesis
    unfolding greg_ok_def
  proof (intro conjI)
    show "\<forall>x n x'. g_add_days (ref_greg week) x n = Some x' \<longrightarrow>
        ymd_ok x \<and> ymd_ok x' \<and> day_number x' = day_number x + n"
      unfolding add using some by (metis option.distinct(1))
    show "\<forall>x n x'. ymd_ok x \<longrightarrow> ymd_ok x' \<longrightarrow> day_number x' = day_number x + n \<longrightarrow>
        g_add_days (ref_greg week) x n \<noteq> None"
      unfolding add using none by (metis (no_types, lifting))
  qed (simp_all only: ref_greg_def greg.simps fst_conv simp_thms)
qed

subsection \<open>Lemmas on dates\<close>

definition date_wf :: "date \<Rightarrow> bool" where
  "date_wf dt \<longleftrightarrow> ymd_ok (date_ymd dt)"

lemma date_wf_iff: "date_wf dt \<longleftrightarrow> 1400 \<le> d_year dt \<and> d_year dt \<le> 9999 \<and> 1 \<le> d_month dt
    \<and> d_month dt \<le> 12 \<and> 1 \<le> d_day dt \<and> d_day dt \<le> dim (d_year dt) (d_month dt)"
  by (simp add: date_wf_def date_ymd_def)

lemma greg_ok_simps:
  assumes "greg_ok G"
  shows "g_valid G x = ymd_ok x"
    and "g_end_of_month G y m = (if 1400 \<le> y \<and> y \<le> 9999 \<and> 1 \<le> m \<and> m \<le> 12 then Some (dim y m) else None)"
    and "g_add_days G x n = Some x' \<Longrightarrow> ymd_ok x \<and> ymd_ok x' \<and> day_number x' = day_number x + n"
    and "ymd_ok x \<Longrightarrow> ymd_ok x' \<Longrightarrow> day_number x' = day_number x + n \<Longrightarrow> g_add_days G x n \<noteq> None"
    and "g_day_of_year G (y, m, d) =
      (if ymd_ok (y, m, d) then Some (day_number (y, m, d) - day_number (y, 1, 1) + 1) else None)"
  using assms unfolding greg_ok_def by blast+

text \<open>What addition of days gives is determined by the day number.\<close>

lemma add_days_unique:
  assumes "greg_ok G" and "ymd_ok x" and "ymd_ok x'" and "day_number x' = day_number x + n"
  shows "g_add_days G x n = Some x'"
proof -
  obtain x'' where x'': "g_add_days G x n = Some x''"
    using greg_ok_simps(4) [OF assms] by blast
  then have "ymd_ok x''" "day_number x'' = day_number x + n" using greg_ok_simps(3) [OF assms(1)] by auto
  then have "x'' = x'" using day_number_inj assms(3,4) by metis
  then show ?thesis using x'' by simp
qed

lemma date_eta: "\<lparr>d_year = d_year dt, d_month = d_month dt, d_day = d_day dt\<rparr> = dt"
  by (cases dt) simp

lemma validate3_wf:
  assumes "greg_ok G" and "date_wf \<lparr>d_year = y, d_month = m, d_day = d\<rparr>"
  shows "date_validate3 G y m d = Value ()"
  using assms dim_bounds [of y m]
  by (auto simp: date_validate3_def daysInMonth_def greg_ok_simps(2) date_wf_iff)

lemma Date3_wf:
  assumes "greg_ok G" and "date_wf \<lparr>d_year = y, d_month = m, d_day = d\<rparr>"
  shows "Date3 G y m d = Value \<lparr>d_year = y, d_month = m, d_day = d\<rparr>"
proof -
  have "0 \<le> y" "y < 65536" "0 \<le> m" "m < 256" "0 \<le> d" "d < 256"
    using assms(2) dim_bounds [of y m] by (simp_all add: date_wf_iff)
  then show ?thesis using validate3_wf [OF assms] by (simp add: Date3_def date_validate_def)
qed

text \<open>Valid dates are ordered by number as by day number.\<close>

lemma date_number_less:
  assumes "date_wf a" and "date_wf b"
  shows "date_less a b \<longleftrightarrow> day_number (date_ymd a) < day_number (date_ymd b)"
proof -
  obtain y m d y' m' d' where ab: "a = \<lparr>d_year = y, d_month = m, d_day = d\<rparr>"
      "b = \<lparr>d_year = y', d_month = m', d_day = d'\<rparr>" by (cases a; cases b)
  have ok: "ymd_ok (y, m, d)" "ymd_ok (y', m', d')" using assms by (simp_all only: ab date_wf_def date_ymd_def date.simps)
  have b: "1 \<le> m" "m \<le> 12" "1 \<le> d" "d \<le> 31" "1 \<le> m'" "m' \<le> 12" "1 \<le> d'" "d' \<le> 31"
    using ok dim_bounds [of y m] dim_bounds [of y' m'] by simp_all
  consider "y < y'" | "y' < y" | "y = y'" "m < m'" | "y = y'" "m' < m" | "y = y'" "m = m'" by linarith
  then show ?thesis
  proof cases
    case 1
    then show ?thesis using day_number_year_less [OF ok] b
      by (simp add: ab date_less_def date_toNumber_def date_ymd_def del: day_number.simps)
  next
    case 2
    then show ?thesis using day_number_year_less [OF ok(2,1)] b
      by (simp add: ab date_less_def date_toNumber_def date_ymd_def del: day_number.simps)
  next
    case 3
    then show ?thesis using day_number_month_less [of y m d m' d'] ok b
      by (simp add: ab date_less_def date_toNumber_def date_ymd_def del: day_number.simps ymd_ok.simps)
  next
    case 4
    then show ?thesis using day_number_month_less [of y m' d' m d] ok b
      by (simp add: ab date_less_def date_toNumber_def date_ymd_def del: day_number.simps ymd_ok.simps)
  next
    case 5
    then show ?thesis by (simp add: ab date_less_def date_toNumber_def date_ymd_def)
  qed
qed

lemma addDays_ok:
  assumes "greg_ok G" and "date_wf dt" and "date_addDays G n dt = Value dt'"
  shows "date_wf dt' \<and> day_number (date_ymd dt') = day_number (date_ymd dt) + n"
proof -
  obtain y m d where r: "g_add_days G (date_ymd dt) n = Some (y, m, d)"
      "dt' = \<lparr>d_year = u16 y, d_month = u8 m, d_day = u8 d\<rparr>"
    using assms(3) by (auto simp: date_addDays_def from_boost_def split: if_splits option.splits)
  have ok: "ymd_ok (y, m, d)" "day_number (y, m, d) = day_number (date_ymd dt) + n"
    using greg_ok_simps(3) [OF assms(1) r(1)] by auto
  then have "u16 y = y" "u8 m = m" "u8 d = d" using dim_bounds [of y m] by simp_all
  then show ?thesis using ok r(2) by (simp add: date_wf_def date_ymd_def del: day_number.simps ymd_ok.simps)
qed

subsection \<open>Lemmas on date ranges\<close>

lemma range_number_parts:
  assumes "0 \<le> ty" and "ty < 6" and "0 \<le> rng" and "rng < 1000" and "0 \<le> y" and "y < 10000"
  shows "dr_type (u32 (rng + y * 1000 + ty * 1000 * 10000)) = ty"
    and "dr_range (u32 (rng + y * 1000 + ty * 1000 * 10000)) = rng"
    and "dr_year (u32 (rng + y * 1000 + ty * 1000 * 10000)) = y"
proof -
  let ?n = "rng + y * 1000 + ty * 1000 * 10000"
  have u: "u32 ?n = ?n" using assms by simp
  have a: "?n = (rng + y * 1000) + ty * 10000000" by simp
  have "?n div 10000000 = ty"
    unfolding a using assms by (simp add: div_pos_pos_trivial)
  then show "dr_type (u32 ?n) = ty" unfolding u dr_type_def by simp
  have b: "?n = rng + (y + ty * 10000) * 1000" by simp
  show "dr_range (u32 ?n) = rng"
    unfolding u dr_range_def unfolding b mod_mult_self1 using assms by (simp add: mod_pos_pos_trivial)
  have "?n div 1000 = y + ty * 10000"
    unfolding b using assms by (simp add: div_pos_pos_trivial)
  then have "?n div 1000 mod 10000 = y" using assms by (simp add: mod_pos_pos_trivial)
  then show "dr_year (u32 ?n) = y" unfolding u dr_year_def using assms by simp
qed

lemma range_of_date:
  assumes "greg_ok G" and "date_wf dt" and "0 \<le> ty" and "ty < 6"
    and "rng = (if ty = 0 then 1 else if ty = 1 then (if d_month dt > 6 then 2 else 1)
      else if ty = 2 then d_month dt div 3 + (if d_month dt mod 3 \<noteq> 0 then 1 else 0)
      else if ty = 3 then d_month dt
      else if ty = 4 then (case g_week_number G (date_ymd dt) of Some n \<Rightarrow> n | None \<Rightarrow> 0)
      else (case g_day_of_year G (date_ymd dt) of Some n \<Rightarrow> n | None \<Rightarrow> 0))"
    and "0 \<le> rng" and "rng < 1000"
  shows "\<exists>r. dateToRangeNumber G dt ty = Value r \<and> dr_type r = ty \<and> dr_range r = rng \<and> dr_year r = d_year dt"
proof -
  let ?r = "u32 (rng + d_year dt * 1000 + ty * 1000 * 10000)"
  have "g_valid G (date_ymd dt)" "\<not> date_isNull dt"
    using assms(1,2) by (simp_all only: greg_ok_simps(1) date_wf_def [symmetric])
      (simp add: date_wf_iff date_isNull_def date_isValid_def)
  then have "dateToRangeNumber G dt ty = Value ?r"
    using assms(3,4) unfolding dateToRangeNumber_def Let_def assms(5) by auto
  moreover have "0 \<le> d_year dt" "d_year dt < 10000" using assms(2) by (simp_all add: date_wf_iff)
  ultimately show ?thesis using range_number_parts [OF assms(3,4,6,7)] by blast
qed

lemma between_same_year:
  assumes "greg_ok G" and "dr_begin G r = Value b" and "dr_end G r = Value e"
  shows "dr_contains G r dt = Value (date_le b dt \<and> date_le dt e)"
  using assms by (auto simp: dr_contains_def date_ge_def date_le_def)

lemma contains_fixed:
  assumes G: "greg_ok G" and wf: "date_wf dt" and r: "dr_year r = d_year dt"
    and ty: "dr_type r = 0 \<or> dr_type r = 1 \<and> dr_range r = (if d_month dt > 6 then 2 else 1)
      \<or> dr_type r = 2 \<and> dr_range r = d_month dt div 3 + (if d_month dt mod 3 \<noteq> 0 then 1 else 0)"
  shows "dr_contains G r dt = Value True"
proof -
  have b: "1400 \<le> d_year dt" "d_year dt \<le> 9999" "1 \<le> d_day dt" "d_day dt \<le> dim (d_year dt) (d_month dt)"
    using wf by (simp_all add: date_wf_iff)
  have mm: "1 \<le> d_month dt" "d_month dt \<le> 12" using wf by (simp_all add: date_wf_iff)
  have D: "Date3 G (d_year dt) m d = Value \<lparr>d_year = d_year dt, d_month = m, d_day = d\<rparr>"
    if "1 \<le> m" "m \<le> 12" "1 \<le> d" "d \<le> dim (d_year dt) m" for m d
    by (rule Date3_wf [OF G]) (use b(1,2) that in \<open>simp add: date_wf_iff\<close>)
  have "d_month dt = 1 \<or> d_month dt = 2 \<or> d_month dt = 3 \<or> d_month dt = 4 \<or> d_month dt = 5 \<or> d_month dt = 6
    \<or> d_month dt = 7 \<or> d_month dt = 8 \<or> d_month dt = 9 \<or> d_month dt = 10 \<or> d_month dt = 11 \<or> d_month dt = 12"
    using mm by presburger
  then show ?thesis
    using ty b(3,4) dim_bounds [of "d_year dt" "d_month dt"]
    by (elim disjE) (auto simp: dr_contains_def dr_begin_def dr_end_def r D dim_def date_ge_def date_le_def date_toNumber_def)
qed

lemma month_last_day:
  assumes "greg_ok G" and "1400 \<le> y" and "y \<le> 9999" and "1 \<le> m" and "m \<le> 12" and "y < 9999 \<or> m < 12"
  shows "g_add_days G (if m = 12 then (y + 1, 1, 1) else (y, m + 1, 1)) (- 1) = Some (y, m, dim y m)"
proof -
  obtain k where k: "y = int k" using assms(2) by (metis nonneg_int_cases order_trans zero_le_numeral)
  obtain l where l: "m = int l" "0 < l"
    using assms(4) by (metis nonneg_int_cases of_nat_0_less_iff less_le_trans zero_less_one less_imp_le)
  show ?thesis
  proof (rule add_days_unique [OF assms(1)])
    show "ymd_ok (if m = 12 then (y + 1, 1, 1) else (y, m + 1, 1))"
      using assms by (auto simp: dim_def)
    show "ymd_ok (y, m, dim y m)" using assms dim_bounds [of y m] by simp
    have yr: "nat (y + 1) = Suc k" "nat y = k" "nat (m + 1) = Suc l" "nat m = l" using k l by simp_all
    show "day_number (y, m, dim y m) =
        day_number (if m = 12 then (y + 1, 1, 1) else (y, m + 1, 1)) + - 1"
    proof (cases "m = 12")
      case True
      then show ?thesis
        using yr(1) [unfolded k] by (simp add: k month_start_eval dim_def)
    next
      case False
      then show ?thesis using l(2) yr(3) [unfolded l(1)] by (simp add: l(1))
    qed
  qed
qed

lemma contains_month:
  assumes G: "greg_ok G" and wf: "date_wf dt" and r: "dr_year r = d_year dt" "dr_type r = 3" "dr_range r = d_month dt"
  shows "dr_contains G r dt = (if d_year dt = 9999 \<and> d_month dt = 12 then Exception else Value True)"
proof -
  have b: "1400 \<le> d_year dt" "d_year dt \<le> 9999" "1 \<le> d_month dt" "d_month dt \<le> 12" "1 \<le> d_day dt"
      "d_day dt \<le> dim (d_year dt) (d_month dt)"
    using wf by (simp_all add: date_wf_iff)
  have D: "Date3 G (d_year dt) (d_month dt) d = Value \<lparr>d_year = d_year dt, d_month = d_month dt, d_day = d\<rparr>"
    if "1 \<le> d" "d \<le> dim (d_year dt) (d_month dt)" for d
    by (rule Date3_wf [OF G]) (use b that in \<open>simp add: date_wf_iff\<close>)
  have dim: "1 \<le> dim (d_year dt) (d_month dt)" using dim_bounds [of "d_year dt" "d_month dt"] by linarith
  show ?thesis
  proof (cases "d_year dt = 9999 \<and> d_month dt = 12")
    case True
    have "g_add_days G (10000, 1, 1) (- 1) = None"
      using greg_ok_simps(3) [OF G, of "(10000, 1, 1)" "- 1"] by (cases "g_add_days G (10000, 1, 1) (- 1)") auto
    then show ?thesis
      using True b D [of 1] dim by (simp add: dr_contains_def dr_begin_def dr_end_def r date_ge_def date_toNumber_def)
  next
    case False
    then have "g_add_days G (if d_month dt = 12 then (d_year dt + 1, 1, 1) else (d_year dt, d_month dt + 1, 1)) (- 1)
        = Some (d_year dt, d_month dt, dim (d_year dt) (d_month dt))"
      by (intro month_last_day [OF G]) (use b in auto)
    moreover have "u16 (d_year dt + 1) = d_year dt + 1" using b by simp
    ultimately have "dr_end G r = Value \<lparr>d_year = d_year dt, d_month = d_month dt, d_day = dim (d_year dt) (d_month dt)\<rparr>"
      using D [OF dim order_refl] by (simp add: dr_end_def r Let_def split: if_splits)
    moreover have "dr_begin G r = Value \<lparr>d_year = d_year dt, d_month = d_month dt, d_day = 1\<rparr>"
      using D [OF order_refl dim] by (simp add: dr_begin_def r)
    ultimately show ?thesis
      using False b by (simp add: between_same_year [OF G] date_le_def date_toNumber_def)
  qed
qed

lemma day_range_bounds:
  assumes "date_wf dt"
  shows "1 \<le> day_number (date_ymd dt) - day_number (d_year dt, 1, 1) + 1"
    and "day_number (date_ymd dt) - day_number (d_year dt, 1, 1) + 1 \<le> 366"
proof -
  have b: "1 \<le> d_month dt" "d_month dt \<le> 12" "1 \<le> d_day dt" "d_day dt \<le> dim (d_year dt) (d_month dt)"
    using assms by (simp_all add: date_wf_iff)
  have "month_start (d_year dt) 1 \<le> month_start (d_year dt) (nat (d_month dt))"
    by (rule month_start_mono) (use b in simp)
  then show "1 \<le> day_number (date_ymd dt) - day_number (d_year dt, 1, 1) + 1"
    using b by (simp add: date_ymd_def)
  obtain l where l: "d_month dt = int l" "0 < l"
    using b(1) by (metis nonneg_int_cases of_nat_0_less_iff less_le_trans zero_less_one less_imp_le)
  have "month_start (d_year dt) (Suc l) \<le> month_start (d_year dt) 13"
    by (rule month_start_mono) (use b(2) l in simp)
  also have "\<dots> \<le> 366" by (simp add: month_start_eval dim_def)
  finally show "day_number (date_ymd dt) - day_number (d_year dt, 1, 1) + 1 \<le> 366"
    using b(4) l by (simp add: date_ymd_def)
qed

lemma contains_day:
  assumes G: "greg_ok G" and wf: "date_wf dt" and r: "dr_year r = d_year dt" "dr_type r = 5"
    "dr_range r = day_number (date_ymd dt) - day_number (d_year dt, 1, 1) + 1"
  shows "dr_contains G r dt = Value True"
proof -
  have ok: "ymd_ok (d_year dt, 1, 1)" "ymd_ok (date_ymd dt)"
    using wf dim_bounds [of "d_year dt" 1] by (simp_all add: date_wf_def date_ymd_def)
  have D: "Date3 G (d_year dt) (d_month dt) (d_day dt) = Value dt"
    by (rule Date3_wf [OF G, of "d_year dt" "d_month dt" "d_day dt", unfolded date_eta, OF wf])
  have add: "g_add_days G (d_year dt, 1, 1) (dr_range r - 1) = Some (date_ymd dt)"
    by (rule add_days_unique [OF G ok]) (use r(3) in simp)
  have "dr_begin G r = Value dt \<and> dr_end G r = Value dt"
  proof (cases "dr_range r > 1")
    case True
    then show ?thesis using add D
      by (simp only: dr_begin_def dr_end_def Let_def r(1,2) dr_plus_days_def) (simp add: date_ymd_def)
  next
    case False
    have "dr_range r \<ge> 1" using day_range_bounds(1) [OF wf] by (simp only: r(3))
    then have "dr_range r = 1" using False by linarith
    then have "day_number (date_ymd dt) = day_number (d_year dt, 1, 1)" using r(3) by linarith
    then have "date_ymd dt = (d_year dt, 1, 1)" by (rule day_number_inj [OF ok(2,1)])
    then have "d_month dt = 1" "d_day dt = 1" by (simp_all add: date_ymd_def)
    then show ?thesis using False D by (simp only: dr_begin_def dr_end_def Let_def r(1,2)) simp
  qed
  then show ?thesis by (simp add: between_same_year [OF G] date_le_def)
qed

text \<open>The days that begin the last weeks of a year.\<close>

lemma add_days_december:
  assumes "greg_ok G" and "1400 \<le> y" and "y \<le> 9999" and "1 \<le> d" and "d \<le> 31"
  shows "g_add_days G (y, 1, 1) (305 + dim y 2 + d) = Some (y, 12, d)"
  by (rule add_days_unique [OF assms(1)])
    (use assms dim_bounds [of y 1] in \<open>simp_all add: month_start_eval dim_def\<close>)

lemma week_range_late:
  assumes G: "greg_ok G" and wf: "date_wf dt" and r: "dr_year r = d_year dt" "dr_type r = 4"
    and n: "dr_range r = 52 \<or> dr_range r = 53" and m: "d_month dt = 1"
  shows "dr_contains G r dt = Value False"
proof -
  have b: "1400 \<le> d_year dt" "d_year dt \<le> 9999" "d_day dt \<le> 31"
    using wf dim_bounds [of "d_year dt" "d_month dt"] by (simp_all add: date_wf_iff)
  let ?d = "(dr_range r - 1) * 7 - 305 - dim (d_year dt) 2"
  have d: "1 \<le> ?d" "?d \<le> 31" using n by (auto simp: dim_def)
  have "g_add_days G (d_year dt, 1, 1) ((dr_range r - 1) * 7) = Some (d_year dt, 12, ?d)"
    using add_days_december [OF G b(1,2) d] by simp
  moreover have "Date3 G (d_year dt) 12 ?d = Value \<lparr>d_year = d_year dt, d_month = 12, d_day = ?d\<rparr>"
    by (rule Date3_wf [OF G]) (use b d in \<open>simp add: date_wf_iff dim_def [of _ 12]\<close>)
  ultimately have "dr_begin G r = Value \<lparr>d_year = d_year dt, d_month = 12, d_day = ?d\<rparr>"
    using n by (simp add: dr_begin_def r dr_plus_days_def Let_def) linarith
  then show ?thesis using m b(3) d(1) by (simp add: dr_contains_def date_ge_def date_toNumber_def)
qed

lemma week_range_one:
  assumes G: "greg_ok G" and wf: "date_wf dt" and r: "dr_year r = d_year dt" "dr_type r = 4" "dr_range r = 1"
  shows "dr_contains G r dt = Value (d_month dt \<le> 6 \<or> d_month dt = 7 \<and> d_day dt = 1)"
proof -
  have b: "1400 \<le> d_year dt" "d_year dt \<le> 9999" "1 \<le> d_month dt" "1 \<le> d_day dt" "d_day dt \<le> 31"
    using wf dim_bounds [of "d_year dt" "d_month dt"] by (simp_all add: date_wf_iff)
  have "Date3 G (d_year dt) m 1 = Value \<lparr>d_year = d_year dt, d_month = m, d_day = 1\<rparr>"
    if "1 \<le> m" "m \<le> 12" for m
    by (rule Date3_wf [OF G]) (use b that dim_bounds [of "d_year dt" m] in \<open>simp add: date_wf_iff\<close>)
  then have "dr_begin G r = Value \<lparr>d_year = d_year dt, d_month = 1, d_day = 1\<rparr>"
    "dr_end G r = Value \<lparr>d_year = d_year dt, d_month = 7, d_day = 1\<rparr>"
    by (simp_all add: dr_begin_def dr_end_def r)
  then show ?thesis using b by (auto simp: between_same_year [OF G] date_le_def date_toNumber_def)
qed

subsection \<open>Lemmas on texts\<close>

lemma digits_at_append:
  "k < 10 ^ b \<Longrightarrow> digits_at 10 a n @ digits_at 10 b k = digits_at 10 (a + b) (n * 10 ^ b + k)"
proof (induction b arbitrary: k)
  case (Suc b)
  have "k div 10 < 10 ^ b" using Suc.prems by (simp add: less_mult_imp_div_less mult.commute)
  then have "digits_at 10 a n @ digits_at 10 b (k div 10) = digits_at 10 (a + b) (n * 10 ^ b + k div 10)"
    by (rule Suc.IH)
  moreover have "(n * 10 ^ Suc b + k) div 10 = n * 10 ^ b + k div 10"
    "(n * 10 ^ Suc b + k) mod 10 = k mod 10" by (simp_all add: mod_add_cong [of "n * (10 * 10 ^ b)" 10 0])
  ultimately show ?case by simp
qed simp

lemma date_text_number:
  assumes G: "greg_ok G" and F: "fmt_dec_ok F" and wf: "date_wf dt"
  shows "date_parse G split (date_serialize F dt DateNumber) DateNumber base = Value dt"
proof -
  obtain y m d where dt: "dt = \<lparr>d_year = int y, d_month = int m, d_day = int d\<rparr>"
    using wf by (cases dt) (metis date_wf_iff nonneg_int_cases date.select_convs order_trans zero_le_numeral zero_le_one)
  have b: "1400 \<le> y" "y \<le> 9999" "1 \<le> m" "m \<le> 12" "1 \<le> d" "d \<le> 31"
    using wf dim_bounds [of "int y" "int m"] by (simp_all add: dt date_wf_iff)
  let ?n = "y * 10000 + m * 100 + d"
  have f: "F 4 y = digits_at 10 4 y" "F 2 m = digits_at 10 2 m" "F 2 d = digits_at 10 2 d"
    by (rule fmt_dec_digits [OF F]; use b in simp)+
  have "digits_at 10 2 m @ digits_at 10 2 d = digits_at 10 4 (m * 100 + d)"
    using digits_at_append [of d 2 2 m] b by simp
  then have "date_serialize F dt DateNumber = digits_at 10 4 y @ digits_at 10 4 (m * 100 + d)"
    using b by (simp add: date_serialize_def dt f date_isValid_def)
  also have "\<dots> = digits_at 10 8 ?n" using digits_at_append [of "m * 100 + d" 4 4 y] b by (simp add: ac_simps)
  finally have ser: "date_serialize F dt DateNumber = digits_at 10 8 ?n" .
  have ne: "digits_at 10 8 ?n \<noteq> []" by (metis length_digits_at list.size(3) zero_neq_numeral)
  have st: "stoi (digits_at 10 8 ?n) = Some (int ?n)" by (rule stoi_digits) (use b in simp_all)
  have n1: "int ?n = (int m * 100 + int d) + int y * 10000" by simp
  have n2: "int ?n = int d + (int m + int y * 100) * 100" by simp
  have n3: "int ?n - int y * 10000 = int d + int m * 100" by simp
  have p1: "int ?n div 10000 = int y" unfolding n1 using b by (simp add: div_pos_pos_trivial)
  have p2: "(int ?n - int y * 10000) div 100 = int m" unfolding n3 using b by (simp add: div_pos_pos_trivial)
  have p3: "int ?n mod 100 = int d" unfolding n2 mod_mult_self1 using b by (simp add: mod_pos_pos_trivial)
  note parts = p1 p2 p3
  have "date_set G (int ?n) date_default = (Value (), dt)"
    using validate3_wf [OF G, of "int y" "int m" "int d"] wf b
    by (simp only: date_set_def Let_def parts) (simp add: dt date_default_def)
  then show ?thesis using ne st by (simp only: ser date_parse_def) simp
qed

lemma parse_three:
  assumes "greg_ok G" and "date_wf dt" and "format \<noteq> DateNumber"
    and "parse_layout format = (yp, mp, dp, delim, short)"
    and "split (\<lambda>c. c = delim) s = [a, b, c]" and "s \<noteq> []"
    and "parse_fields yp mp dp short base 0 [a, b, c] date_default = Value dt"
  shows "date_parse G split s format base = Value dt"
proof -
  have "date_validate G True dt = (Value (), dt)"
    using validate3_wf [OF assms(1), of "d_year dt" "d_month dt" "d_day dt", unfolded date_eta] assms(2)
    by (simp add: date_validate_def)
  then show ?thesis using assms(3-7) by (simp add: date_parse_def)
qed

text \<open>The date that a text of the date stands for: a short format keeps two digits of the year, which are added to the
  base.\<close>

definition is_short :: "DateFormat \<Rightarrow> bool" where
  "is_short format \<longleftrightarrow> snd (snd (snd (snd (parse_layout format))))"

definition reread :: "int \<Rightarrow> DateFormat \<Rightarrow> date \<Rightarrow> date" where
  "reread base format dt = (if is_short format then dt\<lparr>d_year := base + d_year dt mod 100\<rparr> else dt)"

lemma date_text_parts:
  assumes G: "greg_ok G" and F: "fmt_dec_ok F" and sp: "split_ok split" and wf: "date_wf dt"
    and "format \<noteq> DateNumber" and again: "date_wf (reread base format dt)"
  shows "date_parse G split (date_serialize F dt format) format base = Value (reread base format dt)"
proof -
  obtain y m d where dt: "dt = \<lparr>d_year = int y, d_month = int m, d_day = int d\<rparr>"
    using wf by (cases dt) (metis date_wf_iff nonneg_int_cases date.select_convs order_trans zero_le_numeral zero_le_one)
  have b: "1400 \<le> y" "y \<le> 9999" "1 \<le> m" "m \<le> 12" "1 \<le> d" "d \<le> 31" "y mod 100 < 100"
    using wf dim_bounds [of "int y" "int m"] by (simp_all add: dt date_wf_iff)
  have f: "F 4 y = digits_at 10 4 y" "F 2 m = digits_at 10 2 m" "F 2 d = digits_at 10 2 d"
      "F 2 (y mod 100) = digits_at 10 2 (y mod 100)"
    by (rule fmt_dec_digits [OF F]; use b in simp)+
  have st: "stoi (digits_at 10 4 y) = Some (int y)" "stoi (digits_at 10 2 m) = Some (int m)"
      "stoi (digits_at 10 2 d) = Some (int d)" "stoi (digits_at 10 2 (y mod 100)) = Some (int (y mod 100))"
    by (rule stoi_digits; use b in simp)+
  have plain: "\<forall>c \<in> set (digits_at 10 w n). \<not> c = CHR ''-''" "\<forall>c \<in> set (digits_at 10 w n). \<not> c = CHR ''/''"
      "\<forall>c \<in> set (digits_at 10 w n). \<not> c = CHR ''.''" for w n
    by (auto dest!: set_digits_at simp: digit_char_plain)
  have sep: "split_on (\<lambda>c. c = x) (digits_at 10 w n @ x # rest) = digits_at 10 w n # split_on (\<lambda>c. c = x) rest"
      "split_on (\<lambda>c. c = x) (digits_at 10 w n) = [digits_at 10 w n]"
    if "x \<in> {CHR ''-'', CHR ''/'', CHR ''.''}" for w n x rest
    using split_on_sep [of "digits_at 10 w n" "\<lambda>c. c = x" x rest] split_on_word [of "digits_at 10 w n" "\<lambda>c. c = x"]
      plain [where w = w and n = n] that by auto
  have sp': "split = split_on" using sp by (simp add: split_ok_def fun_eq_iff)
  have valid: "date_isValid dt" using b by (simp add: date_isValid_def dt)
  obtain yp mp dp delim short where lay: "parse_layout format = (yp, mp, dp, delim, short)"
    by (cases "parse_layout format") auto
  have base: "1400 \<le> base + int y mod 100" "base + int y mod 100 \<le> 9999" if short
    using again that lay by (simp_all add: reread_def is_short_def dt date_wf_iff)
  let ?ys = "if short then digits_at 10 2 (y mod 100) else digits_at 10 4 y"
  let ?fld = "\<lambda>i. if i = yp then ?ys else if i = mp then digits_at 10 2 m else digits_at 10 2 d"
  have ser: "date_serialize F dt format = ?fld 0 @ delim # ?fld 1 @ delim # ?fld 2"
    using lay assms(5) by (cases format) (auto simp: date_serialize_def valid [unfolded dt] parse_layout_def dt f Let_def)
  show ?thesis
  proof (rule parse_three [OF G again assms(5) lay])
    have "delim \<in> {CHR ''-'', CHR ''/'', CHR ''.''}" using lay by (cases format) (auto simp: parse_layout_def)
    then show "split (\<lambda>c. c = delim) (date_serialize F dt format) = [?fld 0, ?fld 1, ?fld 2]"
      unfolding ser sp' by (simp add: sep)
    show "date_serialize F dt format \<noteq> []" unfolding ser by simp
    show "parse_fields yp mp dp short base 0 [?fld 0, ?fld 1, ?fld 2] date_default = Value (reread base format dt)"
      using lay assms(5) b(1-6) base
      by (cases format) (auto simp: parse_layout_def reread_def is_short_def dt st date_default_def zmod_int int_ok_def)
  qed
qed

subsection \<open>Lemmas on sets of ranges\<close>

lemma next_day:
  assumes "greg_ok G" and "ymd_ok (y, m, d)" and "(y, m, d) \<noteq> (9999, 12, 31)"
  shows "\<exists>x. ymd_ok x \<and> day_number x = day_number (y, m, d) + 1"
proof (cases "d < dim y m")
  case True
  then show ?thesis using assms(2) by (intro exI [of _ "(y, m, d + 1)"]) simp
next
  case False
  then have d: "d = dim y m" using assms(2) by simp
  have "y < 9999 \<or> m < 12"
  proof (rule ccontr)
    assume "\<not> (y < 9999 \<or> m < 12)"
    then have "y = 9999" "m = 12" using assms(2) by simp_all
    then show False using assms(3) d by (simp add: dim_def)
  qed
  then have "g_add_days G (if m = 12 then (y + 1, 1, 1) else (y, m + 1, 1)) (- 1) = Some (y, m, d)"
    unfolding d by (intro month_last_day [OF assms(1)]) (use assms(2) in simp_all)
  from greg_ok_simps(3) [OF assms(1) this] show ?thesis
    by (intro exI [of _ "if m = 12 then (y + 1, 1, 1) else (y, m + 1, 1)"]) linarith
qed

lemma addDays_some:
  assumes "greg_ok G" and "date_wf dt" and "ymd_ok x" and "day_number x = day_number (date_ymd dt) + n"
  shows "\<exists>dt'. date_addDays G n dt = Value dt' \<and> date_wf dt' \<and> date_ymd dt' = x"
proof -
  obtain y m d where x: "x = (y, m, d)" by (cases x)
  have "g_add_days G (date_ymd dt) n = Some x"
    by (rule add_days_unique [OF assms(1) _ assms(3,4)]) (use assms(2) in \<open>simp only: date_wf_def\<close>)
  moreover have "\<not> date_isNull dt" using assms(2) by (simp add: date_wf_iff date_isNull_def date_isValid_def)
  moreover have "u16 y = y" "u8 m = m" "u8 d = d" using assms(3) dim_bounds [of y m] by (simp_all add: x)
  ultimately have "date_addDays G n dt = Value \<lparr>d_year = y, d_month = m, d_day = d\<rparr>"
    by (simp add: date_addDays_def from_boost_def x)
  then show ?thesis using assms(3) by (simp add: x date_wf_def date_ymd_def del: ymd_ok.simps)
qed

lemma toRange_value:
  assumes "greg_ok G" and "date_wf dt"
  shows "\<exists>r. dateToRangeNumber G dt ty = Value r"
proof -
  have "g_valid G (date_ymd dt)" "\<not> date_isNull dt"
    using assms by (simp_all only: greg_ok_simps(1) date_wf_def [symmetric])
      (simp add: date_wf_iff date_isNull_def date_isValid_def)
  then show ?thesis by (simp add: dateToRangeNumber_def Let_def split: prod.splits)
qed

definition ranges_between :: "greg \<Rightarrow> int \<Rightarrow> date \<Rightarrow> date \<Rightarrow> date_range set" where
  "ranges_between G ty from to =
     {r. \<exists>dt. date_wf dt \<and> date_le from dt \<and> date_le dt to \<and> dateToRangeNumber G dt ty = Value r}"

lemma date_le_day_number:
  "date_wf a \<Longrightarrow> date_wf b \<Longrightarrow> date_le a b \<longleftrightarrow> day_number (date_ymd a) \<le> day_number (date_ymd b)"
  using date_number_less [of b a] by (simp add: date_le_def date_less_def linorder_not_less [symmetric])

lemma last_day:
  assumes "ymd_ok x"
  shows "day_number x \<le> day_number (9999, 12, 31)"
proof -
  have ok: "ymd_ok (9999, 12, 31)" by (simp add: dim_def)
  obtain y m d where x: "x = (y, m, d)" by (cases x)
  consider "y < 9999" | "y = 9999" "m < 12" | "y = 9999" "m = 12" "d \<le> 31"
    using assms dim_bounds [of y m] unfolding x ymd_ok.simps by linarith
  then show ?thesis
  proof cases
    case 1
    show ?thesis
      unfolding x by (rule less_imp_le [OF day_number_year_less [OF assms [unfolded x] ok 1]])
  next
    case 2
    show ?thesis
      unfolding x 2(1) by (rule less_imp_le [OF day_number_month_less [OF assms [unfolded x 2(1)] ok 2(2)]])
  next
    case 3
    then show ?thesis by (simp only: x day_number.simps)
  qed
qed

lemma date_eqI:
  "date_wf a \<Longrightarrow> date_wf b \<Longrightarrow> day_number (date_ymd a) = day_number (date_ymd b) \<Longrightarrow> a = b"
  using day_number_inj [of "date_ymd a" "date_ymd b"]
  by (cases a; cases b) (simp only: date_wf_def, simp add: date_ymd_def)

lemma dates_loop_ranges:
  assumes G: "greg_ok G" and to: "date_wf to" "date_ymd to \<noteq> (9999, 12, 31)"
  shows "date_wf from \<Longrightarrow> day_number (date_ymd from) + int n = day_number (date_ymd to) + 1 \<Longrightarrow>
    dates_loop G to ty from ranges = Some (Value (ranges \<union> ranges_between G ty from to))"
proof (induction n arbitrary: "from" ranges)
  case 0
  then have "\<not> date_le from to" using to(1) by (simp add: date_le_day_number)
  moreover have "ranges_between G ty from to = {}"
    using 0 to(1) by (auto simp: ranges_between_def date_le_day_number)
  ultimately show ?case by (simp add: dates_loop.simps)
next
  case (Suc n)
  then have le: "date_le from to" using to(1) by (simp add: date_le_day_number)
  have ok: "ymd_ok (date_ymd from)" "ymd_ok (date_ymd to)"
    using to(1) Suc.prems(1) by (simp_all only: date_wf_def)
  have "date_ymd from \<noteq> (9999, 12, 31)"
  proof
    assume m: "date_ymd from = (9999, 12, 31)"
    then have "day_number (date_ymd to) = day_number (date_ymd from)"
      using last_day [OF ok(2)] Suc.prems(2) by simp
    then show False using day_number_inj [OF ok(2,1)] m to(2) by simp
  qed
  then obtain x where x: "ymd_ok x" "day_number x = day_number (date_ymd from) + 1"
    using next_day [OF G] ok(1) by (cases "date_ymd from") metis
  obtain from' where f: "date_addDays G 1 from = Value from'" "date_wf from'" "date_ymd from' = x"
    using addDays_some [OF G Suc.prems(1) x] by blast
  obtain r where r: "dateToRangeNumber G from ty = Value r" using toRange_value [OF G Suc.prems(1)] by blast
  have step: "date_le from dt \<longleftrightarrow> dt = from \<or> date_le from' dt" if "date_wf dt" for dt
    using date_le_day_number [OF Suc.prems(1) that] date_le_day_number [OF f(2) that]
      date_eqI [OF that Suc.prems(1)] x(2) by (auto simp: f(3))
  have "ranges_between G ty from to = insert r (ranges_between G ty from' to)"
    using r le Suc.prems(1) step by (auto simp: ranges_between_def)
  moreover have "dates_loop G to ty from' (insert r ranges) =
      Some (Value (insert r ranges \<union> ranges_between G ty from' to))"
    by (rule Suc.IH [OF f(2)]) (use Suc.prems(2) x(2) in \<open>simp add: f(3)\<close>)
  ultimately show ?case by (simp add: dates_loop.simps [of _ _ _ "from"] le r f(1))
qed

subsection \<open>Properties\<close>

text \<open>C24: a date printed in any of the eleven formats parses back, to itself in the number and in the formats with a
  whole year; in the short formats to the date with the base plus the last two digits of the year, when there is such
  a date, so to itself exactly when the base is the one of its century: with the base 2000 that the library takes
  where none is given, 1999 comes back as 2099.\<close>

theorem date_text_roundtrip:
  assumes "greg_ok G" and "fmt_dec_ok F" and "split_ok split" and "date_wf dt" and "date_wf (reread base format dt)"
  shows "date_parse G split (date_serialize F dt format) format base = Value (reread base format dt)
    \<and> (reread base format dt = dt \<longleftrightarrow> \<not> is_short format \<or> base = 100 * (d_year dt div 100))"
proof
  have "reread base DateNumber dt = dt" by (simp add: reread_def is_short_def parse_layout_def)
  then show "date_parse G split (date_serialize F dt format) format base = Value (reread base format dt)"
    using date_text_number [OF assms(1,2,4)] date_text_parts [OF assms(1-4) _ assms(5)]
    by (cases "format = DateNumber") simp_all
  have "dt\<lparr>d_year := y\<rparr> = dt \<longleftrightarrow> y = d_year dt" for y by (cases dt) auto
  moreover have "base + d_year dt mod 100 = d_year dt \<longleftrightarrow> base = 100 * (d_year dt div 100)"
    using mult_div_mod_eq [of 100 "d_year dt"] by linarith
  ultimately show "reread base format dt = dt \<longleftrightarrow> \<not> is_short format \<or> base = 100 * (d_year dt div 100)"
    by (simp add: reread_def)
qed

theorem date_text_roundtrip_witness:
  "date_parse (ref_greg (\<lambda>x. None)) split_on
     (date_serialize (\<lambda>w n. pad0 w (numeral_str 10 n)) \<lparr>d_year = 1999, d_month = 12, d_day = 31\<rparr> UsShortDot)
     UsShortDot 2000 = Value \<lparr>d_year = 2099, d_month = 12, d_day = 31\<rparr>"
proof -
  let ?dt = "\<lparr>d_year = 1999, d_month = 12, d_day = 31\<rparr>"
  have r: "reread 2000 UsShortDot ?dt = \<lparr>d_year = 2099, d_month = 12, d_day = 31\<rparr>"
    by (simp add: reread_def is_short_def parse_layout_def)
  have "date_wf ?dt" "date_wf (reread 2000 UsShortDot ?dt)" unfolding r by (simp_all add: date_wf_iff dim_def)
  from date_text_roundtrip [OF ref_greg_ok fmt_dec_ok_pad _ this, of split_on] show ?thesis
    unfolding r by (simp add: split_ok_def)
qed

text \<open>The range of a date, by year, half year, quarter, month or day, has the type asked for and
  the year of the date, and contains the date; the month range of December 9999 throws instead,
  because its end is computed through the next year.\<close>

theorem range_contains_its_date:
  assumes "greg_ok G" and "date_wf dt" and "0 \<le> ty" and "ty < 6" and "ty \<noteq> 4"
  shows "\<exists>r. dateToRangeNumber G dt ty = Value r \<and> dr_type r = ty \<and> dr_year r = d_year dt
    \<and> dr_contains G r dt =
        (if ty = 3 \<and> d_year dt = 9999 \<and> d_month dt = 12 then Exception else Value True)"
proof -
  have m: "1 \<le> d_month dt" "d_month dt \<le> 12" using assms(2) by (simp_all add: date_wf_iff)
  have yd: "g_day_of_year G (date_ymd dt) = Some (day_number (date_ymd dt) - day_number (d_year dt, 1, 1) + 1)"
    using greg_ok_simps(5) [OF assms(1), of "d_year dt" "d_month dt" "d_day dt"] assms(2)
    by (simp only: date_wf_def date_ymd_def if_True)
  have q: "0 \<le> d_month dt div 3" "d_month dt div 3 \<le> 4"
    using m zdiv_mono1 [of 0 "d_month dt" 3] zdiv_mono1 [of "d_month dt" 12 3] by simp_all
  note range = range_of_date [OF assms(1-4) refl]
  consider "ty = 0" | "ty = 1" | "ty = 2" | "ty = 3" | "ty = 5" using assms(3-5) by linarith
  then show ?thesis
  proof cases
    case 2
    have "\<exists>r. dateToRangeNumber G dt ty = Value r \<and> dr_type r = ty
        \<and> dr_range r = (if d_month dt > 6 then 2 else 1) \<and> dr_year r = d_year dt"
      by (rule range_of_date [OF assms(1-4)]) (use 2 in simp_all)
    then show ?thesis using contains_fixed [OF assms(1,2)] 2 by (elim exE) (simp only:, fastforce)
  next
    case 3
    have "\<exists>r. dateToRangeNumber G dt ty = Value r \<and> dr_type r = ty
        \<and> dr_range r = d_month dt div 3 + (if d_month dt mod 3 \<noteq> 0 then 1 else 0) \<and> dr_year r = d_year dt"
      by (rule range_of_date [OF assms(1-4)]) (use 3 q in simp_all)
    then show ?thesis using contains_fixed [OF assms(1,2)] 3 by (elim exE) (simp only:, fastforce)
  next
    case 4
    then show ?thesis using range m contains_month [OF assms(1,2)] by (auto simp del: day_number.simps)
  next
    case 5
    then show ?thesis using range day_range_bounds [OF assms(2)] contains_day [OF assms(1,2)] yd by auto
  qed (use range contains_fixed [OF assms(1,2)] in auto)
qed

theorem range_contains_its_date_witness:
  "\<exists>r. dateToRangeNumber (ref_greg (\<lambda>x. None)) \<lparr>d_year = 2024, d_month = 2, d_day = 29\<rparr> 3 = Value r
     \<and> dr_contains (ref_greg (\<lambda>x. None)) r \<lparr>d_year = 2024, d_month = 2, d_day = 29\<rparr> = Value True"
  using range_contains_its_date [OF ref_greg_ok, of "\<lparr>d_year = 2024, d_month = 2, d_day = 29\<rparr>" 3]
  by (fastforce simp: date_wf_iff dim_def leap_def)

text \<open>C34: the ranges of an interval of dates are exactly the ranges of its dates: the loop over the days
  ends, for every interval that does not reach the last day of the calendar, and it takes the
  later date alone when no first date is given.\<close>

theorem dates_to_ranges:
  assumes "greg_ok G" and "date_wf to" and "date_ymd to \<noteq> (9999, 12, 31)"
    and "date_isNull from \<or> date_wf from \<and> date_le from to"
  shows "datesToRanges G to from ty =
    Some (Value (ranges_between G ty (if date_isNull from then to else from) to))"
proof -
  let ?from = "if date_isNull from then to else from"
  have wf: "date_wf ?from" and le: "date_le ?from to"
    using assms(2,4) by (auto simp: date_le_def)
  have "day_number (date_ymd ?from) + int (nat (day_number (date_ymd to) - day_number (date_ymd ?from) + 1))
      = day_number (date_ymd to) + 1"
    using date_le_day_number [OF wf assms(2)] le by linarith
  from dates_loop_ranges [OF assms(1-3) wf this, of ty "{}"] show ?thesis
    by (simp only: datesToRanges_def Let_def Un_empty_left)
qed

theorem dates_to_ranges_witness:
  "datesToRanges (ref_greg (\<lambda>x. None)) \<lparr>d_year = 2024, d_month = 2, d_day = 29\<rparr> date_default 3 =
   Some (Value (ranges_between (ref_greg (\<lambda>x. None)) 3 \<lparr>d_year = 2024, d_month = 2, d_day = 29\<rparr>
     \<lparr>d_year = 2024, d_month = 2, d_day = 29\<rparr>))"
  using dates_to_ranges [OF ref_greg_ok, of "\<lparr>d_year = 2024, d_month = 2, d_day = 29\<rparr>" date_default "\<lambda>x. None" 3]
  by (simp add: date_wf_iff dim_def leap_def date_ymd_def date_isNull_def date_isValid_def date_default_def)

text \<open>A week range is counted in sevens from the first of January while the number of the week is the
  library's, which gives the first days of January the last week of the year before and the last
  days of December the first week of the next: the range of such a date does not contain it. And
  the range of week 1 ends on the first of July instead of the seventh of January.\<close>

theorem week_range_misses:
  assumes "greg_ok G" and "date_wf dt" and "g_week_number G (date_ymd dt) = Some n"
    and "d_month dt = 1 \<and> (n = 52 \<or> n = 53) \<or> n = 1"
  shows "\<exists>r. dateToRangeNumber G dt 4 = Value r
    \<and> dr_contains G r dt = Value (n = 1 \<and> (d_month dt \<le> 6 \<or> d_month dt = 7 \<and> d_day dt = 1))
    \<and> (n = 1 \<longrightarrow> dr_contains G r \<lparr>d_year = d_year dt, d_month = 6, d_day = 30\<rparr> = Value True)"
proof -
  obtain r where r: "dateToRangeNumber G dt 4 = Value r" "dr_type r = 4" "dr_range r = n" "dr_year r = d_year dt"
    using range_of_date [OF assms(1,2), of 4 n] assms(3,4) by auto
  show ?thesis
  proof (cases "n = 1")
    case True
    have "date_wf \<lparr>d_year = d_year dt, d_month = 6, d_day = 30\<rparr>" using assms(2) by (simp add: date_wf_iff dim_def)
    then show ?thesis
      using r True week_range_one [OF assms(1,2)]
        week_range_one [OF assms(1), of "\<lparr>d_year = d_year dt, d_month = 6, d_day = 30\<rparr>" r] by auto
  next
    case False
    then show ?thesis using r week_range_late [OF assms(1,2)] assms(4) by auto
  qed
qed

theorem week_range_misses_witness:
  "\<exists>r. dateToRangeNumber (ref_greg (\<lambda>x. Some 53)) \<lparr>d_year = 2021, d_month = 1, d_day = 1\<rparr> 4 = Value r
     \<and> dr_contains (ref_greg (\<lambda>x. Some 53)) r \<lparr>d_year = 2021, d_month = 1, d_day = 1\<rparr> = Value False"
proof -
  have "date_wf \<lparr>d_year = 2021, d_month = 1, d_day = 1\<rparr>" by (simp add: date_wf_iff dim_def)
  moreover have "g_week_number (ref_greg (\<lambda>x. Some 53)) (date_ymd \<lparr>d_year = 2021, d_month = 1, d_day = 1\<rparr>) = Some 53"
    by (simp add: ref_greg_def)
  ultimately show ?thesis
    using week_range_misses [OF ref_greg_ok, of "\<lparr>d_year = 2021, d_month = 1, d_day = 1\<rparr>" "\<lambda>x. Some 53" 53] by auto
qed

text \<open>What the checks of a date do, on every branch: fields out of their simple bounds are the error,
  a year the calendar does not have, once cut to sixteen bits, ends the program because the
  exception cannot leave the \<open>noexcept\<close> function, and otherwise the length of the month decides.
  A year beyond sixteen bits passes and is stored cut.\<close>

theorem date_checks:
  assumes "greg_ok G" and "0 \<le> year" and "0 \<le> month" and "0 \<le> day"
  shows "date_validate3 G year month day =
      (if month = 0 \<or> month > 12 \<or> day = 0 \<or> day > 31 \<or> year = 0 then Error INVALID_DATE_FORMAT
       else if year mod 65536 < 1400 \<or> 9999 < year mod 65536 then Terminated
       else if day > dim (year mod 65536) month then Error INVALID_DATE_FORMAT
       else Value ())
    \<and> (date_validate3 G year month day = Value () \<and> year < 400000 \<longrightarrow>
         date_set G (year * 10000 + month * 100 + day) dt =
           (Value (), \<lparr>d_year = year mod 65536, d_month = month, d_day = day\<rparr>))
    \<and> date_parse G split ''09990505'' DateNumber base = Terminated"
proof (intro conjI impI)
  show spec: "date_validate3 G year month day =
      (if month = 0 \<or> month > 12 \<or> day = 0 \<or> day > 31 \<or> year = 0 then Error INVALID_DATE_FORMAT
       else if year mod 65536 < 1400 \<or> 9999 < year mod 65536 then Terminated
       else if day > dim (year mod 65536) month then Error INVALID_DATE_FORMAT
       else Value ())"
    using assms(2-4) unfolding date_validate3_def daysInMonth_def greg_ok_simps(2) [OF assms(1)]
    by (auto simp: u16_def u8_def)
  assume v: "date_validate3 G year month day = Value () \<and> year < 400000"
  then have b: "1 \<le> month" "month \<le> 12" "1 \<le> day" "day \<le> 31"
    using spec assms(2-4) by (auto split: if_splits)
  let ?n = "year * 10000 + month * 100 + day"
  have n1: "?n = (month * 100 + day) + year * 10000" by simp
  have n2: "?n = day + (month + year * 100) * 100" by simp
  have n3: "?n - year * 10000 = day + month * 100" by simp
  have p1: "?n div 10000 = year" unfolding n1 using b by (simp add: div_pos_pos_trivial)
  have p2: "(?n - year * 10000) div 100 = month" unfolding n3 using b by (simp add: div_pos_pos_trivial)
  have p3: "?n mod 100 = day" unfolding n2 mod_mult_self1 using b by (simp add: mod_pos_pos_trivial)
  show "date_set G ?n dt = (Value (), \<lparr>d_year = year mod 65536, d_month = month, d_day = day\<rparr>)"
    unfolding date_set_def Let_def p1 p2 p3 using v b by (cases dt) (simp add: u16_def u8_def)
next
  have "stoi ''09990505'' = Some 9990505" by (simp add: stoi_def isspace_def digit_val_def int_ok_def)
  moreover have "date_validate3 G 999 5 5 = Terminated"
    by (simp add: date_validate3_def daysInMonth_def greg_ok_simps(2) [OF assms(1)])
  ultimately show "date_parse G split ''09990505'' DateNumber base = Terminated"
    by (simp add: date_parse_def date_set_def)
qed

theorem date_checks_witness:
  "date_set (ref_greg (\<lambda>x. None)) (67536 * 10000 + 1 * 100 + 1) date_default =
     (Value (), \<lparr>d_year = 67536 mod 65536, d_month = 1, d_day = 1\<rparr>)"
  using date_checks [OF ref_greg_ok, of 67536 1 1 "\<lambda>x. None" date_default split_on 2000]
  by (simp add: dim_def)

end
