(* ===== verification/BlockSize.thy ===== *)
theory BlockSize
  imports HatnPrelude
begin

section \<open>Sizes of memory blocks: common/keyrange.h, memorypool/memblocksize.h\<close>

text \<open>
  \<open>MemBlockSize\<close> rounds a requested size up to the size of a block: a \<open>std::set\<close> of ranges of
  sizes, a range standing for its upper end. The set is the list of its elements in order; ranges
  that overlap are equivalent for it. Sizes are far below the width of \<open>size_t\<close>.
\<close>

record key_range =
  kr_from :: nat
  kr_to :: nat

definition kr_eq :: "key_range \<Rightarrow> key_range \<Rightarrow> bool" where
  "kr_eq left right \<longleftrightarrow>
     (kr_from left \<ge> kr_from right \<and> kr_to left \<le> kr_to right)
     \<or> (kr_from right \<ge> kr_from left \<and> kr_to right \<le> kr_to left)"

definition kr_less :: "key_range \<Rightarrow> key_range \<Rightarrow> bool" where
  "kr_less left right \<longleftrightarrow> kr_to left < kr_from right"

text \<open>\<open>std::set\<close>: insertion of a key with no equivalent one in the set, and search.\<close>

fun set_insert :: "key_range \<Rightarrow> key_range list \<Rightarrow> key_range list" where
  "set_insert key [] = [key]"
| "set_insert key (k # ks) =
     (if kr_less k key then k # set_insert key ks
      else if kr_less key k then key # k # ks
      else k # ks)"

fun set_find :: "key_range \<Rightarrow> key_range list \<Rightarrow> key_range option" where
  "set_find key [] = None"
| "set_find key (k # ks) =
     (if kr_less k key then set_find key ks else if kr_less key k then None else Some k)"

definition nextSize :: "nat \<Rightarrow> nat" where
  "nextSize sz = (let s = sz + sz div 2 in 32 + (s div 32) * 32)"

text \<open>One of the four extra sizes: the flag was taken before the variables moved on.\<close>

definition extra_size ::
    "bool \<Rightarrow> nat \<Rightarrow> nat \<times> nat \<times> key_range list \<Rightarrow> nat \<times> nat \<times> key_range list" where
  "extra_size add limit st =
     (case st of (from, to, sizes) \<Rightarrow>
        if add \<and> to > limit
        then (limit + 1, nextSize limit, set_insert \<lparr>kr_from = from, kr_to = limit\<rparr> sizes)
        else (from, to, sizes))"

text \<open>The loop of \<open>setMinMaxSizes\<close>; \<open>None\<close> is a loop that does not end.\<close>

partial_function (option) sizes_loop ::
    "nat \<Rightarrow> nat \<Rightarrow> nat \<Rightarrow> key_range list \<Rightarrow> (nat \<times> key_range list) option" where
  "sizes_loop maxBlockSize from to sizes =
     (if to < maxBlockSize then
        (case extra_size (from < 33024) 33024
                (extra_size (from < 16512) 16512
                  (extra_size (from < 4160) 4160
                    (extra_size (from < 1600) 1600
                      (to + 1, nextSize to, set_insert \<lparr>kr_from = from, kr_to = to\<rparr> sizes)))) of
           (from', to', sizes') \<Rightarrow> sizes_loop maxBlockSize from' to' sizes')
      else Some (from, sizes))"

definition setMinMaxSizes :: "nat \<Rightarrow> nat \<Rightarrow> key_range list option" where
  "setMinMaxSizes minBlockSize maxBlockSize =
     (if minBlockSize = 0 then None
      else map_option (\<lambda>(from, sizes). set_insert \<lparr>kr_from = from, kr_to = maxBlockSize\<rparr> sizes)
             (sizes_loop maxBlockSize 1 minBlockSize []))"

definition keyForSize :: "key_range list \<Rightarrow> nat \<Rightarrow> key_range" where
  "keyForSize sizes sz =
     (let key = \<lparr>kr_from = sz, kr_to = sz\<rparr>
      in case set_find key sizes of Some k \<Rightarrow> k | None \<Rightarrow> key)"

definition DEFAULT_MIN_BLOCK_SIZE :: nat where "DEFAULT_MIN_BLOCK_SIZE = 32"

definition DEFAULT_MAX_BLOCK_SIZE :: nat where "DEFAULT_MAX_BLOCK_SIZE = 64 * 1024"

subsection \<open>Lemmas\<close>

lemma set_find_covers:
  "set_find key sizes = Some k \<Longrightarrow> k \<in> set sizes \<and> kr_from key \<le> kr_to k \<and> kr_from k \<le> kr_to key"
  by (induction sizes) (auto simp: kr_less_def split: if_splits)

lemma keyForSize_ge: "sz \<le> kr_to (keyForSize sizes sz)"
  using set_find_covers [of "\<lparr>kr_from = sz, kr_to = sz\<rparr>" sizes]
  by (auto simp: keyForSize_def Let_def split: option.split)

text \<open>The table of the default limits, by its upper ends.\<close>

fun ranges_from :: "nat \<Rightarrow> nat list \<Rightarrow> key_range list" where
  "ranges_from from [] = []"
| "ranges_from from (to # tos) = \<lparr>kr_from = from, kr_to = to\<rparr> # ranges_from (to + 1) tos"

definition default_ends :: "nat list" where
  "default_ends =
     [32, 64, 128, 224, 352, 544, 832, 1280, 1600, 2432, 3680, 4160, 6272, 9440, 14176, 16512,
      24800, 33024, 49568, 65536]"

lemma set_insert_last: "list_all (\<lambda>k. kr_less k key) sizes \<Longrightarrow> set_insert key sizes = sizes @ [key]"
  by (induction sizes) auto

lemma default_sizes:
  "setMinMaxSizes DEFAULT_MIN_BLOCK_SIZE DEFAULT_MAX_BLOCK_SIZE = Some (ranges_from 1 default_ends)"
  by (simp add: setMinMaxSizes_def DEFAULT_MIN_BLOCK_SIZE_def DEFAULT_MAX_BLOCK_SIZE_def sizes_loop.simps
      extra_size_def nextSize_def kr_less_def default_ends_def)

lemma set_find_ranges:
  "from \<le> sz \<Longrightarrow> map_option kr_to (set_find \<lparr>kr_from = sz, kr_to = sz\<rparr> (ranges_from from ends)) =
     List.find (\<lambda>e. sz \<le> e) ends"
  by (induction ends arbitrary: "from") (auto simp: kr_less_def)

definition default_table :: "key_range list" where
  "default_table = ranges_from 1 default_ends"

text \<open>The rounding the byte arrays use: \<open>memBlockSize().keyForSize(capacity).to\<close>.\<close>

definition block_to :: "nat \<Rightarrow> nat" where
  "block_to sz = kr_to (keyForSize default_table sz)"

lemma block_to_find: "1 \<le> sz \<Longrightarrow> block_to sz = (case List.find (\<lambda>e. sz \<le> e) default_ends of Some e \<Rightarrow> e | None \<Rightarrow> sz)"
  using set_find_ranges [of 1 sz default_ends]
  by (cases "set_find \<lparr>kr_from = sz, kr_to = sz\<rparr> (ranges_from 1 default_ends)")
    (auto simp: block_to_def keyForSize_def default_table_def Let_def split: option.splits)

lemma find_le_last:
  "List.find P xs = Some e \<Longrightarrow> \<forall>x \<in> set xs. x \<le> m \<Longrightarrow> e \<le> (m :: nat)"
  by (induction xs) (auto split: if_splits)

lemma block_to_le: "block_to sz \<le> sz + 65536"
proof (cases "1 \<le> sz")
  case True
  have "e \<le> 65536" if "List.find (\<lambda>e. sz \<le> e) default_ends = Some e" for e
    by (rule find_le_last [OF that]) (simp add: default_ends_def)
  then show ?thesis
    using True by (cases "List.find (\<lambda>e. sz \<le> e) default_ends") (auto simp: block_to_find trans_le_add2)
next
  case False
  then show ?thesis
    by (simp add: block_to_def keyForSize_def default_table_def default_ends_def kr_less_def Let_def)
qed

text \<open>What the byte arrays need of the rounding: it gives enough and not much more.\<close>

locale block_rounding =
  fixes round_up :: "nat \<Rightarrow> nat"
  assumes enough: "sz \<le> round_up sz"
    and bounded: "round_up sz \<le> sz + 65536"
begin

lemma round_up_big: "20 < sz \<Longrightarrow> 20 < round_up sz"
  using enough [of sz] by linarith

lemma round_up_fits: "sz \<le> m \<Longrightarrow> round_up sz \<le> m + 65536"
  using bounded [of sz] by linarith

end

interpretation block: block_rounding block_to
  by unfold_locales (simp_all add: block_to_def keyForSize_ge, simp add: block_to_def [symmetric] block_to_le)

subsection \<open>Properties\<close>

text \<open>With the default limits the loop over the sizes ends, the ranges it makes tile the sizes from
  one to the greatest block without gap or overlap, and a size is rounded up to the least end of a
  range that holds it; sizes above the greatest block stay as they are.\<close>

theorem block_sizes_tile:
  "setMinMaxSizes DEFAULT_MIN_BLOCK_SIZE DEFAULT_MAX_BLOCK_SIZE = Some default_table
   \<and> default_table = ranges_from 1 default_ends \<and> sorted default_ends
   \<and> last default_ends = DEFAULT_MAX_BLOCK_SIZE
   \<and> block_to sz = (if sz = 0 then 0
        else case List.find (\<lambda>e. sz \<le> e) default_ends of Some e \<Rightarrow> e | None \<Rightarrow> sz)"
proof -
  have "block_to 0 = 0"
    by (simp add: block_to_def keyForSize_def default_table_def default_ends_def kr_less_def Let_def)
  then show ?thesis
    using block_to_find [of sz] default_sizes
    by (simp add: default_table_def) (simp add: default_ends_def DEFAULT_MAX_BLOCK_SIZE_def)
qed

end
