(* ===== verification/ByteArray.thy ===== *)
theory ByteArray
  imports BlockSize
begin

section \<open>Byte arrays: common/bytearray.h, common/src/bytearray.cpp\<close>

text \<open>
  \<open>ByteArray\<close> keeps its bytes in an array of twenty bytes inside the object, in a block of the
  allocator, or in memory of the caller (\<open>loadInline\<close>), from an offset on. A region of memory is the
  list of its bytes, uninitialised ones being arbitrary. \<open>None\<close> is what C++ does not define (an
  access outside the region, the release of memory that is not the allocator's, a copy onto itself
  that \<open>std::copy\<close> excludes) or a failed \<open>Assert\<close>. The allocator \<open>alloc\<close> gives a region of the size
  asked for; \<open>K\<close> is the rounding of capacities, \<open>BlockSize.block_to\<close> in the program. Sums of sizes stay
  below the width of \<open>size_t\<close>, differences are taken in it.
\<close>

datatype place = Preallocated | Allocated | Foreign

record byte_array =
  ba_pre :: "byte list"
  ba_mem :: "byte list"
  ba_place :: place
  ba_size :: nat
  ba_capacity :: nat
  ba_offset :: nat
  ba_external :: bool

definition PREALLOCATED_SIZE :: nat where "PREALLOCATED_SIZE = 20"

definition size_sub :: "nat \<Rightarrow> nat \<Rightarrow> nat" where
  "size_sub a b = (if b \<le> a then a - b else a + 2 ^ 64 - b)"

subsection \<open>The region the array points into\<close>

definition ba_cells :: "byte_array \<Rightarrow> byte list" where
  "ba_cells b = (if ba_place b = Preallocated then ba_pre b else ba_mem b)"

definition ba_set_cells :: "byte list \<Rightarrow> byte_array \<Rightarrow> byte_array" where
  "ba_set_cells cs b = (if ba_place b = Preallocated then b\<lparr>ba_pre := cs\<rparr> else b\<lparr>ba_mem := cs\<rparr>)"

definition read_at :: "nat \<Rightarrow> nat \<Rightarrow> byte list \<Rightarrow> byte list option" where
  "read_at pos n cs =
     (if n = 0 then Some [] else if pos + n \<le> length cs then Some (take n (drop pos cs)) else None)"

definition write_at :: "nat \<Rightarrow> byte list \<Rightarrow> byte list \<Rightarrow> byte list option" where
  "write_at pos bs cs =
     (if bs = [] then Some cs
      else if pos + length bs \<le> length cs then Some (take pos cs @ bs @ drop (pos + length bs) cs)
      else None)"

definition ba_write :: "nat \<Rightarrow> byte list \<Rightarrow> byte_array \<Rightarrow> byte_array option" where
  "ba_write pos bs b = map_option (\<lambda>cs. ba_set_cells cs b) (write_at pos bs (ba_cells b))"

definition ba_data :: "byte_array \<Rightarrow> byte list option" where
  "ba_data b = read_at (ba_offset b) (ba_size b) (ba_cells b)"

subsection \<open>Construction and release\<close>

definition BufCtrl :: "byte list \<Rightarrow> byte_array" where
  "BufCtrl pre =
     \<lparr>ba_pre = pre, ba_mem = [], ba_place = Preallocated, ba_size = 0, ba_capacity = PREALLOCATED_SIZE,
      ba_offset = 0, ba_external = False\<rparr>"

text \<open>\<open>freeBuffer\<close> gives the block back; only a block of the allocator may be given.\<close>

definition freeBuffer_defined :: "byte_array \<Rightarrow> bool" where
  "freeBuffer_defined b \<longleftrightarrow>
     ba_external b \<or> (ba_capacity b > PREALLOCATED_SIZE \<longrightarrow> ba_place b = Allocated)"

definition ba_reset :: "byte_array \<Rightarrow> byte_array option" where
  "ba_reset b =
     (if \<not> ba_external b \<and> \<not> freeBuffer_defined b then None
      else Some (b\<lparr>ba_external := False, ba_mem := [], ba_place := Preallocated, ba_size := 0,
                   ba_offset := 0, ba_capacity := PREALLOCATED_SIZE\<rparr>))"

definition ba_clear :: "byte_array \<Rightarrow> byte_array" where
  "ba_clear b = b\<lparr>ba_size := 0\<rparr>"

definition capacityForAppend :: "byte_array \<Rightarrow> nat" where
  "capacityForAppend b = size_sub (size_sub (ba_capacity b) (ba_size b)) (ba_offset b)"

subsection \<open>Reserving and resizing\<close>

text \<open>Where the data goes: the buffer stays, goes back into the object, or gets a new block.\<close>

datatype new_buffer = Same_buffer | Back_to_preallocated | New_block

definition reserve_buffer :: "(nat \<Rightarrow> nat) \<Rightarrow> nat \<Rightarrow> nat \<Rightarrow> new_buffer \<times> nat" where
  "reserve_buffer K capacity old =
     (if capacity \<le> PREALLOCATED_SIZE then
        (if old \<le> PREALLOCATED_SIZE then (Same_buffer, old)
         else if PREALLOCATED_SIZE = old then (Same_buffer, PREALLOCATED_SIZE)
         else (Back_to_preallocated, PREALLOCATED_SIZE))
      else
        let newCapacity = K capacity
        in if newCapacity = old then (Same_buffer, newCapacity) else (New_block, newCapacity))"

text \<open>The new offset and what is subtracted from it when the data is to be shifted left.\<close>

definition reserve_offset ::
    "byte_array \<Rightarrow> nat \<Rightarrow> nat \<Rightarrow> bool \<Rightarrow> nat \<Rightarrow> bool \<Rightarrow> bool \<Rightarrow> nat \<times> nat" where
  "reserve_offset b capacity newCapacity reverse maxOffset shiftRData forceZeroOffset =
     (let (newOffset, shiftOffsetLeft) =
            (if reverse then
               if newCapacity > ba_capacity b then
                 let n = newCapacity - ba_capacity b + ba_offset b
                 in if shiftRData then
                      let s = size_sub capacity (ba_size b) in (if s > n then s else n, s)
                    else (n, 0)
               else
                 let diff = ba_capacity b - newCapacity
                 in (if diff \<ge> ba_offset b then 0 else ba_offset b - diff, 0)
             else if newCapacity < ba_capacity b then
               let diff = ba_capacity b - newCapacity;
                   padding = size_sub (size_sub (ba_capacity b) (ba_size b)) (ba_offset b)
               in (if diff > padding then size_sub newCapacity (ba_size b) else ba_offset b, 0)
             else (ba_offset b, 0))
      in (if (forceZeroOffset \<or> maxOffset \<noteq> 0) \<and> newOffset > maxOffset then maxOffset else newOffset,
          shiftOffsetLeft))"

definition ba_reserve ::
    "(nat \<Rightarrow> nat) \<Rightarrow> (nat \<Rightarrow> byte list) \<Rightarrow> nat \<Rightarrow> bool \<Rightarrow> nat \<Rightarrow> bool \<Rightarrow> bool \<Rightarrow> byte_array
      \<Rightarrow> byte_array option" where
  "ba_reserve K alloc capacity0 reverse maxOffset shiftRData forceZeroOffset b =
     (if ba_external b \<and> capacity0 \<le> ba_capacity b then Some b
      else if ba_external b then None
      else if capacity0 < ba_size b then Some b
      else
        let offset = (if (forceZeroOffset \<or> maxOffset \<noteq> 0) \<and> ba_offset b > maxOffset
                      then maxOffset else ba_offset b);
            capacity = (if reverse then capacity0 else capacity0 + offset)
        in if capacity = ba_capacity b then Some b
           else
             let (buffer, newCapacity) = reserve_buffer K capacity (ba_capacity b);
                 (newOffset, shiftOffsetLeft) =
                   reserve_offset b capacity newCapacity reverse maxOffset shiftRData forceZeroOffset;
                 finish = (\<lambda>b'. b'\<lparr>ba_capacity := newCapacity,
                                  ba_offset := size_sub newOffset shiftOffsetLeft\<rparr>)
             in case buffer of
                  Same_buffer \<Rightarrow> Some (finish b)
                | Back_to_preallocated \<Rightarrow>
                    Option.bind (ba_data b) (\<lambda>bs. Option.bind (write_at newOffset bs (ba_pre b)) (\<lambda>cs.
                      if freeBuffer_defined b
                      then Some (finish (b\<lparr>ba_pre := cs, ba_mem := [], ba_place := Preallocated\<rparr>))
                      else None))
                | New_block \<Rightarrow>
                    Option.bind (ba_data b) (\<lambda>bs. Option.bind (write_at newOffset bs (alloc newCapacity)) (\<lambda>cs.
                      if freeBuffer_defined b
                      then Some (finish (b\<lparr>ba_mem := cs, ba_place := Allocated\<rparr>))
                      else None)))"

definition ba_resize :: "(nat \<Rightarrow> nat) \<Rightarrow> (nat \<Rightarrow> byte list) \<Rightarrow> nat \<Rightarrow> byte_array \<Rightarrow> byte_array option" where
  "ba_resize K alloc sz b =
     (if sz = ba_size b then Some b
      else
        Option.bind
          (if sz > ba_size b \<and> sz - ba_size b > capacityForAppend b
           then ba_reserve K alloc sz False 0 False False b else Some b)
          (\<lambda>b'. Some (b'\<lparr>ba_size := sz\<rparr>)))"

text \<open>The shift inside the buffer is a \<open>std::copy\<close>, whose target must not begin inside its source.\<close>

definition ba_rresize :: "(nat \<Rightarrow> nat) \<Rightarrow> (nat \<Rightarrow> byte list) \<Rightarrow> nat \<Rightarrow> byte_array \<Rightarrow> byte_array option" where
  "ba_rresize K alloc sz b =
     (if sz = ba_size b then Some b
      else
        Option.bind
          (if sz > ba_capacity b then ba_reserve K alloc sz True 0 True False b
           else if sz > ba_size b then
             let diff = sz - ba_size b
             in if diff \<le> ba_offset b then Some (b\<lparr>ba_offset := ba_offset b - diff\<rparr>)
                else if diff < ba_offset b + ba_size b then None
                else Option.bind (ba_data b) (\<lambda>bs. Option.bind (ba_write diff bs b) (\<lambda>b'.
                       Some (b'\<lparr>ba_offset := 0\<rparr>)))
           else Some (b\<lparr>ba_offset := ba_offset b + (ba_size b - sz)\<rparr>))
          (\<lambda>b'. Some (b'\<lparr>ba_size := sz\<rparr>)))"

definition ba_right :: "(nat \<Rightarrow> nat) \<Rightarrow> (nat \<Rightarrow> byte list) \<Rightarrow> nat \<Rightarrow> byte_array \<Rightarrow> (byte_array \<times> nat) option" where
  "ba_right K alloc sz b =
     (if sz \<ge> ba_size b then Some (b, ba_size b)
      else map_option (\<lambda>b'. (b', ba_size b')) (ba_rresize K alloc sz b))"

definition ba_left :: "(nat \<Rightarrow> nat) \<Rightarrow> (nat \<Rightarrow> byte list) \<Rightarrow> nat \<Rightarrow> byte_array \<Rightarrow> (byte_array \<times> nat) option" where
  "ba_left K alloc sz b =
     (if sz \<ge> ba_size b then Some (b, ba_size b)
      else map_option (\<lambda>b'. (b', ba_size b')) (ba_resize K alloc sz b))"

definition ba_shrink :: "(nat \<Rightarrow> nat) \<Rightarrow> (nat \<Rightarrow> byte list) \<Rightarrow> byte_array \<Rightarrow> byte_array option" where
  "ba_shrink K alloc b = ba_reserve K alloc (ba_size b) False 0 False True b"

subsection \<open>Loading, appending and prepending\<close>

definition ba_load :: "(nat \<Rightarrow> nat) \<Rightarrow> (nat \<Rightarrow> byte list) \<Rightarrow> byte list \<Rightarrow> byte_array \<Rightarrow> byte_array option" where
  "ba_load K alloc bs b =
     (let b1 = ba_clear (b\<lparr>ba_external := False\<rparr>)
      in if length bs > 0 then
           Option.bind (ba_resize K alloc (length bs) b1) (\<lambda>b2. ba_write (ba_offset b2) bs b2)
         else Some b1)"

text \<open>
  \<open>loadInline\<close> takes memory of the caller; the region may be longer than the size given. The
  overload for constant data does not set the capacity.
\<close>

definition ba_loadInline :: "byte list \<Rightarrow> nat \<Rightarrow> byte_array \<Rightarrow> byte_array option" where
  "ba_loadInline region sz b =
     map_option (\<lambda>b'. b'\<lparr>ba_external := True, ba_mem := region, ba_place := Foreign, ba_size := sz,
                        ba_capacity := sz\<rparr>) (ba_reset b)"

definition ba_loadInline_const :: "byte list \<Rightarrow> nat \<Rightarrow> byte_array \<Rightarrow> byte_array option" where
  "ba_loadInline_const region sz b =
     map_option (\<lambda>b'. b'\<lparr>ba_external := True, ba_mem := region, ba_place := Foreign, ba_size := sz\<rparr>) (ba_reset b)"

text \<open>The constructor from data, inline or copied.\<close>

definition ByteArray_data ::
    "(nat \<Rightarrow> nat) \<Rightarrow> (nat \<Rightarrow> byte list) \<Rightarrow> byte list \<Rightarrow> byte list \<Rightarrow> nat \<Rightarrow> bool \<Rightarrow> byte_array option" where
  "ByteArray_data K alloc pre region sz inlineRawBuffer =
     (if inlineRawBuffer then
        Some ((BufCtrl pre)\<lparr>ba_mem := region, ba_place := Foreign, ba_size := sz, ba_capacity := sz,
                            ba_offset := 0, ba_external := True\<rparr>)
      else Option.bind (read_at 0 sz region) (\<lambda>bs. ba_load K alloc bs (BufCtrl pre)))"

definition ba_append :: "(nat \<Rightarrow> nat) \<Rightarrow> (nat \<Rightarrow> byte list) \<Rightarrow> byte list \<Rightarrow> byte_array \<Rightarrow> byte_array option" where
  "ba_append K alloc bs b =
     (let oldSize = ba_size b
      in Option.bind (ba_resize K alloc (oldSize + length bs) b) (\<lambda>b'. ba_write (oldSize + ba_offset b') bs b'))"

text \<open>An array appended to itself.\<close>

definition ba_append_self :: "(nat \<Rightarrow> nat) \<Rightarrow> (nat \<Rightarrow> byte list) \<Rightarrow> byte_array \<Rightarrow> byte_array option" where
  "ba_append_self K alloc b =
     (let prevSize = ba_size b
      in Option.bind (ba_resize K alloc (prevSize * 2) b) (\<lambda>b'.
           Option.bind (read_at (ba_offset b') prevSize (ba_cells b')) (\<lambda>bs.
             ba_write (ba_offset b' + prevSize) bs b')))"

definition ba_prepend :: "(nat \<Rightarrow> nat) \<Rightarrow> (nat \<Rightarrow> byte list) \<Rightarrow> byte list \<Rightarrow> byte_array \<Rightarrow> byte_array option" where
  "ba_prepend K alloc bs b =
     (let oldSize = ba_size b
      in Option.bind (ba_rresize K alloc (oldSize + length bs) b) (\<lambda>b'. ba_write (ba_offset b') bs b'))"

definition ba_fill :: "byte \<Rightarrow> nat \<Rightarrow> byte_array \<Rightarrow> byte_array option" where
  "ba_fill ch offset b =
     (if offset < ba_size b
      then ba_write (ba_offset b + offset) (replicate (ba_size b - offset) ch) b else Some b)"

subsection \<open>Copies and moves\<close>

definition ba_copy :: "(nat \<Rightarrow> nat) \<Rightarrow> (nat \<Rightarrow> byte list) \<Rightarrow> byte list \<Rightarrow> byte_array \<Rightarrow> byte_array option" where
  "ba_copy K alloc pre other =
     (if ba_external other then
        Some ((BufCtrl pre)\<lparr>ba_external := True, ba_capacity := ba_capacity other, ba_size := ba_size other,
                            ba_offset := 0, ba_mem := ba_mem other, ba_place := Foreign\<rparr>)
      else Option.bind (ba_data other) (\<lambda>bs. ba_load K alloc bs (BufCtrl pre)))"

text \<open>The new object and the object moved from.\<close>

definition ba_moved_from :: "byte_array \<Rightarrow> byte_array" where
  "ba_moved_from other =
     other\<lparr>ba_mem := [], ba_place := Preallocated, ba_size := 0, ba_offset := 0,
           ba_capacity := PREALLOCATED_SIZE, ba_external := False\<rparr>"

definition ba_take_over :: "byte list \<Rightarrow> byte_array \<Rightarrow> byte_array option" where
  "ba_take_over pre other =
     (if ba_capacity other > PREALLOCATED_SIZE \<or> ba_external other then Some (other\<lparr>ba_pre := pre\<rparr>)
      else Option.bind (read_at 0 (ba_size other) (ba_pre other)) (\<lambda>bs.
             Option.bind (write_at 0 bs pre) (\<lambda>cs.
               Some (other\<lparr>ba_pre := cs, ba_mem := [], ba_place := Preallocated\<rparr>))))"

definition ba_move :: "byte list \<Rightarrow> byte_array \<Rightarrow> (byte_array \<times> byte_array) option" where
  "ba_move pre other = map_option (\<lambda>b. (b, ba_moved_from other)) (ba_take_over pre other)"

definition ba_move_assign :: "byte_array \<Rightarrow> byte_array \<Rightarrow> (byte_array \<times> byte_array) option" where
  "ba_move_assign self other =
     Option.bind (ba_reset self) (\<lambda>s. ba_move (ba_pre s) other)"

definition ba_assign :: "(nat \<Rightarrow> nat) \<Rightarrow> (nat \<Rightarrow> byte list) \<Rightarrow> byte_array \<Rightarrow> byte_array \<Rightarrow> byte_array option" where
  "ba_assign K alloc self other =
     Option.bind (ba_reset self) (\<lambda>s. ba_copy K alloc (ba_pre s) other)"

subsection \<open>Reading\<close>

text \<open>\<open>at\<close>: \<open>Inl\<close> is the exception.\<close>

definition ba_at :: "nat \<Rightarrow> byte_array \<Rightarrow> (unit + byte) option" where
  "ba_at i b =
     (if i > ba_size b then Some (Inl ())
      else if i + ba_offset b < length (ba_cells b) then Some (Inr (ba_cells b ! (i + ba_offset b)))
      else None)"

definition ba_stringView :: "nat \<Rightarrow> nat \<Rightarrow> byte_array \<Rightarrow> byte list option" where
  "ba_stringView offset len b =
     (if ba_size b < offset + len then Some []
      else read_at (ba_offset b + offset) (if len = 0 then ba_size b - offset else len) (ba_cells b))"

definition ba_isEqual :: "byte list \<Rightarrow> byte_array \<Rightarrow> bool option" where
  "ba_isEqual bs b = (if ba_size b = length bs then map_option (\<lambda>cs. cs = bs) (ba_data b) else Some False)"

text \<open>\<open>c_str\<close>: the array may grow by the terminator; a null pointer, a string or an exception.\<close>

datatype c_string = Null_pointer | C_string "byte list" | Overflow_error

definition ba_c_str :: "(nat \<Rightarrow> nat) \<Rightarrow> (nat \<Rightarrow> byte list) \<Rightarrow> byte_array \<Rightarrow> (byte_array \<times> c_string) option" where
  "ba_c_str K alloc b =
     (if ba_size b = 0 then Some (b, Null_pointer)
      else if ba_external b then
        (if ba_size b \<le> ba_capacity b then
           Option.bind (read_at (ba_offset b + ba_size b) 1 (ba_cells b)) (\<lambda>z.
             if z = [0] then map_option (\<lambda>bs. (b, C_string bs)) (ba_data b) else Some (b, Overflow_error))
         else Some (b, Overflow_error))
      else
        Option.bind (if ba_offset b + ba_size b = ba_capacity b
                     then ba_reserve K alloc (ba_capacity b + 1) False 0 False False b else Some b) (\<lambda>b1.
          Option.bind (ba_write (ba_offset b1 + ba_size b1) [0] b1) (\<lambda>b2.
            map_option (\<lambda>bs. (b2, C_string bs)) (ba_data b2))))"

subsection \<open>What an array of its own memory holds\<close>

definition alloc_ok :: "(nat \<Rightarrow> byte list) \<Rightarrow> bool" where
  "alloc_ok alloc \<longleftrightarrow> (\<forall>n. length (alloc n) = n)"

definition ba_ok :: "byte_array \<Rightarrow> bool" where
  "ba_ok b \<longleftrightarrow>
     \<not> ba_external b \<and> length (ba_pre b) = 20
     \<and> (ba_place b = Preallocated \<and> ba_capacity b = 20
        \<or> ba_place b = Allocated \<and> 20 < ba_capacity b \<and> length (ba_mem b) = ba_capacity b)
     \<and> ba_offset b + ba_size b \<le> ba_capacity b \<and> ba_capacity b < 2 ^ 64"

text \<open>Sizes that leave room for the rounding of a capacity.\<close>

definition fits :: "nat \<Rightarrow> bool" where
  "fits n \<longleftrightarrow> n + 65536 < 2 ^ 64"

definition ba_content :: "byte_array \<Rightarrow> byte list" where
  "ba_content b = take (ba_size b) (drop (ba_offset b) (ba_cells b))"

lemma size_sub_le [simp]: "b \<le> a \<Longrightarrow> size_sub a b = a - b"
  by (simp add: size_sub_def)

lemma alloc_length: "alloc_ok alloc \<Longrightarrow> length (alloc n) = n"
  by (simp add: alloc_ok_def)

lemma ba_ok_cells: "ba_ok b \<Longrightarrow> length (ba_cells b) = ba_capacity b"
  by (auto simp: ba_ok_def ba_cells_def)

lemma ba_ok_bounds:
  "ba_ok b \<Longrightarrow> ba_offset b + ba_size b \<le> ba_capacity b \<and> 20 \<le> ba_capacity b \<and> \<not> ba_external b"
  by (auto simp: ba_ok_def)

lemma ba_content_length: "ba_ok b \<Longrightarrow> length (ba_content b) = ba_size b"
proof -
  assume "ba_ok b"
  then have "ba_size b \<le> length (ba_cells b) - ba_offset b"
    using ba_ok_cells [of b] ba_ok_bounds [of b] by linarith
  then show ?thesis by (simp add: ba_content_def)
qed

lemma ba_ok_data: "ba_ok b \<Longrightarrow> ba_data b = Some (ba_content b)"
  using ba_ok_cells [of b] ba_ok_bounds [of b] by (simp add: ba_data_def read_at_def ba_content_def)

lemma ba_ok_free: "ba_ok b \<Longrightarrow> freeBuffer_defined b"
  by (auto simp: ba_ok_def freeBuffer_defined_def PREALLOCATED_SIZE_def)

lemma ba_ok_append_room: "ba_ok b \<Longrightarrow> capacityForAppend b = ba_capacity b - ba_offset b - ba_size b"
proof -
  assume "ba_ok b"
  then have "ba_size b \<le> ba_capacity b" "ba_offset b \<le> ba_capacity b - ba_size b"
    using ba_ok_bounds [of b] by auto
  then show ?thesis by (simp add: capacityForAppend_def)
qed

lemma ba_cells_set_cells [simp]: "ba_cells (ba_set_cells cs b) = cs"
  by (simp add: ba_cells_def ba_set_cells_def)

lemma ba_set_cells_fields [simp]:
  "ba_size (ba_set_cells cs b) = ba_size b" "ba_offset (ba_set_cells cs b) = ba_offset b"
  "ba_capacity (ba_set_cells cs b) = ba_capacity b" "ba_external (ba_set_cells cs b) = ba_external b"
  "ba_place (ba_set_cells cs b) = ba_place b"
  by (simp_all add: ba_set_cells_def)

lemma ba_set_cells_same [simp]: "ba_set_cells (ba_cells b) b = b"
  by (simp add: ba_cells_def ba_set_cells_def)

lemma ba_ok_set_cells: "ba_ok b \<Longrightarrow> length cs = ba_capacity b \<Longrightarrow> ba_ok (ba_set_cells cs b)"
  by (auto simp: ba_ok_def ba_set_cells_def)

lemma ba_cells_fields [simp]:
  "ba_cells (b\<lparr>ba_size := n\<rparr>) = ba_cells b" "ba_cells (b\<lparr>ba_offset := n\<rparr>) = ba_cells b"
  "ba_cells (b\<lparr>ba_capacity := n\<rparr>) = ba_cells b"
  by (simp_all add: ba_cells_def)

lemma write_at_length: "write_at pos bs cs = Some cs' \<Longrightarrow> length cs' = length cs"
  by (auto simp: write_at_def split: if_splits)

lemma write_at_start: "length bs \<le> length cs \<Longrightarrow> write_at 0 bs cs = Some (bs @ drop (length bs) cs)"
  by (simp add: write_at_def)

text \<open>Writing inside the content replaces that part of it.\<close>

lemma write_window:
  fixes cs :: "'b list"
  assumes "ofs + sz \<le> length cs" and "k + length bs \<le> sz" and "bs \<noteq> []"
  shows "take sz (drop ofs (take (ofs + k) cs @ bs @ drop (ofs + k + length bs) cs)) =
    take k (take sz (drop ofs cs)) @ bs @ drop (k + length bs) (take sz (drop ofs cs))"
proof -
  let ?m = "drop ofs cs"
  have k: "k < sz" using assms(2,3) by (cases bs) auto
  have "drop ofs (take (ofs + k) cs @ bs @ drop (ofs + k + length bs) cs) =
      take k ?m @ bs @ drop (k + length bs) ?m"
    using assms by (simp add: drop_take ac_simps)
  also have "take sz \<dots> = take k ?m @ bs @ take (sz - (k + length bs)) (drop (k + length bs) ?m)"
    using assms k by (simp add: min_def)
  finally show ?thesis using assms k by (simp add: drop_take min_def)
qed

lemma ba_write_inside:
  assumes "ba_ok b" and "k + length bs \<le> ba_size b"
  shows "\<exists>b'. ba_write (ba_offset b + k) bs b = Some b' \<and> ba_ok b' \<and> ba_size b' = ba_size b
    \<and> ba_content b' = take k (ba_content b) @ bs @ drop (k + length bs) (ba_content b)"
proof (cases "bs = []")
  case True
  then show ?thesis using assms by (simp add: ba_write_def write_at_def)
next
  case False
  let ?p = "ba_offset b + k"
  let ?cs = "take ?p (ba_cells b) @ bs @ drop (?p + length bs) (ba_cells b)"
  have len: "?p + length bs \<le> length (ba_cells b)" "length (ba_cells b) = ba_capacity b"
    using assms ba_ok_bounds [of b] ba_ok_cells [of b] by linarith+
  then have w: "ba_write ?p bs b = Some (ba_set_cells ?cs b)" using False by (simp add: ba_write_def write_at_def)
  have "ba_ok (ba_set_cells ?cs b)" by (rule ba_ok_set_cells [OF assms(1)]) (use len in simp)
  moreover have "take (ba_size b) (drop (ba_offset b) ?cs) =
      take k (ba_content b) @ bs @ drop (k + length bs) (ba_content b)"
    unfolding ba_content_def by (rule write_window) (use assms ba_ok_bounds [of b] len False in auto)
  ultimately show ?thesis using w by (simp add: ba_content_def)
qed

subsection \<open>Reserving keeps the content\<close>

text \<open>Resizing at the front: a block of its own, room before the offset, a shift, or a cut.\<close>

definition front_defined :: "nat \<Rightarrow> byte_array \<Rightarrow> bool" where
  "front_defined n b \<longleftrightarrow>
     n > ba_capacity b \<or> n - ba_size b \<le> ba_offset b \<or> ba_offset b + ba_size b \<le> n - ba_size b"

text \<open>Shrinking moves the data to another buffer, or leaves it and only forgets the offset.\<close>

definition shrink_stays :: "(nat \<Rightarrow> nat) \<Rightarrow> byte_array \<Rightarrow> bool" where
  "shrink_stays K b \<longleftrightarrow>
     ba_size b \<noteq> ba_capacity b
     \<and> (if ba_size b \<le> 20 then ba_capacity b \<le> 20 else K (ba_size b) = ba_capacity b)"

context block_rounding
begin

text \<open>A new block, as every growth of the capacity takes one.\<close>

lemma reserve_new_block:
  assumes ok: "ba_ok b" and al: "alloc_ok alloc" and "20 < cap" and "fits cap"
    and "n + ba_size b \<le> round_up cap" and "s \<le> n"
  shows "\<exists>cs. write_at n (ba_content b) (alloc (round_up cap)) = Some cs
    \<and> (\<forall>b'. b' = b\<lparr>ba_mem := cs, ba_place := Allocated, ba_capacity := round_up cap, ba_offset := n - s\<rparr> \<longrightarrow>
         ba_ok b' \<and> take (ba_size b) (drop n (ba_cells b')) = ba_content b)"
proof -
  have len: "length (ba_content b) = ba_size b" by (rule ba_content_length [OF ok])
  have w: "write_at n (ba_content b) (alloc (round_up cap)) =
      Some (take n (alloc (round_up cap)) @ ba_content b @ drop (n + ba_size b) (alloc (round_up cap)))"
    using assms(5) len by (auto simp: write_at_def alloc_length [OF al])
  have n: "n \<le> round_up cap" using assms(5) by simp
  have "cap \<le> round_up cap" "round_up cap < 2 ^ 64"
    using enough [of cap] bounded [of cap] assms(4) unfolding fits_def by linarith+
  then show ?thesis
    using ok assms(3,5,6) len n ba_ok_bounds [OF ok]
    unfolding w by (auto simp: ba_ok_def ba_cells_def alloc_length [OF al])
qed

lemma reserve_grow:
  assumes ok: "ba_ok b" and al: "alloc_ok alloc" and "ba_size b \<le> n" and "ba_capacity b < n + ba_offset b"
    and "fits (n + ba_offset b)"
  shows "\<exists>b'. ba_reserve round_up alloc n False 0 False False b = Some b' \<and> ba_ok b' \<and> ba_size b' = ba_size b
    \<and> ba_offset b' = ba_offset b \<and> ba_content b' = ba_content b \<and> ba_offset b' + n \<le> ba_capacity b'"
proof -
  let ?c = "n + ba_offset b"
  have up: "?c \<le> round_up ?c" by (rule enough)
  have buf: "reserve_buffer round_up ?c (ba_capacity b) = (New_block, round_up ?c)"
    using assms(4) up ba_ok_bounds [OF ok] by (auto simp: reserve_buffer_def PREALLOCATED_SIZE_def Let_def)
  have off: "reserve_offset b ?c (round_up ?c) False 0 False False = (ba_offset b, 0)"
    using assms(4) up by (auto simp: reserve_offset_def Let_def)
  obtain cs where cs: "write_at (ba_offset b) (ba_content b) (alloc (round_up ?c)) = Some cs"
      "\<forall>b'. b' = b\<lparr>ba_mem := cs, ba_place := Allocated, ba_capacity := round_up ?c, ba_offset := ba_offset b - 0\<rparr> \<longrightarrow>
         ba_ok b' \<and> take (ba_size b) (drop (ba_offset b) (ba_cells b')) = ba_content b"
    using reserve_new_block [OF ok al _ assms(5), of "ba_offset b" 0] assms(3,4) up ba_ok_bounds [OF ok] by auto
  then show ?thesis
    using ba_ok_bounds [OF ok] assms(3,4) up
    by (auto simp: ba_reserve_def Let_def buf off ba_ok_data [OF ok] ba_ok_free [OF ok] ba_content_def)
qed

text \<open>Reserving in front of nothing: the capacity may also shrink, the data stays at the start.\<close>

lemma reserve_at_start:
  assumes ok: "ba_ok b" and al: "alloc_ok alloc" and "ba_offset b = 0" and "20 < n" and "fits n"
  shows "yields (ba_reserve round_up alloc n False 0 False False b)
    (\<lambda>b'. ba_ok b' \<and> ba_size b' = ba_size b \<and> ba_offset b' = 0 \<and> ba_content b' = ba_content b
       \<and> n \<le> ba_capacity b')"
proof (cases "n < ba_size b \<or> n = ba_capacity b")
  case True
  then show ?thesis using ok assms(3) ba_ok_bounds [OF ok] by (auto simp: ba_reserve_def Let_def)
next
  case False
  have up: "n \<le> round_up n" by (rule enough)
  have ext: "\<not> ba_external b" using ba_ok_bounds [OF ok] by simp
  have off: "reserve_offset b n (round_up n) False 0 False False = (0, 0)"
    using False up assms(3) ba_ok_bounds [OF ok] by (auto simp: reserve_offset_def Let_def)
  show ?thesis
  proof (cases "round_up n = ba_capacity b")
    case True
    then have "reserve_buffer round_up n (ba_capacity b) = (Same_buffer, round_up n)"
      using assms(4) by (simp add: reserve_buffer_def PREALLOCATED_SIZE_def)
    moreover have "ba_ok (b\<lparr>ba_offset := 0\<rparr>) \<and> ba_content (b\<lparr>ba_offset := 0\<rparr>) = ba_content b"
      using ok assms(3) by (auto simp: ba_ok_def ba_content_def)
    ultimately show ?thesis
      using False up ext off ok assms(3) True by (simp add: ba_reserve_def)
  next
    case new: False
    have buf: "reserve_buffer round_up n (ba_capacity b) = (New_block, round_up n)"
      using assms(4) new by (simp add: reserve_buffer_def PREALLOCATED_SIZE_def)
    obtain cs where "write_at 0 (ba_content b) (alloc (round_up n)) = Some cs"
      "\<forall>b'. b' = b\<lparr>ba_mem := cs, ba_place := Allocated, ba_capacity := round_up n, ba_offset := 0 - 0\<rparr> \<longrightarrow>
         ba_ok b' \<and> take (ba_size b) (drop 0 (ba_cells b')) = ba_content b"
      using reserve_new_block [OF ok al assms(4,5), of 0 0] False up by auto
    then show ?thesis
      using False up ext buf off assms(3) ba_ok_data [OF ok] ba_ok_free [OF ok]
      by (auto simp: ba_reserve_def ba_content_def)
  qed
qed

text \<open>Resizing: the content is cut, or prolonged by arbitrary bytes.\<close>

lemma resize_ok:
  assumes ok: "ba_ok b" and al: "alloc_ok alloc" and "fits (n + ba_offset b)"
  shows "\<exists>b'. ba_resize round_up alloc n b = Some b' \<and> ba_ok b' \<and> ba_size b' = n \<and> ba_offset b' = ba_offset b
    \<and> take (ba_size b) (ba_content b') = take n (ba_content b)"
proof (cases "n > ba_size b \<and> n - ba_size b > capacityForAppend b")
  case True
  then have "ba_capacity b < n + ba_offset b"
    using ba_ok_append_room [OF ok] ba_ok_bounds [OF ok] by linarith
  from reserve_grow [OF ok al _ this assms(3)] True
  obtain b' where b': "ba_reserve round_up alloc n False 0 False False b = Some b'" "ba_ok b'"
      "ba_size b' = ba_size b" "ba_offset b' = ba_offset b" "ba_content b' = ba_content b"
      "ba_offset b' + n \<le> ba_capacity b'"
    by auto
  have "ba_ok (b'\<lparr>ba_size := n\<rparr>)" using b'(2,6) by (auto simp: ba_ok_def)
  moreover have "take (ba_size b) (ba_content (b'\<lparr>ba_size := n\<rparr>)) = take n (ba_content b)"
    using True b'(3,5) by (simp add: ba_content_def min_def)
  ultimately show ?thesis using True b' by (auto simp: ba_resize_def)
next
  case False
  then have "ba_offset b + n \<le> ba_capacity b"
    using ba_ok_append_room [OF ok] ba_ok_bounds [OF ok] by linarith
  then have "ba_ok (b\<lparr>ba_size := n\<rparr>)" using ok by (auto simp: ba_ok_def)
  moreover have "take (ba_size b) (ba_content (b\<lparr>ba_size := n\<rparr>)) = take n (ba_content b)"
    by (simp add: ba_content_def min.commute)
  moreover have "ba_resize round_up alloc n b = Some (b\<lparr>ba_size := n\<rparr>)"
    using False by (cases "n = ba_size b") (auto simp: ba_resize_def)
  ultimately show ?thesis by simp
qed

lemma rresize_grow:
  assumes ok: "ba_ok b" and al: "alloc_ok alloc" and "ba_capacity b < n" and "fits n"
  shows "\<exists>b'. ba_rresize round_up alloc n b = Some b' \<and> ba_ok b' \<and> ba_size b' = n
    \<and> drop (n - ba_size b) (ba_content b') = ba_content b"
proof -
  have b: "ba_offset b + ba_size b \<le> ba_capacity b" "20 \<le> ba_capacity b" "\<not> ba_external b" "n \<le> round_up n"
    using ba_ok_bounds [OF ok] enough [of n] by auto
  let ?s = "n - ba_size b" and ?o = "round_up n - ba_capacity b + ba_offset b"
  define ofs where "ofs = (if ?s > ?o then ?s else ?o)"
  have ofs: "ofs + ba_size b \<le> round_up n" "?s \<le> ofs" using b assms(3) by (auto simp: ofs_def)
  obtain cs where cs: "write_at ofs (ba_content b) (alloc (round_up n)) = Some cs"
      "\<forall>b'. b' = b\<lparr>ba_mem := cs, ba_place := Allocated, ba_capacity := round_up n, ba_offset := ofs - ?s\<rparr> \<longrightarrow>
         ba_ok b' \<and> take (ba_size b) (drop ofs (ba_cells b')) = ba_content b"
    using reserve_new_block [OF ok al _ assms(4) ofs] assms(3) b by fastforce
  let ?b = "b\<lparr>ba_mem := cs, ba_place := Allocated, ba_capacity := round_up n, ba_offset := ofs - ?s\<rparr>"
  have new: "ba_ok ?b" "take (ba_size b) (drop ofs (ba_cells ?b)) = ba_content b" using cs(2) by auto
  have "reserve_buffer round_up n (ba_capacity b) = (New_block, round_up n)"
    using assms(3) b by (auto simp: reserve_buffer_def PREALLOCATED_SIZE_def Let_def)
  moreover have "reserve_offset b n (round_up n) True 0 True False = (ofs, ?s)"
    using assms(3) b by (simp add: reserve_offset_def Let_def ofs_def)
  ultimately have "ba_reserve round_up alloc n True 0 True False b = Some ?b"
    using b assms(3) cs(1) ofs(2)
    by (simp add: ba_reserve_def Let_def ba_ok_data [OF ok] ba_ok_free [OF ok])
  then have r: "ba_rresize round_up alloc n b = Some (?b\<lparr>ba_size := n\<rparr>)"
    using b assms(3) by (simp add: ba_rresize_def)
  have "ba_ok (?b\<lparr>ba_size := n\<rparr>)" using new(1) ofs b assms(3) by (auto simp: ba_ok_def)
  moreover have "drop ?s (ba_content (?b\<lparr>ba_size := n\<rparr>)) = ba_content b"
    using new(2) ofs(2) b assms(3) by (simp add: ba_content_def drop_take)
  ultimately show ?thesis using r by auto
qed

lemma rresize_ok:
  assumes ok: "ba_ok b" and al: "alloc_ok alloc" and "fits n" and "front_defined n b"
  shows "\<exists>b'. ba_rresize round_up alloc n b = Some b' \<and> ba_ok b' \<and> ba_size b' = n
    \<and> drop (n - ba_size b) (ba_content b') = drop (ba_size b - n) (ba_content b)"
proof -
  have b: "ba_offset b + ba_size b \<le> ba_capacity b" using ba_ok_bounds [OF ok] by simp
  consider (same) "n = ba_size b" | (grow) "n > ba_capacity b" | (cut) "n < ba_size b"
    | (room) "n \<le> ba_capacity b" "n > ba_size b" "n - ba_size b \<le> ba_offset b"
    | (shift) "n \<le> ba_capacity b" "n > ba_size b" "n - ba_size b > ba_offset b"
        "ba_offset b + ba_size b \<le> n - ba_size b"
    using assms(4) unfolding front_defined_def by linarith
  then show ?thesis
  proof cases
    case same
    then show ?thesis using ok by (simp add: ba_rresize_def)
  next
    case grow
    then show ?thesis using rresize_grow [OF ok al grow assms(3)] b by simp
  next
    case cut
    let ?b = "b\<lparr>ba_offset := ba_offset b + (ba_size b - n), ba_size := n\<rparr>"
    have "ba_ok ?b" using ok cut by (auto simp: ba_ok_def)
    moreover have "ba_content ?b = drop (ba_size b - n) (ba_content b)"
      using cut by (simp add: ba_content_def drop_take ac_simps)
    moreover have "ba_rresize round_up alloc n b = Some ?b" using cut b by (simp add: ba_rresize_def)
    ultimately show ?thesis using cut by simp
  next
    case room
    let ?b = "b\<lparr>ba_offset := ba_offset b - (n - ba_size b), ba_size := n\<rparr>"
    have "ba_ok ?b" using ok room by (auto simp: ba_ok_def)
    moreover have "drop (n - ba_size b) (ba_content ?b) = ba_content b"
      using room by (simp add: ba_content_def drop_take)
    moreover have "ba_rresize round_up alloc n b = Some ?b" using room by (simp add: ba_rresize_def Let_def)
    ultimately show ?thesis using room by simp
  next
    case shift
    let ?d = "n - ba_size b"
    let ?cs = "take ?d (ba_cells b) @ ba_content b @ drop (?d + ba_size b) (ba_cells b)"
    have len: "length (ba_cells b) = ba_capacity b" "length (ba_content b) = ba_size b"
      using ba_ok_cells [OF ok] ba_content_length [OF ok] by auto
    have cells: "write_at ?d (ba_content b) (ba_cells b) = Some ?cs"
      using len shift by (auto simp: write_at_def)
    let ?b = "(ba_set_cells ?cs b)\<lparr>ba_offset := 0, ba_size := n\<rparr>"
    have "ba_ok (ba_set_cells ?cs b)" by (rule ba_ok_set_cells [OF ok]) (use len shift in simp)
    then have "ba_ok ?b" using shift by (auto simp: ba_ok_def)
    moreover have "ba_content ?b = take n ?cs" by (simp add: ba_content_def)
    then have "drop ?d (ba_content ?b) = ba_content b"
      using shift len by (simp only:) (simp add: drop_take)
    moreover have "ba_rresize round_up alloc n b = Some ?b"
      using shift by (simp add: ba_rresize_def Let_def ba_ok_data [OF ok] ba_write_def cells)
    ultimately show ?thesis using shift by simp
  qed
qed

lemma append_ok:
  assumes ok: "ba_ok b" and al: "alloc_ok alloc" and "fits (ba_size b + length bs + ba_offset b)"
  shows "\<exists>b'. ba_append round_up alloc bs b = Some b' \<and> ba_ok b' \<and> ba_content b' = ba_content b @ bs"
proof -
  obtain b1 where b1: "ba_resize round_up alloc (ba_size b + length bs) b = Some b1" "ba_ok b1"
      "ba_size b1 = ba_size b + length bs" "ba_offset b1 = ba_offset b"
      "take (ba_size b) (ba_content b1) = take (ba_size b + length bs) (ba_content b)"
    using resize_ok [OF ok al assms(3)] by blast
  have "take (ba_size b) (ba_content b1) = ba_content b" using b1(5) ba_content_length [OF ok] by simp
  then show ?thesis
    using ba_write_inside [OF b1(2), of "ba_size b" bs] b1 ba_content_length [OF b1(2)]
    by (auto simp: ba_append_def add.commute)
qed

lemma append_self_ok:
  assumes ok: "ba_ok b" and al: "alloc_ok alloc" and "fits (ba_size b * 2 + ba_offset b)"
  shows "\<exists>b'. ba_append_self round_up alloc b = Some b' \<and> ba_ok b' \<and> ba_content b' = ba_content b @ ba_content b"
proof -
  obtain b1 where b1: "ba_resize round_up alloc (ba_size b * 2) b = Some b1" "ba_ok b1"
      "ba_size b1 = ba_size b * 2" "take (ba_size b) (ba_content b1) = take (ba_size b * 2) (ba_content b)"
    using resize_ok [OF ok al assms(3)] by blast
  have "take (ba_size b) (ba_content b1) = ba_content b" using b1(4) ba_content_length [OF ok] by simp
  moreover have "read_at (ba_offset b1) (ba_size b) (ba_cells b1) = Some (take (ba_size b) (ba_content b1))"
    using ba_ok_cells [OF b1(2)] ba_ok_bounds [OF b1(2)] b1(3) by (auto simp: read_at_def ba_content_def min_def)
  ultimately show ?thesis
    using ba_write_inside [OF b1(2), of "ba_size b" "ba_content b"] b1 ba_content_length [OF b1(2)]
      ba_content_length [OF ok]
    by (auto simp: ba_append_self_def Let_def)
qed

lemma c_str_ok:
  assumes ok: "ba_ok b" and al: "alloc_ok alloc" and "fits (ba_capacity b + ba_offset b + 1)" and pos: "0 < ba_size b"
  shows "\<exists>b'. ba_c_str round_up alloc b = Some (b', C_string (ba_content b)) \<and> ba_ok b'
    \<and> ba_content b' = ba_content b \<and> ba_cells b' ! (ba_offset b' + ba_size b') = 0"
proof -
  let ?full = "ba_offset b + ba_size b = ba_capacity b"
  let ?res = "if ?full then ba_reserve round_up alloc (ba_capacity b + 1) False 0 False False b else Some b"
  have b: "ba_offset b + ba_size b \<le> ba_capacity b" "\<not> ba_external b" using ba_ok_bounds [OF ok] by auto
  have f: "fits (ba_capacity b + 1 + ba_offset b)" using assms(3) by (simp add: ac_simps)
  have "\<exists>b1. ?res = Some b1 \<and> ba_ok b1 \<and> ba_size b1 = ba_size b \<and> ba_content b1 = ba_content b
      \<and> ba_offset b1 + ba_size b1 < ba_capacity b1"
  proof (cases ?full)
    case True
    then show ?thesis using reserve_grow [OF ok al _ _ f] b by fastforce
  next
    case False
    then show ?thesis using ok b by auto
  qed
  then obtain b1 where b1: "?res = Some b1" "ba_ok b1" "ba_size b1 = ba_size b" "ba_content b1 = ba_content b"
      "ba_offset b1 + ba_size b1 < ba_capacity b1"
    by blast
  let ?p = "ba_offset b1 + ba_size b1"
  let ?cs = "take ?p (ba_cells b1) @ [0] @ drop (?p + 1) (ba_cells b1)"
  let ?b = "ba_set_cells ?cs b1"
  have len: "length (ba_cells b1) = ba_capacity b1" by (rule ba_ok_cells [OF b1(2)])
  have w: "ba_write ?p [0] b1 = Some ?b" using len b1(5) by (simp add: ba_write_def write_at_def)
  have ok': "ba_ok ?b" by (rule ba_ok_set_cells [OF b1(2)]) (use len b1(5) in simp)
  have c: "ba_content ?b = ba_content b1" using len b1(5) by (simp add: ba_content_def drop_take)
  have z: "ba_cells ?b ! ?p = 0" using len b1(5) by (simp add: nth_append)
  have "ba_c_str round_up alloc b = Some (?b, C_string (ba_content b))"
    using pos b(2) b1(1,4) w c ba_ok_data [OF ok'] by (simp add: ba_c_str_def)
  then show ?thesis using ok' c z b1(4) by auto
qed

lemma prepend_ok:
  assumes ok: "ba_ok b" and al: "alloc_ok alloc" and "fits (ba_size b + length bs)"
    and "front_defined (ba_size b + length bs) b"
  shows "\<exists>b'. ba_prepend round_up alloc bs b = Some b' \<and> ba_ok b' \<and> ba_content b' = bs @ ba_content b"
proof -
  obtain b1 where b1: "ba_rresize round_up alloc (ba_size b + length bs) b = Some b1" "ba_ok b1"
      "ba_size b1 = ba_size b + length bs" "drop (length bs) (ba_content b1) = ba_content b"
    using rresize_ok [OF ok al assms(3,4)] by auto
  then show ?thesis using ba_write_inside [OF b1(2), of 0 bs] by (auto simp: ba_prepend_def)
qed

lemma load_ok:
  assumes ok: "ba_ok b" and al: "alloc_ok alloc" and "fits (length bs + ba_offset b)"
  shows "\<exists>b'. ba_load round_up alloc bs b = Some b' \<and> ba_ok b' \<and> ba_content b' = bs"
proof -
  let ?b = "ba_clear (b\<lparr>ba_external := False\<rparr>)"
  have ok': "ba_ok ?b" using ok by (auto simp: ba_ok_def ba_clear_def)
  have ofs: "ba_offset ?b = ba_offset b" by (simp add: ba_clear_def)
  show ?thesis
  proof (cases "bs = []")
    case True
    then show ?thesis using ok' by (simp add: ba_load_def ba_content_def ba_clear_def)
  next
    case False
    obtain b1 where b1: "ba_resize round_up alloc (length bs) ?b = Some b1" "ba_ok b1" "ba_size b1 = length bs"
      using resize_ok [OF ok' al, of "length bs"] assms(3) ofs by auto
    then show ?thesis
      using False ba_write_inside [OF b1(2), of 0 bs] ba_content_length [OF b1(2)] by (auto simp: ba_load_def Let_def)
  qed
qed

lemma reserve_offset_zero:
  "reserve_offset b cap newCapacity False 0 False True = (0, 0)"
  by (simp add: reserve_offset_def Let_def)

lemma shrink_ok:
  assumes ok: "ba_ok b" and al: "alloc_ok alloc" and "fits (ba_size b)"
  shows "\<exists>b'. ba_shrink round_up alloc b = Some b' \<and> ba_ok b' \<and> ba_size b' = ba_size b
    \<and> ba_content b' = (if shrink_stays round_up b then take (ba_size b) (ba_cells b) else ba_content b)"
proof -
  have b: "ba_offset b + ba_size b \<le> ba_capacity b" "20 \<le> ba_capacity b" "\<not> ba_external b"
    using ba_ok_bounds [OF ok] by auto
  have len: "length (ba_content b) = ba_size b" by (rule ba_content_length [OF ok])
  have off: "(if ba_offset b > 0 then 0 else ba_offset b) = 0" by simp
  consider (full) "ba_size b = ba_capacity b"
    | (stay) "shrink_stays round_up b" "ba_size b \<noteq> ba_capacity b"
    | (home) "ba_size b \<le> 20" "20 < ba_capacity b" "ba_size b \<noteq> ba_capacity b"
    | (block) "20 < ba_size b" "round_up (ba_size b) \<noteq> ba_capacity b" "ba_size b \<noteq> ba_capacity b"
    unfolding shrink_stays_def
    by (cases "ba_size b \<le> 20"; cases "ba_size b = ba_capacity b"; cases "ba_capacity b \<le> 20";
        cases "round_up (ba_size b) = ba_capacity b") auto
  then show ?thesis
  proof cases
    case full
    then show ?thesis using ok b by (auto simp: ba_shrink_def ba_reserve_def Let_def shrink_stays_def)
  next
    case stay
    let ?b = "b\<lparr>ba_offset := 0\<rparr>"
    have "reserve_buffer round_up (ba_size b) (ba_capacity b) = (Same_buffer, ba_capacity b)"
      using stay by (auto simp: shrink_stays_def reserve_buffer_def PREALLOCATED_SIZE_def Let_def split: if_splits)
    then have "ba_shrink round_up alloc b = Some ?b"
      using stay(2) b(3) by (cases b) (simp add: ba_shrink_def ba_reserve_def Let_def reserve_offset_zero)
    moreover have "ba_ok ?b" using ok by (auto simp: ba_ok_def)
    ultimately show ?thesis using stay(1) by (simp add: ba_content_def)
  next
    case home
    let ?cs = "ba_content b @ drop (ba_size b) (ba_pre b)"
    let ?b = "b\<lparr>ba_pre := ?cs, ba_mem := [], ba_place := Preallocated, ba_capacity := 20, ba_offset := 0\<rparr>"
    have pre: "length (ba_pre b) = 20" using ok by (simp add: ba_ok_def)
    have "write_at 0 (ba_content b) (ba_pre b) = Some ?cs" using write_at_start [of "ba_content b" "ba_pre b"] home(1) len pre by simp
    moreover have "reserve_buffer round_up (ba_size b) (ba_capacity b) = (Back_to_preallocated, 20)"
      using home by (simp add: reserve_buffer_def PREALLOCATED_SIZE_def)
    ultimately have "ba_shrink round_up alloc b = Some ?b"
      using home(3) b(3)
      by (simp add: ba_shrink_def ba_reserve_def Let_def reserve_offset_zero ba_ok_data [OF ok] ba_ok_free [OF ok])
    moreover have "ba_ok ?b" using ok home(1) len pre by (auto simp: ba_ok_def)
    moreover have "ba_content ?b = ba_content b" using len by (simp add: ba_content_def [of ?b] ba_cells_def)
    moreover have "\<not> shrink_stays round_up b" using home by (simp add: shrink_stays_def)
    ultimately show ?thesis by simp
  next
    case block
    let ?n = "round_up (ba_size b)"
    let ?cs = "ba_content b @ drop (ba_size b) (alloc ?n)"
    let ?b = "b\<lparr>ba_mem := ?cs, ba_place := Allocated, ba_capacity := ?n, ba_offset := 0\<rparr>"
    have n: "ba_size b \<le> ?n" "?n < 2 ^ 64"
      using enough [of "ba_size b"] bounded [of "ba_size b"] assms(3) unfolding fits_def by linarith+
    have "write_at 0 (ba_content b) (alloc ?n) = Some ?cs"
      using write_at_start [of "ba_content b" "alloc ?n"] n(1) len by (simp add: alloc_length [OF al])
    moreover have "reserve_buffer round_up (ba_size b) (ba_capacity b) = (New_block, ?n)"
      using block by (simp add: reserve_buffer_def PREALLOCATED_SIZE_def Let_def)
    ultimately have "ba_shrink round_up alloc b = Some ?b"
      using block(3) b(3)
      by (simp add: ba_shrink_def ba_reserve_def Let_def reserve_offset_zero ba_ok_data [OF ok] ba_ok_free [OF ok])
    moreover have "ba_ok ?b" using ok block n len by (auto simp: ba_ok_def alloc_length [OF al])
    moreover have "ba_content ?b = ba_content b" using len by (simp add: ba_content_def [of ?b] ba_cells_def)
    moreover have "\<not> shrink_stays round_up b" using block by (simp add: shrink_stays_def)
    ultimately show ?thesis by simp
  qed
qed

end

subsection \<open>Copies and moves of an array of its own memory\<close>

lemma BufCtrl_ok: "length pre = 20 \<Longrightarrow> ba_ok (BufCtrl pre) \<and> ba_offset (BufCtrl pre) = 0 \<and> ba_content (BufCtrl pre) = []"
  by (simp add: ba_ok_def BufCtrl_def PREALLOCATED_SIZE_def ba_content_def)

lemma take_over_ok:
  assumes ok: "ba_ok b" and "length pre = 20"
  shows "\<exists>b'. ba_take_over pre b = Some b' \<and> ba_ok b' \<and> ba_size b' = ba_size b
    \<and> ba_content b' = (if ba_place b = Preallocated
        then take (ba_size b) (drop (ba_offset b) (take (ba_size b) (ba_pre b) @ drop (ba_size b) pre))
        else ba_content b)"
proof (cases "ba_place b = Preallocated")
  case True
  then have b: "ba_capacity b = 20" "ba_size b \<le> 20" "length (ba_pre b) = 20" "\<not> ba_external b"
    using ok by (auto simp: ba_ok_def)
  let ?cs = "take (ba_size b) (ba_pre b) @ drop (ba_size b) pre"
  let ?b = "b\<lparr>ba_pre := ?cs, ba_mem := [], ba_place := Preallocated\<rparr>"
  have "ba_take_over pre b = Some ?b"
    using b assms(2) by (auto simp: ba_take_over_def PREALLOCATED_SIZE_def read_at_def write_at_def)
  moreover have "ba_ok ?b" using ok b assms(2) by (auto simp: ba_ok_def)
  ultimately show ?thesis using True by (simp add: ba_content_def ba_cells_def)
next
  case False
  then have "ba_capacity b > 20" using ok by (auto simp: ba_ok_def)
  moreover have "ba_ok (b\<lparr>ba_pre := pre\<rparr>)" using ok assms(2) False by (auto simp: ba_ok_def)
  ultimately show ?thesis
    using False by (simp add: ba_take_over_def PREALLOCATED_SIZE_def ba_content_def ba_cells_def)
qed

subsection \<open>Properties\<close>



text \<open>Prepending puts the bytes before the content whenever a new block is taken, there is room before
  the data, or the data moves past its old place; in between, the data is shifted onto itself by
  \<open>std::copy\<close> in the direction the standard excludes.\<close>

theorem byte_array_prepend:
  assumes "ba_ok b" and "alloc_ok alloc" and "fits (ba_size b + length bs)"
  shows "if front_defined (ba_size b + length bs) b
    then \<exists>b'. ba_prepend block_to alloc bs b = Some b' \<and> ba_ok b' \<and> ba_content b' = bs @ ba_content b
    else ba_prepend block_to alloc bs b = None"
proof (cases "front_defined (ba_size b + length bs) b")
  case True
  then show ?thesis using block.prepend_ok [OF assms] by simp
next
  case False
  then show ?thesis by (auto simp: front_defined_def ba_prepend_def ba_rresize_def Let_def)
qed

text \<open>An array of twenty bytes inside the object, used in the examples.\<close>

definition small_array :: "byte list \<Rightarrow> nat \<Rightarrow> nat \<Rightarrow> byte_array" where
  "small_array bs ofs sz = (BufCtrl (bs @ replicate (20 - length bs) 0))\<lparr>ba_size := sz, ba_offset := ofs\<rparr>"

lemma small_array_ok:
  assumes "length bs \<le> 20" and "ofs + sz \<le> 20"
  shows "ba_ok (small_array bs ofs sz)"
  using assms by (simp add: ba_ok_def small_array_def BufCtrl_def PREALLOCATED_SIZE_def)

lemma small_array_fields [simp]:
  "ba_size (small_array bs ofs sz) = sz" "ba_offset (small_array bs ofs sz) = ofs"
  "ba_capacity (small_array bs ofs sz) = 20" "ba_place (small_array bs ofs sz) = Preallocated"
  "ba_pre (small_array bs ofs sz) = bs @ replicate (20 - length bs) 0"
  by (simp_all add: small_array_def BufCtrl_def PREALLOCATED_SIZE_def)

lemma small_array_content [simp]: "ofs + sz \<le> length bs \<Longrightarrow>
    ba_content (small_array bs ofs sz) = take sz (drop ofs bs)"
  by (simp add: ba_content_def ba_cells_def)

lemma zero_alloc_ok: "alloc_ok (\<lambda>n. replicate n 0)"
  by (simp add: alloc_ok_def)

theorem byte_array_prepend_witness:
  "ba_prepend block_to (\<lambda>n. replicate n 0) [1] (small_array [5, 6] 0 2) = None
   \<and> (\<exists>b'. ba_prepend block_to (\<lambda>n. replicate n 0) [1, 2, 3] (small_array [5, 6] 0 2) = Some b'
        \<and> ba_content b' = [1, 2, 3, 5, 6])"
proof -
  have ok: "ba_ok (small_array [5, 6] 0 2)" by (rule small_array_ok) simp_all
  show ?thesis
    using byte_array_prepend [OF ok zero_alloc_ok, of "[1]"] byte_array_prepend [OF ok zero_alloc_ok, of "[1, 2, 3]"]
    by (auto simp: fits_def front_defined_def)
qed

text \<open>Shrinking keeps the content when the data changes its buffer; when it stays in the same buffer
  the offset is set to zero and the data is not moved, so that an array cut at the front gets the
  bytes from the start of the buffer instead of its own.\<close>

theorem byte_array_shrink:
  assumes "ba_ok b" and "alloc_ok alloc" and "fits (ba_size b)"
  shows "\<exists>b'. ba_shrink block_to alloc b = Some b' \<and> ba_ok b' \<and> ba_size b' = ba_size b
    \<and> ba_content b' = (if shrink_stays block_to b then take (ba_size b) (ba_cells b) else ba_content b)"
  by (rule block.shrink_ok [OF assms])

theorem byte_array_shrink_witness:
  "ba_content (small_array [1, 2, 3] 2 1) = [3]
   \<and> (\<exists>b'. ba_shrink block_to (\<lambda>n. replicate n 0) (small_array [1, 2, 3] 2 1) = Some b' \<and> ba_content b' = [1])"
proof -
  have ok: "ba_ok (small_array [1, 2, 3] 2 1)" by (rule small_array_ok) simp_all
  have "shrink_stays block_to (small_array [1, 2, 3] 2 1)" by (simp add: shrink_stays_def)
  then show ?thesis
    using byte_array_shrink [OF ok zero_alloc_ok] by (auto simp: fits_def ba_cells_def)
qed

text \<open>A copy has the content of the original. A moved array has it when the data is in a block, but
  from an array kept inside the object the bytes from the start of its buffer are taken, as many
  as the size, while the offset is kept: an array cut at the front loses as many bytes as the
  offset, and what it shows instead is uninitialised memory.\<close>

theorem byte_array_copy_move:
  assumes "ba_ok b" and "alloc_ok alloc" and "length pre = 20" and "fits (ba_size b)"
  shows "(\<exists>b'. ba_copy block_to alloc pre b = Some b' \<and> ba_ok b' \<and> ba_content b' = ba_content b)
    \<and> (\<exists>b'. ba_move pre b = Some (b', ba_moved_from b) \<and> ba_ok b' \<and> ba_size b' = ba_size b
         \<and> ba_ok (ba_moved_from b) \<and> ba_content (ba_moved_from b) = []
         \<and> ba_content b' = (if ba_place b = Preallocated
              then drop (ba_offset b) (take (ba_size b) (ba_pre b))
                   @ take (min (ba_offset b) (ba_size b)) (drop (max (ba_offset b) (ba_size b)) pre)
              else ba_content b))"
proof (intro conjI)
  have "fits (length (ba_content b) + ba_offset (BufCtrl pre))"
    using assms(4) ba_content_length [OF assms(1)] BufCtrl_ok [OF assms(3)] by simp
  then show "\<exists>b'. ba_copy block_to alloc pre b = Some b' \<and> ba_ok b' \<and> ba_content b' = ba_content b"
    using block.load_ok [of "BufCtrl pre" alloc "ba_content b"] assms BufCtrl_ok [OF assms(3)]
      ba_ok_bounds [OF assms(1)]
    by (simp add: ba_copy_def ba_ok_data [OF assms(1)])
  have mf: "ba_ok (ba_moved_from b) \<and> ba_content (ba_moved_from b) = []"
    using assms(1) by (auto simp: ba_ok_def ba_moved_from_def ba_content_def PREALLOCATED_SIZE_def)
  have eq: "take (ba_size b) (drop (ba_offset b) (take (ba_size b) (ba_pre b) @ drop (ba_size b) pre)) =
      drop (ba_offset b) (take (ba_size b) (ba_pre b))
      @ take (min (ba_offset b) (ba_size b)) (drop (max (ba_offset b) (ba_size b)) pre)"
    if "ba_place b = Preallocated"
  proof -
    have "ba_size b \<le> length (ba_pre b)" using assms(1) that by (auto simp: ba_ok_def)
    then show ?thesis by (auto simp: min_def max_def)
  qed
  show "\<exists>b'. ba_move pre b = Some (b', ba_moved_from b) \<and> ba_ok b' \<and> ba_size b' = ba_size b
      \<and> ba_ok (ba_moved_from b) \<and> ba_content (ba_moved_from b) = []
      \<and> ba_content b' = (if ba_place b = Preallocated
           then drop (ba_offset b) (take (ba_size b) (ba_pre b))
                @ take (min (ba_offset b) (ba_size b)) (drop (max (ba_offset b) (ba_size b)) pre)
           else ba_content b)"
    using take_over_ok [OF assms(1,3)] mf eq by (auto simp: ba_move_def)
qed

theorem byte_array_copy_move_witness:
  "ba_content (small_array [1, 2, 3] 2 1) = [3]
   \<and> (\<exists>b'. ba_move (replicate 20 9) (small_array [1, 2, 3] 2 1)
          = Some (b', ba_moved_from (small_array [1, 2, 3] 2 1)) \<and> ba_content b' = [9])"
proof -
  have ok: "ba_ok (small_array [1, 2, 3] 2 1)" by (rule small_array_ok) simp_all
  show ?thesis
    using byte_array_copy_move [OF ok zero_alloc_ok, of "replicate 20 9"]
    by (auto simp: fits_def min_def max_def)
qed

text \<open>Memory taken from the caller by \<open>loadInline\<close> is shown as it is, but the bounds of it do not hold.
  After the constant overload a growth succeeds and the array reads beyond the region; after a cut
  at the front a growth within the old size does, and a copy of the array shows other bytes; a
  \<open>load\<close> writes into the memory of the caller, and the release of the array afterwards gives that
  memory to the allocator.\<close>

theorem byte_array_inline:
  assumes "ba_ok b" and "20 < sz" and "sz < 2 ^ 63" and "0 < n" and "n < sz" and "length region = sz"
  shows "\<exists>b1 b2. ba_loadInline region sz b = Some b1 \<and> ba_data b1 = Some region
    \<and> ba_loadInline_const region sz b = Some b2 \<and> ba_data b2 = Some region
    \<and> (\<exists>b3. ba_resize K alloc (sz + n) b2 = Some b3 \<and> ba_size b3 = sz + n \<and> ba_data b3 = None)
    \<and> (\<exists>b4. ba_right K alloc n b1 = Some (b4, n) \<and> ba_data b4 = Some (drop (sz - n) region)
         \<and> (\<exists>b5. ba_resize K alloc (n + 1) b4 = Some b5 \<and> ba_data b5 = None)
         \<and> (\<exists>b6. ba_copy K alloc pre b4 = Some b6 \<and> ba_data b6 = Some (take n region)))
    \<and> (length bs \<le> sz \<longrightarrow>
         (\<exists>b7. ba_load K alloc bs b1 = Some b7 \<and> ba_mem b7 = bs @ drop (length bs) region \<and> ba_reset b7 = None))"
proof -
  let ?r = "b\<lparr>ba_external := True, ba_mem := region, ba_place := Foreign, ba_size := sz, ba_offset := 0,
    ba_capacity := sz\<rparr>"
  let ?c = "b\<lparr>ba_external := True, ba_mem := region, ba_place := Foreign, ba_size := sz, ba_offset := 0,
    ba_capacity := 20\<rparr>"
  have reset: "ba_reset b = Some (b\<lparr>ba_external := False, ba_mem := [], ba_place := Preallocated, ba_size := 0,
      ba_offset := 0, ba_capacity := 20\<rparr>)"
    using ba_ok_free [OF assms(1)] by (simp add: ba_reset_def PREALLOCATED_SIZE_def)
  have l: "ba_loadInline region sz b = Some ?r" "ba_loadInline_const region sz b = Some ?c"
    unfolding ba_loadInline_def ba_loadInline_const_def reset by simp_all
  have d: "ba_data ?r = Some region" "ba_data ?c = Some region"
    using assms by (simp_all add: ba_data_def read_at_def ba_cells_def)
  have "size_sub 20 sz = 2 ^ 64 + 20 - sz" using assms(2) by (simp add: size_sub_def)
  then have "\<not> size_sub 20 sz < n" using assms(3,5) by simp
  then have grow: "ba_resize K alloc (sz + n) ?c = Some (?c\<lparr>ba_size := sz + n\<rparr>)"
    using assms(4) by (simp add: ba_resize_def capacityForAppend_def)
  let ?f = "?r\<lparr>ba_offset := sz - n, ba_size := n\<rparr>"
  have right: "ba_right K alloc n ?r = Some (?f, n)"
    using assms by (simp add: ba_right_def ba_rresize_def)
  have grow': "ba_resize K alloc (n + 1) ?f = Some (?f\<lparr>ba_size := n + 1\<rparr>)"
    using assms by (simp add: ba_resize_def capacityForAppend_def ba_reserve_def)
  have copy: "\<exists>b6. ba_copy K alloc pre ?f = Some b6 \<and> ba_data b6 = Some (take n region)"
    using assms by (simp add: ba_copy_def ba_data_def read_at_def ba_cells_def)
  let ?l = "?r\<lparr>ba_external := False, ba_size := length bs, ba_mem := bs @ drop (length bs) region\<rparr>"
  have load: "\<exists>b7. ba_load K alloc bs ?r = Some b7 \<and> ba_mem b7 = bs @ drop (length bs) region \<and> ba_reset b7 = None"
    if "length bs \<le> sz"
  proof (intro exI [of _ ?l] conjI)
    show "ba_load K alloc bs ?r = Some ?l"
      using assms(6) that
      by (cases "bs = []") (simp_all add: ba_load_def ba_clear_def ba_resize_def capacityForAppend_def
        ba_write_def write_at_def ba_cells_def ba_set_cells_def Let_def)
  qed (use assms(2) in \<open>simp_all add: ba_reset_def freeBuffer_defined_def PREALLOCATED_SIZE_def\<close>)
  have none: "ba_data (?c\<lparr>ba_size := sz + n\<rparr>) = None" "ba_data (?f\<lparr>ba_size := n + 1\<rparr>) = None"
    "ba_data ?f = Some (drop (sz - n) region)"
    using assms by (simp_all add: ba_data_def read_at_def ba_cells_def)
  show ?thesis
    using l d grow right grow' copy load none
    by (intro exI [of _ ?r] exI [of _ ?c]) (auto simp del: One_nat_def)
qed

theorem byte_array_inline_witness:
  "\<exists>b2 b3. ba_loadInline_const (replicate 30 7) 30 (small_array [] 0 0) = Some b2
     \<and> ba_resize block_to (\<lambda>n. replicate n 0) (30 + 1) b2 = Some b3 \<and> ba_data b3 = None"
proof -
  have "ba_ok (small_array [] 0 0)" by (rule small_array_ok) simp_all
  from byte_array_inline [OF this, of 30 1 "replicate 30 7" block_to "\<lambda>n. replicate n 0" "[]" "[]"]
  show ?thesis by force
qed

text \<open>Reading: \<open>at\<close> gives the byte of the content below the size, throws above it, and lets the size
  itself through, one byte past the content; a view of a part is that part, or empty when the part
  does not fit; the C string is the content with a zero after it.\<close>

theorem byte_array_reads:
  assumes "ba_ok b" and "alloc_ok alloc" and "fits (ba_capacity b + ba_offset b + 1)"
  shows "ba_at i b =
      (if i < ba_size b then Some (Inr (ba_content b ! i))
       else if i > ba_size b then Some (Inl ())
       else if ba_offset b + i < ba_capacity b then Some (Inr (ba_cells b ! (ba_offset b + i))) else None)
    \<and> ba_stringView i k b =
      Some (if ba_size b < i + k then [] else take (if k = 0 then ba_size b - i else k) (drop i (ba_content b)))
    \<and> (0 < ba_size b \<longrightarrow> (\<exists>b'. ba_c_str block_to alloc b = Some (b', C_string (ba_content b)) \<and> ba_ok b'
         \<and> ba_content b' = ba_content b \<and> ba_cells b' ! (ba_offset b' + ba_size b') = 0))"
proof (intro conjI impI)
  have len: "length (ba_cells b) = ba_capacity b" "ba_offset b + ba_size b \<le> ba_capacity b" "\<not> ba_external b"
    using ba_ok_cells [OF assms(1)] ba_ok_bounds [OF assms(1)] by auto
  then show "ba_at i b =
      (if i < ba_size b then Some (Inr (ba_content b ! i))
       else if i > ba_size b then Some (Inl ())
       else if ba_offset b + i < ba_capacity b then Some (Inr (ba_cells b ! (ba_offset b + i))) else None)"
    by (auto simp: ba_at_def ba_content_def add.commute)
  show "ba_stringView i k b =
      Some (if ba_size b < i + k then [] else take (if k = 0 then ba_size b - i else k) (drop i (ba_content b)))"
    using len by (auto simp: ba_stringView_def read_at_def ba_content_def drop_take min_def add.commute)
  assume pos: "0 < ba_size b"
  show "\<exists>b'. ba_c_str block_to alloc b = Some (b', C_string (ba_content b)) \<and> ba_ok b'
      \<and> ba_content b' = ba_content b \<and> ba_cells b' ! (ba_offset b' + ba_size b') = 0"
    by (rule block.c_str_ok [OF assms(1,2,3) pos])
qed

theorem byte_array_reads_witness:
  "ba_at 3 (small_array [1, 2, 3] 0 3) = Some (Inr 0)
   \<and> (\<exists>b'. ba_c_str block_to (\<lambda>n. replicate n 0) (small_array [1, 2, 3] 0 3) = Some (b', C_string [1, 2, 3]))"
proof -
  have "ba_ok (small_array [1, 2, 3] 0 3)" by (rule small_array_ok) simp_all
  from byte_array_reads [OF this zero_alloc_ok, of 3 0] show ?thesis
    by (auto simp: fits_def ba_cells_def nth_append)
qed

end
