(* ===== verification/Socks5.thy ===== *)
theory Socks5
  imports ByteArray "HOL-Library.Monad_Syntax"
begin

section \<open>SOCKS5 client: network/src/socks5client.cpp, network/socks5client.h\<close>

text \<open>
  \<open>Socks5Client\<close> makes the requests to a proxy server and reads its responses; it makes no calls to
  the network. Its state is the step of the protocol, the destination, and two byte arrays: the caller
  sends the request and fills the response with exactly as many bytes as its size. Structures cast
  onto the buffers are writes and reads at their offsets, \<open>None\<close> outside the region. An address of
  Boost is the bytes its \<open>to_bytes\<close> gives; \<open>unspecified\<close> is its \<open>is_unspecified\<close>, \<open>any\<close> the default address and
  \<open>junk\<close> what an uninitialised array of sixteen bytes holds.
\<close>

datatype ip_address = Address_v4 "byte list" | Address_v6 "byte list"

fun is_v4 :: "ip_address \<Rightarrow> bool" where
  "is_v4 (Address_v4 bs) = True"
| "is_v4 (Address_v6 bs) = False"

fun to_bytes :: "ip_address \<Rightarrow> byte list" where
  "to_bytes (Address_v4 bs) = bs"
| "to_bytes (Address_v6 bs) = bs"

fun address_ok :: "ip_address \<Rightarrow> bool" where
  "address_ok (Address_v4 bs) \<longleftrightarrow> length bs = 4"
| "address_ok (Address_v6 bs) \<longleftrightarrow> length bs = 16"

record target =
  tg_address :: ip_address
  tg_port :: "16 word"
  tg_domain :: "byte list"

definition target_clear :: "ip_address \<Rightarrow> target \<Rightarrow> target" where
  "target_clear any t = t\<lparr>tg_address := any, tg_port := 0, tg_domain := []\<rparr>"

definition target_isValid :: "(ip_address \<Rightarrow> bool) \<Rightarrow> target \<Rightarrow> bool" where
  "target_isValid unspecified t \<longleftrightarrow>
     tg_port t \<noteq> 0
     \<and> (\<not> unspecified (tg_address t) \<or> tg_domain t \<noteq> [] \<and> length (tg_domain t) < 255)"

datatype step_status = Step_Done | SendAndReceive | Step_Receive | Step_Fail

datatype socks_state =
  State_Idle | State_Negotiation | State_Auth | State_Connect | State_ReceiveAddress | State_Done

datatype network_error =
  PROXY_INVALID_PARAMETERS | PROXY_UNSUPPORTED_VERSION | PROXY_UNSUPPORTED_AUTH_METHOD
  | PROXY_AUTH_FAILED | PROXY_REPORTED_ERROR

record socks5 =
  sk_state :: socks_state
  sk_error :: "network_error option"
  sk_destination :: target
  sk_request :: byte_array
  sk_response :: byte_array
  sk_login :: "byte list"
  sk_password :: "byte list"
  sk_udp :: bool
  sk_addressType :: byte
  sk_addressLength :: byte
  sk_result :: target

subsection \<open>Reads and writes behind the data pointer\<close>

definition put_at :: "nat \<Rightarrow> byte list \<Rightarrow> byte_array \<Rightarrow> byte_array option" where
  "put_at k bs b = ba_write (ba_offset b + k) bs b"

definition get_at :: "nat \<Rightarrow> nat \<Rightarrow> byte_array \<Rightarrow> byte list option" where
  "get_at k n b = read_at (ba_offset b + k) n (ba_cells b)"

definition get_byte :: "nat \<Rightarrow> byte_array \<Rightarrow> byte option" where
  "get_byte k b = map_option hd (get_at k 1 b)"

text \<open>A port copied as two bytes after \<open>htons\<close>, and read back the same way.\<close>

definition port_bytes :: "16 word \<Rightarrow> byte list" where
  "port_bytes p = [ucast (drop_bit 8 p), ucast p]"

definition port_of :: "byte list \<Rightarrow> 16 word" where
  "port_of bs = push_bit 8 (ucast (bs ! 0)) OR ucast (bs ! 1)"

definition SOCKS5_VERSION :: byte where "SOCKS5_VERSION = 5"
definition SOCKS5_AUTH_VERSION :: byte where "SOCKS5_AUTH_VERSION = 1"
definition METHOD_NO_AUTH :: byte where "METHOD_NO_AUTH = 0"
definition METHOD_USERNAME_PASSWORD :: byte where "METHOD_USERNAME_PASSWORD = 2"
definition COMMAND_CONNECT :: byte where "COMMAND_CONNECT = 1"
definition COMMAND_UDP_ASSOCIATE :: byte where "COMMAND_UDP_ASSOCIATE = 3"
definition RESP_SUCCESS :: byte where "RESP_SUCCESS = 0"
definition ADDRESS_IP4 :: byte where "ADDRESS_IP4 = 1"
definition ADDRESS_DOMAIN :: byte where "ADDRESS_DOMAIN = 3"
definition ADDRESS_IP6 :: byte where "ADDRESS_IP6 = 4"

lemmas socks_consts =
  SOCKS5_VERSION_def SOCKS5_AUTH_VERSION_def METHOD_NO_AUTH_def METHOD_USERNAME_PASSWORD_def
  COMMAND_CONNECT_def COMMAND_UDP_ASSOCIATE_def RESP_SUCCESS_def ADDRESS_IP4_def ADDRESS_DOMAIN_def
  ADDRESS_IP6_def

subsection \<open>Settings\<close>

definition Socks5Client :: "ip_address \<Rightarrow> byte list \<Rightarrow> byte list \<Rightarrow> socks5" where
  "Socks5Client any pre1 pre2 =
     (let t = \<lparr>tg_address = any, tg_port = 0, tg_domain = []\<rparr>
      in \<lparr>sk_state = State_Idle, sk_error = None, sk_destination = t, sk_request = BufCtrl pre1,
          sk_response = BufCtrl pre2, sk_login = [], sk_password = [], sk_udp = False,
          sk_addressType = 0, sk_addressLength = 0, sk_result = t\<rparr>)"

definition socks_reset :: "ip_address \<Rightarrow> socks5 \<Rightarrow> socks5" where
  "socks_reset any s =
     s\<lparr>sk_state := State_Idle, sk_error := None, sk_result := target_clear any (sk_result s),
       sk_addressType := 0, sk_addressLength := 0\<rparr>"

definition setDestination :: "ip_address \<Rightarrow> target \<Rightarrow> socks5 \<Rightarrow> socks5" where
  "setDestination any t s = socks_reset any (s\<lparr>sk_destination := t\<rparr>)"

definition setUdp :: "bool \<Rightarrow> socks5 \<Rightarrow> socks5" where
  "setUdp enable s = s\<lparr>sk_udp := enable\<rparr>"

definition setCredentials :: "byte list \<Rightarrow> byte list \<Rightarrow> socks5 \<Rightarrow> socks5" where
  "setCredentials login password s = s\<lparr>sk_login := login, sk_password := password\<rparr>"

definition resetBuffers :: "socks5 \<Rightarrow> socks5 option" where
  "resetBuffers s =
     do { rq \<leftarrow> ba_reset (sk_request s); rs \<leftarrow> ba_reset (sk_response s);
          Some (s\<lparr>sk_request := rq, sk_response := rs\<rparr>) }"

subsection \<open>Requests\<close>

text \<open>The response is resized to \<open>sizeof(Length)\<close>, the size of a \<open>size_t\<close>.\<close>

definition sendConnectRequest ::
    "(nat \<Rightarrow> nat) \<Rightarrow> (nat \<Rightarrow> byte list) \<Rightarrow> socks5 \<Rightarrow> socks5 option" where
  "sendConnectRequest K alloc s =
     (let d = sk_destination s; v4 = is_v4 (tg_address d); bytes = to_bytes (tg_address d);
          domain = tg_domain d
      in do {
        rq \<leftarrow> (if domain = [] then do {
            r0 \<leftarrow> ba_resize K alloc ((if v4 then 4 else 6) + 5 - 1 + 2) (sk_request s);
            r1 \<leftarrow> put_at 3 [if v4 then ADDRESS_IP4 else ADDRESS_IP6] r0;
            r2 \<leftarrow> put_at 4 [0] r1;
            r3 \<leftarrow> put_at (5 - 1) bytes r2;
            put_at (5 - 1 + length bytes) (port_bytes (tg_port d)) r3 }
          else do {
            r0 \<leftarrow> ba_resize K alloc (5 + length domain + 2) (sk_request s);
            r1 \<leftarrow> put_at 3 [ADDRESS_DOMAIN] r0;
            r2 \<leftarrow> put_at 4 [of_nat (length domain)] r1;
            r3 \<leftarrow> put_at 5 domain r2;
            put_at (5 + length domain) (port_bytes (tg_port d)) r3 });
        r4 \<leftarrow> put_at 0 [SOCKS5_VERSION] rq;
        r5 \<leftarrow> put_at 2 [0] r4;
        r6 \<leftarrow> put_at 1 [if sk_udp s then COMMAND_UDP_ASSOCIATE else COMMAND_CONNECT] r5;
        rs \<leftarrow> ba_resize K alloc 8 (sk_response s);
        Some (s\<lparr>sk_request := r6, sk_response := rs, sk_state := State_Connect\<rparr>) })"

text \<open>The request with login and password; \<open>m_request[i]\<close> does not throw, the indices being in the request.\<close>

definition auth_request ::
    "(nat \<Rightarrow> nat) \<Rightarrow> (nat \<Rightarrow> byte list) \<Rightarrow> socks5 \<Rightarrow> socks5 option" where
  "auth_request K alloc s =
     (let login = sk_login s; password = sk_password s
      in do {
        r0 \<leftarrow> ba_resize K alloc (3 + length login + length password) (sk_request s);
        r1 \<leftarrow> put_at 0 [SOCKS5_AUTH_VERSION] r0;
        r2 \<leftarrow> put_at 1 [of_nat (length login)] r1;
        r3 \<leftarrow> put_at 2 login r2;
        r4 \<leftarrow> put_at (2 + length password) [of_nat (length password)] r3;
        r5 \<leftarrow> put_at (2 + length password + 1) password r4;
        rs \<leftarrow> ba_resize K alloc 2 (sk_response s);
        Some (s\<lparr>sk_request := r5, sk_response := rs, sk_state := State_Auth\<rparr>) })"

subsection \<open>The steps\<close>

definition fail_with :: "network_error \<Rightarrow> socks5 \<Rightarrow> socks5 \<times> step_status" where
  "fail_with e s = (s\<lparr>sk_error := Some e\<rparr>, Step_Fail)"

definition idle_step ::
    "(nat \<Rightarrow> nat) \<Rightarrow> (nat \<Rightarrow> byte list) \<Rightarrow> (ip_address \<Rightarrow> bool) \<Rightarrow> socks5 \<Rightarrow> (socks5 \<times> step_status) option" where
  "idle_step K alloc unspecified s =
     (if \<not> target_isValid unspecified (sk_destination s) then Some (fail_with PROXY_INVALID_PARAMETERS s)
      else do {
        r0 \<leftarrow> ba_reserve K alloc 128 False 0 False False (sk_request s);
        p0 \<leftarrow> ba_reserve K alloc 128 False 0 False False (sk_response s);
        r1 \<leftarrow> ba_resize K alloc 5 r0;
        r2 \<leftarrow> put_at 0 [SOCKS5_VERSION] r1;
        r3 \<leftarrow> put_at 1 [2] r2;
        r4 \<leftarrow> put_at 2 [METHOD_NO_AUTH] r3;
        r5 \<leftarrow> put_at 3 [METHOD_USERNAME_PASSWORD] r4;
        p1 \<leftarrow> ba_resize K alloc 2 p0;
        Some (s\<lparr>sk_request := r5, sk_response := p1, sk_state := State_Negotiation\<rparr>, SendAndReceive) })"

definition negotiation_step ::
    "(nat \<Rightarrow> nat) \<Rightarrow> (nat \<Rightarrow> byte list) \<Rightarrow> socks5 \<Rightarrow> (socks5 \<times> step_status) option" where
  "negotiation_step K alloc s =
     do {
       version \<leftarrow> get_byte 0 (sk_response s);
       if version \<noteq> SOCKS5_VERSION then Some (fail_with PROXY_UNSUPPORTED_VERSION s)
       else do {
         method \<leftarrow> get_byte 1 (sk_response s);
         if method = METHOD_NO_AUTH then map_option (\<lambda>s'. (s', SendAndReceive)) (sendConnectRequest K alloc s)
         else if method = METHOD_USERNAME_PASSWORD
         then map_option (\<lambda>s'. (s', SendAndReceive)) (auth_request K alloc s)
         else Some (fail_with PROXY_UNSUPPORTED_AUTH_METHOD s) } }"

definition auth_step ::
    "(nat \<Rightarrow> nat) \<Rightarrow> (nat \<Rightarrow> byte list) \<Rightarrow> socks5 \<Rightarrow> (socks5 \<times> step_status) option" where
  "auth_step K alloc s =
     do {
       version \<leftarrow> get_byte 0 (sk_response s);
       if version \<noteq> SOCKS5_AUTH_VERSION then Some (fail_with PROXY_UNSUPPORTED_VERSION s)
       else do {
         status \<leftarrow> get_byte 1 (sk_response s);
         if status \<noteq> 0 then Some (fail_with PROXY_AUTH_FAILED s)
         else map_option (\<lambda>s'. (s', SendAndReceive)) (sendConnectRequest K alloc s) } }"

definition connect_step ::
    "(nat \<Rightarrow> nat) \<Rightarrow> (nat \<Rightarrow> byte list) \<Rightarrow> socks5 \<Rightarrow> (socks5 \<times> step_status) option" where
  "connect_step K alloc s0 =
     (let s = s0\<lparr>sk_request := ba_clear (sk_request s0)\<rparr>
      in do {
        version \<leftarrow> get_byte 0 (sk_response s);
        if version \<noteq> SOCKS5_VERSION then Some (fail_with PROXY_UNSUPPORTED_VERSION s)
        else do {
          reply \<leftarrow> get_byte 1 (sk_response s);
          if reply \<noteq> RESP_SUCCESS then Some (fail_with PROXY_REPORTED_ERROR s)
          else do {
            atype \<leftarrow> get_byte 3 (sk_response s);
            alen \<leftarrow> get_byte 4 (sk_response s);
            let s1 = s\<lparr>sk_state := State_ReceiveAddress, sk_addressType := atype, sk_addressLength := alen\<rparr>;
                resized = (\<lambda>n. map_option (\<lambda>p. (s1\<lparr>sk_response := p\<rparr>, Step_Receive))
                                 (ba_resize K alloc n (sk_response s1)))
            in if atype = ADDRESS_IP4 then resized (3 + 2)
               else if atype = ADDRESS_IP6 then resized (3 + 2 + 2)
               else if alen = 0 then Some (s1, Step_Fail)
               else resized (unat alen + 2) } } })"

definition receive_step :: "byte list \<Rightarrow> socks5 \<Rightarrow> (socks5 \<times> step_status) option" where
  "receive_step junk s =
     (let p = sk_response s; len = sk_addressLength s; res = sk_result s
      in do {
        res' \<leftarrow> (if sk_addressType s = ADDRESS_IP4 then do {
              bs \<leftarrow> get_at 0 3 p;
              port \<leftarrow> get_at 3 2 p;
              Some (res\<lparr>tg_address := Address_v4 (len # bs), tg_port := port_of port\<rparr>) }
            else if sk_addressType s = ADDRESS_IP6 then do {
              bs \<leftarrow> get_at 0 5 p;
              port \<leftarrow> get_at 5 2 p;
              Some (res\<lparr>tg_address := Address_v6 (len # bs @ drop 6 junk), tg_port := port_of port\<rparr>) }
            else if sk_addressType s = ADDRESS_DOMAIN then do {
              bs \<leftarrow> get_at 0 (unat len) p;
              port \<leftarrow> get_at (unat len) 2 p;
              Some (res\<lparr>tg_domain := bs, tg_port := port_of port\<rparr>) }
            else Some res);
        s' \<leftarrow> resetBuffers (s\<lparr>sk_result := res', sk_state := State_Done\<rparr>);
        Some (s', Step_Done) })"

definition nextRequest ::
    "(nat \<Rightarrow> nat) \<Rightarrow> (nat \<Rightarrow> byte list) \<Rightarrow> (ip_address \<Rightarrow> bool) \<Rightarrow> byte list \<Rightarrow> socks5
      \<Rightarrow> (socks5 \<times> step_status) option" where
  "nextRequest K alloc unspecified junk s =
     (case sk_state s of
        State_Idle \<Rightarrow> idle_step K alloc unspecified s
      | State_Negotiation \<Rightarrow> negotiation_step K alloc s
      | State_Auth \<Rightarrow> auth_step K alloc s
      | State_Connect \<Rightarrow> connect_step K alloc s
      | State_ReceiveAddress \<Rightarrow> receive_step junk s
      | State_Done \<Rightarrow> Some (s, Step_Fail))"

subsection \<open>Packets of UDP through the proxy\<close>

definition wrapUdpPacket ::
    "(nat \<Rightarrow> nat) \<Rightarrow> (nat \<Rightarrow> byte list) \<Rightarrow> target \<Rightarrow> byte_array \<Rightarrow> byte_array option" where
  "wrapUdpPacket K alloc t packet =
     (let domain = tg_domain t; v4 = is_v4 (tg_address t); bytes = to_bytes (tg_address t);
          headerLength = 4 + (if domain = [] then (if v4 then 4 else 6) else length domain + 1) + 2;
          aType = (if domain \<noteq> [] then ADDRESS_DOMAIN else if v4 then ADDRESS_IP4 else ADDRESS_IP6)
      in do {
        p0 \<leftarrow> ba_rresize K alloc (ba_size packet + headerLength) packet;
        p1 \<leftarrow> put_at 0 [0] p0;
        p2 \<leftarrow> put_at 1 [0] p1;
        p3 \<leftarrow> put_at 2 [0] p2;
        p4 \<leftarrow> put_at 3 [aType] p3;
        if domain \<noteq> [] then do {
          p5 \<leftarrow> put_at 4 [of_nat (length domain)] p4;
          p6 \<leftarrow> put_at (4 + 1) domain p5;
          put_at (4 + (length domain + 1)) (port_bytes (tg_port t)) p6 }
        else do {
          p5 \<leftarrow> put_at 4 bytes p4;
          put_at (4 + length bytes) (port_bytes (tg_port t)) p5 } })"

text \<open>The source that is read, the place of the port, and whether the packet was long enough.\<close>

definition unwrap_source :: "target \<Rightarrow> byte_array \<Rightarrow> (bool \<times> target \<times> nat) option" where
  "unwrap_source source packet =
     do {
       aType \<leftarrow> get_byte 3 packet;
       if aType = ADDRESS_IP4 then
         if ba_size packet > 4 + 2 + 4
         then map_option (\<lambda>bs. (True, source\<lparr>tg_address := Address_v4 bs\<rparr>, 4 + 4)) (get_at 4 4 packet)
         else Some (False, source, 4)
       else if aType = ADDRESS_IP6 then
         if ba_size packet > 4 + 2 + 6
         then map_option (\<lambda>bs. (True, source\<lparr>tg_address := Address_v6 bs\<rparr>, 4 + 16)) (get_at 4 16 packet)
         else Some (False, source, 4)
       else if aType = ADDRESS_DOMAIN then do {
         domainLength \<leftarrow> get_byte 4 packet;
         if ba_size packet > 4 + 2 + 1 + unat domainLength
         then map_option (\<lambda>bs. (True, source\<lparr>tg_domain := bs\<rparr>, 4 + unat domainLength + 1))
                (get_at (4 + 1) (unat domainLength) packet)
         else Some (False, source, 4) }
       else Some (False, source, 4) }"

definition unwrapUdpPacket ::
    "(nat \<Rightarrow> nat) \<Rightarrow> (nat \<Rightarrow> byte list) \<Rightarrow> target \<Rightarrow> byte_array \<Rightarrow> (bool \<times> target \<times> byte_array) option" where
  "unwrapUdpPacket K alloc source packet =
     (if \<not> ba_size packet > 4 + 2 then Some (False, source, packet)
      else do {
        (ok, source', portOffset) \<leftarrow> unwrap_source source packet;
        if ok then do {
          port \<leftarrow> get_at portOffset 2 packet;
          packet' \<leftarrow> ba_rresize K alloc (ba_size packet + portOffset + 2) packet;
          Some (True, source'\<lparr>tg_port := port_of port\<rparr>, packet') }
        else Some (False, source', packet) })"

subsection \<open>The caller\<close>

text \<open>The library leaves it to the caller to send the requests and to read the responses. The loop of such a caller is
  written here, with no code of the library behind it, after the statuses that \<open>nextRequest\<close> returns: it reads the
  response that the client asks for from the server, a stream of bytes, until the client is done or fails, or the
  stream has fewer bytes than the response asks for and no more come.\<close>

definition deliver :: "byte list \<Rightarrow> socks5 \<Rightarrow> socks5 option" where
  "deliver bs s = map_option (\<lambda>p. s\<lparr>sk_response := p\<rparr>) (put_at 0 bs (sk_response s))"

datatype outcome = Finished target | Failed "network_error option" | Waiting socks_state nat

fun dialogue ::
    "(nat \<Rightarrow> nat) \<Rightarrow> (nat \<Rightarrow> byte list) \<Rightarrow> (ip_address \<Rightarrow> bool) \<Rightarrow> byte list \<Rightarrow> nat \<Rightarrow> byte list \<Rightarrow> socks5
      \<Rightarrow> (outcome \<times> byte list) option" where
  "dialogue K alloc unspecified junk 0 stream s = None"
| "dialogue K alloc unspecified junk (Suc fuel) stream s =
     do {
       (s1, status) \<leftarrow> nextRequest K alloc unspecified junk s;
       let need = ba_size (sk_response s1)
       in case status of
            Step_Done \<Rightarrow> Some (Finished (sk_result s1), stream)
          | Step_Fail \<Rightarrow> Some (Failed (sk_error s1), stream)
          | _ \<Rightarrow>
              if length stream < need then Some (Waiting (sk_state s1) (need - length stream), stream)
              else do { s2 \<leftarrow> deliver (take need stream) s1;
                        dialogue K alloc unspecified junk fuel (drop need stream) s2 } }"

declare dialogue.simps [simp del]

subsection \<open>Buffers as the bytes from the data pointer on\<close>

definition ba_tail :: "byte_array \<Rightarrow> byte list" where
  "ba_tail b = drop (ba_offset b) (ba_cells b)"

text \<open>A write inside the region, as a total function.\<close>

definition poke :: "nat \<Rightarrow> byte list \<Rightarrow> byte_array \<Rightarrow> byte_array" where
  "poke k bs b = ba_set_cells (overlay (ba_offset b + k) bs (ba_cells b)) b"

definition room :: "byte_array \<Rightarrow> nat \<Rightarrow> bool" where
  "room b n \<longleftrightarrow> ba_ok b \<and> ba_offset b + n \<le> ba_capacity b"

lemma roomD: "room b n \<Longrightarrow> ba_ok b" "room b n \<Longrightarrow> m \<le> n \<Longrightarrow> room b m"
  by (auto simp: room_def)

lemma room_size: "ba_ok b \<Longrightarrow> room b (ba_size b)"
  using ba_ok_bounds [of b] by (simp add: room_def)

lemma length_tail: "ba_ok b \<Longrightarrow> length (ba_tail b) = ba_capacity b - ba_offset b"
  by (simp add: ba_tail_def ba_ok_cells)

lemma room_tail: "ba_ok b \<Longrightarrow> room b n \<longleftrightarrow> n \<le> length (ba_tail b)"
  using ba_ok_bounds [of b] by (auto simp: room_def length_tail)

lemma content_tail: "ba_content b = take (ba_size b) (ba_tail b)"
  by (simp add: ba_content_def ba_tail_def)

lemma poke_fields [simp]:
  "ba_size (poke k bs b) = ba_size b" "ba_offset (poke k bs b) = ba_offset b"
  "ba_capacity (poke k bs b) = ba_capacity b"
  by (simp_all add: poke_def)

lemma put_poke [simp]:
  assumes "room b (k + length bs)"
  shows "put_at k bs b = Some (poke k bs b)"
  using assms ba_ok_cells [of b]
  by (auto simp: room_def put_at_def ba_write_def write_at_def poke_def overlay_def)

lemma ba_ok_poke [simp]: "room b (k + length bs) \<Longrightarrow> ba_ok (poke k bs b)"
  using ba_ok_cells [of b] by (auto simp: room_def poke_def ba_ok_set_cells)

lemma room_poke [simp]: "room b (k + length bs) \<Longrightarrow> room b n \<Longrightarrow> room (poke k bs b) n"
  using ba_ok_poke [of b k bs] by (simp add: room_def)

lemma tail_poke [simp]: "room b (k + length bs) \<Longrightarrow> ba_tail (poke k bs b) = overlay k bs (ba_tail b)"
  using ba_ok_cells [of b]
  by (auto simp: room_def poke_def ba_tail_def overlay_def drop_take ac_simps)

lemma get_tail: "room b (k + n) \<Longrightarrow> get_at k n b = Some (take n (drop k (ba_tail b)))"
  using ba_ok_cells [of b] by (auto simp: room_def get_at_def read_at_def ba_tail_def add.commute)

lemma get_byte_tail: "room b (k + 1) \<Longrightarrow> get_byte k b = Some (ba_tail b ! k)"
  using room_tail [of b "k + 1"] roomD [of b]
  by (auto simp: get_byte_def get_tail take_Suc_conv_app_nth hd_drop_conv_nth)

text \<open>A resize within the buffer changes the size only.\<close>

lemma resize_within:
  assumes "room b m"
  shows "yields (ba_resize K alloc m b) (\<lambda>b'. ba_ok b' \<and> ba_size b' = m \<and> ba_offset b' = ba_offset b
    \<and> ba_capacity b' = ba_capacity b \<and> ba_tail b' = ba_tail b)"
proof -
  have "\<not> (m > ba_size b \<and> m - ba_size b > capacityForAppend b)"
    using ba_ok_append_room [of b] ba_ok_bounds [of b] assms unfolding room_def by linarith
  moreover have "ba_ok (b\<lparr>ba_size := m\<rparr>)" using assms by (auto simp: room_def ba_ok_def)
  ultimately show ?thesis
    using assms by (cases "m = ba_size b") (auto simp: ba_resize_def ba_tail_def room_def)
qed

context block_rounding
begin

lemma resize_room:
  assumes ok: "ba_ok b" and al: "alloc_ok alloc" and "fits (m + ba_offset b)"
  shows "yields (ba_resize round_up alloc m b) (\<lambda>b'. ba_ok b' \<and> ba_size b' = m \<and> ba_offset b' = ba_offset b
    \<and> ba_capacity b \<le> ba_capacity b' \<and> room b' m)"
proof (cases "room b m")
  case True
  show ?thesis by (rule yields_mono [OF resize_within [OF True]]) (use room_size in auto)
next
  case False
  from resize_ok [OF ok al, of m] assms(3)
  obtain b' where b': "ba_resize round_up alloc m b = Some b'" "ba_ok b'" "ba_size b' = m"
      "ba_offset b' = ba_offset b" by auto
  then show ?thesis using False ok room_size [OF b'(2)] by (auto simp: room_def)
qed

lemma reserve_room:
  assumes "ba_ok b" and "ba_offset b = 0" and "alloc_ok alloc"
  shows "yields (ba_reserve round_up alloc 128 False 0 False False b)
    (\<lambda>b'. ba_ok b' \<and> ba_offset b' = 0 \<and> 128 \<le> ba_capacity b')"
  by (rule yields_mono [OF reserve_at_start [OF assms(1,3,2)]]) (auto simp: fits_def)

end

subsection \<open>The messages of RFC 1928 and RFC 1929\<close>

definition rfc_address :: "target \<Rightarrow> byte list" where
  "rfc_address t =
     (if tg_domain t \<noteq> [] then [3, of_nat (length (tg_domain t))] @ tg_domain t
      else [if is_v4 (tg_address t) then 1 else 4] @ to_bytes (tg_address t)) @ port_bytes (tg_port t)"

definition rfc_connect :: "bool \<Rightarrow> target \<Rightarrow> byte list" where
  "rfc_connect udp t = [5, if udp then 3 else 1, 0] @ rfc_address t"

definition rfc_auth :: "byte list \<Rightarrow> byte list \<Rightarrow> byte list" where
  "rfc_auth login password =
     [1, of_nat (length login)] @ login @ [of_nat (length password)] @ password"

definition request_size :: "target \<Rightarrow> nat" where
  "request_size t =
     (if tg_domain t \<noteq> [] then 5 + length (tg_domain t) + 2 else if is_v4 (tg_address t) then 10 else 12)"

definition target_fits :: "target \<Rightarrow> bool" where
  "target_fits t \<longleftrightarrow> address_ok (tg_address t) \<and> fits (length (tg_domain t) + 7)"

lemma address_ok_length: "address_ok a \<Longrightarrow> length (to_bytes a) = (if is_v4 a then 4 else 16)"
  by (cases a) auto

lemma length_port_bytes [simp]: "length (port_bytes p) = 2"
  by (simp add: port_bytes_def)

lemma split_at_4: "4 \<le> length t \<Longrightarrow> \<exists>a b c d r. t = a # b # c # d # r"
  by (cases t; cases "tl t"; cases "tl (tl t)"; cases "tl (tl (tl t))") auto

lemma connect_overlay:
  assumes "4 + (length bs + 2) \<le> length t" and "length pt = 2"
  shows "overlay (Suc 0) [c] (overlay 2 [0] (overlay 0 [v] (overlay (4 + length bs) pt
      (overlay 4 bs (overlay 4 [z] (overlay 3 [a] t)))))) =
    [v, c, 0, a] @ bs @ pt @ drop (length bs + 2) (drop 4 t)"
proof -
  obtain t0 t1 t2 t3 r where t: "t = t0 # t1 # t2 # t3 # r" using split_at_4 [of t] assms(1) by auto
  then have "length bs + 2 \<le> length r" using assms(1) by simp
  then show ?thesis using assms(2) by (cases r) (auto simp: t overlay_0 overlay_def [of "length bs"])
qed

lemma connect_overlay_domain:
  assumes "5 + (length bs + 2) \<le> length t" and "length pt = 2"
  shows "overlay (Suc 0) [c] (overlay 2 [0] (overlay 0 [v] (overlay (5 + length bs) pt
      (overlay 5 bs (overlay 4 [z] (overlay 3 [a] t)))))) =
    [v, c, 0, a, z] @ bs @ pt @ drop (length bs + 2) (drop 5 t)"
proof -
  obtain t0 t1 t2 t3 r where t: "t = t0 # t1 # t2 # t3 # r" using split_at_4 [of t] assms(1) by auto
  then obtain t4 r' where r: "r = t4 # r'" using assms(1) by (cases r) auto
  then have "length bs + 2 \<le> length r'" using assms(1) t by simp
  then show ?thesis using assms(2) by (auto simp: t r overlay_0 overlay_def [of "length bs"])
qed

text \<open>A buffer of the client: its data at the start of a region of at least 128 bytes.\<close>

definition roomy :: "byte_array \<Rightarrow> nat \<Rightarrow> bool" where
  "roomy b n \<longleftrightarrow> ba_ok b \<and> ba_offset b = 0 \<and> ba_size b = n \<and> 128 \<le> ba_capacity b"

lemma roomy_room: "roomy b n \<Longrightarrow> m \<le> 128 \<or> m \<le> n \<Longrightarrow> room b m"
  using ba_ok_bounds [of b] by (auto simp: roomy_def room_def)

lemma roomy_resize:
  assumes "roomy b n" and "alloc_ok alloc" and "fits m"
  shows "\<exists>b'. ba_resize block_to alloc m b = Some b' \<and> roomy b' m"
  using block.resize_room [of b alloc m] assms by (auto simp: yields_def roomy_def)

lemma roomy_poke [simp]: "roomy b n \<Longrightarrow> room b (k + length bs) \<Longrightarrow> roomy (poke k bs b) n"
  by (simp add: roomy_def)

definition keeps_settings :: "socks5 \<Rightarrow> socks5 \<Rightarrow> bool" where
  "keeps_settings s s' \<longleftrightarrow>
     sk_destination s' = sk_destination s \<and> sk_login s' = sk_login s \<and> sk_password s' = sk_password s
     \<and> sk_udp s' = sk_udp s \<and> sk_result s' = sk_result s"

lemma sendConnect_spec:
  assumes "roomy (sk_request s) n" and "roomy (sk_response s) m" and al: "alloc_ok alloc"
    and d: "target_fits (sk_destination s)"
  shows "yields (sendConnectRequest block_to alloc s) (\<lambda>s'.
    keeps_settings s s' \<and> sk_state s' = State_Connect
    \<and> roomy (sk_request s') (request_size (sk_destination s)) \<and> roomy (sk_response s') 8
    \<and> ba_content (sk_request s') =
        take (request_size (sk_destination s)) (rfc_connect (sk_udp s) (sk_destination s)))"
proof -
  let ?d = "sk_destination s"
  let ?bytes = "to_bytes (tg_address ?d)" and ?dom = "tg_domain ?d"
  have a: "length ?bytes = (if is_v4 (tg_address ?d) then 4 else 16)" and f: "fits 8" "fits (request_size ?d)"
    using d by (auto simp: target_fits_def address_ok_length fits_def request_size_def)
  obtain r p where r: "ba_resize block_to alloc (request_size ?d) (sk_request s) = Some r" "roomy r (request_size ?d)"
    and p: "ba_resize block_to alloc 8 (sk_response s) = Some p" "roomy p 8"
    using roomy_resize [OF assms(1) al f(2)] roomy_resize [OF assms(2) al f(1)] by blast
  have ok: "ba_ok r" using r(2) by (simp add: roomy_def)
  show ?thesis
  proof (cases "?dom = []")
    case True
    have big: "room r n" if "n \<le> 22" for n using roomy_room [OF r(2), of n] that by simp
    have "4 + (length ?bytes + 2) \<le> length (ba_tail r)" using big [of 22] room_tail [OF ok] a by simp
    note overlay = connect_overlay [OF this]
    show ?thesis
    proof (cases "tg_address ?d")
      case (Address_v4 bs)
      then show ?thesis
        unfolding sendConnectRequest_def Let_def
        using overlay r p True a
        by (simp add: big content_tail roomy_def keeps_settings_def rfc_connect_def rfc_address_def socks_consts request_size_def)
    next
      case (Address_v6 bs)
      then show ?thesis
        unfolding sendConnectRequest_def Let_def
        using overlay r p True a
        by (simp add: big content_tail roomy_def keeps_settings_def rfc_connect_def rfc_address_def socks_consts request_size_def)
    qed
  next
    case False
    have big: "room r n" if "n \<le> 7 + length ?dom" for n
      using roomy_room [OF r(2), of n] that False by (simp add: request_size_def)
    have sz: "5 + length ?dom + 2 = request_size ?d" using False by (simp add: request_size_def)
    have "5 + (length ?dom + 2) \<le> length (ba_tail r)" using big [of "7 + length ?dom"] room_tail [OF ok] by simp
    from connect_overlay_domain [OF this] r p show ?thesis
      unfolding sendConnectRequest_def Let_def sz
      by (simp add: False big content_tail roomy_def keeps_settings_def rfc_connect_def rfc_address_def socks_consts)
        (simp add: False request_size_def)
  qed
qed

text \<open>What the authentication request holds: the length and the text of the password are put behind as many
  bytes as the password has, not behind the login.\<close>

definition auth_content :: "byte list \<Rightarrow> byte list \<Rightarrow> byte list \<Rightarrow> bool" where
  "auth_content login password c \<longleftrightarrow>
     (if length password \<le> length login
      then \<exists>rest. c = [1, of_nat (length login)] @ take (length password) login
             @ [of_nat (length password)] @ password @ drop (2 * length password + 1) login @ rest
      else \<exists>rest. length rest = length password - length login
             \<and> c = [1, of_nat (length login)] @ login @ rest
                  @ [of_nat (length password)] @ take (length login) password)"

lemma auth_content_reads:
  assumes "auth_content login password c" and "length c = 3 + length login + length password"
  shows "length password = length login \<longrightarrow> c = rfc_auth login password"
    and "length password < length login \<longrightarrow> take (length password + 1) (drop 2 c) =
      take (length password) login @ [of_nat (length password)]"
    and "length login < length password \<longrightarrow> drop (3 + length password) c = take (length login) password"
proof -
  show "length password = length login \<longrightarrow> c = rfc_auth login password"
    using assms by (auto simp: auth_content_def rfc_auth_def)
  show "length password < length login \<longrightarrow> take (length password + 1) (drop 2 c) =
      take (length password) login @ [of_nat (length password)]"
    using assms(1) by (auto simp: auth_content_def)
  show "length login < length password \<longrightarrow> drop (3 + length password) c = take (length login) password"
  proof
    assume l: "length login < length password"
    then obtain rest where r: "length rest = length password - length login"
        "c = ([1, of_nat (length login)] @ login @ rest @ [of_nat (length password)]) @ take (length login) password"
      using assms(1) by (auto simp: auth_content_def)
    have "length ([1, of_nat (length login)] @ login @ rest @ [of_nat (length password) :: byte]) = 3 + length password"
      using r(1) l by simp
    then show "drop (3 + length password) c = take (length login) password"
      unfolding r(2) by (rule drop_append_exact)
  qed
qed

definition credentials_ok :: "byte list \<Rightarrow> byte list \<Rightarrow> bool" where
  "credentials_ok login password \<longleftrightarrow>
     (length password \<le> length login \<or> length password \<le> 62)
     \<and> fits (3 + length login + length password)"

lemma auth_overlay:
  fixes password :: "byte list"
  assumes "2 + length login + 1 + length password \<le> length t" and "3 + 2 * length password \<le> length t"
  shows "auth_content login password (take (3 + length login + length password)
    (overlay (2 + length password + 1) password (overlay (2 + length password) [of_nat (length password)]
      (overlay 2 login (overlay (Suc 0) [of_nat (length login)] (overlay 0 [1] t))))))"
proof -
  let ?P = "length password" and ?L = "length login"
  obtain t0 t1 r where t: "t = t0 # t1 # r" using assms(1) by (cases t; cases "tl t") auto
  let ?u = "login @ drop ?L r"
  have len: "?L + 1 + ?P \<le> length r" "1 + 2 * ?P \<le> length r" using assms t by auto
  then have lu: "length ?u = length r" by simp
  have "overlay (2 + ?P + 1) password (overlay (2 + ?P) [of_nat ?P]
      (overlay 2 login (overlay (Suc 0) [of_nat ?L] (overlay 0 [1] t)))) =
    [1, of_nat ?L] @ take ?P ?u @ [of_nat ?P] @ password @ drop (2 * ?P + 1) ?u"
    using len lu overlay_two [of ?P password ?u "of_nat ?P"] by (simp add: t overlay_0 mult_2)
  also have "take (3 + ?L + ?P) \<dots> =
      [1, of_nat ?L] @ take (1 + ?L + ?P) (take ?P ?u @ [of_nat ?P] @ password @ drop (2 * ?P + 1) ?u)"
    using take_numeral_add [of _ "?L + ?P"] by (simp add: add.assoc del: take_append)
  finally show ?thesis
    using len by (cases "?P \<le> ?L") (auto simp: auth_content_def min_def)
qed

lemma auth_spec:
  assumes "roomy (sk_request s) n" and "roomy (sk_response s) m" and al: "alloc_ok alloc"
    and c: "credentials_ok (sk_login s) (sk_password s)"
  shows "yields (auth_request block_to alloc s) (\<lambda>s'.
    keeps_settings s s' \<and> sk_state s' = State_Auth
    \<and> roomy (sk_request s') (3 + length (sk_login s) + length (sk_password s)) \<and> roomy (sk_response s') 2
    \<and> auth_content (sk_login s) (sk_password s) (ba_content (sk_request s')))"
proof -
  let ?P = "length (sk_password s)" and ?L = "length (sk_login s)"
  have f: "fits (3 + ?L + ?P)" "fits 2" using c by (auto simp: credentials_ok_def fits_def)
  obtain r p where r: "ba_resize block_to alloc (3 + ?L + ?P) (sk_request s) = Some r" "roomy r (3 + ?L + ?P)"
    and p: "ba_resize block_to alloc 2 (sk_response s) = Some p" "roomy p 2"
    using roomy_resize [OF assms(1) al f(1)] roomy_resize [OF assms(2) al f(2)] by blast
  have ok: "ba_ok r" using r(2) by (simp add: roomy_def)
  have big: "room r n" if "n \<le> 3 + ?L + ?P \<or> n \<le> 3 + 2 * ?P" for n
    using roomy_room [OF r(2), of n] that c by (auto simp: credentials_ok_def)
  have "2 + ?L + 1 + ?P \<le> length (ba_tail r)" "3 + 2 * ?P \<le> length (ba_tail r)"
    using big room_tail [OF ok] by auto
  from auth_overlay [OF this] r p show ?thesis
    unfolding auth_request_def Let_def
    by (simp add: big content_tail roomy_def keeps_settings_def SOCKS5_AUTH_VERSION_def)
qed

subsection \<open>The invariant of the client\<close>

definition buffer_ok :: "byte_array \<Rightarrow> bool" where
  "buffer_ok b \<longleftrightarrow> ba_ok b \<and> ba_offset b = 0"

definition buffers_ok :: "socks5 \<Rightarrow> bool" where
  "buffers_ok s =
     (case sk_state s of
        State_Negotiation \<Rightarrow> 128 \<le> ba_capacity (sk_request s) \<and> roomy (sk_response s) 2
      | State_Auth \<Rightarrow> 128 \<le> ba_capacity (sk_request s) \<and> roomy (sk_response s) 2
      | State_Connect \<Rightarrow> 128 \<le> ba_capacity (sk_request s) \<and> roomy (sk_response s) 8
      | State_ReceiveAddress \<Rightarrow> 128 \<le> ba_capacity (sk_response s)
          \<and> (sk_addressType s = ADDRESS_DOMAIN \<longrightarrow> unat (sk_addressLength s) + 2 \<le> ba_capacity (sk_response s))
      | _ \<Rightarrow> True)"

definition socks_ok :: "socks5 \<Rightarrow> bool" where
  "socks_ok s \<longleftrightarrow>
     target_fits (sk_destination s) \<and> fits (3 + length (sk_login s) + length (sk_password s))
     \<and> buffer_ok (sk_request s) \<and> buffer_ok (sk_response s) \<and> buffers_ok s"

fun rank :: "socks_state \<Rightarrow> nat" where
  "rank State_Idle = 0"
| "rank State_Negotiation = 1"
| "rank State_Auth = 2"
| "rank State_Connect = 3"
| "rank State_ReceiveAddress = 4"
| "rank State_Done = 5"

definition advances :: "socks5 \<Rightarrow> socks5 \<times> step_status \<Rightarrow> bool" where
  "advances s = (\<lambda>(s', status). socks_ok s' \<and> sk_login s' = sk_login s \<and> sk_password s' = sk_password s
     \<and> (status \<noteq> Step_Fail \<longrightarrow> rank (sk_state s) < rank (sk_state s')))"

text \<open>The server asks for the login, which is put together in the next step.\<close>

definition asks_login :: "socks5 \<Rightarrow> bool" where
  "asks_login s \<longleftrightarrow> sk_state s = State_Negotiation \<and> take 2 (ba_tail (sk_response s)) = [5, 2]"

lemma roomy_buffer [simp]: "roomy b n \<Longrightarrow> buffer_ok b" "roomy b n \<Longrightarrow> 128 \<le> ba_capacity b"
  by (simp_all add: roomy_def buffer_ok_def)

lemma buffer_roomy: "buffer_ok b \<Longrightarrow> 128 \<le> ba_capacity b \<Longrightarrow> roomy b (ba_size b)"
  by (simp add: roomy_def buffer_ok_def)

lemma reset_buffer: "buffer_ok b \<Longrightarrow> yields (ba_reset b) buffer_ok"
  using ba_ok_free [of b] by (auto simp: buffer_ok_def ba_reset_def ba_ok_def PREALLOCATED_SIZE_def)

lemma fail_ok: "socks_ok s \<Longrightarrow> advances s (fail_with e s)"
  by (simp add: advances_def fail_with_def socks_ok_def buffers_ok_def split: socks_state.splits)

lemma roomy_reserve:
  assumes "buffer_ok b" and "alloc_ok alloc"
  shows "\<exists>b'. ba_reserve block_to alloc 128 False 0 False False b = Some b' \<and> roomy b' (ba_size b')"
  using block.reserve_room [of b alloc] assms by (auto simp: yields_def roomy_def buffer_ok_def)

lemma idle_ok:
  assumes ok: "socks_ok s" and al: "alloc_ok alloc" and "sk_state s = State_Idle"
  shows "yields (idle_step block_to alloc unspecified s) (advances s)"
proof (cases "target_isValid unspecified (sk_destination s)")
  case True
  have b: "buffer_ok (sk_request s)" "buffer_ok (sk_response s)" using ok by (auto simp: socks_ok_def)
  obtain r0 p0 where r0: "ba_reserve block_to alloc 128 False 0 False False (sk_request s) = Some r0" "roomy r0 (ba_size r0)"
    and p0: "ba_reserve block_to alloc 128 False 0 False False (sk_response s) = Some p0" "roomy p0 (ba_size p0)"
    using roomy_reserve [OF b(1) al] roomy_reserve [OF b(2) al] by blast
  obtain r1 p1 where r1: "ba_resize block_to alloc 5 r0 = Some r1" "roomy r1 5"
    and p1: "ba_resize block_to alloc 2 p0 = Some p1" "roomy p1 2"
    using roomy_resize [OF r0(2) al, of 5] roomy_resize [OF p0(2) al, of 2] by (auto simp: fits_def)
  have big: "room r1 n" if "n \<le> 128" for n using roomy_room [OF r1(2)] that by simp
  show ?thesis
    using True r0 p0 r1 p1 ok assms(3) big
    by (simp add: idle_step_def advances_def socks_ok_def buffers_ok_def buffer_ok_def roomy_def)
next
  case False
  then show ?thesis using fail_ok [OF ok] by (simp add: idle_step_def)
qed

lemma send_ok:
  assumes ok: "socks_ok s" and al: "alloc_ok alloc" and "roomy (sk_response s) m" and "128 \<le> ba_capacity (sk_request s)"
  shows "yields (sendConnectRequest block_to alloc s) (\<lambda>s'. socks_ok s' \<and> sk_state s' = State_Connect \<and> keeps_settings s s')"
    and "credentials_ok (sk_login s) (sk_password s) \<Longrightarrow>
      yields (auth_request block_to alloc s) (\<lambda>s'. socks_ok s' \<and> sk_state s' = State_Auth \<and> keeps_settings s s')"
proof -
  have r: "roomy (sk_request s) (ba_size (sk_request s))"
    and d: "target_fits (sk_destination s)" "fits (3 + length (sk_login s) + length (sk_password s))"
    using ok assms(4) buffer_roomy by (auto simp: socks_ok_def)
  show "yields (sendConnectRequest block_to alloc s) (\<lambda>s'. socks_ok s' \<and> sk_state s' = State_Connect \<and> keeps_settings s s')"
    by (rule yields_mono [OF sendConnect_spec [OF r assms(3) al d(1)]])
      (use d in \<open>auto simp: socks_ok_def buffers_ok_def keeps_settings_def\<close>)
  show "yields (auth_request block_to alloc s) (\<lambda>s'. socks_ok s' \<and> sk_state s' = State_Auth \<and> keeps_settings s s')"
    if c: "credentials_ok (sk_login s) (sk_password s)"
    by (rule yields_mono [OF auth_spec [OF r assms(3) al c]])
      (use d in \<open>auto simp: socks_ok_def buffers_ok_def keeps_settings_def\<close>)
qed

text \<open>A login request that stays inside its buffer, whatever the password, leaves the client as it should be.\<close>

lemma put_roomy: "put_at k bs b = Some b' \<Longrightarrow> roomy b n \<Longrightarrow> roomy b' n"
  using ba_ok_cells [of b] by (auto simp: put_at_def ba_write_def write_at_def roomy_def ba_ok_set_cells split: if_splits)

lemma auth_some:
  assumes ok: "socks_ok s" and al: "alloc_ok alloc" and "roomy (sk_response s) m" and "128 \<le> ba_capacity (sk_request s)"
    and "auth_request block_to alloc s = Some s'"
  shows "socks_ok s' \<and> sk_state s' = State_Auth \<and> keeps_settings s s'"
proof -
  let ?n = "3 + length (sk_login s) + length (sk_password s)"
  have r: "roomy (sk_request s) (ba_size (sk_request s))" and d: "target_fits (sk_destination s)" "fits ?n"
    using ok assms(4) buffer_roomy by (auto simp: socks_ok_def)
  have "fits 2" by (simp add: fits_def)
  obtain r0 p where r0: "ba_resize block_to alloc ?n (sk_request s) = Some r0" "roomy r0 ?n"
    and p: "ba_resize block_to alloc 2 (sk_response s) = Some p" "roomy p 2"
    using roomy_resize [OF r al d(2)] roomy_resize [OF assms(3) al \<open>fits 2\<close>] by blast
  from assms(5) r0(1) p(1) obtain q where q: "roomy q ?n" "s' = s\<lparr>sk_request := q, sk_response := p, sk_state := State_Auth\<rparr>"
    by (auto simp: auth_request_def Let_def split: bind_splits dest!: put_roomy intro: r0(2))
  then show ?thesis
    using d p(2) by (simp add: socks_ok_def buffers_ok_def keeps_settings_def)
qed

lemma roomy_get_byte: "roomy b n \<Longrightarrow> k < 128 \<Longrightarrow> get_byte k b = Some (ba_tail b ! k)"
  using roomy_room [of b n "k + 1"] by (simp add: get_byte_tail)

lemma negotiation_ok:
  assumes ok: "socks_ok s" and al: "alloc_ok alloc" and st: "sk_state s = State_Negotiation"
  shows "asks_login s \<longrightarrow> credentials_ok (sk_login s) (sk_password s) \<Longrightarrow>
      yields (negotiation_step block_to alloc s) (advances s)"
    and "negotiation_step block_to alloc s = Some r \<Longrightarrow> advances s r"
proof -
  let ?t = "ba_tail (sk_response s)"
  have r: "roomy (sk_response s) 2" "128 \<le> ba_capacity (sk_request s)"
    using ok st by (auto simp: socks_ok_def buffers_ok_def)
  have "2 \<le> length ?t" using roomy_room [OF r(1), of 2] r(1) room_tail by (simp add: roomy_def)
  then have two: "take 2 ?t = [?t ! 0, ?t ! 1]" by (cases ?t; cases "tl ?t") auto
  show "yields (negotiation_step block_to alloc s) (advances s)"
    if "asks_login s \<longrightarrow> credentials_ok (sk_login s) (sk_password s)"
    using fail_ok [OF ok] send_ok [OF ok al r] st that two
    by (auto simp: negotiation_step_def roomy_get_byte [OF r(1)] advances_def keeps_settings_def asks_login_def
        SOCKS5_VERSION_def METHOD_NO_AUTH_def METHOD_USERNAME_PASSWORD_def elim!: yields_mono)
  have "advances s (s', SendAndReceive)" if "sendConnectRequest block_to alloc s = Some s'" for s'
    using send_ok(1) [OF ok al r] st that by (auto simp: advances_def keeps_settings_def yields_def)
  moreover have "advances s (s', SendAndReceive)" if "auth_request block_to alloc s = Some s'" for s'
    using auth_some [OF ok al r that] st by (simp add: advances_def keeps_settings_def)
  ultimately show "advances s r" if "negotiation_step block_to alloc s = Some r"
    using fail_ok [OF ok] that by (auto simp: negotiation_step_def roomy_get_byte [OF r(1)] split: if_splits)
qed

lemma auth_ok:
  assumes ok: "socks_ok s" and al: "alloc_ok alloc" and st: "sk_state s = State_Auth"
  shows "yields (auth_step block_to alloc s) (advances s)"
proof -
  have r: "roomy (sk_response s) 2" "128 \<le> ba_capacity (sk_request s)"
    using ok st by (auto simp: socks_ok_def buffers_ok_def)
  show ?thesis
    using fail_ok [OF ok] send_ok [OF ok al r] st
    by (auto simp: auth_step_def roomy_get_byte [OF r(1)] advances_def keeps_settings_def elim!: yields_mono)
qed

lemma connect_ok:
  assumes ok: "socks_ok s" and al: "alloc_ok alloc" and st: "sk_state s = State_Connect"
  shows "yields (connect_step block_to alloc s) (advances s)"
proof -
  let ?s = "s\<lparr>sk_request := ba_clear (sk_request s)\<rparr>"
  have r: "roomy (sk_response s) 8" using ok st by (auto simp: socks_ok_def buffers_ok_def)
  have "buffer_ok (ba_clear (sk_request s))"
    using ok by (auto simp: socks_ok_def buffer_ok_def ba_clear_def ba_ok_def)
  moreover have "128 \<le> ba_capacity (ba_clear (sk_request s)) \<longleftrightarrow> 128 \<le> ba_capacity (sk_request s)"
    by (simp add: ba_clear_def)
  ultimately have ok': "socks_ok ?s" and rest: "target_fits (sk_destination s)" "fits (3 + length (sk_login s) + length (sk_password s))"
      "buffer_ok (ba_clear (sk_request s))" "buffer_ok (sk_response s)"
    using ok st by (auto simp: socks_ok_def buffers_ok_def)
  have fail: "advances s (fail_with e ?s)" for e using fail_ok [OF ok', of e] st by (auto simp: advances_def)
  have rs: "yields (ba_resize block_to alloc n (sk_response s)) (\<lambda>b. roomy b n)" if "n \<le> 257" for n
    using roomy_resize [OF r al, of n] that by (auto simp: fits_def yields_def)
  have cap: "roomy b n \<Longrightarrow> n \<le> ba_capacity b" for b n
    using ba_ok_bounds [of b] by (auto simp: roomy_def)
  have short: "unat (x :: byte) \<le> 255" for x
    using unat_byte_lt [of x] by linarith
  show ?thesis
    using fail rest st r
    by (auto simp: connect_step_def roomy_get_byte [OF r] Let_def advances_def socks_ok_def buffers_ok_def
        ADDRESS_IP4_def ADDRESS_IP6_def ADDRESS_DOMAIN_def
        intro!: yields_mono [OF rs] short dest: cap)
qed

lemma get_buffer: "buffer_ok b \<Longrightarrow> k + n \<le> ba_capacity b \<Longrightarrow> get_at k n b = Some (take n (drop k (ba_tail b)))"
  by (simp add: get_tail room_def buffer_ok_def)

lemma receive_ok:
  assumes ok: "socks_ok s" and st: "sk_state s = State_ReceiveAddress"
  shows "yields (receive_step junk s) (\<lambda>(s', status). advances s (s', status) \<and> status = Step_Done
    \<and> sk_state s' = State_Done)"
proof -
  have b: "buffer_ok (sk_request s)" "buffer_ok (sk_response s)" and c: "128 \<le> ba_capacity (sk_response s)"
      "sk_addressType s = ADDRESS_DOMAIN \<Longrightarrow> unat (sk_addressLength s) + 2 \<le> ba_capacity (sk_response s)"
    using ok st by (auto simp: socks_ok_def buffers_ok_def)
  have res: "yields (resetBuffers (s\<lparr>sk_result := x, sk_state := State_Done\<rparr>))
      (\<lambda>s'. socks_ok s' \<and> sk_state s' = State_Done \<and> sk_login s' = sk_login s \<and> sk_password s' = sk_password s)" for x
  proof -
    obtain p q where "ba_reset (sk_request s) = Some p" "buffer_ok p" "ba_reset (sk_response s) = Some q" "buffer_ok q"
      using reset_buffer [OF b(1)] reset_buffer [OF b(2)] by (auto simp: yields_def)
    then show ?thesis using ok by (simp add: resetBuffers_def socks_ok_def buffers_ok_def)
  qed
  have fin: "yields (resetBuffers (s\<lparr>sk_result := x, sk_state := State_Done\<rparr>) \<bind> (\<lambda>s'. Some (s', Step_Done)))
      (\<lambda>(s', status). advances s (s', status) \<and> status = Step_Done \<and> sk_state s' = State_Done)" for x
    by (rule yields_bind [OF res]) (simp add: advances_def st)
  show ?thesis
    using fin [of "sk_result s"] fin c by (auto simp: receive_step_def Let_def get_buffer [OF b(2)])
qed

lemma next_ok:
  assumes "socks_ok s" and "alloc_ok alloc" and "asks_login s \<longrightarrow> credentials_ok (sk_login s) (sk_password s)"
  shows "yields (nextRequest block_to alloc unspecified junk s) (advances s)"
proof (cases "sk_state s")
  case State_ReceiveAddress
  have "yields (receive_step junk s) (advances s)"
    by (rule yields_mono [OF receive_ok [OF assms(1) State_ReceiveAddress]]) auto
  then show ?thesis using State_ReceiveAddress by (simp add: nextRequest_def)
qed (use assms idle_ok negotiation_ok(1) auth_ok connect_ok in
      \<open>simp_all add: nextRequest_def advances_def\<close>)

lemma next_some:
  assumes "socks_ok s" and "alloc_ok alloc" and "nextRequest block_to alloc unspecified junk s = Some r"
  shows "advances s r"
proof (cases "asks_login s")
  case True
  then have "sk_state s = State_Negotiation" by (simp add: asks_login_def)
  then show ?thesis using negotiation_ok(2) [OF assms(1,2)] assms(3) by (simp add: nextRequest_def)
next
  case False
  then show ?thesis using next_ok [OF assms(1,2), of unspecified junk] assms(3) by (simp add: yields_def)
qed

lemma deliver_ok:
  assumes "socks_ok s" and "length bs \<le> ba_size (sk_response s)"
  shows "yields (deliver bs s) (\<lambda>s'. socks_ok s' \<and> sk_state s' = sk_state s
    \<and> sk_login s' = sk_login s \<and> sk_password s' = sk_password s)"
proof -
  have "room (sk_response s) (0 + length bs)"
    using assms room_size [of "sk_response s"] roomD(2) by (auto simp: socks_ok_def buffer_ok_def)
  then show ?thesis
    using assms(1) by (auto simp: deliver_def socks_ok_def buffers_ok_def buffer_ok_def roomy_def split: socks_state.splits)
qed

lemma dialogue_ok:
  assumes "alloc_ok alloc" and "socks_ok s" and "6 - rank (sk_state s) \<le> fuel"
    and "credentials_ok (sk_login s) (sk_password s)"
  shows "dialogue block_to alloc unspecified junk fuel stream s \<noteq> None"
  using assms(2-4)
proof (induction fuel arbitrary: s stream)
  case 0
  then show ?case by (cases "sk_state s") auto
next
  case (Suc fuel)
  obtain s1 st where s1: "nextRequest block_to alloc unspecified junk s = Some (s1, st)" "advances s (s1, st)"
    using next_ok [OF Suc.prems(1) assms(1), of unspecified junk] Suc.prems(3) by (auto simp: yields_def)
  let ?n = "ba_size (sk_response s1)"
  have more: "\<exists>r. (if length stream < ?n then Some (Waiting (sk_state s1) (?n - length stream), stream)
      else do { s2 \<leftarrow> deliver (take ?n stream) s1; dialogue block_to alloc unspecified junk fuel (drop ?n stream) s2 })
      = Some r" if "st \<noteq> Step_Fail"
  proof (cases "length stream < ?n")
    case False
    obtain s2 where "deliver (take ?n stream) s1 = Some s2" "socks_ok s2" "sk_state s2 = sk_state s1"
        "sk_login s2 = sk_login s1" "sk_password s2 = sk_password s1"
      using deliver_ok [of s1 "take ?n stream"] s1(2) by (auto simp: advances_def yields_def)
    moreover have "6 - rank (sk_state s1) \<le> fuel" "credentials_ok (sk_login s1) (sk_password s1)"
      using s1(2) that Suc.prems(2,3) by (auto simp: advances_def)
    ultimately show ?thesis using Suc.IH [of s2 "drop ?n stream"] False by auto
  qed simp
  then show ?case using s1(1) by (cases st) (auto simp: dialogue.simps Let_def)
qed

subsection \<open>What a caller can reach\<close>

text \<open>The calls of a caller: settings at any time, requests, responses of at most the size asked for, and
  resetting the buffers while no request is under way.\<close>

inductive socks_step ::
    "(nat \<Rightarrow> byte list) \<Rightarrow> (ip_address \<Rightarrow> bool) \<Rightarrow> ip_address \<Rightarrow> socks5 \<Rightarrow> socks5 \<Rightarrow> bool"
  for alloc unspecified any where
  set_destination: "target_fits t \<Longrightarrow> socks_step alloc unspecified any s (setDestination any t s)"
| set_udp: "socks_step alloc unspecified any s (setUdp enable s)"
| set_credentials: "fits (3 + length login + length password) \<Longrightarrow>
    socks_step alloc unspecified any s (setCredentials login password s)"
| restart: "socks_step alloc unspecified any s (socks_reset any s)"
| reset_buffers: "sk_state s \<in> {State_Idle, State_Done} \<Longrightarrow> resetBuffers s = Some s' \<Longrightarrow>
    socks_step alloc unspecified any s s'"
| request: "nextRequest block_to alloc unspecified junk s = Some (s', status) \<Longrightarrow>
    socks_step alloc unspecified any s s'"
| respond: "length bs \<le> ba_size (sk_response s) \<Longrightarrow> deliver bs s = Some s' \<Longrightarrow>
    socks_step alloc unspecified any s s'"

inductive_cases socks_stepE: "socks_step alloc unspecified any s s'"

lemma socks_step_ok:
  assumes "socks_step alloc unspecified any s s'" and "socks_ok s" and "alloc_ok alloc"
  shows "socks_ok s'"
  using assms(1)
proof cases
  case reset_buffers
  then show ?thesis
    using assms(2) reset_buffer [of "sk_request s"] reset_buffer [of "sk_response s"]
    by (auto simp: resetBuffers_def socks_ok_def buffers_ok_def yields_def split: bind_splits)
next
  case (request junk status)
  then show ?thesis using next_some [OF assms(2,3)] by (auto simp: advances_def)
next
  case (respond bs)
  then show ?thesis using deliver_ok [OF assms(2)] by (fastforce simp: yields_def)
qed (use assms(2) in \<open>auto simp: setDestination_def socks_reset_def setUdp_def setCredentials_def
      socks_ok_def buffers_ok_def split: socks_state.splits\<close>)

lemma reachable_ok:
  assumes "(socks_step alloc unspecified any)\<^sup>*\<^sup>* s s'" and "socks_ok s" and "alloc_ok alloc"
  shows "socks_ok s'"
  using assms(1,2) by (induction rule: rtranclp_induct) (auto intro: socks_step_ok [OF _ _ assms(3)])

lemma Socks5Client_ok:
  assumes "length pre1 = 20" and "length pre2 = 20" and "address_ok any"
  shows "socks_ok (Socks5Client any pre1 pre2)"
  using BufCtrl_ok [OF assms(1)] BufCtrl_ok [OF assms(2)] assms(3)
  by (simp add: Socks5Client_def Let_def socks_ok_def buffers_ok_def buffer_ok_def target_fits_def fits_def
      fits_def)

subsection \<open>One step at a time, with the bytes of the response\<close>

lemma deliver_spec:
  assumes "socks_ok s" and "length bs \<le> ba_size (sk_response s)"
  shows "\<exists>s'. deliver bs s = Some s' \<and> socks_ok s' \<and> sk_state s' = sk_state s \<and> sk_result s' = sk_result s
    \<and> sk_addressType s' = sk_addressType s \<and> sk_addressLength s' = sk_addressLength s
    \<and> ba_size (sk_response s') = ba_size (sk_response s) \<and> take (length bs) (ba_tail (sk_response s')) = bs"
proof -
  have "room (sk_response s) (0 + length bs)"
    using assms room_size [of "sk_response s"] roomD(2) by (auto simp: socks_ok_def buffer_ok_def)
  then show ?thesis
    using deliver_ok [OF assms] by (auto simp: deliver_def yields_def overlay_0)
qed

lemma take_eq_nth: "take n t = bs \<Longrightarrow> n = length bs \<Longrightarrow> k < n \<Longrightarrow> t ! k = bs ! k"
  by (metis nth_take)

lemma idle_spec:
  assumes "socks_ok s" and "alloc_ok alloc" and "sk_state s = State_Idle"
    and "target_isValid unspecified (sk_destination s)"
  shows "\<exists>s'. nextRequest block_to alloc unspecified junk s = Some (s', SendAndReceive) \<and> socks_ok s'
    \<and> sk_state s' = State_Negotiation \<and> sk_destination s' = sk_destination s \<and> sk_udp s' = sk_udp s
    \<and> sk_result s' = sk_result s"
  using idle_ok [OF assms(1-3), of unspecified] assms(3,4)
  by (auto simp: nextRequest_def idle_step_def advances_def yields_def split: bind_splits)

lemma negotiation_size: "socks_ok s \<Longrightarrow> sk_state s = State_Negotiation \<Longrightarrow> ba_size (sk_response s) = 2"
  by (simp add: socks_ok_def buffers_ok_def roomy_def)

lemma connect_size: "socks_ok s \<Longrightarrow> sk_state s = State_Connect \<Longrightarrow> ba_size (sk_response s) = 8"
  by (simp add: socks_ok_def buffers_ok_def roomy_def)

lemma no_auth_spec:
  assumes ok: "socks_ok s" and al: "alloc_ok alloc" and st: "sk_state s = State_Negotiation"
    and rs: "take 2 (ba_tail (sk_response s)) = [5, 0]"
  shows "\<exists>s'. nextRequest block_to alloc unspecified junk s = Some (s', SendAndReceive) \<and> socks_ok s'
    \<and> sk_state s' = State_Connect \<and> sk_result s' = sk_result s
    \<and> ba_content (sk_request s') =
        take (request_size (sk_destination s)) (rfc_connect (sk_udp s) (sk_destination s))"
proof -
  have r: "roomy (sk_response s) 2" "roomy (sk_request s) (ba_size (sk_request s))" "target_fits (sk_destination s)"
    using ok st buffer_roomy by (auto simp: socks_ok_def buffers_ok_def)
  have "ba_tail (sk_response s) ! 0 = 5" "ba_tail (sk_response s) ! Suc 0 = 0"
    using take_eq_nth [OF rs] by auto
  then have eq: "nextRequest block_to alloc unspecified junk s =
      map_option (\<lambda>s'. (s', SendAndReceive)) (sendConnectRequest block_to alloc s)"
    using st by (simp add: nextRequest_def negotiation_step_def roomy_get_byte [OF r(1)] socks_consts)
  show ?thesis
    unfolding eq
    using yields_conj [OF sendConnect_spec [OF r(2,1) al r(3)] send_ok(1) [OF ok al r(1)]] r(2)
    by (auto simp: yields_def roomy_def keeps_settings_def)
qed

definition address_bytes :: "byte \<Rightarrow> byte \<Rightarrow> nat" where
  "address_bytes atype alen = (if atype = 1 then 5 else if atype = 4 then 7 else unat alen + 2)"

lemma connected_spec:
  assumes ok: "socks_ok s" and al: "alloc_ok alloc" and st: "sk_state s = State_Connect"
    and rs: "take 8 (ba_tail (sk_response s)) = [5, 0, r, t, l, x, y, z]" and "t = 1 \<or> t = 4 \<or> l \<noteq> 0"
  shows "\<exists>s'. nextRequest block_to alloc unspecified junk s = Some (s', Step_Receive) \<and> socks_ok s'
    \<and> sk_state s' = State_ReceiveAddress \<and> sk_addressType s' = t \<and> sk_addressLength s' = l
    \<and> ba_size (sk_response s') = address_bytes t l \<and> sk_result s' = sk_result s"
proof -
  have r: "roomy (sk_response s) 8" using ok st by (auto simp: socks_ok_def buffers_ok_def)
  have b: "ba_tail (sk_response s) ! 0 = 5" "ba_tail (sk_response s) ! Suc 0 = 0"
     "ba_tail (sk_response s) ! 3 = t" "ba_tail (sk_response s) ! 4 = l"
    using take_eq_nth [OF rs] by auto
  have "address_bytes t l < 258" using unat_byte_lt [of l] by (auto simp: address_bytes_def)
  then have "fits (address_bytes t l)" by (simp add: fits_def)
  then obtain p where p: "ba_resize block_to alloc (address_bytes t l) (sk_response s) = Some p" "ba_size p = address_bytes t l"
    using roomy_resize [OF r al] by (auto simp: roomy_def)
  have "nextRequest block_to alloc unspecified junk s = Some (s\<lparr>sk_request := ba_clear (sk_request s),
      sk_state := State_ReceiveAddress, sk_addressType := t, sk_addressLength := l, sk_response := p\<rparr>, Step_Receive)"
    using p(1) assms(5) st b
    by (auto simp: nextRequest_def connect_step_def roomy_get_byte [OF r] socks_consts Let_def address_bytes_def)
  then show ?thesis
    using next_some [OF ok al, of unspecified junk] p(2) by (auto simp: advances_def)
qed

lemma received_ip6_spec:
  assumes ok: "socks_ok s" and st: "sk_state s = State_ReceiveAddress" and "sk_addressType s = 4"
    and rs: "take 7 (ba_tail (sk_response s)) = [b1, b2, b3, b4, b5, p, q]"
  shows "\<exists>s'. nextRequest K alloc unspecified junk s = Some (s', Step_Done)
    \<and> sk_result s' = (sk_result s)\<lparr>tg_address := Address_v6 (sk_addressLength s # [b1, b2, b3, b4, b5] @ drop 6 junk),
        tg_port := port_of [p, q]\<rparr>"
proof -
  have b: "buffer_ok (sk_response s)" "128 \<le> ba_capacity (sk_response s)"
    using ok st by (auto simp: socks_ok_def buffers_ok_def)
  have g: "get_at 0 5 (sk_response s) = Some [b1, b2, b3, b4, b5]" "get_at 5 2 (sk_response s) = Some [p, q]"
  proof -
    have "take 5 (ba_tail (sk_response s)) = take 5 (take 7 (ba_tail (sk_response s)))"
      "take 2 (drop 5 (ba_tail (sk_response s))) = drop 5 (take 7 (ba_tail (sk_response s)))"
      by (simp_all add: drop_take)
    then show "get_at 0 5 (sk_response s) = Some [b1, b2, b3, b4, b5]" "get_at 5 2 (sk_response s) = Some [p, q]"
      using b rs by (simp_all add: get_buffer)
  qed
  show ?thesis
    using receive_ok [OF ok st, of junk] g assms(3) st
    by (auto simp: nextRequest_def receive_step_def Let_def yields_def socks_consts resetBuffers_def
        split: bind_splits)
qed

text \<open>The dialogue up to the address: ten bytes of the stream are read, two and eight.\<close>

lemma dialogue_to_address:
  assumes ok: "socks_ok s" and al: "alloc_ok alloc" and st: "sk_state s = State_Idle"
    and v: "target_isValid unspecified (sk_destination s)" and tl: "t = 1 \<or> t = 4 \<or> l \<noteq> 0"
  shows "\<exists>s'. dialogue block_to alloc unspecified junk 6 ([5, 0] @ [5, 0, r, t, l, x, y, z] @ rest) s =
      (if length rest < address_bytes t l
       then Some (Waiting State_ReceiveAddress (address_bytes t l - length rest), rest)
       else do { s'' \<leftarrow> deliver (take (address_bytes t l) rest) s';
                 dialogue block_to alloc unspecified junk 3 (drop (address_bytes t l) rest) s'' })
    \<and> socks_ok s' \<and> sk_state s' = State_ReceiveAddress \<and> sk_addressType s' = t \<and> sk_addressLength s' = l
    \<and> ba_size (sk_response s') = address_bytes t l \<and> sk_result s' = sk_result s"
proof -
  let ?n = "nextRequest block_to alloc unspecified junk" and ?d = "dialogue block_to alloc unspecified junk"
  obtain s1 where s1: "?n s = Some (s1, SendAndReceive)" "socks_ok s1" "sk_state s1 = State_Negotiation"
      "sk_result s1 = sk_result s"
    using idle_spec [OF ok al st v] by blast
  have z1: "ba_size (sk_response s1) = 2" by (rule negotiation_size [OF s1(2,3)])
  obtain s2 where s2: "deliver [5, 0] s1 = Some s2" "socks_ok s2" "take 2 (ba_tail (sk_response s2)) = [5, 0]"
      "sk_state s2 = State_Negotiation" "sk_result s2 = sk_result s"
    using deliver_spec [OF s1(2), of "[5, 0]"] z1 s1(3,4) by (auto simp: numeral_2_eq_2)
  obtain s3 where s3: "?n s2 = Some (s3, SendAndReceive)" "socks_ok s3" "sk_state s3 = State_Connect"
      "sk_result s3 = sk_result s"
    using no_auth_spec [OF s2(2) al s2(4,3), of unspecified junk] s2(5) by auto
  have z3: "ba_size (sk_response s3) = 8" by (rule connect_size [OF s3(2,3)])
  obtain s4 where s4: "deliver [5, 0, r, t, l, x, y, z] s3 = Some s4" "socks_ok s4"
      "take 8 (ba_tail (sk_response s4)) = [5, 0, r, t, l, x, y, z]" "sk_state s4 = State_Connect"
      "sk_result s4 = sk_result s"
    using deliver_spec [OF s3(2), of "[5, 0, r, t, l, x, y, z]"] z3 s3(3,4) by (auto simp: eval_nat_numeral)
  obtain s5 where s5: "?n s4 = Some (s5, Step_Receive)" "socks_ok s5" "sk_state s5 = State_ReceiveAddress"
      "sk_addressType s5 = t" "sk_addressLength s5 = l" "ba_size (sk_response s5) = address_bytes t l"
      "sk_result s5 = sk_result s"
    using connected_spec [OF s4(2) al s4(4,3) tl, of unspecified junk] s4(5) by auto
  have "?d 6 ([5, 0] @ [5, 0, r, t, l, x, y, z] @ rest) s = ?d 5 ([5, 0, r, t, l, x, y, z] @ rest) s2"
    using s1(1) z1 s2(1) by (simp add: dialogue.simps(2) eval_nat_numeral)
  also have "\<dots> = ?d 4 rest s4" using s3(1) z3 s4(1) by (simp add: dialogue.simps(2) eval_nat_numeral)
  also have "\<dots> = (if length rest < address_bytes t l
       then Some (Waiting State_ReceiveAddress (address_bytes t l - length rest), rest)
       else do { s'' \<leftarrow> deliver (take (address_bytes t l) rest) s5;
                 ?d 3 (drop (address_bytes t l) rest) s'' })"
    using s5 dialogue.simps(2) [of block_to alloc unspecified junk 3 rest s4] by (simp add: Let_def)
  finally show ?thesis using s5 by blast
qed

subsection \<open>Packets of UDP\<close>

lemma port_round_trip [simp]: "port_of (port_bytes p) = p"
  unfolding port_of_def port_bytes_def
  by (rule bit_word_eqI) (auto simp: bit_or_iff bit_push_bit_iff bit_ucast_iff bit_drop_bit_eq)

lemma put_outside:
  "ba_ok b \<Longrightarrow> bs \<noteq> [] \<Longrightarrow> ba_capacity b < ba_offset b + k + length bs \<Longrightarrow> put_at k bs b = None"
  using ba_ok_cells [of b] by (simp add: put_at_def ba_write_def write_at_def)

lemma wrap_overlay:
  assumes "4 + (length bs + 2) \<le> length t" and "length pt = 2"
  shows "overlay (4 + length bs) pt (overlay 4 bs
      (overlay 3 [a] (overlay 2 [0] (overlay (Suc 0) [0] (overlay 0 [0] t))))) =
    [0, 0, 0, a] @ bs @ pt @ drop (length bs + 2) (drop 4 t)"
proof -
  obtain t0 t1 t2 t3 r where t: "t = t0 # t1 # t2 # t3 # r" using split_at_4 [of t] assms(1) by auto
  then have "length bs + 2 \<le> length r" using assms(1) by simp
  then show ?thesis using assms(2) by (auto simp: t overlay_0 overlay_def [of "length bs"])
qed

lemma wrap_overlay_domain:
  assumes "5 + (length bs + 2) \<le> length t" and "length pt = 2"
  shows "overlay (5 + length bs) pt (overlay 5 bs (overlay 4 [z]
      (overlay 3 [a] (overlay 2 [0] (overlay (Suc 0) [0] (overlay 0 [0] t)))))) =
    [0, 0, 0, a, z] @ bs @ pt @ drop (length bs + 2) (drop 5 t)"
proof -
  obtain t0 t1 t2 t3 r where t: "t = t0 # t1 # t2 # t3 # r" using split_at_4 [of t] assms(1) by auto
  then obtain t4 r' where r: "r = t4 # r'" using assms(1) by (cases r) auto
  then have "length bs + 2 \<le> length r'" using assms(1) t by simp
  then show ?thesis using assms(2) by (auto simp: t r overlay_0 overlay_def [of "length bs"])
qed

definition wrap_length :: "target \<Rightarrow> nat" where
  "wrap_length t = 4 + (if tg_domain t = [] then (if is_v4 (tg_address t) then 4 else 6) else length (tg_domain t) + 1) + 2"

text \<open>The array grown at the front, and its tail: the room for the header, the old content, and what is behind.\<close>

lemma rresize_tail:
  assumes "ba_ok b" and "alloc_ok alloc" and "fits (ba_size b + h)" and "front_defined (ba_size b + h) b"
  shows "\<exists>b'. ba_rresize block_to alloc (ba_size b + h) b = Some b' \<and> ba_ok b' \<and> ba_size b' = ba_size b + h
    \<and> drop h (ba_content b') = ba_content b"
  using block.rresize_ok [OF assms] by auto

lemma wrap_spec:
  assumes ok: "ba_ok packet" and al: "alloc_ok alloc" and t: "target_fits t"
    and "fits (ba_size packet + wrap_length t)" and "front_defined (ba_size packet + wrap_length t) packet"
    and "tg_domain t \<noteq> [] \<or> is_v4 (tg_address t) \<or> 10 \<le> ba_size packet"
  shows "yields (wrapUdpPacket block_to alloc t packet) (\<lambda>packet'. ba_ok packet' \<and> ba_content packet' =
    [0, 0, 0] @ rfc_address t
    @ drop (if tg_domain t \<noteq> [] \<or> is_v4 (tg_address t) then 0 else 10) (ba_content packet))"
proof -
  let ?h = "wrap_length t" and ?n = "ba_size packet"
  obtain p where p: "ba_rresize block_to alloc (?n + ?h) packet = Some p" "ba_ok p" "ba_size p = ?n + ?h"
      "drop ?h (ba_content p) = ba_content packet"
    using rresize_tail [OF ok al assms(4,5)] by blast
  have big: "room p k" if "k \<le> ?n + ?h" for k using room_size [OF p(2)] p(3) that roomD(2) by auto
  have tail: "take (?n + ?h) (ba_tail p) = ba_content p" using p(3) by (simp add: content_tail)
  have lc: "length (ba_content p) = ?n + ?h" using ba_content_length [OF p(2)] p(3) by simp
  have len: "?n + ?h \<le> length (ba_tail p)" using big room_tail [OF p(2)] by simp
  have cut: "take (?n + ?h) (u @ drop k (ba_tail p)) = u @ drop k (ba_content p)"
    if "length u = k" "k \<le> ?n + ?h" for u k
    using that by (simp add: tail [symmetric] drop_take)
  consider (v4) bs where "tg_domain t = []" "tg_address t = Address_v4 bs" "length bs = 4"
    | (v6) bs where "tg_domain t = []" "tg_address t = Address_v6 bs" "length bs = 16"
    | (domain) "tg_domain t \<noteq> []"
    using t by (cases "tg_address t") (auto simp: target_fits_def)
  then show ?thesis
  proof cases
    case v4
    then have h: "?h = 10" by (simp add: wrap_length_def)
    show ?thesis
      using v4 p len big wrap_overlay [of bs "ba_tail p" "port_bytes (tg_port t)"]
        cut [of "[0, 0, 0, 1] @ bs @ port_bytes (tg_port t)" 10]
      by (simp add: wrapUdpPacket_def h content_tail rfc_address_def ADDRESS_IP4_def)
  next
    case v6
    then have h: "?h = 12" "10 \<le> ?n" using assms(6) by (simp_all add: wrap_length_def)
    have "drop 22 (ba_content p) = drop 10 (ba_content packet)"
      unfolding p(4) [symmetric] h(1) by simp
    moreover have "room p k" if "k \<le> 22" for k using big [of k] h that by simp
    moreover have "22 \<le> length (ba_tail p)" using h len by simp
    ultimately show ?thesis
      using v6 p wrap_overlay [of bs "ba_tail p" "port_bytes (tg_port t)"]
        cut [of "[0, 0, 0, 4] @ bs @ port_bytes (tg_port t)" 22] h(2)
      by (simp add: wrapUdpPacket_def h content_tail rfc_address_def ADDRESS_IP6_def)
  next
    case domain
    then have h: "?h = 7 + length (tg_domain t)" by (simp add: wrap_length_def)
    show ?thesis
      using domain p len big wrap_overlay_domain [of "tg_domain t" "ba_tail p" "port_bytes (tg_port t)"]
        cut [of "[0, 0, 0, 3, of_nat (length (tg_domain t))] @ tg_domain t @ port_bytes (tg_port t)" "7 + length (tg_domain t)"]
      by (simp add: wrapUdpPacket_def Let_def h content_tail rfc_address_def ADDRESS_DOMAIN_def)
  qed
qed

text \<open>Reading a packet that begins with a header of the RFC.\<close>

lemma get_content:
  assumes ok: "ba_ok b" and "k + n \<le> ba_size b"
  shows "get_at k n b = Some (take n (drop k (ba_content b)))"
proof -
  have "take n (drop k (ba_content b)) = take n (drop k (ba_tail b))"
    using assms(2) by (simp add: content_tail drop_take min_def)
  then show ?thesis using get_tail [of b k n] assms(2) room_size [OF ok] roomD(2) by metis
qed

lemma get_byte_content: "ba_ok b \<Longrightarrow> k < ba_size b \<Longrightarrow> get_byte k b = Some (ba_content b ! k)"
  using get_content [of b k 1] ba_content_length [of b]
  by (simp add: get_byte_def take_Suc_conv_app_nth hd_drop_conv_nth)

lemma unwrap_source_spec:
  assumes ok: "ba_ok b" and t: "address_ok (tg_address t)" "length (tg_domain t) < 256"
    and c: "ba_content b = [r0, r1, fr] @ rfc_address t @ payload" and "payload \<noteq> []"
  shows "\<exists>src'. unwrap_source src b = Some (True, src', 1 + length (rfc_address t))
    \<and> get_at (1 + length (rfc_address t)) 2 b = Some (port_bytes (tg_port t))
    \<and> (if tg_domain t = [] then tg_address src' = tg_address t else tg_domain src' = tg_domain t)"
proof -
  have sz: "ba_size b = 3 + length (rfc_address t) + length payload"
    using ba_content_length [OF ok] c by simp
  have len: "length payload > 0" using assms(5) by simp
  note g = get_content [OF ok, unfolded c] and gb = get_byte_content [OF ok, unfolded c]
  consider (v4) bs where "tg_domain t = []" "tg_address t = Address_v4 bs" "length bs = 4"
    | (v6) bs where "tg_domain t = []" "tg_address t = Address_v6 bs" "length bs = 16"
    | (domain) "tg_domain t \<noteq> []"
    using t by (cases "tg_address t") auto
  then show ?thesis
  proof cases
    case v4
    then show ?thesis using sz len g gb by (simp add: unwrap_source_def rfc_address_def ADDRESS_IP4_def)
  next
    case v6
    then show ?thesis
      using sz len g gb by (simp add: unwrap_source_def rfc_address_def ADDRESS_IP4_def ADDRESS_IP6_def)
  next
    case domain
    have "unat (of_nat (length (tg_domain t)) :: byte) = length (tg_domain t)"
      using t(2) by (simp add: unat_of_nat take_bit_nat_eq_self)
    then show ?thesis
      using domain sz len g gb
      by (simp add: unwrap_source_def rfc_address_def ADDRESS_IP4_def ADDRESS_IP6_def ADDRESS_DOMAIN_def)
  qed
qed

subsection \<open>Properties\<close>

definition example_client :: socks5 where
  "example_client = Socks5Client (Address_v4 [0, 0, 0, 0]) (replicate 20 0) (replicate 20 0)"

definition example_target :: target where
  "example_target = \<lparr>tg_address = Address_v4 [127, 0, 0, 1], tg_port = 80, tg_domain = []\<rparr>"

abbreviation example_start :: socks5 where
  "example_start \<equiv> setDestination (Address_v4 [0, 0, 0, 0]) example_target example_client"

lemma example_ok: "socks_ok example_client" "target_fits example_target"
  by (simp_all add: example_client_def Socks5Client_ok target_fits_def example_target_def fits_def)

lemma example_step: "socks_step alloc unspecified (Address_v4 [0, 0, 0, 0]) example_client example_start"
  by (rule set_destination) (rule example_ok)

lemma example_start_ok: "socks_ok example_start"
  by (rule socks_step_ok [OF example_step example_ok(1) zero_alloc_ok])

lemma example_start_idle: "sk_state example_start = State_Idle" "sk_destination example_start = example_target"
  by (simp_all add: setDestination_def socks_reset_def)

lemma example_start_password: "sk_password example_start = []"
  by (simp add: setDestination_def socks_reset_def example_client_def Socks5Client_def Let_def)

text \<open>C21: however the caller uses the client (any destinations, logins, passwords and modes that fit the address
  space, resets while no request is under way, any bytes of the server up to what the response asks for), the next
  step stays inside its buffers, and unless it fails it comes nearer to the end of the protocol. One step is left
  out: when the server asks for the login, the password must be no longer than the login, or than 62 bytes; a longer
  one may be written outside the buffer, as \<open>socks_auth_misplaced\<close> shows.\<close>

theorem socks_steps_safe:
  assumes "(socks_step alloc unspecified any)\<^sup>*\<^sup>* (Socks5Client any pre1 pre2) s" and "alloc_ok alloc"
    and "length pre1 = 20" and "length pre2 = 20" and "address_ok any"
    and "asks_login s \<longrightarrow> length (sk_password s) \<le> length (sk_login s) \<or> length (sk_password s) \<le> 62"
  shows "\<exists>s' status. nextRequest block_to alloc unspecified junk s = Some (s', status)
    \<and> (status \<noteq> Step_Fail \<longrightarrow> rank (sk_state s) < rank (sk_state s'))"
proof -
  have ok: "socks_ok s" by (rule reachable_ok [OF assms(1) Socks5Client_ok [OF assms(3-5)] assms(2)])
  then have "asks_login s \<longrightarrow> credentials_ok (sk_login s) (sk_password s)"
    using assms(6) by (simp add: socks_ok_def credentials_ok_def)
  from next_ok [OF ok assms(2) this, of unspecified junk] show ?thesis by (fastforce simp: yields_def advances_def)
qed

theorem socks_steps_safe_witness:
  "\<exists>s' status. nextRequest block_to (\<lambda>n. replicate n 0) (\<lambda>a. a = Address_v4 [0, 0, 0, 0]) [] example_start = Some (s', status)
    \<and> (status \<noteq> Step_Fail \<longrightarrow> 0 < rank (sk_state s'))"
proof -
  have "(socks_step (\<lambda>n. replicate n 0) (\<lambda>a. a = Address_v4 [0, 0, 0, 0]) (Address_v4 [0, 0, 0, 0]))\<^sup>*\<^sup>*
      (Socks5Client (Address_v4 [0, 0, 0, 0]) (replicate 20 0) (replicate 20 0)) example_start"
    using example_step by (auto simp: example_client_def)
  from socks_steps_safe [OF this zero_alloc_ok, of "[]", unfolded example_start_password] example_start_idle
  show ?thesis by simp
qed

text \<open>C36: from every state that a caller can reach, with a password no longer than the login or than 62 bytes, and
  whatever the server sends, and however much of it, the loop of a caller that reads the responses comes to an end
  within six requests: the client is done, fails, or waits for bytes that have not come. The loop \<open>dialogue\<close> is not
  the library's but is written here, after the use that the interface of the client prescribes.\<close>

theorem socks_dialogue_ends:
  assumes "(socks_step alloc unspecified any)\<^sup>*\<^sup>* (Socks5Client any pre1 pre2) s" and "alloc_ok alloc"
    and "length pre1 = 20" and "length pre2 = 20" and "address_ok any"
    and "length (sk_password s) \<le> length (sk_login s) \<or> length (sk_password s) \<le> 62"
  shows "\<exists>result rest. dialogue block_to alloc unspecified junk 6 stream s = Some (result, rest)"
proof -
  have ok: "socks_ok s" by (rule reachable_ok [OF assms(1) Socks5Client_ok [OF assms(3-5)] assms(2)])
  then have "credentials_ok (sk_login s) (sk_password s)" using assms(6) by (simp add: socks_ok_def credentials_ok_def)
  then have "dialogue block_to alloc unspecified junk 6 stream s \<noteq> None" by (intro dialogue_ok [OF assms(2) ok]) simp_all
  then show ?thesis by auto
qed

theorem socks_dialogue_ends_witness:
  "\<exists>result rest. dialogue block_to (\<lambda>n. replicate n 0) (\<lambda>a. a = Address_v4 [0, 0, 0, 0]) [] 6 [5, 0, 5] example_start
     = Some (result, rest)"
proof -
  have "(socks_step (\<lambda>n. replicate n 0) (\<lambda>a. a = Address_v4 [0, 0, 0, 0]) (Address_v4 [0, 0, 0, 0]))\<^sup>*\<^sup>*
      (Socks5Client (Address_v4 [0, 0, 0, 0]) (replicate 20 0) (replicate 20 0)) example_start"
    using example_step by (auto simp: example_client_def)
  from socks_dialogue_ends [OF this zero_alloc_ok, unfolded example_start_password] show ?thesis by simp
qed

text \<open>When the server asks for no authentication, the client sends the CONNECT or UDP ASSOCIATE request of
  RFC 1928 for its destination if that is a domain or an IPv4 address; for an IPv6 address it sends
  the first twelve of the twenty-two bytes, six of them of the address.\<close>

theorem socks_connect_request:
  assumes "socks_ok s" and "alloc_ok alloc" and "sk_state s = State_Negotiation"
    and "take 2 (ba_tail (sk_response s)) = [5, 0]"
  shows "\<exists>s'. nextRequest block_to alloc unspecified junk s = Some (s', SendAndReceive) \<and> sk_state s' = State_Connect
    \<and> (tg_domain (sk_destination s) \<noteq> [] \<or> is_v4 (tg_address (sk_destination s)) \<longrightarrow>
         ba_content (sk_request s') = rfc_connect (sk_udp s) (sk_destination s))
    \<and> (tg_domain (sk_destination s) = [] \<and> \<not> is_v4 (tg_address (sk_destination s)) \<longrightarrow>
         length (rfc_connect (sk_udp s) (sk_destination s)) = 22
         \<and> ba_content (sk_request s') = take 12 (rfc_connect (sk_udp s) (sk_destination s)))"
proof -
  have "length (rfc_connect (sk_udp s) (sk_destination s)) =
      (if tg_domain (sk_destination s) = [] \<and> \<not> is_v4 (tg_address (sk_destination s)) then 22
       else request_size (sk_destination s))"
    using assms(1) by (simp add: socks_ok_def target_fits_def rfc_connect_def rfc_address_def request_size_def
      address_ok_length)
  then show ?thesis
    using no_auth_spec [OF assms, of unspecified junk] by (auto simp: request_size_def)
qed

lemma example_negotiation:
  "\<exists>s. socks_ok s \<and> sk_state s = State_Negotiation \<and> take 2 (ba_tail (sk_response s)) = [5, m]
     \<and> sk_destination s = example_target \<and> sk_udp s = False"
proof -
  let ?s = "example_client\<lparr>sk_state := State_Negotiation, sk_destination := example_target,
    sk_request := (BufCtrl (replicate 20 0))\<lparr>ba_mem := replicate 128 0, ba_place := Allocated, ba_capacity := 128\<rparr>,
    sk_response := (BufCtrl (replicate 20 0))\<lparr>ba_mem := 5 # m # replicate 126 0, ba_place := Allocated,
      ba_capacity := 128, ba_size := 2\<rparr>\<rparr>"
  have "fits (3 + length (sk_login ?s) + length (sk_password ?s))"
    using example_ok(1) by (simp add: socks_ok_def)
  then have "socks_ok ?s"
    using example_ok(2) by (simp add: socks_ok_def buffers_ok_def buffer_ok_def roomy_def ba_ok_def BufCtrl_def)
  moreover have "take 2 (ba_tail (sk_response ?s)) = [5, m]"
    by (simp add: ba_tail_def ba_cells_def BufCtrl_def numeral_2_eq_2)
  ultimately show ?thesis
    by (intro exI [of _ ?s]) (simp add: example_client_def Socks5Client_def Let_def)
qed

theorem socks_connect_request_witness:
  "\<exists>s s'. nextRequest block_to (\<lambda>n. replicate n 0) (\<lambda>a. False) [] s = Some (s', SendAndReceive)
     \<and> ba_content (sk_request s') = [5, 1, 0, 1, 127, 0, 0, 1, 0, 80]"
proof -
  obtain s where s: "socks_ok s" "sk_state s = State_Negotiation" "take 2 (ba_tail (sk_response s)) = [5, 0]"
      "sk_destination s = example_target" "sk_udp s = False"
    using example_negotiation by blast
  have "rfc_connect False example_target = [5, 1, 0, 1, 127, 0, 0, 1, 0, 80]"
    by (simp add: rfc_connect_def rfc_address_def example_target_def port_bytes_def)
  then show ?thesis
    using socks_connect_request [OF s(1) zero_alloc_ok s(2,3), of "\<lambda>a. False" "[]"] s(4,5)
    by (auto simp: example_target_def)
qed

text \<open>C37: a server that follows RFC 1928 replies to the request in 6 bytes and the address. The client asks for
  eight bytes and then for as many as would follow the fifth, so after the whole reply with an IPv4
  address or a domain it waits for three more bytes that never come; after a reply with an IPv6
  address it is done with a wrong address and port, and leaves seven bytes of the reply unread.\<close>

theorem socks_reply_stalls:
  assumes "socks_ok s" and "alloc_ok alloc" and "sk_state s = State_Idle"
    and "target_isValid unspecified (sk_destination s)"
  shows "dialogue block_to alloc unspecified junk 6 ([5, 0] @ [5, 0, 0, 1] @ [a1, a2, a3, a4] @ [p, q]) s =
        Some (Waiting State_ReceiveAddress 3, [p, q])
    \<and> (0 < length host \<and> length host < 256 \<longrightarrow>
        (\<exists>rest. dialogue block_to alloc unspecified junk 6
           ([5, 0] @ [5, 0, 0, 3] @ [of_nat (length host)] @ host @ [p, q]) s = Some (Waiting State_ReceiveAddress 3, rest)))
    \<and> (\<exists>res. dialogue block_to alloc unspecified junk 6
          ([5, 0] @ [5, 0, 0, 4] @ [a1, a2, a3, a4, a5, a6, a7, a8, a9, a10, a11, a12, a13, a14, a15, a16] @ [p, q]) s =
          Some (Finished res, [a12, a13, a14, a15, a16, p, q])
        \<and> tg_address res = Address_v6 ([a1, a5, a6, a7, a8, a9] @ drop 6 junk) \<and> tg_port res = port_of [a10, a11])"
proof (intro conjI impI)
  note to_address = dialogue_to_address [OF assms, where junk = junk]
  show "dialogue block_to alloc unspecified junk 6 ([5, 0] @ [5, 0, 0, 1] @ [a1, a2, a3, a4] @ [p, q]) s =
      Some (Waiting State_ReceiveAddress 3, [p, q])"
    using to_address [of 1 a1 0 a2 a3 a4 "[p, q]"] by (auto simp: address_bytes_def)
  show "\<exists>rest. dialogue block_to alloc unspecified junk 6
      ([5, 0] @ [5, 0, 0, 3] @ [of_nat (length host)] @ host @ [p, q]) s = Some (Waiting State_ReceiveAddress 3, rest)"
    if host: "0 < length host \<and> length host < 256"
  proof -
    define n where "n = (of_nat (length host) :: byte)"
    have n: "unat n = length host" using host by (simp add: n_def unat_of_nat take_bit_nat_eq_self)
    then have "n \<noteq> 0" using host by (metis unat_0 less_irrefl)
    moreover obtain m where m: "length host = Suc m" using host by (cases "length host") auto
    have "length (host @ [p, q]) = m + 3" using m by simp
    then obtain x y z rest where r: "host @ [p, q] = x # y # z # rest" and "length rest = m"
      by (cases "host @ [p, q]"; cases "tl (host @ [p, q])"; cases "tl (tl (host @ [p, q]))") auto
    ultimately show ?thesis
      using to_address [of 3 n 0 x y z rest] n m
      unfolding r n_def [symmetric] by (auto simp: address_bytes_def)
  qed
  let ?rest = "[a5, a6, a7, a8, a9, a10, a11, a12, a13, a14, a15, a16, p, q]"
  obtain s1 where s1: "dialogue block_to alloc unspecified junk 6 ([5, 0] @ [5, 0, 0, 4, a1, a2, a3, a4] @ ?rest) s =
      do { s'' \<leftarrow> deliver [a5, a6, a7, a8, a9, a10, a11] s1;
           dialogue block_to alloc unspecified junk 3 [a12, a13, a14, a15, a16, p, q] s'' }"
    and ok: "socks_ok s1" "sk_state s1 = State_ReceiveAddress" "sk_addressType s1 = 4" "sk_addressLength s1 = a1"
      "ba_size (sk_response s1) = 7"
    using to_address [of 4 a1 0 a2 a3 a4 ?rest] by (auto simp: address_bytes_def)
  obtain s2 where s2: "deliver [a5, a6, a7, a8, a9, a10, a11] s1 = Some s2" "socks_ok s2"
      "sk_state s2 = State_ReceiveAddress" "sk_addressType s2 = 4" "sk_addressLength s2 = a1"
      "take 7 (ba_tail (sk_response s2)) = [a5, a6, a7, a8, a9, a10, a11]"
    using deliver_spec [OF ok(1), of "[a5, a6, a7, a8, a9, a10, a11]"] ok by (auto simp: eval_nat_numeral)
  show "\<exists>res. dialogue block_to alloc unspecified junk 6
      ([5, 0] @ [5, 0, 0, 4] @ [a1, a2, a3, a4, a5, a6, a7, a8, a9, a10, a11, a12, a13, a14, a15, a16] @ [p, q]) s =
      Some (Finished res, [a12, a13, a14, a15, a16, p, q])
    \<and> tg_address res = Address_v6 ([a1, a5, a6, a7, a8, a9] @ drop 6 junk) \<and> tg_port res = port_of [a10, a11]"
    using received_ip6_spec [OF s2(2-4,6), of block_to alloc unspecified junk] s1 s2(1,5)
    by (auto simp: dialogue.simps(2) numeral_3_eq_3)
qed

theorem socks_reply_stalls_witness:
  "dialogue block_to (\<lambda>n. replicate n 0) (\<lambda>a. False) [] 6 [5, 0, 5, 0, 0, 1, 10, 0, 0, 1, 0, 80] example_start =
     Some (Waiting State_ReceiveAddress 3, [0, 80])"
proof -
  have "target_isValid (\<lambda>a. False) (sk_destination example_start)"
    by (simp only: example_start_idle) (simp add: target_isValid_def example_target_def)
  from socks_reply_stalls [OF example_start_ok zero_alloc_ok example_start_idle(1) this, of "[]" 10 0 0 1 0 80]
  show ?thesis by simp
qed

text \<open>When the server asks for a login, the request is the one of RFC 1929 if login and password have the same
  length. A shorter password is written into the login, a longer one is cut, with what follows the
  login left uninitialised; a password of 63 bytes or more may be written outside the buffer.\<close>

theorem socks_auth_misplaced:
  assumes "socks_ok s" and "alloc_ok alloc" and "sk_state s = State_Negotiation"
    and "take 2 (ba_tail (sk_response s)) = [5, 2]"
  shows "(credentials_ok login password \<longrightarrow>
      (\<exists>s'. nextRequest block_to alloc unspecified junk (setCredentials login password s) = Some (s', SendAndReceive)
        \<and> sk_state s' = State_Auth
        \<and> (length password = length login \<longrightarrow> ba_content (sk_request s') = rfc_auth login password)
        \<and> (length password < length login \<longrightarrow>
             take (length password + 1) (drop 2 (ba_content (sk_request s'))) =
               take (length password) login @ [of_nat (length password)])
        \<and> (length login < length password \<longrightarrow>
             drop (3 + length password) (ba_content (sk_request s')) = take (length login) password)))
    \<and> (ba_capacity (sk_request s) = 128 \<and> 3 + length login + length password \<le> 128 \<and> 62 < length password \<longrightarrow>
        nextRequest block_to alloc unspecified junk (setCredentials login password s) = None)"
proof (intro conjI impI)
  let ?s = "setCredentials login password s"
  have r: "roomy (sk_response s) 2" "roomy (sk_request s) (ba_size (sk_request s))"
    using assms(1,3) buffer_roomy by (auto simp: socks_ok_def buffers_ok_def)
  have "ba_tail (sk_response s) ! 0 = 5" "ba_tail (sk_response s) ! Suc 0 = 2"
    using take_eq_nth [OF assms(4)] by auto
  then have eq: "nextRequest block_to alloc unspecified junk ?s = map_option (\<lambda>s'. (s', SendAndReceive)) (auth_request block_to alloc ?s)"
    using assms(3) r(1) by (simp add: nextRequest_def negotiation_step_def setCredentials_def roomy_get_byte socks_consts)
  show "\<exists>s'. nextRequest block_to alloc unspecified junk ?s = Some (s', SendAndReceive) \<and> sk_state s' = State_Auth
      \<and> (length password = length login \<longrightarrow> ba_content (sk_request s') = rfc_auth login password)
      \<and> (length password < length login \<longrightarrow>
           take (length password + 1) (drop 2 (ba_content (sk_request s'))) =
             take (length password) login @ [of_nat (length password)])
      \<and> (length login < length password \<longrightarrow>
           drop (3 + length password) (ba_content (sk_request s')) = take (length login) password)"
    if cred: "credentials_ok login password"
  proof -
    obtain s' where s': "auth_request block_to alloc ?s = Some s'" "sk_state s' = State_Auth"
        "roomy (sk_request s') (3 + length login + length password)" "auth_content login password (ba_content (sk_request s'))"
      using auth_spec [of ?s "ba_size (sk_request s)" 2 alloc] r assms(2) cred
      by (auto simp: yields_def setCredentials_def)
    have len: "length (ba_content (sk_request s')) = 3 + length login + length password"
      using s'(3) ba_content_length by (simp add: roomy_def)
    show ?thesis
      unfolding eq using s'(1,2) auth_content_reads [OF s'(4) len] by auto
  qed
  show "nextRequest block_to alloc unspecified junk ?s = None"
    if small: "ba_capacity (sk_request s) = 128 \<and> 3 + length login + length password \<le> 128 \<and> 62 < length password"
  proof -
    let ?N = "3 + length login + length password"
    have "room (sk_request s) ?N" using r(2) small by (simp add: roomy_def room_def)
    then obtain b where b: "ba_resize block_to alloc ?N (sk_request s) = Some b" "ba_ok b" "ba_size b = ?N"
        "ba_offset b = 0" "ba_capacity b = 128"
      using resize_within [of "sk_request s" ?N block_to alloc] r(2) small by (auto simp: yields_def roomy_def)
    have big: "room b n" if "n \<le> 128" for n using b that by (simp add: room_def)
    have bad: "put_at (2 + length password + 1) password b' = None"
      if "ba_ok b'" "ba_offset b' = 0" "ba_capacity b' = 128" for b'
      by (rule put_outside) (use that small in auto)
    show ?thesis
      unfolding eq using b small big bad by (simp add: auth_request_def setCredentials_def)
  qed
qed

theorem socks_auth_misplaced_witness:
  "\<exists>s s'. nextRequest block_to (\<lambda>n. replicate n 0) (\<lambda>a. False) [] (setCredentials [117, 115, 101, 114] [112, 119] s) = Some (s', SendAndReceive)
     \<and> take 3 (drop 2 (ba_content (sk_request s'))) = [117, 115, 2]"
proof -
  obtain s where s: "socks_ok s" "sk_state s = State_Negotiation" "take 2 (ba_tail (sk_response s)) = [5, 2]"
    using example_negotiation by blast
  have "credentials_ok [117, 115, 101, 114] [112, 119]" by (simp add: credentials_ok_def fits_def)
  then show ?thesis
    using socks_auth_misplaced [OF s(1) zero_alloc_ok s(2,3), of "[117, 115, 101, 114]" "[112, 119]" "\<lambda>a. False" "[]"]
    by (auto simp: numeral_3_eq_3)
qed

text \<open>Wrapping a packet of UDP puts the header of RFC 1928 before it for a domain or an IPv4 address, as long
  as the array can grow at the front; for an IPv6 address the header needs ten bytes more than are
  made room for, and the first ten bytes of the packet are lost.\<close>

theorem socks_wrap_packet:
  assumes "ba_ok packet" and "alloc_ok alloc" and "target_fits t"
    and "fits (ba_size packet + wrap_length t)" and "front_defined (ba_size packet + wrap_length t) packet"
  shows "(tg_domain t \<noteq> [] \<or> is_v4 (tg_address t) \<longrightarrow>
        (\<exists>packet'. wrapUdpPacket block_to alloc t packet = Some packet' \<and> ba_ok packet'
           \<and> ba_content packet' = [0, 0, 0] @ rfc_address t @ ba_content packet))
    \<and> (tg_domain t = [] \<and> \<not> is_v4 (tg_address t) \<and> 10 \<le> ba_size packet \<longrightarrow>
        (\<exists>packet'. wrapUdpPacket block_to alloc t packet = Some packet' \<and> ba_ok packet'
           \<and> ba_content packet' = [0, 0, 0] @ rfc_address t @ drop 10 (ba_content packet)))"
  using wrap_spec [OF assms] by (auto simp: yields_def)

theorem socks_wrap_packet_witness:
  "\<exists>packet'. wrapUdpPacket block_to (\<lambda>n. replicate n 0) example_target (small_array [7, 8] 0 2) = Some packet'
     \<and> ba_content packet' = [0, 0, 0, 1, 127, 0, 0, 1, 0, 80, 7, 8]"
proof -
  have ok: "ba_ok (small_array [7, 8] 0 2)" by (rule small_array_ok) simp_all
  have "wrap_length example_target = 10" by (simp add: wrap_length_def example_target_def)
  then show ?thesis
    using socks_wrap_packet [OF ok zero_alloc_ok example_ok(2)]
    by (auto simp: fits_def front_defined_def example_target_def rfc_address_def port_bytes_def)
qed

text \<open>Unwrapping a packet with such a header finds the source, but instead of cutting the header off it makes
  the packet longer by as many bytes: the content ends with the whole packet as received.\<close>

theorem socks_unwrap_grows:
  assumes "ba_ok packet" and "alloc_ok alloc" and "address_ok (tg_address t)" and "length (tg_domain t) < 256"
    and "ba_content packet = [r0, r1, fr] @ rfc_address t @ payload" and "payload \<noteq> []"
    and "fits (2 * ba_size packet)" and "front_defined (ba_size packet + (3 + length (rfc_address t))) packet"
  shows "\<exists>src' packet'. unwrapUdpPacket block_to alloc src packet = Some (True, src', packet')
    \<and> tg_port src' = tg_port t
    \<and> (if tg_domain t = [] then tg_address src' = tg_address t else tg_domain src' = tg_domain t)
    \<and> ba_size packet' = ba_size packet + (3 + length (rfc_address t))
    \<and> drop (3 + length (rfc_address t)) (ba_content packet') = ba_content packet"
proof -
  let ?h = "3 + length (rfc_address t)"
  have sz: "ba_size packet = ?h + length payload" using ba_content_length [OF assms(1)] assms(5) by simp
  have l: "3 \<le> length (rfc_address t)" by (simp add: rfc_address_def)
  have "fits (ba_size packet + ?h)" using assms(7) sz by (simp add: fits_def)
  then obtain p where p: "ba_rresize block_to alloc (ba_size packet + ?h) packet = Some p" "ba_size p = ba_size packet + ?h"
      "drop ?h (ba_content p) = ba_content packet"
    using rresize_tail [OF assms(1,2) _ assms(8)] by blast
  obtain src' where u: "unwrap_source src packet = Some (True, src', 1 + length (rfc_address t))"
      "get_at (1 + length (rfc_address t)) 2 packet = Some (port_bytes (tg_port t))"
      "if tg_domain t = [] then tg_address src' = tg_address t else tg_domain src' = tg_domain t"
    using unwrap_source_spec [OF assms(1,3,4,5,6), of src] by blast
  have "ba_size packet > 4 + 2" using sz l assms(6) by (cases payload) auto
  moreover have eq: "ba_size packet + (1 + length (rfc_address t)) + 2 = ba_size packet + ?h" by simp
  have "ba_rresize block_to alloc (ba_size packet + (1 + length (rfc_address t)) + 2) packet = Some p"
    unfolding eq by (rule p(1))
  ultimately have "unwrapUdpPacket block_to alloc src packet = Some (True, src'\<lparr>tg_port := tg_port t\<rparr>, p)"
    unfolding unwrapUdpPacket_def u(1) using u(2) by simp
  then show ?thesis using p(2,3) u(3) by simp
qed

theorem socks_unwrap_grows_witness:
  "\<exists>src' packet'. unwrapUdpPacket block_to (\<lambda>n. replicate n 0) example_target
      (small_array [0, 0, 0, 1, 10, 0, 0, 1, 0, 53, 7] 0 11) = Some (True, src', packet')
    \<and> tg_port src' = 53 \<and> ba_size packet' = 21"
proof -
  let ?b = "small_array [0, 0, 0, 1, 10, 0, 0, 1, 0, 53, 7] 0 11"
  let ?t = "\<lparr>tg_address = Address_v4 [10, 0, 0, 1], tg_port = 53, tg_domain = []\<rparr>"
  have ok: "ba_ok ?b" by (rule small_array_ok) simp_all
  have a: "rfc_address ?t = [1, 10, 0, 0, 1, 0, 53]" by (simp add: rfc_address_def port_bytes_def)
  have "ba_content ?b = [0, 0, 0] @ rfc_address ?t @ [7]" by (simp add: a)
  from socks_unwrap_grows [OF ok zero_alloc_ok _ _ this, of example_target] show ?thesis
    by (auto simp: a fits_def front_defined_def)
qed

end
