(* ===== verification/CryptContainer.thy ===== *)
theory CryptContainer
  imports ByteArray "HOL-Library.Monad_Syntax"
begin

section \<open>Encrypted containers: crypt/cryptcontainerheader.h, crypt/cryptcontainer.ipp\<close>

text \<open>
  A container is a header of 22 bytes, a serialized descriptor, and chunks of ciphertext that can be
  decrypted one by one. \<open>AEAD\<close> of the cipher suite is a parameter: \<open>ae_seal d info p\<close> is what
  \<open>encryptPack\<close> appends for the plaintext \<open>p\<close> with the key and the authentication data of \<open>info\<close>, \<open>d\<close> standing
  for the IV that is drawn; \<open>ae_open\<close> is \<open>decryptPack\<close>, \<open>ae_extra\<close> is \<open>maxExtraSize\<close>. The descriptor is a data
  unit: its bytes are an argument, and \<open>parse\<close> gives the chunk sizes it holds. Containers are lists of
  bytes, \<open>junk n\<close> the bytes a buffer shows when it is prolonged. The mode of streams is not modelled
  beyond the checks for it. The sizes memoised by \<open>maxPackedChunkSize\<close> are taken as computed anew.
\<close>

datatype crypt_error =
  INVALID_SIZE | INVALID_CONTENT_FORMAT | UNSUPPORTED_FORMAT_VERSION | PARSE_CONTAINER_FAILED
  | INVALID_STREAM_MODE | DECRYPTION_FAILED | FILE_NOT_OPEN | INVALID_SEEK | FILE_READ_FAILED
  | FILE_WRITE_FAILED | FILE_NOT_FOUND | FILE_EXISTS | FILE_ALREADY_OPEN | FILE_STAMP_FAILED | ABORTED | INVALID_CRYPTFILE_FORMAT

type_synonym 'a outcome = "crypt_error + 'a"

definition and_then :: "'a outcome \<Rightarrow> ('a \<Rightarrow> 'b outcome) \<Rightarrow> 'b outcome" where
  "and_then m f = (case m of Inl e \<Rightarrow> Inl e | Inr x \<Rightarrow> f x)"

lemma and_then_simps [simp]: "and_then (Inl e) f = Inl e" "and_then (Inr x) f = f x"
  by (simp_all add: and_then_def)

definition w32 :: "nat \<Rightarrow> nat" where "w32 n = n mod 2 ^ 32"

lemma w32_id [simp]: "n < 4294967296 \<Longrightarrow> w32 n = n"
  by (simp add: w32_def)

subsection \<open>The header\<close>

definition HEADER_SIZE :: nat where "HEADER_SIZE = 22"
definition HEADER_VERSION :: byte where "HEADER_VERSION = 1"
definition PREFIX :: "byte list" where "PREFIX = [0x48, 0x43, 0x43]"
definition STREAM_PREFIX :: "byte list" where "STREAM_PREFIX = [0x48, 0x43, 0x53]"
definition VERSION_OFFSET :: nat where "VERSION_OFFSET = 3"
definition DESCRIPTOR_SIZE_OFFSET :: nat where "DESCRIPTOR_SIZE_OFFSET = 4"
definition PLAINTEXT_SIZE_OFFSET :: nat where "PLAINTEXT_SIZE_OFFSET = 6"
definition CIPHERTEXT_SIZE_OFFSET :: nat where "CIPHERTEXT_SIZE_OFFSET = 14"

lemmas header_consts =
  HEADER_SIZE_def HEADER_VERSION_def PREFIX_def STREAM_PREFIX_def VERSION_OFFSET_def
  DESCRIPTOR_SIZE_OFFSET_def PLAINTEXT_SIZE_OFFSET_def CIPHERTEXT_SIZE_OFFSET_def

definition checkPrefix :: "byte list \<Rightarrow> bool" where
  "checkPrefix h \<longleftrightarrow> take 3 h = PREFIX \<or> take 3 h = STREAM_PREFIX"

definition setVersion :: "byte \<Rightarrow> byte list \<Rightarrow> byte list" where
  "setVersion v h = overlay VERSION_OFFSET [v] h"

definition header_version :: "byte list \<Rightarrow> byte" where
  "header_version h = h ! VERSION_OFFSET"

definition setDescriptorSize :: "nat \<Rightarrow> byte list \<Rightarrow> byte list" where
  "setDescriptorSize n h = overlay DESCRIPTOR_SIZE_OFFSET (le_bytes 2 n) h"

definition descriptorSize :: "byte list \<Rightarrow> nat" where
  "descriptorSize h = le_nat (take 2 (drop DESCRIPTOR_SIZE_OFFSET h))"

definition setPlaintextSize :: "nat \<Rightarrow> byte list \<Rightarrow> byte list" where
  "setPlaintextSize n h = overlay PLAINTEXT_SIZE_OFFSET (le_bytes 8 n) h"

definition plaintextSize :: "byte list \<Rightarrow> nat" where
  "plaintextSize h = le_nat (take 8 (drop PLAINTEXT_SIZE_OFFSET h))"

definition setCiphertextSize :: "nat \<Rightarrow> byte list \<Rightarrow> byte list" where
  "setCiphertextSize n h = overlay CIPHERTEXT_SIZE_OFFSET (le_bytes 8 n) h"

definition ciphertextSize :: "byte list \<Rightarrow> nat" where
  "ciphertextSize h = le_nat (take 8 (drop CIPHERTEXT_SIZE_OFFSET h))"

definition setStreamingMode :: "bool \<Rightarrow> byte list \<Rightarrow> byte list" where
  "setStreamingMode enable h = overlay 0 (if enable then STREAM_PREFIX else PREFIX) h"

definition header_isStreamingMode :: "byte list \<Rightarrow> bool" where
  "header_isStreamingMode h \<longleftrightarrow> take 3 h = STREAM_PREFIX"

text \<open>The header in the first bytes of a buffer.\<close>

definition header_reset :: "bool \<Rightarrow> byte \<Rightarrow> byte list \<Rightarrow> byte list" where
  "header_reset streaming version h =
     setStreamingMode streaming (setVersion version (overlay 0 (replicate HEADER_SIZE 0) h))"

definition packHeader :: "bool \<Rightarrow> nat \<Rightarrow> nat \<Rightarrow> byte list \<Rightarrow> byte list" where
  "packHeader streaming dsize contentSize h =
     setDescriptorSize dsize (setPlaintextSize contentSize (header_reset streaming HEADER_VERSION h))"

text \<open>Plaintext size, descriptor size, ciphertext size and the mode.\<close>

definition unpackHeader :: "byte list \<Rightarrow> (nat \<times> nat \<times> nat \<times> bool) outcome" where
  "unpackHeader c =
     (if length c < HEADER_SIZE then Inl INVALID_SIZE
      else if \<not> checkPrefix c then Inl INVALID_CONTENT_FORMAT
      else if header_version c > HEADER_VERSION then Inl UNSUPPORTED_FORMAT_VERSION
      else Inr (plaintextSize c, descriptorSize c, ciphertextSize c, header_isStreamingMode c))"

subsection \<open>Sizes of chunks\<close>

record aead =
  ae_seal :: "nat \<Rightarrow> byte list \<Rightarrow> byte list \<Rightarrow> byte list"
  ae_open :: "byte list \<Rightarrow> byte list \<Rightarrow> byte list option"
  ae_extra :: nat

record container =
  cc_chunkMaxSize :: nat
  cc_firstChunkMaxSize :: nat
  cc_streaming :: bool

definition packedExtraSize :: "aead \<Rightarrow> nat" where
  "packedExtraSize A = w32 (ae_extra A + 4)"

text \<open>\<open>None\<close> is the failed assertion on a size of zero.\<close>

definition maxPackedFirstSize :: "aead \<Rightarrow> container \<Rightarrow> nat option" where
  "maxPackedFirstSize A cc =
     (let s = (if cc_firstChunkMaxSize cc = 0 then cc_chunkMaxSize cc else cc_firstChunkMaxSize cc)
      in if s = 0 then None else Some (w32 (s + packedExtraSize A)))"

definition maxPackedChunkSize :: "aead \<Rightarrow> container \<Rightarrow> nat \<Rightarrow> nat option" where
  "maxPackedChunkSize A cc seqnum =
     (if seqnum = 0 then maxPackedFirstSize A cc
      else do {
        s \<leftarrow> (if cc_chunkMaxSize cc = 0 then maxPackedFirstSize A cc else Some (cc_chunkMaxSize cc));
        if s = 0 then None else Some (w32 (s + packedExtraSize A)) })"

definition maxPackedChunkSizeIn :: "aead \<Rightarrow> container \<Rightarrow> nat \<Rightarrow> nat \<Rightarrow> nat option" where
  "maxPackedChunkSizeIn A cc seqnum containerSize =
     (if cc_chunkMaxSize cc \<noteq> 0 \<or> cc_firstChunkMaxSize cc \<noteq> 0 then maxPackedChunkSize A cc seqnum
      else if seqnum = 0 then Some (w32 (containerSize + packedExtraSize A))
      else Some (w32 (w32 (containerSize + 2 ^ 32 - w32 (containerSize + packedExtraSize A)) + packedExtraSize A)))"

definition maxPlainChunkSize :: "container \<Rightarrow> nat \<Rightarrow> nat" where
  "maxPlainChunkSize cc seqnum =
     (if seqnum = 0 then
        (if cc_firstChunkMaxSize cc = 0 then cc_chunkMaxSize cc else cc_firstChunkMaxSize cc)
      else cc_chunkMaxSize cc)"

subsection \<open>One chunk\<close>

text \<open>
  The inner \<open>checkInputSize\<close> of the source hides the outer one, which stays zero: a full chunk is never
  filled up to the greatest size.
\<close>

definition pack_chunk_info ::
    "aead \<Rightarrow> nat \<Rightarrow> byte list \<Rightarrow> nat \<Rightarrow> byte list \<Rightarrow> byte list \<Rightarrow> nat \<Rightarrow> byte list outcome" where
  "pack_chunk_info A chunkMax info d plaintext result offsetOut =
     (let checkInputSize = (0 :: nat)
      in if chunkMax \<noteq> 0 \<and> length plaintext > chunkMax then Inl INVALID_SIZE
         else if offsetOut > length result then Inl INVALID_SIZE
         else
           let e = ae_seal A d info plaintext;
               packed = take offsetOut result @ le_bytes 4 (length e) @ e
           in if checkInputSize \<noteq> 0 \<and> checkInputSize = chunkMax
              then let resultSize = chunkMax + ae_extra A
                   in Inr (take (offsetOut + resultSize + 4) packed
                           @ replicate (offsetOut + resultSize + 4 - length packed) 0)
              else Inr packed)"

definition packFirstChunk ::
    "aead \<Rightarrow> container \<Rightarrow> byte list \<Rightarrow> nat \<Rightarrow> byte list \<Rightarrow> byte list \<Rightarrow> nat \<Rightarrow> byte list outcome" where
  "packFirstChunk A cc info d plaintext result offsetOut =
     pack_chunk_info A (if cc_firstChunkMaxSize cc \<noteq> 0 then cc_firstChunkMaxSize cc else cc_chunkMaxSize cc)
       info d plaintext result offsetOut"

definition packChunk ::
    "aead \<Rightarrow> container \<Rightarrow> nat \<Rightarrow> nat \<Rightarrow> byte list \<Rightarrow> byte list \<Rightarrow> nat \<Rightarrow> byte list outcome" where
  "packChunk A cc seqnum d plaintext result offsetOut =
     (if seqnum \<noteq> 0 then pack_chunk_info A (cc_chunkMaxSize cc) (le_bytes 4 seqnum) d plaintext result offsetOut
      else packFirstChunk A cc (le_bytes 4 seqnum) d plaintext result offsetOut)"

definition unpackChunk :: "aead \<Rightarrow> nat \<Rightarrow> byte list \<Rightarrow> byte list \<Rightarrow> byte list outcome" where
  "unpackChunk A seqnum ciphertext result =
     (if ciphertext = [] then Inr result
      else if length ciphertext < 4 then Inl INVALID_SIZE
      else
        let size = le_nat (take 4 ciphertext); buffer = drop 4 ciphertext
        in if size = 0 then Inr result
           else if length buffer < size then Inl INVALID_SIZE
           else case ae_open A (le_bytes 4 seqnum) (take size buffer) of
                  None \<Rightarrow> Inl DECRYPTION_FAILED
                | Some p \<Rightarrow> Inr (result @ p))"

subsection \<open>A whole container\<close>

definition resize_to :: "(nat \<Rightarrow> byte list) \<Rightarrow> nat \<Rightarrow> byte list \<Rightarrow> byte list" where
  "resize_to junk n c = take n c @ junk (n - length c)"

text \<open>The header goes to the start of the buffer, whatever the offset.\<close>

definition packHeaderAndDescriptor ::
    "(nat \<Rightarrow> byte list) \<Rightarrow> bool \<Rightarrow> byte list \<Rightarrow> nat \<Rightarrow> byte list \<Rightarrow> nat \<Rightarrow> byte list outcome" where
  "packHeaderAndDescriptor junk streaming descriptor contentSize result offsetOut =
     (if offsetOut > length result then Inl INVALID_SIZE
      else
        let presize = offsetOut + HEADER_SIZE;
            r = resize_to junk presize result @ descriptor
        in Inr (packHeader streaming (length r - presize) contentSize r))"

function pack_chunks ::
    "aead \<Rightarrow> (nat \<Rightarrow> nat) \<Rightarrow> container \<Rightarrow> nat \<Rightarrow> nat \<Rightarrow> byte list \<Rightarrow> byte list \<Rightarrow> byte list outcome" where
  "pack_chunks A ds cc maxChunkSize seqnum rest result =
     (let size = (if length rest > maxChunkSize \<and> maxChunkSize \<noteq> 0 then maxChunkSize else length rest)
      in case packChunk A cc seqnum (ds seqnum) (take size rest) result (length result) of
           Inl e \<Rightarrow> Inl e
         | Inr result' \<Rightarrow>
             if size < length rest
             then pack_chunks A ds cc (if seqnum = 0 then cc_chunkMaxSize cc else maxChunkSize) (w32 (seqnum + 1))
                    (drop size rest) result'
             else Inr result')"
  by auto
termination by (relation "measure (\<lambda>(A, ds, cc, m, n, rest, r). length rest)") (auto split: if_splits)

declare pack_chunks.simps [simp del]

definition container_pack ::
    "aead \<Rightarrow> (nat \<Rightarrow> nat) \<Rightarrow> (nat \<Rightarrow> byte list) \<Rightarrow> container \<Rightarrow> byte list \<Rightarrow> byte list \<Rightarrow> byte list \<Rightarrow> byte list outcome" where
  "container_pack A ds junk cc descriptor plaintext result =
     (if cc_streaming cc then Inl INVALID_STREAM_MODE
      else
        let initialResultOffset = length result
        in and_then (packHeaderAndDescriptor junk False descriptor (length plaintext) result (length result)) (\<lambda>r.
           and_then (pack_chunks A ds cc (maxPlainChunkSize cc 0) 0 plaintext r) (\<lambda>r'.
             Inr (take initialResultOffset r'
                  @ setCiphertextSize (length r' - length r) (drop initialResultOffset r')))))"

function unpack_chunks ::
    "aead \<Rightarrow> nat \<Rightarrow> nat \<Rightarrow> nat \<Rightarrow> byte list \<Rightarrow> byte list \<Rightarrow> byte list outcome" where
  "unpack_chunks A maxChunkSize chunkSize seqnum rest plaintext =
     (if rest = [] then Inr plaintext
      else
        let size = (if maxChunkSize \<noteq> 0 \<and> length rest > maxChunkSize then maxChunkSize else length rest)
        in case unpackChunk A seqnum (take size rest) plaintext of
             Inl e \<Rightarrow> Inl e
           | Inr p \<Rightarrow> unpack_chunks A (if seqnum = 0 then chunkSize else maxChunkSize) chunkSize (w32 (seqnum + 1))
                        (drop size rest) p)"
  by auto
termination by (relation "measure (\<lambda>(A, m, c, n, rest, p). length rest)") (auto simp: Let_def split: if_splits)

declare unpack_chunks.simps [simp del]

text \<open>\<open>None\<close>: the assertion on chunk sizes, or a container of the stream mode; the descriptor gives the sizes
  of chunks.\<close>

definition container_unpack ::
    "aead \<Rightarrow> (byte list \<Rightarrow> container option) \<Rightarrow> bool \<Rightarrow> byte list \<Rightarrow> byte list \<Rightarrow> byte list outcome option" where
  "container_unpack A parse streaming input plaintext =
     (if streaming then Some (Inl INVALID_STREAM_MODE)
      else case unpackHeader input of
        Inl e \<Rightarrow> Some (Inl e)
      | Inr (plain, dsize, cipher, mode) \<Rightarrow>
          if mode then None
          else if length input < HEADER_SIZE + dsize then Some (Inl INVALID_SIZE)
          else if cipher < plain then Some (Inl INVALID_SIZE)
          else case parse (take dsize (drop HEADER_SIZE input)) of
            None \<Rightarrow> Some (Inl PARSE_CONTAINER_FAILED)
          | Some cc \<Rightarrow>
              let dataOffset = HEADER_SIZE + dsize
              in if dataOffset = length input then Some (Inl INVALID_SIZE)
                 else if length input - dataOffset < cipher then Some (Inl INVALID_SIZE)
                 else do {
                   first \<leftarrow> maxPackedChunkSizeIn A cc 0 (w32 cipher);
                   other \<leftarrow> maxPackedChunkSizeIn A cc 1 (w32 cipher);
                   Some (and_then (unpack_chunks A first other 0 (take cipher (drop dataOffset input)) plaintext) (\<lambda>p.
                           if length p - length plaintext \<noteq> plain then Inl INVALID_SIZE else Inr p)) })"

subsection \<open>What is relied on in the cipher\<close>

text \<open>Opening gives back what was sealed, and a sealed text is longer by exactly \<open>ae_extra\<close>, as for the modes
  without padding.\<close>

definition aead_ok :: "aead \<Rightarrow> bool" where
  "aead_ok A \<longleftrightarrow>
     (\<forall>d info p. ae_open A info (ae_seal A d info p) = Some p \<and> length (ae_seal A d info p) = length p + ae_extra A)
     \<and> 0 < ae_extra A"

definition container_ok :: "aead \<Rightarrow> container \<Rightarrow> bool" where
  "container_ok A cc \<longleftrightarrow>
     \<not> cc_streaming cc \<and> cc_chunkMaxSize cc + ae_extra A + 4 < 2 ^ 32
     \<and> cc_firstChunkMaxSize cc + 2 * (ae_extra A + 4) < 2 ^ 32"

lemma aead_length: "aead_ok A \<Longrightarrow> length (ae_seal A d info p) = length p + ae_extra A"
  and aead_open: "aead_ok A \<Longrightarrow> ae_open A info (ae_seal A d info p) = Some p"
  and aead_extra: "aead_ok A \<Longrightarrow> 0 < ae_extra A"
  by (simp_all add: aead_ok_def)

text \<open>A packed chunk, and the packed chunks of a plaintext.\<close>

definition packed :: "aead \<Rightarrow> nat \<Rightarrow> nat \<Rightarrow> byte list \<Rightarrow> byte list" where
  "packed A d seqnum p = (let e = ae_seal A d (le_bytes 4 seqnum) p in le_bytes 4 (length e) @ e)"

lemma length_packed: "aead_ok A \<Longrightarrow> length (packed A d n p) = length p + ae_extra A + 4"
  by (simp add: packed_def Let_def aead_length)

lemma packChunk_append:
  assumes "maxPlainChunkSize cc seqnum = 0 \<or> length p \<le> maxPlainChunkSize cc seqnum"
  shows "packChunk A cc seqnum d p result (length result) = Inr (result @ packed A d seqnum p)"
  using assms
  by (cases "seqnum = 0"; cases "cc_firstChunkMaxSize cc = 0")
    (auto simp: packChunk_def packFirstChunk_def pack_chunk_info_def maxPlainChunkSize_def packed_def Let_def)

lemma unpackChunk_packed:
  assumes "aead_ok A" and "length p + ae_extra A < 2 ^ 32"
  shows "unpackChunk A seqnum (packed A d seqnum p @ tail) result = Inr (result @ p)"
  using assms aead_extra [OF assms(1)]
  by (simp add: unpackChunk_def packed_def Let_def aead_length aead_open le_nat_bytes)

function encode_chunks :: "aead \<Rightarrow> (nat \<Rightarrow> nat) \<Rightarrow> container \<Rightarrow> nat \<Rightarrow> byte list \<Rightarrow> byte list" where
  "encode_chunks A ds cc seqnum rest =
     (let m = maxPlainChunkSize cc seqnum;
          size = (if length rest > m \<and> m \<noteq> 0 then m else length rest)
      in packed A (ds seqnum) seqnum (take size rest)
         @ (if size < length rest then encode_chunks A ds cc (seqnum + 1) (drop size rest) else []))"
  by auto
termination by (relation "measure (\<lambda>(A, ds, cc, n, rest). length rest)") (auto split: if_splits)

declare encode_chunks.simps [simp del]

lemma encode_chunks_nonempty: "aead_ok A \<Longrightarrow> encode_chunks A ds cc n rest \<noteq> []"
proof -
  assume "aead_ok A"
  then have "packed A d k p \<noteq> []" for d k p using length_packed [of A d k p] by auto
  then show ?thesis by (simp add: encode_chunks.simps Let_def)
qed

lemma pack_chunks_encode:
  assumes "seqnum + length rest < 2 ^ 32"
  shows "pack_chunks A ds cc (maxPlainChunkSize cc seqnum) seqnum rest result = Inr (result @ encode_chunks A ds cc seqnum rest)"
  using assms
proof (induction "length rest" arbitrary: seqnum rest result rule: less_induct)
  case less
  let ?m = "maxPlainChunkSize cc seqnum"
  define size where "size = (if length rest > ?m \<and> ?m \<noteq> 0 then ?m else length rest)"
  have piece: "packChunk A cc seqnum (ds seqnum) (take size rest) result (length result) =
      Inr (result @ packed A (ds seqnum) seqnum (take size rest))"
    by (rule packChunk_append) (auto simp: size_def)
  have next_m: "(if seqnum = 0 then cc_chunkMaxSize cc else ?m) = maxPlainChunkSize cc (seqnum + 1)"
    by (simp add: maxPlainChunkSize_def)
  show ?case
  proof (cases "size < length rest")
    case True
    then have sz: "0 < size" "length (drop size rest) < length rest" by (auto simp: size_def split: if_splits)
    then have "w32 (seqnum + 1) = seqnum + 1" using less.prems by (simp add: w32_def)
    moreover have "seqnum + 1 + length (drop size rest) < 2 ^ 32" using less.prems sz True by simp
    ultimately show ?thesis
      unfolding pack_chunks.simps [of A ds cc ?m] encode_chunks.simps [of A ds cc seqnum] Let_def size_def [symmetric] next_m
      using less.hyps [OF sz(2), of "seqnum + 1" "result @ packed A (ds seqnum) seqnum (take size rest)"] True piece
      by simp
  next
    case False
    then show ?thesis
      unfolding pack_chunks.simps [of A ds cc ?m] encode_chunks.simps [of A ds cc seqnum] Let_def size_def [symmetric]
      using piece by simp
  qed
qed

text \<open>The sizes the reader cuts the ciphertext by, against the sizes the writer cut the plaintext by.\<close>

definition cuts :: "aead \<Rightarrow> nat \<Rightarrow> nat \<Rightarrow> nat \<Rightarrow> bool" where
  "cuts A m M len \<longleftrightarrow> (if m \<noteq> 0 then M = m + ae_extra A + 4 else M = 0 \<or> len + ae_extra A + 4 \<le> M)"

lemma unpack_last:
  assumes A: "aead_ok A" and "cuts A m M (length rest)" and "m = 0 \<or> length rest \<le> m"
    and "length rest + ae_extra A < 2 ^ 32"
  shows "unpack_chunks A M M' seqnum (packed A d seqnum rest) plain = Inr (plain @ rest)"
proof -
  let ?p = "packed A d seqnum rest"
  have len: "length ?p = length rest + ae_extra A + 4" by (rule length_packed [OF A])
  then have "\<not> (M \<noteq> 0 \<and> length ?p > M)" using assms(2,3) by (auto simp: cuts_def split: if_splits)
  moreover have "?p \<noteq> []" using len by auto
  ultimately show ?thesis
    using unpackChunk_packed [OF A assms(4), of seqnum d "[]" plain]
    by (simp add: unpack_chunks.simps [of A M] unpack_chunks.simps [of _ _ _ _ "[]"] Let_def)
qed

lemma unpack_error:
  "unpackChunk A n (take M p) q = Inl e \<Longrightarrow> M \<noteq> 0 \<Longrightarrow> M < length p \<Longrightarrow> unpack_chunks A M M' n p q = Inl e"
  by (auto simp: unpack_chunks.simps [of A M] Let_def)

lemma unpack_full:
  assumes A: "aead_ok A" and "m \<noteq> 0" and "cuts A m M n" and "length p = m" and "tail \<noteq> []" and "m + ae_extra A < 2 ^ 32"
  shows "unpack_chunks A M M' seqnum (packed A d seqnum p @ tail) plain =
    unpack_chunks A (if seqnum = 0 then M' else M) M' (w32 (seqnum + 1)) tail (plain @ p)"
proof -
  let ?p = "packed A d seqnum p"
  have len: "length ?p = M" "M \<noteq> 0" using length_packed [OF A] assms(2-4) by (auto simp: cuts_def)
  moreover have "0 < length tail" using assms(5) by simp
  ultimately have "M < length (?p @ tail)" by simp
  then show ?thesis
    using unpackChunk_packed [OF A, of p seqnum d "[]" plain] assms(4,6) len
    by (simp add: unpack_chunks.simps [of A M] Let_def)
qed

lemma unpack_tail:
  assumes A: "aead_ok A" and "cuts A (cc_chunkMaxSize cc) M (length rest)" and "0 < seqnum"
    and "seqnum + length rest + ae_extra A < 2 ^ 32"
  shows "unpack_chunks A M M seqnum (encode_chunks A ds cc seqnum rest) plain = Inr (plain @ rest)"
  using assms(2-)
proof (induction "length rest" arbitrary: seqnum rest plain rule: less_induct)
  case less
  let ?C = "cc_chunkMaxSize cc"
  have m: "maxPlainChunkSize cc seqnum = ?C" using less.prems by (simp add: maxPlainChunkSize_def)
  show ?case
  proof (cases "?C \<noteq> 0 \<and> ?C < length rest")
    case True
    let ?rest = "drop ?C rest"
    have len: "length ?rest < length rest" using True by (auto intro: diff_less)
    have cut: "cuts A ?C M (length ?rest)" using less.prems(1) True by (simp add: cuts_def)
    have "encode_chunks A ds cc seqnum rest = packed A (ds seqnum) seqnum (take ?C rest) @ encode_chunks A ds cc (seqnum + 1) ?rest"
      using True by (simp add: encode_chunks.simps [of A ds cc seqnum] m Let_def)
    moreover have "w32 (seqnum + 1) = seqnum + 1" using less.prems(3) True by (simp add: w32_def)
    moreover have "length (take ?C rest) = ?C" "?C + ae_extra A < 2 ^ 32" using True less.prems(3) by auto
    moreover have "seqnum + 1 + length ?rest + ae_extra A < 2 ^ 32" using True less.prems(3) by auto
    ultimately show ?thesis
      using unpack_full [OF A _ cut _ encode_chunks_nonempty [OF A]] True less.prems(2)
        less.hyps [OF len cut, of "seqnum + 1"]
      by simp
  next
    case False
    then have "encode_chunks A ds cc seqnum rest = packed A (ds seqnum) seqnum rest"
      by (auto simp: encode_chunks.simps [of A ds cc seqnum] m Let_def)
    then show ?thesis using unpack_last [OF A less.prems(1)] False less.prems(3) by auto
  qed
qed

subsection \<open>The header as a list\<close>

lemma overlay_mid: "length a = k \<Longrightarrow> length c = length b \<Longrightarrow> overlay k b (a @ c @ d) = a @ b @ d"
  by (simp add: overlay_def)

definition header_bytes :: "bool \<Rightarrow> nat \<Rightarrow> nat \<Rightarrow> nat \<Rightarrow> byte list" where
  "header_bytes streaming dsize plain cipher =
     (if streaming then STREAM_PREFIX else PREFIX) @ [HEADER_VERSION] @ le_bytes 2 dsize @ le_bytes 8 plain
     @ le_bytes 8 cipher"

lemma length_header_bytes [simp]: "length (header_bytes s d p c) = 22"
  by (simp add: header_bytes_def header_consts)

lemma le_bytes_0: "le_bytes n 0 = replicate n 0"
  by (induction n) simp_all

lemma packHeader_bytes:
  assumes "22 \<le> length h"
  shows "packHeader streaming dsize plain h = header_bytes streaming dsize plain 0 @ drop 22 h"
proof -
  let ?z = "replicate 3 0 @ [0] @ replicate 2 0 @ replicate 8 0 @ le_bytes 8 0 @ drop 22 h :: byte list"
  let ?s = "if streaming then STREAM_PREFIX else PREFIX"
  have "overlay 0 (replicate HEADER_SIZE 0) h = ?z"
    by (simp add: overlay_def header_consts le_bytes_0 eval_nat_numeral)
  moreover have "setVersion HEADER_VERSION ?z = replicate 3 0 @ [HEADER_VERSION] @ replicate 2 0 @ replicate 8 0 @ le_bytes 8 0 @ drop 22 h"
    unfolding setVersion_def by (rule overlay_mid) (simp_all add: header_consts)
  moreover have "setStreamingMode streaming (replicate 3 0 @ [HEADER_VERSION] @ replicate 2 0 @ replicate 8 0 @ le_bytes 8 0 @ drop 22 h) =
      ?s @ [HEADER_VERSION] @ replicate 2 0 @ replicate 8 0 @ le_bytes 8 0 @ drop 22 h"
    by (simp add: setStreamingMode_def overlay_def header_consts)
  moreover have "setPlaintextSize plain (?s @ [HEADER_VERSION] @ replicate 2 0 @ replicate 8 0 @ le_bytes 8 0 @ drop 22 h) =
      ?s @ [HEADER_VERSION] @ replicate 2 0 @ le_bytes 8 plain @ le_bytes 8 0 @ drop 22 h"
    unfolding setPlaintextSize_def
    using overlay_mid [of "?s @ [HEADER_VERSION] @ replicate 2 0" 6 "replicate 8 0" "le_bytes 8 plain" "le_bytes 8 0 @ drop 22 h"]
    by (simp add: header_consts)
  moreover have "setDescriptorSize dsize (?s @ [HEADER_VERSION] @ replicate 2 0 @ le_bytes 8 plain @ le_bytes 8 0 @ drop 22 h) =
      ?s @ [HEADER_VERSION] @ le_bytes 2 dsize @ le_bytes 8 plain @ le_bytes 8 0 @ drop 22 h"
    unfolding setDescriptorSize_def
    using overlay_mid [of "?s @ [HEADER_VERSION]" 4 "replicate 2 0" "le_bytes 2 dsize" "le_bytes 8 plain @ le_bytes 8 0 @ drop 22 h"]
    by (simp add: header_consts)
  ultimately show ?thesis by (simp add: packHeader_def header_reset_def header_bytes_def)
qed

lemma setCiphertextSize_bytes:
  "setCiphertextSize c (header_bytes s d p 0 @ tail) = header_bytes s d p c @ tail"
  unfolding setCiphertextSize_def header_bytes_def
  using overlay_mid [of "(if s then STREAM_PREFIX else PREFIX) @ [HEADER_VERSION] @ le_bytes 2 d @ le_bytes 8 p"
      14 "le_bytes 8 0" "le_bytes 8 c" tail]
  by (simp add: header_consts)

lemma unpackHeader_bytes:
  assumes "d < 2 ^ 16" and "p < 2 ^ 64" and "c < 2 ^ 64"
  shows "unpackHeader (header_bytes s d p c @ tail) = Inr (p, d, c, s)"
proof -
  let ?h = "header_bytes s d p c @ tail"
  have pre: "length (if s then STREAM_PREFIX else PREFIX) = 3" by (simp add: header_consts)
  have "take 2 (drop 4 ?h) = le_bytes 2 d" "take 8 (drop 6 ?h) = le_bytes 8 p" "take 8 (drop 14 ?h) = le_bytes 8 c"
    using pre by (simp_all add: header_bytes_def)
  moreover have "checkPrefix ?h" "header_version ?h = 1" "header_isStreamingMode ?h = s"
    by (simp_all add: checkPrefix_def header_version_def header_isStreamingMode_def header_bytes_def header_consts)
  moreover have "le_nat (le_bytes 2 d) = d" "le_nat (le_bytes 8 p) = p" "le_nat (le_bytes 8 c) = c"
    using assms by (simp_all add: le_nat_bytes)
  ultimately show ?thesis
    by (simp add: unpackHeader_def plaintextSize_def descriptorSize_def ciphertextSize_def header_consts)
qed

subsection \<open>Whole containers\<close>

lemma length_encode:
  assumes "aead_ok A"
  shows "length rest \<le> length (encode_chunks A ds cc n rest)
    \<and> length (encode_chunks A ds cc n rest) \<le> length rest + (length rest + 1) * (ae_extra A + 4)"
proof (induction "length rest" arbitrary: n rest rule: less_induct)
  case less
  let ?m = "maxPlainChunkSize cc n" and ?X = "ae_extra A + 4"
  show ?case
  proof (cases "?m \<noteq> 0 \<and> ?m < length rest")
    case True
    let ?rest = "drop ?m rest"
    have eq: "encode_chunks A ds cc n rest = packed A (ds n) n (take ?m rest) @ encode_chunks A ds cc (n + 1) ?rest"
      using True by (simp add: encode_chunks.simps [of A ds cc n] Let_def)
    have len: "length (packed A (ds n) n (take ?m rest)) = ?m + ?X"
      using True by (simp add: length_packed [OF assms])
    have "length ?rest < length rest" using True by (auto intro: diff_less)
    from less.hyps [OF this, of "n + 1"]
    have ih: "length ?rest \<le> length (encode_chunks A ds cc (n + 1) ?rest)"
        "length (encode_chunks A ds cc (n + 1) ?rest) \<le> length ?rest + (length ?rest + 1) * ?X" by auto
    have l: "length rest = ?m + length ?rest" using True by simp
    have "(length ?rest + 2) * ?X \<le> (length rest + 1) * ?X"
      by (rule mult_le_mono1) (use l True in linarith)
    moreover have "(length ?rest + 2) * ?X = (length ?rest + 1) * ?X + ?X" by (simp add: algebra_simps)
    ultimately have "(length ?rest + 1) * ?X + ?X \<le> (length rest + 1) * ?X" by (simp only:)
    then show ?thesis unfolding eq length_append using ih len l by linarith
  next
    case False
    then have "encode_chunks A ds cc n rest = packed A (ds n) n rest"
      by (auto simp: encode_chunks.simps [of A ds cc n] Let_def)
    then show ?thesis by (simp add: length_packed [OF assms])
  qed
qed

lemma pack_whole:
  assumes "aead_ok A" and "container_ok A cc" and "alloc_ok junk" and "length plain < 2 ^ 32"
  shows "container_pack A ds junk cc descriptor plain [] =
    Inr (header_bytes False (length descriptor) (length plain) (length (encode_chunks A ds cc 0 plain))
         @ descriptor @ encode_chunks A ds cc 0 plain)"
proof -
  let ?r = "junk 22 @ descriptor"
  have l: "length (junk 22) = 22" using assms(3) by (simp add: alloc_length)
  have h: "packHeaderAndDescriptor junk False descriptor (length plain) [] 0 =
      Inr (header_bytes False (length descriptor) (length plain) 0 @ descriptor)"
    using l packHeader_bytes [of ?r False "length descriptor" "length plain"]
    by (simp add: packHeaderAndDescriptor_def resize_to_def Let_def HEADER_SIZE_def)
  have c: "pack_chunks A ds cc (maxPlainChunkSize cc 0) 0 plain (header_bytes False (length descriptor) (length plain) 0 @ descriptor) =
      Inr ((header_bytes False (length descriptor) (length plain) 0 @ descriptor) @ encode_chunks A ds cc 0 plain)"
    by (rule pack_chunks_encode) (use assms(4) in simp)
  have "\<not> cc_streaming cc" using assms(2) by (simp add: container_ok_def)
  then show ?thesis
    using h c setCiphertextSize_bytes [of "length (encode_chunks A ds cc 0 plain)" False "length descriptor" "length plain"
        "descriptor @ encode_chunks A ds cc 0 plain"]
    by (simp add: container_pack_def)
qed

lemma first_sizes:
  assumes "container_ok A cc" and "cipher + ae_extra A + 4 < 2 ^ 32 \<or> cc_chunkMaxSize cc \<noteq> 0 \<or> cc_firstChunkMaxSize cc \<noteq> 0"
  shows "maxPackedChunkSizeIn A cc 0 (w32 cipher) =
      Some (if maxPlainChunkSize cc 0 = 0 then cipher + ae_extra A + 4 else maxPlainChunkSize cc 0 + ae_extra A + 4)"
    and "\<exists>M. maxPackedChunkSizeIn A cc 1 (w32 cipher) = Some M
      \<and> (cc_chunkMaxSize cc \<noteq> 0 \<longrightarrow> M = cc_chunkMaxSize cc + ae_extra A + 4)
      \<and> (cc_chunkMaxSize cc = 0 \<and> cc_firstChunkMaxSize cc \<noteq> 0 \<longrightarrow> M = cc_firstChunkMaxSize cc + 2 * (ae_extra A + 4))"
proof -
  have x: "packedExtraSize A = ae_extra A + 4" using assms(1) by (simp add: packedExtraSize_def container_ok_def)
  show "maxPackedChunkSizeIn A cc 0 (w32 cipher) =
      Some (if maxPlainChunkSize cc 0 = 0 then cipher + ae_extra A + 4 else maxPlainChunkSize cc 0 + ae_extra A + 4)"
    using assms x
    by (auto simp: maxPackedChunkSizeIn_def maxPackedChunkSize_def maxPackedFirstSize_def maxPlainChunkSize_def
        container_ok_def Let_def ac_simps)
  show "\<exists>M. maxPackedChunkSizeIn A cc 1 (w32 cipher) = Some M
      \<and> (cc_chunkMaxSize cc \<noteq> 0 \<longrightarrow> M = cc_chunkMaxSize cc + ae_extra A + 4)
      \<and> (cc_chunkMaxSize cc = 0 \<and> cc_firstChunkMaxSize cc \<noteq> 0 \<longrightarrow> M = cc_firstChunkMaxSize cc + 2 * (ae_extra A + 4))"
    using assms x
    by (auto simp: maxPackedChunkSizeIn_def maxPackedChunkSize_def maxPackedFirstSize_def container_ok_def Let_def ac_simps)
qed

text \<open>Unpacking what follows the header is unpacking its chunks.\<close>

lemma unpack_whole:
  assumes "parse descriptor = Some cc" and "length descriptor < 2 ^ 16" and "length plain < 2 ^ 32"
    and "length plain \<le> length chunks" and "length chunks < 2 ^ 64" and "chunks \<noteq> []"
    and "maxPackedChunkSizeIn A cc 0 (w32 (length chunks)) = Some M0"
    and "maxPackedChunkSizeIn A cc 1 (w32 (length chunks)) = Some M1"
  shows "container_unpack A parse False
      (header_bytes False (length descriptor) (length plain) (length chunks) @ descriptor @ chunks) result =
    Some (and_then (unpack_chunks A M0 M1 0 chunks result) (\<lambda>p.
      if length p - length result \<noteq> length plain then Inl INVALID_SIZE else Inr p))"
  using assms
  by (simp add: container_unpack_def unpackHeader_bytes HEADER_SIZE_def)

text \<open>The chunks of a plaintext unpack to it.\<close>

lemma unpack_encoded:
  assumes A: "aead_ok A" and cc: "container_ok A cc"
    and d: "parse descriptor = Some cc" "length descriptor < 2 ^ 16"
    and len: "length plain + 2 * (ae_extra A + 4) < 2 ^ 32"
    and second: "cc_chunkMaxSize cc = 0 \<and> cc_firstChunkMaxSize cc \<noteq> 0 \<longrightarrow>
      length plain \<le> 2 * cc_firstChunkMaxSize cc + ae_extra A + 4"
  shows "container_unpack A parse False
      (header_bytes False (length descriptor) (length plain) (length (encode_chunks A ds cc 0 plain))
        @ descriptor @ encode_chunks A ds cc 0 plain) [] = Some (Inr plain)"
proof -
  let ?chunks = "encode_chunks A ds cc 0 plain" and ?m = "maxPlainChunkSize cc 0" and ?X = "ae_extra A + 4"
  have le: "length plain \<le> length ?chunks" "length ?chunks \<le> length plain + (length plain + 1) * ?X"
    using length_encode [OF A] by auto
  have "(length plain + 1) * ?X \<le> 2 ^ 32 * 2 ^ 31" using len by (intro mult_le_mono) auto
  then have big: "length ?chunks < 2 ^ 64" using le(2) len by simp
  have single: "length ?chunks = length plain + ?X" if "?m = 0"
    using that by (simp add: encode_chunks.simps [of A ds cc 0] length_packed [OF A])
  have zero: "?m = 0 \<longleftrightarrow> cc_chunkMaxSize cc = 0 \<and> cc_firstChunkMaxSize cc = 0" by (simp add: maxPlainChunkSize_def)
  have pre: "length ?chunks + ae_extra A + 4 < 2 ^ 32 \<or> cc_chunkMaxSize cc \<noteq> 0 \<or> cc_firstChunkMaxSize cc \<noteq> 0"
    using single zero len by auto
  define M0 where "M0 = (if ?m = 0 then length ?chunks + ae_extra A + 4 else ?m + ae_extra A + 4)"
  have M0: "maxPackedChunkSizeIn A cc 0 (w32 (length ?chunks)) = Some M0"
    unfolding M0_def by (rule first_sizes(1) [OF cc pre])
  obtain M1 where M1: "maxPackedChunkSizeIn A cc 1 (w32 (length ?chunks)) = Some M1"
      "cc_chunkMaxSize cc \<noteq> 0 \<longrightarrow> M1 = cc_chunkMaxSize cc + ae_extra A + 4"
      "cc_chunkMaxSize cc = 0 \<and> cc_firstChunkMaxSize cc \<noteq> 0 \<longrightarrow> M1 = cc_firstChunkMaxSize cc + 2 * ?X"
    using first_sizes(2) [OF cc pre] by blast
  have chunks: "unpack_chunks A M0 M1 0 ?chunks [] = Inr plain"
  proof (cases "?m \<noteq> 0 \<and> ?m < length plain")
    case True
    let ?rest = "drop ?m plain"
    have cut0: "cuts A ?m M0 (length ?rest)" using True by (simp add: cuts_def M0_def)
    have cut1: "cuts A (cc_chunkMaxSize cc) M1 (length ?rest)"
      using M1(2,3) zero True second by (auto simp: cuts_def maxPlainChunkSize_def)
    have eq: "?chunks = packed A (ds 0) 0 (take ?m plain) @ encode_chunks A ds cc 1 ?rest"
      using True by (simp add: encode_chunks.simps [of A ds cc 0] Let_def)
    have "1 + length ?rest + ae_extra A < 2 ^ 32" using len True by simp
    from unpack_tail [OF A cut1 _ this] have tail: "unpack_chunks A M1 M1 1 (encode_chunks A ds cc 1 ?rest) (take ?m plain) = Inr plain"
      by simp
    have "?m + ae_extra A < 2 ^ 32" "length (take ?m plain) = ?m" using len True by auto
    then show ?thesis
      unfolding eq using unpack_full [OF A _ cut0 _ encode_chunks_nonempty [OF A], of "take ?m plain" M1 0 "ds 0" ds cc 1 ?rest "[]"]
        True tail by (simp add: w32_def)
  next
    case False
    then have "?chunks = packed A (ds 0) 0 plain" by (auto simp: encode_chunks.simps [of A ds cc 0] Let_def)
    moreover have "cuts A ?m M0 (length plain)" using single by (auto simp: cuts_def M0_def)
    ultimately show ?thesis using unpack_last [OF A, of ?m M0 plain M1 0 "ds 0" "[]"] False len by auto
  qed
  have ne: "?chunks \<noteq> []" by (rule encode_chunks_nonempty [OF A])
  have "length plain < 2 ^ 32" using len by simp
  then show ?thesis
    using unpack_whole [of parse descriptor cc plain ?chunks A M0 M1 "[]"] d le(1) big ne M0 M1(1) chunks
    by simp
qed

subsection \<open>Properties\<close>

text \<open>A cipher for the examples: sixteen bytes before the text.\<close>

definition plain_aead :: aead where
  "plain_aead = \<lparr>ae_seal = (\<lambda>d info p. replicate 16 0 @ p), ae_open = (\<lambda>info c. Some (drop 16 c)), ae_extra = 16\<rparr>"

lemma plain_aead_ok: "aead_ok plain_aead"
  by (simp add: aead_ok_def plain_aead_def)

text \<open>The header of a container, with the mode, the sizes of descriptor, plaintext and ciphertext, is read
  back as it was written into the first bytes of any buffer.\<close>

theorem header_roundtrip:
  assumes "22 \<le> length h" and "dsize < 2 ^ 16" and "plain < 2 ^ 64" and "cipher < 2 ^ 64"
  shows "unpackHeader (setCiphertextSize cipher (packHeader streaming dsize plain h)) = Inr (plain, dsize, cipher, streaming)
    \<and> drop 22 (setCiphertextSize cipher (packHeader streaming dsize plain h)) = drop 22 h"
  unfolding packHeader_bytes [OF assms(1)] setCiphertextSize_bytes
  by (simp add: unpackHeader_bytes [OF assms(2-4)])

theorem header_roundtrip_witness:
  "unpackHeader (setCiphertextSize 40 (packHeader True 5 7 (replicate 30 9))) = Inr (7, 5, 40, True)
    \<and> drop 22 (setCiphertextSize 40 (packHeader True 5 7 (replicate 30 9))) = drop 22 (replicate 30 9)"
  by (rule header_roundtrip) simp_all


definition example_container :: container where
  "example_container = \<lparr>cc_chunkMaxSize = 4, cc_firstChunkMaxSize = 2, cc_streaming = False\<rparr>"


text \<open>With a limit for the first chunk and none for the others, a plaintext beyond that bound is packed without
  an error into a container that can not be unpacked: the reader cuts the second chunk short.\<close>

theorem container_unlimited_chunk_lost:
  assumes A: "aead_ok A" and cc: "container_ok A cc" and J: "alloc_ok junk"
    and d: "parse descriptor = Some cc" "length descriptor < 2 ^ 16"
    and len: "length plain + 2 * (ae_extra A + 4) < 2 ^ 32"
    and "cc_chunkMaxSize cc = 0" and "cc_firstChunkMaxSize cc \<noteq> 0"
    and long: "2 * cc_firstChunkMaxSize cc + ae_extra A + 4 < length plain"
  shows "\<exists>c. container_pack A ds junk cc descriptor plain [] = Inr c
    \<and> container_unpack A parse False c [] = Some (Inl INVALID_SIZE)"
proof -
  let ?chunks = "encode_chunks A ds cc 0 plain" and ?F = "cc_firstChunkMaxSize cc" and ?X = "ae_extra A + 4"
  let ?rest = "drop ?F plain"
  have m: "maxPlainChunkSize cc 0 = ?F" "maxPlainChunkSize cc 1 = 0" using assms(7,8) by (simp_all add: maxPlainChunkSize_def)
  have le: "length plain \<le> length ?chunks" using length_encode [OF A] by auto
  have eq: "?chunks = packed A (ds 0) 0 (take ?F plain) @ packed A (ds 1) 1 ?rest"
    using assms(8) long m by (simp add: encode_chunks.simps [of A ds cc 0] encode_chunks.simps [of A ds cc "Suc 0"] Let_def)
  then have big: "length ?chunks < 2 ^ 64" using len long by (simp add: length_packed [OF A])
  have M0: "maxPackedChunkSizeIn A cc 0 (w32 (length ?chunks)) = Some (?F + ae_extra A + 4)"
    using first_sizes(1) [OF cc, of "length ?chunks"] assms(8) m by simp
  have M1: "maxPackedChunkSizeIn A cc 1 (w32 (length ?chunks)) = Some (?F + 2 * ?X)"
    using first_sizes(2) [OF cc, of "length ?chunks"] assms(7,8) by auto
  let ?M = "?F + 2 * ?X" and ?p = "packed A (ds 1) 1 ?rest"
  have lp: "length ?p = length plain - ?F + ?X" by (simp add: length_packed [OF A])
  have s4: "take 4 (take ?M ?p) = le_bytes 4 (length ?rest + ae_extra A)"
    by (simp add: packed_def Let_def aead_length [OF A])
  have nat: "le_nat (take 4 (take ?M ?p)) = length ?rest + ae_extra A"
    unfolding s4 using len by (simp add: le_nat_bytes)
  have short: "length (drop 4 (take ?M ?p)) < length ?rest + ae_extra A" and four: "4 \<le> length (take ?M ?p)"
    using lp long by auto
  have "unpackChunk A 1 (take ?M ?p) (take ?F plain) = Inl INVALID_SIZE"
    unfolding unpackChunk_def Let_def nat using short four by auto
  then have second: "unpack_chunks A ?M ?M 1 ?p (take ?F plain) = Inl INVALID_SIZE"
    by (rule unpack_error) (use lp long in auto)
  have chunks: "unpack_chunks A (?F + ae_extra A + 4) ?M 0 ?chunks [] = Inl INVALID_SIZE"
  proof -
    have "cuts A ?F (?F + ae_extra A + 4) 0" "length (take ?F plain) = ?F" "?p \<noteq> []" "?F + ae_extra A < 2 ^ 32"
      using assms(8) long lp len by (auto simp: cuts_def)
    then show ?thesis
      unfolding eq using unpack_full [OF A assms(8), of _ 0 "take ?F plain" ?p ?M 0 "ds 0" "[]"] second
      by (simp add: w32_def)
  qed
  have ne: "?chunks \<noteq> []" by (rule encode_chunks_nonempty [OF A])
  have "length plain < 2 ^ 32" using len by simp
  then show ?thesis
    using pack_whole [OF A cc J, of plain ds descriptor]
      unpack_whole [of parse descriptor cc plain ?chunks A "?F + ae_extra A + 4" "?F + 2 * ?X" "[]"] d le big ne M0 M1 chunks
    by simp
qed

theorem container_unlimited_chunk_lost_witness:
  "\<exists>c. container_pack plain_aead id (\<lambda>n. replicate n 0) \<lparr>cc_chunkMaxSize = 0, cc_firstChunkMaxSize = 2, cc_streaming = False\<rparr>
      [9] (replicate 25 7) [] = Inr c
    \<and> container_unpack plain_aead (\<lambda>d. Some \<lparr>cc_chunkMaxSize = 0, cc_firstChunkMaxSize = 2, cc_streaming = False\<rparr>) False c []
      = Some (Inl INVALID_SIZE)"
  by (rule container_unlimited_chunk_lost [OF plain_aead_ok _ zero_alloc_ok])
    (simp_all add: container_ok_def plain_aead_def)

text \<open>Packing behind what a buffer already holds writes the header over the start of the buffer, and leaves
  uninitialised the bytes where it belongs, up to the size of the ciphertext.\<close>

theorem container_pack_overwrites:
  assumes "aead_ok A" and "container_ok A cc" and "alloc_ok junk" and "length plain < 2 ^ 32" and "22 \<le> length result"
  shows "\<exists>c. container_pack A ds junk cc descriptor plain result = Inr c
    \<and> take 22 c = header_bytes False (length descriptor) (length plain) 0
    \<and> take 14 (drop (length result) c) = take 14 (junk 22)"
proof -
  let ?h = "header_bytes False (length descriptor) (length plain) 0"
  let ?r = "result @ junk 22 @ descriptor" and ?e = "encode_chunks A ds cc 0 plain"
  have l: "length (junk 22) = 22" using assms(3) by (simp add: alloc_length)
  have h: "packHeaderAndDescriptor junk False descriptor (length plain) result (length result) = Inr (?h @ drop 22 ?r)"
    using l packHeader_bytes [of ?r False "length descriptor" "length plain"] assms(5)
    by (simp add: packHeaderAndDescriptor_def resize_to_def Let_def HEADER_SIZE_def)
  have c: "pack_chunks A ds cc (maxPlainChunkSize cc 0) 0 plain (?h @ drop 22 ?r) = Inr ((?h @ drop 22 ?r) @ ?e)"
    by (rule pack_chunks_encode) (use assms(4) in simp)
  let ?c = "?h @ drop 22 ?r @ ?e"
  have d: "drop (length result) ?c = junk 22 @ descriptor @ ?e" using assms(5) by simp
  obtain n where "container_pack A ds junk cc descriptor plain result =
      Inr (take (length result) ?c @ setCiphertextSize n (drop (length result) ?c))"
    using h c assms(2) by (auto simp: container_pack_def container_ok_def Let_def)
  moreover have "take 14 (setCiphertextSize n (junk 22 @ tail)) = take 14 (junk 22)" for n tail
    using l by (simp add: setCiphertextSize_def overlay_def header_consts)
  moreover have "take 22 (take (length result) ?c @ x) = ?h" for x using assms(5) by simp
  moreover have "length (take (length result) ?c) = length result" using l assms(5) by simp
  ultimately show ?thesis unfolding d by auto
qed

theorem container_pack_overwrites_witness:
  "\<exists>c. container_pack plain_aead id (\<lambda>n. replicate n 0) example_container [9] [1, 2, 3] (replicate 30 7) = Inr c
    \<and> take 3 c = PREFIX"
proof -
  have "container_ok plain_aead example_container" by (simp add: container_ok_def example_container_def plain_aead_def)
  moreover have "length [1, 2, 3 :: byte] < 2 ^ 32" "22 \<le> length (replicate 30 (7 :: byte))" by simp_all
  ultimately have "\<exists>c. container_pack plain_aead id (\<lambda>n. replicate n 0) example_container [9] [1, 2, 3] (replicate 30 7) = Inr c
    \<and> take 22 c = header_bytes False (length [9 :: byte]) (length [1, 2, 3 :: byte]) 0
    \<and> take 14 (drop (length (replicate 30 (7 :: byte))) c) = take 14 (replicate 22 0)"
    by (intro container_pack_overwrites [OF plain_aead_ok _ zero_alloc_ok])
  then
  obtain c where c: "container_pack plain_aead id (\<lambda>n. replicate n 0) example_container [9] [1, 2, 3] (replicate 30 7) = Inr c"
      "take 22 c = header_bytes False (length [9 :: byte]) (length [1, 2, 3 :: byte]) 0" by blast
  have "take 3 c = take 3 (take 22 c)" by simp
  then show ?thesis using c by (simp add: header_bytes_def header_consts)
qed

end
