(* ===== verification/CryptFile.thy ===== *)
theory CryptFile
  imports CryptContainer CacheLru
begin

section \<open>Encrypted files: crypt/cryptfile.h, crypt/src/cryptfile.cpp\<close>

text \<open>
  A file of chunks under a cursor. The raw file is the list of its bytes with a position; calls of the file
  system succeed, \<open>cf_raw\<close> being \<open>None\<close> while no file has the name. The cipher is the record \<open>aead\<close> of the
  containers; \<open>cf_draws\<close> counts the chunks sealed so far and stands for the IV of the next one. The cache
  of chunks is the recency list that \<open>CacheLru\<close> is proved to implement, the least recent item in front.
  \<open>m_currentChunk\<close> is a reference; one into the cache that names no item there is dangling. An operation
  maps the state to a result or an error and the new state; \<open>None\<close> is undefined behaviour, a failed
  assertion or a loop that does not end. Containers in the mode of streams are not modelled, nor is what
  a failed decryption leaves in the buffer of its chunk: there the chunk keeps its content.
\<close>

subsection \<open>Positions and chunks\<close>

definition posToSeqnum :: "container \<Rightarrow> nat \<Rightarrow> nat" where
  "posToSeqnum cc pos =
     (let chunkSize = cc_chunkMaxSize cc;
          first = (if cc_firstChunkMaxSize cc = 0 then chunkSize else cc_firstChunkMaxSize cc)
      in if pos < first \<or> first = 0 then 0
         else if pos = first \<or> chunkSize = 0 then 1
         else w32 (1 + w32 ((pos - first) div chunkSize)))"

definition seqnumToPos :: "container \<Rightarrow> nat \<Rightarrow> nat" where
  "seqnumToPos cc seqnum =
     (if seqnum = 0 then 0
      else w32 (maxPlainChunkSize cc 0 + (seqnum - 1) * maxPlainChunkSize cc seqnum))"

definition seqnumToRawPos :: "aead \<Rightarrow> container \<Rightarrow> nat \<Rightarrow> nat \<Rightarrow> nat option" where
  "seqnumToRawPos A cc dataOffset seqnum =
     (if seqnum = 0 then Some dataOffset
      else do {
        first \<leftarrow> maxPackedChunkSize A cc 0;
        other \<leftarrow> maxPackedChunkSize A cc seqnum;
        Some (w64 (w32 (first + (seqnum - 1) * other) + dataOffset)) })"

definition chunkBeginForPos :: "container \<Rightarrow> nat \<Rightarrow> nat" where
  "chunkBeginForPos cc pos =
     (let seqnum = posToSeqnum cc pos
      in if seqnum = 0 then 0
         else w32 (maxPlainChunkSize cc 0 + (seqnum - 1) * maxPlainChunkSize cc 1))"

definition chunkOffsetForPos :: "container \<Rightarrow> nat \<Rightarrow> nat" where
  "chunkOffsetForPos cc pos = sub64 pos (chunkBeginForPos cc pos)"

subsection \<open>The state\<close>

datatype file_mode =
  Mode_read | Mode_scan | Mode_write | Mode_write_new | Mode_write_existing | Mode_append | Mode_append_existing

record chunk =
  ck_seqnum :: nat
  ck_dirty :: bool
  ck_offset :: nat
  ck_maxSize :: nat
  ck_ciphertextSize :: nat
  ck_content :: "byte list"

definition Chunk :: "nat \<Rightarrow> chunk" where
  "Chunk seqnum = \<lparr>ck_seqnum = seqnum, ck_dirty = False, ck_offset = 0, ck_maxSize = 0, ck_ciphertextSize = 0, ck_content = []\<rparr>"

definition chunk_reset :: "nat \<Rightarrow> chunk \<Rightarrow> chunk" where
  "chunk_reset seqnum c =
     c\<lparr>ck_seqnum := seqnum, ck_dirty := False, ck_offset := 0, ck_ciphertextSize := 0, ck_content := []\<rparr>"

datatype chunk_ref = Null | Cached nat | Single

record crypt_file =
  cf_cc :: container
  cf_cursor :: nat
  cf_seekCursor :: nat
  cf_mode :: file_mode
  cf_single :: chunk
  cf_current :: chunk_ref
  cf_cache :: "(nat \<times> chunk) list"
  cf_capacity :: nat
  cf_raw :: "byte list option"
  cf_raw_pos :: nat
  cf_isOpen :: bool
  cf_dataOffset :: nat
  cf_size :: nat
  cf_ciphertextSize :: nat
  cf_sizeDirty :: bool
  cf_eofSeqnum :: nat
  cf_maxProcessingSize :: nat
  cf_enableCache :: bool
  cf_draws :: nat
  cf_junk :: "nat \<Rightarrow> byte list"

definition CryptFile_new :: "container \<Rightarrow> byte list option \<Rightarrow> (nat \<Rightarrow> byte list) \<Rightarrow> crypt_file" where
  "CryptFile_new cc raw junk =
     \<lparr>cf_cc = cc, cf_cursor = 0, cf_seekCursor = 0, cf_mode = Mode_scan, cf_single = Chunk 0, cf_current = Null,
      cf_cache = [], cf_capacity = 8, cf_raw = raw, cf_raw_pos = 0, cf_isOpen = False, cf_dataOffset = 0, cf_size = 0,
      cf_ciphertextSize = 0, cf_sizeDirty = False, cf_eofSeqnum = 0, cf_maxProcessingSize = 0x100000,
      cf_enableCache = True, cf_draws = 0, cf_junk = junk\<rparr>"

definition isWriteMode :: "crypt_file \<Rightarrow> bool" where
  "isWriteMode s \<longleftrightarrow> \<not> (cf_mode s = Mode_read \<or> cf_mode s = Mode_scan)"

definition isAppend :: "crypt_file \<Rightarrow> bool" where
  "isAppend s \<longleftrightarrow> cf_mode s = Mode_append \<or> cf_mode s = Mode_append_existing"

definition useCache :: "crypt_file \<Rightarrow> bool" where
  "useCache s \<longleftrightarrow> cf_enableCache s \<and> \<not> cc_streaming (cf_cc s)
     \<and> \<not> (cf_mode s = Mode_scan \<or> cf_mode s = Mode_append \<or> cf_mode s = Mode_append_existing)"

definition isNewFile :: "crypt_file \<Rightarrow> bool" where
  "isNewFile s \<longleftrightarrow> cf_mode s = Mode_write_new \<or> cf_mode s = Mode_write \<or> (cf_mode s = Mode_append \<and> cf_raw s = None)"

definition eofPos :: "crypt_file \<Rightarrow> nat" where
  "eofPos s = w64 (cf_ciphertextSize s + cf_dataOffset s)"

definition isLastChunk :: "crypt_file \<Rightarrow> chunk \<Rightarrow> bool" where
  "isLastChunk s c \<longleftrightarrow> ck_seqnum c = cf_eofSeqnum s"

definition deref :: "crypt_file \<Rightarrow> chunk_ref \<Rightarrow> chunk option" where
  "deref s r = (case r of Null \<Rightarrow> None | Cached n \<Rightarrow> map_of (cf_cache s) n | Single \<Rightarrow> Some (cf_single s))"

definition assign :: "chunk_ref \<Rightarrow> chunk \<Rightarrow> crypt_file \<Rightarrow> crypt_file" where
  "assign r c s =
     (case r of Null \<Rightarrow> s
      | Cached n \<Rightarrow> s\<lparr>cf_cache := List.map (\<lambda>(k, old). (k, if k = n then c else old)) (cf_cache s)\<rparr>
      | Single \<Rightarrow> s\<lparr>cf_single := c\<rparr>)"

subsection \<open>Operations in sequence\<close>

type_synonym 'a file_op = "crypt_file \<Rightarrow> ((crypt_error + 'a) \<times> crypt_file) option"

definition done_with :: "'a \<Rightarrow> 'a file_op" where "done_with x s = Some (Inr x, s)"

definition fail_with :: "crypt_error \<Rightarrow> 'a file_op" where "fail_with e s = Some (Inl e, s)"

text \<open>\<open>HATN_CHECK_RETURN\<close>, \<open>HATN_CHECK_THROW\<close>\<close>

definition chk :: "'a file_op \<Rightarrow> ('a \<Rightarrow> 'b file_op) \<Rightarrow> 'b file_op" where
  "chk m f s = (case m s of None \<Rightarrow> None | Some (Inl e, s') \<Rightarrow> Some (Inl e, s') | Some (Inr x, s') \<Rightarrow> f x s')"

definition with_chunk :: "chunk_ref \<Rightarrow> (chunk \<Rightarrow> 'a file_op) \<Rightarrow> 'a file_op" where
  "with_chunk r f s = (case deref s r of None \<Rightarrow> None | Some c \<Rightarrow> f c s)"

definition raw_bytes :: "crypt_file \<Rightarrow> byte list" where
  "raw_bytes s = (case cf_raw s of None \<Rightarrow> [] | Some r \<Rightarrow> r)"

definition raw_seek :: "nat \<Rightarrow> crypt_file \<Rightarrow> crypt_file" where
  "raw_seek p s = s\<lparr>cf_raw_pos := p\<rparr>"

definition raw_peek :: "nat \<Rightarrow> crypt_file \<Rightarrow> byte list" where
  "raw_peek n s = take n (drop (cf_raw_pos s) (raw_bytes s))"

definition raw_skip :: "nat \<Rightarrow> crypt_file \<Rightarrow> crypt_file" where
  "raw_skip n s = s\<lparr>cf_raw_pos := cf_raw_pos s + length (raw_peek n s)\<rparr>"

definition raw_put :: "nat \<Rightarrow> byte list \<Rightarrow> byte list \<Rightarrow> byte list" where
  "raw_put p data r = take p r @ replicate (p - length r) 0 @ data @ drop (p + length data) r"

definition raw_write :: "byte list \<Rightarrow> crypt_file \<Rightarrow> crypt_file" where
  "raw_write data s =
     s\<lparr>cf_raw := Some (raw_put (cf_raw_pos s) data (raw_bytes s)), cf_raw_pos := cf_raw_pos s + length data\<rparr>"

subsection \<open>Reading and writing chunks of the raw file\<close>

text \<open>The size of a chunk that begins at \<open>pos\<close>, not beyond the end of the ciphertext.\<close>

definition clip_size :: "nat \<Rightarrow> nat \<Rightarrow> nat \<Rightarrow> nat" where
  "clip_size eof pos chunkSize = (if w64 (pos + chunkSize) > eof then w32 (eof - pos) else chunkSize)"

definition seekReadRawChunk :: "aead \<Rightarrow> chunk_ref \<Rightarrow> bool \<Rightarrow> nat \<Rightarrow> unit file_op" where
  "seekReadRawChunk A r readIt overwriteSize = with_chunk r (\<lambda>c s.
     if length (raw_bytes s) < eofPos s then fail_with INVALID_SIZE s
     else do {
       chunkRawPos \<leftarrow> seqnumToRawPos A (cf_cc s) (cf_dataOffset s) (ck_seqnum c);
       if chunkRawPos > eofPos s then fail_with INVALID_SEEK s
       else if \<not> readIt then done_with () (raw_seek chunkRawPos s)
       else do {
         greatest \<leftarrow> maxPackedChunkSizeIn A (cf_cc s) (ck_seqnum c) (w32 (cf_ciphertextSize s));
         let s = raw_seek chunkRawPos s;
         let chunkSize = clip_size (eofPos s) chunkRawPos greatest;
         if chunkSize = 0 then done_with () s
         else if overwriteSize = 0
         then (let input = raw_peek chunkSize s; s = raw_skip chunkSize s
               in if length input \<noteq> chunkSize then fail_with FILE_READ_FAILED s
                  else case unpackChunk A (ck_seqnum c) input (ck_content c) of
                    Inl e \<Rightarrow> fail_with e s
                  | Inr content \<Rightarrow> done_with () (assign r (c\<lparr>ck_content := content, ck_ciphertextSize := chunkSize\<rparr>) s))
         else done_with () (assign r (c\<lparr>ck_content := [], ck_ciphertextSize := chunkSize\<rparr>) s) } })"

definition writeSize :: "unit file_op" where
  "writeSize s =
     (if cf_sizeDirty s \<and> \<not> cc_streaming (cf_cc s)
      then (let s = raw_write (le_bytes 8 (cf_size s)) (raw_seek PLAINTEXT_SIZE_OFFSET s);
                s = raw_write (le_bytes 8 (cf_ciphertextSize s)) (raw_seek CIPHERTEXT_SIZE_OFFSET s)
            in done_with () (s\<lparr>cf_sizeDirty := False\<rparr>))
      else done_with () s)"

definition flushChunk :: "aead \<Rightarrow> chunk_ref \<Rightarrow> bool \<Rightarrow> unit file_op" where
  "flushChunk A r withSize = with_chunk r (\<lambda>c s.
     case packChunk A (cf_cc s) (ck_seqnum c) (cf_draws s) (ck_content c) [] 0 of
       Inl e \<Rightarrow> fail_with e s
     | Inr writeBuffer \<Rightarrow>
         chk (\<lambda>s. if writeBuffer = [] then done_with () s
                  else chk (seekReadRawChunk A r False 0) (\<lambda>_ s.
                    let packedSize = length writeBuffer;
                        s = raw_write writeBuffer s
                    in done_with ()
                         (assign r (c\<lparr>ck_ciphertextSize := packedSize\<rparr>)
                           (s\<lparr>cf_ciphertextSize := w64 (cf_ciphertextSize s + sub64 packedSize (ck_ciphertextSize c))\<rparr>))) s)
           (\<lambda>_. with_chunk r (\<lambda>c s.
             let s = assign r (c\<lparr>ck_dirty := False\<rparr>) s
             in if withSize then writeSize s else done_with () s))
           (s\<lparr>cf_draws := cf_draws s + 1\<rparr>))"

definition flushLastChunk :: "aead \<Rightarrow> unit file_op" where
  "flushLastChunk A s =
     (if cf_current s = Null then done_with () s
      else with_chunk (cf_current s) (\<lambda>c s.
        if ck_dirty c \<and> isLastChunk s c then flushChunk A (cf_current s) False s else done_with () s) s)"

text \<open>The handler of \<open>doFlush\<close>, on each cached chunk in the order of their keys.\<close>

definition flush_dirty :: "aead \<Rightarrow> chunk_ref \<Rightarrow> unit file_op" where
  "flush_dirty A r = with_chunk r (\<lambda>c s. if ck_dirty c then flushChunk A r False s else done_with () s)"

fun flush_each :: "aead \<Rightarrow> nat list \<Rightarrow> unit file_op" where
  "flush_each A [] s = done_with () s"
| "flush_each A (k # ks) s = chk (flush_dirty A (Cached k)) (\<lambda>_. flush_each A ks) s"

definition doFlush :: "aead \<Rightarrow> unit file_op" where
  "doFlush A s =
     (if \<not> cf_isOpen s \<or> \<not> isWriteMode s then done_with () s
      else chk (\<lambda>s. if cf_cache s = []
                    then (if cf_current s \<noteq> Null then flush_dirty A (cf_current s) s else done_with () s)
                    else flush_each A (sort (List.map fst (cf_cache s))) s)
             (\<lambda>_. writeSize) s)"

definition reset_state :: "crypt_file \<Rightarrow> crypt_file" where
  "reset_state s =
     s\<lparr>cf_isOpen := False, cf_cache := [], cf_current := Null, cf_single := chunk_reset 0 (cf_single s), cf_size := 0,
       cf_dataOffset := 0, cf_mode := Mode_scan, cf_cursor := 0, cf_ciphertextSize := 0, cf_eofSeqnum := 0,
       cf_seekCursor := 0\<rparr>"

definition doClose :: "aead \<Rightarrow> bool \<Rightarrow> unit file_op" where
  "doClose A flush s =
     (case (if cf_isOpen s \<and> flush then doFlush A s else done_with () s) of
        None \<Rightarrow> None
      | Some (ec, s') \<Rightarrow> Some (ec, reset_state s'))"

subsection \<open>Seeking\<close>

text \<open>The state with the chunk that will be current, and whether it has to be read.\<close>

definition next_chunk :: "aead \<Rightarrow> nat \<Rightarrow> bool \<Rightarrow> (chunk_ref \<times> bool) file_op" where
  "next_chunk A seqnum withCache s =
     (if withCache \<and> useCache s then
        (if map_of (cf_cache s) seqnum \<noteq> None
         then done_with (Cached seqnum, False) (s\<lparr>cf_cache := spec_touch (cf_cache s) seqnum\<rparr>)
         else chk (\<lambda>s. if cf_capacity s \<noteq> 0 \<and> cf_cache s \<noteq> [] \<and> length (cf_cache s) = cf_capacity s
                       then flush_dirty A (Cached (fst (hd (cf_cache s)))) s else done_with () s)
                (\<lambda>_ s. done_with (Cached seqnum, True)
                          (s\<lparr>cf_cache := spec_emplace (cf_capacity s) (cf_cache s) seqnum (Chunk seqnum)\<rparr>)) s)
      else done_with (Single, True) (s\<lparr>cf_single := chunk_reset seqnum (cf_single s)\<rparr>))"

definition enter_chunk :: "aead \<Rightarrow> nat \<Rightarrow> nat \<Rightarrow> nat \<Rightarrow> chunk_ref \<times> bool \<Rightarrow> unit file_op" where
  "enter_chunk A pos seqnum overwriteSize next s =
     (let r = fst next
      in with_chunk r (\<lambda>c s.
           let c = c\<lparr>ck_maxSize := maxPlainChunkSize (cf_cc s) seqnum, ck_offset := chunkOffsetForPos (cf_cc s) pos\<rparr>;
               s = assign r c s;
               total = (if ck_offset c = 0 \<and> overwriteSize \<ge> ck_maxSize c then ck_maxSize c else 0)
           in chk (\<lambda>s. if snd next then seekReadRawChunk A r True total s else done_with () s)
                (\<lambda>_ s. done_with ()
                   (s\<lparr>cf_cursor := pos, cf_current := r, cf_eofSeqnum := max (cf_eofSeqnum s) seqnum\<rparr>)) s) s)"

definition doSeek :: "aead \<Rightarrow> nat \<Rightarrow> nat \<Rightarrow> bool \<Rightarrow> unit file_op" where
  "doSeek A pos overwriteSize withCache s =
     (if \<not> cf_isOpen s then fail_with FILE_NOT_OPEN s
      else if (if isAppend s then pos \<noteq> cf_size s else pos > cf_size s) then fail_with INVALID_SEEK s
      else
        let seqnum = posToSeqnum (cf_cc s) pos;
            move = chk (flushLastChunk A) (\<lambda>_ s.
              chk (next_chunk A seqnum withCache) (enter_chunk A pos seqnum overwriteSize) (s\<lparr>cf_current := Null\<rparr>))
        in if cf_current s = Null then move s
           else with_chunk (cf_current s) (\<lambda>c s.
             if ck_seqnum c = seqnum
             then done_with () (assign (cf_current s) (c\<lparr>ck_offset := chunkOffsetForPos (cf_cc s) pos\<rparr>) (s\<lparr>cf_cursor := pos\<rparr>))
             else move s) s)"

definition file_seek :: "aead \<Rightarrow> nat \<Rightarrow> unit file_op" where
  "file_seek A pos s =
     (if pos = cf_cursor s then done_with () s
      else let s = s\<lparr>cf_seekCursor := pos\<rparr>
           in if pos > cf_size s then done_with () s else doSeek A pos 0 True s)"

definition file_pos :: "crypt_file \<Rightarrow> nat" where
  "file_pos s = cf_seekCursor s"

subsection \<open>Reading\<close>

text \<open>What is left in the current chunk, from the offset on.\<close>

definition available :: "chunk \<Rightarrow> nat" where
  "available c = sub64 (length (ck_content c)) (ck_offset c)"

text \<open>One round of the loop of \<open>read\<close> after the end of file was checked: the bytes copied, none at its \<open>break\<close>;
  copying from behind the content is undefined.\<close>

definition copy_out :: "nat \<Rightarrow> byte list file_op" where
  "copy_out n s = with_chunk (cf_current s) (\<lambda>c s.
     if available c = 0 then done_with [] s
     else
       let readSize = min n (available c)
       in if ck_offset c + readSize > length (ck_content c) then None
          else done_with (take readSize (drop (ck_offset c) (ck_content c)))
                 (assign (cf_current s) (c\<lparr>ck_offset := ck_offset c + readSize\<rparr>)
                   (s\<lparr>cf_cursor := cf_cursor s + readSize\<rparr>))) s"

definition read_step :: "aead \<Rightarrow> nat \<Rightarrow> byte list file_op" where
  "read_step A n s = with_chunk (cf_current s) (\<lambda>c.
     chk (\<lambda>s. if available c = 0 then doSeek A (cf_cursor s) 0 True s else done_with () s) (\<lambda>_. copy_out n)) s"

function read_loop :: "aead \<Rightarrow> nat \<Rightarrow> byte list \<Rightarrow> byte list file_op" where
  "read_loop A n acc s =
     (if n = 0 \<or> cf_cursor s = cf_size s then done_with acc s
      else case read_step A n s of
        None \<Rightarrow> None
      | Some (Inl e, s') \<Rightarrow> Some (Inl e, s')
      | Some (Inr p, s') \<Rightarrow> if p = [] then done_with acc s' else read_loop A (n - length p) (acc @ p) s')"
  by auto
termination by (relation "measure (\<lambda>(A, n, acc, s). n)") auto

declare read_loop.simps [simp del]

definition file_read :: "aead \<Rightarrow> nat \<Rightarrow> byte list file_op" where
  "file_read A maxSize s =
     (if maxSize = 0 then done_with [] s
      else if cf_current s = Null then fail_with FILE_NOT_OPEN s
      else if isAppend s then fail_with FILE_READ_FAILED s
      else if cf_seekCursor s \<ge> cf_size s then done_with [] s
      else chk (read_loop A maxSize [])
             (\<lambda>p s. done_with p (s\<lparr>cf_seekCursor := cf_seekCursor s + length p\<rparr>)) s)"

subsection \<open>Writing\<close>

definition move_on :: "aead \<Rightarrow> nat \<Rightarrow> unit file_op" where
  "move_on A left s = with_chunk (cf_current s) (\<lambda>c s.
     if ck_maxSize c = 0 \<or> sub64 (ck_maxSize c) (ck_offset c) \<noteq> 0 then done_with () s
     else chk (doSeek A (seqnumToPos (cf_cc s) (w32 (ck_seqnum c + 1))) left True) (\<lambda>_ s.
            with_chunk (cf_current s) (\<lambda>c s.
              if sub64 (ck_maxSize c) (ck_offset c) = 0 then None else done_with () s) s) s) s"

definition copy_in :: "byte list \<Rightarrow> nat file_op" where
  "copy_in data s = with_chunk (cf_current s) (\<lambda>c s.
     let avail = sub64 (ck_maxSize c) (ck_offset c);
         writeSize = (if ck_maxSize c \<noteq> 0 \<and> length data > avail then avail else length data);
         oldChunkSize = length (ck_content c);
         newChunkSize = w64 (ck_offset c + writeSize);
         content = (if oldChunkSize < newChunkSize then resize_to (cf_junk s) newChunkSize (ck_content c) else ck_content c)
     in if ck_offset c + writeSize > length content then None
        else
          let s = (if isLastChunk s c \<and> newChunkSize > oldChunkSize
                   then s\<lparr>cf_size := cf_size s + (newChunkSize - oldChunkSize), cf_sizeDirty := True\<rparr> else s)
          in done_with writeSize
               (assign (cf_current s)
                 (c\<lparr>ck_content := overlay (ck_offset c) (take writeSize data) content,
                    ck_offset := ck_offset c + writeSize, ck_dirty := True\<rparr>)
                 (s\<lparr>cf_cursor := cf_cursor s + writeSize\<rparr>))) s"

function write_loop :: "aead \<Rightarrow> byte list \<Rightarrow> unit file_op" where
  "write_loop A data s =
     (if data = [] then done_with () s
      else case chk (move_on A (length data)) (\<lambda>_. copy_in data) s of
        None \<Rightarrow> None
      | Some (Inl e, s') \<Rightarrow> Some (Inl e, s')
      | Some (Inr n, s') \<Rightarrow> if n = 0 then None else write_loop A (drop n data) s')"
  by auto
termination by (relation "measure (\<lambda>(A, data, s). length data)") auto

declare write_loop.simps [simp del]

definition writeImpl :: "aead \<Rightarrow> byte list \<Rightarrow> nat file_op" where
  "writeImpl A data = chk (write_loop A data)
     (\<lambda>_ s. if cf_cursor s \<le> cf_size s then done_with (length data) s else None)"

text \<open>The zeros of \<open>truncateImpl\<close>, \<open>size\<close> bytes a time.\<close>

function append_zeros :: "aead \<Rightarrow> nat \<Rightarrow> nat \<Rightarrow> unit file_op" where
  "append_zeros A step left s =
     (if left = 0 then done_with () s
      else if step = 0 then None
      else case writeImpl A (replicate step 0) s of
        None \<Rightarrow> None
      | Some (Inl e, s') \<Rightarrow> Some (Inl e, s')
      | Some (Inr n, s') \<Rightarrow> append_zeros A (min step (left - step)) (left - step) s')"
  by auto
termination by (relation "measure (\<lambda>(A, step, left, s). left)") auto

declare append_zeros.simps [simp del]

definition truncate_grow :: "aead \<Rightarrow> nat \<Rightarrow> unit file_op" where
  "truncate_grow A newSize s =
     (let prevPos = cf_cursor s; appendSize = newSize - cf_size s
      in chk (doSeek A (cf_size s) 0 True) (\<lambda>_.
         chk (append_zeros A (min (cf_maxProcessingSize s) appendSize) appendSize) (\<lambda>_.
         doSeek A prevPos 0 True)) s)"

text \<open>The loop over the chunks that are cut off: sizes of plaintext, ciphertext and raw file.\<close>

partial_function (option) drop_chunks :: "aead \<Rightarrow> nat \<Rightarrow> nat \<Rightarrow> nat \<Rightarrow> crypt_file \<Rightarrow>
    ((crypt_error + nat \<times> nat \<times> nat) \<times> crypt_file) option" where
  "drop_chunks A newSize newCipherTextSize newRawFileSize s =
     (case deref s (cf_current s) of None \<Rightarrow> None | Some c \<Rightarrow>
        let plain = sub64 newSize (length (ck_content c));
            cipher = sub64 newCipherTextSize (ck_ciphertextSize c)
        in if newRawFileSize < ck_ciphertextSize c then Some (Inl INVALID_SIZE, s)
           else if isLastChunk s c then Some (Inr (plain, cipher, newRawFileSize - ck_ciphertextSize c), s)
           else case doSeek A (seqnumToPos (cf_cc s) (w32 (ck_seqnum c + 1))) 0 False s of
             None \<Rightarrow> None
           | Some (Inl e, s') \<Rightarrow> Some (Inl e, s')
           | Some (Inr _, s') \<Rightarrow> drop_chunks A plain cipher (newRawFileSize - ck_ciphertextSize c) s')"

declare drop_chunks.simps [code]

definition truncate_shrink :: "aead \<Rightarrow> nat \<Rightarrow> unit file_op" where
  "truncate_shrink A target s =
     (let newPos = min (cf_cursor s) target
      in chk (doFlush A) (\<lambda>_ s.
           let s = s\<lparr>cf_cache := [], cf_current := Null\<rparr>
           in if target = 0
              then chk writeSize (\<lambda>_. doSeek A 0 0 True) (s\<lparr>cf_size := 0, cf_ciphertextSize := 0, cf_sizeDirty := True\<rparr>)
              else
                let rawSize = min (length (raw_bytes s)) (eofPos s); lastCursor = cf_cursor s
                in case doSeek A target 0 False s of
                  None \<Rightarrow> None
                | Some (Inl e, s) \<Rightarrow> map_option (\<lambda>(_, s). (Inl e, s)) (doSeek A lastCursor 0 True s)
                | Some (Inr _, s) \<Rightarrow> with_chunk (cf_current s) (\<lambda>c s.
                    if ck_offset c > length (ck_content c) then None
                    else chk (drop_chunks A (cf_size s) (cf_ciphertextSize s) rawSize) (\<lambda>(newSize, cipher, newRaw) s.
                      chk writeSize (\<lambda>_ s.
                        let s = s\<lparr>cf_single := chunk_reset 0 (cf_single s), cf_current := Null,
                                  cf_raw := map_option (take newRaw) (cf_raw s)\<rparr>
                        in chk (doSeek A (cf_size s) 0 True) (\<lambda>_.
                           chk (\<lambda>s. if ck_offset c = 0 then done_with 0 s
                                    else writeImpl A (take (ck_offset c) (ck_content c)) s) (\<lambda>_ s.
                           if cf_size s \<noteq> target then fail_with ABORTED s else doSeek A newPos 0 True s)) s)
                        (s\<lparr>cf_sizeDirty := True, cf_size := newSize, cf_ciphertextSize := cipher, cf_eofSeqnum := ck_seqnum c\<rparr>)) s) s) s)"

text \<open>\<open>truncateImpl\<close> of an open file without a backup copy.\<close>

definition truncateImpl :: "aead \<Rightarrow> nat \<Rightarrow> unit file_op" where
  "truncateImpl A newSize s =
     (if newSize = cf_size s then done_with () s
      else if newSize > cf_size s then truncate_grow A newSize s
      else truncate_shrink A newSize s)"

text \<open>An \<open>Error\<close> returned as a \<open>size_t\<close> is the number one.\<close>

definition file_write :: "aead \<Rightarrow> byte list \<Rightarrow> nat file_op" where
  "file_write A data s =
     (if data = [] then done_with 0 s
      else if cf_current s = Null then fail_with FILE_NOT_OPEN s
      else if \<not> isWriteMode s then fail_with FILE_WRITE_FAILED s
      else case (if cf_seekCursor s > cf_size s
                 then (let newSize = cf_seekCursor s in chk (truncateImpl A newSize) (\<lambda>_. doSeek A newSize 0 True) s)
                 else done_with () s) of
        None \<Rightarrow> None
      | Some (Inl _, s') \<Rightarrow> Some (Inr 1, s')
      | Some (Inr _, s') \<Rightarrow>
          chk (writeImpl A data) (\<lambda>n s. done_with n (s\<lparr>cf_seekCursor := cf_seekCursor s + n\<rparr>)) s')"

definition invalidateCache :: "aead \<Rightarrow> unit file_op" where
  "invalidateCache A = chk (\<lambda>s. if isWriteMode s then doFlush A s else done_with () s) (\<lambda>_ s.
     let s = s\<lparr>cf_cache := []\<rparr>
     in if \<not> isAppend s then doSeek A (cf_cursor s) 0 True (s\<lparr>cf_current := Null\<rparr>) else done_with () s)"

subsection \<open>Opening\<close>

definition raw_open :: "file_mode \<Rightarrow> unit file_op" where
  "raw_open mode s =
     (case (mode, cf_raw s) of
        (Mode_write, _) \<Rightarrow> done_with () (s\<lparr>cf_raw := Some [], cf_raw_pos := 0, cf_isOpen := True\<rparr>)
      | (Mode_write_new, None) \<Rightarrow> done_with () (s\<lparr>cf_raw := Some [], cf_raw_pos := 0, cf_isOpen := True\<rparr>)
      | (Mode_write_new, Some _) \<Rightarrow> fail_with FILE_EXISTS s
      | (_, None) \<Rightarrow> fail_with FILE_NOT_FOUND s
      | (_, Some _) \<Rightarrow> done_with () (s\<lparr>cf_raw_pos := 0, cf_isOpen := True\<rparr>))"

text \<open>What is done with an existing file after its header and its descriptor are read.\<close>

definition open_data :: "aead \<Rightarrow> nat \<Rightarrow> nat \<Rightarrow> bool \<Rightarrow> unit file_op" where
  "open_data A plain cipher headerOnly s =
     (if length (raw_bytes s) - cf_dataOffset s < cipher then fail_with INVALID_CRYPTFILE_FORMAT s
      else
        let s = s\<lparr>cf_eofSeqnum := posToSeqnum (cf_cc s) plain\<rparr>
        in if headerOnly then done_with () s
           else if isAppend s then doSeek A plain 0 True s
           else doSeek A 0 0 True s)"

definition open_existing :: "aead \<Rightarrow> (byte list \<Rightarrow> container option) \<Rightarrow> bool \<Rightarrow> unit file_op" where
  "open_existing A parse headerOnly s =
     (let header = raw_peek HEADER_SIZE s; s = raw_skip HEADER_SIZE s
      in if length header \<noteq> HEADER_SIZE then fail_with INVALID_CRYPTFILE_FORMAT s
         else case unpackHeader header of
           Inl e \<Rightarrow> fail_with e s
         | Inr (plain, dsize, cipher, streaming) \<Rightarrow>
             if streaming then None
             else
               let s = s\<lparr>cf_size := plain, cf_ciphertextSize := cipher\<rparr>;
                   descriptor = raw_peek dsize s; s = raw_skip dsize s
               in if length descriptor \<noteq> dsize then fail_with INVALID_CRYPTFILE_FORMAT s
                  else case parse descriptor of
                    None \<Rightarrow> fail_with PARSE_CONTAINER_FAILED s
                  | Some cc \<Rightarrow>
                      let s = s\<lparr>cf_cc := cc, cf_dataOffset := cf_raw_pos s\<rparr>
                      in open_data A plain cipher headerOnly s)"

definition open_new :: "aead \<Rightarrow> byte list \<Rightarrow> bool \<Rightarrow> unit file_op" where
  "open_new A descriptor headerOnly s =
     (if headerOnly then fail_with FILE_NOT_OPEN s
      else case packHeaderAndDescriptor (cf_junk s) (cc_streaming (cf_cc s)) descriptor 0 [] 0 of
        Inl e \<Rightarrow> fail_with e s
      | Inr writeBuffer \<Rightarrow>
          chk (doSeek A 0 0 True) (\<lambda>_ s. with_chunk (cf_current s) (\<lambda>c s.
              flushChunk A (cf_current s) True (assign (cf_current s) (c\<lparr>ck_dirty := True\<rparr>) (s\<lparr>cf_sizeDirty := True\<rparr>))) s)
            ((raw_write writeBuffer s)\<lparr>cf_dataOffset := length writeBuffer, cf_eofSeqnum := 0\<rparr>))"

text \<open>An error after the raw file is open closes it without writing anything.\<close>

definition doOpen :: "aead \<Rightarrow> (byte list \<Rightarrow> container option) \<Rightarrow> byte list \<Rightarrow> file_mode \<Rightarrow> bool \<Rightarrow> unit file_op" where
  "doOpen A parse descriptor mode headerOnly s =
     (let s = s\<lparr>cf_mode := mode\<rparr>;
          newFile = isNewFile s;
          openMode = (if mode = Mode_append then (if newFile then Mode_write else Mode_write_existing)
                      else if mode = Mode_append_existing then Mode_write_existing else mode)
      in if cc_streaming (cf_cc s) then None
         else case raw_open openMode s of
           None \<Rightarrow> None
         | Some (Inl e, s) \<Rightarrow> Some (Inl e, s)
         | Some (Inr _, s) \<Rightarrow>
             case (if newFile then open_new A descriptor headerOnly s else open_existing A parse headerOnly s) of
               None \<Rightarrow> None
             | Some (Inl e, s) \<Rightarrow> map_option (\<lambda>(_, s). (Inl e, s)) (doClose A False s)
             | Some (Inr _, s) \<Rightarrow> Some (Inr (), s))"

definition file_size :: "aead \<Rightarrow> (byte list \<Rightarrow> container option) \<Rightarrow> nat file_op" where
  "file_size A parse s =
     (if cf_isOpen s then done_with (cf_size s) s
      else chk (doOpen A parse [] Mode_scan True) (\<lambda>_ s.
             let sz = cf_size s in map_option (\<lambda>(_, s). (Inr sz, s)) (doClose A False s)) s)"

definition file_usedSize :: "aead \<Rightarrow> (byte list \<Rightarrow> container option) \<Rightarrow> nat file_op" where
  "file_usedSize A parse s =
     (if cf_isOpen s then chk (flushLastChunk A) (\<lambda>_ s. done_with (eofPos s) s) s
      else chk (doOpen A parse [] Mode_scan True) (\<lambda>_ s.
             let sz = eofPos s in map_option (\<lambda>(_, s). (Inr sz, s)) (doClose A False s)) s)"

text \<open>\<open>truncateImpl\<close> of a file that may be closed.\<close>

definition file_truncate :: "aead \<Rightarrow> (byte list \<Rightarrow> container option) \<Rightarrow> nat \<Rightarrow> unit file_op" where
  "file_truncate A parse newSize s =
     (if cf_isOpen s then truncateImpl A newSize s
      else chk (doOpen A parse [] Mode_write_existing False) (\<lambda>_.
           chk (truncateImpl A newSize) (\<lambda>_. doClose A True)) s)"

subsection \<open>Digests and stamps\<close>

text \<open>The parts of the raw file that \<open>doProcessFile\<close> gives to the digest, up to the end of the ciphertext; a limit
  of zero is no limit.\<close>

function process_parts :: "nat \<Rightarrow> byte list list file_op" where
  "process_parts left s =
     (if left = 0 then done_with [] s
      else
        let readSize = (if left > cf_maxProcessingSize s \<and> cf_maxProcessingSize s \<noteq> 0 then cf_maxProcessingSize s else left);
            part = raw_peek readSize s; s' = raw_skip readSize s
        in if length part \<noteq> readSize then fail_with FILE_READ_FAILED s'
           else chk (process_parts (left - readSize)) (\<lambda>ps. done_with (part # ps)) s')"
  by auto
termination
  by (relation "measure fst") (auto split: if_splits)

declare process_parts.simps [simp del]

definition doProcessFile :: "aead \<Rightarrow> (byte list \<Rightarrow> container option) \<Rightarrow> bool \<Rightarrow> byte list list file_op" where
  "doProcessFile A parse checkOpen s =
     (if checkOpen \<and> cf_isOpen s then fail_with FILE_ALREADY_OPEN s
      else case (if checkOpen then doOpen A parse [] Mode_scan True s else done_with () s) of
        None \<Rightarrow> None
      | Some (Inl e, s) \<Rightarrow> Some (Inl e, s)
      | Some (Inr _, s) \<Rightarrow>
          case process_parts (eofPos s) (raw_seek 0 s) of
            None \<Rightarrow> None
          | Some (r, s) \<Rightarrow> if checkOpen then map_option (\<lambda>(_, s). (r, s)) (doClose A True s) else Some (r, s))"

text \<open>The serialized stamp that is read, and written, behind the ciphertext; its size takes two bytes.\<close>

definition read_stamp :: "byte list file_op" where
  "read_stamp s =
     (let offset = eofPos s; fileSize = length (raw_bytes s)
      in if fileSize < offset then None
         else if fileSize - offset < 2 then fail_with FILE_STAMP_FAILED s
         else
           let s = raw_seek offset s; stampSize = le_nat (raw_peek 2 s); s = raw_skip 2 s
           in if fileSize - (offset + 2) < stampSize \<or> stampSize = 0 then fail_with FILE_STAMP_FAILED s
              else let stamp = raw_peek stampSize s; s = raw_skip stampSize s
                   in if length stamp \<noteq> stampSize then fail_with FILE_READ_FAILED s else done_with stamp s)"

definition write_stamp :: "byte list \<Rightarrow> unit file_op" where
  "write_stamp stamp s =
     (if length stamp > 0xFFFF then fail_with INVALID_SIZE s
      else done_with () (raw_write stamp (raw_write (le_bytes 2 (length stamp)) (raw_seek (eofPos s) s))))"

text \<open>Both between an opening and the guard that closes.\<close>

definition with_open :: "aead \<Rightarrow> (byte list \<Rightarrow> container option) \<Rightarrow> file_mode \<Rightarrow> 'a file_op \<Rightarrow> 'a file_op" where
  "with_open A parse mode act s =
     (if cf_isOpen s then fail_with FILE_ALREADY_OPEN s
      else chk (doOpen A parse [] mode True) (\<lambda>_ s.
        case act s of None \<Rightarrow> None | Some (r, s) \<Rightarrow> map_option (\<lambda>(_, s). (r, s)) (doClose A True s)) s)"

definition readStampField :: "aead \<Rightarrow> (byte list \<Rightarrow> container option) \<Rightarrow> byte list file_op" where
  "readStampField A parse = with_open A parse Mode_read read_stamp"

definition writeStamp :: "aead \<Rightarrow> (byte list \<Rightarrow> container option) \<Rightarrow> byte list \<Rightarrow> unit file_op" where
  "writeStamp A parse stamp = with_open A parse Mode_write_existing (write_stamp stamp)"

end
