(* ===== verification/CryptLayout.thy ===== *)
theory CryptLayout
  imports CryptFile
begin

section \<open>The layout of an encrypted file\<close>

text \<open>
  Positions of the plaintext and of the raw file without wrap-around, and the conditions under which the
  code computes them.
\<close>

definition cstart :: "container \<Rightarrow> nat \<Rightarrow> nat" where
  "cstart cc n = (if n = 0 then 0 else maxPlainChunkSize cc 0 + (n - 1) * cc_chunkMaxSize cc)"

definition rstart :: "aead \<Rightarrow> container \<Rightarrow> nat \<Rightarrow> nat" where
  "rstart A cc n = cstart cc n + n * (ae_extra A + 4)"

abbreviation width :: "container \<Rightarrow> nat \<Rightarrow> nat" where
  "width cc n \<equiv> maxPlainChunkSize cc n"

definition cindex :: "container \<Rightarrow> nat \<Rightarrow> nat" where
  "cindex cc pos = (if pos < width cc 0 then 0 else 1 + (pos - width cc 0) div cc_chunkMaxSize cc)"

definition piece :: "container \<Rightarrow> byte list \<Rightarrow> nat \<Rightarrow> byte list" where
  "piece cc plain n = take (width cc n) (drop (cstart cc n) plain)"

text \<open>Chunks have a limit; \<open>K\<close> chunks behind the first one keep every position of the raw file below 4 GiB.\<close>

definition layout_ok :: "aead \<Rightarrow> container \<Rightarrow> nat \<Rightarrow> nat \<Rightarrow> bool" where
  "layout_ok A cc D K \<longleftrightarrow>
     aead_ok A \<and> \<not> cc_streaming cc \<and> 0 < cc_chunkMaxSize cc \<and> D + rstart A cc (K + 2) < 2 ^ 32"

lemma layoutD:
  assumes "layout_ok A cc D K"
  shows "aead_ok A" "\<not> cc_streaming cc" "0 < cc_chunkMaxSize cc" "D + rstart A cc (K + 2) < 2 ^ 32"
    "0 < width cc n" "0 < width cc 0"
  using assms by (auto simp: layout_ok_def maxPlainChunkSize_def)

lemma width_Suc: "0 < n \<Longrightarrow> width cc n = cc_chunkMaxSize cc"
  by (simp add: maxPlainChunkSize_def)

lemma cstart_0 [simp]: "cstart cc 0 = 0" by (simp add: cstart_def)

lemma cstart_Suc: "cstart cc (Suc n) = cstart cc n + width cc n"
  by (cases n) (auto simp: cstart_def width_Suc)

lemma cstart_mono: "m \<le> n \<Longrightarrow> cstart cc m \<le> cstart cc n"
  by (induction n) (auto simp: cstart_Suc le_Suc_eq)

lemma cstart_less: "m < n \<Longrightarrow> cstart cc m + width cc m \<le> cstart cc n"
  using cstart_mono [of "Suc m" n] by (simp add: cstart_Suc)

lemma rstart_0 [simp]: "rstart A cc 0 = 0" by (simp add: rstart_def)

lemma rstart_Suc: "rstart A cc (Suc n) = rstart A cc n + width cc n + ae_extra A + 4"
  by (simp add: rstart_def cstart_Suc)

lemma rstart_mono: "m \<le> n \<Longrightarrow> rstart A cc m \<le> rstart A cc n"
  by (induction n) (auto simp: rstart_Suc le_Suc_eq)

lemma rstart_less: "m < n \<Longrightarrow> rstart A cc m + width cc m + ae_extra A + 4 \<le> rstart A cc n"
  using rstart_mono [of "Suc m" n] by (simp add: rstart_Suc)

lemma cstart_le_rstart: "cstart cc n \<le> rstart A cc n" by (simp add: rstart_def)

lemma rstart_bound: "layout_ok A cc D K \<Longrightarrow> n \<le> K + 2 \<Longrightarrow> D + rstart A cc n < 2 ^ 32"
  using layoutD(4) rstart_mono [of n "K + 2" A cc] by fastforce

lemma chunk_bound:
  "layout_ok A cc D K \<Longrightarrow> n \<le> K + 1 \<Longrightarrow> l \<le> width cc n \<Longrightarrow> D + rstart A cc n + l + ae_extra A + 4 < 2 ^ 32"
  using rstart_bound [of A cc D K "Suc n"] by (simp add: rstart_Suc)

subsection \<open>The chunk of a position\<close>

lemma cindex_start: "cstart cc (cindex cc pos) \<le> pos"
proof (cases "pos < width cc 0")
  case False
  then have "width cc 0 + (pos - width cc 0) div cc_chunkMaxSize cc * cc_chunkMaxSize cc \<le> pos"
    using div_times_less_eq_dividend [of "pos - width cc 0" "cc_chunkMaxSize cc"] by linarith
  then show ?thesis using False by (simp add: cindex_def cstart_def)
qed (simp add: cindex_def)

lemma cindex_end: "0 < cc_chunkMaxSize cc \<Longrightarrow> pos < cstart cc (cindex cc pos) + width cc (cindex cc pos)"
proof -
  assume c: "0 < cc_chunkMaxSize cc"
  show ?thesis
  proof (cases "pos < width cc 0")
    case False
    let ?q = "(pos - width cc 0) div cc_chunkMaxSize cc"
    have "pos - width cc 0 < ?q * cc_chunkMaxSize cc + cc_chunkMaxSize cc"
      using div_mult_mod_eq [of "pos - width cc 0" "cc_chunkMaxSize cc"] mod_less_divisor [OF c, of "pos - width cc 0"]
      by linarith
    then show ?thesis using False by (simp add: cindex_def cstart_def width_Suc)
  qed (simp add: cindex_def)
qed

lemma cindex_unique:
  assumes "0 < cc_chunkMaxSize cc" and "cstart cc n \<le> pos" and "pos < cstart cc n + width cc n"
  shows "cindex cc pos = n"
proof (rule ccontr)
  assume "cindex cc pos \<noteq> n"
  then consider "cindex cc pos < n" | "n < cindex cc pos" by linarith
  then show False
  proof cases
    case 1 then show False using cstart_less [OF 1, of cc] cindex_end [OF assms(1), of pos] assms(2) by linarith
  next
    case 2 then show False using cstart_less [OF 2, of cc] cindex_start [of cc pos] assms(3) by linarith
  qed
qed

lemma cindex_le: "0 < cc_chunkMaxSize cc \<Longrightarrow> pos < cstart cc (Suc n) \<Longrightarrow> cindex cc pos \<le> n"
proof (rule ccontr)
  assume a: "0 < cc_chunkMaxSize cc" "pos < cstart cc (Suc n)" "\<not> cindex cc pos \<le> n"
  then show False using cindex_start [of cc pos] cstart_mono [of "Suc n" "cindex cc pos" cc] by linarith
qed

lemma cindex_mono: "0 < cc_chunkMaxSize cc \<Longrightarrow> p \<le> q \<Longrightarrow> cindex cc p \<le> cindex cc q"
  using cindex_le [of cc p "cindex cc q"] cindex_end [of cc q] by (simp add: cstart_Suc)

lemma cindex_cstart: "layout_ok A cc D K \<Longrightarrow> cindex cc (cstart cc n) = n"
  using cindex_unique [of cc n "cstart cc n"] layoutD by simp

lemma posToSeqnum_cindex:
  assumes "0 < cc_chunkMaxSize cc" and "cindex cc pos < 2 ^ 32"
  shows "posToSeqnum cc pos = cindex cc pos"
  using assms
  by (auto simp: posToSeqnum_def cindex_def maxPlainChunkSize_def Let_def)

lemma seqnumToPos_cstart: "cstart cc n < 2 ^ 32 \<Longrightarrow> seqnumToPos cc n = cstart cc n"
  by (auto simp: seqnumToPos_def cstart_def width_Suc)

lemma chunkBegin_cstart:
  "0 < cc_chunkMaxSize cc \<Longrightarrow> cindex cc pos < 2 ^ 32 \<Longrightarrow> pos < 2 ^ 32 \<Longrightarrow>
    chunkBeginForPos cc pos = cstart cc (cindex cc pos)"
  using cindex_start [of cc pos]
  by (auto simp: chunkBeginForPos_def Let_def posToSeqnum_cindex cstart_def width_Suc)

lemma chunkOffset_cstart:
  "0 < cc_chunkMaxSize cc \<Longrightarrow> cindex cc pos < 2 ^ 32 \<Longrightarrow> pos < 2 ^ 32 \<Longrightarrow>
    chunkOffsetForPos cc pos = pos - cstart cc (cindex cc pos)"
  using cindex_start [of cc pos] by (simp add: chunkOffsetForPos_def chunkBegin_cstart)

lemma cindex_small: "0 < cc_chunkMaxSize cc \<Longrightarrow> cindex cc pos \<le> pos"
proof -
  assume c: "0 < cc_chunkMaxSize cc"
  have "n \<le> cstart cc n" for n
  proof (induction n)
    case (Suc n)
    have "0 < width cc n" using c by (auto simp: maxPlainChunkSize_def)
    then show ?case using Suc by (simp add: cstart_Suc)
  qed simp
  then show ?thesis using cindex_start [of cc pos] le_trans by blast
qed

lemma packed_size:
  assumes "layout_ok A cc D K"
  shows "maxPackedChunkSize A cc n = Some (width cc n + ae_extra A + 4)"
    and "maxPackedChunkSizeIn A cc n z = Some (width cc n + ae_extra A + 4)"
proof -
  have "D + rstart A cc 2 < 2 ^ 32" using rstart_bound [OF assms, of 2] by simp
  moreover have "rstart A cc 2 = width cc 0 + cc_chunkMaxSize cc + 2 * (ae_extra A + 4)"
    by (simp add: rstart_def cstart_def)
  ultimately have b: "width cc 0 + ae_extra A + 4 < 4294967296" "cc_chunkMaxSize cc + ae_extra A + 4 < 4294967296"
    by simp_all
  have x: "packedExtraSize A = ae_extra A + 4" using b by (simp add: packedExtraSize_def)
  have c: "0 < cc_chunkMaxSize cc" by (rule layoutD(3) [OF assms])
  have first: "maxPackedFirstSize A cc = Some (width cc 0 + ae_extra A + 4)"
    using b c x by (simp add: maxPackedFirstSize_def maxPlainChunkSize_def Let_def)
  show "maxPackedChunkSize A cc n = Some (width cc n + ae_extra A + 4)"
    using b c x first by (cases "n = 0") (simp_all add: maxPackedChunkSize_def width_Suc)
  then show "maxPackedChunkSizeIn A cc n z = Some (width cc n + ae_extra A + 4)"
    using c by (simp add: maxPackedChunkSizeIn_def)
qed

lemma seqnumToRawPos_rstart:
  assumes "layout_ok A cc D K" and "n \<le> K + 2"
  shows "seqnumToRawPos A cc D n = Some (D + rstart A cc n)"
  using rstart_bound [OF assms] assms(2)
  by (cases n) (auto simp: seqnumToRawPos_def packed_size [OF assms(1)] rstart_def cstart_def width_Suc algebra_simps)

subsection \<open>The pieces of a plaintext\<close>

lemma length_piece: "length (piece cc plain n) = min (width cc n) (length plain - cstart cc n)"
  by (simp add: piece_def)

lemma piece_full: "cstart cc n + width cc n \<le> length plain \<Longrightarrow> length (piece cc plain n) = width cc n"
  by (simp add: length_piece)

lemma piece_empty: "length plain \<le> cstart cc n \<Longrightarrow> piece cc plain n = []"
  by (simp add: piece_def)

text \<open>A write into one chunk changes the piece of that chunk.\<close>

lemma piece_other:
  assumes "k \<noteq> n" and "cstart cc n \<le> pos" and "pos + length data \<le> cstart cc n + width cc n" and "pos \<le> length plain"
  shows "piece cc (take pos plain @ data @ drop (pos + length data) plain) k = piece cc plain k"
proof -
  let ?new = "take pos plain @ data @ drop (pos + length data) plain"
  consider "k < n" | "n < k" using assms(1) by linarith
  then show ?thesis
  proof cases
    case 1
    have "cstart cc k + width cc k \<le> pos" using cstart_less [OF 1, of cc] assms(2) by linarith
    then have "take (cstart cc k + width cc k) ?new = take (cstart cc k + width cc k) plain" using assms(4) by simp
    then show ?thesis unfolding piece_def by (metis add.commute take_drop)
  next
    case 2
    have "pos + length data \<le> cstart cc k" using cstart_less [OF 2, of cc] assms(3) by linarith
    then have "drop (cstart cc k) ?new = drop (cstart cc k) plain" using assms(4) by (simp add: drop_append)
    then show ?thesis by (simp add: piece_def)
  qed
qed

lemma piece_same:
  assumes "cstart cc n \<le> pos" and "pos + length data \<le> cstart cc n + width cc n" and "pos \<le> length plain"
  shows "piece cc (take pos plain @ data @ drop (pos + length data) plain) n =
    take (pos - cstart cc n) (piece cc plain n) @ data @ drop (pos - cstart cc n + length data) (piece cc plain n)"
proof -
  let ?a = "cstart cc n" and ?w = "width cc n"
  obtain k where pos: "pos = ?a + k" using assms(1) le_Suc_ex by blast
  have l: "length (take k (drop ?a plain)) = k" using assms(3) pos by simp
  have "drop ?a (take pos plain @ data @ drop (pos + length data) plain) =
      take k (drop ?a plain) @ data @ drop (?a + k + length data) plain"
    using assms(3) by (simp add: pos take_drop [symmetric] add.commute)
  then show ?thesis
    using assms(2) l by (simp add: piece_def pos take_append min_def drop_take add.commute add.left_commute diff_diff_left)
      (metis add_leD1 le_antisym)
qed

end
