(* ===== verification/CryptRefine.thy ===== *)
theory CryptRefine
  imports CryptLayout
begin

section \<open>Encrypted files implement files of bytes\<close>

text \<open>
  The state of an encrypted file stands for a list of bytes: chunks on the disk, chunks in memory, and the
  numbers that describe them. Every operation keeps the relation.
\<close>

subsection \<open>Operations that succeed\<close>

definition goes :: "'a file_op \<Rightarrow> crypt_file \<Rightarrow> ('a \<Rightarrow> crypt_file \<Rightarrow> bool) \<Rightarrow> bool" where
  "goes m s Q \<longleftrightarrow> (\<exists>x s'. m s = Some (Inr x, s') \<and> Q x s')"

lemma goes_done [simp]: "goes (done_with x) s Q \<longleftrightarrow> Q x s"
  by (simp add: goes_def done_with_def)

lemma goes_chk [simp]: "goes (chk m f) s Q \<longleftrightarrow> goes m s (\<lambda>x. \<lambda>s'. goes (f x) s' Q)"
  by (auto simp: goes_def chk_def split: option.splits sum.splits)

lemma goes_with: "deref s r = Some c \<Longrightarrow> goes (with_chunk r f) s Q \<longleftrightarrow> goes (f c) s Q"
  by (simp add: goes_def with_chunk_def)

lemma goes_mono: "goes m s P \<Longrightarrow> (\<And>x s'. P x s' \<Longrightarrow> Q x s') \<Longrightarrow> goes m s Q"
  by (auto simp: goes_def)

lemma goes_app: "goes (\<lambda>s. f s s) s Q \<longleftrightarrow> goes (f s) s Q"
  by (simp add: goes_def)

lemma goes_if [simp]:
  "goes (\<lambda>s. if P s then f s else g s) s Q \<longleftrightarrow> (if P s then goes f s Q else goes g s Q)"
  by (simp add: goes_def)

lemma goes_eq: "m s = Some (Inr x, s') \<Longrightarrow> goes m s Q \<longleftrightarrow> Q x s'"
  by (simp add: goes_def)

subsection \<open>References to chunks\<close>

lemma map_of_update: "map_of (List.map (\<lambda>(k, old). (k, if k = n then c else old)) xs) j =
    (if j = n then map_option (\<lambda>_. c) (map_of xs j) else map_of xs j)"
  by (induction xs) auto

lemma deref_assign:
  "deref s r = Some c0 \<Longrightarrow> deref (assign r c s) r' = (if r' = r then Some c else deref s r')"
  by (auto simp: deref_def assign_def map_of_update split: chunk_ref.splits)

lemma deref_Null [simp]: "deref s Null = None" by (simp add: deref_def)

lemma assign_fields [simp]:
  "cf_cc (assign r c s) = cf_cc s" "cf_cursor (assign r c s) = cf_cursor s" "cf_seekCursor (assign r c s) = cf_seekCursor s"
  "cf_mode (assign r c s) = cf_mode s" "cf_current (assign r c s) = cf_current s" "cf_capacity (assign r c s) = cf_capacity s"
  "cf_raw (assign r c s) = cf_raw s" "cf_raw_pos (assign r c s) = cf_raw_pos s" "cf_isOpen (assign r c s) = cf_isOpen s"
  "cf_dataOffset (assign r c s) = cf_dataOffset s" "cf_size (assign r c s) = cf_size s"
  "cf_ciphertextSize (assign r c s) = cf_ciphertextSize s" "cf_sizeDirty (assign r c s) = cf_sizeDirty s"
  "cf_eofSeqnum (assign r c s) = cf_eofSeqnum s" "cf_maxProcessingSize (assign r c s) = cf_maxProcessingSize s"
  "cf_enableCache (assign r c s) = cf_enableCache s" "cf_draws (assign r c s) = cf_draws s" "cf_junk (assign r c s) = cf_junk s"
  by (simp_all add: assign_def split: chunk_ref.split)

lemma assign_keys [simp]: "List.map fst (cf_cache (assign r c s)) = List.map fst (cf_cache s)"
  by (auto simp: assign_def split: chunk_ref.split)

lemma deref_fields [simp]:
  "deref (s\<lparr>cf_cursor := x0\<rparr>) = deref s" "deref (s\<lparr>cf_seekCursor := x0\<rparr>) = deref s" "deref (s\<lparr>cf_current := x1\<rparr>) = deref s"
  "deref (s\<lparr>cf_raw := x2\<rparr>) = deref s" "deref (s\<lparr>cf_raw_pos := x0\<rparr>) = deref s" "deref (s\<lparr>cf_size := x0\<rparr>) = deref s"
  "deref (s\<lparr>cf_ciphertextSize := x0\<rparr>) = deref s" "deref (s\<lparr>cf_sizeDirty := x3\<rparr>) = deref s"
  "deref (s\<lparr>cf_eofSeqnum := x0\<rparr>) = deref s" "deref (s\<lparr>cf_draws := x0\<rparr>) = deref s"
  "deref (raw_seek x0 s) = deref s" "deref (raw_skip x0 s) = deref s" "deref (raw_write x4 s) = deref s"
  by (auto simp: fun_eq_iff deref_def raw_seek_def raw_skip_def raw_write_def split: chunk_ref.split)

text \<open>What the operations on chunks leave alone.\<close>

definition cfg :: "crypt_file \<Rightarrow> container \<times> file_mode \<times> bool \<times> nat \<times> nat \<times> (nat \<Rightarrow> byte list) \<times> bool \<times> nat \<times> nat" where
  "cfg s = (cf_cc s, cf_mode s, cf_enableCache s, cf_capacity s, cf_maxProcessingSize s, cf_junk s, cf_isOpen s,
            cf_dataOffset s, cf_seekCursor s)"

definition place :: "crypt_file \<Rightarrow> nat \<times> chunk_ref \<times> nat \<times> nat \<times> nat list" where
  "place s = (cf_cursor s, cf_current s, cf_eofSeqnum s, cf_size s, List.map fst (cf_cache s))"

lemma cfgD:
  "cfg s' = cfg s \<Longrightarrow> cf_cc s' = cf_cc s \<and> cf_mode s' = cf_mode s \<and> cf_enableCache s' = cf_enableCache s
    \<and> cf_capacity s' = cf_capacity s \<and> cf_maxProcessingSize s' = cf_maxProcessingSize s \<and> cf_junk s' = cf_junk s
    \<and> cf_isOpen s' = cf_isOpen s \<and> cf_dataOffset s' = cf_dataOffset s \<and> cf_seekCursor s' = cf_seekCursor s
    \<and> isWriteMode s' = isWriteMode s \<and> isAppend s' = isAppend s \<and> useCache s' = useCache s"
  by (simp add: cfg_def isWriteMode_def isAppend_def useCache_def)

lemma placeD:
  "place s' = place s \<Longrightarrow> cf_cursor s' = cf_cursor s \<and> cf_current s' = cf_current s \<and> cf_eofSeqnum s' = cf_eofSeqnum s
    \<and> cf_size s' = cf_size s \<and> List.map fst (cf_cache s') = List.map fst (cf_cache s)"
  by (simp add: place_def)

subsection \<open>The raw file\<close>

lemma length_raw_put: "p \<le> length r \<Longrightarrow> length (raw_put p data r) = max (length r) (p + length data)"
  by (auto simp: raw_put_def)

lemma raw_put_before: "p \<le> length r \<Longrightarrow> a + l \<le> p \<Longrightarrow> take l (drop a (raw_put p data r)) = take l (drop a r)"
  by (simp add: raw_put_def drop_take drop_append)

lemma raw_put_after: "p \<le> length r \<Longrightarrow> p + length data \<le> a \<Longrightarrow> drop a (raw_put p data r) = drop a r"
  by (simp add: raw_put_def drop_append)

lemma raw_put_at: "p \<le> length r \<Longrightarrow> take (length data) (drop p (raw_put p data r)) = data"
  by (simp add: raw_put_def)

lemma raw_put_take: "p \<le> length r \<Longrightarrow> n \<le> p \<Longrightarrow> take n (raw_put p data r) = take n r"
  by (simp add: raw_put_def)

lemma w64_sub64:
  assumes "b \<le> c" and "c + a < 2 ^ 64"
  shows "w64 (c + sub64 a b) = c + a - b"
proof -
  have "c + (a + 2 ^ 64 - b) = (c + a - b) + 2 ^ 64" using assms by simp
  then have "(c + sub64 a b) mod 2 ^ 64 = (c + a - b + 2 ^ 64) mod 2 ^ 64"
    unfolding sub64_def by (metis mod_add_right_eq)
  then show ?thesis unfolding w64_def using assms by (simp only: mod_add_self2) simp
qed

text \<open>Chunk \<open>i\<close> of the first \<open>m\<close> holds the sealed text \<open>dk i\<close>; all but the last are full, and only the first may be empty.\<close>

definition slice_ok :: "aead \<Rightarrow> container \<Rightarrow> nat \<Rightarrow> byte list \<Rightarrow> nat \<Rightarrow> byte list \<Rightarrow> bool" where
  "slice_ok A cc D raw i p \<longleftrightarrow>
     (\<exists>d. take (length p + ae_extra A + 4) (drop (D + rstart A cc i) raw) = packed A d i p)"

definition disk_ok :: "aead \<Rightarrow> container \<Rightarrow> nat \<Rightarrow> byte list \<Rightarrow> nat \<Rightarrow> (nat \<Rightarrow> byte list) \<Rightarrow> bool" where
  "disk_ok A cc D raw m dk \<longleftrightarrow>
     0 < m \<and> (\<forall>i<m. slice_ok A cc D raw i (dk i)) \<and> (\<forall>i<m. length (dk i) \<le> width cc i)
     \<and> (\<forall>i. Suc i < m \<longrightarrow> length (dk i) = width cc i) \<and> (\<forall>i<m. 0 < i \<longrightarrow> dk i \<noteq> [])"

definition clen :: "aead \<Rightarrow> container \<Rightarrow> nat \<Rightarrow> (nat \<Rightarrow> byte list) \<Rightarrow> nat" where
  "clen A cc m dk = rstart A cc (m - 1) + length (dk (m - 1)) + ae_extra A + 4"

lemma slice_length:
  assumes "aead_ok A" and "slice_ok A cc D raw i p"
  shows "D + rstart A cc i + length p + ae_extra A + 4 \<le> length raw"
proof -
  obtain d where "take (length p + ae_extra A + 4) (drop (D + rstart A cc i) raw) = packed A d i p"
    using assms(2) by (auto simp: slice_ok_def)
  then have "min (length raw - (D + rstart A cc i)) (length p + ae_extra A + 4) = length p + ae_extra A + 4"
    by (metis length_packed [OF assms(1)] length_take length_drop)
  then show ?thesis by (simp add: min_def split: if_splits)
qed

lemma disk_length: "aead_ok A \<Longrightarrow> disk_ok A cc D raw m dk \<Longrightarrow> D + clen A cc m dk \<le> length raw"
  using slice_length [of A cc D raw "m - 1" "dk (m - 1)"] by (auto simp: disk_ok_def clen_def)

lemma disk_put:
  assumes A: "aead_ok A" and ok: "disk_ok A cc D raw m dk"
    and k: "k \<le> m" "k = m \<longrightarrow> length (dk (m - 1)) = width cc (m - 1)"
    and p: "length p \<le> width cc k" "Suc k < m \<longrightarrow> length p = width cc k" "p \<noteq> []"
  shows "disk_ok A cc D (raw_put (D + rstart A cc k) (packed A d k p) raw) (max m (Suc k)) (dk(k := p))"
    and "D + rstart A cc k \<le> length raw"
proof -
  let ?P = "D + rstart A cc k"
  have all: "\<And>i. i < m \<Longrightarrow> slice_ok A cc D raw i (dk i)" "\<And>i. i < m \<Longrightarrow> length (dk i) \<le> width cc i" and m: "0 < m"
    using ok by (auto simp: disk_ok_def)
  have full: "length (dk i) = width cc i" if "Suc i < max m (Suc k)" for i
    using that ok k by (cases "Suc i < m") (auto simp: disk_ok_def max_def le_Suc_eq not_less split: if_splits)
  have "rstart A cc k \<le> clen A cc m dk"
  proof (cases "k = m")
    case True
    then show ?thesis using k(2) m rstart_Suc [of A cc "m - 1"] by (simp add: clen_def)
  next
    case False
    then have "rstart A cc k \<le> rstart A cc (m - 1)" by (intro rstart_mono) (use k(1) in simp)
    then show ?thesis by (simp add: clen_def)
  qed
  then show P: "?P \<le> length raw" using disk_length [OF A ok] by simp
  have lp: "length (packed A d k p) = length p + ae_extra A + 4" by (rule length_packed [OF A])
  have "slice_ok A cc D (raw_put ?P (packed A d k p) raw) i ((dk(k := p)) i)" if "i < max m (Suc k)" for i
  proof -
    consider "i = k" | "i < k" | "k < i" by linarith
    then show ?thesis
    proof cases
      case 1
      then show ?thesis using raw_put_at [OF P, of "packed A d k p"] lp by (auto simp: slice_ok_def)
    next
      case 2
      then have i: "i < m" using k(1) by simp
      have "D + rstart A cc i + (length (dk i) + ae_extra A + 4) \<le> ?P" using rstart_less [OF 2, of A cc] all(2) [OF i] by simp
      then show ?thesis using all(1) [OF i] 2 raw_put_before [OF P] by (simp add: slice_ok_def)
    next
      case 3
      then have i: "i < m" using that by simp
      have "?P + length (packed A d k p) \<le> D + rstart A cc i" using rstart_less [OF 3, of A cc] p(1) lp by simp
      then show ?thesis using all(1) [OF i] 3 raw_put_after [OF P] by (simp add: slice_ok_def)
    qed
  qed
  moreover have "length ((dk(k := p)) i) \<le> width cc i" if "i < max m (Suc k)" for i
    using that all(2) p(1) k(1) by (cases "i = k") auto
  moreover have "length ((dk(k := p)) i) = width cc i" if "Suc i < max m (Suc k)" for i
    using that full p(2) by (cases "i = k") (auto simp: max_def split: if_splits)
  moreover have "(dk(k := p)) i \<noteq> []" if "i < max m (Suc k)" "0 < i" for i
    using that ok p(3) k(1) by (cases "i = k") (auto simp: disk_ok_def)
  ultimately show "disk_ok A cc D (raw_put ?P (packed A d k p) raw) (max m (Suc k)) (dk(k := p))"
    unfolding disk_ok_def by simp
qed

subsection \<open>What a state stands for\<close>

definition held :: "crypt_file \<Rightarrow> chunk_ref \<Rightarrow> chunk \<Rightarrow> bool" where
  "held s r c \<longleftrightarrow> deref s r = Some c \<and> (r = Single \<longrightarrow> cf_current s = Single)"

definition dirty_at :: "crypt_file \<Rightarrow> nat \<Rightarrow> bool" where
  "dirty_at s k \<longleftrightarrow> (\<exists>r c. held s r c \<and> ck_seqnum c = k \<and> ck_dirty c)"

text \<open>The chunk agrees with its piece of the plaintext and with the disk.\<close>

definition chunk_ok :: "aead \<Rightarrow> byte list \<Rightarrow> nat \<Rightarrow> (nat \<Rightarrow> byte list) \<Rightarrow> crypt_file \<Rightarrow> chunk_ref \<Rightarrow> chunk \<Rightarrow> bool" where
  "chunk_ok A plain m dk s r c \<longleftrightarrow>
     ck_seqnum c \<le> cf_eofSeqnum s \<and> (\<forall>n. r = Cached n \<longrightarrow> ck_seqnum c = n)
     \<and> ck_maxSize c = width (cf_cc s) (ck_seqnum c) \<and> ck_content c = piece (cf_cc s) plain (ck_seqnum c)
     \<and> ck_ciphertextSize c = (if ck_seqnum c < m then length (dk (ck_seqnum c)) + ae_extra A + 4 else 0)
     \<and> (ck_dirty c \<longrightarrow> ck_content c \<noteq> [] \<and> isWriteMode s
          \<and> (ck_seqnum c = cf_eofSeqnum s \<longrightarrow> cf_current s = r) \<and> (\<not> useCache s \<longrightarrow> ck_seqnum c = cf_eofSeqnum s))"

definition rep_conf :: "aead \<Rightarrow> nat \<Rightarrow> byte list \<Rightarrow> crypt_file \<Rightarrow> bool" where
  "rep_conf A K desc s \<longleftrightarrow>
     layout_ok A (cf_cc s) (cf_dataOffset s) K \<and> alloc_ok (cf_junk s) \<and> cf_isOpen s
     \<and> cf_dataOffset s = 22 + length desc \<and> length desc < 2 ^ 16 \<and> (isWriteMode s \<longrightarrow> useCache s \<or> isAppend s)"

definition rep_disk :: "aead \<Rightarrow> nat \<Rightarrow> (nat \<Rightarrow> byte list) \<Rightarrow> crypt_file \<Rightarrow> bool" where
  "rep_disk A m dk s \<longleftrightarrow>
     cf_raw s \<noteq> None \<and> disk_ok A (cf_cc s) (cf_dataOffset s) (raw_bytes s) m dk
     \<and> cf_ciphertextSize s = clen A (cf_cc s) m dk"

definition rep_head :: "byte list \<Rightarrow> byte list \<Rightarrow> nat \<Rightarrow> (nat \<Rightarrow> byte list) \<Rightarrow> crypt_file \<Rightarrow> bool" where
  "rep_head desc plain m dk s \<longleftrightarrow>
     (\<exists>p c. take (cf_dataOffset s) (raw_bytes s) = header_bytes False (length desc) p c @ desc
        \<and> (\<not> cf_sizeDirty s \<longrightarrow> p = length plain \<and> c = cf_ciphertextSize s
             \<and> cstart (cf_cc s) (m - 1) + length (dk (m - 1)) = length plain))"

definition rep_end :: "nat \<Rightarrow> byte list \<Rightarrow> nat \<Rightarrow> (nat \<Rightarrow> byte list) \<Rightarrow> crypt_file \<Rightarrow> bool" where
  "rep_end K plain m dk s \<longleftrightarrow>
     cf_size s = length plain \<and> cindex (cf_cc s) (length plain) \<le> K + 1
     \<and> cstart (cf_cc s) (cf_eofSeqnum s) \<le> length plain \<and> length plain \<le> cstart (cf_cc s) (Suc (cf_eofSeqnum s))
     \<and> m \<le> Suc (cf_eofSeqnum s) \<and> cf_eofSeqnum s \<le> m
     \<and> (m = cf_eofSeqnum s \<longrightarrow> length (dk (m - 1)) = width (cf_cc s) (m - 1))"

definition rep_cache :: "crypt_file \<Rightarrow> bool" where
  "rep_cache s \<longleftrightarrow>
     distinct (List.map fst (cf_cache s))
     \<and> (if useCache s then cf_current s \<noteq> Single else cf_cache s = [] \<and> cf_current s \<in> {Null, Single})"

definition rep_chunks :: "aead \<Rightarrow> chunk_ref \<Rightarrow> byte list \<Rightarrow> nat \<Rightarrow> (nat \<Rightarrow> byte list) \<Rightarrow> crypt_file \<Rightarrow> bool" where
  "rep_chunks A h plain m dk s \<longleftrightarrow>
     (\<forall>r c. r \<noteq> h \<and> held s r c \<longrightarrow> chunk_ok A plain m dk s r c)
     \<and> (\<forall>k \<le> cf_eofSeqnum s. \<not> dirty_at s k \<longrightarrow> piece (cf_cc s) plain k = (if k < m then dk k else []))"

text \<open>The whole relation; \<open>h\<close> is a chunk in memory that is not filled yet, \<open>Null\<close> for none.\<close>

definition file_rep :: "aead \<Rightarrow> nat \<Rightarrow> byte list \<Rightarrow> chunk_ref \<Rightarrow> byte list \<Rightarrow> nat \<Rightarrow> (nat \<Rightarrow> byte list) \<Rightarrow> crypt_file \<Rightarrow> bool" where
  "file_rep A K desc h plain m dk s \<longleftrightarrow>
     rep_conf A K desc s \<and> rep_disk A m dk s \<and> rep_head desc plain m dk s \<and> rep_end K plain m dk s
     \<and> rep_cache s \<and> rep_chunks A h plain m dk s"

definition cursor_ok :: "byte list \<Rightarrow> crypt_file \<Rightarrow> bool" where
  "cursor_ok plain s \<longleftrightarrow>
     cf_cursor s \<le> length plain \<and> (isAppend s \<longrightarrow> cf_cursor s = length plain)
     \<and> (\<exists>c. deref s (cf_current s) = Some c \<and> cf_cursor s = cstart (cf_cc s) (ck_seqnum c) + ck_offset c
            \<and> ck_offset c \<le> length (ck_content c))"

lemma file_repD:
  assumes "file_rep A K desc h plain m dk s"
  shows "rep_conf A K desc s" "rep_disk A m dk s" "rep_head desc plain m dk s" "rep_end K plain m dk s"
    "rep_cache s" "rep_chunks A h plain m dk s"
    "layout_ok A (cf_cc s) (cf_dataOffset s) K" "aead_ok A" "0 < m" "cf_eofSeqnum s \<le> K + 1" "cf_size s = length plain"
proof -
  show *: "rep_conf A K desc s" "rep_disk A m dk s" "rep_head desc plain m dk s" "rep_end K plain m dk s"
    "rep_cache s" "rep_chunks A h plain m dk s"
    using assms by (simp_all add: file_rep_def)
  show l: "layout_ok A (cf_cc s) (cf_dataOffset s) K" using *(1) unfolding rep_conf_def by blast
  then show "aead_ok A" by (rule layoutD)
  show "0 < m" using *(2) by (simp add: rep_disk_def disk_ok_def)
  show "cf_size s = length plain" using *(4) by (simp add: rep_end_def)
  have "cindex (cf_cc s) (cstart (cf_cc s) (cf_eofSeqnum s)) \<le> cindex (cf_cc s) (length plain)"
    using *(4) layoutD(3) [OF l] by (intro cindex_mono) (auto simp: rep_end_def)
  then show "cf_eofSeqnum s \<le> K + 1" using *(4) cindex_cstart [OF l] by (simp add: rep_end_def)
qed

lemma rep_chunk: "file_rep A K desc h plain m dk s \<Longrightarrow> held s r c \<Longrightarrow> r \<noteq> h \<Longrightarrow> chunk_ok A plain m dk s r c"
  by (simp add: file_rep_def rep_chunks_def)

lemma chunk_ok_same:
  assumes "cfg s' = cfg s" and "place s' = place s" and "ck_seqnum c < m' \<longleftrightarrow> ck_seqnum c < m"
    and "ck_seqnum c < m \<Longrightarrow> length (dk' (ck_seqnum c)) = length (dk (ck_seqnum c))"
  shows "chunk_ok A plain m' dk' s' r c = chunk_ok A plain m dk s r c"
  unfolding chunk_ok_def using cfgD [OF assms(1)] placeD [OF assms(2)] assms(3,4) by simp

lemma rep_conf_same: "cfg s' = cfg s \<Longrightarrow> rep_conf A K desc s' = rep_conf A K desc s"
  by (drule cfgD) (simp add: rep_conf_def)

lemma rep_cache_same: "cfg s' = cfg s \<Longrightarrow> place s' = place s \<Longrightarrow> rep_cache s' = rep_cache s"
  by (drule cfgD, drule placeD) (metis rep_cache_def map_is_Nil_conv)

lemma rep_clean:
  "file_rep A K desc h plain m dk s \<Longrightarrow> \<not> dirty_at s k \<Longrightarrow> k \<le> cf_eofSeqnum s \<Longrightarrow>
    piece (cf_cc s) plain k = (if k < m then dk k else [])"
  by (simp add: file_rep_def rep_chunks_def)

text \<open>No chunk is in memory twice.\<close>

lemma held_unique:
  assumes "file_rep A K desc h plain m dk s" and "held s r c" and "held s r' c'" and "ck_seqnum c = ck_seqnum c'"
    and "r \<noteq> h" and "r' \<noteq> h"
  shows "r' = r"
proof -
  have n: "r = Cached n \<Longrightarrow> ck_seqnum c = n" "r' = Cached n \<Longrightarrow> ck_seqnum c' = n" for n
    using rep_chunk [OF assms(1)] assms(2,3,5,6) by (auto simp: chunk_ok_def)
  have nn: "r \<noteq> Null" "r' \<noteq> Null" using assms(2,3) by (auto simp: held_def)
  have "\<not> useCache s \<longrightarrow> r = Single \<and> r' = Single" "useCache s \<longrightarrow> r \<noteq> Single \<and> r' \<noteq> Single"
    using file_repD(5) [OF assms(1)] assms(2,3)
    by (auto simp: rep_cache_def held_def deref_def split: chunk_ref.splits if_splits)
  then show ?thesis using n nn assms(4) by (cases r; cases r') auto
qed

subsection \<open>Writing a chunk to the disk\<close>

lemma rep_size:
  assumes "layout_ok A (cf_cc s) (cf_dataOffset s) K" and "rep_disk A m dk s" and "m \<le> K + 2"
  shows "eofPos s = cf_dataOffset s + clen A (cf_cc s) m dk" and "eofPos s < 2 ^ 32" and "eofPos s \<le> length (raw_bytes s)"
    and "clen A (cf_cc s) m dk \<le> rstart A (cf_cc s) m"
proof -
  have m: "0 < m" and d: "disk_ok A (cf_cc s) (cf_dataOffset s) (raw_bytes s) m dk"
    and c: "cf_ciphertextSize s = clen A (cf_cc s) m dk"
    using assms(2) by (auto simp: rep_disk_def disk_ok_def)
  have "length (dk (m - 1)) \<le> width (cf_cc s) (m - 1)" using d m by (simp add: disk_ok_def)
  then show le: "clen A (cf_cc s) m dk \<le> rstart A (cf_cc s) m"
    using rstart_Suc [of A "cf_cc s" "m - 1"] m by (simp add: clen_def)
  have b: "cf_dataOffset s + rstart A (cf_cc s) m < 2 ^ 32" by (rule rstart_bound [OF assms(1,3)])
  then show e: "eofPos s = cf_dataOffset s + clen A (cf_cc s) m dk" using le c by (simp add: eofPos_def)
  show "eofPos s < 2 ^ 32" using e b le by simp
  show "eofPos s \<le> length (raw_bytes s)" using e disk_length [OF layoutD(1) [OF assms(1)] d] by simp
qed

lemma start_le_eof:
  assumes "layout_ok A (cf_cc s) (cf_dataOffset s) K" and "rep_disk A m dk s" and "m \<le> K + 2"
    and "k \<le> m" "k = m \<longrightarrow> length (dk (m - 1)) = width (cf_cc s) (m - 1)"
  shows "cf_dataOffset s + rstart A (cf_cc s) k \<le> eofPos s"
proof -
  have m: "0 < m" using assms(2) by (auto simp: rep_disk_def disk_ok_def)
  have "rstart A (cf_cc s) k \<le> clen A (cf_cc s) m dk"
  proof (cases "k = m")
    case True
    then show ?thesis using assms(5) m rstart_Suc [of A "cf_cc s" "m - 1"] by (simp add: clen_def)
  next
    case False
    then have "rstart A (cf_cc s) k \<le> rstart A (cf_cc s) (m - 1)" by (intro rstart_mono) (use assms(4) in simp)
    then show ?thesis by (simp add: clen_def)
  qed
  then show ?thesis using rep_size(1) [OF assms(1-3)] by simp
qed

lemma seek_raw:
  assumes "layout_ok A (cf_cc s) (cf_dataOffset s) K" and "rep_disk A m dk s" and "m \<le> K + 2"
    and "ck_seqnum c \<le> m" "ck_seqnum c = m \<longrightarrow> length (dk (m - 1)) = width (cf_cc s) (m - 1)"
    and "deref s r = Some c"
  shows "seekReadRawChunk A r False 0 s =
    Some (Inr (), raw_seek (cf_dataOffset s + rstart A (cf_cc s) (ck_seqnum c)) s)"
proof -
  have "seqnumToRawPos A (cf_cc s) (cf_dataOffset s) (ck_seqnum c) = Some (cf_dataOffset s + rstart A (cf_cc s) (ck_seqnum c))"
    by (rule seqnumToRawPos_rstart [OF assms(1)]) (use assms(3,4) in simp)
  then show ?thesis
    using start_le_eof [OF assms(1-5)] rep_size(3) [OF assms(1-3)] assms(6)
    by (simp add: seekReadRawChunk_def with_chunk_def done_with_def not_less)
qed

lemma assign_assign: "assign r a (assign r b s) = assign r a s"
  by (auto simp: assign_def comp_def split_def split: chunk_ref.split)

lemma held_assign:
  assumes "deref s r = Some c0" and "cf_current s' = cf_current s" and "deref s' = deref (assign r c s)" and "held s r c0"
  shows "held s' r' x \<longleftrightarrow> (if r' = r then x = c else held s r' x)"
  using assms by (auto simp: held_def deref_assign)

text \<open>The relation after a dirty chunk went to the disk, from what the new state is made of.\<close>

lemma flush_rep:
  assumes rep: "file_rep A K desc Null plain m dk s" and c: "held s r c" "ck_dirty c"
    and s': "cfg s' = cfg s" "place s' = place s" "cf_raw s' \<noteq> None"
      "raw_bytes s' = raw_put (cf_dataOffset s + rstart A (cf_cc s) (ck_seqnum c))
         (packed A d (ck_seqnum c) (ck_content c)) (raw_bytes s)"
      "cf_ciphertextSize s' = clen A (cf_cc s) (max m (Suc (ck_seqnum c))) (dk(ck_seqnum c := ck_content c))"
      "deref s' = deref (assign r (c\<lparr>ck_ciphertextSize := length (ck_content c) + ae_extra A + 4, ck_dirty := False\<rparr>) s)"
      "cf_sizeDirty s' = cf_sizeDirty s"
  shows "file_rep A K desc Null plain (max m (Suc (ck_seqnum c))) (dk(ck_seqnum c := ck_content c)) s'"
proof -
  let ?k = "ck_seqnum c" and ?p = "ck_content c" and ?cc = "cf_cc s" and ?E = "cf_eofSeqnum s"
  let ?m = "max m (Suc ?k)" and ?dk = "dk(?k := ?p)"
  let ?c = "c\<lparr>ck_ciphertextSize := length ?p + ae_extra A + 4, ck_dirty := False\<rparr>"
  note R = file_repD [OF rep] and C = cfgD [OF s'(1)] and P = placeD [OF s'(2)]
  have h: "x \<noteq> Null" if "held s x y" for x y using that by (auto simp: held_def)
  have ok: "chunk_ok A plain m dk s r c" by (rule rep_chunk [OF rep c(1) h [OF c(1)]])
  then have k: "?k \<le> ?E" and p: "?p = piece ?cc plain ?k" "?p \<noteq> []" using c(2) by (auto simp: chunk_ok_def)
  have e: "m \<le> Suc ?E" "?E \<le> m" "m = ?E \<Longrightarrow> length (dk (m - 1)) = width ?cc (m - 1)"
      "cstart ?cc ?E \<le> length plain" "length plain \<le> cstart ?cc (Suc ?E)"
    using R(4) by (auto simp: rep_end_def)
  have full: "length ?p = width ?cc ?k" if "?k < ?E"
    using cstart_less [OF that, of ?cc] e(4) unfolding p(1) by (intro piece_full) simp
  have lp: "length ?p \<le> width ?cc ?k" unfolding p(1) by (simp add: piece_def)
  have disk: "disk_ok A ?cc (cf_dataOffset s) (raw_bytes s) m dk" using R(2) by (simp add: rep_disk_def)
  have km: "?k \<le> m" "?k = m \<longrightarrow> length (dk (m - 1)) = width ?cc (m - 1)" "Suc ?k < m \<longrightarrow> length ?p = width ?cc ?k"
    using k e(1-3) full by auto
  note put = disk_put [OF R(8) disk km(1,2) lp km(3) p(2)]
  have held: "held s' r' x \<longleftrightarrow> (if r' = r then x = ?c else held s r' x)" for r' x
    by (rule held_assign [OF _ _ s'(6) c(1)]) (use c(1) P in \<open>simp_all add: held_def\<close>)
  have other: "ck_seqnum x \<noteq> ?k" if "held s r' x" "r' \<noteq> r" for r' x
    using held_unique [OF rep c(1) that(1) _ h [OF c(1)] h [OF that(1)]] that(2) by auto
  have dirty: "dirty_at s' j \<longleftrightarrow> j \<noteq> ?k \<and> dirty_at s j" for j
  proof
    assume "dirty_at s' j"
    then obtain r' x where "held s' r' x" "ck_seqnum x = j" "ck_dirty x" by (auto simp: dirty_at_def)
    then show "j \<noteq> ?k \<and> dirty_at s j" using held other by (auto simp: dirty_at_def split: if_splits)
  next
    assume j: "j \<noteq> ?k \<and> dirty_at s j"
    then obtain r' x where x: "held s r' x" "ck_seqnum x = j" "ck_dirty x" by (auto simp: dirty_at_def)
    then have "r' \<noteq> r" using c(1) j by (auto simp: held_def)
    then show "dirty_at s' j" using x held by (auto simp: dirty_at_def)
  qed
  have conf: "rep_conf A K desc s'" using R(1) rep_conf_same [OF s'(1)] by simp
  have cache: "rep_cache s'" using R(5) rep_cache_same [OF s'(1,2)] by simp
  have disk': "rep_disk A ?m ?dk s'" using put(1) s'(3-5) C by (simp add: rep_disk_def)
  have m1: "length (?dk (?m - 1)) = width ?cc (?m - 1)" if "?m = ?E"
  proof (cases "?k = ?m - 1")
    case True
    then have "?k < ?E" using that by simp
    then show ?thesis using True full by simp
  next
    case False
    then have "?m = m" "?k \<noteq> m - 1" by (auto simp: max_def split: if_splits)
    then show ?thesis using e(3) that by simp
  qed
  have tail: "rep_end K plain ?m ?dk s'"
  proof -
    have "?m \<le> Suc ?E" "?E \<le> ?m" using e(1,2) k by auto
    then show ?thesis using R(4) C P m1 unfolding rep_end_def by metis
  qed
  have head: "rep_head desc plain ?m ?dk s'"
  proof -
    obtain q z where qz: "take (cf_dataOffset s) (raw_bytes s) = header_bytes False (length desc) q z @ desc"
        "\<not> cf_sizeDirty s \<longrightarrow> q = length plain \<and> z = cf_ciphertextSize s \<and> cstart ?cc (m - 1) + length (dk (m - 1)) = length plain"
      using R(3) by (auto simp: rep_head_def)
    have "take (cf_dataOffset s) (raw_bytes s') = take (cf_dataOffset s) (raw_bytes s)"
      unfolding s'(4) by (rule raw_put_take [OF put(2)]) simp
    moreover have "?m = m \<and> length (?dk (m - 1)) = length (dk (m - 1))"
      if d: "cstart ?cc (m - 1) + length (dk (m - 1)) = length plain"
    proof -
      have km': "?k < m"
      proof (rule ccontr)
        assume "\<not> ?k < m"
        then have eq: "?k = m" using km(1) by simp
        then have "length plain = cstart ?cc ?k" using km(2) d R(9) cstart_Suc [of ?cc "m - 1"] by simp
        then show False using p piece_empty [of plain ?cc ?k] by simp
      qed
      moreover have "length ?p = length (dk (m - 1))" if "?k = m - 1"
      proof -
        have "length (dk (m - 1)) \<le> width ?cc (m - 1)" using disk R(9) by (simp add: disk_ok_def)
        then show ?thesis unfolding p(1) length_piece that using d by linarith
      qed
      ultimately show ?thesis by auto
    qed
    moreover have "cf_ciphertextSize s = clen A ?cc m dk" using R(2) by (simp add: rep_disk_def)
    ultimately show ?thesis
      using qz C P s'(5,7) unfolding rep_head_def clen_def by metis
  qed
  have chunks: "rep_chunks A Null plain ?m ?dk s'"
  proof -
    have "chunk_ok A plain ?m ?dk s' r' x" if "held s' r' x" for r' x
    proof (cases "r' = r")
      case True
      then show ?thesis using ok that held C P by (simp add: chunk_ok_def)
    next
      case False
      then have x: "held s r' x" using that held by simp
      then have "chunk_ok A plain m dk s r' x" "ck_seqnum x \<noteq> ?k" using rep_chunk [OF rep x h [OF x]] other [OF x False] by auto
      moreover have "ck_seqnum x < ?m \<longleftrightarrow> ck_seqnum x < m"
      proof -
        have "ck_seqnum x \<le> ?E" using calculation(1) by (simp add: chunk_ok_def)
        then show ?thesis unfolding less_max_iff_disj using calculation(2) k e(1,2) by linarith
      qed
      ultimately show ?thesis using chunk_ok_same [OF s'(1,2), of x ?m m ?dk dk] by simp
    qed
    moreover have "piece ?cc plain j = (if j < ?m then ?dk j else [])" if "j \<le> ?E" "\<not> dirty_at s' j" for j
    proof (cases "j = ?k")
      case False
      then have "\<not> dirty_at s j" using that(2) dirty by blast
      moreover have "j < ?m \<longleftrightarrow> j < m"
        unfolding less_max_iff_disj using that(1) False k e(1,2) by linarith
      ultimately show ?thesis using rep_clean [OF rep _ that(1)] False by simp
    qed (simp add: p(1) [symmetric] less_max_iff_disj)
    ultimately show ?thesis using C P by (simp add: rep_chunks_def)
  qed
  show ?thesis using conf disk' head tail cache chunks by (simp add: file_rep_def)
qed

text \<open>The relation with any chunks on the disk, and what flushing keeps.\<close>

definition stands_for :: "aead \<Rightarrow> nat \<Rightarrow> byte list \<Rightarrow> byte list \<Rightarrow> crypt_file \<Rightarrow> bool" where
  "stands_for A K desc plain s \<longleftrightarrow> (\<exists>m dk. file_rep A K desc Null plain m dk s)"

definition like :: "chunk \<Rightarrow> chunk \<Rightarrow> bool" where
  "like c c' \<longleftrightarrow> ck_seqnum c' = ck_seqnum c \<and> ck_content c' = ck_content c \<and> ck_offset c' = ck_offset c
     \<and> ck_maxSize c' = ck_maxSize c \<and> (ck_dirty c' \<longrightarrow> ck_dirty c)"

definition kept :: "crypt_file \<Rightarrow> crypt_file \<Rightarrow> bool" where
  "kept s s' \<longleftrightarrow> cfg s' = cfg s \<and> place s' = place s \<and> (\<forall>r. rel_option like (deref s r) (deref s' r))"

lemma like_refl: "like c c" by (simp add: like_def)

lemma like_trans: "like a b \<Longrightarrow> like b c \<Longrightarrow> like a c" by (simp add: like_def)

lemma kept_refl: "kept s s" by (simp add: kept_def option.rel_refl like_refl)

lemma kept_trans: "kept s t \<Longrightarrow> kept t u \<Longrightarrow> kept s u"
proof -
  assume k: "kept s t" "kept t u"
  have "rel_option like (deref s r) (deref u r)" for r
  proof -
    have "rel_option like (deref s r) (deref t r)" "rel_option like (deref t r) (deref u r)" using k by (auto simp: kept_def)
    then show ?thesis by (cases "deref s r"; cases "deref t r"; cases "deref u r") (auto intro: like_trans)
  qed
  then show ?thesis using k by (simp add: kept_def)
qed

lemma kept_cfg: "kept s s' \<Longrightarrow> cfg s' = cfg s" "kept s s' \<Longrightarrow> place s' = place s" by (simp_all add: kept_def)

lemma kept_deref: "kept s s' \<Longrightarrow> deref s r = Some c \<Longrightarrow> \<exists>c'. deref s' r = Some c' \<and> like c c'"
  unfolding kept_def by (metis option_rel_Some1)

lemma kept_deref': "kept s s' \<Longrightarrow> deref s' r = Some c' \<Longrightarrow> \<exists>c. deref s r = Some c \<and> like c c'"
  unfolding kept_def by (metis option_rel_Some2)

lemma kept_held: "kept s s' \<Longrightarrow> held s' r c' \<Longrightarrow> \<exists>c. held s r c \<and> like c c'"
  using kept_deref' [of s s' r c'] placeD [OF kept_cfg(2), of s s'] by (auto simp: held_def)

lemma kept_cursor: "kept s s' \<Longrightarrow> cursor_ok plain s \<Longrightarrow> cursor_ok plain s'"
  using cfgD [OF kept_cfg(1), of s s'] placeD [OF kept_cfg(2), of s s'] kept_deref [of s s' "cf_current s"]
  unfolding cursor_ok_def like_def by metis

definition clean_ref :: "chunk_ref \<Rightarrow> crypt_file \<Rightarrow> bool" where
  "clean_ref r s \<longleftrightarrow> (\<forall>c. deref s r = Some c \<longrightarrow> \<not> ck_dirty c)"

lemma kept_clean: "kept s s' \<Longrightarrow> clean_ref r s \<Longrightarrow> clean_ref r s'"
  using kept_deref' [of s s' r] by (auto simp: clean_ref_def like_def)

lemma flushChunk_steps:
  assumes "deref s r = Some c"
    and pack: "packChunk A (cf_cc s) (ck_seqnum c) (cf_draws s) (ck_content c) [] 0 = Inr b" and "b \<noteq> []"
    and seek: "seekReadRawChunk A r False 0 (s\<lparr>cf_draws := cf_draws s + 1\<rparr>) = Some (Inr (), raw_seek P (s\<lparr>cf_draws := cf_draws s + 1\<rparr>))"
  shows "flushChunk A r False s = Some (Inr (), assign r (c\<lparr>ck_ciphertextSize := length b, ck_dirty := False\<rparr>)
    (s\<lparr>cf_draws := cf_draws s + 1, cf_raw := Some (raw_put P b (raw_bytes s)), cf_raw_pos := P + length b,
       cf_ciphertextSize := w64 (cf_ciphertextSize s + sub64 (length b) (ck_ciphertextSize c))\<rparr>))"
proof -
  have raw: "raw_bytes (raw_seek P (s\<lparr>cf_draws := cf_draws s + 1\<rparr>)) = raw_bytes s" by (simp add: raw_bytes_def raw_seek_def)
  have d: "deref (s\<lparr>cf_draws := d, cf_raw := x, cf_raw_pos := y, cf_ciphertextSize := z\<rparr>) r = Some c" for d x y z
    using assms(1) by simp
  show ?thesis
    using assms(1,3) pack seek d
    by (simp add: flushChunk_def with_chunk_def chk_def done_with_def raw_write_def raw Let_def deref_assign assign_assign)
      (simp add: raw_seek_def raw_bytes_def)
qed

lemma flushChunk_ok:
  assumes rep: "stands_for A K desc plain s" and c: "held s r c" "ck_dirty c"
  shows "goes (flushChunk A r False) s (\<lambda>_ s'. stands_for A K desc plain s' \<and> kept s s' \<and> clean_ref r s'
    \<and> cf_sizeDirty s' = cf_sizeDirty s)"
proof -
  obtain m dk where rep: "file_rep A K desc Null plain m dk s" using rep by (auto simp: stands_for_def)
  let ?k = "ck_seqnum c" and ?p = "ck_content c" and ?cc = "cf_cc s" and ?E = "cf_eofSeqnum s" and ?D = "cf_dataOffset s"
  note R = file_repD [OF rep]
  have dr: "deref s r = Some c" using c(1) by (simp add: held_def)
  have "r \<noteq> Null" using dr by auto
  then have ok: "chunk_ok A plain m dk s r c" by (rule rep_chunk [OF rep c(1)])
  have e: "m \<le> Suc ?E" "?E \<le> m" "m = ?E \<Longrightarrow> length (dk (m - 1)) = width ?cc (m - 1)" using R(4) by (auto simp: rep_end_def)
  have k: "?k \<le> m" "?k = m \<longrightarrow> length (dk (m - 1)) = width ?cc (m - 1)" and mK: "m \<le> K + 2"
    using ok e R(10) by (auto simp: chunk_ok_def)
  let ?b = "packed A (cf_draws s) ?k ?p" and ?P = "?D + rstart A ?cc ?k"
  have lp: "length ?p \<le> width ?cc ?k" using ok by (simp add: chunk_ok_def piece_def)
  have lb: "length ?b = length ?p + ae_extra A + 4" by (rule length_packed [OF R(8)])
  then have ne: "?b \<noteq> []" by auto
  have pack: "packChunk A ?cc ?k (cf_draws s) ?p [] 0 = Inr ?b"
    using packChunk_append [of ?cc ?k ?p A "cf_draws s" "[]"] lp by simp
  let ?s1 = "s\<lparr>cf_draws := cf_draws s + 1\<rparr>"
  have d1: "rep_disk A m dk ?s1" using R(2) by (simp add: rep_disk_def raw_bytes_def)
  have seek: "seekReadRawChunk A r False 0 ?s1 = Some (Inr (), raw_seek ?P ?s1)"
    using seek_raw [of A ?s1 K m dk c r] R(7) d1 mK k dr by simp
  note steps = flushChunk_steps [OF dr pack ne seek]
  let ?s' = "assign r (c\<lparr>ck_ciphertextSize := length ?b, ck_dirty := False\<rparr>)
    (s\<lparr>cf_draws := cf_draws s + 1, cf_raw := Some (raw_put ?P ?b (raw_bytes s)), cf_raw_pos := ?P + length ?b,
       cf_ciphertextSize := w64 (cf_ciphertextSize s + sub64 (length ?b) (ck_ciphertextSize c))\<rparr>)"
  have cl: "cf_ciphertextSize s = clen A ?cc m dk" using R(2) by (simp add: rep_disk_def)
  have small: "clen A ?cc m dk + length ?b < 2 ^ 64"
    using rep_size(1,2) [OF R(7,2) mK] chunk_bound [OF R(7) _ lp] ok R(10) lb by (simp add: chunk_ok_def)
  have size: "w64 (cf_ciphertextSize s + sub64 (length ?b) (ck_ciphertextSize c)) = clen A ?cc (max m (Suc ?k)) (dk(?k := ?p))"
  proof -
    consider "Suc ?k < m" | "Suc ?k = m" | "?k = m" using k(1) by linarith
    then show ?thesis
    proof cases
      case 1
      then have "length (dk ?k) = width ?cc ?k" using R(2) by (simp add: rep_disk_def disk_ok_def)
      moreover have "?k < ?E" using 1 e by linarith
      then have "length ?p = width ?cc ?k"
        using ok R(4) cstart_less [of ?k ?E ?cc] piece_full [of ?cc ?k plain] by (simp add: chunk_ok_def rep_end_def)
      ultimately have eq: "length ?b = ck_ciphertextSize c" using ok lb 1 by (simp add: chunk_ok_def)
      have "rstart A ?cc (Suc ?k) \<le> rstart A ?cc (m - 1)" by (rule rstart_mono) (use 1 in simp)
      then have "ck_ciphertextSize c \<le> clen A ?cc m dk"
        using \<open>length ?p = width ?cc ?k\<close> eq lb by (simp add: rstart_Suc clen_def)
      moreover have "m - Suc 0 \<noteq> ?k" using 1 by linarith
      ultimately show ?thesis using w64_sub64 [OF _ small, of "ck_ciphertextSize c"] eq 1 cl by (simp add: clen_def max_def)
    next
      case 2
      then have "ck_ciphertextSize c = length (dk ?k) + ae_extra A + 4" and mk: "m - 1 = ?k" using ok by (auto simp: chunk_ok_def)
      then have old: "clen A ?cc m dk = rstart A ?cc ?k + ck_ciphertextSize c" by (simp add: clen_def)
      have "max m (Suc ?k) = m" using 2 by simp
      then have "clen A ?cc (max m (Suc ?k)) (dk(?k := ?p)) = rstart A ?cc ?k + length ?b"
        using mk lb by (simp add: clen_def)
      then show ?thesis using w64_sub64 [OF _ small, of "ck_ciphertextSize c"] old cl by simp
    next
      case 3
      then have z: "ck_ciphertextSize c = 0" using ok by (simp add: chunk_ok_def)
      have "clen A ?cc m dk = rstart A ?cc ?k"
        using 3 k(2) R(9) rstart_Suc [of A ?cc "m - 1"] by (simp add: clen_def)
      then show ?thesis using w64_sub64 [OF _ small, of 0] z 3 cl lb by (simp add: clen_def max_def)
    qed
  qed
  have dd: "deref ?s' = deref (assign r (c\<lparr>ck_ciphertextSize := length ?p + ae_extra A + 4, ck_dirty := False\<rparr>) s)"
    using dr by (simp add: fun_eq_iff deref_assign lb)
  have cp: "cfg ?s' = cfg s" "place ?s' = place s" by (simp_all add: cfg_def place_def)
  have "file_rep A K desc Null plain (max m (Suc ?k)) (dk(?k := ?p)) ?s'"
    by (rule flush_rep [OF rep c cp _ _ _ dd, where d = "cf_draws s"]) (simp_all add: raw_bytes_def size)
  moreover have "kept s ?s'" "clean_ref r ?s'" "cf_sizeDirty ?s' = cf_sizeDirty s"
    using cp dr by (auto simp: kept_def clean_ref_def deref_assign like_def option.rel_refl)
  ultimately show ?thesis unfolding goes_eq [of "flushChunk A r False", OF steps] stands_for_def by blast
qed

lemma flush_dirty_ok:
  assumes "stands_for A K desc plain s" and "held s r c"
  shows "goes (flush_dirty A r) s (\<lambda>_ s'. stands_for A K desc plain s' \<and> kept s s' \<and> clean_ref r s'
    \<and> cf_sizeDirty s' = cf_sizeDirty s)"
proof -
  have d: "deref s r = Some c" using assms(2) by (simp add: held_def)
  show ?thesis
    using flushChunk_ok [OF assms] assms(1) d kept_refl
    by (simp add: flush_dirty_def goes_with [OF d] clean_ref_def)
qed

lemma stands_held: "stands_for A K desc plain s \<Longrightarrow> held s r c \<Longrightarrow> \<exists>m dk. chunk_ok A plain m dk s r c"
  unfolding stands_for_def by (metis rep_chunk held_def deref_Null option.distinct(1))

lemma stands_held_unique:
  "stands_for A K desc plain s \<Longrightarrow> held s r c \<Longrightarrow> held s r' c' \<Longrightarrow> ck_seqnum c = ck_seqnum c' \<Longrightarrow> r' = r"
  unfolding stands_for_def by (metis held_unique held_def deref_Null option.distinct(1))

lemma current_held: "deref s (cf_current s) = Some c \<Longrightarrow> held s (cf_current s) c"
  by (auto simp: held_def)

lemma flushLast_ok:
  assumes "stands_for A K desc plain s" and "cf_current s \<noteq> Null \<longrightarrow> deref s (cf_current s) \<noteq> None"
  shows "goes (flushLastChunk A) s (\<lambda>_ s'. stands_for A K desc plain s' \<and> kept s s'
    \<and> \<not> dirty_at s' (cf_eofSeqnum s') \<and> cf_sizeDirty s' = cf_sizeDirty s)"
proof -
  have last: "cf_current s = r" if "held s r c" "ck_dirty c" "ck_seqnum c = cf_eofSeqnum s" for r c
    using stands_held [OF assms(1) that(1)] that by (auto simp: chunk_ok_def)
  show ?thesis
  proof (cases "cf_current s = Null")
    case True
    then have "\<not> dirty_at s (cf_eofSeqnum s)"
      unfolding dirty_at_def using last by (metis held_def deref_Null option.distinct(1))
    then show ?thesis using True assms(1) kept_refl by (simp add: goes_def flushLastChunk_def done_with_def)
  next
    case False
    then obtain c where d: "deref s (cf_current s) = Some c" using assms(2) by auto
    note h = current_held [OF d]
    show ?thesis
    proof (cases "ck_dirty c \<and> isLastChunk s c")
      case True
      have fin: "\<not> dirty_at s' (cf_eofSeqnum s')" if k: "kept s s'" "clean_ref (cf_current s) s'" for s'
      proof
        assume "dirty_at s' (cf_eofSeqnum s')"
        then obtain r c' where c': "held s' r c'" "ck_seqnum c' = cf_eofSeqnum s'" "ck_dirty c'" by (auto simp: dirty_at_def)
        then have "cf_current s = r" using kept_held [OF k(1) c'(1)] last placeD [OF kept_cfg(2) [OF k(1)]] by (metis like_def)
        then show False using k(2) c' by (auto simp: clean_ref_def held_def)
      qed
      have "goes (flushChunk A (cf_current s) False) s (\<lambda>_ s'. stands_for A K desc plain s' \<and> kept s s'
          \<and> \<not> dirty_at s' (cf_eofSeqnum s') \<and> cf_sizeDirty s' = cf_sizeDirty s)"
        by (rule goes_mono [OF flushChunk_ok [OF assms(1) h]]) (use True fin in blast)+
      then show ?thesis using True False by (simp add: goes_def flushLastChunk_def with_chunk_def d)
    next
      case no: False
      have "\<not> dirty_at s (cf_eofSeqnum s)"
        unfolding dirty_at_def using no d last unfolding isLastChunk_def held_def by (metis option.inject)
      then show ?thesis using False no assms(1) kept_refl
        by (auto simp: goes_def flushLastChunk_def with_chunk_def d done_with_def)
    qed
  qed
qed

lemma flush_each_ok:
  "stands_for A K desc plain s \<Longrightarrow> \<forall>k \<in> set ks. deref s (Cached k) \<noteq> None \<Longrightarrow>
    goes (flush_each A ks) s (\<lambda>_ s'. stands_for A K desc plain s' \<and> kept s s'
      \<and> (\<forall>k \<in> set ks. clean_ref (Cached k) s') \<and> cf_sizeDirty s' = cf_sizeDirty s)"
proof (induction ks arbitrary: s)
  case Nil
  then show ?case by (simp add: goes_def done_with_def kept_refl)
next
  case (Cons k ks)
  then obtain c where "held s (Cached k) c" by (auto simp: held_def)
  note first = flush_dirty_ok [OF Cons.prems(1) this]
  have step: "goes (flush_each A ks) t (\<lambda>_ s'. stands_for A K desc plain s' \<and> kept s s'
      \<and> (\<forall>j \<in> set (k # ks). clean_ref (Cached j) s') \<and> cf_sizeDirty s' = cf_sizeDirty s)"
    if t: "stands_for A K desc plain t" "kept s t" "clean_ref (Cached k) t" "cf_sizeDirty t = cf_sizeDirty s" for t
  proof (rule goes_mono [OF Cons.IH [OF t(1)]])
    show "\<forall>j \<in> set ks. deref t (Cached j) \<noteq> None"
    proof
      fix j assume "j \<in> set ks"
      then obtain c where "deref s (Cached j) = Some c" using Cons.prems(2) by auto
      then show "deref t (Cached j) \<noteq> None" using kept_deref [OF t(2)] by fastforce
    qed
  next
    fix x s'
    assume "stands_for A K desc plain s' \<and> kept t s' \<and> (\<forall>k \<in> set ks. clean_ref (Cached k) s') \<and> cf_sizeDirty s' = cf_sizeDirty t"
    then show "stands_for A K desc plain s' \<and> kept s s' \<and> (\<forall>j \<in> set (k # ks). clean_ref (Cached j) s') \<and> cf_sizeDirty s' = cf_sizeDirty s"
      using t(3,4) kept_trans [OF t(2)] kept_clean [of t s' "Cached k"] by auto
  qed
  have "goes (chk (flush_dirty A (Cached k)) (\<lambda>_. flush_each A ks)) s (\<lambda>_ s'. stands_for A K desc plain s' \<and> kept s s'
      \<and> (\<forall>j \<in> set (k # ks). clean_ref (Cached j) s') \<and> cf_sizeDirty s' = cf_sizeDirty s)"
    unfolding goes_chk by (rule goes_mono [OF first]) (rule step; blast)
  then show ?case by (simp add: goes_def)
qed

lemma deref_key: "k \<in> set (List.map fst (cf_cache s)) \<longleftrightarrow> deref s (Cached k) \<noteq> None"
  by (auto simp: deref_def map_of_eq_None_iff)

lemma header_sizes:
  "raw_put 14 (le_bytes 8 c) (raw_put 6 (le_bytes 8 p) (header_bytes st d q z @ tail)) = header_bytes st d p c @ tail"
  by (simp add: raw_put_def header_bytes_def header_consts)

lemma disk_ok_drop: "drop D raw' = drop D raw \<Longrightarrow> disk_ok A cc D raw' m dk = disk_ok A cc D raw m dk"
proof -
  assume eq: "drop D raw' = drop D raw"
  have "drop (D + k) raw' = drop (D + k) raw" for k by (metis eq add.commute drop_drop)
  then show ?thesis by (simp add: disk_ok_def slice_ok_def)
qed

lemma writeSize_ok:
  assumes "stands_for A K desc plain s" and clean: "\<And>k. \<not> dirty_at s k"
  shows "goes writeSize s (\<lambda>_ s'. stands_for A K desc plain s' \<and> kept s s' \<and> \<not> cf_sizeDirty s')"
proof -
  obtain m dk where rep: "file_rep A K desc Null plain m dk s" using assms(1) by (auto simp: stands_for_def)
  note R = file_repD [OF rep]
  let ?cc = "cf_cc s" and ?E = "cf_eofSeqnum s" and ?D = "cf_dataOffset s"
  show ?thesis
  proof (cases "cf_sizeDirty s")
    case False
    then show ?thesis using assms(1) kept_refl by (simp add: goes_def writeSize_def done_with_def)
  next
    case True
    obtain q z where qz: "take ?D (raw_bytes s) = header_bytes False (length desc) q z @ desc"
      using R(3) by (auto simp: rep_head_def)
    have D: "?D = 22 + length desc" using R(1) by (simp add: rep_conf_def)
    have raw: "raw_bytes s = header_bytes False (length desc) q z @ desc @ drop ?D (raw_bytes s)"
      using append_take_drop_id [of ?D "raw_bytes s"] unfolding qz by simp
    let ?raw = "header_bytes False (length desc) (length plain) (cf_ciphertextSize s) @ desc @ drop ?D (raw_bytes s)"
    let ?s' = "s\<lparr>cf_raw := Some ?raw, cf_raw_pos := 22, cf_sizeDirty := False\<rparr>"
    have nostream: "\<not> cc_streaming ?cc" by (rule layoutD(2) [OF R(7)])
    have "writeSize s = Some (Inr (), ?s')"
      using True nostream header_sizes [of "cf_ciphertextSize s" "length plain" False "length desc" q z "desc @ drop ?D (raw_bytes s)"]
        raw R(11)
      by (simp add: writeSize_def done_with_def raw_write_def raw_seek_def raw_bytes_def Let_def
          PLAINTEXT_SIZE_OFFSET_def CIPHERTEXT_SIZE_OFFSET_def)
    moreover have "kept s ?s'"
      by (simp add: kept_def cfg_def place_def option.rel_refl like_refl)
    moreover have "file_rep A K desc Null plain m dk ?s'"
    proof -
      have same: "cfg ?s' = cfg s" "place ?s' = place s" by (simp_all add: cfg_def place_def)
      have "drop ?D ?raw = drop ?D (raw_bytes s)" using D by simp
      then have disk: "rep_disk A m dk ?s'"
        using R(2) disk_ok_drop [of ?D ?raw "raw_bytes s" A ?cc m dk] by (simp add: rep_disk_def raw_bytes_def)
      have last: "cstart ?cc (m - 1) + length (dk (m - 1)) = length plain"
      proof (cases "m = ?E")
        case True
        then have "piece ?cc plain m = []" "length (dk (m - 1)) = width ?cc (m - 1)" "cstart ?cc m \<le> length plain"
          using rep_clean [OF rep clean, of m] R(4) by (auto simp: rep_end_def)
        moreover have "0 < width ?cc m" by (rule layoutD(5) [OF R(7)])
        ultimately have "cstart ?cc m = length plain" using length_piece [of ?cc plain m] by auto
        then show ?thesis using cstart_Suc [of ?cc "m - 1"] R(9) \<open>length (dk (m - 1)) = width ?cc (m - 1)\<close> by simp
      next
        case False
        then have "m = Suc ?E" using R(4) by (simp add: rep_end_def)
        then show ?thesis
          using rep_clean [OF rep clean, of ?E] R(4) length_piece [of ?cc plain ?E]
          by (auto simp: rep_end_def cstart_Suc min_def)
      qed
      have head: "rep_head desc plain m dk ?s'" using D last by (simp add: rep_head_def raw_bytes_def)
      have "rep_end K plain m dk ?s'" using R(4) by (simp add: rep_end_def)
      moreover have "rep_chunks A Null plain m dk ?s'"
      proof -
        have "held ?s' = held s" by (simp add: fun_eq_iff held_def)
        moreover from this have "dirty_at ?s' = dirty_at s" by (simp add: fun_eq_iff dirty_at_def)
        moreover have "chunk_ok A plain m dk ?s' = chunk_ok A plain m dk s"
          using chunk_ok_same [OF same] by (intro ext) simp
        ultimately show ?thesis using R(6) by (simp add: rep_chunks_def)
      qed
      ultimately show ?thesis
        using R(1,5) rep_conf_same [OF same(1)] rep_cache_same [OF same] disk head by (simp add: file_rep_def)
    qed
    ultimately show ?thesis by (auto simp: goes_def stands_for_def)
  qed
qed

lemma stands_cache: "stands_for A K desc plain s \<Longrightarrow> rep_cache s"
  by (auto simp: stands_for_def file_rep_def)

lemma doFlush_ok:
  assumes "stands_for A K desc plain s" and cur: "cf_current s \<noteq> Null \<longrightarrow> deref s (cf_current s) \<noteq> None"
  shows "goes (doFlush A) s (\<lambda>_ s'. stands_for A K desc plain s' \<and> kept s s'
    \<and> (isWriteMode s \<longrightarrow> \<not> cf_sizeDirty s' \<and> (\<forall>k. \<not> dirty_at s' k)))"
proof (cases "isWriteMode s")
  case False
  then show ?thesis using assms(1) kept_refl by (simp add: goes_def doFlush_def done_with_def)
next
  case True
  have open_s: "cf_isOpen s" using assms(1) by (auto simp: stands_for_def file_rep_def rep_conf_def)
  let ?each = "\<lambda>s. if cf_cache s = [] then (if cf_current s \<noteq> Null then flush_dirty A (cf_current s) s else done_with () s)
    else flush_each A (sort (List.map fst (cf_cache s))) s"
  have each: "goes ?each s (\<lambda>_ s'. stands_for A K desc plain s' \<and> kept s s' \<and> (\<forall>k. \<not> dirty_at s' k))"
  proof (cases "cf_cache s = []")
    case empty: True
    have only: "r = cf_current s" if "held s r c" for r c
      using that empty by (auto simp: held_def deref_def split: chunk_ref.splits)
    show ?thesis
    proof (cases "cf_current s = Null")
      case True
      then have "\<not> held s r c" for r c using only by (metis held_def deref_Null option.distinct(1))
      then show ?thesis using True empty assms(1) kept_refl by (simp add: goes_def done_with_def dirty_at_def)
    next
      case False
      then obtain c where "held s (cf_current s) c" using cur current_held by fastforce
      note fl = flush_dirty_ok [OF assms(1) this]
      have "\<forall>k. \<not> dirty_at s' k" if "kept s s'" "clean_ref (cf_current s) s'" for s'
      proof (intro allI notI)
        fix k assume "dirty_at s' k"
        then obtain r c where r: "held s' r c" "ck_dirty c" by (auto simp: dirty_at_def)
        then have "r = cf_current s" using kept_held [OF that(1)] only by blast
        then show False using r that(2) by (auto simp: clean_ref_def held_def)
      qed
      then have "goes (flush_dirty A (cf_current s)) s (\<lambda>_ s'. stands_for A K desc plain s' \<and> kept s s' \<and> (\<forall>k. \<not> dirty_at s' k))"
        by (intro goes_mono [OF fl]) blast
      then show ?thesis using False empty by (simp add: goes_def)
    qed
  next
    case False
    let ?ks = "sort (List.map fst (cf_cache s))"
    have ks: "k \<in> set ?ks \<longleftrightarrow> deref s (Cached k) \<noteq> None" for k using deref_key [of k s] by simp
    then have "\<forall>k \<in> set ?ks. deref s (Cached k) \<noteq> None" by blast
    note fl = flush_each_ok [OF assms(1) this]
    have "cf_current s \<noteq> Single" using stands_cache [OF assms(1)] False by (auto simp: rep_cache_def split: if_splits)
    have "\<forall>k. \<not> dirty_at s' k" if k: "kept s s'" "\<forall>k \<in> set ?ks. clean_ref (Cached k) s'" for s'
    proof (intro allI notI)
      fix k assume "dirty_at s' k"
      then obtain r c where r: "held s' r c" "ck_dirty c" by (auto simp: dirty_at_def)
      then obtain c0 where "held s r c0" using kept_held [OF k(1)] by blast
      then obtain j where "r = Cached j" "deref s (Cached j) \<noteq> None"
        using \<open>cf_current s \<noteq> Single\<close> by (cases r) (auto simp: held_def)
      then have "clean_ref r s'" using k(2) ks by blast
      then show False using r by (auto simp: clean_ref_def held_def)
    qed
    then have "goes (flush_each A ?ks) s (\<lambda>_ s'. stands_for A K desc plain s' \<and> kept s s' \<and> (\<forall>k. \<not> dirty_at s' k))"
      by (intro goes_mono [OF fl]) blast
    then show ?thesis using False by (simp add: goes_def)
  qed
  have "goes (chk ?each (\<lambda>_. writeSize)) s (\<lambda>_ s'. stands_for A K desc plain s' \<and> kept s s'
      \<and> (isWriteMode s \<longrightarrow> \<not> cf_sizeDirty s' \<and> (\<forall>k. \<not> dirty_at s' k)))"
    unfolding goes_chk
  proof (rule goes_mono [OF each])
    fix x t assume t: "stands_for A K desc plain t \<and> kept s t \<and> (\<forall>k. \<not> dirty_at t k)"
    then have "stands_for A K desc plain t" "\<And>k. \<not> dirty_at t k" by auto
    then show "goes writeSize t (\<lambda>_ s'. stands_for A K desc plain s' \<and> kept s s'
        \<and> (isWriteMode s \<longrightarrow> \<not> cf_sizeDirty s' \<and> (\<forall>k. \<not> dirty_at s' k)))"
    proof (rule goes_mono [OF writeSize_ok])
      fix y u assume u: "stands_for A K desc plain u \<and> kept t u \<and> \<not> cf_sizeDirty u"
      have "\<not> dirty_at u k" for k
        using kept_held [of t u] u t unfolding dirty_at_def by (metis like_def)
      then show "stands_for A K desc plain u \<and> kept s u \<and> (isWriteMode s \<longrightarrow> \<not> cf_sizeDirty u \<and> (\<forall>k. \<not> dirty_at u k))"
        using u t kept_trans by blast
    qed
  qed
  then show ?thesis using True open_s by (simp add: goes_def doFlush_def)
qed

end
