(* ===== verification/CryptSeek.thy ===== *)
theory CryptSeek
  imports CryptRefine
begin

section \<open>Seeking in encrypted files\<close>

subsection \<open>Reading a chunk from the disk\<close>

lemma eofPos_seek [simp]: "eofPos (raw_seek p s) = eofPos s"
  by (simp add: eofPos_def raw_seek_def)

lemma read_raw:
  assumes "layout_ok A (cf_cc s) (cf_dataOffset s) K" and "rep_disk A m dk s" and "m \<le> K + 2"
    and "deref s r = Some c" and "ck_seqnum c < m" and "ck_content c = []"
  shows "seekReadRawChunk A r True ow s = Some (Inr (),
    assign r (c\<lparr>ck_content := (if ow = 0 then dk (ck_seqnum c) else []),
                ck_ciphertextSize := length (dk (ck_seqnum c)) + ae_extra A + 4\<rparr>)
      (s\<lparr>cf_raw_pos := cf_dataOffset s + rstart A (cf_cc s) (ck_seqnum c)
           + (if ow = 0 then length (dk (ck_seqnum c)) + ae_extra A + 4 else 0)\<rparr>))"
proof -
  let ?k = "ck_seqnum c" and ?cc = "cf_cc s" and ?D = "cf_dataOffset s"
  let ?P = "?D + rstart A ?cc ?k" and ?l = "length (dk ?k) + ae_extra A + 4"
  note A = layoutD(1) [OF assms(1)]
  have disk: "disk_ok A ?cc ?D (raw_bytes s) m dk" using assms(2) by (simp add: rep_disk_def)
  have pos: "seqnumToRawPos A ?cc ?D ?k = Some ?P"
    by (rule seqnumToRawPos_rstart [OF assms(1)]) (use assms(3,5) in simp)
  have le: "?P \<le> eofPos s" by (rule start_le_eof [OF assms(1-3)]) (use assms(5) in simp_all)
  note size = rep_size [OF assms(1-3)]
  have w: "length (dk ?k) \<le> width ?cc ?k" using disk assms(5) by (simp add: disk_ok_def)
  have len: "clip_size (eofPos s) ?P (width ?cc ?k + ae_extra A + 4) = ?l"
  proof (cases "Suc ?k < m")
    case True
    then have full: "length (dk ?k) = width ?cc ?k" using disk by (simp add: disk_ok_def)
    have "rstart A ?cc (Suc ?k) \<le> rstart A ?cc (m - 1)" by (rule rstart_mono) (use True in simp)
    then have le: "?P + ?l \<le> eofPos s" unfolding size(1) by (simp add: rstart_Suc clen_def full)
    then have "w64 (?P + ?l) = ?P + ?l" using size(2) by simp
    then show ?thesis using le full by (simp add: clip_size_def add.assoc)
  next
    case False
    then have "m - 1 = ?k" using assms(5) by linarith
    then have e: "eofPos s = ?P + ?l" unfolding size(1) clen_def by simp
    have "?P + (width ?cc ?k + ae_extra A + 4) < 2 ^ 32"
      using chunk_bound [OF assms(1), of ?k "width ?cc ?k"] assms(3,5) by simp
    then show ?thesis using e size(2) w by (simp add: clip_size_def)
  qed
  obtain d where slice: "take ?l (drop ?P (raw_bytes s)) = packed A d ?k (dk ?k)"
    using disk assms(5) by (auto simp: disk_ok_def slice_ok_def add.assoc)
  have peek: "raw_peek ?l (raw_seek ?P s) = packed A d ?k (dk ?k)"
    using slice by (simp add: raw_peek_def raw_seek_def raw_bytes_def)
  have lp: "length (packed A d ?k (dk ?k)) = ?l" by (rule length_packed [OF A])
  have "length (dk ?k) + ae_extra A < 2 ^ 32"
    using chunk_bound [OF assms(1) _ w] assms(3,5) by simp
  then have unpack: "unpackChunk A ?k (packed A d ?k (dk ?k)) [] = Inr (dk ?k)"
    using unpackChunk_packed [OF A, of "dk ?k" ?k d "[]" "[]"] by simp
  have "?l \<noteq> 0" by simp
  then show ?thesis
    unfolding seekReadRawChunk_def with_chunk_def
    using assms(4,6) pos le size(3) len peek unpack lp
    by (simp add: packed_size(2) [OF assms(1)] not_less Let_def raw_skip_def done_with_def) (simp add: raw_seek_def)
qed

lemma read_raw_none:
  assumes "layout_ok A (cf_cc s) (cf_dataOffset s) K" and "rep_disk A m dk s" and "m \<le> K + 1"
    and "deref s r = Some c" and "ck_seqnum c = m" and "length (dk (m - 1)) = width (cf_cc s) (m - 1)"
  shows "seekReadRawChunk A r True ow s =
    Some (Inr (), s\<lparr>cf_raw_pos := cf_dataOffset s + rstart A (cf_cc s) m\<rparr>)"
proof -
  let ?cc = "cf_cc s" and ?D = "cf_dataOffset s"
  have m: "m \<le> K + 2" "0 < m" using assms(2,3) by (auto simp: rep_disk_def disk_ok_def)
  note size = rep_size [OF assms(1,2) m(1)]
  have e: "eofPos s = ?D + rstart A ?cc m"
    unfolding size(1) using m(2) assms(6) rstart_Suc [of A ?cc "m - 1"] by (simp add: clen_def)
  have pos: "seqnumToRawPos A ?cc ?D m = Some (?D + rstart A ?cc m)"
    by (rule seqnumToRawPos_rstart [OF assms(1) m(1)])
  have "?D + rstart A ?cc m + width ?cc m + ae_extra A + 4 < 2 ^ 32" by (rule chunk_bound [OF assms(1,3)]) simp
  then have "w64 (?D + rstart A ?cc m + (width ?cc m + ae_extra A + 4)) = ?D + rstart A ?cc m + (width ?cc m + ae_extra A + 4)"
    by simp
  then show ?thesis
    unfolding seekReadRawChunk_def with_chunk_def
    using assms(4,5) pos e size(3)
    by (simp add: packed_size(2) [OF assms(1)] not_less Let_def done_with_def clip_size_def) (simp add: raw_seek_def)
qed

subsection \<open>Entering a chunk\<close>

text \<open>A chunk in memory waits to be filled with the chunk of the disk.\<close>

definition waiting :: "aead \<Rightarrow> nat \<Rightarrow> byte list \<Rightarrow> byte list \<Rightarrow> nat \<Rightarrow> (nat \<Rightarrow> byte list) \<Rightarrow> nat \<Rightarrow> chunk_ref \<Rightarrow> crypt_file \<Rightarrow> bool" where
  "waiting A K desc plain m dk k r u \<longleftrightarrow>
     file_rep A K desc r plain m dk u \<and> cf_current u = Null \<and> \<not> dirty_at u (cf_eofSeqnum u)
     \<and> (r = Cached k \<and> useCache u \<or> r = Single \<and> \<not> useCache u)
     \<and> (\<exists>c. deref u r = Some c \<and> ck_seqnum c = k \<and> ck_content c = [] \<and> \<not> ck_dirty c \<and> ck_ciphertextSize c = 0)"

lemma waiting_other: "waiting A K desc plain m dk k r u \<Longrightarrow> held u r' c \<Longrightarrow> r' \<noteq> r \<Longrightarrow> ck_seqnum c \<noteq> k"
proof -
  assume w: "waiting A K desc plain m dk k r u" and h: "held u r' c" "r' \<noteq> r"
  then have rep: "file_rep A K desc r plain m dk u" by (simp add: waiting_def)
  have cached: "r' = Cached n \<Longrightarrow> ck_seqnum c = n" for n
    using rep_chunk [OF rep h] by (simp add: chunk_ok_def)
  have "cf_current u = Null" using w by (simp add: waiting_def)
  then have "r' \<noteq> Single" "r' \<noteq> Null" using h(1) by (auto simp: held_def)
  then obtain n where n: "r' = Cached n" by (cases r') auto
  have "r = Cached k \<or> cf_cache u = []"
    using w file_repD(5) [OF rep] by (auto simp: waiting_def rep_cache_def split: if_splits)
  then show ?thesis using cached n h by (auto simp: held_def deref_def)
qed

lemma waiting_clean: "waiting A K desc plain m dk k r u \<Longrightarrow> \<not> dirty_at u k"
proof
  assume w: "waiting A K desc plain m dk k r u" and "dirty_at u k"
  then obtain r' c where r': "held u r' c" "ck_seqnum c = k" "ck_dirty c" by (auto simp: dirty_at_def)
  then have "r' = r" using waiting_other [OF w] by blast
  then show False using r' w by (auto simp: waiting_def held_def)
qed

lemma chunk_ok_grow:
  assumes ok: "chunk_ok A plain m dk u r x" and "cfg s' = cfg u" and "cf_eofSeqnum u \<le> cf_eofSeqnum s'"
    and "ck_dirty x \<longrightarrow> ck_seqnum x \<noteq> cf_eofSeqnum s'" and "\<not> useCache u \<longrightarrow> \<not> ck_dirty x"
  shows "chunk_ok A plain m dk s' r x"
proof -
  have C: "cf_cc s' = cf_cc u" "isWriteMode s' = isWriteMode u" "useCache s' = useCache u"
    using cfgD [OF assms(2)] by blast+
  show ?thesis using ok assms(3-5) unfolding chunk_ok_def C by auto
qed

text \<open>The relation after the waiting chunk was filled and entered.\<close>

lemma enter_rep:
  assumes w: "waiting A K desc plain m dk k r u"
    and k: "k \<le> Suc (cf_eofSeqnum u)" "k \<le> m" "k \<le> K + 1" "k = Suc (cf_eofSeqnum u) \<longrightarrow> length plain = cstart (cf_cc u) k"
    and s': "cfg s' = cfg u" "cf_raw s' = cf_raw u" "cf_ciphertextSize s' = cf_ciphertextSize u" "cf_sizeDirty s' = cf_sizeDirty u"
      "cf_size s' = cf_size u" "List.map fst (cf_cache s') = List.map fst (cf_cache u)" "cf_current s' = r"
      "cf_eofSeqnum s' = max (cf_eofSeqnum u) k" "deref s' = (deref u)(r \<mapsto> c)"
    and c: "ck_seqnum c = k" "\<not> ck_dirty c" "ck_maxSize c = width (cf_cc u) k" "ck_content c = piece (cf_cc u) plain k"
      "ck_ciphertextSize c = (if k < m then length (dk k) + ae_extra A + 4 else 0)"
  shows "file_rep A K desc Null plain m dk s'"
proof -
  let ?cc = "cf_cc u" and ?E = "cf_eofSeqnum u"
  have rep: "file_rep A K desc r plain m dk u" using w by (simp add: waiting_def)
  note R = file_repD [OF rep] and C = cfgD [OF s'(1)]
  have rr: "r = Cached k \<and> useCache u \<or> r = Single \<and> \<not> useCache u" "cf_current u = Null" "\<not> dirty_at u ?E"
    using w by (auto simp: waiting_def)
  have e: "m \<le> Suc ?E" "?E \<le> m" "m = ?E \<longrightarrow> length (dk (m - 1)) = width ?cc (m - 1)"
      "cstart ?cc ?E \<le> length plain" "length plain \<le> cstart ?cc (Suc ?E)"
    using R(4) unfolding rep_end_def by blast+
  have held: "held s' r' x \<longleftrightarrow> r' = r \<and> x = c \<or> r' \<noteq> r \<and> held u r' x" for r' x
  proof (cases "r' = r")
    case False
    have "r' = Single \<Longrightarrow> r' \<noteq> r \<Longrightarrow> deref u Single = deref u Single \<and> cf_current s' \<noteq> Single" using s'(7) by auto
    then show ?thesis using False s'(7,9) rr(2) by (auto simp: held_def)
  qed (use s'(7,9) in \<open>auto simp: held_def\<close>)
  have dirty: "dirty_at s' j \<longleftrightarrow> dirty_at u j" for j
  proof
    assume "dirty_at s' j"
    then obtain r' x where "held s' r' x" "ck_seqnum x = j" "ck_dirty x" by (auto simp: dirty_at_def)
    then show "dirty_at u j" using held c(2) unfolding dirty_at_def by metis
  next
    assume "dirty_at u j"
    then obtain r' x where x: "held u r' x" "ck_seqnum x = j" "ck_dirty x" by (auto simp: dirty_at_def)
    then have "r' \<noteq> r" using w by (auto simp: waiting_def held_def)
    then show "dirty_at s' j" using x held unfolding dirty_at_def by metis
  qed
  have raw: "raw_bytes s' = raw_bytes u" using s'(2) by (simp add: raw_bytes_def)
  have conf: "rep_conf A K desc s'" using R(1) rep_conf_same [OF s'(1)] by simp
  have disk: "rep_disk A m dk s'" using R(2) raw s'(2,3) C by (simp add: rep_disk_def)
  have head: "rep_head desc plain m dk s'" using R(3) raw s'(3,4) C unfolding rep_head_def by metis
  have cache: "rep_cache s'"
  proof -
    have keys: "cf_cache s' = [] \<longleftrightarrow> cf_cache u = []" using s'(6) by (metis map_is_Nil_conv)
    have uc: "useCache s' = useCache u" using C by blast
    show ?thesis using R(5) rr(1) unfolding rep_cache_def uc s'(6,7) keys by auto
  qed
  have kk: "k \<le> max ?E k" "?E \<le> max ?E k" by simp_all
  have tail: "rep_end K plain m dk s'"
  proof (cases "k \<le> ?E")
    case True
    then show ?thesis using R(4) s'(5,8) C by (simp add: rep_end_def max_def)
  next
    case False
    then have kE: "k = Suc ?E" using k(1) by simp
    then have "m = Suc ?E" using k(2) e(1) by simp
    moreover have "length (dk ?E) = width ?cc ?E"
    proof -
      have "length plain = cstart ?cc ?E + width ?cc ?E" using k(4) kE by (simp add: cstart_Suc)
      then have "length (piece ?cc plain ?E) = width ?cc ?E" by (simp add: length_piece)
      then show ?thesis using rep_clean [OF rep rr(3)] \<open>m = Suc ?E\<close> by simp
    qed
    ultimately show ?thesis
      using R(4) s'(5,8) C kE k(4) by (simp add: rep_end_def cstart_Suc)
  qed
  have "chunk_ok A plain m dk s' r' x" if h: "held s' r' x" for r' x
  proof (cases "r' = r")
    case True
    then have "x = c" using h held by blast
    then show ?thesis using c C rr(1) True s'(8) kk(1) by (auto simp: chunk_ok_def)
  next
    case False
    then have x: "held u r' x" using h held by blast
    have ok: "chunk_ok A plain m dk u r' x" by (rule rep_chunk [OF rep x False])
    have nE: "ck_dirty x \<longrightarrow> ck_seqnum x \<noteq> ?E" "ck_seqnum x \<noteq> k"
      using rr(3) x waiting_other [OF w x False] unfolding dirty_at_def by blast+
    have "\<not> useCache u \<longrightarrow> \<not> ck_dirty x" using ok nE(1) by (auto simp: chunk_ok_def)
    moreover have "ck_dirty x \<longrightarrow> ck_seqnum x \<noteq> cf_eofSeqnum s'" using nE s'(8) by (auto simp: max_def)
    ultimately show ?thesis using chunk_ok_grow [OF ok s'(1)] s'(8) by simp
  qed
  moreover have "piece ?cc plain j = (if j < m then dk j else [])" if "j \<le> max ?E k" "\<not> dirty_at s' j" for j
  proof (cases "j \<le> ?E")
    case True
    then show ?thesis using rep_clean [OF rep _ True] that(2) dirty by blast
  next
    case False
    then have j: "j = Suc ?E" "k = Suc ?E" using that(1) k(1) by (auto simp: max_def split: if_splits)
    then have "length plain = cstart ?cc j" "\<not> j < m" using k(4) e(1) by auto
    then show ?thesis using piece_empty by simp
  qed
  ultimately have "rep_chunks A Null plain m dk s'"
    using C s'(8) unfolding rep_chunks_def by metis
  then show ?thesis using conf disk head tail cache by (simp add: file_rep_def)
qed

text \<open>The relation when only offsets and the current chunk change.\<close>

definition same_but_offset :: "chunk \<Rightarrow> chunk \<Rightarrow> bool" where
  "same_but_offset c c' \<longleftrightarrow> c\<lparr>ck_offset := 0\<rparr> = c'\<lparr>ck_offset := 0\<rparr>"

lemma same_but_offsetD:
  "same_but_offset c c' \<Longrightarrow> ck_seqnum c' = ck_seqnum c \<and> ck_dirty c' = ck_dirty c \<and> ck_maxSize c' = ck_maxSize c
    \<and> ck_content c' = ck_content c \<and> ck_ciphertextSize c' = ck_ciphertextSize c"
  by (cases c; cases c') (simp add: same_but_offset_def)

lemma same_but_offset_refl: "same_but_offset c c" by (simp add: same_but_offset_def)

lemma move_rep:
  assumes rep: "file_rep A K desc Null plain m dk s"
    and s': "cfg s' = cfg s" "cf_raw s' = cf_raw s" "cf_ciphertextSize s' = cf_ciphertextSize s" "cf_sizeDirty s' = cf_sizeDirty s"
      "cf_size s' = cf_size s" "cf_eofSeqnum s' = cf_eofSeqnum s"
      "rep_cache s'"
      "\<And>r. rel_option same_but_offset (deref s r) (deref s' r)"
    and cur: "cf_current s' = cf_current s \<or> cf_current s' \<noteq> Single \<and> \<not> dirty_at s (cf_eofSeqnum s)
      \<and> (useCache s \<or> cf_current s' = Null)"
  shows "file_rep A K desc Null plain m dk s'"
proof -
  note R = file_repD [OF rep] and C = cfgD [OF s'(1)]
  have all_E: "ck_seqnum c = cf_eofSeqnum s" if "held s Single c" "ck_dirty c" for c
  proof -
    have "\<not> useCache s" using that(1) R(5) by (auto simp: held_def rep_cache_def)
    then show ?thesis using rep_chunk [OF rep that(1)] that(2) by (auto simp: chunk_ok_def)
  qed
  have held: "\<exists>c. held s r c \<and> same_but_offset c c'" if h: "held s' r c'" for r c'
  proof -
    have "deref s' r = Some c'" using h by (simp add: held_def)
    then obtain c where "deref s r = Some c" "same_but_offset c c'" using s'(8) [of r] by (auto simp: option_rel_Some2)
    then show ?thesis using h cur unfolding held_def by metis
  qed
  have held': "\<exists>c'. held s' r c' \<and> same_but_offset c c'" if h: "held s r c" "r = Single \<longrightarrow> cf_current s' = Single" for r c
  proof -
    have "deref s r = Some c" using h by (simp add: held_def)
    then obtain c' where "deref s' r = Some c'" "same_but_offset c c'" using s'(8) [of r] by (auto simp: option_rel_Some1)
    then show ?thesis using h unfolding held_def by metis
  qed
  have dirty: "dirty_at s' j \<longleftrightarrow> dirty_at s j" for j
  proof
    assume "dirty_at s' j"
    then show "dirty_at s j" unfolding dirty_at_def using held same_but_offsetD by metis
  next
    assume "dirty_at s j"
    then obtain r c where c: "held s r c" "ck_seqnum c = j" "ck_dirty c" by (auto simp: dirty_at_def)
    have "r = Single \<longrightarrow> cf_current s' = Single"
      using cur c all_E [of c] unfolding dirty_at_def held_def by metis
    then show "dirty_at s' j" unfolding dirty_at_def using held' [OF c(1)] c same_but_offsetD by metis
  qed
  have raw: "raw_bytes s' = raw_bytes s" using s'(2) by (simp add: raw_bytes_def)
  have "rep_conf A K desc s'" using R(1) rep_conf_same [OF s'(1)] by simp
  moreover have "rep_disk A m dk s'" using R(2) raw s'(2,3) C by (simp add: rep_disk_def)
  moreover have "rep_head desc plain m dk s'" using R(3) raw s'(3,4) C unfolding rep_head_def by metis
  moreover have "rep_cache s'" by (rule s'(7))
  moreover have "rep_end K plain m dk s'" using R(4) s'(5,6) C by (simp add: rep_end_def)
  moreover have "chunk_ok A plain m dk s' r c'" if h: "held s' r c'" for r c'
  proof -
    obtain c where c: "held s r c" "same_but_offset c c'" using held [OF h] by blast
    have "r \<noteq> Null" using h by (auto simp: held_def)
    then have "chunk_ok A plain m dk s r c" by (rule rep_chunk [OF rep c(1)])
    moreover have "ck_dirty c \<and> ck_seqnum c = cf_eofSeqnum s \<longrightarrow> dirty_at s (cf_eofSeqnum s)"
      using c(1) unfolding dirty_at_def by blast
    ultimately show ?thesis
      using same_but_offsetD [OF c(2)] C s'(6) cur unfolding chunk_ok_def by metis
  qed
  moreover have "piece (cf_cc s) plain j = (if j < m then dk j else [])" if "j \<le> cf_eofSeqnum s" "\<not> dirty_at s' j" for j
    using rep_clean [OF rep] that dirty by blast
  ultimately show ?thesis using C s'(6) by (simp add: file_rep_def rep_chunks_def)
qed

text \<open>Where a seek arrives: the chunk may be empty when it is going to be overwritten as a whole.\<close>

definition arrived :: "aead \<Rightarrow> nat \<Rightarrow> byte list \<Rightarrow> byte list \<Rightarrow> nat \<Rightarrow> nat \<Rightarrow> crypt_file \<Rightarrow> crypt_file \<Rightarrow> bool" where
  "arrived A K desc plain n pos s s' \<longleftrightarrow>
     cfg s' = cfg s \<and> cf_cursor s' = pos
     \<and> (\<exists>c. deref s' (cf_current s') = Some c \<and> ck_seqnum c = cindex (cf_cc s) pos
          \<and> ck_offset c = pos - cstart (cf_cc s) (ck_seqnum c)
          \<and> stands_for A K desc plain (assign (cf_current s') (c\<lparr>ck_content := piece (cf_cc s) plain (ck_seqnum c)\<rparr>) s')
          \<and> (ck_content c = piece (cf_cc s) plain (ck_seqnum c)
             \<or> ck_content c = [] \<and> pos = cstart (cf_cc s) (ck_seqnum c) \<and> width (cf_cc s) (ck_seqnum c) \<le> n))"

lemma assign_same: "distinct (List.map fst (cf_cache s)) \<Longrightarrow> deref s r = Some c \<Longrightarrow> assign r c s = s"
proof (cases r)
  case (Cached n)
  assume d: "distinct (List.map fst (cf_cache s))" "deref s r = Some c"
  have "List.map (\<lambda>(k, old). (k, if k = n then c else old)) xs = xs"
    if "distinct (List.map fst xs)" "map_of xs n = Some c" for xs :: "(nat \<times> chunk) list"
    using that
  proof (induction xs)
    case (Cons a xs)
    have "List.map (\<lambda>(k, old). (k, if k = n then c else old)) xs = xs" if "n \<notin> fst ` set xs"
      using that by (induction xs) auto
    then show ?case using Cons by (cases "fst a = n") (auto simp: split_def)
  qed simp
  then show "assign r c s = s" using d Cached by (simp add: assign_def deref_def)
qed (simp_all add: deref_def assign_def)

lemma enter_steps:
  assumes "deref u r = Some c" and c1: "c1 = c\<lparr>ck_maxSize := width (cf_cc u) k, ck_offset := chunkOffsetForPos (cf_cc u) pos\<rparr>"
    and go: "(if b then seekReadRawChunk A r True
        (if ck_offset c1 = 0 \<and> n \<ge> ck_maxSize c1 then ck_maxSize c1 else 0) (assign r c1 u)
      else Some (Inr (), assign r c1 u)) = Some (Inr (), v)"
  shows "enter_chunk A pos k n (r, b) u =
    Some (Inr (), v\<lparr>cf_cursor := pos, cf_current := r, cf_eofSeqnum := max (cf_eofSeqnum v) k\<rparr>)"
  unfolding enter_chunk_def with_chunk_def Let_def fst_conv snd_conv assms(1) option.case c1 [symmetric]
  using go by (cases b) (simp_all add: chk_def done_with_def)

lemma cindex_32:
  assumes "layout_ok A cc D K" and "cindex cc pos \<le> K + 1"
  shows "posToSeqnum cc pos = cindex cc pos" "chunkOffsetForPos cc pos = pos - cstart cc (cindex cc pos)"
    "pos < 2 ^ 32"
proof -
  have c: "0 < cc_chunkMaxSize cc" by (rule layoutD(3) [OF assms(1)])
  have "D + rstart A cc (Suc (cindex cc pos)) < 2 ^ 32" by (rule rstart_bound [OF assms(1)]) (use assms(2) in simp)
  moreover have "pos < cstart cc (Suc (cindex cc pos))" using cindex_end [OF c, of pos] by (simp add: cstart_Suc)
  ultimately show p: "pos < 2 ^ 32" using cstart_le_rstart [of cc "Suc (cindex cc pos)" A] by linarith
  then have i: "cindex cc pos < 2 ^ 32" using cindex_small [OF c, of pos] by linarith
  show "posToSeqnum cc pos = cindex cc pos" by (rule posToSeqnum_cindex [OF c i])
  show "chunkOffsetForPos cc pos = pos - cstart cc (cindex cc pos)" by (rule chunkOffset_cstart [OF c i p])
qed

lemma seek_index:
  assumes "file_rep A K desc h plain m dk s" and "pos \<le> length plain"
  shows "cindex (cf_cc s) pos \<le> K + 1" "cindex (cf_cc s) pos \<le> Suc (cf_eofSeqnum s)"
    "cindex (cf_cc s) pos = Suc (cf_eofSeqnum s) \<Longrightarrow> pos = length plain \<and> pos = cstart (cf_cc s) (Suc (cf_eofSeqnum s))"
proof -
  note R = file_repD [OF assms(1)]
  have c: "0 < cc_chunkMaxSize (cf_cc s)" by (rule layoutD(3) [OF R(7)])
  have e: "length plain \<le> cstart (cf_cc s) (Suc (cf_eofSeqnum s))" "cindex (cf_cc s) (length plain) \<le> K + 1"
    using R(4) by (simp_all add: rep_end_def)
  show "cindex (cf_cc s) pos \<le> K + 1" using cindex_mono [OF c assms(2)] e(2) by linarith
  have "pos < cstart (cf_cc s) (Suc (Suc (cf_eofSeqnum s)))"
    using e(1) assms(2) layoutD(5) [OF R(7), of "Suc (cf_eofSeqnum s)"] cstart_Suc [of "cf_cc s" "Suc (cf_eofSeqnum s)"] by linarith
  then show "cindex (cf_cc s) pos \<le> Suc (cf_eofSeqnum s)" by (rule cindex_le [OF c])
  assume "cindex (cf_cc s) pos = Suc (cf_eofSeqnum s)"
  then show "pos = length plain \<and> pos = cstart (cf_cc s) (Suc (cf_eofSeqnum s))"
    using cindex_start [of "cf_cc s" pos] e(1) assms(2) by simp
qed

lemma deref_fun_upd: "deref s r = Some c0 \<Longrightarrow> deref (assign r c s) = (deref s)(r \<mapsto> c)"
  by (auto simp: fun_eq_iff deref_assign)

lemma waiting_place:
  assumes w: "waiting A K desc plain m dk k r u" and "pos \<le> length plain" and k: "k = cindex (cf_cc u) pos"
  shows "k \<le> m" "k = m \<Longrightarrow> length (dk (m - 1)) = width (cf_cc u) (m - 1)" "k = m \<Longrightarrow> piece (cf_cc u) plain k = []"
    "k < m \<Longrightarrow> piece (cf_cc u) plain k = dk k"
    "k = Suc (cf_eofSeqnum u) \<longrightarrow> length plain = cstart (cf_cc u) k" "k = m \<Longrightarrow> m \<le> K + 1"
proof -
  let ?cc = "cf_cc u" and ?E = "cf_eofSeqnum u"
  have rep: "file_rep A K desc r plain m dk u" and clean: "\<not> dirty_at u ?E" using w by (simp_all add: waiting_def)
  note R = file_repD [OF rep]
  have i: "k \<le> K + 1" "k \<le> Suc ?E" "k = Suc ?E \<Longrightarrow> pos = length plain \<and> pos = cstart ?cc (Suc ?E)"
    using seek_index [OF rep assms(2)] k by auto
  have e: "m \<le> Suc ?E" "?E \<le> m" "m = ?E \<Longrightarrow> length (dk (m - 1)) = width ?cc (m - 1)"
    using R(4) by (auto simp: rep_end_def)
  show "k = Suc ?E \<longrightarrow> length plain = cstart ?cc k" using i(3) by auto
  have last: "?E < m" "dk ?E = piece ?cc plain ?E" "length (dk ?E) = width ?cc ?E" if "k = Suc ?E"
  proof -
    have "length plain = cstart ?cc ?E + width ?cc ?E" using i(3) [OF that] by (simp add: cstart_Suc)
    then have l: "length (piece ?cc plain ?E) = width ?cc ?E" by (simp add: length_piece)
    moreover have "0 < width ?cc ?E" by (rule layoutD(5) [OF R(7)])
    ultimately show "?E < m" "dk ?E = piece ?cc plain ?E" "length (dk ?E) = width ?cc ?E"
      using rep_clean [OF rep clean le_refl] by (auto split: if_splits)
  qed
  show km: "k \<le> m" using i(2) e(2) last(1) by (cases "k = Suc ?E") auto
  show "k = m \<Longrightarrow> m \<le> K + 1" using i(1) by simp
  show "length (dk (m - 1)) = width ?cc (m - 1)" if "k = m"
  proof (cases "m = ?E")
    case False
    then have "m = Suc ?E" using e by simp
    then show ?thesis using last(3) that by simp
  qed (rule e(3))
  show "piece ?cc plain k = []" if "k = m"
  proof (cases "k \<le> ?E")
    case True
    then show ?thesis using rep_clean [OF rep waiting_clean [OF w]] that by simp
  next
    case False
    then have "k = Suc ?E" using i(2) by simp
    then show ?thesis using i(3) piece_empty by simp
  qed
  show "piece ?cc plain k = dk k" if "k < m"
    using rep_clean [OF rep waiting_clean [OF w], of] that e(1) by simp
qed

lemma enter_miss_ok:
  assumes w: "waiting A K desc plain m dk k r u" and pos: "pos \<le> length plain" and k: "k = cindex (cf_cc u) pos"
  shows "goes (enter_chunk A pos k n (r, True)) u (\<lambda>_. arrived A K desc plain n pos u)"
proof -
  let ?cc = "cf_cc u" and ?E = "cf_eofSeqnum u"
  have rep: "file_rep A K desc r plain m dk u" using w by (simp add: waiting_def)
  note R = file_repD [OF rep] and W = waiting_place [OF w pos k]
  have mK: "m \<le> K + 2" using R(4,10) by (simp add: rep_end_def)
  have i: "k \<le> K + 1" "k \<le> Suc ?E" using seek_index [OF rep pos] k by auto
  obtain c where c: "deref u r = Some c" "ck_seqnum c = k" "ck_content c = []" "\<not> ck_dirty c" "ck_ciphertextSize c = 0"
    using w by (auto simp: waiting_def)
  note x = cindex_32 [OF R(7) i(1) [unfolded k]]
  let ?o = "pos - cstart ?cc k"
  define c1 where "c1 = c\<lparr>ck_maxSize := width ?cc k, ck_offset := chunkOffsetForPos ?cc pos\<rparr>"
  have c1: "ck_seqnum c1 = k" "ck_content c1 = []" "\<not> ck_dirty c1" "ck_ciphertextSize c1 = 0" "ck_maxSize c1 = width ?cc k"
      "ck_offset c1 = ?o"
    using c x(2) k by (simp_all add: c1_def)
  define ow where "ow = (if ck_offset c1 = 0 \<and> ck_maxSize c1 \<le> n then ck_maxSize c1 else 0)"
  have ow: "ow \<noteq> 0 \<longrightarrow> pos = cstart ?cc k \<and> width ?cc k \<le> n"
    using c1 cindex_start [of ?cc pos] k by (auto simp: ow_def split: if_splits)
  let ?s1 = "assign r c1 u"
  have d1: "deref ?s1 r = Some c1" using c(1) by (simp add: deref_assign)
  have disk1: "rep_disk A m dk ?s1" using R(2) by (simp add: rep_disk_def raw_bytes_def)
  have lay1: "layout_ok A (cf_cc ?s1) (cf_dataOffset ?s1) K" using R(7) by simp
  have arrive: "arrived A K desc plain n pos u (v\<lparr>cf_cursor := pos, cf_current := r, cf_eofSeqnum := max (cf_eofSeqnum v) k\<rparr>)"
    if v: "v = assign r c2 (u\<lparr>cf_raw_pos := q\<rparr>)" and c2: "ck_seqnum c2 = k" "\<not> ck_dirty c2" "ck_maxSize c2 = width ?cc k"
      "ck_offset c2 = ?o" "ck_ciphertextSize c2 = (if k < m then length (dk k) + ae_extra A + 4 else 0)"
      "ck_content c2 = piece ?cc plain k \<or> ck_content c2 = [] \<and> pos = cstart ?cc k \<and> width ?cc k \<le> n" for v c2 q
  proof -
    let ?t = "v\<lparr>cf_cursor := pos, cf_current := r, cf_eofSeqnum := max (cf_eofSeqnum v) k\<rparr>"
    let ?p = "c2\<lparr>ck_content := piece ?cc plain k\<rparr>"
    have dt: "deref ?t = (deref u)(r \<mapsto> c2)" using c(1) by (simp add: v deref_fun_upd)
    have dp: "deref (assign r ?p ?t) = (deref u)(r \<mapsto> ?p)" using dt deref_fun_upd [of ?t r c2 ?p] by simp
    have cf: "cfg (assign r ?p ?t) = cfg u" "cfg ?t = cfg u" by (simp_all add: cfg_def v)
    have "file_rep A K desc Null plain m dk (assign r ?p ?t)"
      by (rule enter_rep [OF w i(2) W(1) i(1) W(5) cf(1) _ _ _ _ _ _ _ dp]) (simp_all add: v c2)
    then show ?thesis
      unfolding arrived_def stands_for_def using dt cf(2) c2 k by auto
  qed
  have "\<exists>v c2 q. seekReadRawChunk A r True ow ?s1 = Some (Inr (), v) \<and> v = assign r c2 (u\<lparr>cf_raw_pos := q\<rparr>)
      \<and> ck_seqnum c2 = k \<and> \<not> ck_dirty c2 \<and> ck_maxSize c2 = width ?cc k \<and> ck_offset c2 = ?o
      \<and> ck_ciphertextSize c2 = (if k < m then length (dk k) + ae_extra A + 4 else 0)
      \<and> (ck_content c2 = piece ?cc plain k \<or> ck_content c2 = [] \<and> pos = cstart ?cc k \<and> width ?cc k \<le> n)"
  proof (cases "k < m")
    case True
    have "assign r c2 (?s1\<lparr>cf_raw_pos := q\<rparr>) = assign r c2 (u\<lparr>cf_raw_pos := q\<rparr>)" for c2 q
      by (auto simp: assign_def comp_def split_def split: chunk_ref.split)
    then have "seekReadRawChunk A r True ow ?s1 = Some (Inr (),
        assign r (c1\<lparr>ck_content := (if ow = 0 then dk k else []), ck_ciphertextSize := length (dk k) + ae_extra A + 4\<rparr>)
          (u\<lparr>cf_raw_pos := cf_dataOffset u + rstart A ?cc k + (if ow = 0 then length (dk k) + ae_extra A + 4 else 0)\<rparr>))"
      using read_raw [OF lay1 disk1 mK d1, of ow] True c1(1,2) by simp
    moreover have "(if ow = 0 then dk k else []) = piece ?cc plain k
        \<or> (if ow = 0 then dk k else []) = [] \<and> pos = cstart ?cc k \<and> width ?cc k \<le> n"
      using ow W(4) [OF True] by simp
    ultimately show ?thesis using True c1 by fastforce
  next
    case False
    then have km: "k = m" using W(1) by simp
    have "?s1\<lparr>cf_raw_pos := q\<rparr> = assign r c1 (u\<lparr>cf_raw_pos := q\<rparr>)" for q
      by (auto simp: assign_def split: chunk_ref.split)
    then show ?thesis
      using read_raw_none [OF lay1 disk1 W(6) [OF km] d1, of ow] km c1 W(2,3) by (intro exI [of _ c1] exI) auto
  qed
  then obtain v c2 q where v: "seekReadRawChunk A r True ow ?s1 = Some (Inr (), v)" "v = assign r c2 (u\<lparr>cf_raw_pos := q\<rparr>)"
      "ck_seqnum c2 = k" "\<not> ck_dirty c2" "ck_maxSize c2 = width ?cc k" "ck_offset c2 = ?o"
      "ck_ciphertextSize c2 = (if k < m then length (dk k) + ae_extra A + 4 else 0)"
      "ck_content c2 = piece ?cc plain k \<or> ck_content c2 = [] \<and> pos = cstart ?cc k \<and> width ?cc k \<le> n" by blast
  have "enter_chunk A pos k n (r, True) u =
      Some (Inr (), v\<lparr>cf_cursor := pos, cf_current := r, cf_eofSeqnum := max (cf_eofSeqnum v) k\<rparr>)"
    by (rule enter_steps [OF c(1) c1_def]) (use v(1) in \<open>simp only: ow_def if_True\<close>)
  then show ?thesis using arrive [OF v(2-8)] by (simp add: goes_def)
qed

lemma enter_hit_ok:
  assumes st: "stands_for A K desc plain u" and "cf_current u = Null" and "\<not> dirty_at u (cf_eofSeqnum u)"
    and "useCache u" and d: "deref u (Cached k) = Some c" and pos: "pos \<le> length plain" and k: "k = cindex (cf_cc u) pos"
  shows "goes (enter_chunk A pos k n (Cached k, False)) u (\<lambda>_. arrived A K desc plain n pos u)"
proof -
  obtain m dk where rep: "file_rep A K desc Null plain m dk u" using st by (auto simp: stands_for_def)
  let ?cc = "cf_cc u" and ?E = "cf_eofSeqnum u"
  note R = file_repD [OF rep]
  have i: "k \<le> K + 1" using seek_index(1) [OF rep pos] k by simp
  note x = cindex_32 [OF R(7) i [unfolded k]]
  have ok: "chunk_ok A plain m dk u (Cached k) c" by (rule rep_chunk [OF rep]) (use d in \<open>simp_all add: held_def\<close>)
  then have ck: "ck_seqnum c = k" "k \<le> ?E" "ck_maxSize c = width ?cc k" "ck_content c = piece ?cc plain k"
    by (auto simp: chunk_ok_def)
  define c1 where "c1 = c\<lparr>ck_maxSize := width ?cc k, ck_offset := chunkOffsetForPos ?cc pos\<rparr>"
  have c1: "same_but_offset c c1" "ck_offset c1 = pos - cstart ?cc k" "ck_seqnum c1 = k" "ck_content c1 = piece ?cc plain k"
    using ck x(2) k by (simp_all add: c1_def same_but_offset_def)
  let ?t = "assign (Cached k) c1 u\<lparr>cf_cursor := pos, cf_current := Cached k, cf_eofSeqnum := max (cf_eofSeqnum (assign (Cached k) c1 u)) k\<rparr>"
  have run: "enter_chunk A pos k n (Cached k, False) u = Some (Inr (), ?t)"
    by (rule enter_steps [OF d c1_def]) simp
  have dt: "deref ?t = (deref u)(Cached k \<mapsto> c1)" using deref_fun_upd [OF d] by simp
  have cf: "cfg ?t = cfg u" by (simp add: cfg_def)
  have "rel_option same_but_offset (deref u r) (deref ?t r)" for r
    unfolding dt using d c1(1) by (auto simp: option.rel_refl same_but_offset_refl)
  moreover have "rep_cache ?t"
    using R(5) assms(4) cfgD [OF cf] by (simp add: rep_cache_def)
  ultimately have "file_rep A K desc Null plain m dk ?t"
    by (intro move_rep [OF rep cf]) (use ck(2) assms(2-4) in \<open>simp_all add: max_def\<close>)
  moreover have "assign (Cached k) (c1\<lparr>ck_content := piece ?cc plain k\<rparr>) ?t = ?t"
  proof (rule assign_same)
    show "distinct (List.map fst (cf_cache ?t))" using R(5) by (simp add: rep_cache_def)
    show "deref ?t (Cached k) = Some (c1\<lparr>ck_content := piece ?cc plain k\<rparr>)" unfolding dt using c1(4) by simp
  qed
  ultimately have "arrived A K desc plain n pos u ?t"
    unfolding arrived_def stands_for_def using dt cf c1 k by auto
  then show ?thesis using run by (simp add: goes_def)
qed

lemma map_of_spec_touch: "distinct (List.map fst xs) \<Longrightarrow> map_of (spec_touch xs k) = map_of xs"
proof -
  assume d: "distinct (List.map fst xs)"
  show ?thesis
  proof (cases "map_of xs k")
    case (Some v)
    have drop: "map_of (spec_drop k xs) = (map_of xs)(k := None)"
      by (auto simp: spec_drop_def fun_eq_iff map_of_filter_in split: option.splits) (induction xs; auto)+
    show ?thesis using Some by (auto simp: spec_touch_def drop map_add_def fun_eq_iff split: option.splits)
  qed (simp add: spec_touch_def)
qed

lemma keys_spec_drop: "distinct (List.map fst xs) \<Longrightarrow> distinct (List.map fst (spec_drop k xs)) \<and> k \<notin> set (List.map fst (spec_drop k xs))"
  by (auto simp: spec_drop_def distinct_map inj_on_def)

lemma waiting_intro:
  assumes rep: "file_rep A K desc Null plain m dk t" and clean: "\<not> dirty_at t (cf_eofSeqnum t)"
    and r: "r = Cached k \<and> useCache t \<or> r = Single \<and> \<not> useCache t" "\<And>c. \<not> held t r c"
    and c: "deref u r = Some c" "ck_seqnum c = k" "ck_content c = []" "\<not> ck_dirty c" "ck_ciphertextSize c = 0"
    and u: "cfg u = cfg t" "cf_raw u = cf_raw t" "cf_ciphertextSize u = cf_ciphertextSize t" "cf_sizeDirty u = cf_sizeDirty t"
      "cf_size u = cf_size t" "cf_eofSeqnum u = cf_eofSeqnum t" "rep_cache u" "cf_current u = Null" "cf_current t = Null"
      "\<And>r'. r' \<noteq> r \<Longrightarrow> deref u r' = deref t r' \<or> deref u r' = None \<and> clean_ref r' t"
  shows "waiting A K desc plain m dk k r u"
proof -
  note R = file_repD [OF rep] and C = cfgD [OF u(1)]
  have held: "held t r' x" if "held u r' x" "r' \<noteq> r" for r' x
    using that u(10) [OF that(2)] u(8) by (auto simp: held_def)
  have held': "held u r' x" if "held t r' x" "ck_dirty x" for r' x
  proof -
    have "r' \<noteq> r" using that(1) r(2) by blast
    then have "deref u r' = deref t r' \<or> deref u r' = None \<and> clean_ref r' t" by (rule u(10))
    then show ?thesis using that u(9) by (auto simp: held_def clean_ref_def)
  qed
  have dirty: "dirty_at u j \<longleftrightarrow> dirty_at t j" for j
  proof
    assume "dirty_at u j"
    then obtain r' x where x: "held u r' x" "ck_seqnum x = j" "ck_dirty x" by (auto simp: dirty_at_def)
    then have "r' \<noteq> r" using c(1,4) by (auto simp: held_def)
    then show "dirty_at t j" using held x unfolding dirty_at_def by blast
  qed (use held' in \<open>unfold dirty_at_def, blast\<close>)
  have raw: "raw_bytes u = raw_bytes t" using u(2) by (simp add: raw_bytes_def)
  have "rep_conf A K desc u" using R(1) rep_conf_same [OF u(1)] by simp
  moreover have "rep_disk A m dk u" using R(2) raw u(2,3) C by (simp add: rep_disk_def)
  moreover have "rep_head desc plain m dk u" using R(3) raw u(3,4) C unfolding rep_head_def by metis
  moreover have "rep_end K plain m dk u" using R(4) u(5,6) C by (simp add: rep_end_def)
  moreover have "chunk_ok A plain m dk u r' x" if h: "held u r' x" "r' \<noteq> r" for r' x
  proof -
    have "r' \<noteq> Null" using h by (auto simp: held_def)
    then have ok: "chunk_ok A plain m dk t r' x" by (rule rep_chunk [OF rep held [OF h]])
    have nE: "ck_dirty x \<longrightarrow> ck_seqnum x \<noteq> cf_eofSeqnum t" using held [OF h] clean unfolding dirty_at_def by blast
    have "\<not> useCache t \<longrightarrow> \<not> ck_dirty x" using ok nE by (auto simp: chunk_ok_def)
    then show ?thesis using chunk_ok_grow [OF ok u(1)] nE u(6) by simp
  qed
  moreover have "piece (cf_cc t) plain j = (if j < m then dk j else [])" if "j \<le> cf_eofSeqnum t" "\<not> dirty_at u j" for j
    using rep_clean [OF rep] that dirty by blast
  ultimately have "file_rep A K desc r plain m dk u" using C u(6,7) by (simp add: file_rep_def rep_chunks_def)
  then show ?thesis using c r u(6,8) clean dirty C by (auto simp: waiting_def)
qed

text \<open>Choosing the chunk: from here on it is in memory, either as it was or waiting to be filled.\<close>

definition chosen :: "aead \<Rightarrow> nat \<Rightarrow> byte list \<Rightarrow> byte list \<Rightarrow> nat \<Rightarrow> chunk_ref \<times> bool \<Rightarrow> crypt_file \<Rightarrow> bool" where
  "chosen A K desc plain k next u \<longleftrightarrow>
     (if snd next then \<exists>m dk. waiting A K desc plain m dk k (fst next) u
      else stands_for A K desc plain u \<and> cf_current u = Null \<and> \<not> dirty_at u (cf_eofSeqnum u) \<and> useCache u
        \<and> fst next = Cached k \<and> deref u (Cached k) \<noteq> None)"

lemma next_chunk_ok:
  assumes st: "stands_for A K desc plain t" and cur: "cf_current t = Null" and clean: "\<not> dirty_at t (cf_eofSeqnum t)"
  shows "goes (next_chunk A k True) t (\<lambda>nx u. chosen A K desc plain k nx u \<and> cfg u = cfg t \<and> cf_size u = cf_size t)"
proof -
  obtain m dk where rep: "file_rep A K desc Null plain m dk t" using st by (auto simp: stands_for_def)
  note R = file_repD [OF rep]
  show ?thesis
  proof (cases "useCache t")
    case False
    let ?u = "t\<lparr>cf_single := chunk_reset k (cf_single t)\<rparr>"
    have cf: "cfg ?u = cfg t" by (simp add: cfg_def)
    have "waiting A K desc plain m dk k Single ?u"
    proof (rule waiting_intro [OF rep clean, where c = "chunk_reset k (cf_single t)"])
      show "Single = Cached k \<and> useCache t \<or> Single = Single \<and> \<not> useCache t" using False by simp
      show "\<not> held t Single c" for c using cur by (simp add: held_def)
      show "rep_cache ?u" using R(5) False cfgD [OF cf] by (simp add: rep_cache_def)
      show "deref ?u r' = deref t r' \<or> deref ?u r' = None \<and> clean_ref r' t" if "r' \<noteq> Single" for r'
        using that by (simp add: deref_def split: chunk_ref.split)
    qed (use cur cf in \<open>simp_all add: deref_def chunk_reset_def\<close>)
    then show ?thesis
      using False cf by (auto simp: goes_def next_chunk_def done_with_def chosen_def)
  next
    case use: True
    have dist: "distinct (List.map fst (cf_cache t))" using R(5) by (simp add: rep_cache_def)
    show ?thesis
    proof (cases "map_of (cf_cache t) k")
      case (Some c)
      let ?u = "t\<lparr>cf_cache := spec_touch (cf_cache t) k\<rparr>"
      have cf: "cfg ?u = cfg t" by (simp add: cfg_def)
      have dr: "deref ?u = deref t"
        using map_of_spec_touch [OF dist, of k] by (simp add: fun_eq_iff deref_def split: chunk_ref.split)
      have "distinct (List.map fst (spec_touch (cf_cache t) k))"
        using keys_spec_drop [OF dist, of k] Some by (simp add: spec_touch_def)
      then have rc: "rep_cache ?u" using R(5) use cfgD [OF cf] by (simp add: rep_cache_def)
      have rep': "file_rep A K desc Null plain m dk ?u"
        by (rule move_rep [OF rep cf]) (use dr rc in \<open>simp_all add: option.rel_refl same_but_offset_refl\<close>)
      have "\<not> dirty_at ?u (cf_eofSeqnum ?u)" using clean dr by (simp add: dirty_at_def held_def)
      then have "chosen A K desc plain k (Cached k, False) ?u"
        using rep' cur use Some dr cfgD [OF cf] by (auto simp: chosen_def stands_for_def deref_def)
      then show ?thesis using use Some cf by (simp add: goes_def next_chunk_def done_with_def)
    next
      case None
      let ?evict = "\<lambda>s. if cf_capacity s \<noteq> 0 \<and> cf_cache s \<noteq> [] \<and> length (cf_cache s) = cf_capacity s
        then flush_dirty A (Cached (fst (hd (cf_cache s)))) s else done_with () s"
      have ev: "goes ?evict t (\<lambda>_ s'. stands_for A K desc plain s' \<and> kept t s'
          \<and> (cf_capacity t \<noteq> 0 \<and> cf_cache t \<noteq> [] \<and> length (cf_cache t) = cf_capacity t \<longrightarrow>
               clean_ref (Cached (fst (hd (cf_cache s')))) s'))"
      proof (cases "cf_capacity t \<noteq> 0 \<and> cf_cache t \<noteq> [] \<and> length (cf_cache t) = cf_capacity t")
        case True
        let ?h = "fst (hd (cf_cache t))"
        have "?h \<in> set (List.map fst (cf_cache t))" using True by simp
        then obtain c where "held t (Cached ?h) c" unfolding deref_key by (auto simp: held_def)
        note fl = flush_dirty_ok [OF st this]
        have hd: "fst (hd (cf_cache s')) = ?h" if "kept t s'" for s'
        proof -
          have "List.map fst (cf_cache s') = List.map fst (cf_cache t)" using placeD [OF kept_cfg(2) [OF that]] by simp
          moreover from this have "cf_cache s' \<noteq> []" using True by auto
          ultimately show ?thesis using True by (metis hd_map)
        qed
        have "goes (flush_dirty A (Cached ?h)) t (\<lambda>_ s'. stands_for A K desc plain s' \<and> kept t s'
            \<and> clean_ref (Cached (fst (hd (cf_cache s')))) s')"
          by (rule goes_mono [OF fl]) (use hd in auto)
        then show ?thesis using True by (simp add: goes_def)
      next
        case False
        then show ?thesis using st kept_refl by (auto simp: goes_def done_with_def)
      qed
      have "goes (chk ?evict (\<lambda>_ s. done_with (Cached k, True)
            (s\<lparr>cf_cache := spec_emplace (cf_capacity s) (cf_cache s) k (Chunk k)\<rparr>))) t
          (\<lambda>nx u. chosen A K desc plain k nx u \<and> cfg u = cfg t \<and> cf_size u = cf_size t)"
        unfolding goes_chk
      proof (rule goes_mono [OF ev])
        fix x s'
        assume s': "stands_for A K desc plain s' \<and> kept t s' \<and> (cf_capacity t \<noteq> 0 \<and> cf_cache t \<noteq> []
          \<and> length (cf_cache t) = cf_capacity t \<longrightarrow> clean_ref (Cached (fst (hd (cf_cache s')))) s')"
        then have k: "kept t s'" by blast
        obtain m' dk' where rep': "file_rep A K desc Null plain m' dk' s'" using s' by (auto simp: stands_for_def)
        note C = cfgD [OF kept_cfg(1) [OF k]] and P = placeD [OF kept_cfg(2) [OF k]]
        let ?xs = "cf_cache s'" and ?cap = "cf_capacity s'"
        let ?u = "s'\<lparr>cf_cache := spec_emplace ?cap ?xs k (Chunk k)\<rparr>"
        have ds: "distinct (List.map fst ?xs)" using P dist by simp
        have nk: "k \<notin> set (List.map fst ?xs)" using None P by (simp add: map_of_eq_None_iff)
        have keys: "set (List.map fst (spec_evict ?cap ?xs)) \<subseteq> set (List.map fst ?xs)"
          by (cases ?xs) (auto simp: spec_evict_def)
        then have nk': "k \<notin> set (List.map fst (spec_evict ?cap ?xs))" using nk by blast
        have "spec_drop k (spec_evict ?cap ?xs) = spec_evict ?cap ?xs"
          using nk' unfolding spec_drop_def by (intro filter_True) force
        moreover have mk: "map_of (spec_evict ?cap ?xs) k = None" using nk' by (simp add: map_of_eq_None_iff)
        ultimately have em: "spec_emplace ?cap ?xs k (Chunk k) = spec_evict ?cap ?xs @ [(k, Chunk k)]"
          by (simp add: spec_emplace_def)
        have cf: "cfg ?u = cfg s'" by (simp add: cfg_def)
        have de: "distinct (List.map fst (spec_evict ?cap ?xs))" using ds by (simp add: spec_evict_def distinct_tl map_tl)
        have "waiting A K desc plain m' dk' k (Cached k) ?u"
        proof (rule waiting_intro [OF rep', where c = "Chunk k"])
          have "\<not> dirty_at t (cf_eofSeqnum s')" using clean P by simp
          then show "\<not> dirty_at s' (cf_eofSeqnum s')"
            using kept_held [OF k] unfolding dirty_at_def by (metis like_def)
          show "Cached k = Cached k \<and> useCache s' \<or> Cached k = Single \<and> \<not> useCache s'" using use C by simp
          show "\<not> held s' (Cached k) c" for c using nk by (auto simp: held_def deref_def map_of_eq_None_iff [symmetric])
          have "distinct (List.map fst (spec_emplace ?cap ?xs k (Chunk k)))" using de nk' by (simp add: em)
          then show "rep_cache ?u" using use C P cur cfgD [OF cf] by (simp add: rep_cache_def)
          show "deref ?u (Cached k) = Some (Chunk k)" by (simp add: deref_def em map_add_def mk)
          show "deref ?u r' = deref s' r' \<or> deref ?u r' = None \<and> clean_ref r' s'" if r': "r' \<noteq> Cached k" for r'
          proof (cases r')
            case (Cached j)
            have du: "deref ?u (Cached j) = map_of (spec_evict ?cap ?xs @ [(k, Chunk k)]) j" by (simp add: deref_def em)
            show ?thesis
            proof (cases "?cap \<noteq> 0 \<and> length ?xs = ?cap \<and> j = fst (hd ?xs)")
              case True
              have len: "length ?xs = length (cf_cache t)" using P by (metis length_map)
              then have "clean_ref (Cached j) s'" using s' True C by auto
              moreover obtain y ys where ys: "?xs = y # ys" using True by (cases ?xs) auto
              ultimately have "map_of ys j = None" "clean_ref (Cached j) s'"
                using ds True by (auto simp: map_of_eq_None_iff)
              then show ?thesis unfolding Cached du using Cached True ys r' by (simp add: spec_evict_def map_add_def)
            next
              case False
              then have "map_of (spec_evict ?cap ?xs) j = map_of ?xs j" by (cases ?xs) (auto simp: spec_evict_def)
              then show ?thesis unfolding Cached du using Cached r' by (cases "map_of ?xs j") (simp_all add: deref_def map_add_def)
            qed
          qed (simp_all add: deref_def)
        qed (use cf P cur in \<open>simp_all add: Chunk_def\<close>)
        then show "goes (\<lambda>s. done_with (Cached k, True) (s\<lparr>cf_cache := spec_emplace (cf_capacity s) (cf_cache s) k (Chunk k)\<rparr>)) s'
            (\<lambda>nx u. chosen A K desc plain k nx u \<and> cfg u = cfg t \<and> cf_size u = cf_size t)"
          using cf P kept_cfg(1) [OF k] by (auto simp: goes_def done_with_def chosen_def)
      qed
      then show ?thesis using use None by (simp add: goes_def next_chunk_def)
    qed
  qed
qed

lemma enter_chosen_ok:
  assumes "chosen A K desc plain k nx u" and "pos \<le> length plain" and "k = cindex (cf_cc u) pos"
  shows "goes (enter_chunk A pos k n nx) u (\<lambda>_. arrived A K desc plain n pos u)"
proof -
  show ?thesis
  proof (cases "snd nx")
    case True
    then obtain r where nx: "nx = (r, True)" by (cases nx) auto
    then obtain m dk where "waiting A K desc plain m dk k r u" using assms(1) by (auto simp: chosen_def)
    then show ?thesis unfolding nx by (rule enter_miss_ok [OF _ assms(2,3)])
  next
    case False
    then have c: "stands_for A K desc plain u" "cf_current u = Null" "\<not> dirty_at u (cf_eofSeqnum u)" "useCache u"
        "nx = (Cached k, False)" "deref u (Cached k) \<noteq> None" using assms(1) by (cases nx, auto simp: chosen_def)+
    then obtain c where "deref u (Cached k) = Some c" by auto
    then show ?thesis unfolding c(5) by (rule enter_hit_ok [OF c(1-4) _ assms(2,3)])
  qed
qed

subsection \<open>Seeking\<close>

lemma arrived_trans: "arrived A K desc plain n pos u s' \<Longrightarrow> cfg u = cfg s \<Longrightarrow> arrived A K desc plain n pos s s'"
  using cfgD [of u s] unfolding arrived_def by metis

lemma rep_leave:
  assumes "stands_for A K desc plain s" and "\<not> dirty_at s (cf_eofSeqnum s)"
  shows "stands_for A K desc plain (s\<lparr>cf_current := Null\<rparr>)" and "\<not> dirty_at (s\<lparr>cf_current := Null\<rparr>) (cf_eofSeqnum s)"
proof -
  let ?t = "s\<lparr>cf_current := Null\<rparr>"
  have cf: "cfg ?t = cfg s" by (simp add: cfg_def)
  obtain m dk where rep: "file_rep A K desc Null plain m dk s" using assms(1) by (auto simp: stands_for_def)
  have "rep_cache ?t" using file_repD(5) [OF rep] cfgD [OF cf] by (simp add: rep_cache_def)
  then have "file_rep A K desc Null plain m dk ?t"
    by (intro move_rep [OF rep cf]) (use assms(2) in \<open>simp_all add: option.rel_refl same_but_offset_refl\<close>)
  then show "stands_for A K desc plain ?t" by (auto simp: stands_for_def)
  show "\<not> dirty_at ?t (cf_eofSeqnum s)" using assms(2) by (auto simp: dirty_at_def held_def)
qed

lemma doSeek_ok:
  assumes st: "stands_for A K desc plain s" and cur: "cf_current s \<noteq> Null \<longrightarrow> deref s (cf_current s) \<noteq> None"
    and pos: "pos \<le> length plain" and app: "isAppend s \<longrightarrow> pos = length plain"
  shows "goes (doSeek A pos n True) s (\<lambda>_. arrived A K desc plain n pos s)"
proof -
  obtain m dk where rep: "file_rep A K desc Null plain m dk s" using st by (auto simp: stands_for_def)
  note R = file_repD [OF rep]
  let ?k = "cindex (cf_cc s) pos"
  note i = seek_index [OF rep pos] and x = cindex_32 [OF R(7) seek_index(1) [OF rep pos]]
  have guards: "cf_isOpen s" "\<not> (if isAppend s then pos \<noteq> cf_size s else pos > cf_size s)"
    using R(1,11) pos app by (auto simp: rep_conf_def)
  let ?move = "chk (flushLastChunk A) (\<lambda>_ s. chk (next_chunk A ?k True) (enter_chunk A pos ?k n) (s\<lparr>cf_current := Null\<rparr>))"
  have move: "goes ?move s (\<lambda>_. arrived A K desc plain n pos s)"
    unfolding goes_chk
  proof (rule goes_mono [OF flushLast_ok [OF st cur]])
    fix y t
    assume t: "stands_for A K desc plain t \<and> kept s t \<and> \<not> dirty_at t (cf_eofSeqnum t) \<and> cf_sizeDirty t = cf_sizeDirty s"
    let ?t = "t\<lparr>cf_current := Null\<rparr>"
    note C = kept_cfg(1) [of s t]
    have lt: "stands_for A K desc plain ?t" "\<not> dirty_at ?t (cf_eofSeqnum ?t)" using rep_leave [of A K desc plain t] t by simp_all
    have cf: "cfg ?t = cfg s" using C t by (simp add: cfg_def)
    have "goes (chk (next_chunk A ?k True) (enter_chunk A pos ?k n)) ?t (\<lambda>_. arrived A K desc plain n pos s)"
      unfolding goes_chk
    proof (rule goes_mono [OF next_chunk_ok [OF lt(1) _ lt(2)]])
      fix nx u
      assume u: "chosen A K desc plain ?k nx u \<and> cfg u = cfg ?t \<and> cf_size u = cf_size ?t"
      then have cu: "cfg u = cfg s" using cf by simp
      then have k: "?k = cindex (cf_cc u) pos" using cfgD [OF cu] by simp
      show "goes (enter_chunk A pos ?k n nx) u (\<lambda>_. arrived A K desc plain n pos s)"
        by (rule goes_mono [OF enter_chosen_ok [OF _ pos k]]) (use u cu arrived_trans in blast)+
    qed simp
    then show "goes (\<lambda>s. chk (next_chunk A ?k True) (enter_chunk A pos ?k n) (s\<lparr>cf_current := Null\<rparr>)) t
        (\<lambda>_. arrived A K desc plain n pos s)"
      by (simp add: goes_def)
  qed
  show ?thesis
  proof (cases "cf_current s = Null")
    case True
    then show ?thesis using move guards x(1) by (simp add: goes_def doSeek_def Let_def)
  next
    case False
    then obtain c where d: "deref s (cf_current s) = Some c" using cur by auto
    show ?thesis
    proof (cases "ck_seqnum c = ?k")
      case False
      then show ?thesis using move guards x(1) \<open>cf_current s \<noteq> Null\<close> d
        by (simp add: goes_def doSeek_def Let_def with_chunk_def)
    next
      case True
      let ?c = "c\<lparr>ck_offset := chunkOffsetForPos (cf_cc s) pos\<rparr>"
      let ?t = "assign (cf_current s) ?c (s\<lparr>cf_cursor := pos\<rparr>)"
      have run: "doSeek A pos n True s = Some (Inr (), ?t)"
        using guards x(1) \<open>cf_current s \<noteq> Null\<close> d True by (simp add: doSeek_def Let_def with_chunk_def done_with_def)
      have cf: "cfg ?t = cfg s" by (simp add: cfg_def)
      have dt: "deref ?t = (deref s)(cf_current s \<mapsto> ?c)" using deref_fun_upd [of "s\<lparr>cf_cursor := pos\<rparr>"] d by simp
      have ok: "chunk_ok A plain m dk s (cf_current s) c"
        by (rule rep_chunk [OF rep current_held [OF d] \<open>cf_current s \<noteq> Null\<close>])
      have same: "rel_option same_but_offset (deref s r) (deref ?t r)" for r
        unfolding dt using d by (auto simp: option.rel_refl same_but_offset_refl) (simp add: same_but_offset_def)
      have keys: "List.map fst (cf_cache ?t) = List.map fst (cf_cache s)" by simp
      then have "cf_cache ?t = [] \<longleftrightarrow> cf_cache s = []" by (metis map_is_Nil_conv)
      then have rc: "rep_cache ?t" using R(5) cfgD [OF cf] by (auto simp: rep_cache_def)
      have rep': "file_rep A K desc Null plain m dk ?t"
        by (rule move_rep [OF rep cf _ _ _ _ _ rc same]) simp_all
      have "ck_content ?c = piece (cf_cc s) plain ?k" using ok True by (simp add: chunk_ok_def)
      moreover from this have "assign (cf_current s) (?c\<lparr>ck_content := piece (cf_cc s) plain ?k\<rparr>) ?t = ?t"
        by (intro assign_same) (use rc dt in \<open>auto simp: rep_cache_def\<close>)
      ultimately have "arrived A K desc plain n pos s ?t"
        unfolding arrived_def stands_for_def using rep' dt cf True x(2) by auto
      then show ?thesis using run by (simp add: goes_def)
    qed
  qed
qed

end
