(* ===== verification/CryptIO.thy ===== *)
theory CryptIO
  imports CryptSeek
begin

section \<open>Reading and writing encrypted files\<close>

definition overwritten :: "byte list \<Rightarrow> nat \<Rightarrow> byte list \<Rightarrow> byte list" where
  "overwritten plain pos data = take pos plain @ data @ drop (pos + length data) plain"

lemma length_overwritten: "pos \<le> length plain \<Longrightarrow> length (overwritten plain pos data) = max (length plain) (pos + length data)"
  by (simp add: overwritten_def max_def)

lemma overwritten_nil [simp]: "overwritten plain pos [] = plain"
  by (simp add: overwritten_def)

lemma overwritten_twice:
  "pos \<le> length plain \<Longrightarrow> overwritten (overwritten plain pos a) (pos + length a) b = overwritten plain pos (a @ b)"
  by (simp add: overwritten_def drop_append take_append ac_simps)

subsection \<open>At a position\<close>

lemma arrived_zero:
  assumes a: "arrived A K desc plain 0 pos s s'" and st: "stands_for A K desc plain s" and "pos \<le> length plain"
    and "isAppend s \<longrightarrow> pos = length plain"
  shows "stands_for A K desc plain s'" and "cursor_ok plain s'"
proof -
  obtain m dk where rep: "file_rep A K desc Null plain m dk s" using st by (auto simp: stands_for_def)
  have lay: "layout_ok A (cf_cc s) (cf_dataOffset s) K" by (rule file_repD(7) [OF rep])
  let ?k = "cindex (cf_cc s) pos"
  obtain c where c0: "deref s' (cf_current s') = Some c" "ck_seqnum c = ?k" "ck_offset c = pos - cstart (cf_cc s) (ck_seqnum c)"
      "stands_for A K desc plain (assign (cf_current s') (c\<lparr>ck_content := piece (cf_cc s) plain (ck_seqnum c)\<rparr>) s')"
      "ck_content c = piece (cf_cc s) plain (ck_seqnum c)
        \<or> ck_content c = [] \<and> pos = cstart (cf_cc s) (ck_seqnum c) \<and> width (cf_cc s) (ck_seqnum c) \<le> 0"
    using a unfolding arrived_def by blast
  note c = c0(1,2) c0(3-5) [unfolded c0(2)]
  have w: "0 < width (cf_cc s) ?k" by (rule layoutD(5) [OF lay])
  then have cont: "ck_content c = piece (cf_cc s) plain ?k" using c(5) by simp
  have same: "c\<lparr>ck_content := piece (cf_cc s) plain ?k\<rparr> = c" using cont by simp
  have cf: "cfg s' = cfg s" and cur: "cf_cursor s' = pos" using a by (auto simp: arrived_def)
  have "distinct (List.map fst (cf_cache (assign (cf_current s') c s')))"
    using stands_cache [OF c(4)] unfolding same by (simp only: rep_cache_def)
  then have "assign (cf_current s') c s' = s'" by (intro assign_same [OF _ c(1)]) simp
  then show "stands_for A K desc plain s'" using c(4) unfolding same by simp
  have le: "cstart (cf_cc s) ?k \<le> pos" "pos < cstart (cf_cc s) ?k + width (cf_cc s) ?k"
    using cindex_start cindex_end [OF layoutD(3) [OF lay]] by auto
  have cc: "cf_cc s' = cf_cc s" "isAppend s' = isAppend s" using cfgD [OF cf] by blast+
  have "ck_offset c \<le> length (ck_content c)" unfolding c(3) cont length_piece using le assms(3) by linarith
  moreover have "pos = cstart (cf_cc s) (ck_seqnum c) + ck_offset c" unfolding c(2,3) using le(1) by simp
  ultimately show "cursor_ok plain s'"
    unfolding cursor_ok_def cc cur using assms(3,4) c(1) by blast
qed

lemma cursor_chunk:
  assumes st: "stands_for A K desc plain s" and cu: "cursor_ok plain s"
  obtains m dk c where "file_rep A K desc Null plain m dk s" "deref s (cf_current s) = Some c" "cf_current s \<noteq> Null"
    "chunk_ok A plain m dk s (cf_current s) c" "ck_content c = piece (cf_cc s) plain (ck_seqnum c)"
    "ck_maxSize c = width (cf_cc s) (ck_seqnum c)" "ck_seqnum c \<le> cf_eofSeqnum s"
    "cf_cursor s = cstart (cf_cc s) (ck_seqnum c) + ck_offset c" "ck_offset c \<le> length (piece (cf_cc s) plain (ck_seqnum c))"
    "width (cf_cc s) (ck_seqnum c) < 2 ^ 32"
proof -
  obtain m dk where rep: "file_rep A K desc Null plain m dk s" using st by (auto simp: stands_for_def)
  obtain c where c: "deref s (cf_current s) = Some c" "cf_cursor s = cstart (cf_cc s) (ck_seqnum c) + ck_offset c"
      "ck_offset c \<le> length (ck_content c)" using cu by (auto simp: cursor_ok_def)
  have nn: "cf_current s \<noteq> Null" using c(1) by auto
  have ok: "chunk_ok A plain m dk s (cf_current s) c" by (rule rep_chunk [OF rep current_held [OF c(1)] nn])
  have "ck_seqnum c \<le> K + 1" using ok file_repD(10) [OF rep] by (simp add: chunk_ok_def)
  then have "width (cf_cc s) (ck_seqnum c) < 2 ^ 32" using chunk_bound [OF file_repD(7) [OF rep] _ le_refl] by fastforce
  then show ?thesis using that [OF rep c(1) nn ok] ok c(2,3) by (simp add: chunk_ok_def)
qed

lemma available_eq:
  "ck_offset c \<le> length (ck_content c) \<Longrightarrow> length (ck_content c) < 2 ^ 32 \<Longrightarrow> available c = length (ck_content c) - ck_offset c"
  by (simp add: available_def)

text \<open>A seek to a position of the file.\<close>

lemma doSeek_at:
  assumes "stands_for A K desc plain s" and "cf_current s \<noteq> Null \<longrightarrow> deref s (cf_current s) \<noteq> None"
    and "pos \<le> length plain" and "isAppend s \<longrightarrow> pos = length plain"
  shows "goes (doSeek A pos 0 True) s (\<lambda>_ s'. stands_for A K desc plain s' \<and> cursor_ok plain s'
    \<and> cf_cursor s' = pos \<and> cfg s' = cfg s)"
proof (rule goes_mono [OF doSeek_ok [OF assms]])
  fix x s' assume a: "arrived A K desc plain 0 pos s s'"
  then show "stands_for A K desc plain s' \<and> cursor_ok plain s' \<and> cf_cursor s' = pos \<and> cfg s' = cfg s"
    using arrived_zero [OF a assms(1,3,4)] by (simp add: arrived_def)
qed

subsection \<open>Reading\<close>

lemma take_piece:
  "off + l \<le> length (piece cc plain k) \<Longrightarrow> take l (drop off (piece cc plain k)) = take l (drop (cstart cc k + off) plain)"
  by (simp add: piece_def drop_take add.commute min_def split: if_splits)

lemma copy_out_ok:
  assumes st: "stands_for A K desc plain s" and cu: "cursor_ok plain s" and n: "0 < n" and app: "\<not> isAppend s"
    and av: "\<And>c. deref s (cf_current s) = Some c \<Longrightarrow> available c \<noteq> 0"
  shows "goes (copy_out n) s (\<lambda>p s'. p \<noteq> [] \<and> length p \<le> n \<and> p = take (length p) (drop (cf_cursor s) plain)
    \<and> cf_cursor s' = cf_cursor s + length p \<and> stands_for A K desc plain s' \<and> cursor_ok plain s' \<and> cfg s' = cfg s)"
proof -
  obtain m dk c where c: "file_rep A K desc Null plain m dk s" "deref s (cf_current s) = Some c" "cf_current s \<noteq> Null"
      "chunk_ok A plain m dk s (cf_current s) c" "ck_content c = piece (cf_cc s) plain (ck_seqnum c)"
      "ck_maxSize c = width (cf_cc s) (ck_seqnum c)" "ck_seqnum c \<le> cf_eofSeqnum s"
      "cf_cursor s = cstart (cf_cc s) (ck_seqnum c) + ck_offset c" "ck_offset c \<le> length (piece (cf_cc s) plain (ck_seqnum c))"
      "width (cf_cc s) (ck_seqnum c) < 2 ^ 32"
    by (rule cursor_chunk [OF st cu])
  let ?p = "piece (cf_cc s) plain (ck_seqnum c)" and ?r = "min n (available c)"
  have av: "available c = length ?p - ck_offset c" "0 < available c"
    using available_eq [of c] c(5,9,10) av [OF c(2)] by (auto simp: length_piece)
  let ?c = "c\<lparr>ck_offset := ck_offset c + ?r\<rparr>"
  let ?t = "assign (cf_current s) ?c (s\<lparr>cf_cursor := cf_cursor s + ?r\<rparr>)"
  let ?out = "take ?r (drop (ck_offset c) ?p)"
  have run: "copy_out n s = Some (Inr ?out, ?t)"
    using c(2,5) av by (simp add: copy_out_def with_chunk_def done_with_def Let_def)
  have lr: "ck_offset c + ?r \<le> length ?p" using av by simp
  have out: "?out = take ?r (drop (cf_cursor s) plain)" using take_piece [OF lr] c(8) by simp
  have lo: "length ?out = ?r" using lr by simp
  have cf: "cfg ?t = cfg s" by (simp add: cfg_def)
  have dt: "deref ?t = (deref s)(cf_current s \<mapsto> ?c)" using deref_fun_upd [of "s\<lparr>cf_cursor := cf_cursor s + ?r\<rparr>"] c(2) by simp
  have same: "rel_option same_but_offset (deref s r) (deref ?t r)" for r
    unfolding dt using c(2) by (auto simp: option.rel_refl same_but_offset_refl) (simp add: same_but_offset_def)
  have keys: "List.map fst (cf_cache ?t) = List.map fst (cf_cache s)" by simp
  then have "cf_cache ?t = [] \<longleftrightarrow> cf_cache s = []" by (metis map_is_Nil_conv)
  then have rc: "rep_cache ?t" using stands_cache [OF st] cfgD [OF cf] by (auto simp: rep_cache_def)
  have "file_rep A K desc Null plain m dk ?t" by (rule move_rep [OF c(1) cf _ _ _ _ _ rc same]) simp_all
  moreover have "cursor_ok plain ?t"
  proof -
    have "0 < ?r" using n av(2) by simp
    then have "cf_cursor s + ?r \<le> length plain" using lr c(8) unfolding length_piece by linarith
    then show ?thesis using dt c(5,8) lr cfgD [OF cf] app unfolding cursor_ok_def by simp
  qed
  ultimately show ?thesis
    unfolding goes_eq [of "copy_out n", OF run] stands_for_def using n av out lo cf by auto
qed

lemma read_step_ok:
  assumes st: "stands_for A K desc plain s" and cu: "cursor_ok plain s" and n: "0 < n" and app: "\<not> isAppend s"
    and more: "cf_cursor s < length plain"
  shows "goes (read_step A n) s (\<lambda>p s'. p \<noteq> [] \<and> length p \<le> n \<and> p = take (length p) (drop (cf_cursor s) plain)
    \<and> cf_cursor s' = cf_cursor s + length p \<and> stands_for A K desc plain s' \<and> cursor_ok plain s' \<and> cfg s' = cfg s)"
proof -
  obtain m dk c where c: "file_rep A K desc Null plain m dk s" "deref s (cf_current s) = Some c" "cf_current s \<noteq> Null"
    by (rule cursor_chunk [OF st cu])
  let ?Q = "\<lambda>_ s'. stands_for A K desc plain s' \<and> cursor_ok plain s' \<and> cf_cursor s' = cf_cursor s \<and> cfg s' = cfg s
    \<and> (\<forall>c. deref s' (cf_current s') = Some c \<longrightarrow> available c \<noteq> 0)"
  have first: "goes (\<lambda>s. if available c = 0 then doSeek A (cf_cursor s) 0 True s else done_with () s) s ?Q"
  proof (cases "available c = 0")
    case False
    then show ?thesis using st cu c(2) by (simp add: goes_def done_with_def)
  next
    case True
    have le: "cf_cursor s \<le> length plain" using more by simp
    have cur: "cf_current s \<noteq> Null \<longrightarrow> deref s (cf_current s) \<noteq> None" using c(2) by simp
    have "goes (doSeek A (cf_cursor s) 0 True) s ?Q"
    proof (rule goes_mono [OF doSeek_ok [OF st cur le]])
      show "isAppend s \<longrightarrow> cf_cursor s = length plain" using app by simp
      fix x s' assume a: "arrived A K desc plain 0 (cf_cursor s) s s'"
      have z: "stands_for A K desc plain s'" "cursor_ok plain s'" using arrived_zero [OF a st le] app by auto
      obtain m' dk' c' where c': "file_rep A K desc Null plain m' dk' s'" "deref s' (cf_current s') = Some c'" "cf_current s' \<noteq> Null"
          "chunk_ok A plain m' dk' s' (cf_current s') c'" "ck_content c' = piece (cf_cc s') plain (ck_seqnum c')"
          "ck_maxSize c' = width (cf_cc s') (ck_seqnum c')" "ck_seqnum c' \<le> cf_eofSeqnum s'"
          "cf_cursor s' = cstart (cf_cc s') (ck_seqnum c') + ck_offset c'" "ck_offset c' \<le> length (piece (cf_cc s') plain (ck_seqnum c'))"
          "width (cf_cc s') (ck_seqnum c') < 2 ^ 32"
        by (rule cursor_chunk [OF z])
      have pos: "cf_cursor s' = cf_cursor s" and cf: "cfg s' = cfg s" and k: "ck_seqnum c' = cindex (cf_cc s) (cf_cursor s)"
        using a c'(2) by (auto simp: arrived_def)
      have "cf_cursor s < cstart (cf_cc s) (ck_seqnum c') + width (cf_cc s) (ck_seqnum c')"
        unfolding k by (rule cindex_end [OF layoutD(3) [OF file_repD(7) [OF c(1)]]])
      then have "available c' \<noteq> 0"
        using available_eq [of c'] c'(5,8-10) pos more cfgD [OF cf] by (auto simp: length_piece)
      then show "?Q x s'" using z pos cf c'(2) by simp
    qed
    then show ?thesis using True by (simp add: goes_def)
  qed
  have "goes (chk (\<lambda>s. if available c = 0 then doSeek A (cf_cursor s) 0 True s else done_with () s) (\<lambda>_. copy_out n)) s
     (\<lambda>p s'. p \<noteq> [] \<and> length p \<le> n \<and> p = take (length p) (drop (cf_cursor s) plain)
    \<and> cf_cursor s' = cf_cursor s + length p \<and> stands_for A K desc plain s' \<and> cursor_ok plain s' \<and> cfg s' = cfg s)"
    unfolding goes_chk
  proof (rule goes_mono [OF first])
    fix x t assume t: "?Q x t"
    have "\<not> isAppend t" using app t cfgD [of t s] by simp
    then show "goes (copy_out n) t (\<lambda>p s'. p \<noteq> [] \<and> length p \<le> n \<and> p = take (length p) (drop (cf_cursor s) plain)
      \<and> cf_cursor s' = cf_cursor s + length p \<and> stands_for A K desc plain s' \<and> cursor_ok plain s' \<and> cfg s' = cfg s)"
      using copy_out_ok [of A K desc plain t n] t n by simp
  qed
  then show ?thesis using c(2) by (simp add: goes_def read_step_def with_chunk_def)
qed

lemma read_loop_ok:
  assumes "stands_for A K desc plain s" and "cursor_ok plain s" and "\<not> isAppend s"
  shows "goes (read_loop A n acc) s (\<lambda>p s'. p = acc @ take n (drop (cf_cursor s) plain)
    \<and> cf_cursor s' = cf_cursor s + min n (length plain - cf_cursor s)
    \<and> stands_for A K desc plain s' \<and> cursor_ok plain s' \<and> cfg s' = cfg s)"
  using assms
proof (induction n arbitrary: s acc rule: less_induct)
  case (less n)
  have size: "cf_size s = length plain" using less.prems(1) file_repD(11) by (auto simp: stands_for_def)
  show ?case
  proof (cases "n = 0 \<or> cf_cursor s = cf_size s")
    case True
    then show ?thesis using less.prems size by (auto simp: goes_def read_loop.simps done_with_def)
  next
    case False
    then have pos: "0 < n" "cf_cursor s < length plain" using less.prems(2) size by (auto simp: cursor_ok_def)
    obtain p t where t: "read_step A n s = Some (Inr p, t)" "p \<noteq> []" "length p \<le> n" "p = take (length p) (drop (cf_cursor s) plain)"
        "cf_cursor t = cf_cursor s + length p" "stands_for A K desc plain t" "cursor_ok plain t" "cfg t = cfg s"
      using read_step_ok [OF less.prems(1,2) pos(1) less.prems(3) pos(2)] by (auto simp: goes_def)
    have "n - length p < n" using t(2) pos(1) by (cases p) auto
    moreover have "\<not> isAppend t" using less.prems(3) cfgD [OF t(8)] by simp
    ultimately have "goes (read_loop A (n - length p) (acc @ p)) t (\<lambda>q u. q = (acc @ p) @ take (n - length p) (drop (cf_cursor t) plain)
        \<and> cf_cursor u = cf_cursor t + min (n - length p) (length plain - cf_cursor t)
        \<and> stands_for A K desc plain u \<and> cursor_ok plain u \<and> cfg u = cfg t)"
      by (intro less.IH t(6,7))
    then obtain q u where u: "read_loop A (n - length p) (acc @ p) t = Some (Inr q, u)"
        "q = (acc @ p) @ take (n - length p) (drop (cf_cursor t) plain)"
        "cf_cursor u = cf_cursor t + min (n - length p) (length plain - cf_cursor t)"
        "stands_for A K desc plain u" "cursor_ok plain u" "cfg u = cfg t"
      unfolding goes_def by blast
    have lp: "length p \<le> length plain - cf_cursor s" by (metis t(4) length_take length_drop min.cobounded1)
    have "take n (drop (cf_cursor s) plain) = p @ take (n - length p) (drop (cf_cursor t) plain)"
    proof -
      let ?xs = "drop (cf_cursor s) plain"
      have "take n ?xs = take (length p) ?xs @ take (n - length p) (drop (length p) ?xs)"
        using take_add [of "length p" "n - length p" ?xs] t(3) by simp
      moreover have "drop (length p) ?xs = drop (cf_cursor t) plain" by (simp add: t(5) add.commute)
      ultimately show ?thesis using t(4) by simp
    qed
    then have "q = acc @ take n (drop (cf_cursor s) plain)" using u(2) by simp
    moreover have "cf_cursor u = cf_cursor s + min n (length plain - cf_cursor s)" using u(3) t(3,5) lp by simp
    moreover have "read_loop A n acc s = Some (Inr q, u)"
      using False t(1,2) u(1) by (simp add: read_loop.simps [of A n])
    ultimately show ?thesis using u(4-6) t(8) by (simp add: goes_def)
  qed
qed

subsection \<open>Writing into a chunk\<close>

lemma overlay_resize:
  assumes "alloc_ok junk" and "off \<le> length p" and "length p < off + length d"
  shows "overlay off d (resize_to junk (off + length d) p) = take off p @ d"
  using assms alloc_length [of junk "off + length d - length p"]
  by (simp add: overlay_def resize_to_def take_append)

text \<open>What the state is after the bytes are in the chunk.\<close>

lemma copy_in_rep:
  assumes rep: "file_rep A K desc Null plain m dk s" and c: "deref s (cf_current s) = Some c" "cf_current s \<noteq> Null"
    and ok: "chunk_ok A plain m dk s (cf_current s) c"
    and cur: "cf_cursor s = cstart (cf_cc s) (ck_seqnum c) + ck_offset c" "cf_cursor s \<le> length plain"
      "isAppend s \<longrightarrow> cf_cursor s = length plain"
    and d: "d \<noteq> []" "ck_offset c + length d \<le> width (cf_cc s) (ck_seqnum c)"
    and wm: "isWriteMode s" and bound: "cindex (cf_cc s) (max (length plain) (cf_cursor s + length d)) \<le> K + 1"
    and s': "cfg s' = cfg s" "cf_raw s' = cf_raw s" "cf_ciphertextSize s' = cf_ciphertextSize s"
      "cf_size s' = max (length plain) (cf_cursor s + length d)" "cf_eofSeqnum s' = cf_eofSeqnum s"
      "cf_sizeDirty s' = (cf_sizeDirty s \<or> length plain < cf_cursor s + length d)"
      "List.map fst (cf_cache s') = List.map fst (cf_cache s)" "cf_current s' = cf_current s"
      "deref s' = (deref s)(cf_current s \<mapsto> c')"
    and c': "ck_seqnum c' = ck_seqnum c" "ck_maxSize c' = ck_maxSize c" "ck_ciphertextSize c' = ck_ciphertextSize c"
      "ck_content c' = take (ck_offset c) (ck_content c) @ d @ drop (ck_offset c + length d) (ck_content c)" "ck_dirty c'"
  shows "file_rep A K desc Null (overwritten plain (cf_cursor s) d) m dk s'"
proof -
  let ?cc = "cf_cc s" and ?E = "cf_eofSeqnum s" and ?k = "ck_seqnum c" and ?new = "overwritten plain (cf_cursor s) d"
  note R = file_repD [OF rep] and C = cfgD [OF s'(1)]
  have CC: "cf_cc s' = ?cc" "cf_dataOffset s' = cf_dataOffset s" "useCache s' = useCache s" "isWriteMode s' = isWriteMode s"
    "isAppend s' = isAppend s" using C by blast+
  have ck: "?k \<le> ?E" "ck_maxSize c = width ?cc ?k" "ck_content c = piece ?cc plain ?k" using ok by (auto simp: chunk_ok_def)
  have len: "length ?new = max (length plain) (cf_cursor s + length d)" by (rule length_overwritten [OF cur(2)])
  have e: "cstart ?cc ?E \<le> length plain" "length plain \<le> cstart ?cc (Suc ?E)" using R(4) by (auto simp: rep_end_def)
  have inside: "cf_cursor s + length d \<le> cstart ?cc ?k + width ?cc ?k" using cur(1) d(2) by simp
  have over: "cf_cursor s + length d \<le> cstart ?cc (Suc ?E)"
    using inside cstart_mono [of "Suc ?k" "Suc ?E" ?cc] ck(1) by (simp add: cstart_Suc)
  have other: "piece ?cc ?new j = piece ?cc plain j" if "j \<noteq> ?k" for j
    unfolding overwritten_def by (rule piece_other [OF that _ inside cur(2)]) (use cur(1) in simp)
  have here: "piece ?cc ?new ?k = ck_content c'"
  proof -
    have "cf_cursor s - cstart ?cc ?k = ck_offset c" using cur(1) by simp
    then show ?thesis
      unfolding overwritten_def using piece_same [OF _ inside cur(2)] cur(1) c'(4) ck(3) by simp
  qed
  have held: "held s' r x \<longleftrightarrow> (if r = cf_current s then x = c' else held s r x)" for r x
    using c s'(8,9) by (auto simp: held_def)
  have mine: "held s (cf_current s) c" by (rule current_held [OF c(1)])
  have notk: "ck_seqnum x \<noteq> ?k" if "held s r x" "r \<noteq> cf_current s" for r x
  proof -
    have "r \<noteq> Null" using that(1) by (auto simp: held_def)
    then show ?thesis using held_unique [OF rep mine that(1) _ c(2)] that(2) by metis
  qed
  have dirty: "dirty_at s j" if "dirty_at s' j" "j \<noteq> ?k" for j
    using that held c'(1) unfolding dirty_at_def by metis
  have dirty': "dirty_at s' j" if dj: "dirty_at s j" "j \<noteq> ?k" for j
  proof -
    obtain r x where x: "held s r x" "ck_seqnum x = j" "ck_dirty x" using dj(1) by (auto simp: dirty_at_def)
    then have "r \<noteq> cf_current s" using dj(2) mine by (auto simp: held_def)
    then show ?thesis using held x unfolding dirty_at_def by metis
  qed
  have last: "\<not> useCache s \<longrightarrow> ?k = ?E"
  proof
    assume "\<not> useCache s"
    then have "cf_cursor s = length plain" using wm R(1) cur(3) by (simp add: rep_conf_def)
    then show "?k = ?E" using cstart_less [of ?k ?E ?cc] ck(1) e(1) inside d(1) by (cases "?k = ?E") (auto simp: le_less)
  qed
  have raw: "raw_bytes s' = raw_bytes s" using s'(2) by (simp add: raw_bytes_def)
  have conf: "rep_conf A K desc s'" using R(1) rep_conf_same [OF s'(1)] by simp
  have disk: "rep_disk A m dk s'" using R(2) raw s'(2,3) CC by (simp add: rep_disk_def)
  have head: "rep_head desc ?new m dk s'"
  proof (cases "length plain < cf_cursor s + length d")
    case False
    then have "length ?new = length plain" using len by simp
    then show ?thesis using R(3) raw s'(3,6) CC False unfolding rep_head_def by metis
  qed (use R(3) raw s'(6) CC in \<open>auto simp: rep_head_def\<close>)
  have tail: "rep_end K ?new m dk s'"
    using R(4) s'(4,5) CC len bound over unfolding rep_end_def by (simp add: le_max_iff_disj)
  have "cf_cache s' = [] \<longleftrightarrow> cf_cache s = []" using s'(7) by (metis map_is_Nil_conv)
  then have cache: "rep_cache s'" using R(5) s'(7,8) CC unfolding rep_cache_def by auto
  have "chunk_ok A ?new m dk s' r x" if h: "held s' r x" for r x
  proof (cases "r = cf_current s")
    case True
    then have x: "x = c'" using h held by simp
    have "ck_content c' \<noteq> []" using c'(4) d(1) by simp
    then show ?thesis
      unfolding x True using ok here c'(1-3) CC s'(5,8) wm last by (simp add: chunk_ok_def)
  next
    case False
    then have x: "held s r x" using h held by simp
    then have "r \<noteq> Null" by (auto simp: held_def)
    then have "chunk_ok A plain m dk s r x" by (rule rep_chunk [OF rep x])
    then show ?thesis using other [OF notk [OF x False]] CC s'(5,8) by (auto simp: chunk_ok_def)
  qed
  moreover have "piece ?cc ?new j = (if j < m then dk j else [])" if "j \<le> ?E" "\<not> dirty_at s' j" for j
  proof (cases "j = ?k")
    case False
    then have "\<not> dirty_at s j" using that(2) dirty' by blast
    then show ?thesis using rep_clean [OF rep _ that(1)] other [OF False] by simp
  next
    case True
    have "dirty_at s' ?k" unfolding dirty_at_def using held c'(1,5) by metis
    then show ?thesis using that(2) True by simp
  qed
  ultimately have "rep_chunks A Null ?new m dk s'" using CC s'(5) by (simp add: rep_chunks_def)
  then show ?thesis using conf disk head tail cache by (simp add: file_rep_def)
qed

text \<open>The chunk under the cursor is ready to be written: filled, or empty because all of it will be written.\<close>

definition ready :: "aead \<Rightarrow> nat \<Rightarrow> byte list \<Rightarrow> byte list \<Rightarrow> nat \<Rightarrow> crypt_file \<Rightarrow> bool" where
  "ready A K desc plain n s \<longleftrightarrow>
     (\<exists>c. deref s (cf_current s) = Some c \<and> ck_offset c < width (cf_cc s) (ck_seqnum c)
        \<and> stands_for A K desc plain (assign (cf_current s) (c\<lparr>ck_content := piece (cf_cc s) plain (ck_seqnum c)\<rparr>) s)
        \<and> cursor_ok plain (assign (cf_current s) (c\<lparr>ck_content := piece (cf_cc s) plain (ck_seqnum c)\<rparr>) s)
        \<and> (ck_content c = piece (cf_cc s) plain (ck_seqnum c)
           \<or> ck_content c = [] \<and> ck_offset c = 0 \<and> width (cf_cc s) (ck_seqnum c) \<le> n \<and> ck_seqnum c < cf_eofSeqnum s))"

lemma copy_in_total:
  assumes "alloc_ok (cf_junk s)" and d: "deref s (cf_current s) = Some c" and "ck_content c = []" and "ck_offset c = 0"
    and w: "ck_maxSize c = width (cf_cc s) (ck_seqnum c)" "width (cf_cc s) (ck_seqnum c) \<le> length data"
      "0 < width (cf_cc s) (ck_seqnum c)" "width (cf_cc s) (ck_seqnum c) < 2 ^ 32"
    and "ck_seqnum c < cf_eofSeqnum s" and "length p = width (cf_cc s) (ck_seqnum c)"
  shows "copy_in data (assign (cf_current s) (c\<lparr>ck_content := p\<rparr>) s) = copy_in data s"
proof -
  let ?w = "width (cf_cc s) (ck_seqnum c)"
  have one: "length (cf_junk s n) = n" for n by (rule alloc_length [OF assms(1)])
  have d': "deref (assign (cf_current s) (c\<lparr>ck_content := p\<rparr>) s) (cf_current s) = Some (c\<lparr>ck_content := p\<rparr>)"
    using deref_assign [OF d] by simp
  have swap: "(assign r x s)\<lparr>cf_cursor := q\<rparr> = assign r x (s\<lparr>cf_cursor := q\<rparr>)" for r x q
    by (simp add: assign_def split: chunk_ref.split)
  show ?thesis
    using assms(3,4,9,10) d d' w one
    by (simp add: copy_in_def with_chunk_def Let_def isLastChunk_def resize_to_def overlay_def done_with_def swap assign_assign
        min_def)
qed

lemma copy_in_ok:
  assumes st: "stands_for A K desc plain s" and cu: "cursor_ok plain s" and wm: "isWriteMode s" and ne: "data \<noteq> []"
    and c: "deref s (cf_current s) = Some c" "ck_offset c < width (cf_cc s) (ck_seqnum c)"
    and bound: "cindex (cf_cc s) (max (length plain) (cf_cursor s + length data)) \<le> K + 1"
  shows "goes (copy_in data) s (\<lambda>n s'. 0 < n \<and> n \<le> length data \<and> stands_for A K desc (overwritten plain (cf_cursor s) (take n data)) s'
    \<and> cursor_ok (overwritten plain (cf_cursor s) (take n data)) s' \<and> cf_cursor s' = cf_cursor s + n \<and> cfg s' = cfg s)"
proof -
  obtain m dk c0 where c0: "file_rep A K desc Null plain m dk s" "deref s (cf_current s) = Some c0" "cf_current s \<noteq> Null"
      "chunk_ok A plain m dk s (cf_current s) c0" "ck_content c0 = piece (cf_cc s) plain (ck_seqnum c0)"
      "ck_maxSize c0 = width (cf_cc s) (ck_seqnum c0)" "ck_seqnum c0 \<le> cf_eofSeqnum s"
      "cf_cursor s = cstart (cf_cc s) (ck_seqnum c0) + ck_offset c0" "ck_offset c0 \<le> length (piece (cf_cc s) plain (ck_seqnum c0))"
      "width (cf_cc s) (ck_seqnum c0) < 2 ^ 32"
    by (rule cursor_chunk [OF st cu])
  have "c0 = c" using c0(2) c(1) by simp
  note c0 = c0 [unfolded this]
  note R = file_repD [OF c0(1)]
  let ?cc = "cf_cc s" and ?k = "ck_seqnum c" and ?off = "ck_offset c" and ?E = "cf_eofSeqnum s" and ?w = "width (cf_cc s) (ck_seqnum c)"
  let ?p = "piece ?cc plain ?k"
  define n where "n = min (length data) (?w - ?off)"
  have n: "0 < n" "n \<le> length data" "?off + n \<le> ?w" using ne c(2) by (auto simp: n_def)
  let ?d = "take n data"
  have ld: "length ?d = n" using n(2) by simp
  have avail: "sub64 (ck_maxSize c) ?off = ?w - ?off" using c0(6,10) c(2) by simp
  have ws: "(if ck_maxSize c \<noteq> 0 \<and> length data > sub64 (ck_maxSize c) ?off then sub64 (ck_maxSize c) ?off else length data) = n"
    using avail c(2) c0(6) by (simp add: n_def)
  have w64: "w64 (?off + n) = ?off + n" using n(3) c0(10) by simp
  have junk: "alloc_ok (cf_junk s)" using R(1) by (simp add: rep_conf_def)
  let ?body = "take ?off ?p @ ?d @ drop (?off + n) ?p"
  let ?cont = "if length ?p < ?off + n then resize_to (cf_junk s) (?off + n) ?p else ?p"
  have over: "overlay ?off ?d ?cont = ?body"
  proof (cases "length ?p < ?off + n")
    case True
    then show ?thesis using overlay_resize [OF junk c0(9), of ?d] ld by simp
  next
    case False
    then show ?thesis using ld by (simp add: overlay_def)
  qed
  have fits: "\<not> ?off + n > length ?cont"
    using alloc_length [OF junk, of "?off + n - length ?p"] by (simp add: resize_to_def)
  let ?c' = "c\<lparr>ck_content := ?body, ck_offset := ?off + n, ck_dirty := True\<rparr>"
  let ?grow = "isLastChunk s c \<and> ?off + n > length ?p"
  let ?s1 = "if ?grow then s\<lparr>cf_size := cf_size s + (?off + n - length ?p), cf_sizeDirty := True\<rparr> else s"
  let ?t = "assign (cf_current s) ?c' (?s1\<lparr>cf_cursor := cf_cursor s + n\<rparr>)"
  have run: "copy_in data s = Some (Inr n, ?t)"
    unfolding copy_in_def with_chunk_def c0(2) option.case Let_def ws w64 c0(5) over
    using fits by (auto simp: done_with_def)
  have e: "cstart ?cc ?E \<le> length plain" "length plain \<le> cstart ?cc (Suc ?E)" using R(4) by (auto simp: rep_end_def)
  have cur: "cf_cursor s \<le> length plain" "isAppend s \<longrightarrow> cf_cursor s = length plain" using cu by (auto simp: cursor_ok_def)
  have full: "length ?p = ?w" if "?k < ?E"
    using cstart_less [OF that, of ?cc] e(1) by (intro piece_full) simp
  have grow: "?grow \<longleftrightarrow> length plain < cf_cursor s + n"
  proof (cases "?k = ?E")
    case True
    then show ?thesis using c0(8) e n(3) unfolding isLastChunk_def length_piece cstart_Suc by auto
  next
    case False
    then have "?k < ?E" using c0(7) by simp
    then show ?thesis using cstart_less [OF \<open>?k < ?E\<close>, of ?cc] e(1) c0(8) n(3) False by (simp add: isLastChunk_def)
  qed
  have size: "cf_size ?t = max (length plain) (cf_cursor s + n)"
  proof (cases ?grow)
    case True
    then have k: "?k = ?E" by (simp add: isLastChunk_def)
    have "length ?p = length plain - cstart ?cc ?E" using e k unfolding length_piece cstart_Suc by simp
    then show ?thesis using True grow R(11) c0(8) k e(1) by simp
  next
    case False
    then show ?thesis using grow R(11) by auto
  qed
  have cf: "cfg ?t = cfg s" by (simp add: cfg_def)
  have tc: "cf_cursor ?t = cf_cursor s + n" by simp
  have dt: "deref ?t = (deref s)(cf_current s \<mapsto> ?c')"
  proof -
    have "deref ?t = (deref (?s1\<lparr>cf_cursor := cf_cursor s + n\<rparr>))(cf_current s \<mapsto> ?c')"
      by (rule deref_fun_upd [of _ _ c]) (use c(1) in simp)
    then show ?thesis by simp
  qed
  have "cindex ?cc (max (length plain) (cf_cursor s + n)) \<le> cindex ?cc (max (length plain) (cf_cursor s + length data))"
    by (rule cindex_mono [OF layoutD(3) [OF R(7)]]) (use n(2) in simp)
  then have b: "cindex ?cc (max (length plain) (cf_cursor s + length ?d)) \<le> K + 1" using bound ld by simp
  have dne: "?d \<noteq> []" using n(1) ld by auto
  have dl: "?off + length ?d \<le> ?w" using n(3) ld by simp
  have "file_rep A K desc Null (overwritten plain (cf_cursor s) ?d) m dk ?t"
    by (rule copy_in_rep [OF c0(1,2,3,4,8) cur dne dl wm b cf _ _ _ _ _ _ _ dt])
      (use size grow ld c0(5) in \<open>simp_all\<close>)
  moreover have "cursor_ok (overwritten plain (cf_cursor s) ?d) ?t"
  proof -
    have t: "cf_cc ?t = ?cc" "isAppend ?t = isAppend s" using cfgD [OF cf] by blast+
    have t': "cf_cursor ?t = cf_cursor s + n" "cf_current ?t = cf_current s" by simp_all
    have "isAppend s \<longrightarrow> cf_cursor s + n = max (length plain) (cf_cursor s + n)" using cur(2) by simp
    moreover have "?off + n \<le> length ?body" using ld c0(9) by simp
    moreover have "cf_cursor s + n = cstart ?cc ?k + (?off + n)" using c0(8) by simp
    ultimately show ?thesis
      unfolding cursor_ok_def length_overwritten [OF cur(1)] ld t t' dt using c0(9) n(2) by (simp add: add.assoc)
  qed
  ultimately show ?thesis
    unfolding goes_eq [of "copy_in data", OF run] stands_for_def using n(1,2) cf tc by blast
qed

end
