(* ===== verification/CryptWrite.thy ===== *)
theory CryptWrite
  imports CryptIO
begin

section \<open>Writing over several chunks\<close>

text \<open>
  A write that enters the last chunk at its start and covers all of it takes the chunk for empty and counts
  its size again: excluded here, and shown for what it is with the errors below.
\<close>

definition covers_ok :: "container \<Rightarrow> byte list \<Rightarrow> nat \<Rightarrow> nat \<Rightarrow> bool" where
  "covers_ok cc plain pos n \<longleftrightarrow>
     (let last = cindex cc (length plain - 1)
      in pos = length plain \<or> cstart cc last < pos \<or> pos + n < cstart cc (Suc last))"

lemma covers_ok_rest:
  assumes "covers_ok cc plain pos n" and "pos \<le> length plain" and "length d \<le> n"
  shows "covers_ok cc (overwritten plain pos d) (pos + length d) (n - length d)"
  using assms by (auto simp: covers_ok_def Let_def length_overwritten max_def)

lemma covers_ok_inner:
  assumes c: "0 < cc_chunkMaxSize cc" and ok: "covers_ok cc plain (cstart cc k) n" and len: "cstart cc k < length plain"
    and w: "width cc k \<le> n" and E: "length plain \<le> cstart cc (Suc E)"
  shows "k < E"
proof -
  let ?l = "cindex cc (length plain - 1)"
  have end_: "length plain - 1 < cstart cc (Suc ?l)" using cindex_end [OF c] by (simp add: cstart_Suc)
  have le: "?l \<le> E" by (rule cindex_le [OF c]) (use E len in linarith)
  have "\<not> cstart cc ?l < cstart cc k"
  proof
    assume "cstart cc ?l < cstart cc k"
    then have "?l < k" using cstart_mono [of k ?l cc] by (meson leD not_le)
    then show False using cstart_mono [of "Suc ?l" k cc] end_ len by linarith
  qed
  then have "cstart cc k + n < cstart cc (Suc ?l)" using ok len by (auto simp: covers_ok_def Let_def)
  then have "cstart cc (Suc k) < cstart cc (Suc ?l)" using w by (simp add: cstart_Suc)
  then have "k < ?l" using cstart_mono [of "Suc ?l" "Suc k" cc] by (meson leD not_le Suc_le_mono)
  then show ?thesis using le by simp
qed

lemma cursor_assign:
  assumes "cursor_ok plain s" and "deref s (cf_current s) = Some c"
  shows "cf_cursor s = cstart (cf_cc s) (ck_seqnum c) + ck_offset c" and "ck_offset c \<le> length (ck_content c)"
  using assms by (auto simp: cursor_ok_def)

lemma move_on_ok:
  assumes st: "stands_for A K desc plain s" and cu: "cursor_ok plain s" and n: "0 < n"
    and ok: "covers_ok (cf_cc s) plain (cf_cursor s) n"
  shows "goes (move_on A n) s (\<lambda>_ s'. ready A K desc plain n s' \<and> cf_cursor s' = cf_cursor s \<and> cfg s' = cfg s)"
proof -
  obtain m dk c where c: "file_rep A K desc Null plain m dk s" "deref s (cf_current s) = Some c" "cf_current s \<noteq> Null"
      "chunk_ok A plain m dk s (cf_current s) c" "ck_content c = piece (cf_cc s) plain (ck_seqnum c)"
      "ck_maxSize c = width (cf_cc s) (ck_seqnum c)" "ck_seqnum c \<le> cf_eofSeqnum s"
      "cf_cursor s = cstart (cf_cc s) (ck_seqnum c) + ck_offset c" "ck_offset c \<le> length (piece (cf_cc s) plain (ck_seqnum c))"
      "width (cf_cc s) (ck_seqnum c) < 2 ^ 32"
    by (rule cursor_chunk [OF st cu])
  note R = file_repD [OF c(1)]
  let ?cc = "cf_cc s" and ?k = "ck_seqnum c"
  have w: "0 < width ?cc k" for k by (rule layoutD(5) [OF R(7)])
  have avail: "sub64 (ck_maxSize c) (ck_offset c) = width ?cc ?k - ck_offset c"
    using c(6,9,10) by (simp add: length_piece)
  show ?thesis
  proof (cases "ck_offset c < width ?cc ?k")
    case True
    have "assign (cf_current s) (c\<lparr>ck_content := piece ?cc plain ?k\<rparr>) s = s"
      using stands_cache [OF st] c(2,5) by (intro assign_same) (auto simp: rep_cache_def)
    then have "ready A K desc plain n s" unfolding ready_def using c(2,5) st cu True by auto
    moreover have "move_on A n s = Some (Inr (), s)"
      using c(2) avail True by (simp add: move_on_def with_chunk_def done_with_def)
    ultimately show ?thesis by (simp add: goes_def)
  next
    case False
    then have off: "ck_offset c = width ?cc ?k" "cstart ?cc (Suc ?k) \<le> length plain"
      using c(9) w [of ?k] unfolding length_piece cstart_Suc by linarith+
    have pos: "cf_cursor s = cstart ?cc (Suc ?k)" using c(8) off(1) by (simp add: cstart_Suc)
    have k: "Suc ?k \<le> K + 2" using c(7) R(10) by linarith
    have b: "cstart ?cc (Suc ?k) < 2 ^ 32"
      using rstart_bound [OF R(7) k] cstart_le_rstart [of ?cc "Suc ?k" A] by linarith
    have sq: "seqnumToPos ?cc (w32 (?k + 1)) = cstart ?cc (Suc ?k)"
    proof -
      have "n' \<le> cstart ?cc n'" for n'
      proof (induction n')
        case (Suc n') then show ?case using w [of n'] by (simp add: cstart_Suc)
      qed simp
      then have "Suc ?k < 2 ^ 32" using b le_less_trans by blast
      then show ?thesis using seqnumToPos_cstart [OF b] by simp
    qed
    have app: "isAppend s \<longrightarrow> cstart ?cc (Suc ?k) = length plain" using cu pos by (auto simp: cursor_ok_def)
    have cur: "cf_current s \<noteq> Null \<longrightarrow> deref s (cf_current s) \<noteq> None" using c(2) by simp
    have "goes (chk (doSeek A (cstart ?cc (Suc ?k)) n True) (\<lambda>_ s. with_chunk (cf_current s) (\<lambda>c s.
              if sub64 (ck_maxSize c) (ck_offset c) = 0 then None else done_with () s) s)) s
            (\<lambda>_ s'. ready A K desc plain n s' \<and> cf_cursor s' = cf_cursor s \<and> cfg s' = cfg s)"
      unfolding goes_chk
    proof (rule goes_mono [OF doSeek_ok [OF st cur off(2) app]])
      fix x t assume a: "arrived A K desc plain n (cstart ?cc (Suc ?k)) s t"
      obtain d where d0: "deref t (cf_current t) = Some d" "ck_seqnum d = cindex ?cc (cstart ?cc (Suc ?k))"
          "ck_offset d = cstart ?cc (Suc ?k) - cstart ?cc (ck_seqnum d)"
          "stands_for A K desc plain (assign (cf_current t) (d\<lparr>ck_content := piece ?cc plain (ck_seqnum d)\<rparr>) t)"
          "ck_content d = piece ?cc plain (ck_seqnum d)
           \<or> ck_content d = [] \<and> cstart ?cc (Suc ?k) = cstart ?cc (ck_seqnum d) \<and> width ?cc (ck_seqnum d) \<le> n"
        using a unfolding arrived_def by blast
      have dk: "ck_seqnum d = Suc ?k" using d0(2) cindex_cstart [OF R(7)] by simp
      note d = d0(1) dk d0(3-5) [unfolded dk diff_self_eq_0]
      let ?d = "d\<lparr>ck_content := piece ?cc plain (Suc ?k)\<rparr>"
      let ?t = "assign (cf_current t) ?d t"
      have cf: "cfg t = cfg s" and tc: "cf_cursor t = cf_cursor s" using a pos by (auto simp: arrived_def)
      note C = cfgD [OF cf]
      have dd: "deref ?t (cf_current ?t) = Some ?d" using deref_assign [OF d(1)] by simp
      obtain m' dk' where rep': "file_rep A K desc Null plain m' dk' ?t" using d(4) by (auto simp: stands_for_def)
      have nn: "cf_current ?t \<noteq> Null" using d(1) by auto
      have ck: "chunk_ok A plain m' dk' ?t (cf_current ?t) ?d" by (rule rep_chunk [OF rep' current_held [OF dd] nn])
      then have mx: "ck_maxSize d = width ?cc (Suc ?k)" using C d(2) by (simp add: chunk_ok_def)
      have E: "length plain \<le> cstart ?cc (Suc (cf_eofSeqnum t))" using file_repD(4) [OF rep'] C by (simp add: rep_end_def)
      have cc: "cf_cc t = ?cc" "isAppend ?t = isAppend s" using C by (auto simp: isAppend_def)
      have cu': "cursor_ok plain ?t"
        unfolding cursor_ok_def dd using cc tc pos d(2,3) off(2) app by simp
      have alt: "ck_content d = piece ?cc plain (Suc ?k)
          \<or> ck_content d = [] \<and> ck_offset d = 0 \<and> width ?cc (Suc ?k) \<le> n \<and> Suc ?k < cf_eofSeqnum t"
      proof (cases "cstart ?cc (Suc ?k) < length plain")
        case False
        then show ?thesis using d(5) piece_empty [of plain ?cc "Suc ?k"] by auto
      next
        case True
        then show ?thesis
          using d(3,5) covers_ok_inner [OF layoutD(3) [OF R(7)] ok [unfolded pos] True _ E] by auto
      qed
      have "ready A K desc plain n t"
        unfolding ready_def using d(1-4) w [of "Suc ?k"] cc(1) cu' alt by (intro exI [of _ d]) simp
      moreover have "width ?cc (Suc ?k) < 2 ^ 32"
      proof -
        obtain y where y: "deref ?t (cf_current ?t) = Some y" "width (cf_cc ?t) (ck_seqnum y) < 2 ^ 32"
          by (rule cursor_chunk [OF d(4) cu'])
        then show ?thesis using dd d(2) cc(1) by simp
      qed
      ultimately show "goes (\<lambda>s. with_chunk (cf_current s) (\<lambda>c s.
              if sub64 (ck_maxSize c) (ck_offset c) = 0 then None else done_with () s) s) t
            (\<lambda>_ s'. ready A K desc plain n s' \<and> cf_cursor s' = cf_cursor s \<and> cfg s' = cfg s)"
        using d(1,3) mx w [of "Suc ?k"] tc cf by (simp add: goes_def with_chunk_def done_with_def)
    qed
    then show ?thesis
      using c(2,6) avail off(1) w [of ?k] sq by (simp add: goes_def move_on_def with_chunk_def)
  qed
qed


text \<open>One round of the loop, and the loop.\<close>

definition wrote :: "aead \<Rightarrow> nat \<Rightarrow> byte list \<Rightarrow> byte list \<Rightarrow> crypt_file \<Rightarrow> nat \<Rightarrow> crypt_file \<Rightarrow> bool" where
  "wrote A K desc new s n s' \<longleftrightarrow>
     stands_for A K desc new s' \<and> cursor_ok new s' \<and> cf_cursor s' = cf_cursor s + n \<and> cfg s' = cfg s"

lemma wrote_trans:
  assumes "goes m t (\<lambda>_. wrote A K desc new' t k)" and "wrote A K desc new s n t" and "l = n + k" and "new' = new''"
  shows "goes m t (\<lambda>_. wrote A K desc new'' s l)"
  by (rule goes_mono [OF assms(1)]) (use assms(2-4) in \<open>simp add: wrote_def\<close>)

lemma copy_in_ready:
  assumes r: "ready A K desc plain (length data) s" and wm: "isWriteMode s" and ne: "data \<noteq> []"
    and bound: "cindex (cf_cc s) (max (length plain) (cf_cursor s + length data)) \<le> K + 1"
  shows "goes (copy_in data) s (\<lambda>n s'. 0 < n \<and> n \<le> length data
    \<and> wrote A K desc (overwritten plain (cf_cursor s) (take n data)) s n s')"
proof -
  obtain c where c: "deref s (cf_current s) = Some c" "ck_offset c < width (cf_cc s) (ck_seqnum c)"
      "stands_for A K desc plain (assign (cf_current s) (c\<lparr>ck_content := piece (cf_cc s) plain (ck_seqnum c)\<rparr>) s)"
      "cursor_ok plain (assign (cf_current s) (c\<lparr>ck_content := piece (cf_cc s) plain (ck_seqnum c)\<rparr>) s)"
      "ck_content c = piece (cf_cc s) plain (ck_seqnum c)
           \<or> ck_content c = [] \<and> ck_offset c = 0 \<and> width (cf_cc s) (ck_seqnum c) \<le> length data \<and> ck_seqnum c < cf_eofSeqnum s"
    using r unfolding ready_def by blast
  let ?p = "piece (cf_cc s) plain (ck_seqnum c)"
  let ?c = "c\<lparr>ck_content := ?p\<rparr>"
  let ?t = "assign (cf_current s) ?c s"
  have d: "deref ?t (cf_current ?t) = Some ?c" using deref_assign [OF c(1)] by simp
  have cf: "cfg ?t = cfg s" by (simp add: cfg_def)
  have wm': "isWriteMode ?t" using cfgD [OF cf] wm by simp
  have "copy_in data ?t = copy_in data s"
  proof (cases "ck_content c = ?p")
    case True
    then have "?c = c" by simp
    moreover have "distinct (List.map fst (cf_cache s))"
      using stands_cache [OF c(3)] by (simp add: rep_cache_def)
    ultimately show ?thesis using assign_same [OF _ c(1)] by simp
  next
    case False
    obtain m dk y where y: "file_rep A K desc Null plain m dk ?t" "deref ?t (cf_current ?t) = Some y" "cf_current ?t \<noteq> Null"
        "chunk_ok A plain m dk ?t (cf_current ?t) y" "ck_content y = piece (cf_cc ?t) plain (ck_seqnum y)"
        "ck_maxSize y = width (cf_cc ?t) (ck_seqnum y)" "ck_seqnum y \<le> cf_eofSeqnum ?t"
        "cf_cursor ?t = cstart (cf_cc ?t) (ck_seqnum y) + ck_offset y" "ck_offset y \<le> length (piece (cf_cc ?t) plain (ck_seqnum y))"
        "width (cf_cc ?t) (ck_seqnum y) < 2 ^ 32"
      by (rule cursor_chunk [OF c(3,4)])
    have yc: "y = ?c" using y(2) d by simp
    have "cstart (cf_cc s) (cf_eofSeqnum s) \<le> length plain" using file_repD(4) [OF y(1)] by (simp add: rep_end_def)
    then have "length ?p = width (cf_cc s) (ck_seqnum c)"
      using False c(5) cstart_less [of "ck_seqnum c" "cf_eofSeqnum s" "cf_cc s"] by (intro piece_full) auto
    moreover have "alloc_ok (cf_junk s)" using file_repD(1) [OF y(1)] by (simp add: rep_conf_def)
    ultimately show ?thesis
      by (intro copy_in_total [OF _ c(1)]) (use False c(2,5) y(6,10) yc in auto)
  qed
  moreover have "goes (copy_in data) ?t (\<lambda>n s'. 0 < n \<and> n \<le> length data
      \<and> stands_for A K desc (overwritten plain (cf_cursor ?t) (take n data)) s'
      \<and> cursor_ok (overwritten plain (cf_cursor ?t) (take n data)) s' \<and> cf_cursor s' = cf_cursor ?t + n \<and> cfg s' = cfg ?t)"
    by (rule copy_in_ok [OF c(3,4) wm' ne d]) (use c(2) bound in simp_all)
  ultimately show ?thesis by (simp add: goes_def wrote_def cf)
qed

lemma write_step_ok:
  assumes st: "stands_for A K desc plain s" and cu: "cursor_ok plain s" and wm: "isWriteMode s" and ne: "data \<noteq> []"
    and ok: "covers_ok (cf_cc s) plain (cf_cursor s) (length data)"
    and bound: "cindex (cf_cc s) (max (length plain) (cf_cursor s + length data)) \<le> K + 1"
  shows "goes (chk (move_on A (length data)) (\<lambda>_. copy_in data)) s (\<lambda>n s'. 0 < n \<and> n \<le> length data
    \<and> wrote A K desc (overwritten plain (cf_cursor s) (take n data)) s n s')"
  unfolding goes_chk
proof (rule goes_mono [OF move_on_ok [OF st cu _ ok]])
  fix x t
  assume t: "ready A K desc plain (length data) t \<and> cf_cursor t = cf_cursor s \<and> cfg t = cfg s"
  then have C: "cf_cc t = cf_cc s" "isWriteMode t" using cfgD [of t s] wm by auto
  show "goes (copy_in data) t (\<lambda>n s'. 0 < n \<and> n \<le> length data
    \<and> wrote A K desc (overwritten plain (cf_cursor s) (take n data)) s n s')"
    using copy_in_ready [of A K desc plain data t] t C ne bound by (simp add: wrote_def)
qed (use ne in simp)

lemma write_loop_ok:
  assumes "stands_for A K desc plain s" and "cursor_ok plain s" and "isWriteMode s"
    and "covers_ok (cf_cc s) plain (cf_cursor s) (length data)"
    and "cindex (cf_cc s) (max (length plain) (cf_cursor s + length data)) \<le> K + 1"
  shows "goes (write_loop A data) s (\<lambda>_. wrote A K desc (overwritten plain (cf_cursor s) data) s (length data))"
  using assms
proof (induction "length data" arbitrary: s plain data rule: less_induct)
  case less
  show ?case
  proof (cases "data = []")
    case True
    then show ?thesis using less.prems by (simp add: goes_def write_loop.simps done_with_def wrote_def)
  next
    case False
    have le: "cf_cursor s \<le> length plain" using less.prems(2) by (simp add: cursor_ok_def)
    obtain n t where t: "chk (move_on A (length data)) (\<lambda>_. copy_in data) s = Some (Inr n, t)" "0 < n" "n \<le> length data"
        "wrote A K desc (overwritten plain (cf_cursor s) (take n data)) s n t"
      using write_step_ok [OF less.prems(1-3) False less.prems(4,5)] by (auto simp: goes_def)
    let ?new = "overwritten plain (cf_cursor s) (take n data)"
    have w: "stands_for A K desc ?new t" "cursor_ok ?new t" "cf_cursor t = cf_cursor s + n" "cfg t = cfg s"
      using t(4) by (simp_all add: wrote_def)
    note C = cfgD [OF w(4)]
    have ov: "covers_ok (cf_cc t) ?new (cf_cursor t) (length (drop n data))"
      using covers_ok_rest [OF less.prems(4) le, of "take n data"] t(3) w(3) C by simp
    have bd: "cindex (cf_cc t) (max (length ?new) (cf_cursor t + length (drop n data))) \<le> K + 1"
      using less.prems(5) t(3) w(3) C le by (simp add: length_overwritten max.assoc)
    have rest: "goes (write_loop A (drop n data)) t (\<lambda>_. wrote A K desc (overwritten ?new (cf_cursor t) (drop n data)) t (length (drop n data)))"
      by (rule less.hyps [OF _ w(1,2) _ ov bd]) (use t(2,3) False less.prems(3) C in auto)
    have same: "overwritten ?new (cf_cursor t) (drop n data) = overwritten plain (cf_cursor s) data"
      using overwritten_twice [OF le, of "take n data" "drop n data"] t(3) w(3) by simp
    have "length data = n + length (drop n data)" using t(3) by simp
    from wrote_trans [OF rest t(4) this same]
    show ?thesis using False t(1,2) by (simp add: goes_def write_loop.simps [of A data])
  qed
qed

lemma writeImpl_ok:
  assumes "stands_for A K desc plain s" and "cursor_ok plain s" and "isWriteMode s"
    and "covers_ok (cf_cc s) plain (cf_cursor s) (length data)"
    and "cindex (cf_cc s) (max (length plain) (cf_cursor s + length data)) \<le> K + 1"
  shows "goes (writeImpl A data) s (\<lambda>n s'. n = length data
    \<and> wrote A K desc (overwritten plain (cf_cursor s) data) s (length data) s')"
  unfolding writeImpl_def goes_chk
proof (rule goes_mono [OF write_loop_ok [OF assms]])
  fix x t assume t: "wrote A K desc (overwritten plain (cf_cursor s) data) s (length data) t"
  let ?new = "overwritten plain (cf_cursor s) data"
  have "cf_size t = length ?new" using t by (auto simp: wrote_def stands_for_def dest: file_repD(11))
  moreover have "cf_cursor t \<le> length ?new" using t by (auto simp: wrote_def cursor_ok_def)
  ultimately show "goes (\<lambda>s. if cf_cursor s \<le> cf_size s then done_with (length data) s else None) t
      (\<lambda>n s'. n = length data \<and> wrote A K desc ?new s (length data) s')"
    using t by (simp add: goes_def done_with_def)
qed

end
