(* ===== verification/CryptCalls.thy ===== *)
theory CryptCalls
  imports CryptWrite
begin

section \<open>Calls of a file\<close>

text \<open>
  What the users of \<open>common::File\<close> rely on: a file is a list of bytes under a cursor. The contract is a
  locale; an encrypted file in any of its modes meets it.
\<close>

datatype file_call = Seek nat | Read nat | Write "byte list" | Flush

datatype file_result = Nothing | Bytes "byte list" | Count nat

fun call_spec :: "file_call \<Rightarrow> byte list \<Rightarrow> nat \<Rightarrow> file_result \<times> byte list \<times> nat" where
  "call_spec (Seek p) plain pos = (Nothing, plain, p)"
| "call_spec (Read n) plain pos = (Bytes (take n (drop pos plain)), plain, pos + min n (length plain - pos))"
| "call_spec (Write d) plain pos = (Count (length d), overwritten plain pos d, pos + length d)"
| "call_spec Flush plain pos = (Nothing, plain, pos)"

fun calls_spec :: "file_call list \<Rightarrow> byte list \<Rightarrow> nat \<Rightarrow> file_result list \<times> byte list \<times> nat" where
  "calls_spec [] plain pos = ([], plain, pos)"
| "calls_spec (c # cs) plain pos =
     (let (r, plain1, pos1) = call_spec c plain pos; (rs, plain2, pos2) = calls_spec cs plain1 pos1
      in (r # rs, plain2, pos2))"

type_synonym ('s, 'a) stateful = "'s \<Rightarrow> ((crypt_error + 'a) \<times> 's) option"

definition yields_as :: "('a \<Rightarrow> file_result) \<Rightarrow> ('s, 'a) stateful \<Rightarrow> ('s, file_result) stateful" where
  "yields_as f m s =
     (case m s of None \<Rightarrow> None | Some (Inl e, s') \<Rightarrow> Some (Inl e, s') | Some (Inr x, s') \<Rightarrow> Some (Inr (f x), s'))"

fun exec_call :: "(nat \<Rightarrow> ('s, unit) stateful) \<Rightarrow> (nat \<Rightarrow> ('s, byte list) stateful) \<Rightarrow> (byte list \<Rightarrow> ('s, nat) stateful) \<Rightarrow>
    ('s, unit) stateful \<Rightarrow> file_call \<Rightarrow> ('s, file_result) stateful" where
  "exec_call sk rd wr fl (Seek p) s = yields_as (\<lambda>_. Nothing) (sk p) s"
| "exec_call sk rd wr fl (Read n) s = yields_as Bytes (rd n) s"
| "exec_call sk rd wr fl (Write d) s = yields_as Count (wr d) s"
| "exec_call sk rd wr fl Flush s = yields_as (\<lambda>_. Nothing) fl s"

text \<open>A sequence of calls, up to the first error.\<close>

fun exec_calls :: "(file_call \<Rightarrow> ('s, file_result) stateful) \<Rightarrow> file_call list \<Rightarrow> ('s, file_result list) stateful" where
  "exec_calls ex [] s = Some (Inr [], s)"
| "exec_calls ex (c # cs) s =
     (case ex c s of None \<Rightarrow> None | Some (Inl e, s') \<Rightarrow> Some (Inl e, s')
      | Some (Inr r, s') \<Rightarrow> (case exec_calls ex cs s' of None \<Rightarrow> None | Some (Inl e, t) \<Rightarrow> Some (Inl e, t)
          | Some (Inr rs, t) \<Rightarrow> Some (Inr (r # rs), t)))"

text \<open>The calls a file allows: where to seek and what to write is asked of the file.\<close>

fun allowed :: "(byte list \<Rightarrow> nat \<Rightarrow> bool) \<Rightarrow> bool \<Rightarrow> (byte list \<Rightarrow> nat \<Rightarrow> byte list \<Rightarrow> bool) \<Rightarrow>
    file_call list \<Rightarrow> byte list \<Rightarrow> nat \<Rightarrow> bool" where
  "allowed may_seek can_read may_write [] plain pos \<longleftrightarrow> True"
| "allowed may_seek can_read may_write (c # cs) plain pos \<longleftrightarrow>
     (case c of Seek p \<Rightarrow> may_seek plain p | Read n \<Rightarrow> can_read | Write d \<Rightarrow> may_write plain pos d | Flush \<Rightarrow> True)
     \<and> allowed may_seek can_read may_write cs (fst (snd (call_spec c plain pos))) (snd (snd (call_spec c plain pos)))"

locale byte_file =
  fixes seek_op :: "nat \<Rightarrow> ('s, unit) stateful"
    and read_op :: "nat \<Rightarrow> ('s, byte list) stateful"
    and write_op :: "byte list \<Rightarrow> ('s, nat) stateful"
    and flush_op :: "('s, unit) stateful"
    and at :: "byte list \<Rightarrow> nat \<Rightarrow> 's \<Rightarrow> bool"
    and may_seek :: "byte list \<Rightarrow> nat \<Rightarrow> bool" and can_read :: bool and may_write :: "byte list \<Rightarrow> nat \<Rightarrow> byte list \<Rightarrow> bool"
  assumes seek_law: "at plain pos s \<Longrightarrow> may_seek plain p \<Longrightarrow> \<exists>s'. seek_op p s = Some (Inr (), s') \<and> at plain p s'"
    and read_law: "at plain pos s \<Longrightarrow> can_read \<Longrightarrow>
      \<exists>s'. read_op n s = Some (Inr (take n (drop pos plain)), s') \<and> at plain (pos + min n (length plain - pos)) s'"
    and write_law: "at plain pos s \<Longrightarrow> may_write plain pos d \<Longrightarrow>
      \<exists>s'. write_op d s = Some (Inr (length d), s') \<and> at (overwritten plain pos d) (pos + length d) s'"
    and flush_law: "at plain pos s \<Longrightarrow> \<exists>s'. flush_op s = Some (Inr (), s') \<and> at plain pos s'"
begin

lemma call_ok:
  assumes "at plain pos s" and "allowed may_seek can_read may_write [c] plain pos"
  obtains s' where "exec_call seek_op read_op write_op flush_op c s = Some (Inr (fst (call_spec c plain pos)), s')"
    "at (fst (snd (call_spec c plain pos))) (snd (snd (call_spec c plain pos))) s'"
proof (cases c)
  case (Seek p) then show ?thesis using assms that seek_law [of plain pos s p] by (auto simp: yields_as_def)
next
  case (Read n) then show ?thesis using assms that read_law [of plain pos s n] by (auto simp: yields_as_def)
next
  case (Write d) then show ?thesis using assms that write_law [of plain pos s d] by (auto simp: yields_as_def)
next
  case Flush then show ?thesis using assms that flush_law [of plain pos s] by (auto simp: yields_as_def)
qed

text \<open>Sequences of allowed calls return what the list of bytes gives.\<close>

lemma calls_ok:
  "at plain pos s \<Longrightarrow> allowed may_seek can_read may_write cs plain pos \<Longrightarrow> calls_spec cs plain pos = (rs, plain', pos') \<Longrightarrow>
    \<exists>s'. exec_calls (exec_call seek_op read_op write_op flush_op) cs s = Some (Inr rs, s') \<and> at plain' pos' s'"
proof (induction cs arbitrary: plain pos s rs)
  case (Cons c cs)
  obtain r plain1 pos1 where c: "call_spec c plain pos = (r, plain1, pos1)" by (metis prod_cases3)
  obtain t where t: "exec_call seek_op read_op write_op flush_op c s = Some (Inr r, t)" "at plain1 pos1 t"
    using call_ok [OF Cons.prems(1), of c] Cons.prems(2) c by auto
  obtain rs' where rs: "calls_spec cs plain1 pos1 = (rs', plain', pos')" "rs = r # rs'"
    using Cons.prems(3) c by (auto split: prod.splits)
  show ?case using Cons.IH [OF t(2) _ rs(1)] Cons.prems(2) c t(1) rs(2) by auto
qed simp

end

subsection \<open>Encrypted files\<close>

text \<open>A file opened to append does not know the position of its end: \<open>m_seekCursor\<close> counts from zero.\<close>

definition file_at :: "aead \<Rightarrow> nat \<Rightarrow> byte list \<Rightarrow> byte list \<Rightarrow> nat \<Rightarrow> crypt_file \<Rightarrow> bool" where
  "file_at A K desc plain pos s \<longleftrightarrow>
     stands_for A K desc plain s \<and> cursor_ok plain s \<and> cf_cursor s = pos
     \<and> (if isAppend s then cf_seekCursor s \<le> pos else cf_seekCursor s = pos)"

lemma stands_seekCursor [simp]: "stands_for A K desc plain (s\<lparr>cf_seekCursor := x\<rparr>) \<longleftrightarrow> stands_for A K desc plain s"
  by (simp add: stands_for_def file_rep_def rep_conf_def rep_disk_def rep_head_def rep_end_def rep_cache_def rep_chunks_def
      chunk_ok_def held_def dirty_at_def isWriteMode_def isAppend_def useCache_def raw_bytes_def)

lemma cursor_seekCursor [simp]: "cursor_ok plain (s\<lparr>cf_seekCursor := x\<rparr>) \<longleftrightarrow> cursor_ok plain s"
  by (simp add: cursor_ok_def isAppend_def)

lemma mode_seekCursor [simp]:
  "isWriteMode (s\<lparr>cf_seekCursor := x\<rparr>) \<longleftrightarrow> isWriteMode s" "isAppend (s\<lparr>cf_seekCursor := x\<rparr>) \<longleftrightarrow> isAppend s"
  by (simp_all add: isWriteMode_def isAppend_def)

text \<open>The settings of an open file.\<close>

definition settings :: "crypt_file \<Rightarrow> container \<times> file_mode \<times> bool" where
  "settings s = (cf_cc s, cf_mode s, cf_enableCache s)"

lemma settings_cfg: "cfg s' = cfg (s\<lparr>cf_seekCursor := x\<rparr>) \<Longrightarrow> settings s' = settings s \<and> cf_seekCursor s' = x"
  by (simp add: cfg_def settings_def)

lemma settingsD:
  "settings s' = settings s \<Longrightarrow> cf_cc s' = cf_cc s \<and> isWriteMode s' = isWriteMode s \<and> isAppend s' = isAppend s"
  by (simp add: settings_def isWriteMode_def isAppend_def)

lemma file_atD:
  assumes "file_at A K desc plain pos s"
  shows "stands_for A K desc plain s" "cursor_ok plain s" "cf_cursor s = pos" "\<not> isAppend s \<Longrightarrow> cf_seekCursor s = pos" "pos \<le> length plain"
    "cf_size s = length plain" "cf_current s \<noteq> Null" "cf_current s \<noteq> Null \<longrightarrow> deref s (cf_current s) \<noteq> None"
    "isAppend s \<longrightarrow> pos = length plain" "cf_seekCursor s \<le> length plain"
  using assms file_repD(11) by (auto simp: file_at_def cursor_ok_def stands_for_def split: if_splits)

lemma file_at_after:
  assumes "file_at A K desc plain pos s" and "cfg t = cfg s" and "stands_for A K desc new t" and "cursor_ok new t"
    and "cf_cursor t = pos + k"
  shows "file_at A K desc new (pos + k) (t\<lparr>cf_seekCursor := cf_seekCursor t + k\<rparr>)
    \<and> settings (t\<lparr>cf_seekCursor := cf_seekCursor t + k\<rparr>) = settings s"
proof -
  have "isAppend t = isAppend s" "cf_seekCursor t = cf_seekCursor s" using cfgD [OF assms(2)] by blast+
  moreover have "settings t = settings s" using assms(2) by (simp add: settings_def cfg_def)
  ultimately show ?thesis using assms(1,3-5) by (simp add: file_at_def settings_def split: if_splits)
qed

lemma file_seek_at:
  assumes s: "file_at A K desc plain pos s" and p: "p \<le> length plain" "isAppend s \<longrightarrow> p = length plain"
  shows "goes (file_seek A p) s (\<lambda>_ s'. file_at A K desc plain p s' \<and> settings s' = settings s)"
proof (cases "p = pos")
  case True
  then show ?thesis using s file_atD(3) [OF s] by (simp add: goes_def file_seek_def done_with_def)
next
  case False
  let ?t = "s\<lparr>cf_seekCursor := p\<rparr>"
  have "goes (doSeek A p 0 True) ?t (\<lambda>_ s'. file_at A K desc plain p s' \<and> settings s' = settings s)"
  proof (rule goes_mono [OF doSeek_at])
    fix x s' assume "stands_for A K desc plain s' \<and> cursor_ok plain s' \<and> cf_cursor s' = p \<and> cfg s' = cfg ?t"
    then show "file_at A K desc plain p s' \<and> settings s' = settings s"
      using settings_cfg [of s' p s] by (simp add: file_at_def)
  qed (use file_atD [OF s] p in simp_all)
  then show ?thesis using False p file_atD(3,6) [OF s] by (simp add: goes_def file_seek_def Let_def)
qed

lemma file_read_at:
  assumes s: "file_at A K desc plain pos s" and app: "\<not> isAppend s"
  shows "goes (file_read A n) s (\<lambda>p s'. p = take n (drop pos plain)
    \<and> file_at A K desc plain (pos + min n (length plain - pos)) s' \<and> settings s' = settings s)"
proof -
  note F = file_atD [OF s]
  consider "n = 0" | "0 < n" "pos = length plain" | "0 < n" "pos < length plain" using F(5) by linarith
  then show ?thesis
  proof cases
    case 1
    then show ?thesis using s by (simp add: goes_def file_read_def done_with_def)
  next
    case 2
    then show ?thesis using s F(4,6,7) app by (simp add: goes_def file_read_def done_with_def)
  next
    case 3
    have "goes (chk (read_loop A n []) (\<lambda>p s. done_with p (s\<lparr>cf_seekCursor := cf_seekCursor s + length p\<rparr>))) s
      (\<lambda>p s'. p = take n (drop pos plain)
        \<and> file_at A K desc plain (pos + min n (length plain - pos)) s' \<and> settings s' = settings s)"
      unfolding goes_chk
    proof (rule goes_mono [OF read_loop_ok [OF F(1,2) app]])
      fix p t
      assume t: "p = [] @ take n (drop (cf_cursor s) plain) \<and> cf_cursor t = cf_cursor s + min n (length plain - cf_cursor s)
        \<and> stands_for A K desc plain t \<and> cursor_ok plain t \<and> cfg t = cfg s"
      then have lp: "length p = min n (length plain - pos)" using F(3) by (simp add: min.commute)
      show "goes (\<lambda>s. done_with p (s\<lparr>cf_seekCursor := cf_seekCursor s + length p\<rparr>)) t (\<lambda>p s'. p = take n (drop pos plain)
        \<and> file_at A K desc plain (pos + min n (length plain - pos)) s' \<and> settings s' = settings s)"
        using file_at_after [OF s, of t plain "length p"] t F(3) lp by (simp add: goes_def done_with_def)
    qed
    then show ?thesis using 3 F(4,6,7) app by (simp add: goes_def file_read_def)
  qed
qed

lemma file_write_at:
  assumes s: "file_at A K desc plain pos s" and wm: "isWriteMode s" and ok: "covers_ok (cf_cc s) plain pos (length d)"
    and bound: "cindex (cf_cc s) (max (length plain) (pos + length d)) \<le> K + 1"
  shows "goes (file_write A d) s (\<lambda>n s'. n = length d
    \<and> file_at A K desc (overwritten plain pos d) (pos + length d) s' \<and> settings s' = settings s)"
proof (cases "d = []")
  case True
  then show ?thesis using s by (simp add: goes_def file_write_def done_with_def)
next
  case False
  note F = file_atD [OF s]
  have "goes (chk (writeImpl A d) (\<lambda>n s. done_with n (s\<lparr>cf_seekCursor := cf_seekCursor s + n\<rparr>))) s
    (\<lambda>n s'. n = length d \<and> file_at A K desc (overwritten plain pos d) (pos + length d) s' \<and> settings s' = settings s)"
    unfolding goes_chk
  proof (rule goes_mono [OF writeImpl_ok [OF F(1,2) wm]])
    fix n t assume t: "n = length d \<and> wrote A K desc (overwritten plain (cf_cursor s) d) s (length d) t"
    then show "goes (\<lambda>s. done_with n (s\<lparr>cf_seekCursor := cf_seekCursor s + n\<rparr>)) t
        (\<lambda>n s'. n = length d \<and> file_at A K desc (overwritten plain pos d) (pos + length d) s' \<and> settings s' = settings s)"
      using file_at_after [OF s, of t "overwritten plain pos d" "length d"] t F(3) by (simp add: goes_def done_with_def wrote_def)
  qed (use ok bound F(3) in simp_all)
  then show ?thesis using False F(5-7,10) wm by (simp add: goes_def file_write_def done_with_def)
qed

lemma file_flush_at:
  assumes s: "file_at A K desc plain pos s"
  shows "goes (doFlush A) s (\<lambda>_ s'. file_at A K desc plain pos s' \<and> settings s' = settings s
    \<and> (isWriteMode s \<longrightarrow> \<not> cf_sizeDirty s' \<and> (\<forall>k. \<not> dirty_at s' k)))"
proof -
  note F = file_atD [OF s]
  show ?thesis
  proof (rule goes_mono [OF doFlush_ok [OF F(1,8)]])
    fix x s' assume t: "stands_for A K desc plain s' \<and> kept s s'
      \<and> (isWriteMode s \<longrightarrow> \<not> cf_sizeDirty s' \<and> (\<forall>k. \<not> dirty_at s' k))"
    then have k: "kept s s'" by simp
    have "cfg s' = cfg s" "cf_cursor s' = pos + 0" using kept_cfg [OF k] F(3) by (simp_all add: place_def)
    from file_at_after [OF s this(1) _ _ this(2), of plain] show "file_at A K desc plain pos s' \<and> settings s' = settings s
        \<and> (isWriteMode s \<longrightarrow> \<not> cf_sizeDirty s' \<and> (\<forall>k. \<not> dirty_at s' k))"
      using t kept_cursor [OF k F(2)] by simp
  qed
qed

subsection \<open>An encrypted file meets the contract\<close>

definition mode_writes :: "file_mode \<Rightarrow> bool" where
  "mode_writes md \<longleftrightarrow> \<not> (md = Mode_read \<or> md = Mode_scan)"

definition mode_appends :: "file_mode \<Rightarrow> bool" where
  "mode_appends md \<longleftrightarrow> md = Mode_append \<or> md = Mode_append_existing"

definition crypt_seek_ok :: "file_mode \<Rightarrow> byte list \<Rightarrow> nat \<Rightarrow> bool" where
  "crypt_seek_ok md plain p \<longleftrightarrow> p \<le> length plain \<and> (mode_appends md \<longrightarrow> p = length plain)"

definition crypt_write_ok :: "container \<Rightarrow> nat \<Rightarrow> file_mode \<Rightarrow> byte list \<Rightarrow> nat \<Rightarrow> byte list \<Rightarrow> bool" where
  "crypt_write_ok cc K md plain pos d \<longleftrightarrow>
     mode_writes md \<and> covers_ok cc plain pos (length d) \<and> cindex cc (max (length plain) (pos + length d)) \<le> K + 1"

definition open_at :: "aead \<Rightarrow> nat \<Rightarrow> byte list \<Rightarrow> container \<Rightarrow> file_mode \<Rightarrow> byte list \<Rightarrow> nat \<Rightarrow> crypt_file \<Rightarrow> bool" where
  "open_at A K desc cc md plain pos s \<longleftrightarrow> file_at A K desc plain pos s \<and> cf_cc s = cc \<and> cf_mode s = md"

lemma open_at_modes: "open_at A K desc cc md plain pos s \<Longrightarrow>
    isWriteMode s = mode_writes md \<and> isAppend s = mode_appends md \<and> cf_cc s = cc \<and> file_at A K desc plain pos s"
  by (auto simp: open_at_def isWriteMode_def isAppend_def mode_writes_def mode_appends_def)

lemma open_at_step:
  "open_at A K desc cc md plain pos s \<Longrightarrow> file_at A K desc plain' pos' s' \<and> settings s' = settings s \<Longrightarrow>
    open_at A K desc cc md plain' pos' s'"
  by (simp add: open_at_def settings_def)

interpretation crypt_calls: byte_file "file_seek A" "file_read A" "file_write A" "doFlush A" "open_at A K desc cc md"
  "crypt_seek_ok md" "\<not> mode_appends md" "crypt_write_ok cc K md" for A K desc cc md
proof
  fix plain pos s p
  assume s: "open_at A K desc cc md plain pos s" and p: "crypt_seek_ok md plain p"
  show "\<exists>s'. file_seek A p s = Some (Inr (), s') \<and> open_at A K desc cc md plain p s'"
    using file_seek_at [of A K desc plain pos s p] open_at_modes [OF s] p open_at_step [OF s]
    unfolding goes_def crypt_seek_ok_def by (metis old.unit.exhaust)
next
  fix plain pos s n
  assume s: "open_at A K desc cc md plain pos s" and "\<not> mode_appends md"
  then show "\<exists>s'. file_read A n s = Some (Inr (take n (drop pos plain)), s')
      \<and> open_at A K desc cc md plain (pos + min n (length plain - pos)) s'"
    using file_read_at [of A K desc plain pos s n] open_at_modes [OF s] open_at_step [OF s] unfolding goes_def by metis
next
  fix plain pos s d
  assume s: "open_at A K desc cc md plain pos s" and d: "crypt_write_ok cc K md plain pos d"
  show "\<exists>s'. file_write A d s = Some (Inr (length d), s')
      \<and> open_at A K desc cc md (overwritten plain pos d) (pos + length d) s'"
    using file_write_at [of A K desc plain pos s d] open_at_modes [OF s] d open_at_step [OF s]
    unfolding goes_def crypt_write_ok_def by metis
next
  fix plain pos s
  assume s: "open_at A K desc cc md plain pos s"
  then show "\<exists>s'. doFlush A s = Some (Inr (), s') \<and> open_at A K desc cc md plain pos s'"
    using file_flush_at [of A K desc plain pos s] open_at_modes [OF s] open_at_step [OF s]
    unfolding goes_def by (metis old.unit.exhaust)
qed

end
