(* ===== verification/CryptOpen.thy ===== *)
theory CryptOpen
  imports CryptCalls
begin

section \<open>Encrypted files on the disk\<close>

text \<open>
  What a raw file holds, how it comes there when a file is closed, and what opening makes of it. A file on
  the disk is a container: \<open>CryptContainer::unpack\<close> gives its plaintext.
\<close>

definition file_on_disk :: "aead \<Rightarrow> nat \<Rightarrow> container \<Rightarrow> byte list \<Rightarrow> byte list \<Rightarrow> byte list \<Rightarrow> bool" where
  "file_on_disk A K cc desc raw plain \<longleftrightarrow>
     (\<exists>m dk. take (22 + length desc) raw = header_bytes False (length desc) (length plain) (clen A cc m dk) @ desc
        \<and> disk_ok A cc (22 + length desc) raw m dk \<and> (\<forall>i<m. dk i = piece cc plain i)
        \<and> cstart cc (m - 1) + length (dk (m - 1)) = length plain)
     \<and> layout_ok A cc (22 + length desc) K \<and> cindex cc (length plain) \<le> K + 1 \<and> length desc < 2 ^ 16"

lemma closed_on_disk:
  assumes st: "stands_for A K desc plain s" and sd: "\<not> cf_sizeDirty s" and clean: "\<And>k. \<not> dirty_at s k"
  shows "file_on_disk A K (cf_cc s) desc (raw_bytes s) plain"
proof -
  obtain m dk where rep: "file_rep A K desc Null plain m dk s" using st by (auto simp: stands_for_def)
  note R = file_repD [OF rep]
  have D: "cf_dataOffset s = 22 + length desc" "length desc < 2 ^ 16" using R(1) by (auto simp: rep_conf_def)
  have "dk i = piece (cf_cc s) plain i" if "i < m" for i
    using rep_clean [OF rep clean, of i] that R(4) by (simp add: rep_end_def)
  moreover have "take (22 + length desc) (raw_bytes s) = header_bytes False (length desc) (length plain) (clen A (cf_cc s) m dk) @ desc"
      "cstart (cf_cc s) (m - 1) + length (dk (m - 1)) = length plain"
    using R(2,3) sd D(1) by (auto simp: rep_head_def rep_disk_def)
  moreover have "disk_ok A (cf_cc s) (22 + length desc) (raw_bytes s) m dk" "cindex (cf_cc s) (length plain) \<le> K + 1"
    using R(2,4) D(1) by (auto simp: rep_disk_def rep_end_def)
  ultimately show ?thesis using R(7) D unfolding file_on_disk_def by metis
qed

subsection \<open>The container\<close>

lemma clen_split: "m = Suc k \<Longrightarrow> clen A cc m dk = rstart A cc k + length (dk k) + ae_extra A + 4"
  by (simp add: clen_def)

lemma disk_chunks:
  assumes A: "aead_ok A" and c: "0 < cc_chunkMaxSize cc" and dk: "\<forall>i<m. dk i = piece cc plain i"
    and disk: "disk_ok A cc D raw m dk" and last: "cstart cc (m - 1) + length (dk (m - 1)) = length plain"
    and ds: "\<forall>i<m. take (length (dk i) + ae_extra A + 4) (drop (D + rstart A cc i) raw) = packed A (ds i) i (dk i)"
  shows "k < m \<Longrightarrow>
    take (clen A cc m dk - rstart A cc k) (drop (D + rstart A cc k) raw) = encode_chunks A ds cc k (drop (cstart cc k) plain)"
proof (induction "m - k" arbitrary: k)
  case (Suc n)
  let ?X = "ae_extra A + 4" and ?w = "width cc k" and ?rest = "drop (cstart cc k) plain"
  have w: "0 < ?w" using c by (auto simp: maxPlainChunkSize_def)
  have k: "dk k = take ?w ?rest" "take (length (dk k) + ?X) (drop (D + rstart A cc k) raw) = packed A (ds k) k (dk k)"
    using dk ds Suc.prems by (simp_all add: piece_def add.assoc)
  show ?case
  proof (cases "Suc k = m")
    case True
    have "length plain = cstart cc k + length (dk k)" "length (dk k) \<le> ?w" using last disk True by (auto simp: disk_ok_def)
    then have "length ?rest \<le> ?w" "dk k = ?rest" using k(1) by simp_all
    then show ?thesis
      using k(2) clen_split [of m k A cc dk] True by (simp add: encode_chunks.simps [of A ds cc k] Let_def add.assoc)
  next
    case False
    then have km: "Suc k < m" using Suc.prems by simp
    have full: "length (dk k) = ?w" using disk km by (simp add: disk_ok_def)
    have "dk (m - 1) \<noteq> []" using disk km by (simp add: disk_ok_def)
    then have "cstart cc (m - 1) < length plain" using last by (metis add_gr_0 length_greater_0_conv less_add_same_cancel1)
    moreover have "cstart cc (Suc k) \<le> cstart cc (m - 1)" by (rule cstart_mono) (use km in simp)
    ultimately have long: "?w < length ?rest" by (simp add: cstart_Suc)
    have IH: "take (clen A cc m dk - rstart A cc (Suc k)) (drop (D + rstart A cc (Suc k)) raw) =
        encode_chunks A ds cc (Suc k) (drop (cstart cc (Suc k)) plain)"
      by (rule Suc.hyps(1)) (use Suc.hyps(2) km in simp_all)
    have "rstart A cc (Suc k) \<le> rstart A cc (m - 1)" by (rule rstart_mono) (use km in simp)
    then have len: "clen A cc m dk - rstart A cc k = (?w + ?X) + (clen A cc m dk - rstart A cc (Suc k))"
      by (simp add: clen_def rstart_Suc)
    have "take (clen A cc m dk - rstart A cc k) (drop (D + rstart A cc k) raw) =
        take (?w + ?X) (drop (D + rstart A cc k) raw)
        @ take (clen A cc m dk - rstart A cc (Suc k)) (drop (D + rstart A cc (Suc k)) raw)"
      unfolding len take_add by (simp add: rstart_Suc add.commute add.left_commute)
    moreover have "take (?w + ?X) (drop (D + rstart A cc k) raw) = packed A (ds k) k (take ?w ?rest)"
      using k full by (simp add: add.assoc)
    ultimately show ?thesis
      using long IH w by (simp add: encode_chunks.simps [of A ds cc k] Let_def cstart_Suc add.commute)
  qed
qed simp

lemma on_disk_numbers:
  assumes "file_on_disk A K cc desc raw plain"
  obtains m dk where "take (22 + length desc) raw = header_bytes False (length desc) (length plain) (clen A cc m dk) @ desc"
      "disk_ok A cc (22 + length desc) raw m dk" "\<forall>i<m. dk i = piece cc plain i"
      "cstart cc (m - 1) + length (dk (m - 1)) = length plain" "layout_ok A cc (22 + length desc) K"
      "cindex cc (length plain) \<le> K + 1" "length desc < 2 ^ 16" "posToSeqnum cc (length plain) = cindex cc (length plain)"
      "length plain < 2 ^ 32" "clen A cc m dk < 2 ^ 32" "22 + length desc + clen A cc m dk \<le> length raw"
      "m \<le> Suc (cindex cc (length plain))" "cindex cc (length plain) \<le> m"
      "m = cindex cc (length plain) \<longrightarrow> length (dk (m - 1)) = width cc (m - 1)"
proof -
  obtain m dk where d: "take (22 + length desc) raw = header_bytes False (length desc) (length plain) (clen A cc m dk) @ desc"
      "disk_ok A cc (22 + length desc) raw m dk" "\<forall>i<m. dk i = piece cc plain i"
      "cstart cc (m - 1) + length (dk (m - 1)) = length plain"
    and lay: "layout_ok A cc (22 + length desc) K" "cindex cc (length plain) \<le> K + 1" "length desc < 2 ^ 16"
    using assms by (auto simp: file_on_disk_def)
  let ?E = "cindex cc (length plain)"
  note c = layoutD(3) [OF lay(1)] and x = cindex_32 [OF lay(1,2)]
  have m: "0 < m" "length (dk (m - 1)) \<le> width cc (m - 1)" using d(2) by (simp_all add: disk_ok_def)
  have S: "cstart cc m = cstart cc (m - 1) + width cc (m - 1)" using cstart_Suc [of cc "m - 1"] m(1) by simp
  have E: "m \<le> Suc ?E \<and> ?E \<le> m \<and> (m = ?E \<longrightarrow> length (dk (m - 1)) = width cc (m - 1))"
  proof (cases "length (dk (m - 1)) = width cc (m - 1)")
    case True
    then have "length plain = cstart cc m" using d(4) S by simp
    then show ?thesis using cindex_cstart [OF lay(1), of m] True by simp
  next
    case False
    then have "?E = m - 1" by (intro cindex_unique [OF c]) (use m(2) d(4) in simp_all)
    then show ?thesis using m(1) by auto
  qed
  have "clen A cc m dk \<le> rstart A cc m"
    using m rstart_Suc [of A cc "m - 1"] by (simp add: clen_def)
  moreover have "22 + length desc + rstart A cc m < 2 ^ 32" by (rule rstart_bound [OF lay(1)]) (use E lay(2) in simp)
  ultimately have "clen A cc m dk < 2 ^ 32" by simp
  then show ?thesis using that [OF d lay] x disk_length [OF layoutD(1) [OF lay(1)] d(2)] E by blast
qed

lemma on_disk_bytes:
  assumes "file_on_disk A K cc desc raw plain"
  obtains ds tail where "raw = header_bytes False (length desc) (length plain) (length (encode_chunks A ds cc 0 plain))
    @ desc @ encode_chunks A ds cc 0 plain @ tail" "length (encode_chunks A ds cc 0 plain) < 2 ^ 32"
proof -
  obtain m dk where d: "take (22 + length desc) raw = header_bytes False (length desc) (length plain) (clen A cc m dk) @ desc"
      "disk_ok A cc (22 + length desc) raw m dk" "\<forall>i<m. dk i = piece cc plain i"
      "cstart cc (m - 1) + length (dk (m - 1)) = length plain"
    and lay: "layout_ok A cc (22 + length desc) K" and small: "clen A cc m dk < 2 ^ 32"
    by (rule on_disk_numbers [OF assms])
  let ?D = "22 + length desc"
  have "\<forall>i. \<exists>x. i < m \<longrightarrow> take (length (dk i) + ae_extra A + 4) (drop (?D + rstart A cc i) raw) = packed A x i (dk i)"
    using d(2) by (auto simp: disk_ok_def slice_ok_def)
  then obtain ds where "\<forall>i<m. take (length (dk i) + ae_extra A + 4) (drop (?D + rstart A cc i) raw) = packed A (ds i) i (dk i)"
    by metis
  note chunks = disk_chunks [OF layoutD(1) [OF lay] layoutD(3) [OF lay] d(3,2,4) this, of 0]
  have m: "0 < m" using d(2) by (simp add: disk_ok_def)
  have enc: "take (clen A cc m dk) (drop ?D raw) = encode_chunks A ds cc 0 plain" using chunks m by simp
  have "?D + clen A cc m dk \<le> length raw" by (rule disk_length [OF layoutD(1) [OF lay] d(2)])
  then have len: "length (encode_chunks A ds cc 0 plain) = clen A cc m dk" using enc by (metis add_le_imp_le_diff add.commute length_drop length_take min.absorb2)
  have "raw = take ?D raw @ take (clen A cc m dk) (drop ?D raw) @ drop (clen A cc m dk) (drop ?D raw)"
    by (simp only: append_take_drop_id)
  then have "raw = header_bytes False (length desc) (length plain) (length (encode_chunks A ds cc 0 plain))
      @ desc @ encode_chunks A ds cc 0 plain @ drop (clen A cc m dk) (drop ?D raw)"
    unfolding enc d(1) len by simp
  then show ?thesis by (rule that) (use small len in simp)
qed

text \<open>What is behind the chunks does not matter to \<open>unpack\<close>.\<close>

lemma unpack_behind:
  assumes "length desc < 2 ^ 16" and "p < 2 ^ 64" and "length chunks < 2 ^ 64" and "chunks \<noteq> []"
  shows "container_unpack A parse False (header_bytes False (length desc) p (length chunks) @ desc @ chunks @ tail) r =
    container_unpack A parse False (header_bytes False (length desc) p (length chunks) @ desc @ chunks) r"
  using assms by (simp add: container_unpack_def unpackHeader_bytes HEADER_SIZE_def Let_def split: option.split)

lemma on_disk_unpacks:
  assumes disk: "file_on_disk A K cc desc raw plain" and parse: "parse desc = Some cc"
  shows "container_unpack A parse False raw [] = Some (Inr plain)"
proof -
  have lay: "layout_ok A cc (22 + length desc) K" "cindex cc (length plain) \<le> K + 1" and d: "length desc < 2 ^ 16"
    using disk by (auto simp: file_on_disk_def)
  note A = layoutD(1) [OF lay(1)] and c = layoutD(3) [OF lay(1)]
  obtain ds tail where raw: "raw = header_bytes False (length desc) (length plain) (length (encode_chunks A ds cc 0 plain))
      @ desc @ encode_chunks A ds cc 0 plain @ tail" by (rule on_disk_bytes [OF disk])
  have "22 + length desc + rstart A cc 2 < 2 ^ 32" using rstart_bound [OF lay(1), of 2] by simp
  moreover have "rstart A cc 2 = width cc 0 + cc_chunkMaxSize cc + 2 * (ae_extra A + 4)" by (simp add: rstart_def cstart_def)
  moreover have "cc_firstChunkMaxSize cc \<le> width cc 0" by (simp add: maxPlainChunkSize_def)
  ultimately have cc: "container_ok A cc" using layoutD(2) [OF lay(1)] by (simp add: container_ok_def)
  have "length plain < cstart cc (K + 2)"
    using cindex_end [OF c, of "length plain"] cstart_mono [of "Suc (cindex cc (length plain))" "K + 2" cc] lay(2)
    by (simp add: cstart_Suc)
  then have len: "length plain + 2 * (ae_extra A + 4) < 2 ^ 32"
    using layoutD(4) [OF lay(1)] by (simp add: rstart_def)
  let ?chunks = "encode_chunks A ds cc 0 plain"
  have "length ?chunks \<le> length plain + (length plain + 1) * (ae_extra A + 4)" using length_encode [OF A] by simp
  moreover have "(length plain + 1) * (ae_extra A + 4) \<le> 2 ^ 32 * 2 ^ 31" using len by (intro mult_le_mono) auto
  ultimately have big: "length ?chunks < 2 ^ 64" using len by simp
  have "length plain < 2 ^ 64" using len by simp
  then show ?thesis
    unfolding raw using unpack_behind [OF d _ big encode_chunks_nonempty [OF A], of "length plain"]
      unpack_encoded [where parse = parse, OF A cc parse d len] c by simp
qed

subsection \<open>Opening a file of the disk\<close>

text \<open>The state between the header and the first seek.\<close>

definition loaded :: "byte list \<Rightarrow> container \<Rightarrow> byte list \<Rightarrow> crypt_file \<Rightarrow> bool" where
  "loaded desc cc raw s \<longleftrightarrow>
     cf_cc s = cc \<and> cf_raw s = Some raw \<and> cf_isOpen s \<and> cf_dataOffset s = 22 + length desc
     \<and> cf_cache s = [] \<and> cf_current s = Null \<and> alloc_ok (cf_junk s) \<and> (isWriteMode s \<longrightarrow> useCache s \<or> isAppend s)"

lemma loaded_stands:
  assumes disk: "file_on_disk A K cc desc raw plain" and l: "loaded desc cc raw s"
    and s: "cf_size s = length plain" "unpackHeader (take 22 raw) = Inr (length plain, length desc, cf_ciphertextSize s, False)"
      "cf_eofSeqnum s = posToSeqnum cc (length plain)"
  shows "stands_for A K desc plain s"
proof -
  obtain m dk where d: "take (22 + length desc) raw = header_bytes False (length desc) (length plain) (clen A cc m dk) @ desc"
      "disk_ok A cc (22 + length desc) raw m dk" "\<forall>i<m. dk i = piece cc plain i"
      "cstart cc (m - 1) + length (dk (m - 1)) = length plain" "layout_ok A cc (22 + length desc) K"
      "cindex cc (length plain) \<le> K + 1" "length desc < 2 ^ 16" "posToSeqnum cc (length plain) = cindex cc (length plain)"
      "length plain < 2 ^ 32" "clen A cc m dk < 2 ^ 32" "22 + length desc + clen A cc m dk \<le> length raw"
      "m \<le> Suc (cindex cc (length plain))" "cindex cc (length plain) \<le> m"
      "m = cindex cc (length plain) \<longrightarrow> length (dk (m - 1)) = width cc (m - 1)"
    by (rule on_disk_numbers [OF disk])
  let ?E = "cindex cc (length plain)"
  have E: "cf_eofSeqnum s = ?E" using s(3) d(8) by simp
  have "take 22 raw = take 22 (take (22 + length desc) raw)" by (simp add: min_def)
  then have "take 22 raw = header_bytes False (length desc) (length plain) (clen A cc m dk) @ []" unfolding d(1) by simp
  then have ct: "cf_ciphertextSize s = clen A cc m dk"
    using s(2) unpackHeader_bytes [of "length desc" "length plain" "clen A cc m dk" False "[]"] d(7,9,10) by simp
  have L: "cf_cc s = cc" "cf_dataOffset s = 22 + length desc" "raw_bytes s = raw" "cf_raw s \<noteq> None" "cf_cache s = []" "cf_current s = Null"
    using l by (simp_all add: loaded_def raw_bytes_def)
  have no_chunk: "\<not> held s r x" for r x using L(5,6) by (cases r) (simp_all add: held_def deref_def)
  have "rep_conf A K desc s" using l d(5,7) by (simp add: rep_conf_def loaded_def)
  moreover have "rep_disk A m dk s" using L d(2) ct by (simp add: rep_disk_def)
  moreover have "rep_head desc plain m dk s" using L d(1,4) ct by (auto simp: rep_head_def)
  moreover have "rep_end K plain m dk s"
    using L s(1) E d(6,12,13,14) cindex_start [of cc "length plain"] cindex_end [OF layoutD(3) [OF d(5)], of "length plain"]
    by (simp add: rep_end_def cstart_Suc)
  moreover have "rep_cache s" using L by (simp add: rep_cache_def)
  moreover have "rep_chunks A Null plain m dk s"
  proof -
    have "piece cc plain k = []" if "k \<le> ?E" "\<not> k < m" for k
    proof -
      have k: "k = m" "m = ?E" using that d(13) by auto
      then have "length plain = cstart cc m"
        using d(4,14) d(2) cstart_Suc [of cc "m - 1"] by (simp add: disk_ok_def)
      then show ?thesis using k piece_empty [of plain cc k] by simp
    qed
    then show ?thesis using L E d(3) by (simp add: rep_chunks_def no_chunk)
  qed
  ultimately show ?thesis unfolding stands_for_def file_rep_def by blast
qed

definition closed :: "crypt_file \<Rightarrow> bool" where
  "closed s \<longleftrightarrow>
     \<not> cf_isOpen s \<and> cf_cache s = [] \<and> cf_current s = Null \<and> cf_cursor s = 0 \<and> cf_seekCursor s = 0 \<and> cf_size s = 0
     \<and> cf_ciphertextSize s = 0 \<and> cf_eofSeqnum s = 0 \<and> alloc_ok (cf_junk s) \<and> \<not> cc_streaming (cf_cc s)"

text \<open>Random writing needs the cache.\<close>

definition cached_writes :: "file_mode \<Rightarrow> crypt_file \<Rightarrow> bool" where
  "cached_writes md s \<longleftrightarrow> (mode_writes md \<and> \<not> mode_appends md \<longrightarrow> cf_enableCache s)"

lemma cached_writes_mode:
  assumes "cached_writes md s" and "cf_mode t = md" and "cf_enableCache t = cf_enableCache s" and "\<not> cc_streaming (cf_cc t)"
  shows "isWriteMode t \<longrightarrow> useCache t \<or> isAppend t"
  using assms
  by (cases md) (auto simp: cached_writes_def mode_writes_def mode_appends_def isWriteMode_def isAppend_def useCache_def)

text \<open>What the header and the descriptor of the file put into the state.\<close>

definition header_read :: "byte list \<Rightarrow> container \<Rightarrow> byte list \<Rightarrow> nat \<Rightarrow> crypt_file \<Rightarrow> crypt_file" where
  "header_read desc cc plain cipher s =
     s\<lparr>cf_raw_pos := 22 + length desc, cf_size := length plain, cf_ciphertextSize := cipher, cf_cc := cc,
       cf_dataOffset := 22 + length desc, cf_eofSeqnum := posToSeqnum cc (length plain)\<rparr>"

lemma on_disk_header:
  assumes "file_on_disk A K cc desc raw plain"
  obtains cipher where "take 22 raw = header_bytes False (length desc) (length plain) cipher"
    "take (length desc) (drop 22 raw) = desc" "22 + length desc + cipher \<le> length raw" "cipher < 2 ^ 32"
    "unpackHeader (take 22 raw) = Inr (length plain, length desc, cipher, False)"
    "22 + length desc + cipher < 2 ^ 33" "length desc < 2 ^ 16"
proof -
  obtain m dk where d: "take (22 + length desc) raw = header_bytes False (length desc) (length plain) (clen A cc m dk) @ desc"
      "disk_ok A cc (22 + length desc) raw m dk" "\<forall>i<m. dk i = piece cc plain i"
      "cstart cc (m - 1) + length (dk (m - 1)) = length plain" "layout_ok A cc (22 + length desc) K"
      "cindex cc (length plain) \<le> K + 1" "length desc < 2 ^ 16" "posToSeqnum cc (length plain) = cindex cc (length plain)"
      "length plain < 2 ^ 32" "clen A cc m dk < 2 ^ 32" "22 + length desc + clen A cc m dk \<le> length raw"
    by (rule on_disk_numbers [OF assms])
  let ?h = "header_bytes False (length desc) (length plain) (clen A cc m dk)"
  have head: "take 22 raw = ?h"
  proof -
    have "take 22 raw = take 22 (take (22 + length desc) raw)" by (simp add: min_def)
    then show ?thesis unfolding d(1) by simp
  qed
  have descr: "take (length desc) (drop 22 raw) = desc"
  proof -
    have "take (length desc) (drop 22 raw) = drop 22 (take (22 + length desc) raw)" by (simp add: drop_take)
    then show ?thesis unfolding d(1) by simp
  qed
  have un: "unpackHeader (take 22 raw) = Inr (length plain, length desc, clen A cc m dk, False)"
    unfolding head using unpackHeader_bytes [of "length desc" "length plain" "clen A cc m dk" False "[]"] d(7,9,10) by simp
  have "22 + length desc + clen A cc m dk < 2 ^ 33" using d(7,10) by simp
  then show ?thesis by (rule that [OF head descr d(11,10) un _ d(7)])
qed

lemma open_existing_run:
  assumes parse: "parse desc = Some cc" and s: "cf_raw s = Some raw" "cf_raw_pos s = 0"
    and h: "length (take 22 raw) = 22" "unpackHeader (take 22 raw) = Inr (length plain, length desc, cipher, False)"
      "take (length desc) (drop 22 raw) = desc" "22 + length desc + cipher \<le> length raw"
  shows "open_existing A parse headerOnly s =
    (if headerOnly then done_with () (header_read desc cc plain cipher s)
     else doSeek A (if isAppend s then length plain else 0) 0 True (header_read desc cc plain cipher s))"
proof -
  have peek: "raw_peek HEADER_SIZE s = take 22 raw" using s by (simp add: raw_peek_def raw_bytes_def HEADER_SIZE_def)
  have skip: "raw_skip HEADER_SIZE s = s\<lparr>cf_raw_pos := 22\<rparr>"
    using s h(1) by (simp add: raw_skip_def raw_peek_def raw_bytes_def HEADER_SIZE_def)
  let ?u = "s\<lparr>cf_raw_pos := 22, cf_size := length plain, cf_ciphertextSize := cipher\<rparr>"
  have "raw_peek (length desc) ?u = desc" using s(1) h(3) by (simp add: raw_peek_def raw_bytes_def)
  moreover have "raw_skip (length desc) ?u = s\<lparr>cf_raw_pos := 22 + length desc, cf_size := length plain, cf_ciphertextSize := cipher\<rparr>"
    using s(1) h(3) by (simp add: raw_skip_def raw_peek_def raw_bytes_def)
  moreover have "\<not> length raw - (22 + length desc) < cipher" using h(4) by simp
  moreover have "length (take 22 raw) = HEADER_SIZE" using h(1) by (simp add: HEADER_SIZE_def)
  ultimately show ?thesis
    using h(2) parse s(1) unfolding open_existing_def open_data_def peek skip
    by (simp add: Let_def raw_bytes_def isAppend_def header_read_def)
qed

lemma open_existing_ok:
  assumes disk: "file_on_disk A K cc desc raw plain" and parse: "parse desc = Some cc"
    and s: "cf_raw s = Some raw" "cf_raw_pos s = 0" "cf_isOpen s" "cf_cache s = []" "cf_current s = Null"
      "alloc_ok (cf_junk s)" "cf_seekCursor s = 0" "cf_mode s = md" "cached_writes md s"
  shows "goes (open_existing A parse False) s (\<lambda>_ s'. open_at A K desc cc md plain (if mode_appends md then length plain else 0) s'
    \<and> cf_seekCursor s' = 0)"
proof -
  obtain cipher where h: "take 22 raw = header_bytes False (length desc) (length plain) cipher"
      "take (length desc) (drop 22 raw) = desc" "22 + length desc + cipher \<le> length raw" "cipher < 2 ^ 32"
      "unpackHeader (take 22 raw) = Inr (length plain, length desc, cipher, False)"
    by (rule on_disk_header [OF disk])
  have ns: "\<not> cc_streaming cc" using disk by (auto simp: file_on_disk_def layout_ok_def)
  let ?t = "header_read desc cc plain cipher s"
  have st: "stands_for A K desc plain ?t"
    by (rule loaded_stands [OF disk])
      (use s h cached_writes_mode [OF s(9), of ?t] ns in \<open>simp_all add: loaded_def header_read_def\<close>)
  have ap: "isAppend s = mode_appends md" using s(8) by (simp add: isAppend_def mode_appends_def)
  let ?pos = "if mode_appends md then length plain else 0"
  have l: "length (take 22 raw) = 22" unfolding h(1) by simp
  have run: "open_existing A parse False s = doSeek A ?pos 0 True ?t"
    using open_existing_run [where parse = parse, OF parse s(1,2) l h(5,2,3)] ap by simp
  have "goes (doSeek A ?pos 0 True) ?t (\<lambda>_ s'. stands_for A K desc plain s' \<and> cursor_ok plain s' \<and> cf_cursor s' = ?pos \<and> cfg s' = cfg ?t)"
    by (rule doSeek_at [OF st]) (use s(5) ap in \<open>simp_all add: isAppend_def header_read_def\<close>)
  then have "goes (doSeek A ?pos 0 True) ?t (\<lambda>_ s'. open_at A K desc cc md plain ?pos s' \<and> cf_seekCursor s' = 0)"
  proof (rule goes_mono)
    fix x s' assume a: "stands_for A K desc plain s' \<and> cursor_ok plain s' \<and> cf_cursor s' = ?pos \<and> cfg s' = cfg ?t"
    have "cf_cc s' = cc" "cf_mode s' = md" "cf_seekCursor s' = 0" using a s(7,8) by (simp_all add: cfg_def header_read_def)
    then show "open_at A K desc cc md plain ?pos s' \<and> cf_seekCursor s' = 0"
      using a by (simp add: open_at_def file_at_def isAppend_def mode_appends_def)
  qed
  then show ?thesis using run by (simp add: goes_def)
qed

text \<open>The modes that open a file of the disk.\<close>

definition opens_existing :: "file_mode \<Rightarrow> bool" where
  "opens_existing md \<longleftrightarrow> md \<in> {Mode_read, Mode_scan, Mode_write_existing, Mode_append, Mode_append_existing}"

lemma doOpen_existing:
  assumes disk: "file_on_disk A K cc desc raw plain" and parse: "parse desc = Some cc"
    and s: "closed s" "cf_raw s = Some raw" and md: "opens_existing md" "cached_writes md s"
  shows "goes (doOpen A parse x md False) s (\<lambda>_ s'. open_at A K desc cc md plain (if mode_appends md then length plain else 0) s'
    \<and> cf_seekCursor s' = 0)"
proof -
  let ?t = "s\<lparr>cf_mode := md, cf_raw_pos := 0, cf_isOpen := True\<rparr>"
  have "goes (open_existing A parse False) ?t (\<lambda>_ s'. open_at A K desc cc md plain (if mode_appends md then length plain else 0) s'
      \<and> cf_seekCursor s' = 0)"
    by (rule open_existing_ok [where parse = parse, OF disk parse]) (use s md(2) in \<open>simp_all add: closed_def cached_writes_def\<close>)
  then obtain s' where s': "open_existing A parse False ?t = Some (Inr (), s')"
      "open_at A K desc cc md plain (if mode_appends md then length plain else 0) s'" "cf_seekCursor s' = 0"
    by (auto simp: goes_def)
  have "doOpen A parse x md False s = Some (Inr (), s')"
    using s md(1) s'(1)
    by (cases md) (simp_all add: opens_existing_def closed_def doOpen_def Let_def isNewFile_def raw_open_def done_with_def)
  then show ?thesis using s'(2,3) by (simp add: goes_def)
qed

subsection \<open>Creating a file\<close>

definition creates :: "file_mode \<Rightarrow> byte list option \<Rightarrow> bool" where
  "creates md raw \<longleftrightarrow> md = Mode_write \<or> (md = Mode_write_new \<or> md = Mode_append) \<and> raw = None"

text \<open>The first chunk of a new file is empty and goes to the disk at once.\<close>

definition new_chunk :: "chunk \<Rightarrow> nat \<Rightarrow> chunk" where
  "new_chunk c w = (chunk_reset 0 c)\<lparr>ck_maxSize := w\<rparr>"

lemma new_disk:
  assumes A: "aead_ok A" and c: "0 < cc_chunkMaxSize cc" and D: "D = 22 + length desc" "length h = 22"
  shows "disk_ok A cc D (h @ desc @ packed A d 0 []) 1 (\<lambda>_. [])"
  using length_packed [OF A, of d 0 "[]"] D
  by (auto simp: disk_ok_def slice_ok_def)

lemma open_new_stands:
  assumes lay: "layout_ok A (cf_cc s) (cf_dataOffset s) K" and desc: "length desc < 2 ^ 16" "cf_dataOffset s = 22 + length desc"
    and s: "cf_raw s = Some (header_bytes False (length desc) 0 (ae_extra A + 4) @ desc @ packed A d 0 [])"
      "cf_isOpen s" "alloc_ok (cf_junk s)" "isWriteMode s" "useCache s \<or> isAppend s"
      "cf_cursor s = 0" "cf_size s = 0" "cf_ciphertextSize s = ae_extra A + 4" "cf_eofSeqnum s = 0"
    and c: "deref s (cf_current s) = Some c" "cf_cache s = [] \<and> cf_current s = Single \<and> \<not> useCache s
        \<or> cf_cache s = [(0, c)] \<and> cf_current s = Cached 0 \<and> useCache s"
      "ck_seqnum c = 0" "\<not> ck_dirty c" "ck_offset c = 0" "ck_maxSize c = width (cf_cc s) 0" "ck_content c = []"
      "ck_ciphertextSize c = ae_extra A + 4"
  shows "stands_for A K desc [] s" and "cursor_ok [] s"
proof -
  note A = layoutD(1) [OF lay] and cm = layoutD(3) [OF lay]
  have w: "0 < width (cf_cc s) 0" by (rule layoutD(6) [OF lay])
  have only: "x = c \<and> r = cf_current s" if "held s r x" for r x
    using that c(1,2) by (cases r) (auto simp: held_def deref_def split: if_splits)
  have "rep_conf A K desc s" using lay desc s by (simp add: rep_conf_def)
  moreover have "rep_disk A 1 (\<lambda>_. []) s"
    using s(1,8) new_disk [OF A cm desc(2) length_header_bytes] by (simp add: rep_disk_def raw_bytes_def clen_def)
  moreover have "rep_head desc [] 1 (\<lambda>_. []) s"
    using s(1,8) desc(2) by (auto simp: rep_head_def raw_bytes_def)
  moreover have "rep_end K [] 1 (\<lambda>_. []) s"
    using s(7,9) w by (simp add: rep_end_def cindex_def cstart_Suc)
  moreover have "rep_cache s" using c(2) by (auto simp: rep_cache_def)
  moreover have "rep_chunks A Null [] 1 (\<lambda>_. []) s"
    using c(2-8) s(9) by (auto simp: rep_chunks_def chunk_ok_def piece_def dest!: only)
  ultimately show "stands_for A K desc [] s" unfolding stands_for_def file_rep_def by blast
  show "cursor_ok [] s" using c s(6) by (simp add: cursor_ok_def)
qed

lemma eofPos_raw_pos [simp]: "eofPos (s\<lparr>cf_raw_pos := x\<rparr>) = eofPos s" by (simp add: eofPos_def)

lemma seek_empty:
  assumes lay: "layout_ok A (cf_cc s) (cf_dataOffset s) K" and s: "cf_ciphertextSize s = 0" "cf_dataOffset s \<le> length (raw_bytes s)"
    and c: "deref s r = Some c" "ck_seqnum c = 0"
  shows "seekReadRawChunk A r b 0 s = Some (Inr (), raw_seek (cf_dataOffset s) s)"
proof -
  have D: "cf_dataOffset s + (width (cf_cc s) 0 + ae_extra A + 4) < 2 ^ 32"
    using chunk_bound [OF lay _ le_refl, of 0] by simp
  then have "eofPos s = cf_dataOffset s" "\<not> w64 (cf_dataOffset s + (width (cf_cc s) 0 + ae_extra A + 4)) \<le> cf_dataOffset s"
    using s(1) by (simp_all add: eofPos_def)
  then show ?thesis
    using s(2) c D
    by (simp add: seekReadRawChunk_def with_chunk_def done_with_def seqnumToRawPos_def packed_size(2) [OF lay]
        clip_size_def Let_def raw_seek_def)
qed

lemma flushChunk_sized:
  "flushChunk A r True s = chk (flushChunk A r False) (\<lambda>_. writeSize) s"
  by (simp add: flushChunk_def with_chunk_def chk_def done_with_def fail_with_def Let_def split: option.split sum.split)

lemma writeSize_run:
  assumes "cf_sizeDirty s" and "\<not> cc_streaming (cf_cc s)" and "cf_raw s = Some (header_bytes st d p c @ tail)"
  shows "writeSize s =
    Some (Inr (), s\<lparr>cf_raw := Some (header_bytes st d (cf_size s) (cf_ciphertextSize s) @ tail), cf_raw_pos := 22, cf_sizeDirty := False\<rparr>)"
  using assms header_sizes [of "cf_ciphertextSize s" "cf_size s" st d p c tail]
  by (simp add: writeSize_def raw_write_def raw_seek_def raw_bytes_def done_with_def Let_def PLAINTEXT_SIZE_OFFSET_def
      CIPHERTEXT_SIZE_OFFSET_def)

lemma new_flush:
  assumes lay: "layout_ok A (cf_cc s) (cf_dataOffset s) K" and s: "cf_ciphertextSize s = 0" "cf_size s = 0" "cf_sizeDirty s"
      "cf_raw s = Some (header_bytes False (length desc) 0 0 @ desc)" "cf_dataOffset s = 22 + length desc"
    and c: "deref s r = Some c" "ck_seqnum c = 0" "ck_content c = []" "ck_ciphertextSize c = 0"
  shows "flushChunk A r True s = Some (Inr (), assign r (c\<lparr>ck_ciphertextSize := ae_extra A + 4, ck_dirty := False\<rparr>)
    (s\<lparr>cf_draws := cf_draws s + 1, cf_raw_pos := 22, cf_ciphertextSize := ae_extra A + 4, cf_sizeDirty := False,
       cf_raw := Some (header_bytes False (length desc) 0 (ae_extra A + 4) @ desc @ packed A (cf_draws s) 0 [])\<rparr>))"
proof -
  note A = layoutD(1) [OF lay]
  let ?X = "ae_extra A + 4" and ?b = "packed A (cf_draws s) 0 []" and ?D = "22 + length desc"
  have lb: "length ?b = ?X" using length_packed [OF A, of "cf_draws s" 0 "[]"] by simp
  have pack: "packChunk A (cf_cc s) (ck_seqnum c) (cf_draws s) (ck_content c) [] 0 = Inr ?b"
    using packChunk_append [of "cf_cc s" 0 "[]" A "cf_draws s" "[]"] c(2,3) by simp
  have raw: "raw_bytes s = header_bytes False (length desc) 0 0 @ desc" using s(4) by (simp add: raw_bytes_def)
  let ?s0 = "s\<lparr>cf_draws := cf_draws s + 1\<rparr>"
  have seek: "seekReadRawChunk A r False 0 ?s0 = Some (Inr (), raw_seek ?D ?s0)"
    using seek_empty [of A ?s0 K r c False] lay s(1,5) raw c(1,2) by (simp add: raw_bytes_def)
  have ne: "?b \<noteq> []" using lb by auto
  have X: "?X < 2 ^ 32" using chunk_bound [OF lay _ le_refl, of 0] by simp
  have size: "w64 (cf_ciphertextSize s + sub64 (length ?b) (ck_ciphertextSize c)) = ?X"
    using X s(1) c(4) lb by simp
  have put: "raw_put ?D ?b (raw_bytes s) = header_bytes False (length desc) 0 0 @ desc @ ?b"
    unfolding raw by (simp add: raw_put_def)
  let ?s1 = "assign r (c\<lparr>ck_ciphertextSize := ?X, ck_dirty := False\<rparr>) (s\<lparr>cf_draws := cf_draws s + 1,
    cf_raw := Some (header_bytes False (length desc) 0 0 @ desc @ ?b), cf_raw_pos := ?D + ?X, cf_ciphertextSize := ?X\<rparr>)"
  have one: "flushChunk A r False s = Some (Inr (), ?s1)"
    using flushChunk_steps [OF c(1) pack ne seek] unfolding put size [unfolded lb] lb by simp
  have two: "writeSize ?s1 = Some (Inr (), ?s1\<lparr>cf_raw := Some (header_bytes False (length desc) 0 ?X @ desc @ ?b),
      cf_raw_pos := 22, cf_sizeDirty := False\<rparr>)"
    using writeSize_run [of ?s1 False "length desc" 0 0 "desc @ ?b"] s(2,3) layoutD(2) [OF lay] by simp
  show ?thesis
    unfolding flushChunk_sized chk_def one option.case sum.case prod.case two
    by (simp add: assign_def split: chunk_ref.split)
qed

lemma new_seek:
  assumes lay: "layout_ok A (cf_cc s) (cf_dataOffset s) K"
    and s: "cf_isOpen s" "cf_current s = Null" "cf_cache s = []" "cf_size s = 0" "cf_ciphertextSize s = 0"
      "cf_dataOffset s \<le> length (raw_bytes s)"
  shows "doSeek A 0 0 True s = Some (Inr (),
    if useCache s
    then s\<lparr>cf_cache := [(0, (Chunk 0)\<lparr>ck_maxSize := width (cf_cc s) 0\<rparr>)], cf_raw_pos := cf_dataOffset s, cf_cursor := 0,
           cf_current := Cached 0, cf_eofSeqnum := cf_eofSeqnum s\<rparr>
    else s\<lparr>cf_single := (chunk_reset 0 (cf_single s))\<lparr>ck_maxSize := width (cf_cc s) 0\<rparr>, cf_raw_pos := cf_dataOffset s, cf_cursor := 0,
           cf_current := Single, cf_eofSeqnum := cf_eofSeqnum s\<rparr>)"
proof -
  let ?w = "width (cf_cc s) 0"
  have w: "0 < ?w" by (rule layoutD(6) [OF lay])
  have x: "posToSeqnum (cf_cc s) 0 = 0" "chunkOffsetForPos (cf_cc s) 0 = 0"
    using cindex_32 [OF lay, of 0] w by (simp_all add: cindex_def)
  have cur: "s\<lparr>cf_current := Null\<rparr> = s" using s(2) by (cases s) simp
  have start: "doSeek A 0 0 True s = chk (next_chunk A 0 True) (enter_chunk A 0 0 0) s"
    using s(1,2,4) x(1) by (simp add: doSeek_def Let_def chk_def flushLastChunk_def done_with_def cur)
  show ?thesis
  proof (cases "useCache s")
    case True
    let ?u = "s\<lparr>cf_cache := [(0, Chunk 0)]\<rparr>"
    let ?c1 = "(Chunk 0)\<lparr>ck_maxSize := ?w, ck_offset := 0\<rparr>"
    have n: "next_chunk A 0 True s = Some (Inr (Cached 0, True), ?u)"
      using True s(3) by (simp add: next_chunk_def chk_def done_with_def spec_emplace_def spec_evict_def spec_drop_def)
    have d: "deref ?u (Cached 0) = Some (Chunk 0)" by (simp add: deref_def)
    let ?v = "assign (Cached 0) ?c1 ?u"
    have "seekReadRawChunk A (Cached 0) True 0 ?v = Some (Inr (), raw_seek (cf_dataOffset ?v) ?v)"
      by (rule seek_empty [where K = K and c = ?c1])
        (use lay s(5,6) deref_assign [OF d, of ?c1] in \<open>simp_all add: raw_bytes_def Chunk_def\<close>)
    then have "enter_chunk A 0 0 0 (Cached 0, True) ?u =
        Some (Inr (), (raw_seek (cf_dataOffset s) ?v)\<lparr>cf_cursor := 0, cf_current := Cached 0, cf_eofSeqnum := cf_eofSeqnum s\<rparr>)"
      using enter_steps [OF d, of ?c1 0 0 True A 0] w x(2) by (simp add: raw_seek_def)
    then show ?thesis
      unfolding start using n True by (simp add: chk_def raw_seek_def assign_def Chunk_def)
  next
    case False
    let ?u = "s\<lparr>cf_single := chunk_reset 0 (cf_single s)\<rparr>"
    let ?c1 = "(chunk_reset 0 (cf_single s))\<lparr>ck_maxSize := ?w, ck_offset := 0\<rparr>"
    have n: "next_chunk A 0 True s = Some (Inr (Single, True), ?u)"
      using False by (simp add: next_chunk_def done_with_def)
    have d: "deref ?u Single = Some (chunk_reset 0 (cf_single s))" by (simp add: deref_def)
    let ?v = "assign Single ?c1 ?u"
    have "seekReadRawChunk A Single True 0 ?v = Some (Inr (), raw_seek (cf_dataOffset ?v) ?v)"
      by (rule seek_empty [where K = K and c = ?c1])
        (use lay s(5,6) deref_assign [OF d, of ?c1] in \<open>simp_all add: raw_bytes_def chunk_reset_def\<close>)
    then have "enter_chunk A 0 0 0 (Single, True) ?u =
        Some (Inr (), (raw_seek (cf_dataOffset s) ?v)\<lparr>cf_cursor := 0, cf_current := Single, cf_eofSeqnum := cf_eofSeqnum s\<rparr>)"
      using enter_steps [OF d, of ?c1 0 0 True A 0] w x(2) by (simp add: raw_seek_def)
    then show ?thesis
      unfolding start using n False by (simp add: chk_def raw_seek_def assign_def chunk_reset_def)
  qed
qed

lemma header_start:
  "alloc_ok junk \<Longrightarrow> packHeaderAndDescriptor junk False desc 0 [] 0 = Inr (header_bytes False (length desc) 0 0 @ desc)"
  using packHeader_bytes [of "junk 22 @ desc" False "length desc" 0] alloc_length [of junk 22]
  by (simp add: packHeaderAndDescriptor_def resize_to_def Let_def HEADER_SIZE_def)

lemma open_new_ok:
  assumes lay: "layout_ok A cc (22 + length desc) K" and desc: "length desc < 2 ^ 16"
    and s: "closed (s\<lparr>cf_isOpen := False\<rparr>)" "cf_isOpen s" "cf_raw s = Some []" "cf_raw_pos s = 0" "cf_mode s = md" "cf_cc s = cc"
      "mode_writes md" "cached_writes md s"
  shows "goes (open_new A desc False) s (\<lambda>_ s'. open_at A K desc cc md [] 0 s')"
proof -
  let ?h = "header_bytes False (length desc) 0 0 @ desc" and ?D = "22 + length desc" and ?w = "width cc 0" and ?X = "ae_extra A + 4"
  have closed: "cf_cache s = []" "cf_current s = Null" "cf_cursor s = 0" "cf_seekCursor s = 0" "cf_size s = 0"
      "cf_ciphertextSize s = 0" "cf_eofSeqnum s = 0" "alloc_ok (cf_junk s)" "\<not> cc_streaming cc"
    using s(1,6) by (simp_all add: closed_def)
  let ?s1 = "s\<lparr>cf_raw := Some ?h, cf_raw_pos := ?D, cf_dataOffset := ?D, cf_eofSeqnum := 0\<rparr>"
  have w1: "(raw_write ?h s)\<lparr>cf_dataOffset := length ?h, cf_eofSeqnum := 0\<rparr> = ?s1"
    using s(3,4) by (simp add: raw_write_def raw_bytes_def raw_put_def)
  have use1: "useCache ?s1 = useCache s" by (simp add: useCache_def)
  define c where "c = (if useCache s then (Chunk 0)\<lparr>ck_maxSize := ?w\<rparr> else (chunk_reset 0 (cf_single s))\<lparr>ck_maxSize := ?w\<rparr>)"
  define r where "r = (if useCache s then Cached 0 else Single)"
  have c: "ck_seqnum c = 0" "\<not> ck_dirty c" "ck_offset c = 0" "ck_maxSize c = ?w" "ck_content c = []" "ck_ciphertextSize c = 0"
    by (simp_all add: c_def Chunk_def chunk_reset_def)
  define u where "u = (if useCache s then ?s1\<lparr>cf_cache := [(0, c)], cf_raw_pos := ?D, cf_cursor := 0, cf_current := Cached 0, cf_eofSeqnum := 0\<rparr>
    else ?s1\<lparr>cf_single := c, cf_raw_pos := ?D, cf_cursor := 0, cf_current := Single, cf_eofSeqnum := 0\<rparr>)"
  have seek: "doSeek A 0 0 True ?s1 = Some (Inr (), u)"
    using new_seek [of A ?s1 K] lay s(2,6) closed use1 by (simp add: raw_bytes_def u_def c_def)
  have U: "deref u r = Some c" "cf_current u = r" "cf_cc u = cc" "cf_dataOffset u = ?D" "cf_raw u = Some ?h"
      "cf_ciphertextSize u = 0" "cf_size u = 0" "cf_isOpen u" "cf_cursor u = 0" "cf_eofSeqnum u = 0" "cf_mode u = md"
      "cf_seekCursor u = 0" "alloc_ok (cf_junk u)" "cf_enableCache u = cf_enableCache s"
      "cf_cache u = (if useCache s then [(0, c)] else [])"
    using closed s(2,5,6) by (auto simp: u_def r_def deref_def)
  have useu: "useCache u = useCache s" using U(3,11,14) s(5,6) by (simp add: useCache_def)
  let ?cd = "c\<lparr>ck_dirty := True\<rparr>"
  let ?v = "assign r ?cd (u\<lparr>cf_sizeDirty := True\<rparr>)"
  have dv: "deref ?v r = Some ?cd" using deref_assign [of "u\<lparr>cf_sizeDirty := True\<rparr>" r c] U(1) by simp
  let ?cf = "?cd\<lparr>ck_ciphertextSize := ?X, ck_dirty := False\<rparr>"
  let ?t = "assign r ?cf (?v\<lparr>cf_draws := cf_draws ?v + 1, cf_raw_pos := 22, cf_ciphertextSize := ?X, cf_sizeDirty := False,
       cf_raw := Some (header_bytes False (length desc) 0 ?X @ desc @ packed A (cf_draws ?v) 0 [])\<rparr>)"
  have flush: "flushChunk A r True ?v = Some (Inr (), ?t)"
    by (rule new_flush [where K = K, OF _ _ _ _ _ _ dv]) (use lay U c in simp_all)
  have run: "open_new A desc False s = Some (Inr (), ?t)"
    using s(6) closed(8,9) header_start [of "cf_junk s" desc] w1 seek U(1,2) flush
    by (simp add: open_new_def chk_def with_chunk_def)
  have wm: "isWriteMode u" "useCache u \<or> isAppend u"
    using s(7,8) U(3,11,14) closed(9) cached_writes_mode [OF s(8), of u]
    by (auto simp: isWriteMode_def mode_writes_def)
  have T: "isWriteMode ?t = isWriteMode u" "useCache ?t = useCache u" "isAppend ?t = isAppend u"
    by (simp_all add: isWriteMode_def useCache_def isAppend_def)
  have dt: "deref ?t (cf_current ?t) = Some ?cf" using dv U(2) by (simp add: deref_assign [of _ _ ?cd])
  have cache: "cf_cache ?t = [] \<and> cf_current ?t = Single \<and> \<not> useCache ?t
      \<or> cf_cache ?t = [(0, ?cf)] \<and> cf_current ?t = Cached 0 \<and> useCache ?t"
    unfolding T(2) useu using U(2,15) by (simp add: assign_def r_def)
  note new = open_new_stands [OF _ _ _ _ _ _ _ _ _ _ _ _ dt cache]
  have "stands_for A K desc [] ?t" by (rule new(1)) (use lay desc U c wm T in simp_all)
  moreover have "cursor_ok [] ?t" by (rule new(2)) (use lay desc U c wm T in simp_all)
  ultimately show ?thesis
    using run U by (simp add: goes_def open_at_def file_at_def)
qed

lemma doOpen_new:
  assumes lay: "layout_ok A (cf_cc s) (22 + length desc) K" and desc: "length desc < 2 ^ 16"
    and s: "closed s" "creates md (cf_raw s)" "cached_writes md s"
  shows "goes (doOpen A parse desc md False) s (\<lambda>_ s'. open_at A K desc (cf_cc s) md [] 0 s')"
proof -
  let ?t = "s\<lparr>cf_mode := md, cf_raw := Some [], cf_raw_pos := 0, cf_isOpen := True\<rparr>"
  have "mode_writes md" using s(2) by (auto simp: creates_def mode_writes_def)
  then have "goes (open_new A desc False) ?t (\<lambda>_ s'. open_at A K desc (cf_cc s) md [] 0 s')"
    by (intro open_new_ok [OF lay desc]) (use s in \<open>simp_all add: closed_def cached_writes_def\<close>)
  then obtain s' where s': "open_new A desc False ?t = Some (Inr (), s')" "open_at A K desc (cf_cc s) md [] 0 s'"
    by (auto simp: goes_def)
  have ns: "\<not> cc_streaming (cf_cc s)" using s(1) by (simp add: closed_def)
  have "doOpen A parse desc md False s = Some (Inr (), s')"
    using s(2) s'(1) ns
    by (cases md) (simp_all add: creates_def doOpen_def Let_def isNewFile_def raw_open_def done_with_def)
  then show ?thesis using s'(2) by (simp add: goes_def)
qed

subsection \<open>Closing\<close>

lemma doClose_ok:
  assumes s: "open_at A K desc cc md plain pos s"
  shows "goes (doClose A True) s (\<lambda>_ s'. closed s' \<and> cf_cc s' = cc \<and> cf_enableCache s' = cf_enableCache s
    \<and> (mode_writes md \<longrightarrow> (\<exists>raw. cf_raw s' = Some raw \<and> file_on_disk A K cc desc raw plain)))"
proof -
  note m = open_at_modes [OF s]
  then have f: "file_at A K desc plain pos s" by simp
  obtain t where t: "doFlush A s = Some (Inr (), t)" "file_at A K desc plain pos t" "settings t = settings s"
      "isWriteMode s \<longrightarrow> \<not> cf_sizeDirty t \<and> (\<forall>k. \<not> dirty_at t k)"
    using file_flush_at [OF f] by (auto simp: goes_def)
  obtain dm dk where rep: "file_rep A K desc Null plain dm dk t" using file_atD(1) [OF t(2)] by (auto simp: stands_for_def)
  have open_s: "cf_isOpen s" using file_atD(1) [OF f] by (auto simp: stands_for_def file_rep_def rep_conf_def)
  have run: "doClose A True s = Some (Inr (), reset_state t)" using t(1) open_s by (simp add: doClose_def)
  have cc: "cf_cc t = cc" "cf_enableCache t = cf_enableCache s" using t(3) m by (simp_all add: settings_def)
  have raw: "cf_raw t = Some (raw_bytes t)" using file_repD(2) [OF rep] by (auto simp: rep_disk_def raw_bytes_def)
  have "closed (reset_state t)"
    using file_repD(1,7) [OF rep] by (simp add: closed_def reset_state_def rep_conf_def layout_ok_def)
  moreover have "file_on_disk A K cc desc (raw_bytes t) plain" if "mode_writes md"
    using closed_on_disk [OF file_atD(1) [OF t(2)]] t(4) m that cc(1) by simp
  ultimately show ?thesis
    unfolding goes_eq [of "doClose A True", OF run] using cc raw by (simp add: reset_state_def)
qed

subsection \<open>Containers are files\<close>

lemma encode_drop:
  assumes A: "aead_ok A" and c: "0 < cc_chunkMaxSize cc"
  shows "k = 0 \<or> cstart cc k < length plain \<Longrightarrow>
    drop (rstart A cc k) (encode_chunks A ds cc 0 plain) = encode_chunks A ds cc k (drop (cstart cc k) plain)"
proof (induction k)
  case (Suc k)
  let ?w = "width cc k" and ?rest = "drop (cstart cc k) plain"
  have w: "0 < ?w" using c by (auto simp: maxPlainChunkSize_def)
  have long: "?w < length ?rest" using Suc.prems by (simp add: cstart_Suc)
  have IH: "drop (rstart A cc k) (encode_chunks A ds cc 0 plain) = encode_chunks A ds cc k ?rest"
    by (rule Suc.IH) (use long in auto)
  have "length (take ?w ?rest) = ?w" using long by simp
  then have l: "length (packed A (ds k) k (take ?w ?rest)) = ?w + ae_extra A + 4" by (simp only: length_packed [OF A])
  have e: "encode_chunks A ds cc k ?rest = packed A (ds k) k (take ?w ?rest) @ encode_chunks A ds cc (Suc k) (drop ?w ?rest)"
    using long w by (simp add: encode_chunks.simps [of A ds cc k] Let_def)
  have "drop (rstart A cc (Suc k)) (encode_chunks A ds cc 0 plain) =
      drop (?w + ae_extra A + 4) (drop (rstart A cc k) (encode_chunks A ds cc 0 plain))"
    by (simp add: rstart_Suc add.commute add.left_commute)
  then show ?case unfolding IH e using l by (simp add: cstart_Suc add.commute)
qed simp

lemma container_on_disk:
  assumes lay: "layout_ok A cc (22 + length desc) K" "cindex cc (length plain) \<le> K + 1" and desc: "length desc < 2 ^ 16"
  shows "file_on_disk A K cc desc (header_bytes False (length desc) (length plain) (length (encode_chunks A ds cc 0 plain))
    @ desc @ encode_chunks A ds cc 0 plain @ tail) plain"
proof -
  note A = layoutD(1) [OF lay(1)] and c = layoutD(3) [OF lay(1)]
  let ?D = "22 + length desc" and ?enc = "encode_chunks A ds cc 0 plain" and ?X = "ae_extra A + 4"
  let ?raw = "header_bytes False (length desc) (length plain) (length ?enc) @ desc @ ?enc @ tail"
  define m where "m = (if plain = [] then 1 else Suc (cindex cc (length plain - 1)))"
  let ?dk = "piece cc plain"
  have start: "k = 0 \<or> cstart cc k < length plain" if "k < m" for k
  proof (cases "plain = []")
    case False
    then have "k \<le> cindex cc (length plain - 1)" using that by (simp add: m_def)
    then have "cstart cc k \<le> length plain - 1"
      using cstart_mono [of k "cindex cc (length plain - 1)" cc] cindex_start [of cc "length plain - 1"] by linarith
    then show ?thesis using False by (cases plain) auto
  qed (use that in \<open>simp add: m_def\<close>)
  have stop: "length plain \<le> cstart cc m"
  proof (cases "plain = []")
    case False
    then show ?thesis using cindex_end [OF c, of "length plain - 1"] by (simp add: m_def cstart_Suc)
  qed simp
  have m: "0 < m" by (simp add: m_def)
  have S: "cstart cc m = cstart cc (m - 1) + width cc (m - 1)" using cstart_Suc [of cc "m - 1"] m by simp
  have enc: "drop (rstart A cc k) ?enc = packed A (ds k) k (?dk k) @
      (if Suc k < m then encode_chunks A ds cc (Suc k) (drop (cstart cc (Suc k)) plain) else [])" if k: "k < m" for k
  proof -
    have w: "0 < width cc k" by (rule layoutD(5) [OF lay(1)])
    have d: "drop (rstart A cc k) ?enc = encode_chunks A ds cc k (drop (cstart cc k) plain)" by (rule encode_drop [OF A c start [OF k]])
    show ?thesis
    proof (cases "Suc k < m")
      case True
      then have "width cc k < length (drop (cstart cc k) plain)" using start [of "Suc k"] by (simp add: cstart_Suc)
      then show ?thesis
        unfolding d using True w by (simp add: encode_chunks.simps [of A ds cc k] Let_def piece_def cstart_Suc add.commute)
    next
      case False
      then have "length (drop (cstart cc k) plain) \<le> width cc k" using k stop S by (cases "k = m - 1") auto
      then show ?thesis unfolding d using False w by (simp add: encode_chunks.simps [of A ds cc k] Let_def piece_def)
    qed
  qed
  have lp: "length (packed A d k p) = length p + ?X" for d k p using length_packed [OF A] by simp
  have slice: "slice_ok A cc ?D ?raw k (?dk k)" if k: "k < m" for k
  proof -
    have "rstart A cc k \<le> length ?enc"
    proof (rule ccontr)
      assume "\<not> rstart A cc k \<le> length ?enc"
      then have "drop (rstart A cc k) ?enc = []" by simp
      then have "packed A (ds k) k (?dk k) = []" using enc [OF k] by simp
      then show False using lp [of "ds k" k "?dk k"] by simp
    qed
    then have "drop (?D + rstart A cc k) ?raw = drop (rstart A cc k) ?enc @ tail" by (simp add: drop_append)
    then show ?thesis unfolding slice_ok_def enc [OF k] using lp [of "ds k" k "?dk k"] by (intro exI [of _ "ds k"]) (simp add: add.assoc)
  qed
  have "length ?enc = clen A cc m ?dk"
  proof -
    have e: "drop (rstart A cc (m - 1)) ?enc = packed A (ds (m - 1)) (m - 1) (?dk (m - 1))" using enc [of "m - 1"] m by simp
    then have "length ?enc - rstart A cc (m - 1) = length (?dk (m - 1)) + ?X" using lp by (metis length_drop)
    then show ?thesis by (simp add: clen_def)
  qed
  moreover have "disk_ok A cc ?D ?raw m ?dk"
  proof -
    have "length (?dk i) = width cc i" if "Suc i < m" for i
      by (rule piece_full) (use start [OF that] in \<open>simp add: cstart_Suc\<close>)
    moreover have "?dk i \<noteq> []" if "i < m" "0 < i" for i
      using start [OF that(1)] that(2) layoutD(5) [OF lay(1), of i] by (simp add: piece_def)
    ultimately show ?thesis using m slice unfolding disk_ok_def by (simp add: length_piece)
  qed
  moreover have "cstart cc (m - 1) + length (?dk (m - 1)) = length plain"
    using start [of "m - 1"] m stop S by (auto simp: length_piece)
  ultimately show ?thesis unfolding file_on_disk_def using lay desc by (intro conjI exI [of _ m] exI [of _ ?dk]) simp_all
qed

end
