(* ===== verification/CryptSessions.thy ===== *)
theory CryptSessions
  imports CryptOpen
begin

section \<open>Sessions with an encrypted file\<close>

text \<open>
  A file is opened, called any number of times and closed. The theorems speak of the whole: what the calls
  return, and what the raw file holds afterwards.
\<close>

definition crypt_call :: "aead \<Rightarrow> file_call \<Rightarrow> file_result file_op" where
  "crypt_call A = exec_call (file_seek A) (file_read A) (file_write A) (doFlush A)"

definition session ::
    "aead \<Rightarrow> (byte list \<Rightarrow> container option) \<Rightarrow> byte list \<Rightarrow> file_mode \<Rightarrow> file_call list \<Rightarrow> file_result list file_op" where
  "session A parse desc md calls =
     chk (doOpen A parse desc md False) (\<lambda>_. chk (exec_calls (crypt_call A) calls) (\<lambda>rs. chk (doClose A True) (\<lambda>_. done_with rs)))"

abbreviation crypt_allowed :: "container \<Rightarrow> nat \<Rightarrow> file_mode \<Rightarrow> file_call list \<Rightarrow> byte list \<Rightarrow> nat \<Rightarrow> bool" where
  "crypt_allowed cc K md \<equiv> allowed (crypt_seek_ok md) (\<not> mode_appends md) (crypt_write_ok cc K md)"

lemma session_ok:
  assumes "goes (doOpen A parse x md False) s (\<lambda>_ s'. open_at A K desc cc md plain pos s')"
    and "crypt_allowed cc K md calls plain pos" and "calls_spec calls plain pos = (rs, plain', pos')"
  shows "\<exists>s'. session A parse x md calls s = Some (Inr rs, s') \<and> closed s' \<and> cf_cc s' = cc
    \<and> (mode_writes md \<longrightarrow> (\<exists>raw. cf_raw s' = Some raw \<and> file_on_disk A K cc desc raw plain'))"
proof -
  obtain t where t: "doOpen A parse x md False s = Some (Inr (), t)" "open_at A K desc cc md plain pos t"
    using assms(1) by (auto simp: goes_def)
  obtain u where u: "exec_calls (crypt_call A) calls t = Some (Inr rs, u)" "open_at A K desc cc md plain' pos' u"
    using crypt_calls.calls_ok [OF t(2) assms(2,3)] by (auto simp: crypt_call_def)
  obtain v where "doClose A True u = Some (Inr (), v)" "closed v \<and> cf_cc v = cc
      \<and> (mode_writes md \<longrightarrow> (\<exists>raw. cf_raw v = Some raw \<and> file_on_disk A K cc desc raw plain'))"
    using doClose_ok [OF u(2)] by (auto simp: goes_def)
  then show ?thesis using t(1) u(1) by (simp add: session_def chk_def done_with_def)
qed

subsection \<open>An example\<close>

text \<open>Chunks of ten bytes and a descriptor of one.\<close>

definition small_cc :: container where
  "small_cc = \<lparr>cc_chunkMaxSize = 10, cc_firstChunkMaxSize = 0, cc_streaming = False\<rparr>"

definition small_parse :: "byte list \<Rightarrow> container option" where
  "small_parse d = (if d = [9] then Some small_cc else None)"

definition small_file :: "byte list option \<Rightarrow> crypt_file" where
  "small_file raw = CryptFile_new small_cc raw (\<lambda>n. replicate n 0)"

lemma small_width [simp]: "width small_cc n = 10"
  by (simp add: maxPlainChunkSize_def small_cc_def)

lemma small_layout: "layout_ok plain_aead small_cc (22 + length [9 :: byte]) 10"
  using plain_aead_ok
  by (simp add: layout_ok_def rstart_def cstart_def maxPlainChunkSize_def) (simp add: small_cc_def plain_aead_def)

lemma small_cindex [simp]: "cindex small_cc n = n div 10"
proof (cases "n < 10")
  case False
  then have "n div 10 = Suc ((n - 10) div 10)" using div_add_self2 [of 10 "n - 10"] by simp
  then show ?thesis using False by (simp add: cindex_def) (simp add: small_cc_def)
qed (simp add: cindex_def)

lemma small_cstart [simp]: "cstart small_cc n = 10 * n"
  by (cases n) (simp_all add: cstart_def, simp_all add: small_cc_def)

lemma small_file_closed: "closed (small_file raw)" "cf_cc (small_file raw) = small_cc" "cf_raw (small_file raw) = raw"
    "cached_writes md (small_file raw)"
  by (simp_all add: closed_def small_file_def CryptFile_new_def zero_alloc_ok cached_writes_def) (simp_all add: small_cc_def)

lemmas small_calls =
  crypt_seek_ok_def crypt_write_ok_def covers_ok_def mode_writes_def mode_appends_def overwritten_def Let_def

subsection \<open>Properties\<close>


lemma small_calls_run:
  "calls_spec [Write [1, 1, 1, 1, 1, 1, 1, 1, 1, 1, 1, 1], Seek 8, Write [2, 2, 2], Seek 7, Read 5, Flush] [] 0 =
    ([Count 12, Nothing, Count 3, Nothing, Bytes [1, 2, 2, 2, 1], Nothing], [1, 1, 1, 1, 1, 1, 1, 1, 2, 2, 2, 1], 12)"
  by (simp add: overwritten_def)

lemma small_calls_allowed:
  "crypt_allowed small_cc 10 Mode_write
    [Write [1, 1, 1, 1, 1, 1, 1, 1, 1, 1, 1, 1], Seek 8, Write [2, 2, 2], Seek 7, Read 5, Flush] [] 0"
  by (simp add: small_calls)



lemma small_disk: "file_on_disk plain_aead 10 small_cc [9] (header_bytes False 1 12 52 @ [9]
    @ encode_chunks plain_aead (\<lambda>_. 0) small_cc 0 (replicate 12 1)) (replicate 12 1)"
proof -
  have "length (encode_chunks plain_aead (\<lambda>_. 0) small_cc 0 (replicate 12 1)) = 52"
    by (simp add: encode_chunks.simps Let_def length_packed [OF plain_aead_ok]) (simp add: plain_aead_def)
  then show ?thesis
    using container_on_disk [OF small_layout, of "replicate 12 1" "\<lambda>_. 0" "[]"] by simp
qed


lemma packed_file:
  assumes "layout_ok A cc (22 + length desc) K" and "cindex cc (length plain) \<le> K + 1" and "length desc < 2 ^ 16"
    and "alloc_ok junk"
  shows "container_pack A ds junk cc desc plain [] = Inr (header_bytes False (length desc) (length plain)
      (length (encode_chunks A ds cc 0 plain)) @ desc @ encode_chunks A ds cc 0 plain)"
proof -
  note A = layoutD(1) [OF assms(1)]
  have "22 + length desc + rstart A cc 2 < 2 ^ 32" using rstart_bound [OF assms(1), of 2] by simp
  moreover have "rstart A cc 2 = width cc 0 + cc_chunkMaxSize cc + 2 * (ae_extra A + 4)" by (simp add: rstart_def cstart_def)
  moreover have "cc_firstChunkMaxSize cc \<le> width cc 0" by (simp add: maxPlainChunkSize_def)
  ultimately have cc: "container_ok A cc" using layoutD(2) [OF assms(1)] by (simp add: container_ok_def)
  have "length plain < 2 ^ 32" using cindex_32(3) [OF assms(1,2)] by simp
  then show ?thesis by (rule pack_whole [OF A cc assms(4)])
qed

text \<open>C9: what \<open>CryptContainer::pack\<close> makes is a file: opened in a mode that reads, whatever follows it on the disk,
  it gives the bytes of its plaintext at every position, up to its end, through the header and the descriptor that
  \<open>doOpen\<close> reads and the chunks that \<open>seekReadRawChunk\<close> finds. The file is below 4 GiB and laid out as
  \<open>layout_ok\<close> says, and the cache is on if the mode also writes.\<close>

theorem crypt_file_is_container:
  assumes "layout_ok A cc (22 + length desc) K" and "cindex cc (length plain) \<le> K + 1" and "length desc < 2 ^ 16"
    and "parse desc = Some cc" and "alloc_ok junk" and "container_pack A ds junk cc desc plain [] = Inr raw"
    and "closed s" and "cf_raw s = Some (raw @ tail)"
    and "opens_existing md" and "\<not> mode_appends md" and "cached_writes md s" and "p \<le> length plain"
  shows "\<exists>s'. session A parse x md [Seek p, Read n] s = Some (Inr [Nothing, Bytes (take n (drop p plain))], s') \<and> closed s'"
proof -
  have "file_on_disk A K cc desc (raw @ tail) plain"
    using container_on_disk [OF assms(1-3), of ds tail] assms(6) packed_file [OF assms(1-3,5), of ds] by auto
  have opened: "goes (doOpen A parse x md False) s (\<lambda>_ s'. open_at A K desc cc md plain 0 s')"
    by (rule goes_mono [OF doOpen_existing [where parse = parse, OF \<open>file_on_disk _ _ _ _ _ _\<close> assms(4,7,8,9,11)]])
       (use assms(10) in simp)
  have calls: "crypt_allowed cc K md [Seek p, Read n] plain 0"
    using assms(10,12) by (simp add: crypt_seek_ok_def)
  show ?thesis using session_ok [OF opened calls] by (auto simp: Let_def)
qed

theorem crypt_file_is_container_witness:
  "\<exists>raw s'. container_pack plain_aead (\<lambda>_. 0) (\<lambda>n. replicate n 0) small_cc [9] (replicate 7 1 @ replicate 7 2) [] = Inr raw
    \<and> session plain_aead small_parse [] Mode_read [Seek 5, Read 6] (small_file (Some (raw @ [0, 0]))) =
        Some (Inr [Nothing, Bytes [1, 1, 2, 2, 2, 2]], s') \<and> closed s'"
proof -
  let ?plain = "replicate 7 1 @ replicate 7 2 :: byte list"
  have k: "cindex small_cc (length ?plain) \<le> 10 + 1" by simp
  obtain raw where raw: "container_pack plain_aead (\<lambda>_. 0) (\<lambda>n. replicate n 0) small_cc [9] ?plain [] = Inr raw"
    using packed_file [OF small_layout k _ zero_alloc_ok] by simp
  obtain s' where "session plain_aead small_parse [] Mode_read [Seek 5, Read 6] (small_file (Some (raw @ [0, 0]))) =
        Some (Inr [Nothing, Bytes (take 6 (drop 5 ?plain))], s')" "closed s'"
    using crypt_file_is_container [OF small_layout k _ _ zero_alloc_ok raw small_file_closed(1) small_file_closed(3)
        _ _ small_file_closed(4), of small_parse Mode_read 5 "[]" 6]
    by (auto simp: small_parse_def opens_existing_def mode_appends_def)
  moreover have "take 6 (drop 5 ?plain) = [1, 1, 2, 2, 2, 2]" by (simp add: numeral_eq_Suc)
  ultimately show ?thesis using raw by metis
qed

end
