(* ===== verification/CryptStamps.thy ===== *)
theory CryptStamps
  imports CryptSessions
begin

section \<open>Digests and stamps of encrypted files\<close>

text \<open>
  A stamp is kept behind the ciphertext of a closed file, its size before it. The digest it is made of runs
  over the raw file up to there.
\<close>

lemma disk_form:
  assumes "file_on_disk A K cc desc raw plain"
  obtains enc tail where "raw = header_bytes False (length desc) (length plain) (length enc) @ desc @ enc @ tail"
    "length enc < 2 ^ 32" "length desc < 2 ^ 16" "length plain < 2 ^ 32"
    "\<And>tail'. file_on_disk A K cc desc (header_bytes False (length desc) (length plain) (length enc) @ desc @ enc @ tail') plain"
proof -
  obtain ds tail where raw: "raw = header_bytes False (length desc) (length plain) (length (encode_chunks A ds cc 0 plain))
      @ desc @ encode_chunks A ds cc 0 plain @ tail" "length (encode_chunks A ds cc 0 plain) < 2 ^ 32"
    by (rule on_disk_bytes [OF assms])
  have lay: "layout_ok A cc (22 + length desc) K" "cindex cc (length plain) \<le> K + 1" "length desc < 2 ^ 16"
    using assms by (auto simp: file_on_disk_def)
  show ?thesis by (rule that [OF raw lay(3) cindex_32(3) [OF lay(1,2)] container_on_disk [OF lay]])
qed

definition at_disk :: "byte list \<Rightarrow> byte list \<Rightarrow> byte list \<Rightarrow> byte list \<Rightarrow> byte list" where
  "at_disk desc plain enc tail = header_bytes False (length desc) (length plain) (length enc) @ desc @ enc @ tail"

lemma doOpen_header:
  assumes parse: "parse desc = Some cc" and small: "length enc < 2 ^ 32" "length desc < 2 ^ 16" "length plain < 2 ^ 32"
    and s: "\<not> cc_streaming (cf_cc s)" "cf_raw s = Some (at_disk desc plain enc tail)"
    and md: "md \<in> {Mode_read, Mode_scan, Mode_write_existing}"
  shows "doOpen A parse x md True s =
      Some (Inr (), header_read desc cc plain (length enc) (s\<lparr>cf_mode := md, cf_raw_pos := 0, cf_isOpen := True\<rparr>))"
proof -
  let ?s = "s\<lparr>cf_mode := md, cf_raw_pos := 0, cf_isOpen := True\<rparr>" and ?raw = "at_disk desc plain enc tail"
  have h: "take 22 ?raw = header_bytes False (length desc) (length plain) (length enc) @ []" by (simp add: at_disk_def)
  have "open_existing A parse True ?s = Some (Inr (), header_read desc cc plain (length enc) ?s)"
  proof -
    have "unpackHeader (take 22 ?raw) = Inr (length plain, length desc, length enc, False)"
      unfolding h by (rule unpackHeader_bytes) (use small in simp_all)
    then show ?thesis
      using open_existing_run [where parse = parse, OF parse, of ?s ?raw plain "length enc" A True] s(2)
      by (simp add: done_with_def at_disk_def)
  qed
  then show ?thesis
    using s md by (cases md) (simp_all add: doOpen_def Let_def isNewFile_def raw_open_def done_with_def)
qed

lemma close_header:
  assumes "cf_current s = Null" and "cf_cache s = []" and "\<not> cf_sizeDirty s"
  shows "doClose A True s = Some (Inr (), reset_state s)"
  using assms by (simp add: doClose_def doFlush_def writeSize_def chk_def done_with_def)

lemma process_parts_ok:
  "left \<le> length (raw_bytes s) - cf_raw_pos s \<Longrightarrow>
    \<exists>ps. process_parts left s = Some (Inr ps, s\<lparr>cf_raw_pos := cf_raw_pos s + left\<rparr>)
      \<and> concat ps = take left (drop (cf_raw_pos s) (raw_bytes s))
      \<and> (\<forall>p \<in> set ps. p \<noteq> [] \<and> (cf_maxProcessingSize s = 0 \<or> length p \<le> cf_maxProcessingSize s))"
proof (induction left arbitrary: s rule: less_induct)
  case (less left)
  show ?case
  proof (cases "left = 0")
    case True
    then show ?thesis by (simp add: process_parts.simps done_with_def)
  next
    case False
    define n where "n = (if left > cf_maxProcessingSize s \<and> cf_maxProcessingSize s \<noteq> 0 then cf_maxProcessingSize s else left)"
    have n: "0 < n" "n \<le> left" using False by (auto simp: n_def)
    let ?part = "take n (drop (cf_raw_pos s) (raw_bytes s))"
    have lp: "length ?part = n" using less.prems n(2) by simp
    let ?s = "s\<lparr>cf_raw_pos := cf_raw_pos s + n\<rparr>"
    have skip: "raw_peek n s = ?part" "raw_skip n s = ?s" using lp by (simp_all add: raw_peek_def raw_skip_def)
    have raw: "raw_bytes ?s = raw_bytes s" by (simp add: raw_bytes_def)
    obtain ps where ps: "process_parts (left - n) ?s = Some (Inr ps, ?s\<lparr>cf_raw_pos := cf_raw_pos s + n + (left - n)\<rparr>)"
        "concat ps = take (left - n) (drop (cf_raw_pos s + n) (raw_bytes s))"
        "\<forall>p \<in> set ps. p \<noteq> [] \<and> (cf_maxProcessingSize s = 0 \<or> length p \<le> cf_maxProcessingSize s)"
    proof -
      have "\<exists>ps. process_parts (left - n) ?s = Some (Inr ps, ?s\<lparr>cf_raw_pos := cf_raw_pos ?s + (left - n)\<rparr>)
          \<and> concat ps = take (left - n) (drop (cf_raw_pos ?s) (raw_bytes ?s))
          \<and> (\<forall>p \<in> set ps. p \<noteq> [] \<and> (cf_maxProcessingSize ?s = 0 \<or> length p \<le> cf_maxProcessingSize ?s))"
        by (rule less.IH) (use less.prems n raw in simp_all)
      then show ?thesis using that raw by auto
    qed
    have run: "process_parts left s = Some (Inr (?part # ps), s\<lparr>cf_raw_pos := cf_raw_pos s + left\<rparr>)"
      unfolding process_parts.simps [of left s] Let_def n_def [symmetric] skip lp
      using False n(2) ps(1) by (simp add: chk_def done_with_def)
    have "take left (drop (cf_raw_pos s) (raw_bytes s)) = ?part @ concat ps"
      using take_add [of n "left - n" "drop (cf_raw_pos s) (raw_bytes s)"] n(2) ps(2) by (simp add: add.commute)
    moreover have "?part \<noteq> []" using lp n(1) by auto
    moreover have "cf_maxProcessingSize s = 0 \<or> length ?part \<le> cf_maxProcessingSize s" unfolding lp by (auto simp: n_def)
    ultimately show ?thesis using run ps(3) by auto
  qed
qed

subsection \<open>The stamp\<close>

lemma eofPos_header [simp]:
  "22 + length desc + cipher < 2 ^ 64 \<Longrightarrow> eofPos (header_read desc cc plain cipher s) = 22 + length desc + cipher"
  by (simp add: eofPos_def header_read_def)

lemma header_read_fields [simp]:
  "cf_current (header_read desc cc plain cipher s) = cf_current s" "cf_cache (header_read desc cc plain cipher s) = cf_cache s"
  "cf_sizeDirty (header_read desc cc plain cipher s) = cf_sizeDirty s" "cf_raw (header_read desc cc plain cipher s) = cf_raw s"
  "cf_isOpen (header_read desc cc plain cipher s) = cf_isOpen s" "cf_junk (header_read desc cc plain cipher s) = cf_junk s"
  "cf_cc (header_read desc cc plain cipher s) = cc"
  "cf_maxProcessingSize (header_read desc cc plain cipher s) = cf_maxProcessingSize s"
  by (simp_all add: header_read_def)

lemma write_stamp_run:
  assumes "raw_bytes s = at_disk desc plain enc tail" and "eofPos s = 22 + length desc + length enc" and "length stamp < 2 ^ 16"
  shows "write_stamp stamp s = Some (Inr (), s\<lparr>cf_raw := Some (at_disk desc plain enc
    (le_bytes 2 (length stamp) @ stamp @ drop (2 + length stamp) tail)),
    cf_raw_pos := 22 + length desc + length enc + 2 + length stamp\<rparr>)"
proof -
  let ?e = "22 + length desc + length enc"
  have one: "raw_put ?e (le_bytes 2 (length stamp)) (at_disk desc plain enc tail) =
      at_disk desc plain enc (le_bytes 2 (length stamp) @ drop 2 tail)"
    by (simp add: raw_put_def at_disk_def drop_append)
  have two: "raw_put (?e + 2) stamp (at_disk desc plain enc (le_bytes 2 (length stamp) @ drop 2 tail)) =
      at_disk desc plain enc (le_bytes 2 (length stamp) @ stamp @ drop (2 + length stamp) tail)"
    by (simp add: raw_put_def at_disk_def drop_append take_append add.commute)
  show ?thesis
    using assms one two by (simp add: write_stamp_def done_with_def raw_write_def raw_seek_def raw_bytes_def)
qed

lemma read_stamp_run:
  assumes "raw_bytes s = at_disk desc plain enc (le_bytes 2 (length stamp) @ stamp @ tail)"
    and "eofPos s = 22 + length desc + length enc" and "0 < length stamp" "length stamp < 2 ^ 16"
  shows "read_stamp s = Some (Inr stamp, s\<lparr>cf_raw_pos := 22 + length desc + length enc + 2 + length stamp\<rparr>)"
proof -
  define e where "e = 22 + length desc + length enc"
  let ?raw = "at_disk desc plain enc (le_bytes 2 (length stamp) @ stamp @ tail)"
  have d: "drop e ?raw = le_bytes 2 (length stamp) @ stamp @ tail" "drop (e + 2) ?raw = stamp @ tail" "length ?raw = e + 2 + length stamp + length tail"
    by (simp_all add: e_def at_disk_def drop_append)
  have size: "le_nat (take 2 (drop e ?raw)) = length stamp" unfolding d(1) using assms(4) by (simp add: le_nat_bytes)
  have r: "raw_bytes (s\<lparr>cf_raw_pos := x\<rparr>) = ?raw" for x using assms(1) by (simp add: raw_bytes_def)
  have l: "length (take 2 (drop e ?raw)) = 2" unfolding d(1) by simp
  have p: "raw_peek 2 (s\<lparr>cf_raw_pos := e\<rparr>) = take 2 (drop e ?raw)" by (simp add: raw_peek_def r)
  have k: "raw_skip 2 (s\<lparr>cf_raw_pos := e\<rparr>) = s\<lparr>cf_raw_pos := e + 2\<rparr>" unfolding raw_skip_def p l by simp
  have p2: "raw_peek (length stamp) (s\<lparr>cf_raw_pos := e + 2\<rparr>) = stamp" unfolding raw_peek_def r using d(2) by simp
  have s2: "raw_skip (length stamp) (s\<lparr>cf_raw_pos := e + 2\<rparr>) = s\<lparr>cf_raw_pos := e + 2 + length stamp\<rparr>"
    unfolding raw_skip_def p2 by simp
  have "\<not> length ?raw < e" "\<not> length ?raw - e < 2" "\<not> length ?raw - (e + 2) < length stamp" unfolding d(3) by simp_all
  then show ?thesis
    using assms(3) unfolding read_stamp_def assms(1) assms(2) [folded e_def] Let_def raw_seek_def p k size p2 s2 e_def [symmetric]
    by (simp add: done_with_def)
qed

lemma reset_closed: "alloc_ok (cf_junk s) \<Longrightarrow> \<not> cc_streaming (cf_cc s) \<Longrightarrow> closed (reset_state s)"
  by (simp add: closed_def reset_state_def)

text \<open>An action on the header of a file, between opening and closing.\<close>

lemma with_open_run:
  assumes parse: "parse desc = Some cc" and cc: "\<not> cc_streaming cc"
    and small: "length enc < 2 ^ 32" "length desc < 2 ^ 16" "length plain < 2 ^ 32"
    and s: "closed s" "\<not> cf_sizeDirty s" "cf_raw s = Some (at_disk desc plain enc tail)"
    and md: "md \<in> {Mode_read, Mode_scan, Mode_write_existing}"
    and act: "\<And>u. cf_raw u = Some (at_disk desc plain enc tail) \<Longrightarrow> eofPos u = 22 + length desc + length enc \<Longrightarrow>
      act u = Some (Inr x, u\<lparr>cf_raw := Some (at_disk desc plain enc tail'), cf_raw_pos := q\<rparr>)"
  shows "\<exists>t. with_open A parse md act s = Some (Inr x, t) \<and> closed t \<and> \<not> cf_sizeDirty t
    \<and> cf_raw t = Some (at_disk desc plain enc tail') \<and> cf_cc t = cc"
proof -
  let ?u = "header_read desc cc plain (length enc) (s\<lparr>cf_mode := md, cf_raw_pos := 0, cf_isOpen := True\<rparr>)"
  let ?v = "?u\<lparr>cf_raw := Some (at_disk desc plain enc tail'), cf_raw_pos := q\<rparr>"
  have c: "\<not> cf_isOpen s" "cf_current s = Null" "cf_cache s = []" "alloc_ok (cf_junk s)" "\<not> cc_streaming (cf_cc s)"
    using s(1) by (simp_all add: closed_def)
  have opened: "doOpen A parse [] md True s = Some (Inr (), ?u)"
    by (rule doOpen_header [where parse = parse, OF parse small c(5) s(3) md])
  have "act ?u = Some (Inr x, ?v)" by (rule act) (use s(3) small in \<open>simp_all add: raw_bytes_def\<close>)
  moreover have "doClose A True ?v = Some (Inr (), reset_state ?v)"
    by (rule close_header) (use c s(2) in simp_all)
  ultimately have "with_open A parse md act s = Some (Inr x, reset_state ?v)"
    using c(1) opened by (simp add: with_open_def chk_def)
  moreover have "closed (reset_state ?v)" by (rule reset_closed) (use c cc in simp_all)
  ultimately show ?thesis using s(2) by (simp add: reset_state_def)
qed

lemma process_run:
  assumes parse: "parse desc = Some cc" and small: "length enc < 2 ^ 32" "length desc < 2 ^ 16" "length plain < 2 ^ 32"
    and s: "closed s" "\<not> cf_sizeDirty s" "cf_raw s = Some (at_disk desc plain enc tail)"
  shows "\<exists>ps t. doProcessFile A parse True s = Some (Inr ps, t) \<and> concat ps = at_disk desc plain enc []"
proof -
  let ?u = "header_read desc cc plain (length enc) (s\<lparr>cf_mode := Mode_scan, cf_raw_pos := 0, cf_isOpen := True\<rparr>)"
  let ?e = "22 + length desc + length enc"
  have c: "\<not> cf_isOpen s" "cf_current s = Null" "cf_cache s = []" "\<not> cc_streaming (cf_cc s)"
    using s(1) by (simp_all add: closed_def)
  have opened: "doOpen A parse [] Mode_scan True s = Some (Inr (), ?u)"
    by (rule doOpen_header [where parse = parse, OF parse small c(4) s(3)]) simp
  have raw: "raw_bytes (raw_seek 0 ?u) = at_disk desc plain enc tail" using s(3) by (simp add: raw_bytes_def raw_seek_def)
  have e: "eofPos ?u = ?e" using small by simp
  obtain ps v where ps: "process_parts ?e (raw_seek 0 ?u) = Some (Inr ps, v)" "v = (raw_seek 0 ?u)\<lparr>cf_raw_pos := 0 + ?e\<rparr>"
      "concat ps = take ?e (at_disk desc plain enc tail)"
    using process_parts_ok [of ?e "raw_seek 0 ?u"] raw by (auto simp: at_disk_def raw_seek_def)
  have "doClose A True v = Some (Inr (), reset_state v)"
    unfolding ps(2) by (rule close_header) (use c s(2) in \<open>simp_all add: raw_seek_def\<close>)
  then have "doProcessFile A parse True s = Some (Inr ps, reset_state v)"
    using c(1) opened e ps(1) by (simp add: doProcessFile_def)
  moreover have "take ?e (at_disk desc plain enc tail) = at_disk desc plain enc []" by (simp add: at_disk_def)
  ultimately show ?thesis using ps(3) by auto
qed

text \<open>C26: a stamp that is written to a closed file is read back, the file keeps its content, and the digest runs
  over the header, the descriptor and the ciphertext: it is the same before and after, whatever the size
  of the parts the raw file is read in.\<close>

theorem crypt_stamp_roundtrip:
  assumes "file_on_disk A K cc desc raw plain" and "parse desc = Some cc" and "closed s" and "\<not> cf_sizeDirty s"
    and "cf_raw s = Some raw" and "0 < length stamp" and "length stamp < 2 ^ 16"
  shows "\<exists>s' raw' enc ps ps'. writeStamp A parse stamp s = Some (Inr (), s') \<and> closed s' \<and> cf_raw s' = Some raw'
    \<and> file_on_disk A K cc desc raw' plain \<and> map_option fst (readStampField A parse s') = Some (Inr stamp)
    \<and> raw = header_bytes False (length desc) (length plain) (length enc) @ desc @ enc @ drop (22 + length desc + length enc) raw
    \<and> map_option fst (doProcessFile A parse True s) = Some (Inr ps) \<and> map_option fst (doProcessFile A parse True s') = Some (Inr ps')
    \<and> concat ps = header_bytes False (length desc) (length plain) (length enc) @ desc @ enc \<and> concat ps' = concat ps"
proof -
  obtain enc tail where raw: "raw = at_disk desc plain enc tail" and small: "length enc < 2 ^ 32" "length desc < 2 ^ 16" "length plain < 2 ^ 32"
    and disk: "\<And>tail'. file_on_disk A K cc desc (at_disk desc plain enc tail') plain"
    using disk_form [OF assms(1)] unfolding at_disk_def by metis
  have cc: "\<not> cc_streaming cc" using assms(1) by (auto simp: file_on_disk_def layout_ok_def)
  let ?tail = "drop (2 + length stamp) tail"
  let ?raw' = "at_disk desc plain enc (le_bytes 2 (length stamp) @ stamp @ ?tail)"
  have wr: "write_stamp stamp u = Some (Inr (), u\<lparr>cf_raw := Some ?raw', cf_raw_pos := 22 + length desc + length enc + 2 + length stamp\<rparr>)"
    if "cf_raw u = Some (at_disk desc plain enc tail)" "eofPos u = 22 + length desc + length enc" for u
    by (rule write_stamp_run) (use that assms(7) in \<open>simp_all add: raw_bytes_def\<close>)
  have rd: "read_stamp u = Some (Inr stamp, u\<lparr>cf_raw := Some ?raw', cf_raw_pos := 22 + length desc + length enc + 2 + length stamp\<rparr>)"
    if "cf_raw u = Some ?raw'" "eofPos u = 22 + length desc + length enc" for u
  proof -
    have "u\<lparr>cf_raw := Some ?raw'\<rparr> = u" using that(1) by (cases u) simp
    then show ?thesis
      using read_stamp_run [of u desc plain enc stamp ?tail] that assms(6,7) by (simp add: raw_bytes_def)
  qed
  obtain s' where s': "writeStamp A parse stamp s = Some (Inr (), s')" "closed s'" "\<not> cf_sizeDirty s'" "cf_raw s' = Some ?raw'"
    using with_open_run [where parse = parse, OF assms(2) cc small assms(3,4) assms(5) [unfolded raw] _ wr]
    unfolding writeStamp_def by blast
  obtain t where t: "readStampField A parse s' = Some (Inr stamp, t)"
    using with_open_run [where parse = parse, OF assms(2) cc small s'(2-4) _ rd] unfolding readStampField_def by blast
  obtain ps u where ps: "doProcessFile A parse True s = Some (Inr ps, u)" "concat ps = at_disk desc plain enc []"
    using process_run [where parse = parse, OF assms(2) small assms(3,4) assms(5) [unfolded raw]] by blast
  obtain ps' u' where ps': "doProcessFile A parse True s' = Some (Inr ps', u')" "concat ps' = at_disk desc plain enc []"
    using process_run [where parse = parse, OF assms(2) small s'(2-4)] by blast
  have "raw = header_bytes False (length desc) (length plain) (length enc) @ desc @ enc @ drop (22 + length desc + length enc) raw"
    unfolding raw by (simp add: at_disk_def)
  then show ?thesis
    using s'(1,2,4) disk t ps ps' by (intro exI [of _ s'] exI [of _ ?raw'] exI [of _ enc] exI [of _ ps] exI [of _ ps']) (simp add: at_disk_def)
qed

theorem crypt_stamp_roundtrip_witness:
  "\<exists>raw s' raw' enc ps ps'. writeStamp plain_aead small_parse [7, 7, 7] (small_file (Some raw)) = Some (Inr (), s') \<and> closed s'
    \<and> cf_raw s' = Some raw' \<and> file_on_disk plain_aead 10 small_cc [9] raw' (replicate 12 1)
    \<and> map_option fst (readStampField plain_aead small_parse s') = Some (Inr [7, 7, 7])
    \<and> raw = header_bytes False (length [9 :: byte]) (length (replicate 12 (1 :: byte))) (length enc) @ [9] @ enc
         @ drop (22 + length [9 :: byte] + length enc) raw
    \<and> map_option fst (doProcessFile plain_aead small_parse True (small_file (Some raw))) = Some (Inr ps)
    \<and> map_option fst (doProcessFile plain_aead small_parse True s') = Some (Inr ps')
    \<and> concat ps = header_bytes False (length [9 :: byte]) (length (replicate 12 (1 :: byte))) (length enc) @ [9] @ enc
    \<and> concat ps' = concat ps"
  by (rule exI, rule crypt_stamp_roundtrip [where parse = small_parse, OF small_disk _ small_file_closed(1) _ small_file_closed(3)])
    (simp_all add: small_parse_def small_file_def CryptFile_new_def)

end
