(* ===== verification/CryptFaults.thy ===== *)
theory CryptFaults
  imports CryptStamps "HOL-Library.Code_Target_Nat"
begin

section \<open>Limits and faults of encrypted files\<close>

subsection \<open>Positions\<close>

text \<open>C27: while the raw file stays below 4 GiB, every position of the plaintext lies in the chunk that is computed
  for it, at the offset that is computed, and the chunks lie behind the header one after the other, each with
  room for its ciphertext.\<close>

theorem crypt_positions:
  assumes "layout_ok A cc D K" and "cindex cc pos \<le> K + 1"
  shows "seqnumToPos cc (posToSeqnum cc pos) + chunkOffsetForPos cc pos = pos
    \<and> chunkBeginForPos cc pos = seqnumToPos cc (posToSeqnum cc pos)
    \<and> chunkOffsetForPos cc pos < maxPlainChunkSize cc (posToSeqnum cc pos)
    \<and> (\<exists>p q packed. seqnumToRawPos A cc D (posToSeqnum cc pos) = Some p
         \<and> seqnumToRawPos A cc D (posToSeqnum cc pos + 1) = Some q
         \<and> maxPackedChunkSize A cc (posToSeqnum cc pos) = Some packed \<and> D \<le> p \<and> p + packed = q \<and> q < 2 ^ 32
         \<and> packed = maxPlainChunkSize cc (posToSeqnum cc pos) + ae_extra A + 4)"
proof -
  let ?k = "cindex cc pos"
  note c = layoutD(3) [OF assms(1)] and x = cindex_32 [OF assms]
  have le: "cstart cc ?k \<le> pos" "pos < cstart cc ?k + width cc ?k" using cindex_start cindex_end [OF c] by auto
  have small: "cstart cc ?k < 2 ^ 32" using le(1) x(3) by simp
  have s: "seqnumToPos cc ?k = cstart cc ?k" by (rule seqnumToPos_cstart [OF small])
  have "cindex cc pos < 2 ^ 32" using cindex_small [OF c, of pos] x(3) by simp
  then have b: "chunkBeginForPos cc pos = cstart cc ?k" by (rule chunkBegin_cstart [OF c _ x(3)])
  have r: "seqnumToRawPos A cc D ?k = Some (D + rstart A cc ?k)" "seqnumToRawPos A cc D (?k + 1) = Some (D + rstart A cc (Suc ?k))"
    using seqnumToRawPos_rstart [OF assms(1), of ?k] seqnumToRawPos_rstart [OF assms(1), of "Suc ?k"] assms(2) by simp_all
  have "D + rstart A cc (Suc ?k) < 2 ^ 32" by (rule rstart_bound [OF assms(1)]) (use assms(2) in simp)
  then show ?thesis
    using le s b r x(1,2) packed_size(1) [OF assms(1), of ?k] by (simp add: rstart_Suc)
qed

theorem crypt_positions_witness:
  "seqnumToPos small_cc (posToSeqnum small_cc 37) + chunkOffsetForPos small_cc 37 = 37
    \<and> chunkBeginForPos small_cc 37 = seqnumToPos small_cc (posToSeqnum small_cc 37)
    \<and> chunkOffsetForPos small_cc 37 < maxPlainChunkSize small_cc (posToSeqnum small_cc 37)
    \<and> (\<exists>p q packed. seqnumToRawPos plain_aead small_cc 23 (posToSeqnum small_cc 37) = Some p
         \<and> seqnumToRawPos plain_aead small_cc 23 (posToSeqnum small_cc 37 + 1) = Some q
         \<and> maxPackedChunkSize plain_aead small_cc (posToSeqnum small_cc 37) = Some packed \<and> 23 \<le> p \<and> p + packed = q \<and> q < 2 ^ 32
         \<and> packed = maxPlainChunkSize small_cc (posToSeqnum small_cc 37) + ae_extra plain_aead + 4)"
  using crypt_positions [OF small_layout, of 37] by simp

text \<open>Beyond 4 GiB the positions wrap. The chunk that should lie at \<open>n\<close> packed sizes behind the header is looked
  for, and written, 4 GiB before: inside the chunks of the start of the file.\<close>

theorem crypt_positions_wrap:
  assumes "0 < cc_chunkMaxSize cc" and "cc_firstChunkMaxSize cc = 0" and "cc_chunkMaxSize cc + ae_extra A + 4 < 2 ^ 32"
    and "0 < n" and "2 ^ 32 \<le> n * (cc_chunkMaxSize cc + ae_extra A + 4)" and "D < 2 ^ 32"
  shows "\<exists>p k. seqnumToRawPos A cc D n = Some p \<and> p < D + n * (cc_chunkMaxSize cc + ae_extra A + 4)
    \<and> p = D + n * (cc_chunkMaxSize cc + ae_extra A + 4) mod 2 ^ 32
    \<and> k < n \<and> D + k * (cc_chunkMaxSize cc + ae_extra A + 4) \<le> p \<and> p < D + (k + 1) * (cc_chunkMaxSize cc + ae_extra A + 4)"
proof -
  let ?w = "cc_chunkMaxSize cc + ae_extra A + 4"
  let ?m = "n * ?w mod 2 ^ 32"
  have x: "packedExtraSize A = ae_extra A + 4" using assms(3) by (simp add: packedExtraSize_def)
  have w: "maxPackedChunkSize A cc 0 = Some ?w" "maxPackedChunkSize A cc n = Some ?w"
    using assms(1-4) x by (simp_all add: maxPackedChunkSize_def maxPackedFirstSize_def Let_def add.assoc)
  have n: "W + (n - Suc 0) * W = n * W" for W using assms(4) by (cases n) simp_all
  have m: "?m < 2 ^ 32" by simp
  have "seqnumToRawPos A cc D n = Some (w64 (w32 (?w + (n - Suc 0) * ?w) + D))"
    using assms(4) w by (simp add: seqnumToRawPos_def)
  then have "seqnumToRawPos A cc D n = Some (w64 (w32 (n * ?w) + D))" unfolding n .
  moreover have "w64 (w32 (n * ?w) + D) = D + ?m" using m assms(6) by (simp add: w64_def w32_def)
  ultimately have p: "seqnumToRawPos A cc D n = Some (D + ?m)" by simp
  have less: "?m < n * ?w" using m assms(5) by linarith
  let ?k = "?m div ?w"
  have "?k * ?w \<le> ?m" "?m < (?k + 1) * ?w"
    using div_times_less_eq_dividend [of ?m ?w] dividend_less_div_times [of ?w ?m] by simp_all
  moreover have "?k < n" using less assms(1) by (simp add: div_less_iff_less_mult)
  ultimately show ?thesis using p less by (intro exI [of _ "D + ?m"] exI [of _ ?k]) simp
qed

subsection \<open>Seeking\<close>

text \<open>A seek behind the end of a file is not undone by a seek back to where the cursor is. The second one does
  nothing, \<open>pos\<close> stays behind the end, and a read returns nothing though there is more.\<close>

theorem crypt_seek_back_lost:
  assumes "open_at A K desc cc md plain pos s" and "\<not> mode_appends md" and "length plain < q"
  shows "chk (file_seek A q) (\<lambda>_. chk (file_seek A pos) (\<lambda>_. file_read A n)) s = Some (Inr [], s\<lparr>cf_seekCursor := q\<rparr>)
    \<and> file_pos (s\<lparr>cf_seekCursor := q\<rparr>) = q \<and> pos \<le> length plain"
proof -
  note m = open_at_modes [OF assms(1)]
  then have f: "file_at A K desc plain pos s" by simp
  note F = file_atD [OF f]
  have "file_seek A q s = Some (Inr (), s\<lparr>cf_seekCursor := q\<rparr>)"
    using F(3,5,6) assms(3) by (simp add: file_seek_def Let_def done_with_def)
  moreover have "file_seek A pos (s\<lparr>cf_seekCursor := q\<rparr>) = Some (Inr (), s\<lparr>cf_seekCursor := q\<rparr>)"
    using F(3) by (simp add: file_seek_def done_with_def)
  moreover have "file_read A n (s\<lparr>cf_seekCursor := q\<rparr>) = Some (Inr [], s\<lparr>cf_seekCursor := q\<rparr>)"
    using F(6,7) assms(2,3) m by (simp add: file_read_def done_with_def)
  ultimately show ?thesis using F(5) by (simp add: chk_def file_pos_def)
qed

theorem crypt_positions_wrap_witness:
  "\<exists>p k. seqnumToRawPos plain_aead (small_cc\<lparr>cc_chunkMaxSize := 0x100000\<rparr>) 23 5000 = Some p
    \<and> p < 23 + 5000 * (0x100000 + 16 + 4) \<and> p = 23 + 5000 * (0x100000 + 16 + 4) mod 2 ^ 32
    \<and> k < 5000 \<and> 23 + k * (0x100000 + 16 + 4) \<le> p \<and> p < 23 + (k + 1) * (0x100000 + 16 + 4)"
  using crypt_positions_wrap [of "small_cc\<lparr>cc_chunkMaxSize := 0x100000\<rparr>" plain_aead 5000 23]
  by (simp add: small_cc_def plain_aead_def)

theorem crypt_seek_back_lost_witness:
  "\<exists>s. open_at plain_aead 10 [9] small_cc Mode_read (replicate 12 1) 0 s
    \<and> chk (file_seek plain_aead 100) (\<lambda>_. chk (file_seek plain_aead 0) (\<lambda>_. file_read plain_aead 5)) s =
      Some (Inr [], s\<lparr>cf_seekCursor := 100\<rparr>)"
proof -
  let ?raw = "header_bytes False 1 12 52 @ [9] @ encode_chunks plain_aead (\<lambda>_. 0) small_cc 0 (replicate 12 1)"
  have "goes (doOpen plain_aead small_parse [] Mode_read False) (small_file (Some ?raw)) (\<lambda>_ s'.
      open_at plain_aead 10 [9] small_cc Mode_read (replicate 12 1) (if mode_appends Mode_read then length (replicate 12 (1 :: byte)) else 0) s'
      \<and> cf_seekCursor s' = 0)"
    by (rule doOpen_existing [where parse = small_parse, OF small_disk _ small_file_closed(1,3) _ small_file_closed(4)])
      (simp_all add: small_parse_def opens_existing_def)
  then obtain s where "open_at plain_aead 10 [9] small_cc Mode_read (replicate 12 1) 0 s"
    by (auto simp: goes_def mode_appends_def)
  then show ?thesis using crypt_seek_back_lost [of plain_aead 10 "[9]" small_cc Mode_read "replicate 12 1" 0 s 100 5]
    by (auto simp: mode_appends_def)
qed

text \<open>A file opened to append, which had content, does not know where it is: \<open>pos\<close> is zero, and after a write it
  is the number of bytes written, though they went behind the content.\<close>

theorem crypt_append_position:
  assumes "file_on_disk A K cc desc raw plain" and "parse desc = Some cc" and "closed s" and "cf_raw s = Some raw"
    and "cached_writes Mode_append s" and "d \<noteq> []" and "cindex cc (length plain + length d) \<le> K + 1"
  shows "\<exists>s1 s2. doOpen A parse x Mode_append False s = Some (Inr (), s1) \<and> file_pos s1 = 0
    \<and> open_at A K desc cc Mode_append plain (length plain) s1
    \<and> file_write A d s1 = Some (Inr (length d), s2) \<and> file_pos s2 = length d
    \<and> open_at A K desc cc Mode_append (plain @ d) (length plain + length d) s2"
proof -
  obtain s1 where s1: "doOpen A parse x Mode_append False s = Some (Inr (), s1)"
      "open_at A K desc cc Mode_append plain (length plain) s1" "cf_seekCursor s1 = 0"
    using doOpen_existing [where parse = parse, OF assms(1-4) _ assms(5), of x]
    by (auto simp: goes_def opens_existing_def mode_appends_def)
  note m = open_at_modes [OF s1(2)]
  then have f: "file_at A K desc plain (length plain) s1" by simp
  have wm: "isWriteMode s1" using m by (simp add: mode_writes_def)
  note F = file_atD [OF f]
  obtain n t where t: "writeImpl A d s1 = Some (Inr n, t)" "n = length d"
      "wrote A K desc (overwritten plain (cf_cursor s1) d) s1 (length d) t"
    using writeImpl_ok [OF F(1,2) wm, of d] F(3) m assms(7) by (auto simp: goes_def covers_ok_def)
  let ?s2 = "t\<lparr>cf_seekCursor := cf_seekCursor t + length d\<rparr>"
  have w: "stands_for A K desc (plain @ d) t" "cursor_ok (plain @ d) t" "cf_cursor t = length plain + length d" "cfg t = cfg s1"
    using t(3) F(3) by (simp_all add: wrote_def overwritten_def)
  have "file_at A K desc (plain @ d) (length plain + length d) ?s2 \<and> settings ?s2 = settings s1"
    by (rule file_at_after [OF f w(4,1,2,3)])
  then have "open_at A K desc cc Mode_append (plain @ d) (length plain + length d) ?s2" by (rule open_at_step [OF s1(2)])
  moreover have "file_pos ?s2 = length d" using cfgD [OF w(4)] s1(3) by (simp add: file_pos_def)
  moreover have "file_write A d s1 = Some (Inr (length d), ?s2)"
    using assms(6) F(6,7) s1(3) wm t(1,2) by (simp add: file_write_def done_with_def chk_def)
  ultimately show ?thesis using s1 by (auto simp: file_pos_def)
qed

theorem crypt_append_position_witness:
  "\<exists>raw s1 s2. doOpen plain_aead small_parse [] Mode_append False (small_file (Some raw)) = Some (Inr (), s1) \<and> file_pos s1 = 0
    \<and> open_at plain_aead 10 [9] small_cc Mode_append (replicate 12 1) (length (replicate 12 (1 :: byte))) s1
    \<and> file_write plain_aead [2, 2] s1 = Some (Inr (length [2 :: byte, 2]), s2) \<and> file_pos s2 = length [2 :: byte, 2]
    \<and> open_at plain_aead 10 [9] small_cc Mode_append (replicate 12 1 @ [2, 2])
        (length (replicate 12 (1 :: byte)) + length [2 :: byte, 2]) s2"
  by (rule exI, rule crypt_append_position [where parse = small_parse, OF small_disk _ small_file_closed(1,3,4)])
    (simp_all add: small_parse_def)

subsection \<open>Chunks that get lost\<close>

text \<open>Without the cache, a chunk that was written and is not the last is forgotten by the next seek into another
  one: whatever the seek returns, its bytes are neither in the raw file nor in memory.\<close>

theorem crypt_uncached_write_lost:
  assumes "\<not> useCache s" and "cf_current s = Single" and "ck_dirty (cf_single s)" and "\<not> isLastChunk s (cf_single s)"
    and "posToSeqnum (cf_cc s) pos \<noteq> ck_seqnum (cf_single s)" and "pos \<le> cf_size s" and "cf_isOpen s" and "\<not> isAppend s"
    and "doSeek A pos 0 True s = Some (r, s')"
  shows "cf_raw s' = cf_raw s \<and> cf_cache s' = cf_cache s \<and> ck_seqnum (cf_single s') = posToSeqnum (cf_cc s) pos
    \<and> \<not> ck_dirty (cf_single s')"
proof -
  let ?k = "posToSeqnum (cf_cc s) pos"
  let ?c = "chunk_reset ?k (cf_single s)"
  let ?u = "s\<lparr>cf_current := Null, cf_single := ?c\<rparr>"
  have uc: "useCache (s\<lparr>cf_current := Null\<rparr>) = useCache s" by (simp add: useCache_def)
  have "doSeek A pos 0 True s = enter_chunk A pos ?k 0 (Single, True) ?u"
    using assms(1-8) uc
    by (simp add: doSeek_def Let_def with_chunk_def deref_def chk_def flushLastChunk_def done_with_def next_chunk_def)
  then have enter: "enter_chunk A pos ?k 0 (Single, True) ?u = Some (r, s')" using assms(9) by simp
  have keep: "cf_raw t' = cf_raw t \<and> cf_cache t' = cf_cache t \<and> ck_seqnum (cf_single t') = ck_seqnum (cf_single t)
      \<and> ck_dirty (cf_single t') = ck_dirty (cf_single t)"
    if "seekReadRawChunk A Single True ow t = Some (x, t')" for t t' x ow
    using that
    by (auto simp: seekReadRawChunk_def with_chunk_def deref_def fail_with_def done_with_def raw_seek_def raw_skip_def Let_def
        assign_def split: if_splits bind_splits sum.splits)
  show ?thesis
    using enter keep
    by (auto simp: enter_chunk_def with_chunk_def deref_def Let_def chk_def done_with_def assign_def chunk_reset_def
        split: option.splits sum.splits)
qed

definition dirty_example :: crypt_file where
  "dirty_example = (small_file (Some (header_bytes False 1 12 52 @ [9] @ packed plain_aead 0 0 (replicate 10 1)
      @ packed plain_aead 0 1 [1, 1])))
    \<lparr>cf_enableCache := False, cf_mode := Mode_write_existing, cf_isOpen := True, cf_dataOffset := 23, cf_size := 12,
     cf_ciphertextSize := 52, cf_eofSeqnum := 1, cf_current := Single, cf_cursor := 2,
     cf_single := (Chunk 0)\<lparr>ck_dirty := True, ck_offset := 2, ck_maxSize := 10, ck_ciphertextSize := 30,
       ck_content := [2, 2, 1, 1, 1, 1, 1, 1, 1, 1]\<rparr>\<rparr>"

theorem crypt_uncached_write_lost_witness:
  "case doSeek plain_aead 11 0 True dirty_example of None \<Rightarrow> False
   | Some (r, s') \<Rightarrow> r = Inr () \<and> cf_raw s' = cf_raw dirty_example \<and> cf_cache s' = [] \<and> ck_seqnum (cf_single s') = 1
       \<and> \<not> ck_dirty (cf_single s')"
proof -
  have run: "map_option fst (doSeek plain_aead 11 0 True dirty_example) = Some (Inr ())" by code_simp
  have k: "posToSeqnum (cf_cc dirty_example) 11 = 1" by code_simp
  have "\<not> useCache dirty_example" "cf_current dirty_example = Single" "ck_dirty (cf_single dirty_example)"
    "\<not> isLastChunk dirty_example (cf_single dirty_example)" "ck_seqnum (cf_single dirty_example) = 0" "cf_size dirty_example = 12"
    "cf_isOpen dirty_example" "\<not> isAppend dirty_example" "cf_cache dirty_example = []"
    by (simp_all add: dirty_example_def useCache_def isLastChunk_def isAppend_def Chunk_def small_file_def CryptFile_new_def)
  then show ?thesis
    using crypt_uncached_write_lost [of dirty_example 11 plain_aead] run k by (auto split: option.split)
qed

lemma seekRead_error:
  "seekReadRawChunk A r True 0 t = Some (Inl e, t') \<Longrightarrow> \<exists>q. t' = t\<lparr>cf_raw_pos := q\<rparr>"
  by (auto simp: seekReadRawChunk_def with_chunk_def fail_with_def done_with_def raw_seek_def raw_skip_def Let_def
      split: if_splits bind_splits option.splits sum.splits intro: exI [of _ "cf_raw_pos t"])

text \<open>The chunk that a failed read leaves in the cache, and the state around it.\<close>

definition empty_chunk :: "container \<Rightarrow> nat \<Rightarrow> chunk" where
  "empty_chunk cc pos = (Chunk (posToSeqnum cc pos))\<lparr>ck_maxSize := width cc (posToSeqnum cc pos), ck_offset := chunkOffsetForPos cc pos\<rparr>"

definition after_failed_read :: "nat \<Rightarrow> crypt_file \<Rightarrow> crypt_file" where
  "after_failed_read pos s =
     (let k = posToSeqnum (cf_cc s) pos
      in assign (Cached k) (empty_chunk (cf_cc s) pos)
           (s\<lparr>cf_seekCursor := pos, cf_current := Null, cf_cache := cf_cache s @ [(k, Chunk k)]\<rparr>))"

lemma failed_seek_leaves:
  assumes s: "cf_isOpen s" "useCache s" "\<not> isAppend s" "pos \<noteq> cf_cursor s" "pos < cf_size s" "distinct (List.map fst (cf_cache s))"
      "length (cf_cache s) < cf_capacity s" "map_of (cf_cache s) (posToSeqnum (cf_cc s) pos) = None"
    and clean: "cf_current s = Null \<or> (\<exists>c. deref s (cf_current s) = Some c \<and> \<not> ck_dirty c \<and> ck_seqnum c \<noteq> posToSeqnum (cf_cc s) pos)"
    and off: "0 < chunkOffsetForPos (cf_cc s) pos" and fails: "file_seek A pos s = Some (Inl e, s1)"
  shows "\<exists>q. s1 = (after_failed_read pos s)\<lparr>cf_raw_pos := q\<rparr>"
proof -
  let ?k = "posToSeqnum (cf_cc s) pos" and ?off = "chunkOffsetForPos (cf_cc s) pos"
  let ?u = "s\<lparr>cf_seekCursor := pos, cf_current := Null\<rparr>"
  let ?v = "?u\<lparr>cf_cache := cf_cache s @ [(?k, Chunk ?k)]\<rparr>"
  let ?c = "empty_chunk (cf_cc s) pos"
  let ?r = "Cached ?k"
  have notin: "?k \<notin> set (List.map fst (cf_cache s))" using s(8) by (simp add: map_of_eq_None_iff)
  then have drop: "spec_drop ?k (cf_cache s) = cf_cache s" by (force simp: spec_drop_def filter_id_conv)
  have emplace: "spec_emplace (cf_capacity s) (cf_cache s) ?k (Chunk ?k) = cf_cache s @ [(?k, Chunk ?k)]"
    using s(7,8) drop by (simp add: spec_emplace_def spec_evict_def)
  have uc: "useCache ?u" using s(2) by (simp add: useCache_def)
  have next_: "next_chunk A ?k True ?u = Some (Inr (?r, True), ?v)"
    using uc s(7,8) emplace by (simp add: next_chunk_def chk_def done_with_def)
  have flush: "flushLastChunk A (s\<lparr>cf_seekCursor := pos\<rparr>) = Some (Inr (), s\<lparr>cf_seekCursor := pos\<rparr>)"
    using clean by (auto simp: flushLastChunk_def with_chunk_def done_with_def)
  have first: "file_seek A pos s = enter_chunk A pos ?k 0 (?r, True) ?v"
    using s(1,3-5) clean flush next_
    by (auto simp: file_seek_def Let_def doSeek_def chk_def with_chunk_def)
  have dv: "deref ?v ?r = Some (Chunk ?k)" using s(8) by (simp add: deref_def map_add_def)
  let ?w = "assign ?r ?c ?v"
  have "enter_chunk A pos ?k 0 (?r, True) ?v =
      chk (seekReadRawChunk A ?r True 0) (\<lambda>_ s. done_with () (s\<lparr>cf_cursor := pos, cf_current := ?r, cf_eofSeqnum := max (cf_eofSeqnum s) ?k\<rparr>)) ?w"
    using dv off by (simp add: enter_chunk_def with_chunk_def Let_def chk_def empty_chunk_def)
  then have "seekReadRawChunk A ?r True 0 ?w = Some (Inl e, s1)"
    using fails first by (auto simp: chk_def done_with_def split: option.splits sum.splits)
  then show ?thesis unfolding after_failed_read_def Let_def by (rule seekRead_error)
qed

lemma empty_chunk_found:
  assumes d1: "deref s1 (Cached (posToSeqnum (cf_cc s1) pos)) = Some (empty_chunk (cf_cc s1) pos)"
    and s: "cf_isOpen s1" "useCache s1" "\<not> isAppend s1" "pos \<noteq> cf_cursor s1" "pos < cf_size s1" "distinct (List.map fst (cf_cache s1))"
      "cf_current s1 = Null" and off: "0 < chunkOffsetForPos (cf_cc s1) pos" and n: "0 < n"
  shows "\<exists>s2. file_seek A pos s1 = Some (Inr (), s2) \<and> file_read A n s2 = None"
proof -
  let ?k = "posToSeqnum (cf_cc s1) pos" and ?off = "chunkOffsetForPos (cf_cc s1) pos"
  let ?r = "Cached ?k" and ?c = "empty_chunk (cf_cc s1) pos"
  have hit: "map_of (cf_cache s1) ?k = Some ?c" using d1 by (simp add: deref_def)
  let ?x = "s1\<lparr>cf_seekCursor := pos, cf_current := Null, cf_cache := spec_touch (cf_cache s1) ?k\<rparr>"
  have uc1: "useCache (s1\<lparr>cf_seekCursor := pos, cf_current := Null\<rparr>)" using s(2) by (simp add: useCache_def)
  have next1: "next_chunk A ?k True (s1\<lparr>cf_seekCursor := pos, cf_current := Null\<rparr>) = Some (Inr (?r, False), ?x)"
    using uc1 hit by (simp add: next_chunk_def done_with_def)
  have second: "file_seek A pos s1 = enter_chunk A pos ?k 0 (?r, False) ?x"
    using s next1
    by (simp add: file_seek_def Let_def doSeek_def chk_def flushLastChunk_def done_with_def)
  have dx: "deref ?x ?r = Some ?c" using hit map_of_spec_touch [OF s(6)] by (simp add: deref_def)
  let ?y = "(assign ?r ?c ?x)\<lparr>cf_cursor := pos, cf_current := ?r, cf_eofSeqnum := max (cf_eofSeqnum s1) ?k\<rparr>"
  have "file_seek A pos s1 = Some (Inr (), ?y)"
    unfolding second using dx by (simp add: enter_chunk_def with_chunk_def Let_def chk_def done_with_def empty_chunk_def)
  moreover have "file_read A n ?y = None"
  proof -
    have dy: "deref ?y ?r = Some ?c" using deref_assign [OF dx, of ?c] by simp
    have small: "?off < 2 ^ 64" by (simp add: chunkOffsetForPos_def sub64_def)
    have av: "available ?c \<noteq> 0" using off small by (simp add: available_def sub64_def Chunk_def empty_chunk_def)
    have "copy_out n ?y = None" using dy av n off
      by (simp add: copy_out_def with_chunk_def Let_def) (simp add: Chunk_def empty_chunk_def)
    then have "read_step A n ?y = None" using dy av by (simp add: read_step_def with_chunk_def chk_def done_with_def)
    then have "read_loop A n [] ?y = None" using n s(5) by (simp add: read_loop.simps [of A n])
    moreover have "\<not> isAppend ?y" using s(3) by (simp add: isAppend_def)
    ultimately show ?thesis using n s(5) by (simp add: file_read_def chk_def)
  qed
  ultimately show ?thesis by blast
qed

text \<open>A chunk that could not be read stays in the cache as an empty one. The same seek then succeeds, and a read
  leaves the buffer of the chunk.\<close>

theorem crypt_failed_read_remembered:
  assumes s: "cf_isOpen s" "useCache s" "\<not> isAppend s" "pos \<noteq> cf_cursor s" "pos < cf_size s" "distinct (List.map fst (cf_cache s))"
      "length (cf_cache s) < cf_capacity s" "map_of (cf_cache s) (posToSeqnum (cf_cc s) pos) = None"
    and clean: "cf_current s = Null \<or> (\<exists>c. deref s (cf_current s) = Some c \<and> \<not> ck_dirty c \<and> ck_seqnum c \<noteq> posToSeqnum (cf_cc s) pos)"
    and off: "0 < chunkOffsetForPos (cf_cc s) pos" and fails: "file_seek A pos s = Some (Inl e, s1)" and n: "0 < n"
  shows "\<exists>s2. file_seek A pos s1 = Some (Inr (), s2) \<and> file_read A n s2 = None"
proof -
  let ?k = "posToSeqnum (cf_cc s) pos"
  obtain q where s1: "s1 = (after_failed_read pos s)\<lparr>cf_raw_pos := q\<rparr>"
    using failed_seek_leaves [OF s clean off fails] by blast
  have notin: "?k \<notin> set (List.map fst (cf_cache s))" using s(8) by (simp add: map_of_eq_None_iff)
  have dv: "deref (s\<lparr>cf_seekCursor := pos, cf_current := Null, cf_cache := cf_cache s @ [(?k, Chunk ?k)]\<rparr>) (Cached ?k) = Some (Chunk ?k)"
    using s(8) by (simp add: deref_def map_add_def)
  have f: "cf_cc s1 = cf_cc s" "cf_isOpen s1" "cf_cursor s1 = cf_cursor s" "cf_size s1 = cf_size s" "cf_current s1 = Null"
      "List.map fst (cf_cache s1) = List.map fst (cf_cache s) @ [?k]" "cf_mode s1 = cf_mode s" "cf_enableCache s1 = cf_enableCache s"
    unfolding s1 after_failed_read_def Let_def using s(1) by simp_all
  have "deref s1 (Cached ?k) = Some (empty_chunk (cf_cc s) pos)"
    unfolding s1 after_failed_read_def Let_def using deref_assign [OF dv] by simp
  moreover have "useCache s1" "\<not> isAppend s1" using s(2,3) f by (simp_all add: useCache_def isAppend_def)
  moreover have "distinct (List.map fst (cf_cache s1))" using f(6) s(6) notin by simp
  ultimately show ?thesis
    using empty_chunk_found [of s1 pos n A] s(4,5) off n f by simp
qed

definition short_example :: crypt_file where
  "short_example = (small_file (Some (header_bytes False 1 12 52 @ [9] @ packed plain_aead 0 0 (replicate 10 1))))
    \<lparr>cf_mode := Mode_read, cf_isOpen := True, cf_dataOffset := 23, cf_size := 12, cf_ciphertextSize := 52, cf_eofSeqnum := 1\<rparr>"

theorem crypt_failed_read_remembered_witness:
  "\<exists>s1 s2. file_seek plain_aead 11 short_example = Some (Inl INVALID_SIZE, s1)
    \<and> file_seek plain_aead 11 s1 = Some (Inr (), s2) \<and> file_read plain_aead 1 s2 = None"
proof -
  have "map_option fst (file_seek plain_aead 11 short_example) = Some (Inl INVALID_SIZE)" by code_simp
  then obtain s1 where s1: "file_seek plain_aead 11 short_example = Some (Inl INVALID_SIZE, s1)" by auto
  have off: "0 < chunkOffsetForPos (cf_cc short_example) 11" by code_simp
  have ex: "cf_isOpen short_example" "useCache short_example" "\<not> isAppend short_example" "cf_cursor short_example = 0"
      "cf_size short_example = 12" "cf_cache short_example = []" "cf_capacity short_example = 8" "cf_current short_example = Null"
    by (simp_all add: short_example_def small_file_def CryptFile_new_def useCache_def isAppend_def small_cc_def)
  have "\<exists>s2. file_seek plain_aead 11 s1 = Some (Inr (), s2) \<and> file_read plain_aead 1 s2 = None"
    by (rule crypt_failed_read_remembered [OF _ _ _ _ _ _ _ _ _ off s1]) (use ex in simp_all)
  then show ?thesis using s1 by blast
qed

subsection \<open>Sizes that go wrong\<close>

text \<open>Chunks of two bytes under a cipher that adds one, to keep the evaluation short.\<close>

definition tiny_aead :: aead where
  "tiny_aead = \<lparr>ae_seal = (\<lambda>d info p. 0 # p), ae_open = (\<lambda>info c. Some (drop 1 c)), ae_extra = 1\<rparr>"

definition tiny_cc :: container where
  "tiny_cc = \<lparr>cc_chunkMaxSize = 2, cc_firstChunkMaxSize = 0, cc_streaming = False\<rparr>"

definition tiny_parse :: "byte list \<Rightarrow> container option" where
  "tiny_parse d = (if d = [9] then Some tiny_cc else None)"

definition tiny_bytes :: "byte list" where
  "tiny_bytes = header_bytes False 1 3 13 @ [9] @ packed tiny_aead 0 0 [1, 1] @ packed tiny_aead 0 1 [1]"

definition tiny_file :: crypt_file where
  "tiny_file = CryptFile_new tiny_cc (Some tiny_bytes) (\<lambda>n. replicate n 0)"

lemma tiny_disk: "file_on_disk tiny_aead 10 tiny_cc [9] tiny_bytes [1, 1, 1]"
proof -
  have A: "aead_ok tiny_aead" by (simp add: aead_ok_def tiny_aead_def)
  have w: "width tiny_cc n = 2" for n by (simp add: maxPlainChunkSize_def tiny_cc_def)
  have lay: "layout_ok tiny_aead tiny_cc (22 + length [9 :: byte]) 10"
    using A by (simp add: layout_ok_def rstart_def cstart_def w) (simp add: tiny_cc_def tiny_aead_def)
  have e: "encode_chunks tiny_aead (\<lambda>_. 0) tiny_cc 0 [1, 1, 1] = packed tiny_aead 0 0 [1, 1] @ packed tiny_aead 0 1 [1]"
    by (simp add: encode_chunks.simps Let_def w)
  have l: "length (encode_chunks tiny_aead (\<lambda>_. 0) tiny_cc 0 [1, 1, 1]) = 13"
    unfolding e by (simp add: length_packed [OF A]) (simp add: tiny_aead_def)
  have i: "cindex tiny_cc (length [1, 1, 1 :: byte]) \<le> 10 + 1" by (simp add: cindex_def w) (simp add: tiny_cc_def)
  show ?thesis
    using container_on_disk [OF lay i, of "\<lambda>_. 0" "[]"] l e by (simp add: tiny_bytes_def numeral_3_eq_3)
qed

lemma tiny_overwrite:
  "map_option (\<lambda>(r, s). (r, raw_bytes s)) (session tiny_aead tiny_parse [] Mode_write_existing [Write [2, 2, 2, 2]] tiny_file) =
    Some (Inr [Count 4], header_bytes False 1 5 14 @ [9] @ packed tiny_aead 0 0 [2, 2] @ packed tiny_aead 0 1 [2, 2])"
  by code_simp

text \<open>A write that runs over the start of the last chunk and covers it counts the bytes of the chunk twice. A file
  of three bytes in chunks of two, overwritten with four, says that it has five, and its container is refused.\<close>

theorem crypt_overwrite_counts_twice:
  "file_on_disk tiny_aead 10 tiny_cc [9] (raw_bytes tiny_file) [1, 1, 1]
    \<and> (\<exists>s. session tiny_aead tiny_parse [] Mode_write_existing [Write [2, 2, 2, 2]] tiny_file = Some (Inr [Count 4], s)
         \<and> unpackHeader (raw_bytes s) = Inr (5, 1, 14, False)
         \<and> container_unpack tiny_aead tiny_parse False (raw_bytes s) [] = Some (Inl INVALID_SIZE))"
proof -
  let ?raw = "header_bytes False 1 5 14 @ [9] @ packed tiny_aead 0 0 [2, 2] @ packed tiny_aead 0 1 [2, 2]"
  obtain s where s: "session tiny_aead tiny_parse [] Mode_write_existing [Write [2, 2, 2, 2]] tiny_file = Some (Inr [Count 4], s)"
      "raw_bytes s = ?raw" using tiny_overwrite by auto
  have "unpackHeader ?raw = Inr (5, 1, 14, False)" by code_simp
  moreover have "container_unpack tiny_aead tiny_parse False ?raw [] = Some (Inl INVALID_SIZE)" by code_simp
  moreover have "raw_bytes tiny_file = tiny_bytes" by (simp add: tiny_file_def CryptFile_new_def raw_bytes_def)
  ultimately show ?thesis using tiny_disk s by auto
qed

lemma cut_to_nothing:
  assumes s: "open_at A K desc cc md plain 0 s" and md: "mode_writes md" "\<not> mode_appends md" and len: "width cc 0 < length plain"
  obtains t r c where "truncateImpl A 0 s = Some (Inr (), t)" "cf_size t = 0" "cf_cursor t = 0" "cf_seekCursor t = 0"
    "0 < cf_eofSeqnum t" "cf_current t = r" "r \<noteq> Null" "deref t r = Some c" "ck_seqnum c = 0" "ck_offset c = 0" "ck_content c = []"
    "ck_maxSize c = width cc 0" "isWriteMode t" "alloc_ok (cf_junk t)" "width cc 0 < 2 ^ 32"
proof -
  note m = open_at_modes [OF s]
  then have f: "file_at A K desc plain 0 s" by simp
  obtain t where t: "doFlush A s = Some (Inr (), t)" "file_at A K desc plain 0 t" "settings t = settings s"
    using file_flush_at [OF f] by (auto simp: goes_def)
  note T = settingsD [OF t(3)] and F = file_atD [OF t(2)]
  obtain dm dk where rep: "file_rep A K desc Null plain dm dk t" using F(1) by (auto simp: stands_for_def)
  note R = file_repD [OF rep]
  have cc: "cf_cc t = cc" "isWriteMode t" "\<not> isAppend t" using T m md by simp_all
  have uc: "useCache t" using R(1) cc(2,3) by (simp add: rep_conf_def)
  have D: "cf_dataOffset t = 22 + length desc" "cf_isOpen t" "alloc_ok (cf_junk t)" using R(1) by (simp_all add: rep_conf_def)
  have E: "0 < cf_eofSeqnum t"
  proof (rule ccontr)
    assume "\<not> 0 < cf_eofSeqnum t"
    then have "length plain \<le> cstart cc (Suc 0)" using R(4) cc(1) by (simp add: rep_end_def)
    then show False using len by (simp add: cstart_Suc)
  qed
  obtain p c where h: "take (22 + length desc) (raw_bytes t) = header_bytes False (length desc) p c @ desc" "cf_raw t \<noteq> None"
    using R(2,3) D(1) by (auto simp: rep_head_def rep_disk_def)
  define tail where "tail = desc @ drop (22 + length desc) (raw_bytes t)"
  have "raw_bytes t = take (22 + length desc) (raw_bytes t) @ drop (22 + length desc) (raw_bytes t)"
    by (simp only: append_take_drop_id)
  then have "raw_bytes t = header_bytes False (length desc) p c @ tail" unfolding h(1) tail_def by simp
  then have raw: "cf_raw t = Some (header_bytes False (length desc) p c @ tail)"
    using h(2) by (auto simp: raw_bytes_def)
  let ?u = "t\<lparr>cf_cache := [], cf_current := Null, cf_size := 0, cf_ciphertextSize := 0, cf_sizeDirty := True\<rparr>"
  let ?v = "?u\<lparr>cf_raw := Some (header_bytes False (length desc) 0 0 @ tail), cf_raw_pos := 22, cf_sizeDirty := False\<rparr>"
  have ns: "\<not> cc_streaming (cf_cc t)" by (rule layoutD(2) [OF R(7)])
  have ws: "writeSize ?u = Some (Inr (), ?v)" using writeSize_run [of ?u] raw ns by simp
  have uv: "useCache ?v" using uc by (simp add: useCache_def)
  let ?ck = "(Chunk 0)\<lparr>ck_maxSize := width cc 0\<rparr>"
  let ?w = "?v\<lparr>cf_cache := [(0, ?ck)], cf_raw_pos := cf_dataOffset t, cf_cursor := 0, cf_current := Cached 0, cf_eofSeqnum := cf_eofSeqnum t\<rparr>"
  have dl: "length desc \<le> length tail" by (simp add: tail_def)
  have seek: "doSeek A 0 0 True ?v = Some (Inr (), ?w)"
    using new_seek [of A ?v K] R(7) D(1,2) uv cc(1) dl by (simp add: raw_bytes_def)
  have "cf_size s = length plain" using file_atD(6) [OF f] .
  then have "truncateImpl A 0 s = truncate_shrink A 0 s" using len by (auto simp: truncateImpl_def)
  also have "\<dots> = Some (Inr (), ?w)"
    using t(1) ws seek by (simp add: truncate_shrink_def chk_def Let_def)
  finally have run: "truncateImpl A 0 s = Some (Inr (), ?w)" .
  have "cf_seekCursor t = 0" using F(4) cc(3) by simp
  moreover have "isWriteMode ?w" using cc(2) by (simp add: isWriteMode_def)
  moreover have "width cc 0 < 2 ^ 32" using chunk_bound [OF R(7) _ le_refl, of 0] cc(1) by simp
  ultimately show ?thesis
    by (intro that [OF run, of "Cached 0" ?ck]) (use E D(3) in \<open>simp_all add: deref_def Chunk_def\<close>)
qed

text \<open>After a file of more than one chunk is cut to nothing, the number of its last chunk stays. A write into the
  first chunk is then not counted, and the assertion on the cursor at the end of the write fails.\<close>

theorem crypt_truncate_then_write:
  assumes "open_at A K desc cc md plain 0 s" and "mode_writes md" and "\<not> mode_appends md" and "width cc 0 < length plain"
    and "d \<noteq> []" and "length d \<le> width cc 0"
  shows "\<exists>t. truncateImpl A 0 s = Some (Inr (), t) \<and> cf_size t = 0 \<and> file_pos t = 0 \<and> 0 < cf_eofSeqnum t
    \<and> file_write A d t = None"
proof -
  obtain t r c where t: "truncateImpl A 0 s = Some (Inr (), t)" "cf_size t = 0" "cf_cursor t = 0" "cf_seekCursor t = 0"
      "0 < cf_eofSeqnum t" "cf_current t = r" "r \<noteq> Null" "deref t r = Some c" "ck_seqnum c = 0" "ck_offset c = 0" "ck_content c = []"
      "ck_maxSize c = width cc 0" "isWriteMode t" "alloc_ok (cf_junk t)" "width cc 0 < 2 ^ 32"
    by (rule cut_to_nothing [OF assms(1-4)])
  let ?n = "length d"
  have n: "0 < ?n" using assms(5) by simp
  have avail: "sub64 (ck_maxSize c) 0 = width cc 0" using t(12,15) by simp
  have wpos: "width cc 0 \<noteq> 0" using n assms(6) by linarith
  have stay: "move_on A ?n t = Some (Inr (), t)"
    using t(6,8,10,12) avail wpos by (simp add: move_on_def with_chunk_def done_with_def)
  let ?c = "c\<lparr>ck_content := overlay 0 d (resize_to (cf_junk t) ?n []), ck_offset := ?n, ck_dirty := True\<rparr>"
  let ?t = "assign r ?c (t\<lparr>cf_cursor := ?n\<rparr>)"
  have fit: "length (resize_to (cf_junk t) ?n []) = ?n" using alloc_length [OF t(14), of ?n] by (simp add: resize_to_def)
  have copy: "copy_in d t = Some (Inr ?n, ?t)"
    using t(3,5,6,8-12,15) avail n assms(6) fit
    by (simp add: copy_in_def with_chunk_def Let_def isLastChunk_def done_with_def)
  have "write_loop A d t = Some (Inr (), ?t)"
    using assms(5) stay copy by (simp add: write_loop.simps [of A d] chk_def write_loop.simps [of A "[]"] done_with_def)
  then have "writeImpl A d t = None" using n t(2) by (simp add: writeImpl_def chk_def)
  then have "file_write A d t = None"
    using assms(5) t(2,4,6,7,13) by (simp add: file_write_def chk_def done_with_def)
  then show ?thesis using t(1,2,4,5) by (auto simp: file_pos_def)
qed

theorem crypt_truncate_then_write_witness:
  "\<exists>s t. open_at plain_aead 10 [9] small_cc Mode_write_existing (replicate 12 1) 0 s
    \<and> truncateImpl plain_aead 0 s = Some (Inr (), t) \<and> file_write plain_aead [1, 2] t = None"
proof -
  let ?raw = "header_bytes False 1 12 52 @ [9] @ encode_chunks plain_aead (\<lambda>_. 0) small_cc 0 (replicate 12 1)"
  have "goes (doOpen plain_aead small_parse [] Mode_write_existing False) (small_file (Some ?raw)) (\<lambda>_ s'.
      open_at plain_aead 10 [9] small_cc Mode_write_existing (replicate 12 1)
        (if mode_appends Mode_write_existing then length (replicate 12 (1 :: byte)) else 0) s' \<and> cf_seekCursor s' = 0)"
    by (rule doOpen_existing [where parse = small_parse, OF small_disk _ small_file_closed(1,3) _ small_file_closed(4)])
      (simp_all add: small_parse_def opens_existing_def)
  then obtain s where "open_at plain_aead 10 [9] small_cc Mode_write_existing (replicate 12 1) 0 s"
    by (auto simp: goes_def mode_appends_def)
  then show ?thesis
    using crypt_truncate_then_write [of plain_aead 10 "[9]" small_cc Mode_write_existing "replicate 12 1" s "[1, 2]"]
    by (auto simp: mode_writes_def mode_appends_def)
qed

end
