(* ===== verification/WireBuf.thy ===== *)
theory WireBuf
  imports VarInt "HOL-Library.While_Combinator"
begin

section \<open>Serialization of field values: dataunit/wirebuf.h, ipp/fieldserialization.ipp\<close>

text \<open>
  A solid wire buffer is a byte container with the size and the offset that the buffer keeps beside it;
  chained buffers are not modelled. Reading maps a buffer to a value and the buffer with its offset
  moved, or to the first raw error raised, \<open>None\<close> in its place being a \<open>false\<close> that raised none, with the buffer
  as the failure leaves it. Parsing works on an object in place, and a failure leaves the object as it is by then,
  partly filled. The result \<open>None\<close> is a read outside the container, an undefined shift or a loop that does not
  end. Writing appends to the container.
  The handlers of the source that call back into units are arguments here.
\<close>

record wire =
  wb_data :: "byte list"
  wb_size :: nat
  wb_offset :: nat

type_synonym ('e, 'a) run = "wire \<Rightarrow> ('e + 'a \<times> wire) option"
type_synonym 'a reading = "(raw_error option \<times> wire, 'a) run"
type_synonym 's parsing = "(raw_error option \<times> wire \<times> 's, 's) run"
type_synonym writing = "wire \<Rightarrow> raw_error option + wire"

definition incSize :: "int \<Rightarrow> wire \<Rightarrow> wire" where
  "incSize increment w = w\<lparr>wb_size := nat (u64 (int (wb_size w) + increment))\<rparr>"

definition incCurrentOffset :: "int \<Rightarrow> wire \<Rightarrow> wire" where
  "incCurrentOffset increment w = w\<lparr>wb_offset := nat (u64 (int (wb_offset w) + increment))\<rparr>"

text \<open>\<open>WireBufSolid(data,size,inline)\<close>, \<open>clear()\<close> and \<open>resetState()\<close>.\<close>

definition wire_of :: "byte list \<Rightarrow> wire" where
  "wire_of bytes = \<lparr>wb_data = bytes, wb_size = length bytes, wb_offset = 0\<rparr>"

definition wb_resetState :: "wire \<Rightarrow> wire" where
  "wb_resetState w = w\<lparr>wb_offset := 0\<rparr>"

definition wb_clear :: "wire \<Rightarrow> wire" where
  "wb_clear w = w\<lparr>wb_data := [], wb_size := 0, wb_offset := 0\<rparr>"

subsection \<open>Sequencing\<close>

definition rfail :: "raw_error \<Rightarrow> 'a reading" where
  "rfail e w = Some (Inl (Some e, w))"

definition rret :: "'a \<Rightarrow> ('e, 'a) run" where
  "rret x w = Some (Inr (x, w))"

definition rbind :: "('e, 'a) run \<Rightarrow> ('a \<Rightarrow> ('e, 'b) run) \<Rightarrow> ('e, 'b) run" where
  "rbind m f w =
     (case m w of None \<Rightarrow> None | Some (Inl e) \<Rightarrow> Some (Inl e) | Some (Inr (x, w')) \<Rightarrow> f x w')"

text \<open>A reading that leaves an object as it is when it fails, one of which only the value is used, and an object
  parsed as a part of another: \<open>g\<close> puts the parsed part into the whole, \<open>h\<close> the part that a failure leaves.\<close>

definition leaving :: "'s \<Rightarrow> 'a reading \<Rightarrow> (raw_error option \<times> wire \<times> 's, 'a) run" where
  "leaving s m w = (case m w of Some (Inl (e, w')) \<Rightarrow> Some (Inl (e, w', s)) | Some (Inr r) \<Rightarrow> Some (Inr r) | None \<Rightarrow> None)"

definition value_only :: "'s parsing \<Rightarrow> 's reading" where
  "value_only m w = (case m w of Some (Inl (e, w', s)) \<Rightarrow> Some (Inl (e, w')) | Some (Inr r) \<Rightarrow> Some (Inr r) | None \<Rightarrow> None)"

definition part_of :: "('s \<Rightarrow> 't) \<Rightarrow> ('a \<Rightarrow> 'b) \<Rightarrow> (raw_error option \<times> wire \<times> 's, 'a) run \<Rightarrow> (raw_error option \<times> wire \<times> 't, 'b) run" where
  "part_of h g m w =
     (case m w of
        Some (Inl (e, w', s)) \<Rightarrow> Some (Inl (e, w', h s))
      | Some (Inr (x, w')) \<Rightarrow> Some (Inr (g x, w'))
      | None \<Rightarrow> None)"

text \<open>\<open>prepareRawError\<close> keeps the code of the first error raised.\<close>

definition or_raise :: "raw_error \<Rightarrow> raw_error option \<Rightarrow> raw_error option" where
  "or_raise e first = (case first of None \<Rightarrow> Some e | Some e' \<Rightarrow> Some e')"

definition wbind :: "writing \<Rightarrow> writing \<Rightarrow> writing" where
  "wbind m m' w = (case m w of Inl e \<Rightarrow> Inl e | Inr w' \<Rightarrow> m' w')"

lemma rbind_rret [simp]: "rbind (rret x) f = f x"
  by (simp add: rbind_def rret_def fun_eq_iff)

lemma rbind_ok: "m w = Some (Inr (x, w')) \<Longrightarrow> rbind m f w = f x w'"
  by (simp add: rbind_def)

lemma rbind_fails: "m w = Some (Inl e) \<Longrightarrow> rbind m f w = Some (Inl e)"
  by (simp add: rbind_def)

lemma wbind_ok: "m w = Inr w' \<Longrightarrow> wbind m m' w = m' w'"
  by (simp add: wbind_def)

text \<open>A loop of the source over the buffer and a state; that it does not end is \<open>None\<close>.\<close>

definition read_loop :: "('s \<Rightarrow> wire \<Rightarrow> bool) \<Rightarrow> ('s \<Rightarrow> ('e, 's) run) \<Rightarrow> 's \<Rightarrow> ('e, 's) run" where
  "read_loop cond step s w =
     (case while_option
             (\<lambda>st. case st of Some (Inr (s, w)) \<Rightarrow> cond s w | _ \<Rightarrow> False)
             (\<lambda>st. case st of Some (Inr (s, w)) \<Rightarrow> step s w | _ \<Rightarrow> st)
             (Some (Inr (s, w))) of
        None \<Rightarrow> None
      | Some st \<Rightarrow> st)"

lemma read_loop_stop: "\<not> cond s w \<Longrightarrow> read_loop cond step s w = Some (Inr (s, w))"
  by (simp add: read_loop_def while_option_unfold)

lemma read_loop_step:
  "cond s w \<Longrightarrow> step s w = Some (Inr (s', w')) \<Longrightarrow>
     read_loop cond step s w = read_loop cond step s' w'"
  by (subst read_loop_def, subst while_option_unfold) (simp add: read_loop_def)

lemma read_loop_fail:
  "cond s w \<Longrightarrow> step s w = Some (Inl e) \<Longrightarrow> read_loop cond step s w = Some (Inl e)"
  by (simp add: read_loop_def while_option_unfold)

lemma read_loop_undefined:
  "cond s w \<Longrightarrow> step s w = None \<Longrightarrow> read_loop cond step s w = None"
  by (simp add: read_loop_def while_option_unfold)

subsection \<open>Types of scalar fields\<close>

text \<open>The scalar types of \<open>ipp/types.ipp\<close> sent as varints, and those of fixed size; a \<open>float\<close> or
  \<open>double\<close> is its bit pattern. Values are integers in the range of the C++ type.\<close>

datatype varint_type = TYPE_BOOL | TYPE_INT8 | TYPE_INT16 | TYPE_INT32 | TYPE_INT64
  | TYPE_UINT8 | TYPE_UINT16 | TYPE_UINT32 | TYPE_UINT64
  | TYPE_SINT8 | TYPE_SINT16 | TYPE_SINT32 | TYPE_SINT64 | TYPE_ENUM

datatype fixed_type = TYPE_FIXED_INT32 | TYPE_FIXED_INT64 | TYPE_FIXED_UINT32 | TYPE_FIXED_UINT64
  | TYPE_FLOAT | TYPE_DOUBLE

fun varint_bits :: "varint_type \<Rightarrow> nat" where
  "varint_bits TYPE_BOOL = 8"
| "varint_bits TYPE_INT8 = 8"
| "varint_bits TYPE_INT16 = 16"
| "varint_bits TYPE_INT32 = 32"
| "varint_bits TYPE_INT64 = 64"
| "varint_bits TYPE_UINT8 = 8"
| "varint_bits TYPE_UINT16 = 16"
| "varint_bits TYPE_UINT32 = 32"
| "varint_bits TYPE_UINT64 = 64"
| "varint_bits TYPE_SINT8 = 8"
| "varint_bits TYPE_SINT16 = 16"
| "varint_bits TYPE_SINT32 = 32"
| "varint_bits TYPE_SINT64 = 64"
| "varint_bits TYPE_ENUM = 32"

definition varint_zigzag :: "varint_type \<Rightarrow> bool" where
  "varint_zigzag t = (t \<in> {TYPE_SINT8, TYPE_SINT16, TYPE_SINT32, TYPE_SINT64})"

definition varint_signed :: "varint_type \<Rightarrow> bool" where
  "varint_signed t = (varint_zigzag t \<or> t \<in> {TYPE_INT8, TYPE_INT16, TYPE_INT32, TYPE_INT64})"

fun fixed_size :: "fixed_type \<Rightarrow> nat" where
  "fixed_size TYPE_FIXED_INT32 = 4"
| "fixed_size TYPE_FIXED_INT64 = 8"
| "fixed_size TYPE_FIXED_UINT32 = 4"
| "fixed_size TYPE_FIXED_UINT64 = 8"
| "fixed_size TYPE_FLOAT = 4"
| "fixed_size TYPE_DOUBLE = 8"

definition fixed_signed :: "fixed_type \<Rightarrow> bool" where
  "fixed_signed t = (t \<in> {TYPE_FIXED_INT32, TYPE_FIXED_INT64})"

definition in_range :: "bool \<Rightarrow> nat \<Rightarrow> int \<Rightarrow> bool" where
  "in_range is_signed bits v =
     (if is_signed then - (2 ^ (bits - 1)) \<le> v \<and> v < 2 ^ (bits - 1) else 0 \<le> v \<and> v < 2 ^ bits)"

subsection \<open>The stream of a type\<close>

text \<open>\<open>Stream<T,Signed>\<close> on a register of the type: the packers and unpackers of the previous theory.\<close>

definition reg_pack :: "(byte list \<Rightarrow> 'a::len word \<Rightarrow> byte list \<times> int) \<Rightarrow> byte list \<Rightarrow> int \<Rightarrow> byte list \<times> int" where
  "reg_pack pack buf v = pack buf (word_of_int v)"

definition reg_unpack ::
    "('a::len word \<Rightarrow> int) \<Rightarrow> (byte list \<Rightarrow> nat \<Rightarrow> 'a word \<Rightarrow> (int \<times> 'a word) option) \<Rightarrow>
     byte list \<Rightarrow> nat \<Rightarrow> int \<Rightarrow> (int \<times> int) option" where
  "reg_unpack val unpack buf availableSize field =
     map_option (map_prod id val) (unpack buf availableSize (word_of_int field))"

fun stream_pack :: "varint_type \<Rightarrow> byte list \<Rightarrow> int \<Rightarrow> byte list \<times> int" where
  "stream_pack TYPE_BOOL = reg_pack (StreamUnsigned_packVarInt (ucast :: 8 word \<Rightarrow> _))"
| "stream_pack TYPE_INT8 = reg_pack (StreamUnsigned_packVarInt (scast :: 8 word \<Rightarrow> _))"
| "stream_pack TYPE_INT16 = reg_pack (StreamUnsigned_packVarInt (scast :: 16 word \<Rightarrow> _))"
| "stream_pack TYPE_INT32 = reg_pack (StreamUnsigned_packVarInt (scast :: 32 word \<Rightarrow> _))"
| "stream_pack TYPE_INT64 = reg_pack (StreamUnsigned_packVarInt (scast :: 64 word \<Rightarrow> _))"
| "stream_pack TYPE_UINT8 = reg_pack (StreamUnsigned_packVarInt (ucast :: 8 word \<Rightarrow> _))"
| "stream_pack TYPE_UINT16 = reg_pack (StreamUnsigned_packVarInt (ucast :: 16 word \<Rightarrow> _))"
| "stream_pack TYPE_UINT32 = reg_pack (StreamUnsigned_packVarInt (ucast :: 32 word \<Rightarrow> _))"
| "stream_pack TYPE_UINT64 = reg_pack StreamU64_packVarInt"
| "stream_pack TYPE_SINT8 = reg_pack (StreamSigned_packVarInt :: _ \<Rightarrow> 8 word \<Rightarrow> _)"
| "stream_pack TYPE_SINT16 = reg_pack (StreamSigned_packVarInt :: _ \<Rightarrow> 16 word \<Rightarrow> _)"
| "stream_pack TYPE_SINT32 = reg_pack (StreamSigned_packVarInt :: _ \<Rightarrow> 32 word \<Rightarrow> _)"
| "stream_pack TYPE_SINT64 = reg_pack StreamS64_packVarInt"
| "stream_pack TYPE_ENUM = reg_pack (StreamUnsigned_packVarInt (ucast :: 32 word \<Rightarrow> _))"

fun stream_unpack :: "varint_type \<Rightarrow> byte list \<Rightarrow> nat \<Rightarrow> int \<Rightarrow> (int \<times> int) option" where
  "stream_unpack TYPE_BOOL = reg_unpack uint (StreamUnsigned_unpackVarInt (ucast :: _ \<Rightarrow> 8 word))"
| "stream_unpack TYPE_INT8 = reg_unpack sint (StreamUnsigned_unpackVarInt (ucast :: _ \<Rightarrow> 8 word))"
| "stream_unpack TYPE_INT16 = reg_unpack sint (StreamUnsigned_unpackVarInt (ucast :: _ \<Rightarrow> 16 word))"
| "stream_unpack TYPE_INT32 = reg_unpack sint (StreamUnsigned_unpackVarInt (ucast :: _ \<Rightarrow> 32 word))"
| "stream_unpack TYPE_INT64 = reg_unpack sint (StreamUnsigned_unpackVarInt (ucast :: _ \<Rightarrow> 64 word))"
| "stream_unpack TYPE_UINT8 = reg_unpack uint (StreamUnsigned_unpackVarInt (ucast :: _ \<Rightarrow> 8 word))"
| "stream_unpack TYPE_UINT16 = reg_unpack uint (StreamUnsigned_unpackVarInt (ucast :: _ \<Rightarrow> 16 word))"
| "stream_unpack TYPE_UINT32 = reg_unpack uint (StreamUnsigned_unpackVarInt (ucast :: _ \<Rightarrow> 32 word))"
| "stream_unpack TYPE_UINT64 = reg_unpack uint StreamU64_unpackVarInt"
| "stream_unpack TYPE_SINT8 = reg_unpack sint (StreamSigned_unpackVarInt :: _ \<Rightarrow> _ \<Rightarrow> 8 word \<Rightarrow> _)"
| "stream_unpack TYPE_SINT16 = reg_unpack sint (StreamSigned_unpackVarInt :: _ \<Rightarrow> _ \<Rightarrow> 16 word \<Rightarrow> _)"
| "stream_unpack TYPE_SINT32 = reg_unpack sint (StreamSigned_unpackVarInt :: _ \<Rightarrow> _ \<Rightarrow> 32 word \<Rightarrow> _)"
| "stream_unpack TYPE_SINT64 = reg_unpack sint StreamS64_unpackVarInt"
| "stream_unpack TYPE_ENUM = reg_unpack uint (StreamUnsigned_unpackVarInt (ucast :: _ \<Rightarrow> 32 word))"

text \<open>The error that a failed unpacking has raised.\<close>

definition stream_error :: "varint_type \<Rightarrow> byte list \<Rightarrow> nat \<Rightarrow> raw_error option" where
  "stream_error t buf availableSize =
     (if varint_zigzag t \<and> t \<noteq> TYPE_SINT64
      then Option.bind (unpackVarInt32 buf availableSize) out_error
      else Option.bind (unpackVarInt64 buf availableSize) out_error)"

subsection \<open>The reference encoding of a scalar\<close>

definition varint_wire :: "varint_type \<Rightarrow> int \<Rightarrow> nat" where
  "varint_wire t v =
     (if varint_zigzag t then nat (if 0 \<le> v then 2 * v else - 2 * v - 1) else nat (v mod 2 ^ 64))"

definition varint_enc :: "varint_type \<Rightarrow> int \<Rightarrow> byte list" where
  "varint_enc t v = leb128 (varint_wire t v)"

definition varint_fits :: "varint_type \<Rightarrow> int \<Rightarrow> bool" where
  "varint_fits t v = in_range (varint_signed t) (varint_bits t) v"

lemmas varint_type_defs = varint_zigzag_def varint_signed_def varint_wire_def in_range_def

lemma varint_wire_less: "varint_fits t v \<Longrightarrow> varint_wire t v < 2 ^ 64"
  by (cases t) (auto simp: varint_fits_def varint_type_defs nat_less_iff)

lemma varint_enc_size: "varint_fits t v \<Longrightarrow> 0 < length (varint_enc t v) \<and> length (varint_enc t v) \<le> 10"
  unfolding varint_enc_def by (rule leb128_size_64) (rule varint_wire_less)

lemma sint_of_int_id:
  "- (2 ^ (LENGTH('a::len) - 1)) \<le> v \<Longrightarrow> v < 2 ^ (LENGTH('a) - 1) \<Longrightarrow> sint (word_of_int v :: 'a word) = v"
  by (cases "LENGTH('a)") (auto simp: signed_of_int signed_take_bit_int_eq_self_iff)

lemma uint_of_int_id: "0 \<le> v \<Longrightarrow> v < 2 ^ LENGTH('a::len) \<Longrightarrow> uint (word_of_int v :: 'a word) = v"
  by (simp add: unsigned_of_int take_bit_int_eq_self)

text \<open>What the codec of a register gives for the integer it holds.\<close>

lemma reg_codec:
  assumes "varint_codec pack unpack enc" and "val (word_of_int v :: 'a::len word) = v"
    and "enc (word_of_int v) = varint_enc t v"
    and "stream_pack t = reg_pack pack" and "stream_unpack t = reg_unpack val unpack"
  shows "stream_pack t buf v = (buf @ varint_enc t v, int (length (varint_enc t v)))
    \<and> (length (varint_enc t v) \<le> avail \<longrightarrow> avail \<le> length (varint_enc t v @ suf) \<longrightarrow>
       avail < 2147483648 \<longrightarrow>
       stream_unpack t (varint_enc t v @ suf) avail f = Some (int (length (varint_enc t v)), v))"
  using varint_codec.pack_enc [OF assms(1), of buf "word_of_int v"] assms(2-)
    varint_codec.unpack_enc [OF assms(1), of "word_of_int v" avail suf "word_of_int f"]
  by (simp add: reg_pack_def reg_unpack_def)

lemma unsigned_wire:
  assumes "0 \<le> v" and "v < 2 ^ LENGTH('a::len)" and "LENGTH('a) \<le> 64"
  shows "unat (ucast (word_of_int v :: 'a word) :: u64) = nat v"
proof -
  have "v < 2 ^ 64" using assms(2,3) power_increasing [of "LENGTH('a)" 64 "2::int"] by linarith
  then have "ucast (word_of_int v :: 'a word) = (word_of_int v :: u64)"
    using assms by (simp add: unsigned_of_int take_bit_int_eq_self)
  moreover have "unat (word_of_int v :: u64) = nat v"
    using assms(1) \<open>v < 2 ^ 64\<close> by (simp add: unsigned_of_int take_bit_int_eq_self)
  ultimately show ?thesis by (simp only:)
qed

lemma signed_wire:
  assumes "- (2 ^ (LENGTH('a::len) - 1)) \<le> v" and "v < 2 ^ (LENGTH('a) - 1)"
  shows "unat (scast (word_of_int v :: 'a word) :: u64) = nat (v mod 2 ^ 64)"
proof -
  have "scast (word_of_int v :: 'a word) = (word_of_int (sint (word_of_int v :: 'a word)) :: u64)"
    by simp
  then show ?thesis
    by (simp only: sint_of_int_id [OF assms]) (simp add: unsigned_of_int take_bit_int_def)
qed

lemma zigzag_wire:
  assumes "- (2 ^ (LENGTH('a::len) - 1)) \<le> v" and "v < 2 ^ (LENGTH('a) - 1)" and "LENGTH('a) \<le> 32"
  shows "unat (zigZagEncode32 (scast (word_of_int v :: 'a word))) = nat (if 0 \<le> v then 2 * v else - 2 * v - 1)"
proof -
  have b: "(2::int) ^ (LENGTH('a) - 1) \<le> 2 ^ 31"
    using power_increasing [of "LENGTH('a) - 1" 31 "2::int"] assms(3) by simp
  have "scast (word_of_int v :: 'a word) = (word_of_int (sint (word_of_int v :: 'a word)) :: u32)"
    by simp
  then have "scast (word_of_int v :: 'a word) = (word_of_int v :: u32)"
    by (simp only: sint_of_int_id [OF assms(1,2)])
  moreover have "sint (word_of_int v :: u32) = v"
    by (rule sint_of_int_id) (use assms(1,2) b in simp_all)
  ultimately show ?thesis
    using zigzag_arith [of "word_of_int v :: u32"] by (simp add: zigZagEncode32_def del: of_int_mult flip: nat_uint_eq)
qed

lemma zigzag_wire64:
  assumes "- (2 ^ 63) \<le> v" and "v < 2 ^ 63"
  shows "unat (zigZagEncode64 (word_of_int v)) = nat (if 0 \<le> v then 2 * v else - 2 * v - 1)"
proof -
  have "sint (word_of_int v :: u64) = v"
    by (rule sint_of_int_id) (use assms in simp_all)
  then show ?thesis
    using zigzag_arith [of "word_of_int v :: u64"] by (simp add: zigZagEncode64_def del: of_int_mult flip: nat_uint_eq)
qed

lemma signed_as_unsigned_codec:
  assumes "LENGTH('a::len) \<le> 64"
  shows "varint_codec (StreamUnsigned_packVarInt scast) (StreamUnsigned_unpackVarInt ucast)
    (\<lambda>v :: 'a word. leb128 (unat (scast v :: u64)))"
  by (rule unsigned_codec) (rule bit_word_eqI, use assms in \<open>simp add: bit_ucast_iff bit_signed_iff\<close>)

lemma unsigned_reg_codec:
  assumes "varint_fits t v" and "\<not> varint_signed t" and "varint_bits t = LENGTH('a::len)"
    and "LENGTH('a) \<le> 64"
    and "stream_pack t = reg_pack (StreamUnsigned_packVarInt (ucast :: 'a word \<Rightarrow> _))"
    and "stream_unpack t = reg_unpack uint (StreamUnsigned_unpackVarInt (ucast :: _ \<Rightarrow> 'a word))"
  shows "stream_pack t buf v = (buf @ varint_enc t v, int (length (varint_enc t v)))
    \<and> (length (varint_enc t v) \<le> avail \<longrightarrow> avail \<le> length (varint_enc t v @ suf) \<longrightarrow>
       avail < 2147483648 \<longrightarrow>
       stream_unpack t (varint_enc t v @ suf) avail f = Some (int (length (varint_enc t v)), v))"
proof (rule reg_codec [OF unsigned_codec _ _ assms(5,6)])
  have v: "0 \<le> v" "v < 2 ^ LENGTH('a)" using assms(1-3) by (simp_all add: varint_fits_def in_range_def)
  show "ucast (ucast w :: u64) = w" for w :: "'a word" by (rule ucast_ucast_up) (simp add: assms(4))
  show "uint (word_of_int v :: 'a word) = v" by (rule uint_of_int_id [OF v])
  have "v < 2 ^ 64" using v(2) assms(4) power_increasing [of "LENGTH('a)" 64 "2::int"] by linarith
  then have "varint_wire t v = nat v" using v(1) assms(2)
    by (simp add: varint_wire_def varint_signed_def)
  then show "leb128 (unat (ucast (word_of_int v :: 'a word) :: u64)) = varint_enc t v"
    unfolding varint_enc_def unsigned_wire [OF v assms(4)] by simp
qed

lemma signed_reg_codec:
  assumes "varint_fits t v" and "varint_signed t" and "\<not> varint_zigzag t"
    and "varint_bits t = LENGTH('a::len)" and "LENGTH('a) \<le> 64"
    and "stream_pack t = reg_pack (StreamUnsigned_packVarInt (scast :: 'a word \<Rightarrow> _))"
    and "stream_unpack t = reg_unpack sint (StreamUnsigned_unpackVarInt (ucast :: _ \<Rightarrow> 'a word))"
  shows "stream_pack t buf v = (buf @ varint_enc t v, int (length (varint_enc t v)))
    \<and> (length (varint_enc t v) \<le> avail \<longrightarrow> avail \<le> length (varint_enc t v @ suf) \<longrightarrow>
       avail < 2147483648 \<longrightarrow>
       stream_unpack t (varint_enc t v @ suf) avail f = Some (int (length (varint_enc t v)), v))"
proof (rule reg_codec [OF signed_as_unsigned_codec [OF assms(5)] _ _ assms(6,7)])
  have v: "- (2 ^ (LENGTH('a) - 1)) \<le> v" "v < 2 ^ (LENGTH('a) - 1)"
    using assms(1,2,4) by (simp_all add: varint_fits_def in_range_def)
  show "sint (word_of_int v :: 'a word) = v" by (rule sint_of_int_id [OF v])
  show "leb128 (unat (scast (word_of_int v :: 'a word) :: u64)) = varint_enc t v"
    unfolding varint_enc_def signed_wire [OF v] varint_wire_def using assms(3) by simp
qed

lemma zigzag_reg_codec:
  assumes "varint_fits t v" and "varint_zigzag t" and "varint_bits t = LENGTH('a::len)"
    and "LENGTH('a) \<le> 32"
    and "stream_pack t = reg_pack (StreamSigned_packVarInt :: _ \<Rightarrow> 'a word \<Rightarrow> _)"
    and "stream_unpack t = reg_unpack sint (StreamSigned_unpackVarInt :: _ \<Rightarrow> _ \<Rightarrow> 'a word \<Rightarrow> _)"
  shows "stream_pack t buf v = (buf @ varint_enc t v, int (length (varint_enc t v)))
    \<and> (length (varint_enc t v) \<le> avail \<longrightarrow> avail \<le> length (varint_enc t v @ suf) \<longrightarrow>
       avail < 2147483648 \<longrightarrow>
       stream_unpack t (varint_enc t v @ suf) avail f = Some (int (length (varint_enc t v)), v))"
proof (rule reg_codec [OF signed_codec [OF assms(4)] _ _ assms(5,6)])
  have v: "- (2 ^ (LENGTH('a) - 1)) \<le> v" "v < 2 ^ (LENGTH('a) - 1)"
    using assms(1,2,3) by (simp_all add: varint_fits_def in_range_def varint_signed_def)
  show "sint (word_of_int v :: 'a word) = v" by (rule sint_of_int_id [OF v])
  show "leb128 (unat (zigZagEncode32 (scast (word_of_int v :: 'a word)))) = varint_enc t v"
    unfolding varint_enc_def zigzag_wire [OF v assms(4)] varint_wire_def using assms(2) by simp
qed

lemma stream_roundtrip:
  assumes "varint_fits t v"
  shows "stream_pack t buf v = (buf @ varint_enc t v, int (length (varint_enc t v)))
    \<and> (length (varint_enc t v) \<le> avail \<longrightarrow> avail \<le> length (varint_enc t v @ suf) \<longrightarrow>
       avail < 2147483648 \<longrightarrow>
       stream_unpack t (varint_enc t v @ suf) avail f = Some (int (length (varint_enc t v)), v))"
proof -
  note u8 = unsigned_reg_codec [where 'a = 8, OF assms] and u16 = unsigned_reg_codec [where 'a = 16, OF assms]
    and u32 = unsigned_reg_codec [where 'a = 32, OF assms]
  note i8 = signed_reg_codec [where 'a = 8, OF assms] and i16 = signed_reg_codec [where 'a = 16, OF assms]
    and i32 = signed_reg_codec [where 'a = 32, OF assms] and i64 = signed_reg_codec [where 'a = 64, OF assms]
  note z8 = zigzag_reg_codec [where 'a = 8, OF assms] and z16 = zigzag_reg_codec [where 'a = 16, OF assms]
    and z32 = zigzag_reg_codec [where 'a = 32, OF assms]
  show ?thesis
  proof (cases t)
    case TYPE_UINT64
    then show ?thesis using assms
      by (intro reg_codec [OF su64.varint_codec_axioms])
         (simp_all add: uint_of_int_id varint_fits_def varint_type_defs varint_enc_def unsigned_of_int take_bit_int_def)
  next
    case TYPE_SINT64
    then show ?thesis using assms
      by (intro reg_codec [OF ss64.varint_codec_axioms])
         (simp_all add: sint_of_int_id zigzag_wire64 varint_fits_def varint_type_defs varint_enc_def)
  qed (rule u8 u16 u32 i8 i16 i32 i64 z8 z16 z32; simp add: varint_type_defs)+
qed


subsection \<open>Scalars and bytes on the wire\<close>

text \<open>\<open>VariableSer\<close>: the pointer and the available size come from the offset, the container's size wraps
  below it.\<close>

definition VariableSer_serialize :: "varint_type \<Rightarrow> int \<Rightarrow> writing" where
  "VariableSer_serialize t value w =
     (let (buf', consumed) = stream_pack t (wb_data w) value
      in if consumed < 0 then Inl None else Inr (incSize consumed (w\<lparr>wb_data := buf'\<rparr>)))"

definition VariableSer_deserialize :: "varint_type \<Rightarrow> int \<Rightarrow> int parsing" where
  "VariableSer_deserialize t value w =
     (let availableSize = sub64 (length (wb_data w)) (wb_offset w);
          buf = drop (wb_offset w) (wb_data w)
      in case stream_unpack t buf availableSize value of
           None \<Rightarrow> None
         | Some (consumed, value') \<Rightarrow>
             if consumed < 0 then Some (Inl (stream_error t buf availableSize, w, value'))
             else Some (Inr (value', incCurrentOffset consumed w)))"

text \<open>\<open>Stream<uint32_t>\<close> for tags, lengths and counts.\<close>

definition packUint32 :: "nat \<Rightarrow> writing" where
  "packUint32 n = VariableSer_serialize TYPE_UINT32 (u32 (int n))"

definition unpackUint32 :: "nat reading" where
  "unpackUint32 = rbind (value_only (VariableSer_deserialize TYPE_UINT32 0)) (\<lambda>v. rret (nat v))"

definition FixedSer_serialize :: "fixed_type \<Rightarrow> int \<Rightarrow> writing" where
  "FixedSer_serialize t value w =
     (let valueSize = fixed_size t
      in Inr (incSize (int valueSize)
           (w\<lparr>wb_data := wb_data w @ le_bytes valueSize (nat (value mod 256 ^ valueSize))\<rparr>)))"

definition fixed_value :: "fixed_type \<Rightarrow> byte list \<Rightarrow> int" where
  "fixed_value t bytes =
     (let n = int (le_nat bytes); m = 256 ^ fixed_size t
      in if fixed_signed t \<and> m \<le> 2 * n then n - m else n)"

text \<open>A \<open>memcpy\<close> or \<open>load\<close> of \<open>n\<close> bytes at an offset of the container. A negative \<open>n\<close> is a \<open>size_t\<close> beyond any
  container.\<close>

definition bytes_at :: "nat \<Rightarrow> int \<Rightarrow> wire \<Rightarrow> byte list option" where
  "bytes_at ptr n w =
     (if 0 \<le> n \<and> ptr + nat n \<le> length (wb_data w) then Some (take (nat n) (drop ptr (wb_data w)))
      else None)"

definition FixedSer_deserialize :: "fixed_type \<Rightarrow> int \<Rightarrow> int parsing" where
  "FixedSer_deserialize t value w =
     (let valueSize = int (fixed_size t); w' = incCurrentOffset valueSize w
      in if wb_offset w' > length (wb_data w) then leaving value (rfail END_OF_STREAM) w'
         else case bytes_at (wb_offset w) valueSize w of
                None \<Rightarrow> None
              | Some bytes \<Rightarrow> rret (fixed_value t bytes) w')"

definition append_bytes :: "byte list \<Rightarrow> writing" where
  "append_bytes bytes w = Inr (incSize (s32 (int (length bytes))) (w\<lparr>wb_data := wb_data w @ bytes\<rparr>))"

definition BytesSer_serialize :: "byte list \<Rightarrow> writing" where
  "BytesSer_serialize bytes =
     wbind (packUint32 (length bytes)) (if bytes = [] then Inr else append_bytes bytes)"

text \<open>\<open>maxSize\<close> is \<open>-1\<close> for bytes and the capacity of a fixed string. The length of 32 bits is cast
  to \<open>int\<close> for the check and for every use but the test for zero. \<open>BytesSer_block\<close> is the part up to the copy: the
  pointer and the size that \<open>load\<close> is called with. The target was cleared before.\<close>

definition BytesSer_block :: "int \<Rightarrow> (nat \<times> int) option reading" where
  "BytesSer_block maxSize = rbind unpackUint32 (\<lambda>dataSize w.
     if maxSize > 0 \<and> s32 (int dataSize) > maxSize then rfail SUSPECT_OVERFLOW w
     else if dataSize = 0 then rret None w
     else let w' = incCurrentOffset (s32 (int dataSize)) w
          in if length (wb_data w) < wb_offset w' then rfail END_OF_STREAM w'
             else rret (Some (wb_offset w, s32 (int dataSize))) w')"

definition BytesSer_deserialize :: "int \<Rightarrow> byte list parsing" where
  "BytesSer_deserialize maxSize = rbind (leaving [] (BytesSer_block maxSize)) (\<lambda>b w.
     case b of
       None \<Rightarrow> rret [] w
     | Some (ptr, n) \<Rightarrow>
         (case bytes_at ptr n w of
            None \<Rightarrow> None
          | Some bytes \<Rightarrow> rret bytes w))"

subsection \<open>Subunits on the wire\<close>

text \<open>\<open>finalize\<close>: the size of a subunit is packed into five cleared bytes, the first four of which
  then get their top bit, so that the field has a fixed width.\<close>

definition unit_size_bytes :: "nat \<Rightarrow> byte list" where
  "unit_size_bytes n =
     (let t = packVarInt32_raw (replicate 5 0) (of_nat n)
      in map (\<lambda>b. b OR 0x80) (take 4 t) @ drop 4 t)"

text \<open>\<open>serialize\<close>: \<open>value\<close> is the serialization of the unit, nothing for a null pointer; it returns the
  size it has added.\<close>

definition UnitSer_serialize :: "(wire \<Rightarrow> raw_error option + int \<times> wire) option \<Rightarrow> writing" where
  "UnitSer_serialize value w =
     (case value of
        None \<Rightarrow> Inl (Some SUBUNIT_SERIALIZE)
      | Some body \<Rightarrow>
          (let prevSize = wb_size w;
               w1 = incSize 5 (w\<lparr>wb_data := wb_data w @ replicate 5 0\<rparr>)
           in case body w1 of
                Inl e \<Rightarrow> Inl e
              | Inr (added, w2) \<Rightarrow>
                  if added < 0 then Inl None
                  else Inr (w2\<lparr>wb_data := overlay prevSize (unit_size_bytes (nat added)) (wb_data w2)\<rparr>)))"

definition wb_setSize :: "nat \<Rightarrow> wire \<Rightarrow> wire" where
  "wb_setSize n w = w\<lparr>wb_size := n\<rparr>"

definition UnitSer_deserialize :: "('u \<Rightarrow> bool) \<Rightarrow> ('u \<Rightarrow> 'u parsing) \<Rightarrow> 'u \<Rightarrow> 'u parsing" where
  "UnitSer_deserialize requiredSet deserialize value = rbind (leaving value unpackUint32) (\<lambda>dataSize w.
     if dataSize = 0
     then (if requiredSet value then rret value w else leaving value (rfail REQUIRED_FIELD_MISSING) w)
     else if length (wb_data w) < w64 (wb_offset w + dataSize) then leaving value (rfail END_OF_STREAM) w
     else let keepSize = wb_size w
          in case deserialize value (wb_setSize (w64 (wb_offset w + dataSize)) w) of
               Some (Inr (value', w')) \<Rightarrow> Some (Inr (value', wb_setSize keepSize w'))
             | Some (Inl (e, w', value')) \<Rightarrow> Some (Inl (e, wb_setSize keepSize w', value'))
             | None \<Rightarrow> None)"

subsection \<open>Writing and reading what was written\<close>

text \<open>\<open>writes_to N m bs\<close>: \<open>m\<close> appends \<open>bs\<close> to a buffer that stays below \<open>N\<close> bytes, 2 GB for \<open>writes\<close>. \<open>reads m bs x\<close>: wherever \<open>bs\<close> is in a buffer of less than
  2 GB, \<open>m\<close> started there returns \<open>x\<close> and stops right behind \<open>bs\<close>.\<close>

definition writes_to :: "nat \<Rightarrow> writing \<Rightarrow> byte list \<Rightarrow> bool" where
  "writes_to N m bs \<longleftrightarrow> (\<forall>w. wb_size w = length (wb_data w) \<longrightarrow> length (wb_data w) + length bs < N \<longrightarrow>
     m w = Inr (w\<lparr>wb_data := wb_data w @ bs, wb_size := wb_size w + length bs\<rparr>))"

abbreviation writes :: "writing \<Rightarrow> byte list \<Rightarrow> bool" where
  "writes \<equiv> writes_to 2147483648"

definition reads :: "('e, 'a) run \<Rightarrow> byte list \<Rightarrow> 'a \<Rightarrow> bool" where
  "reads m bs x \<longleftrightarrow> (\<forall>w pre suf. wb_data w = pre @ bs @ suf \<longrightarrow> wb_offset w = length pre \<longrightarrow>
     length (wb_data w) < 2147483648 \<longrightarrow>
     m w = Some (Inr (x, w\<lparr>wb_offset := length pre + length bs\<rparr>)))"

lemma writesD:
  "writes_to N m bs \<Longrightarrow> wb_size w = length (wb_data w) \<Longrightarrow> length (wb_data w) + length bs < N \<Longrightarrow>
     m w = Inr (w\<lparr>wb_data := wb_data w @ bs, wb_size := wb_size w + length bs\<rparr>)"
  by (simp add: writes_to_def)

lemma writes_to_mono: "writes_to N m bs \<Longrightarrow> N' \<le> N \<Longrightarrow> writes_to N' m bs"
  by (simp add: writes_to_def)

lemma readsD:
  "reads m bs x \<Longrightarrow> wb_data w = pre @ bs @ suf \<Longrightarrow> wb_offset w = length pre \<Longrightarrow>
     length (wb_data w) < 2147483648 \<Longrightarrow>
     m w = Some (Inr (x, w\<lparr>wb_offset := length pre + length bs\<rparr>))"
  unfolding reads_def by blast

lemma readsI:
  assumes "\<And>w pre suf. wb_data w = pre @ bs @ suf \<Longrightarrow> wb_offset w = length pre \<Longrightarrow>
     length pre + length bs + length suf < 2147483648 \<Longrightarrow>
     m w = Some (Inr (x, w\<lparr>wb_offset := length pre + length bs\<rparr>))"
  shows "reads m bs x"
  unfolding reads_def using assms by fastforce

lemma writes_wbind:
  assumes "writes_to N m a" and "writes_to N m' b"
  shows "writes_to N (wbind m m') (a @ b)"
  unfolding writes_to_def
proof (intro allI impI)
  fix w :: wire assume w: "wb_size w = length (wb_data w)" "length (wb_data w) + length (a @ b) < N"
  let ?w1 = "w\<lparr>wb_data := wb_data w @ a, wb_size := wb_size w + length a\<rparr>"
  have "m w = Inr ?w1" by (rule writesD [OF assms(1)]) (use w in simp_all)
  moreover have "m' ?w1 = Inr (?w1\<lparr>wb_data := wb_data ?w1 @ b, wb_size := wb_size ?w1 + length b\<rparr>)"
    by (rule writesD [OF assms(2)]) (use w in simp_all)
  ultimately show "wbind m m' w = Inr (w\<lparr>wb_data := wb_data w @ a @ b, wb_size := wb_size w + length (a @ b)\<rparr>)"
    by (simp add: wbind_ok add.assoc)
qed

lemma writes_nothing: "writes_to N Inr []"
  by (simp add: writes_to_def)

lemma reads_rret: "reads (rret x) [] x"
  by (auto simp: reads_def rret_def)

lemma reads_rbind:
  assumes "reads m a x" and "reads (f x) b y"
  shows "reads (rbind m f) (a @ b) y"
proof (rule readsI)
  fix w :: wire and pre suf
  assume w: "wb_data w = pre @ (a @ b) @ suf" "wb_offset w = length pre"
    "length pre + length (a @ b) + length suf < 2147483648"
  have x: "m w = Some (Inr (x, w\<lparr>wb_offset := length pre + length a\<rparr>))"
    by (rule readsD [OF assms(1), of w pre "b @ suf"]) (use w in simp_all)
  have "f x (w\<lparr>wb_offset := length pre + length a\<rparr>) =
      Some (Inr (y, w\<lparr>wb_offset := length pre + length a\<rparr>\<lparr>wb_offset := length (pre @ a) + length b\<rparr>))"
    by (rule readsD [OF assms(2), of _ _ suf]) (use w in simp_all)
  then show "rbind m f w = Some (Inr (y, w\<lparr>wb_offset := length pre + length (a @ b)\<rparr>))"
    by (simp add: add.assoc rbind_ok [where m = m, OF x])
qed

lemma reads_leaving: "reads m bs x \<Longrightarrow> reads (leaving s m) bs x"
  unfolding reads_def leaving_def by fastforce

lemma reads_value_only: "reads m bs x \<Longrightarrow> reads (value_only m) bs x"
  unfolding reads_def value_only_def by fastforce

lemma reads_part_of: "reads m bs x \<Longrightarrow> g x = y \<Longrightarrow> reads (part_of h g m) bs y"
  unfolding reads_def part_of_def by fastforce

lemma reads_then: "reads m bs x \<Longrightarrow> f x = rret y \<Longrightarrow> reads (rbind m f) bs y"
  using reads_rbind [of m bs x f "[]" y] by (simp add: reads_rret)

subsection \<open>The contract of a field value\<close>

text \<open>
  What units rely on, whichever the type of the value: storing appends the encoding of the value and
  loading finds the value again, wherever the encoding is in the buffer and whatever follows it.
\<close>

locale value_codec =
  fixes store :: "'v \<Rightarrow> writing" and load :: "('e, 'v) run" and enc :: "'v \<Rightarrow> byte list"
    and fits :: "'v \<Rightarrow> bool"
  assumes store_writes: "fits v \<Longrightarrow> writes (store v) (enc v)"
    and load_reads: "fits v \<Longrightarrow> reads load (enc v) v"
begin

lemma store_load:
  assumes "fits v" and "wb_size w = length (wb_data w)"
    and "length (wb_data w) + length (enc v) + length suf < 2147483648"
  obtains w' where "store v w = Inr w'" and "wb_data w' = wb_data w @ enc v"
    and "load (\<lparr>wb_data = wb_data w' @ suf, wb_size = length (wb_data w' @ suf),
                wb_offset = length (wb_data w)\<rparr>)
       = Some (Inr (v, \<lparr>wb_data = wb_data w' @ suf, wb_size = length (wb_data w' @ suf),
                        wb_offset = length (wb_data w')\<rparr>))"
proof -
  let ?w = "w\<lparr>wb_data := wb_data w @ enc v, wb_size := wb_size w + length (enc v)\<rparr>"
  have "store v w = Inr ?w" by (rule writesD [OF store_writes [OF assms(1)]]) (use assms in simp_all)
  moreover let ?r = "\<lparr>wb_data = wb_data w @ enc v @ suf,
     wb_size = length (wb_data w @ enc v @ suf), wb_offset = length (wb_data w)\<rparr>"
  have "load ?r = Some (Inr (v, ?r\<lparr>wb_offset := length (wb_data w) + length (enc v)\<rparr>))"
    by (rule readsD [OF load_reads [OF assms(1)], of ?r "wb_data w" suf]) (use assms in auto)
  ultimately show ?thesis using that [of ?w] by simp
qed

lemma enc_determines:
  assumes "fits v" and "fits v'" and "enc v = enc v'" and "length (enc v) < 2147483648"
  shows "v = v'"
proof -
  have w: "wb_data (wire_of (enc v)) = [] @ enc v @ []" "wb_offset (wire_of (enc v)) = length []"
    "length (wb_data (wire_of (enc v))) < 2147483648"
    using assms(4) by (simp_all add: wire_of_def)
  show ?thesis
    using load_reads [OF assms(1), THEN readsD, OF w]
      load_reads [OF assms(2), THEN readsD, OF w [unfolded assms(3)]]
    unfolding assms(3) by (simp only: option.inject sum.inject prod.inject)
qed

end

lemma VariableSer_writes:
  "varint_fits t v \<Longrightarrow> N \<le> 4294967296 \<Longrightarrow> writes_to N (VariableSer_serialize t v) (varint_enc t v)"
  by (simp add: writes_to_def VariableSer_serialize_def stream_roundtrip incSize_def nat_add_distrib)

lemma VariableSer_reads:
  assumes "varint_fits t v"
  shows "reads (VariableSer_deserialize t f) (varint_enc t v) v"
proof (rule readsI)
  fix w :: wire and pre suf
  assume w: "wb_data w = pre @ varint_enc t v @ suf" "wb_offset w = length pre"
    "length pre + length (varint_enc t v) + length suf < 2147483648"
  have "stream_unpack t (varint_enc t v @ suf) (length (varint_enc t v @ suf)) f =
      Some (int (length (varint_enc t v)), v)"
    using stream_roundtrip [OF assms, of "[]" "length (varint_enc t v @ suf)" suf f] w(3) by simp
  then show "VariableSer_deserialize t f w =
      Some (Inr (v, w\<lparr>wb_offset := length pre + length (varint_enc t v)\<rparr>))"
    using w by (simp add: VariableSer_deserialize_def Let_def incCurrentOffset_def nat_add_distrib)
qed

interpretation varint_ser: value_codec
  "VariableSer_serialize t" "VariableSer_deserialize t f" "varint_enc t" "varint_fits t" for t f
  by unfold_locales (rule VariableSer_writes, assumption, simp, rule VariableSer_reads, assumption)

text \<open>Fixed sizes: the value modulo the size, least significant byte first.\<close>

definition fixed_enc :: "fixed_type \<Rightarrow> int \<Rightarrow> byte list" where
  "fixed_enc t v = le_bytes (fixed_size t) (nat (v mod 256 ^ fixed_size t))"

definition fixed_fits :: "fixed_type \<Rightarrow> int \<Rightarrow> bool" where
  "fixed_fits t v = in_range (fixed_signed t) (8 * fixed_size t) v"

lemma length_fixed_enc [simp]: "length (fixed_enc t v) = fixed_size t"
  by (simp add: fixed_enc_def)

lemma neg_mod: "- m \<le> v \<Longrightarrow> v < 0 \<Longrightarrow> v mod m = v + m" for v m :: int
  using mod_pos_pos_trivial [of "v + m" m] by simp

lemma fixed_value_enc:
  assumes "fixed_fits t v"
  shows "fixed_value t (fixed_enc t v) = v"
proof -
  have m: "nat (v mod 256 ^ fixed_size t) < 256 ^ fixed_size t"
    by (cases t) (simp_all add: nat_less_iff)
  have n: "int (le_nat (fixed_enc t v)) = v mod 256 ^ fixed_size t"
    unfolding fixed_enc_def le_nat_bytes_less [OF m] by simp
  have "v mod 256 ^ fixed_size t = (if v < 0 then v + 256 ^ fixed_size t else v)"
    using assms by (cases t) (simp_all add: fixed_fits_def in_range_def fixed_signed_def neg_mod)
  then show ?thesis using assms unfolding fixed_value_def Let_def n
    by (cases t) (simp_all add: fixed_fits_def in_range_def fixed_signed_def split: if_splits)
qed

lemma FixedSer_writes: "N \<le> 4294967296 \<Longrightarrow> writes_to N (FixedSer_serialize t v) (fixed_enc t v)"
  by (simp add: writes_to_def FixedSer_serialize_def Let_def incSize_def nat_add_distrib fixed_enc_def)

lemma bytes_at_here:
  "wb_data w = pre @ bs @ suf \<Longrightarrow> ptr = length pre \<Longrightarrow> n = int (length bs) \<Longrightarrow> bytes_at ptr n w = Some bs"
  by (simp add: bytes_at_def)

lemma FixedSer_reads:
  assumes "fixed_fits t v"
  shows "reads (FixedSer_deserialize t f) (fixed_enc t v) v"
proof (rule readsI)
  fix w :: wire and pre suf
  assume w: "wb_data w = pre @ fixed_enc t v @ suf" "wb_offset w = length pre"
    "length pre + length (fixed_enc t v) + length suf < 2147483648"
  have "bytes_at (wb_offset w) (int (fixed_size t)) w = Some (fixed_enc t v)"
    by (rule bytes_at_here [OF w(1,2)]) simp
  then show "FixedSer_deserialize t f w =
      Some (Inr (v, w\<lparr>wb_offset := length pre + length (fixed_enc t v)\<rparr>))"
    using w fixed_value_enc [OF assms]
    by (simp add: FixedSer_deserialize_def Let_def incCurrentOffset_def nat_add_distrib rret_def)
qed

interpretation fixed_ser: value_codec
  "FixedSer_serialize t" "FixedSer_deserialize t f" "fixed_enc t" "fixed_fits t" for t f
  by unfold_locales (rule FixedSer_writes, simp, rule FixedSer_reads, assumption)

text \<open>Lengths, tags and counts.\<close>

lemma uint32_fits: "n < 4294967296 \<Longrightarrow> varint_fits TYPE_UINT32 (int n)"
  by (simp add: varint_fits_def varint_type_defs)

lemma uint32_enc: "n < 4294967296 \<Longrightarrow> varint_enc TYPE_UINT32 (int n) = leb128 n"
  by (simp add: varint_enc_def varint_type_defs)

lemma packUint32_writes: "n < 4294967296 \<Longrightarrow> writes (packUint32 n) (leb128 n)"
  using VariableSer_writes [OF uint32_fits] by (simp add: packUint32_def uint32_enc)

lemma unpackUint32_groups:
  assumes "groups_ok bs" and "groups_nat bs < 4294967296" and "length bs \<le> 10"
  shows "reads unpackUint32 bs (groups_nat bs)"
proof -
  have "reads (VariableSer_deserialize TYPE_UINT32 0) bs (int (groups_nat bs))"
  proof (rule readsI)
    fix w :: wire and pre suf
    assume w: "wb_data w = pre @ bs @ suf" "wb_offset w = length pre"
      "length pre + length bs + length suf < 2147483648"
    have "unpackVarInt64 (bs @ suf) (length (bs @ suf)) =
        Some \<lparr>out_ret = int (length bs), out_value = word_of_nat (groups_nat bs), out_more = False,
              out_error = None\<rparr>"
      by (rule unpackVarInt64_groups) (use assms w(3) in simp_all)
    moreover have "uint (ucast (word_of_nat (groups_nat bs) :: u64) :: u32) = int (groups_nat bs)"
      using assms(2) by (simp add: unsigned_of_nat unsigned_ucast_eq take_bit_nat_eq_self
          take_bit_int_eq_self uint_nat del: unat_eq_nat_uint)
    ultimately show "VariableSer_deserialize TYPE_UINT32 0 w =
        Some (Inr (int (groups_nat bs), w\<lparr>wb_offset := length pre + length bs\<rparr>))"
      using w by (simp add: VariableSer_deserialize_def Let_def incCurrentOffset_def nat_add_distrib
          reg_unpack_def StreamUnsigned_unpackVarInt_def)
  qed
  then have "reads (value_only (VariableSer_deserialize TYPE_UINT32 0)) bs (int (groups_nat bs))"
    by (rule reads_value_only)
  then show ?thesis
    unfolding unpackUint32_def by (rule reads_then) simp
qed

lemma unpackUint32_reads: "n < 4294967296 \<Longrightarrow> reads unpackUint32 (leb128 n) n"
  using unpackUint32_groups [of "leb128 n"] leb128_groups_ok [of n] leb128_size_32 [of n] by simp

text \<open>Bytes: the length, then the bytes.\<close>

definition bytes_enc :: "byte list \<Rightarrow> byte list" where
  "bytes_enc bs = leb128 (length bs) @ bs"

definition bytes_fits :: "int \<Rightarrow> byte list \<Rightarrow> bool" where
  "bytes_fits maxSize bs = (length bs < 2147483648 \<and> (0 < maxSize \<longrightarrow> int (length bs) \<le> maxSize))"

lemma BytesSer_writes:
  assumes "length bs < 2147483648"
  shows "writes (BytesSer_serialize bs) (bytes_enc bs)"
proof -
  have "writes (if bs = [] then Inr else append_bytes bs) bs"
    using assms by (simp add: writes_nothing) (simp add: writes_to_def append_bytes_def incSize_def nat_add_distrib)
  then show ?thesis
    unfolding BytesSer_serialize_def bytes_enc_def
    by (intro writes_wbind packUint32_writes) (use assms in simp_all)
qed

lemma BytesSer_reads:
  assumes "bytes_fits maxSize bs"
  shows "reads (BytesSer_deserialize maxSize) (bytes_enc bs) bs"
proof (rule readsI)
  fix w :: wire and pre suf
  assume w: "wb_data w = pre @ bytes_enc bs @ suf" "wb_offset w = length pre"
    "length pre + length (bytes_enc bs) + length suf < 2147483648"
  let ?l = "leb128 (length bs)"
  let ?w1 = "w\<lparr>wb_offset := length pre + length ?l\<rparr>" and ?w2 = "w\<lparr>wb_offset := length pre + length (bytes_enc bs)\<rparr>"
  have n: "unpackUint32 w = Some (Inr (length bs, ?w1))"
    by (rule readsD [OF unpackUint32_reads, of _ _ _ "bs @ suf"]) (use w in \<open>simp_all add: bytes_enc_def\<close>)
  have block: "BytesSer_block maxSize w =
      Some (Inr (if bs = [] then None else Some (length (pre @ ?l), int (length bs)), ?w2))"
    using w assms
    by (auto simp: BytesSer_block_def rbind_ok [where m = unpackUint32, OF n] bytes_fits_def bytes_enc_def Let_def
        incCurrentOffset_def nat_add_distrib rret_def add.assoc u64_id)
  have "bytes_at (length (pre @ ?l)) (int (length bs)) ?w2 = Some bs"
    by (rule bytes_at_here [of _ "pre @ ?l" _ suf]) (use w(1) in \<open>simp_all add: bytes_enc_def\<close>)
  moreover have "leaving [] (BytesSer_block maxSize) w =
      Some (Inr (if bs = [] then None else Some (length (pre @ ?l), int (length bs)), ?w2))"
    by (simp only: leaving_def block option.case sum.case)
  ultimately show "BytesSer_deserialize maxSize w = Some (Inr (bs, ?w2))"
    unfolding BytesSer_deserialize_def
    by (subst rbind_ok [where m = "leaving [] (BytesSer_block maxSize)"]) (auto simp: rret_def)
qed

interpretation bytes_ser: value_codec
  "BytesSer_serialize" "BytesSer_deserialize maxSize" bytes_enc "bytes_fits maxSize" for maxSize
  by unfold_locales (rule BytesSer_writes, simp add: bytes_fits_def, rule BytesSer_reads, assumption)

subsection \<open>Subunits: a padded size, then the fields\<close>

lemma padded_zeros:
  "groups_ok (replicate k 0x80 @ [0]) \<and> groups_nat (replicate k 0x80 @ [0]) = 0"
  by (induction k) auto

lemma pad_groups:
  assumes "groups_ok bs" and "length bs \<le> Suc k"
  defines "t \<equiv> bs @ replicate (Suc k - length bs) 0"
  shows "groups_ok (map (\<lambda>b. b OR 0x80) (take k t) @ drop k t)
    \<and> groups_nat (map (\<lambda>b. b OR 0x80) (take k t) @ drop k t) = groups_nat bs"
  using assms(1,2) unfolding t_def
proof (induction bs arbitrary: k)
  case (Cons b bs)
  have b: "128 \<le> unat (b OR 0x80)" "unat (b OR 0x80) mod 128 = unat b mod 128"
    by (simp_all add: word_nat del: unsigned_or_eq)
  show ?case
  proof (cases k)
    case 0
    then show ?thesis using Cons.prems by (cases bs) auto
  next
    case (Suc j)
    show ?thesis
    proof (cases "bs = []")
      case True
      then show ?thesis using Suc b padded_zeros [of j]
        by (simp flip: replicate_append_same)
    next
      case False
      then show ?thesis using Cons.IH [of j] Cons.prems Suc b by (simp del: unsigned_or_eq)
    qed
  qed
qed simp

lemma unit_size_groups:
  assumes "n < 4294967296"
  shows "groups_ok (unit_size_bytes n) \<and> groups_nat (unit_size_bytes n) = n \<and> length (unit_size_bytes n) = 5"
proof -
  have "unat (of_nat n :: u32) = n" using assms by (simp add: unsigned_of_nat take_bit_nat_eq_self)
  then have "packVarInt32_raw (replicate 5 0) (of_nat n) =
      leb128 n @ replicate (Suc 4 - length (leb128 n)) 0"
    by (simp only: packVarInt32_raw_def Let_def packVarInt32_bytes_leb128 drop_replicate) simp
  moreover define t where "t = leb128 n @ replicate (Suc 4 - length (leb128 n)) 0"
  moreover have "length t = 5" using leb128_size_32 [of n] assms by (simp add: t_def)
  moreover have "groups_ok (map (\<lambda>b. b OR 0x80) (take 4 t) @ drop 4 t)
      \<and> groups_nat (map (\<lambda>b. b OR 0x80) (take 4 t) @ drop 4 t) = n"
    using pad_groups [of "leb128 n" 4] leb128_groups_ok [of n] leb128_size_32 [of n] assms
    unfolding t_def by (simp del: take_append drop_append)
  ultimately show ?thesis by (simp add: unit_size_bytes_def Let_def)
qed

definition writes_sized :: "(wire \<Rightarrow> raw_error option + int \<times> wire) \<Rightarrow> byte list \<Rightarrow> bool" where
  "writes_sized m bs \<longleftrightarrow> (\<forall>w. wb_size w = length (wb_data w) \<longrightarrow> length (wb_data w) + length bs < 2147483648 \<longrightarrow>
     m w = Inr (int (length bs), w\<lparr>wb_data := wb_data w @ bs, wb_size := wb_size w + length bs\<rparr>))"

definition reads_unit :: "('e, 'a) run \<Rightarrow> byte list \<Rightarrow> 'a \<Rightarrow> bool" where
  "reads_unit m bs x \<longleftrightarrow> (\<forall>w pre suf. wb_data w = pre @ bs @ suf \<longrightarrow> wb_offset w = length pre \<longrightarrow>
     wb_size w = length pre + length bs \<longrightarrow> length (wb_data w) < 2147483648 \<longrightarrow>
     m w = Some (Inr (x, w\<lparr>wb_offset := length pre + length bs\<rparr>)))"

lemma UnitSer_writes:
  assumes "writes_sized body bs"
  shows "writes (UnitSer_serialize (Some body)) (unit_size_bytes (length bs) @ bs)"
  unfolding writes_to_def
proof (intro allI impI)
  fix w :: wire
  assume w: "wb_size w = length (wb_data w)"
    "length (wb_data w) + length (unit_size_bytes (length bs) @ bs) < 2147483648"
  have n: "length bs < 4294967296" using w(2) by simp
  note len = unit_size_groups [OF n]
  let ?w1 = "incSize 5 (w\<lparr>wb_data := wb_data w @ replicate 5 0\<rparr>)"
  have s1: "wb_size ?w1 = length (wb_data w) + 5" "wb_data ?w1 = wb_data w @ replicate 5 0"
    using w len by (simp_all add: incSize_def nat_add_distrib)
  have "body ?w1 = Inr (int (length bs),
      ?w1\<lparr>wb_data := wb_data ?w1 @ bs, wb_size := wb_size ?w1 + length bs\<rparr>)"
    by (rule assms [unfolded writes_sized_def, rule_format]) (use w len s1 in simp_all)
  moreover have "overlay (length (wb_data w)) (unit_size_bytes (length bs)) (wb_data w @ replicate 5 0 @ bs)
      = wb_data w @ unit_size_bytes (length bs) @ bs"
    using len by (simp add: overlay_def)
  ultimately show "UnitSer_serialize (Some body) w =
      Inr (w\<lparr>wb_data := wb_data w @ unit_size_bytes (length bs) @ bs,
             wb_size := wb_size w + length (unit_size_bytes (length bs) @ bs)\<rparr>)"
    using w len s1 by (simp add: UnitSer_serialize_def Let_def incSize_def)
qed

lemma UnitSer_reads:
  assumes "reads_unit (deserialize value) bs x" and "bs = [] \<Longrightarrow> requiredSet value"
    and "length bs < 4294967296"
  shows "reads (UnitSer_deserialize requiredSet deserialize value) (unit_size_bytes (length bs) @ bs)
    (if bs = [] then value else x)"
proof (rule readsI)
  fix w :: wire and pre suf
  let ?s = "unit_size_bytes (length bs)"
  assume w: "wb_data w = pre @ (?s @ bs) @ suf" "wb_offset w = length pre"
    "length pre + length (?s @ bs) + length suf < 2147483648"
  note len = unit_size_groups [OF assms(3)]
  let ?w1 = "w\<lparr>wb_offset := length pre + length ?s\<rparr>"
  have "reads (leaving value unpackUint32) ?s (length bs)"
    using unpackUint32_groups [of ?s] len assms(3) by (intro reads_leaving) simp
  then have n: "leaving value unpackUint32 w = Some (Inr (length bs, ?w1))"
    by (rule readsD [of _ _ _ _ _ "bs @ suf"]) (use w in simp_all)
  have "deserialize value (wb_setSize (length (pre @ ?s) + length bs) ?w1) =
      Some (Inr (x, wb_setSize (length (pre @ ?s) + length bs) ?w1\<lparr>wb_offset := length (pre @ ?s) + length bs\<rparr>))"
    by (rule assms(1) [unfolded reads_unit_def, rule_format, of _ _ suf]) (use w in \<open>simp_all add: wb_setSize_def\<close>)
  then show "UnitSer_deserialize requiredSet deserialize value w =
      Some (Inr (if bs = [] then value else x, w\<lparr>wb_offset := length pre + length (?s @ bs)\<rparr>))"
    using w len assms(2)
    by (simp add: UnitSer_deserialize_def rbind_ok [where m = "leaving value unpackUint32", OF n] rret_def Let_def
        wb_setSize_def add.assoc)
qed

end
