(* ===== verification/DataUnit.thy ===== *)
theory DataUnit
  imports WireBuf
begin

section \<open>Data units: dataunit/visitors.h and fields/{scalar,bytes,subunit,repeated}.h\<close>

text \<open>
  A unit is described by its list of fields, each with its number, kind and repetition, as the macros of
  \<open>syntax.h\<close> declare them; its state is the list of the fields with the flag \<open>m_clean\<close>. The functions
  generated for a unit type recurse over the description: parsing goes through the table that
  \<open>fieldParsers\<close> builds. Only the first raw error is kept. A parser that fails leaves the unit partly filled and the
  buffer wherever it has come to, and what the source then resets is reset in the model.
  Subunits have value semantics. Not modelled: data kept serialized (\<open>wireDataKeeper\<close>, skipped
  subunits), shared byte arrays, filters, maps, fields of dates and object identifiers, JSON.
\<close>

subsection \<open>Fields and descriptions\<close>

text \<open>The value of a field and the field itself: \<open>m_set\<close>, \<open>m_noSerialize\<close>, and \<open>m_value\<close> or the vector of a
  repeated field, whose elements are fields in the case of subunits and otherwise use only the value.
  A subunit without a value is \<open>NoUnit\<close>, one with a value has its \<open>m_clean\<close> and its fields.\<close>

datatype fval = Num int | Bytes "byte list" | NoUnit | UnitV bool "field list"
and field = Field (f_set: bool) (f_noser: bool) (f_value: fval)
  | Repeated (f_set: bool) (f_noser: bool) (f_elems: "field list")

type_synonym unit_state = "bool \<times> field list"

datatype field_shape = Single | Counted | ProtobufPacked | ProtobufUnpacked

datatype kind = ScalarK varint_type | FixedK fixed_type | BytesK int | UnitK "desc list"
and desc = Desc (d_id: nat) (d_required: bool) (d_default: "fval option") (d_shape: field_shape) (d_kind: kind)

lemma size_kind_of_desc [termination_simp]:
  assumes "d \<in> set ds"
  shows "size (d_kind d) < Suc (size_list size ds)"
proof -
  have "size (d_kind d) \<le> size d" by (cases d) simp
  also have "\<dots> \<le> size_list size ds" using size_list_estimation' [OF assms order_refl] .
  finally show ?thesis by simp
qed

definition field_num :: "field \<Rightarrow> int" where
  "field_num f = (case f of Field s n (Num v) \<Rightarrow> v | _ \<Rightarrow> 0)"

definition field_bytes :: "field \<Rightarrow> byte list" where
  "field_bytes f = (case f of Field s n (Bytes bs) \<Rightarrow> bs | _ \<Rightarrow> [])"

definition put_value :: "fval \<Rightarrow> field \<Rightarrow> field" where
  "put_value v f = Field (f_set f) (f_noser f) v"

definition mark_set :: "bool \<Rightarrow> field \<Rightarrow> field" where
  "mark_set b f = (case f of Field s n v \<Rightarrow> Field b n v | Repeated s n es \<Rightarrow> Repeated b n es)"

text \<open>\<open>DefaultV::value()\<close>, and what a constructor leaves.\<close>

definition default_value :: "desc \<Rightarrow> fval" where
  "default_value d =
     (case d_default d of
        Some v \<Rightarrow> v
      | None \<Rightarrow> (case d_kind d of BytesK m \<Rightarrow> Bytes [] | UnitK ds \<Rightarrow> NoUnit | _ \<Rightarrow> Num 0))"

definition fresh_field :: "desc \<Rightarrow> field" where
  "fresh_field d =
     (if d_shape d = Single then Field False False (default_value d) else Repeated False False [])"

definition fresh_unit :: "desc list \<Rightarrow> unit_state" where
  "fresh_unit ds = (True, map fresh_field ds)"

text \<open>\<open>fieldClear\<close>: scalars become zero whatever their default, subunits clear their fields and stay as
  clean or unclean as they are, and only subunits are no longer set.\<close>

fun clear_value :: "fval \<Rightarrow> fval" and clear_field :: "field \<Rightarrow> field" where
  "clear_value (Num v) = Num 0"
| "clear_value (Bytes bs) = Bytes []"
| "clear_value NoUnit = NoUnit"
| "clear_value (UnitV clean fs) = UnitV clean (map clear_field fs)"
| "clear_field (Field s n v) =
     Field (case v of Num _ \<Rightarrow> s | Bytes _ \<Rightarrow> s | _ \<Rightarrow> False) n (clear_value v)"
| "clear_field (Repeated s n es) = Repeated s n []"

definition reset_field :: "desc \<Rightarrow> field \<Rightarrow> field" where
  "reset_field d f =
     (case fresh_field d of Field s n v \<Rightarrow> Field False (f_noser f) v
                          | Repeated s n es \<Rightarrow> Repeated False (f_noser f) es)"

definition io_reset :: "desc list \<Rightarrow> bool \<Rightarrow> unit_state \<Rightarrow> unit_state" where
  "io_reset ds onlyNonClean u =
     (True, if \<not> onlyNonClean \<or> \<not> fst u then map2 reset_field ds (snd u) else snd u)"

definition io_clear :: "unit_state \<Rightarrow> unit_state" where
  "io_clear u = (fst u, map clear_field (snd u))"

text \<open>\<open>checkRequiredFields\<close> finds no field.\<close>

definition required_set :: "desc list \<Rightarrow> field list \<Rightarrow> bool" where
  "required_set ds fs = list_all2 (\<lambda>d f. d_required d \<longrightarrow> f_set f) ds fs"

subsection \<open>Tags\<close>

datatype wire_type = VarInt | Fixed64 | WithLength | Fixed32

fun wire_number :: "wire_type \<Rightarrow> nat" where
  "wire_number VarInt = 0"
| "wire_number Fixed64 = 1"
| "wire_number WithLength = 2"
| "wire_number Fixed32 = 5"

fun kind_wire_type :: "kind \<Rightarrow> wire_type" where
  "kind_wire_type (ScalarK t) = VarInt"
| "kind_wire_type (FixedK t) = (if fixed_size t = 4 then Fixed32 else Fixed64)"
| "kind_wire_type (BytesK m) = WithLength"
| "kind_wire_type (UnitK ds) = WithLength"

definition fieldWireType :: "desc \<Rightarrow> wire_type" where
  "fieldWireType d =
     (if d_shape d \<in> {Counted, ProtobufPacked} then WithLength else kind_wire_type (d_kind d))"

definition field_tag :: "nat \<Rightarrow> wire_type \<Rightarrow> nat" where
  "field_tag fieldId t = push_bit 3 fieldId OR wire_number t"

definition appendFieldTag :: "nat \<Rightarrow> wire_type \<Rightarrow> writing" where
  "appendFieldTag fieldId t = packUint32 (field_tag fieldId t)"

subsection \<open>Serialization of a unit\<close>

fun ser_elems :: "(field \<Rightarrow> writing) \<Rightarrow> field list \<Rightarrow> writing" where
  "ser_elems sv [] = Inr"
| "ser_elems sv (e # es) = wbind (sv e) (ser_elems sv es)"

definition ser_counted :: "(field \<Rightarrow> writing) \<Rightarrow> field list \<Rightarrow> writing" where
  "ser_counted sv es = wbind (packUint32 (length es)) (ser_elems sv es)"

text \<open>\<open>RepeatedFieldProtoBufPackedTmpl::serialize\<close>: five bytes are reserved, the length is packed over as
  many of them as are not zero, and the data move down over the rest.\<close>

definition ser_packed :: "(field \<Rightarrow> writing) \<Rightarrow> field list \<Rightarrow> writing" where
  "ser_packed sv es w =
     (let headerCursor = length (wb_data w);
          prevSize = wb_size w;
          w1 = incSize 5 (w\<lparr>wb_data := wb_data w @ replicate 5 0\<rparr>)
      in case ser_elems sv es w1 of
           Inl e \<Rightarrow> Inl e
         | Inr w2 \<Rightarrow>
             (let len = sub64 (sub64 (wb_size w2) prevSize) 5;
                  header = packVarInt32_raw (replicate 5 0) (of_nat len);
                  headerSize = length (takeWhile (\<lambda>b. b \<noteq> 0) header);
                  data1 = overlay headerCursor (take headerSize header) (wb_data w2);
                  paddingSize = 5 - headerSize
              in if paddingSize > 0
                 then let data2 = overlay (headerCursor + headerSize) (take len (drop (headerCursor + 5) data1)) data1
                      in Inr (incSize (- int paddingSize)
                                (w2\<lparr>wb_data := take (length data2 - paddingSize) data2\<rparr>))
                 else Inr (w2\<lparr>wb_data := data1\<rparr>)))"

fun ser_unpacked :: "nat \<Rightarrow> wire_type \<Rightarrow> (field \<Rightarrow> writing) \<Rightarrow> field list \<Rightarrow> writing" where
  "ser_unpacked fieldId t sv [] = Inr"
| "ser_unpacked fieldId t sv (e # es) =
     wbind (appendFieldTag fieldId t) (wbind (sv e) (ser_unpacked fieldId t sv es))"

definition ser_field :: "desc \<Rightarrow> (field \<Rightarrow> writing) \<Rightarrow> field \<Rightarrow> writing" where
  "ser_field d sv f =
     (case d_shape d of
        Single \<Rightarrow> sv f
      | Counted \<Rightarrow> ser_counted sv (f_elems f)
      | ProtobufPacked \<Rightarrow> ser_packed sv (f_elems f)
      | ProtobufUnpacked \<Rightarrow> ser_unpacked (d_id d) (kind_wire_type (d_kind d)) sv (f_elems f))"

definition or_raise_w :: "raw_error \<Rightarrow> writing \<Rightarrow> writing" where
  "or_raise_w e m w = (case m w of Inl e' \<Rightarrow> Inl (or_raise e e') | r \<Rightarrow> r)"

text \<open>The handler of \<open>visitors::serialize\<close> for one field, and the iteration over the fields.\<close>

definition ser_handler :: "desc \<Rightarrow> (field \<Rightarrow> writing) \<Rightarrow> field \<Rightarrow> writing" where
  "ser_handler d sv f =
     (if f_noser f then Inr
      else if \<not> f_set f then (if d_required d then (\<lambda>w. Inl (Some REQUIRED_FIELD_MISSING)) else Inr)
      else wbind (if d_shape d = ProtobufUnpacked then Inr else appendFieldTag (d_id d) (fieldWireType d))
                 (or_raise_w FIELD_SERIALIZING_FAILED (ser_field d sv f)))"

fun ser_each :: "(field \<Rightarrow> writing) list \<Rightarrow> field list \<Rightarrow> writing" where
  "ser_each (h # hs) (f # fs) = wbind (h f) (ser_each hs fs)"
| "ser_each _ _ = Inr"

definition io_serialize_with :: "(field \<Rightarrow> writing) list \<Rightarrow> field list \<Rightarrow> wire \<Rightarrow> raw_error option + int \<times> wire" where
  "io_serialize_with handlers fs w =
     (case ser_each handlers fs w of
        Inl e \<Rightarrow> Inl e
      | Inr w' \<Rightarrow> Inr (s32 (int (sub64 (wb_size w') (wb_size w))), w'))"

fun ser_value :: "kind \<Rightarrow> field \<Rightarrow> writing" where
  "ser_value (ScalarK t) = (\<lambda>f. VariableSer_serialize t (field_num f))"
| "ser_value (FixedK t) = (\<lambda>f. FixedSer_serialize t (field_num f))"
| "ser_value (BytesK m) = (\<lambda>f. BytesSer_serialize (field_bytes f))"
| "ser_value (UnitK ds) = (\<lambda>f.
     if \<not> f_set f then Inr
     else UnitSer_serialize
       (case f of
          Field s n (UnitV clean fs) \<Rightarrow>
            Some (io_serialize_with (map (\<lambda>d. ser_handler d (ser_value (d_kind d))) ds) fs)
        | _ \<Rightarrow> None))"

definition io_serialize :: "desc list \<Rightarrow> field list \<Rightarrow> wire \<Rightarrow> raw_error option + int \<times> wire" where
  "io_serialize ds = io_serialize_with (map (\<lambda>d. ser_handler d (ser_value (d_kind d))) ds)"

text \<open>\<open>serialize(obj,wired)\<close> on the top level, and \<open>serializeToBuf\<close>, which resizes the target only when it
  is too short and returns the size.\<close>

definition unit_serialize :: "desc list \<Rightarrow> field list \<Rightarrow> wire \<Rightarrow> raw_error option + int \<times> wire" where
  "unit_serialize ds fs w = io_serialize ds fs (wb_clear w)"

definition serializeToBuf :: "desc list \<Rightarrow> field list \<Rightarrow> byte list \<Rightarrow> nat \<Rightarrow> raw_error option + int \<times> byte list" where
  "serializeToBuf ds fs buf offset =
     (case unit_serialize ds fs (wire_of []) of
        Inl e \<Rightarrow> Inl e
      | Inr (n, w) \<Rightarrow>
          (let minSize = offset + length (wb_data w);
               buf' = (if length buf < minSize then buf @ replicate (minSize - length buf) 0 else buf)
           in Inr (s32 (int (length (wb_data w))), overlay offset (wb_data w) buf')))"

subsection \<open>Parsing of a unit\<close>

definition fresh_elem :: "desc \<Rightarrow> field" where
  "fresh_elem d =
     Field False False (case d_kind d of UnitK ds \<Rightarrow> (case fresh_unit ds of (c, fs) \<Rightarrow> UnitV c fs)
                        | _ \<Rightarrow> default_value d)"

text \<open>\<open>mutableValue()\<close> of a subunit creates its value and marks it set.\<close>

definition mutable_unit :: "desc list \<Rightarrow> field \<Rightarrow> field" where
  "mutable_unit ds f =
     (case f of
        Field s n (UnitV c fs) \<Rightarrow> Field True n (UnitV c fs)
      | _ \<Rightarrow> Field True (f_noser f) (UnitV (fst (fresh_unit ds)) (snd (fresh_unit ds))))"

definition field_unit :: "field \<Rightarrow> unit_state" where
  "field_unit f = (case f of Field s n (UnitV c fs) \<Rightarrow> (c, fs) | _ \<Rightarrow> (True, []))"

text \<open>The member \<open>deserialize\<close> of a single field, which is marked by the result. A subunit is created, cleared
  and only then parsed.\<close>

definition parse_single :: "desc \<Rightarrow> (field \<Rightarrow> field parsing) \<Rightarrow> field \<Rightarrow> field parsing" where
  "parse_single d pv f =
     part_of (mark_set False) (mark_set True)
       (pv (case d_kind d of UnitK ds \<Rightarrow> clear_field (mutable_unit ds f) | _ \<Rightarrow> f))"

text \<open>Repeated fields. With a count the elements are there before they are parsed, where \<open>resize\<close> makes zeros of
  scalars whatever their default; otherwise each is appended and then parsed. Appending marks the field as set.\<close>

definition resized_elem :: "desc \<Rightarrow> field" where
  "resized_elem d =
     (if kind_wire_type (d_kind d) = WithLength then fresh_elem d else Field False False (Num 0))"

fun parse_elems :: "(field \<Rightarrow> field parsing) \<Rightarrow> field list \<Rightarrow> field list parsing" where
  "parse_elems pv [] = rret []"
| "parse_elems pv (e # es) =
     rbind (part_of (\<lambda>e'. e' # es) (\<lambda>e'. e') (pv e))
       (\<lambda>e'. part_of (\<lambda>es'. e' # es') (\<lambda>es'. e' # es') (parse_elems pv es))"

definition parse_counted :: "desc \<Rightarrow> (field \<Rightarrow> field parsing) \<Rightarrow> field \<Rightarrow> field parsing" where
  "parse_counted d pv f = rbind (leaving (clear_field f) unpackUint32) (\<lambda>count w.
     if wb_offset w > length (wb_data w) then leaving (clear_field f) (rfail END_OF_STREAM) w
     else if count > length (wb_data w) - wb_offset w then leaving (clear_field f) (rfail END_OF_STREAM) w
     else part_of (Repeated True (f_noser f)) (Repeated True (f_noser f))
            (parse_elems pv (replicate count (resized_elem d))) w)"

definition parse_packed :: "desc \<Rightarrow> (field \<Rightarrow> field parsing) \<Rightarrow> field \<Rightarrow> field parsing" where
  "parse_packed d pv f = rbind (leaving (clear_field f) unpackUint32) (\<lambda>len w.
     if sub64 (length (wb_data w)) (wb_offset w) < len then Some (Inl (None, w, clear_field f))
     else let lastOffset = w64 (wb_offset w + len)
          in part_of (Repeated True (f_noser f)) (Repeated True (f_noser f))
               (read_loop (\<lambda>_ w. wb_offset w < lastOffset)
                  (\<lambda>es. part_of (\<lambda>e. es @ [e]) (\<lambda>e. es @ [e]) (pv (fresh_elem d))) []) w)"

definition parse_unpacked :: "desc \<Rightarrow> (field \<Rightarrow> field parsing) \<Rightarrow> field \<Rightarrow> field parsing" where
  "parse_unpacked d pv f =
     part_of (\<lambda>e. Repeated True (f_noser f) (f_elems f @ [e])) (\<lambda>e. Repeated True (f_noser f) (f_elems f @ [e]))
       (pv (fresh_elem d))"

definition parse_field :: "desc \<Rightarrow> (field \<Rightarrow> field parsing) \<Rightarrow> field \<Rightarrow> field parsing" where
  "parse_field d pv =
     (case d_shape d of
        Single \<Rightarrow> parse_single d pv
      | Counted \<Rightarrow> parse_counted d pv
      | ProtobufPacked \<Rightarrow> parse_packed d pv
      | ProtobufUnpacked \<Rightarrow> parse_unpacked d pv)"

text \<open>\<open>FieldParser\<close> and the look-up by field number; a later field replaces an earlier one of the same number.\<close>

record field_parser =
  fp_id :: nat
  fp_wireType :: wire_type
  fp_fn :: "field \<Rightarrow> field parsing"

definition fieldParser :: "field_parser list \<Rightarrow> nat \<Rightarrow> nat option" where
  "fieldParser ps fieldId = List.find (\<lambda>i. fp_id (ps ! i) = fieldId) (rev [0..<length ps])"

text \<open>The branch for numbers that the unit does not have. The value goes into 32 bits, with the shifts
  of up to ten bytes, and a length is an \<open>int\<close> to the offset.\<close>

definition skip_fixed :: "nat \<Rightarrow> unit reading" where
  "skip_fixed n w =
     (let w' = incCurrentOffset (int n) w
      in if length (wb_data w') < wb_offset w' then rfail END_OF_STREAM w' else rret () w')"

definition skip_varint :: "bool \<Rightarrow> unit reading" where
  "skip_varint withLength w =
     (case unpack_loop (drop (wb_offset w) (wb_data w)) (sub64 (length (wb_data w)) (wb_offset w)) 56
             (unpack_init :: u32 unpack_state) of
        None \<Rightarrow> None
      | Some st \<Rightarrow>
          if ust_overflow st then rfail END_OF_STREAM w
          else if ust_more st then rfail UNTERMINATED_VARINT w
          else let w' = incCurrentOffset (int (ust_processed st)) w
               in if \<not> withLength then rret () w'
                  else if ust_shift st > 28 then rfail INVALID_BLOCK_LENGTH w'
                  else let w'' = incCurrentOffset (s32 (uint (ust_result st))) w'
                       in if length (wb_data w'') < wb_offset w'' then rfail END_OF_STREAM w''
                          else rret () w'')"

definition skip_unknown :: "nat \<Rightarrow> unit reading" where
  "skip_unknown fieldType =
     (if fieldType = wire_number WithLength then skip_varint True
      else if fieldType = wire_number VarInt then skip_varint False
      else if fieldType = wire_number Fixed32 then skip_fixed 4
      else if fieldType = wire_number Fixed64 then skip_fixed 8
      else rfail UNKNOWN_FIELD_TYPE)"

definition raise_r :: "raw_error \<Rightarrow> (raw_error option \<times> 'e, 'a) run \<Rightarrow> (raw_error option \<times> 'e, 'a) run" where
  "raise_r e m w = (case m w of Some (Inl (e', s)) \<Rightarrow> Some (Inl (or_raise e e', s)) | r \<Rightarrow> r)"

text \<open>A field behind its tag, and one turn of the loop of \<open>visitors::deserialize\<close>. The offset moves behind the tag
  once the tag is known not to be zero.\<close>

definition deserialize_field :: "field_parser list \<Rightarrow> field list \<Rightarrow> nat \<Rightarrow> nat \<Rightarrow> field list parsing" where
  "deserialize_field ps fs fieldId fieldType =
     (case fieldParser ps fieldId of
        Some i \<Rightarrow>
          if wire_number (fp_wireType (ps ! i)) \<noteq> fieldType then leaving fs (rfail FIELD_TYPE_MISMATCH)
          else raise_r FIELD_PARSING_FAILED
                 (part_of (\<lambda>f. fs[i := f]) (\<lambda>f. fs[i := f]) (fp_fn (ps ! i) (fs ! i)))
      | None \<Rightarrow> rbind (leaving fs (skip_unknown fieldType)) (\<lambda>_. rret fs))"

definition deserialize_step :: "field_parser list \<Rightarrow> field list \<Rightarrow> field list parsing" where
  "deserialize_step ps fs w =
     (if length (wb_data w) \<le> wb_offset w then None
      else rbind (leaving fs (raise_r END_OF_STREAM unpackUint32))
             (\<lambda>tag w'. if tag = 0 then leaving fs (rfail INVALID_TAG) w
                       else deserialize_field ps fs (drop_bit 3 tag) (tag AND 7) w') w)"

text \<open>\<open>visitors::deserialize\<close> without the part of the top level: the unit is reset first if it is not clean, and
  \<open>cleanup\<close> resets what has been filled when a field or the check of the required ones fails.\<close>

definition io_deserialize_with ::
    "desc list \<Rightarrow> field_parser list \<Rightarrow> unit_state \<Rightarrow> unit_state parsing" where
  "io_deserialize_with ds ps u =
     part_of (\<lambda>fs. io_reset ds False (False, fs)) (\<lambda>fs. (False, fs))
       (rbind (read_loop (\<lambda>_ w. wb_offset w < wb_size w) (deserialize_step ps) (snd (io_reset ds True u)))
          (\<lambda>fs. if required_set ds fs then rret fs else leaving fs (rfail REQUIRED_FIELD_MISSING)))"

definition make_parser :: "desc \<Rightarrow> (field \<Rightarrow> field parsing) \<Rightarrow> field_parser" where
  "make_parser d pv = \<lparr>fp_id = d_id d, fp_wireType = fieldWireType d, fp_fn = parse_field d pv\<rparr>"

fun parse_value :: "kind \<Rightarrow> field \<Rightarrow> field parsing" where
  "parse_value (ScalarK t) = (\<lambda>f.
     part_of (\<lambda>v. put_value (Num v) f) (\<lambda>v. put_value (Num v) f) (VariableSer_deserialize t (field_num f)))"
| "parse_value (FixedK t) = (\<lambda>f.
     part_of (\<lambda>v. put_value (Num v) f) (\<lambda>v. put_value (Num v) f) (FixedSer_deserialize t (field_num f)))"
| "parse_value (BytesK m) = (\<lambda>f.
     part_of (\<lambda>bs. put_value (Bytes bs) f) (\<lambda>bs. put_value (Bytes bs) f) (BytesSer_deserialize m))"
| "parse_value (UnitK ds) = (\<lambda>f.
     part_of (\<lambda>u. Field True (f_noser f) (UnitV (fst u) (snd u))) (\<lambda>u. Field True (f_noser f) (UnitV (fst u) (snd u)))
       (UnitSer_deserialize (\<lambda>u. required_set ds (snd u))
          (io_deserialize_with ds (map (\<lambda>d. make_parser d (parse_value (d_kind d))) ds))
          (field_unit (mutable_unit ds f))))"

definition io_deserialize :: "desc list \<Rightarrow> unit_state \<Rightarrow> unit_state parsing" where
  "io_deserialize ds = io_deserialize_with ds (map (\<lambda>d. make_parser d (parse_value (d_kind d))) ds)"

text \<open>\<open>deserialize(obj,wired)\<close> on the top level, where the offset of the buffer is reset as well, when the call fails
  and when it succeeds.\<close>

definition unit_deserialize ::
    "desc list \<Rightarrow> unit_state \<Rightarrow> wire \<Rightarrow> ((raw_error option + unit) \<times> unit_state \<times> wire) option" where
  "unit_deserialize ds u w =
     (case io_deserialize ds u w of
        None \<Rightarrow> None
      | Some (Inl (e, w', u')) \<Rightarrow> Some (Inl e, u', wb_resetState w')
      | Some (Inr (u', w')) \<Rightarrow> Some (Inr (), u', wb_resetState w'))"

definition deserializeInline ::
    "desc list \<Rightarrow> unit_state \<Rightarrow> byte list \<Rightarrow> ((raw_error option + unit) \<times> unit_state) option" where
  "deserializeInline ds u bytes = map_option (\<lambda>(r, u', w). (r, u')) (unit_deserialize ds u (wire_of bytes))"

end
