(* ===== verification/UnitCodec.thy ===== *)
theory UnitCodec
  imports DataUnit
begin

section \<open>What a unit is on the wire\<close>

text \<open>
  The encoding of a unit as a function of its fields: a tag and a value for each field that is set, the size of
  a subunit padded to five bytes, a packed field with the length of its values and a counted one with their number.
  The serializers, which reserve, patch and move bytes in the buffer, write exactly that, and the parser
  finds the fields again.
\<close>

subsection \<open>The reference encoding\<close>

definition tag_enc :: "desc \<Rightarrow> wire_type \<Rightarrow> byte list" where
  "tag_enc d t = leb128 (8 * d_id d + wire_number t)"

definition enc_member :: "desc \<Rightarrow> (field \<Rightarrow> byte list) \<Rightarrow> field \<Rightarrow> byte list" where
  "enc_member d ev f =
     (case d_shape d of
        Single \<Rightarrow> tag_enc d (fieldWireType d) @ ev f
      | Counted \<Rightarrow> tag_enc d WithLength @ leb128 (length (f_elems f)) @ concat (map ev (f_elems f))
      | ProtobufPacked \<Rightarrow>
          (let body = concat (map ev (f_elems f)) in tag_enc d WithLength @ leb128 (length body) @ body)
      | ProtobufUnpacked \<Rightarrow> concat (map (\<lambda>e. tag_enc d (kind_wire_type (d_kind d)) @ ev e) (f_elems f)))"

definition present :: "field \<Rightarrow> bool" where
  "present f = (f_set f \<and> \<not> f_noser f)"

definition enc_field :: "desc \<Rightarrow> (field \<Rightarrow> byte list) \<Rightarrow> field \<Rightarrow> byte list" where
  "enc_field d ev f = (if present f then enc_member d ev f else [])"

fun enc_value :: "kind \<Rightarrow> field \<Rightarrow> byte list" where
  "enc_value (ScalarK t) = (\<lambda>f. varint_enc t (field_num f))"
| "enc_value (FixedK t) = (\<lambda>f. fixed_enc t (field_num f))"
| "enc_value (BytesK m) = (\<lambda>f. bytes_enc (field_bytes f))"
| "enc_value (UnitK ds) = (\<lambda>f.
     let body = concat (map2 (\<lambda>e f. e f) (map (\<lambda>d. enc_field d (enc_value (d_kind d))) ds) (snd (field_unit f)))
     in unit_size_bytes (length body) @ body)"

definition enc_unit :: "desc list \<Rightarrow> field list \<Rightarrow> byte list" where
  "enc_unit ds fs = concat (map2 (\<lambda>d. enc_field d (enc_value (d_kind d))) ds fs)"

lemma enc_value_unit: "enc_value (UnitK ds) f =
    unit_size_bytes (length (enc_unit ds (snd (field_unit f)))) @ enc_unit ds (snd (field_unit f))"
  by (simp add: enc_unit_def Let_def map2_map_map zip_map1 comp_def split_def)

subsection \<open>Descriptions and values that can be sent\<close>

text \<open>Distinct field numbers as the protocol has them, packed repetition of scalars only, and no default for a
  subunit, for which the source has none.\<close>

fun wf_kind :: "kind \<Rightarrow> bool" where
  "wf_kind (UnitK ds) =
     (distinct (map d_id ds) \<and>
      (\<forall>d \<in> set ds. 0 < d_id d \<and> d_id d < 536870912 \<and>
        (d_shape d = ProtobufPacked \<longrightarrow> kind_wire_type (d_kind d) \<noteq> WithLength) \<and>
        (case d_kind d of UnitK ss \<Rightarrow> d_default d = None | _ \<Rightarrow> True) \<and> wf_kind (d_kind d)))"
| "wf_kind _ = True"

text \<open>Values of their types; required fields are present; a repeated field that is sent without a count is
  not empty.\<close>

definition is_Repeated :: "field \<Rightarrow> bool" where
  "is_Repeated f = (case f of Repeated s n es \<Rightarrow> True | _ \<Rightarrow> False)"

definition fits_member :: "desc \<Rightarrow> (field \<Rightarrow> bool) \<Rightarrow> field \<Rightarrow> bool" where
  "fits_member d fv f =
     (case d_shape d of
        Single \<Rightarrow> fv f
      | _ \<Rightarrow> is_Repeated f \<and> list_all fv (f_elems f) \<and> (d_shape d = Counted \<or> f_elems f \<noteq> []))"

definition fits_field :: "desc \<Rightarrow> (field \<Rightarrow> bool) \<Rightarrow> field \<Rightarrow> bool" where
  "fits_field d fv f = (if present f then fits_member d fv f else \<not> d_required d)"

fun fits_value :: "kind \<Rightarrow> field \<Rightarrow> bool" where
  "fits_value (ScalarK t) = (\<lambda>f. case f of Field s n (Num v) \<Rightarrow> varint_fits t v | _ \<Rightarrow> False)"
| "fits_value (FixedK t) = (\<lambda>f. case f of Field s n (Num v) \<Rightarrow> fixed_fits t v | _ \<Rightarrow> False)"
| "fits_value (BytesK m) = (\<lambda>f. case f of Field s n (Bytes bs) \<Rightarrow> bytes_fits m bs | _ \<Rightarrow> False)"
| "fits_value (UnitK ds) = (\<lambda>f.
     case f of
       Field s n (UnitV c fs) \<Rightarrow>
         s \<and> list_all2 (\<lambda>p f. p f) (map (\<lambda>d. fits_field d (fits_value (d_kind d))) ds) fs
     | _ \<Rightarrow> False)"

definition fits_unit :: "desc list \<Rightarrow> field list \<Rightarrow> bool" where
  "fits_unit ds fs = list_all2 (\<lambda>d. fits_field d (fits_value (d_kind d))) ds fs"

lemma fits_value_unit: "fits_value (UnitK ds) f \<longleftrightarrow>
    (\<exists>n c fs. f = Field True n (UnitV c fs) \<and> fits_unit ds fs)"
proof (cases f)
  case (Field s n v)
  then show ?thesis by (cases v) (auto simp: fits_unit_def list_all2_map1)
qed simp

subsection \<open>The serializers write the encoding\<close>

lemma field_tag_sum: "field_tag n t = 8 * n + wire_number t"
proof -
  have "wire_number t < 2 ^ 3" by (cases t) simp_all
  then have "wire_number t OR push_bit 3 n = wire_number t + n * 2 ^ 3" by (rule nat_or_disjoint)
  then show ?thesis by (simp add: field_tag_def or.commute)
qed

lemma appendFieldTag_writes:
  "d_id d < 536870912 \<Longrightarrow> writes (appendFieldTag (d_id d) t) (tag_enc d t)"
  unfolding appendFieldTag_def tag_enc_def field_tag_sum
  by (rule packUint32_writes) (cases t; simp)

lemma ser_elems_writes:
  "(\<And>e. e \<in> set es \<Longrightarrow> writes_to N (sv e) (ev e)) \<Longrightarrow> writes_to N (ser_elems sv es) (concat (map ev es))"
  by (induction es) (auto simp: writes_nothing intro: writes_wbind)

lemma leb128_no_zero: "0 < n \<Longrightarrow> 0 \<notin> set (leb128 n)"
proof (induction n rule: leb128.induct)
  case (1 n)
  show ?case
  proof (cases "n < 128")
    case True
    then have "unat (word_of_nat n :: byte) = n" by (simp add: unat_of_byte)
    then show ?thesis using "1.prems" True by (auto simp: leb128_last)
  next
    case False
    have "word_of_nat (n mod 128 + 128) \<noteq> (0 :: byte)"
      unfolding word_unat_eq_iff unat_of_byte by simp
    moreover have "0 \<notin> set (leb128 (n div 128))" using "1.IH" False by (simp add: div_greater_zero_iff)
    ultimately show ?thesis using False by (simp only: leb128_step not_less list.set insert_iff) simp
  qed
qed

lemma packed_header:
  assumes "0 < n" and "n < 4294967296"
  shows "takeWhile (\<lambda>b. b \<noteq> 0) (packVarInt32_raw (replicate 5 0) (of_nat n)) = leb128 n"
proof -
  have "unat (of_nat n :: u32) = n" using assms by (simp add: unsigned_of_nat take_bit_nat_eq_self)
  then have "packVarInt32_raw (replicate 5 0) (of_nat n) = leb128 n @ replicate (5 - length (leb128 n)) 0"
    by (simp only: packVarInt32_raw_def Let_def packVarInt32_bytes_leb128 drop_replicate)
  moreover have "takeWhile (\<lambda>b. b \<noteq> 0) (leb128 n @ replicate k 0) = leb128 n" for k
    using leb128_no_zero [OF assms(1)] by (subst takeWhile_append2) (auto simp: takeWhile_replicate)
  ultimately show ?thesis by (simp only:)
qed

lemma ser_packed_writes:
  assumes "\<And>e. e \<in> set es \<Longrightarrow> writes_to 4294967296 (sv e) (ev e)" and "concat (map ev es) \<noteq> []"
  shows "writes (ser_packed sv es) (leb128 (length (concat (map ev es))) @ concat (map ev es))"
  unfolding writes_to_def
proof (intro allI impI)
  define body where "body = concat (map ev es)"
  define h where "h = leb128 (length body)"
  fix w :: wire
  assume w: "wb_size w = length (wb_data w)"
    "length (wb_data w) + length (leb128 (length (concat (map ev es))) @ concat (map ev es)) < 2147483648"
  have len: "0 < length body" "length body < 4294967296" "length (wb_data w) + length body + length h < 2147483648"
    using w(2) assms(2) by (simp_all add: body_def h_def)
  let ?w1 = "incSize 5 (w\<lparr>wb_data := wb_data w @ replicate 5 0\<rparr>)"
  have w1: "wb_size ?w1 = length (wb_data ?w1)" "wb_data ?w1 = wb_data w @ replicate 5 0"
    using w(1) len by (simp_all add: incSize_def nat_add_distrib)
  have hl: "0 < length h" "length h \<le> 5" using leb128_size_32 [of "length body"] len by (simp_all add: h_def)
  define w2 where "w2 = ?w1\<lparr>wb_data := wb_data ?w1 @ body, wb_size := wb_size ?w1 + length body\<rparr>"
  have ser: "ser_elems sv es ?w1 = Inr w2"
    unfolding body_def w2_def by (rule writesD [OF ser_elems_writes [OF assms(1)] w1(1)])
      (use w1 len hl in \<open>simp_all add: body_def\<close>)
  have w2: "wb_size w2 = length (wb_data w) + 5 + length body"
      "wb_data w2 = wb_data w @ replicate 5 0 @ body" "wb_offset w2 = wb_offset w"
    using w1 by (simp_all add: w2_def incSize_def)
  have n: "sub64 (sub64 (wb_size w2) (wb_size w)) 5 = length body"
    using w(1) w2(1) len by simp
  define X where "X = packVarInt32_raw (replicate 5 0) (of_nat (length body) :: u32)"
  have tw: "takeWhile (\<lambda>b. b \<noteq> 0) X = h"
    unfolding h_def X_def by (rule packed_header) (use len in simp_all)
  have tk: "take (length h) X = h" using tw by (metis takeWhile_eq_take)
  have d1: "overlay (length (wb_data w)) h (wb_data w2) = wb_data w @ h @ replicate (5 - length h) 0 @ body"
    using hl by (simp add: overlay_def w2(2))
  have d2: "overlay (length (wb_data w) + length h)
      (take (length body) (drop (length (wb_data w) + 5) (wb_data w @ h @ replicate (5 - length h) 0 @ body)))
      (wb_data w @ h @ replicate (5 - length h) 0 @ body)
     = wb_data w @ h @ body @ drop (length body) (replicate (5 - length h) 0 @ body)"
    using hl by (simp add: overlay_def)
  have "ser_packed sv es w = Inr (w\<lparr>wb_data := wb_data w @ h @ body,
      wb_size := wb_size w + length (h @ body)\<rparr>)"
  proof (cases "length h = 5")
    case True
    then show ?thesis using w(1) w2(3) d1 len
      unfolding ser_packed_def Let_def ser sum.case n X_def [symmetric] tw tk by (auto simp: w2_def incSize_def)
  next
    case False
    then show ?thesis using w(1) hl len
      unfolding ser_packed_def Let_def ser sum.case n X_def [symmetric] tw tk d1 d2
      by (simp add: w2_def incSize_def)
  qed
  then show "ser_packed sv es w = Inr (w\<lparr>wb_data := wb_data w @ leb128 (length (concat (map ev es))) @ concat (map ev es),
      wb_size := wb_size w + length (leb128 (length (concat (map ev es))) @ concat (map ev es))\<rparr>)"
    by (simp only: body_def h_def)
qed

lemma writes_if_short: "(length bs < N \<Longrightarrow> writes_to N m bs) \<Longrightarrow> writes_to N m bs"
  by (cases "length bs < N") (auto simp: writes_to_def)

lemma concat_map_length: "(\<And>e. e \<in> set es \<Longrightarrow> ev e \<noteq> []) \<Longrightarrow> length es \<le> length (concat (map ev es))"
proof (induction es)
  case (Cons e es)
  have "length es \<le> length (concat (map ev es))" by (rule Cons.IH) (use Cons.prems in auto)
  then show ?case using Cons.prems by (cases "ev e") auto
qed simp

text \<open>What the fields of a description need for their tags.\<close>

definition wf_desc :: "desc \<Rightarrow> bool" where
  "wf_desc d = (0 < d_id d \<and> d_id d < 536870912 \<and>
     (d_shape d = ProtobufPacked \<longrightarrow> kind_wire_type (d_kind d) \<noteq> WithLength) \<and>
     (case d_kind d of UnitK ss \<Rightarrow> d_default d = None | _ \<Rightarrow> True) \<and> wf_kind (d_kind d))"

definition wf_unit :: "desc list \<Rightarrow> bool" where
  "wf_unit ds = (distinct (map d_id ds) \<and> (\<forall>d \<in> set ds. wf_desc d))"

lemma wf_kind_unit: "wf_kind (UnitK ds) = wf_unit ds"
  by (simp add: wf_unit_def wf_desc_def)

lemma ser_member_writes:
  assumes "wf_desc d" and "fits_member d fv f"
    and ev: "\<And>e. fv e \<Longrightarrow> ev e \<noteq> [] \<and> writes (sv e) (ev e)"
    and scalar: "\<And>e. kind_wire_type (d_kind d) \<noteq> WithLength \<Longrightarrow> fv e \<Longrightarrow> writes_to 4294967296 (sv e) (ev e)"
  shows "writes (wbind (if d_shape d = ProtobufUnpacked then Inr else appendFieldTag (d_id d) (fieldWireType d))
      (ser_field d sv f)) (enc_member d ev f)"
proof -
  have tag: "writes (appendFieldTag (d_id d) t) (tag_enc d t)" for t
    by (rule appendFieldTag_writes) (use assms(1) in \<open>simp add: wf_desc_def\<close>)
  note member = enc_member_def ser_field_def fieldWireType_def
  have es: "d_shape d \<noteq> Single \<Longrightarrow> list_all fv (f_elems f) \<and> (d_shape d = Counted \<or> f_elems f \<noteq> [])"
    using assms(2) by (auto simp: fits_member_def split: field_shape.splits)
  show ?thesis
  proof (cases "d_shape d")
    case Single
    then show ?thesis using writes_wbind [OF tag, of "sv f" "ev f"] ev [of f] assms(2)
      by (simp add: member fits_member_def)
  next
    case Counted
    have all: "e \<in> set (f_elems f) \<Longrightarrow> ev e \<noteq> [] \<and> writes (sv e) (ev e)" for e
      using es Counted ev by (auto simp: list_all_iff)
    have "writes (ser_counted sv (f_elems f)) (leb128 (length (f_elems f)) @ concat (map ev (f_elems f)))"
      unfolding ser_counted_def
    proof (rule writes_if_short, rule writes_wbind [OF packUint32_writes ser_elems_writes], goal_cases)
      case 1
      then show ?case using concat_map_length [of "f_elems f" ev] all by auto
    qed (use all in auto)
    then show ?thesis using Counted writes_wbind [OF tag, of _ _ WithLength] by (simp add: member)
  next
    case ProtobufPacked
    have all: "e \<in> set (f_elems f) \<Longrightarrow> ev e \<noteq> [] \<and> writes_to 4294967296 (sv e) (ev e)" for e
      using es ProtobufPacked ev scalar assms(1) by (auto simp: list_all_iff wf_desc_def)
    obtain e where "e \<in> set (f_elems f)" using es ProtobufPacked by (cases "f_elems f") auto
    then have "concat (map ev (f_elems f)) \<noteq> []" using all by auto
    then have "writes (ser_packed sv (f_elems f))
        (leb128 (length (concat (map ev (f_elems f)))) @ concat (map ev (f_elems f)))"
      by (intro ser_packed_writes) (use all in auto)
    then show ?thesis using ProtobufPacked writes_wbind [OF tag, of _ _ WithLength] by (simp add: member Let_def)
  next
    case ProtobufUnpacked
    have all: "list_all fv es \<Longrightarrow> writes (ser_unpacked (d_id d) t sv es) (concat (map (\<lambda>e. tag_enc d t @ ev e) es))" for es t
      by (induction es) (auto simp: writes_nothing ev intro!: writes_wbind tag)
    then show ?thesis using ProtobufUnpacked es writes_wbind [OF writes_nothing all] by (simp add: member)
  qed
qed

lemma or_raise_w_writes: "writes_to N m bs \<Longrightarrow> writes_to N (or_raise_w e m) bs"
  by (simp add: writes_to_def or_raise_w_def)

lemma wbind_or_raise_writes: "writes_to N (wbind m m') bs \<Longrightarrow> writes_to N (wbind m (or_raise_w e m')) bs"
  unfolding writes_to_def wbind_def or_raise_w_def by (fastforce split: sum.splits)

lemma ser_handler_writes:
  assumes "wf_desc d" and "fits_field d fv f"
    and "\<And>e. fv e \<Longrightarrow> ev e \<noteq> [] \<and> writes (sv e) (ev e)"
    and "\<And>e. kind_wire_type (d_kind d) \<noteq> WithLength \<Longrightarrow> fv e \<Longrightarrow> writes_to 4294967296 (sv e) (ev e)"
  shows "writes (ser_handler d sv f) (enc_field d ev f)"
proof (cases "present f")
  case True
  then show ?thesis
    using ser_member_writes [of d fv f ev sv] assms
    by (simp add: ser_handler_def enc_field_def fits_field_def present_def wbind_or_raise_writes)
next
  case False
  then show ?thesis using assms(2)
    by (simp add: ser_handler_def enc_field_def fits_field_def present_def writes_nothing)
qed

lemma ser_each_writes:
  "list_all2 (\<lambda>d f. writes (h d f) (e d f)) ds fs \<Longrightarrow> writes (ser_each (map h ds) fs) (concat (map2 e ds fs))"
  by (induction rule: list_all2_induct) (auto simp: writes_nothing intro: writes_wbind)

lemma io_serialize_with_sized:
  assumes "writes (ser_each hs fs) bs"
  shows "writes_sized (io_serialize_with hs fs) bs"
  unfolding writes_sized_def using writesD [OF assms] by (auto simp: io_serialize_with_def)

lemma scalar_writes:
  assumes "fits_value k f" and "kind_wire_type k \<noteq> WithLength"
  shows "writes_to 4294967296 (ser_value k f) (enc_value k f)"
  using assms
  by (cases k) (auto simp: field_num_def intro: VariableSer_writes FixedSer_writes split: field.splits fval.splits)

lemma leb128_not_nil [simp]: "leb128 n \<noteq> []"
  using leb128_length_pos [of n] by auto

lemma enc_value_not_nil: "fits_value k f \<Longrightarrow> enc_value k f \<noteq> []"
proof (cases k)
  case (FixedK t)
  have "0 < fixed_size t" by (cases t) simp_all
  then show ?thesis using length_fixed_enc [of t "field_num f"] FixedK by (auto simp del: length_fixed_enc)
next
  case (UnitK ds)
  have "unit_size_bytes n \<noteq> []" for n by (simp add: unit_size_bytes_def Let_def packVarInt32_raw_def packVarInt32_bytes_leb128)
  then show ?thesis using UnitK by (simp add: enc_value_unit del: enc_value.simps)
qed (simp_all add: varint_enc_def bytes_enc_def)

lemma unit_handlers_write:
  assumes "\<And>d. d \<in> set ds \<Longrightarrow> wf_desc d"
    and "\<And>d e. d \<in> set ds \<Longrightarrow> fits_value (d_kind d) e \<Longrightarrow> writes (ser_value (d_kind d) e) (enc_value (d_kind d) e)"
    and "fits_unit ds fs"
  shows "writes (ser_each (map (\<lambda>d. ser_handler d (ser_value (d_kind d))) ds) fs) (enc_unit ds fs)"
proof -
  have "writes (ser_handler d (ser_value (d_kind d)) g) (enc_field d (enc_value (d_kind d)) g)"
    if "d \<in> set ds" "fits_field d (fits_value (d_kind d)) g" for d g
    by (rule ser_handler_writes [OF assms(1) [OF that(1)] that(2)])
       (use that(1) assms(2) enc_value_not_nil scalar_writes in auto)
  then have "list_all2 (\<lambda>d g. writes (ser_handler d (ser_value (d_kind d)) g)
      (enc_field d (enc_value (d_kind d)) g)) ds fs"
    using assms(3) unfolding fits_unit_def by (auto simp: list_all2_conv_all_nth)
  from ser_each_writes [OF this] show ?thesis by (simp add: enc_unit_def)
qed

lemma ser_value_writes: "wf_kind k \<Longrightarrow> fits_value k f \<Longrightarrow> writes (ser_value k f) (enc_value k f)"
proof (induction k arbitrary: f rule: ser_value.induct)
  case (1 t)
  then show ?case by (intro writes_to_mono [OF scalar_writes]) simp_all
next
  case (2 t)
  then show ?case by (intro writes_to_mono [OF scalar_writes]) simp_all
next
  case (3 m)
  then show ?case by (auto simp: field_bytes_def bytes_fits_def intro: BytesSer_writes split: field.splits fval.splits)
next
  case (4 ds)
  obtain n c fs where f: "f = Field True n (UnitV c fs)" "fits_unit ds fs"
    using "4.prems"(2) unfolding fits_value_unit by blast
  have wf: "wf_desc d" "wf_kind (d_kind d)" if "d \<in> set ds" for d
    using "4.prems"(1) that unfolding wf_kind_unit wf_unit_def by (auto simp: wf_desc_def)
  from UnitSer_writes [OF io_serialize_with_sized [OF unit_handlers_write [OF wf(1) "4.IH" f(2)]]] wf(2)
  show ?case using f(1) by (simp add: enc_value_unit field_unit_def del: enc_value.simps)
qed

lemma serialized_unit:
  assumes "wf_unit ds" and "fits_unit ds fs" and "length (enc_unit ds fs) < 2147483648"
  shows "unit_serialize ds fs w = Inr (int (length (enc_unit ds fs)), wire_of (enc_unit ds fs))"
proof -
  have "writes (ser_each (map (\<lambda>d. ser_handler d (ser_value (d_kind d))) ds) fs) (enc_unit ds fs)"
    using assms(1,2) by (intro unit_handlers_write ser_value_writes) (auto simp: wf_unit_def wf_desc_def)
  from io_serialize_with_sized [OF this, unfolded writes_sized_def, rule_format, of "wb_clear w"]
  show ?thesis using assms(3) by (simp add: unit_serialize_def io_serialize_def wb_clear_def wire_of_def)
qed

subsection \<open>Properties\<close>

text \<open>C2: a unit whose required fields are set and whose values are of their types is serialized to its
  encoding, whatever the buffer held before: a tag and a value for each field that is set and not excluded, in the
  order of the description, subunits to any depth behind a size of five bytes, packed fields behind
  their length. The returned number is the size, and the buffer knows it. Numbers of fields are distinct and from 1 to
  2^29 - 1, packed fields are scalar (\<open>wf_unit\<close>), the encoding is below 2 GB, and a packed or unpacked field that is set
  has at least one element (\<open>fits_unit\<close>): of an empty packed one the serializer writes the tag without a
  length, which \<open>packed_empty_unreadable\<close> shows.\<close>

theorem unit_serialize_encodes:
  assumes "wf_unit ds" and "fits_unit ds fs" and "length (enc_unit ds fs) < 2147483648"
  shows "unit_serialize ds fs w = Inr (int (length (enc_unit ds fs)), wire_of (enc_unit ds fs))"
  by (rule serialized_unit [OF assms])

definition example_unit :: "desc list" where
  "example_unit =
     [Desc 1 True None Single (ScalarK TYPE_INT32), Desc 2 False None Single (BytesK (-1)),
      Desc 3 False None Single (UnitK [Desc 1 False None Single (FixedK TYPE_FIXED_UINT32)]),
      Desc 4 False None ProtobufPacked (ScalarK TYPE_UINT32)]"

definition example_fields :: "field list" where
  "example_fields =
     [Field True False (Num (-2)), Field True False (Bytes [65, 66]),
      Field True False (UnitV True [Field True False (Num 7)]),
      Repeated True False [Field False False (Num 1), Field False False (Num 300)]]"

lemma example_fits: "wf_unit example_unit \<and> fits_unit example_unit example_fields"
  by (simp add: wf_unit_def wf_desc_def example_unit_def example_fields_def fits_unit_def fits_field_def
      fits_member_def present_def is_Repeated_def bytes_fits_def varint_fits_def fixed_fits_def in_range_def
      varint_signed_def varint_zigzag_def fixed_signed_def)

lemma example_enc: "length (enc_unit example_unit example_fields) = 31"
  by (simp add: example_unit_def example_fields_def enc_unit_def enc_field_def present_def enc_member_def
      tag_enc_def fieldWireType_def varint_enc_def varint_wire_def varint_zigzag_def field_num_def bytes_enc_def
      field_bytes_def field_unit_def unit_size_groups leb128.simps)

theorem unit_serialize_encodes_witness:
  "wf_unit example_unit \<and> fits_unit example_unit example_fields \<and>
   length (enc_unit example_unit example_fields) < 2147483648 \<and>
   unit_serialize example_unit example_fields (wire_of [9]) =
     Inr (int (length (enc_unit example_unit example_fields)), wire_of (enc_unit example_unit example_fields))"
  using unit_serialize_encodes [of example_unit example_fields "wire_of [9]"] example_fits example_enc by simp

end
