(* ===== verification/UnitParse.thy ===== *)
theory UnitParse
  imports UnitCodec
begin

section \<open>Parsing what was serialized\<close>

text \<open>
  The parser of a unit reads the encoding of a unit with the same or with another description: fields that
  both have come back set with the value they had, fields of the reader alone stay as they were, and fields of the
  writer alone are skipped, unless they are repeated with a count.
\<close>

subsection \<open>The fields a parser starts from and the ones it returns\<close>

definition unset_of :: "desc \<Rightarrow> field \<Rightarrow> bool" where
  "unset_of d g =
     (case g of
        Field s n v \<Rightarrow> d_shape d = Single \<and> \<not> s \<and> (case d_kind d of UnitK ds \<Rightarrow> v = NoUnit | _ \<Rightarrow> True)
      | Repeated s n es \<Rightarrow> d_shape d \<noteq> Single \<and> \<not> s \<and> es = [])"

lemma unset_of_f_set: "unset_of d g \<Longrightarrow> \<not> f_set g"
  by (cases g) (auto simp: unset_of_def)

lemma fresh_field_unset: "wf_desc d \<Longrightarrow> unset_of d (fresh_field d)"
  by (auto simp: unset_of_def fresh_field_def wf_desc_def default_value_def split: kind.splits)

lemma clear_field_unset: "unset_of d g \<Longrightarrow> unset_of d (clear_field g)"
proof (cases g)
  case (Field s n v)
  then show "unset_of d g \<Longrightarrow> ?thesis" by (cases v) (auto simp: unset_of_def split: kind.splits)
qed (simp add: unset_of_def)

definition starts :: "kind \<Rightarrow> field \<Rightarrow> bool" where
  "starts k g =
     (case k of
        UnitK ds \<Rightarrow> (case g of Field s n (UnitV c gs) \<Rightarrow> c \<and> list_all2 unset_of ds gs | _ \<Rightarrow> False)
      | _ \<Rightarrow> True)"

lemma fresh_fields_unset: "wf_unit ds \<Longrightarrow> list_all2 unset_of ds (map fresh_field ds)"
  by (simp add: wf_unit_def list_all2_map2 list_all2_same fresh_field_unset)

lemma fresh_elem_starts: "wf_desc d \<Longrightarrow> starts (d_kind d) (fresh_elem d)"
proof (cases "d_kind d")
  case (UnitK ss)
  then show "wf_desc d \<Longrightarrow> ?thesis"
    using fresh_fields_unset [of ss] by (simp add: starts_def fresh_elem_def fresh_unit_def wf_desc_def flip: wf_kind_unit)
qed (simp_all add: starts_def)

lemma resized_elem_starts: "wf_desc d \<Longrightarrow> starts (d_kind d) (resized_elem d)"
  using fresh_elem_starts [of d] by (auto simp: resized_elem_def starts_def split: kind.splits)

lemma mutable_unit_starts:
  assumes "wf_unit ds" and "g = Field s n NoUnit"
  shows "starts (UnitK ds) (clear_field (mutable_unit ds g))"
  using assms by (auto simp: starts_def mutable_unit_def fresh_unit_def wf_unit_def list_all2_map2 list_all2_map1
      list_all2_same fresh_field_unset clear_field_unset)

text \<open>\<open>g\<close> shows what \<open>f\<close> was: set exactly if \<open>f\<close> was sent, with the same value.\<close>

definition agree_field :: "desc \<Rightarrow> (field \<Rightarrow> field \<Rightarrow> bool) \<Rightarrow> field \<Rightarrow> field \<Rightarrow> bool" where
  "agree_field d av f g =
     (if present f
      then f_set g \<and> (if d_shape d = Single then av f g else list_all2 av (f_elems f) (f_elems g))
      else \<not> f_set g)"

fun agree_value :: "kind \<Rightarrow> field \<Rightarrow> field \<Rightarrow> bool" where
  "agree_value (UnitK ds) = (\<lambda>f g.
     let fs = snd (field_unit f); gs = snd (field_unit g)
     in length fs = length ds \<and> length gs = length ds \<and>
        (\<forall>i < length ds. (map (\<lambda>d. agree_field d (agree_value (d_kind d))) ds ! i) (fs ! i) (gs ! i)))"
| "agree_value (BytesK m) = (\<lambda>f g. field_bytes g = field_bytes f)"
| "agree_value (ScalarK t) = (\<lambda>f g. field_num g = field_num f)"
| "agree_value (FixedK t) = (\<lambda>f g. field_num g = field_num f)"

definition agree_unit :: "desc list \<Rightarrow> field list \<Rightarrow> field list \<Rightarrow> bool" where
  "agree_unit ds fs gs = (length fs = length ds \<and> length gs = length ds \<and>
     (\<forall>i < length ds. agree_field (ds ! i) (agree_value (d_kind (ds ! i))) (fs ! i) (gs ! i)))"

lemma agree_value_unit: "agree_value (UnitK ds) f g = agree_unit ds (snd (field_unit f)) (snd (field_unit g))"
  by (auto simp: agree_unit_def Let_def)

subsection \<open>Tags\<close>

lemma tag_parts: "drop_bit 3 (8 * n + wire_number t) = n" "(8 * n + wire_number t) AND 7 = wire_number t"
proof -
  have t: "wire_number t < 8" by (cases t) simp_all
  show "drop_bit 3 (8 * n + wire_number t) = n" using t by (simp add: drop_bit_eq_div)
  have "(8 * n + wire_number t) AND 7 = take_bit 3 (8 * n + wire_number t)"
    by (simp add: take_bit_eq_mask mask_eq_exp_minus_1)
  then show "(8 * n + wire_number t) AND 7 = wire_number t" using t by (simp add: take_bit_eq_mod)
qed

lemma tag_reads:
  assumes "wf_desc d"
  shows "reads (raise_r e unpackUint32) (tag_enc d t) (8 * d_id d + wire_number t)"
proof -
  have "8 * d_id d + wire_number t < 4294967296" using assms by (cases t) (simp_all add: wf_desc_def)
  then have "reads unpackUint32 (tag_enc d t) (8 * d_id d + wire_number t)"
    unfolding tag_enc_def by (rule unpackUint32_reads)
  then show ?thesis by (simp add: reads_def raise_r_def)
qed

lemma raise_r_reads: "reads m bs x \<Longrightarrow> reads (raise_r e m) bs x"
  by (simp add: reads_def raise_r_def)

lemma find_member: "i \<in> set xs \<Longrightarrow> List.find (\<lambda>j. j = i) xs = Some i"
  by (induction xs) auto

lemma fieldParser_at:
  assumes "distinct (map d_id ds)" and "i < length ds"
  shows "fieldParser (map (\<lambda>d. make_parser d (pv d)) ds) (d_id (ds ! i)) = Some i"
proof -
  have eq: "j < length ds \<Longrightarrow> (d_id (ds ! j) = d_id (ds ! i)) = (j = i)" for j
    using assms nth_eq_iff_index_eq [of "map d_id ds" j i] by auto
  have "List.find (\<lambda>j. fp_id (map (\<lambda>d. make_parser d (pv d)) ds ! j) = d_id (ds ! i)) (rev [0..<length ds]) =
      List.find (\<lambda>j. j = i) (rev [0..<length ds])"
    by (rule find_cong) (auto simp: eq make_parser_def)
  also have "\<dots> = Some i" by (rule find_member) (use assms(2) in simp)
  finally show ?thesis by (simp add: fieldParser_def)
qed

lemma fieldParser_unknown:
  "x \<notin> d_id ` set ds \<Longrightarrow> fieldParser (map (\<lambda>d. make_parser d (pv d)) ds) x = None"
  unfolding fieldParser_def by (auto simp: find_None_iff make_parser_def)

subsection \<open>The elements of a repeated field\<close>

lemma elems_exist:
  assumes "list_all fv es"
    and "\<And>e. fv e \<Longrightarrow> \<exists>e'. av e e' \<and> reads m (ev e) e'"
  shows "\<exists>es'. list_all2 av es es' \<and> list_all2 (\<lambda>e e'. reads m (ev e) e') es es'"
  using assms(1)
proof (induction es)
  case (Cons e es)
  then obtain es' where "list_all2 av es es'" "list_all2 (\<lambda>e e'. reads m (ev e) e') es es'" by auto
  moreover obtain e' where "av e e'" "reads m (ev e) e'" using assms(2) Cons.prems by auto
  ultimately show ?case by (intro exI [of _ "e' # es'"]) simp
qed simp

lemma parse_elems_reads:
  assumes "list_all2 (\<lambda>e e'. reads (pv x) (ev e) e') es es'"
  shows "reads (parse_elems pv (replicate (length es) x)) (concat (map ev es)) es'"
  using assms
proof (induction rule: list_all2_induct)
  case Nil
  then show ?case by (simp add: reads_rret)
next
  case (Cons e es e' es')
  then show ?case by (simp) (intro reads_rbind reads_part_of [where x = e'] reads_part_of [where x = es'], simp_all)
qed

lemma reads_if_short: "(length bs < 2147483648 \<Longrightarrow> reads m bs x) \<Longrightarrow> reads m bs x"
  unfolding reads_def by force

lemma parse_counted_reads:
  assumes "list_all2 (\<lambda>e e'. reads (pv (resized_elem d)) (ev e) e') es es'"
    and "\<And>e. e \<in> set es \<Longrightarrow> ev e \<noteq> []"
  shows "reads (parse_counted d pv f) (leb128 (length es) @ concat (map ev es)) (Repeated True (f_noser f) es')"
proof (rule reads_if_short)
  assume "length (leb128 (length es) @ concat (map ev es)) < 2147483648"
  then have n: "length es < 4294967296" and le: "length es \<le> length (concat (map ev es))"
    using concat_map_length [of es ev] assms(2) by auto
  have body: "reads (part_of (Repeated True (f_noser f)) (Repeated True (f_noser f))
      (parse_elems pv (replicate (length es) (resized_elem d)))) (concat (map ev es)) (Repeated True (f_noser f) es')"
    by (rule reads_part_of [OF parse_elems_reads [where pv = pv and ev = ev, OF assms(1)]]) simp
  show "reads (parse_counted d pv f) (leb128 (length es) @ concat (map ev es)) (Repeated True (f_noser f) es')"
    unfolding parse_counted_def
  proof (rule reads_rbind [OF reads_leaving [OF unpackUint32_reads [OF n]]], rule readsI)
    fix w :: wire and pre suf
    assume w: "wb_data w = pre @ concat (map ev es) @ suf" "wb_offset w = length pre"
      "length pre + length (concat (map ev es)) + length suf < 2147483648"
    have "\<not> length (wb_data w) < wb_offset w" "\<not> length (wb_data w) - wb_offset w < length es"
      using w le by (simp_all del: length_concat)
    then show "(if length (wb_data w) < wb_offset w then leaving (clear_field f) (rfail END_OF_STREAM) w
         else if length (wb_data w) - wb_offset w < length es then leaving (clear_field f) (rfail END_OF_STREAM) w
         else part_of (Repeated True (f_noser f)) (Repeated True (f_noser f))
                (parse_elems pv (replicate (length es) (resized_elem d))) w) =
        Some (Inr (Repeated True (f_noser f) es', w\<lparr>wb_offset := length pre + length (concat (map ev es))\<rparr>))"
      using readsD [OF body w(1,2)] w(1,3) by (simp only: if_False) (simp del: length_concat)
  qed
qed

lemma packed_loop_reads:
  assumes "list_all2 (\<lambda>e e'. reads (pv (fresh_elem d)) (ev e) e') es es'"
    and "\<And>e. e \<in> set es \<Longrightarrow> ev e \<noteq> []"
    and "wb_data w = pre @ concat (map ev es) @ suf" and "wb_offset w = length pre"
    and "length (wb_data w) < 2147483648" and "stop = length pre + length (concat (map ev es))"
  shows "read_loop (\<lambda>_ w. wb_offset w < stop)
      (\<lambda>es. part_of (\<lambda>e. es @ [e]) (\<lambda>e. es @ [e]) (pv (fresh_elem d))) acc w =
    Some (Inr (acc @ es', w\<lparr>wb_offset := stop\<rparr>))"
  using assms
proof (induction arbitrary: acc w pre rule: list_all2_induct)
  case Nil
  then show ?case by (simp add: read_loop_stop)
next
  case (Cons e es e' es')
  let ?w1 = "w\<lparr>wb_offset := length pre + length (ev e)\<rparr>"
  have ne: "ev e \<noteq> []" using Cons.prems(1) by simp
  have "pv (fresh_elem d) w = Some (Inr (e', ?w1))"
    by (rule readsD [OF Cons.hyps(1), of _ _ "concat (map ev es) @ suf"]) (use Cons.prems in simp_all)
  then have "read_loop (\<lambda>_ w. wb_offset w < stop)
      (\<lambda>es. part_of (\<lambda>e. es @ [e]) (\<lambda>e. es @ [e]) (pv (fresh_elem d))) acc w =
     read_loop (\<lambda>_ w. wb_offset w < stop)
      (\<lambda>es. part_of (\<lambda>e. es @ [e]) (\<lambda>e. es @ [e]) (pv (fresh_elem d))) (acc @ [e']) ?w1"
    using ne Cons.prems by (intro read_loop_step) (simp_all add: part_of_def)
  also have "\<dots> = Some (Inr ((acc @ [e']) @ es', ?w1\<lparr>wb_offset := stop\<rparr>))"
    by (rule Cons.IH [where pre = "pre @ ev e"]) (use Cons.prems in auto)
  finally show ?case by simp
qed

lemma parse_packed_reads:
  assumes "list_all2 (\<lambda>e e'. reads (pv (fresh_elem d)) (ev e) e') es es'"
    and "\<And>e. e \<in> set es \<Longrightarrow> ev e \<noteq> []"
  shows "reads (parse_packed d pv f) (leb128 (length (concat (map ev es))) @ concat (map ev es))
    (Repeated True (f_noser f) es')"
proof (rule reads_if_short)
  define body where "body = concat (map ev es)"
  assume "length (leb128 (length (concat (map ev es))) @ concat (map ev es)) < 2147483648"
  then have n: "length body < 4294967296" unfolding body_def by simp
  show "reads (parse_packed d pv f) (leb128 (length (concat (map ev es))) @ concat (map ev es))
    (Repeated True (f_noser f) es')"
    unfolding parse_packed_def body_def [symmetric]
  proof (rule reads_rbind [OF reads_leaving [OF unpackUint32_reads [OF n]]], rule readsI)
    fix w :: wire and pre suf
    assume w: "wb_data w = pre @ body @ suf" "wb_offset w = length pre"
      "length pre + length body + length suf < 2147483648"
    have "read_loop (\<lambda>_ w. wb_offset w < length pre + length body)
        (\<lambda>es. part_of (\<lambda>e. es @ [e]) (\<lambda>e. es @ [e]) (pv (fresh_elem d))) [] w =
      Some (Inr ([] @ es', w\<lparr>wb_offset := length pre + length body\<rparr>))"
      by (rule packed_loop_reads [where pv = pv and ev = ev and d = d, OF assms]) (use w in \<open>simp_all add: body_def\<close>)
    then show "(if sub64 (length (wb_data w)) (wb_offset w) < length body then Some (Inl (None, w, clear_field f))
         else let lastOffset = w64 (wb_offset w + length body)
              in part_of (Repeated True (f_noser f)) (Repeated True (f_noser f))
                   (read_loop (\<lambda>_ w. wb_offset w < lastOffset)
                      (\<lambda>es. part_of (\<lambda>e. es @ [e]) (\<lambda>e. es @ [e]) (pv (fresh_elem d))) []) w) =
        Some (Inr (Repeated True (f_noser f) es', w\<lparr>wb_offset := length pre + length body\<rparr>))"
      using w by (simp add: Let_def part_of_def)
  qed
qed

subsection \<open>A field in the loop of the parser\<close>

text \<open>\<open>advances ps cur bs cur'\<close>: standing before \<open>bs\<close>, the loop goes on behind it with \<open>cur'\<close>.\<close>

abbreviation unit_loop :: "field_parser list \<Rightarrow> field list \<Rightarrow> field list parsing" where
  "unit_loop ps \<equiv> read_loop (\<lambda>_ w. wb_offset w < wb_size w) (deserialize_step ps)"

definition advances :: "field_parser list \<Rightarrow> field list \<Rightarrow> byte list \<Rightarrow> field list \<Rightarrow> bool" where
  "advances ps cur bs cur' \<longleftrightarrow> (\<forall>w pre suf. wb_data w = pre @ bs @ suf \<longrightarrow> wb_offset w = length pre \<longrightarrow>
     length pre + length bs \<le> wb_size w \<longrightarrow> length (wb_data w) < 2147483648 \<longrightarrow>
     unit_loop ps cur w = unit_loop ps cur' (w\<lparr>wb_offset := length pre + length bs\<rparr>))"

lemma offset_same: "wb_offset w = n \<Longrightarrow> w\<lparr>wb_offset := n\<rparr> = (w :: wire)"
  by (cases w) auto

lemma advances_refl: "advances ps cur [] cur"
  by (auto simp: advances_def offset_same)

lemma advances_trans:
  assumes "advances ps a bs b" and "advances ps b bs' c"
  shows "advances ps a (bs @ bs') c"
  unfolding advances_def
proof (intro allI impI)
  fix w :: wire and pre suf
  assume w: "wb_data w = pre @ (bs @ bs') @ suf" "wb_offset w = length pre"
    "length pre + length (bs @ bs') \<le> wb_size w" "length (wb_data w) < 2147483648"
  let ?w1 = "w\<lparr>wb_offset := length pre + length bs\<rparr>"
  have "unit_loop ps a w = unit_loop ps b ?w1"
    by (rule assms(1) [unfolded advances_def, rule_format, of _ _ "bs' @ suf"]) (use w in simp_all)
  also have "\<dots> = unit_loop ps c (?w1\<lparr>wb_offset := length (pre @ bs) + length bs'\<rparr>)"
    by (rule assms(2) [unfolded advances_def, rule_format, of _ _ suf]) (use w in simp_all)
  finally show "unit_loop ps a w = unit_loop ps c (w\<lparr>wb_offset := length pre + length (bs @ bs')\<rparr>)"
    by (simp add: add.assoc)
qed

lemma step_advances:
  assumes "bs \<noteq> []" and "\<And>w pre suf. wb_data w = pre @ bs @ suf \<Longrightarrow> wb_offset w = length pre \<Longrightarrow>
      length (wb_data w) < 2147483648 \<Longrightarrow>
      deserialize_step ps cur w = Some (Inr (cur', w\<lparr>wb_offset := length pre + length bs\<rparr>))"
  shows "advances ps cur bs cur'"
  unfolding advances_def
proof (intro allI impI)
  fix w :: wire and pre suf
  assume w: "wb_data w = pre @ bs @ suf" "wb_offset w = length pre"
    "length pre + length bs \<le> wb_size w" "length (wb_data w) < 2147483648"
  have "0 < length bs" using assms(1) by simp
  then have "wb_offset w < wb_size w" using w(2,3) by linarith
  then show "unit_loop ps cur w = unit_loop ps cur' (w\<lparr>wb_offset := length pre + length bs\<rparr>)"
    by (rule read_loop_step) (rule assms(2) [OF w(1,2,4)])
qed

lemma tag_enc_not_nil [simp]: "tag_enc d t \<noteq> []"
  by (simp add: tag_enc_def)

lemma tagged_step:
  assumes "wf_desc d" and "reads (deserialize_field ps cur (d_id d) (wire_number t)) body cur'"
  shows "advances ps cur (tag_enc d t @ body) cur'"
proof (rule step_advances)
  let ?tag = "8 * d_id d + wire_number t"
  have tag: "drop_bit 3 ?tag = d_id d" "?tag AND 7 = wire_number t" "?tag \<noteq> 0"
    using tag_parts [of "d_id d" t] assms(1) by (simp_all add: wf_desc_def)
  fix w :: wire and pre suf
  assume w: "wb_data w = pre @ (tag_enc d t @ body) @ suf" "wb_offset w = length pre"
    "length (wb_data w) < 2147483648"
  have pos: "\<not> length (wb_data w) \<le> wb_offset w" using w(1,2) by simp
  have "reads (rbind (leaving cur (raise_r END_OF_STREAM unpackUint32))
      (\<lambda>tag w'. if tag = 0 then leaving cur (rfail INVALID_TAG) w
                else deserialize_field ps cur (drop_bit 3 tag) (tag AND 7) w')) (tag_enc d t @ body) cur'"
    by (rule reads_rbind [OF reads_leaving [OF tag_reads [OF assms(1)]]])
       (use assms(2) tag(3) in \<open>simp only: tag if_False\<close>)
  then show "deserialize_step ps cur w =
      Some (Inr (cur', w\<lparr>wb_offset := length pre + length (tag_enc d t @ body)\<rparr>))"
    unfolding deserialize_step_def if_not_P [OF pos] by (rule readsD [OF _ w])
qed simp

lemma known_step:
  assumes "wf_unit ds" and "i < length ds"
    and "reads (parse_field (ds ! i) (pv (ds ! i)) (cur ! i)) body g"
  shows "advances (map (\<lambda>d. make_parser d (pv d)) ds) cur
    (tag_enc (ds ! i) (fieldWireType (ds ! i)) @ body) (cur[i := g])"
proof (rule tagged_step)
  show "wf_desc (ds ! i)" using assms(1,2) by (simp add: wf_unit_def)
  have "reads (raise_r FIELD_PARSING_FAILED (part_of (\<lambda>f. cur[i := f]) (\<lambda>f. cur[i := f])
      (parse_field (ds ! i) (pv (ds ! i)) (cur ! i)))) body (cur[i := g])"
    by (rule raise_r_reads, rule reads_part_of [OF assms(3)]) simp
  then show "reads (deserialize_field (map (\<lambda>d. make_parser d (pv d)) ds) cur (d_id (ds ! i))
      (wire_number (fieldWireType (ds ! i)))) body (cur[i := g])"
    using assms(1,2) by (simp add: deserialize_field_def fieldParser_at wf_unit_def) (simp add: make_parser_def)
qed

lemma unknown_step:
  assumes "wf_desc d" and "d_id d \<notin> d_id ` set ds"
    and "reads (skip_unknown (wire_number t)) body ()"
  shows "advances (map (\<lambda>d. make_parser d (pv d)) ds) cur (tag_enc d t @ body) cur"
proof (rule tagged_step [OF assms(1)])
  have "reads (rbind (leaving cur (skip_unknown (wire_number t))) (\<lambda>_. rret cur)) body cur"
    by (rule reads_then [OF reads_leaving [OF assms(3)]]) simp
  then show "reads (deserialize_field (map (\<lambda>d. make_parser d (pv d)) ds) cur (d_id d) (wire_number t)) body cur"
    by (simp add: deserialize_field_def fieldParser_unknown [OF assms(2)])
qed

subsection \<open>Fields that the reader does not have\<close>

lemma skip_loop:
  assumes "groups_ok gs" and "length gs \<le> 5" and "wb_data w = pre @ gs @ suf" and "wb_offset w = length pre"
    and "length (wb_data w) < 2147483648"
  obtains st where "unpack_loop (drop (wb_offset w) (wb_data w)) (sub64 (length (wb_data w)) (wb_offset w)) 56
      (unpack_init :: u32 unpack_state) = Some st"
    and "ust_processed st = length gs" and "ust_shift st \<le> 28" and "\<not> ust_overflow st" and "\<not> ust_more st"
    and "groups_nat gs < 4294967296 \<Longrightarrow> unat (ust_result st) = groups_nat gs"
proof -
  have n: "7 * (length gs - 1) \<le> 28" using assms(2) by simp
  have eq: "drop (wb_offset w) (wb_data w) = gs @ suf" "sub64 (length (wb_data w)) (wb_offset w) = length (gs @ suf)"
    using assms(3-5) by simp_all
  show ?thesis
    using unpack_loop_groups [of gs "gs @ suf" "[]" suf "unpack_init :: u32 unpack_state" "length (gs @ suf)" 56]
      assms n that unfolding eq by auto
qed

lemma skip_varint_reads:
  assumes "groups_ok gs" and "length gs \<le> 5"
  shows "reads (skip_unknown (wire_number VarInt)) gs ()"
proof (rule readsI)
  fix w :: wire and pre suf
  assume w: "wb_data w = pre @ gs @ suf" "wb_offset w = length pre"
    "length pre + length gs + length suf < 2147483648"
  obtain st where "unpack_loop (drop (wb_offset w) (wb_data w)) (sub64 (length (wb_data w)) (wb_offset w)) 56
      (unpack_init :: u32 unpack_state) = Some st"
    "ust_processed st = length gs" "\<not> ust_overflow st" "\<not> ust_more st"
    by (rule skip_loop [OF assms w(1,2)]) (use w in auto)
  then show "skip_unknown (wire_number VarInt) w = Some (Inr ((), w\<lparr>wb_offset := length pre + length gs\<rparr>))"
    using w by (simp add: skip_unknown_def skip_varint_def Let_def incCurrentOffset_def nat_add_distrib rret_def)
qed

lemma skip_length_reads:
  assumes "groups_ok gs" and "length gs \<le> 5" and "groups_nat gs = length body"
  shows "reads (skip_unknown (wire_number WithLength)) (gs @ body) ()"
proof (rule readsI)
  fix w :: wire and pre suf
  assume w: "wb_data w = pre @ (gs @ body) @ suf" "wb_offset w = length pre"
    "length pre + length (gs @ body) + length suf < 2147483648"
  obtain st where st: "unpack_loop (drop (wb_offset w) (wb_data w)) (sub64 (length (wb_data w)) (wb_offset w)) 56
      (unpack_init :: u32 unpack_state) = Some st"
    "ust_processed st = length gs" "ust_shift st \<le> 28" "\<not> ust_overflow st" "\<not> ust_more st"
    "groups_nat gs < 4294967296 \<Longrightarrow> unat (ust_result st) = groups_nat gs"
    by (rule skip_loop [OF assms(1,2), of w pre "body @ suf"]) (use w in auto)
  have "uint (ust_result st) = int (length body)"
    unfolding uint_nat using st(6) w(3) assms(3) by simp
  then show "skip_unknown (wire_number WithLength) w =
      Some (Inr ((), w\<lparr>wb_offset := length pre + length (gs @ body)\<rparr>))"
    using st(1-5) w
    by (simp add: skip_unknown_def skip_varint_def Let_def incCurrentOffset_def nat_add_distrib rret_def add.assoc)
qed

lemma skip_block_reads: "reads (skip_unknown (wire_number WithLength)) (leb128 (length bs) @ bs) ()"
proof (rule reads_if_short)
  assume "length (leb128 (length bs) @ bs) < 2147483648"
  then show "reads (skip_unknown (wire_number WithLength)) (leb128 (length bs) @ bs) ()"
    by (intro skip_length_reads) (use leb128_groups_ok leb128_size_32 [of "length bs"] in auto)
qed

lemma skip_fixed_reads:
  "length bs = 4 \<Longrightarrow> reads (skip_unknown (wire_number Fixed32)) bs ()"
  "length bs = 8 \<Longrightarrow> reads (skip_unknown (wire_number Fixed64)) bs ()"
  by (rule readsI, simp add: skip_unknown_def skip_fixed_def Let_def incCurrentOffset_def nat_add_distrib rret_def)+

text \<open>Values that an old reader can skip: varints of at most five bytes. Its 32 bits cannot take the shifts
  of a longer one.\<close>

definition short_varint :: "kind \<Rightarrow> field \<Rightarrow> bool" where
  "short_varint k e = (case k of ScalarK t \<Rightarrow> varint_wire t (field_num e) < 34359738368 | _ \<Rightarrow> True)"

lemma value_skips:
  assumes "fits_value k e" and "short_varint k e"
  shows "reads (skip_unknown (wire_number (kind_wire_type k))) (enc_value k e) ()"
proof (cases k)
  case (ScalarK t)
  have "length (varint_enc t (field_num e)) \<le> 5"
    using assms(2) ScalarK leb128_length_le [of "varint_wire t (field_num e)" 5]
    by (simp add: short_varint_def varint_enc_def)
  then show ?thesis using ScalarK skip_varint_reads leb128_groups_ok by (simp add: varint_enc_def)
next
  case (FixedK t)
  then show ?thesis using skip_fixed_reads by (cases t) auto
next
  case (BytesK m)
  then show ?thesis using skip_block_reads by (simp add: bytes_enc_def)
next
  case (UnitK ds)
  have "reads (skip_unknown (wire_number WithLength)) (unit_size_bytes (length bs) @ bs) ()" for bs
  proof (rule reads_if_short)
    assume "length (unit_size_bytes (length bs) @ bs) < 2147483648"
    then have "length bs < 4294967296" by simp
    from unit_size_groups [OF this]
    show "reads (skip_unknown (wire_number WithLength)) (unit_size_bytes (length bs) @ bs) ()"
      by (intro skip_length_reads) auto
  qed
  then show ?thesis using UnitK by (simp add: enc_value_unit del: enc_value.simps)
qed

text \<open>A field that an old reader can skip: not repeated with a count, which is no length.\<close>

definition skippable :: "desc \<Rightarrow> field \<Rightarrow> bool" where
  "skippable d f =
     (case d_shape d of
        Single \<Rightarrow> short_varint (d_kind d) f
      | Counted \<Rightarrow> False
      | ProtobufPacked \<Rightarrow> True
      | ProtobufUnpacked \<Rightarrow> list_all (short_varint (d_kind d)) (f_elems f))"

lemma unknown_advances:
  assumes "wf_desc d" and "d_id d \<notin> d_id ` set ds" and "fits_member d (fits_value (d_kind d)) f"
    and "skippable d f"
  shows "advances (map (\<lambda>d. make_parser d (pv d)) ds) cur (enc_member d (enc_value (d_kind d)) f) cur"
proof (cases "d_shape d")
  case Single
  then show ?thesis
    using unknown_step [OF assms(1,2) value_skips [of "d_kind d" f]] assms(3,4)
    by (simp add: enc_member_def fieldWireType_def skippable_def fits_member_def)
next
  case Counted
  then show ?thesis using assms(4) by (simp add: skippable_def)
next
  case ProtobufPacked
  then show ?thesis using unknown_step [OF assms(1,2) skip_block_reads] by (simp add: enc_member_def Let_def)
next
  case ProtobufUnpacked
  have "advances (map (\<lambda>d. make_parser d (pv d)) ds) cur
      (concat (map (\<lambda>e. tag_enc d (kind_wire_type (d_kind d)) @ enc_value (d_kind d) e) es)) cur"
    if "list_all (fits_value (d_kind d)) es" "list_all (short_varint (d_kind d)) es" for es
    using that
  proof (induction es)
    case (Cons e es)
    then show ?case
      using advances_trans [OF unknown_step [OF assms(1,2) value_skips]] by (simp flip: append_assoc)
  qed (simp add: advances_refl)
  then show ?thesis using ProtobufUnpacked assms(3,4) by (simp add: enc_member_def skippable_def fits_member_def)
qed

subsection \<open>Fields that the reader has\<close>

text \<open>What the induction over the kinds provides for the values of a field.\<close>

definition parses :: "kind \<Rightarrow> bool" where
  "parses k \<longleftrightarrow> (\<forall>f g. fits_value k f \<longrightarrow> starts k g \<longrightarrow>
     (\<exists>g'. agree_value k f g' \<and> reads (parse_value k g) (enc_value k f) g'))"

lemma agree_mark_set: "agree_value k f (mark_set b g) = agree_value k f g"
  by (cases k; cases g) (simp_all add: mark_set_def field_num_def field_bytes_def field_unit_def)

lemma f_set_mark [simp]: "f_set (mark_set b g) = b"
  by (cases g) (simp_all add: mark_set_def)

lemma wf_desc_unit: "wf_desc d \<Longrightarrow> d_kind d = UnitK ds \<Longrightarrow> wf_unit ds"
  by (simp add: wf_desc_def flip: wf_kind_unit)

lemma single_starts:
  assumes "wf_desc d" and "unset_of d g" and "d_shape d = Single"
  shows "starts (d_kind d) (case d_kind d of UnitK ds \<Rightarrow> clear_field (mutable_unit ds g) | _ \<Rightarrow> g)"
proof (cases "d_kind d")
  case (UnitK ds)
  then obtain s n where "g = Field s n NoUnit" using assms(2,3) by (cases g) (auto simp: unset_of_def)
  then show ?thesis using UnitK mutable_unit_starts [OF wf_desc_unit [OF assms(1) UnitK]] by simp
qed (simp_all add: starts_def)

lemma single_reads:
  assumes "wf_desc d" and "parses (d_kind d)" and "unset_of d g" and "d_shape d = Single"
    and "fits_value (d_kind d) f"
  shows "\<exists>g'. f_set g' \<and> agree_value (d_kind d) f g' \<and>
     reads (parse_field d (parse_value (d_kind d)) g) (enc_value (d_kind d) f) g'"
proof -
  obtain g' where g': "agree_value (d_kind d) f g'"
      "reads (parse_value (d_kind d) (case d_kind d of UnitK ds \<Rightarrow> clear_field (mutable_unit ds g) | _ \<Rightarrow> g))
         (enc_value (d_kind d) f) g'"
    using assms(2,5) single_starts [OF assms(1,3,4)] unfolding parses_def by blast
  have "reads (parse_field d (parse_value (d_kind d)) g) (enc_value (d_kind d) f) (mark_set True g')"
    unfolding parse_field_def assms(4) field_shape.case parse_single_def by (rule reads_part_of [OF g'(2)]) simp
  then show ?thesis using g'(1) by (intro exI [of _ "mark_set True g'"]) (simp add: agree_mark_set)
qed

lemma values_exist:
  assumes "starts (d_kind d) x" and "parses (d_kind d)" and "list_all (fits_value (d_kind d)) es"
  obtains es' where "list_all2 (agree_value (d_kind d)) es es'"
    and "list_all2 (\<lambda>e e'. reads (parse_value (d_kind d) x) (enc_value (d_kind d) e) e') es es'"
  using elems_exist [of "fits_value (d_kind d)" es "agree_value (d_kind d)" "parse_value (d_kind d) x"
      "enc_value (d_kind d)"] assms
  unfolding parses_def by blast

lemma unpacked_advances:
  assumes "wf_unit ds" and "i < length ds" and "length cur = length ds" and "d = ds ! i"
    and "d_shape d = ProtobufUnpacked"
    and "list_all2 (\<lambda>e e'. reads (parse_value (d_kind d) (fresh_elem d)) (enc_value (d_kind d) e) e') es es'"
    and "cur ! i = Repeated s n acc" and "es \<noteq> []"
  shows "advances (map (\<lambda>d. make_parser d (parse_value (d_kind d))) ds) cur
    (concat (map (\<lambda>e. tag_enc d (kind_wire_type (d_kind d)) @ enc_value (d_kind d) e) es))
    (cur[i := Repeated True n (acc @ es')])"
  using assms(6,3,7,8)
proof (induction arbitrary: cur s acc rule: list_all2_induct)
  case (Cons e es e' es')
  let ?cur1 = "cur[i := Repeated True n (acc @ [e'])]"
  have "reads (parse_field d (parse_value (d_kind d)) (cur ! i)) (enc_value (d_kind d) e) (Repeated True n (acc @ [e']))"
    unfolding parse_field_def assms(5) field_shape.case parse_unpacked_def
    by (rule reads_part_of [OF Cons.hyps(1)]) (simp add: Cons.prems)
  then have one: "advances (map (\<lambda>d. make_parser d (parse_value (d_kind d))) ds) cur
      (tag_enc d (kind_wire_type (d_kind d)) @ enc_value (d_kind d) e) ?cur1"
    using known_step [OF assms(1,2), where pv = "\<lambda>d. parse_value (d_kind d)"] assms(4,5)
    by (simp add: fieldWireType_def)
  show ?case
  proof (cases "es = []")
    case True
    then show ?thesis using one Cons.hyps(2) by simp
  next
    case False
    have "advances (map (\<lambda>d. make_parser d (parse_value (d_kind d))) ds) ?cur1
      (concat (map (\<lambda>e. tag_enc d (kind_wire_type (d_kind d)) @ enc_value (d_kind d) e) es))
      (?cur1[i := Repeated True n ((acc @ [e']) @ es')])"
      by (rule Cons.IH) (use Cons.prems assms(2) False in auto)
    from advances_trans [OF one this] show ?thesis by simp
  qed
qed simp

lemma known_advances:
  assumes "wf_unit ds" and "i < length ds" and "length cur = length ds" and "d = ds ! i"
    and "parses (d_kind d)" and "unset_of d (cur ! i)" and "fits_member d (fits_value (d_kind d)) f"
    and "present f"
  shows "\<exists>g. agree_field d (agree_value (d_kind d)) f g \<and>
    advances (map (\<lambda>d. make_parser d (parse_value (d_kind d))) ds) cur
      (enc_member d (enc_value (d_kind d)) f) (cur[i := g])"
proof -
  have wf: "wf_desc d" using assms(1,2,4) by (simp add: wf_unit_def)
  note step = known_step [OF assms(1,2), where pv = "\<lambda>d. parse_value (d_kind d)", folded assms(4)]
  have ne: "list_all (fits_value (d_kind d)) es \<Longrightarrow> e \<in> set es \<Longrightarrow> enc_value (d_kind d) e \<noteq> []" for e es
    by (rule enc_value_not_nil [of "d_kind d" e]) (auto simp: list_all_iff)
  show ?thesis
  proof (cases "d_shape d = Single")
    case True
    then obtain g where "f_set g" "agree_value (d_kind d) f g"
        "reads (parse_field d (parse_value (d_kind d)) (cur ! i)) (enc_value (d_kind d) f) g"
      using single_reads [OF wf assms(5,6)] assms(7) by (auto simp: fits_member_def)
    then show ?thesis using step [of cur "enc_value (d_kind d) f" g] True assms(8)
      by (intro exI [of _ g]) (simp add: agree_field_def enc_member_def)
  next
    case False
    then have all: "list_all (fits_value (d_kind d)) (f_elems f)" "d_shape d = Counted \<or> f_elems f \<noteq> []"
      using assms(7) by (auto simp: fits_member_def split: field_shape.splits)
    obtain n where n: "cur ! i = Repeated False n []"
      using assms(6) False by (cases "cur ! i") (auto simp: unset_of_def)
    let ?x = "if d_shape d = Counted then resized_elem d else fresh_elem d"
    have "starts (d_kind d) ?x" using fresh_elem_starts [OF wf] resized_elem_starts [OF wf] by simp
    then obtain es' where es': "list_all2 (agree_value (d_kind d)) (f_elems f) es'"
      "list_all2 (\<lambda>e e'. reads (parse_value (d_kind d) ?x) (enc_value (d_kind d) e) e') (f_elems f) es'"
      by (rule values_exist [OF _ assms(5) all(1)])
    have agree: "agree_field d (agree_value (d_kind d)) f (Repeated True n es')"
      using es'(1) assms(8) False by (simp add: agree_field_def)
    have "advances (map (\<lambda>d. make_parser d (parse_value (d_kind d))) ds) cur
      (enc_member d (enc_value (d_kind d)) f) (cur[i := Repeated True n es'])"
    proof (cases "d_shape d")
      case Counted
      then show ?thesis
        using step [of cur _ "Repeated True n es'"] n
          parse_counted_reads [where pv = "parse_value (d_kind d)" and ev = "enc_value (d_kind d)" and f = "cur ! i" and d = d, OF _ ne [OF all(1)]]
          es'(2)
        by (simp add: parse_field_def enc_member_def fieldWireType_def)
    next
      case ProtobufPacked
      then show ?thesis
        using step [of cur _ "Repeated True n es'"] n
          parse_packed_reads [where pv = "parse_value (d_kind d)" and ev = "enc_value (d_kind d)" and f = "cur ! i" and d = d, OF _ ne [OF all(1)]]
          es'(2)
        by (simp add: parse_field_def enc_member_def fieldWireType_def Let_def)
    next
      case ProtobufUnpacked
      then show ?thesis
        using unpacked_advances [OF assms(1-4) ProtobufUnpacked _ n] es'(2) all(2) by (simp add: enc_member_def)
    qed (use False in simp)
    then show ?thesis using agree by blast
  qed
qed

subsection \<open>A unit read with another description\<close>

abbreviation parsers :: "desc list \<Rightarrow> field_parser list" where
  "parsers ds \<equiv> map (\<lambda>d. make_parser d (parse_value (d_kind d))) ds"

text \<open>What the reader \<open>rs\<close> has to find of the fields that were sent: the fields they share agree, the others
  are as before.\<close>

definition shows_sent :: "desc list \<Rightarrow> (desc \<times> field) list \<Rightarrow> field list \<Rightarrow> field list \<Rightarrow> bool" where
  "shows_sent rs sent cur cur' \<longleftrightarrow> length cur' = length rs \<and>
     (\<forall>i < length rs. case map_of sent (rs ! i) of
        None \<Rightarrow> cur' ! i = cur ! i
      | Some f \<Rightarrow> agree_field (rs ! i) (agree_value (d_kind (rs ! i))) f (cur' ! i))"

definition enc_sent :: "(desc \<times> field) list \<Rightarrow> byte list" where
  "enc_sent sent = concat (map (\<lambda>(d, f). enc_field d (enc_value (d_kind d)) f) sent)"

definition readable :: "desc list \<Rightarrow> desc \<Rightarrow> field \<Rightarrow> bool" where
  "readable rs d f = (wf_desc d \<and> fits_field d (fits_value (d_kind d)) f \<and>
     (d \<in> set rs \<or> d_id d \<notin> d_id ` set rs \<and> (present f \<longrightarrow> skippable d f)))"

lemma shows_oneI:
  assumes "length cur' = length rs"
    and "\<And>i. i < length rs \<Longrightarrow> rs ! i \<noteq> d \<Longrightarrow> cur' ! i = cur ! i"
    and "\<And>i. i < length rs \<Longrightarrow> rs ! i = d \<Longrightarrow> agree_field d (agree_value (d_kind d)) f (cur' ! i)"
  shows "shows_sent rs [(d, f)] cur cur'"
  using assms by (auto simp: shows_sent_def)

lemma one_advances:
  assumes "wf_unit rs" and "length cur = length rs" and "readable rs d f"
    and start: "\<And>i. i < length rs \<Longrightarrow> rs ! i = d \<Longrightarrow> unset_of d (cur ! i) \<and> parses (d_kind d)"
  shows "\<exists>cur'. advances (parsers rs) cur (enc_field d (enc_value (d_kind d)) f) cur' \<and> shows_sent rs [(d, f)] cur cur'"
proof (cases "present f")
  case False
  have "shows_sent rs [(d, f)] cur cur"
  proof (rule shows_oneI [OF assms(2)])
    fix i assume "i < length rs" "rs ! i = d"
    then have "\<not> f_set (cur ! i)" using start unset_of_f_set by blast
    then show "agree_field d (agree_value (d_kind d)) f (cur ! i)" using False by (simp add: agree_field_def)
  qed simp
  then show ?thesis using False advances_refl by (auto simp: enc_field_def)
next
  case True
  then have fits: "fits_member d (fits_value (d_kind d)) f" and wf: "wf_desc d"
    and skip: "d \<in> set rs \<or> d_id d \<notin> d_id ` set rs \<and> skippable d f"
    using assms(3) by (simp_all add: readable_def fits_field_def)
  show ?thesis
  proof (cases "d \<in> set rs")
    case False
    then have "shows_sent rs [(d, f)] cur cur" by (intro shows_oneI [OF assms(2)]) (auto simp: in_set_conv_nth)
    moreover have "advances (parsers rs) cur (enc_member d (enc_value (d_kind d)) f) cur"
      by (rule unknown_advances [OF wf _ fits]) (use skip False in auto)
    ultimately show ?thesis using True by (auto simp: enc_field_def)
  next
    case in_rs: True
    then obtain i where i: "i < length rs" "rs ! i = d" by (auto simp: in_set_conv_nth)
    have other: "j < length rs \<Longrightarrow> rs ! j = d \<Longrightarrow> j = i" for j
      using i assms(1) nth_eq_iff_index_eq [of "map d_id rs" j i] by (auto simp: wf_unit_def)
    obtain g where g: "agree_field d (agree_value (d_kind d)) f g"
        "advances (parsers rs) cur (enc_member d (enc_value (d_kind d)) f) (cur[i := g])"
      using known_advances [OF assms(1) i(1) assms(2) i(2) [symmetric] _ _ fits True] start [OF i] by blast
    have "shows_sent rs [(d, f)] cur (cur[i := g])"
    proof (rule shows_oneI)
      show "length (cur[i := g]) = length rs" using assms(2) by simp
      show "cur[i := g] ! j = cur ! j" if "j < length rs" "rs ! j \<noteq> d" for j
        using that i by (cases "j = i") auto
      show "agree_field d (agree_value (d_kind d)) f (cur[i := g] ! j)" if "j < length rs" "rs ! j = d" for j
        using other [OF that] g(1) assms(2) i(1) by simp
    qed
    then show ?thesis using g(2) True by (auto simp: enc_field_def)
  qed
qed

lemma sent_advances:
  assumes "wf_unit rs" and "list_all2 unset_of rs cur" and "\<And>d. d \<in> set rs \<Longrightarrow> parses (d_kind d)"
    and "\<And>d f. (d, f) \<in> set sent \<Longrightarrow> readable rs d f" and "distinct (map fst sent)"
  shows "\<exists>cur'. advances (parsers rs) cur (enc_sent sent) cur' \<and> shows_sent rs sent cur cur'"
  using assms(4,5)
proof (induction sent rule: rev_induct)
  case Nil
  have "shows_sent rs [] cur cur" using assms(2) by (simp add: shows_sent_def list_all2_lengthD)
  then show ?case using advances_refl by (auto simp: enc_sent_def)
next
  case (snoc p sent)
  obtain d f where p: "p = (d, f)" by force
  obtain cur1 where cur1: "advances (parsers rs) cur (enc_sent sent) cur1" "shows_sent rs sent cur cur1"
    using snoc by auto
  have new: "map_of sent d = None" using snoc.prems(2) by (auto simp: p map_of_eq_None_iff)
  have "unset_of d (cur1 ! i) \<and> parses (d_kind d)" if "i < length rs" "rs ! i = d" for i
    using that cur1(2) new assms(2,3) by (auto simp: shows_sent_def list_all2_conv_all_nth)
  then obtain cur2 where cur2: "advances (parsers rs) cur1 (enc_field d (enc_value (d_kind d)) f) cur2"
      "shows_sent rs [(d, f)] cur1 cur2"
    using one_advances [OF assms(1), of cur1 d f] cur1(2) snoc.prems(1) by (auto simp: shows_sent_def p)
  have "shows_sent rs (sent @ [p]) cur cur2"
    unfolding shows_sent_def
  proof (intro conjI allI impI)
    show "length cur2 = length rs" using cur2(2) by (simp add: shows_sent_def)
    fix i assume i: "i < length rs"
    show "case map_of (sent @ [p]) (rs ! i) of None \<Rightarrow> cur2 ! i = cur ! i
      | Some f \<Rightarrow> agree_field (rs ! i) (agree_value (d_kind (rs ! i))) f (cur2 ! i)"
      using cur1(2) [unfolded shows_sent_def, THEN conjunct2, rule_format, OF i]
        cur2(2) [unfolded shows_sent_def, THEN conjunct2, rule_format, OF i] new
      by (cases "rs ! i = d"; cases "map_of sent (rs ! i)") (simp_all add: p map_add_def)
  qed
  moreover have "advances (parsers rs) cur (enc_sent (sent @ [p])) cur2"
    using advances_trans [OF cur1(1) cur2(1)] by (simp add: enc_sent_def p)
  ultimately show ?case by blast
qed

lemma io_deserialize_reads:
  assumes "advances (parsers rs) (snd (io_reset rs True u)) bs cur'" and "required_set rs cur'"
  shows "reads_unit (io_deserialize rs u) bs (False, cur')"
  unfolding reads_unit_def
proof (intro allI impI)
  fix w :: wire and pre suf
  assume w: "wb_data w = pre @ bs @ suf" "wb_offset w = length pre" "wb_size w = length pre + length bs"
    "length (wb_data w) < 2147483648"
  let ?w1 = "w\<lparr>wb_offset := length pre + length bs\<rparr>"
  have "unit_loop (parsers rs) (snd (io_reset rs True u)) w = unit_loop (parsers rs) cur' ?w1"
    by (rule assms(1) [unfolded advances_def, rule_format, of _ _ suf]) (use w in simp_all)
  also have "\<dots> = Some (Inr (cur', ?w1))" by (rule read_loop_stop) (use w in simp)
  finally show "io_deserialize rs u w = Some (Inr ((False, cur'), ?w1))"
    using assms(2) by (simp add: io_deserialize_def io_deserialize_with_def rbind_def part_of_def rret_def)
qed

lemma required_shown:
  assumes "shows_sent rs sent cur cur'"
    and "\<And>d. d \<in> set rs \<Longrightarrow> d_required d \<Longrightarrow> \<exists>f. map_of sent d = Some f \<and> present f"
  shows "required_set rs cur'"
  unfolding required_set_def list_all2_conv_all_nth
proof (intro conjI allI impI)
  show "length rs = length cur'" using assms(1) by (simp add: shows_sent_def)
  fix i assume i: "i < length rs" "d_required (rs ! i)"
  then obtain f where "map_of sent (rs ! i) = Some f" "present f" using assms(2) [of "rs ! i"] by auto
  then show "f_set (cur' ! i)" using assms(1) i(1) by (auto simp: shows_sent_def agree_field_def)
qed

subsection \<open>Every kind is parsed back\<close>

lemma enc_member_not_nil:
  assumes "fits_member d (fits_value (d_kind d)) f"
  shows "enc_member d (enc_value (d_kind d)) f \<noteq> []"
  using assms by (auto simp: enc_member_def fits_member_def Let_def split: field_shape.splits)

lemma enc_sent_unit: "enc_sent (zip ds fs) = enc_unit ds fs"
  by (simp add: enc_sent_def enc_unit_def)

lemma fits_unit_nth:
  "fits_unit ds fs \<Longrightarrow> length fs = length ds \<and>
     (\<forall>i < length ds. fits_field (ds ! i) (fits_value (d_kind (ds ! i))) (fs ! i))"
  by (simp add: fits_unit_def list_all2_conv_all_nth)

lemma distinct_descs: "wf_unit ds \<Longrightarrow> distinct ds"
  by (simp add: wf_unit_def distinct_map)

lemma map_of_sent:
  "distinct ds \<Longrightarrow> length fs = length ds \<Longrightarrow> i < length ds \<Longrightarrow> map_of (zip ds fs) (ds ! i) = Some (fs ! i)"
  by (simp add: map_of_zip_nth)

lemma sent_readable:
  assumes "wf_unit ds" and "fits_unit ds fs" and "(d, f) \<in> set (zip ds fs)"
  shows "readable ds d f"
  using assms fits_unit_nth [OF assms(2)] by (auto simp: readable_def wf_unit_def in_set_zip)

lemma required_sent:
  assumes "wf_unit ds" and "fits_unit ds fs" and "d \<in> set ds" and "d_required d"
  shows "\<exists>f. map_of (zip ds fs) d = Some f \<and> present f"
proof -
  obtain i where i: "i < length ds" "ds ! i = d" using assms(3) by (auto simp: in_set_conv_nth)
  then show ?thesis
    using map_of_sent [OF distinct_descs [OF assms(1)], of fs i] fits_unit_nth [OF assms(2)] assms(4)
    by (auto simp: fits_field_def split: if_splits)
qed

lemma shows_sent_agree:
  assumes "wf_unit ds" and "length fs = length ds" and "shows_sent ds (zip ds fs) cur cur'"
  shows "agree_unit ds fs cur'"
  using assms map_of_sent [OF distinct_descs [OF assms(1)] assms(2)]
  by (auto simp: agree_unit_def shows_sent_def)

lemma empty_unit:
  assumes "fits_unit ds fs" and "enc_unit ds fs = []" and "list_all2 unset_of ds gs"
  shows "agree_unit ds fs gs \<and> required_set ds gs"
proof -
  have "\<not> present (fs ! i) \<and> \<not> f_set (gs ! i) \<and> \<not> d_required (ds ! i)" if i: "i < length ds" for i
  proof -
    have fit: "fits_field (ds ! i) (fits_value (d_kind (ds ! i))) (fs ! i)" and len: "length fs = length ds"
      using fits_unit_nth [OF assms(1)] i by auto
    have "(ds ! i, fs ! i) \<in> set (zip ds fs)" using i len by (auto simp: in_set_zip)
    then have "enc_field (ds ! i) (enc_value (d_kind (ds ! i))) (fs ! i) = []"
      using assms(2) by (auto simp: enc_unit_def)
    then show ?thesis using fit enc_member_not_nil assms(3) i unset_of_f_set
      by (auto simp: enc_field_def fits_field_def list_all2_conv_all_nth split: if_splits)
  qed
  then show ?thesis using fits_unit_nth [OF assms(1)] assms(3)
    by (auto simp: agree_unit_def agree_field_def required_set_def list_all2_conv_all_nth)
qed

lemma scalar_parses: "kind_wire_type k \<noteq> WithLength \<or> (\<exists>m. k = BytesK m) \<Longrightarrow> parses k"
  unfolding parses_def
proof (intro allI impI)
  fix f g assume k: "kind_wire_type k \<noteq> WithLength \<or> (\<exists>m. k = BytesK m)" and f: "fits_value k f"
  show "\<exists>g'. agree_value k f g' \<and> reads (parse_value k g) (enc_value k f) g'"
  proof (cases k)
    case (ScalarK t)
    then have "varint_fits t (field_num f)" using f by (auto simp: field_num_def split: field.splits fval.splits)
    then have "reads (parse_value k g) (enc_value k f) (put_value (Num (field_num f)) g)"
      unfolding ScalarK parse_value.simps enc_value.simps by (rule reads_part_of [OF VariableSer_reads]) simp_all
    then show ?thesis 
      by (intro exI [of _ "put_value (Num (field_num f)) g"] conjI) (simp add: ScalarK field_num_def put_value_def, assumption)
  next
    case (FixedK t)
    then have "fixed_fits t (field_num f)" using f by (auto simp: field_num_def split: field.splits fval.splits)
    then have "reads (parse_value k g) (enc_value k f) (put_value (Num (field_num f)) g)"
      unfolding FixedK parse_value.simps enc_value.simps by (rule reads_part_of [OF FixedSer_reads]) simp_all
    then show ?thesis 
      by (intro exI [of _ "put_value (Num (field_num f)) g"] conjI) (simp add: FixedK field_num_def put_value_def, assumption)
  next
    case (BytesK m)
    then have "bytes_fits m (field_bytes f)" using f by (auto simp: field_bytes_def split: field.splits fval.splits)
    then have "reads (parse_value k g) (enc_value k f) (put_value (Bytes (field_bytes f)) g)"
      unfolding BytesK parse_value.simps enc_value.simps by (rule reads_part_of [OF BytesSer_reads]) simp_all
    then show ?thesis 
      by (intro exI [of _ "put_value (Bytes (field_bytes f)) g"] conjI) (simp add: BytesK field_bytes_def put_value_def, assumption)
  qed (use k in simp)
qed

lemma unit_parses:
  assumes "wf_unit ds" and "\<And>d. d \<in> set ds \<Longrightarrow> parses (d_kind d)"
  shows "parses (UnitK ds)"
  unfolding parses_def
proof (intro allI impI)
  fix f g assume "fits_value (UnitK ds) f" "starts (UnitK ds) g"
  then obtain n c fs s m gs where f: "f = Field True n (UnitV c fs)" "fits_unit ds fs"
      and g: "g = Field s m (UnitV True gs)" "list_all2 unset_of ds gs"
    unfolding fits_value_unit starts_def by (auto split: field.splits fval.splits)
  define bs where "bs = enc_unit ds fs"
  obtain cur' where cur': "advances (parsers ds) gs bs cur'" "shows_sent ds (zip ds fs) gs cur'"
    using sent_advances [OF assms(1) g(2) assms(2), of "zip ds fs"] sent_readable [OF assms(1) f(2)]
      distinct_descs [OF assms(1)] fits_unit_nth [OF f(2)]
    by (auto simp: enc_sent_unit bs_def)
  have req: "required_set ds cur'"
    by (rule required_shown [OF cur'(2)]) (rule required_sent [OF assms(1) f(2)])
  define u where "u = (if bs = [] then (True, gs) else (False, cur'))"
  have agree: "agree_unit ds fs (snd u)"
    using empty_unit [OF f(2) _ g(2)] shows_sent_agree [OF assms(1) _ cur'(2)] fits_unit_nth [OF f(2)]
    by (auto simp: u_def bs_def)
  have "reads (UnitSer_deserialize (\<lambda>u. required_set ds (snd u)) (io_deserialize ds) (True, gs))
      (unit_size_bytes (length bs) @ bs) u"
    unfolding u_def
  proof (rule reads_if_short, rule UnitSer_reads [of "io_deserialize ds" "(True, gs)",
        OF io_deserialize_reads [of ds "(True, gs)", OF _ req]])
    show "advances (parsers ds) (snd (io_reset ds True (True, gs))) bs cur'" using cur'(1) by (simp add: io_reset_def)
    show "required_set ds (snd (True, gs))" if "bs = []"
      using that empty_unit [OF f(2) _ g(2)] by (simp add: bs_def)
  qed simp
  then have "reads (part_of (\<lambda>u. Field True m (UnitV (fst u) (snd u))) (\<lambda>u. Field True m (UnitV (fst u) (snd u)))
      (UnitSer_deserialize (\<lambda>u. required_set ds (snd u)) (io_deserialize ds) (True, gs)))
      (unit_size_bytes (length bs) @ bs) (Field True m (UnitV (fst u) (snd u)))"
    by (rule reads_part_of) simp
  then have "reads (parse_value (UnitK ds) g) (enc_value (UnitK ds) f) (Field True m (UnitV (fst u) (snd u)))"
    unfolding enc_value_unit by (simp add: f(1) g(1) bs_def mutable_unit_def field_unit_def io_deserialize_def)
  then show "\<exists>g'. agree_value (UnitK ds) f g' \<and> reads (parse_value (UnitK ds) g) (enc_value (UnitK ds) f) g'"
    using agree unfolding agree_value_unit f(1) by (intro exI) (auto simp: field_unit_def)
qed

lemma wf_kind_parses: "wf_kind k \<Longrightarrow> parses k"
proof (induction k rule: parse_value.induct)
  case (4 ds)
  have wf: "wf_unit ds" using "4.prems" unfolding wf_kind_unit .
  show ?case by (rule unit_parses [OF wf "4.IH"]) (use wf in \<open>auto simp: wf_unit_def wf_desc_def\<close>)
qed (rule scalar_parses, simp)+

subsection \<open>Units on the top level\<close>

lemma wf_unit_parses: "wf_unit ds \<Longrightarrow> d \<in> set ds \<Longrightarrow> parses (d_kind d)"
  by (rule wf_kind_parses) (simp add: wf_unit_def wf_desc_def)

text \<open>A unit that the parser may be given: one that is clean, of which no field is set, as it is constructed and
  after a reset, or one that a parser has filled before, which is not clean and is reset first.\<close>

definition ready :: "desc list \<Rightarrow> unit_state \<Rightarrow> bool" where
  "ready ds u = (length (snd u) = length ds \<and> (fst u \<longrightarrow> list_all2 unset_of ds (snd u)))"

lemma reset_field_unset: "wf_desc d \<Longrightarrow> unset_of d (reset_field d f)"
  using fresh_field_unset [of d] by (auto simp: reset_field_def unset_of_def split: field.splits)

lemma ready_reset:
  assumes "wf_unit ds" and "ready ds u"
  shows "list_all2 unset_of ds (snd (io_reset ds True u))"
proof (cases "fst u")
  case True
  then show ?thesis using assms(2) by (simp add: ready_def io_reset_def)
next
  case False
  have "unset_of (ds ! i) (reset_field (ds ! i) f)" if "i < length ds" for i f
    by (rule reset_field_unset) (use assms(1) that in \<open>simp add: wf_unit_def\<close>)
  then show ?thesis using assms(2) False by (simp add: ready_def io_reset_def list_all2_conv_all_nth)
qed

lemma fresh_ready: "wf_unit ds \<Longrightarrow> ready ds (fresh_unit ds)"
  by (simp add: ready_def fresh_unit_def fresh_fields_unset)

lemma ready_advances:
  assumes "wf_unit rs" and "\<And>d f. (d, f) \<in> set (zip ds fs) \<Longrightarrow> readable rs d f" and "wf_unit ds"
    and "length fs = length ds" and "ready rs u"
  shows "\<exists>gs. advances (parsers rs) (snd (io_reset rs True u)) (enc_unit ds fs) gs \<and>
    shows_sent rs (zip ds fs) (snd (io_reset rs True u)) gs"
  using sent_advances [OF assms(1) ready_reset [OF assms(1,5)] wf_unit_parses [OF assms(1)], of "zip ds fs"]
    assms(2-4) distinct_descs [OF assms(3)] by (simp add: enc_sent_unit)

lemma deserialize_ready:
  assumes "advances (parsers rs) (snd (io_reset rs True u)) bs gs" and "required_set rs gs" and "length bs < 2147483648"
  shows "deserializeInline rs u bs = Some (Inr (), (False, gs))"
proof -
  have "io_deserialize rs u (wire_of bs) = Some (Inr ((False, gs), (wire_of bs)\<lparr>wb_offset := length bs\<rparr>))"
    using io_deserialize_reads [OF assms(1,2), unfolded reads_unit_def, rule_format, of "wire_of bs" "[]" "[]"]
      assms(3) by (simp add: wire_of_def)
  then show ?thesis by (simp add: deserializeInline_def unit_deserialize_def)
qed

text \<open>C1: what \<open>serialize\<close> writes is what \<open>deserialize\<close> reads: from the buffer of a serialized unit a unit
  of the same type, newly made or parsed into before, gets every field that was sent, set and with its value, to any
  depth of subunits and with every element of the repeated fields in order; all other fields come out unset. The
  fields are of the kinds modelled, with distinct numbers, 1 to 2^29 - 1, and packed only if scalar (\<open>wf_unit\<close>);
  their values are of their types, required ones are set, and a packed or unpacked field that is set has at least one
  element (\<open>fits_unit\<close>): of an empty one the serializer writes the tag without a length, or nothing, and
  \<open>packed_empty_unreadable\<close> shows that the message with the former cannot be parsed. The encoding stays below 2 GB.\<close>

theorem unit_roundtrip:
  assumes "wf_unit ds" and "fits_unit ds fs" and "length (enc_unit ds fs) < 2147483648" and "ready ds u"
  shows "\<exists>n w gs. unit_serialize ds fs (wire_of []) = Inr (n, w) \<and> n = int (length (wb_data w)) \<and>
    deserializeInline ds u (wb_data w) = Some (Inr (), (False, gs)) \<and> agree_unit ds fs gs"
proof -
  have len: "length fs = length ds" using fits_unit_nth [OF assms(2)] by simp
  obtain gs where gs: "advances (parsers ds) (snd (io_reset ds True u)) (enc_unit ds fs) gs"
      "shows_sent ds (zip ds fs) (snd (io_reset ds True u)) gs"
    using ready_advances [OF assms(1) sent_readable [OF assms(1,2)] assms(1) len assms(4)] by blast
  have "required_set ds gs" by (rule required_shown [OF gs(2)]) (rule required_sent [OF assms(1,2)])
  then show ?thesis
    using serialized_unit [OF assms(1-3)] deserialize_ready [OF gs(1) _ assms(3)]
      shows_sent_agree [OF assms(1) len gs(2)]
    by (simp add: wire_of_def)
qed

theorem unit_roundtrip_witness:
  "wf_unit example_unit \<and> fits_unit example_unit example_fields \<and>
   length (enc_unit example_unit example_fields) < 2147483648 \<and> ready example_unit (False, example_fields) \<and>
   (\<exists>n w gs. unit_serialize example_unit example_fields (wire_of []) = Inr (n, w) \<and> n = int (length (wb_data w)) \<and>
    deserializeInline example_unit (False, example_fields) (wb_data w) = Some (Inr (), (False, gs)) \<and>
    agree_unit example_unit example_fields gs)"
proof -
  have "ready example_unit (False, example_fields)" by (simp add: ready_def example_unit_def example_fields_def)
  then show ?thesis
    using unit_roundtrip [of example_unit example_fields "(False, example_fields)"] example_fits example_enc by simp
qed

text \<open>C3: units of different versions: a reader whose description shares some of its fields with the writer's
  gets those, skips the fields that only the writer has, and keeps its own other fields as the reset leaves them,
  the default value included. The skipped fields are \<open>skippable\<close>: not repeated with a count, which the reader takes
  for a length (\<open>counted_field_misread\<close>), and with varints of at most five bytes, which excludes negative numbers of
  plain signed types; a field of the writer with a number the reader has is the reader's. The units are as in the
  round trip, and the writer has every field that the reader requires.\<close>

theorem unit_versions:
  assumes "wf_unit ds" and "wf_unit rs" and "fits_unit ds fs" and "length (enc_unit ds fs) < 2147483648"
    and "list_all2 (\<lambda>d f. d \<in> set rs \<or> d_id d \<notin> d_id ` set rs \<and> (present f \<longrightarrow> skippable d f)) ds fs"
    and "\<forall>d \<in> set rs. d_required d \<longrightarrow> d \<in> set ds" and "ready rs u"
  shows "\<exists>gs. deserializeInline rs u (enc_unit ds fs) = Some (Inr (), (False, gs)) \<and>
    shows_sent rs (zip ds fs) (snd (io_reset rs True u)) gs"
proof -
  have len: "length fs = length ds" using fits_unit_nth [OF assms(3)] by simp
  have "readable rs d f" if "(d, f) \<in> set (zip ds fs)" for d f
    using sent_readable [OF assms(1,3) that] that assms(5) by (auto simp: readable_def list_all2_iff)
  then obtain gs where gs: "advances (parsers rs) (snd (io_reset rs True u)) (enc_unit ds fs) gs"
      "shows_sent rs (zip ds fs) (snd (io_reset rs True u)) gs"
    using ready_advances [OF assms(2) _ assms(1) len assms(7)] by blast
  have "required_set rs gs"
    by (rule required_shown [OF gs(2)]) (use required_sent [OF assms(1,3)] assms(6) in blast)
  then show ?thesis using deserialize_ready [OF gs(1) _ assms(4)] gs(2) by blast
qed

definition old_reader :: "desc list" where
  "old_reader = [Desc 9 False (Some (Num 5)) Single (ScalarK TYPE_UINT8), hd example_unit]"

theorem unit_versions_witness:
  "wf_unit example_unit \<and> wf_unit old_reader \<and>
   (\<exists>gs. deserializeInline old_reader (fresh_unit old_reader) (enc_unit example_unit example_fields)
      = Some (Inr (), (False, gs)) \<and>
    shows_sent old_reader (zip example_unit example_fields) (snd (io_reset old_reader True (fresh_unit old_reader))) gs)"
proof -
  have wf: "wf_unit old_reader" by (simp add: wf_unit_def wf_desc_def old_reader_def example_unit_def)
  moreover have "list_all2 (\<lambda>d f. d \<in> set old_reader \<or>
      d_id d \<notin> d_id ` set old_reader \<and> (present f \<longrightarrow> skippable d f)) example_unit example_fields"
    by (simp add: example_unit_def example_fields_def old_reader_def skippable_def short_varint_def)
  moreover have "\<forall>d \<in> set old_reader. d_required d \<longrightarrow> d \<in> set example_unit"
    by (simp add: old_reader_def example_unit_def)
  ultimately show ?thesis
    using unit_versions [of example_unit old_reader example_fields "fresh_unit old_reader"] fresh_ready [OF wf]
      example_fits example_enc by simp
qed

end
