(* ===== verification/UnitTypes.thy ===== *)
theory UnitTypes
  imports UnitParse
begin

section \<open>What the parser keeps, and what it leaves when it fails\<close>

text \<open>
  Whatever bytes it is given, a parser that returns leaves every field with a value of its type: integers in the
  range of the C++ type, fixed strings within their capacity, subunits with the fields of their description. This
  is the part of memory safety that the parser does keep: what it stores fits where it is stored. It moves the offset
  of the buffer and nothing else of it, and when it fails, on whatever byte and at whatever depth, the unit that was
  partly filled by then is reset.
\<close>

definition single_typed :: "(fval \<Rightarrow> bool) \<Rightarrow> field \<Rightarrow> bool" where
  "single_typed tv e = (case e of Field s n v \<Rightarrow> tv v | _ \<Rightarrow> False)"

fun typed_field :: "desc \<Rightarrow> (fval \<Rightarrow> bool) \<Rightarrow> field \<Rightarrow> bool" where
  "typed_field d tv (Field s n v) = (d_shape d = Single \<and> tv v)"
| "typed_field d tv (Repeated s n es) = (d_shape d \<noteq> Single \<and> list_all (single_typed tv) es)"

fun typed_value :: "kind \<Rightarrow> fval \<Rightarrow> bool" where
  "typed_value (ScalarK t) = (\<lambda>v. case v of Num x \<Rightarrow> varint_fits t x | _ \<Rightarrow> False)"
| "typed_value (FixedK t) = (\<lambda>v. case v of Num x \<Rightarrow> fixed_fits t x | _ \<Rightarrow> False)"
| "typed_value (BytesK m) = (\<lambda>v. case v of Bytes bs \<Rightarrow> bytes_fits m bs | _ \<Rightarrow> False)"
| "typed_value (UnitK ds) = (\<lambda>v.
     case v of
       NoUnit \<Rightarrow> True
     | UnitV c fs \<Rightarrow> list_all2 (\<lambda>p f. p f) (map (\<lambda>d. typed_field d (typed_value (d_kind d))) ds) fs
     | _ \<Rightarrow> False)"

definition typed_unit :: "desc list \<Rightarrow> field list \<Rightarrow> bool" where
  "typed_unit ds fs = list_all2 (\<lambda>d. typed_field d (typed_value (d_kind d))) ds fs"

lemma typed_value_unit: "typed_value (UnitK ds) (UnitV c fs) = typed_unit ds fs"
  by (simp add: typed_unit_def list_all2_map1)

text \<open>The declared defaults are of the types of their fields.\<close>

fun typed_defaults :: "kind \<Rightarrow> bool" where
  "typed_defaults (UnitK ds) =
     (\<forall>d \<in> set ds. typed_value (d_kind d) (default_value d) \<and> typed_defaults (d_kind d))"
| "typed_defaults _ = True"

abbreviation elem_typed :: "kind \<Rightarrow> field \<Rightarrow> bool" where
  "elem_typed k \<equiv> single_typed (typed_value k)"

subsection \<open>Invariants of readings and parsings\<close>

text \<open>\<open>frame P Q m\<close>: \<open>m\<close> changes nothing of the buffer but the offset, what it returns satisfies \<open>Q\<close>, and the
  object that a failure leaves satisfies \<open>P\<close>. \<open>stays Q m\<close> is the same for a reading.\<close>

definition same_buf :: "wire \<Rightarrow> wire \<Rightarrow> bool" where
  "same_buf w w' = (wb_data w' = wb_data w \<and> wb_size w' = wb_size w)"

definition frame_at :: "('s \<Rightarrow> bool) \<Rightarrow> ('a \<Rightarrow> bool) \<Rightarrow> wire \<Rightarrow> ((raw_error option \<times> wire \<times> 's) + 'a \<times> wire) option \<Rightarrow> bool" where
  "frame_at P Q w r =
     (case r of
        None \<Rightarrow> True
      | Some (Inl (e, w', s)) \<Rightarrow> same_buf w w' \<and> P s
      | Some (Inr (x, w')) \<Rightarrow> same_buf w w' \<and> Q x)"

definition frame :: "('s \<Rightarrow> bool) \<Rightarrow> ('a \<Rightarrow> bool) \<Rightarrow> (raw_error option \<times> wire \<times> 's, 'a) run \<Rightarrow> bool" where
  "frame P Q m \<longleftrightarrow> (\<forall>w. frame_at P Q w (m w))"

definition stays :: "('a \<Rightarrow> bool) \<Rightarrow> 'a reading \<Rightarrow> bool" where
  "stays Q m \<longleftrightarrow>
     (\<forall>w e w'. m w = Some (Inl (e, w')) \<longrightarrow> same_buf w w') \<and>
     (\<forall>w x w'. m w = Some (Inr (x, w')) \<longrightarrow> same_buf w w' \<and> Q x)"

abbreviation keeps :: "('s \<Rightarrow> bool) \<Rightarrow> 's parsing \<Rightarrow> bool" where
  "keeps P \<equiv> frame P P"

lemma frame_at: "frame P Q m \<Longrightarrow> frame_at P Q w (m w)"
  unfolding frame_def by blast

lemma frame_pointwise: "(\<And>w. frame_at P Q w (m w)) \<Longrightarrow> frame P Q m"
  unfolding frame_def by blast

lemma frame_at_simps [simp]:
  "frame_at P Q w None"
  "frame_at P Q w (Some (Inl (e, w', s))) = (same_buf w w' \<and> P s)"
  "frame_at P Q w (Some (Inr (x, w'))) = (same_buf w w' \<and> Q x)"
  by (simp_all add: frame_at_def)

lemma result_cases:
  fixes r :: "((raw_error option \<times> wire \<times> 's) + 'a \<times> wire) option"
  obtains "r = None" | e w' s where "r = Some (Inl (e, w', s))" | x w' where "r = Some (Inr (x, w'))"
  by (cases r) (auto, metis old.sum.exhaust prod_cases3 surj_pair)

lemma frameI:
  assumes "\<And>w e w' s. m w = Some (Inl (e, w', s)) \<Longrightarrow> same_buf w w' \<and> P s"
    and "\<And>w x w'. m w = Some (Inr (x, w')) \<Longrightarrow> same_buf w w' \<and> Q x"
  shows "frame P Q m"
proof (rule frame_pointwise)
  show "frame_at P Q w (m w)" for w
    by (cases "m w" rule: result_cases) (simp_all add: assms)
qed

lemma staysI:
  assumes "\<And>w e w'. m w = Some (Inl (e, w')) \<Longrightarrow> same_buf w w'"
    and "\<And>w x w'. m w = Some (Inr (x, w')) \<Longrightarrow> same_buf w w' \<and> Q x"
  shows "stays Q m"
  using assms by (auto simp: stays_def)

lemma frame_failed: "frame P Q m \<Longrightarrow> m w = Some (Inl (e, w', s)) \<Longrightarrow> same_buf w w' \<and> P s"
  using frame_at [of P Q m w] by simp

lemma frame_done: "frame P Q m \<Longrightarrow> m w = Some (Inr (x, w')) \<Longrightarrow> same_buf w w' \<and> Q x"
  using frame_at [of P Q m w] by simp

lemma stays_failed: "stays Q m \<Longrightarrow> m w = Some (Inl (e, w')) \<Longrightarrow> same_buf w w'"
  by (simp add: stays_def)

lemma stays_done: "stays Q m \<Longrightarrow> m w = Some (Inr (x, w')) \<Longrightarrow> same_buf w w' \<and> Q x"
  by (simp add: stays_def)

lemma same_buf_refl [simp]: "same_buf w w"
  by (simp add: same_buf_def)

lemma same_buf_trans: "same_buf w w' \<Longrightarrow> same_buf w' w'' \<Longrightarrow> same_buf w w''"
  by (simp add: same_buf_def)

lemma same_buf_offset [simp]: "same_buf w (incCurrentOffset n w') = same_buf w w'"
  by (simp add: same_buf_def incCurrentOffset_def)

lemma frame_rret: "Q x \<Longrightarrow> frame P Q (rret x)"
  by (rule frame_pointwise) (simp add: rret_def)

lemma frame_rfail: "P s \<Longrightarrow> frame P Q (leaving s (rfail e))"
  by (rule frame_pointwise) (simp add: leaving_def rfail_def)

lemma frame_leaving: "P s \<Longrightarrow> stays Q m \<Longrightarrow> frame P Q (leaving s m)"
  by (rule frameI) (auto simp: leaving_def stays_def split: option.splits sum.splits)

lemma stays_value_only: "frame P Q m \<Longrightarrow> stays Q (value_only m)"
  by (rule staysI) (auto simp: value_only_def dest: frame_failed frame_done split: option.splits sum.splits)

lemma stays_true: "stays Q m \<Longrightarrow> stays (\<lambda>_. True) m"
  by (simp add: stays_def)

lemma rbind_cases:
  assumes "rbind m f w = Some r"
  obtains e where "m w = Some (Inl e)" "r = Inl e" | x w1 where "m w = Some (Inr (x, w1))" "f x w1 = Some r"
  using assms by (auto simp: rbind_def split: option.splits sum.splits)

text \<open>A continuation may look at the buffer, so what is asked of it is asked for each buffer.\<close>

lemma frame_at_trans: "same_buf w w1 \<Longrightarrow> frame_at P Q w1 r \<Longrightarrow> frame_at P Q w r"
  by (cases r rule: result_cases) (auto intro: same_buf_trans)

lemma frame_bind:
  assumes m: "frame P Q m" and f: "\<And>x w. Q x \<Longrightarrow> frame_at P R w (f x w)"
  shows "frame P R (rbind m f)"
proof (rule frame_pointwise)
  fix w
  show "frame_at P R w (rbind m f w)"
  proof (cases "m w" rule: result_cases)
    case (3 x w1)
    have "frame_at P R w (f x w1)" by (rule frame_at_trans [OF _ f]) (use frame_done [OF m 3] in simp_all)
    then show ?thesis using 3 by (simp add: rbind_def)
  qed (use frame_at [OF m, of w] in \<open>simp_all add: rbind_def\<close>)
qed

lemma frame_rbind: "frame P Q m \<Longrightarrow> (\<And>x. Q x \<Longrightarrow> frame P R (f x)) \<Longrightarrow> frame P R (rbind m f)"
  by (erule frame_bind) (rule frame_at, simp)

lemma frame_part_of:
  assumes "frame P Q m" and "\<And>s. P s \<Longrightarrow> P' (h s)" and "\<And>x. Q x \<Longrightarrow> Q' (g x)"
  shows "frame P' Q' (part_of h g m)"
proof (rule frame_pointwise)
  show "frame_at P' Q' w (part_of h g m w)" for w
    using frame_at [OF assms(1), of w] assms(2,3) by (cases "m w" rule: result_cases) (simp_all add: part_of_def)
qed

lemma frame_raise:
  assumes "frame P Q m"
  shows "frame P Q (raise_r e m)"
proof (rule frame_pointwise)
  show "frame_at P Q w (raise_r e m w)" for w
    using frame_at [OF assms, of w] by (cases "m w" rule: result_cases) (simp_all add: raise_r_def)
qed

lemma stays_raise: "stays Q m \<Longrightarrow> stays Q (raise_r e m)"
  unfolding stays_def raise_r_def by (auto split: option.splits sum.splits)

lemma frame_loop:
  assumes step: "\<And>s. P s \<Longrightarrow> keeps P (step s)" and "P s"
  shows "keeps P (read_loop cond step (s :: 'a))"
proof (rule frame_pointwise)
  fix w :: wire
  let ?b = "\<lambda>st. case st of Some (Inr (s, w)) \<Rightarrow> cond s w | _ \<Rightarrow> False"
  let ?c = "\<lambda>st. case st of Some (Inr (s, w)) \<Rightarrow> step s w | _ \<Rightarrow> st"
  show "frame_at P P w (read_loop cond step s w)"
  proof (cases "while_option ?b ?c (Some (Inr (s, w)))")
    case None
    then show ?thesis by (simp add: read_loop_def)
  next
    case (Some st)
    have "frame_at P P w st"
    proof (rule while_option_rule [where P = "frame_at P P w", OF _ Some])
      fix t assume t: "frame_at P P w t" "?b t"
      then obtain s1 w1 where s1: "t = Some (Inr (s1, w1))" by (cases t rule: result_cases) auto
      then have "P s1" "same_buf w w1" using t(1) by simp_all
      then show "frame_at P P w (?c t)" using frame_at_trans [OF _ frame_at [OF step [of s1]]] s1 by simp
    qed (simp add: assms(2))
    then show ?thesis using Some by (simp add: read_loop_def)
  qed
qed

subsection \<open>What the streams and copies can return\<close>

lemma uint_in_range: "in_range False LENGTH('a) (uint (x :: 'a::len word))"
  using uint_lt2p [of x] by (simp add: in_range_def)

lemma sint_in_range: "in_range True LENGTH('a) (sint (x :: 'a::len word))"
  using sint_ge [of x] sint_lt [of x] by (simp add: in_range_def)

lemma stream_unpack_typed:
  assumes "stream_unpack t buf n f = Some (k, v)"
  shows "varint_fits t v"
proof -
  note u = uint_in_range [where 'a = 8] uint_in_range [where 'a = 16] uint_in_range [where 'a = 32]
    uint_in_range [where 'a = 64]
  note s = sint_in_range [where 'a = 8] sint_in_range [where 'a = 16] sint_in_range [where 'a = 32]
    sint_in_range [where 'a = 64]
  show ?thesis
    using assms u s by (cases t) (auto simp: reg_unpack_def varint_fits_def varint_signed_def varint_zigzag_def)
qed

lemma VariableSer_typed: "keeps (varint_fits t) (VariableSer_deserialize t f)"
  by (rule frameI)
     (auto simp: VariableSer_deserialize_def Let_def dest!: stream_unpack_typed split: option.splits if_splits)

lemma unpackUint32_stays: "stays (\<lambda>_. True) unpackUint32"
proof -
  have "stays (varint_fits TYPE_UINT32) (value_only (VariableSer_deserialize TYPE_UINT32 0))"
    by (rule stays_value_only [OF VariableSer_typed])
  then show ?thesis
    by (auto simp: unpackUint32_def stays_def rret_def elim!: rbind_cases)
qed

lemma frame_uint32: "P s \<Longrightarrow> frame P (\<lambda>_. True) (leaving s unpackUint32)"
  by (rule frame_leaving [of P, OF _ unpackUint32_stays])

lemma le_nat_less: "le_nat bs < 256 ^ length bs"
proof (induction bs)
  case (Cons b bs)
  have "unat b + 256 * le_nat bs < 256 * Suc (le_nat bs)" by simp
  also have "\<dots> \<le> 256 * 256 ^ length bs" using Cons by (simp only: mult_le_mono2 Suc_le_eq)
  finally show ?case by simp
qed simp

lemma fixed_value_typed:
  assumes "length bs = fixed_size t"
  shows "fixed_fits t (fixed_value t bs)"
proof -
  have "int (le_nat bs) < int (256 ^ length bs)" using le_nat_less [of bs] by (simp only: of_nat_less_iff)
  then have "int (le_nat bs) < 256 ^ fixed_size t" by (simp add: assms)
  then show ?thesis
    by (cases t) (auto simp: fixed_fits_def fixed_value_def fixed_signed_def in_range_def Let_def)
qed

lemma bytes_at_length: "bytes_at p n w = Some bs \<Longrightarrow> 0 \<le> n \<and> length bs = nat n"
  by (auto simp: bytes_at_def split: if_splits)

lemma FixedSer_typed: "fixed_fits t f \<Longrightarrow> keeps (fixed_fits t) (FixedSer_deserialize t f)"
  by (rule frameI)
     (auto simp: FixedSer_deserialize_def Let_def rfail_def rret_def leaving_def dest!: bytes_at_length
       intro!: fixed_value_typed split: option.splits if_splits)

lemma s32_less: "s32 x < 2147483648"
  by (simp add: s32_def)

text \<open>The size that \<open>load\<close> is called with is an \<open>int\<close> within the capacity.\<close>

definition block_fits :: "int \<Rightarrow> (nat \<times> int) option \<Rightarrow> bool" where
  "block_fits m b = (case b of None \<Rightarrow> True | Some (p, n) \<Rightarrow> n < 2147483648 \<and> (0 < m \<longrightarrow> n \<le> m))"

lemma BytesSer_block_stays: "stays (block_fits m) (BytesSer_block m)"
proof (rule staysI)
  fix w e w' assume "BytesSer_block m w = Some (Inl (e, w'))"
  then show "same_buf w w'"
    unfolding BytesSer_block_def
    by (cases rule: rbind_cases)
       (auto simp: Let_def rfail_def rret_def split: if_splits
         dest: stays_failed [OF unpackUint32_stays] stays_done [OF unpackUint32_stays] intro: same_buf_trans)
next
  fix w x w' assume "BytesSer_block m w = Some (Inr (x, w'))"
  then show "same_buf w w' \<and> block_fits m x"
    unfolding BytesSer_block_def
    by (cases rule: rbind_cases)
       (auto simp: Let_def rfail_def rret_def block_fits_def s32_less split: if_splits
         dest: stays_done [OF unpackUint32_stays] intro: same_buf_trans)
qed

lemma BytesSer_typed: "keeps (bytes_fits m) (BytesSer_deserialize m)"
  unfolding BytesSer_deserialize_def
proof (rule frame_bind [OF frame_leaving [OF _ BytesSer_block_stays]])
  show "bytes_fits m []" by (simp add: bytes_fits_def)
next
  fix b and w :: wire assume "block_fits m b"
  then show "frame_at (bytes_fits m) (bytes_fits m) w
      (case b of None \<Rightarrow> rret [] w
       | Some (ptr, n) \<Rightarrow> (case bytes_at ptr n w of None \<Rightarrow> None | Some bytes \<Rightarrow> rret bytes w))"
    by (auto simp: rret_def block_fits_def bytes_fits_def dest!: bytes_at_length split: option.splits)
qed

subsection \<open>Fresh, reset and cleared fields\<close>

lemma typed_repeated_append:
  "typed_field d tv (Repeated s n (es @ [e])) \<longleftrightarrow> typed_field d tv (Repeated s n es) \<and> single_typed tv e"
  by auto

lemma fresh_field_typed: "typed_value (d_kind d) (default_value d) \<Longrightarrow> typed_field d (typed_value (d_kind d)) (fresh_field d)"
  by (simp add: fresh_field_def)

lemma fresh_unit_typed: "typed_defaults (UnitK ds) \<Longrightarrow> typed_unit ds (snd (fresh_unit ds))"
  by (auto simp: typed_unit_def fresh_unit_def list_all2_map2 list_all2_same intro: fresh_field_typed)

lemma reset_field_typed:
  assumes "typed_value (d_kind d) (default_value d)"
  shows "typed_field d (typed_value (d_kind d)) (reset_field d f)"
  using fresh_field_typed [OF assms] by (auto simp: reset_field_def split: field.splits)

lemma io_reset_typed:
  assumes "typed_unit ds (snd u)" and "typed_defaults (UnitK ds)"
  shows "typed_unit ds (snd (io_reset ds b u))"
  using assms unfolding typed_unit_def io_reset_def
  by (auto simp: list_all2_conv_all_nth intro!: reset_field_typed)

lemma clear_typed:
  "typed_value k v \<Longrightarrow> typed_value k (clear_value v)"
  "\<And>d. typed_field d (typed_value (d_kind d)) f \<Longrightarrow> typed_field d (typed_value (d_kind d)) (clear_field f)"
proof (induction v and f arbitrary: k rule: clear_value_clear_field.induct)
  case (4 clean fs k)
  then show ?case
    by (cases k) (auto simp: list_all2_map1 list_all2_map2 list_all2_conv_all_nth)
next
  case (1 v k) then show ?case by (cases k) (auto simp: varint_fits_def fixed_fits_def in_range_def)
next
  case (2 bs k) then show ?case by (cases k) (auto simp: bytes_fits_def)
next
  case (3 k) then show ?case by (cases k) auto
qed auto

subsection \<open>Parsing\<close>

lemma keeps_UnitSer:
  assumes "P v" and "keeps P (parse v)"
  shows "keeps P (UnitSer_deserialize rs parse v)"
  unfolding UnitSer_deserialize_def
proof (rule frame_bind [OF frame_uint32 [of P, OF assms(1)]])
  fix n and w :: wire
  let ?size = "w64 (wb_offset w + n)"
  have body: "frame_at P P w
     (case parse v (wb_setSize ?size w) of
        Some (Inr (value', w')) \<Rightarrow> Some (Inr (value', wb_setSize (wb_size w) w'))
      | Some (Inl (e, w', value')) \<Rightarrow> Some (Inl (e, wb_setSize (wb_size w) w', value'))
      | None \<Rightarrow> None)"
    using frame_at [OF assms(2), of "wb_setSize ?size w"]
    by (cases "parse v (wb_setSize ?size w)" rule: result_cases) (simp_all add: same_buf_def wb_setSize_def)
  have none: "frame_at P P w (if rs v then rret v w else leaving v (rfail REQUIRED_FIELD_MISSING) w)"
    using assms(1) by (simp add: rret_def rfail_def leaving_def)
  have short: "frame_at P P w (leaving v (rfail END_OF_STREAM) w)"
    using assms(1) by (simp add: rfail_def leaving_def)
  show "frame_at P P w
      (if n = 0 then if rs v then rret v w else leaving v (rfail REQUIRED_FIELD_MISSING) w
       else if length (wb_data w) < ?size then leaving v (rfail END_OF_STREAM) w
       else let keepSize = wb_size w
            in case parse v (wb_setSize ?size w) of
                 Some (Inr (value', w')) \<Rightarrow> Some (Inr (value', wb_setSize keepSize w'))
               | Some (Inl (e, w', value')) \<Rightarrow> Some (Inl (e, wb_setSize keepSize w', value'))
               | None \<Rightarrow> None)"
    unfolding Let_def using none short body by presburger
qed

lemma keeps_parse_elems:
  assumes "\<And>e. Q e \<Longrightarrow> keeps Q (pv e)" and "list_all Q es"
  shows "keeps (list_all Q) (parse_elems pv es)"
  using assms(2)
proof (induction es)
  case (Cons e es)
  have one: "frame (list_all Q) Q (part_of (\<lambda>e'. e' # es) (\<lambda>e'. e') (pv e))"
    by (rule frame_part_of [OF assms(1)]) (use Cons.prems in simp_all)
  have rest: "keeps (list_all Q) (part_of (\<lambda>es'. e' # es') (\<lambda>es'. e' # es') (parse_elems pv es))" if "Q e'" for e'
    by (rule frame_part_of [OF Cons.IH]) (use Cons.prems that in simp_all)
  show ?case unfolding parse_elems.simps by (rule frame_rbind [OF one rest])
qed (simp add: frame_rret)

text \<open>What the parser of one value must keep for the parser of the whole field: the type, and the flag that
  excludes the field from serialization.\<close>

definition elem_as :: "kind \<Rightarrow> bool \<Rightarrow> field \<Rightarrow> bool" where
  "elem_as k n f = (elem_typed k f \<and> f_noser f = n)"

definition field_as :: "desc \<Rightarrow> bool \<Rightarrow> field \<Rightarrow> bool" where
  "field_as d n f = (typed_field d (typed_value (d_kind d)) f \<and> f_noser f = n)"

definition pv_typed :: "kind \<Rightarrow> (field \<Rightarrow> field parsing) \<Rightarrow> bool" where
  "pv_typed k pv \<longleftrightarrow> (\<forall>f. elem_typed k f \<longrightarrow> keeps (elem_as k (f_noser f)) (pv f))"

lemma pv_typedD: "pv_typed k pv \<Longrightarrow> elem_as k n f \<Longrightarrow> keeps (elem_as k n) (pv f)"
  by (auto simp: pv_typed_def elem_as_def)

lemma pv_elem: "pv_typed k pv \<Longrightarrow> elem_typed k f \<Longrightarrow> keeps (elem_typed k) (pv f)"
  proof -
  assume a: "pv_typed k pv" "elem_typed k f"
  have "frame_at (elem_typed k) (elem_typed k) w r" if "frame_at (elem_as k n) (elem_as k n) w r" for w r n
    using that by (cases r rule: result_cases) (simp_all add: elem_as_def del: typed_value.simps)
  then show ?thesis using a unfolding pv_typed_def frame_def by blast
qed

definition default_typed :: "desc \<Rightarrow> bool" where
  "default_typed d = (typed_value (d_kind d) (default_value d) \<and> typed_defaults (d_kind d))"

lemma typed_defaults_unit: "typed_defaults (UnitK ds) \<longleftrightarrow> list_all default_typed ds"
  by (simp add: default_typed_def [abs_def] list_all_iff)

lemma fresh_elem_typed:
  assumes "default_typed d"
  shows "elem_typed (d_kind d) (fresh_elem d)"
proof (cases "d_kind d")
  case (UnitK ds)
  then have "typed_unit ds (snd (fresh_unit ds))"
    using assms fresh_unit_typed [of ds] by (simp add: default_typed_def)
  then show ?thesis using UnitK
    by (cases "fresh_unit ds") (simp add: fresh_elem_def single_typed_def typed_unit_def list_all2_map1)
qed (use assms in \<open>simp_all add: fresh_elem_def single_typed_def default_typed_def\<close>)

lemma resized_elem_typed:
  assumes "default_typed d"
  shows "elem_typed (d_kind d) (resized_elem d)"
proof (cases "d_kind d")
  case (ScalarK t)
  then show ?thesis by (cases t) (simp_all add: resized_elem_def single_typed_def varint_fits_def in_range_def)
next
  case (FixedK t)
  then show ?thesis by (simp add: resized_elem_def single_typed_def fixed_fits_def in_range_def)
qed (use fresh_elem_typed [OF assms] in \<open>simp_all add: resized_elem_def\<close>)

lemma mutable_unit_typed:
  assumes "elem_typed (UnitK ds) f" and "typed_defaults (UnitK ds)"
  shows "elem_as (UnitK ds) (f_noser f) (mutable_unit ds f)"
  using assms(1) fresh_unit_typed [OF assms(2)]
  by (auto simp: elem_as_def single_typed_def mutable_unit_def typed_unit_def list_all2_map1
      split: field.splits fval.splits)

lemma clear_field_as: "field_as d n f \<Longrightarrow> field_as d n (clear_field f)"
  using clear_typed(2) [of d f] by (cases f) (auto simp: field_as_def)

lemma elem_clear:
  assumes "elem_as k n f"
  shows "elem_as k n (clear_field f)"
proof (cases f)
  case (Field s m v)
  then show ?thesis using assms clear_typed(1) [of k v] by (simp add: elem_as_def single_typed_def)
qed (use assms in \<open>simp add: elem_as_def single_typed_def\<close>)

lemma elem_field: "d_shape d = Single \<Longrightarrow> elem_as (d_kind d) n f = field_as d n f"
  by (cases f) (simp_all add: elem_as_def field_as_def single_typed_def)

lemma mark_set_as: "field_as d n f \<Longrightarrow> field_as d n (mark_set b f)"
  by (cases f) (simp_all add: field_as_def mark_set_def)

lemma repeated_as:
  assumes "d_shape d \<noteq> Single"
  shows "field_as d n (Repeated s n es) = list_all (elem_typed (d_kind d)) es"
  using assms by (simp add: field_as_def)

lemma keeps_parse_single:
  assumes pv: "pv_typed (d_kind d) pv" and d: "default_typed d" and f: "field_as d n f" and "d_shape d = Single"
  shows "keeps (field_as d n) (parse_single d pv f)"
proof -
  note elem = elem_field [OF assms(4), of n]
  have e: "elem_as (d_kind d) n f" using f by (simp add: elem)
  have "elem_as (d_kind d) n (case d_kind d of UnitK ds \<Rightarrow> clear_field (mutable_unit ds f) | _ \<Rightarrow> f)"
  proof (cases "d_kind d")
    case (UnitK ds)
    have "elem_as (UnitK ds) (f_noser f) (mutable_unit ds f)"
      by (rule mutable_unit_typed) (use e d UnitK in \<open>simp_all add: default_typed_def elem_as_def\<close>)
    then show ?thesis using UnitK e elem_clear [of "UnitK ds" n] by (simp add: elem_as_def del: typed_value.simps)
  qed (use e in simp_all)
  from pv_typedD [OF pv this] show ?thesis
    unfolding parse_single_def elem by (rule frame_part_of) (simp_all add: mark_set_as)
qed

lemma keeps_parse_counted:
  assumes pv: "pv_typed (d_kind d) pv" and d: "default_typed d" and f: "field_as d n f" and s: "d_shape d \<noteq> Single"
  shows "keeps (field_as d n) (parse_counted d pv f)"
  unfolding parse_counted_def
proof (rule frame_bind [OF frame_uint32 [of "field_as d n", OF clear_field_as [OF f]]])
  fix count and w :: wire
  have n: "f_noser f = n" using f by (simp add: field_as_def)
  have "keeps (list_all (elem_typed (d_kind d))) (parse_elems pv (replicate count (resized_elem d)))"
    by (rule keeps_parse_elems [OF pv_elem [OF pv]]) (use resized_elem_typed [OF d] in \<open>simp_all add: list_all_length\<close>)
  then have elems: "keeps (field_as d n) (part_of (Repeated True n) (Repeated True n)
      (parse_elems pv (replicate count (resized_elem d))))"
    by (rule frame_part_of) (simp_all add: repeated_as [OF s])
  have short: "frame_at (field_as d n) (field_as d n) w (leaving (clear_field f) (rfail END_OF_STREAM) w)"
    by (rule frame_at [OF frame_rfail [of "field_as d n" "clear_field f", OF clear_field_as [OF f]]])
  show "frame_at (field_as d n) (field_as d n) w
      (if length (wb_data w) < wb_offset w then leaving (clear_field f) (rfail END_OF_STREAM) w
       else if length (wb_data w) - wb_offset w < count then leaving (clear_field f) (rfail END_OF_STREAM) w
       else part_of (Repeated True (f_noser f)) (Repeated True (f_noser f))
              (parse_elems pv (replicate count (resized_elem d))) w)"
    unfolding n using frame_at [OF elems, of w] short by presburger
qed

lemma keeps_parse_packed:
  assumes pv: "pv_typed (d_kind d) pv" and d: "default_typed d" and f: "field_as d n f" and s: "d_shape d \<noteq> Single"
  shows "keeps (field_as d n) (parse_packed d pv f)"
  unfolding parse_packed_def
proof (rule frame_bind [OF frame_uint32 [of "field_as d n", OF clear_field_as [OF f]]])
  fix len and w :: wire
  have n: "f_noser f = n" using f by (simp add: field_as_def)
  let ?step = "\<lambda>es. part_of (\<lambda>e. es @ [e]) (\<lambda>e. es @ [e]) (pv (fresh_elem d))"
  have "keeps (list_all (elem_typed (d_kind d))) (?step es)" if "list_all (elem_typed (d_kind d)) es" for es
    by (rule frame_part_of [OF pv_elem [OF pv fresh_elem_typed [OF d]]]) (use that in simp_all)
  then have "keeps (list_all (elem_typed (d_kind d))) (read_loop (\<lambda>_ w. wb_offset w < stop) ?step [])" for stop
    by (rule frame_loop) simp_all
  then have "keeps (field_as d n) (part_of (Repeated True n) (Repeated True n)
      (read_loop (\<lambda>_ w. wb_offset w < stop) ?step []))" for stop
    by (rule frame_part_of) (simp_all add: repeated_as [OF s])
  note loop = frame_at [OF this, of w]
  have short: "frame_at (field_as d n) (field_as d n) w (Some (Inl (None, w, clear_field f)))"
    using clear_field_as [OF f] by simp
  show "frame_at (field_as d n) (field_as d n) w
      (if sub64 (length (wb_data w)) (wb_offset w) < len then Some (Inl (None, w, clear_field f))
       else let lastOffset = w64 (wb_offset w + len)
            in part_of (Repeated True (f_noser f)) (Repeated True (f_noser f))
                 (read_loop (\<lambda>_ w. wb_offset w < lastOffset) ?step []) w)"
    unfolding n Let_def using loop [of "w64 (wb_offset w + len)"] short by presburger
qed

lemma keeps_parse_unpacked:
  assumes pv: "pv_typed (d_kind d) pv" and d: "default_typed d" and f: "field_as d n f" and s: "d_shape d \<noteq> Single"
  shows "keeps (field_as d n) (parse_unpacked d pv f)"
proof -
  have n: "f_noser f = n" and es: "list_all (elem_typed (d_kind d)) (f_elems f)"
    using f s by (cases f; simp add: field_as_def)+
  show ?thesis
    unfolding parse_unpacked_def n
    by (rule frame_part_of [OF pv_elem [OF pv fresh_elem_typed [OF d]]]) (use es in \<open>simp_all add: repeated_as [OF s]\<close>)
qed

lemma keeps_parse_field:
  assumes "pv_typed (d_kind d) pv" and "default_typed d" and "field_as d n f"
  shows "keeps (field_as d n) (parse_field d pv f)"
  using keeps_parse_single [OF assms] keeps_parse_counted [OF assms] keeps_parse_packed [OF assms]
    keeps_parse_unpacked [OF assms]
  by (cases "d_shape d") (simp_all add: parse_field_def)

text \<open>The fields of a unit, with their flags \<open>m_noSerialize\<close>.\<close>

definition fields_as :: "desc list \<Rightarrow> bool list \<Rightarrow> field list \<Rightarrow> bool" where
  "fields_as ds ns fs = (typed_unit ds fs \<and> map f_noser fs = ns)"

lemma fields_as_nth:
  "fields_as ds ns fs \<Longrightarrow> i < length ds \<Longrightarrow> field_as (ds ! i) (ns ! i) (fs ! i)"
  by (auto simp: fields_as_def field_as_def typed_unit_def list_all2_conv_all_nth)

lemma fields_as_update:
  assumes "fields_as ds ns fs" and "i < length ds" and "field_as (ds ! i) (ns ! i) f"
  shows "fields_as ds ns (fs[i := f])"
proof -
  have n: "ns = map f_noser fs" and len: "length fs = length ds"
    using assms(1) by (auto simp: fields_as_def typed_unit_def list_all2_lengthD)
  then have "f_noser f = f_noser (fs ! i)" using assms(2,3) by (simp add: field_as_def)
  then have "map f_noser (fs[i := f]) = ns" using assms(2) len by (simp add: n map_update list_update_same_conv)
  then show ?thesis
    using assms by (auto simp: fields_as_def field_as_def typed_unit_def list_all2_conv_all_nth nth_list_update)
qed

lemma skip_unknown_stays: "stays (\<lambda>_. True) (skip_unknown n)"
proof -
  have "stays (\<lambda>_. True) (skip_varint b)" for b
    by (rule staysI)
       (auto simp: skip_varint_def rfail_def rret_def Let_def split: option.splits if_splits intro: same_buf_trans)
  moreover have "stays (\<lambda>_. True) (skip_fixed k)" for k
    by (rule staysI) (auto simp: skip_fixed_def rfail_def rret_def Let_def split: if_splits)
  moreover have "stays (\<lambda>_. True) (rfail UNKNOWN_FIELD_TYPE :: unit reading)"
    by (rule staysI) (auto simp: rfail_def)
  ultimately show ?thesis by (simp add: skip_unknown_def)
qed

lemma deserialize_field_keeps:
  assumes pvs: "\<And>d. d \<in> set ds \<Longrightarrow> pv_typed (d_kind d) (pv d)"
    and ds: "typed_defaults (UnitK ds)" and fs: "fields_as ds ns fs"
  shows "keeps (fields_as ds ns) (deserialize_field (map (\<lambda>d. make_parser d (pv d)) ds) fs fieldId fieldType)"
proof (cases "fieldParser (map (\<lambda>d. make_parser d (pv d)) ds) fieldId")
  case None
  have "keeps (fields_as ds ns) (rbind (leaving fs (skip_unknown fieldType)) (\<lambda>_. rret fs))"
    by (rule frame_rbind [OF frame_leaving [of "fields_as ds ns", OF fs skip_unknown_stays] frame_rret [of "fields_as ds ns", OF fs]])
  then show ?thesis by (simp add: deserialize_field_def None)
next
  case (Some i)
  let ?p = "map (\<lambda>d. make_parser d (pv d)) ds ! i"
  have i: "i < length ds" using Some by (auto simp: fieldParser_def find_Some_iff rev_nth)
  then have d: "ds ! i \<in> set ds" by simp
  moreover have "default_typed (ds ! i)" using ds d unfolding typed_defaults_unit list_all_iff by blast
  ultimately have "keeps (field_as (ds ! i) (ns ! i)) (parse_field (ds ! i) (pv (ds ! i)) (fs ! i))"
    using keeps_parse_field [OF pvs [OF d] _ fields_as_nth [OF fs i]] by blast
  then have "keeps (field_as (ds ! i) (ns ! i)) (fp_fn ?p (fs ! i))" using i by (simp add: make_parser_def)
  then have "keeps (fields_as ds ns) (part_of (\<lambda>f. fs[i := f]) (\<lambda>f. fs[i := f]) (fp_fn ?p (fs ! i)))"
    by (rule frame_part_of) (rule fields_as_update [OF fs i], assumption)+
  then have "keeps (fields_as ds ns) (raise_r FIELD_PARSING_FAILED
      (part_of (\<lambda>f. fs[i := f]) (\<lambda>f. fs[i := f]) (fp_fn ?p (fs ! i))))"
    by (rule frame_raise)
  then show ?thesis
    unfolding deserialize_field_def Some option.case
    using frame_rfail [of "fields_as ds ns" fs "fields_as ds ns" FIELD_TYPE_MISMATCH, OF fs] by presburger
qed

lemma deserialize_step_keeps:
  assumes "\<And>d. d \<in> set ds \<Longrightarrow> pv_typed (d_kind d) (pv d)"
    and "typed_defaults (UnitK ds)" and fs: "fields_as ds ns fs"
  shows "keeps (fields_as ds ns) (deserialize_step (map (\<lambda>d. make_parser d (pv d)) ds) fs)"
proof (rule frame_pointwise)
  fix w :: wire
  let ?ps = "map (\<lambda>d. make_parser d (pv d)) ds"
  have r: "frame (fields_as ds ns) (\<lambda>_. True) (leaving fs (raise_r END_OF_STREAM unpackUint32))"
    by (rule frame_leaving [of "fields_as ds ns", OF fs stays_raise [OF unpackUint32_stays]])
  note field = frame_at [OF deserialize_field_keeps [OF assms]]
  show "frame_at (fields_as ds ns) (fields_as ds ns) w (deserialize_step ?ps fs w)"
  proof (cases "length (wb_data w) \<le> wb_offset w")
    case False
    show ?thesis
    proof (cases "leaving fs (raise_r END_OF_STREAM unpackUint32) w")
      case (Some r)
      show ?thesis
      proof (cases r)
        case (Inr y)
        obtain tag w1 where y: "y = (tag, w1)" by (cases y)
        have w1: "same_buf w w1" using frame_done [OF r, of w tag w1] Some Inr y by simp
        have "frame_at (fields_as ds ns) (fields_as ds ns) w (leaving fs (rfail INVALID_TAG) w)"
          by (rule frame_at [OF frame_rfail [of "fields_as ds ns", OF fs]])
        then show ?thesis
          using False Some Inr y frame_at_trans [OF w1 field] by (simp add: deserialize_step_def rbind_def)
      next
        case (Inl e)
        then show ?thesis
          using frame_at [OF r, of w] False Some by (cases e) (simp add: deserialize_step_def rbind_def)
      qed
    qed (use False in \<open>simp add: deserialize_step_def rbind_def\<close>)
  qed (simp add: deserialize_step_def)
qed

lemma reset_field_noser [simp]: "f_noser (reset_field d f) = f_noser f"
  by (simp add: reset_field_def split: field.splits)

lemma io_reset_as:
  assumes "fields_as ds ns (snd u)" and "typed_defaults (UnitK ds)"
  shows "fields_as ds ns (snd (io_reset ds b u))"
proof -
  have "length (snd u) = length ds" using assms(1) by (auto simp: fields_as_def typed_unit_def dest: list_all2_lengthD)
  then have "map f_noser (map2 reset_field ds (snd u)) = map f_noser (snd u)"
    by (intro nth_equalityI) simp_all
  then have "map f_noser (snd (io_reset ds b u)) = map f_noser (snd u)" by (simp add: io_reset_def)
  then show ?thesis
    using assms io_reset_typed [of ds u b] by (simp add: fields_as_def)
qed

text \<open>A reset depends only on what the fields are excluded from.\<close>

lemma reset_as:
  assumes "fields_as ds ns fs"
  shows "map2 reset_field ds fs = map2 (\<lambda>d n. reset_field d (Field False n NoUnit)) ds ns"
proof -
  have n: "ns = map f_noser fs" using assms by (simp add: fields_as_def)
  have "reset_field d f = reset_field d (Field False (f_noser f) NoUnit)" for d f
    by (cases "fresh_field d") (simp_all add: reset_field_def)
  then show ?thesis unfolding n by (simp add: zip_map2 comp_def case_prod_unfold)
qed

definition blank_unit :: "desc list \<Rightarrow> bool list \<Rightarrow> unit_state" where
  "blank_unit ds ns = (True, map2 (\<lambda>d n. reset_field d (Field False n NoUnit)) ds ns)"

lemma io_reset_blank: "fields_as ds ns fs \<Longrightarrow> io_reset ds False (c, fs) = blank_unit ds ns"
  by (simp add: io_reset_def blank_unit_def reset_as)

text \<open>\<open>visitors::deserialize\<close>: what it returns is typed, what a failure leaves is blank.\<close>

lemma io_deserialize_with_frame:
  assumes pvs: "\<And>d. d \<in> set ds \<Longrightarrow> pv_typed (d_kind d) (pv d)"
    and ds: "typed_defaults (UnitK ds)" and u: "fields_as ds ns (snd u)"
  shows "frame (\<lambda>u'. u' = blank_unit ds ns) (\<lambda>u'. fields_as ds ns (snd u'))
    (io_deserialize_with ds (map (\<lambda>d. make_parser d (pv d)) ds) u)"
proof -
  let ?ps = "map (\<lambda>d. make_parser d (pv d)) ds"
  have loop: "keeps (fields_as ds ns)
      (read_loop (\<lambda>_ w. wb_offset w < wb_size w) (deserialize_step ?ps) (snd (io_reset ds True u)))"
    by (rule frame_loop [OF deserialize_step_keeps [OF pvs ds]]) (use io_reset_as [OF u ds] in simp_all)
  have "keeps (fields_as ds ns)
      (rbind (read_loop (\<lambda>_ w. wb_offset w < wb_size w) (deserialize_step ?ps) (snd (io_reset ds True u)))
        (\<lambda>fs. if required_set ds fs then rret fs else leaving fs (rfail REQUIRED_FIELD_MISSING)))"
    by (rule frame_rbind [OF loop]) (simp add: frame_rret frame_rfail)
  then show ?thesis
    unfolding io_deserialize_with_def by (rule frame_part_of) (simp_all add: io_reset_blank)
qed

lemma blank_unit_as:
  assumes "typed_defaults (UnitK ds)" and "length ns = length ds"
  shows "fields_as ds ns (snd (blank_unit ds ns))"
proof -
  have "default_typed (ds ! i)" if "i < length ds" for i
    using assms(1) that unfolding typed_defaults_unit by (simp add: list_all_length)
  then have "typed_unit ds (snd (blank_unit ds ns))"
    using assms(2) by (auto simp: typed_unit_def blank_unit_def list_all2_conv_all_nth default_typed_def intro: reset_field_typed)
  moreover have "map f_noser (snd (blank_unit ds ns)) = ns"
    by (rule nth_equalityI) (use assms(2) in \<open>simp_all add: blank_unit_def\<close>)
  ultimately show ?thesis by (simp add: fields_as_def)
qed

lemma io_deserialize_with_keeps:
  assumes "\<And>d. d \<in> set ds \<Longrightarrow> pv_typed (d_kind d) (pv d)"
    and "typed_defaults (UnitK ds)" and "fields_as ds ns (snd u)"
  shows "keeps (\<lambda>u'. fields_as ds ns (snd u')) (io_deserialize_with ds (map (\<lambda>d. make_parser d (pv d)) ds) u)"
proof -
  have "length ns = length ds" using assms(3) by (auto simp: fields_as_def typed_unit_def dest: list_all2_lengthD)
  then have blank: "fields_as ds ns (snd (blank_unit ds ns))" by (rule blank_unit_as [OF assms(2)])
  have "frame (\<lambda>u'. u' = blank_unit ds ns) (\<lambda>u'. fields_as ds ns (snd u'))
    (io_deserialize_with ds (map (\<lambda>d. make_parser d (pv d)) ds) u)"
    by (rule io_deserialize_with_frame [OF assms])
  then have "keeps (\<lambda>u'. fields_as ds ns (snd u'))
      (part_of (\<lambda>u. u) (\<lambda>u. u) (io_deserialize_with ds (map (\<lambda>d. make_parser d (pv d)) ds) u))"
    by (rule frame_part_of) (simp_all add: blank)
  moreover have "part_of (\<lambda>u. u) (\<lambda>u. u) m = m" for m :: "unit_state parsing"
    by (rule ext) (simp add: part_of_def split: option.split sum.split prod.split)
  ultimately show ?thesis by simp
qed

lemma put_value_as: "typed_value k v \<Longrightarrow> elem_as k (f_noser f) (put_value v f)"
  by (simp add: elem_as_def single_typed_def put_value_def)

lemma UnitV_typed: "fields_as ds ns (snd u) \<Longrightarrow> elem_as (UnitK ds) n (Field True n (UnitV (fst u) (snd u)))"
  by (simp add: elem_as_def single_typed_def fields_as_def typed_unit_def list_all2_map1)

lemma field_num_typed:
  "elem_typed (ScalarK t) f \<Longrightarrow> varint_fits t (field_num f)"
  "elem_typed (FixedK t') f \<Longrightarrow> fixed_fits t' (field_num f)"
  by (auto simp: single_typed_def field_num_def split: field.splits fval.splits)

lemma mutable_unit_fields:
  assumes "elem_typed (UnitK ds) f" and "typed_defaults (UnitK ds)"
  shows "fields_as ds (map f_noser (snd (field_unit (mutable_unit ds f)))) (snd (field_unit (mutable_unit ds f)))"
  using mutable_unit_typed [OF assms]
  by (auto simp: mutable_unit_def field_unit_def elem_as_def single_typed_def fields_as_def typed_unit_def list_all2_map1
      split: field.splits fval.splits)

lemma parse_value_typed: "typed_defaults k \<Longrightarrow> pv_typed k (parse_value k)"
proof (induction k rule: parse_value.induct)
  case (1 t)
  show ?case
    unfolding pv_typed_def parse_value.simps
    by (intro allI impI frame_part_of [OF VariableSer_typed] put_value_as) simp_all
next
  case (2 t)
  show ?case
    unfolding pv_typed_def parse_value.simps
    by (intro allI impI frame_part_of [OF FixedSer_typed] put_value_as) (simp_all add: field_num_typed(2) del: typed_value.simps, simp_all)
next
  case (3 m)
  show ?case
    unfolding pv_typed_def parse_value.simps
    by (intro allI impI frame_part_of [OF BytesSer_typed] put_value_as) simp_all
next
  case (4 ds)
  have pvs: "pv_typed (d_kind d) (parse_value (d_kind d))" if "d \<in> set ds" for d
    using 4 that by auto
  show ?case
    unfolding pv_typed_def parse_value.simps
  proof (intro allI impI)
    fix f assume "elem_typed (UnitK ds) f"
    from mutable_unit_fields [OF this 4(2)]
    have "keeps (\<lambda>u. fields_as ds (map f_noser (snd (field_unit (mutable_unit ds f)))) (snd u))
        (UnitSer_deserialize (\<lambda>u. required_set ds (snd u))
        (io_deserialize_with ds (map (\<lambda>d. make_parser d (parse_value (d_kind d))) ds))
        (field_unit (mutable_unit ds f)))"
      by (intro keeps_UnitSer io_deserialize_with_keeps [OF pvs 4(2)])
    then show "keeps (elem_as (UnitK ds) (f_noser f))
       (part_of (\<lambda>u. Field True (f_noser f) (UnitV (fst u) (snd u))) (\<lambda>u. Field True (f_noser f) (UnitV (fst u) (snd u)))
        (UnitSer_deserialize (\<lambda>u. required_set ds (snd u))
        (io_deserialize_with ds (map (\<lambda>d. make_parser d (parse_value (d_kind d))) ds))
        (field_unit (mutable_unit ds f))))"
      by (rule frame_part_of) (rule UnitV_typed, assumption)+
  qed
qed

lemma io_deserialize_frame:
  assumes "typed_unit ds (snd u)" and "typed_defaults (UnitK ds)"
  shows "frame (\<lambda>u'. u' = io_reset ds False u) (\<lambda>u'. typed_unit ds (snd u')) (io_deserialize ds u)"
proof -
  have u: "fields_as ds (map f_noser (snd u)) (snd u)" using assms(1) by (simp add: fields_as_def)
  have "pv_typed (d_kind d) (parse_value (d_kind d))" if "d \<in> set ds" for d
    by (rule parse_value_typed) (use assms(2) that in simp)
  from io_deserialize_with_frame [OF this assms(2) u]
  have "frame (\<lambda>u'. u' = blank_unit ds (map f_noser (snd u))) (\<lambda>u'. fields_as ds (map f_noser (snd u)) (snd u')) (io_deserialize ds u)"
    unfolding io_deserialize_def .
  moreover have "blank_unit ds (map f_noser (snd u)) = io_reset ds False u"
    using io_reset_blank [OF u, of "fst u"] by simp
  ultimately have f: "frame (\<lambda>u'. u' = io_reset ds False u) (\<lambda>u'. fields_as ds (map f_noser (snd u)) (snd u')) (io_deserialize ds u)"
    by (simp only:)
  show ?thesis
    by (rule frameI) (use frame_failed [OF f] frame_done [OF f] in \<open>auto simp: fields_as_def\<close>)
qed

subsection \<open>Properties\<close>

text \<open>C6: whatever the bytes, a call of the parser that returns leaves every field of the unit with a value of
  its type, whether it succeeds or fails: integers in the range of the C++ type, fixed strings within their
  capacity, repeated fields of such values, subunits with fields of their own description.\<close>

theorem parse_well_typed:
  assumes "typed_unit ds fs" and "typed_defaults (UnitK ds)"
    and "deserializeInline ds (c, fs) bytes = Some (r, (c', gs))"
  shows "typed_unit ds gs"
proof -
  have f: "frame (\<lambda>u'. u' = io_reset ds False (c, fs)) (\<lambda>u'. typed_unit ds (snd u')) (io_deserialize ds (c, fs))"
    by (rule io_deserialize_frame) (use assms(1,2) in simp_all)
  obtain res where res: "io_deserialize ds (c, fs) (wire_of bytes) = Some res"
    using assms(3) by (auto simp: deserializeInline_def unit_deserialize_def split: option.splits)
  show ?thesis
  proof (cases res)
    case (Inl e)
    then obtain e1 w1 u1 where e: "res = Inl (e1, w1, u1)" by (cases e) auto
    then have "gs = snd (io_reset ds False (c, fs))"
      using frame_failed [OF f, of "wire_of bytes"] assms(3) res
      by (auto simp: deserializeInline_def unit_deserialize_def)
    then show ?thesis using io_reset_typed [of ds "(c, fs)" False] assms(1,2) by simp
  next
    case (Inr x)
    then show ?thesis
      using frame_done [OF f, of "wire_of bytes"] assms(3) res
      by (cases x) (auto simp: deserializeInline_def unit_deserialize_def)
  qed
qed

theorem parse_well_typed_witness:
  "typed_unit example_unit (snd (fresh_unit example_unit)) \<and> typed_defaults (UnitK example_unit) \<and>
   (\<exists>r c gs. deserializeInline example_unit (fresh_unit example_unit) (enc_unit example_unit example_fields) =
      Some (r, (c, gs)) \<and> typed_unit example_unit gs)"
proof -
  have d: "typed_defaults (UnitK example_unit)"
    by (simp add: example_unit_def default_value_def bytes_fits_def varint_fits_def fixed_fits_def in_range_def
        varint_signed_def varint_zigzag_def fixed_signed_def)
  then have t: "typed_unit example_unit (snd (fresh_unit example_unit))" by (rule fresh_unit_typed)
  have ok: "wf_unit example_unit" "fits_unit example_unit example_fields" using example_fits by simp_all
  have len: "length example_fields = length example_unit" by (simp add: example_unit_def example_fields_def)
  obtain gs where gs: "advances (parsers example_unit) (snd (io_reset example_unit True (fresh_unit example_unit)))
        (enc_unit example_unit example_fields) gs"
      "shows_sent example_unit (zip example_unit example_fields)
        (snd (io_reset example_unit True (fresh_unit example_unit))) gs"
    using ready_advances [OF ok(1) sent_readable [OF ok] ok(1) len fresh_ready [OF ok(1)]] by blast
  have "required_set example_unit gs" by (rule required_shown [OF gs(2)]) (rule required_sent [OF ok])
  then have run: "deserializeInline example_unit (fresh_unit example_unit) (enc_unit example_unit example_fields) =
      Some (Inr (), (False, gs))"
    using deserialize_ready [OF gs(1)] example_enc by simp
  then have "typed_unit example_unit gs"
    using parse_well_typed [of example_unit "snd (fresh_unit example_unit)" "fst (fresh_unit example_unit)"] t d
    by simp
  then show ?thesis using t d run by blast
qed

text \<open>The unit when the loop has gone through a message that lacks a required field.\<close>

lemma io_deserialize_incomplete:
  assumes "advances (parsers rs) (snd (io_reset rs True u)) bs gs" and "\<not> required_set rs gs"
    and "wb_data w = pre @ bs" and "wb_offset w = length pre" and "wb_size w = length (wb_data w)"
    and "length (wb_data w) < 2147483648"
  shows "io_deserialize rs u w =
    Some (Inl (Some REQUIRED_FIELD_MISSING, w\<lparr>wb_offset := length (wb_data w)\<rparr>, io_reset rs False (False, gs)))"
proof -
  let ?w1 = "w\<lparr>wb_offset := length (wb_data w)\<rparr>"
  have "unit_loop (parsers rs) (snd (io_reset rs True u)) w = unit_loop (parsers rs) gs ?w1"
    using assms(1) [unfolded advances_def, rule_format, of w pre "[]"] assms(3-6) by simp
  also have "\<dots> = Some (Inr (gs, ?w1))" by (rule read_loop_stop) (use assms(5) in simp)
  finally show ?thesis
    using assms(2) by (simp add: io_deserialize_def io_deserialize_with_def rbind_def part_of_def leaving_def rfail_def)
qed

lemma failed_deserialize:
  assumes "typed_unit ds (snd u)" and "typed_defaults (UnitK ds)" and "unit_deserialize ds u w = Some (Inl e, u', w')"
  shows "u' = (True, map2 reset_field ds (snd u)) \<and> w' = w\<lparr>wb_offset := 0\<rparr>"
proof -
  obtain w1 where run: "io_deserialize ds u w = Some (Inl (e, w1, u'))" "w' = wb_resetState w1"
    using assms(3) by (auto simp: unit_deserialize_def split: option.splits sum.splits)
  from frame_failed [OF io_deserialize_frame [OF assms(1,2)] run(1)]
  show ?thesis using run(2) by (cases w; cases w1) (simp add: io_reset_def same_buf_def wb_resetState_def)
qed

text \<open>C5: a call of the parser that fails resets what it has filled by then, the fields of the unit and the offset
  of the buffer: whatever the unit held before, clean or not, wherever the buffer stood and on whatever byte
  the failure is found, afterwards the unit is clean, every field is unset with its default value, whether to serialize
  a field is kept, and the buffer is as before with the offset zero. The unit's fields and the declared defaults
  are of their types.\<close>

theorem unit_failure_resets:
  assumes "typed_unit ds (snd u)" and "typed_defaults (UnitK ds)" and "unit_deserialize ds u w = Some (Inl e, u', w')"
  shows "u' = (True, map2 (\<lambda>d f. if d_shape d = Single then Field False (f_noser f) (default_value d)
                             else Repeated False (f_noser f) []) ds (snd u)) \<and>
    w' = w\<lparr>wb_offset := 0\<rparr>"
proof -
  have "reset_field = (\<lambda>d f. if d_shape d = Single then Field False (f_noser f) (default_value d)
      else Repeated False (f_noser f) [])"
    by (simp add: fun_eq_iff reset_field_def fresh_field_def)
  then show ?thesis using failed_deserialize [OF assms] by simp
qed

text \<open>A whole message with a null tag behind it, read into a unit that was filled before.\<close>

lemma null_tag_fails:
  assumes "advances (parsers rs) (snd (io_reset rs True u)) bs gs" and "w = wire_of (bs @ [0])"
    and "length bs < 2147483647"
  shows "io_deserialize rs u w = Some (Inl (Some INVALID_TAG, w\<lparr>wb_offset := length bs\<rparr>, io_reset rs False (False, gs)))"
proof -
  let ?w1 = "w\<lparr>wb_offset := length bs\<rparr>"
  have "unpackUint32 ?w1 = Some (Inr (0, ?w1\<lparr>wb_offset := length bs + length (leb128 0)\<rparr>))"
    by (rule readsD [OF unpackUint32_reads, of _ _ _ "[]"]) (use assms(2,3) in \<open>simp_all add: wire_of_def leb128.simps\<close>)
  then have "deserialize_step (parsers rs) gs ?w1 = Some (Inl (Some INVALID_TAG, ?w1, gs))"
    using assms(2) by (simp add: deserialize_step_def rbind_def leaving_def raise_r_def rfail_def wire_of_def)
  then have "unit_loop (parsers rs) gs ?w1 = Some (Inl (Some INVALID_TAG, ?w1, gs))"
    by (intro read_loop_fail) (use assms(2) in \<open>simp add: wire_of_def\<close>)
  moreover have "unit_loop (parsers rs) (snd (io_reset rs True u)) w = unit_loop (parsers rs) gs ?w1"
    using assms(1) [unfolded advances_def, rule_format, of w "[]" "[0]"] assms(2,3) by (simp add: wire_of_def)
  ultimately show ?thesis by (simp add: io_deserialize_def io_deserialize_with_def rbind_def part_of_def)
qed

lemma example_typed: "typed_unit example_unit example_fields" "typed_defaults (UnitK example_unit)"
  by (simp_all add: typed_unit_def single_typed_def example_unit_def example_fields_def default_value_def bytes_fits_def
      varint_fits_def fixed_fits_def in_range_def varint_signed_def varint_zigzag_def fixed_signed_def)

theorem unit_failure_resets_witness:
  "typed_unit example_unit example_fields \<and> typed_defaults (UnitK example_unit) \<and>
   unit_deserialize example_unit (False, example_fields) (wire_of (enc_unit example_unit example_fields @ [0])) =
     Some (Inl (Some INVALID_TAG), (True, [Field False False (Num 0), Field False False (Bytes []),
       Field False False NoUnit, Repeated False False []]), wire_of (enc_unit example_unit example_fields @ [0]))"
proof -
  let ?u = "(False, example_fields)" and ?w = "wire_of (enc_unit example_unit example_fields @ [0])"
  have ok: "wf_unit example_unit" "fits_unit example_unit example_fields" using example_fits by simp_all
  have len: "length example_fields = length example_unit" by (simp add: example_unit_def example_fields_def)
  have ready: "ready example_unit ?u" using len by (simp add: ready_def)
  obtain gs where "advances (parsers example_unit) (snd (io_reset example_unit True ?u))
      (enc_unit example_unit example_fields) gs"
    using ready_advances [OF ok(1) sent_readable [OF ok] ok(1) len ready] by blast
  from null_tag_fails [OF this refl]
  obtain u' w' where run: "unit_deserialize example_unit ?u ?w = Some (Inl (Some INVALID_TAG), u', w')"
    using example_enc by (simp add: unit_deserialize_def)
  from unit_failure_resets [OF _ example_typed(2) run] example_typed(1)
  have "u' = (True, [Field False False (Num 0), Field False False (Bytes []), Field False False NoUnit,
      Repeated False False []]) \<and> w' = ?w"
    by (simp add: example_unit_def example_fields_def default_value_def wire_of_def)
  then show ?thesis using run example_typed by simp
qed

text \<open>C4: a message that lacks a field the reader requires is refused as incomplete, wherever in a buffer it
  stands and whichever unit takes it, one without set fields or one parsed into before; the unit and the offset of
  the buffer are reset. The message is a serialized unit of which the reader can skip the fields that it does not have,
  as for \<open>unit_versions\<close>.\<close>

theorem unit_required_missing:
  assumes "wf_unit ds" and "wf_unit rs" and "fits_unit ds fs"
    and "list_all2 (\<lambda>d f. d \<in> set rs \<or> d_id d \<notin> d_id ` set rs \<and> (present f \<longrightarrow> skippable d f)) ds fs"
    and "r \<in> set rs" and "d_required r" and "r \<notin> set ds"
    and "ready rs u" and "typed_unit rs (snd u)" and "typed_defaults (UnitK rs)"
    and "wb_data w = pre @ enc_unit ds fs" and "wb_offset w = length pre" and "wb_size w = length (wb_data w)"
    and "length (wb_data w) < 2147483648"
  shows "unit_deserialize rs u w =
    Some (Inl (Some REQUIRED_FIELD_MISSING), (True, map2 reset_field rs (snd u)), w\<lparr>wb_offset := 0\<rparr>)"
proof -
  have len: "length fs = length ds" using fits_unit_nth [OF assms(3)] by simp
  have "readable rs d f" if "(d, f) \<in> set (zip ds fs)" for d f
    using sent_readable [OF assms(1,3) that] that assms(4) by (auto simp: readable_def list_all2_iff)
  then obtain gs where gs: "advances (parsers rs) (snd (io_reset rs True u)) (enc_unit ds fs) gs"
      "shows_sent rs (zip ds fs) (snd (io_reset rs True u)) gs"
    using ready_advances [OF assms(2) _ assms(1) len assms(8)] by blast
  obtain i where i: "i < length rs" "rs ! i = r" using assms(5) by (auto simp: in_set_conv_nth)
  have "map_of (zip ds fs) r = None" using assms(7) by (auto simp: map_of_eq_None_iff dest: set_zip_leftD)
  then have "gs ! i = snd (io_reset rs True u) ! i" using gs(2) i by (auto simp: shows_sent_def)
  moreover have "unset_of r (snd (io_reset rs True u) ! i)"
    using ready_reset [OF assms(2,8)] i by (auto simp: list_all2_conv_all_nth)
  ultimately have "\<not> f_set (gs ! i)" using unset_of_f_set by metis
  then have "\<not> required_set rs gs"
    using i assms(6) by (auto simp: required_set_def list_all2_conv_all_nth)
  from io_deserialize_incomplete [OF gs(1) this assms(11-14)]
  obtain u' w' where run: "unit_deserialize rs u w = Some (Inl (Some REQUIRED_FIELD_MISSING), u', w')"
    by (simp add: unit_deserialize_def)
  from failed_deserialize [OF assms(9,10) run] run show ?thesis by simp
qed

theorem unit_required_missing_witness:
  "wf_unit example_unit \<and> wf_unit (Desc 5 True None Single (BytesK 8) # example_unit) \<and>
   unit_deserialize (Desc 5 True None Single (BytesK 8) # example_unit)
      (False, Field True True (Bytes [1]) # example_fields)
      \<lparr>wb_data = [0] @ enc_unit example_unit example_fields, wb_size = 32, wb_offset = 1\<rparr> =
    Some (Inl (Some REQUIRED_FIELD_MISSING),
      (True, [Field False True (Bytes []), Field False False (Num 0), Field False False (Bytes []),
        Field False False NoUnit, Repeated False False []]),
      \<lparr>wb_data = [0] @ enc_unit example_unit example_fields, wb_size = 32, wb_offset = 0\<rparr>)"
proof -
  let ?r = "Desc 5 True None Single (BytesK 8)"
  let ?rs = "?r # example_unit" and ?us = "Field True True (Bytes [1]) # example_fields"
  have wf: "wf_unit ?rs" "?r \<notin> set example_unit"
    by (simp_all add: wf_unit_def wf_desc_def example_unit_def)
  have skip: "list_all2 (\<lambda>d f. d \<in> set ?rs \<or> d_id d \<notin> d_id ` set ?rs \<and> (present f \<longrightarrow> skippable d f))
      example_unit example_fields"
    by (simp add: example_unit_def example_fields_def)
  have typed: "typed_unit ?rs ?us" "typed_defaults (UnitK ?rs)"
    by (simp_all add: typed_unit_def single_typed_def example_unit_def example_fields_def default_value_def bytes_fits_def
        varint_fits_def fixed_fits_def in_range_def varint_signed_def varint_zigzag_def fixed_signed_def)
  have ready: "ready ?rs (False, ?us)" by (simp add: ready_def example_unit_def example_fields_def)
  have "map2 reset_field ?rs ?us = [Field False True (Bytes []), Field False False (Num 0),
      Field False False (Bytes []), Field False False NoUnit, Repeated False False []]"
    by (simp add: reset_field_def fresh_field_def default_value_def example_unit_def example_fields_def)
  then show ?thesis
    using unit_required_missing [of example_unit ?rs example_fields ?r "(False, ?us)"
        "\<lparr>wb_data = [0] @ enc_unit example_unit example_fields, wb_size = 32, wb_offset = 1\<rparr>" "[0]"]
      wf skip typed ready example_fits example_enc by simp
qed

end
