(* ===== verification/UnitSize.thy ===== *)
theory UnitSize
  imports UnitCodec
begin

section \<open>The estimated size of a unit: visitors::size, unit_t::maxPackedSize\<close>

text \<open>
  The estimate that \<open>unit.h\<close> promises to be never less than the size of the serialized unit, and that the
  serialization into a container allocates. It counts a tag of five bytes for each field and the size of
  its value; the values of repeated scalars count with the size of their type in memory.
\<close>

fun type_sizeof :: "kind \<Rightarrow> nat" where
  "type_sizeof (ScalarK t) = varint_bits t div 8"
| "type_sizeof (FixedK t) = fixed_size t"
| "type_sizeof _ = 0"

fun isSizeIterateNeeded :: "kind \<Rightarrow> bool" where
  "isSizeIterateNeeded (BytesK m) = True"
| "isSizeIterateNeeded (UnitK ds) = True"
| "isSizeIterateNeeded _ = False"

text \<open>\<open>fieldSize\<close> of single and repeated fields, with \<open>valueSize\<close> of the type as an argument.\<close>

definition fieldSize :: "desc \<Rightarrow> (field \<Rightarrow> nat) \<Rightarrow> field \<Rightarrow> nat" where
  "fieldSize d valueSize f =
     (let count = length (f_elems f); sz = type_sizeof (d_kind d) in
      case d_shape d of
        Single \<Rightarrow> (case d_kind d of ScalarK t \<Rightarrow> 10 | _ \<Rightarrow> valueSize f)
      | Counted \<Rightarrow>
          if isSizeIterateNeeded (d_kind d) then sum_list (map valueSize (f_elems f)) else count * sz
      | ProtobufPacked \<Rightarrow> count * sz + 5
      | ProtobufUnpacked \<Rightarrow>
          if isSizeIterateNeeded (d_kind d) then sum_list (map (\<lambda>e. valueSize e + 4) (f_elems f))
          else count * (sz + 4))"

fun valueSize :: "kind \<Rightarrow> field \<Rightarrow> nat" where
  "valueSize (BytesK m) = (\<lambda>f. length (field_bytes f) + 4)"
| "valueSize (UnitK ds) = (\<lambda>f.
     case f of
       Field s n (UnitV c fs) \<Rightarrow>
         sum_list (map2 (\<lambda>sz f. 5 + sz f) (map (\<lambda>d. fieldSize d (valueSize (d_kind d))) ds) fs) + 5
     | _ \<Rightarrow> 5)"
| "valueSize k = (\<lambda>f. type_sizeof k)"

definition io_size :: "desc list \<Rightarrow> field list \<Rightarrow> nat" where
  "io_size ds fs = sum_list (map2 (\<lambda>d f. 5 + fieldSize d (valueSize (d_kind d)) f) ds fs)"

lemma valueSize_unit: "valueSize (UnitK ds) (Field s n (UnitV c fs)) = io_size ds fs + 5"
  by (simp add: io_size_def map2_map_map zip_map1 comp_def split_def)

subsection \<open>When the estimate is enough\<close>

text \<open>The descriptions for which it is: no repeated varints, and the tags of the elements, or
  tag and count, within what is counted for them.\<close>

definition is_scalar :: "kind \<Rightarrow> bool" where
  "is_scalar k = (case k of ScalarK t \<Rightarrow> True | _ \<Rightarrow> False)"

definition size_kept :: "desc \<Rightarrow> bool" where
  "size_kept d =
     (case d_shape d of
        Single \<Rightarrow> True
      | Counted \<Rightarrow> \<not> is_scalar (d_kind d) \<and> d_id d < 16
      | ProtobufPacked \<Rightarrow> \<not> is_scalar (d_kind d)
      | ProtobufUnpacked \<Rightarrow> \<not> is_scalar (d_kind d) \<and> d_id d < 33554432)"

fun sizes_kept :: "kind \<Rightarrow> bool" where
  "sizes_kept (UnitK ds) = (\<forall>d \<in> set ds. size_kept d \<and> sizes_kept (d_kind d))"
| "sizes_kept (ScalarK t) = True"
| "sizes_kept (FixedK t) = True"
| "sizes_kept (BytesK m) = True"

definition size_covers :: "kind \<Rightarrow> bool" where
  "size_covers k \<longleftrightarrow> (\<forall>f. fits_value k f \<longrightarrow> length (enc_value k f) < 268435456 \<longrightarrow>
     length (enc_value k f) \<le> (if is_scalar k then 10 else valueSize k f))"

lemma leb128_short: "n < 268435456 \<Longrightarrow> length (leb128 n) \<le> 4"
  using leb128_length_le [of n 4] by simp

lemma tag_short:
  "wf_desc d \<Longrightarrow> length (tag_enc d t) \<le> 5"
  "d_id d < 33554432 \<Longrightarrow> length (tag_enc d t) \<le> 4"
  "d_id d < 16 \<Longrightarrow> length (tag_enc d t) = 1"
proof -
  have t: "wire_number t < 8" by (cases t) simp_all
  show "wf_desc d \<Longrightarrow> length (tag_enc d t) \<le> 5"
    using leb128_size_32 [of "8 * d_id d + wire_number t"] t by (simp add: tag_enc_def wf_desc_def)
  show "d_id d < 33554432 \<Longrightarrow> length (tag_enc d t) \<le> 4"
    using leb128_short [of "8 * d_id d + wire_number t"] t by (simp add: tag_enc_def)
  show "d_id d < 16 \<Longrightarrow> length (tag_enc d t) = 1"
    using t by (simp add: tag_enc_def leb128_last)
qed

lemma length_concat_le:
  assumes "\<And>e. e \<in> set es \<Longrightarrow> length (ev e) < N \<Longrightarrow> length (ev e) \<le> sz e"
    and "length (concat (map ev es)) < N"
  shows "length (concat (map ev es)) \<le> sum_list (map sz es)"
  using assms
proof (induction es)
  case (Cons e es)
  then have "length (ev e) \<le> sz e" "length (concat (map ev es)) \<le> sum_list (map sz es)"
    by (simp_all del: length_concat)
  then show ?case by (simp del: length_concat)
qed simp

lemma fieldSize_repeated:
  assumes "\<not> is_scalar (d_kind d)"
  shows "d_shape d = Counted \<Longrightarrow> fieldSize d (valueSize (d_kind d)) f = sum_list (map (valueSize (d_kind d)) (f_elems f))"
    and "d_shape d = ProtobufUnpacked \<Longrightarrow>
      fieldSize d (valueSize (d_kind d)) f = sum_list (map (\<lambda>e. valueSize (d_kind d) e + 4) (f_elems f))"
  using assms by (cases "d_kind d"; simp add: fieldSize_def is_scalar_def sum_list_triv Let_def)+

lemma fieldSize_covers:
  assumes "wf_desc d" and "size_kept d" and "size_covers (d_kind d)"
    and "fits_member d (fits_value (d_kind d)) f" and "length (enc_member d (enc_value (d_kind d)) f) < 268435456"
  shows "length (enc_member d (enc_value (d_kind d)) f) \<le> 5 + fieldSize d (valueSize (d_kind d)) f"
proof -
  let ?ev = "enc_value (d_kind d)" and ?vs = "valueSize (d_kind d)" and ?es = "f_elems f"
  have elem: "length (?ev e) \<le> ?vs e"
    if "\<not> is_scalar (d_kind d)" "fits_value (d_kind d) e" "length (?ev e) < 268435456" for e
    using assms(3) that by (simp add: size_covers_def)
  show ?thesis
  proof (cases "d_shape d")
    case Single
    then have "fits_value (d_kind d) f" "length (?ev f) < 268435456" using assms(4,5) by (simp_all add: fits_member_def enc_member_def)
    then have "length (?ev f) \<le> (if is_scalar (d_kind d) then 10 else ?vs f)"
      using assms(3) unfolding size_covers_def by blast
    also have "\<dots> = fieldSize d ?vs f"
      using Single by (simp add: fieldSize_def is_scalar_def Let_def split: kind.split)
    finally have "length (?ev f) \<le> fieldSize d ?vs f" .
    then show ?thesis using Single tag_short(1) [OF assms(1), of "fieldWireType d"] by (simp add: enc_member_def)
  next
    case Counted
    have k: "\<not> is_scalar (d_kind d)" "d_id d < 16" using assms(2) Counted by (simp_all add: size_kept_def)
    have fits: "list_all (fits_value (d_kind d)) ?es" using assms(4) Counted by (simp add: fits_member_def)
    have "length ?es \<le> length (concat (map ?ev ?es))"
      by (rule concat_map_length) (use fits enc_value_not_nil in \<open>auto simp: list_all_iff\<close>)
    then have "length (leb128 (length ?es)) \<le> 4"
      using assms(5) Counted by (intro leb128_short) (simp add: enc_member_def del: length_concat)
    moreover have "length (concat (map ?ev ?es)) \<le> sum_list (map ?vs ?es)"
      by (rule length_concat_le [where N = 268435456])
         (use fits elem k(1) assms(5) Counted in \<open>simp_all add: list_all_iff enc_member_def del: length_concat\<close>)
    ultimately show ?thesis using Counted tag_short(3) [OF k(2), of WithLength] fieldSize_repeated(1) [OF k(1) Counted, of f]
      by (simp add: enc_member_def del: length_concat)
  next
    case ProtobufPacked
    have k: "\<not> is_scalar (d_kind d)" using assms(2) ProtobufPacked by (simp add: size_kept_def)
    then obtain t where t: "d_kind d = FixedK t"
      using assms(1) ProtobufPacked by (cases "d_kind d") (auto simp: wf_desc_def is_scalar_def)
    have "length (concat (map ?ev es)) = length es * fixed_size t" for es
      by (induction es) (simp_all add: t)
    then show ?thesis
      using ProtobufPacked tag_short(1) [OF assms(1), of WithLength] leb128_size_32 [of "length ?es * fixed_size t"]
        assms(5)
      by (simp add: enc_member_def Let_def fieldSize_def t del: length_concat)
  next
    case ProtobufUnpacked
    have k: "\<not> is_scalar (d_kind d)" "d_id d < 33554432" using assms(2) ProtobufUnpacked by (simp_all add: size_kept_def)
    have fits: "list_all (fits_value (d_kind d)) ?es" using assms(4) ProtobufUnpacked by (simp add: fits_member_def)
    let ?t = "tag_enc d (kind_wire_type (d_kind d))"
    have "length (concat (map (\<lambda>e. ?t @ ?ev e) ?es)) \<le> sum_list (map (\<lambda>e. ?vs e + 4) ?es)"
    proof (rule length_concat_le [where N = 268435456])
      fix e assume "e \<in> set ?es" "length (?t @ ?ev e) < 268435456"
      then show "length (?t @ ?ev e) \<le> ?vs e + 4"
        using fits elem [OF k(1), of e] tag_short(2) [OF k(2), of "kind_wire_type (d_kind d)"]
        by (simp add: list_all_iff)
    qed (use assms(5) ProtobufUnpacked in \<open>simp add: enc_member_def del: length_concat\<close>)
    then show ?thesis using ProtobufUnpacked fieldSize_repeated(2) [OF k(1) ProtobufUnpacked, of f]
      by (simp add: enc_member_def del: length_concat)
  qed
qed

lemma length_concat_le2:
  assumes "list_all2 (\<lambda>d f. length (e d f) < N \<longrightarrow> length (e d f) \<le> sz d f) ds fs"
    and "length (concat (map2 e ds fs)) < N"
  shows "length (concat (map2 e ds fs)) \<le> sum_list (map2 sz ds fs)"
  using assms
proof (induction rule: list_all2_induct)
  case (Cons d ds f fs)
  then have "length (e d f) \<le> sz d f" "length (concat (map2 e ds fs)) \<le> sum_list (map2 sz ds fs)"
    by (simp_all del: length_concat)
  then show ?case by (simp del: length_concat)
qed simp

lemma enc_unit_covered:
  assumes "wf_unit ds" and "fits_unit ds fs" and "\<And>d. d \<in> set ds \<Longrightarrow> size_kept d \<and> size_covers (d_kind d)"
    and "length (enc_unit ds fs) < 268435456"
  shows "length (enc_unit ds fs) \<le> io_size ds fs"
  unfolding enc_unit_def io_size_def
proof (rule length_concat_le2 [where N = 268435456])
  have "length (enc_field d (enc_value (d_kind d)) f) < 268435456 \<longrightarrow>
      length (enc_field d (enc_value (d_kind d)) f) \<le> 5 + fieldSize d (valueSize (d_kind d)) f"
    if "d \<in> set ds" "fits_field d (fits_value (d_kind d)) f" for d f
    using fieldSize_covers [of d f] assms(1,3) that
    by (auto simp: enc_field_def fits_field_def wf_unit_def)
  then show "list_all2 (\<lambda>d f. length (enc_field d (enc_value (d_kind d)) f) < 268435456 \<longrightarrow>
      length (enc_field d (enc_value (d_kind d)) f) \<le> 5 + fieldSize d (valueSize (d_kind d)) f) ds fs"
    using assms(2) unfolding fits_unit_def by (auto simp: list_all2_conv_all_nth)
qed (use assms(4) in \<open>simp add: enc_unit_def\<close>)

lemma kind_covered: "wf_kind k \<Longrightarrow> sizes_kept k \<Longrightarrow> size_covers k"
proof (induction k rule: sizes_kept.induct)
  case (1 ds)
  have wf: "wf_unit ds" using "1.prems"(1) unfolding wf_kind_unit .
  have d: "size_kept d \<and> size_covers (d_kind d)" if "d \<in> set ds" for d
    using "1.IH" [OF that] "1.prems"(2) that wf by (auto simp: wf_unit_def wf_desc_def)
  show ?case
    unfolding size_covers_def
  proof (intro allI impI)
    fix f assume f: "fits_value (UnitK ds) f" "length (enc_value (UnitK ds) f) < 268435456"
    then obtain n c fs where u: "f = Field True n (UnitV c fs)" "fits_unit ds fs"
      unfolding fits_value_unit by blast
    have len: "length (enc_value (UnitK ds) f) = 5 + length (enc_unit ds fs)"
      using f(2) unit_size_groups [of "length (enc_unit ds fs)"]
      by (simp add: enc_value_unit u(1) field_unit_def del: enc_value.simps)
    then have "length (enc_unit ds fs) \<le> io_size ds fs" using f(2) by (intro enc_unit_covered [OF wf u(2) d]) simp_all
    then have "length (enc_value (UnitK ds) f) \<le> valueSize (UnitK ds) f"
      unfolding len by (simp only: u(1) valueSize_unit)
    then show "length (enc_value (UnitK ds) f) \<le> (if is_scalar (UnitK ds) then 10 else valueSize (UnitK ds) f)"
      by (simp only: is_scalar_def kind.case if_False)
  qed
next
  case (2 t)
  show ?case
    by (auto simp: size_covers_def is_scalar_def field_num_def dest!: varint_enc_size split: field.splits fval.splits)
next
  case (3 t)
  show ?case by (simp add: size_covers_def is_scalar_def)
next
  case (4 m)
  show ?case
  proof (unfold size_covers_def, intro allI impI)
    fix f assume "length (enc_value (BytesK m) f) < 268435456"
    then have "length (leb128 (length (field_bytes f))) \<le> 4" by (intro leb128_short) (simp add: bytes_enc_def)
    then show "length (enc_value (BytesK m) f) \<le> (if is_scalar (BytesK m) then 10 else valueSize (BytesK m) f)"
      by (simp add: is_scalar_def bytes_enc_def)
  qed
qed

text \<open>C30: the estimate is never less than the size of the serialized unit, as \<open>unit.h\<close> promises, for units of
  less than 256 MB that \<open>sizes_kept\<close> admits, at every depth: no repeated varints, whose values are counted with the size
  of their type in memory (\<open>unit_size_exceeded\<close>); counted fields with numbers below 16, for neither the tag nor the
  count has room of its own in what is counted; unpacked ones with numbers below 2^25, for the tag of each element
  is counted with four bytes. The unit can be serialized, as for \<open>unit_serialize_encodes\<close>.\<close>

theorem unit_size_suffices:
  assumes "wf_unit ds" and "fits_unit ds fs" and "sizes_kept (UnitK ds)" and "length (enc_unit ds fs) < 268435456"
  shows "\<exists>n w'. unit_serialize ds fs w = Inr (n, w') \<and> n = int (length (wb_data w')) \<and> n \<le> int (io_size ds fs)"
proof -
  have "size_kept d \<and> size_covers (d_kind d)" if "d \<in> set ds" for d
    using kind_covered [of "d_kind d"] assms(1,3) that by (auto simp: wf_unit_def wf_desc_def)
  then have "length (enc_unit ds fs) \<le> io_size ds fs" by (rule enc_unit_covered [OF assms(1,2) _ assms(4)])
  then show ?thesis using serialized_unit [OF assms(1,2), of w] assms(4) by (simp add: wire_of_def)
qed

definition sized_unit :: "desc list" where
  "sized_unit = [Desc 1 True None Single (ScalarK TYPE_INT32), Desc 2 False None ProtobufUnpacked (BytesK (-1)),
     Desc 3 False None Single (UnitK [Desc 1 False None Single (FixedK TYPE_FIXED_UINT32)])]"

definition sized_fields :: "field list" where
  "sized_fields = [Field True False (Num (-2)),
     Repeated True False [Field False False (Bytes [65, 66]), Field False False (Bytes [67])],
     Field True False (UnitV True [Field True False (Num 7)])]"

theorem unit_size_suffices_witness:
  "io_size sized_unit sized_fields = 58 \<and>
   (\<exists>n w'. unit_serialize sized_unit sized_fields (wire_of []) = Inr (n, w') \<and>
      n = int (length (wb_data w')) \<and> n \<le> int (io_size sized_unit sized_fields))"
proof -
  have "wf_unit sized_unit" by (simp add: wf_unit_def wf_desc_def sized_unit_def)
  moreover have "fits_unit sized_unit sized_fields"
    by (simp add: sized_unit_def sized_fields_def fits_unit_def fits_field_def fits_member_def present_def
        is_Repeated_def bytes_fits_def varint_fits_def fixed_fits_def in_range_def varint_signed_def varint_zigzag_def
        fixed_signed_def)
  moreover have "sizes_kept (UnitK sized_unit)" by (simp add: sized_unit_def size_kept_def is_scalar_def)
  moreover have "length (enc_unit sized_unit sized_fields) < 268435456"
    by (simp add: sized_unit_def sized_fields_def enc_unit_def enc_field_def present_def enc_member_def
        tag_enc_def fieldWireType_def varint_enc_def varint_wire_def varint_zigzag_def field_num_def bytes_enc_def
        field_bytes_def field_unit_def unit_size_groups leb128.simps)
  moreover have "io_size sized_unit sized_fields = 58"
    by (simp add: sized_unit_def sized_fields_def io_size_def fieldSize_def field_bytes_def)
  ultimately show ?thesis using unit_size_suffices [of sized_unit sized_fields "wire_of []"] by blast
qed

definition int_list :: "desc list" where
  "int_list = [Desc 1 False None Counted (ScalarK TYPE_INT32)]"

definition negatives :: "nat \<Rightarrow> field list" where
  "negatives k = [Repeated True False (replicate k (Field False False (Num (-1))))]"

text \<open>For a repeated field of integers the estimate is too small: \<open>k\<close> negative ones take ten bytes each and
  are counted with the four of an \<open>int32_t\<close>, so that already one exceeds it.\<close>

theorem unit_size_exceeded:
  assumes "0 < k" and "k < 200000000"
  shows "\<exists>n w'. unit_serialize int_list (negatives k) w = Inr (n, w') \<and> n = int (length (wb_data w')) \<and>
    io_size int_list (negatives k) = 5 + 4 * k \<and> 1 + 10 * int k < n"
proof -
  have one: "length (varint_enc TYPE_INT32 (-1)) = 10"
    by (simp add: varint_enc_def varint_wire_def varint_zigzag_def leb128.simps)
  have tag: "length (tag_enc (Desc 1 False None Counted (ScalarK TYPE_INT32)) WithLength) = 1"
    by (simp add: tag_enc_def leb128.simps)
  have len: "length (enc_unit int_list (negatives k)) = 1 + length (leb128 k) + 10 * k"
    using one tag by (simp add: int_list_def negatives_def enc_unit_def enc_field_def present_def enc_member_def
        field_num_def length_concat sum_list_replicate)
  have "wf_unit int_list" by (simp add: wf_unit_def wf_desc_def int_list_def)
  moreover have "fits_unit int_list (negatives k)"
    by (simp add: int_list_def negatives_def fits_unit_def fits_field_def fits_member_def present_def
        is_Repeated_def varint_fits_def in_range_def varint_signed_def varint_zigzag_def list_all_length)
  moreover have "length (enc_unit int_list (negatives k)) < 2147483648"
    using len leb128_size_32 [of k] assms(2) by simp
  ultimately show ?thesis
    using serialized_unit [of int_list "negatives k" w] len leb128_length_pos [of k]
    by (auto simp: wire_of_def int_list_def negatives_def io_size_def fieldSize_def)
qed

theorem unit_size_exceeded_witness:
  "\<exists>n w'. unit_serialize int_list (negatives 1) (wire_of []) = Inr (n, w') \<and> n = int (length (wb_data w')) \<and>
    io_size int_list (negatives 1) = 9 \<and> 11 < n"
  using unit_size_exceeded [of 1 "wire_of []"] by simp

end
