(* ===== verification/UnitFaults.thy ===== *)
theory UnitFaults
  imports UnitParse
begin

section \<open>Messages that the parser mishandles\<close>

text \<open>
  What the parser does on bytes that no serializer of the same version wrote, and on some that one did: lengths
  of 32 bits that become negative, counts that are taken for lengths, empty packed fields, defaults of subunits.
\<close>

subsection \<open>One step on hostile bytes\<close>

lemma read_loop_stuck:
  assumes "cond s w" and "step s w = Some (Inr (s, w))"
  shows "read_loop cond step s w = None"
proof -
  let ?b = "\<lambda>st. case st of Some (Inr (s, w)) \<Rightarrow> cond s w | _ \<Rightarrow> False"
  let ?c = "\<lambda>st. case st of Some (Inr (s, w)) \<Rightarrow> step s w | _ \<Rightarrow> st"
  have "while_option ?b ?c (Some (Inr (s, w))) = None"
  proof (rule ccontr)
    assume "while_option ?b ?c (Some (Inr (s, w))) \<noteq> None"
    then obtain t where t: "while_option ?b ?c (Some (Inr (s, w))) = Some t" by blast
    have "t = Some (Inr (s, w))"
      by (rule while_option_rule [where P = "\<lambda>st. st = Some (Inr (s, w))", OF _ t]) (simp_all add: assms(2))
    then show False using while_option_stop [OF t] assms(1) by simp
  qed
  then show ?thesis by (simp add: read_loop_def)
qed

lemma io_deserialize_loop:
  "unit_loop (parsers ds) (snd (io_reset ds True u)) w = None \<Longrightarrow> io_deserialize ds u w = None"
  by (simp add: io_deserialize_def io_deserialize_with_def rbind_def part_of_def)

lemma deserialize_fresh:
  assumes "advances (parsers rs) (map fresh_field rs) bs gs" and "required_set rs gs" and "length bs < 2147483648"
  shows "deserializeInline rs (fresh_unit rs) bs = Some (Inr (), (False, gs))"
  by (rule deserialize_ready) (use assms in \<open>simp_all add: fresh_unit_def io_reset_def\<close>)

lemma step_tag:
  assumes "wf_desc d" and "wb_data w = tag_enc d t @ body" and "wb_offset w = 0"
    and "length (wb_data w) < 2147483648"
  shows "deserialize_step ps fs w =
    deserialize_field ps fs (d_id d) (wire_number t) (w\<lparr>wb_offset := length (tag_enc d t)\<rparr>)"
proof -
  let ?tag = "8 * d_id d + wire_number t"
  have tag: "drop_bit 3 ?tag = d_id d" "?tag AND 7 = wire_number t" "?tag \<noteq> 0"
    using tag_parts [of "d_id d" t] assms(1) by (simp_all add: wf_desc_def)
  have r: "leaving fs (raise_r END_OF_STREAM unpackUint32) w = Some (Inr (?tag, w\<lparr>wb_offset := length (tag_enc d t)\<rparr>))"
    using readsD [OF reads_leaving [OF tag_reads [OF assms(1)]], of w "[]" t body] assms(2-4) by simp
  have pos: "\<not> length (wb_data w) \<le> wb_offset w" using assms(2,3) by simp
  show ?thesis
    unfolding deserialize_step_def if_not_P [OF pos]
      rbind_ok [where m = "leaving fs (raise_r END_OF_STREAM unpackUint32)", OF r]
    by (simp only: tag if_False)
qed

lemma leb128_less: "n < 128 ^ length (leb128 n)"
proof (induction n rule: leb128.induct)
  case (1 n)
  show ?case
  proof (cases "n < 128")
    case False
    then have "n div 128 < 128 ^ length (leb128 (n div 128))" using 1 by simp
    then have "n < 128 * 128 ^ length (leb128 (n div 128))" by (simp add: div_less_iff_less_mult mult.commute)
    then show ?thesis using False by (subst leb128.simps) simp
  qed (simp add: leb128.simps)
qed

text \<open>A length of 32 bits that is too big for an \<open>int\<close> moves the offset back.\<close>

lemma long_length:
  assumes "0 < k" and "k \<le> 2147483648"
  shows "length (leb128 (4294967296 - k)) = 5" and "s32 (int (4294967296 - k)) = - int k"
proof -
  show "length (leb128 (4294967296 - k)) = 5"
  proof (rule antisym)
    show "length (leb128 (4294967296 - k)) \<le> 5" using leb128_size_32 [of "4294967296 - k"] assms by simp
    have "128 ^ 4 \<le> 4294967296 - k" using assms(2) by simp
    also have "\<dots> < 128 ^ length (leb128 (4294967296 - k))" by (rule leb128_less)
    finally have "4 < length (leb128 (4294967296 - k))" by (rule power_less_imp_less_exp [rotated]) simp
    then show "5 \<le> length (leb128 (4294967296 - k))" by simp
  qed
  show "s32 (int (4294967296 - k)) = - int k"
    using assms mod_pos_pos_trivial [of "2147483648 - int k" 4294967296]
      mod_add_self2 [of "2147483648 - int k" 4294967296]
    by (simp add: s32_def of_nat_diff)
qed

lemma length_tag_le: "wf_desc d \<Longrightarrow> length (tag_enc d t) \<le> 5"
  using leb128_size_32 [of "8 * d_id d + wire_number t"] by (cases t) (simp_all add: tag_enc_def wf_desc_def)

lemma skip_back:
  assumes "wb_data w = pre @ leb128 (4294967296 - k) @ suf" and "wb_offset w = length pre"
    and "length (wb_data w) < 2147483648" and "0 < k" and "k \<le> 2147483648" and "k \<le> length pre + 5"
  shows "skip_unknown (wire_number WithLength) w = Some (Inr ((), w\<lparr>wb_offset := length pre + 5 - k\<rparr>))"
proof -
  define gs where "gs = leb128 (4294967296 - k)"
  have gs: "groups_ok gs" "groups_nat gs = 4294967296 - k" "length gs = 5"
    using leb128_groups_ok [of "4294967296 - k"] long_length(1) [OF assms(4,5)] by (simp_all add: gs_def)
  obtain st where st: "unpack_loop (drop (wb_offset w) (wb_data w)) (sub64 (length (wb_data w)) (wb_offset w)) 56
      (unpack_init :: u32 unpack_state) = Some st"
    "ust_processed st = length gs" "ust_shift st \<le> 28" "\<not> ust_overflow st" "\<not> ust_more st"
    "groups_nat gs < 4294967296 \<Longrightarrow> unat (ust_result st) = groups_nat gs"
    by (rule skip_loop [OF gs(1), of w pre suf]) (use assms(1-3) gs in \<open>auto simp: gs_def\<close>)
  have "uint (ust_result st) = int (4294967296 - k)"
    unfolding uint_nat using st(6) gs(2) assms(4,5) by simp
  then have "s32 (uint (ust_result st)) = - int k" by (simp only: long_length(2) [OF assms(4,5)])
  moreover have "nat (u64 (int (length pre) + 5 - int k)) = length pre + 5 - k"
    using assms(1,3,6) by (simp add: u64_id of_nat_diff nat_diff_distrib)
  moreover have "\<not> length pre + (5 + length suf) < length pre + 5 - k" by simp
  ultimately show ?thesis
    using st(1-5) assms(1-3,6) gs(3) gs(3) [unfolded gs_def]
    by (simp add: skip_unknown_def skip_varint_def Let_def incCurrentOffset_def nat_add_distrib rret_def)
qed

text \<open>C28: six bytes stop the parser: when a field whose number the unit does not have comes with the length
  2^32 minus the bytes of its tag and length, the cast of the length to \<open>int\<close> moves the offset back to the tag, and
  the loop of \<open>deserialize\<close> reads the same field for ever.\<close>

theorem parse_never_ends:
  assumes "wf_desc d" and "d_id d \<notin> d_id ` set ds"
    and "bytes = tag_enc d WithLength @ leb128 (4294967291 - length (tag_enc d WithLength)) @ suf"
    and "length bytes < 2147483648"
  shows "deserializeInline ds u bytes = None"
proof -
  let ?w = "wire_of bytes" and ?t = "tag_enc d WithLength" and ?fs = "snd (io_reset ds True u)"
  have k: "4294967296 - (length ?t + 5) = 4294967291 - length ?t" by simp
  have w: "wb_data ?w = ?t @ leb128 (4294967296 - (length ?t + 5)) @ suf" "wb_offset ?w = 0"
    using assms(3) by (simp_all only: k) (simp_all add: wire_of_def)
  have "deserialize_step (parsers ds) ?fs ?w =
      rbind (leaving ?fs (skip_unknown (wire_number WithLength))) (\<lambda>_. rret ?fs) (?w\<lparr>wb_offset := length ?t\<rparr>)"
    by (subst step_tag [OF assms(1) w])
       (use assms(2,4) in \<open>simp_all add: deserialize_field_def fieldParser_unknown wire_of_def\<close>)
  moreover have "skip_unknown (wire_number WithLength) (?w\<lparr>wb_offset := length ?t\<rparr>) =
      Some (Inr ((), ?w\<lparr>wb_offset := length ?t\<rparr>\<lparr>wb_offset := length ?t + 5 - (length ?t + 5)\<rparr>))"
    by (rule skip_back [of _ _ _ suf]) (use w(1) assms(1,4) length_tag_le [of d WithLength] in \<open>simp_all add: wire_of_def\<close>)
  ultimately have "deserialize_step (parsers ds) ?fs ?w = Some (Inr (?fs, ?w))"
    by (simp add: rbind_def leaving_def rret_def wire_of_def)
  moreover have "wb_offset ?w < wb_size ?w" using assms(3) by (simp add: wire_of_def)
  ultimately have "io_deserialize ds u ?w = None" by (intro io_deserialize_loop read_loop_stuck)
  then show ?thesis by (simp add: deserializeInline_def unit_deserialize_def)
qed

theorem parse_never_ends_witness:
  "deserializeInline example_unit (fresh_unit example_unit) [74, 0xFA, 0xFF, 0xFF, 0xFF, 0x0F] = None"
proof -
  let ?d = "Desc 9 False None Single (BytesK (-1))"
  have t: "tag_enc ?d WithLength = [74]" by (simp add: tag_enc_def leb128.simps)
  have "leb128 4294967290 = [0xFA, 0xFF, 0xFF, 0xFF, 0x0F]" by (simp add: leb128.simps)
  then show ?thesis
    using parse_never_ends [of ?d example_unit _ "[]" "fresh_unit example_unit"]
    by (simp add: t wf_desc_def example_unit_def)
qed

text \<open>A length \<open>2^32 - k\<close> in front of the copy: as an \<open>int\<close> it is \<open>-k\<close>.\<close>

lemma BytesSer_block_back:
  assumes "wb_data w = pre @ leb128 (4294967296 - k) @ suf" and "wb_offset w = length pre"
    and "length (wb_data w) < 2147483648" and "0 < k" and "k \<le> 2147483648"
  shows "BytesSer_block maxSize w =
    (if k \<le> length pre + 5
     then Some (Inr (Some (length pre + 5, - int k), w\<lparr>wb_offset := length pre + 5 - k\<rparr>))
     else Some (Inl (Some END_OF_STREAM, w\<lparr>wb_offset := nat (18446744073709551616 + int (length pre) + 5 - int k)\<rparr>)))"
proof -
  let ?w1 = "w\<lparr>wb_offset := length pre + 5\<rparr>"
  note five = long_length [OF assms(4,5)]
  have "unpackUint32 w = Some (Inr (4294967296 - k, w\<lparr>wb_offset := length pre + length (leb128 (4294967296 - k))\<rparr>))"
    by (rule readsD [OF unpackUint32_reads assms(1-3)]) (use assms(4) in simp)
  then have n: "unpackUint32 w = Some (Inr (4294967296 - k, ?w1))" by (simp only: five(1))
  have pos: "\<not> (0 < maxSize \<and> maxSize < - int k)" "4294967296 - k \<noteq> 0" using assms(5) by simp_all
  show ?thesis
  proof (cases "k \<le> length pre + 5")
    case True
    have "nat (u64 (int (length pre) + 5 - int k)) = length pre + 5 - k"
      using assms(1,3) True by (simp add: u64_id of_nat_diff nat_diff_distrib)
    then have "incCurrentOffset (- int k) ?w1 = ?w1\<lparr>wb_offset := length pre + 5 - k\<rparr>"
      by (simp add: incCurrentOffset_def)
    moreover have "\<not> length (wb_data w) < length pre + 5 - k" using assms(1) five(1) by simp
    ultimately show ?thesis
      unfolding BytesSer_block_def rbind_ok [where m = unpackUint32, OF n] five(2) if_not_P [OF pos(1)] if_not_P [OF pos(2)]
      using True by (simp add: Let_def rret_def)
  next
    case False
    have u: "u64 (int (length pre) + 5 - int k) = 18446744073709551616 + int (length pre) + 5 - int k"
      using False assms(5) mod_pos_pos_trivial [of "18446744073709551616 + int (length pre) + 5 - int k" 18446744073709551616]
        mod_add_self1 [of 18446744073709551616 "int (length pre) + 5 - int k"]
      by (simp add: u64_def add.assoc)
    have "incCurrentOffset (- int k) ?w1 = ?w1\<lparr>wb_offset := nat (18446744073709551616 + int (length pre) + 5 - int k)\<rparr>"
      unfolding incCurrentOffset_def by (simp add: u)
    moreover have "length (wb_data w) < nat (18446744073709551616 + int (length pre) + 5 - int k)"
      using assms(3,5) by linarith
    ultimately show ?thesis
      unfolding BytesSer_block_def rbind_ok [where m = unpackUint32, OF n] five(2) if_not_P [OF pos(1)] if_not_P [OF pos(2)]
      using False by (simp add: Let_def rfail_def)
  qed
qed

definition same_data :: "wire \<Rightarrow> wire \<Rightarrow> bool" where
  "same_data w w' = (wb_data w' = wb_data w \<and> wb_size w' = wb_size w)"

lemma BytesSer_back:
  assumes "wb_data w = pre @ leb128 (4294967296 - k) @ suf" and "wb_offset w = length pre"
    and "length (wb_data w) < 2147483648" and "0 < k" and "k \<le> 2147483648"
  shows "k \<le> length pre + 5 \<Longrightarrow> BytesSer_deserialize maxSize w = None"
    and "length pre + 5 < k \<Longrightarrow> \<exists>w'. same_data w w' \<and> BytesSer_deserialize maxSize w = Some (Inl (Some END_OF_STREAM, w', []))"
  using BytesSer_block_back [OF assms, of maxSize] assms(4)
  by (simp_all add: BytesSer_deserialize_def rbind_def leaving_def bytes_at_def same_data_def)

text \<open>C29: a length \<open>L\<close> from 2^31 to 2^32 - 1 in front of the value of a bytes field, of whatever capacity, is
  negative as an \<open>int\<close>, \<open>L - 2^32\<close>, and passes the check of the capacity. The check of the end of the buffer passes
  exactly if \<open>2^32 - L\<close> is at most the bytes read so far, here the tag and the length itself: then \<open>load\<close> is called
  for \<open>L - 2^32\<close> bytes, 2^64 - 2^32 + L of them as a \<open>size_t\<close>, and a message of six bytes takes the parser out of its
  buffer, unless the allocation for the copy fails before. Longer ways back are refused by END_OF_STREAM. The field is
  the first of the message.\<close>

theorem parse_length_wraps:
  assumes "wf_unit ds" and "i < length ds" and "d_shape (ds ! i) = Single" and "d_kind (ds ! i) = BytesK m"
    and "bytes = tag_enc (ds ! i) WithLength @ leb128 L @ suf" and "length bytes < 2147483648"
    and "2147483648 \<le> L" and "L < 4294967296"
  shows "if 4294967296 - L \<le> length (tag_enc (ds ! i) WithLength) + 5
    then (\<exists>w'. BytesSer_block m ((wire_of bytes)\<lparr>wb_offset := length (tag_enc (ds ! i) WithLength)\<rparr>) =
            Some (Inr (Some (length (tag_enc (ds ! i) WithLength) + 5, int L - 4294967296), w'))) \<and>
         unit_deserialize ds u (wire_of bytes) = None
    else (\<exists>u'. unit_deserialize ds u (wire_of bytes) = Some (Inl (Some END_OF_STREAM), u', wire_of bytes))"
proof -
  define k where "k = 4294967296 - L"
  have L: "L = 4294967296 - k" "0 < k" "k \<le> 2147483648" "- int k = int L - 4294967296"
    using assms(7,8) by (simp_all add: k_def of_nat_diff)
  let ?w = "wire_of bytes" and ?t = "tag_enc (ds ! i) WithLength" and ?fs = "snd (io_reset ds True u)"
  let ?w1 = "?w\<lparr>wb_offset := length ?t\<rparr>"
  have d: "wf_desc (ds ! i)" "distinct (map d_id ds)" using assms(1,2) by (simp_all add: wf_unit_def)
  have w1: "wb_data ?w1 = ?t @ leb128 (4294967296 - k) @ suf" "wb_offset ?w1 = length ?t" "length (wb_data ?w1) < 2147483648"
    using assms(5,6) L(1) by (simp_all add: wire_of_def)
  have ps: "fp_fn (parsers ds ! i) = parse_field (ds ! i) (parse_value (d_kind (ds ! i)))"
    "fp_wireType (parsers ds ! i) = WithLength"
    using assms(2-4) by (simp_all add: make_parser_def fieldWireType_def)
  have found: "fieldParser (parsers ds) (d_id (ds ! i)) = Some i" by (rule fieldParser_at [OF d(2) assms(2)])
  have "deserialize_step (parsers ds) ?fs ?w = deserialize_field (parsers ds) ?fs (d_id (ds ! i)) (wire_number WithLength) ?w1"
    by (rule step_tag [OF d(1)]) (use assms(5,6) in \<open>simp_all add: wire_of_def\<close>)
  then have step: "deserialize_step (parsers ds) ?fs ?w =
      raise_r FIELD_PARSING_FAILED (part_of (\<lambda>f. ?fs[i := f]) (\<lambda>f. ?fs[i := f])
        (part_of (mark_set False) (mark_set True) (part_of (\<lambda>bs. put_value (Bytes bs) (?fs ! i))
          (\<lambda>bs. put_value (Bytes bs) (?fs ! i)) (BytesSer_deserialize m)))) ?w1"
    unfolding deserialize_field_def found option.case ps
    by (simp add: parse_field_def parse_single_def assms(3,4))
  have here: "wb_offset ?w < wb_size ?w" using assms(5) by (simp add: wire_of_def)
  show ?thesis
  proof (cases "k \<le> length ?t + 5")
    case True
    then have "deserialize_step (parsers ds) ?fs ?w = None"
      unfolding step using BytesSer_back(1) [OF w1 L(2,3)] by (simp add: raise_r_def part_of_def)
    then have "io_deserialize ds u ?w = None" using here by (intro io_deserialize_loop read_loop_undefined)
    then show ?thesis
      using True BytesSer_block_back [OF w1 L(2,3), of m] by (simp add: unit_deserialize_def L(4) flip: k_def)
  next
    case False
    then obtain w2 where w2: "same_data ?w1 w2" "BytesSer_deserialize m ?w1 = Some (Inl (Some END_OF_STREAM, w2, []))"
      using BytesSer_back(2) [OF w1 L(2,3)] by auto
    then have "deserialize_step (parsers ds) ?fs ?w = Some (Inl (Some END_OF_STREAM, w2,
        ?fs[i := mark_set False (put_value (Bytes []) (?fs ! i))]))"
      unfolding step by (simp add: raise_r_def part_of_def or_raise_def)
    from read_loop_fail [where step = "deserialize_step (parsers ds)" and cond = "\<lambda>_ w. wb_offset w < wb_size w", OF here this]
    have "io_deserialize ds u ?w = Some (Inl (Some END_OF_STREAM, w2,
        io_reset ds False (False, ?fs[i := mark_set False (put_value (Bytes []) (?fs ! i))])))"
      by (simp add: io_deserialize_def io_deserialize_with_def rbind_def part_of_def)
    moreover have "wb_resetState w2 = ?w"
      using w2(1) by (cases w2) (simp add: same_data_def wb_resetState_def wire_of_def)
    ultimately show ?thesis using False by (simp add: unit_deserialize_def flip: k_def)
  qed
qed

theorem parse_length_wraps_witness:
  "(\<exists>w'. BytesSer_block (-1) ((wire_of [18, 0xFF, 0xFF, 0xFF, 0xFF, 0x0F])\<lparr>wb_offset := 1\<rparr>) = Some (Inr (Some (6, -1), w'))) \<and>
   unit_deserialize example_unit (fresh_unit example_unit) (wire_of [18, 0xFF, 0xFF, 0xFF, 0xFF, 0x0F]) = None \<and>
   (\<exists>u'. unit_deserialize example_unit (fresh_unit example_unit) (wire_of [18, 0x80, 0x80, 0x80, 0x80, 0x08]) =
      Some (Inl (Some END_OF_STREAM), u', wire_of [18, 0x80, 0x80, 0x80, 0x80, 0x08]))"
proof -
  have e: "example_unit ! Suc 0 = Desc 2 False None Single (BytesK (-1))" by (simp add: example_unit_def)
  have t: "tag_enc (example_unit ! Suc 0) WithLength = [18]" by (simp add: e tag_enc_def leb128.simps)
  have n: "Suc 0 < length example_unit" by (simp add: example_unit_def)
  have "leb128 4294967295 = [0xFF, 0xFF, 0xFF, 0xFF, 0x0F]" "leb128 2147483648 = [0x80, 0x80, 0x80, 0x80, 0x08]"
    by (simp_all add: leb128.simps)
  then show ?thesis
    using parse_length_wraps [of example_unit "Suc 0" "-1" "[18, 0xFF, 0xFF, 0xFF, 0xFF, 0x0F]" 4294967295 "[]" "fresh_unit example_unit"]
      parse_length_wraps [of example_unit "Suc 0" "-1" "[18, 0x80, 0x80, 0x80, 0x80, 0x08]" 2147483648 "[]" "fresh_unit example_unit"]
      example_fits t n by (simp add: e)
qed

subsection \<open>Messages of another version, and of the same\<close>

lemma le_bytes_nat: "n = le_nat bs \<Longrightarrow> w = length bs \<Longrightarrow> le_bytes w n = bs"
proof (induction bs arbitrary: n w)
  case (Cons b bs)
  have "of_nat (unat b + 256 * le_nat bs) = b"
    unfolding word_unat_eq_iff unat_of_nat_byte using unsigned_less [of b, where 'a = nat] by simp
  moreover have "(unat b + 256 * le_nat bs) div 256 = le_nat bs"
    using unsigned_less [of b, where 'a = nat] by simp
  ultimately show ?case using Cons by simp
qed simp

lemma scalar_field_reads:
  assumes "d_shape d = Single" and "d_kind d = ScalarK t" and "varint_fits t v"
  shows "reads (parse_field d (parse_value (d_kind d)) f) (varint_enc t v) (Field True (f_noser f) (Num v))"
proof -
  have "reads (parse_value (ScalarK t) f) (varint_enc t v) (put_value (Num v) f)"
    unfolding parse_value.simps by (rule reads_part_of [OF VariableSer_reads [OF assms(3)]]) simp
  then show ?thesis
    unfolding parse_field_def assms(1) field_shape.case parse_single_def assms(2) kind.case
    by (rule reads_part_of) (simp add: put_value_def mark_set_def)
qed

definition plain_reader :: "desc list" where
  "plain_reader = [Desc 1 False None Single (ScalarK TYPE_UINT32)]"

definition counted_writer :: "desc list" where
  "counted_writer = [Desc 2 False None Counted (FixedK TYPE_FIXED_UINT32)]"

definition two_numbers :: "int \<Rightarrow> field list" where
  "two_numbers x =
     [Repeated True False [Field False False (Num (524288 + 16777216 * x)),
                           Field False False (Num (524296 + 16777472 * x))]]"

text \<open>A reader without a counted field takes its count for a length in bytes: from two numbers
  that the writer put into a counted field, the reader gets its own field set to a value that was never sent.\<close>

theorem counted_field_misread:
  assumes "x < 128"
  shows "deserializeInline plain_reader (fresh_unit plain_reader) (enc_unit counted_writer (two_numbers (int x))) =
    Some (Inr (), (False, [Field True False (Num (int x))]))"
proof -
  note rs_def = plain_reader_def and ws_def = counted_writer_def and es_def = two_numbers_def
  let ?x = "word_of_nat x :: byte" and ?r = "Desc 1 False None Single (ScalarK TYPE_UINT32)"
    and ?d = "Desc 2 False None Counted (FixedK TYPE_FIXED_UINT32)"
  have tags: "tag_enc ?d WithLength = [18]" "tag_enc ?r VarInt = [8]" by (simp_all add: tag_enc_def leb128.simps)
  have lx: "leb128 x = [?x]" using assms(1) by (rule leb128_last)
  have b1: "le_bytes 4 (524288 + 16777216 * x) = [0, 0, 8, ?x]"
    by (rule le_bytes_nat) (use assms(1) in \<open>simp_all add: unsigned_of_nat take_bit_nat_eq_self\<close>)
  have b2: "le_bytes 4 (524296 + 16777472 * x) = [8, ?x, 8, ?x]"
    by (rule le_bytes_nat) (use assms(1) in \<open>simp_all add: unsigned_of_nat take_bit_nat_eq_self\<close>)
  have enc: "enc_unit counted_writer (two_numbers (int x)) = ([18] @ [2] @ [0, 0]) @ ([8] @ [?x]) @ ([8] @ [?x]) @ ([8] @ [?x])"
    using assms(1) tags(1) b1 b2
    by (simp add: ws_def es_def enc_unit_def enc_field_def present_def enc_member_def field_num_def fixed_enc_def
        leb128_last nat_add_distrib nat_mult_distrib)
  have rs: "wf_unit plain_reader" "wf_desc ?d" "d_id ?d \<notin> d_id ` set plain_reader" by (simp_all add: rs_def wf_unit_def wf_desc_def)
  have "reads (skip_unknown (wire_number WithLength)) ([2] @ [0, 0]) ()"
    by (rule skip_length_reads) simp_all
  then have a: "advances (parsers plain_reader) (map fresh_field plain_reader) ([18] @ [2] @ [0, 0]) (map fresh_field plain_reader)"
    using unknown_step [OF rs(2,3), of WithLength "[2, 0, 0]" "\<lambda>d. parse_value (d_kind d)" "map fresh_field plain_reader"] tags(1)
    by simp
  have b: "advances (parsers plain_reader) [f] ([8] @ [?x]) [Field True (f_noser f) (Num (int x))]" for f
  proof -
    have "reads (parse_field ?r (parse_value (d_kind ?r)) f) (varint_enc TYPE_UINT32 (int x))
        (Field True (f_noser f) (Num (int x)))"
      by (rule scalar_field_reads) (use assms(1) in \<open>simp_all add: uint32_fits\<close>)
    then show ?thesis
      using known_step [OF rs(1), of 0 "\<lambda>d. parse_value (d_kind d)" "[f]"] assms(1) tags(2) lx
      by (simp add: rs_def fieldWireType_def uint32_enc)
  qed
  have f0: "map fresh_field plain_reader = [Field False False (Num 0)]"
    by (simp add: rs_def fresh_field_def default_value_def)
  have f: "f_noser (Field s False v) = False" for s v by simp
  note b' = b [of "Field s False v" for s v, unfolded f]
  have "advances (parsers plain_reader) (map fresh_field plain_reader) (enc_unit counted_writer (two_numbers (int x)))
      [Field True False (Num (int x))]"
    unfolding enc by (rule advances_trans [OF a], unfold f0) (rule advances_trans [OF b' advances_trans [OF b' b']])
  then show ?thesis
    by (rule deserialize_fresh) (simp_all add: enc rs_def required_set_def)
qed

theorem counted_field_misread_witness:
  "deserializeInline plain_reader (fresh_unit plain_reader) (enc_unit counted_writer (two_numbers 5)) =
    Some (Inr (), (False, [Field True False (Num 5)]))"
  using counted_field_misread [of 5] by simp

lemma unset_encodes_nothing: "list_all (\<lambda>d. \<not> d_required d) ds \<Longrightarrow> enc_unit ds (map fresh_field ds) = []"
  by (induction ds) (auto simp: enc_unit_def enc_field_def present_def fresh_field_def)

lemma empty_unit_reads:
  assumes "list_all2 (\<lambda>d f. d_required d \<longrightarrow> f_set f) ds gs"
  shows "reads (parse_value (UnitK ds) (Field s n (UnitV True gs))) (unit_size_bytes 0)
    (Field True n (UnitV True gs))"
proof -
  have req: "required_set ds gs" using assms by (simp add: required_set_def)
  have "reads (UnitSer_deserialize (\<lambda>u. required_set ds (snd u)) (io_deserialize ds) (True, gs))
      (unit_size_bytes 0) (True, gs)"
    using UnitSer_reads [of "io_deserialize ds" "(True, gs)" "[]" "(False, gs)"
        "\<lambda>u. required_set ds (snd u)"] io_deserialize_reads [of ds "(True, gs)" "[]" gs] advances_refl req
    by (simp add: io_reset_def)
  then have "reads (part_of (\<lambda>u. Field True n (UnitV (fst u) (snd u))) (\<lambda>u. Field True n (UnitV (fst u) (snd u)))
      (UnitSer_deserialize (\<lambda>u. required_set ds (snd u)) (io_deserialize ds) (True, gs)))
      (unit_size_bytes 0) (Field True n (UnitV True gs))"
    by (rule reads_part_of) simp
  then show ?thesis by (simp add: mutable_unit_def field_unit_def io_deserialize_def)
qed

lemma one_field_advances:
  assumes "wf_unit [d]" and "reads (parse_field d (parse_value (d_kind d)) f) body g"
  shows "advances (parsers [d]) [f] (tag_enc d (fieldWireType d) @ body) [g]"
  using known_step [OF assms(1), of 0 "\<lambda>d. parse_value (d_kind d)" "[f]" body g] assms(2) by simp

definition subunit_desc :: "nat \<Rightarrow> bool \<Rightarrow> field_shape \<Rightarrow> desc list \<Rightarrow> desc" where
  "subunit_desc n req sh ss = Desc n req None sh (UnitK ss)"

definition sent_unit :: "field list \<Rightarrow> field" where
  "sent_unit fs = Field True False (UnitV True fs)"

text \<open>A subunit none of whose fields is set comes back with its defaults when it is an element of a
  repeated field, and without them, its numbers zero, when it is the value of a single field.\<close>

theorem subunit_defaults_lost:
  assumes "wf_unit [subunit_desc n req Single ss]" and "list_all (\<lambda>s. \<not> d_required s) ss"
  shows "deserializeInline [subunit_desc n req Single ss] (fresh_unit [subunit_desc n req Single ss])
      (enc_unit [subunit_desc n req Single ss] [sent_unit (map fresh_field ss)]) =
      Some (Inr (), (False, [sent_unit (map clear_field (map fresh_field ss))])) \<and>
    deserializeInline [subunit_desc n req Counted ss] (fresh_unit [subunit_desc n req Counted ss])
      (enc_unit [subunit_desc n req Counted ss] [Repeated True False [sent_unit (map fresh_field ss)]]) =
      Some (Inr (), (False, [Repeated True False [sent_unit (map fresh_field ss)]]))"
proof -
  define s where "s = subunit_desc n req Single ss"
  define c where "c = subunit_desc n req Counted ss"
  define cleared where "cleared = map clear_field (map fresh_field ss)"
  note s = s_def [unfolded subunit_desc_def] and c = c_def [unfolded subunit_desc_def]
  have wf: "wf_unit [s]" "wf_unit [c]" using assms(1) by (simp_all add: wf_unit_def wf_desc_def s c subunit_desc_def)
  have empty: "enc_value (UnitK ss) (sent_unit (map fresh_field ss)) = unit_size_bytes 0"
    unfolding enc_value_unit by (simp add: sent_unit_def field_unit_def unset_encodes_nothing [OF assms(2)])
  have unset: "list_all2 (\<lambda>d f. d_required d \<longrightarrow> f_set f) ss gs" if "length gs = length ss" for gs
    using assms(2) that by (auto simp: list_all2_conv_all_nth list_all_length)
  have short: "length (unit_size_bytes 0) = 5" "unit_size_bytes 0 \<noteq> []" using unit_size_groups [of 0] by auto
  have tag: "length (tag_enc d t) \<le> 5" if "wf_unit [d]" for d t
    using that length_tag_le [of d t] by (simp add: wf_unit_def)
  have value_of: "reads (parse_value (UnitK ss) (Field b False (UnitV True gs))) (unit_size_bytes 0) (sent_unit gs)"
    if "length gs = length ss" for b gs
    unfolding sent_unit_def by (rule empty_unit_reads [OF unset [OF that]])
  have "reads (parse_field s (parse_value (d_kind s)) (Field False False NoUnit)) (unit_size_bytes 0) (sent_unit cleared)"
    unfolding parse_field_def parse_single_def s desc.sel field_shape.case kind.case
    using reads_part_of [OF value_of [of cleared False], of "mark_set True" "sent_unit cleared" "mark_set False"]
    by (simp add: mutable_unit_def fresh_unit_def mark_set_def sent_unit_def cleared_def del: parse_value.simps)
  from one_field_advances [OF wf(1) this]
  have "deserializeInline [s] (fresh_unit [s]) (tag_enc s WithLength @ unit_size_bytes 0) =
      Some (Inr (), (False, [sent_unit cleared]))"
    by (intro deserialize_fresh)
       (use tag [OF wf(1), of WithLength] short in
         \<open>simp_all add: s fieldWireType_def fresh_field_def default_value_def required_set_def sent_unit_def\<close>)
  moreover have "reads (parse_field c (parse_value (d_kind c)) (Repeated False False []))
      (leb128 1 @ unit_size_bytes 0) (Repeated True False [sent_unit (map fresh_field ss)])"
    using parse_counted_reads [where pv = "parse_value (d_kind c)" and d = c and ev = "\<lambda>_. unit_size_bytes 0"
        and es = "[undefined]" and es' = "[sent_unit (map fresh_field ss)]" and f = "Repeated False False []"]
      value_of [of "map fresh_field ss" False] short(2)
    by (simp add: parse_field_def c resized_elem_def fresh_elem_def fresh_unit_def del: parse_value.simps)
  from one_field_advances [OF wf(2) this]
  have "deserializeInline [c] (fresh_unit [c]) (tag_enc c WithLength @ leb128 1 @ unit_size_bytes 0) =
      Some (Inr (), (False, [Repeated True False [sent_unit (map fresh_field ss)]]))"
    by (intro deserialize_fresh)
       (use tag [OF wf(2), of WithLength] short leb128_size_32 [of 1] in
         \<open>simp_all add: c fieldWireType_def fresh_field_def default_value_def required_set_def\<close>)
  moreover have "enc_unit [s] [sent_unit (map fresh_field ss)] = tag_enc s WithLength @ unit_size_bytes 0"
    using empty by (simp add: enc_unit_def enc_field_def present_def enc_member_def s fieldWireType_def
        sent_unit_def del: enc_value.simps)
  moreover have "enc_unit [c] [Repeated True False [sent_unit (map fresh_field ss)]] =
      tag_enc c WithLength @ leb128 1 @ unit_size_bytes 0"
    using empty by (simp add: enc_unit_def enc_field_def present_def enc_member_def c del: enc_value.simps)
  ultimately show ?thesis by (simp add: s_def c_def cleared_def)
qed

definition defaulted :: "desc list" where
  "defaulted = [Desc 1 False (Some (Num 7)) Single (ScalarK TYPE_UINT32)]"

theorem subunit_defaults_lost_witness:
  "deserializeInline [subunit_desc 3 True Single defaulted] (fresh_unit [subunit_desc 3 True Single defaulted])
      (enc_unit [subunit_desc 3 True Single defaulted] [sent_unit [Field False False (Num 7)]]) =
      Some (Inr (), (False, [sent_unit [Field False False (Num 0)]])) \<and>
    deserializeInline [subunit_desc 3 True Counted defaulted] (fresh_unit [subunit_desc 3 True Counted defaulted])
      (enc_unit [subunit_desc 3 True Counted defaulted] [Repeated True False [sent_unit [Field False False (Num 7)]]]) =
      Some (Inr (), (False, [Repeated True False [sent_unit [Field False False (Num 7)]]]))"
proof -
  have f: "map fresh_field defaulted = [Field False False (Num 7)]"
    by (simp add: defaulted_def fresh_field_def default_value_def)
  have "wf_unit [subunit_desc 3 True Single defaulted]"
    by (simp add: wf_unit_def wf_desc_def subunit_desc_def defaulted_def)
  moreover have "list_all (\<lambda>s. \<not> d_required s) defaulted" by (simp add: defaulted_def)
  ultimately show ?thesis
    using subunit_defaults_lost [of 3 True defaulted] unfolding f by simp
qed

lemma unpackUint32_at_end:
  assumes "wb_offset w = length (wb_data w)" and "length (wb_data w) < 2147483648"
  shows "unpackUint32 w = Some (Inl (Some END_OF_STREAM, w))"
proof -
  have "unpackVarInt64 [] 0 = Some \<lparr>out_ret = -1, out_value = 0, out_more = False, out_error = Some END_OF_STREAM\<rparr>"
    by (simp add: unpackVarInt64_def unpack_loop.simps unpackVarIntByteImpl_def unpack_init_def unpack_verdict_def
        s32_def)
  then show ?thesis
    using assms by (simp add: unpackUint32_def rbind_def value_only_def VariableSer_deserialize_def Let_def reg_unpack_def
        StreamUnsigned_unpackVarInt_def stream_error_def varint_zigzag_def)
qed

text \<open>A packed field that is set but has no element is written as its tag alone, for the search of the
  header's end stops at the length zero; the parser does not accept the message.\<close>

theorem packed_empty_unreadable:
  assumes "wf_unit [d]" and "d_shape d = ProtobufPacked" and "d_id d < 536870912"
  shows "unit_serialize [d] [Repeated True False []] w =
      Inr (int (length (tag_enc d WithLength)), wire_of (tag_enc d WithLength)) \<and>
    deserializeInline [d] (fresh_unit [d]) (tag_enc d WithLength) =
      Some (Inl (Some END_OF_STREAM), fresh_unit [d])"
proof -
  let ?t = "tag_enc d WithLength"
  have d: "wf_desc d" using assms(1) by (simp add: wf_unit_def)
  have t: "length ?t \<le> 5" by (rule length_tag_le [OF d])
  have tag: "appendFieldTag (d_id d) (fieldWireType d) (wb_clear w) = Inr (wire_of ?t)"
    using writesD [OF appendFieldTag_writes [OF assms(3)], of "wb_clear w" WithLength] t assms(2)
    by (simp add: wb_clear_def wire_of_def fieldWireType_def)
  have ser: "ser_packed sv [] (wire_of ?t) = Inr (wire_of ?t)" for sv
  proof -
    have "packVarInt32_raw (replicate 5 0) 0 = replicate 5 0"
      by (simp only: packVarInt32_raw_def Let_def packVarInt32_bytes_leb128 drop_replicate)
         (simp add: leb128.simps numeral_eq_Suc)
    then show ?thesis using t
      by (simp add: ser_packed_def Let_def wire_of_def incSize_def overlay_def nat_add_distrib u64_id of_nat_diff)
  qed
  have "unit_serialize [d] [Repeated True False []] w = Inr (int (length ?t), wire_of ?t)"
    using tag ser t assms(2)
    by (simp add: unit_serialize_def io_serialize_def io_serialize_with_def ser_handler_def wbind_def or_raise_w_def
        ser_field_def wire_of_def wb_clear_def)
  moreover have "deserializeInline [d] (fresh_unit [d]) ?t = Some (Inl (Some END_OF_STREAM), fresh_unit [d])"
  proof -
    let ?w = "wire_of ?t" and ?f = "fresh_field d"
    let ?w1 = "?w\<lparr>wb_offset := length ?t\<rparr>"
    have "unpackUint32 ?w1 = Some (Inl (Some END_OF_STREAM, ?w1))"
      using t unpackUint32_at_end [of ?w1] by (simp add: wire_of_def)
    then have e: "parse_field d (parse_value (d_kind d)) ?f ?w1 = Some (Inl (Some END_OF_STREAM, ?w1, clear_field ?f))"
      by (simp add: parse_field_def assms(2) parse_packed_def rbind_def leaving_def)
    have p: "fieldParser (parsers [d]) (d_id d) = Some 0"
      using fieldParser_at [of "[d]" 0 "\<lambda>d. parse_value (d_kind d)"] by simp
    have "deserialize_step (parsers [d]) [?f] ?w = Some (Inl (Some END_OF_STREAM, ?w1, [clear_field ?f]))"
      using step_tag [OF d, of ?w WithLength "[]" "parsers [d]" "[?f]"] p e t assms(2)
      by (simp add: deserialize_field_def wire_of_def make_parser_def fieldWireType_def part_of_def raise_r_def or_raise_def)
    then have "unit_loop (parsers [d]) [?f] ?w = Some (Inl (Some END_OF_STREAM, ?w1, [clear_field ?f]))"
      by (intro read_loop_fail) (simp_all add: wire_of_def)
    then have "io_deserialize [d] (fresh_unit [d]) ?w =
        Some (Inl (Some END_OF_STREAM, ?w1, io_reset [d] False (False, [clear_field ?f])))"
      by (simp add: io_deserialize_def io_deserialize_with_def fresh_unit_def io_reset_def rbind_def part_of_def)
    then show ?thesis
      using assms(2) by (simp add: deserializeInline_def unit_deserialize_def fresh_unit_def io_reset_def reset_field_def
          fresh_field_def)
  qed
  ultimately show ?thesis by blast
qed

theorem packed_empty_unreadable_witness:
  "unit_serialize [example_unit ! 3] [Repeated True False []] (wire_of []) = Inr (1, wire_of [34]) \<and>
   deserializeInline [example_unit ! 3] (fresh_unit [example_unit ! 3]) [34] =
     Some (Inl (Some END_OF_STREAM), fresh_unit [example_unit ! 3])"
proof -
  have e: "example_unit ! 3 = Desc 4 False None ProtobufPacked (ScalarK TYPE_UINT32)" by (simp add: example_unit_def)
  have "tag_enc (example_unit ! 3) WithLength = [34]" by (simp add: e tag_enc_def leb128.simps)
  then show ?thesis
    using packed_empty_unreadable [of "example_unit ! 3" "wire_of []"] by (simp add: e wf_unit_def wf_desc_def)
qed

end
