(* ===== verification/DbKeys.thy ===== *)
theory DbKeys
  imports ObjectId
begin

section \<open>Keys of the database: db/plugins/rocksdb\<close>

text \<open>
  The indexes of a collection are keys of RocksDB: the texts of topic and index, then the text of each
  field, each closed by a zero byte, and in most indexes the identifier of the object. RocksDB orders keys by
  their unsigned bytes, so the texts of fields must order as the fields do. Keys are strings here, values lists
  of bytes. What the libraries print is an argument: \<open>tl_hex w n\<close> stands for \<open>{:0wx}\<close> of \<open>fmt\<close>, \<open>tl_encode\<close> for
  \<open>cppcodec::hex_lower\<close>. Fields of dates, times and ranges, and maps, are not modelled.
\<close>

subsection \<open>Texts of values: rocksdbschemadef.h, detail/fieldtostringbuf.ipp\<close>

abbreviation SeparatorChar :: char where "SeparatorChar \<equiv> CHR 0x00"
abbreviation SeparatorCharPlus :: char where "SeparatorCharPlus \<equiv> CHR 0x01"
abbreviation DbNullChar :: char where "DbNullChar \<equiv> CHR 0x01"
abbreviation EmptyChar :: char where "EmptyChar \<equiv> CHR 0x02"
abbreviation NullChar :: char where "NullChar \<equiv> CHR 0x00"

record text_lib =
  tl_hex :: "nat \<Rightarrow> nat \<Rightarrow> string"
  tl_encode :: "string \<Rightarrow> string"

definition text_lib_ok :: "text_lib \<Rightarrow> bool" where
  "text_lib_ok T \<longleftrightarrow> fmt_hex_ok (tl_hex T) \<and>
     (\<forall>s. tl_encode T s = concat (map (\<lambda>c. digits_at 16 2 (of_char c)) s))"

definition the_text_lib :: text_lib where
  "the_text_lib = \<lparr>tl_hex = (\<lambda>w n. pad0 w (numeral_str 16 n)),
     tl_encode = (\<lambda>s. concat (map (\<lambda>c. digits_at 16 2 (of_char c)) s))\<rparr>"

lemma the_text_lib_ok: "text_lib_ok the_text_lib"
  by (simp add: text_lib_ok_def the_text_lib_def fmt_hex_ok_def)

text \<open>Errors of the database that the model meets, and assertions that fail.\<close>

datatype db_error = READ_FAILED | DUPLICATE_UNIQUE_KEY | SAVE_INDEX_FAILED | DELETE_INDEX_FAILED | ASSERT_FAILED

text \<open>The values of fields and of queries; enums are integers. A date and time is its milliseconds since the epoch.\<close>

datatype db_value = DvNull | DvFirst | DvLast | DvBool bool | DvInt int | DvUInt nat | DvString string
  | DvDateTime int | DvObjectId ObjectId

text \<open>\<open>fmt\<close> prints a sign and the digits of the absolute value in the rest of the width.\<close>

definition signed_hex :: "text_lib \<Rightarrow> nat \<Rightarrow> int \<Rightarrow> string" where
  "signed_hex T w i = (if i < 0 then CHR ''-'' # tl_hex T (w - 1) (nat (- i)) else tl_hex T w (nat i))"

definition int64_text :: "text_lib \<Rightarrow> int \<Rightarrow> string" where
  "int64_text T val =
     (if val < 0 then CHR ''0'' # tl_hex T 16 (nat (val mod 2 ^ 64)) else CHR ''1'' # tl_hex T 16 (nat val))"

definition uint64_text :: "text_lib \<Rightarrow> nat \<Rightarrow> string" where
  "uint64_text T val = CHR ''1'' # tl_hex T 16 val"

fun fieldToStringBuf :: "text_lib \<Rightarrow> string \<Rightarrow> db_value \<Rightarrow> string option" where
  "fieldToStringBuf T buf (DvString val) = Some (buf @ (if val = [] then [EmptyChar] else tl_encode T val))"
| "fieldToStringBuf T buf (DvObjectId val) =
     oid_serialize (tl_hex T) val (buf @ replicate OidLength (CHR 0x00)) (length buf)"
| "fieldToStringBuf T buf (DvDateTime ms) = Some (buf @ signed_hex T 10 ms)"
| "fieldToStringBuf T buf (DvInt val) = Some (buf @ int64_text T val)"
| "fieldToStringBuf T buf (DvUInt val) = Some (buf @ uint64_text T val)"
| "fieldToStringBuf T buf (DvBool val) = Some (buf @ uint64_text T (if val then 1 else 0))"
| "fieldToStringBuf T buf DvNull = Some buf"
| "fieldToStringBuf T buf DvFirst = None"
| "fieldToStringBuf T buf DvLast = None"

subsection \<open>Time to live: ttlmark.h, src/ttlmark.cpp\<close>

text \<open>A mark of five bytes, the last of them one, or the single byte zero.\<close>

definition fillExpireAt :: "nat \<Rightarrow> byte list" where
  "fillExpireAt expireAt = (if 0 < expireAt then le_bytes 4 expireAt @ [1] else [0])"

text \<open>\<open>fill\<close>: each index with a time to live has its field, unset or null as \<open>None\<close> and otherwise the
  seconds of \<open>toEpoch\<close>, and its \<open>ttl()\<close>; the sums are of 32 bits.\<close>

definition ttl_fill :: "(int option \<times> nat) list \<Rightarrow> byte list" where
  "ttl_fill ttlIndexes =
     (let expireAt = foldl (\<lambda>prev (tp, ttl).
            case tp of
              None \<Rightarrow> prev
            | Some tp \<Rightarrow> (let exp = nat (u32 (tp + int ttl)) in if exp < prev then exp else prev))
          4294967295 ttlIndexes
      in fillExpireAt (if ttlIndexes = [] \<or> expireAt = 4294967295 then 0 else expireAt))"

definition ttlMarkTimepoint :: "byte list \<Rightarrow> nat" where
  "ttlMarkTimepoint data =
     (if data = [] then 0
      else if last data = 0 then 0
      else if length data < 5 then 0
      else le_nat (take 4 (drop (length data - 5) data)))"

definition isExpired_tp :: "nat \<Rightarrow> nat \<Rightarrow> nat \<Rightarrow> bool" where
  "isExpired_tp CurrentTimepoint tp currentTp = (if currentTp = 0 then tp < CurrentTimepoint else tp < currentTp)"

definition isExpired :: "nat \<Rightarrow> byte list \<Rightarrow> nat \<Rightarrow> bool" where
  "isExpired CurrentTimepoint data currentTp =
     (let tp = ttlMarkTimepoint data in if tp = 0 then False else isExpired_tp CurrentTimepoint tp currentTp)"

definition isExpiredOpt :: "nat \<Rightarrow> byte list \<Rightarrow> nat \<Rightarrow> bool option" where
  "isExpiredOpt CurrentTimepoint data currentTp =
     (let tp = ttlMarkTimepoint data in if tp = 0 then None else Some (isExpired_tp CurrentTimepoint tp currentTp))"

definition ttlMarkOffset :: "byte list \<Rightarrow> nat" where
  "ttlMarkOffset data =
     (if data = [] then 0 else if last data = 0 then 1 else if length data < 5 then 0 else 5)"

definition stripTtlMark :: "byte list \<Rightarrow> byte list" where
  "stripTtlMark data = take (length data - ttlMarkOffset data) data"

definition ttl_mark_of :: "byte list \<Rightarrow> byte list" where
  "ttl_mark_of data = drop (length data - ttlMarkOffset data) data"

text \<open>\<open>operator <\<close>.\<close>

definition ttl_less :: "byte list \<Rightarrow> byte list \<Rightarrow> bool" where
  "ttl_less a b =
     (if length a < length b then True
      else if length b < length a then True
      else if length a = 0 \<or> length a = 1 then False
      else ttlMarkTimepoint a < ttlMarkTimepoint b)"

subsection \<open>Keys of objects and values of indexes: rocksdbkeys.h, src/rocksdbkeys.cpp\<close>

definition str_bytes :: "string \<Rightarrow> byte list" where
  "str_bytes s = map of_char s"

text \<open>The eight slices; \<open>timestamp\<close> is \<open>None\<close> for the null pointer, and the time is not null.\<close>

definition makeObjectKeyValue ::
    "string \<Rightarrow> string \<Rightarrow> string \<Rightarrow> int option \<Rightarrow> byte list \<Rightarrow> byte list list" where
  "makeObjectKeyValue modelId topic objectId timestamp ttlMark =
     [[1], str_bytes topic, [0], str_bytes modelId, [0], str_bytes objectId] @
     (case timestamp of
        Some ts \<Rightarrow> if ttlMark \<noteq> [] then [le_bytes 4 (nat (u32 ts)), ttlMark] else [[], []]
      | None \<Rightarrow> [[], []])"

definition objectKeySlices :: "byte list list \<Rightarrow> byte list" where
  "objectKeySlices parts = concat (take 5 (drop 1 parts))"

definition indexValueSlices :: "byte list list \<Rightarrow> byte list" where
  "indexValueSlices parts = concat parts"

definition objectKeyFromIndexValue :: "byte list \<Rightarrow> byte list" where
  "objectKeyFromIndexValue val =
     (let extraSize = 1 + 4 + ttlMarkOffset val
      in if length val < extraSize then [] else take (length val - extraSize) (drop 1 val))"

definition objectIdFromIndexValue :: "byte list \<Rightarrow> byte list" where
  "objectIdFromIndexValue val =
     (let extraSize = 4 + ttlMarkOffset val
      in if length val < extraSize + OidLength then []
         else take OidLength (drop (length val - extraSize - OidLength) val))"

definition timestampFromIndexValue :: "byte list \<Rightarrow> int" where
  "timestampFromIndexValue val =
     (let extraSize = 4 + ttlMarkOffset val
      in if length val < extraSize then 0 else s32 (int (le_nat (take 4 (drop (length val - extraSize) val)))))"

subsection \<open>Keys of indexes: detail/rocksdbkeys.ipp\<close>

datatype index_set = Unknown | Yes | No

text \<open>A field of an index in an object: what \<open>value()\<close> gives when the field is set or has a default, or the values
  of a repeated field that is set.\<close>

datatype index_field = IdxScalar "db_value option" | IdxRepeated "db_value list option"

text \<open>The keys in the order in which the handler gets them.\<close>

fun all_keys :: "'a list option list \<Rightarrow> 'a list option" where
  "all_keys [] = Some []"
| "all_keys (None # rs) = None"
| "all_keys (Some keys # rs) = map_option ((@) keys) (all_keys rs)"

fun iterateIndexFields ::
    "text_lib \<Rightarrow> string \<Rightarrow> index_field list \<Rightarrow> index_set \<Rightarrow> (string \<times> index_set) list option" where
  "iterateIndexFields T buf [] isIndexSet = Some [(buf, isIndexSet)]"
| "iterateIndexFields T buf (IdxRepeated (Some vs) # fs) isIndexSet =
     all_keys (map (\<lambda>v.
       (case fieldToStringBuf T buf v of
          None \<Rightarrow> None
        | Some buf' \<Rightarrow>
            iterateIndexFields T (buf' @ [SeparatorChar]) fs (if isIndexSet = Unknown then Yes else isIndexSet))) vs)"
| "iterateIndexFields T buf (IdxRepeated None # fs) isIndexSet =
     iterateIndexFields T (buf @ [SeparatorChar]) fs No"
| "iterateIndexFields T buf (IdxScalar (Some v) # fs) isIndexSet =
     (case fieldToStringBuf T buf v of
        None \<Rightarrow> None
      | Some buf' \<Rightarrow> iterateIndexFields T (buf' @ [SeparatorChar]) fs (if isIndexSet = Unknown then Yes else isIndexSet))"
| "iterateIndexFields T buf (IdxScalar None # fs) isIndexSet =
     (case fieldToStringBuf T buf DvNull of
        None \<Rightarrow> None
      | Some buf' \<Rightarrow> iterateIndexFields T (buf' @ [SeparatorChar]) fs isIndexSet)"

definition makeIndexKey ::
    "text_lib \<Rightarrow> string \<Rightarrow> string \<Rightarrow> index_field list \<Rightarrow> (string \<times> index_set) list option" where
  "makeIndexKey T topic indexId fs =
     iterateIndexFields T (topic @ [SeparatorChar] @ indexId @ [SeparatorChar]) fs Unknown"

subsection \<open>The order of strings\<close>

lemma str_less_same_prefix [simp]: "str_less (b @ s) (b @ t) \<longleftrightarrow> str_less s t"
  by (induction b) auto

lemma str_less_irrefl [simp]: "\<not> str_less s s"
  by (induction s) auto

lemma str_less_trans: "str_less r s \<Longrightarrow> str_less s t \<Longrightarrow> str_less r t"
proof (induction r s arbitrary: t rule: str_less.induct)
  case (2 c cs) then show ?case by (cases t) auto
next
  case (4 c cs d ds) then show ?case by (cases t) (auto intro: less_trans)
qed auto

lemma str_less_linear: "str_less s t \<or> s = t \<or> str_less t s"
proof (induction s t rule: str_less.induct)
  case (4 c cs d ds)
  have "(of_char c :: nat) < of_char d \<or> c = d \<or> (of_char d :: nat) < of_char c"
    by (metis linorder_neqE_nat of_char_eq_iff)
  then show ?case using 4 by auto
qed auto

lemma str_less_asym: "str_less s t \<Longrightarrow> \<not> str_less t s"
  using str_less_trans str_less_irrefl by blast

subsection \<open>The texts in digits\<close>

definition hex_string :: "string \<Rightarrow> string" where
  "hex_string s = concat (map (\<lambda>c. digits_at 16 2 (of_char c)) s)"

fun value_text :: "db_value \<Rightarrow> string" where
  "value_text (DvString val) = (if val = [] then [EmptyChar] else hex_string val)"
| "value_text (DvObjectId oid) = digits_at 16 11 (unat (m_timepoint oid))
     @ digits_at 16 6 (unat (m_seq oid)) @ digits_at 16 8 (unat (m_rand oid))"
| "value_text (DvDateTime ms) = (if ms < 2 ^ 40 then digits_at 16 10 (nat ms) else digits_at 16 11 (nat ms))"
| "value_text (DvInt i) =
     (if i < 0 then CHR ''0'' # digits_at 16 16 (nat (i + 2 ^ 64)) else CHR ''1'' # digits_at 16 16 (nat i))"
| "value_text (DvUInt n) = CHR ''1'' # digits_at 16 16 n"
| "value_text (DvBool b) = CHR ''1'' # digits_at 16 16 (if b then 1 else 0)"
| "value_text _ = []"

text \<open>The values that a field holds: integers of 64 bits, dates from 1970 to 2527.\<close>

fun value_ok :: "db_value \<Rightarrow> bool" where
  "value_ok (DvInt i) \<longleftrightarrow> - (2 ^ 63) \<le> i \<and> i < 2 ^ 63"
| "value_ok (DvUInt n) \<longleftrightarrow> n < 2 ^ 64"
| "value_ok (DvDateTime ms) \<longleftrightarrow> 0 \<le> ms \<and> ms < 2 ^ 44"
| "value_ok (DvObjectId oid) \<longleftrightarrow> unat (m_timepoint oid) < 2 ^ 44 \<and> unat (m_seq oid) < 2 ^ 24"
| "value_ok DvFirst \<longleftrightarrow> False"
| "value_ok DvLast \<longleftrightarrow> False"
| "value_ok _ \<longleftrightarrow> True"

lemma length_numeral_str: "2 \<le> base \<Longrightarrow> base ^ w \<le> n \<Longrightarrow> w < length (numeral_str base n)"
proof (induction w arbitrary: n)
  case 0 then show ?case by (simp add: numeral_str.simps [of base n])
next
  case (Suc w)
  have "base ^ w \<le> n div base" using Suc.prems by (simp add: less_eq_div_iff_mult_less_eq mult.commute)
  then have "w < length (numeral_str base (n div base))" by (rule Suc.IH [OF Suc.prems(1)])
  moreover have "base \<le> n"
    using Suc.prems by (metis le_trans one_le_power power_Suc mult.right_neutral mult_le_mono2 one_le_numeral order.trans)
  ultimately show ?case using Suc.prems(1) by (simp add: numeral_str.simps [of base n])
qed

lemma fmt_hex_more: "fmt_hex_ok F \<Longrightarrow> 16 ^ w \<le> n \<Longrightarrow> n < 16 ^ Suc w \<Longrightarrow> F w n = digits_at 16 (Suc w) n"
  using length_numeral_str [of 16 w n] pad0_numeral [of 16 n "Suc w"] by (simp add: fmt_hex_ok_def pad0_def)

lemma fieldToStringBuf_text:
  assumes "text_lib_ok T" "value_ok v"
  shows "fieldToStringBuf T buf v = Some (buf @ value_text v)"
proof -
  note F = fmt_hex_digits [of "tl_hex T"] fmt_hex_more [of "tl_hex T"]
  have ok: "fmt_hex_ok (tl_hex T)" using assms(1) by (simp add: text_lib_ok_def)
  show ?thesis
  proof (cases v)
    case (DvString s) then show ?thesis using assms(1) by (simp add: text_lib_ok_def hex_string_def)
  next
    case (DvInt i)
    have "i mod 2 ^ 64 = i + 2 ^ 64" if "i < 0"
      using that assms(2) DvInt mod_pos_pos_trivial [of "i + 2 ^ 64" "2 ^ 64"] by (simp add: mod_add_self2)
    then show ?thesis using assms(2) DvInt ok by (auto simp: int64_text_def F)
  next
    case (DvDateTime ms)
    have "nat ms < 16 ^ 10" if "ms < 2 ^ 40" using that assms(2) DvDateTime by simp
    moreover have "16 ^ 10 \<le> nat ms" "nat ms < 16 ^ Suc 10" if "\<not> ms < 2 ^ 40" using that assms(2) DvDateTime by simp_all
    ultimately show ?thesis
      using assms(2) DvDateTime ok F(1) [of "nat ms" 10] F(2) [of 10 "nat ms"] by (auto simp: signed_hex_def)
  next
    case (DvObjectId oid)
    have "oid_text (tl_hex T) oid = value_text v"
      using assms(2) oid_text_digits [OF ok, of oid] DvObjectId by simp
    moreover have "length (value_text v) = OidLength" using DvObjectId by (simp add: OidLength_def)
    ultimately show ?thesis using DvObjectId by (simp add: oid_serialize_def)
  qed (use assms ok in \<open>simp_all add: uint64_text_def F\<close>)
qed

text \<open>Every byte of a text is greater than both separators.\<close>

lemma digits_at_greater: "0 < base \<Longrightarrow> base \<le> 16 \<Longrightarrow> c \<in> set (digits_at base w n) \<Longrightarrow> 1 < (of_char c :: nat)"
proof (induction w arbitrary: n)
  case (Suc w)
  have "n mod base < 16" using Suc.prems by (meson less_le_trans mod_less_divisor)
  then have "1 < (of_char (digit_char (n mod base)) :: nat)" by (simp add: digit_char_def of_char_of)
  then show ?case using Suc by auto
qed simp

definition plain :: "string \<Rightarrow> bool" where
  "plain s \<longleftrightarrow> (\<forall>c \<in> set s. 1 < (of_char c :: nat))"

lemma plain_append [simp]: "plain (s @ t) \<longleftrightarrow> plain s \<and> plain t" "plain []"
  "plain (c # s) \<longleftrightarrow> 1 < (of_char c :: nat) \<and> plain s"
  by (auto simp: plain_def)

lemma plain_digits [simp]: "plain (digits_at 16 w n)"
  using digits_at_greater [of 16] by (auto simp: plain_def)

lemma digits_at_Nil [simp]: "digits_at base w n = [] \<longleftrightarrow> w = 0"
  by (metis length_0_conv length_digits_at)

lemma hex_string_Nil [simp]: "hex_string s = [] \<longleftrightarrow> s = []"
  by (cases s) (simp_all add: hex_string_def)

lemma plain_value_text [simp]: "plain (value_text v)"
proof -
  have "plain (hex_string s)" for s by (induction s) (simp_all add: hex_string_def)
  then show ?thesis by (cases v) simp_all
qed

lemma separator_less:
  "plain u \<Longrightarrow> u \<noteq> [] \<Longrightarrow> str_less (SeparatorChar # s) (u @ t)"
  "plain u \<Longrightarrow> u \<noteq> [] \<Longrightarrow> \<not> str_less (u @ t) (SeparatorChar # s)"
proof -
  assume "plain u" "u \<noteq> []"
  then obtain c cs where "u = c # cs" "1 < (of_char c :: nat)" by (cases u) auto
  then show "str_less (SeparatorChar # s) (u @ t)" by simp
next
  assume "plain u" "u \<noteq> []"
  then obtain c cs where u: "u = c # cs" "1 < (of_char c :: nat)" by (cases u) auto
  then have "c \<noteq> SeparatorChar" by auto
  then show "\<not> str_less (u @ t) (SeparatorChar # s)" using u by simp
qed

lemma hex_string_less:
  "str_less (hex_string x @ SeparatorChar # s) (hex_string y @ SeparatorChar # t) \<longleftrightarrow> str_less x y \<or> x = y \<and> str_less s t"
proof (induction x y rule: str_less.induct)
  case (2 c cs)
  have "plain (hex_string (c # cs))" "hex_string (c # cs) \<noteq> []"
    using plain_value_text [of "DvString (c # cs)"] by simp_all
  then show ?case using separator_less(1) [of "hex_string (c # cs)" s "SeparatorChar # t"] by (simp add: hex_string_def)
next
  case (3 c cs)
  have "plain (hex_string (c # cs))" "hex_string (c # cs) \<noteq> []"
    using plain_value_text [of "DvString (c # cs)"] by simp_all
  then show ?case using separator_less(2) [of "hex_string (c # cs)" "SeparatorChar # s" t] by (simp add: hex_string_def)
next
  case (4 c cs d ds)
  have "(of_char c :: nat) < 16 ^ 2" "(of_char d :: nat) < 16 ^ 2" by simp_all
  then show ?case using 4 by (auto simp: hex_string_def str_less_digits_at simp del: digits_at.simps)
qed (simp add: hex_string_def)

subsection \<open>The order of values\<close>

fun value_less :: "db_value \<Rightarrow> db_value \<Rightarrow> bool" where
  "value_less DvNull y \<longleftrightarrow> y \<noteq> DvNull"
| "value_less (DvBool a) (DvBool b) \<longleftrightarrow> \<not> a \<and> b"
| "value_less (DvInt a) (DvInt b) \<longleftrightarrow> a < b"
| "value_less (DvUInt a) (DvUInt b) \<longleftrightarrow> a < b"
| "value_less (DvString a) (DvString b) \<longleftrightarrow> str_less a b"
| "value_less (DvDateTime a) (DvDateTime b) \<longleftrightarrow> a < b"
| "value_less (DvObjectId a) (DvObjectId b) \<longleftrightarrow> oid_less a b"
| "value_less _ _ \<longleftrightarrow> False"

text \<open>Values of one field: of one type or null, and dates on one side of the day in 2004 when milliseconds since
  the epoch take an eleventh digit.\<close>

fun comparable :: "db_value \<Rightarrow> db_value \<Rightarrow> bool" where
  "comparable DvNull y \<longleftrightarrow> True"
| "comparable x DvNull \<longleftrightarrow> True"
| "comparable (DvBool a) (DvBool b) \<longleftrightarrow> True"
| "comparable (DvInt a) (DvInt b) \<longleftrightarrow> True"
| "comparable (DvUInt a) (DvUInt b) \<longleftrightarrow> True"
| "comparable (DvString a) (DvString b) \<longleftrightarrow> True"
| "comparable (DvDateTime a) (DvDateTime b) \<longleftrightarrow> (a < 2 ^ 40 \<longleftrightarrow> b < 2 ^ 40)"
| "comparable (DvObjectId a) (DvObjectId b) \<longleftrightarrow> True"
| "comparable _ _ \<longleftrightarrow> False"

lemma value_text_Nil: "value_ok v \<Longrightarrow> value_text v = [] \<longleftrightarrow> v = DvNull"
  by (cases v) simp_all

lemma text_order_digits:
  assumes "n < 16 ^ w" "m < 16 ^ w"
  shows "str_less (digits_at 16 w n @ s) (digits_at 16 w m @ t) \<longleftrightarrow> n < m \<or> n = m \<and> str_less s t"
  using str_less_digits_at [of 16 n w m s t] assms by simp

lemma value_text_order:
  assumes "value_ok x" "value_ok y" "comparable x y"
  shows "str_less (value_text x @ SeparatorChar # s) (value_text y @ SeparatorChar # t) \<longleftrightarrow>
           value_less x y \<or> x = y \<and> str_less s t"
proof (cases "x = DvNull \<or> y = DvNull")
  case True
  have "\<not> value_less x DvNull" by (cases x) simp_all
  moreover have "value_less DvNull y \<longleftrightarrow> y \<noteq> DvNull" by simp
  ultimately show ?thesis
    using True value_text_Nil [OF assms(1)] value_text_Nil [OF assms(2)]
      separator_less(1) [of "value_text y" s "SeparatorChar # t"] plain_value_text
      separator_less(2) [where u = "value_text x" and t = "SeparatorChar # s" and s = t]
    by (cases "x = DvNull"; cases "y = DvNull") (simp_all del: value_text.simps value_less.simps)
next
  case False
  note D = text_order_digits
  show ?thesis
  proof (cases x)
    case (DvBool a)
    then obtain b where y: "y = DvBool b" using assms(3) False by (cases y) auto
    show ?thesis by (cases a; cases b) (simp_all add: DvBool y D)
  next
    case (DvInt a)
    then obtain b where y: "y = DvInt b" using assms(3) False by (cases y) auto
    have "nat a < 16 ^ 16" if "0 \<le> a" using that assms(1) DvInt by simp
    moreover have "nat b < 16 ^ 16" if "0 \<le> b" using that assms(2) y by simp
    moreover have "nat (a + 2 ^ 64) < 16 ^ 16" if "a < 0" using that assms(1) DvInt by simp
    moreover have "nat (b + 2 ^ 64) < 16 ^ 16" if "b < 0" using that assms(2) y by simp
    ultimately show ?thesis
      using assms(1,2) DvInt y
      by (cases "a < 0"; cases "b < 0") (auto simp: D nat_eq_iff2 eq_nat_nat_iff)
  next
    case (DvUInt a)
    then obtain b where y: "y = DvUInt b" using assms(3) False by (cases y) auto
    show ?thesis using assms(1,2) by (simp add: DvUInt y D)
  next
    case (DvString a)
    then obtain b where y: "y = DvString b" using assms(3) False by (cases y) auto
    have e: "str_less (CHR 0x02 # SeparatorChar # s) (hex_string (c # cs) @ t')" for c cs s t'
    proof -
      have "(of_char c :: nat) div 16 < 16" using nat_of_char_less_256 [of c] by linarith
      then show ?thesis by (simp add: hex_string_def numeral_2_eq_2 digit_char_def of_char_of)
    qed
    show ?thesis
      using hex_string_less [of a s b t] e [of s] str_less_asym [OF e [of t]]
      by (cases a; cases b) (simp_all add: DvString y)
  next
    case (DvDateTime a)
    then obtain b where y: "y = DvDateTime b" using assms(3) False by (cases y) auto
    have "nat a < 16 ^ 10" "nat b < 16 ^ 10" if "a < 2 ^ 40"
      using that assms DvDateTime y by simp_all
    moreover have "nat a < 16 ^ 11" "nat b < 16 ^ 11" using assms DvDateTime y by auto
    ultimately show ?thesis
      using assms DvDateTime y by (cases "a < 2 ^ 40") (auto simp: D eq_nat_nat_iff)
  next
    case (DvObjectId a)
    then obtain b where y: "y = DvObjectId b" using assms(3) False by (cases y) auto
    have r: "unat (m_rand a) < 16 ^ 8" "unat (m_rand b) < 16 ^ 8"
      using unsigned_less [of "m_rand a", where 'a = nat] unsigned_less [of "m_rand b", where 'a = nat] by simp_all
    show ?thesis
      using assms(1,2) r by (cases a; cases b)
        (auto simp: DvObjectId y D oid_less_def word_less_nat_alt word_unat_eq_iff)
  qed (use False assms in auto)
qed

lemma value_less_linear:
  assumes "value_ok x" "value_ok y" "comparable x y"
  shows "value_less x y \<or> x = y \<or> value_less y x"
proof (cases "x = DvNull \<or> y = DvNull")
  case False
  then show ?thesis using assms str_less_linear
    by (cases x; cases y) (auto simp: oid_less_def ObjectId.expand)
qed auto

lemma comparable_sym: "comparable x y \<longleftrightarrow> comparable y x"
  by (cases x; cases y) auto

lemma value_less_irrefl [simp]: "\<not> value_less x x"
  by (cases x) (simp_all add: oid_less_def)

text \<open>C18: the bytes of a key order as the field does: the text of a smaller value with its separator comes
  before the text of a greater one whatever follows, null comes first, and only equal values leave the order
  to what follows. The two values are of one type or null and in its range (\<open>value_ok\<close>: integers of 64 bits, dates
  from 1970 to 2527, identifiers whose parts fit their digits), and two dates lie on the same side of 2^40
  milliseconds, a day in November 2004: across it the texts order the other way round (\<open>date_text_order_breaks\<close>).\<close>

theorem field_text_order:
  assumes "text_lib_ok T" "value_ok x" "value_ok y" "comparable x y"
  shows "\<exists>kx ky. fieldToStringBuf T buf x = Some kx \<and> fieldToStringBuf T buf y = Some ky \<and>
           (str_less (kx @ [SeparatorChar] @ s) (ky @ [SeparatorChar] @ t) \<longleftrightarrow>
              value_less x y \<or> x = y \<and> str_less s t)"
  using value_text_order [OF assms(2-4), of s t]
  by (simp add: fieldToStringBuf_text [OF assms(1,2)] fieldToStringBuf_text [OF assms(1,3)])

lemma field_text_order_witness:
  "\<exists>kx ky. fieldToStringBuf the_text_lib ''t'' (DvInt (- 3)) = Some kx \<and>
           fieldToStringBuf the_text_lib ''t'' (DvInt 5) = Some ky \<and>
           str_less (kx @ [SeparatorChar] @ ''b'') (ky @ [SeparatorChar] @ ''a'')"
  using field_text_order [OF the_text_lib_ok, of "DvInt (- 3)" "DvInt 5" "''t''" "''b''" "''a''"] by simp

text \<open>The milliseconds of the first date come after those of the second.\<close>

lemma date_text_order_breaks:
  "str_less (value_text (DvDateTime (2 ^ 40)) @ [SeparatorChar]) (value_text (DvDateTime (2 ^ 40 - 1)) @ [SeparatorChar])"
proof -
  have "value_text (DvDateTime (2 ^ 40)) = digits_at 16 10 (2 ^ 36) @ [digit_char 0]"
    using digits_at.simps(2) [of 16 10 "2 ^ 40"] by simp
  then show ?thesis using text_order_digits [of "2 ^ 36" 10 "2 ^ 40 - 1"] by simp
qed

subsection \<open>Marks and values read back\<close>

lemma fillExpireAt_length [simp]: "length (fillExpireAt e) = (if 0 < e then 5 else 1)"
  by (simp add: fillExpireAt_def)

lemma fillExpireAt_last: "fillExpireAt e \<noteq> []" "last (fillExpireAt e) = (if 0 < e then 1 else 0)"
  by (simp_all add: fillExpireAt_def)

lemma ttlMarkOffset_append [simp]: "ttlMarkOffset (xs @ fillExpireAt e) = length (fillExpireAt e)"
  by (simp add: ttlMarkOffset_def fillExpireAt_last)

lemma ttlMarkTimepoint_append: "e < 2 ^ 32 \<Longrightarrow> ttlMarkTimepoint (xs @ fillExpireAt e) = e"
  using le_nat_bytes_less [of e 4] by (simp add: ttlMarkTimepoint_def fillExpireAt_last) (simp add: fillExpireAt_def)

lemma stripTtlMark_append: "stripTtlMark (xs @ fillExpireAt e) = xs" "ttl_mark_of (xs @ fillExpireAt e) = fillExpireAt e"
  unfolding stripTtlMark_def ttl_mark_of_def ttlMarkOffset_append by simp_all

lemma s32_u32: "s32 (u32 x) = s32 x" "0 \<le> u32 x"
  by (simp_all add: u32_def s32_def mod_simps)

text \<open>C38: what the database reads from the value of an index entry is what was written: the key of the object, its
  identifier, the time it was written, and the mark with the time the object expires, whether or not it ever does.\<close>

theorem index_value_reads:
  assumes "length objectId = OidLength" "expireAt < 2 ^ 32"
    and "parts = makeObjectKeyValue modelId topic objectId (Some ts) (fillExpireAt expireAt)"
    and "val = indexValueSlices parts"
  shows "objectKeyFromIndexValue val = objectKeySlices parts \<and> objectIdFromIndexValue val = str_bytes objectId \<and>
         timestampFromIndexValue val = s32 ts \<and> ttlMarkTimepoint val = expireAt \<and>
         ttl_mark_of val = fillExpireAt expireAt \<and> stripTtlMark val @ fillExpireAt expireAt = val"
proof -
  let ?k = "str_bytes topic @ 0 # str_bytes modelId @ 0 # str_bytes objectId"
  have val: "val = (1 # ?k @ le_bytes 4 (nat (u32 ts))) @ fillExpireAt expireAt"
    using assms(3,4) fillExpireAt_last(1) by (simp add: makeObjectKeyValue_def indexValueSlices_def)
  have key: "objectKeySlices parts = ?k"
    using assms(3) fillExpireAt_last(1) by (simp add: makeObjectKeyValue_def objectKeySlices_def)
  have oid: "length (str_bytes objectId) = OidLength" using assms(1) by (simp add: str_bytes_def)
  have ts: "le_nat (le_bytes 4 (nat (u32 ts))) = nat (u32 ts)"
    by (rule le_nat_bytes_less) (simp add: u32_def nat_less_iff)
  have "objectIdFromIndexValue val = str_bytes objectId"
    unfolding objectIdFromIndexValue_def val ttlMarkOffset_append using oid
    by (simp add: Let_def numeral_3_eq_3)
  moreover have "timestampFromIndexValue val = s32 ts"
    unfolding timestampFromIndexValue_def val ttlMarkOffset_append using ts
    by (simp add: Let_def s32_u32 numeral_3_eq_3)
  moreover have "objectKeyFromIndexValue val = ?k"
    unfolding objectKeyFromIndexValue_def val ttlMarkOffset_append by (simp add: Let_def)
  moreover have "ttl_mark_of val = fillExpireAt expireAt" "stripTtlMark val @ fillExpireAt expireAt = val"
    unfolding val stripTtlMark_append by simp_all
  moreover have "ttlMarkTimepoint val = expireAt"
    unfolding val by (rule ttlMarkTimepoint_append) (rule assms(2))
  ultimately show ?thesis using key by simp
qed

lemma index_value_reads_witness:
  "objectIdFromIndexValue (indexValueSlices
     (makeObjectKeyValue ''m'' ''t'' (replicate 25 (CHR ''a'')) (Some 7) (fillExpireAt 9))) =
     str_bytes (replicate 25 (CHR ''a''))"
  using index_value_reads [of "replicate 25 (CHR ''a'')" 9 _ "''m''" "''t''" 7, OF _ _ refl refl]
  by (simp add: OidLength_def)

text \<open>The seconds of the fields with a time to live, those that are set.\<close>

definition ttl_times :: "(int option \<times> nat) list \<Rightarrow> int list" where
  "ttl_times ttlIndexes = concat (map (\<lambda>(tp, ttl). case tp of None \<Rightarrow> [] | Some s \<Rightarrow> [s + int ttl]) ttlIndexes)"

definition ttl_step :: "nat \<Rightarrow> int option \<times> nat \<Rightarrow> nat" where
  "ttl_step prev = (\<lambda>(tp, ttl).
     case tp of None \<Rightarrow> prev
     | Some tp \<Rightarrow> (let exp = nat (u32 (tp + int ttl)) in if exp < prev then exp else prev))"

lemma ttl_step_less:
  "\<forall>x \<in> set (ttl_times [a]). 0 < x \<and> x < 2 ^ 32 - 1 \<Longrightarrow>
   ttl_step p a < c \<longleftrightarrow> p < c \<or> (\<exists>x \<in> set (ttl_times [a]). x < int c)"
  by (cases a; cases "fst a") (auto simp: ttl_step_def ttl_times_def Let_def)

lemma ttl_times_Cons: "ttl_times (a # xs) = ttl_times [a] @ ttl_times xs"
  by (simp add: ttl_times_def)

lemma ttl_fold_less:
  "\<forall>x \<in> set (ttl_times xs). 0 < x \<and> x < 2 ^ 32 - 1 \<Longrightarrow>
   foldl ttl_step p xs < c \<longleftrightarrow> p < c \<or> (\<exists>x \<in> set (ttl_times xs). x < int c)"
proof (induction xs arbitrary: p)
  case (Cons a xs)
  have "\<forall>x \<in> set (ttl_times [a]). 0 < x \<and> x < 2 ^ 32 - 1" "\<forall>x \<in> set (ttl_times xs). 0 < x \<and> x < 2 ^ 32 - 1"
    using Cons.prems by (auto simp only: ttl_times_Cons [of a xs] set_append)
  then show ?case
    using Cons.IH [of "ttl_step p a"] ttl_step_less [of a p c]
    by (simp only: foldl_Cons ttl_times_Cons [of a xs] set_append) blast
qed (simp add: ttl_times_def)



text \<open>A sum of \<open>2 ^ 32\<close> and more wraps, so that the object expires at once; marks of different lengths are each
  less than the other.\<close>

lemma ttl_sum_wraps:
  "isExpired 0 (ttl_fill [(Some 1700000000, 2594967297)]) 1700000000"
  by (simp add: isExpired_def isExpired_tp_def ttl_fill_def u32_def ttlMarkTimepoint_append [of _ "[]", simplified])

lemma ttl_less_both: "ttl_less [0] (fillExpireAt 5)" "ttl_less (fillExpireAt 5) [0]"
  by (simp_all add: ttl_less_def)

end
