(* ===== verification/DbInterval.thy ===== *)
theory DbInterval
  imports HatnPrelude "HOL-Library.Multiset"
begin

section \<open>Intervals of queries: db/query.h\<close>

text \<open>
  \<open>query::Interval<T>\<close> with its endpoints, the comparison of two endpoints, \<open>contains\<close> and \<open>intersects\<close>, the
  order \<open>std::less\<close> of intervals, and \<open>sortAndMerge\<close>, which the search runs on a vector of intervals before it
  visits them one by one. The type of values is any linear order.

  The lemmas read an endpoint as a cut of the order, a place just below or just above a value, so that an interval
  is the values between two cuts. What \<open>std::sort\<close> returns is an argument.
\<close>

subsection \<open>The types\<close>

datatype IntervalType = Closed | Open | First | Last | Next

datatype Order = Asc | Desc

record 'a Endpoint =
  ep_value :: 'a
  ep_type :: IntervalType

record 'a Interval =
  iv_from :: "'a Endpoint"
  iv_to :: "'a Endpoint"

definition reverseIntervalType :: "IntervalType \<Rightarrow> IntervalType" where
  "reverseIntervalType type = (if type = Closed then Open else Closed)"

text \<open>\<open>Endpoint::less\<close>, early returns in order.\<close>

definition endpoint_less :: "'a::linorder Endpoint \<Rightarrow> 'a Endpoint \<Rightarrow> bool \<Rightarrow> bool \<Rightarrow> bool" where
  "endpoint_less self other selfFrom otherFrom =
     (if ep_type self = First \<and> ep_type other \<noteq> First then True
      else if ep_type self = Last \<and> ep_type other \<noteq> Last then False
      else if ep_type other = First then False
      else if ep_type other = Last then True
      else if ep_value self < ep_value other then True
      else if ep_value other < ep_value self then False
      else if ep_type self = ep_type other then False
      else if selfFrom then
        (if otherFrom then (if ep_type self = Closed then True else False)
         else (if ep_type other = Closed then True else False))
      else
        (if \<not> otherFrom then (if ep_type other = Closed then True else False)
         else (if ep_type self = Closed then True else False)))"

definition interval_contains :: "'a::linorder Interval \<Rightarrow> 'a \<Rightarrow> bool" where
  "interval_contains i value =
     (if ep_type (iv_from i) = First \<or> ep_type (iv_from i) = Open \<and> value > ep_value (iv_from i) \<or>
         ep_type (iv_from i) = Closed \<and> value \<ge> ep_value (iv_from i)
      then if ep_type (iv_to i) = Last \<or> ep_type (iv_to i) = Open \<and> value < ep_value (iv_to i) \<or>
              ep_type (iv_to i) = Closed \<and> value \<le> ep_value (iv_to i)
           then True else False
      else False)"

text \<open>\<open>std::less<Interval<T>>\<close> and \<open>intersects\<close>.\<close>

definition interval_less :: "'a::linorder Interval \<Rightarrow> 'a Interval \<Rightarrow> bool" where
  "interval_less l r =
     (if endpoint_less (iv_from l) (iv_from r) True True then True
      else if endpoint_less (iv_from r) (iv_from l) True True then False
      else if endpoint_less (iv_to l) (iv_to r) False False then True
      else False)"

definition intersects :: "'a::linorder Interval \<Rightarrow> 'a Interval \<Rightarrow> bool" where
  "intersects self other =
     (if endpoint_less (iv_to self) (iv_from other) False True \<or>
         endpoint_less (iv_to other) (iv_from self) False True
      then False else True)"

text \<open>The loop of \<open>sortAndMerge\<close> from the iterator \<open>it\<close> on; the merged interval stays at \<open>it\<close>.\<close>

definition merge_two :: "'a::linorder Interval \<Rightarrow> 'a Interval \<Rightarrow> 'a Interval" where
  "merge_two it it1 =
     \<lparr>iv_from = (if endpoint_less (iv_from it1) (iv_from it) True True then iv_from it1 else iv_from it),
      iv_to = (if endpoint_less (iv_to it) (iv_to it1) False False then iv_to it1 else iv_to it)\<rparr>"

function mergeIntervals :: "'a::linorder Interval list \<Rightarrow> 'a Interval list" where
  "mergeIntervals [] = []"
| "mergeIntervals [it] = [it]"
| "mergeIntervals (it # it1 # rest) =
     (if intersects it it1 then mergeIntervals (merge_two it it1 # rest)
      else it # mergeIntervals (it1 # rest))"
  by pat_completeness auto
termination by (relation "measure length") auto

text \<open>\<open>srt\<close> is what \<open>std::sort\<close> does to the vector. On an empty one the loop steps past the end: \<open>None\<close>.\<close>

definition sortAndMerge ::
    "(('a Interval \<Rightarrow> 'a Interval \<Rightarrow> bool) \<Rightarrow> 'a Interval list \<Rightarrow> 'a Interval list) \<Rightarrow>
     'a::linorder Interval list \<Rightarrow> Order \<Rightarrow> 'a Interval list option" where
  "sortAndMerge srt vec order =
     (if vec = [] then None
      else let merged = mergeIntervals (srt interval_less vec)
           in Some (if order = Desc then rev merged else merged))"

text \<open>What \<open>std::sort\<close> promises: on values that the comparison orders strictly and weakly, a sorted permutation.\<close>

definition strict_weak :: "('a \<Rightarrow> 'a \<Rightarrow> bool) \<Rightarrow> 'a set \<Rightarrow> bool" where
  "strict_weak lt A \<longleftrightarrow>
     (\<forall>x \<in> A. \<not> lt x x) \<and>
     (\<forall>x \<in> A. \<forall>y \<in> A. \<forall>z \<in> A. lt x y \<longrightarrow> lt y z \<longrightarrow> lt x z) \<and>
     (\<forall>x \<in> A. \<forall>y \<in> A. \<forall>z \<in> A. \<not> lt x y \<longrightarrow> \<not> lt y z \<longrightarrow> \<not> lt x z)"

definition std_sort_ok :: "(('a \<Rightarrow> 'a \<Rightarrow> bool) \<Rightarrow> 'a list \<Rightarrow> 'a list) \<Rightarrow> bool" where
  "std_sort_ok srt \<longleftrightarrow>
     (\<forall>lt xs. strict_weak lt (set xs) \<longrightarrow>
        mset (srt lt xs) = mset xs \<and> sorted_wrt (\<lambda>x y. \<not> lt y x) (srt lt xs))"

subsection \<open>Endpoints as cuts\<close>

datatype 'a cut = CutFirst | Below 'a | Above 'a | CutLast

instantiation cut :: (linorder) linorder
begin

fun less_eq_cut :: "'a cut \<Rightarrow> 'a cut \<Rightarrow> bool" where
  "less_eq_cut CutFirst _ = True"
| "less_eq_cut _ CutLast = True"
| "less_eq_cut (Below x) (Below y) = (x \<le> y)"
| "less_eq_cut (Below x) (Above y) = (x \<le> y)"
| "less_eq_cut (Above x) (Above y) = (x \<le> y)"
| "less_eq_cut (Above x) (Below y) = (x < y)"
| "less_eq_cut CutLast _ = False"
| "less_eq_cut _ CutFirst = False"

definition less_cut :: "'a cut \<Rightarrow> 'a cut \<Rightarrow> bool" where
  "less_cut a b = (a \<le> b \<and> \<not> b \<le> a)"

instance
proof
  fix x y z :: "'a cut"
  show "x < y \<longleftrightarrow> x \<le> y \<and> \<not> y \<le> x" by (simp add: less_cut_def)
  show "x \<le> x" by (cases x) auto
  show "x \<le> y \<Longrightarrow> y \<le> z \<Longrightarrow> x \<le> z" by (cases x; cases y; cases z) auto
  show "x \<le> y \<Longrightarrow> y \<le> x \<Longrightarrow> x = y" by (cases x; cases y) auto
  show "x \<le> y \<or> y \<le> x" by (cases x; cases y) auto
qed

end

lemma less_cut_simps [simp]:
  "Below x < Below y \<longleftrightarrow> x < y" "Below x < Above y \<longleftrightarrow> x \<le> y" "Above x < Above y \<longleftrightarrow> x < y"
  "Above x < Below y \<longleftrightarrow> x < y" "CutFirst < c \<longleftrightarrow> c \<noteq> CutFirst" "c < CutLast \<longleftrightarrow> c \<noteq> CutLast"
  "\<not> c < CutFirst" "\<not> CutLast < c"
  by (auto simp: less_cut_def) (cases c; auto)+

lemma cut_ends [simp]: "c \<le> CutFirst \<longleftrightarrow> c = CutFirst" "CutFirst \<le> c" "c \<le> CutLast" "CutLast \<le> c \<longleftrightarrow> c = CutLast"
  by (cases c; simp)+

text \<open>No cut lies between the two of a value.\<close>

lemma cut_gap: "c \<le> Below v \<or> Above v \<le> c"
  by (cases c) auto

definition from_cut :: "'a Endpoint \<Rightarrow> 'a cut" where
  "from_cut e = (case ep_type e of First \<Rightarrow> CutFirst | Closed \<Rightarrow> Below (ep_value e) | Open \<Rightarrow> Above (ep_value e) | _ \<Rightarrow> CutLast)"

definition to_cut :: "'a Endpoint \<Rightarrow> 'a cut" where
  "to_cut e = (case ep_type e of Last \<Rightarrow> CutLast | Closed \<Rightarrow> Above (ep_value e) | Open \<Rightarrow> Below (ep_value e) | _ \<Rightarrow> CutFirst)"

definition is_from :: "'a Endpoint \<Rightarrow> bool" where
  "is_from e \<longleftrightarrow> ep_type e \<in> {Closed, Open, First}"

definition is_to :: "'a Endpoint \<Rightarrow> bool" where
  "is_to e \<longleftrightarrow> ep_type e \<in> {Closed, Open, Last}"

definition interval_wf :: "'a Interval \<Rightarrow> bool" where
  "interval_wf i \<longleftrightarrow> is_from (iv_from i) \<and> is_to (iv_to i)"

lemma interval_contains_cuts:
  "interval_wf i \<Longrightarrow> interval_contains i v \<longleftrightarrow> from_cut (iv_from i) \<le> Below v \<and> Above v \<le> to_cut (iv_to i)"
  by (auto simp: interval_wf_def is_from_def is_to_def interval_contains_def from_cut_def to_cut_def)

lemma from_less_cuts [simp]:
  "is_from a \<Longrightarrow> is_from b \<Longrightarrow> endpoint_less a b True True \<longleftrightarrow> from_cut a < from_cut b"
  by (auto simp: is_from_def endpoint_less_def from_cut_def)

lemma to_less_cuts:
  "is_to a \<Longrightarrow> is_to b \<Longrightarrow> endpoint_less a b False False \<longleftrightarrow>
     to_cut a < to_cut b \<or> ep_type a = Last \<and> ep_type b = Last"
  by (auto simp: is_to_def endpoint_less_def to_cut_def)

text \<open>Two open endpoints at one value do not count as apart although the value is in neither interval.\<close>

definition open_touch :: "'a Endpoint \<Rightarrow> 'a Endpoint \<Rightarrow> bool" where
  "open_touch t f \<longleftrightarrow> ep_type t = Open \<and> ep_type f = Open \<and> ep_value t = ep_value f"

lemma to_from_less_cuts:
  assumes "is_to t" "is_from f"
  shows "endpoint_less t f False True \<Longrightarrow> to_cut t \<le> from_cut f"
    and "\<not> endpoint_less t f False True \<Longrightarrow> \<not> open_touch t f \<Longrightarrow> from_cut f \<le> to_cut t"
  using assms by (auto simp: is_to_def is_from_def endpoint_less_def to_cut_def from_cut_def open_touch_def split: if_splits)

subsection \<open>Merging\<close>

lemma merge_two_wf: "interval_wf a \<Longrightarrow> interval_wf b \<Longrightarrow> interval_wf (merge_two a b)"
  by (simp add: merge_two_def interval_wf_def)

lemma merge_two_cuts:
  assumes "interval_wf a" "interval_wf b"
  shows "from_cut (iv_from (merge_two a b)) = min (from_cut (iv_from a)) (from_cut (iv_from b))"
    and "to_cut (iv_to (merge_two a b)) = max (to_cut (iv_to a)) (to_cut (iv_to b))"
proof -
  show "from_cut (iv_from (merge_two a b)) = min (from_cut (iv_from a)) (from_cut (iv_from b))"
    using assms by (auto simp: merge_two_def interval_wf_def min_def)
  have "ep_type (iv_to a) = Last \<Longrightarrow> ep_type (iv_to b) = Last \<Longrightarrow> to_cut (iv_to a) = to_cut (iv_to b)"
    by (simp add: to_cut_def)
  then show "to_cut (iv_to (merge_two a b)) = max (to_cut (iv_to a)) (to_cut (iv_to b))"
    using assms by (auto simp: merge_two_def interval_wf_def to_less_cuts max_def not_less)
qed

text \<open>No upper endpoint of one interval and lower endpoint of another leave out the one value between them.\<close>

definition no_open_touch :: "'a Interval list \<Rightarrow> bool" where
  "no_open_touch xs \<longleftrightarrow> (\<forall>a \<in> set xs. \<forall>b \<in> set xs. \<not> open_touch (iv_to a) (iv_from b))"

lemma merge_two_contains:
  assumes "interval_wf a" "interval_wf b" "intersects a b"
    and "\<not> open_touch (iv_to a) (iv_from b)" "\<not> open_touch (iv_to b) (iv_from a)"
  shows "interval_contains (merge_two a b) v \<longleftrightarrow> interval_contains a v \<or> interval_contains b v"
proof -
  have "from_cut (iv_from b) \<le> to_cut (iv_to a)" "from_cut (iv_from a) \<le> to_cut (iv_to b)"
    using assms to_from_less_cuts(2) by (auto simp: intersects_def interval_wf_def split: if_splits)
  then show ?thesis
    using cut_gap [of "to_cut (iv_to a)" v] cut_gap [of "to_cut (iv_to b)" v] assms(1,2)
    by (auto simp: interval_contains_cuts merge_two_wf merge_two_cuts min_def max_def)
qed

lemma no_open_touch_merge:
  "no_open_touch (a # b # xs) \<Longrightarrow> no_open_touch (merge_two a b # xs)"
  by (auto simp: no_open_touch_def merge_two_def)

lemma mergeIntervals_contains:
  "\<forall>i \<in> set xs. interval_wf i \<Longrightarrow> no_open_touch xs \<Longrightarrow>
   (\<exists>i \<in> set (mergeIntervals xs). interval_contains i v) \<longleftrightarrow> (\<exists>i \<in> set xs. interval_contains i v)"
proof (induction xs rule: mergeIntervals.induct)
  case (3 a b rest)
  show ?case
  proof (cases "intersects a b")
    case True
    have "\<not> open_touch (iv_to a) (iv_from b)" "\<not> open_touch (iv_to b) (iv_from a)"
      using "3.prems" by (auto simp: no_open_touch_def)
    then have "interval_contains (merge_two a b) v \<longleftrightarrow> interval_contains a v \<or> interval_contains b v"
      using True "3.prems" by (intro merge_two_contains) auto
    moreover have "(\<exists>i \<in> set (mergeIntervals (merge_two a b # rest)). interval_contains i v) \<longleftrightarrow>
        (\<exists>i \<in> set (merge_two a b # rest). interval_contains i v)"
      by (rule "3.IH"(1) [OF True]) (use "3.prems" in \<open>auto simp: merge_two_wf no_open_touch_merge\<close>)
    ultimately show ?thesis using True by auto
  next
    case False
    have "no_open_touch (b # rest)" using "3.prems"(2) by (auto simp: no_open_touch_def)
    then show ?thesis using "3.IH"(2) [OF False] "3.prems"(1) False by auto
  qed
qed auto

text \<open>In the order of the lower endpoints, no interval empty: the result is apart.\<close>

definition interval_nonempty :: "'a::linorder Interval \<Rightarrow> bool" where
  "interval_nonempty i \<longleftrightarrow> from_cut (iv_from i) < to_cut (iv_to i)"

definition apart :: "'a::linorder Interval \<Rightarrow> 'a Interval \<Rightarrow> bool" where
  "apart a b \<longleftrightarrow> to_cut (iv_to a) \<le> from_cut (iv_from b)"

lemma not_intersects_apart:
  assumes "interval_wf a" "interval_wf b" "interval_nonempty b"
    and "from_cut (iv_from a) \<le> from_cut (iv_from b)" "\<not> intersects a b"
  shows "apart a b"
  using assms to_from_less_cuts(1) [of "iv_to a" "iv_from b"] to_from_less_cuts(1) [of "iv_to b" "iv_from a"]
  by (auto simp: intersects_def interval_wf_def interval_nonempty_def apart_def split: if_splits)

abbreviation from_sorted :: "'a::linorder Interval list \<Rightarrow> bool" where
  "from_sorted \<equiv> sorted_wrt (\<lambda>a b. from_cut (iv_from a) \<le> from_cut (iv_from b))"

lemma mergeIntervals_apart:
  "\<forall>i \<in> set xs. interval_wf i \<and> interval_nonempty i \<Longrightarrow> from_sorted xs \<Longrightarrow>
   sorted_wrt apart (mergeIntervals xs) \<and> (\<forall>i \<in> set (mergeIntervals xs). interval_nonempty i) \<and>
   (xs \<noteq> [] \<longrightarrow> (\<forall>i \<in> set (mergeIntervals xs). from_cut (iv_from (hd xs)) \<le> from_cut (iv_from i)))"
proof (induction xs rule: mergeIntervals.induct)
  case (3 a b rest)
  have le: "from_cut (iv_from a) \<le> from_cut (iv_from b)" using "3.prems"(2) by simp
  have wf: "interval_wf a" "interval_wf b" using "3.prems"(1) by auto
  show ?case
  proof (cases "intersects a b")
    case True
    have m: "from_cut (iv_from (merge_two a b)) = from_cut (iv_from a)" using le wf by (simp add: merge_two_cuts)
    have "from_cut (iv_from a) < to_cut (iv_to a)" using "3.prems"(1) by (simp add: interval_nonempty_def)
    then have "interval_nonempty (merge_two a b)"
      unfolding interval_nonempty_def m merge_two_cuts(2) [OF wf] by (simp add: less_max_iff_disj)
    then have c: "\<forall>i \<in> set (merge_two a b # rest). interval_wf i \<and> interval_nonempty i"
      using "3.prems"(1) merge_two_wf [OF wf] by simp
    have d: "from_sorted (merge_two a b # rest)" using "3.prems"(2) by (simp add: m)
    have "mergeIntervals (a # b # rest) = mergeIntervals (merge_two a b # rest)" using True by simp
    then show ?thesis using "3.IH"(1) [OF True c d] by (simp only: list.sel list.distinct m simp_thms) blast
  next
    case False
    have IH: "sorted_wrt apart (mergeIntervals (b # rest))" "\<forall>i \<in> set (mergeIntervals (b # rest)). interval_nonempty i"
        "\<forall>i \<in> set (mergeIntervals (b # rest)). from_cut (iv_from b) \<le> from_cut (iv_from i)"
      using "3.IH"(2) [OF False] "3.prems" by auto
    have "apart a b" using not_intersects_apart [OF wf _ le False] "3.prems"(1) by simp
    then have "\<forall>i \<in> set (mergeIntervals (b # rest)). apart a i" using IH(3) by (auto simp: apart_def)
    then show ?thesis using IH le False "3.prems"(1) by auto
  qed
qed auto

lemma apart_disjoint:
  "interval_wf a \<Longrightarrow> interval_wf b \<Longrightarrow> apart a b \<Longrightarrow> interval_contains a v \<Longrightarrow> \<not> interval_contains b v"
  by (auto simp: apart_def interval_contains_cuts)
     (metis dual_order.trans less_cut_simps(2) not_less order_refl)

subsection \<open>The order of intervals\<close>

lemma interval_less_cuts:
  assumes "interval_wf a" "interval_wf b" "ep_type (iv_to a) \<noteq> Last \<or> ep_type (iv_to b) \<noteq> Last"
  shows "interval_less a b \<longleftrightarrow> from_cut (iv_from a) < from_cut (iv_from b) \<or>
           from_cut (iv_from a) = from_cut (iv_from b) \<and> to_cut (iv_to a) < to_cut (iv_to b)"
  using assms by (auto simp: interval_less_def interval_wf_def to_less_cuts)

lemma lexicographic_trans:
  fixes a b c :: "'x::linorder" and d e f :: "'y::linorder"
  shows "a < b \<or> a = b \<and> d < e \<Longrightarrow> b < c \<or> b = c \<and> e < f \<Longrightarrow> a < c \<or> a = c \<and> d < f"
    and "\<not> (a < b \<or> a = b \<and> d < e) \<Longrightarrow> \<not> (b < c \<or> b = c \<and> e < f) \<Longrightarrow> \<not> (a < c \<or> a = c \<and> d < f)"
  by auto

lemma interval_less_strict_weak:
  assumes "\<forall>i \<in> A. interval_wf i \<and> ep_type (iv_to i) \<noteq> Last"
  shows "strict_weak interval_less A"
proof -
  have lt: "interval_less a b \<longleftrightarrow> from_cut (iv_from a) < from_cut (iv_from b) \<or>
          from_cut (iv_from a) = from_cut (iv_from b) \<and> to_cut (iv_to a) < to_cut (iv_to b)"
    if "a \<in> A" "b \<in> A" for a b using assms that by (intro interval_less_cuts) auto
  have "\<not> interval_less x x" if "x \<in> A" for x using lt [OF that that] by simp
  moreover have "interval_less x z" if "x \<in> A" "y \<in> A" "z \<in> A" "interval_less x y" "interval_less y z" for x y z
    using that(4,5) unfolding lt [OF that(1,2)] lt [OF that(2,3)] lt [OF that(1,3)] by (rule lexicographic_trans(1))
  moreover have "\<not> interval_less x z"
    if "x \<in> A" "y \<in> A" "z \<in> A" "\<not> interval_less x y" "\<not> interval_less y z" for x y z
    using that(4,5) unfolding lt [OF that(1,2)] lt [OF that(2,3)] lt [OF that(1,3)]
    by (rule lexicographic_trans(2))
  ultimately show ?thesis unfolding strict_weak_def by blast
qed

subsection \<open>Properties\<close>

text \<open>C19: merging a vector of intervals loses no value and adds none: a value is in some interval of the result
  exactly when it is in some interval of the vector, for any permutation that the sort returns and either order,
  as long as no two intervals meet at a value that both leave out.\<close>

theorem sort_merge_union:
  assumes "\<forall>i \<in> set vec. interval_wf i" "no_open_touch vec" "vec \<noteq> []"
    and "mset (srt interval_less vec) = mset vec"
  shows "\<exists>out. sortAndMerge srt vec order = Some out \<and>
           (\<exists>i \<in> set out. interval_contains i v) = (\<exists>i \<in> set vec. interval_contains i v)"
proof -
  have s: "set (srt interval_less vec) = set vec" by (rule mset_eq_setD) (rule assms(4))
  have "(\<exists>i \<in> set (mergeIntervals (srt interval_less vec)). interval_contains i v) \<longleftrightarrow>
        (\<exists>i \<in> set (srt interval_less vec). interval_contains i v)"
    by (rule mergeIntervals_contains) (use assms(1,2) s in \<open>simp_all add: no_open_touch_def\<close>)
  then show ?thesis using assms(3) s by (simp add: sortAndMerge_def Let_def)
qed

text \<open>A sort that evaluates.\<close>

fun place_by :: "('a \<Rightarrow> 'a \<Rightarrow> bool) \<Rightarrow> 'a \<Rightarrow> 'a list \<Rightarrow> 'a list" where
  "place_by lt x [] = [x]"
| "place_by lt x (y # ys) = (if lt y x then y # place_by lt x ys else x # y # ys)"

definition sort_by :: "('a \<Rightarrow> 'a \<Rightarrow> bool) \<Rightarrow> 'a list \<Rightarrow> 'a list" where
  "sort_by lt xs = foldr (place_by lt) xs []"

lemma mset_place_by [simp]: "mset (place_by lt x xs) = add_mset x (mset xs)"
  by (induction xs) auto

lemma set_place_by [simp]: "set (place_by lt x xs) = insert x (set xs)"
  by (induction xs) auto

lemma sort_by_mset: "mset (sort_by lt xs) = mset xs"
  by (induction xs) (simp_all add: sort_by_def)

lemma strict_weak_subset:
  assumes "strict_weak lt A" "B \<subseteq> A"
  shows "strict_weak lt B"
proof -
  have b: "x \<in> B \<Longrightarrow> x \<in> A" for x using assms(2) by blast
  show ?thesis using assms(1) unfolding strict_weak_def by (meson b)
qed

lemma sorted_place_by:
  assumes "strict_weak lt (insert x (set xs))"
  shows "sorted_wrt (\<lambda>a b. \<not> lt b a) xs \<Longrightarrow> sorted_wrt (\<lambda>a b. \<not> lt b a) (place_by lt x xs)"
  using assms
proof (induction xs)
  case (Cons y ys)
  have IH: "sorted_wrt (\<lambda>a b. \<not> lt b a) (place_by lt x ys)"
    by (rule Cons.IH) (use Cons.prems strict_weak_subset [OF Cons.prems(2), of "insert x (set ys)"] in auto)
  have "\<not> lt z x" if "\<not> lt y x" "\<not> lt z y" "z \<in> set ys" for z
    using that Cons.prems(2) unfolding strict_weak_def by (metis insertI1 insertCI list.simps(15))
  moreover have "\<not> lt x y" if "lt y x"
    using that Cons.prems(2) unfolding strict_weak_def by (metis insertI1 insertCI list.simps(15))
  ultimately show ?case using Cons.prems(1) IH by auto
qed simp

lemma sort_by_ok: "std_sort_ok (sort_by :: ('b \<Rightarrow> 'b \<Rightarrow> bool) \<Rightarrow> 'b list \<Rightarrow> 'b list)"
proof -
  have "sorted_wrt (\<lambda>a b. \<not> lt b a) (sort_by lt xs)" if "strict_weak lt (set xs)" for lt and xs :: "'b list"
    using that
  proof (induction xs)
    case (Cons x xs)
    have "strict_weak lt (set xs)" by (rule strict_weak_subset [OF Cons.prems]) auto
    moreover have "set (sort_by lt xs) = set xs" by (rule mset_eq_setD) (rule sort_by_mset)
    ultimately show ?case
      using Cons sorted_place_by [of lt x "sort_by lt xs"] by (simp add: sort_by_def)
  qed (simp add: sort_by_def)
  then show ?thesis by (simp add: std_sort_ok_def sort_by_mset)
qed

text \<open>C20: after \<open>sortAndMerge\<close> of intervals none of which is empty or ends at \<open>Last\<close>, no value is in two
  intervals, and the intervals stand in the order asked for: each ends before the next begins, or the other way round
  for descending order. Intervals that end at \<open>Last\<close> are left out because \<open>less\<close> holds of such an interval and
  itself, which \<open>std::sort\<close> does not allow.\<close>

theorem sort_merge_apart:
  assumes "\<forall>i \<in> set vec. interval_wf i \<and> interval_nonempty i \<and> ep_type (iv_to i) \<noteq> Last" "vec \<noteq> []"
    and "std_sort_ok srt"
  shows "\<exists>out. sortAndMerge srt vec order = Some out \<and>
           sorted_wrt (\<lambda>a b. if order = Desc then apart b a else apart a b) out"
proof -
  let ?s = "srt interval_less vec"
  have "strict_weak interval_less (set vec)" by (rule interval_less_strict_weak) (use assms(1) in blast)
  then have s: "mset ?s = mset vec" "sorted_wrt (\<lambda>x y. \<not> interval_less y x) ?s"
    using assms(3) by (auto simp: std_sort_ok_def)
  then have set: "set ?s = set vec" by (metis mset_eq_setD)
  have "from_sorted ?s"
    by (rule sorted_wrt_mono_rel [OF _ s(2)]) (use assms(1) set in \<open>auto simp: interval_less_cuts not_less\<close>)
  then have "sorted_wrt apart (mergeIntervals ?s)" using mergeIntervals_apart [of ?s] assms(1) set by simp
  then show ?thesis using assms(2) by (simp add: sortAndMerge_def Let_def sorted_wrt_rev)
qed

text \<open>Intervals of examples.\<close>

definition interval_of :: "nat \<Rightarrow> IntervalType \<Rightarrow> nat \<Rightarrow> IntervalType \<Rightarrow> nat Interval" where
  "interval_of a ta b tb = \<lparr>iv_from = \<lparr>ep_value = a, ep_type = ta\<rparr>, iv_to = \<lparr>ep_value = b, ep_type = tb\<rparr>\<rparr>"

lemmas interval_eval = interval_of_def interval_wf_def interval_nonempty_def is_from_def is_to_def from_cut_def
  to_cut_def no_open_touch_def open_touch_def sort_by_mset

definition three_intervals :: "nat Interval list" where
  "three_intervals = [interval_of 5 Closed 9 Last, interval_of 0 First 3 Closed, interval_of 3 Closed 5 Open]"

lemma sort_merge_union_witness:
  "\<exists>out. sortAndMerge sort_by three_intervals Desc = Some out \<and> (\<exists>i \<in> set out. interval_contains i 4) = True"
proof -
  have a: "\<forall>i \<in> set three_intervals. interval_wf i" "no_open_touch three_intervals" "three_intervals \<noteq> []"
    by (simp_all add: interval_eval three_intervals_def)
  have "(\<exists>i \<in> set three_intervals. interval_contains i 4) = True"
    by (simp add: interval_contains_def interval_of_def three_intervals_def)
  then show ?thesis using sort_merge_union [OF a, of sort_by Desc 4, OF sort_by_mset] by (simp only:)
qed

lemma sort_merge_apart_witness:
  "\<exists>out. sortAndMerge sort_by [interval_of 5 Open 9 Closed, interval_of 0 First 3 Closed] Desc = Some out \<and>
       sorted_wrt (\<lambda>a b. apart b a) out"
  using sort_merge_apart [of "[interval_of 5 Open 9 Closed, interval_of 0 First 3 Closed]" sort_by Desc]
  by (simp add: interval_eval sort_by_ok)

text \<open>Two intervals open at three become one that holds three.\<close>

lemma sort_merge_adds_excluded:
  "sortAndMerge sort_by [interval_of 1 Closed 3 Open, interval_of 3 Open 5 Closed] Asc =
     Some [interval_of 1 Closed 5 Closed]"
  "\<not> interval_contains (interval_of 1 Closed 3 Open) 3" "\<not> interval_contains (interval_of 3 Open 5 Closed) 3"
  "interval_contains (interval_of 1 Closed 5 Closed) 3"
  by (simp_all add: sortAndMerge_def sort_by_def interval_less_def endpoint_less_def interval_of_def
      intersects_def merge_two_def interval_contains_def)

text \<open>The order of intervals is not irreflexive.\<close>

lemma interval_less_Last: "interval_less (interval_of 1 Closed 0 Last) (interval_of 1 Closed 0 Last)"
  by (simp add: interval_less_def interval_of_def endpoint_less_def)

end
