(* ===== verification/DbSearch.thy ===== *)
theory DbSearch
  imports DbKeys DbInterval
begin

section \<open>Search by an index: db/plugins/rocksdb/src/indexkeysearch.cpp\<close>

text \<open>
  A query names the fields of an index in order, each with an operator, an operand and an order. \<open>nextKeyField\<close>
  takes the fields one by one and splits a field into variants, each a range of keys; \<open>iterateFieldVariant\<close> walks
  the range with an iterator of RocksDB, and for each key calls itself on the next field or, at the last one, the
  callback. The cursor carries the part of the key that the fields so far have fixed.

  The iterator is an argument: \<open>se_scan forward lo hi\<close> is the entries it visits between its bounds, and whether its
  status is good at the end. Arguments too are the callback, \<open>std::sort\<close> and the printing of texts. The seeks of one
  variant are counted by fuel; \<open>None\<close> is fuel that did not last. Error values stand for failed assertions.
\<close>

subsection \<open>Fields of a query: db/query.h\<close>

datatype Operator = op_eq | op_gt | op_gte | op_lt | op_lte | op_in | op_neq | op_nin

text \<open>\<open>std::less\<close> of the types of values, here on all of them, the types one after another.\<close>

fun value_type :: "db_value \<Rightarrow> nat" where
  "value_type DvNull = 0" | "value_type DvFirst = 1" | "value_type DvLast = 2" | "value_type (DvBool _) = 3"
| "value_type (DvInt _) = 4" | "value_type (DvUInt _) = 5" | "value_type (DvString _) = 6"
| "value_type (DvDateTime _) = 7" | "value_type (DvObjectId _) = 8"

instantiation db_value :: linorder
begin

definition less_db_value :: "db_value \<Rightarrow> db_value \<Rightarrow> bool" where
  "less_db_value x y \<longleftrightarrow> value_type x < value_type y \<or> value_type x = value_type y \<and> value_less x y"

definition less_eq_db_value :: "db_value \<Rightarrow> db_value \<Rightarrow> bool" where
  "less_eq_db_value x y \<longleftrightarrow> x = y \<or> x < y"

instance
proof
  have oid: "oid_less a b \<longleftrightarrow> a < b" for a b by (simp add: less_ObjectId_def)
  have irr: "\<not> x < x" for x :: db_value by (simp add: less_db_value_def)
  have tr: "x < y \<Longrightarrow> y < z \<Longrightarrow> x < z" for x y z :: db_value
    unfolding less_db_value_def by (cases x; cases y; cases z) (auto simp: oid intro: str_less_trans)
  have lin: "x < y \<or> x = y \<or> y < x" for x y :: db_value
    unfolding less_db_value_def using str_less_linear by (cases x; cases y) (auto simp: oid)
  fix x y z :: db_value
  show "x < y \<longleftrightarrow> x \<le> y \<and> \<not> y \<le> x" using irr tr by (auto simp: less_eq_db_value_def)
  show "x \<le> x" by (simp add: less_eq_db_value_def)
  show "x \<le> y \<Longrightarrow> y \<le> z \<Longrightarrow> x \<le> z" using tr by (auto simp: less_eq_db_value_def)
  show "x \<le> y \<Longrightarrow> y \<le> x \<Longrightarrow> x = y" using irr tr by (auto simp: less_eq_db_value_def)
  show "x \<le> y \<or> y \<le> x" using lin by (auto simp: less_eq_db_value_def)
qed

end

datatype operand = ScalarV db_value | IntervalV "db_value Interval" | VectorV "db_value list"
  | VectorIntervalV "db_value Interval list"

record query_field =
  qf_op :: Operator
  qf_value :: operand
  qf_order :: Order
  qf_relaxedNeqNull :: bool

definition isScalarOp :: "Operator \<Rightarrow> bool" where
  "isScalarOp op \<longleftrightarrow> op \<noteq> op_in \<and> op \<noteq> op_nin"

definition checkOperator :: "query_field \<Rightarrow> bool" where
  "checkOperator f \<longleftrightarrow>
     (case qf_value f of
        VectorV _ \<Rightarrow> \<not> isScalarOp (qf_op f) \<or> qf_op f = op_neq
      | ScalarV _ \<Rightarrow> isScalarOp (qf_op f)
      | _ \<Rightarrow> \<not> isScalarOp (qf_op f)) \<and>
     (qf_value f = ScalarV DvFirst \<longrightarrow> qf_op f = op_gte \<or> qf_op f = op_eq) \<and>
     (qf_value f = ScalarV DvLast \<longrightarrow> qf_op f = op_lte \<or> qf_op f = op_eq) \<and>
     (qf_value f = ScalarV DvNull \<and> \<not> qf_relaxedNeqNull f \<longrightarrow> qf_op f = op_eq \<or> qf_op f = op_neq)"

subsection \<open>Values in keys: ipp/fieldvaluetobuf.ipp\<close>

definition put_Last :: "string \<Rightarrow> string" where
  "put_Last buf = buf[length buf - 1 := SeparatorCharPlus]"

definition put_First :: "string \<Rightarrow> string" where
  "put_First buf = buf @ [NullChar]"

definition scalarToBuf :: "text_lib \<Rightarrow> string \<Rightarrow> db_value \<Rightarrow> char \<Rightarrow> string option" where
  "scalarToBuf T buf v sep =
     (case v of
        DvLast \<Rightarrow> Some (put_Last buf)
      | DvFirst \<Rightarrow> Some (put_First buf)
      | _ \<Rightarrow> map_option (\<lambda>b. b @ [sep]) (fieldToStringBuf T buf v))"

definition fromToBuf :: "text_lib \<Rightarrow> string \<Rightarrow> db_value Interval \<Rightarrow> char \<Rightarrow> string option" where
  "fromToBuf T buf i sep =
     map_option (\<lambda>b. b @ [sep])
       (case ep_type (iv_from i) of
          Last \<Rightarrow> Some (put_Last buf)
        | First \<Rightarrow> Some (put_First buf)
        | _ \<Rightarrow> fieldToStringBuf T buf (ep_value (iv_from i)))"

definition char_next :: "char \<Rightarrow> char" where
  "char_next c = char_of ((of_char c :: nat) + 1)"

definition toToBuf :: "text_lib \<Rightarrow> string \<Rightarrow> db_value Interval \<Rightarrow> char \<Rightarrow> string option" where
  "toToBuf T buf i sep =
     map_option (\<lambda>b. b @ [sep])
       (case ep_type (iv_to i) of
          Last \<Rightarrow> Some (put_Last buf)
        | First \<Rightarrow> Some (put_First buf)
        | Next \<Rightarrow> map_option (\<lambda>b. if length buf < length b then butlast b @ [char_next (last b)] else b)
                    (fieldToStringBuf T buf (ep_value (iv_from i)))
        | _ \<Rightarrow> fieldToStringBuf T buf (ep_value (iv_to i)))"

subsection \<open>The bounds of one variant\<close>

text \<open>What the switch of \<open>iterateFieldVariant\<close> sets: the bounds of the iterator, \<open>fromS\<close> and \<open>toS\<close>, the direction,
  \<open>seekExactPrefix\<close>, and whether the operand is the first or the last value. \<open>None\<close>: an assertion fails.\<close>

record bounds =
  bd_lower :: string
  bd_upper :: string
  bd_fromS :: string
  bd_toS :: string
  bd_forward :: bool
  bd_seekExactPrefix :: bool
  bd_only :: bool

definition is_edge :: "operand \<Rightarrow> bool" where
  "is_edge v \<longleftrightarrow> v = ScalarV DvFirst \<or> v = ScalarV DvLast"

definition range_bounds :: "string \<Rightarrow> string \<Rightarrow> string \<Rightarrow> string \<Rightarrow> query_field \<Rightarrow> bounds" where
  "range_bounds lower upper fromS toS f =
     \<lparr>bd_lower = lower, bd_upper = upper, bd_fromS = fromS, bd_toS = toS, bd_forward = (qf_order f = Asc),
      bd_seekExactPrefix = False, bd_only = is_edge (qf_value f)\<rparr>"

definition field_bounds :: "text_lib \<Rightarrow> string \<Rightarrow> query_field \<Rightarrow> string \<Rightarrow> string \<Rightarrow> bounds option" where
  "field_bounds T keyPrefix f prevFrom prevTo =
     (let base = keyPrefix @ [SeparatorChar] in
      case (qf_op f, qf_value f) of
        (op_gt, ScalarV v) \<Rightarrow>
          map_option (\<lambda>b. range_bounds b prevTo b prevTo f) (scalarToBuf T base v SeparatorCharPlus)
      | (op_gte, ScalarV v) \<Rightarrow>
          (if v = DvFirst then Some (range_bounds prevFrom prevTo prevFrom prevTo f)
           else map_option (\<lambda>b. range_bounds b prevTo b prevTo f) (scalarToBuf T base v SeparatorChar))
      | (op_lt, ScalarV v) \<Rightarrow>
          map_option (\<lambda>b. range_bounds (prevFrom @ [DbNullChar]) b prevFrom b f) (scalarToBuf T base v SeparatorChar)
      | (op_lte, ScalarV v) \<Rightarrow>
          (if v = DvLast then Some (range_bounds (prevFrom @ [DbNullChar]) prevTo prevFrom prevTo f)
           else map_option (\<lambda>b. range_bounds (prevFrom @ [DbNullChar]) b prevFrom b f)
                  (scalarToBuf T base v SeparatorCharPlus))
      | (op_eq, ScalarV v) \<Rightarrow>
          (if v = DvFirst \<or> v = DvLast
           then Some ((range_bounds prevFrom prevTo prevFrom prevTo f)
                        \<lparr>bd_forward := (v = DvFirst), bd_seekExactPrefix := True\<rparr>)
           else (case (scalarToBuf T base v SeparatorChar, scalarToBuf T base v SeparatorCharPlus) of
                   (Some b, Some c) \<Rightarrow> Some ((range_bounds b c b c f)\<lparr>bd_seekExactPrefix := True\<rparr>)
                 | _ \<Rightarrow> None))
      | (op_in, IntervalV i) \<Rightarrow>
          (let onlyFirst = (ep_type (iv_from i) = First \<and> ep_type (iv_to i) = First);
               onlyLast = (ep_type (iv_from i) = Last \<and> ep_type (iv_to i) = Last)
           in if onlyFirst \<or> onlyLast
              then Some ((range_bounds prevFrom prevTo prevFrom prevTo f)
                           \<lparr>bd_forward := onlyFirst, bd_seekExactPrefix := True, bd_only := True\<rparr>)
              else (case (fromToBuf T base i (if ep_type (iv_from i) = Open then SeparatorCharPlus else SeparatorChar),
                          toToBuf T base i (if ep_type (iv_to i) \<in> {Open, Last, Next} then SeparatorChar else SeparatorCharPlus)) of
                      (Some b, Some c) \<Rightarrow> Some (range_bounds b c b c f)
                    | _ \<Rightarrow> None))
      | _ \<Rightarrow> None)"

subsection \<open>The cursor and the parts of keys: indexkeysearch.h\<close>

definition FieldsOffset :: nat where "FieldsOffset = 2 + 8"

fun nth_separator :: "nat \<Rightarrow> string \<Rightarrow> nat option" where
  "nth_separator n [] = None"
| "nth_separator n (c # s) =
     (if c = SeparatorChar then (case n of 0 \<Rightarrow> Some 0 | Suc n' \<Rightarrow> map_option Suc (nth_separator n' s))
      else map_option Suc (nth_separator n s))"

text \<open>\<open>IndexKey::keyPrefix\<close>: the key up to the separator after the field at \<open>pos\<close>, counted from one.\<close>

definition keyPrefix :: "string \<Rightarrow> string \<Rightarrow> nat \<Rightarrow> string" where
  "keyPrefix key topic pos =
     (case nth_separator (pos - 1) (drop (FieldsOffset + length topic) key) of
        None \<Rightarrow> []
      | Some i \<Rightarrow> take (FieldsOffset + length topic + i) key)"

definition appendPrefix :: "string \<Rightarrow> string \<Rightarrow> string" where
  "appendPrefix cursor prefixKey =
     (if length cursor < length prefixKey then cursor @ drop (length cursor) prefixKey else cursor)"

definition restorePrefix :: "nat \<Rightarrow> string \<Rightarrow> string" where
  "restorePrefix prevSize cursor = take prevSize cursor @ replicate (prevSize - length cursor) NullChar"

definition indexPrefix :: "string \<Rightarrow> string \<Rightarrow> string" where
  "indexPrefix topic indexId = topic @ [SeparatorChar] @ indexId"

subsection \<open>Walking a range\<close>

type_synonym db_entry = "string \<times> byte list"

record 's search_env =
  se_text :: text_lib
  se_scan :: "bool \<Rightarrow> string \<Rightarrow> string \<Rightarrow> db_entry list \<times> bool"
  se_now :: nat
  se_filter :: "int Interval list option"
  se_topic :: string
  se_sort :: "(db_value \<Rightarrow> db_value \<Rightarrow> bool) \<Rightarrow> db_value list \<Rightarrow> db_value list"
  se_sortIntervals :: "(db_value Interval \<Rightarrow> db_value Interval \<Rightarrow> bool) \<Rightarrow> db_value Interval list \<Rightarrow> db_value Interval list"
  se_callback :: "db_entry \<Rightarrow> 's \<Rightarrow> bool \<times> db_error option \<times> 's"

text \<open>\<open>TimePointFilter\<close>: the signed seconds turn unsigned when they are compared.\<close>

definition filterTimePoint :: "int Interval list option \<Rightarrow> int \<Rightarrow> bool" where
  "filterTimePoint intervals timepoint =
     (case intervals of
        None \<Rightarrow> False
      | Some is \<Rightarrow> list_ex (\<lambda>i. interval_contains i (u32 timepoint)) is)"

definition filterIndex :: "'s search_env \<Rightarrow> nat \<Rightarrow> byte list \<Rightarrow> bool" where
  "filterIndex E pos val =
     (if pos = 1 then filterTimePoint (se_filter E) (timestampFromIndexValue val) else False)"

text \<open>The inner loop, on the entries from the iterator on: the function returns, breaks off for a new seek past the
  prefix, or leaves both loops.\<close>

datatype 's walked = WReturn "db_error option" "string \<times> 's" | WSeek string "string \<times> 's" | WDone "string \<times> 's"

fun walk ::
    "'s search_env \<Rightarrow> nat \<Rightarrow> bool \<Rightarrow> bounds \<Rightarrow> (string \<times> 's \<Rightarrow> (db_error option \<times> string \<times> 's) option) \<Rightarrow> nat \<Rightarrow>
     db_entry list \<Rightarrow> bool \<Rightarrow> string \<times> 's \<Rightarrow> 's walked option" where
  "walk E pos lastField B next offset [] ok st = Some (if ok then WDone st else WReturn (Some READ_FAILED) st)"
| "walk E pos lastField B next offset (e # es) ok (kp, s) =
     (if isExpired (se_now E) (snd e) 0 \<or> filterIndex E pos (snd e) then walk E pos lastField B next offset es ok (kp, s)
      else let kp' = appendPrefix kp (keyPrefix (fst e) (se_topic E) pos) in
      if lastField then
        (case se_callback E e s of (go, ec, s') \<Rightarrow>
           if \<not> go then Some (WReturn ec (kp', s'))
           else if ec \<noteq> None then Some (WReturn ec (kp', s'))
           else if bd_seekExactPrefix B \<and> bd_only B then Some (WDone (restorePrefix offset kp', s'))
           else walk E pos lastField B next offset es ok (restorePrefix offset kp', s'))
      else
        (case next (kp', s) of
           None \<Rightarrow> None
         | Some (Some ec, st') \<Rightarrow> Some (WReturn (Some ec) st')
         | Some (None, (kp'', s')) \<Rightarrow>
             if bd_seekExactPrefix B then Some (WDone (restorePrefix offset kp'', s'))
             else if es \<noteq> [] \<and> keyPrefix (fst (hd es)) (se_topic E) pos = kp''
             then Some (WSeek kp'' (restorePrefix offset kp'', s'))
             else walk E pos lastField B next offset es ok (restorePrefix offset kp'', s')))"

text \<open>The outer loop, an iterator in each turn.\<close>

fun seek ::
    "'s search_env \<Rightarrow> nat \<Rightarrow> bool \<Rightarrow> bounds \<Rightarrow>
     (string \<Rightarrow> string \<Rightarrow> string \<times> 's \<Rightarrow> (db_error option \<times> string \<times> 's) option) \<Rightarrow> nat \<Rightarrow>
     nat \<Rightarrow> string \<Rightarrow> string \<Rightarrow> string \<Rightarrow> string \<Rightarrow> string \<times> 's \<Rightarrow> (db_error option \<times> string \<times> 's) option" where
  "seek E pos lastField B next offset 0 lower upper fromS toS st = None"
| "seek E pos lastField B next offset (Suc fuel) lower upper fromS toS st =
     (case se_scan E (bd_forward B) lower upper of (es, ok) \<Rightarrow>
        (case walk E pos lastField B (next fromS toS) offset es ok st of
           None \<Rightarrow> None
         | Some (WReturn ec st') \<Rightarrow> Some (ec, st')
         | Some (WDone st') \<Rightarrow> Some (None, st')
         | Some (WSeek kp st') \<Rightarrow>
             if bd_forward B
             then seek E pos lastField B next offset fuel (kp @ [SeparatorCharPlus]) upper (kp @ [SeparatorCharPlus]) toS st'
             else seek E pos lastField B next offset fuel lower (kp @ [SeparatorChar]) fromS (kp @ [SeparatorChar]) st'))"

definition iterateFieldVariant ::
    "'s search_env \<Rightarrow> nat \<Rightarrow> nat \<Rightarrow> bool \<Rightarrow>
     (string \<Rightarrow> string \<Rightarrow> string \<times> 's \<Rightarrow> (db_error option \<times> string \<times> 's) option) \<Rightarrow>
     query_field \<Rightarrow> string \<Rightarrow> string \<Rightarrow> string \<times> 's \<Rightarrow> (db_error option \<times> string \<times> 's) option" where
  "iterateFieldVariant E fuel pos lastField next f prevFrom prevTo st =
     (case field_bounds (se_text E) (fst st) f prevFrom prevTo of
        None \<Rightarrow> Some (Some ASSERT_FAILED, st)
      | Some B \<Rightarrow>
          seek E pos lastField B next (length (fst st)) fuel (bd_lower B) (bd_upper B) (bd_fromS B) (bd_toS B) st)"

subsection \<open>Variants of a field\<close>

definition variant_field :: "query_field \<Rightarrow> Operator \<Rightarrow> operand \<Rightarrow> bool \<Rightarrow> query_field" where
  "variant_field q op v relaxed =
     \<lparr>qf_op = op, qf_value = v, qf_order = qf_order q, qf_relaxedNeqNull = relaxed\<rparr>"

definition interval_between :: "db_value \<Rightarrow> IntervalType \<Rightarrow> db_value \<Rightarrow> IntervalType \<Rightarrow> db_value Interval" where
  "interval_between a ta b tb =
     \<lparr>iv_from = \<lparr>ep_value = a, ep_type = ta\<rparr>, iv_to = \<lparr>ep_value = b, ep_type = tb\<rparr>\<rparr>"

definition before_interval :: "query_field \<Rightarrow> db_value Interval \<Rightarrow> query_field" where
  "before_interval q i =
     variant_field q (if ep_type (iv_from i) = Open then op_lte else op_lt) (ScalarV (ep_value (iv_from i))) False"

definition after_interval :: "query_field \<Rightarrow> db_value Interval \<Rightarrow> query_field" where
  "after_interval q i =
     variant_field q (if ep_type (iv_to i) = Open then op_gte else op_gt) (ScalarV (ep_value (iv_to i))) False"

definition nin_values :: "query_field \<Rightarrow> db_value list \<Rightarrow> query_field list" where
  "nin_values q vec =
     concat (map (\<lambda>i.
       (if i = 0 then [variant_field q op_lt (ScalarV (vec ! i)) False]
        else [variant_field q op_in (IntervalV (interval_between (vec ! (i - 1)) Open (vec ! i) Open)) False]) @
       (if i = length vec - 1 then [variant_field q op_gt (ScalarV (vec ! i)) False] else [])) [0..<length vec])"

definition nin_intervals :: "query_field \<Rightarrow> db_value Interval list \<Rightarrow> query_field list" where
  "nin_intervals q vec =
     concat (map (\<lambda>i.
       (if i = 0 then [before_interval q (vec ! i)]
        else [variant_field q op_in (IntervalV (interval_between
                (ep_value (iv_to (vec ! (i - 1)))) (reverseIntervalType (ep_type (iv_to (vec ! (i - 1)))))
                (ep_value (iv_from (vec ! i))) (reverseIntervalType (ep_type (iv_from (vec ! i)))))) False]) @
       (if i = length vec - 1 then [after_interval q (vec ! i)] else [])) [0..<length vec])"

text \<open>The fields for which \<open>nextKeyField\<close> calls \<open>iterateFieldVariant\<close>, in order; \<open>None\<close> where the sort of intervals
  is undefined.\<close>

definition fieldVariants :: "'s search_env \<Rightarrow> query_field \<Rightarrow> query_field list option" where
  "fieldVariants E q =
     (case qf_value q of
        ScalarV v \<Rightarrow>
          Some (if qf_op q \<noteq> op_neq then [q]
                else [variant_field q op_lt (ScalarV v) True, variant_field q op_gt (ScalarV v) True])
      | IntervalV i \<Rightarrow>
          Some (if qf_op q = op_in then [q]
                else (if ep_type (iv_from i) \<noteq> First then [before_interval q i] else []) @
                     (if ep_type (iv_to i) \<noteq> Last then [after_interval q i] else []))
      | VectorV vec \<Rightarrow>
          (let sorted_vec = se_sort E (\<lambda>l r. if qf_order q = Desc then \<not> l < r else l < r) vec
           in Some (if qf_op q = op_in then map (\<lambda>v. variant_field q op_eq (ScalarV v) False) sorted_vec
                    else nin_values q sorted_vec))
      | VectorIntervalV vec \<Rightarrow>
          (case sortAndMerge (se_sortIntervals E) vec (qf_order q) of
             None \<Rightarrow> None
           | Some merged \<Rightarrow>
               Some (if qf_op q = op_in then map (\<lambda>i. variant_field q op_in (IntervalV i) False) merged
                     else nin_intervals q merged)))"

text \<open>The constructor of each variant checks its operator before it is walked.\<close>

fun eachVariant ::
    "(query_field \<Rightarrow> string \<times> 's \<Rightarrow> (db_error option \<times> string \<times> 's) option) \<Rightarrow> query_field list \<Rightarrow> string \<times> 's \<Rightarrow>
     (db_error option \<times> string \<times> 's) option" where
  "eachVariant iter [] st = Some (None, st)"
| "eachVariant iter (f # fs) st =
     (if \<not> checkOperator f then Some (Some ASSERT_FAILED, st)
      else case iter f st of
        None \<Rightarrow> None
      | Some (Some ec, st') \<Rightarrow> Some (Some ec, st')
      | Some (None, st') \<Rightarrow> eachVariant iter fs st')"

fun nextKeyField ::
    "'s search_env \<Rightarrow> nat \<Rightarrow> nat \<Rightarrow> query_field list \<Rightarrow> string \<Rightarrow> string \<Rightarrow> string \<times> 's \<Rightarrow>
     (db_error option \<times> string \<times> 's) option" where
  "nextKeyField E fuel pos [] prevFrom prevTo st = Some (Some ASSERT_FAILED, st)"
| "nextKeyField E fuel pos (q # qs) prevFrom prevTo st =
     (case fieldVariants E q of
        None \<Rightarrow> Some (Some ASSERT_FAILED, st)
      | Some fs \<Rightarrow>
          eachVariant (\<lambda>f st. iterateFieldVariant E fuel (Suc pos) (qs = [])
            (\<lambda>from to st'. nextKeyField E fuel (Suc pos) qs from to st') f prevFrom prevTo st) fs st)"

text \<open>\<open>eachTopic\<close> of \<open>indexKeys\<close>: a cursor for a topic of a partition, then the first field.\<close>

definition searchTopic :: "'s search_env \<Rightarrow> nat \<Rightarrow> string \<Rightarrow> query_field list \<Rightarrow> 's \<Rightarrow> (db_error option \<times> 's) option" where
  "searchTopic E fuel indexId qfields s =
     (let cursor = indexPrefix (se_topic E) indexId in
      map_option (\<lambda>(ec, kp, s'). (ec, s'))
        (nextKeyField E fuel 0 qfields (cursor @ [SeparatorChar]) (cursor @ [SeparatorCharPlus]) (cursor, s)))"

end
