(* ===== verification/DbFind.thy ===== *)
theory DbFind
  imports DbSearch
begin

section \<open>What a search finds\<close>

text \<open>
  The entries of an index are rows: the values of the indexed fields, then the identifier of the object. The theory
  proves that the search of \<open>DbSearch\<close> returns, for the queries it is right for, exactly the live rows whose
  values the fields of the query match, each once.
\<close>

subsection \<open>Keys of rows\<close>

definition row_body :: "db_value list \<Rightarrow> string \<Rightarrow> string" where
  "row_body vals oid = concat (map (\<lambda>v. value_text v @ [SeparatorChar]) vals) @ oid"

definition cursor_at :: "string \<Rightarrow> db_value list \<Rightarrow> string" where
  "cursor_at prefix us = prefix @ concat (map (\<lambda>u. SeparatorChar # value_text u) us)"

definition row_key :: "string \<Rightarrow> db_value list \<Rightarrow> string \<Rightarrow> string" where
  "row_key prefix vals oid = prefix @ [SeparatorChar] @ row_body vals oid"

lemma row_body_simps [simp]:
  "row_body [] oid = oid"
  "row_body (v # vs) oid = value_text v @ SeparatorChar # row_body vs oid"
  by (simp_all add: row_body_def)

lemma cursor_at_simps [simp]:
  "cursor_at prefix [] = prefix"
  "cursor_at prefix (us @ [v]) = cursor_at prefix us @ SeparatorChar # value_text v"
  by (simp_all add: cursor_at_def)

lemma row_key_cursor: "row_key prefix (us @ vs) oid = cursor_at prefix us @ SeparatorChar # row_body vs oid"
proof (induction us arbitrary: vs rule: rev_induct)
  case (snoc u us)
  show ?case using snoc [of "u # vs"] by simp
qed (simp add: row_key_def)

lemma nth_separator_text:
  "plain t \<Longrightarrow> nth_separator n (t @ SeparatorChar # r) =
     (case n of 0 \<Rightarrow> Some (length t) | Suc m \<Rightarrow> map_option (\<lambda>i. Suc (length t + i)) (nth_separator m r))"
proof (induction t)
  case (Cons c t)
  have "c \<noteq> SeparatorChar" using Cons.prems by auto
  then show ?case using Cons by (cases n) (simp_all add: option.map_comp o_def)
qed (cases n; simp add: option.map_id [unfolded id_def])

lemma nth_separator_body:
  "nth_separator (length us) (row_body (us @ v # vs) oid) =
     Some (length (concat (map (\<lambda>u. value_text u @ [SeparatorChar]) us)) + length (value_text v))"
  by (induction us) (simp_all add: nth_separator_text)

lemma keyPrefix_row:
  assumes "prefix = indexPrefix topic indexId" "length indexId = 8"
  shows "keyPrefix (row_key prefix (us @ v # vs) oid) topic (Suc (length us)) = cursor_at prefix (us @ [v])"
proof -
  let ?k = "row_key prefix (us @ v # vs) oid"
  have off: "FieldsOffset + length topic = Suc (length prefix)"
    using assms by (simp add: FieldsOffset_def indexPrefix_def)
  have d: "drop (Suc (length prefix)) ?k = row_body (us @ v # vs) oid" by (simp add: row_key_def)
  have len: "length (concat (map (\<lambda>u. value_text u @ [SeparatorChar]) us)) =
      length (concat (map (\<lambda>u. SeparatorChar # value_text u) us))"
    by (induction us) simp_all
  have "length (cursor_at prefix (us @ [v])) =
      Suc (length prefix) + (length (concat (map (\<lambda>u. value_text u @ [SeparatorChar]) us)) + length (value_text v))"
    unfolding len by (simp add: cursor_at_def)
  moreover have "?k = cursor_at prefix (us @ [v]) @ SeparatorChar # row_body vs oid"
    using row_key_cursor [of prefix "us @ [v]" vs oid] by simp
  ultimately show ?thesis
    unfolding keyPrefix_def off using d nth_separator_body [of us v vs oid] by simp
qed

subsection \<open>Bounds and prefixes\<close>

lemma str_less_Nil [simp]: "\<not> str_less s []"
  by (cases s) simp_all

lemma str_less_append [simp]: "\<not> str_less (p @ s) p"
  by (induction p) auto

lemma char_zero: "(of_char c :: nat) = 0 \<longleftrightarrow> c = SeparatorChar"
  using of_char_eq_iff [of c SeparatorChar, where 'a = nat] by simp

text \<open>Between \<open>p\<close> with zero and \<open>p\<close> with one are the strings that start with \<open>p\<close> and zero.\<close>

lemma range_prefix:
  "\<not> str_less k (p @ [SeparatorChar]) \<and> str_less k (p @ [SeparatorCharPlus]) \<longleftrightarrow> (\<exists>r. k = p @ SeparatorChar # r)"
proof (induction p arbitrary: k)
  case Nil
  show ?case by (cases k) (auto simp: char_zero less_one)
next
  case (Cons a p)
  then show ?case by (cases k) auto
qed

text \<open>Texts that differ compare alike with either separator behind the second.\<close>

lemma plain_less_plus:
  "plain a \<Longrightarrow> plain b \<Longrightarrow>
   str_less (a @ SeparatorChar # s) (b @ [SeparatorCharPlus]) \<longleftrightarrow> str_less (a @ SeparatorChar # s) (b @ [SeparatorChar]) \<or> a = b"
proof (induction a arbitrary: b)
  case Nil
  then show ?case by (cases b) auto
next
  case (Cons x a)
  then show ?case by (cases b) auto
qed

lemma row_less:
  assumes "value_ok v" "value_ok x" "comparable v x"
  shows "str_less (value_text v @ SeparatorChar # r) (value_text x @ [SeparatorChar]) \<longleftrightarrow> value_less v x"
    and "str_less (value_text v @ SeparatorChar # r) (value_text x @ [SeparatorCharPlus]) \<longleftrightarrow> \<not> value_less x v"
proof -
  have lt: "str_less (value_text v @ SeparatorChar # r) (value_text x @ [SeparatorChar]) \<longleftrightarrow> value_less v x"
    using value_text_order [OF assms, of r "[]"] by simp
  have eq: "value_text v = value_text x \<longleftrightarrow> v = x"
    using value_text_order [OF assms, of "[]" "[SeparatorChar]"] value_text_order [OF assms, of "[]" "[]"]
      value_less_linear [OF assms] value_text_order [OF assms(2,1), of "[]" "[]"] assms(3) comparable_sym by auto
  have "\<not> (value_less v x \<and> value_less x v)"
    using value_text_order [OF assms, of "[]" "[]"] value_text_order [OF assms(2,1), of "[]" "[]"]
      assms(3) comparable_sym [of v x] str_less_asym by auto
  then show "str_less (value_text v @ SeparatorChar # r) (value_text x @ [SeparatorCharPlus]) \<longleftrightarrow> \<not> value_less x v"
    using lt eq value_less_linear [OF assms] by (auto simp: plain_less_plus)
  show "str_less (value_text v @ SeparatorChar # r) (value_text x @ [SeparatorChar]) \<longleftrightarrow> value_less v x" by (rule lt)
qed

lemma row_less_null:
  "str_less (value_text v @ SeparatorChar # r) [DbNullChar] \<longleftrightarrow> value_text v = []"
proof (cases "value_text v")
  case (Cons c cs)
  then show ?thesis using plain_value_text [of v] by simp
qed simp

lemma row_less_first:
  "r \<noteq> [] \<Longrightarrow> \<not> str_less (value_text v @ SeparatorChar # r) [SeparatorChar, SeparatorChar]"
  by (cases "value_text v"; cases r) (use plain_value_text [of v] in \<open>auto simp: char_zero\<close>)

subsection \<open>What a variant matches\<close>

definition from_matches :: "db_value Endpoint \<Rightarrow> db_value \<Rightarrow> bool" where
  "from_matches e v \<longleftrightarrow> ep_type e = First \<or> ep_type e = Closed \<and> \<not> value_less v (ep_value e) \<or>
     ep_type e = Open \<and> value_less (ep_value e) v"

definition to_matches :: "db_value Endpoint \<Rightarrow> db_value \<Rightarrow> bool" where
  "to_matches e v \<longleftrightarrow> ep_type e = Last \<or> ep_type e = Closed \<and> \<not> value_less (ep_value e) v \<or>
     ep_type e = Open \<and> value_less v (ep_value e)"

text \<open>Comparisons do not match null; equality and an interval from \<open>First\<close> do.\<close>

fun variant_matches :: "query_field \<Rightarrow> db_value \<Rightarrow> bool" where
  "variant_matches f v =
     (case (qf_op f, qf_value f) of
        (op_eq, ScalarV x) \<Rightarrow> v = x
      | (op_gt, ScalarV x) \<Rightarrow> value_less x v
      | (op_gte, ScalarV x) \<Rightarrow> x = DvFirst \<or> \<not> value_less v x
      | (op_lt, ScalarV x) \<Rightarrow> v \<noteq> DvNull \<and> value_less v x
      | (op_lte, ScalarV x) \<Rightarrow> v \<noteq> DvNull \<and> (x = DvLast \<or> \<not> value_less x v)
      | (op_in, IntervalV i) \<Rightarrow> from_matches (iv_from i) v \<and> to_matches (iv_to i) v
      | _ \<Rightarrow> False)"

declare variant_matches.simps [simp del]

definition variant_ok :: "query_field \<Rightarrow> bool" where
  "variant_ok f \<longleftrightarrow> checkOperator f \<and>
     (case (qf_op f, qf_value f) of
        (op_eq, ScalarV x) \<Rightarrow> x \<noteq> DvFirst \<and> x \<noteq> DvLast
      | (op_in, IntervalV i) \<Rightarrow> interval_wf i
      | (op_neq, _) \<Rightarrow> False
      | (op_nin, _) \<Rightarrow> False
      | (_, ScalarV x) \<Rightarrow> True
      | _ \<Rightarrow> False)"

definition exact :: "query_field \<Rightarrow> bool" where
  "exact f \<longleftrightarrow> qf_op f = op_eq"

text \<open>The values that the variant compares with are ones that the field can hold.\<close>

definition variant_values :: "query_field \<Rightarrow> db_value list" where
  "variant_values f =
     (case qf_value f of
        ScalarV x \<Rightarrow> if x = DvFirst \<or> x = DvLast then [] else [x]
      | IntervalV i \<Rightarrow> (if ep_type (iv_from i) = First then [] else [ep_value (iv_from i)]) @
                       (if ep_type (iv_to i) = Last then [] else [ep_value (iv_to i)])
      | _ \<Rightarrow> [])"

definition variant_fits :: "query_field \<Rightarrow> db_value \<Rightarrow> bool" where
  "variant_fits f v \<longleftrightarrow> (\<forall>x \<in> set (variant_values f). value_ok x \<and> comparable v x)"

definition in_bounds :: "bounds \<Rightarrow> string \<Rightarrow> bool" where
  "in_bounds B k \<longleftrightarrow> \<not> str_less k (bd_lower B) \<and> str_less k (bd_upper B)"

lemma scalarToBuf_ok:
  "text_lib_ok T \<Longrightarrow> value_ok x \<Longrightarrow> scalarToBuf T base x sep = Some (base @ value_text x @ [sep])"
  by (cases x) (simp_all add: scalarToBuf_def fieldToStringBuf_text del: fieldToStringBuf.simps)

lemma cursor_less_same [simp]:
  "str_less (cp @ SeparatorChar # s) (cp @ SeparatorChar # t) \<longleftrightarrow> str_less s t"
  using str_less_same_prefix [of "cp @ [SeparatorChar]" s t] by simp

lemma bounds_scalar:
  assumes "text_lib_ok T" "variant_ok f" "qf_value f = ScalarV x"
    and "exact f \<or> prevFrom = cp @ [SeparatorChar] \<and> prevTo = cp @ [SeparatorCharPlus]"
    and "variant_fits f v" "value_ok v" "r \<noteq> []"
  shows "\<exists>B. field_bounds T cp f prevFrom prevTo = Some B \<and>
           (in_bounds B (cp @ SeparatorChar # value_text v @ SeparatorChar # r) \<longleftrightarrow> variant_matches f v)"
proof -
  have below: "str_less (cp @ SeparatorChar # s) (cp @ [SeparatorCharPlus])" for s
    using range_prefix [of "cp @ SeparatorChar # s" cp] by blast
  have ok: "value_ok x" "comparable v x" if "x \<noteq> DvFirst" "x \<noteq> DvLast"
    using assms(3,5) that by (auto simp: variant_fits_def variant_values_def)
  note R = row_less [OF assms(6) ok(1) ok(2)]
  have null: "value_text v = [] \<longleftrightarrow> v = DvNull" by (rule value_text_Nil) (rule assms(6))
  note D = field_bounds_def in_bounds_def range_bounds_def variant_matches.simps Let_def
  show ?thesis
  proof (cases "qf_op f")
    case op_eq
    then have x: "x \<noteq> DvFirst" "x \<noteq> DvLast" using assms(2,3) by (auto simp: variant_ok_def)
    have "\<not> value_less v x \<and> \<not> value_less x v \<longleftrightarrow> v = x"
      using value_less_linear [OF assms(6) ok [OF x]] by auto
    then show ?thesis
      using op_eq assms(1,3) x R [OF x x] ok(1) [OF x] by (simp add: D scalarToBuf_ok)
  next
    case op_gt
    then have x: "x \<noteq> DvFirst" "x \<noteq> DvLast" using assms(2,3) by (auto simp: variant_ok_def checkOperator_def)
    then show ?thesis
      using op_gt assms(1,3,4) R [OF x x] ok(1) [OF x] below by (simp add: D scalarToBuf_ok exact_def)
  next
    case op_gte
    then have x: "x \<noteq> DvLast" using assms(2,3) by (auto simp: variant_ok_def checkOperator_def)
    then show ?thesis
      using op_gte assms(1,3,4) R ok(1) below by (cases "x = DvFirst") (simp_all add: D scalarToBuf_ok exact_def)
  next
    case op_lt
    then have x: "x \<noteq> DvFirst" "x \<noteq> DvLast" using assms(2,3) by (auto simp: variant_ok_def checkOperator_def)
    then show ?thesis
      using op_lt assms(1,3,4) R [OF x x] ok(1) [OF x] null by (simp add: D scalarToBuf_ok exact_def row_less_null)
  next
    case op_lte
    then have x: "x \<noteq> DvFirst" using assms(2,3) by (auto simp: variant_ok_def checkOperator_def)
    then show ?thesis
      using op_lte assms(1,3,4) R ok(1) below null
      by (cases "x = DvLast") (simp_all add: D scalarToBuf_ok exact_def row_less_null)
  qed (use assms(2,3) in \<open>auto simp: variant_ok_def checkOperator_def isScalarOp_def\<close>)
qed

lemma bounds_interval:
  assumes "text_lib_ok T" "variant_ok f" "qf_op f = op_in" "qf_value f = IntervalV i"
    and "variant_fits f v" "value_ok v" "r \<noteq> []"
  shows "\<exists>B. field_bounds T cp f prevFrom prevTo = Some B \<and>
           (in_bounds B (cp @ SeparatorChar # value_text v @ SeparatorChar # r) \<longleftrightarrow> variant_matches f v)"
proof -
  let ?a = "iv_from i" and ?b = "iv_to i"
  have wf: "is_from ?a" "is_to ?b" using assms(2-4) by (simp_all add: variant_ok_def interval_wf_def)
  have oka: "value_ok (ep_value ?a)" "comparable v (ep_value ?a)" if "ep_type ?a \<noteq> First"
    using assms(4,5) that by (auto simp: variant_fits_def variant_values_def)
  have okb: "value_ok (ep_value ?b)" "comparable v (ep_value ?b)" if "ep_type ?b \<noteq> Last"
    using assms(4,5) that by (auto simp: variant_fits_def variant_values_def)
  note R = row_less [OF assms(6), where r = r]
  let ?k = "cp @ SeparatorChar # value_text v @ SeparatorChar # r"
  let ?base = "cp @ [SeparatorChar]"
  have below: "str_less (cp @ SeparatorChar # s) (cp @ SeparatorCharPlus # u)" for s u
    using str_less_same_prefix [of cp "SeparatorChar # s" "SeparatorCharPlus # u"] by simp
  have "\<exists>b. fromToBuf T ?base i (if ep_type ?a = Open then SeparatorCharPlus else SeparatorChar) = Some b \<and>
            (\<not> str_less ?k b \<longleftrightarrow> from_matches ?a v)"
    using wf(1) oka R(1) [OF oka] R(2) [OF oka] row_less_first [OF assms(7)] assms(1)
    by (cases "ep_type ?a")
       (auto simp: is_from_def fromToBuf_def from_matches_def put_First_def fieldToStringBuf_text value_less_linear)
  moreover have "\<exists>c. toToBuf T ?base i (if ep_type ?b \<in> {Open, Last, Next} then SeparatorChar else SeparatorCharPlus) = Some c \<and>
            (str_less ?k c \<longleftrightarrow> to_matches ?b v)"
    using wf(2) okb R(1) [OF okb] R(2) [OF okb] assms(1) below
    by (cases "ep_type ?b") (auto simp: is_to_def toToBuf_def to_matches_def put_Last_def fieldToStringBuf_text)
  moreover have "\<not> (ep_type ?a = First \<and> ep_type ?b = First)" "\<not> (ep_type ?a = Last \<and> ep_type ?b = Last)"
    using wf by (auto simp: is_from_def is_to_def)
  ultimately show ?thesis
    using assms(3,4) by (auto simp: field_bounds_def in_bounds_def range_bounds_def variant_matches.simps Let_def)
qed

lemma less_append_zero: "str_less k (q @ [SeparatorChar]) \<longleftrightarrow> str_less k q \<or> k = q"
proof (induction q arbitrary: k)
  case Nil
  show ?case by (cases k) auto
next
  case (Cons a q)
  then show ?case by (cases k) auto
qed

text \<open>Nothing outside the index gets between the bounds, but for the key that is the cursor and a one.\<close>

lemma fieldToStringBuf_extends:
  "text_lib_ok T \<Longrightarrow> value_ok x \<Longrightarrow> \<exists>s. fieldToStringBuf T buf x = Some (buf @ s)"
  by (simp add: fieldToStringBuf_text)

lemma in_bounds_prefix:
  assumes "\<exists>s. bd_lower B = cp @ SeparatorChar # s"
    and "(\<exists>s. bd_upper B = cp @ SeparatorChar # s) \<or> bd_upper B = cp @ [SeparatorCharPlus] \<or>
         bd_upper B = cp @ [SeparatorCharPlus, SeparatorChar]"
    and "in_bounds B k" "k \<noteq> cp @ [SeparatorCharPlus]"
  shows "\<exists>r. k = cp @ SeparatorChar # r"
proof -
  obtain s where s: "bd_lower B = (cp @ [SeparatorChar]) @ s" using assms(1) by auto
  have "\<not> str_less k (cp @ [SeparatorChar])"
  proof
    assume k: "str_less k (cp @ [SeparatorChar])"
    have "cp @ [SeparatorChar] = bd_lower B \<or> str_less (cp @ [SeparatorChar]) (bd_lower B)"
      using str_less_linear [of "cp @ [SeparatorChar]" "bd_lower B"] s by auto
    then show False using k assms(3) str_less_trans by (auto simp: in_bounds_def)
  qed
  moreover have "str_less k (cp @ [SeparatorCharPlus])"
  proof -
    have "str_less (cp @ SeparatorChar # u) (cp @ [SeparatorCharPlus])" for u
      using range_prefix [of "cp @ SeparatorChar # u" cp] by blast
    then show ?thesis
      using assms(2-4) less_append_zero [of k "cp @ [SeparatorCharPlus]"] str_less_trans by (auto simp: in_bounds_def)
  qed
  ultimately show ?thesis using range_prefix by blast
qed

definition variant_valid :: "query_field \<Rightarrow> bool" where
  "variant_valid f \<longleftrightarrow> variant_ok f \<and> (\<forall>x \<in> set (variant_values f). value_ok x)"

lemma bounds_shape:
  assumes "text_lib_ok T" "variant_valid f" "field_bounds T cp f prevFrom prevTo = Some B"
    and "exact f \<or> prevFrom = cp @ [SeparatorChar] \<and> prevTo = cp @ [SeparatorCharPlus]"
  shows "(\<exists>s. bd_lower B = cp @ SeparatorChar # s) \<and>
    ((\<exists>s. bd_upper B = cp @ SeparatorChar # s) \<or> bd_upper B = cp @ [SeparatorCharPlus] \<or>
         bd_upper B = cp @ [SeparatorCharPlus, SeparatorChar]) \<and>
    bd_forward B = (qf_order f = Asc) \<and> bd_seekExactPrefix B = exact f \<and> \<not> (bd_seekExactPrefix B \<and> bd_only B) \<and>
    (exact f \<longrightarrow> (\<exists>x. qf_value f = ScalarV x \<and> bd_fromS B = (cp @ SeparatorChar # value_text x) @ [SeparatorChar] \<and>
        bd_toS B = (cp @ SeparatorChar # value_text x) @ [SeparatorCharPlus]))"
proof -
  note D = field_bounds_def range_bounds_def Let_def variant_valid_def variant_ok_def variant_values_def exact_def
    checkOperator_def isScalarOp_def is_edge_def
  show ?thesis
  proof (cases "qf_value f")
    case (ScalarV x)
    then show ?thesis
    proof (cases "x = DvFirst \<or> x = DvLast")
      case True
      then show ?thesis using assms(2-4) ScalarV by (cases "qf_op f") (auto simp: D)
    next
      case False
      then have x: "value_ok x" using assms(2) ScalarV by (simp add: variant_valid_def variant_values_def)
      show ?thesis
        using assms(2-4) ScalarV False
        by (cases "qf_op f") (auto simp: D scalarToBuf_ok [OF assms(1) x])
    qed
  next
    case (IntervalV i)
    have op: "qf_op f = op_in" and wf: "is_from (iv_from i)" "is_to (iv_to i)"
      using assms(2) IntervalV by (auto simp: D interval_wf_def split: Operator.splits)
    have "\<exists>s. fromToBuf T (cp @ [SeparatorChar]) i
        (if ep_type (iv_from i) = Open then SeparatorCharPlus else SeparatorChar) = Some (cp @ SeparatorChar # s)"
      using wf(1) assms(2) IntervalV assms(1)
      by (cases "ep_type (iv_from i)") (auto simp: is_from_def fromToBuf_def put_First_def fieldToStringBuf_text variant_valid_def variant_values_def)
    moreover have "\<exists>c. toToBuf T (cp @ [SeparatorChar]) i
        (if ep_type (iv_to i) \<in> {Open, Last, Next} then SeparatorChar else SeparatorCharPlus) = Some c \<and>
        ((\<exists>s. c = cp @ SeparatorChar # s) \<or> c = cp @ [SeparatorCharPlus, SeparatorChar])"
      using wf(2) assms(2) IntervalV assms(1)
      by (cases "ep_type (iv_to i)") (auto simp: is_to_def toToBuf_def put_Last_def fieldToStringBuf_text variant_valid_def variant_values_def)
    moreover have "\<not> (ep_type (iv_from i) = First \<and> ep_type (iv_to i) = First)"
        "\<not> (ep_type (iv_from i) = Last \<and> ep_type (iv_to i) = Last)"
      using wf by (auto simp: is_from_def is_to_def)
    ultimately show ?thesis
      using assms(3) op IntervalV
      by (auto simp: field_bounds_def range_bounds_def Let_def exact_def is_edge_def split: option.splits)
  qed (use assms(2) in \<open>auto simp: D split: Operator.splits\<close>)
qed

lemma bounds_exist:
  assumes "text_lib_ok T" "variant_valid f"
    and "exact f \<or> prevFrom = cp @ [SeparatorChar] \<and> prevTo = cp @ [SeparatorCharPlus]"
  shows "\<exists>B. field_bounds T cp f prevFrom prevTo = Some B"
    and "field_bounds T cp f prevFrom prevTo = Some B \<Longrightarrow> variant_fits f v \<Longrightarrow> value_ok v \<Longrightarrow> r \<noteq> [] \<Longrightarrow>
         in_bounds B (cp @ SeparatorChar # value_text v @ SeparatorChar # r) \<longleftrightarrow> variant_matches f v"
proof -
  have ok: "variant_ok f" using assms(2) by (simp add: variant_valid_def)
  have M: "\<exists>B. field_bounds T cp f prevFrom prevTo = Some B \<and>
           (in_bounds B (cp @ SeparatorChar # value_text v @ SeparatorChar # r) \<longleftrightarrow> variant_matches f v)"
    if "variant_fits f v" "value_ok v" "r \<noteq> []" for v r
  proof (cases "qf_value f")
    case (ScalarV x) show ?thesis by (rule bounds_scalar [OF assms(1) ok ScalarV assms(3) that])
  next
    case (IntervalV i)
    have "qf_op f = op_in" using ok IntervalV
      by (auto simp: variant_ok_def checkOperator_def isScalarOp_def split: Operator.splits)
    then show ?thesis using bounds_interval [OF assms(1) ok _ IntervalV that] by blast
  qed (use ok in \<open>auto simp: variant_ok_def split: Operator.splits\<close>)
  have "variant_fits f DvNull" using assms(2) by (simp add: variant_valid_def variant_fits_def)
  then show "\<exists>B. field_bounds T cp f prevFrom prevTo = Some B" using M [of DvNull "''a''"] by auto
  show "field_bounds T cp f prevFrom prevTo = Some B \<Longrightarrow> variant_fits f v \<Longrightarrow> value_ok v \<Longrightarrow> r \<noteq> [] \<Longrightarrow>
         in_bounds B (cp @ SeparatorChar # value_text v @ SeparatorChar # r) \<longleftrightarrow> variant_matches f v"
    using M by fastforce
qed

end
