(* ===== verification/DbWalk.thy ===== *)
theory DbWalk
  imports DbFind
begin

section \<open>Walking the ranges of a search\<close>

text \<open>
  The loops of \<open>iterateFieldVariant\<close> over a database whose iterator visits the sorted entries between its bounds,
  with a callback that keeps every entry and nothing to filter by time. The last field collects the live entries of
  its range; a field before it visits each prefix of its range once, by stepping or by a new seek.
\<close>

definition between :: "string \<Rightarrow> string \<Rightarrow> db_entry \<Rightarrow> bool" where
  "between lo hi e \<longleftrightarrow> \<not> str_less (fst e) lo \<and> str_less (fst e) hi"

definition ordered :: "bool \<Rightarrow> 'a list \<Rightarrow> 'a list" where
  "ordered forward xs = (if forward then xs else rev xs)"

text \<open>What RocksDB promises of an iterator with bounds over entries \<open>db\<close>.\<close>

definition scan_ok :: "(bool \<Rightarrow> string \<Rightarrow> string \<Rightarrow> db_entry list \<times> bool) \<Rightarrow> db_entry list \<Rightarrow> bool" where
  "scan_ok scan db \<longleftrightarrow>
     sorted_wrt (\<lambda>a b. str_less (fst a) (fst b)) db \<and>
     (\<forall>forward lo hi. scan forward lo hi = (ordered forward (filter (between lo hi) db), True))"

definition collect :: "db_entry \<Rightarrow> db_entry list \<Rightarrow> bool \<times> db_error option \<times> db_entry list" where
  "collect e s = (True, None, s @ [e])"

definition live :: "'s search_env \<Rightarrow> db_entry \<Rightarrow> bool" where
  "live E e \<longleftrightarrow> \<not> isExpired (se_now E) (snd e) 0"

text \<open>An environment that collects.\<close>

definition env_ok :: "db_entry list search_env \<Rightarrow> db_entry list \<Rightarrow> bool" where
  "env_ok E db \<longleftrightarrow> text_lib_ok (se_text E) \<and> scan_ok (se_scan E) db \<and> se_filter E = None \<and> se_callback E = collect"

lemma skipped [simp]:
  "se_filter E = None \<Longrightarrow> isExpired (se_now E) (snd e) 0 \<or> filterIndex E pos (snd e) \<longleftrightarrow> \<not> live E e"
  by (simp add: live_def filterIndex_def filterTimePoint_def)

lemma restore_append [simp]:
  "restorePrefix (length cp) (appendPrefix cp p) = cp" "restorePrefix (length cp) (cp @ t) = cp"
  by (simp_all add: restorePrefix_def appendPrefix_def)

lemma append_longer: "t \<noteq> [] \<Longrightarrow> appendPrefix cp (cp @ t) = cp @ t"
  by (simp add: appendPrefix_def)

subsection \<open>The last field\<close>

lemma walk_last:
  assumes "se_filter E = None" "se_callback E = collect" "\<not> (bd_seekExactPrefix B \<and> bd_only B)"
  shows "walk E pos True B next (length cp) es True (cp, s) = Some (WDone (cp, s @ filter (live E) es))"
proof (induction es arbitrary: s)
  case (Cons e es)
  have "walk E pos True B next (length cp) (e # es) True (cp, s) =
      (if \<not> live E e then walk E pos True B next (length cp) es True (cp, s)
       else walk E pos True B next (length cp) es True (cp, s @ [e]))"
    unfolding walk.simps skipped [OF assms(1)] using assms(2,3) by (auto simp: collect_def Let_def)
  then show ?case using Cons.IH by simp
qed simp

subsection \<open>A field before the last\<close>

text \<open>An exact prefix: the next field is called once, at the first live entry.\<close>

lemma walk_exact:
  assumes "se_filter E = None" "bd_seekExactPrefix B" "t \<noteq> []"
    and "\<forall>e \<in> set es. keyPrefix (fst e) (se_topic E) pos = cp @ t"
    and "\<And>s. next (cp @ t, s) = Some (None, cp @ t, s @ out)"
    and "out \<noteq> [] \<Longrightarrow> \<exists>e \<in> set es. live E e"
  shows "walk E pos False B next (length cp) es True (cp, s) = Some (WDone (cp, s @ out))"
  using assms(4,6)
proof (induction es)
  case (Cons e es)
  have "walk E pos False B next (length cp) (e # es) True (cp, s) =
      (if \<not> live E e then walk E pos False B next (length cp) es True (cp, s) else Some (WDone (cp, s @ out)))"
    unfolding walk.simps skipped [OF assms(1)] using Cons.prems(1) assms(2,3,5) by (simp add: Let_def append_longer)
  then show ?case using Cons by auto
qed auto

text \<open>A range: each prefix once, from its first live entry, unless the walk breaks off for a seek past the prefix.\<close>

fun contiguous :: "'a list \<Rightarrow> bool" where
  "contiguous [] \<longleftrightarrow> True"
| "contiguous (x # xs) \<longleftrightarrow> (x \<in> set xs \<longrightarrow> hd xs = x) \<and> contiguous xs"

lemma contiguous_dropWhile:
  "contiguous (x # xs) \<Longrightarrow> x \<notin> set (dropWhile (\<lambda>y. y = x) xs)"
  by (induction xs) auto

lemma contiguous_append: "contiguous (xs @ ys) \<Longrightarrow> contiguous ys"
  by (induction xs) auto

definition group_out :: "('a \<Rightarrow> 'b list) \<Rightarrow> 'a list \<Rightarrow> 'b list" where
  "group_out N ps = concat (map N (remdups_adj ps))"

lemma group_out_simps [simp]:
  "group_out N [] = []"
  "group_out N (p # ps) = N p @ group_out N (dropWhile (\<lambda>y. y = p) ps)"
  by (simp_all add: group_out_def remdups_adj_Cons' eq_commute)

lemma group_out_again: "ps \<noteq> [] \<Longrightarrow> hd ps = p \<Longrightarrow> group_out N (p # ps) = group_out N ps"
  by (cases ps) simp_all

lemma group_out_new: "contiguous (p # ps) \<Longrightarrow> ps = [] \<or> hd ps \<noteq> p \<Longrightarrow> group_out N (p # ps) = N p @ group_out N ps"
  by (cases ps) auto

lemma walk_range:
  fixes E :: "db_entry list search_env"
  assumes "se_filter E = None" "\<not> bd_seekExactPrefix B"
    and "\<And>e. g e = keyPrefix (fst e) (se_topic E) pos"
    and "\<forall>e \<in> set es. \<exists>t. t \<noteq> [] \<and> g e = cp @ t"
    and "\<forall>e \<in> set es. \<forall>s. next (g e, s) = Some (None, g e, s @ N (g e))"
    and "\<forall>e \<in> set es. N (g e) \<noteq> [] \<longrightarrow> (\<exists>e' \<in> set es. live E e' \<and> g e' = g e)"
    and "contiguous (map g es)"
  shows "walk E pos False B next (length cp) es True (cp, s) = Some (WDone (cp, s @ group_out N (map g es))) \<or>
    (\<exists>p es1 es2 out. walk E pos False B next (length cp) es True (cp, s) = Some (WSeek p (cp, s @ out)) \<and>
       es = es1 @ es2 \<and> es1 \<noteq> [] \<and> g (last es1) = p \<and> p \<notin> g ` set es2 \<and>
       out @ group_out N (map g es2) = group_out N (map g es))"
  using assms(4-7)
proof (induction es arbitrary: s)
  case (Cons e es)
  let ?w = "\<lambda>es s. walk E pos False B next (length cp) es True (cp, s)"
  have fresh: "\<forall>e2 \<in> set es. N (g e2) \<noteq> [] \<longrightarrow> (\<exists>e' \<in> set es. live E e' \<and> g e' = g e2)"
    if "\<not> live E e \<or> g e \<notin> g ` set es"
    using Cons.prems(3) that by (metis image_eqI list.set_intros(2) set_ConsD)
  have IH: "?w es s = Some (WDone (cp, s @ group_out N (map g es))) \<or>
    (\<exists>p es1 es2 out. ?w es s = Some (WSeek p (cp, s @ out)) \<and> es = es1 @ es2 \<and> es1 \<noteq> [] \<and> g (last es1) = p \<and>
       p \<notin> g ` set es2 \<and> out @ group_out N (map g es2) = group_out N (map g es))"
    if "\<not> live E e \<or> g e \<notin> g ` set es" for s
    by (rule Cons.IH) (use Cons.prems fresh [OF that] in auto)
  have extend: "?w (e # es) s = Some (WDone (cp, s @ group_out N (map g (e # es)))) \<or>
    (\<exists>p es1 es2 out. ?w (e # es) s = Some (WSeek p (cp, s @ out)) \<and> e # es = es1 @ es2 \<and> es1 \<noteq> [] \<and> g (last es1) = p \<and>
       p \<notin> g ` set es2 \<and> out @ group_out N (map g es2) = group_out N (map g (e # es)))"
    if w: "?w (e # es) s = ?w es (s @ pre)" and out: "group_out N (map g (e # es)) = pre @ group_out N (map g es)"
      and c: "\<not> live E e \<or> g e \<notin> g ` set es" for pre
    using IH [OF c, of "s @ pre"]
  proof
    assume "?w es (s @ pre) = Some (WDone (cp, (s @ pre) @ group_out N (map g es)))"
    then show ?thesis using w out by simp
  next
    assume "\<exists>p es1 es2 out. ?w es (s @ pre) = Some (WSeek p (cp, (s @ pre) @ out)) \<and> es = es1 @ es2 \<and> es1 \<noteq> [] \<and>
       g (last es1) = p \<and> p \<notin> g ` set es2 \<and> out @ group_out N (map g es2) = group_out N (map g es)"
    then obtain p es1 es2 out' where s: "?w es (s @ pre) = Some (WSeek p (cp, (s @ pre) @ out'))" "es = es1 @ es2" "es1 \<noteq> []"
       "g (last es1) = p" "p \<notin> g ` set es2" "out' @ group_out N (map g es2) = group_out N (map g es)" by blast
    have "e # es = (e # es1) @ es2" "g (last (e # es1)) = p" "(pre @ out') @ group_out N (map g es2) = group_out N (map g (e # es))"
      using s out by simp_all
    moreover have "?w (e # es) s = Some (WSeek p (cp, s @ pre @ out'))" using w s(1) by simp
    ultimately show ?thesis using s(5) by blast
  qed
  obtain t where t: "t \<noteq> []" "g e = cp @ t" using Cons.prems(1) by auto
  have contig: "contiguous (g e # map g es)" using Cons.prems(4) by simp
  show ?case
  proof (cases "live E e")
    case False
    then have w: "?w (e # es) s = ?w es (s @ [])" unfolding walk.simps skipped [OF assms(1)] by simp
    have "group_out N (g e # map g es) = group_out N (map g es)"
    proof (cases "es \<noteq> [] \<and> g (hd es) = g e")
      case True
      then show ?thesis by (intro group_out_again) (auto simp: hd_map)
    next
      case False
      then have new: "map g es = [] \<or> hd (map g es) \<noteq> g e" by (auto simp: hd_map)
      then have "g e \<notin> g ` set es" using contig by auto
      then have "N (g e) = []" using Cons.prems(3) \<open>\<not> live E e\<close> by (metis image_eqI list.set_intros(1) set_ConsD)
      then show ?thesis using group_out_new [OF contig new, of N] by simp
    qed
    then show ?thesis using extend [OF w] False by simp
  next
    case True
    have step: "?w (e # es) s =
        (if es \<noteq> [] \<and> g (hd es) = g e then Some (WSeek (g e) (cp, s @ N (g e))) else ?w es (s @ N (g e)))"
      unfolding walk.simps skipped [OF assms(1)] using True Cons.prems(2) assms(2) t
      by (simp add: Let_def append_longer assms(3) [symmetric])
    show ?thesis
    proof (cases "es \<noteq> [] \<and> g (hd es) = g e")
      case True
      let ?es2 = "dropWhile (\<lambda>x. g x = g e) es" and ?es1 = "e # takeWhile (\<lambda>x. g x = g e) es"
      have m: "map g ?es2 = dropWhile (\<lambda>y. y = g e) (map g es)" by (simp add: dropWhile_map o_def)
      have f1: "g e \<notin> g ` set ?es2" using contiguous_dropWhile [OF contig] by (metis list.set_map m)
      have f2: "N (g e) @ group_out N (map g ?es2) = group_out N (map g (e # es))"
        by (simp only: m group_out_simps list.map)
      have "\<forall>x \<in> set ?es1. g x = g e" by (auto dest: set_takeWhileD)
      then have f3: "g (last ?es1) = g e" by (rule bspec) (rule last_in_set, simp)
      have f4: "e # es = ?es1 @ ?es2" "?es1 \<noteq> []" by simp_all
      have "?w (e # es) s = Some (WSeek (g e) (cp, s @ N (g e)))" using step True by simp
      then show ?thesis using f1 f2 f3 f4 by blast
    next
      case False
      then have new: "map g es = [] \<or> hd (map g es) \<noteq> g e" by (auto simp: hd_map)
      then have "g e \<notin> g ` set es" using contig by auto
      moreover have "?w (e # es) s = ?w es (s @ N (g e))" using step False by simp
      moreover have "group_out N (map g (e # es)) = N (g e) @ group_out N (map g es)"
        using group_out_new [OF contig new, of N] by simp
      ultimately show ?thesis using extend by blast
    qed
  qed
qed simp

subsection \<open>Seeks\<close>

text \<open>The bound of the next seek leaves exactly the entries behind the prefix.\<close>

definition grouped :: "(db_entry \<Rightarrow> string) \<Rightarrow> db_entry list \<Rightarrow> bool" where
  "grouped g es \<longleftrightarrow> (\<forall>e \<in> set es. \<forall>e' \<in> set es. (\<exists>r. fst e = g e' @ SeparatorChar # r) \<longleftrightarrow> g e = g e')"

lemma grouped_above:
  assumes "grouped g es" "e \<in> set es" "e' \<in> set es" "g e \<noteq> g e'" "str_less (fst e') (fst e)"
  shows "\<not> str_less (fst e) (g e' @ [SeparatorCharPlus])"
proof -
  obtain r where "fst e' = g e' @ SeparatorChar # r" using assms(1,3) by (auto simp: grouped_def)
  then have "\<not> str_less (fst e') (g e' @ [SeparatorChar])"
    using range_prefix [of "fst e'" "g e'"] by blast
  then have "\<not> str_less (fst e) (g e' @ [SeparatorChar])" using assms(5) str_less_trans by blast
  then show ?thesis using assms(1-4) range_prefix [of "fst e" "g e'"] by (auto simp: grouped_def)
qed

lemma grouped_below:
  assumes "grouped g es" "e \<in> set es" "e' \<in> set es" "g e \<noteq> g e'" "str_less (fst e) (fst e')"
  shows "str_less (fst e) (g e' @ [SeparatorChar])"
proof -
  obtain r where "fst e' = g e' @ SeparatorChar # r" using assms(1,3) by (auto simp: grouped_def)
  then have "str_less (fst e') (g e' @ [SeparatorCharPlus])"
    using range_prefix [of "fst e'" "g e'"] by blast
  then have "str_less (fst e) (g e' @ [SeparatorCharPlus])" using assms(5) str_less_trans by blast
  then show ?thesis using assms(1-4) range_prefix [of "fst e" "g e'"] by (auto simp: grouped_def)
qed

lemma grouped_self:
  assumes "grouped g es" "e \<in> set es"
  shows "\<not> str_less (fst e) (g e @ [SeparatorChar])" "str_less (fst e) (g e @ [SeparatorCharPlus])"
proof -
  obtain r where "fst e = g e @ SeparatorChar # r" using assms by (auto simp: grouped_def)
  then show "\<not> str_less (fst e) (g e @ [SeparatorChar])" "str_less (fst e) (g e @ [SeparatorCharPlus])"
    using range_prefix [of "fst e" "g e"] by blast+
qed

lemma sorted_wrt_last: "sorted_wrt R xs \<Longrightarrow> x \<in> set xs \<Longrightarrow> x = last xs \<or> R x (last xs)"
  by (induction xs) auto

text \<open>Filtering again keeps the part of a list that passes.\<close>

lemma ordered_filter: "ordered d (filter P xs) = filter P (ordered d xs)"
  by (simp add: ordered_def rev_filter)

lemma filter_narrow:
  assumes "ordered d (filter P db) = es1 @ es2" "\<forall>e \<in> set es1. \<not> Q e" "\<forall>e \<in> set es2. Q e"
    and "\<forall>e \<in> set db. Q e \<longrightarrow> P e"
  shows "ordered d (filter Q db) = es2"
proof -
  have "filter Q db = filter Q (filter P db)" using assms(4) by (auto intro: filter_cong)
  then have "ordered d (filter Q db) = ordered d (filter Q (filter P db))" by (simp only:)
  also have "\<dots> = filter Q (es1 @ es2)" by (simp only: ordered_filter [of d Q] assms(1))
  also have "\<dots> = es2" using assms(2,3) by (simp add: filter_empty_conv)
  finally show ?thesis .
qed

lemma sorted_between_forward:
  assumes db: "sorted_wrt (\<lambda>a b. str_less (fst a) (fst b)) db"
    and es: "ordered True (filter (between lo hi) db) = es1 @ es2" "es1 \<noteq> []" "g (last es1) = p" "p \<notin> g ` set es2"
    and g: "grouped g (es1 @ es2)"
  shows "ordered True (filter (between (p @ [SeparatorCharPlus]) hi) db) = es2"
proof (rule filter_narrow [OF es(1)])
  let ?l = "last es1"
  have eq: "filter (between lo hi) db = es1 @ es2" using es(1) by (simp add: ordered_def)
  have srt: "sorted_wrt (\<lambda>a b. str_less (fst a) (fst b)) (es1 @ es2)"
    using sorted_wrt_filter [OF db, of "between lo hi"] eq by simp
  have l: "?l \<in> set es1" using es(2) by simp
  have mem: "e \<in> set (es1 @ es2) \<Longrightarrow> between lo hi e" for e
    unfolding eq [symmetric] by simp
  have self: "\<not> str_less (fst ?l) (p @ [SeparatorChar])" "str_less (fst ?l) (p @ [SeparatorCharPlus])"
    using grouped_self [OF g, of ?l] l es(3) by auto
  show "\<forall>e \<in> set es1. \<not> between (p @ [SeparatorCharPlus]) hi e"
  proof
    fix e assume "e \<in> set es1"
    then have "e = ?l \<or> str_less (fst e) (fst ?l)"
      using srt sorted_wrt_last [of _ es1 e] by (fastforce simp: sorted_wrt_append)
    then show "\<not> between (p @ [SeparatorCharPlus]) hi e"
      using self(2) str_less_trans by (auto simp: between_def)
  qed
  show "\<forall>e \<in> set es2. between (p @ [SeparatorCharPlus]) hi e"
  proof
    fix e assume e: "e \<in> set es2"
    then have ne: "g e \<noteq> g ?l" using es(3,4) by (metis image_eqI)
    have "str_less (fst ?l) (fst e)" using e srt l by (auto simp: sorted_wrt_append)
    then show "between (p @ [SeparatorCharPlus]) hi e"
      using grouped_above [OF g, of e ?l] ne mem [of e] e l es(3) by (auto simp: between_def)
  qed
  have "\<not> str_less (fst ?l) lo" using mem [of ?l] l by (simp add: between_def)
  then have "\<not> str_less (p @ [SeparatorCharPlus]) lo"
    using self(2) str_less_trans by blast
  then show "\<forall>e \<in> set db. between (p @ [SeparatorCharPlus]) hi e \<longrightarrow> between lo hi e"
    using str_less_trans str_less_linear unfolding between_def by metis
qed

lemma sorted_between_backward:
  assumes db: "sorted_wrt (\<lambda>a b. str_less (fst a) (fst b)) db"
    and es: "ordered False (filter (between lo hi) db) = es1 @ es2" "es1 \<noteq> []" "g (last es1) = p" "p \<notin> g ` set es2"
    and g: "grouped g (es1 @ es2)"
  shows "ordered False (filter (between lo (p @ [SeparatorChar])) db) = es2"
proof (rule filter_narrow [OF es(1)])
  let ?l = "last es1"
  have eq: "rev (filter (between lo hi) db) = es1 @ es2" using es(1) by (simp add: ordered_def)
  have srt: "sorted_wrt (\<lambda>a b. str_less (fst b) (fst a)) (es1 @ es2)"
    unfolding eq [symmetric] sorted_wrt_rev using sorted_wrt_filter [OF db] by simp
  have l: "?l \<in> set es1" using es(2) by simp
  have mem: "e \<in> set (es1 @ es2) \<Longrightarrow> between lo hi e" for e
    unfolding eq [symmetric] by simp
  have self: "\<not> str_less (fst ?l) (p @ [SeparatorChar])" "str_less (fst ?l) (p @ [SeparatorCharPlus])"
    using grouped_self [OF g, of ?l] l es(3) by auto
  show "\<forall>e \<in> set es1. \<not> between lo (p @ [SeparatorChar]) e"
  proof
    fix e assume "e \<in> set es1"
    then have "e = ?l \<or> str_less (fst ?l) (fst e)"
      using srt sorted_wrt_last [of _ es1 e] by (fastforce simp: sorted_wrt_append)
    then show "\<not> between lo (p @ [SeparatorChar]) e"
      using self(1) str_less_trans by (auto simp: between_def)
  qed
  show "\<forall>e \<in> set es2. between lo (p @ [SeparatorChar]) e"
  proof
    fix e assume e: "e \<in> set es2"
    then have ne: "g e \<noteq> g ?l" using es(3,4) by (metis image_eqI)
    have "str_less (fst e) (fst ?l)" using e srt l by (auto simp: sorted_wrt_append)
    then show "between lo (p @ [SeparatorChar]) e"
      using grouped_below [OF g, of e ?l] ne mem [of e] e l es(3) by (auto simp: between_def)
  qed
  have "str_less (fst ?l) hi" using mem [of ?l] l by (simp add: between_def)
  then have "\<not> str_less hi (p @ [SeparatorChar])"
    using self(1) str_less_trans by blast
  then show "\<forall>e \<in> set db. between lo (p @ [SeparatorChar]) e \<longrightarrow> between lo hi e"
    using str_less_trans str_less_linear unfolding between_def by metis
qed

lemma contiguous_split:
  "contiguous (xs @ ys) \<Longrightarrow> xs \<noteq> [] \<Longrightarrow> last xs \<notin> set ys \<Longrightarrow> set xs \<inter> set ys = {}"
proof (induction xs)
  case (Cons x xs)
  show ?case
  proof (cases "xs = []")
    case False
    then have "set xs \<inter> set ys = {}" using Cons by simp
    moreover have "x \<notin> set ys"
    proof
      assume "x \<in> set ys"
      then have "x = hd xs" using Cons.prems(1) False by simp
      then show False using \<open>x \<in> set ys\<close> \<open>set xs \<inter> set ys = {}\<close> False by (metis disjoint_iff list.set_sel(1))
    qed
    ultimately show ?thesis by simp
  qed (use Cons.prems in simp)
qed simp

text \<open>As many turns as there are entries are enough.\<close>

lemma seek_range:
  fixes E :: "db_entry list search_env"
  assumes "scan_ok (se_scan E) db" "se_filter E = None" "\<not> bd_seekExactPrefix B"
    and "\<And>e. g e = keyPrefix (fst e) (se_topic E) pos"
    and "ordered (bd_forward B) (filter (between lo hi) db) = es"
    and "\<forall>e \<in> set es. \<exists>t. t \<noteq> [] \<and> g e = cp @ t"
    and "\<forall>e \<in> set es. \<forall>from to s. next from to (g e, s) = Some (None, g e, s @ N (g e))"
    and "\<forall>e \<in> set es. N (g e) \<noteq> [] \<longrightarrow> (\<exists>e' \<in> set es. live E e' \<and> g e' = g e)"
    and "contiguous (map g es)" "grouped g es" "length es < fuel"
  shows "seek E pos False B next (length cp) fuel lo hi fromS toS (cp, s) = Some (None, cp, s @ group_out N (map g es))"
  using assms(5-11)
proof (induction fuel arbitrary: lo hi es fromS toS s)
  case (Suc fuel)
  have scan: "se_scan E (bd_forward B) lo hi = (es, True)" using assms(1) Suc.prems(1) by (simp add: scan_ok_def)
  have db: "sorted_wrt (\<lambda>a b. str_less (fst a) (fst b)) db" using assms(1) by (simp add: scan_ok_def)
  have nx: "\<forall>e \<in> set es. \<forall>s. next fromS toS (g e, s) = Some (None, g e, s @ N (g e))" using Suc.prems(3) by blast
  consider (finished) "walk E pos False B (next fromS toS) (length cp) es True (cp, s) = Some (WDone (cp, s @ group_out N (map g es)))"
    | (again) p es1 es2 out where
       "walk E pos False B (next fromS toS) (length cp) es True (cp, s) = Some (WSeek p (cp, s @ out))"
       "es = es1 @ es2" "es1 \<noteq> []" "g (last es1) = p" "p \<notin> g ` set es2"
       "out @ group_out N (map g es2) = group_out N (map g es)"
    using walk_range [OF assms(2,3,4) Suc.prems(2) nx Suc.prems(4,5), of s] by blast
  then show ?case
  proof cases
    case finished
    then show ?thesis using scan by simp
  next
    case again
    have split: "g ` set es1 \<inter> g ` set es2 = {}"
      using contiguous_split [of "map g es1" "map g es2"] Suc.prems(5) again(2-5) by (simp add: last_map)
    have sub: "set es2 \<subseteq> set es" using again(2) by simp
    have fresh: "\<forall>e \<in> set es2. N (g e) \<noteq> [] \<longrightarrow> (\<exists>e' \<in> set es2. live E e' \<and> g e' = g e)"
    proof (intro ballI impI)
      fix e assume e: "e \<in> set es2" "N (g e) \<noteq> []"
      then obtain e' where e': "e' \<in> set es1 \<union> set es2" "live E e'" "g e' = g e" using Suc.prems(4) again(2) by force
      then have "e' \<in> set es2" using split e(1) by (metis IntI Un_iff emptyE image_eqI)
      then show "\<exists>e' \<in> set es2. live E e' \<and> g e' = g e" using e' by blast
    qed
    have contig: "contiguous (map g es2)" using Suc.prems(5) again(2) contiguous_append by simp
    have grp: "grouped g es2" using Suc.prems(6) sub unfolding grouped_def by blast
    have len: "length es2 < fuel" using Suc.prems(7) again(2,3) by (cases es1) simp_all
    have rest: "\<forall>e \<in> set es2. \<exists>t. t \<noteq> [] \<and> g e = cp @ t"
        "\<forall>e \<in> set es2. \<forall>from to s. next from to (g e, s) = Some (None, g e, s @ N (g e))"
      using Suc.prems(2,3) sub by blast+
    show ?thesis
    proof (cases "bd_forward B")
      case True
      have "ordered (bd_forward B) (filter (between (p @ [SeparatorCharPlus]) hi) db) = es2"
        using sorted_between_forward [OF db, of lo hi es1 es2 g p] Suc.prems(1,6) again(2-5) True by simp
      from Suc.IH [OF this rest fresh contig grp len] show ?thesis using scan again(1,6) True by simp
    next
      case False
      have "ordered (bd_forward B) (filter (between lo (p @ [SeparatorChar])) db) = es2"
        using sorted_between_backward [OF db, of lo hi es1 es2 g p] Suc.prems(1,6) again(2-5) False by simp
      from Suc.IH [OF this rest fresh contig grp len] show ?thesis using scan again(1,6) False by simp
    qed
  qed
qed simp

end
