(* ===== verification/DbQuery.thy ===== *)
theory DbQuery
  imports DbWalk
begin

section \<open>The rows a query returns\<close>

text \<open>
  An index with its rows, the specification \<open>find_rows\<close> of what a query returns, and the proof that the search
  of \<open>nextKeyField\<close> returns it, for queries in which no field that is not an equality follows another such field.
\<close>

subsection \<open>Rows of an index\<close>

type_synonym index_row = "db_value list \<times> db_entry"

text \<open>The values are those of the fields that the cursor has not passed: \<open>us\<close> are the values it has.\<close>

definition level_ok :: "string \<Rightarrow> db_value list \<Rightarrow> db_entry list \<Rightarrow> index_row list \<Rightarrow> bool" where
  "level_ok prefix us db rows \<longleftrightarrow>
     filter (\<lambda>e. \<exists>s. fst e = cursor_at prefix us @ SeparatorChar # s) db = map snd rows \<and>
     (\<forall>e \<in> set db. fst e \<noteq> cursor_at prefix us @ [SeparatorCharPlus]) \<and>
     (\<forall>r \<in> set rows. (\<forall>v \<in> set (fst r). value_ok v) \<and>
        (\<exists>oid. oid \<noteq> [] \<and> fst (snd r) = row_key prefix (us @ fst r) oid))"

definition columns_ok :: "index_row list \<Rightarrow> bool" where
  "columns_ok rows \<longleftrightarrow>
     (\<forall>r \<in> set rows. \<forall>r' \<in> set rows. length (fst r) = length (fst r') \<and> list_all2 comparable (fst r) (fst r'))"

definition matching :: "query_field \<Rightarrow> index_row list \<Rightarrow> index_row list" where
  "matching f rows = filter (\<lambda>r. variant_matches f (hd (fst r))) rows"

definition under :: "db_value \<Rightarrow> index_row list \<Rightarrow> index_row list" where
  "under v rows = map (\<lambda>r. (tl (fst r), snd r)) (filter (\<lambda>r. hd (fst r) = v) rows)"

text \<open>What a query returns: at the last field the live rows that a variant matches, in the order of the field; at a
  field before it what the rest returns under each value that a variant matches, value after value.\<close>

fun find_rows ::
    "(db_entry \<Rightarrow> bool) \<Rightarrow> (query_field \<Rightarrow> query_field list) \<Rightarrow> query_field list \<Rightarrow> index_row list \<Rightarrow> db_entry list" where
  "find_rows alive variants [] rows = []"
| "find_rows alive variants (q # qs) rows =
     concat (map (\<lambda>f.
       let hits = ordered (qf_order f = Asc) (matching f rows) in
       if qs = [] then filter alive (map snd hits)
       else concat (map (\<lambda>v. find_rows alive variants qs (under v rows)) (remdups_adj (map (\<lambda>r. hd (fst r)) hits))))
       (variants q))"

lemma plain_sep_eq: "plain a \<Longrightarrow> plain b \<Longrightarrow> a @ SeparatorChar # s = b @ SeparatorChar # t \<longleftrightarrow> a = b \<and> s = t"
proof (induction a arbitrary: b)
  case Nil then show ?case by (cases b) auto
next
  case (Cons c a) then show ?case by (cases b) auto
qed

lemma value_text_inj:
  "value_ok x \<Longrightarrow> value_ok y \<Longrightarrow> comparable x y \<Longrightarrow> value_text x = value_text y \<longleftrightarrow> x = y"
  using value_text_order [of x y "[]" "[]"] value_text_order [of y x "[]" "[]"] value_less_linear [of x y]
    comparable_sym [of x y] by auto

lemma ordered_simps [simp]:
  "set (ordered d xs) = set xs" "length (ordered d xs) = length xs" "map f (ordered d xs) = ordered d (map f xs)"
  "ordered d xs = [] \<longleftrightarrow> xs = []" "ordered d [] = []"
  by (simp_all add: ordered_def rev_map)

lemma level_rows:
  assumes "level_ok prefix us db rows" "e \<in> set db" "fst e = cursor_at prefix us @ SeparatorChar # s"
  shows "\<exists>r \<in> set rows. e = snd r"
proof -
  have "set (filter (\<lambda>e. \<exists>s. fst e = cursor_at prefix us @ SeparatorChar # s) db) = snd ` set rows"
    using assms(1) by (simp only: level_ok_def set_map)
  then show ?thesis using assms(2,3) by auto
qed

lemma level_key:
  assumes "level_ok prefix us db rows" "r \<in> set rows" "fst r \<noteq> []"
  shows "\<exists>rest. rest \<noteq> [] \<and> value_ok (hd (fst r)) \<and>
    fst (snd r) = cursor_at prefix us @ SeparatorChar # value_text (hd (fst r)) @ SeparatorChar # rest"
proof -
  obtain oid where oid: "oid \<noteq> []" "fst (snd r) = row_key prefix (us @ fst r) oid" "\<forall>v \<in> set (fst r). value_ok v"
    using assms(1,2) by (auto simp: level_ok_def)
  obtain v vs where "fst r = v # vs" using assms(3) by (cases "fst r") auto
  then show ?thesis using oid row_key_cursor [of prefix us "v # vs" oid] by (simp add: row_body_def)
qed

lemma under_level:
  assumes "level_ok prefix us db rows" "\<forall>r \<in> set rows. fst r \<noteq> []" "value_ok v" "\<forall>r \<in> set rows. comparable (hd (fst r)) v"
  shows "level_ok prefix (us @ [v]) db (under v rows)"
proof -
  let ?cp = "cursor_at prefix us" and ?cp' = "cursor_at prefix (us @ [v])"
  have key: "\<exists>rest. value_ok (hd (fst r)) \<and>
      fst (snd r) = ?cp @ SeparatorChar # value_text (hd (fst r)) @ SeparatorChar # rest" if "r \<in> set rows" for r
    using level_key [OF assms(1) that] assms(2) that by blast
  have here: "(\<exists>s. fst (snd r) = ?cp' @ SeparatorChar # s) \<longleftrightarrow> hd (fst r) = v" if r: "r \<in> set rows" for r
  proof -
    obtain rest where k: "value_ok (hd (fst r))"
        "fst (snd r) = ?cp @ SeparatorChar # value_text (hd (fst r)) @ SeparatorChar # rest" using key [OF r] by blast
    have "(\<exists>s. fst (snd r) = ?cp' @ SeparatorChar # s) \<longleftrightarrow> value_text (hd (fst r)) = value_text v"
      unfolding k(2) by (simp add: plain_sep_eq)
    then show ?thesis using value_text_inj [OF k(1) assms(3)] assms(4) r by blast
  qed
  have "filter (\<lambda>e. \<exists>s. fst e = ?cp' @ SeparatorChar # s) db =
      filter (\<lambda>e. \<exists>s. fst e = ?cp' @ SeparatorChar # s) (filter (\<lambda>e. \<exists>s. fst e = ?cp @ SeparatorChar # s) db)"
    by (auto intro: filter_cong)
  also have "\<dots> = filter (\<lambda>e. \<exists>s. fst e = ?cp' @ SeparatorChar # s) (map snd rows)"
    using assms(1) by (simp add: level_ok_def)
  also have "\<dots> = map snd (filter (\<lambda>r. hd (fst r) = v) rows)"
    unfolding filter_map o_def using filter_cong [OF refl here, of rows] by (simp only:)
  also have "\<dots> = map snd (under v rows)" by (simp add: under_def)
  finally have 1: "filter (\<lambda>e. \<exists>s. fst e = ?cp' @ SeparatorChar # s) db = map snd (under v rows)" .
  have 2: "fst e \<noteq> ?cp' @ [SeparatorCharPlus]" if e: "e \<in> set db" for e
  proof
    assume eq: "fst e = ?cp' @ [SeparatorCharPlus]"
    then obtain r where "r \<in> set rows" "e = snd r"
      using level_rows [OF assms(1) e, of "value_text v @ [SeparatorCharPlus]"] by auto
    then obtain rest where "fst e = ?cp @ SeparatorChar # value_text (hd (fst r)) @ SeparatorChar # rest"
      using key by metis
    then have "value_text v @ [SeparatorCharPlus] = value_text (hd (fst r)) @ SeparatorChar # rest" using eq by simp
    then have "SeparatorChar \<in> set (value_text v @ [SeparatorCharPlus])" by (metis in_set_conv_decomp)
    then show False using plain_value_text [of v] by (auto simp: plain_def)
  qed
  have 3: "(\<forall>v \<in> set (fst r). value_ok v) \<and> (\<exists>oid. oid \<noteq> [] \<and> fst (snd r) = row_key prefix ((us @ [v]) @ fst r) oid)"
    if r: "r \<in> set (under v rows)" for r
  proof -
    obtain r' where r': "r' \<in> set rows" "hd (fst r') = v" "r = (tl (fst r'), snd r')" using r by (auto simp: under_def)
    then have fr: "fst r' = v # fst r" using assms(2) by (metis fst_conv list.collapse)
    have "(\<forall>x \<in> set (fst r'). value_ok x) \<and> (\<exists>oid. oid \<noteq> [] \<and> fst (snd r') = row_key prefix (us @ fst r') oid)"
      using assms(1) r'(1) unfolding level_ok_def by blast
    moreover have "snd r = snd r'" using r'(3) by simp
    ultimately show ?thesis unfolding fr by simp
  qed
  show ?thesis unfolding level_ok_def using 1 2 3 by blast
qed

subsection \<open>One variant\<close>

text \<open>The entries between the bounds of a variant are the rows that it matches.\<close>

definition variant_at :: "query_field \<Rightarrow> index_row list \<Rightarrow> bool" where
  "variant_at f rows \<longleftrightarrow> variant_valid f \<and> (\<forall>r \<in> set rows. variant_fits f (hd (fst r)))"

definition bounds_at :: "string \<Rightarrow> query_field \<Rightarrow> string \<Rightarrow> string \<Rightarrow> bool" where
  "bounds_at cp f prevFrom prevTo \<longleftrightarrow>
     exact f \<or> prevFrom = cp @ [SeparatorChar] \<and> prevTo = cp @ [SeparatorCharPlus]"

lemma variant_rows:
  assumes "text_lib_ok T" "level_ok prefix us db rows" "\<forall>r \<in> set rows. fst r \<noteq> []" "variant_at f rows"
    and "bounds_at (cursor_at prefix us) f prevFrom prevTo"
    and "field_bounds T (cursor_at prefix us) f prevFrom prevTo = Some B"
  shows "filter (between (bd_lower B) (bd_upper B)) db = map snd (matching f rows)"
proof -
  let ?cp = "cursor_at prefix us" and ?in = "between (bd_lower B) (bd_upper B)"
  have valid: "variant_valid f" using assms(4) by (simp add: variant_at_def)
  have pt: "exact f \<or> prevFrom = ?cp @ [SeparatorChar] \<and> prevTo = ?cp @ [SeparatorCharPlus]"
    using assms(5) by (simp add: bounds_at_def)
  have "?in e \<longleftrightarrow> ?in e \<and> (\<exists>s. fst e = ?cp @ SeparatorChar # s)" if e: "e \<in> set db" for e
  proof -
    have "fst e \<noteq> ?cp @ [SeparatorCharPlus]" using assms(2) e by (auto simp: level_ok_def)
    then have "in_bounds B (fst e) \<longrightarrow> (\<exists>s. fst e = ?cp @ SeparatorChar # s)"
      using in_bounds_prefix [of B ?cp "fst e"] bounds_shape [OF assms(1) valid assms(6) pt] by blast
    then show ?thesis by (auto simp: between_def in_bounds_def)
  qed
  then have "filter ?in db = filter (\<lambda>e. ?in e \<and> (\<exists>s. fst e = ?cp @ SeparatorChar # s)) db"
    by (rule filter_cong [OF refl])
  also have "\<dots> = filter ?in (filter (\<lambda>e. \<exists>s. fst e = ?cp @ SeparatorChar # s) db)" by simp (meson)
  also have "\<dots> = filter ?in (map snd rows)" using assms(2) by (simp only: level_ok_def)
  also have "\<dots> = map snd (filter (\<lambda>r. ?in (snd r)) rows)" by (simp add: filter_map o_def)
  also have "filter (\<lambda>r. ?in (snd r)) rows = matching f rows"
    unfolding matching_def
  proof (rule filter_cong [OF refl])
    fix r assume r: "r \<in> set rows"
    obtain rest where k: "rest \<noteq> []" "value_ok (hd (fst r))"
        "fst (snd r) = ?cp @ SeparatorChar # value_text (hd (fst r)) @ SeparatorChar # rest"
      using level_key [OF assms(2) r] assms(3) r by blast
    have "variant_fits f (hd (fst r))" using assms(4) r by (simp add: variant_at_def)
    then show "?in (snd r) \<longleftrightarrow> variant_matches f (hd (fst r))"
      using bounds_exist(2) [OF assms(1) valid pt assms(6) _ k(2,1)] k(3) by (simp add: between_def in_bounds_def)
  qed
  finally show ?thesis .
qed

lemma variant_scan:
  assumes "env_ok E db" "level_ok prefix us db rows" "\<forall>r \<in> set rows. fst r \<noteq> []" "variant_at f rows"
    and "bounds_at (cursor_at prefix us) f prevFrom prevTo"
  shows "\<exists>B. field_bounds (se_text E) (cursor_at prefix us) f prevFrom prevTo = Some B \<and>
     ordered (bd_forward B) (filter (between (bd_lower B) (bd_upper B)) db) =
       map snd (ordered (qf_order f = Asc) (matching f rows)) \<and>
     bd_seekExactPrefix B = exact f \<and> \<not> (bd_seekExactPrefix B \<and> bd_only B) \<and>
     (exact f \<longrightarrow> (\<exists>x. qf_value f = ScalarV x \<and> bd_fromS B = cursor_at prefix (us @ [x]) @ [SeparatorChar] \<and>
        bd_toS B = cursor_at prefix (us @ [x]) @ [SeparatorCharPlus]))"
proof -
  let ?cp = "cursor_at prefix us"
  have T: "text_lib_ok (se_text E)" using assms(1) by (simp add: env_ok_def)
  have valid: "variant_valid f" using assms(4) by (simp add: variant_at_def)
  have pt: "exact f \<or> prevFrom = ?cp @ [SeparatorChar] \<and> prevTo = ?cp @ [SeparatorCharPlus]"
    using assms(5) by (simp add: bounds_at_def)
  obtain B where B: "field_bounds (se_text E) ?cp f prevFrom prevTo = Some B"
    using bounds_exist(1) [OF T valid pt] by blast
  show ?thesis
    using B bounds_shape [OF T valid B pt] variant_rows [OF T assms(2-5) B] by simp
qed

text \<open>The last field.\<close>

lemma variant_last:
  assumes "env_ok E db" "level_ok prefix us db rows" "\<forall>r \<in> set rows. fst r \<noteq> []" "variant_at f rows"
    and "bounds_at (cursor_at prefix us) f prevFrom prevTo" "0 < fuel"
  shows "iterateFieldVariant E fuel pos True next f prevFrom prevTo (cursor_at prefix us, s) =
     Some (None, cursor_at prefix us, s @ filter (live E) (map snd (ordered (qf_order f = Asc) (matching f rows))))"
proof -
  obtain B where B: "field_bounds (se_text E) (cursor_at prefix us) f prevFrom prevTo = Some B"
     "ordered (bd_forward B) (filter (between (bd_lower B) (bd_upper B)) db) =
       map snd (ordered (qf_order f = Asc) (matching f rows))"
     "\<not> (bd_seekExactPrefix B \<and> bd_only B)"
    using variant_scan [OF assms(1-5)] by blast
  have E: "se_filter E = None" "se_callback E = collect"
    "se_scan E (bd_forward B) (bd_lower B) (bd_upper B) = (map snd (ordered (qf_order f = Asc) (matching f rows)), True)"
    using assms(1) B(2) by (simp_all add: env_ok_def scan_ok_def)
  obtain n where "fuel = Suc n" using assms(6) by (cases fuel) auto
  then show ?thesis using E B(1) walk_last [OF E(1,2) B(3)] by (simp add: iterateFieldVariant_def)
qed

text \<open>A field before the last: the prefixes of its rows.\<close>

lemma row_prefix:
  assumes "level_ok prefix us db rows" "prefix = indexPrefix topic indexId" "length indexId = 8"
    and "r \<in> set rows" "fst r \<noteq> []"
  shows "keyPrefix (fst (snd r)) topic (Suc (length us)) = cursor_at prefix (us @ [hd (fst r)])"
proof -
  obtain oid where "fst (snd r) = row_key prefix (us @ hd (fst r) # tl (fst r)) oid"
    using assms(1,4,5) by (auto simp: level_ok_def)
  then show ?thesis using keyPrefix_row [OF assms(2,3)] by simp
qed

lemma group_between:
  assumes "grouped g es" "a \<in> set es" "b \<in> set es" "c \<in> set es" "g a = g c"
    and "str_less (fst a) (fst b)" "str_less (fst b) (fst c)"
  shows "g b = g a"
proof (rule ccontr)
  assume "g b \<noteq> g a"
  then have "\<not> str_less (fst b) (g a @ [SeparatorCharPlus])" "str_less (fst b) (g a @ [SeparatorChar])"
    using grouped_above [OF assms(1,3,2)] grouped_below [OF assms(1,3,4)] assms(5-7) by auto
  moreover have "str_less (g a @ [SeparatorChar]) (g a @ [SeparatorCharPlus])" by simp
  ultimately show False using str_less_trans by blast
qed

lemma contiguous_keys:
  assumes "grouped g es"
    and "sorted_wrt (\<lambda>a b. str_less (fst a) (fst b)) es \<or> sorted_wrt (\<lambda>a b. str_less (fst b) (fst a)) es"
  shows "contiguous (map g es)"
  using assms
proof (induction es)
  case (Cons e es)
  have "grouped g es" using Cons.prems(1) by (simp add: grouped_def)
  then have "contiguous (map g es)" using Cons by auto
  moreover have "g (hd es) = g e" if "g e \<in> g ` set es"
  proof -
    from that obtain c where c: "g e = g c" "c \<in> set es" by (rule imageE)
    obtain b bs where es: "es = b # bs" using c by (cases es) auto
    have m: "e \<in> set (e # es)" "b \<in> set (e # es)" "c \<in> set (e # es)" using c es by simp_all
    show ?thesis
    proof (cases "c = b")
      case False
      then have "str_less (fst e) (fst b) \<and> str_less (fst b) (fst c) \<or> str_less (fst c) (fst b) \<and> str_less (fst b) (fst e)"
        using Cons.prems(2) c(2) es by (simp, blast)
      then have "g b = g e"
        using group_between [OF Cons.prems(1) m c(1)] group_between [OF Cons.prems(1) m(3,2,1)] c(1) by metis
      then show ?thesis using es by simp
    qed (use c es in simp)
  qed
  ultimately show ?case by (cases es) (auto simp: image_iff)
qed simp

lemma sorted_ordered:
  assumes "sorted_wrt (\<lambda>a b. str_less (fst a) (fst b)) db"
  shows "sorted_wrt (\<lambda>a b. str_less (fst a) (fst b)) (ordered d (filter P db)) \<or>
         sorted_wrt (\<lambda>a b. str_less (fst b) (fst a)) (ordered d (filter P db))"
  using sorted_wrt_filter [OF assms, of P] by (simp add: ordered_def sorted_wrt_rev)

lemma remdups_adj_map_on: "inj_on f (set xs) \<Longrightarrow> remdups_adj (map f xs) = map f (remdups_adj xs)"
proof (induction xs rule: remdups_adj.induct)
  case (3 x y xs)
  then show ?case by (auto simp: inj_on_def)
qed auto

lemma grouped_rows:
  assumes "level_ok prefix us db rows" "prefix = indexPrefix topic indexId" "length indexId = 8"
    and "\<forall>r \<in> set rows. fst r \<noteq> []" "set hits \<subseteq> set rows"
  shows "grouped (\<lambda>e. keyPrefix (fst e) topic (Suc (length us))) (map snd hits)"
  unfolding grouped_def
proof (intro ballI)
  fix e e' assume "e \<in> set (map snd hits)" "e' \<in> set (map snd hits)"
  then have "e \<in> snd ` set hits" "e' \<in> snd ` set hits" by (simp_all only: set_map)
  then obtain r r' where "e = snd r" "r \<in> set hits" "e' = snd r'" "r' \<in> set hits" by (elim imageE)
  then have r: "r \<in> set rows" "e = snd r" "r' \<in> set rows" "e' = snd r'" using assms(5) by blast+
  have g: "keyPrefix (fst e) topic (Suc (length us)) = cursor_at prefix (us @ [hd (fst r)])"
      "keyPrefix (fst e') topic (Suc (length us)) = cursor_at prefix (us @ [hd (fst r')])"
    using row_prefix [OF assms(1-3)] r assms(4) by auto
  obtain rest where "fst e = cursor_at prefix us @ SeparatorChar # value_text (hd (fst r)) @ SeparatorChar # rest"
    using level_key [OF assms(1) r(1)] assms(4) r(1,2) by blast
  then show "(\<exists>s. fst e = keyPrefix (fst e') topic (Suc (length us)) @ SeparatorChar # s) \<longleftrightarrow>
      keyPrefix (fst e) topic (Suc (length us)) = keyPrefix (fst e') topic (Suc (length us))"
    unfolding g by (auto simp: plain_sep_eq)
qed

abbreviation heads :: "index_row list \<Rightarrow> db_value list" where
  "heads rows \<equiv> map (\<lambda>r. hd (fst r)) rows"

text \<open>The search under a value keeps the cursor and adds what it finds.\<close>

definition next_ok ::
    "(string \<Rightarrow> string \<Rightarrow> string \<times> db_entry list \<Rightarrow> (db_error option \<times> string \<times> db_entry list) option) \<Rightarrow>
     string \<Rightarrow> bool \<Rightarrow> db_entry list \<Rightarrow> bool" where
  "next_ok next cp anywhere out \<longleftrightarrow>
     (\<forall>from to s. anywhere \<or> from = cp @ [SeparatorChar] \<and> to = cp @ [SeparatorCharPlus] \<longrightarrow>
        next from to (cp, s) = Some (None, cp, s @ out))"

lemma exact_heads:
  assumes "variant_ok f" "exact f" "qf_value f = ScalarV x" "v \<in> set (heads (matching f rows))"
  shows "v = x"
  using assms by (auto simp: exact_def matching_def variant_matches.simps)

lemma remdups_adj_same: "xs \<noteq> [] \<Longrightarrow> \<forall>v \<in> set xs. v = x \<Longrightarrow> remdups_adj xs = [x]"
  by (induction xs rule: remdups_adj.induct) auto

lemma variant_exact:
  assumes "env_ok E db" "level_ok prefix us db rows" "\<forall>r \<in> set rows. fst r \<noteq> []" "variant_at f rows"
    and "bounds_at (cursor_at prefix us) f prevFrom prevTo" "0 < fuel" "exact f"
    and "prefix = indexPrefix (se_topic E) indexId" "length indexId = 8"
    and "\<forall>v \<in> set (heads (matching f rows)). next_ok next (cursor_at prefix (us @ [v])) False (N v)"
    and "\<forall>v. N v \<noteq> [] \<longrightarrow> (\<exists>r \<in> set rows. hd (fst r) = v \<and> live E (snd r))"
  shows "iterateFieldVariant E fuel (Suc (length us)) False next f prevFrom prevTo (cursor_at prefix us, s) =
     Some (None, cursor_at prefix us,
       s @ concat (map N (remdups_adj (heads (ordered (qf_order f = Asc) (matching f rows))))))"
proof -
  let ?cp = "cursor_at prefix us" and ?hits = "ordered (qf_order f = Asc) (matching f rows)"
  obtain B x where B: "field_bounds (se_text E) ?cp f prevFrom prevTo = Some B"
     "ordered (bd_forward B) (filter (between (bd_lower B) (bd_upper B)) db) = map snd ?hits"
     "bd_seekExactPrefix B" "qf_value f = ScalarV x"
     "bd_fromS B = cursor_at prefix (us @ [x]) @ [SeparatorChar]" "bd_toS B = cursor_at prefix (us @ [x]) @ [SeparatorCharPlus]"
    using variant_scan [OF assms(1-5)] assms(7) by blast
  have E: "se_filter E = None" "se_scan E (bd_forward B) (bd_lower B) (bd_upper B) = (map snd ?hits, True)"
    using assms(1) B(2) by (simp_all add: env_ok_def scan_ok_def)
  obtain n where n: "fuel = Suc n" using assms(6) by (cases fuel) auto
  have ok: "variant_ok f" using assms(4) by (simp add: variant_at_def variant_valid_def)
  show ?thesis
  proof (cases "?hits = []")
    case True
    then show ?thesis using E n B(1) by (simp add: iterateFieldVariant_def)
  next
    case False
    have x: "\<forall>v \<in> set (heads ?hits). v = x" using exact_heads [OF ok assms(7) B(4), of _ rows] by (auto simp del: ordered_simps(3))
    then have one: "remdups_adj (heads ?hits) = [x]" using False by (intro remdups_adj_same) (simp_all del: ordered_simps(3))
    have "set (heads ?hits) = set (heads (matching f rows))" by simp
    moreover have "heads ?hits \<noteq> []" using False by simp
    ultimately have "x \<in> set (heads (matching f rows))" using x by (metis last_in_set)
    then have nx: "next (bd_fromS B) (bd_toS B) (?cp @ SeparatorChar # value_text x, s) =
        Some (None, ?cp @ SeparatorChar # value_text x, s @ N x)" for s
      using assms(10) B(5,6) by (fastforce simp: next_ok_def)
    have kp: "\<forall>e \<in> set (map snd ?hits). keyPrefix (fst e) (se_topic E) (Suc (length us)) = ?cp @ SeparatorChar # value_text x"
    proof
      fix e assume "e \<in> set (map snd ?hits)"
      then obtain r where r: "r \<in> set ?hits" "e = snd r" by auto
      then have "r \<in> set rows" by (simp add: matching_def)
      then show "keyPrefix (fst e) (se_topic E) (Suc (length us)) = ?cp @ SeparatorChar # value_text x"
        using row_prefix [OF assms(2,8,9), of r] assms(3) x r by simp
    qed
    have alive: "\<exists>e \<in> set (map snd ?hits). live E e" if "N x \<noteq> []"
      using assms(11) that ok assms(7) B(4) by (force simp: matching_def exact_def variant_matches.simps)
    show ?thesis
      using walk_exact [OF E(1) B(3) _ kp nx alive, of s] E(2) n B(1) one by (simp add: iterateFieldVariant_def del: ordered_simps(3))
  qed
qed

lemma cursor_inj:
  assumes "\<forall>v \<in> V. value_ok v" "\<forall>v \<in> V. \<forall>w \<in> V. comparable v w"
  shows "inj_on (\<lambda>v. cursor_at prefix (us @ [v])) V"
  using assms by (auto simp: inj_on_def value_text_inj)

lemma variant_range:
  assumes "env_ok E db" "level_ok prefix us db rows" "\<forall>r \<in> set rows. fst r \<noteq> []" "variant_at f rows"
    and "bounds_at (cursor_at prefix us) f prevFrom prevTo" "length db < fuel" "\<not> exact f"
    and "prefix = indexPrefix (se_topic E) indexId" "length indexId = 8"
    and "\<forall>r \<in> set rows. \<forall>r' \<in> set rows. comparable (hd (fst r)) (hd (fst r'))"
    and "\<forall>v \<in> set (heads (matching f rows)). next_ok next (cursor_at prefix (us @ [v])) True (N v)"
    and "\<forall>v. N v \<noteq> [] \<longrightarrow> (\<exists>r \<in> set rows. hd (fst r) = v \<and> live E (snd r))"
  shows "iterateFieldVariant E fuel (Suc (length us)) False next f prevFrom prevTo (cursor_at prefix us, s) =
     Some (None, cursor_at prefix us,
       s @ concat (map N (remdups_adj (heads (ordered (qf_order f = Asc) (matching f rows))))))"
proof -
  let ?cp = "cursor_at prefix us" and ?hits = "ordered (qf_order f = Asc) (matching f rows)"
  let ?c = "\<lambda>v. cursor_at prefix (us @ [v])" and ?vs = "heads (ordered (qf_order f = Asc) (matching f rows))"
  define es where "es = map snd ?hits"
  define g where "g = (\<lambda>e :: db_entry. keyPrefix (fst e) (se_topic E) (Suc (length us)))"
  define M where "M p = N (the_inv_into (set ?vs) ?c p)" for p
  obtain B where B: "field_bounds (se_text E) ?cp f prevFrom prevTo = Some B"
     "ordered (bd_forward B) (filter (between (bd_lower B) (bd_upper B)) db) = es" "\<not> bd_seekExactPrefix B"
    using variant_scan [OF assms(1-5)] assms(7) unfolding es_def by auto
  have E: "scan_ok (se_scan E) db" "se_filter E = None" using assms(1) by (simp_all add: env_ok_def)
  have hits: "set ?hits \<subseteq> set rows" by (auto simp: matching_def)
  have row: "g (snd r) = ?c (hd (fst r))" if "r \<in> set rows" for r
    using row_prefix [OF assms(2,8,9) that] assms(3) that by (simp add: g_def)
  have "\<forall>r \<in> set rows. value_ok (hd (fst r))" using level_key [OF assms(2)] assms(3) by blast
  then have vs: "v \<in> set ?vs \<Longrightarrow> value_ok v" for v by (auto simp: matching_def)
  have inj: "inj_on ?c (set ?vs)"
  proof (rule cursor_inj)
    show "\<forall>v \<in> set ?vs. \<forall>w \<in> set ?vs. comparable v w"
    proof (intro ballI)
      fix v w assume "v \<in> set ?vs" "w \<in> set ?vs"
      then obtain r r' where r: "r \<in> set rows" "v = hd (fst r)" "r' \<in> set rows" "w = hd (fst r')"
        by (auto simp: matching_def)
      show "comparable v w" unfolding r(2,4) using assms(10) r(1,3) by blast
    qed
  qed (use vs in blast)
  have M: "M (?c v) = N v" if "v \<in> set ?vs" for v using the_inv_into_f_f [OF inj that] by (simp add: M_def)
  have es: "\<exists>v \<in> set ?vs. g e = ?c v" if e: "e \<in> set es" for e
  proof -
    from e have "e \<in> snd ` set ?hits" unfolding es_def set_map .
    then obtain r where r: "e = snd r" "r \<in> set ?hits" by (rule imageE)
    have "hd (fst r) \<in> set ?vs" unfolding set_map by (rule imageI) (rule r(2))
    then show ?thesis using row [of r] hits r by blast
  qed
  have gs: "map g es = map ?c ?vs"
    unfolding es_def map_map o_def by (rule map_cong [OF refl]) (use row hits in blast)
  have "M (?c v) = N v" if "v \<in> set (remdups_adj ?vs)" for v
    using M that by (simp only: remdups_adj_set)
  then have "map M (map ?c (remdups_adj ?vs)) = map N (remdups_adj ?vs)" by (simp only: list.map_comp o_def cong: map_cong)
  then have out: "group_out M (map g es) = concat (map N (remdups_adj ?vs))"
    by (simp only: gs group_out_def remdups_adj_map_on [OF inj])
  have 1: "\<forall>e \<in> set es. \<exists>t. t \<noteq> [] \<and> g e = ?cp @ t"
  proof
    fix e assume "e \<in> set es"
    then obtain v where "g e = ?c v" using es by blast
    then show "\<exists>t. t \<noteq> [] \<and> g e = ?cp @ t" by simp
  qed
  have 2: "\<forall>e \<in> set es. \<forall>from to s. next from to (g e, s) = Some (None, g e, s @ M (g e))"
  proof
    fix e assume "e \<in> set es"
    then obtain v where v: "v \<in> set ?vs" "g e = ?c v" using es by blast
    have "set ?vs = set (heads (matching f rows))" by simp
    then have "next_ok next (?c v) True (N v)" using assms(11) v(1) by blast
    then show "\<forall>from to s. next from to (g e, s) = Some (None, g e, s @ M (g e))"
      unfolding v(2) M [OF v(1)] next_ok_def by blast
  qed
  have 3: "\<forall>e \<in> set es. M (g e) \<noteq> [] \<longrightarrow> (\<exists>e' \<in> set es. live E e' \<and> g e' = g e)"
  proof (intro ballI impI)
    fix e assume e: "e \<in> set es" "M (g e) \<noteq> []"
    obtain v where v: "v \<in> set ?vs" "g e = ?c v" using es [OF e(1)] by blast
    have "N v \<noteq> []" using e(2) unfolding v(2) M [OF v(1)] .
    then obtain r where r: "r \<in> set rows" "hd (fst r) = v" "live E (snd r)" using assms(12) by blast
    have "variant_matches f v" using v(1) by (auto simp: matching_def)
    then have "r \<in> set ?hits" using r by (simp add: matching_def)
    then have "snd r \<in> set es" unfolding es_def set_map by (rule imageI)
    moreover have "g (snd r) = g e" unfolding v(2) row [OF r(1)] r(2) ..
    ultimately show "\<exists>e' \<in> set es. live E e' \<and> g e' = g e" using r(3) by blast
  qed
  have grp: "grouped g es"
    unfolding g_def es_def by (rule grouped_rows [OF assms(2,8,9,3) hits])
  have "sorted_wrt (\<lambda>a b. str_less (fst a) (fst b)) db" using E(1) by (simp add: scan_ok_def)
  from sorted_ordered [OF this, of "bd_forward B" "between (bd_lower B) (bd_upper B)"]
  have 4: "contiguous (map g es)" unfolding B(2) by (rule contiguous_keys [OF grp])
  have "length es \<le> length db" using B(2) by (metis length_filter_le ordered_simps(2))
  then have 5: "length es < fuel" using assms(6) by simp
  show ?thesis
    using seek_range [OF E B(3) _ B(2) 1 2 3 4 grp 5, of "Suc (length us)" "bd_fromS B" "bd_toS B" s] B(1) out
    by (simp add: iterateFieldVariant_def g_def)
qed

subsection \<open>All fields\<close>

definition variants_of :: "'s search_env \<Rightarrow> query_field \<Rightarrow> query_field list" where
  "variants_of E q = (case fieldVariants E q of None \<Rightarrow> [] | Some fs \<Rightarrow> fs)"

text \<open>The queries that the search is right for: the operands are values of their fields, and of two fields that follow
  each other one is an equality, or a choice of equalities.\<close>

fun query_ok :: "'s search_env \<Rightarrow> index_row list \<Rightarrow> query_field list \<Rightarrow> bool" where
  "query_ok E rows [] \<longleftrightarrow> True"
| "query_ok E rows (q # qs) \<longleftrightarrow>
     fieldVariants E q \<noteq> None \<and>
     (\<forall>f \<in> set (variants_of E q). variant_at f rows) \<and>
     (qs \<noteq> [] \<longrightarrow> (\<forall>f \<in> set (variants_of E q). exact f) \<or> (\<forall>f \<in> set (variants_of E (hd qs)). exact f)) \<and>
     query_ok E (map (\<lambda>r. (tl (fst r), snd r)) rows) qs"

lemma query_ok_mono: "query_ok E rows qs \<Longrightarrow> set rows' \<subseteq> set rows \<Longrightarrow> query_ok E rows' qs"
proof (induction qs arbitrary: rows rows')
  case (Cons q qs)
  have "set (map (\<lambda>r. (tl (fst r), snd r)) rows') \<subseteq> set (map (\<lambda>r. (tl (fst r), snd r)) rows)"
    using Cons.prems(2) by auto
  from Cons.IH [OF _ this] have "query_ok E (map (\<lambda>r. (tl (fst r), snd r)) rows') qs" using Cons.prems(1) by simp
  moreover have "variant_at f rows \<Longrightarrow> variant_at f rows'" for f using Cons.prems(2) by (auto simp: variant_at_def)
  ultimately show ?case using Cons.prems(1) by auto
qed simp

lemma under_subset: "set (under v rows) \<subseteq> set (map (\<lambda>r. (tl (fst r), snd r)) rows)"
  by (auto simp: under_def)

lemma columns_under: "columns_ok rows \<Longrightarrow> \<forall>r \<in> set rows. fst r \<noteq> [] \<Longrightarrow> columns_ok (under v rows)"
  unfolding columns_ok_def
proof (intro ballI)
  fix r r' assume c: "\<forall>r \<in> set rows. \<forall>r' \<in> set rows. length (fst r) = length (fst r') \<and> list_all2 comparable (fst r) (fst r')"
    and n: "\<forall>r \<in> set rows. fst r \<noteq> []" and r: "r \<in> set (under v rows)" "r' \<in> set (under v rows)"
  obtain p p' where p: "p \<in> set rows" "r = (tl (fst p), snd p)" "p' \<in> set rows" "r' = (tl (fst p'), snd p')"
    using r by (auto simp: under_def)
  have "length (fst p) = length (fst p') \<and> list_all2 comparable (fst p) (fst p')" using c p(1,3) by blast
  moreover obtain x xs y ys where "fst p = x # xs" "fst p' = y # ys" using n p(1,3) by (meson neq_Nil_conv)
  ultimately show "length (fst r) = length (fst r') \<and> list_all2 comparable (fst r) (fst r')" using p(2,4) by simp
qed

lemma find_rows_sub:
  "e \<in> set (find_rows alive vs qs rows) \<Longrightarrow> \<exists>r \<in> set rows. e = snd r \<and> alive e"
proof (induction qs arbitrary: rows)
  case (Cons q qs)
  then obtain f where f: "f \<in> set (vs q)" and e: "e \<in> set (let hits = ordered (qf_order f = Asc) (matching f rows) in
       if qs = [] then filter alive (map snd hits)
       else concat (map (\<lambda>v. find_rows alive vs qs (under v rows)) (remdups_adj (map (\<lambda>r. hd (fst r)) hits))))"
    by auto
  show ?case
  proof (cases "qs = []")
    case True
    then show ?thesis using e by (auto simp: matching_def Let_def)
  next
    case False
    then obtain v where "e \<in> set (find_rows alive vs qs (under v rows))" using e by (auto simp: Let_def)
    from Cons.IH [OF this] show ?thesis by (force simp: under_def)
  qed
qed simp

lemma eachVariant_collects:
  "\<forall>f \<in> set fs. checkOperator f \<and> (\<forall>s. iter f (cp, s) = Some (None, cp, s @ out f)) \<Longrightarrow>
   eachVariant iter fs (cp, s) = Some (None, cp, s @ concat (map out fs))"
  by (induction fs arbitrary: s) simp_all

lemma nextKeyField_finds:
  assumes "env_ok E db" "prefix = indexPrefix (se_topic E) indexId" "length indexId = 8" "length db < fuel"
  shows "level_ok prefix us db rows \<Longrightarrow> columns_ok rows \<Longrightarrow> \<forall>r \<in> set rows. length qs \<le> length (fst r) \<Longrightarrow>
    query_ok E rows qs \<Longrightarrow> qs \<noteq> [] \<Longrightarrow>
    \<forall>f \<in> set (variants_of E (hd qs)). bounds_at (cursor_at prefix us) f prevFrom prevTo \<Longrightarrow>
    nextKeyField E fuel (length us) qs prevFrom prevTo (cursor_at prefix us, s) =
      Some (None, cursor_at prefix us, s @ find_rows (live E) (variants_of E) qs rows)"
proof (induction qs arbitrary: us rows prevFrom prevTo s)
  case (Cons q qs)
  let ?cp = "cursor_at prefix us"
  let ?next = "\<lambda>from to st. nextKeyField E fuel (Suc (length us)) qs from to st"
  let ?N = "\<lambda>v. find_rows (live E) (variants_of E) qs (under v rows)"
  obtain fs where fs: "fieldVariants E q = Some fs" "variants_of E q = fs"
    using Cons.prems(4) by (auto simp: variants_of_def)
  have ne: "\<forall>r \<in> set rows. fst r \<noteq> []" using Cons.prems(3) by fastforce
  have vat: "variant_at f rows" "bounds_at ?cp f prevFrom prevTo" if "f \<in> set fs" for f
    using Cons.prems(4,6) fs(2) that by auto
  have comp: "\<forall>r \<in> set rows. \<forall>r' \<in> set rows. comparable (hd (fst r)) (hd (fst r'))"
    using Cons.prems(2) ne unfolding columns_ok_def by (metis list.rel_sel)
  have under: "next_ok ?next (cursor_at prefix (us @ [v])) (\<not> exact f) (?N v)"
    if f: "f \<in> set fs" and v: "v \<in> set (heads (matching f rows))" and qs: "qs \<noteq> []" for f v
    unfolding next_ok_def
  proof (intro allI impI)
    fix lo hi s
    assume ft: "\<not> exact f \<or> lo = cursor_at prefix (us @ [v]) @ [SeparatorChar] \<and> hi = cursor_at prefix (us @ [v]) @ [SeparatorCharPlus]"
    obtain r where r: "r \<in> set rows" "hd (fst r) = v" using v by (auto simp: matching_def)
    have "value_ok v" using level_key [OF Cons.prems(1) r(1)] ne r by blast
    moreover have "\<forall>r \<in> set rows. comparable (hd (fst r)) v" using comp r by blast
    ultimately have lv: "level_ok prefix (us @ [v]) db (under v rows)" by (rule under_level [OF Cons.prems(1) ne])
    have len: "\<forall>r \<in> set (under v rows). length qs \<le> length (fst r)" using Cons.prems(3) by (auto simp: under_def)
    have ok: "query_ok E (under v rows) qs"
      by (rule query_ok_mono [OF _ under_subset]) (use Cons.prems(4) in simp)
    have bd: "\<forall>f' \<in> set (variants_of E (hd qs)). bounds_at (cursor_at prefix (us @ [v])) f' lo hi"
      using Cons.prems(4) fs(2) f qs ft by (auto simp: bounds_at_def)
    show "nextKeyField E fuel (Suc (length us)) qs lo hi (cursor_at prefix (us @ [v]), s) =
        Some (None, cursor_at prefix (us @ [v]), s @ ?N v)"
      using Cons.IH [OF lv columns_under [OF Cons.prems(2) ne] len ok qs bd] by simp
  qed
  have live: "\<forall>v. ?N v \<noteq> [] \<longrightarrow> (\<exists>r \<in> set rows. hd (fst r) = v \<and> live E (snd r))"
  proof (intro allI impI)
    fix v assume "?N v \<noteq> []"
    from find_rows_sub [OF hd_in_set [OF this]]
    show "\<exists>r \<in> set rows. hd (fst r) = v \<and> live E (snd r)" by (force simp: under_def)
  qed
  let ?out = "\<lambda>f. let hits = ordered (qf_order f = Asc) (matching f rows) in
       if qs = [] then filter (live E) (map snd hits)
       else concat (map ?N (remdups_adj (map (\<lambda>r. hd (fst r)) hits)))"
  have "iterateFieldVariant E fuel (Suc (length us)) (qs = []) ?next f prevFrom prevTo (?cp, s) = Some (None, ?cp, s @ ?out f)"
    if f: "f \<in> set fs" for f s
  proof (cases "qs = []")
    case True
    then show ?thesis
      using variant_last [OF assms(1) Cons.prems(1) ne vat [OF f]] assms(4) by (simp add: Let_def)
  next
    case False
    show ?thesis
    proof (cases "exact f")
      case True
      have "\<forall>v \<in> set (heads (matching f rows)). next_ok ?next (cursor_at prefix (us @ [v])) False (?N v)"
      proof
        fix v assume "v \<in> set (heads (matching f rows))"
        from under [OF f this False] show "next_ok ?next (cursor_at prefix (us @ [v])) False (?N v)" using True by simp
      qed
      from variant_exact [OF assms(1) Cons.prems(1) ne vat [OF f] _ True assms(2,3) this live] show ?thesis
        using False assms(4) by (simp add: Let_def)
    next
      case ranged: False
      have "\<forall>v \<in> set (heads (matching f rows)). next_ok ?next (cursor_at prefix (us @ [v])) True (?N v)"
      proof
        fix v assume "v \<in> set (heads (matching f rows))"
        from under [OF f this False] show "next_ok ?next (cursor_at prefix (us @ [v])) True (?N v)" using ranged by simp
      qed
      from variant_range [OF assms(1) Cons.prems(1) ne vat [OF f] assms(4) ranged assms(2,3) comp this live] show ?thesis
        using False by (simp add: Let_def)
    qed
  qed
  moreover have "checkOperator f" if "f \<in> set fs" for f
    using vat(1) [OF that] by (simp add: variant_at_def variant_valid_def variant_ok_def)
  ultimately show ?case
    using fs eachVariant_collects [of fs "\<lambda>f st. iterateFieldVariant E fuel (Suc (length us)) (qs = []) ?next f prevFrom prevTo st" ?cp ?out s]
    by simp
qed simp

subsection \<open>What the rows are\<close>

fun row_matches :: "(query_field \<Rightarrow> query_field list) \<Rightarrow> query_field list \<Rightarrow> db_value list \<Rightarrow> bool" where
  "row_matches variants [] vals \<longleftrightarrow> True"
| "row_matches variants (q # qs) vals \<longleftrightarrow>
     (\<exists>f \<in> set (variants q). variant_matches f (hd vals)) \<and> row_matches variants qs (tl vals)"

lemma find_rows_set:
  "qs \<noteq> [] \<Longrightarrow> e \<in> set (find_rows alive variants qs rows) \<longleftrightarrow>
     (\<exists>r \<in> set rows. e = snd r \<and> alive e \<and> row_matches variants qs (fst r))"
proof (induction qs arbitrary: rows)
  case (Cons q qs)
  show ?case
  proof (cases "qs = []")
    case True
    then show ?thesis by (auto simp: Let_def matching_def)
  next
    case False
    have "e \<in> set (find_rows alive variants (q # qs) rows) \<longleftrightarrow>
        (\<exists>f \<in> set (variants q). \<exists>v \<in> set (heads (matching f rows)). e \<in> set (find_rows alive variants qs (under v rows)))"
      using False by (simp add: Let_def)
    also have "\<dots> \<longleftrightarrow> (\<exists>f \<in> set (variants q). \<exists>v \<in> set (heads (matching f rows)).
        \<exists>r \<in> set (under v rows). e = snd r \<and> alive e \<and> row_matches variants qs (fst r))"
      using Cons.IH [OF False] by simp
    also have "\<dots> \<longleftrightarrow> (\<exists>r \<in> set rows. e = snd r \<and> alive e \<and> row_matches variants (q # qs) (fst r))"
      by (force simp: under_def matching_def)
    finally show ?thesis .
  qed
qed simp

lemma concat_groups:
  "contiguous (map h xs) \<Longrightarrow>
   concat (map (\<lambda>v. filter (\<lambda>x. h x = v \<and> P x) xs) (remdups_adj (map h xs))) = filter P xs"
proof (induction xs rule: length_induct)
  case (1 xs)
  show ?case
  proof (cases xs)
    case (Cons x ys)
    let ?a = "takeWhile (\<lambda>y. h y = h x) ys" and ?b = "dropWhile (\<lambda>y. h y = h x) ys"
    have m: "dropWhile (\<lambda>y. y = h x) (map h ys) = map h ?b" by (simp add: dropWhile_map o_def)
    have ra: "remdups_adj (map h xs) = h x # remdups_adj (map h ?b)"
      using m by (simp add: Cons remdups_adj_Cons' eq_commute)
    have nb: "h x \<notin> h ` set ?b"
      using contiguous_dropWhile [of "h x" "map h ys"] "1.prems" m by (metis Cons list.set_map list.simps(9))
    have "contiguous (map h ?b)"
      using "1.prems" contiguous_append [of "map h (x # ?a)" "map h ?b"] by (simp add: Cons flip: map_append)
    moreover have "length ?b < length xs" using length_dropWhile_le [of _ ys] by (simp add: Cons le_imp_less_Suc)
    ultimately have IH: "concat (map (\<lambda>v. filter (\<lambda>x. h x = v \<and> P x) ?b) (remdups_adj (map h ?b))) = filter P ?b"
      using "1.IH" by blast
    have xs: "xs = (x # ?a) @ ?b" by (simp add: Cons)
    have same: "\<forall>y \<in> set (x # ?a). h y = h x" by (auto dest: set_takeWhileD)
    have "filter (\<lambda>y. h y = h x \<and> P y) (x # ?a) = filter P (x # ?a)"
      by (rule filter_cong [OF refl]) (use same in blast)
    moreover have "filter (\<lambda>y. h y = h x \<and> P y) ?b = []"
      using nb unfolding filter_empty_conv image_iff by metis
    ultimately have first: "filter (\<lambda>y. h y = h x \<and> P y) xs = filter P (x # ?a)"
      unfolding xs filter_append by (simp only: append_Nil2)
    have rest: "filter (\<lambda>y. h y = v \<and> P y) xs = filter (\<lambda>y. h y = v \<and> P y) ?b" if "v \<in> set (remdups_adj (map h ?b))" for v
    proof -
      have "v \<in> h ` set ?b" using that by (simp only: remdups_adj_set set_map)
      then have "v \<noteq> h x" using nb by blast
      then have "filter (\<lambda>y. h y = v \<and> P y) (x # ?a) = []" 
        using same unfolding filter_empty_conv by metis
      then show ?thesis unfolding xs filter_append by simp
    qed
    have "map (\<lambda>v. filter (\<lambda>y. h y = v \<and> P y) xs) (remdups_adj (map h ?b)) =
        map (\<lambda>v. filter (\<lambda>y. h y = v \<and> P y) ?b) (remdups_adj (map h ?b))"
      by (rule map_cong [OF refl]) (rule rest)
    then have "concat (map (\<lambda>v. filter (\<lambda>y. h y = v \<and> P y) xs) (remdups_adj (map h xs))) =
        filter P (x # ?a) @ concat (map (\<lambda>v. filter (\<lambda>x. h x = v \<and> P x) ?b) (remdups_adj (map h ?b)))"
      unfolding ra by (simp only: list.map concat.simps first)
    also have "\<dots> = filter P ((x # ?a) @ ?b)" unfolding IH filter_append ..
    also have "\<dots> = filter P xs" by (rule arg_cong [OF xs [symmetric]])
    finally show ?thesis .
  qed simp
qed

text \<open>One variant to each field and ascending order: the rows come out as they stand.\<close>

definition ascending :: "(query_field \<Rightarrow> query_field list) \<Rightarrow> query_field list \<Rightarrow> bool" where
  "ascending variants qs \<longleftrightarrow> (\<forall>q \<in> set qs. \<exists>f. variants q = [f] \<and> qf_order f = Asc)"

text \<open>Equal values of a field stand together, and of the next field under each of them.\<close>

fun grouped_rows_at :: "nat \<Rightarrow> index_row list \<Rightarrow> bool" where
  "grouped_rows_at 0 rows \<longleftrightarrow> True"
| "grouped_rows_at (Suc n) rows \<longleftrightarrow>
     contiguous (heads rows) \<and> (\<forall>v \<in> set (heads rows). grouped_rows_at n (under v rows))"

lemma contiguous_filter: "contiguous xs \<Longrightarrow> contiguous (filter P xs)"
proof (induction xs)
  case (Cons x xs)
  show ?case
  proof (cases "x \<in> set xs")
    case True
    then obtain ys where "xs = x # ys" using Cons.prems by (cases xs) auto
    then show ?thesis using Cons by auto
  qed (use Cons in auto)
qed simp

lemma under_matching: "variant_matches f v \<Longrightarrow> under v rows = under v (matching f rows)"
  unfolding under_def matching_def filter_filter
  by (rule arg_cong [where f = "map (\<lambda>r. (tl (fst r), snd r))"], rule filter_cong) auto

lemma concat_map_map: "concat (map (\<lambda>v. map g (h v)) xs) = map g (concat (map h xs))"
  by (induction xs) simp_all

lemma find_rows_ascending:
  "qs \<noteq> [] \<Longrightarrow> ascending variants qs \<Longrightarrow> grouped_rows_at (length qs) rows \<Longrightarrow>
   find_rows alive variants qs rows = map snd (filter (\<lambda>r. alive (snd r) \<and> row_matches variants qs (fst r)) rows)"
proof (induction qs arbitrary: rows)
  case (Cons q qs)
  obtain f where f: "variants q = [f]" "qf_order f = Asc" using Cons.prems(2) by (auto simp: ascending_def)
  have asc: "ascending variants qs" using Cons.prems(2) by (auto simp: ascending_def)
  let ?hits = "matching f rows"
  show ?case
  proof (cases "qs = []")
    case True
    have "filter alive (map snd ?hits) = map snd (filter (\<lambda>r. alive (snd r) \<and> variant_matches f (hd (fst r))) rows)"
      unfolding matching_def filter_map filter_filter o_def by (simp add: conj_commute)
    then show ?thesis using f True by (simp add: ordered_def Let_def)
  next
    case False
    let ?P = "\<lambda>r. alive (snd r) \<and> row_matches variants qs (tl (fst r))"
    have sub: "find_rows alive variants qs (under v rows) = map snd (filter (\<lambda>r. hd (fst r) = v \<and> ?P r) ?hits)"
      if v: "v \<in> set (remdups_adj (heads ?hits))" for v
    proof -
      obtain r where r: "r \<in> set ?hits" "hd (fst r) = v" using v by auto
      then have m: "variant_matches f v" and vr: "v \<in> set (heads rows)" by (auto simp: matching_def)
      from Cons.prems(3) have "\<forall>v \<in> set (heads rows). grouped_rows_at (length qs) (under v rows)"
        unfolding length_Cons grouped_rows_at.simps by blast
      from Cons.IH [OF False asc bspec [OF this vr]]
      have "find_rows alive variants qs (under v rows) =
          map snd (filter (\<lambda>r. alive (snd r) \<and> row_matches variants qs (fst r)) (under v ?hits))"
        unfolding under_matching [OF m, symmetric] .
      also have "\<dots> = map snd (filter (\<lambda>r. hd (fst r) = v \<and> ?P r) ?hits)"
        by (simp add: under_def filter_map o_def conj_commute)
      finally show ?thesis .
    qed
    have contig: "contiguous (heads ?hits)"
      using contiguous_filter [of "heads rows" "variant_matches f"] Cons.prems(3) by (simp add: matching_def filter_map o_def)
    have "find_rows alive variants (q # qs) rows =
        concat (map (\<lambda>v. find_rows alive variants qs (under v rows)) (remdups_adj (heads ?hits)))"
      using f False by (simp add: ordered_def Let_def)
    also have "\<dots> = concat (map (\<lambda>v. map snd (filter (\<lambda>r. hd (fst r) = v \<and> ?P r) ?hits)) (remdups_adj (heads ?hits)))"
      by (rule arg_cong [where f = concat], rule map_cong [OF refl]) (rule sub)
    also have "\<dots> = map snd (filter ?P ?hits)"
      unfolding concat_map_map concat_groups [OF contig, of ?P] ..
    also have "filter ?P ?hits = filter (\<lambda>r. alive (snd r) \<and> row_matches variants (q # qs) (fst r)) rows"
      unfolding matching_def filter_filter using f by (intro filter_cong) auto
    finally show ?thesis .
  qed
qed simp

lemma contiguous_map_inj: "contiguous (map c xs) \<Longrightarrow> inj_on c (set xs) \<Longrightarrow> contiguous xs"
proof (induction xs)
  case (Cons x xs)
  have "hd xs = x" if x: "x \<in> set xs"
  proof -
    have "c x \<in> set (map c xs)" using x by simp
    then have "hd (map c xs) = c x" using Cons.prems(1) by simp
    moreover have "xs \<noteq> []" using x by auto
    ultimately have "c (hd xs) = c x" "hd xs \<in> set xs" by (simp_all add: hd_map)
    then show ?thesis using inj_onD [OF Cons.prems(2)] by simp
  qed
  moreover have "contiguous xs"
    by (rule Cons.IH) (use Cons.prems in \<open>simp_all add: inj_on_def\<close>)
  ultimately show ?case by simp
qed simp

lemma columns_heads:
  assumes "columns_ok rows" "\<forall>r \<in> set rows. fst r \<noteq> []"
  shows "\<forall>r \<in> set rows. \<forall>r' \<in> set rows. comparable (hd (fst r)) (hd (fst r'))"
  using assms unfolding columns_ok_def by (metis list.rel_sel)

lemma level_grouped:
  assumes "prefix = indexPrefix topic indexId" "length indexId = 8"
    and "sorted_wrt (\<lambda>a b. str_less (fst a) (fst b)) db"
  shows "level_ok prefix us db rows \<Longrightarrow> columns_ok rows \<Longrightarrow> \<forall>r \<in> set rows. n \<le> length (fst r) \<Longrightarrow> grouped_rows_at n rows"
proof (induction n arbitrary: us rows)
  case (Suc n)
  have ne: "\<forall>r \<in> set rows. fst r \<noteq> []" using Suc.prems(3) by fastforce
  note comp = columns_heads [OF Suc.prems(2) ne]
  let ?g = "\<lambda>e :: db_entry. keyPrefix (fst e) topic (Suc (length us))" and ?c = "\<lambda>v. cursor_at prefix (us @ [v])"
  have "sorted_wrt (\<lambda>a b. str_less (fst a) (fst b)) (map snd rows)"
    using Suc.prems(1) sorted_wrt_filter [OF assms(3)] unfolding level_ok_def by metis
  then have "contiguous (map ?g (map snd rows))"
    by (intro contiguous_keys [OF grouped_rows [OF Suc.prems(1) assms(1,2) ne subset_refl]] disjI1)
  moreover have "map ?g (map snd rows) = map ?c (heads rows)"
    unfolding map_map o_def by (rule map_cong [OF refl]) (use row_prefix [OF Suc.prems(1) assms(1,2)] ne in blast)
  moreover have "inj_on ?c (set (heads rows))"
  proof (rule cursor_inj)
    show "\<forall>v \<in> set (heads rows). value_ok v" using level_key [OF Suc.prems(1)] ne by fastforce
    show "\<forall>v \<in> set (heads rows). \<forall>w \<in> set (heads rows). comparable v w" using comp by fastforce
  qed
  ultimately have "contiguous (heads rows)" by (metis contiguous_map_inj)
  moreover have "grouped_rows_at n (under v rows)" if "v \<in> set (heads rows)" for v
  proof -
    from that have "v \<in> (\<lambda>r. hd (fst r)) ` set rows" unfolding set_map .
    then obtain r where r: "v = hd (fst r)" "r \<in> set rows" by (rule imageE)
    have "value_ok v" using level_key [OF Suc.prems(1) r(2)] ne r by blast
    moreover have "\<forall>r \<in> set rows. comparable (hd (fst r)) v" using comp r by blast
    ultimately have "level_ok prefix (us @ [v]) db (under v rows)" by (rule under_level [OF Suc.prems(1) ne])
    then show ?thesis
      using Suc.IH [OF _ columns_under [OF Suc.prems(2) ne]] Suc.prems(3) by (fastforce simp: under_def)
  qed
  ultimately show ?case unfolding grouped_rows_at.simps by blast
qed simp

subsection \<open>A range under a range\<close>

text \<open>Both fields ask for the values from one on. The bounds of the second field reach to the end of the index: under a
  value \<open>v\<close> of the first field the walk goes on through the rows of the values above \<open>v\<close>, whatever their second
  values are.\<close>

definition from_on :: "query_field \<Rightarrow> db_value \<Rightarrow> bool" where
  "from_on q x \<longleftrightarrow> qf_op q = op_gte \<and> qf_value q = ScalarV x \<and> qf_order q = Asc \<and> x \<notin> {DvNull, DvFirst, DvLast} \<and> value_ok x"

definition from_pair :: "db_value \<Rightarrow> db_value \<Rightarrow> index_row \<Rightarrow> bool" where
  "from_pair v y r \<longleftrightarrow> value_less v (fst r ! 0) \<or> fst r ! 0 = v \<and> \<not> value_less (fst r ! 1) y"

lemma from_on_variants: "from_on q x \<Longrightarrow> fieldVariants E q = Some [q] \<and> checkOperator q"
  by (simp add: from_on_def fieldVariants_def checkOperator_def isScalarOp_def)

lemma from_on_bounds:
  "from_on q x \<Longrightarrow> text_lib_ok T \<Longrightarrow> field_bounds T cp q prevFrom prevTo =
     Some (range_bounds (cp @ SeparatorChar # value_text x @ [SeparatorChar]) prevTo
             (cp @ SeparatorChar # value_text x @ [SeparatorChar]) prevTo q)"
  by (simp add: from_on_def field_bounds_def Let_def scalarToBuf_ok)

lemma from_pair_between:
  assumes "level_ok prefix [] db rows" "r \<in> set rows" "2 \<le> length (fst r)"
    and "value_ok v" "comparable (fst r ! 0) v" "value_ok y" "comparable (fst r ! 1) y"
  shows "between (prefix @ SeparatorChar # value_text v @ SeparatorChar # value_text y @ [SeparatorChar])
           (prefix @ [SeparatorCharPlus]) (snd r) \<longleftrightarrow> from_pair v y r"
proof -
  obtain a b vs where r: "fst r = a # b # vs" using assms(3) by (cases "fst r"; cases "tl (fst r)") auto
  obtain oid where oid: "fst (snd r) = row_key prefix ([] @ fst r) oid" "\<forall>v \<in> set (fst r). value_ok v"
    using assms(1,2) unfolding level_ok_def by blast
  have k: "fst (snd r) = prefix @ SeparatorChar # value_text a @ SeparatorChar # value_text b @ SeparatorChar # row_body vs oid"
    using oid(1) r by (simp add: row_key_def)
  have a: "value_ok a" "comparable a v" and b: "value_ok b" "comparable b y" using oid(2) r assms(5,7) by simp_all
  have "str_less (fst (snd r)) (prefix @ [SeparatorCharPlus])" using k range_prefix [of "fst (snd r)" prefix] by blast
  moreover have "str_less (fst (snd r)) (prefix @ SeparatorChar # value_text v @ SeparatorChar # value_text y @ [SeparatorChar]) \<longleftrightarrow>
      value_less a v \<or> a = v \<and> value_less b y"
    unfolding k cursor_less_same value_text_order [OF a(1) assms(4) a(2)] row_less(1) [OF b(1) assms(6) b(2)] ..
  moreover have "\<not> value_less a v \<longleftrightarrow> a = v \<or> value_less v a" "\<not> (value_less a v \<and> value_less v a)" "\<not> value_less v v"
    using value_less_linear [OF a(1) assms(4) a(2)] value_text_order [OF a(1) assms(4) a(2), of "[]" "[]"]
      value_text_order [OF assms(4) a(1), of "[]" "[]"] a(2) comparable_sym [of a v] str_less_asym
      value_text_order [OF assms(4,4), of "[]" "[]"]
    by auto
  ultimately show ?thesis unfolding between_def from_pair_def r by auto
qed

lemma seek_last:
  assumes "se_filter E = None" "se_callback E = collect" "\<not> (bd_seekExactPrefix B \<and> bd_only B)"
    and "se_scan E (bd_forward B) lo hi = (es, True)" "0 < fuel"
  shows "seek E pos True B next (length cp) fuel lo hi fromS toS (cp, s) = Some (None, cp, s @ filter (live E) es)"
  using walk_last [OF assms(1-3)] assms(4,5) by (cases fuel) simp_all

lemma from_pair_search:
  assumes "env_ok E db" "level_ok prefix [] db rows" "\<forall>r \<in> set rows. 2 \<le> length (fst r) \<and> live E (snd r)"
    and "from_on q y" "\<forall>r \<in> set rows. comparable (fst r ! 1) y" "value_ok v" "\<forall>r \<in> set rows. comparable (fst r ! 0) v" "0 < fuel"
  shows "nextKeyField E fuel (Suc 0) [q] from (prefix @ [SeparatorCharPlus]) (prefix @ SeparatorChar # value_text v, s) =
     Some (None, prefix @ SeparatorChar # value_text v, s @ map snd (filter (from_pair v y) rows))"
proof -
  let ?cp = "prefix @ SeparatorChar # value_text v"
  let ?lo = "?cp @ SeparatorChar # value_text y @ [SeparatorChar]" and ?hi = "prefix @ [SeparatorCharPlus]"
  have T: "text_lib_ok (se_text E)" "se_filter E = None" "se_callback E = collect" using assms(1) by (simp_all add: env_ok_def)
  have asc: "qf_order q = Asc" and y: "value_ok y" using assms(4) by (simp_all add: from_on_def)
  have here: "between ?lo ?hi (snd r) \<longleftrightarrow> from_pair v y r" if "r \<in> set rows" for r
    using from_pair_between [OF assms(2) that _ assms(6) _ y] assms(3,5,7) that by simp
  have "between ?lo ?hi e \<longleftrightarrow> between ?lo ?hi e \<and> (\<exists>s. fst e = prefix @ SeparatorChar # s)" if e: "e \<in> set db" for e
  proof -
    have "fst e \<noteq> prefix @ [SeparatorCharPlus]" using assms(2) e by (auto simp: level_ok_def)
    then show ?thesis
      using in_bounds_prefix [of "range_bounds ?lo ?hi ?lo ?hi q" prefix "fst e"]
      by (auto simp: between_def in_bounds_def range_bounds_def)
  qed
  then have "filter (between ?lo ?hi) db = filter (\<lambda>e. between ?lo ?hi e \<and> (\<exists>s. fst e = prefix @ SeparatorChar # s)) db"
    by (rule filter_cong [OF refl])
  also have "\<dots> = filter (between ?lo ?hi) (filter (\<lambda>e. \<exists>s. fst e = prefix @ SeparatorChar # s) db)" by simp (meson)
  also have "\<dots> = filter (between ?lo ?hi) (map snd rows)" using assms(2) by (simp only: level_ok_def cursor_at_simps)
  also have "\<dots> = map snd (filter (from_pair v y) rows)"
    unfolding filter_map o_def by (rule arg_cong [where f = "map snd"], rule filter_cong [OF refl]) (rule here)
  finally have scan: "se_scan E True ?lo ?hi = (map snd (filter (from_pair v y) rows), True)"
    using assms(1) by (simp add: env_ok_def scan_ok_def ordered_def)
  have alive: "filter (live E) (map snd (filter (from_pair v y) rows)) = map snd (filter (from_pair v y) rows)"
    by (rule filter_True) (use assms(3) in auto)
  let ?B = "range_bounds ?lo ?hi ?lo ?hi q"
  have B: "bd_forward ?B" "\<not> (bd_seekExactPrefix ?B \<and> bd_only ?B)" using asc by (simp_all add: range_bounds_def)
  have scan': "se_scan E (bd_forward ?B) ?lo ?hi = (map snd (filter (from_pair v y) rows), True)"
    using scan B(1) by simp
  have "seek E (Suc (Suc 0)) True ?B nx (length ?cp) fuel ?lo ?hi ?lo ?hi (?cp, s) =
      Some (None, ?cp, s @ map snd (filter (from_pair v y) rows))" for nx
    by (rule seek_last [OF T(2,3) B(2) scan' assms(8), unfolded alive])
  then show ?thesis
    using from_on_variants [OF assms(4), of E] from_on_bounds [OF assms(4) T(1), of ?cp]
    by (simp add: iterateFieldVariant_def range_bounds_def)
qed

text \<open>The upper bound never moves in a walk upwards.\<close>

lemma seek_upper:
  assumes "bd_forward B" "\<And>from st. next from toS st = next' from toS st"
  shows "seek E pos lastField B next offset fuel lower upper fromS toS st =
         seek E pos lastField B next' offset fuel lower upper fromS toS st"
proof (induction fuel arbitrary: lower fromS st)
  case (Suc fuel)
  have "next f toS = next' f toS" for f using assms(2) by blast
  then show ?case using Suc assms(1) by (simp split: prod.split option.split walked.split)
qed simp

lemma variant_upper:
  assumes "from_on q x" "text_lib_ok (se_text E)" "\<And>from st. nx from hi st = nx' from hi st"
  shows "iterateFieldVariant E fuel pos lastField nx q lo hi st = iterateFieldVariant E fuel pos lastField nx' q lo hi st"
proof -
  have "bd_forward (range_bounds a b c d q)" for a b c d using assms(1) by (simp add: range_bounds_def from_on_def)
  then show ?thesis
    unfolding iterateFieldVariant_def from_on_bounds [OF assms(1,2)] option.case
    using seek_upper [of _ nx hi nx', OF _ assms(3)] by (simp add: range_bounds_def)
qed

subsection \<open>Properties\<close>

text \<open>An index of a topic in a database: entries and rows, the latter with a value for every field of the query.\<close>

definition index_ok :: "string \<Rightarrow> string \<Rightarrow> nat \<Rightarrow> db_entry list \<Rightarrow> index_row list \<Rightarrow> bool" where
  "index_ok topic indexId n db rows \<longleftrightarrow>
     length indexId = 8 \<and> level_ok (indexPrefix topic indexId) [] db rows \<and> columns_ok rows \<and>
     (\<forall>r \<in> set rows. n \<le> length (fst r))"

lemma searchTopic_rows:
  assumes "env_ok E db" "index_ok (se_topic E) indexId (length qs) db rows" "query_ok E rows qs" "qs \<noteq> []"
    and "length db < fuel"
  shows "searchTopic E fuel indexId qs s = Some (None, s @ find_rows (live E) (variants_of E) qs rows)"
proof -
  let ?p = "indexPrefix (se_topic E) indexId"
  have "\<forall>f \<in> set (variants_of E (hd qs)). bounds_at (cursor_at ?p []) f (?p @ [SeparatorChar]) (?p @ [SeparatorCharPlus])"
    by (simp add: bounds_at_def)
  then show ?thesis
    using nextKeyField_finds [OF assms(1) refl, of indexId fuel "[]" rows qs] assms(2-5)
    by (simp add: searchTopic_def index_ok_def)
qed

text \<open>C10: a search by an index that gathers all entries, without a filter by time points, ends without an error and
  finds exactly the entries that are live and whose values lie, for every field of the query, in one of the ranges that
  the search makes of the field's operator and operand. The queries are those of \<open>query_ok\<close>: of two fields that
  follow each other one is an equality or a choice of equalities (a range below a range is
  \<open>nested_ranges_leak\<close>), and the operands are values that the keys can hold and that compare with those of their
  column: \<open>value_ok\<close> and \<open>comparable\<close>, so dates from 1970 on and on one side of 2^40 milliseconds. As many seeks
  as there are entries are enough.\<close>

theorem search_finds:
  assumes "env_ok E db" "index_ok (se_topic E) indexId (length qs) db rows" "query_ok E rows qs" "qs \<noteq> []"
    and "length db < fuel"
  shows "\<exists>out. searchTopic E fuel indexId qs [] = Some (None, out) \<and>
     (\<forall>e. e \<in> set out \<longleftrightarrow> (\<exists>r \<in> set rows. e = snd r \<and> live E e \<and> row_matches (variants_of E) qs (fst r)))"
  using searchTopic_rows [OF assms, of "[]"] find_rows_set [OF assms(4)] by simp

text \<open>C11: under the same conditions (so of two fields that follow each other one is an equality), when the search makes
  one range of each field and all fields are in ascending order, it returns the live entries in these ranges, each
  once, in the order of their keys.\<close>

theorem search_in_order:
  assumes "env_ok E db" "index_ok (se_topic E) indexId (length qs) db rows" "query_ok E rows qs" "qs \<noteq> []"
    and "length db < fuel" "ascending (variants_of E) qs"
  shows "searchTopic E fuel indexId qs [] =
     Some (None, map snd (filter (\<lambda>r. live E (snd r) \<and> row_matches (variants_of E) qs (fst r)) rows))"
proof -
  have "sorted_wrt (\<lambda>a b. str_less (fst a) (fst b)) db" using assms(1) by (simp add: env_ok_def scan_ok_def)
  then have "grouped_rows_at (length qs) rows"
    using level_grouped [OF refl _ _, of indexId db "se_topic E" "[]" rows "length qs"] assms(2) by (simp add: index_ok_def)
  then show ?thesis
    using searchTopic_rows [OF assms(1-5), of "[]"] find_rows_ascending [OF assms(4,6)] by simp
qed

subsection \<open>An index of two fields\<close>

text \<open>The searches of examples.\<close>

definition demo_index :: string where "demo_index = ''01234567''"

definition demo_row :: "db_value list \<Rightarrow> string \<Rightarrow> index_row" where
  "demo_row vals oid = (vals, row_key (indexPrefix ''t'' demo_index) vals oid, [0])"

definition demo_env :: "index_row list \<Rightarrow> db_entry list search_env" where
  "demo_env rows =
     \<lparr>se_text = the_text_lib, se_scan = (\<lambda>forward lo hi. (ordered forward (filter (between lo hi) (map snd rows)), True)),
      se_now = 0, se_filter = None, se_topic = ''t'', se_sort = sort_by, se_sortIntervals = sort_by,
      se_callback = collect\<rparr>"

definition demo_field :: "Operator \<Rightarrow> operand \<Rightarrow> Order \<Rightarrow> query_field" where
  "demo_field op v ord = \<lparr>qf_op = op, qf_value = v, qf_order = ord, qf_relaxedNeqNull = False\<rparr>"

definition demo_table :: "(db_value list \<times> string) list \<Rightarrow> index_row list" where
  "demo_table = map (\<lambda>(vals, oid). demo_row vals oid)"

definition demo_rows :: "index_row list" where
  "demo_rows = demo_table [([DvInt 1, DvInt 7], ''a''), ([DvInt 1, DvInt 9], ''b''), ([DvInt 2, DvInt 3], ''c''),
     ([DvInt 2, DvInt 9], ''d''), ([DvInt 3, DvInt 9], ''e'')]"

lemma demo_env_ok: "sorted_wrt (\<lambda>a b. str_less (fst a) (fst b)) (map snd rows) \<Longrightarrow> env_ok (demo_env rows) (map snd rows)"
  by (simp add: env_ok_def demo_env_def the_text_lib_ok scan_ok_def)

lemma demo_table_ok:
  assumes "\<forall>(vals, oid) \<in> set ps. length vals = 2 \<and> (\<forall>v \<in> set vals. value_ok v) \<and> oid \<noteq> []"
    and "columns_ok (demo_table ps)"
  shows "index_ok ''t'' demo_index 2 (map snd (demo_table ps)) (demo_table ps)"
proof -
  let ?p = "indexPrefix ''t'' demo_index"
  have key: "\<exists>oid. oid \<noteq> [] \<and> fst (snd r) = ?p @ SeparatorChar # row_body (fst r) oid" if "r \<in> set (demo_table ps)" for r
    using that assms(1) unfolding demo_table_def demo_row_def row_key_def by force
  have all: "filter (\<lambda>e. \<exists>s. fst e = ?p @ SeparatorChar # s) (map snd (demo_table ps)) = map snd (demo_table ps)"
    by (rule filter_True) (use key in fastforce)
  have plus: "fst e \<noteq> ?p @ [SeparatorCharPlus]" if "e \<in> set (map snd (demo_table ps))" for e
    using that key by fastforce
  have "length (fst r) = 2 \<and> (\<forall>v \<in> set (fst r). value_ok v)" if "r \<in> set (demo_table ps)" for r
    using that assms(1) unfolding demo_table_def demo_row_def by force
  then show ?thesis
    using assms(2) all key plus unfolding index_ok_def level_ok_def cursor_at_simps row_key_def append_Nil append_Cons
    by (auto simp: demo_index_def)
qed

lemma digits_at_numeral: "digits_at base (numeral w) n = digits_at base (pred_numeral w) (n div base) @ [digit_char (n mod base)]"
  by (simp add: numeral_eq_Suc)

lemma demo_sorted: "sorted_wrt (\<lambda>a b. str_less (fst a) (fst b)) (map snd demo_rows)"
  by (simp add: demo_rows_def demo_table_def demo_row_def row_key_def row_body_def digits_at_numeral digit_char_def of_char_of)

lemma demo_simps [simp]:
  "se_topic (demo_env rows) = ''t''" "live (demo_env rows) (snd (demo_row vals oid))" "length demo_rows = 5"
  by (simp_all add: demo_env_def demo_row_def live_def isExpired_def ttlMarkTimepoint_def demo_rows_def demo_table_def)

lemma demo_rows_ok: "index_ok ''t'' demo_index 2 (map snd demo_rows) demo_rows"
  unfolding demo_rows_def by (rule demo_table_ok) (simp_all add: demo_table_def demo_row_def columns_ok_def)

definition nine_not_two :: "query_field list" where
  "nine_not_two = [demo_field op_neq (ScalarV (DvInt 2)) Asc, demo_field op_eq (ScalarV (DvInt 9)) Asc]"

definition nine_from_two :: "query_field list" where
  "nine_from_two = [demo_field op_gte (ScalarV (DvInt 2)) Asc, demo_field op_eq (ScalarV (DvInt 9)) Asc]"

lemmas demo_query_eval = demo_field_def variants_of_def fieldVariants_def variant_field_def variant_at_def
  variant_valid_def variant_ok_def variant_fits_def variant_values_def checkOperator_def isScalarOp_def exact_def
  ascending_def demo_rows_def demo_table_def demo_row_def

lemma nine_not_two_ok: "query_ok (demo_env demo_rows) demo_rows nine_not_two"
  by (simp add: nine_not_two_def demo_query_eval)

lemma nine_from_two_ok: "query_ok (demo_env demo_rows) demo_rows nine_from_two" "ascending (variants_of (demo_env demo_rows)) nine_from_two"
  by (simp_all add: nine_from_two_def demo_query_eval)

lemma nine_simps [simp]:
  "length nine_not_two = 2" "nine_not_two \<noteq> []" "length nine_from_two = 2" "nine_from_two \<noteq> []"
  by (simp_all add: nine_not_two_def nine_from_two_def)

lemma search_finds_witness:
  "\<exists>out. searchTopic (demo_env demo_rows) 6 demo_index nine_not_two [] = Some (None, out) \<and>
     snd (demo_row [DvInt 1, DvInt 9] ''b'') \<in> set out"
proof -
  let ?e = "snd (demo_row [DvInt 1, DvInt 9] ''b'')"
  have "\<exists>r \<in> set demo_rows. ?e = snd r \<and> live (demo_env demo_rows) ?e \<and>
      row_matches (variants_of (demo_env demo_rows)) nine_not_two (fst r)"
    by (simp add: nine_not_two_def demo_query_eval variant_matches.simps live_def isExpired_def ttlMarkTimepoint_def)
  then show ?thesis
    using search_finds [OF demo_env_ok [OF demo_sorted] _ nine_not_two_ok, of demo_index 6] demo_rows_ok by fastforce
qed

lemma search_in_order_witness:
  "searchTopic (demo_env demo_rows) 6 demo_index nine_from_two [] =
     Some (None, [snd (demo_row [DvInt 2, DvInt 9] ''d''), snd (demo_row [DvInt 3, DvInt 9] ''e'')])"
proof -
  have "filter (\<lambda>r. live (demo_env demo_rows) (snd r) \<and> row_matches (variants_of (demo_env demo_rows)) nine_from_two (fst r))
      demo_rows = [demo_row [DvInt 2, DvInt 9] ''d'', demo_row [DvInt 3, DvInt 9] ''e'']"
    by (simp add: nine_from_two_def demo_query_eval variant_matches.simps live_def isExpired_def ttlMarkTimepoint_def)
  then show ?thesis
    using search_in_order [OF demo_env_ok [OF demo_sorted] _ nine_from_two_ok(1) _ _ nine_from_two_ok(2), of demo_index 6]
      demo_rows_ok by simp
qed

text \<open>A range under a range: the bounds of the second field reach to the end of the first one's.\<close>

definition leak_rows :: "index_row list" where
  "leak_rows = demo_table [([DvString ''a'', DvString ''g''], ''x''), ([DvString ''b'', DvString ''c''], ''y'')]"

definition from_a_and_e :: "query_field list" where
  "from_a_and_e = [demo_field op_gte (ScalarV (DvString ''a'')) Asc, demo_field op_gte (ScalarV (DvString ''e'')) Asc]"

lemma leak_sorted: "sorted_wrt (\<lambda>a b. str_less (fst a) (fst b)) (map snd leak_rows)"
  by code_simp

lemma leak_rows_ok: "index_ok ''t'' demo_index 2 (map snd leak_rows) leak_rows"
  unfolding leak_rows_def by (rule demo_table_ok) (simp_all add: demo_table_def demo_row_def columns_ok_def)

lemma from_on_at: "from_on q x \<Longrightarrow> \<forall>r \<in> set rows. comparable (hd (fst r)) x \<Longrightarrow> variant_at q rows \<and> \<not> exact q"
  by (simp add: from_on_def variant_at_def variant_valid_def variant_ok_def variant_fits_def variant_values_def exact_def
      checkOperator_def isScalarOp_def)

text \<open>C40: two fields that both ask for values from one on, the second from \<open>y\<close> on, over an index without expired
  entries: the search ends without an error and returns, for each value \<open>v\<close> of the first field that matches, not the
  rows of \<open>v\<close> whose second value is \<open>y\<close> or more but all rows above the pair of \<open>v\<close> and \<open>y\<close>: also those of every
  greater first value, whether their second value matches or not, and once again for each \<open>v\<close> below them.\<close>

theorem nested_ranges_leak:
  assumes "env_ok E db" "index_ok (se_topic E) indexId 2 db rows" "\<forall>r \<in> set rows. live E (snd r)"
    and "from_on q1 x" "from_on q2 y" "\<forall>r \<in> set rows. comparable (fst r ! 0) x \<and> comparable (fst r ! 1) y"
    and "length db < fuel"
  shows "searchTopic E fuel indexId [q1, q2] [] =
     Some (None, concat (map (\<lambda>v. map snd (filter (from_pair v y) rows)) (remdups_adj (heads (matching q1 rows)))))"
proof -
  let ?p = "indexPrefix (se_topic E) indexId"
  let ?nx = "\<lambda>from to st. nextKeyField E fuel (Suc 0) [q2] from to st"
  let ?nx' = "\<lambda>from to st. nextKeyField E fuel (Suc 0) [q2] from (?p @ [SeparatorCharPlus]) st"
  define N where "N v = (if v \<in> set (heads rows) then map snd (filter (from_pair v y) rows) else [])" for v
  have ix: "length indexId = 8" "level_ok ?p [] db rows" "columns_ok rows" "\<forall>r \<in> set rows. 2 \<le> length (fst r)"
    using assms(2) by (simp_all add: index_ok_def)
  have ne: "\<forall>r \<in> set rows. fst r \<noteq> []" using ix(4) by auto
  then have hd0: "\<forall>r \<in> set rows. hd (fst r) = fst r ! 0" by (simp add: hd_conv_nth)
  note heads_ok = columns_heads [OF ix(3) ne]
  have at: "variant_at q1 rows" "\<not> exact q1" using from_on_at [OF assms(4), of rows] assms(6) hd0 by simp_all
  have under: "\<forall>v \<in> set (heads (matching q1 rows)). next_ok ?nx' (cursor_at ?p ([] @ [v])) True (N v)"
  proof
    fix v assume "v \<in> set (heads (matching q1 rows))"
    then obtain r where r: "r \<in> set rows" "hd (fst r) = v" by (auto simp: matching_def)
    have v: "value_ok v" "\<forall>r \<in> set rows. comparable (fst r ! 0) v"
      using level_key [OF ix(2) r(1)] ne r heads_ok hd0 by auto
    have "N v = map snd (filter (from_pair v y) rows)" using r by (force simp: N_def)
    then show "next_ok ?nx' (cursor_at ?p ([] @ [v])) True (N v)"
      using from_pair_search [OF assms(1) ix(2) _ assms(5) _ v, of fuel] ix(4) assms(3,6,7)
      unfolding next_ok_def cursor_at_simps by simp
  qed
  have some: "\<forall>v. N v \<noteq> [] \<longrightarrow> (\<exists>r \<in> set rows. hd (fst r) = v \<and> live E (snd r))" using assms(3) by (auto simp: N_def)
  have asc: "qf_order q1 = Asc" using assms(4) by (simp add: from_on_def)
  have "bounds_at (cursor_at ?p []) q1 (?p @ [SeparatorChar]) (?p @ [SeparatorCharPlus])" by (simp add: bounds_at_def)
  from variant_range [OF assms(1) ix(2) ne at(1) this assms(7) at(2) refl ix(1) heads_ok under]
  have "iterateFieldVariant E fuel (Suc 0) False ?nx' q1 (?p @ [SeparatorChar]) (?p @ [SeparatorCharPlus]) (?p, []) =
      Some (None, ?p, concat (map N (remdups_adj (heads (matching q1 rows)))))"
    using some asc by (simp add: ordered_def)
  moreover have "iterateFieldVariant E fuel (Suc 0) False ?nx q1 (?p @ [SeparatorChar]) (?p @ [SeparatorCharPlus]) (?p, []) =
      iterateFieldVariant E fuel (Suc 0) False ?nx' q1 (?p @ [SeparatorChar]) (?p @ [SeparatorCharPlus]) (?p, [])"
    by (rule variant_upper [OF assms(4)]) (use assms(1) in \<open>simp_all only: env_ok_def\<close>)
  moreover have "map N (remdups_adj (heads (matching q1 rows))) =
      map (\<lambda>v. map snd (filter (from_pair v y) rows)) (remdups_adj (heads (matching q1 rows)))"
    by (rule map_cong [OF refl]) (auto simp: N_def matching_def)
  moreover have "nextKeyField E fuel 0 [q1, q2] lo hi st =
      eachVariant (\<lambda>f. iterateFieldVariant E fuel (Suc 0) False ?nx f lo hi) [q1] st" for lo hi st
    using from_on_variants [OF assms(4), of E] unfolding nextKeyField.simps(2) [of E fuel 0 q1]
    by (simp del: nextKeyField.simps)
  ultimately show ?thesis
    using from_on_variants [OF assms(4), of E] by (simp add: searchTopic_def del: nextKeyField.simps)
qed

lemma from_a_and_e_ok:
  "from_on (from_a_and_e ! 0) (DvString ''a'')" "from_on (from_a_and_e ! 1) (DvString ''e'')"
  "\<forall>r \<in> set leak_rows. live (demo_env leak_rows) (snd r)"
  "\<forall>r \<in> set leak_rows. comparable (fst r ! 0) (DvString ''a'') \<and> comparable (fst r ! 1) (DvString ''e'')"
  by (simp_all add: from_a_and_e_def from_on_def demo_field_def leak_rows_def demo_table_def demo_row_def live_def
      isExpired_def ttlMarkTimepoint_def)

lemma in_concat_map:
  "v \<in> set vs \<Longrightarrow> r \<in> set (F v) \<Longrightarrow> snd r \<in> set (concat (map (\<lambda>v. map snd (F v)) (remdups_adj vs)))"
  by auto

lemma nested_ranges_leak_witness:
  "\<exists>out. searchTopic (demo_env leak_rows) 3 demo_index [from_a_and_e ! 0, from_a_and_e ! 1] [] = Some (None, out) \<and>
     snd (demo_row [DvString ''b'', DvString ''c''] ''y'') \<in> set out"
proof -
  let ?r = "demo_row [DvString ''b'', DvString ''c''] ''y''"
  have "DvString ''a'' \<in> set (heads (matching (from_a_and_e ! 0) leak_rows))"
    by (simp add: from_a_and_e_def demo_field_def leak_rows_def demo_table_def demo_row_def matching_def variant_matches.simps)
  moreover have "?r \<in> set (filter (from_pair (DvString ''a'') (DvString ''e'')) leak_rows)"
    by (simp add: leak_rows_def demo_table_def demo_row_def from_pair_def)
  ultimately have found: "snd ?r \<in> set (concat (map (\<lambda>v. map snd (filter (from_pair v (DvString ''e'')) leak_rows))
      (remdups_adj (heads (matching (from_a_and_e ! 0) leak_rows)))))"
    by (rule in_concat_map)
  have "length (map snd leak_rows) < 3" by (simp add: leak_rows_def demo_table_def)
  moreover have "index_ok (se_topic (demo_env leak_rows)) demo_index 2 (map snd leak_rows) leak_rows"
    using leak_rows_ok by (simp add: demo_env_def)
  ultimately show ?thesis
    using nested_ranges_leak [OF demo_env_ok [OF leak_sorted] _ from_a_and_e_ok(3,1,2,4), of demo_index 3] found by blast
qed

end
