(* ===== verification/Spec2Isabelle.thy ===== *)
theory Spec2Isabelle
  imports HatnPrelude VarInt ObjectId LruTtl FlatMap TimeOfDay CalDate ByteArray Socks5 CryptFaults
    UnitTypes UnitSize UnitFaults DbQuery
begin

text \<open>
  \<^bold>\<open>hatn: a verification library\<close>

  hatn is a C++ platform for networked applications: \<open>common\<close> (containers, byte arrays, dates, caches),
  \<open>dataunit\<close> (wire format of typed messages), \<open>network\<close>, \<open>crypt\<close> (encrypted files and streams over a
  plugin), \<open>db\<close> (a document database over RocksDB), and the servers and clients built from them. The
  theories model the parts that carry logic of their own. Paths below are under \<open>src/\<close>.

  \<^bold>\<open>Conventions.\<close> A class is a \<open>record\<close> with one field per member, an enum a \<open>datatype\<close> or the number the
  code compares, an operation a function from the state to the state and the result. \<open>option\<close>
  stands for what C++ leaves undefined, a failed assertion or a loop that does not end; errors the
  code returns or throws are values of a sum or option type of the operation. Integers whose width
  matters are words or integers reduced where the source converts (\<open>u8\<close>, \<open>u32\<close>, \<open>s32\<close>, \<dots>). Code that is not in
  the tree (\<open>fmt\<close>, Boost, the memory allocator) is an argument of the definitions that use it; what is
  relied on is a named predicate (\<open>fmt_dec_ok\<close>, \<open>greg_ok\<close>, \<open>alloc_ok\<close>) that the witnesses instantiate.

  \<^bold>\<open>Theories.\<close>

  \<^item> \<open>HatnPrelude\<close>: conversions of machine integers, words as numbers, numerals printed and read, the
    order of strings.
  \<^item> \<open>VarInt\<close>: variable-length integers of the wire format, \<open>dataunit/src/stream.cpp\<close> and
    \<open>dataunit/include/hatn/dataunit/stream.h\<close>. Packing and unpacking are inverse, truncated and
    overlong input is refused, and the cursor moves by what was read. The loops run over at most ten
    bytes.
  \<^item> \<open>WireBuf\<close>: solid wire buffers and the serializers of single values over them, \<open>wirebuf.h\<close> and
    \<open>ipp/fieldserialization.ipp\<close> of \<open>dataunit\<close>. The locale \<open>value_codec\<close> is what units rely on in a serializer: it writes
    an encoding and reads it back wherever that stands in a buffer; varints, fixed sizes and bytes interpret it.
    A reading that fails carries the error, the buffer at the place it got to, and what it has filled in.
  \<^item> \<open>DataUnit\<close>: units, \<open>visitors.h\<close> and the fields of \<open>fields/\<close>: a unit is a description (what the macros of
    \<open>syntax.h\<close> declare) and a list of fields; serializing and parsing recurse over the description, the loop of the
    parser goes through the table of \<open>fieldParsers\<close> and is undefined when it does not end; a failure cleans up the unit
    as it was filled so far and the buffer as it was read. \<open>UnitCodec\<close> gives the encoding
    of a unit as a function and shows that \<open>serialize\<close> writes it; \<open>UnitParse\<close> that \<open>deserialize\<close> reads it, also with
    another description, into any unit that is \<open>ready\<close> (nothing set, or filled by parsing before); \<open>UnitTypes\<close> that
    parsing any bytes keeps every field within its type, that every failure leaves unit and buffer reset, and that a
    message without a required field is refused; \<open>UnitSize\<close> is about
    the estimated size of a unit, \<open>UnitFaults\<close> about messages that the parser mishandles. What the properties of the
    format leave out, because the code mishandles it, stands in their texts: packed fields that are set but empty, and,
    for a reader with another description, counted fields and varints over five bytes that it does not know.
  \<^item> \<open>ObjectId\<close>: identifiers of objects, \<open>objectid.h\<close> and \<open>src/objectid.cpp\<close> of \<open>dataunit\<close>: the generator (a state of
    last time and sequence number), the text form and its parser, the order of identifiers.
  \<^item> \<open>Lru\<close>, \<open>CacheLru\<close>, \<open>LruTtl\<close>: \<open>lru.h\<close>, \<open>cachelru.h\<close>, \<open>lruttl.h\<close> of \<open>common/include/hatn/common\<close>, over the map storage of \<open>std\<close>.
    The list of uses is kept as a queue of keys; a locale states what the policy needs of the map
    storage, and the interpretation on the model's storage gives its laws. Invariants: the queue has
    no key twice and names only stored items.
  \<^item> \<open>FlatMap\<close>: \<open>flatmap.h\<close> of \<open>common\<close>: the sorted vector behind flat maps and sets refines a finite map.
  \<^item> \<open>TimeOfDay\<close>, \<open>CalDate\<close>: \<open>time.h\<close>, \<open>date.h\<close>, \<open>daterange.h\<close> and \<open>src/datetime.cpp\<close> of \<open>common\<close>: parsing and
    printing of times and dates, arithmetic, ranges of years, quarters, months and weeks. The
    Gregorian calendar of Boost is a parameter, with the reference calendar as its instance.
  \<^item> \<open>BlockSize\<close>, \<open>ByteArray\<close>: \<open>memorypool/memblocksize.h\<close> and \<open>bytearray.h\<close> of \<open>common\<close>. The byte array is
    refined to the list of its bytes for every edit on memory of its own; where the code leaves its
    region the model gives \<open>None\<close>. The locale \<open>block_rounding\<close> is what byte arrays rely on in the rounding
    of capacities.
  \<^item> \<open>Socks5\<close>: \<open>network/src/socks5client.cpp\<close>, the client of the SOCKS5 protocol over byte arrays. The steps are
    a state machine whose reachable states stay inside the buffers, but for the login request with a password that is
    too long. The loop of a caller (\<open>dialogue\<close>) is written for the model; it runs on fuel, and six requests are enough
    for every server.
  \<^item> \<open>CryptContainer\<close>: \<open>cryptcontainerheader.h\<close> and \<open>cryptcontainer.ipp\<close> of \<open>crypt\<close>: the header, the sizes of chunks,
    packing and unpacking. The cipher suite is a parameter with the law \<open>aead_ok\<close>: what is opened is what was
    sealed, and sealing adds a fixed number of bytes.
  \<^item> \<open>CryptFile\<close>: \<open>crypt/src/cryptfile.cpp\<close> and \<open>cryptfile.h\<close>, on the containers and on the recency list that
    \<open>CacheLru\<close> implements: a plaintext under a cursor, kept as encrypted chunks of which a few are in a cache.
    \<open>CryptLayout\<close> gives the layout of chunks in plain and raw file; \<open>CryptRefine\<close> the representation: which plaintext
    a state stands for, where a dirty chunk overrides what is on the disk, and that flushing keeps it;
    \<open>CryptSeek\<close>, \<open>CryptIO\<close>, \<open>CryptWrite\<close> show seeking, reading and writing against it, one step of a loop at a time.
  \<^item> \<open>CryptCalls\<close>: the locale \<open>byte_file\<close>, the contract of a file (seek, read, write and flush against a list of bytes
    with a position), proved once for sequences of calls and interpreted on \<open>CryptFile\<close>. \<open>CryptOpen\<close> opens new and
    existing files and closes them, \<open>CryptSessions\<close> composes whole sessions and opens and reads as a file what the
    containers pack, \<open>CryptStamps\<close> is about stamps and
    digests behind the ciphertext, \<open>CryptFaults\<close> about positions and the sequences of calls that lose data.

  \<^item> \<open>DbKeys\<close>, \<open>DbInterval\<close>, \<open>DbSearch\<close>: the database over RocksDB, \<open>db/plugins/rocksdb\<close>, and its queries, \<open>query.h\<close> of \<open>db\<close>: keys and
    values of indexes, marks of expiry, intervals, and the search by an index, \<open>src/indexkeysearch.cpp\<close>: for each field
    its variants, for each variant a range of keys, for each key the next field. The iterator of RocksDB is an argument
    with the law \<open>scan_ok\<close>. \<open>DbFind\<close> shows that the bounds of a variant hold the keys whose values it matches, \<open>DbWalk\<close> that
    a walk visits every group of keys once, \<open>DbQuery\<close> that the search returns what its specification \<open>find_rows\<close> says, for
    queries in which of two fields that follow each other one is an equality, and what it returns for a range below a
    range.

  \<^bold>\<open>Bounds.\<close> \<open>layout_ok\<close> asks that the raw file with its \<open>K\<close> chunks stays below 4 GiB, where the 32-bit arithmetic
  of positions is exact; \<open>crypt_positions_wrap\<close> shows what happens beyond. Loops that are structural in what is
  left to read or write are total functions; \<open>drop_chunks\<close>, whose end rests on the number of the last chunk,
  is a \<open>partial_function\<close>; a search of an index takes no more seeks than there are entries. Calls to the raw file are taken to succeed, errors of the disk are not modelled.

  \<^bold>\<open>Not modelled.\<close> Containers and files in the mode of streams, the backup copy and the shrinking proofs of
  \<open>truncate\<close> (its operations are in \<open>CryptFile\<close>), digests and MACs themselves, JSON,
  maps and chained buffers of data units, the rest of the database (objects, partitions, topics), messaging, access control and the servers. Threads, sockets, timers and memory pools are glue over Boost,
  and the cryptographic primitives are OpenSSL.
\<close>

end
